(* ===== verification/Prelude.thy ===== *)
theory Prelude
  imports Main "HOL-Library.Word"
begin

text \<open>
  Shared vocabulary of the development: the machine types of the C++ sources as words, byte
  buffers with the effect of \<^verbatim>\<open>memcpy\<close>, wrapping counters, and the generic facts on lists,
  words and cyclic indices that the component theories share. The collections declared here
  are filled by the component theories: \<open>wire_simps\<close> holds the lengths and projections of the
  wire encodings, \<open>frame_simps\<close> the fields an operation leaves alone.
\<close>

unbundle bit_operations_syntax

named_theorems wire_simps
named_theorems frame_simps

type_synonym byte = "8 word"
type_synonym u16 = "16 word"
type_synonym u32 = "32 word"
type_synonym u64 = "64 word"

section \<open>Byte buffers\<close>

text \<open>
  \<open>poke off bs buf\<close> is the effect of \<^verbatim>\<open>memcpy(buf + off, bs, len)\<close> on the contents of a
  buffer, \<open>peek off n buf\<close> the bytes a read of \<open>n\<close> bytes at \<open>off\<close> sees.
\<close>

definition poke :: "nat \<Rightarrow> 'a list \<Rightarrow> 'a list \<Rightarrow> 'a list" where
  "poke off bs buf = take off buf @ bs @ drop (off + length bs) buf"

definition peek :: "nat \<Rightarrow> nat \<Rightarrow> 'a list \<Rightarrow> 'a list" where
  "peek off n buf = take n (drop off buf)"

lemma length_poke [simp]:
  "off + length bs \<le> length buf \<Longrightarrow> length (poke off bs buf) = length buf"
  by (simp add: poke_def)

lemma length_peek [simp]: "off + n \<le> length buf \<Longrightarrow> length (peek off n buf) = n"
  by (simp add: peek_def)

lemma peek_poke_same:
  "off + length bs \<le> length buf \<Longrightarrow> peek off (length bs) (poke off bs buf) = bs"
  by (simp add: peek_def poke_def)

lemma take_poke_before:
  "n \<le> off \<Longrightarrow> off \<le> length buf \<Longrightarrow> take n (poke off bs buf) = take n buf"
  by (simp add: poke_def)

lemma drop_poke_after:
  "off + length bs \<le> n \<Longrightarrow> off \<le> length buf \<Longrightarrow> drop n (poke off bs buf) = drop n buf"
  by (simp add: poke_def add.commute)

lemma take_poke_snoc:
  "off \<le> length buf \<Longrightarrow> take (off + length bs) (poke off bs buf) = take off buf @ bs"
  by (simp add: poke_def)

lemma poke_mid:
  "length pre = off \<Longrightarrow> length old = length bs \<Longrightarrow> poke off bs (pre @ old @ post) = pre @ bs @ post"
  by (simp add: poke_def)

lemma peek_mid: "length pre = off \<Longrightarrow> length xs = n \<Longrightarrow> peek off n (pre @ xs @ post) = xs"
  by (simp add: peek_def)

lemma peek_append_left: "off + n \<le> length xs \<Longrightarrow> peek off n (xs @ ys) = peek off n xs"
  by (simp add: peek_def)

lemma peek_append_right: "length xs \<le> off \<Longrightarrow> peek off n (xs @ ys) = peek (off - length xs) n ys"
  by (simp add: peek_def)

lemma peek_0_exact [simp]: "peek 0 (length xs) xs = xs"
  by (simp add: peek_def)

section \<open>Unsigned counters\<close>

text \<open>A \<^verbatim>\<open>size_t\<close> counter is kept as a natural number below \<open>2 ^ 64\<close>; decrementing wraps.\<close>

definition size_dec :: "nat \<Rightarrow> nat" where
  "size_dec n = (if n = 0 then 2 ^ 64 - 1 else n - 1)"

lemma size_dec_pos: "0 < n \<Longrightarrow> size_dec n = n - 1"
  by (simp add: size_dec_def)

lemma size_dec_zero: "size_dec 0 = 2 ^ 64 - 1"
  by (simp add: size_dec_def)

section \<open>Powers of two as masks\<close>

lemma nat_and_mask_mod: "m + 1 = 2 ^ n \<Longrightarrow> i AND m = i mod (m + 1)" for i m :: nat
proof -
  assume eq: "m + 1 = 2 ^ n"
  then have "m = mask n" by (simp add: mask_eq_exp_minus_1)
  then show ?thesis using eq by (simp add: take_bit_eq_mask [symmetric] take_bit_eq_mod)
qed

section \<open>Lists\<close>

lemma map_nth_upt: "map (\<lambda>i. f (xs ! i)) [0..<length xs] = map f xs"
  by (rule nth_equalityI) auto

lemma sum_list_update_nat:
  "i < length xs \<Longrightarrow> sum_list (xs[i := v]) + xs ! i = sum_list xs + v" for xs :: "nat list"
  by (induction xs arbitrary: i) (auto split: nat.splits)

lemma distinct_remove1_append:
  "distinct (xs @ x # ys) \<Longrightarrow> remove1 x (xs @ x # ys) = xs @ ys"
  by (simp add: remove1_append)

section \<open>Words as numbers\<close>

lemma unat_lt2p: "unat (w :: 'a::len word) < 2 ^ LENGTH('a)"
  by (rule unsigned_less)

lemma unat_ucast_mod: "unat (ucast (w :: 'a::len word) :: 'b::len word) = unat w mod 2 ^ LENGTH('b)"
  by (simp add: unsigned_ucast_eq take_bit_eq_mod)

lemma unat_drop_bit_div: "unat (drop_bit k (w :: 'a::len word)) = unat w div 2 ^ k"
  by (simp only: unat_drop_bit_eq) (simp add: drop_bit_eq_div)

section \<open>Leading and trailing zeros\<close>

text \<open>\<^verbatim>\<open>__builtin_ctz\<close>/\<^verbatim>\<open>std::countr_zero\<close> and \<^verbatim>\<open>__builtin_clz\<close>/\<^verbatim>\<open>std::countl_zero\<close> at any width.\<close>

definition countr_zero :: "'a::len word \<Rightarrow> nat" where
  "countr_zero w = length (takeWhile (\<lambda>i. \<not> bit w i) [0..<LENGTH('a)])"

definition countl_zero :: "'a::len word \<Rightarrow> nat" where
  "countl_zero w = length (takeWhile (\<lambda>i. \<not> bit w (LENGTH('a) - 1 - i)) [0..<LENGTH('a)])"

lemma length_takeWhile_upt:
  assumes "k < n" and "\<not> P k"
  shows "length (takeWhile P [0..<n]) < n \<and> \<not> P (length (takeWhile P [0..<n])) \<and>
    (\<forall>i < length (takeWhile P [0..<n]). P i)"
proof -
  let ?l = "length (takeWhile P [0..<n])"
  have ne: "takeWhile P [0..<n] \<noteq> [0..<n]" using assms by (auto simp: takeWhile_eq_all_conv)
  then have l: "?l < n" by (metis diff_zero length_takeWhile_le length_upt nat_less_le takeWhile_eq_take take_all)
  then have "\<not> P ([0..<n] ! ?l)" using nth_length_takeWhile [of P "[0..<n]"] by simp
  moreover have "P i" if "i < ?l" for i
    using that l set_takeWhileD [of "takeWhile P [0..<n] ! i" P "[0..<n]"] takeWhile_nth [OF that]
    by (metis add.left_neutral diff_zero length_upt nth_mem nth_upt order_less_trans)
  ultimately show ?thesis using l by simp
qed

lemma word_neq_zero_bit: "(w :: 'a::len word) \<noteq> 0 \<Longrightarrow> \<exists>k < LENGTH('a). bit w k"
  by (metis bit_imp_le_length bit_0_eq bot_fun_def bot_bool_def bit_word_eqI)

lemma countr_zero_bit:
  fixes w :: "'a::len word"
  assumes "w \<noteq> 0"
  shows "countr_zero w < LENGTH('a) \<and> bit w (countr_zero w) \<and> (\<forall>i < countr_zero w. \<not> bit w i)"
proof -
  obtain k where "k < LENGTH('a)" "bit w k" using word_neq_zero_bit [OF assms] by blast
  then show ?thesis using length_takeWhile_upt [of k "LENGTH('a)" "\<lambda>i. \<not> bit w i"] by (simp add: countr_zero_def)
qed

lemma countl_zero_bit:
  fixes w :: "'a::len word"
  assumes "w \<noteq> 0"
  shows "countl_zero w < LENGTH('a) \<and> bit w (LENGTH('a) - 1 - countl_zero w) \<and>
    (\<forall>i > LENGTH('a) - 1 - countl_zero w. \<not> bit w i)"
proof -
  let ?n = "LENGTH('a)" and ?P = "\<lambda>i. \<not> bit w (LENGTH('a) - 1 - i)"
  obtain k where k: "k < ?n" "bit w k" using word_neq_zero_bit [OF assms] by blast
  then have "?n - 1 - k < ?n" "\<not> ?P (?n - 1 - k)" by simp_all
  from length_takeWhile_upt [of _ _ ?P, OF this]
  have c: "countl_zero w < ?n" "bit w (?n - 1 - countl_zero w)" "\<forall>i < countl_zero w. ?P i"
    by (simp_all add: countl_zero_def)
  have "\<not> bit w i" if "i > ?n - 1 - countl_zero w" for i
  proof (cases "i < ?n")
    case True
    then have "?n - 1 - i < countl_zero w" "?n - 1 - (?n - 1 - i) = i" using that c(1) by linarith+
    then show ?thesis using c(3) by metis
  next
    case False
    then show ?thesis using bit_imp_le_length by (metis not_less)
  qed
  with c show ?thesis by blast
qed

lemma countl_zero_bounds:
  fixes w :: "'a::len word"
  assumes "w \<noteq> 0"
  shows "2 ^ (LENGTH('a) - 1 - countl_zero w) \<le> unat w \<and> unat w < 2 ^ Suc (LENGTH('a) - 1 - countl_zero w)"
proof -
  let ?L = "LENGTH('a) - 1 - countl_zero w"
  note b = countl_zero_bit [OF assms]
  have ub: "bit (unat w) i = bit w i" for i by (simp add: bit_unsigned_iff)
  have "drop_bit (Suc ?L) (unat w) = 0"
    by (rule bit_eqI) (use b ub in \<open>simp add: bit_drop_bit_eq\<close>)
  then have hi: "unat w < 2 ^ Suc ?L" by (simp add: drop_bit_eq_div div_eq_0_iff)
  have "odd (unat w div 2 ^ ?L)" using b ub [of ?L] by (simp add: bit_iff_odd)
  then have "unat w div 2 ^ ?L \<noteq> 0" by (metis even_zero)
  then have "2 ^ ?L \<le> unat w" by (simp add: div_eq_0_iff)
  with hi show ?thesis by simp
qed

lemma find_SomeD: "find P xs = Some x \<Longrightarrow> x \<in> set xs \<and> P x"
  by (auto simp: find_Some_iff)

end
