(* ===== verification/Endian.thy ===== *)
theory Endian
  imports Prelude
begin

text \<open>
  Wire field primitives of \<^verbatim>\<open>protocol/Endian.hpp\<close>: \<open>BigEndian<T>\<close> (host word, byte swap,
  \<^verbatim>\<open>memcpy\<close>), \<open>Uint48\<close> and the space-padded \<open>Alpha<N>\<close>. The host is little-endian (the
  x86-64 targets of the build), so the bytes of a host integer in memory are \<open>le_bytes\<close>.
  The lemmas show that stores are big-endian and that every field reads back what was stored.
\<close>

section \<open>Host integers in memory\<close>

definition le_bytes :: "'a::len word \<Rightarrow> byte list" where
  "le_bytes w = map (\<lambda>i. ucast (drop_bit (8 * i) w)) [0..<LENGTH('a) div 8]"

primrec le_word :: "byte list \<Rightarrow> 'a::len word" where
  "le_word [] = 0"
| "le_word (b # bs) = ucast b OR push_bit 8 (le_word bs)"

lemma length_le_bytes [simp, wire_simps]: "length (le_bytes (w :: 'a::len word)) = LENGTH('a) div 8"
  by (simp add: le_bytes_def)

lemma bit_le_word:
  "bit (le_word bs :: 'a::len word) i \<longleftrightarrow>
     i < LENGTH('a) \<and> i < 8 * length bs \<and> bit (bs ! (i div 8)) (i mod 8)"
proof (induction bs arbitrary: i)
  case Nil
  then show ?case by simp
next
  case (Cons b bs)
  show ?case
  proof (cases "i < 8")
    case True
    then show ?thesis by (simp add: bit_or_iff bit_push_bit_iff bit_ucast_iff)
  next
    case False
    then obtain j where j: "i = j + 8" by (metis le_add_diff_inverse2 not_less)
    have "\<not> bit b (j + 8)" using bit_imp_le_length [of b "j + 8"] by auto
    moreover have "(j + 8) div 8 = Suc (j div 8)" by simp
    ultimately show ?thesis using j
      by (simp add: bit_or_iff bit_push_bit_iff bit_ucast_iff Cons.IH [of j]) auto
  qed
qed

lemma bit_le_bytes:
  "i < LENGTH('a) div 8 \<Longrightarrow> bit (le_bytes (w :: 'a::len word) ! i) j \<longleftrightarrow> j < 8 \<and> bit w (8 * i + j)"
  by (auto simp add: le_bytes_def bit_ucast_iff bit_drop_bit_eq)

lemma le_word_le_bytes:
  assumes "8 dvd LENGTH('a::len)"
  shows "le_word (le_bytes (w :: 'a word)) = w"
proof (rule bit_word_eqI)
  fix i assume i: "i < LENGTH('a)"
  from assms i have "i div 8 < LENGTH('a) div 8" by (metis dvd_div_mult_self less_mult_imp_div_less)
  moreover from assms i have "i < 8 * (LENGTH('a) div 8)" by simp
  ultimately show "bit (le_word (le_bytes w) :: 'a word) i = bit w i"
    using i by (simp add: bit_le_word bit_le_bytes)
qed

lemma le_bytes_le_word:
  assumes "length bs = LENGTH('a::len) div 8"
  shows "le_bytes (le_word bs :: 'a word) = bs"
proof (rule nth_equalityI)
  show "length (le_bytes (le_word bs :: 'a word)) = length bs" using assms by simp
next
  fix i assume "i < length (le_bytes (le_word bs :: 'a word))"
  then have i: "i < LENGTH('a) div 8" by simp
  show "le_bytes (le_word bs :: 'a word) ! i = bs ! i"
  proof (rule bit_word_eqI)
    fix j assume j: "j < LENGTH(8)"
    have "(8 * i + j) div 8 = i" "(8 * i + j) mod 8 = j" using j by auto
    moreover have "8 * i + j < LENGTH('a)" "8 * i + j < 8 * length bs" using i j assms by auto
    ultimately show "bit (le_bytes (le_word bs :: 'a word) ! i) j = bit (bs ! i) j"
      using i j by (simp add: bit_le_bytes bit_le_word)
  qed
qed

section \<open>Big-endian fields\<close>

text \<open>\<open>bswap\<close> reverses the bytes of a word, as \<^verbatim>\<open>__builtin_bswap16/32/64\<close> do.\<close>

definition bswap :: "'a::len word \<Rightarrow> 'a word" where
  "bswap v = le_word (rev (le_bytes v))"

definition be_value :: "byte list \<Rightarrow> 'a::len word" where
  "be_value bytes = bswap (le_word (take (LENGTH('a) div 8) bytes))"

definition be_store :: "'a::len word \<Rightarrow> byte list" where
  "be_store v = le_bytes (bswap v)"

lemma length_be_store [simp, wire_simps]: "length (be_store (w :: 'a::len word)) = LENGTH('a) div 8"
  by (simp add: be_store_def)

lemma bswap_bswap: "8 dvd LENGTH('a::len) \<Longrightarrow> bswap (bswap (v :: 'a word)) = v"
  by (simp add: bswap_def le_bytes_le_word le_word_le_bytes)

text \<open>A stored field is the big-endian byte string: most significant byte first.\<close>

lemma be_store_rev: "be_store v = rev (le_bytes v)"
  by (simp add: be_store_def bswap_def le_bytes_le_word)

lemma be_value_append:
  "8 dvd LENGTH('a::len) \<Longrightarrow> be_value (be_store (v :: 'a word) @ rest) = v"
  by (simp add: be_value_def be_store_def le_word_le_bytes bswap_bswap)

lemma be_value_store:
  "8 dvd LENGTH('a::len) \<Longrightarrow> be_value (be_store (v :: 'a word)) = v"
  using be_value_append [of v "[]"] by simp

lemma be_store_value:
  assumes "8 dvd LENGTH('a::len)" and "length bs = LENGTH('a) div 8"
  shows "be_store (be_value bs :: 'a word) = bs"
  using assms by (simp add: be_value_def be_store_def bswap_bswap le_bytes_le_word)

text \<open>The shift-and-or loops of the sources read the same big-endian value.\<close>

definition be_fold :: "byte list \<Rightarrow> 'a::len word" where
  "be_fold bs = foldl (\<lambda>v b. push_bit 8 v OR ucast b) 0 bs"

lemma be_fold_rev: "be_fold bs = le_word (rev bs)"
proof -
  have "foldl (\<lambda>v b. push_bit 8 v OR ucast b) 0 (rev cs) = (le_word cs :: 'a word)" for cs :: "byte list"
    by (induction cs) (simp_all add: or.commute)
  from this [of "rev bs"] show ?thesis by (simp add: be_fold_def)
qed

lemma be_fold_value:
  assumes "length bs = LENGTH('a::len) div 8"
  shows "be_fold bs = (be_value bs :: 'a word)"
  using assms by (simp add: be_fold_rev be_value_def bswap_def le_bytes_le_word)

section \<open>48-bit timestamps\<close>

definition u48_value :: "byte list \<Rightarrow> u64" where
  "u48_value bytes = be_fold (take 6 bytes)"

text \<open>The loop fills \<open>bytes[5]\<close> down to \<open>bytes[0]\<close>, shifting the value right each time.\<close>

primrec u48_store_loop :: "nat \<Rightarrow> u64 \<Rightarrow> byte list \<Rightarrow> byte list" where
  "u48_store_loop 0 v acc = acc"
| "u48_store_loop (Suc i) v acc = u48_store_loop i (drop_bit 8 v) (ucast (v AND 0xFF) # acc)"

definition u48_store :: "u64 \<Rightarrow> byte list" where
  "u48_store v = u48_store_loop 6 v []"

lemma ucast_and_FF: "ucast (v AND 0xFF :: u64) = (ucast v :: byte)"
proof -
  have "v AND 0xFF = take_bit 8 v" by (simp add: take_bit_eq_mask mask_eq_exp_minus_1)
  then show ?thesis by (auto intro!: bit_word_eqI simp: bit_ucast_iff bit_take_bit_iff)
qed

lemma u48_store_loop_eq:
  "u48_store_loop n v acc = rev (map (\<lambda>i. ucast (drop_bit (8 * i) v)) [0..<n]) @ acc"
proof (induction n arbitrary: v acc)
  case 0
  then show ?case by simp
next
  case (Suc n)
  have "map (\<lambda>i. ucast (drop_bit (8 * i) v)) [0..<Suc n]
      = ucast v # map (\<lambda>i. ucast (drop_bit (8 * i) (drop_bit 8 v)) :: byte) [0..<n]"
    by (simp add: upt_conv_Cons map_Suc_upt [symmetric] add.commute del: upt_Suc)
  then show ?case by (simp add: Suc ucast_and_FF del: upt_Suc)
qed

lemma length_u48_store [simp, wire_simps]: "length (u48_store v) = 6"
  by (simp add: u48_store_def u48_store_loop_eq)

lemma u48_value_store_append: "u48_value (u48_store v @ rest) = take_bit 48 v"
proof -
  have "u48_value (u48_store v @ rest) = le_word (map (\<lambda>i. ucast (drop_bit (8 * i) v)) [0..<6])"
    unfolding u48_value_def u48_store_def u48_store_loop_eq be_fold_rev by (simp only: append_Nil2) simp
  also have "\<dots> = take_bit 48 v"
  proof (rule bit_word_eqI)
    fix i assume "i < LENGTH(64)"
    have "8 * (i div 8) + i mod 8 = i" by simp
    then show "bit (le_word (map (\<lambda>i. ucast (drop_bit (8 * i) v)) [0..<6]) :: u64) i = bit (take_bit 48 v) i"
      by (auto simp: bit_le_word bit_ucast_iff bit_drop_bit_eq bit_take_bit_iff less_mult_imp_div_less
          simp del: upt_rec_numeral)
  qed
  finally show ?thesis .
qed

section \<open>Space-padded text\<close>

definition space :: byte where "space = 32"

text \<open>The loop of \<open>Alpha::view\<close>: drop the padding from the right.\<close>

primrec alpha_len :: "byte list \<Rightarrow> nat \<Rightarrow> nat" where
  "alpha_len cs 0 = 0"
| "alpha_len cs (Suc n) = (if cs ! n = space then alpha_len cs n else Suc n)"

definition alpha_view :: "byte list \<Rightarrow> byte list" where
  "alpha_view cs = take (alpha_len cs (length cs)) cs"

definition alpha_store :: "nat \<Rightarrow> byte list \<Rightarrow> byte list" where
  "alpha_store N s = (let n = min N (length s) in take n s @ replicate (N - n) space)"

definition unpadded :: "byte list \<Rightarrow> bool" where
  "unpadded s \<longleftrightarrow> (s = [] \<or> last s \<noteq> space)"

lemma length_alpha_store [simp, wire_simps]: "length (alpha_store N s) = N"
  by (simp add: alpha_store_def Let_def)

lemma alpha_len_le: "alpha_len cs n \<le> n"
  by (induction n) auto

lemma alpha_len_pad:
  "unpadded s \<Longrightarrow> n \<le> m \<Longrightarrow> length s = n \<Longrightarrow> alpha_len (s @ replicate k space) m = n"
  if "m \<le> n + k" for s
proof -
  assume s: "unpadded s" and "n \<le> m" and n: "length s = n"
  from \<open>n \<le> m\<close> that show ?thesis
  proof (induction m)
    case 0
    then show ?case by simp
  next
    case (Suc m)
    show ?case
    proof (cases "n = Suc m")
      case True
      then have "(s @ replicate k space) ! m = last s"
        using n by (simp add: nth_append last_conv_nth) (metis diff_Suc_1 last_conv_nth length_0_conv old.nat.distinct(2))
      moreover have "s \<noteq> []" using True n by auto
      ultimately show ?thesis using True s by (simp add: unpadded_def)
    next
      case False
      with Suc.prems have "n \<le> m" by simp
      then have "(s @ replicate k space) ! m = space"
        using n Suc.prems by (simp add: nth_append)
      then show ?thesis using Suc \<open>n \<le> m\<close> by simp
    qed
  qed
qed

lemma alpha_view_store:
  assumes "length s \<le> N" and "unpadded s"
  shows "alpha_view (alpha_store N s) = s"
proof -
  have "alpha_store N s = s @ replicate (N - length s) space"
    using assms(1) by (simp add: alpha_store_def Let_def min_def)
  moreover have "alpha_len (s @ replicate (N - length s) space) N = length s"
    by (rule alpha_len_pad) (use assms in auto)
  ultimately show ?thesis using assms(1) by (simp add: alpha_view_def)
qed

lemma alpha_view_unpadded: "unpadded (alpha_view cs)"
proof -
  have "alpha_len cs n = 0 \<or> (cs ! (alpha_len cs n - 1) \<noteq> space)" for n
    by (induction n) auto
  then have *: "alpha_len cs (length cs) = 0 \<or> cs ! (alpha_len cs (length cs) - 1) \<noteq> space" .
  show ?thesis
    using * alpha_len_le [of cs "length cs"]
    by (auto simp: unpadded_def alpha_view_def last_conv_nth)
qed

section \<open>Overlay messages\<close>

text \<open>
  The checked overlay read of the sources (\<open>read<M>\<close>, \<open>as<T>\<close>): nothing when the buffer is
  shorter than the struct, the struct at its start otherwise.
\<close>

definition wire_read :: "nat \<Rightarrow> (byte list \<Rightarrow> 'm) \<Rightarrow> byte list \<Rightarrow> 'm option" where
  "wire_read sz dec bytes = (if length bytes < sz then None else Some (dec bytes))"

text \<open>What a message layout promises: its size and that an overlay read sees what was written.\<close>

locale wire_message =
  fixes sizeof :: nat
    and enc :: "'m \<Rightarrow> byte list"
    and dec :: "byte list \<Rightarrow> 'm"
    and valid :: "'m \<Rightarrow> bool"
  assumes length_enc: "valid m \<Longrightarrow> length (enc m) = sizeof"
    and dec_enc: "valid m \<Longrightarrow> dec (enc m @ rest) = m"
begin

lemma read_enc: "valid m \<Longrightarrow> wire_read sizeof dec (enc m @ rest) = Some m"
  by (simp add: wire_read_def length_enc dec_enc)

lemma read_exact: "valid m \<Longrightarrow> wire_read sizeof dec (enc m) = Some m"
  using read_enc [of m "[]"] by simp

lemma read_truncated: "valid m \<Longrightarrow> n < sizeof \<Longrightarrow> wire_read sizeof dec (take n (enc m)) = None"
  by (simp add: wire_read_def length_enc)

lemma enc_inj: "valid m \<Longrightarrow> valid m' \<Longrightarrow> enc m = enc m' \<Longrightarrow> m = m'"
  by (metis dec_enc)

end

text \<open>The facts every layout proof uses.\<close>

lemma u48_value_store_exact:
  assumes "v < 2 ^ 48"
  shows "u48_value (u48_store v @ rest) = v"
proof -
  have "uint v < 2 ^ 48" using assms by (simp add: word_less_alt)
  then have "take_bit 48 v = v"
    by (intro word_uint_eqI) (simp add: unsigned_take_bit_eq take_bit_int_eq_self)
  then show ?thesis by (simp add: u48_value_store_append)
qed

lemmas wire_codec_simps = be_value_append be_value_store u48_value_store_exact
  u48_value_store_exact [where rest = "[]", simplified] nth_append

section \<open>Properties\<close>

text \<open>
  The field types of the wire structs read back what was stored: a big-endian integer at every
  width of whole bytes, a 48-bit timestamp up to its width, and a space-padded text field whenever the
  text fits and does not itself end in a space.
\<close>

theorem wire_fields_roundtrip:
  assumes "8 dvd LENGTH('a::len)" and "length s \<le> N" and "unpadded s"
  shows "be_value (be_store (v :: 'a word)) = v \<and> u48_value (u48_store t) = take_bit 48 t \<and>
    alpha_view (alpha_store N s) = s"
  using be_value_store [OF assms(1)] u48_value_store_append [of t "[]"] alpha_view_store [OF assms(2,3)] by simp

theorem wire_fields_roundtrip_witness:
  "be_value (be_store (0x12345678 :: u32)) = (0x12345678 :: u32) \<and> alpha_view (alpha_store 8 [65, 66]) = [65, 66]"
  using wire_fields_roundtrip [where 'a = 32, of "[65, 66]" 8 "0x12345678" 0] by (simp add: unpadded_def space_def)

end
