(* ===== verification/Ouch50.thy ===== *)
theory Ouch50
  imports Endian
begin

text \<open>
  Order-entry messages of \<^verbatim>\<open>protocol/Ouch50.hpp\<close>. An enumeration of the source is a datatype
  with its wire code; a message field that holds an enumeration is kept as the byte on the
  wire, because the C++ overlays accept any byte there. Every message is a record with its
  layout as an encoder and an overlay read as a decoder; the interpretations of
  \<open>wire_message\<close> give its size and its round trip. The TagValue appendage writer and reader
  follow at the end.
\<close>

section \<open>Enumerations\<close>

datatype InType =
  In_EnterOrder | In_ReplaceOrder | In_CancelOrder | In_ModifyOrder

primrec InType_code :: "InType \<Rightarrow> byte" where
  "InType_code In_EnterOrder = 0x4F"
| "InType_code In_ReplaceOrder = 0x55"
| "InType_code In_CancelOrder = 0x58"
| "InType_code In_ModifyOrder = 0x4D"

lemma InType_code_inj: "InType_code a = InType_code b \<Longrightarrow> a = b"
  by (cases a; cases b) simp_all

datatype OutType =
  Out_SystemEvent | Out_Accepted | Out_Replaced | Out_Canceled | Out_AiqCanceled | Out_Executed |
  Out_BrokenTrade | Out_Rejected | Out_CancelPending | Out_CancelReject

primrec OutType_code :: "OutType \<Rightarrow> byte" where
  "OutType_code Out_SystemEvent = 0x53"
| "OutType_code Out_Accepted = 0x41"
| "OutType_code Out_Replaced = 0x55"
| "OutType_code Out_Canceled = 0x43"
| "OutType_code Out_AiqCanceled = 0x44"
| "OutType_code Out_Executed = 0x45"
| "OutType_code Out_BrokenTrade = 0x42"
| "OutType_code Out_Rejected = 0x4A"
| "OutType_code Out_CancelPending = 0x50"
| "OutType_code Out_CancelReject = 0x49"

lemma OutType_code_inj: "OutType_code a = OutType_code b \<Longrightarrow> a = b"
  by (cases a; cases b) simp_all

datatype OuchSide =
  OSide_Buy | OSide_Sell | OSide_SellShort | OSide_SellShortExempt

primrec OuchSide_code :: "OuchSide \<Rightarrow> byte" where
  "OuchSide_code OSide_Buy = 0x42"
| "OuchSide_code OSide_Sell = 0x53"
| "OuchSide_code OSide_SellShort = 0x54"
| "OuchSide_code OSide_SellShortExempt = 0x45"

lemma OuchSide_code_inj: "OuchSide_code a = OuchSide_code b \<Longrightarrow> a = b"
  by (cases a; cases b) simp_all

datatype TimeInForce =
  Tif_Day | Tif_IOC | Tif_GTX | Tif_GTT | Tif_AfterHours

primrec TimeInForce_code :: "TimeInForce \<Rightarrow> byte" where
  "TimeInForce_code Tif_Day = 0x30"
| "TimeInForce_code Tif_IOC = 0x33"
| "TimeInForce_code Tif_GTX = 0x35"
| "TimeInForce_code Tif_GTT = 0x36"
| "TimeInForce_code Tif_AfterHours = 0x45"

lemma TimeInForce_code_inj: "TimeInForce_code a = TimeInForce_code b \<Longrightarrow> a = b"
  by (cases a; cases b) simp_all

datatype Display =
  Disp_Visible | Disp_Hidden | Disp_Attributable | Disp_Conformant

primrec Display_code :: "Display \<Rightarrow> byte" where
  "Display_code Disp_Visible = 0x59"
| "Display_code Disp_Hidden = 0x4E"
| "Display_code Disp_Attributable = 0x41"
| "Display_code Disp_Conformant = 0x5A"

lemma Display_code_inj: "Display_code a = Display_code b \<Longrightarrow> a = b"
  by (cases a; cases b) simp_all

datatype Capacity =
  Cap_Agency | Cap_Principal | Cap_Riskless | Cap_Other

primrec Capacity_code :: "Capacity \<Rightarrow> byte" where
  "Capacity_code Cap_Agency = 0x41"
| "Capacity_code Cap_Principal = 0x50"
| "Capacity_code Cap_Riskless = 0x52"
| "Capacity_code Cap_Other = 0x4F"

lemma Capacity_code_inj: "Capacity_code a = Capacity_code b \<Longrightarrow> a = b"
  by (cases a; cases b) simp_all

datatype ImSweep =
  Sweep_Eligible | Sweep_NotEligible

primrec ImSweep_code :: "ImSweep \<Rightarrow> byte" where
  "ImSweep_code Sweep_Eligible = 0x59"
| "ImSweep_code Sweep_NotEligible = 0x4E"

lemma ImSweep_code_inj: "ImSweep_code a = ImSweep_code b \<Longrightarrow> a = b"
  by (cases a; cases b) simp_all

datatype OuchCrossType =
  OCross_Continuous | OCross_OpeningCross | OCross_ClosingCross | OCross_HaltIpo |
  OCross_Supplemental | OCross_Retail | OCross_ExtendedLife | OCross_AfterHoursClose

primrec OuchCrossType_code :: "OuchCrossType \<Rightarrow> byte" where
  "OuchCrossType_code OCross_Continuous = 0x4E"
| "OuchCrossType_code OCross_OpeningCross = 0x4F"
| "OuchCrossType_code OCross_ClosingCross = 0x43"
| "OuchCrossType_code OCross_HaltIpo = 0x48"
| "OuchCrossType_code OCross_Supplemental = 0x53"
| "OuchCrossType_code OCross_Retail = 0x52"
| "OuchCrossType_code OCross_ExtendedLife = 0x45"
| "OuchCrossType_code OCross_AfterHoursClose = 0x41"

lemma OuchCrossType_code_inj: "OuchCrossType_code a = OuchCrossType_code b \<Longrightarrow> a = b"
  by (cases a; cases b) simp_all

datatype OrderState =
  State_Live | State_Dead

primrec OrderState_code :: "OrderState \<Rightarrow> byte" where
  "OrderState_code State_Live = 0x4C"
| "OrderState_code State_Dead = 0x44"

lemma OrderState_code_inj: "OrderState_code a = OrderState_code b \<Longrightarrow> a = b"
  by (cases a; cases b) simp_all

datatype CancelReason =
  Cxl_Regulatory | Cxl_Closed | Cxl_PostOnlyNms | Cxl_PostOnlyContra | Cxl_Halted | Cxl_Ioc |
  Cxl_MarketCollars | Cxl_SelfMatchPrevention | Cxl_Supervisory | Cxl_Timeout |
  Cxl_UserRequested | Cxl_OpenProtection | Cxl_SystemCancel

primrec CancelReason_code :: "CancelReason \<Rightarrow> byte" where
  "CancelReason_code Cxl_Regulatory = 0x44"
| "CancelReason_code Cxl_Closed = 0x45"
| "CancelReason_code Cxl_PostOnlyNms = 0x46"
| "CancelReason_code Cxl_PostOnlyContra = 0x47"
| "CancelReason_code Cxl_Halted = 0x48"
| "CancelReason_code Cxl_Ioc = 0x49"
| "CancelReason_code Cxl_MarketCollars = 0x4B"
| "CancelReason_code Cxl_SelfMatchPrevention = 0x51"
| "CancelReason_code Cxl_Supervisory = 0x53"
| "CancelReason_code Cxl_Timeout = 0x54"
| "CancelReason_code Cxl_UserRequested = 0x55"
| "CancelReason_code Cxl_OpenProtection = 0x58"
| "CancelReason_code Cxl_SystemCancel = 0x5A"

lemma CancelReason_code_inj: "CancelReason_code a = CancelReason_code b \<Longrightarrow> a = b"
  by (cases a; cases b) simp_all

datatype RejectReason =
  Rej_InvalidSide | Rej_InvalidQuantity | Rej_ReplaceNotAllowed | Rej_InvalidSymbol |
  Rej_InvalidPrice | Rej_Other

primrec RejectReason_code :: "RejectReason \<Rightarrow> u16" where
  "RejectReason_code Rej_InvalidSide = 0x9"
| "RejectReason_code Rej_InvalidQuantity = 0x13"
| "RejectReason_code Rej_ReplaceNotAllowed = 0x15"
| "RejectReason_code Rej_InvalidSymbol = 0x17"
| "RejectReason_code Rej_InvalidPrice = 0x1d"
| "RejectReason_code Rej_Other = 0xf"

lemma RejectReason_code_inj: "RejectReason_code a = RejectReason_code b \<Longrightarrow> a = b"
  by (cases a; cases b) simp_all

section \<open>Messages\<close>

record EnterOrder =
  eo_type :: byte
  eo_userRefNum :: u32
  eo_side :: byte
  eo_quantity :: u32
  eo_symbol :: "byte list"
  eo_price :: u64
  eo_timeInForce :: byte
  eo_display :: byte
  eo_capacity :: byte
  eo_imSweepEligibility :: byte
  eo_crossType :: byte
  eo_clOrdId :: "byte list"
  eo_appendageLength :: u16

definition sizeof_EnterOrder :: nat where
  "sizeof_EnterOrder = 47"

definition enc_EnterOrder :: "EnterOrder \<Rightarrow> byte list" where
  "enc_EnterOrder m = [eo_type m] @ be_store (eo_userRefNum m) @ [eo_side m] @
     be_store (eo_quantity m) @ eo_symbol m @ be_store (eo_price m) @ [eo_timeInForce m] @
     [eo_display m] @ [eo_capacity m] @ [eo_imSweepEligibility m] @ [eo_crossType m] @
     eo_clOrdId m @ be_store (eo_appendageLength m)"

definition dec_EnterOrder :: "byte list \<Rightarrow> EnterOrder" where
  "dec_EnterOrder bs =
     \<lparr>eo_type = bs ! 0, eo_userRefNum = be_value (drop 1 bs), eo_side = bs ! 5,
      eo_quantity = be_value (drop 6 bs), eo_symbol = take 8 (drop 10 bs),
      eo_price = be_value (drop 18 bs), eo_timeInForce = bs ! 26, eo_display = bs ! 27,
      eo_capacity = bs ! 28, eo_imSweepEligibility = bs ! 29, eo_crossType = bs ! 30,
      eo_clOrdId = take 14 (drop 31 bs), eo_appendageLength = be_value (drop 45 bs)\<rparr>"

definition valid_EnterOrder :: "EnterOrder \<Rightarrow> bool" where
  "valid_EnterOrder m \<longleftrightarrow> length (eo_symbol m) = 8 \<and> length (eo_clOrdId m) = 14"

record ReplaceOrder =
  ro_type :: byte
  ro_origUserRefNum :: u32
  ro_userRefNum :: u32
  ro_quantity :: u32
  ro_price :: u64
  ro_timeInForce :: byte
  ro_display :: byte
  ro_imSweepEligibility :: byte
  ro_clOrdId :: "byte list"
  ro_appendageLength :: u16

definition sizeof_ReplaceOrder :: nat where
  "sizeof_ReplaceOrder = 40"

definition enc_ReplaceOrder :: "ReplaceOrder \<Rightarrow> byte list" where
  "enc_ReplaceOrder m = [ro_type m] @ be_store (ro_origUserRefNum m) @
     be_store (ro_userRefNum m) @ be_store (ro_quantity m) @ be_store (ro_price m) @
     [ro_timeInForce m] @ [ro_display m] @ [ro_imSweepEligibility m] @ ro_clOrdId m @
     be_store (ro_appendageLength m)"

definition dec_ReplaceOrder :: "byte list \<Rightarrow> ReplaceOrder" where
  "dec_ReplaceOrder bs =
     \<lparr>ro_type = bs ! 0, ro_origUserRefNum = be_value (drop 1 bs),
      ro_userRefNum = be_value (drop 5 bs), ro_quantity = be_value (drop 9 bs),
      ro_price = be_value (drop 13 bs), ro_timeInForce = bs ! 21, ro_display = bs ! 22,
      ro_imSweepEligibility = bs ! 23, ro_clOrdId = take 14 (drop 24 bs),
      ro_appendageLength = be_value (drop 38 bs)\<rparr>"

definition valid_ReplaceOrder :: "ReplaceOrder \<Rightarrow> bool" where
  "valid_ReplaceOrder m \<longleftrightarrow> length (ro_clOrdId m) = 14"

record CancelOrder =
  co_type :: byte
  co_userRefNum :: u32
  co_quantity :: u32
  co_appendageLength :: u16

definition sizeof_CancelOrder :: nat where
  "sizeof_CancelOrder = 11"

definition enc_CancelOrder :: "CancelOrder \<Rightarrow> byte list" where
  "enc_CancelOrder m = [co_type m] @ be_store (co_userRefNum m) @ be_store (co_quantity m) @
     be_store (co_appendageLength m)"

definition dec_CancelOrder :: "byte list \<Rightarrow> CancelOrder" where
  "dec_CancelOrder bs =
     \<lparr>co_type = bs ! 0, co_userRefNum = be_value (drop 1 bs),
      co_quantity = be_value (drop 5 bs), co_appendageLength = be_value (drop 9 bs)\<rparr>"

definition valid_CancelOrder :: "CancelOrder \<Rightarrow> bool" where
  "valid_CancelOrder m \<longleftrightarrow> True"

record OuchSystemEvent =
  ose_type :: byte
  ose_timestamp :: u64
  ose_eventCode :: byte

definition sizeof_OuchSystemEvent :: nat where
  "sizeof_OuchSystemEvent = 10"

definition enc_OuchSystemEvent :: "OuchSystemEvent \<Rightarrow> byte list" where
  "enc_OuchSystemEvent m = [ose_type m] @ be_store (ose_timestamp m) @ [ose_eventCode m]"

definition dec_OuchSystemEvent :: "byte list \<Rightarrow> OuchSystemEvent" where
  "dec_OuchSystemEvent bs =
     \<lparr>ose_type = bs ! 0, ose_timestamp = be_value (drop 1 bs),
      ose_eventCode = bs ! 9\<rparr>"

definition valid_OuchSystemEvent :: "OuchSystemEvent \<Rightarrow> bool" where
  "valid_OuchSystemEvent m \<longleftrightarrow> True"

record Accepted =
  ac_type :: byte
  ac_timestamp :: u64
  ac_userRefNum :: u32
  ac_side :: byte
  ac_quantity :: u32
  ac_symbol :: "byte list"
  ac_price :: u64
  ac_timeInForce :: byte
  ac_display :: byte
  ac_orderReferenceNumber :: u64
  ac_capacity :: byte
  ac_imSweepEligibility :: byte
  ac_crossType :: byte
  ac_orderState :: byte
  ac_clOrdId :: "byte list"
  ac_appendageLength :: u16

definition sizeof_Accepted :: nat where
  "sizeof_Accepted = 64"

definition enc_Accepted :: "Accepted \<Rightarrow> byte list" where
  "enc_Accepted m = [ac_type m] @ be_store (ac_timestamp m) @ be_store (ac_userRefNum m) @
     [ac_side m] @ be_store (ac_quantity m) @ ac_symbol m @ be_store (ac_price m) @
     [ac_timeInForce m] @ [ac_display m] @ be_store (ac_orderReferenceNumber m) @
     [ac_capacity m] @ [ac_imSweepEligibility m] @ [ac_crossType m] @ [ac_orderState m] @
     ac_clOrdId m @ be_store (ac_appendageLength m)"

definition dec_Accepted :: "byte list \<Rightarrow> Accepted" where
  "dec_Accepted bs =
     \<lparr>ac_type = bs ! 0, ac_timestamp = be_value (drop 1 bs),
      ac_userRefNum = be_value (drop 9 bs), ac_side = bs ! 13,
      ac_quantity = be_value (drop 14 bs), ac_symbol = take 8 (drop 18 bs),
      ac_price = be_value (drop 26 bs), ac_timeInForce = bs ! 34, ac_display = bs ! 35,
      ac_orderReferenceNumber = be_value (drop 36 bs), ac_capacity = bs ! 44,
      ac_imSweepEligibility = bs ! 45, ac_crossType = bs ! 46, ac_orderState = bs ! 47,
      ac_clOrdId = take 14 (drop 48 bs), ac_appendageLength = be_value (drop 62 bs)\<rparr>"

definition valid_Accepted :: "Accepted \<Rightarrow> bool" where
  "valid_Accepted m \<longleftrightarrow> length (ac_symbol m) = 8 \<and> length (ac_clOrdId m) = 14"

record Replaced =
  rp_type :: byte
  rp_timestamp :: u64
  rp_origUserRefNum :: u32
  rp_userRefNum :: u32
  rp_side :: byte
  rp_quantity :: u32
  rp_symbol :: "byte list"
  rp_price :: u64
  rp_timeInForce :: byte
  rp_display :: byte
  rp_orderReferenceNumber :: u64
  rp_capacity :: byte
  rp_imSweepEligibility :: byte
  rp_crossType :: byte
  rp_orderState :: byte
  rp_clOrdId :: "byte list"
  rp_appendageLength :: u16

definition sizeof_Replaced :: nat where
  "sizeof_Replaced = 68"

definition enc_Replaced :: "Replaced \<Rightarrow> byte list" where
  "enc_Replaced m = [rp_type m] @ be_store (rp_timestamp m) @ be_store (rp_origUserRefNum m) @
     be_store (rp_userRefNum m) @ [rp_side m] @ be_store (rp_quantity m) @ rp_symbol m @
     be_store (rp_price m) @ [rp_timeInForce m] @ [rp_display m] @
     be_store (rp_orderReferenceNumber m) @ [rp_capacity m] @ [rp_imSweepEligibility m] @
     [rp_crossType m] @ [rp_orderState m] @ rp_clOrdId m @ be_store (rp_appendageLength m)"

definition dec_Replaced :: "byte list \<Rightarrow> Replaced" where
  "dec_Replaced bs =
     \<lparr>rp_type = bs ! 0, rp_timestamp = be_value (drop 1 bs),
      rp_origUserRefNum = be_value (drop 9 bs), rp_userRefNum = be_value (drop 13 bs),
      rp_side = bs ! 17, rp_quantity = be_value (drop 18 bs), rp_symbol = take 8 (drop 22 bs),
      rp_price = be_value (drop 30 bs), rp_timeInForce = bs ! 38, rp_display = bs ! 39,
      rp_orderReferenceNumber = be_value (drop 40 bs), rp_capacity = bs ! 48,
      rp_imSweepEligibility = bs ! 49, rp_crossType = bs ! 50, rp_orderState = bs ! 51,
      rp_clOrdId = take 14 (drop 52 bs), rp_appendageLength = be_value (drop 66 bs)\<rparr>"

definition valid_Replaced :: "Replaced \<Rightarrow> bool" where
  "valid_Replaced m \<longleftrightarrow> length (rp_symbol m) = 8 \<and> length (rp_clOrdId m) = 14"

record Canceled =
  ca_type :: byte
  ca_timestamp :: u64
  ca_userRefNum :: u32
  ca_quantity :: u32
  ca_reason :: byte
  ca_appendageLength :: u16

definition sizeof_Canceled :: nat where
  "sizeof_Canceled = 20"

definition enc_Canceled :: "Canceled \<Rightarrow> byte list" where
  "enc_Canceled m = [ca_type m] @ be_store (ca_timestamp m) @ be_store (ca_userRefNum m) @
     be_store (ca_quantity m) @ [ca_reason m] @ be_store (ca_appendageLength m)"

definition dec_Canceled :: "byte list \<Rightarrow> Canceled" where
  "dec_Canceled bs =
     \<lparr>ca_type = bs ! 0, ca_timestamp = be_value (drop 1 bs),
      ca_userRefNum = be_value (drop 9 bs), ca_quantity = be_value (drop 13 bs),
      ca_reason = bs ! 17, ca_appendageLength = be_value (drop 18 bs)\<rparr>"

definition valid_Canceled :: "Canceled \<Rightarrow> bool" where
  "valid_Canceled m \<longleftrightarrow> True"

record Executed =
  ex_type :: byte
  ex_timestamp :: u64
  ex_userRefNum :: u32
  ex_quantity :: u32
  ex_price :: u64
  ex_liquidityFlag :: byte
  ex_matchNumber :: u64
  ex_appendageLength :: u16

definition sizeof_Executed :: nat where
  "sizeof_Executed = 36"

definition enc_Executed :: "Executed \<Rightarrow> byte list" where
  "enc_Executed m = [ex_type m] @ be_store (ex_timestamp m) @ be_store (ex_userRefNum m) @
     be_store (ex_quantity m) @ be_store (ex_price m) @ [ex_liquidityFlag m] @
     be_store (ex_matchNumber m) @ be_store (ex_appendageLength m)"

definition dec_Executed :: "byte list \<Rightarrow> Executed" where
  "dec_Executed bs =
     \<lparr>ex_type = bs ! 0, ex_timestamp = be_value (drop 1 bs),
      ex_userRefNum = be_value (drop 9 bs), ex_quantity = be_value (drop 13 bs),
      ex_price = be_value (drop 17 bs), ex_liquidityFlag = bs ! 25,
      ex_matchNumber = be_value (drop 26 bs), ex_appendageLength = be_value (drop 34 bs)\<rparr>"

definition valid_Executed :: "Executed \<Rightarrow> bool" where
  "valid_Executed m \<longleftrightarrow> True"

record Rejected =
  rj_type :: byte
  rj_timestamp :: u64
  rj_userRefNum :: u32
  rj_reason :: u16
  rj_clOrdId :: "byte list"
  rj_appendageLength :: u16

definition sizeof_Rejected :: nat where
  "sizeof_Rejected = 31"

definition enc_Rejected :: "Rejected \<Rightarrow> byte list" where
  "enc_Rejected m = [rj_type m] @ be_store (rj_timestamp m) @ be_store (rj_userRefNum m) @
     be_store (rj_reason m) @ rj_clOrdId m @ be_store (rj_appendageLength m)"

definition dec_Rejected :: "byte list \<Rightarrow> Rejected" where
  "dec_Rejected bs =
     \<lparr>rj_type = bs ! 0, rj_timestamp = be_value (drop 1 bs),
      rj_userRefNum = be_value (drop 9 bs), rj_reason = be_value (drop 13 bs),
      rj_clOrdId = take 14 (drop 15 bs), rj_appendageLength = be_value (drop 29 bs)\<rparr>"

definition valid_Rejected :: "Rejected \<Rightarrow> bool" where
  "valid_Rejected m \<longleftrightarrow> length (rj_clOrdId m) = 14"

record CancelReject =
  cj_type :: byte
  cj_timestamp :: u64
  cj_userRefNum :: u32
  cj_appendageLength :: u16

definition sizeof_CancelReject :: nat where
  "sizeof_CancelReject = 15"

definition enc_CancelReject :: "CancelReject \<Rightarrow> byte list" where
  "enc_CancelReject m = [cj_type m] @ be_store (cj_timestamp m) @ be_store (cj_userRefNum m) @
     be_store (cj_appendageLength m)"

definition dec_CancelReject :: "byte list \<Rightarrow> CancelReject" where
  "dec_CancelReject bs =
     \<lparr>cj_type = bs ! 0, cj_timestamp = be_value (drop 1 bs),
      cj_userRefNum = be_value (drop 9 bs), cj_appendageLength = be_value (drop 13 bs)\<rparr>"

definition valid_CancelReject :: "CancelReject \<Rightarrow> bool" where
  "valid_CancelReject m \<longleftrightarrow> True"

section \<open>Layouts round trip\<close>

interpretation enterOrder_wire: wire_message sizeof_EnterOrder enc_EnterOrder dec_EnterOrder valid_EnterOrder
  by unfold_locales (simp_all add: sizeof_EnterOrder_def enc_EnterOrder_def dec_EnterOrder_def valid_EnterOrder_def wire_codec_simps)

interpretation replaceOrder_wire: wire_message sizeof_ReplaceOrder enc_ReplaceOrder dec_ReplaceOrder valid_ReplaceOrder
  by unfold_locales (simp_all add: sizeof_ReplaceOrder_def enc_ReplaceOrder_def dec_ReplaceOrder_def valid_ReplaceOrder_def wire_codec_simps)

interpretation cancelOrder_wire: wire_message sizeof_CancelOrder enc_CancelOrder dec_CancelOrder valid_CancelOrder
  by unfold_locales (simp_all add: sizeof_CancelOrder_def enc_CancelOrder_def dec_CancelOrder_def valid_CancelOrder_def wire_codec_simps)

interpretation ouchSystemEvent_wire: wire_message sizeof_OuchSystemEvent enc_OuchSystemEvent dec_OuchSystemEvent valid_OuchSystemEvent
  by unfold_locales (simp_all add: sizeof_OuchSystemEvent_def enc_OuchSystemEvent_def dec_OuchSystemEvent_def valid_OuchSystemEvent_def wire_codec_simps)

interpretation accepted_wire: wire_message sizeof_Accepted enc_Accepted dec_Accepted valid_Accepted
  by unfold_locales (simp_all add: sizeof_Accepted_def enc_Accepted_def dec_Accepted_def valid_Accepted_def wire_codec_simps)

interpretation replaced_wire: wire_message sizeof_Replaced enc_Replaced dec_Replaced valid_Replaced
  by unfold_locales (simp_all add: sizeof_Replaced_def enc_Replaced_def dec_Replaced_def valid_Replaced_def wire_codec_simps)

interpretation canceled_wire: wire_message sizeof_Canceled enc_Canceled dec_Canceled valid_Canceled
  by unfold_locales (simp_all add: sizeof_Canceled_def enc_Canceled_def dec_Canceled_def valid_Canceled_def wire_codec_simps)

interpretation executed_wire: wire_message sizeof_Executed enc_Executed dec_Executed valid_Executed
  by unfold_locales (simp_all add: sizeof_Executed_def enc_Executed_def dec_Executed_def valid_Executed_def wire_codec_simps)

interpretation rejected_wire: wire_message sizeof_Rejected enc_Rejected dec_Rejected valid_Rejected
  by unfold_locales (simp_all add: sizeof_Rejected_def enc_Rejected_def dec_Rejected_def valid_Rejected_def wire_codec_simps)

interpretation cancelReject_wire: wire_message sizeof_CancelReject enc_CancelReject dec_CancelReject valid_CancelReject
  by unfold_locales (simp_all add: sizeof_CancelReject_def enc_CancelReject_def dec_CancelReject_def valid_CancelReject_def wire_codec_simps)

section \<open>TagValue appendages\<close>

definition writeOption :: "byte list \<Rightarrow> byte \<Rightarrow> byte list \<Rightarrow> nat \<times> byte list" where
  "writeOption out tag value =
     (let total = 2 + length value in
      if length out < total then (0, out)
      else (total, poke 2 value (poke 1 [tag] (poke 0 [of_nat (1 + length value)] out))))"

text \<open>\<open>forEachOption\<close> returns the calls it makes to its callback, in order.\<close>

function forEachOption_from :: "byte list \<Rightarrow> nat \<Rightarrow> (byte \<times> byte list) list" where
  "forEachOption_from appendage i =
     (if i + 1 < length appendage then
        let len = unat (appendage ! i) in
        if len = 0 \<or> i + 1 + len > length appendage then []
        else (appendage ! (i + 1), peek (i + 2) (len - 1) appendage)
             # forEachOption_from appendage (i + (1 + len))
      else [])"
  by pat_completeness auto
termination
  by (relation "measure (\<lambda>(appendage, i). length appendage - i)") auto

declare forEachOption_from.simps [simp del]

definition forEachOption :: "byte list \<Rightarrow> (byte \<times> byte list) list" where
  "forEachOption appendage = forEachOption_from appendage 0"

definition option_bytes :: "byte \<times> byte list \<Rightarrow> byte list" where
  "option_bytes tv = of_nat (1 + length (snd tv)) # fst tv # snd tv"

lemma writeOption_bytes:
  assumes "2 + length value \<le> length out"
  shows "writeOption out tag value = (2 + length value, option_bytes (tag, value) @ drop (2 + length value) out)"
proof -
  obtain a b rest where "out = a # b # rest" using assms
    by (metis add_leE length_0_conv length_Cons list.exhaust not_less_eq_eq numeral_2_eq_2 le_zero_eq nat.distinct(1))
  then show ?thesis using assms by (simp add: writeOption_def poke_def option_bytes_def)
qed

lemma forEachOption_from_append:
  assumes "\<forall>tv \<in> set opts. length (snd tv) \<le> 254"
  shows "forEachOption_from (pre @ concat (map option_bytes opts)) (length pre) = opts"
  using assms
proof (induction opts arbitrary: pre)
  case Nil
  then show ?case by (subst forEachOption_from.simps) simp
next
  case (Cons tv opts)
  obtain t v where tv: "tv = (t, v)" by force
  have len: "unat (of_nat (Suc (length v)) :: byte) = Suc (length v)"
    using Cons.prems tv by (simp add: unat_of_nat del: of_nat_Suc)
  have IH: "forEachOption_from ((pre @ option_bytes tv) @ concat (map option_bytes opts))
      (length (pre @ option_bytes tv)) = opts"
    using Cons by (metis list.set_intros(2))
  show ?case using IH len tv
    by (subst forEachOption_from.simps)
      (simp add: option_bytes_def nth_append peek_def Let_def algebra_simps del: of_nat_Suc)
qed

lemma forEachOption_concat:
  "\<forall>tv \<in> set opts. length (snd tv) \<le> 254 \<Longrightarrow> forEachOption (concat (map option_bytes opts)) = opts"
  using forEachOption_from_append [of opts "[]"] by (simp add: forEachOption_def)

lemma ouch_valid_zero:
  "valid_EnterOrder (dec_EnterOrder (replicate 80 0))" "valid_ReplaceOrder (dec_ReplaceOrder (replicate 80 0))" "valid_CancelOrder (dec_CancelOrder (replicate 80 0))" "valid_Accepted (dec_Accepted (replicate 80 0))" "valid_Replaced (dec_Replaced (replicate 80 0))" "valid_Canceled (dec_Canceled (replicate 80 0))" "valid_Executed (dec_Executed (replicate 80 0))" "valid_Rejected (dec_Rejected (replicate 80 0))" "valid_CancelReject (dec_CancelReject (replicate 80 0))"
  by (simp_all add: valid_EnterOrder_def dec_EnterOrder_def valid_ReplaceOrder_def dec_ReplaceOrder_def valid_CancelOrder_def dec_CancelOrder_def valid_Accepted_def dec_Accepted_def valid_Replaced_def dec_Replaced_def valid_Canceled_def dec_Canceled_def valid_Executed_def dec_Executed_def valid_Rejected_def dec_Rejected_def valid_CancelReject_def dec_CancelReject_def
      u48_value_def be_fold_def)

section \<open>Properties\<close>



text \<open>
  TagValue appendages read back: options of at most 254 value bytes, written one after the other into
  a buffer that has room for them, are delivered by \<^verbatim>\<open>forEachOption\<close> in order with their values.
\<close>

theorem ouch_options_roundtrip:
  assumes "2 + length v1 \<le> length out1" and "2 + length v2 \<le> length out2" and "length v1 \<le> 254" and "length v2 \<le> 254"
  shows "forEachOption (take (2 + length v1) (snd (writeOption out1 t1 v1)) @ take (2 + length v2) (snd (writeOption out2 t2 v2)))
     = [(t1, v1), (t2, v2)]"
  using assms forEachOption_concat [of "[(t1, v1), (t2, v2)]"] by (simp add: writeOption_bytes option_bytes_def)

theorem ouch_options_roundtrip_witness:
  "forEachOption (take 6 (snd (writeOption (replicate 8 0) 2 [0, 0, 0, 5])) @ take 3 (snd (writeOption (replicate 8 0) 3 [80])))
     = [(2, [0, 0, 0, 5]), (3, [80])]"
  using ouch_options_roundtrip [of "[0, 0, 0, 5]" "replicate 8 0" "[80]" "replicate 8 0" 2 3] by simp

end
