(* ===== verification/Itch50.thy ===== *)
theory Itch50
  imports Endian
begin

text \<open>
  Market-data messages of \<^verbatim>\<open>protocol/Itch50.hpp\<close>, modelled as in \<open>Ouch50\<close>: enumerations with
  their wire codes, message records with encoder and overlay decoder, and an interpretation of
  \<open>wire_message\<close> per layout. Timestamps are the 48-bit fields of the feed, so a message is
  valid when its timestamp fits.
\<close>

section \<open>Enumerations\<close>

datatype MessageType =
  Msg_SystemEvent | Msg_StockDirectory | Msg_StockTradingAction | Msg_AddOrder |
  Msg_AddOrderMpid | Msg_OrderExecuted | Msg_OrderExecutedWithPrice | Msg_OrderCancel |
  Msg_OrderDelete | Msg_OrderReplace | Msg_TradeNonCross | Msg_CrossTrade

primrec MessageType_code :: "MessageType \<Rightarrow> byte" where
  "MessageType_code Msg_SystemEvent = 0x53"
| "MessageType_code Msg_StockDirectory = 0x52"
| "MessageType_code Msg_StockTradingAction = 0x48"
| "MessageType_code Msg_AddOrder = 0x41"
| "MessageType_code Msg_AddOrderMpid = 0x46"
| "MessageType_code Msg_OrderExecuted = 0x45"
| "MessageType_code Msg_OrderExecutedWithPrice = 0x43"
| "MessageType_code Msg_OrderCancel = 0x58"
| "MessageType_code Msg_OrderDelete = 0x44"
| "MessageType_code Msg_OrderReplace = 0x55"
| "MessageType_code Msg_TradeNonCross = 0x50"
| "MessageType_code Msg_CrossTrade = 0x51"

lemma MessageType_code_inj: "MessageType_code a = MessageType_code b \<Longrightarrow> a = b"
  by (cases a; cases b) simp_all

datatype ItchSide =
  ISide_Buy | ISide_Sell

primrec ItchSide_code :: "ItchSide \<Rightarrow> byte" where
  "ItchSide_code ISide_Buy = 0x42"
| "ItchSide_code ISide_Sell = 0x53"

lemma ItchSide_code_inj: "ItchSide_code a = ItchSide_code b \<Longrightarrow> a = b"
  by (cases a; cases b) simp_all

datatype SystemEventCode =
  Ev_StartOfMessages | Ev_StartOfSystemHours | Ev_StartOfMarketHours | Ev_EndOfMarketHours |
  Ev_EndOfSystemHours | Ev_EndOfMessages

primrec SystemEventCode_code :: "SystemEventCode \<Rightarrow> byte" where
  "SystemEventCode_code Ev_StartOfMessages = 0x4F"
| "SystemEventCode_code Ev_StartOfSystemHours = 0x53"
| "SystemEventCode_code Ev_StartOfMarketHours = 0x51"
| "SystemEventCode_code Ev_EndOfMarketHours = 0x4D"
| "SystemEventCode_code Ev_EndOfSystemHours = 0x45"
| "SystemEventCode_code Ev_EndOfMessages = 0x43"

lemma SystemEventCode_code_inj: "SystemEventCode_code a = SystemEventCode_code b \<Longrightarrow> a = b"
  by (cases a; cases b) simp_all

datatype TradingState =
  Ts_Halted | Ts_Paused | Ts_QuotationOnly | Ts_Trading

primrec TradingState_code :: "TradingState \<Rightarrow> byte" where
  "TradingState_code Ts_Halted = 0x48"
| "TradingState_code Ts_Paused = 0x50"
| "TradingState_code Ts_QuotationOnly = 0x51"
| "TradingState_code Ts_Trading = 0x54"

lemma TradingState_code_inj: "TradingState_code a = TradingState_code b \<Longrightarrow> a = b"
  by (cases a; cases b) simp_all

section \<open>Messages\<close>

record SystemEvent =
  se_messageType :: byte
  se_stockLocate :: u16
  se_trackingNumber :: u16
  se_timestamp :: u64
  se_eventCode :: byte

definition sizeof_SystemEvent :: nat where
  "sizeof_SystemEvent = 12"

definition enc_SystemEvent :: "SystemEvent \<Rightarrow> byte list" where
  "enc_SystemEvent m = [se_messageType m] @ be_store (se_stockLocate m) @
     be_store (se_trackingNumber m) @ u48_store (se_timestamp m) @ [se_eventCode m]"

definition dec_SystemEvent :: "byte list \<Rightarrow> SystemEvent" where
  "dec_SystemEvent bs =
     \<lparr>se_messageType = bs ! 0, se_stockLocate = be_value (drop 1 bs),
      se_trackingNumber = be_value (drop 3 bs), se_timestamp = u48_value (drop 5 bs),
      se_eventCode = bs ! 11\<rparr>"

definition valid_SystemEvent :: "SystemEvent \<Rightarrow> bool" where
  "valid_SystemEvent m \<longleftrightarrow> se_timestamp m < 2 ^ 48"

record StockDirectory =
  sd_messageType :: byte
  sd_stockLocate :: u16
  sd_trackingNumber :: u16
  sd_timestamp :: u64
  sd_stock :: "byte list"
  sd_marketCategory :: byte
  sd_financialStatusIndicator :: byte
  sd_roundLotSize :: u32
  sd_roundLotsOnly :: byte
  sd_issueClassification :: byte
  sd_issueSubType :: "byte list"
  sd_authenticity :: byte
  sd_shortSaleThresholdIndicator :: byte
  sd_ipoFlag :: byte
  sd_luldReferencePriceTier :: byte
  sd_etpFlag :: byte
  sd_etpLeverageFactor :: u32
  sd_inverseIndicator :: byte

definition sizeof_StockDirectory :: nat where
  "sizeof_StockDirectory = 39"

definition enc_StockDirectory :: "StockDirectory \<Rightarrow> byte list" where
  "enc_StockDirectory m = [sd_messageType m] @ be_store (sd_stockLocate m) @
     be_store (sd_trackingNumber m) @ u48_store (sd_timestamp m) @ sd_stock m @
     [sd_marketCategory m] @ [sd_financialStatusIndicator m] @ be_store (sd_roundLotSize m) @
     [sd_roundLotsOnly m] @ [sd_issueClassification m] @ sd_issueSubType m @
     [sd_authenticity m] @ [sd_shortSaleThresholdIndicator m] @ [sd_ipoFlag m] @
     [sd_luldReferencePriceTier m] @ [sd_etpFlag m] @ be_store (sd_etpLeverageFactor m) @
     [sd_inverseIndicator m]"

definition dec_StockDirectory :: "byte list \<Rightarrow> StockDirectory" where
  "dec_StockDirectory bs =
     \<lparr>sd_messageType = bs ! 0, sd_stockLocate = be_value (drop 1 bs),
      sd_trackingNumber = be_value (drop 3 bs), sd_timestamp = u48_value (drop 5 bs),
      sd_stock = take 8 (drop 11 bs), sd_marketCategory = bs ! 19,
      sd_financialStatusIndicator = bs ! 20, sd_roundLotSize = be_value (drop 21 bs),
      sd_roundLotsOnly = bs ! 25, sd_issueClassification = bs ! 26,
      sd_issueSubType = take 2 (drop 27 bs), sd_authenticity = bs ! 29,
      sd_shortSaleThresholdIndicator = bs ! 30, sd_ipoFlag = bs ! 31,
      sd_luldReferencePriceTier = bs ! 32, sd_etpFlag = bs ! 33,
      sd_etpLeverageFactor = be_value (drop 34 bs), sd_inverseIndicator = bs ! 38\<rparr>"

definition valid_StockDirectory :: "StockDirectory \<Rightarrow> bool" where
  "valid_StockDirectory m \<longleftrightarrow> sd_timestamp m < 2 ^ 48 \<and> length (sd_stock m) = 8 \<and> length (sd_issueSubType m) = 2"

record StockTradingAction =
  sta_messageType :: byte
  sta_stockLocate :: u16
  sta_trackingNumber :: u16
  sta_timestamp :: u64
  sta_stock :: "byte list"
  sta_tradingState :: byte
  sta_reserved :: byte
  sta_reason :: "byte list"

definition sizeof_StockTradingAction :: nat where
  "sizeof_StockTradingAction = 25"

definition enc_StockTradingAction :: "StockTradingAction \<Rightarrow> byte list" where
  "enc_StockTradingAction m = [sta_messageType m] @ be_store (sta_stockLocate m) @
     be_store (sta_trackingNumber m) @ u48_store (sta_timestamp m) @ sta_stock m @
     [sta_tradingState m] @ [sta_reserved m] @ sta_reason m"

definition dec_StockTradingAction :: "byte list \<Rightarrow> StockTradingAction" where
  "dec_StockTradingAction bs =
     \<lparr>sta_messageType = bs ! 0, sta_stockLocate = be_value (drop 1 bs),
      sta_trackingNumber = be_value (drop 3 bs), sta_timestamp = u48_value (drop 5 bs),
      sta_stock = take 8 (drop 11 bs), sta_tradingState = bs ! 19, sta_reserved = bs ! 20,
      sta_reason = take 4 (drop 21 bs)\<rparr>"

definition valid_StockTradingAction :: "StockTradingAction \<Rightarrow> bool" where
  "valid_StockTradingAction m \<longleftrightarrow> sta_timestamp m < 2 ^ 48 \<and> length (sta_stock m) = 8 \<and> length (sta_reason m) = 4"

record AddOrder =
  ao_messageType :: byte
  ao_stockLocate :: u16
  ao_trackingNumber :: u16
  ao_timestamp :: u64
  ao_orderRef :: u64
  ao_side :: byte
  ao_shares :: u32
  ao_stock :: "byte list"
  ao_price :: u32

definition sizeof_AddOrder :: nat where
  "sizeof_AddOrder = 36"

definition enc_AddOrder :: "AddOrder \<Rightarrow> byte list" where
  "enc_AddOrder m = [ao_messageType m] @ be_store (ao_stockLocate m) @
     be_store (ao_trackingNumber m) @ u48_store (ao_timestamp m) @ be_store (ao_orderRef m) @
     [ao_side m] @ be_store (ao_shares m) @ ao_stock m @ be_store (ao_price m)"

definition dec_AddOrder :: "byte list \<Rightarrow> AddOrder" where
  "dec_AddOrder bs =
     \<lparr>ao_messageType = bs ! 0, ao_stockLocate = be_value (drop 1 bs),
      ao_trackingNumber = be_value (drop 3 bs), ao_timestamp = u48_value (drop 5 bs),
      ao_orderRef = be_value (drop 11 bs), ao_side = bs ! 19, ao_shares = be_value (drop 20 bs),
      ao_stock = take 8 (drop 24 bs), ao_price = be_value (drop 32 bs)\<rparr>"

definition valid_AddOrder :: "AddOrder \<Rightarrow> bool" where
  "valid_AddOrder m \<longleftrightarrow> ao_timestamp m < 2 ^ 48 \<and> length (ao_stock m) = 8"

record AddOrderMpid =
  am_messageType :: byte
  am_stockLocate :: u16
  am_trackingNumber :: u16
  am_timestamp :: u64
  am_orderRef :: u64
  am_side :: byte
  am_shares :: u32
  am_stock :: "byte list"
  am_price :: u32
  am_attribution :: "byte list"

definition sizeof_AddOrderMpid :: nat where
  "sizeof_AddOrderMpid = 40"

definition enc_AddOrderMpid :: "AddOrderMpid \<Rightarrow> byte list" where
  "enc_AddOrderMpid m = [am_messageType m] @ be_store (am_stockLocate m) @
     be_store (am_trackingNumber m) @ u48_store (am_timestamp m) @ be_store (am_orderRef m) @
     [am_side m] @ be_store (am_shares m) @ am_stock m @ be_store (am_price m) @ am_attribution m"

definition dec_AddOrderMpid :: "byte list \<Rightarrow> AddOrderMpid" where
  "dec_AddOrderMpid bs =
     \<lparr>am_messageType = bs ! 0, am_stockLocate = be_value (drop 1 bs),
      am_trackingNumber = be_value (drop 3 bs), am_timestamp = u48_value (drop 5 bs),
      am_orderRef = be_value (drop 11 bs), am_side = bs ! 19, am_shares = be_value (drop 20 bs),
      am_stock = take 8 (drop 24 bs), am_price = be_value (drop 32 bs),
      am_attribution = take 4 (drop 36 bs)\<rparr>"

definition valid_AddOrderMpid :: "AddOrderMpid \<Rightarrow> bool" where
  "valid_AddOrderMpid m \<longleftrightarrow> am_timestamp m < 2 ^ 48 \<and> length (am_stock m) = 8 \<and> length (am_attribution m) = 4"

record OrderExecuted =
  oe_messageType :: byte
  oe_stockLocate :: u16
  oe_trackingNumber :: u16
  oe_timestamp :: u64
  oe_orderRef :: u64
  oe_executedShares :: u32
  oe_matchNumber :: u64

definition sizeof_OrderExecuted :: nat where
  "sizeof_OrderExecuted = 31"

definition enc_OrderExecuted :: "OrderExecuted \<Rightarrow> byte list" where
  "enc_OrderExecuted m = [oe_messageType m] @ be_store (oe_stockLocate m) @
     be_store (oe_trackingNumber m) @ u48_store (oe_timestamp m) @ be_store (oe_orderRef m) @
     be_store (oe_executedShares m) @ be_store (oe_matchNumber m)"

definition dec_OrderExecuted :: "byte list \<Rightarrow> OrderExecuted" where
  "dec_OrderExecuted bs =
     \<lparr>oe_messageType = bs ! 0, oe_stockLocate = be_value (drop 1 bs),
      oe_trackingNumber = be_value (drop 3 bs), oe_timestamp = u48_value (drop 5 bs),
      oe_orderRef = be_value (drop 11 bs), oe_executedShares = be_value (drop 19 bs),
      oe_matchNumber = be_value (drop 23 bs)\<rparr>"

definition valid_OrderExecuted :: "OrderExecuted \<Rightarrow> bool" where
  "valid_OrderExecuted m \<longleftrightarrow> oe_timestamp m < 2 ^ 48"

record OrderExecutedWithPrice =
  op_messageType :: byte
  op_stockLocate :: u16
  op_trackingNumber :: u16
  op_timestamp :: u64
  op_orderRef :: u64
  op_executedShares :: u32
  op_matchNumber :: u64
  op_printable :: byte
  op_executionPrice :: u32

definition sizeof_OrderExecutedWithPrice :: nat where
  "sizeof_OrderExecutedWithPrice = 36"

definition enc_OrderExecutedWithPrice :: "OrderExecutedWithPrice \<Rightarrow> byte list" where
  "enc_OrderExecutedWithPrice m = [op_messageType m] @ be_store (op_stockLocate m) @
     be_store (op_trackingNumber m) @ u48_store (op_timestamp m) @ be_store (op_orderRef m) @
     be_store (op_executedShares m) @ be_store (op_matchNumber m) @ [op_printable m] @
     be_store (op_executionPrice m)"

definition dec_OrderExecutedWithPrice :: "byte list \<Rightarrow> OrderExecutedWithPrice" where
  "dec_OrderExecutedWithPrice bs =
     \<lparr>op_messageType = bs ! 0, op_stockLocate = be_value (drop 1 bs),
      op_trackingNumber = be_value (drop 3 bs), op_timestamp = u48_value (drop 5 bs),
      op_orderRef = be_value (drop 11 bs), op_executedShares = be_value (drop 19 bs),
      op_matchNumber = be_value (drop 23 bs), op_printable = bs ! 31,
      op_executionPrice = be_value (drop 32 bs)\<rparr>"

definition valid_OrderExecutedWithPrice :: "OrderExecutedWithPrice \<Rightarrow> bool" where
  "valid_OrderExecutedWithPrice m \<longleftrightarrow> op_timestamp m < 2 ^ 48"

record OrderCancel =
  oc_messageType :: byte
  oc_stockLocate :: u16
  oc_trackingNumber :: u16
  oc_timestamp :: u64
  oc_orderRef :: u64
  oc_cancelledShares :: u32

definition sizeof_OrderCancel :: nat where
  "sizeof_OrderCancel = 23"

definition enc_OrderCancel :: "OrderCancel \<Rightarrow> byte list" where
  "enc_OrderCancel m = [oc_messageType m] @ be_store (oc_stockLocate m) @
     be_store (oc_trackingNumber m) @ u48_store (oc_timestamp m) @ be_store (oc_orderRef m) @
     be_store (oc_cancelledShares m)"

definition dec_OrderCancel :: "byte list \<Rightarrow> OrderCancel" where
  "dec_OrderCancel bs =
     \<lparr>oc_messageType = bs ! 0, oc_stockLocate = be_value (drop 1 bs),
      oc_trackingNumber = be_value (drop 3 bs), oc_timestamp = u48_value (drop 5 bs),
      oc_orderRef = be_value (drop 11 bs), oc_cancelledShares = be_value (drop 19 bs)\<rparr>"

definition valid_OrderCancel :: "OrderCancel \<Rightarrow> bool" where
  "valid_OrderCancel m \<longleftrightarrow> oc_timestamp m < 2 ^ 48"

record OrderDelete =
  od_messageType :: byte
  od_stockLocate :: u16
  od_trackingNumber :: u16
  od_timestamp :: u64
  od_orderRef :: u64

definition sizeof_OrderDelete :: nat where
  "sizeof_OrderDelete = 19"

definition enc_OrderDelete :: "OrderDelete \<Rightarrow> byte list" where
  "enc_OrderDelete m = [od_messageType m] @ be_store (od_stockLocate m) @
     be_store (od_trackingNumber m) @ u48_store (od_timestamp m) @ be_store (od_orderRef m)"

definition dec_OrderDelete :: "byte list \<Rightarrow> OrderDelete" where
  "dec_OrderDelete bs =
     \<lparr>od_messageType = bs ! 0, od_stockLocate = be_value (drop 1 bs),
      od_trackingNumber = be_value (drop 3 bs), od_timestamp = u48_value (drop 5 bs),
      od_orderRef = be_value (drop 11 bs)\<rparr>"

definition valid_OrderDelete :: "OrderDelete \<Rightarrow> bool" where
  "valid_OrderDelete m \<longleftrightarrow> od_timestamp m < 2 ^ 48"

record OrderReplace =
  orp_messageType :: byte
  orp_stockLocate :: u16
  orp_trackingNumber :: u16
  orp_timestamp :: u64
  orp_origOrderRef :: u64
  orp_newOrderRef :: u64
  orp_shares :: u32
  orp_price :: u32

definition sizeof_OrderReplace :: nat where
  "sizeof_OrderReplace = 35"

definition enc_OrderReplace :: "OrderReplace \<Rightarrow> byte list" where
  "enc_OrderReplace m = [orp_messageType m] @ be_store (orp_stockLocate m) @
     be_store (orp_trackingNumber m) @ u48_store (orp_timestamp m) @
     be_store (orp_origOrderRef m) @ be_store (orp_newOrderRef m) @ be_store (orp_shares m) @
     be_store (orp_price m)"

definition dec_OrderReplace :: "byte list \<Rightarrow> OrderReplace" where
  "dec_OrderReplace bs =
     \<lparr>orp_messageType = bs ! 0, orp_stockLocate = be_value (drop 1 bs),
      orp_trackingNumber = be_value (drop 3 bs), orp_timestamp = u48_value (drop 5 bs),
      orp_origOrderRef = be_value (drop 11 bs), orp_newOrderRef = be_value (drop 19 bs),
      orp_shares = be_value (drop 27 bs), orp_price = be_value (drop 31 bs)\<rparr>"

definition valid_OrderReplace :: "OrderReplace \<Rightarrow> bool" where
  "valid_OrderReplace m \<longleftrightarrow> orp_timestamp m < 2 ^ 48"

record TradeNonCross =
  tn_messageType :: byte
  tn_stockLocate :: u16
  tn_trackingNumber :: u16
  tn_timestamp :: u64
  tn_orderRef :: u64
  tn_side :: byte
  tn_shares :: u32
  tn_stock :: "byte list"
  tn_price :: u32
  tn_matchNumber :: u64

definition sizeof_TradeNonCross :: nat where
  "sizeof_TradeNonCross = 44"

definition enc_TradeNonCross :: "TradeNonCross \<Rightarrow> byte list" where
  "enc_TradeNonCross m = [tn_messageType m] @ be_store (tn_stockLocate m) @
     be_store (tn_trackingNumber m) @ u48_store (tn_timestamp m) @ be_store (tn_orderRef m) @
     [tn_side m] @ be_store (tn_shares m) @ tn_stock m @ be_store (tn_price m) @
     be_store (tn_matchNumber m)"

definition dec_TradeNonCross :: "byte list \<Rightarrow> TradeNonCross" where
  "dec_TradeNonCross bs =
     \<lparr>tn_messageType = bs ! 0, tn_stockLocate = be_value (drop 1 bs),
      tn_trackingNumber = be_value (drop 3 bs), tn_timestamp = u48_value (drop 5 bs),
      tn_orderRef = be_value (drop 11 bs), tn_side = bs ! 19, tn_shares = be_value (drop 20 bs),
      tn_stock = take 8 (drop 24 bs), tn_price = be_value (drop 32 bs),
      tn_matchNumber = be_value (drop 36 bs)\<rparr>"

definition valid_TradeNonCross :: "TradeNonCross \<Rightarrow> bool" where
  "valid_TradeNonCross m \<longleftrightarrow> tn_timestamp m < 2 ^ 48 \<and> length (tn_stock m) = 8"

record CrossTrade =
  ct_messageType :: byte
  ct_stockLocate :: u16
  ct_trackingNumber :: u16
  ct_timestamp :: u64
  ct_shares :: u64
  ct_stock :: "byte list"
  ct_crossPrice :: u32
  ct_matchNumber :: u64
  ct_crossType :: byte

definition sizeof_CrossTrade :: nat where
  "sizeof_CrossTrade = 40"

definition enc_CrossTrade :: "CrossTrade \<Rightarrow> byte list" where
  "enc_CrossTrade m = [ct_messageType m] @ be_store (ct_stockLocate m) @
     be_store (ct_trackingNumber m) @ u48_store (ct_timestamp m) @ be_store (ct_shares m) @
     ct_stock m @ be_store (ct_crossPrice m) @ be_store (ct_matchNumber m) @ [ct_crossType m]"

definition dec_CrossTrade :: "byte list \<Rightarrow> CrossTrade" where
  "dec_CrossTrade bs =
     \<lparr>ct_messageType = bs ! 0, ct_stockLocate = be_value (drop 1 bs),
      ct_trackingNumber = be_value (drop 3 bs), ct_timestamp = u48_value (drop 5 bs),
      ct_shares = be_value (drop 11 bs), ct_stock = take 8 (drop 19 bs),
      ct_crossPrice = be_value (drop 27 bs), ct_matchNumber = be_value (drop 31 bs),
      ct_crossType = bs ! 39\<rparr>"

definition valid_CrossTrade :: "CrossTrade \<Rightarrow> bool" where
  "valid_CrossTrade m \<longleftrightarrow> ct_timestamp m < 2 ^ 48 \<and> length (ct_stock m) = 8"

section \<open>Layouts round trip\<close>

interpretation systemEvent_wire: wire_message sizeof_SystemEvent enc_SystemEvent dec_SystemEvent valid_SystemEvent
  by unfold_locales (simp_all add: sizeof_SystemEvent_def enc_SystemEvent_def dec_SystemEvent_def valid_SystemEvent_def wire_codec_simps)

interpretation stockDirectory_wire: wire_message sizeof_StockDirectory enc_StockDirectory dec_StockDirectory valid_StockDirectory
  by unfold_locales (simp_all add: sizeof_StockDirectory_def enc_StockDirectory_def dec_StockDirectory_def valid_StockDirectory_def wire_codec_simps)

interpretation stockTradingAction_wire: wire_message sizeof_StockTradingAction enc_StockTradingAction dec_StockTradingAction valid_StockTradingAction
  by unfold_locales (simp_all add: sizeof_StockTradingAction_def enc_StockTradingAction_def dec_StockTradingAction_def valid_StockTradingAction_def wire_codec_simps)

interpretation addOrder_wire: wire_message sizeof_AddOrder enc_AddOrder dec_AddOrder valid_AddOrder
  by unfold_locales (simp_all add: sizeof_AddOrder_def enc_AddOrder_def dec_AddOrder_def valid_AddOrder_def wire_codec_simps)

interpretation addOrderMpid_wire: wire_message sizeof_AddOrderMpid enc_AddOrderMpid dec_AddOrderMpid valid_AddOrderMpid
  by unfold_locales (simp_all add: sizeof_AddOrderMpid_def enc_AddOrderMpid_def dec_AddOrderMpid_def valid_AddOrderMpid_def wire_codec_simps)

interpretation orderExecuted_wire: wire_message sizeof_OrderExecuted enc_OrderExecuted dec_OrderExecuted valid_OrderExecuted
  by unfold_locales (simp_all add: sizeof_OrderExecuted_def enc_OrderExecuted_def dec_OrderExecuted_def valid_OrderExecuted_def wire_codec_simps)

interpretation orderExecutedWithPrice_wire: wire_message sizeof_OrderExecutedWithPrice enc_OrderExecutedWithPrice dec_OrderExecutedWithPrice valid_OrderExecutedWithPrice
  by unfold_locales (simp_all add: sizeof_OrderExecutedWithPrice_def enc_OrderExecutedWithPrice_def dec_OrderExecutedWithPrice_def valid_OrderExecutedWithPrice_def wire_codec_simps)

interpretation orderCancel_wire: wire_message sizeof_OrderCancel enc_OrderCancel dec_OrderCancel valid_OrderCancel
  by unfold_locales (simp_all add: sizeof_OrderCancel_def enc_OrderCancel_def dec_OrderCancel_def valid_OrderCancel_def wire_codec_simps)

interpretation orderDelete_wire: wire_message sizeof_OrderDelete enc_OrderDelete dec_OrderDelete valid_OrderDelete
  by unfold_locales (simp_all add: sizeof_OrderDelete_def enc_OrderDelete_def dec_OrderDelete_def valid_OrderDelete_def wire_codec_simps)

interpretation orderReplace_wire: wire_message sizeof_OrderReplace enc_OrderReplace dec_OrderReplace valid_OrderReplace
  by unfold_locales (simp_all add: sizeof_OrderReplace_def enc_OrderReplace_def dec_OrderReplace_def valid_OrderReplace_def wire_codec_simps)

interpretation tradeNonCross_wire: wire_message sizeof_TradeNonCross enc_TradeNonCross dec_TradeNonCross valid_TradeNonCross
  by unfold_locales (simp_all add: sizeof_TradeNonCross_def enc_TradeNonCross_def dec_TradeNonCross_def valid_TradeNonCross_def wire_codec_simps)

interpretation crossTrade_wire: wire_message sizeof_CrossTrade enc_CrossTrade dec_CrossTrade valid_CrossTrade
  by unfold_locales (simp_all add: sizeof_CrossTrade_def enc_CrossTrade_def dec_CrossTrade_def valid_CrossTrade_def wire_codec_simps)

lemma replicate_6: "replicate 6 x = [x, x, x, x, x, x]"
  by (simp add: numeral_eq_Suc)

lemma itch_valid_zero:
  "valid_AddOrder (dec_AddOrder (replicate 80 0))" "valid_AddOrderMpid (dec_AddOrderMpid (replicate 80 0))" "valid_OrderExecuted (dec_OrderExecuted (replicate 80 0))" "valid_OrderExecutedWithPrice (dec_OrderExecutedWithPrice (replicate 80 0))" "valid_OrderCancel (dec_OrderCancel (replicate 80 0))" "valid_OrderDelete (dec_OrderDelete (replicate 80 0))" "valid_OrderReplace (dec_OrderReplace (replicate 80 0))" "valid_TradeNonCross (dec_TradeNonCross (replicate 80 0))" "valid_CrossTrade (dec_CrossTrade (replicate 80 0))" "valid_SystemEvent (dec_SystemEvent (replicate 80 0))" "valid_StockDirectory (dec_StockDirectory (replicate 80 0))" "valid_StockTradingAction (dec_StockTradingAction (replicate 80 0))"
  by (simp_all add: valid_AddOrder_def dec_AddOrder_def valid_AddOrderMpid_def dec_AddOrderMpid_def valid_OrderExecuted_def dec_OrderExecuted_def valid_OrderExecutedWithPrice_def dec_OrderExecutedWithPrice_def valid_OrderCancel_def dec_OrderCancel_def valid_OrderDelete_def dec_OrderDelete_def valid_OrderReplace_def dec_OrderReplace_def valid_TradeNonCross_def dec_TradeNonCross_def valid_CrossTrade_def dec_CrossTrade_def valid_SystemEvent_def dec_SystemEvent_def valid_StockDirectory_def dec_StockDirectory_def valid_StockTradingAction_def dec_StockTradingAction_def
      u48_value_def be_fold_def replicate_6)

section \<open>Properties\<close>

text \<open>
  Every ITCH message reads back as it was written: the overlay read of a buffer that starts with an
  encoded message returns the message, whatever follows.
\<close>

theorem itch_messages_roundtrip:
  "(valid_AddOrder m1 \<longrightarrow> wire_read sizeof_AddOrder dec_AddOrder (enc_AddOrder m1 @ rest) = Some m1) \<and>
   (valid_AddOrderMpid m2 \<longrightarrow> wire_read sizeof_AddOrderMpid dec_AddOrderMpid (enc_AddOrderMpid m2 @ rest) = Some m2) \<and>
   (valid_OrderExecuted m3 \<longrightarrow> wire_read sizeof_OrderExecuted dec_OrderExecuted (enc_OrderExecuted m3 @ rest) = Some m3) \<and>
   (valid_OrderExecutedWithPrice m4 \<longrightarrow>
      wire_read sizeof_OrderExecutedWithPrice dec_OrderExecutedWithPrice (enc_OrderExecutedWithPrice m4 @ rest) = Some m4) \<and>
   (valid_OrderCancel m5 \<longrightarrow> wire_read sizeof_OrderCancel dec_OrderCancel (enc_OrderCancel m5 @ rest) = Some m5) \<and>
   (valid_OrderDelete m6 \<longrightarrow> wire_read sizeof_OrderDelete dec_OrderDelete (enc_OrderDelete m6 @ rest) = Some m6) \<and>
   (valid_OrderReplace m7 \<longrightarrow> wire_read sizeof_OrderReplace dec_OrderReplace (enc_OrderReplace m7 @ rest) = Some m7) \<and>
   (valid_TradeNonCross m8 \<longrightarrow> wire_read sizeof_TradeNonCross dec_TradeNonCross (enc_TradeNonCross m8 @ rest) = Some m8) \<and>
   (valid_CrossTrade m9 \<longrightarrow> wire_read sizeof_CrossTrade dec_CrossTrade (enc_CrossTrade m9 @ rest) = Some m9) \<and>
   (valid_SystemEvent m10 \<longrightarrow> wire_read sizeof_SystemEvent dec_SystemEvent (enc_SystemEvent m10 @ rest) = Some m10) \<and>
   (valid_StockDirectory m11 \<longrightarrow> wire_read sizeof_StockDirectory dec_StockDirectory (enc_StockDirectory m11 @ rest) = Some m11) \<and>
   (valid_StockTradingAction m12 \<longrightarrow>
      wire_read sizeof_StockTradingAction dec_StockTradingAction (enc_StockTradingAction m12 @ rest) = Some m12)"
  by (simp add: addOrder_wire.read_enc addOrderMpid_wire.read_enc orderExecuted_wire.read_enc
      orderExecutedWithPrice_wire.read_enc orderCancel_wire.read_enc orderDelete_wire.read_enc orderReplace_wire.read_enc
      tradeNonCross_wire.read_enc crossTrade_wire.read_enc systemEvent_wire.read_enc stockDirectory_wire.read_enc
      stockTradingAction_wire.read_enc)

theorem itch_messages_roundtrip_witness:
  "wire_read sizeof_AddOrder dec_AddOrder (enc_AddOrder (dec_AddOrder (replicate 80 0)) @ [1]) = Some (dec_AddOrder (replicate 80 0)) \<and>
   wire_read sizeof_AddOrderMpid dec_AddOrderMpid (enc_AddOrderMpid (dec_AddOrderMpid (replicate 80 0)) @ [1]) = Some (dec_AddOrderMpid (replicate 80 0)) \<and>
   wire_read sizeof_OrderExecuted dec_OrderExecuted (enc_OrderExecuted (dec_OrderExecuted (replicate 80 0)) @ [1]) = Some (dec_OrderExecuted (replicate 80 0)) \<and>
   wire_read sizeof_OrderExecutedWithPrice dec_OrderExecutedWithPrice (enc_OrderExecutedWithPrice (dec_OrderExecutedWithPrice (replicate 80 0)) @ [1]) = Some (dec_OrderExecutedWithPrice (replicate 80 0)) \<and>
   wire_read sizeof_OrderCancel dec_OrderCancel (enc_OrderCancel (dec_OrderCancel (replicate 80 0)) @ [1]) = Some (dec_OrderCancel (replicate 80 0)) \<and>
   wire_read sizeof_OrderDelete dec_OrderDelete (enc_OrderDelete (dec_OrderDelete (replicate 80 0)) @ [1]) = Some (dec_OrderDelete (replicate 80 0)) \<and>
   wire_read sizeof_OrderReplace dec_OrderReplace (enc_OrderReplace (dec_OrderReplace (replicate 80 0)) @ [1]) = Some (dec_OrderReplace (replicate 80 0)) \<and>
   wire_read sizeof_TradeNonCross dec_TradeNonCross (enc_TradeNonCross (dec_TradeNonCross (replicate 80 0)) @ [1]) = Some (dec_TradeNonCross (replicate 80 0)) \<and>
   wire_read sizeof_CrossTrade dec_CrossTrade (enc_CrossTrade (dec_CrossTrade (replicate 80 0)) @ [1]) = Some (dec_CrossTrade (replicate 80 0)) \<and>
   wire_read sizeof_SystemEvent dec_SystemEvent (enc_SystemEvent (dec_SystemEvent (replicate 80 0)) @ [1]) = Some (dec_SystemEvent (replicate 80 0)) \<and>
   wire_read sizeof_StockDirectory dec_StockDirectory (enc_StockDirectory (dec_StockDirectory (replicate 80 0)) @ [1]) = Some (dec_StockDirectory (replicate 80 0)) \<and>
   wire_read sizeof_StockTradingAction dec_StockTradingAction (enc_StockTradingAction (dec_StockTradingAction (replicate 80 0)) @ [1]) = Some (dec_StockTradingAction (replicate 80 0))"
  using itch_messages_roundtrip [of "dec_AddOrder (replicate 80 0)" "[1]" "dec_AddOrderMpid (replicate 80 0)" "dec_OrderExecuted (replicate 80 0)" "dec_OrderExecutedWithPrice (replicate 80 0)" "dec_OrderCancel (replicate 80 0)" "dec_OrderDelete (replicate 80 0)" "dec_OrderReplace (replicate 80 0)" "dec_TradeNonCross (replicate 80 0)" "dec_CrossTrade (replicate 80 0)" "dec_SystemEvent (replicate 80 0)" "dec_StockDirectory (replicate 80 0)" "dec_StockTradingAction (replicate 80 0)"]
  by (simp only: itch_valid_zero simp_thms)

end
