(* ===== verification/SoupBinTcp.thy ===== *)
theory SoupBinTcp
  imports Endian
begin

text \<open>
  SoupBinTCP order-entry framing of \<^verbatim>\<open>protocol/SoupBinTcp.hpp\<close>: packet construction, the parser,
  the decimal sequence field of a login, and the stream loop that \<open>ExchangeSession\<close> and
  \<open>DutSession\<close> run over their receive buffers. The lemmas show that packets parse back, that
  the way TCP cuts the byte stream into reads never changes the packets seen, and that a
  sequence number survives its decimal field.
\<close>

section \<open>Packet types\<close>

definition soup_kHeaderSize :: nat where "soup_kHeaderSize = 3"

datatype SoupType =
  Soup_LoginRequest | Soup_UnsequencedData | Soup_ClientHeartbeat | Soup_LogoutRequest |
  Soup_LoginAccepted | Soup_LoginRejected | Soup_SequencedData | Soup_ServerHeartbeat |
  Soup_EndOfSession | Soup_Debug

primrec SoupType_code :: "SoupType \<Rightarrow> byte" where
  "SoupType_code Soup_LoginRequest = 0x4C"
| "SoupType_code Soup_UnsequencedData = 0x55"
| "SoupType_code Soup_ClientHeartbeat = 0x52"
| "SoupType_code Soup_LogoutRequest = 0x4F"
| "SoupType_code Soup_LoginAccepted = 0x41"
| "SoupType_code Soup_LoginRejected = 0x4A"
| "SoupType_code Soup_SequencedData = 0x53"
| "SoupType_code Soup_ServerHeartbeat = 0x48"
| "SoupType_code Soup_EndOfSession = 0x5A"
| "SoupType_code Soup_Debug = 0x2B"

lemma SoupType_code_inj: "SoupType_code a = SoupType_code b \<Longrightarrow> a = b"
  by (cases a; cases b) simp_all

datatype SoupRejectReason = SoupRej_NotAuthorized | SoupRej_SessionUnavailable

primrec SoupRejectReason_code :: "SoupRejectReason \<Rightarrow> byte" where
  "SoupRejectReason_code SoupRej_NotAuthorized = 0x41"
| "SoupRejectReason_code SoupRej_SessionUnavailable = 0x53"

record LoginRequest =
  lr_username :: "byte list"
  lr_password :: "byte list"
  lr_requestedSession :: "byte list"
  lr_requestedSequenceNumber :: "byte list"

definition enc_LoginRequest :: "LoginRequest \<Rightarrow> byte list" where
  "enc_LoginRequest r =
     lr_username r @ lr_password r @ lr_requestedSession r @ lr_requestedSequenceNumber r"

definition dec_LoginRequest :: "byte list \<Rightarrow> LoginRequest" where
  "dec_LoginRequest bs =
     \<lparr>lr_username = take 6 bs, lr_password = take 10 (drop 6 bs),
      lr_requestedSession = take 10 (drop 16 bs), lr_requestedSequenceNumber = take 20 (drop 26 bs)\<rparr>"

definition valid_LoginRequest :: "LoginRequest \<Rightarrow> bool" where
  "valid_LoginRequest r \<longleftrightarrow> length (lr_username r) = 6 \<and> length (lr_password r) = 10 \<and>
     length (lr_requestedSession r) = 10 \<and> length (lr_requestedSequenceNumber r) = 20"

record LoginAccepted =
  la_session :: "byte list"
  la_sequenceNumber :: "byte list"

definition enc_LoginAccepted :: "LoginAccepted \<Rightarrow> byte list" where
  "enc_LoginAccepted a = la_session a @ la_sequenceNumber a"

definition dec_LoginAccepted :: "byte list \<Rightarrow> LoginAccepted" where
  "dec_LoginAccepted bs = \<lparr>la_session = take 10 bs, la_sequenceNumber = take 20 (drop 10 bs)\<rparr>"

definition valid_LoginAccepted :: "LoginAccepted \<Rightarrow> bool" where
  "valid_LoginAccepted a \<longleftrightarrow> length (la_session a) = 10 \<and> length (la_sequenceNumber a) = 20"

interpretation loginRequest_wire: wire_message 46 enc_LoginRequest dec_LoginRequest valid_LoginRequest
  by unfold_locales (simp_all add: enc_LoginRequest_def dec_LoginRequest_def valid_LoginRequest_def)

interpretation loginAccepted_wire: wire_message 30 enc_LoginAccepted dec_LoginAccepted valid_LoginAccepted
  by unfold_locales (simp_all add: enc_LoginAccepted_def dec_LoginAccepted_def valid_LoginAccepted_def)

section \<open>Decimal sequence numbers\<close>

text \<open>The do-while loop over \<open>tmp[--i]\<close>; the first argument is \<open>i\<close>.\<close>

primrec formatSeq_loop :: "nat \<Rightarrow> u64 \<Rightarrow> byte list \<Rightarrow> byte list" where
  "formatSeq_loop 0 v tmp = tmp"
| "formatSeq_loop (Suc i) v tmp =
     (let tmp' = (0x30 + ucast (v mod 10)) # tmp; v' = v div 10
      in if v' \<noteq> 0 \<and> i > 0 then formatSeq_loop i v' tmp' else tmp')"

definition formatSeq :: "u64 \<Rightarrow> byte list" where
  "formatSeq v = (let digits = formatSeq_loop 20 v [] in replicate (20 - length digits) space @ digits)"

definition parseSeq_step :: "u64 \<Rightarrow> byte \<Rightarrow> u64" where
  "parseSeq_step v c = (if 0x30 \<le> c \<and> c \<le> 0x39 then v * 10 + ucast (c - 0x30) else v)"

definition parseSeq :: "byte list \<Rightarrow> u64" where
  "parseSeq f = foldl parseSeq_step 0 f"

lemma parseSeq_step_digit: "d < 10 \<Longrightarrow> parseSeq_step v (0x30 + ucast (d :: u64)) = v * 10 + d"
proof -
  assume "d < 10"
  define n where "n = unat d"
  have d: "d = of_nat n" by (simp add: n_def)
  have "n < 10" using \<open>d < 10\<close> by (simp add: n_def word_less_nat_alt)
  then have "n = 0 \<or> n = 1 \<or> n = 2 \<or> n = 3 \<or> n = 4 \<or> n = 5 \<or> n = 6 \<or> n = 7 \<or> n = 8 \<or> n = 9"
    by presburger
  then show ?thesis by (elim disjE) (simp_all add: d parseSeq_step_def)
qed

lemma parseSeq_formatSeq_loop:
  "unat v < 10 ^ Suc i \<Longrightarrow>
     foldl parseSeq_step 0 (formatSeq_loop (Suc i) v tmp) = foldl parseSeq_step v tmp"
proof (induction i arbitrary: v tmp)
  case 0
  then have "v < 10" by (simp add: word_less_nat_alt)
  then have "v mod 10 = v" "v div 10 = 0" by (simp_all add: mod_word_less div_word_less)
  with \<open>v < 10\<close> show ?case by (simp add: Let_def parseSeq_step_digit)
next
  case (Suc i)
  have digit: "parseSeq_step u (0x30 + ucast (v mod 10)) = u * 10 + v mod 10" for u
    by (rule parseSeq_step_digit) (simp add: word_mod_less_divisor)
  have split: "(v div 10) * 10 + v mod 10 = v" by (rule div_mult_mod_eq)
  have "unat (v div 10) < 10 ^ Suc i" using Suc.prems by (simp add: unat_div)
  note IH = Suc.IH [OF this, of "(0x30 + ucast (v mod 10)) # tmp"]
  show ?case
  proof (cases "v div 10 = 0")
    case True
    then show ?thesis using split digit [of 0] by (simp add: Let_def)
  next
    case False
    then show ?thesis using IH split digit [of "v div 10"] by (simp add: Let_def)
  qed
qed

lemma foldl_parseSeq_pad: "foldl parseSeq_step v (replicate n space) = v"
  by (induction n) (simp_all add: parseSeq_step_def space_def)

lemma length_formatSeq_loop: "length (formatSeq_loop i v tmp) \<le> i + length tmp"
proof (induction i arbitrary: v tmp)
  case (Suc i)
  show ?case using Suc [of "v div 10" "(48 + ucast (v mod 10)) # tmp"] by (simp add: Let_def)
qed simp

lemma length_formatSeq [simp, wire_simps]: "length (formatSeq v) = 20"
  using length_formatSeq_loop [of 20 v "[]"] by (simp add: formatSeq_def Let_def)

lemma parseSeq_formatSeq_aux: "parseSeq (formatSeq v) = v"
proof -
  have "unat v < 10 ^ Suc 19" using unsigned_less [of v, where ?'a = nat] by simp
  from parseSeq_formatSeq_loop [OF this, of "[]"] show ?thesis
    by (simp add: parseSeq_def formatSeq_def Let_def foldl_parseSeq_pad)
qed

section \<open>Packing\<close>

text \<open>\<open>pack\<close> writes into the caller's buffer and returns the packet as a view of it.\<close>

definition soup_pack :: "byte list \<Rightarrow> byte \<Rightarrow> byte list \<Rightarrow> byte list" where
  "soup_pack buf type payload =
     (let plen = of_nat (1 + length payload) :: u16;
          buf' = poke 2 [type] (poke 0 (be_store plen) buf);
          buf'' = (if payload \<noteq> [] then poke soup_kHeaderSize payload buf' else buf')
      in take (2 + unat plen) buf'')"

definition packSequencedData :: "byte list \<Rightarrow> byte list \<Rightarrow> byte list" where
  "packSequencedData buf ouch = soup_pack buf (SoupType_code Soup_SequencedData) ouch"

definition packUnsequencedData :: "byte list \<Rightarrow> byte list \<Rightarrow> byte list" where
  "packUnsequencedData buf ouch = soup_pack buf (SoupType_code Soup_UnsequencedData) ouch"

definition packServerHeartbeat :: "byte list \<Rightarrow> byte list" where
  "packServerHeartbeat buf = soup_pack buf (SoupType_code Soup_ServerHeartbeat) []"

definition packClientHeartbeat :: "byte list \<Rightarrow> byte list" where
  "packClientHeartbeat buf = soup_pack buf (SoupType_code Soup_ClientHeartbeat) []"

definition packEndOfSession :: "byte list \<Rightarrow> byte list" where
  "packEndOfSession buf = soup_pack buf (SoupType_code Soup_EndOfSession) []"

definition packLoginAccepted :: "byte list \<Rightarrow> byte list \<Rightarrow> u64 \<Rightarrow> byte list" where
  "packLoginAccepted buf session nextSeq =
     (let a = \<lparr>la_session = alpha_store 10 session, la_sequenceNumber = formatSeq nextSeq\<rparr>
      in soup_pack buf (SoupType_code Soup_LoginAccepted) (enc_LoginAccepted a))"

definition packLoginRequest :: "byte list \<Rightarrow> byte list \<Rightarrow> byte list \<Rightarrow> byte list" where
  "packLoginRequest buf username session =
     (let r = \<lparr>lr_username = alpha_store 6 username, lr_password = alpha_store 10 [],
               lr_requestedSession = alpha_store 10 session,
               lr_requestedSequenceNumber = alpha_store 20 [0x31]\<rparr>
      in soup_pack buf (SoupType_code Soup_LoginRequest) (enc_LoginRequest r))"

definition packLoginRejected :: "byte list \<Rightarrow> SoupRejectReason \<Rightarrow> byte list" where
  "packLoginRejected buf r = soup_pack buf (SoupType_code Soup_LoginRejected) [SoupRejectReason_code r]"

section \<open>Parsing\<close>

record SoupPacket =
  sp_type :: byte
  sp_payload :: "byte list"

text \<open>\<open>None\<close> where \<open>parse\<close> returns 0, else the bytes consumed and the packet.\<close>

definition soup_parse :: "byte list \<Rightarrow> (nat \<times> SoupPacket) option" where
  "soup_parse data =
     (if length data < soup_kHeaderSize then None
      else let plen = be_value data :: u16 in
        if plen = 0 then None
        else let total = 2 + unat plen in
          if length data < total then None
          else Some (total, \<lparr>sp_type = data ! 2, sp_payload = peek soup_kHeaderSize (unat plen - 1) data\<rparr>))"

lemma soup_pack_bytes:
  assumes "length payload < 2 ^ 16 - 1" and "3 + length payload \<le> length buf"
  shows "soup_pack buf t payload = be_store (of_nat (1 + length payload) :: u16) @ t # payload"
proof -
  have "unat (of_nat (1 + length payload) :: u16) = 1 + length payload"
    using assms(1) by (simp add: unat_of_nat del: of_nat_Suc)
  then show ?thesis using assms(2)
    by (auto simp: soup_pack_def Let_def poke_def soup_kHeaderSize_def Suc_diff_le numeral_3_eq_3)
qed

lemma soup_parse_packet:
  assumes "length payload < 2 ^ 16 - 1"
  shows "soup_parse ((be_store (of_nat (1 + length payload) :: u16) @ t # payload) @ rest) =
     Some (3 + length payload, \<lparr>sp_type = t, sp_payload = payload\<rparr>)"
proof -
  have u: "unat (of_nat (1 + length payload) :: u16) = 1 + length payload"
    using assms by (simp add: unat_of_nat del: of_nat_Suc)
  then have "(of_nat (1 + length payload) :: u16) \<noteq> 0" by (metis add_is_0 unat_0 zero_neq_one)
  with u show ?thesis
    by (simp add: soup_parse_def be_value_append soup_kHeaderSize_def nth_append peek_def Let_def del: of_nat_Suc)
qed

lemma soup_parse_append:
  assumes "soup_parse a = Some cp"
  shows "soup_parse (a @ b) = Some cp"
proof -
  from assms have "2 \<le> length a" by (auto simp: soup_parse_def soup_kHeaderSize_def split: if_splits)
  then have "(be_value (a @ b) :: u16) = be_value a" by (simp add: be_value_def)
  then show ?thesis using assms
    by (auto simp: soup_parse_def soup_kHeaderSize_def Let_def nth_append peek_def split: if_splits)
qed

lemma soup_parse_bounds: "soup_parse a = Some (c, p) \<Longrightarrow> 3 \<le> c \<and> c \<le> length a"
proof -
  assume "soup_parse a = Some (c, p)"
  then have "c = 2 + unat (be_value a :: u16)" "(be_value a :: u16) \<noteq> 0" "c \<le> length a"
    by (auto simp: soup_parse_def Let_def split: if_splits)
  moreover from this have "0 < unat (be_value a :: u16)" by (simp add: unat_gt_0)
  ultimately show ?thesis by simp
qed

section \<open>The stream loop\<close>

text \<open>
  The receive loop: parse packets from the front of the buffer until \<open>parse\<close> returns 0, then
  erase what was consumed. The result is the packets handled, in order, and the bytes kept.
\<close>

function soup_drain :: "byte list \<Rightarrow> SoupPacket list \<times> byte list" where
  "soup_drain data =
     (case soup_parse data of None \<Rightarrow> ([], data)
      | Some (c, p) \<Rightarrow> (let (ps, rest) = soup_drain (drop c data) in (p # ps, rest)))"
  by pat_completeness auto
termination
proof (relation "measure length")
  fix data c p x2 assume "soup_parse data = Some x2" "(c, p) = x2"
  then have "3 \<le> c \<and> c \<le> length data" using soup_parse_bounds by metis
  then show "(drop c data, data) \<in> measure length" by (simp, linarith)
qed simp

declare soup_drain.simps [simp del]

primrec soup_feed :: "byte list \<Rightarrow> byte list list \<Rightarrow> SoupPacket list \<times> byte list" where
  "soup_feed rxBuf [] = ([], rxBuf)"
| "soup_feed rxBuf (chunk # chunks) =
     (let (ps, rest) = soup_drain (rxBuf @ chunk); (qs, rest') = soup_feed rest chunks
      in (ps @ qs, rest'))"

lemma soup_drain_append:
  "soup_drain (a @ b) =
     (let (ps, r) = soup_drain a; (qs, r') = soup_drain (r @ b) in (ps @ qs, r'))"
proof (induction a rule: soup_drain.induct)
  case (1 a)
  show ?case
  proof (cases "soup_parse a")
    case None
    then show ?thesis by (simp add: soup_drain.simps [of a])
  next
    case (Some cp)
    obtain c p where cp: "cp = (c, p)" by force
    have "c \<le> length a" using soup_parse_bounds Some cp by blast
    then have "drop c (a @ b) = drop c a @ b" by simp
    then show ?thesis
      using 1 Some cp soup_parse_append [OF Some, of b]
      by (simp add: soup_drain.simps [of a] soup_drain.simps [of "a @ b"] split: prod.splits)
  qed
qed

lemma soup_drain_rest: "soup_drain a = (ps, r) \<Longrightarrow> soup_drain r = ([], r)"
proof (induction a arbitrary: ps rule: soup_drain.induct)
  case (1 a)
  show ?case
  proof (cases "soup_parse a")
    case None
    then have "soup_drain a = ([], a)" by (simp add: soup_drain.simps [of a])
    then show ?thesis using "1.prems" by auto
  next
    case (Some cp)
    obtain c p where cp: "cp = (c, p)" by force
    then obtain qs where "soup_drain (drop c a) = (qs, r)"
      using "1.prems" Some by (auto simp: soup_drain.simps [of a] split: prod.splits)
    then show ?thesis using "1.IH" Some cp by blast
  qed
qed

lemma soup_feed_concat:
  "soup_drain rxBuf = ([], rxBuf) \<Longrightarrow> soup_feed rxBuf chunks = soup_drain (rxBuf @ concat chunks)"
proof (induction chunks arbitrary: rxBuf)
  case Nil
  then show ?case by simp
next
  case (Cons c cs)
  obtain ps r where r: "soup_drain (rxBuf @ c) = (ps, r)" by force
  have "soup_feed r cs = soup_drain (r @ concat cs)"
    by (rule Cons.IH) (rule soup_drain_rest [OF r])
  then show ?case using r soup_drain_append [of "rxBuf @ c" "concat cs"]
    by (simp add: Let_def)
qed

lemma soup_parse_zero_length: "soup_parse (0 # 0 # rest) = None"
proof -
  have "(be_value (0 # 0 # rest) :: u16) = 0"
    by (simp add: be_value_def bswap_def le_bytes_def upt_rec)
  then show ?thesis by (simp add: soup_parse_def Let_def)
qed

lemma soup_feed_wedged: "soup_feed (0 # 0 # rest) chunks = ([], 0 # 0 # rest @ concat chunks)"
proof (induction chunks arbitrary: rest)
  case Nil
  then show ?case by simp
next
  case (Cons c cs)
  then show ?case by (simp add: soup_drain.simps [of "0 # 0 # _"] soup_parse_zero_length)
qed

section \<open>Properties\<close>

text \<open>
  C28. Re-framing does not depend on how the byte stream is cut: feeding the receive loop any sequence of
  chunks handles the same packets, in the same order, and keeps the same remainder as feeding the
  whole stream at once.
\<close>

theorem soup_chunking_invariant:
  assumes "concat chunks = concat chunks'"
  shows "soup_feed [] chunks = soup_feed [] chunks'"
proof -
  have "soup_drain [] = ([], [])" by (simp add: soup_drain.simps soup_parse_def soup_kHeaderSize_def)
  then show ?thesis using assms soup_feed_concat [of "[]"] by simp
qed

theorem soup_chunking_invariant_witness:
  "soup_feed [] [[0, 1], [72, 0], [1, 82]] = soup_feed [] [[0, 1, 72, 0, 1, 82]]"
  by (rule soup_chunking_invariant) simp

text \<open>
  A packed frame parses back: for every type and every payload that fits the 16-bit length, the
  bytes \<^verbatim>\<open>pack\<close> writes, followed by anything, parse to that type and payload and consume exactly
  the frame; and the session sequence field reads back the number it was formatted from.
\<close>

theorem soup_pack_parse:
  assumes "length payload < 2 ^ 16 - 1" and "3 + length payload \<le> length buf"
  shows "soup_parse (soup_pack buf t payload @ rest) =
      Some (3 + length payload, \<lparr>sp_type = t, sp_payload = payload\<rparr>) \<and> parseSeq (formatSeq seq) = seq"
  using soup_pack_bytes [OF assms, of t] soup_parse_packet [OF assms(1), of t rest] parseSeq_formatSeq_aux by simp

theorem soup_pack_parse_witness:
  "soup_parse (soup_pack (replicate 16 0) 85 [1, 2] @ [9]) = Some (5, \<lparr>sp_type = 85, sp_payload = [1, 2]\<rparr>) \<and>
   parseSeq (formatSeq 1234) = 1234"
  using soup_pack_parse [of "[1, 2]" "replicate 16 0" 85 "[9]" 1234] by simp

text \<open>
  C29. A frame with a zero length field stops the stream: once the buffer starts with two zero bytes, no
  later input is ever handled and the buffer only grows.
\<close>

theorem soup_zero_length_wedges:
  "soup_feed (0 # 0 # rest) chunks = ([], 0 # 0 # rest @ concat chunks)"
  by (rule soup_feed_wedged)

end
