(* ===== verification/Net.thy ===== *)
theory Net
  imports Endian
begin

text \<open>
  Hand-built Ethernet/IPv4/UDP framing of \<^verbatim>\<open>protocol/EthIpUdp.hpp\<close> and \<^verbatim>\<open>protocol/UdpFramer\<close>: the
  header overlays, the Internet checksum, the per-packet patch of the prebuilt header and the
  payload length a receiver computes. The lemmas show that a patched header always carries a
  checksum that verifies and that the receiver finds exactly the sender's payload, also when
  the frame was padded on the wire.
\<close>

definition kEthHeaderSize :: nat where "kEthHeaderSize = 14"
definition kIpv4HeaderSize :: nat where "kIpv4HeaderSize = 20"
definition kUdpHeaderSize :: nat where "kUdpHeaderSize = 8"
definition kL2L3L4Overhead :: nat where
  "kL2L3L4Overhead = kEthHeaderSize + kIpv4HeaderSize + kUdpHeaderSize"
definition kEtherTypeIpv4 :: u16 where "kEtherTypeIpv4 = 0x0800"
definition kIpv4VerIhl :: byte where "kIpv4VerIhl = 0x45"
definition kIpProtocolUdp :: byte where "kIpProtocolUdp = 17"
definition kDefaultTtl :: byte where "kDefaultTtl = 64"
definition kFlagDontFragment :: u16 where "kFlagDontFragment = 0x4000"

lemmas net_consts = kEthHeaderSize_def kIpv4HeaderSize_def kUdpHeaderSize_def kL2L3L4Overhead_def
  kEtherTypeIpv4_def kIpv4VerIhl_def kIpProtocolUdp_def kDefaultTtl_def kFlagDontFragment_def

definition ipv4 :: "byte \<Rightarrow> byte \<Rightarrow> byte \<Rightarrow> byte \<Rightarrow> u32" where
  "ipv4 a b c d = push_bit 24 (ucast a) OR push_bit 16 (ucast b) OR push_bit 8 (ucast c) OR ucast d"

section \<open>Header overlays\<close>

record EthHeader =
  eth_dstMac :: "byte list"
  eth_srcMac :: "byte list"
  eth_etherType :: u16

record Ipv4Header =
  ip_verIhl :: byte
  ip_dscpEcn :: byte
  ip_totalLen :: u16
  ip_ident :: u16
  ip_flagsFrag :: u16
  ip_ttl :: byte
  ip_protocol :: byte
  ip_checksum :: u16
  ip_srcIp :: u32
  ip_dstIp :: u32

record UdpHeader =
  udp_srcPort :: u16
  udp_dstPort :: u16
  udp_length :: u16
  udp_checksum :: u16

record FrameHeader =
  fh_eth :: EthHeader
  fh_ip :: Ipv4Header
  fh_udp :: UdpHeader

record Endpoints =
  ep_srcMac :: "byte list"
  ep_dstMac :: "byte list"
  ep_srcIp :: u32
  ep_dstIp :: u32
  ep_srcPort :: u16
  ep_dstPort :: u16

definition enc_EthHeader :: "EthHeader \<Rightarrow> byte list" where
  "enc_EthHeader h = eth_dstMac h @ eth_srcMac h @ be_store (eth_etherType h)"

definition enc_Ipv4Header :: "Ipv4Header \<Rightarrow> byte list" where
  "enc_Ipv4Header h = [ip_verIhl h, ip_dscpEcn h] @ be_store (ip_totalLen h) @ be_store (ip_ident h) @
     be_store (ip_flagsFrag h) @ [ip_ttl h, ip_protocol h] @ be_store (ip_checksum h) @
     be_store (ip_srcIp h) @ be_store (ip_dstIp h)"

definition enc_UdpHeader :: "UdpHeader \<Rightarrow> byte list" where
  "enc_UdpHeader h = be_store (udp_srcPort h) @ be_store (udp_dstPort h) @
     be_store (udp_length h) @ be_store (udp_checksum h)"

definition UdpFramer_new :: "Endpoints \<Rightarrow> FrameHeader" where
  "UdpFramer_new ep =
     \<lparr>fh_eth = \<lparr>eth_dstMac = ep_dstMac ep, eth_srcMac = ep_srcMac ep, eth_etherType = kEtherTypeIpv4\<rparr>,
      fh_ip = \<lparr>ip_verIhl = kIpv4VerIhl, ip_dscpEcn = 0, ip_totalLen = 0, ip_ident = 0,
               ip_flagsFrag = kFlagDontFragment, ip_ttl = kDefaultTtl, ip_protocol = kIpProtocolUdp,
               ip_checksum = 0, ip_srcIp = ep_srcIp ep, ip_dstIp = ep_dstIp ep\<rparr>,
      fh_udp = \<lparr>udp_srcPort = ep_srcPort ep, udp_dstPort = ep_dstPort ep, udp_length = 0,
                udp_checksum = 0\<rparr>\<rparr>"

definition UdpFramer_header :: "FrameHeader \<Rightarrow> byte list" where
  "UdpFramer_header h = enc_EthHeader (fh_eth h) @ enc_Ipv4Header (fh_ip h) @ enc_UdpHeader (fh_udp h)"

definition valid_Endpoints :: "Endpoints \<Rightarrow> bool" where
  "valid_Endpoints ep \<longleftrightarrow> length (ep_srcMac ep) = 6 \<and> length (ep_dstMac ep) = 6"

section \<open>Internet checksum\<close>

fun checksum_sum :: "byte list \<Rightarrow> u32 \<Rightarrow> u32" where
  "checksum_sum (a # b # data) acc = checksum_sum data (acc + (push_bit 8 (ucast a) OR ucast b))"
| "checksum_sum [a] acc = acc + push_bit 8 (ucast a)"
| "checksum_sum [] acc = acc"

lemma carry_less:
  fixes acc :: u32
  assumes "drop_bit 16 acc \<noteq> 0"
  shows "unat ((acc AND 0xFFFF) + drop_bit 16 acc) = unat acc mod 65536 + unat acc div 65536"
    and "unat ((acc AND 0xFFFF) + drop_bit 16 acc) < unat acc"
proof -
  have m: "unat (acc AND 0xFFFF) = unat acc mod 65536"
  proof -
    have "acc AND 0xFFFF = take_bit 16 acc" by (simp add: take_bit_eq_mask mask_eq_exp_minus_1)
    then show ?thesis by (simp only: unsigned_take_bit_eq) (simp add: take_bit_eq_mod)
  qed
  have d: "unat (drop_bit 16 acc) = unat acc div 65536"
    by (simp add: drop_bit_eq_div unat_div)
  have lt: "unat acc < 4294967296" using unsigned_less [of acc, where ?'a = nat] by simp
  then have "unat acc mod 65536 + unat acc div 65536 < 2 ^ 32" by simp
  then show eq: "unat ((acc AND 0xFFFF) + drop_bit 16 acc) = unat acc mod 65536 + unat acc div 65536"
    using m d by (simp add: unat_word_ariths)
  from assms have "unat (drop_bit 16 acc) \<noteq> 0" by (metis unat_eq_zero)
  then have "0 < unat acc div 65536" using d by simp
  then show "unat ((acc AND 0xFFFF) + drop_bit 16 acc) < unat acc"
    unfolding eq using mult_div_mod_eq [of 65536 "unat acc"] by linarith
qed

function checksum_fold :: "u32 \<Rightarrow> u32" where
  "checksum_fold acc =
     (if drop_bit 16 acc \<noteq> 0 then checksum_fold ((acc AND 0xFFFF) + drop_bit 16 acc) else acc)"
  by pat_completeness auto
termination
proof (relation "measure unat")
  fix acc :: u32 assume "drop_bit 16 acc \<noteq> 0"
  then show "((acc AND 0xFFFF) + drop_bit 16 acc, acc) \<in> measure unat"
    unfolding in_measure by (rule carry_less(2))
qed simp

declare checksum_fold.simps [simp del]

definition computeChecksum :: "byte list \<Rightarrow> u16" where
  "computeChecksum data = ucast (NOT (checksum_fold (checksum_sum data 0)))"

section \<open>Checksum arithmetic\<close>

fun csum :: "byte list \<Rightarrow> nat" where
  "csum (a # b # data) = 256 * unat a + unat b + csum data"
| "csum [a] = 256 * unat a"
| "csum [] = 0"

lemma unat_byte_less: "unat (a :: byte) < 256"
  using unsigned_less [of a, where ?'a = nat] by simp

lemma push8: "unat (push_bit 8 (ucast (a :: byte)) :: u32) = 256 * unat a"
proof -
  have "unat a < 256" by (rule unat_byte_less)
  then show ?thesis
    by (simp add: push_bit_eq_mult unat_word_ariths unsigned_ucast_eq take_bit_nat_eq_self)
qed

lemma pair_sum: "push_bit 8 (ucast (a :: byte)) OR ucast (b :: byte) = (of_nat (256 * unat a + unat b) :: u32)"
proof -
  have "push_bit 8 (ucast a) AND (ucast b :: u32) = 0"
    by (rule bit_word_eqI) (auto simp: bit_and_iff bit_push_bit_iff bit_ucast_iff dest: bit_imp_le_length)
  then have "push_bit 8 (ucast a) OR (ucast b :: u32) = push_bit 8 (ucast a) + ucast b"
    by (simp add: disjunctive_add_eq_or)
  moreover have "push_bit 8 (ucast a) = (of_nat (256 * unat a) :: u32)"
    unfolding word_unat_eq_iff push8 using unat_byte_less [of a] by (simp add: unat_of_nat del: of_nat_mult)
  moreover have "(ucast b :: u32) = of_nat (unat b)" by simp
  ultimately show ?thesis by (simp only: of_nat_add)
qed

lemma checksum_sum_csum: "checksum_sum data acc = acc + of_nat (csum data)"
proof (induction data acc rule: checksum_sum.induct)
  case (1 a b data acc)
  then show ?case by (simp only: checksum_sum.simps pair_sum csum.simps) simp
next
  case (2 a acc)
  have "(push_bit 8 (ucast a) :: u32) = of_nat (256 * unat a)" using pair_sum [of a 0] by simp
  then show ?case by (simp only: checksum_sum.simps csum.simps)
qed simp

lemma csum_append: "even (length xs) \<Longrightarrow> csum (xs @ ys) = csum xs + csum ys"
  by (induction xs rule: csum.induct) simp_all

lemma csum_bound: "csum data \<le> 65535 * length data"
proof (induction data rule: csum.induct)
  case (1 a b data)
  show ?case using 1 unat_byte_less [of a] unat_byte_less [of b] by simp
next
  case (2 a)
  show ?case using unat_byte_less [of a] by simp
qed simp

lemma checksum_fold_spec:
  "unat (checksum_fold acc) < 65536 \<and> unat (checksum_fold acc) mod 65535 = unat acc mod 65535 \<and>
   (0 < unat acc \<longrightarrow> 0 < unat (checksum_fold acc))"
proof (induction acc rule: checksum_fold.induct)
  case (1 acc)
  show ?case
  proof (cases "drop_bit 16 acc = 0")
    case True
    then have "unat (drop_bit 16 acc) = 0" by simp
    then have "unat acc div 65536 = 0"
      by (simp only: drop_bit_eq_div unat_div) simp
    then show ?thesis using True by (simp add: checksum_fold.simps [of acc])
  next
    case False
    let ?n = "(acc AND 0xFFFF) + drop_bit 16 acc"
    have n: "unat ?n = unat acc mod 65536 + unat acc div 65536" using carry_less(1) [OF False] .
    have "unat acc = (unat acc mod 65536 + unat acc div 65536) + 65535 * (unat acc div 65536)"
      using mult_div_mod_eq [of 65536 "unat acc"] by linarith
    then have "(unat acc mod 65536 + unat acc div 65536) mod 65535 = unat acc mod 65535"
      by (metis mod_mult_self2)
    moreover have "0 < unat acc \<longrightarrow> 0 < unat ?n"
      unfolding n using mult_div_mod_eq [of 65536 "unat acc"] by linarith
    ultimately show ?thesis using 1 [OF False] False n by (auto simp add: checksum_fold.simps [of acc])
  qed
qed

lemma not_low16: "unat x < 65536 \<Longrightarrow> unat (ucast (NOT x) :: u16) = 65535 - unat x" for x :: u32
proof -
  assume x: "unat x < 65536"
  have "unat (ucast (NOT x) :: u16) = unat (NOT x) mod 65536"
    by (simp add: unsigned_ucast_eq take_bit_eq_mod)
  also have "unat (NOT x) = 4294967295 - unat x"
  proof -
    have "NOT x = - 1 - x" by (simp add: not_eq_complement)
    moreover have "unat (- 1 - x) = unat (- 1 :: u32) - unat x" by (rule unat_sub) simp
    moreover have "unat (- 1 :: u32) = 4294967295" by (simp add: unsigned_minus_1_eq_mask mask_eq_exp_minus_1)
    ultimately show ?thesis by simp
  qed
  also have "4294967295 - unat x = (65535 - unat x) + 65536 * 65535" using x by simp
  also have "\<dots> mod 65536 = (65535 - unat x) mod 65536" by (rule mod_mult_self2)
  finally show ?thesis by simp
qed

lemma unat_computeChecksum:
  assumes "length data \<le> 65536"
  shows "\<exists>f. unat (computeChecksum data) = 65535 - f \<and> f \<le> 65535 \<and>
     f mod 65535 = csum data mod 65535 \<and> (0 < csum data \<longrightarrow> 0 < f)"
proof -
  let ?s = "of_nat (csum data) :: u32"
  have "csum data < 2 ^ 32" using csum_bound [of data] assms by simp
  then have u: "unat ?s = csum data" by (simp add: unat_of_nat)
  have f: "unat (checksum_fold ?s) < 65536" "unat (checksum_fold ?s) mod 65535 = csum data mod 65535"
    "0 < csum data \<longrightarrow> 0 < unat (checksum_fold ?s)"
    using checksum_fold_spec [of ?s] u by auto
  have "unat (computeChecksum data) = 65535 - unat (checksum_fold ?s)"
    using not_low16 [OF f(1)] by (simp add: computeChecksum_def checksum_sum_csum)
  with f show ?thesis by (intro exI [of _ "unat (checksum_fold ?s)"]) auto
qed

text \<open>
  The verification rule of the Internet checksum: with the computed checksum in the two bytes
  that were zero, the whole sums to all ones, so its own checksum is 0.
\<close>

lemma checksum_verifies:
  assumes len: "length xs + length ys + 2 \<le> 65536" and ev: "even (length xs)"
    and pos: "0 < csum (xs @ [0, 0] @ ys)"
  shows "computeChecksum (xs @ be_store (computeChecksum (xs @ [0, 0] @ ys)) @ ys) = 0"
proof -
  let ?c = "computeChecksum (xs @ [0, 0] @ ys)"
  let ?d = "xs @ be_store ?c @ ys"
  obtain f where f: "unat ?c = 65535 - f" "f \<le> 65535" "f mod 65535 = csum (xs @ [0, 0] @ ys) mod 65535" "0 < f"
    using unat_computeChecksum [of "xs @ [0, 0] @ ys"] len pos by auto
  have "csum (be_store ?c) = unat ?c"
  proof -
    have "be_store ?c = [ucast (drop_bit 8 ?c), ucast ?c]" by (simp add: be_store_rev le_bytes_def upt_rec)
    moreover have "unat ?c div 256 < 256" using unsigned_less [of ?c, where ?'a = nat] by simp
    ultimately show ?thesis using mult_div_mod_eq [of 256 "unat ?c"]
      by (simp add: unsigned_ucast_eq take_bit_eq_mod drop_bit_eq_div unat_div)
  qed
  then have "csum ?d = csum (xs @ [0, 0] @ ys) + (65535 - f)"
    using ev f(1) by (simp add: csum_append)
  then have z: "csum ?d mod 65535 = 0" and "0 < csum ?d"
    using f mod_add_left_eq [of f 65535 "65535 - f"] mod_add_left_eq [of "csum (xs @ [0, 0] @ ys)" 65535 "65535 - f"]
      pos by simp_all
  obtain g where g: "unat (computeChecksum ?d) = 65535 - g" "g \<le> 65535" "g mod 65535 = csum ?d mod 65535"
    "0 < csum ?d \<longrightarrow> 0 < g"
    using unat_computeChecksum [of ?d] len by auto
  then obtain k where k: "g = 65535 * k" using z by auto
  then have "k = 1" using g \<open>0 < csum ?d\<close> by (cases k) auto
  then have "g = 65535" using k by simp
  then show ?thesis using g(1) by (simp add: unat_eq_zero)
qed

section \<open>Patching and reading a frame\<close>

definition UdpFramer_patch :: "byte list \<Rightarrow> nat \<Rightarrow> byte list" where
  "UdpFramer_patch frame payloadLen =
     (let ip = kEthHeaderSize; udp = kEthHeaderSize + kIpv4HeaderSize;
          f1 = poke (ip + 2) (be_store (of_nat (kIpv4HeaderSize + kUdpHeaderSize + payloadLen) :: u16)) frame;
          f2 = poke (udp + 4) (be_store (of_nat (kUdpHeaderSize + payloadLen) :: u16)) f1;
          f3 = poke (ip + 10) (be_store (0 :: u16)) f2
      in poke (ip + 10) (be_store (computeChecksum (peek ip kIpv4HeaderSize f3))) f3)"

definition udpPayloadLen :: "byte list \<Rightarrow> nat \<Rightarrow> nat" where
  "udpPayloadLen frame frameLen =
     (if frameLen \<le> kL2L3L4Overhead then 0
      else let total = unat (be_value (drop (kEthHeaderSize + 2) frame) :: u16) in
        if total < kIpv4HeaderSize + kUdpHeaderSize then 0
        else let declared = total - kIpv4HeaderSize - kUdpHeaderSize;
                 present = frameLen - kL2L3L4Overhead
             in if declared < present then declared else present)"

lemma length_UdpFramer_header [simp, wire_simps]:
  "valid_Endpoints ep \<Longrightarrow> length (UdpFramer_header (UdpFramer_new ep)) = 42"
  by (simp add: UdpFramer_header_def UdpFramer_new_def enc_EthHeader_def enc_Ipv4Header_def
      enc_UdpHeader_def valid_Endpoints_def)

text \<open>The layout of a frame the patch works on, field by field.\<close>

lemma patch_layout:
  assumes "length e = 14" "length v = 2" "length tot = 2" "length m = 6" "length ck = 2" "length ips = 8"
    and "length ports = 4" "length ul = 2"
  shows "UdpFramer_patch (e @ v @ tot @ m @ ck @ ips @ ports @ ul @ rest) n =
     (let tot' = be_store (of_nat (28 + n) :: u16); ul' = be_store (of_nat (8 + n) :: u16) in
      e @ v @ tot' @ m @ be_store (computeChecksum ((v @ tot' @ m) @ [0, 0] @ ips)) @ ips @ ports @ ul' @ rest)"
proof -
  have z: "be_store (0 :: u16) = [0, 0]" by (simp add: be_store_rev le_bytes_def upt_rec)
  let ?t = "be_store (of_nat (28 + n) :: u16)" and ?u = "be_store (of_nat (8 + n) :: u16)"
  have 1: "poke 16 ?t (e @ v @ tot @ m @ ck @ ips @ ports @ ul @ rest) =
      e @ v @ ?t @ m @ ck @ ips @ ports @ ul @ rest"
    using poke_mid [of "e @ v" 16 tot ?t] assms by simp
  have 2: "poke 38 ?u (e @ v @ ?t @ m @ ck @ ips @ ports @ ul @ rest) =
      e @ v @ ?t @ m @ ck @ ips @ ports @ ?u @ rest"
    using poke_mid [of "e @ v @ ?t @ m @ ck @ ips @ ports" 38 ul ?u] assms by simp
  have 3: "poke 24 c (e @ v @ ?t @ m @ k @ ips @ ports @ ?u @ rest) =
      e @ v @ ?t @ m @ c @ ips @ ports @ ?u @ rest" if "length c = 2" "length k = 2" for c k
    using poke_mid [of "e @ v @ ?t @ m" 24 k c] assms that by simp
  have 4: "peek 14 20 (e @ v @ ?t @ m @ [0, 0] @ ips @ ports @ ?u @ rest) = (v @ ?t @ m) @ [0, 0] @ ips"
    using peek_mid [of e 14 "v @ ?t @ m @ [0, 0] @ ips" 20 "ports @ ?u @ rest"] assms by simp
  have "UdpFramer_patch frame n = (let f3 = poke 24 [0, 0] (poke 38 ?u (poke 16 ?t frame))
      in poke 24 (be_store (computeChecksum (peek 14 20 f3))) f3)" for frame
    by (simp add: UdpFramer_patch_def net_consts Let_def z)
  note patch = this
  have z0: "poke 24 [0, 0] (e @ v @ ?t @ m @ ck @ ips @ ports @ ?u @ rest) =
      e @ v @ ?t @ m @ [0, 0] @ ips @ ports @ ?u @ rest"
    using assms by (intro 3) simp_all
  have zc: "poke 24 (be_store c) (e @ v @ ?t @ m @ [0, 0] @ ips @ ports @ ?u @ rest) =
      e @ v @ ?t @ m @ be_store c @ ips @ ports @ ?u @ rest" for c :: u16
    by (intro 3) simp_all
  show ?thesis by (simp only: patch 1 2 z0 4 zc Let_def)
qed

lemma frame_split:
  fixes frame :: "byte list"
  assumes "42 \<le> length frame"
  obtains e v tot m ck ips ports ul rest where
    "frame = e @ v @ tot @ m @ ck @ ips @ ports @ ul @ rest"
    "length e = 14" "length v = 2" "length tot = 2" "length m = 6" "length ck = 2" "length ips = 8"
    "length ports = 4" "length ul = 2" "v = peek 14 2 frame"
proof -
  have split: "\<exists>a b. xs = a @ b \<and> length a = n" if "n \<le> length xs" for n and xs :: "byte list"
    using that by (metis append_take_drop_id length_take min.absorb2)
  obtain e r1 where 1: "frame = e @ r1" "length e = 14" using split [of 14 frame] assms by auto
  obtain v r2 where 2: "r1 = v @ r2" "length v = 2" using split [of 2 r1] assms 1 by auto
  obtain tot r3 where 3: "r2 = tot @ r3" "length tot = 2" using split [of 2 r2] assms 1 2 by auto
  obtain m r4 where 4: "r3 = m @ r4" "length m = 6" using split [of 6 r3] assms 1 2 3 by auto
  obtain ck r5 where 5: "r4 = ck @ r5" "length ck = 2" using split [of 2 r4] assms 1 2 3 4 by auto
  obtain ips r6 where 6: "r5 = ips @ r6" "length ips = 8" using split [of 8 r5] assms 1 2 3 4 5 by auto
  obtain ports r7 where 7: "r6 = ports @ r7" "length ports = 4" using split [of 4 r6] assms 1 2 3 4 5 6 by auto
  obtain ul r8 where 8: "r7 = ul @ r8" "length ul = 2" using split [of 2 r7] assms 1 2 3 4 5 6 7 by auto
  show ?thesis
    by (rule that [of e v tot m ck ips ports ul r8]) (simp_all add: peek_def 1 2 3 4 5 6 7 8)
qed

lemma patch_checksum_verifies_aux:
  assumes "42 \<le> length frame" and "peek 14 2 frame \<noteq> [0, 0]"
  shows "computeChecksum (peek kEthHeaderSize kIpv4HeaderSize (UdpFramer_patch frame n)) = 0"
proof -
  from frame_split [OF assms(1)] obtain e v tot m ck ips ports ul rest where
    f: "frame = e @ v @ tot @ m @ ck @ ips @ ports @ ul @ rest"
    and l: "length e = 14" "length v = 2" "length tot = 2" "length m = 6" "length ck = 2" "length ips = 8"
      "length ports = 4" "length ul = 2" and v: "v = peek 14 2 frame" .
  let ?t = "be_store (of_nat (28 + n) :: u16)"
  let ?x = "v @ ?t @ m"
  have "peek 14 20 (UdpFramer_patch frame n) = ?x @ be_store (computeChecksum (?x @ [0, 0] @ ips)) @ ips"
    unfolding f patch_layout [OF l] using l by (simp add: peek_def Let_def)
  moreover obtain a b where ab: "v = [a, b]"
    using l(2) by (metis length_0_conv length_Suc_conv numeral_2_eq_2)
  then have "0 < csum v" using v assms(2) by (auto simp: unat_gt_0)
  then have "0 < csum (?x @ [0, 0] @ ips)" using l by (simp add: csum_append)
  ultimately show ?thesis using checksum_verifies [of ?x ips] l by (simp add: net_consts)
qed

lemma patch_payload_len_aux:
  assumes "42 \<le> length frame" and "n \<le> 65507" and "42 + n \<le> length frame"
  shows "udpPayloadLen (UdpFramer_patch frame n) (length frame) = n"
proof -
  from frame_split [OF assms(1)] obtain e v tot m ck ips ports ul rest where
    f: "frame = e @ v @ tot @ m @ ck @ ips @ ports @ ul @ rest"
    and l: "length e = 14" "length v = 2" "length tot = 2" "length m = 6" "length ck = 2" "length ips = 8"
      "length ports = 4" "length ul = 2" and v: "v = peek 14 2 frame" .
  have "(be_value (drop 16 (UdpFramer_patch frame n)) :: u16) = of_nat (28 + n)"
    unfolding f patch_layout [OF l] using l by (simp add: Let_def be_value_append del: of_nat_add)
  then have "unat (be_value (drop 16 (UdpFramer_patch frame n)) :: u16) = 28 + n"
    using assms(2) by (simp add: unat_of_nat del: of_nat_add)
  then show ?thesis using assms by (auto simp add: udpPayloadLen_def net_consts Let_def)
qed

lemma udpPayloadLen_bound: "udpPayloadLen frame frameLen \<le> frameLen - kL2L3L4Overhead"
  by (simp add: udpPayloadLen_def Let_def)

section \<open>Properties\<close>

text \<open>
  A patched frame carries a valid IPv4 header checksum: the header of the frame the framer patched
  sums to zero under the Internet checksum, whatever the payload length and the rest of the frame (the
  version byte of a header the framer built is not zero).
\<close>

theorem patch_checksum_verifies:
  assumes "42 \<le> length frame" and "peek 14 2 frame \<noteq> [0, 0]"
  shows "computeChecksum (peek kEthHeaderSize kIpv4HeaderSize (UdpFramer_patch frame n)) = 0"
  by (rule patch_checksum_verifies_aux [OF assms])

theorem patch_checksum_verifies_witness:
  "computeChecksum (peek kEthHeaderSize kIpv4HeaderSize
     (UdpFramer_patch (replicate 14 0 @ [0x45, 0] @ replicate 60 1) 12)) = 0"
  by (rule patch_checksum_verifies) (simp_all add: peek_def)

text \<open>
  The receiver recovers the payload length the sender patched in, also from a frame with padding
  behind the payload, and on arbitrary input never reads beyond the frame.
\<close>

theorem patch_payload_len:
  assumes "42 + n \<le> length frame" and "n \<le> 65507"
  shows "udpPayloadLen (UdpFramer_patch frame n) (length frame) = n \<and>
    udpPayloadLen other frameLen \<le> frameLen - kL2L3L4Overhead"
  using patch_payload_len_aux [of frame n] udpPayloadLen_bound assms by simp

theorem patch_payload_len_witness:
  "udpPayloadLen (UdpFramer_patch (replicate 100 1) 20) 100 = 20"
  using patch_payload_len [of 20 "replicate 100 1" "[]" 0] by simp

end
