(* ===== verification/MoldUdp64.thy ===== *)
theory MoldUdp64
  imports Endian
begin

text \<open>
  MoldUDP64 framing of \<^verbatim>\<open>protocol/MoldUdp64.hpp\<close> and \<^verbatim>\<open>MoldUdp64.cpp\<close>: the \<open>Packer\<close> that the
  exchange session fills and the reader that the device under test and the cold shard run.
  A packet is the byte string that goes on the wire. The lemmas show that a reader recovers
  exactly the messages that were appended, numbered from the packet's first sequence number,
  and that the reader stays inside any packet it is given.
\<close>

definition kHeaderSize :: nat where "kHeaderSize = 20"
definition kSessionLen :: nat where "kSessionLen = 10"
definition kSequenceOffset :: nat where "kSequenceOffset = kSessionLen"
definition kCountOffset :: nat where "kCountOffset = kSequenceOffset + 8"
definition kLengthPrefix :: nat where "kLengthPrefix = 2"
definition kHeartbeat :: u16 where "kHeartbeat = 0x0000"
definition kEndOfSession :: u16 where "kEndOfSession = 0xFFFF"

lemmas mold_consts = kHeaderSize_def kSessionLen_def kSequenceOffset_def kCountOffset_def
  kLengthPrefix_def kHeartbeat_def kEndOfSession_def

definition putU16 :: "nat \<Rightarrow> u16 \<Rightarrow> byte list \<Rightarrow> byte list" where
  "putU16 p v buf = poke p (be_store v) buf"

definition putU64 :: "nat \<Rightarrow> u64 \<Rightarrow> byte list \<Rightarrow> byte list" where
  "putU64 p v buf = poke p (be_store v) buf"

definition getU16 :: "byte list \<Rightarrow> nat \<Rightarrow> u16" where
  "getU16 base p = be_value (drop p base)"

definition getU64 :: "byte list \<Rightarrow> nat \<Rightarrow> u64" where
  "getU64 base p = be_value (drop p base)"

section \<open>Packer\<close>

text \<open>
  \<open>pk_buf\<close> is the contents of the memory behind \<open>m_buf\<close>, at least \<open>pk_cap\<close> bytes long.
\<close>

record Packer =
  pk_session :: "byte list"
  pk_seq :: u64
  pk_firstSeq :: u64
  pk_buf :: "byte list"
  pk_cap :: nat
  pk_len :: nat
  pk_count :: u16

definition Packer_new :: "byte list \<Rightarrow> u64 \<Rightarrow> Packer" where
  "Packer_new session firstSeq =
     \<lparr>pk_session = alpha_store kSessionLen session, pk_seq = firstSeq, pk_firstSeq = 0,
      pk_buf = [], pk_cap = 0, pk_len = 0, pk_count = 0\<rparr>"

definition Packer_reset :: "byte list \<Rightarrow> nat \<Rightarrow> Packer \<Rightarrow> Packer" where
  "Packer_reset buf cap p =
     p\<lparr>pk_buf := buf, pk_cap := cap, pk_len := kHeaderSize, pk_count := 0, pk_firstSeq := pk_seq p\<rparr>"

definition Packer_append :: "byte list \<Rightarrow> Packer \<Rightarrow> bool \<times> Packer" where
  "Packer_append msg p =
     (let need = 2 + length msg in
      if pk_len p + need > pk_cap p \<or> unat (pk_count p) \<ge> unat kEndOfSession - 1 then (False, p)
      else (True, p\<lparr>pk_buf := poke (pk_len p + 2) msg
                                (putU16 (pk_len p) (of_nat (length msg)) (pk_buf p)),
                    pk_len := pk_len p + need, pk_count := pk_count p + 1, pk_seq := pk_seq p + 1\<rparr>))"

definition Packer_writeHeader :: "u64 \<Rightarrow> u16 \<Rightarrow> Packer \<Rightarrow> Packer" where
  "Packer_writeHeader seq count p =
     p\<lparr>pk_buf := putU16 18 count (putU64 10 seq (poke 0 (take kSessionLen (pk_session p)) (pk_buf p)))\<rparr>"

definition Packer_finalize :: "Packer \<Rightarrow> byte list \<times> Packer" where
  "Packer_finalize p =
     (let p' = Packer_writeHeader (pk_firstSeq p) (pk_count p) p in (take (pk_len p') (pk_buf p'), p'))"

definition Packer_heartbeat :: "byte list \<Rightarrow> Packer \<Rightarrow> byte list \<times> Packer" where
  "Packer_heartbeat buf p =
     (let p' = Packer_writeHeader (pk_seq p) kHeartbeat (p\<lparr>pk_buf := buf, pk_len := kHeaderSize\<rparr>)
      in (take kHeaderSize (pk_buf p'), p'))"

definition Packer_endOfSession :: "byte list \<Rightarrow> Packer \<Rightarrow> byte list \<times> Packer" where
  "Packer_endOfSession buf p =
     (let p' = Packer_writeHeader (pk_seq p) kEndOfSession (p\<lparr>pk_buf := buf, pk_len := kHeaderSize\<rparr>)
      in (take kHeaderSize (pk_buf p'), p'))"

section \<open>Reader\<close>

definition sessionOf :: "byte list \<Rightarrow> byte list" where
  "sessionOf pkt = take (alpha_len pkt kSessionLen) pkt"

definition sequenceOf :: "byte list \<Rightarrow> u64" where
  "sequenceOf pkt = getU64 pkt kSequenceOffset"

definition countOf :: "byte list \<Rightarrow> u16" where
  "countOf pkt = getU16 pkt kCountOffset"

text \<open>\<open>nextMessage\<close>: \<open>None\<close> when it returns false, the message and the new offset otherwise.\<close>

definition nextMessage :: "byte list \<Rightarrow> nat \<Rightarrow> (byte list \<times> nat) option" where
  "nextMessage base off =
     (let total = length base in
      if off + kLengthPrefix > total then None
      else let mlen = unat (getU16 base off) in
        if off + kLengthPrefix + mlen > total then None
        else Some (peek (off + kLengthPrefix) mlen base, off + (kLengthPrefix + mlen)))"

text \<open>The message loop; the first argument counts down from the header's message count.\<close>

primrec messages_loop :: "nat \<Rightarrow> byte list \<Rightarrow> nat \<Rightarrow> u64 \<Rightarrow> (u64 \<times> byte list) list" where
  "messages_loop 0 pkt off seq = []"
| "messages_loop (Suc n) pkt off seq =
     (case nextMessage pkt off of None \<Rightarrow> []
      | Some (msg, off') \<Rightarrow> (seq, msg) # messages_loop n pkt off' (seq + 1))"

text \<open>The calls \<open>fn(seq + i, msg)\<close> that \<open>forEachMessage\<close> makes; it returns their number.\<close>

definition forEachMessage :: "byte list \<Rightarrow> (u64 \<times> byte list) list" where
  "forEachMessage pkt =
     (if length pkt < kHeaderSize then []
      else let count = countOf pkt in
        if count = kHeartbeat \<or> count = kEndOfSession then []
        else messages_loop (unat count) pkt kHeaderSize (sequenceOf pkt))"

section \<open>What a packet under construction holds\<close>

definition frame_msg :: "byte list \<Rightarrow> byte list" where
  "frame_msg msg = be_store (of_nat (length msg) :: u16) @ msg"

definition packed :: "Packer \<Rightarrow> byte list list \<Rightarrow> bool" where
  "packed p msgs \<longleftrightarrow>
     take (pk_len p) (pk_buf p) = take kHeaderSize (pk_buf p) @ concat (map frame_msg msgs) \<and>
     kHeaderSize \<le> pk_len p \<and> pk_len p \<le> length (pk_buf p) \<and> pk_cap p \<le> length (pk_buf p) \<and>
     pk_count p = of_nat (length msgs) \<and> length msgs \<le> 65534 \<and>
     pk_seq p = pk_firstSeq p + of_nat (length msgs) \<and> length (pk_session p) = kSessionLen"

lemma packed_reset:
  assumes "cap \<le> length buf" and "kHeaderSize \<le> length buf" and "length (pk_session p) = kSessionLen"
  shows "packed (Packer_reset buf cap p) []"
  using assms by (simp add: packed_def Packer_reset_def)

lemma packed_append:
  assumes "packed p msgs" and "Packer_append msg p = (True, p')"
  shows "packed p' (msgs @ [msg])"
proof -
  let ?b1 = "putU16 (pk_len p) (of_nat (length msg)) (pk_buf p)"
  from assms have room: "pk_len p + 2 + length msg \<le> pk_cap p" "unat (pk_count p) < 65534"
    and p': "p' = p\<lparr>pk_buf := poke (pk_len p + 2) msg ?b1, pk_len := pk_len p + (2 + length msg),
                    pk_count := pk_count p + 1, pk_seq := pk_seq p + 1\<rparr>"
    by (auto simp: Packer_append_def Let_def mold_consts split: if_splits)
  from assms(1) have inv: "take (pk_len p) (pk_buf p) = take kHeaderSize (pk_buf p) @ concat (map frame_msg msgs)"
    "kHeaderSize \<le> pk_len p" "pk_len p \<le> length (pk_buf p)" "pk_cap p \<le> length (pk_buf p)"
    by (simp_all add: packed_def)
  have b1: "take (pk_len p + 2) ?b1 = take (pk_len p) (pk_buf p) @ be_store (of_nat (length msg) :: u16)"
    using take_poke_snoc [of "pk_len p" "pk_buf p" "be_store (of_nat (length msg) :: u16)"] inv
    by (simp add: putU16_def)
  have len1: "length ?b1 = length (pk_buf p)" using inv room by (simp add: putU16_def)
  have "take (pk_len p + (2 + length msg)) (poke (pk_len p + 2) msg ?b1) = take (pk_len p + 2) ?b1 @ msg"
    using take_poke_snoc [of "pk_len p + 2" ?b1 msg] len1 inv room by (simp add: add.assoc)
  moreover have "take kHeaderSize (poke (pk_len p + 2) msg ?b1) = take kHeaderSize (pk_buf p)"
    using inv room len1 by (simp add: take_poke_before putU16_def)
  moreover have "length msgs < 65534"
    using assms(1) room by (simp add: packed_def unat_of_nat)
  ultimately show ?thesis
    using inv room len1 b1 assms(1) by (simp add: packed_def p' frame_msg_def)
qed

lemma Packer_append_fields [frame_simps]:
  "Packer_append msg p = (ok, p') \<Longrightarrow>
     pk_session p' = pk_session p \<and> pk_firstSeq p' = pk_firstSeq p \<and> pk_cap p' = pk_cap p"
  by (auto simp: Packer_append_def Let_def split: if_splits)

section \<open>Reading back\<close>

lemma length_frame_msg [simp, wire_simps]: "length (frame_msg m) = 2 + length m"
  by (simp add: frame_msg_def)

lemma nextMessage_frame:
  assumes "length msg < 2 ^ 16"
  shows "nextMessage (pre @ frame_msg msg @ rest) (length pre) = Some (msg, length pre + 2 + length msg)"
  using assms
  by (simp add: nextMessage_def getU16_def frame_msg_def be_value_append unat_of_nat peek_def
      mold_consts Let_def)

lemma messages_loop_frames:
  assumes "\<forall>m \<in> set msgs. length m < 2 ^ 16"
  shows "messages_loop (length msgs) (pre @ concat (map frame_msg msgs)) (length pre) seq =
     zip (map (\<lambda>i. seq + of_nat i) [0..<length msgs]) msgs"
  using assms
proof (induction msgs arbitrary: pre seq)
  case Nil
  then show ?case by simp
next
  case (Cons m msgs)
  have "length m < 2 ^ 16" using Cons.prems by simp
  note nxt = nextMessage_frame [OF this, of pre "concat (map frame_msg msgs)"]
  have IH: "messages_loop (length msgs) ((pre @ frame_msg m) @ concat (map frame_msg msgs))
      (length (pre @ frame_msg m)) (seq + 1)
    = zip (map (\<lambda>i. (seq + 1) + of_nat i) [0..<length msgs]) msgs"
    by (rule Cons.IH) (use Cons.prems in simp)
  have upt: "map (\<lambda>i. seq + of_nat i) [0..<Suc (length msgs)]
      = seq # map (\<lambda>i. (seq + 1) + of_nat i) [0..<length msgs]"
    by (simp add: upt_conv_Cons map_Suc_upt [symmetric] add.assoc del: upt_Suc)
  show ?case using nxt IH
    by (simp add: upt add.assoc [symmetric] del: upt_Suc)
qed

lemma header_fields:
  assumes "length (pk_session p) = kSessionLen" and "kHeaderSize \<le> length (pk_buf p)"
  shows "pk_buf (Packer_writeHeader seq count p) =
     pk_session p @ be_store seq @ be_store count @ drop kHeaderSize (pk_buf p)"
  using assms by (simp add: Packer_writeHeader_def putU16_def putU64_def poke_def mold_consts)

lemma finalize_packed:
  assumes "packed p msgs"
  shows "fst (Packer_finalize p) =
     pk_session p @ be_store (pk_firstSeq p) @ be_store (pk_count p) @ concat (map frame_msg msgs)"
proof -
  let ?h = "pk_session p @ be_store (pk_firstSeq p) @ be_store (pk_count p)"
  have h: "length ?h = 20" using assms by (simp add: packed_def mold_consts)
  have b: "pk_buf (Packer_writeHeader (pk_firstSeq p) (pk_count p) p) = ?h @ drop 20 (pk_buf p)"
    using assms header_fields [of p] by (simp add: packed_def kHeaderSize_def)
  have "take (pk_len p - 20) (drop 20 (pk_buf p)) = drop 20 (take (pk_len p) (pk_buf p))"
    by (simp add: drop_take)
  also have "\<dots> = concat (map frame_msg msgs)"
    using assms by (simp add: packed_def mold_consts)
  finally have body: "take (pk_len p - 20) (drop 20 (pk_buf p)) = concat (map frame_msg msgs)" .
  have all: "take (pk_len p) ?h = ?h"
    by (rule take_all) (use assms h in \<open>simp add: packed_def kHeaderSize_def\<close>)
  have "take (pk_len p) (?h @ drop 20 (pk_buf p)) = ?h @ concat (map frame_msg msgs)"
    using all by (simp only: take_append h body)
  then show ?thesis by (simp add: Packer_finalize_def Let_def b) (simp add: Packer_writeHeader_def)
qed

lemma forEachMessage_finalize:
  assumes "packed p msgs" and "msgs \<noteq> []" and "\<forall>m \<in> set msgs. length m < 2 ^ 16"
  shows "forEachMessage (fst (Packer_finalize p)) =
     zip (map (\<lambda>i. pk_firstSeq p + of_nat i) [0..<length msgs]) msgs"
proof -
  let ?h = "pk_session p @ be_store (pk_firstSeq p) @ be_store (pk_count p)"
  have h: "length ?h = 20" using assms(1) by (simp add: packed_def mold_consts)
  have cnt: "unat (pk_count p) = length msgs"
    using assms(1) by (simp add: packed_def unat_of_nat)
  then have c: "pk_count p \<noteq> kHeartbeat" "pk_count p \<noteq> kEndOfSession"
    using assms(1,2) by (auto simp: mold_consts packed_def)
  have s: "sequenceOf (?h @ concat (map frame_msg msgs)) = pk_firstSeq p"
    and n: "countOf (?h @ concat (map frame_msg msgs)) = pk_count p"
    using assms(1) by (simp_all add: sequenceOf_def countOf_def getU64_def getU16_def packed_def
        mold_consts be_value_append)
  have "messages_loop (length msgs) (?h @ concat (map frame_msg msgs)) 20 (pk_firstSeq p) =
      zip (map (\<lambda>i. pk_firstSeq p + of_nat i) [0..<length msgs]) msgs"
    using messages_loop_frames [OF assms(3), of ?h "pk_firstSeq p"] h by simp
  then show ?thesis
    using finalize_packed [OF assms(1)] s n c cnt h by (simp add: forEachMessage_def kHeaderSize_def)
qed

section \<open>Safety on arbitrary packets\<close>

lemma nextMessage_bounds:
  assumes "nextMessage base off = Some (msg, off')"
  shows "off + kLengthPrefix \<le> off' \<and> off' \<le> length base \<and> length msg = off' - off - kLengthPrefix \<and>
    msg = peek (off + kLengthPrefix) (length msg) base"
  using assms by (auto simp: nextMessage_def Let_def mold_consts split: if_splits)

lemma messages_loop_total:
  "sum_list (map (\<lambda>sm. kLengthPrefix + length (snd sm)) (messages_loop n pkt off seq)) \<le> length pkt - off"
proof (induction n arbitrary: off seq)
  case 0
  then show ?case by simp
next
  case (Suc n)
  show ?case
  proof (cases "nextMessage pkt off")
    case None
    then show ?thesis by simp
  next
    case (Some mo)
    obtain m off' where mo: "mo = (m, off')" by force
    from nextMessage_bounds [OF Some [unfolded mo]] Suc [of off' "seq + 1"] Some mo
    show ?thesis by (simp, linarith)
  qed
qed

lemma messages_loop_length: "length (messages_loop n pkt off seq) \<le> n"
  by (induction n arbitrary: off seq) (auto split: option.splits)

section \<open>Properties\<close>

text \<open>Appending a list of messages in turn: the messages that were accepted, and the packer after them.\<close>

primrec append_all :: "byte list list \<Rightarrow> Packer \<Rightarrow> byte list list \<times> Packer" where
  "append_all [] p = ([], p)"
| "append_all (m # ms) p =
     (let (ok, p') = Packer_append m p; (acc, p'') = append_all ms p' in (if ok then m # acc else acc, p''))"

lemma Packer_append_False: "Packer_append m p = (False, p') \<Longrightarrow> p' = p"
  by (auto simp: Packer_append_def Let_def split: if_splits)

lemma packed_append_all:
  "packed p msgs \<Longrightarrow> append_all ms p = (acc, p') \<Longrightarrow> packed p' (msgs @ acc) \<and> pk_firstSeq p' = pk_firstSeq p"
proof (induction ms arbitrary: p msgs acc)
  case (Cons m ms)
  obtain ok q where q: "Packer_append m p = (ok, q)" by force
  obtain acc' where a: "append_all ms q = (acc', p')" "acc = (if ok then m # acc' else acc')"
    using Cons.prems(2) q by (auto simp: Let_def split: prod.splits)
  have "pk_firstSeq q = pk_firstSeq p" using Packer_append_fields [OF q] by simp
  moreover have "packed q (if ok then msgs @ [m] else msgs)"
    using packed_append [OF Cons.prems(1)] Packer_append_False [of m p q] q Cons.prems(1) by (cases ok) auto
  ultimately show ?case using Cons.IH [OF _ a(1)] a(2) by (cases ok) force+
qed simp

text \<open>
  A market-data packet reads back as it was packed: after a reset on a buffer of the stated
  capacity and any sequence of appends, the finalized packet yields exactly the messages the appends
  accepted, in order, numbered consecutively from the packer's sequence number.
\<close>

theorem mold_packet_roundtrip:
  assumes "cap \<le> length buf" and "kHeaderSize \<le> length buf" and "length (pk_session p) = kSessionLen"
    and "append_all ms (Packer_reset buf cap p) = (acc, p')" and "acc \<noteq> []" and "\<forall>m \<in> set acc. length m < 2 ^ 16"
  shows "forEachMessage (fst (Packer_finalize p')) = zip (map (\<lambda>i. pk_seq p + of_nat i) [0..<length acc]) acc"
proof -
  have "packed p' acc" "pk_firstSeq p' = pk_seq p"
    using packed_append_all [OF packed_reset [OF assms(1-3)] assms(4)] by (simp_all add: Packer_reset_def)
  then show ?thesis using forEachMessage_finalize assms(5,6) by metis
qed

theorem mold_packet_roundtrip_witness:
  "forEachMessage (fst (Packer_finalize (snd (append_all [[1, 2, 3], [4]]
     (Packer_reset (replicate 64 0) 64 (Packer_new [] 7)))))) = [(7, [1, 2, 3]), (8, [4])]"
proof -
  let ?p = "Packer_new [] 7"
  let ?r = "append_all [[1, 2, 3], [4]] (Packer_reset (replicate 64 0) 64 ?p)"
  have acc: "fst ?r = [[1, 2, 3], [4]]"
    by (simp add: Packer_append_def Packer_reset_def Packer_new_def mold_consts Let_def split: prod.splits)
  have "forEachMessage (fst (Packer_finalize (snd ?r))) = zip (map (\<lambda>i. pk_seq ?p + of_nat i) [0..<length (fst ?r)]) (fst ?r)"
  proof (rule mold_packet_roundtrip)
    show "append_all [[1, 2, 3], [4]] (Packer_reset (replicate 64 0) 64 ?p) = (fst ?r, snd ?r)" by simp
    show "fst ?r \<noteq> []" "\<forall>m \<in> set (fst ?r). length m < 2 ^ 16" unfolding acc by simp_all
  qed (simp_all add: Packer_new_def mold_consts)
  then show ?thesis unfolding acc by (simp add: Packer_new_def upt_rec)
qed

text \<open>
  Reading a packet is safe on arbitrary bytes: every message \<^verbatim>\<open>forEachMessage\<close> delivers, with its length
  prefix, is counted inside the packet, and it never delivers more messages than the header announces.
\<close>

theorem forEachMessage_safe:
  "sum_list (map (\<lambda>sm. kLengthPrefix + length (snd sm)) (forEachMessage pkt)) \<le> length pkt - kHeaderSize \<and>
   length (forEachMessage pkt) \<le> unat (countOf pkt)"
  using messages_loop_total [of "unat (countOf pkt)" pkt kHeaderSize "sequenceOf pkt"]
    messages_loop_length [of "unat (countOf pkt)" pkt kHeaderSize "sequenceOf pkt"]
  by (auto simp: forEachMessage_def Let_def)

end
