(* ===== verification/SequenceTracker.thy ===== *)
theory SequenceTracker
  imports MoldUdp64
begin

text \<open>
  Feed sequencing of \<^verbatim>\<open>dut/SequenceTracker\<close>: every MoldUDP64 header is classified as in order,
  a gap or stale, and the counters of missed and stale traffic are kept. The lemmas relate the
  counters to the sequence numbers that accepted packets covered, and show that the packets of
  one packer are accepted without a gap.
\<close>

datatype SeqResult = InOrder | Gap | Stale

record SequenceTracker =
  st_expected :: u64
  st_gaps :: u64
  st_missed :: u64
  st_stale :: u64
  st_started :: bool

definition SequenceTracker_new :: SequenceTracker where
  "SequenceTracker_new =
     \<lparr>st_expected = 0, st_gaps = 0, st_missed = 0, st_stale = 0, st_started = False\<rparr>"

definition SequenceTracker_onPacket ::
  "u64 \<Rightarrow> u16 \<Rightarrow> SequenceTracker \<Rightarrow> SeqResult \<times> SequenceTracker" where
  "SequenceTracker_onPacket seq count s =
     (let carries = count \<noteq> kHeartbeat \<and> count \<noteq> kEndOfSession;
          advance = (if carries then ucast count else 0) :: u64
      in if \<not> st_started s then
           (InOrder, s\<lparr>st_started := True, st_expected := seq + advance\<rparr>)
         else if seq = st_expected s then
           (InOrder, s\<lparr>st_expected := st_expected s + advance\<rparr>)
         else if seq > st_expected s then
           (Gap, s\<lparr>st_gaps := st_gaps s + 1, st_missed := st_missed s + (seq - st_expected s),
                   st_expected := seq + advance\<rparr>)
         else if carries \<and> seq + advance > st_expected s then
           (InOrder, s\<lparr>st_expected := seq + advance\<rparr>)
         else (Stale, s\<lparr>st_stale := st_stale s + 1\<rparr>))"

definition SequenceTracker_reset :: "SequenceTracker \<Rightarrow> SequenceTracker" where
  "SequenceTracker_reset s =
     s\<lparr>st_expected := 0, st_gaps := 0, st_missed := 0, st_stale := 0, st_started := False\<rparr>"

primrec track :: "(u64 \<times> u16) list \<Rightarrow> SequenceTracker \<Rightarrow> SeqResult list \<times> SequenceTracker" where
  "track [] s = ([], s)"
| "track (p # ps) s =
     (let (r, s') = SequenceTracker_onPacket (fst p) (snd p) s; (rs, s'') = track ps s'
      in (r # rs, s''))"

section \<open>Ranges of sequence numbers\<close>

definition advance_of :: "u16 \<Rightarrow> nat" where
  "advance_of count = (if count \<noteq> kHeartbeat \<and> count \<noteq> kEndOfSession then unat count else 0)"

definition pkt_range :: "u64 \<times> u16 \<Rightarrow> nat set" where
  "pkt_range p = {unat (fst p)..<unat (fst p) + advance_of (snd p)}"

definition no_seq_wrap :: "u64 \<times> u16 \<Rightarrow> bool" where
  "no_seq_wrap p \<longleftrightarrow> unat (fst p) + advance_of (snd p) < 2 ^ 64"

text \<open>The sequence numbers of the packets that were not stale.\<close>

definition covered :: "(u64 \<times> u16) list \<Rightarrow> SeqResult list \<Rightarrow> nat set" where
  "covered ps rs = (\<Union>(p, r) \<in> set (zip ps rs). if r = Stale then {} else pkt_range p)"

lemma covered_Nil [simp]: "covered [] [] = {}"
  by (simp add: covered_def)

lemma covered_Cons [simp]:
  "covered (p # ps) (r # rs) = (if r = Stale then {} else pkt_range p) \<union> covered ps rs"
  unfolding covered_def by simp

lemma unat_advance:
  "no_seq_wrap (seq, count) \<Longrightarrow>
     unat (seq + (if count \<noteq> kHeartbeat \<and> count \<noteq> kEndOfSession then ucast count else 0))
       = unat seq + advance_of count"
proof -
  assume nw: "no_seq_wrap (seq, count)"
  have u: "unat (ucast count :: u64) = unat count"
    by (simp add: unsigned_ucast_eq take_bit_nat_eq_self order_less_trans [OF unsigned_less])
  show ?thesis
    using nw u by (auto simp: no_seq_wrap_def advance_of_def unat_word_ariths)
qed

text \<open>
  One step on a started tracker, in natural numbers: the accepted packet moves the expected
  number to its end, a gap adds the distance skipped.
\<close>

lemma onPacket_started:
  assumes "st_started s" and "no_seq_wrap (seq, count)" and "SequenceTracker_onPacket seq count s = (r, s')"
  shows "st_started s' \<and>
    (case r of
       InOrder \<Rightarrow> unat seq \<le> unat (st_expected s) \<and> unat (st_expected s') = unat seq + advance_of count \<and>
                 unat (st_expected s) \<le> unat (st_expected s') \<and> st_missed s' = st_missed s \<and>
                 st_gaps s' = st_gaps s
     | Gap \<Rightarrow> unat (st_expected s) < unat seq \<and> unat (st_expected s') = unat seq + advance_of count \<and>
             st_missed s' = st_missed s + (seq - st_expected s) \<and> st_gaps s' = st_gaps s + 1
     | Stale \<Rightarrow> unat seq + advance_of count \<le> unat (st_expected s) \<and> st_expected s' = st_expected s \<and>
               st_missed s' = st_missed s \<and> st_gaps s' = st_gaps s)"
proof -
  let ?a = "(if count \<noteq> kHeartbeat \<and> count \<noteq> kEndOfSession then ucast count else 0) :: u64"
  note u = unat_advance [OF assms(2)]
  have def: "SequenceTracker_onPacket seq count s =
    (if seq = st_expected s then (InOrder, s\<lparr>st_expected := seq + ?a\<rparr>)
     else if seq > st_expected s then
       (Gap, s\<lparr>st_gaps := st_gaps s + 1, st_missed := st_missed s + (seq - st_expected s),
               st_expected := seq + ?a\<rparr>)
     else if (count \<noteq> kHeartbeat \<and> count \<noteq> kEndOfSession) \<and> seq + ?a > st_expected s then
       (InOrder, s\<lparr>st_expected := seq + ?a\<rparr>)
     else (Stale, s\<lparr>st_stale := st_stale s + 1\<rparr>))"
    using assms(1) by (simp add: SequenceTracker_onPacket_def Let_def)
  have adv0: "advance_of count = 0" if "\<not> (count \<noteq> kHeartbeat \<and> count \<noteq> kEndOfSession)"
    using that by (auto simp: advance_of_def)
  show ?thesis
    using assms(1,3) u adv0 unfolding def
    by (auto simp: word_less_nat_alt not_less split: if_splits)
qed

text \<open>What one packet leaves uncovered of the numbers up to a later bound \<open>n\<close>.\<close>

lemma onPacket_uncovered:
  assumes "st_started s" and "no_seq_wrap (seq, count)" and "SequenceTracker_onPacket seq count s = (r, s')"
    and "unat (st_expected s') \<le> n" and "unat (st_missed s) + (n - unat (st_expected s)) < 2 ^ 64"
  shows "unat (st_expected s) \<le> unat (st_expected s') \<and>
    unat (st_missed s) + card ({unat (st_expected s)..<n} - ((if r = Stale then {} else pkt_range (seq, count)) \<union> C))
      \<le> unat (st_missed s') + card ({unat (st_expected s')..<n} - C) \<and>
    unat (st_missed s') + (n - unat (st_expected s')) \<le> unat (st_missed s) + (n - unat (st_expected s))"
proof -
  note st = onPacket_started [OF assms(1-3)]
  let ?E = "unat (st_expected s)" and ?E' = "unat (st_expected s')"
  show ?thesis
  proof (cases r)
    case InOrder
    then have e: "unat seq \<le> ?E" "?E' = unat seq + advance_of count" "?E \<le> ?E'" "st_missed s' = st_missed s"
      using st by auto
    then have "{?E..<n} - (pkt_range (seq, count) \<union> C) \<subseteq> {?E'..<n} - C"
      by (auto simp: pkt_range_def)
    then have "card ({?E..<n} - (pkt_range (seq, count) \<union> C)) \<le> card ({?E'..<n} - C)"
      by (intro card_mono) auto
    with e InOrder show ?thesis by simp
  next
    case Gap
    then have e: "?E < unat seq" "?E' = unat seq + advance_of count"
      "st_missed s' = st_missed s + (seq - st_expected s)" using st by auto
    have d: "unat (seq - st_expected s) = unat seq - ?E"
      using e(1) by (intro unat_sub) (simp add: word_le_nat_alt)
    have m: "unat (st_missed s') = unat (st_missed s) + (unat seq - ?E)"
      using e assms(4,5) d by (simp add: unat_word_ariths)
    have "{?E..<n} - (pkt_range (seq, count) \<union> C) \<subseteq> {?E..<unat seq} \<union> ({?E'..<n} - C)"
      using e by (auto simp: pkt_range_def)
    then have "card ({?E..<n} - (pkt_range (seq, count) \<union> C)) \<le> card ({?E..<unat seq} \<union> ({?E'..<n} - C))"
      by (intro card_mono) auto
    also have "\<dots> \<le> (unat seq - ?E) + card ({?E'..<n} - C)"
      by (rule order_trans [OF card_Un_le]) simp
    finally have c: "card ({?E..<n} - (pkt_range (seq, count) \<union> C))
        \<le> (unat seq - ?E) + card ({?E'..<n} - C)" .
    have "unat (st_missed s) + card ({?E..<n} - (pkt_range (seq, count) \<union> C))
        \<le> unat (st_missed s') + card ({?E'..<n} - C)" using c m by linarith
    moreover have "unat (st_missed s') + (n - ?E') \<le> unat (st_missed s) + (n - ?E)"
      using m e assms(4) by linarith
    ultimately show ?thesis using e Gap by simp
  next
    case Stale
    then show ?thesis using st by simp
  qed
qed

lemma track_expected_mono:
  "st_started s \<Longrightarrow> \<forall>p \<in> set ps. no_seq_wrap p \<Longrightarrow> track ps s = (rs, s') \<Longrightarrow>
     unat (st_expected s) \<le> unat (st_expected s') \<and> length rs = length ps \<and> st_started s'"
proof (induction ps arbitrary: s rs)
  case Nil
  then show ?case by simp
next
  case (Cons p ps)
  obtain r s1 where step: "SequenceTracker_onPacket (fst p) (snd p) s = (r, s1)" by force
  obtain rs1 where tr: "track ps s1 = (rs1, s')" and rs: "rs = r # rs1"
    using Cons.prems(3) step by (auto simp: Let_def split: prod.splits)
  have nw: "no_seq_wrap (fst p, snd p)" using Cons.prems(2) by simp
  note st = onPacket_started [OF Cons.prems(1) nw step]
  have "unat (st_expected s) \<le> unat (st_expected s1)" using st by (auto split: SeqResult.splits)
  then show ?case using Cons.IH [OF _ _ tr] st Cons.prems(2) rs by auto
qed

lemma track_uncovered:
  assumes "st_started s" and "\<forall>p \<in> set ps. no_seq_wrap p" and "track ps s = (rs, s')"
    and "unat (st_missed s) + (unat (st_expected s') - unat (st_expected s)) < 2 ^ 64"
  shows "unat (st_missed s) + card ({unat (st_expected s)..<unat (st_expected s')} - covered ps rs)
    \<le> unat (st_missed s')"
  using assms
proof (induction ps arbitrary: s rs)
  case Nil
  then show ?case by simp
next
  case (Cons p ps)
  obtain r s1 where step: "SequenceTracker_onPacket (fst p) (snd p) s = (r, s1)" by force
  obtain rs1 where tr: "track ps s1 = (rs1, s')" and rs: "rs = r # rs1"
    using Cons.prems(3) step by (auto simp: Let_def split: prod.splits)
  have nw: "no_seq_wrap (fst p, snd p)" and nws: "\<forall>p \<in> set ps. no_seq_wrap p" using Cons.prems(2) by auto
  have s1: "st_started s1" using onPacket_started [OF Cons.prems(1) nw step] by simp
  have le: "unat (st_expected s1) \<le> unat (st_expected s')" using track_expected_mono [OF s1 nws tr] by simp
  note un = onPacket_uncovered [OF Cons.prems(1) nw step le Cons.prems(4), of "covered ps rs1"]
  have "unat (st_missed s1) + card ({unat (st_expected s1)..<unat (st_expected s')} - covered ps rs1)
      \<le> unat (st_missed s')"
    using un Cons.prems(4) by (intro Cons.IH [OF s1 nws tr]) linarith
  moreover have "unat (st_missed s) + card ({unat (st_expected s)..<unat (st_expected s')} - covered (p # ps) rs)
      \<le> unat (st_missed s1) + card ({unat (st_expected s1)..<unat (st_expected s')} - covered ps rs1)"
    using un unfolding rs covered_Cons prod.collapse by blast
  ultimately show ?case by linarith
qed

section \<open>Properties\<close>

text \<open>
  C26. No loss goes unnoticed: on a started tracker, over any sequence of packets whose numbers do not
  wrap, the number of sequence numbers between the old and the new expected number that no accepted
  packet covered is at most the growth of the missed counter. If the counter did not move, every
  number was covered.
\<close>

theorem tracker_no_undetected_loss:
  assumes "st_started s" and "\<forall>p \<in> set ps. no_seq_wrap p" and "track ps s = (rs, s')"
    and "unat (st_missed s) + (unat (st_expected s') - unat (st_expected s)) < 2 ^ 64"
  shows "card ({unat (st_expected s)..<unat (st_expected s')} - covered ps rs) \<le> unat (st_missed s') - unat (st_missed s) \<and>
    (st_missed s' = st_missed s \<longrightarrow> {unat (st_expected s)..<unat (st_expected s')} \<subseteq> covered ps rs)"
proof -
  let ?U = "{unat (st_expected s)..<unat (st_expected s')} - covered ps rs"
  have le: "unat (st_missed s) + card ?U \<le> unat (st_missed s')" by (rule track_uncovered [OF assms])
  then have "card ?U \<le> unat (st_missed s') - unat (st_missed s)" by linarith
  moreover have "?U = {}" if "st_missed s' = st_missed s"
  proof -
    have "card ?U = 0" using le that by simp
    then show ?thesis by simp
  qed
  ultimately show ?thesis by blast
qed

theorem tracker_no_undetected_loss_witness:
  "let s = SequenceTracker_new\<lparr>st_started := True, st_expected := 10\<rparr>; r = track [(10, 3), (12, 4)] s
   in {10..<16} \<subseteq> covered [(10, 3), (12, 4)] (fst r) \<and> st_missed (snd r) = 0"
proof -
  define s where "s = SequenceTracker_new\<lparr>st_started := True, st_expected := 10\<rparr>"
  define r where "r = track [(10, 3), (12, 4)] s"
  have r: "st_missed (snd r) = 0" "st_expected (snd r) = 16"
    by (simp_all add: r_def s_def SequenceTracker_new_def SequenceTracker_onPacket_def mold_consts Let_def)
  have s: "st_started s" "st_expected s = 10" "st_missed s = 0" by (simp_all add: s_def SequenceTracker_new_def)
  have nw: "\<forall>p \<in> set [(10, 3), (12, 4)]. no_seq_wrap p" by (simp add: no_seq_wrap_def advance_of_def mold_consts)
  have "{unat (st_expected s)..<unat (st_expected (snd r))} \<subseteq> covered [(10, 3), (12, 4)] (fst r)"
    using tracker_no_undetected_loss [OF s(1) nw, of "fst r" "snd r"] r s by (simp add: r_def)
  then have "{10..<16} \<subseteq> covered [(10, 3), (12, 4)] (fst r)" using r s by simp
  then show ?thesis using r(1) unfolding s_def [symmetric] r_def [symmetric] Let_def by (rule conjI)
qed

primrec emitted :: "u64 \<Rightarrow> u16 list \<Rightarrow> (u64 \<times> u16) list" where
  "emitted seq [] = []"
| "emitted seq (c # cs) = (seq, c) # emitted (seq + (if c = kHeartbeat \<or> c = kEndOfSession then 0 else ucast c)) cs"

text \<open>
  The packets one packer produces arrive without a gap: whatever number of messages each packet
  carries, with heartbeats between them, a tracker that expects the packer's next sequence number
  classifies every packet as in order and counts no gap, no missed and no stale packet.
\<close>

theorem tracker_accepts_packer_stream:
  assumes "st_started s" and "st_expected s = seq"
  shows "fst (track (emitted seq counts) s) = replicate (length counts) InOrder \<and>
    st_gaps (snd (track (emitted seq counts) s)) = st_gaps s \<and> st_missed (snd (track (emitted seq counts) s)) = st_missed s \<and>
    st_stale (snd (track (emitted seq counts) s)) = st_stale s"
  using assms
proof (induction counts arbitrary: s seq)
  case (Cons c cs)
  let ?a = "(if c = kHeartbeat \<or> c = kEndOfSession then 0 else ucast c) :: u64"
  have step: "SequenceTracker_onPacket seq c s = (InOrder, s\<lparr>st_expected := seq + ?a\<rparr>)"
    using Cons.prems by (auto simp: SequenceTracker_onPacket_def Let_def)
  obtain rs s'' where tr: "track (emitted (seq + ?a) cs) (s\<lparr>st_expected := seq + ?a\<rparr>) = (rs, s'')" by force
  then have "track (emitted seq (c # cs)) s = (InOrder # rs, s'')" using step by simp
  then show ?case using Cons.IH [of "s\<lparr>st_expected := seq + ?a\<rparr>" "seq + ?a"] Cons.prems(1) tr by simp
qed simp

theorem tracker_accepts_packer_stream_witness:
  "fst (track (emitted 5 [3, 0, 2]) (SequenceTracker_new\<lparr>st_started := True, st_expected := 5\<rparr>)) = [InOrder, InOrder, InOrder]"
  using tracker_accepts_packer_stream [of "SequenceTracker_new\<lparr>st_started := True, st_expected := 5\<rparr>" 5 "[3, 0, 2]"]
  by (simp add: numeral_3_eq_3)

end
