(* ===== verification/DivBy.thy ===== *)
theory DivBy
  imports Prelude
begin

text \<open>
  Division by a run-time constant of \<^verbatim>\<open>util/DivBy.hpp\<close>: the constructor precomputes a magic
  multiplier and a shift, the call operator multiplies and shifts. The constructor leaves
  \<^verbatim>\<open>m_magic = 0\<close> for powers of two, which then divide by a pure shift.
\<close>

record DivBy =
  db_magic :: u32
  db_shift :: nat
  db_add :: bool

definition DivBy_new :: "u32 \<Rightarrow> DivBy" where
  "DivBy_new d =
     (if d AND (d - 1) = 0 then \<lparr>db_magic = 0, db_shift = countr_zero d, db_add = False\<rparr>
      else
        let floorLog2 = 31 - countl_zero d;
            twoToN = push_bit (32 + floorLog2) 1 :: u64;
            proposed = ucast (twoToN div ucast d) :: u32;
            rem = ucast (twoToN - ucast proposed * ucast d) :: u32;
            e = d - rem
        in if e < push_bit floorLog2 1 then
             \<lparr>db_magic = proposed + 1, db_shift = floorLog2, db_add = False\<rparr>
           else
             let proposed2 = proposed + proposed;
                 rem2 = rem + rem;
                 proposed3 = (if rem2 \<ge> d \<or> rem2 < rem then proposed2 + 1 else proposed2)
             in \<lparr>db_magic = proposed3 + 1, db_shift = floorLog2, db_add = True\<rparr>)"

definition DivBy_apply :: "DivBy \<Rightarrow> u32 \<Rightarrow> u32" where
  "DivBy_apply dv n =
     (if db_magic dv = 0 then drop_bit (db_shift dv) n
      else
        let q = ucast (drop_bit 32 (ucast (db_magic dv) * ucast n :: u64)) :: u32
        in if db_add dv then
             let t = drop_bit 1 (n - q) + q in drop_bit (db_shift dv) t
           else drop_bit (db_shift dv) q)"

section \<open>The arithmetic of the magic multiplier\<close>

text \<open>A multiplier that is off by at most one part in \<open>2\<^sup>3\<^sup>2\<close> divides every 32-bit dividend exactly.\<close>

lemma magic_div:
  fixes m n d e N :: nat
  assumes "m * d = N + e" and "n * e < N" and "0 < d"
  shows "(m * n) div N = n div d"
proof (rule div_nat_eqI)
  have N: "0 < N" using assms(2) by linarith
  have "d * (N * (n div d)) \<le> N * n" by (metis div_times_less_eq_dividend mult.assoc mult.commute mult_le_mono2)
  also have "\<dots> \<le> n * (N + e)" by (simp add: algebra_simps)
  also have "\<dots> = d * (m * n)" using assms(1) by (metis mult.assoc mult.commute)
  finally show "N * (n div d) \<le> m * n" using assms(3) by simp
  have "n < d * Suc (n div d)" using assms(3) by (simp add: dividend_less_times_div)
  then have "n + 1 \<le> d * Suc (n div d)" by simp
  then have "N * (n + 1) \<le> N * (d * Suc (n div d))" by (rule mult_le_mono2)
  moreover have "d * (m * n) = N * n + n * e" using assms(1) by (metis add_mult_distrib2 mult.assoc mult.commute)
  ultimately have "d * (m * n) < d * (N * Suc (n div d))"
    using assms(2) by (simp add: algebra_simps)
  then show "m * n < N * Suc (n div d)" using assms(3) by simp
qed

text \<open>A word with a single bit is the power of two its trailing zeros count.\<close>

lemma power_of_two_word:
  fixes d :: "'a::len word"
  assumes "d AND (d - 1) = 0" and "d \<noteq> 0"
  shows "unat d = 2 ^ countr_zero d"
proof -
  define L where "L = LENGTH('a) - 1 - countl_zero d"
  have b: "2 ^ L \<le> unat d" "unat d < 2 ^ Suc L" "bit d L"
    using countl_zero_bounds [OF assms(2)] countl_zero_bit [OF assms(2)] by (auto simp: L_def)
  have eq: "unat d = 2 ^ L"
  proof (rule ccontr)
    assume "unat d \<noteq> 2 ^ L"
    then have "2 ^ L \<le> unat d - 1" "unat d - 1 < 2 ^ Suc L" using b by linarith+
    then have "(unat d - 1) div 2 ^ L = 1" by (intro div_nat_eqI) simp_all
    moreover have "unat (d - 1) = unat d - 1"
      using assms(2) by (metis unat_minus_one)
    ultimately have "bit (unat (d - 1)) L" by (simp add: bit_iff_odd)
    then have "bit (d AND (d - 1)) L" using b(3) by (simp add: bit_and_iff bit_unsigned_iff)
    then show False using assms(1) by simp
  qed
  note c = countr_zero_bit [OF assms(2)]
  have "bit (unat d) (countr_zero d)" using c by (simp add: bit_unsigned_iff)
  then have "bit (2 ^ L :: nat) (countr_zero d)" by (simp only: eq)
  then have "countr_zero d = L" by (simp add: bit_exp_iff)
  with eq show ?thesis by simp
qed

text \<open>
  Rounding \<open>N / d\<close> up gives a multiplier \<open>m\<close> with \<open>m d = N + e\<close> for an \<open>e\<close> of at most \<open>d\<close>: it is used
  as it is when \<open>e\<close> is below \<open>2\<^sup>L\<close>, and otherwise computed for \<open>2 N\<close>, with its 33rd bit implicit.
\<close>

lemma round_up_mult:
  fixes N d :: nat
  assumes "0 < d"
  shows "(N div d + 1) * d = N + (d - N mod d)"
proof -
  have "N div d * d + N mod d = N" "N mod d < d" using assms by simp_all
  then show ?thesis unfolding add_mult_distrib by linarith
qed

lemma round_up_less:
  fixes d k L :: nat
  assumes "2 ^ L < d" and "d < 2 ^ k"
  shows "2 ^ (k + L) div d + 1 < 2 ^ k"
proof (rule ccontr)
  assume "\<not> ?thesis"
  then have "2 ^ k * d \<le> (2 ^ (k + L) div d + 1) * d" by (intro mult_le_mono1) simp
  also have "\<dots> = 2 ^ (k + L) + (d - 2 ^ (k + L) mod d)" using assms(1) by (intro round_up_mult) linarith
  finally have le: "2 ^ k * d \<le> 2 ^ (k + L) + (d - 2 ^ (k + L) mod d)" .
  have "2 ^ k * (2 ^ L + 1) \<le> 2 ^ k * d" using assms(1) by (intro mult_le_mono2) simp
  then have "2 ^ (k + L) + 2 ^ k \<le> 2 ^ k * d" by (simp add: power_add algebra_simps)
  with le assms show False by linarith
qed

lemma round_up_greater:
  fixes d k L :: nat
  assumes "0 < d" and "d < 2 ^ Suc L"
  shows "2 ^ k < 2 ^ (Suc k + L) div d + 1"
proof -
  have "2 ^ k * d \<le> 2 ^ k * 2 ^ Suc L" using assms(2) by (intro mult_le_mono2) simp
  then have "2 ^ k * d \<le> 2 ^ (Suc k + L)" by (simp add: power_add)
  then have "2 ^ k \<le> 2 ^ (Suc k + L) div d" using assms(1) by (simp add: less_eq_div_iff_mult_less_eq)
  then show ?thesis by simp
qed

lemma double_div: "2 * N div d = 2 * (N div d) + (if d \<le> 2 * (N mod d) then 1 else 0)"
  if "0 < d" for N d :: nat
proof -
  have "2 * (d * (N div d) + N mod d) = 2 * N" by simp
  then have "2 * N = d * (2 * (N div d)) + 2 * (N mod d)" by (simp only: add_mult_distrib2 mult.left_commute)
  then have "2 * N div d = 2 * (N div d) + 2 * (N mod d) div d"
    using that by (simp only:) simp
  moreover have "2 * (N mod d) div d = (if d \<le> 2 * (N mod d) then 1 else 0)"
    using mod_less_divisor [OF that, of N] by (auto intro: div_nat_eqI)
  ultimately show ?thesis by simp
qed

section \<open>The fields the constructor computes\<close>

lemma DivBy_new_words:
  fixes d :: u32
  defines "L \<equiv> 31 - countl_zero d"
  assumes "d AND (d - 1) \<noteq> 0"
  shows "L \<le> 31 \<and> 2 ^ L < unat d \<and> unat d < 2 ^ Suc L \<and>
    unat (ucast (push_bit (32 + L) 1 div ucast d :: u64) :: u32) = 2 ^ (32 + L) div unat d \<and>
    unat (ucast (push_bit (32 + L) 1 - ucast (ucast (push_bit (32 + L) 1 div ucast d :: u64) :: u32) * ucast d :: u64) :: u32)
      = 2 ^ (32 + L) mod unat d"
proof -
  have d0: "d \<noteq> 0" using assms(2) by auto
  have b: "2 ^ L \<le> unat d" "unat d < 2 ^ Suc L" using countl_zero_bounds [OF d0] by (auto simp: L_def)
  have L: "L \<le> 31" by (simp add: L_def)
  have ne: "unat d \<noteq> 2 ^ L"
  proof
    assume "unat d = 2 ^ L"
    then have "word_of_nat (unat d) = (word_of_nat (2 ^ L) :: u32)" by simp
    then have "d = 2 ^ L" by simp
    moreover have "2 ^ L AND (2 ^ L - 1) = (0 :: u32)"
      unfolding mask_eq_exp_minus_1 [symmetric] by (rule bit_word_eqI) (auto simp: bit_simps)
    ultimately have "d AND (d - 1) = 0" by simp
    with assms(2) show False by simp
  qed
  have lt: "2 ^ L < unat d" using b(1) ne by linarith
  have N: "unat (push_bit (32 + L) 1 :: u64) = 2 ^ (32 + L)"
  proof -
    have "(2 :: nat) ^ (32 + L) < 2 ^ 64" using L by (intro power_strict_increasing) simp_all
    moreover have "(push_bit (32 + L) 1 :: u64) = word_of_nat (2 ^ (32 + L))"
      by (simp add: push_bit_eq_mult)
    ultimately show ?thesis by (simp only: unsigned_of_nat take_bit_eq_mod) simp
  qed
  have ud: "unat (ucast d :: u64) = unat d"
    using unat_lt2p [of d] by (simp add: unat_ucast_mod)
  have q: "unat (push_bit (32 + L) 1 div ucast d :: u64) = 2 ^ (32 + L) div unat d"
    by (simp only: unat_div_distrib N ud)
  have qlt: "2 ^ (32 + L) div unat d < 2 ^ 32"
    using round_up_less [OF lt, of 32] unat_lt2p [of d] by simp
  have p: "unat (ucast (push_bit (32 + L) 1 div ucast d :: u64) :: u32) = 2 ^ (32 + L) div unat d"
    using qlt by (simp only: unat_ucast_mod q) simp
  let ?p = "ucast (push_bit (32 + L) 1 div ucast d :: u64) :: u32"
  have le: "2 ^ (32 + L) div unat d * unat d \<le> 2 ^ (32 + L)" by (rule div_times_less_eq_dividend)
  have N64: "(2 :: nat) ^ (32 + L) < 2 ^ 64" using L by (intro power_strict_increasing) simp_all
  have up: "unat (ucast ?p :: u64) = 2 ^ (32 + L) div unat d"
    using qlt by (simp only: unat_ucast_mod [of ?p] p) simp
  have m: "unat (ucast ?p * ucast d :: u64) = 2 ^ (32 + L) div unat d * unat d"
    using order_le_less_trans [OF le N64] by (simp only: unat_word_ariths up ud) simp
  have "ucast ?p * ucast d \<le> (push_bit (32 + L) 1 :: u64)"
    unfolding word_le_nat_alt m N by (rule le)
  then have s: "unat (push_bit (32 + L) 1 - ucast ?p * ucast d :: u64) = 2 ^ (32 + L) mod unat d"
    by (simp only: unat_sub m N minus_div_mult_eq_mod)
  have "2 ^ (32 + L) mod unat d < unat d" using lt by (intro mod_less_divisor) linarith
  then have "2 ^ (32 + L) mod unat d < 2 ^ 32" using unat_lt2p [of d] by simp
  then have r: "unat (ucast (push_bit (32 + L) 1 - ucast ?p * ucast d :: u64) :: u32) = 2 ^ (32 + L) mod unat d"
    by (simp only: unat_ucast_mod [of "push_bit (32 + L) 1 - ucast ?p * ucast d"] s) simp
  show ?thesis using L lt b(2) p r by blast
qed

lemma DivBy_apply_magic:
  assumes "unat (db_magic dv) \<noteq> 0"
  shows "unat (DivBy_apply dv n) =
    (if db_add dv then (2 ^ 32 + unat (db_magic dv)) * unat n div 2 ^ (33 + db_shift dv)
     else unat (db_magic dv) * unat n div 2 ^ (32 + db_shift dv))"
proof -
  let ?m = "unat (db_magic dv)" and ?n = "unat n"
  define q where "q = (ucast (drop_bit 32 (ucast (db_magic dv) * ucast n :: u64)) :: u32)"
  have m: "?m < 2 ^ 32" and n: "?n < 2 ^ 32" using unat_lt2p [of "db_magic dv"] unat_lt2p [of n] by simp_all
  have "?m * ?n < 2 ^ 32 * 2 ^ 32" using m n by (intro mult_strict_mono) simp_all
  then have prod: "unat (ucast (db_magic dv) * ucast n :: u64) = ?m * ?n"
    using m n by (simp add: unat_word_ariths unat_ucast_mod)
  have le: "?m * ?n div 2 ^ 32 \<le> ?n"
  proof -
    have "?m * ?n \<le> 2 ^ 32 * ?n" using m by (intro mult_le_mono1) simp
    then show ?thesis by (metis div_le_mono nonzero_mult_div_cancel_left power_not_zero zero_neq_numeral)
  qed
  have q: "unat q = ?m * ?n div 2 ^ 32"
    using le n by (simp only: q_def unat_ucast_mod unat_drop_bit_div prod) simp
  have qn: "q \<le> n" using le q by (simp add: word_le_nat_alt)
  have t: "unat (drop_bit 1 (n - q) + q) = (?n + unat q) div 2"
  proof -
    have "unat (drop_bit 1 (n - q)) = (?n - unat q) div 2"
      by (simp only: unat_drop_bit_div unat_sub [OF qn]) simp
    moreover have "unat q \<le> ?n \<Longrightarrow> (?n - unat q) div 2 + unat q = (?n + unat q) div 2" by presburger
    moreover have "unat q \<le> ?n" using le q by simp
    moreover have "(?n + unat q) div 2 < 2 ^ 32" using le q n by linarith
    ultimately show ?thesis by (simp add: unat_word_ariths)
  qed
  have "(2 ^ 32 + ?m) * ?n div 2 ^ 32 = ?n + unat q" unfolding q add_mult_distrib by simp
  then have add: "(2 ^ 32 + ?m) * ?n div 2 ^ (33 + db_shift dv) = (?n + unat q) div 2 div 2 ^ db_shift dv"
    using div_mult2_eq [of "(2 ^ 32 + ?m) * ?n" "2 ^ 32" "2 * 2 ^ db_shift dv"]
    by (simp add: power_add div_mult2_eq)
  have nz: "db_magic dv \<noteq> 0" using assms by auto
  show ?thesis
  proof (cases "db_add dv")
    case True
    then have "unat (DivBy_apply dv n) = unat (drop_bit (db_shift dv) (drop_bit 1 (n - q) + q))"
      using nz by (simp add: DivBy_apply_def q_def [symmetric] Let_def)
    then show ?thesis using True add by (simp only: unat_drop_bit_div t if_True)
  next
    case False
    then have "unat (DivBy_apply dv n) = unat (drop_bit (db_shift dv) q)"
      using nz by (simp add: DivBy_apply_def q_def [symmetric] Let_def)
    then show ?thesis
      using False by (simp only: unat_drop_bit_div q power_add div_mult2_eq if_False)
  qed
qed

lemma DivBy_new_magic:
  fixes d :: u32
  defines "L \<equiv> 31 - countl_zero d"
  assumes "d AND (d - 1) \<noteq> 0"
  shows "db_shift (DivBy_new d) = L \<and> unat (db_magic (DivBy_new d)) \<noteq> 0 \<and>
    (if db_add (DivBy_new d) then 2 ^ 32 + unat (db_magic (DivBy_new d)) = 2 ^ (33 + L) div unat d + 1
     else unat (db_magic (DivBy_new d)) = 2 ^ (32 + L) div unat d + 1 \<and>
          unat d - 2 ^ (32 + L) mod unat d < 2 ^ L)"
proof -
  define p where "p = (ucast (push_bit (32 + L) 1 div ucast d :: u64) :: u32)"
  define r where "r = (ucast (push_bit (32 + L) 1 - ucast p * ucast d :: u64) :: u32)"
  let ?N = "2 ^ (32 + L) :: nat"
  note w = DivBy_new_words [OF assms(2), folded L_def, folded p_def, folded r_def]
  have L: "L \<le> 31" "2 ^ L < unat d" "unat d < 2 ^ Suc L" and p: "unat p = ?N div unat d"
    and r: "unat r = ?N mod unat d" using w by auto
  have d: "0 < unat d" "unat d < 2 ^ 32" using L unat_lt2p [of d] by auto
  have rd: "unat r < unat d" unfolding r by (rule mod_less_divisor [OF d(1)])
  have e: "unat (d - r) = unat d - unat r" using rd by (intro unat_sub) (simp add: word_le_nat_alt)
  have pl: "unat (push_bit L 1 :: u32) = 2 ^ L"
  proof -
    have "(2 :: nat) ^ L < 2 ^ 32" using L(1) by (intro power_strict_increasing) simp_all
    moreover have "(push_bit L 1 :: u32) = word_of_nat (2 ^ L)" by (simp add: push_bit_eq_mult)
    ultimately show ?thesis by (simp only: unsigned_of_nat take_bit_eq_mod) simp
  qed
  define p3 where "p3 = (if r + r \<ge> d \<or> r + r < r then p + p + 1 else p + p)"
  have new: "DivBy_new d = (if d - r < push_bit L 1 then \<lparr>db_magic = p + 1, db_shift = L, db_add = False\<rparr>
      else \<lparr>db_magic = p3 + 1, db_shift = L, db_add = True\<rparr>)"
    using assms(2) unfolding DivBy_new_def L_def [symmetric] Let_def p_def [symmetric] r_def [symmetric] p3_def
    by simp
  have p1: "?N div unat d + 1 < 2 ^ 32" by (rule round_up_less [OF L(2) d(2)])
  show ?thesis
  proof (cases "d - r < push_bit L 1")
    case True
    then have "unat d - unat r < 2 ^ L" using e pl by (simp add: word_less_nat_alt)
    moreover have "unat (p + 1) = ?N div unat d + 1" using p1 p by (simp add: unat_word_ariths)
    ultimately show ?thesis using True r by (simp add: new)
  next
    case False
    then have "2 ^ L \<le> unat d - unat r" using e pl by (simp add: word_less_nat_alt)
    moreover have "(2 :: nat) ^ Suc L \<le> 2 ^ 32" using L(1) by (intro power_increasing) simp_all
    ultimately have "unat r + unat r < 2 ^ 32" using L(3) by simp
    then have r2: "unat (r + r) = 2 * unat r" by (simp add: unat_word_ariths)
    have "unat p3 = (2 * ?N div unat d) mod 2 ^ 32"
    proof (cases "unat d \<le> 2 * unat r")
      case True
      then have "p3 = p + p + 1" using r2 by (simp add: p3_def word_le_nat_alt)
      then have "unat p3 = ((2 * unat p) mod 2 ^ 32 + 1) mod 2 ^ 32" by (simp add: unat_word_ariths)
      also have "\<dots> = (2 * unat p + 1) mod 2 ^ 32" by (simp only: mod_add_left_eq)
      finally show ?thesis
        unfolding double_div [OF d(1)] p [symmetric] r [symmetric] using True by (simp only: if_True)
    next
      case False
      then have "p3 = p + p" using r2 by (simp add: p3_def word_le_nat_alt word_less_nat_alt)
      then have "unat p3 = (2 * unat p) mod 2 ^ 32" by (simp add: unat_word_ariths)
      then show ?thesis
        unfolding double_div [OF d(1)] p [symmetric] r [symmetric] using False by (simp only: if_False add_0_right)
    qed
    moreover have "unat (p3 + 1) = (unat p3 + 1) mod 2 ^ 32" by (simp add: unat_word_ariths)
    moreover have "2 * ?N = 2 ^ (33 + L)" by (simp add: power_add)
    ultimately have "unat (p3 + 1) = (2 ^ (33 + L) div unat d + 1) mod 2 ^ 32" by (simp only: mod_add_left_eq)
    moreover have "2 ^ 32 < 2 ^ (33 + L) div unat d + 1" "2 ^ (33 + L) div unat d + 1 < 2 ^ 33"
      using round_up_greater [OF d(1) L(3), of 32] round_up_less [OF L(2), of 33] d(2) by simp_all
    ultimately have "2 ^ 32 + unat (p3 + 1) = 2 ^ (33 + L) div unat d + 1" "unat (p3 + 1) \<noteq> 0"
      by (simp_all add: mod_if)
    then show ?thesis using False by (simp add: new)
  qed
qed

lemma DivBy_apply_new:
  assumes "d \<noteq> 0"
  shows "DivBy_apply (DivBy_new d) n = n div d"
proof (cases "d AND (d - 1) = 0")
  case True
  have "unat d = 2 ^ countr_zero d" by (rule power_of_two_word [OF True assms])
  moreover have "DivBy_apply (DivBy_new d) n = drop_bit (countr_zero d) n"
    using True by (simp add: DivBy_new_def DivBy_apply_def)
  ultimately have "unat (DivBy_apply (DivBy_new d) n) = unat (n div d)"
    by (simp only: unat_drop_bit_div unat_div_distrib)
  then show ?thesis by (simp add: word_unat_eq_iff)
next
  case False
  define L where "L = 31 - countl_zero d"
  let ?d = "unat d" and ?dv = "DivBy_new d"
  note w = DivBy_new_words [OF False, folded L_def] and m = DivBy_new_magic [OF False, folded L_def]
  have d: "0 < ?d" and n: "unat n < 2 ^ 32" using w unat_lt2p [of n] by auto
  have ap: "unat (DivBy_apply ?dv n) =
      (if db_add ?dv then (2 ^ (33 + L) div ?d + 1) * unat n div 2 ^ (33 + L)
       else (2 ^ (32 + L) div ?d + 1) * unat n div 2 ^ (32 + L))"
    using m DivBy_apply_magic [of ?dv n] by (cases "db_add ?dv") (simp_all only: if_True if_False, metis+)
  have "unat n * (?d - 2 ^ (33 + L) mod ?d) < 2 ^ 32 * 2 ^ Suc L"
    using n w by (intro mult_strict_mono) auto
  then have "(2 ^ (33 + L) div ?d + 1) * unat n div 2 ^ (33 + L) = unat n div ?d"
    by (intro magic_div [OF round_up_mult [OF d] _ d]) (simp add: power_add)
  moreover have "(2 ^ (32 + L) div ?d + 1) * unat n div 2 ^ (32 + L) = unat n div ?d" if "\<not> db_add ?dv"
  proof -
    have "unat n * (?d - 2 ^ (32 + L) mod ?d) < 2 ^ 32 * 2 ^ L"
      using n m that by (intro mult_strict_mono) auto
    then show ?thesis by (intro magic_div [OF round_up_mult [OF d] _ d]) (simp add: power_add)
  qed
  ultimately have "unat (DivBy_apply ?dv n) = unat (n div d)" using ap by (simp add: unat_div_distrib)
  then show ?thesis by (simp add: word_unat_eq_iff)
qed

text \<open>
  The precomputed divider divides exactly: for every non-zero divisor and every 32-bit
  dividend, the multiply-and-shift sequence returns the quotient.
\<close>

theorem DivBy_exact:
  assumes "d \<noteq> 0"
  shows "DivBy_apply (DivBy_new d) n = n div d"
  by (rule DivBy_apply_new [OF assms])

theorem DivBy_exact_witness: "DivBy_apply (DivBy_new 100) 12345 = 123 \<and> (100 :: u32) \<noteq> 0"
  using DivBy_exact [of 100 12345] by simp

end
