(* ===== verification/Scan.thy ===== *)
theory Scan
  imports Prelude
begin

text \<open>
  The level scans of \<^verbatim>\<open>util/Scan.hpp\<close>: the nearest non-zero element of a dense array below or
  above a start index, one element per step and eight per step with AVX2 instructions. The
  vector instructions are modelled lane by lane. Both versions are related to the reference
  scans \<open>scan_down\<close> and \<open>scan_up\<close> over a predicate, which other components use as well.
\<close>

section \<open>Reference scans\<close>

primrec scan_down :: "(nat \<Rightarrow> bool) \<Rightarrow> nat \<Rightarrow> nat option" where
  "scan_down P 0 = (if P 0 then Some 0 else None)"
| "scan_down P (Suc i) = (if P (Suc i) then Some (Suc i) else scan_down P i)"

primrec scan_up :: "(nat \<Rightarrow> bool) \<Rightarrow> nat \<Rightarrow> nat \<Rightarrow> nat option" where
  "scan_up P i 0 = None"
| "scan_up P i (Suc n) = (if P i then Some i else scan_up P (Suc i) n)"

lemma scan_down_None: "scan_down P i = None \<longleftrightarrow> (\<forall>j \<le> i. \<not> P j)"
  by (induction i) (auto simp: le_Suc_eq)

lemma scan_down_Some: "scan_down P i = Some r \<longleftrightarrow> r \<le> i \<and> P r \<and> (\<forall>j. r < j \<and> j \<le> i \<longrightarrow> \<not> P j)"
  by (induction i) (auto simp: le_Suc_eq)

lemma scan_up_None: "scan_up P i n = None \<longleftrightarrow> (\<forall>j. i \<le> j \<and> j < i + n \<longrightarrow> \<not> P j)"
proof (induction n arbitrary: i)
  case (Suc n)
  have "(\<forall>j. i \<le> j \<and> j < i + Suc n \<longrightarrow> \<not> P j) \<longleftrightarrow> \<not> P i \<and> (\<forall>j. Suc i \<le> j \<and> j < Suc i + n \<longrightarrow> \<not> P j)"
    by (metis Suc_leD Suc_leI add_Suc add_Suc_right le_eq_less_or_eq less_add_Suc1)
  then show ?case using Suc by simp
qed auto

lemma scan_up_Some:
  "scan_up P i n = Some r \<longleftrightarrow> i \<le> r \<and> r < i + n \<and> P r \<and> (\<forall>j. i \<le> j \<and> j < r \<longrightarrow> \<not> P j)"
proof (induction n arbitrary: i)
  case (Suc n)
  show ?case
  proof (cases "P i")
    case True
    then show ?thesis by (auto simp: less_eq_Suc_le)
  next
    case False
    then have "(i \<le> r \<and> r < i + Suc n \<and> P r \<and> (\<forall>j. i \<le> j \<and> j < r \<longrightarrow> \<not> P j)) \<longleftrightarrow>
        (Suc i \<le> r \<and> r < Suc i + n \<and> P r \<and> (\<forall>j. Suc i \<le> j \<and> j < r \<longrightarrow> \<not> P j))"
      by (metis Suc_leD Suc_leI add_Suc add_Suc_right le_eq_less_or_eq)
    then show ?thesis using False Suc by simp
  qed
qed simp

text \<open>Skipping a block of elements that fail the predicate does not change the result.\<close>

lemma scan_down_skip:
  assumes "\<And>j. k < j \<Longrightarrow> j \<le> i \<Longrightarrow> \<not> P j" and "k \<le> i"
  shows "scan_down P i = scan_down P k"
  using assms by (induction i) (auto simp: le_Suc_eq)

lemma scan_up_skip:
  assumes "\<And>j. i \<le> j \<Longrightarrow> j < i + k \<Longrightarrow> \<not> P j" and "k \<le> n"
  shows "scan_up P i n = scan_up P (i + k) (n - k)"
  using assms
proof (induction k arbitrary: i n)
  case (Suc k)
  then obtain n' where n: "n = Suc n'" by (cases n) auto
  have "scan_up P i n = scan_up P (Suc i) n'" using Suc.prems n by simp
  also have "\<dots> = scan_up P (Suc i + k) (n' - k)" using Suc.prems n by (intro Suc.IH) auto
  finally show ?case using n by simp
qed simp

section \<open>The scalar scans\<close>

definition kNoIndex :: nat where
  "kNoIndex = 2 ^ 64 - 1"

primrec scanDownNonZeroScalar :: "u32 list \<Rightarrow> nat \<Rightarrow> nat" where
  "scanDownNonZeroScalar a 0 = (if a ! 0 \<noteq> 0 then 0 else kNoIndex)"
| "scanDownNonZeroScalar a (Suc i) = (if a ! Suc i \<noteq> 0 then Suc i else scanDownNonZeroScalar a i)"

function scanUpNonZeroScalar :: "u32 list \<Rightarrow> nat \<Rightarrow> nat \<Rightarrow> nat" where
  "scanUpNonZeroScalar a i lst =
     (if i \<le> lst then (if a ! i \<noteq> 0 then i else scanUpNonZeroScalar a (i + 1) lst) else kNoIndex)"
  by pat_completeness auto
termination by (relation "measure (\<lambda>(a, i, lst). Suc lst - i)") auto

declare scanUpNonZeroScalar.simps [simp del]

section \<open>Eight lanes at a time\<close>

definition mm256_loadu_si256 :: "u32 list \<Rightarrow> nat \<Rightarrow> u32 list" where
  "mm256_loadu_si256 a base = map (\<lambda>k. a ! (base + k)) [0..<8]"

definition mm256_cmpeq_epi32 :: "u32 list \<Rightarrow> u32 list \<Rightarrow> u32 list" where
  "mm256_cmpeq_epi32 v w = map2 (\<lambda>x y. if x = y then NOT 0 else 0) v w"

definition mm256_movemask_ps :: "u32 list \<Rightarrow> u32" where
  "mm256_movemask_ps v = horner_sum of_bool 2 (map (\<lambda>x. bit x 31) v)"

definition nz_mask :: "u32 list \<Rightarrow> nat \<Rightarrow> u32" where
  "nz_mask a base =
     (let v = mm256_loadu_si256 a base;
          zmask = mm256_movemask_ps (mm256_cmpeq_epi32 v (replicate 8 0))
      in NOT zmask AND 0xFF)"

function scanDownNonZeroAvx2 :: "u32 list \<Rightarrow> nat \<Rightarrow> nat" where
  "scanDownNonZeroAvx2 a i =
     (if i \<ge> 7 then
        let base = i - 7; nz = nz_mask a base
        in if nz \<noteq> 0 then base + (31 - countl_zero nz)
           else if base = 0 then kNoIndex
           else scanDownNonZeroAvx2 a (base - 1)
      else scanDownNonZeroScalar a i)"
  by pat_completeness auto
termination by (relation "measure snd") auto

function scanUpNonZeroAvx2 :: "u32 list \<Rightarrow> nat \<Rightarrow> nat \<Rightarrow> nat" where
  "scanUpNonZeroAvx2 a i lst =
     (if i + 7 \<le> lst then
        let nz = nz_mask a i
        in if nz \<noteq> 0 then i + countr_zero nz else scanUpNonZeroAvx2 a (i + 8) lst
      else scanUpNonZeroScalar a i lst)"
  by pat_completeness auto
termination by (relation "measure (\<lambda>(a, i, lst). Suc lst - i)") auto

declare scanDownNonZeroAvx2.simps [simp del] scanUpNonZeroAvx2.simps [simp del]

definition scanDownNonZero :: "u32 list \<Rightarrow> nat \<Rightarrow> nat" where
  "scanDownNonZero a start = scanDownNonZeroAvx2 a start"

definition scanUpNonZero :: "u32 list \<Rightarrow> nat \<Rightarrow> nat \<Rightarrow> nat" where
  "scanUpNonZero a start lst = scanUpNonZeroAvx2 a start lst"

section \<open>Correctness\<close>

definition index_or_none :: "nat option \<Rightarrow> nat" where
  "index_or_none r = (case r of None \<Rightarrow> kNoIndex | Some j \<Rightarrow> j)"

lemma index_or_none_simps [simp]: "index_or_none None = kNoIndex" "index_or_none (Some j) = j"
  by (simp_all add: index_or_none_def)

lemma scanDownNonZeroScalar_ref:
  "scanDownNonZeroScalar a i = index_or_none (scan_down (\<lambda>j. a ! j \<noteq> 0) i)"
  by (induction i) auto

lemma scanUpNonZeroScalar_ref:
  "scanUpNonZeroScalar a i lst = index_or_none (scan_up (\<lambda>j. a ! j \<noteq> 0) i (Suc lst - i))"
proof (induction a i lst rule: scanUpNonZeroScalar.induct)
  case (1 a i lst)
  show ?case
  proof (cases "i \<le> lst")
    case True
    then have "Suc lst - i = Suc (Suc lst - (i + 1))" by simp
    then show ?thesis using 1 True by (subst scanUpNonZeroScalar.simps) simp
  next
    case False
    then show ?thesis by (subst scanUpNonZeroScalar.simps) simp
  qed
qed

text \<open>Bit \<open>k\<close> of the mask is set exactly when lane \<open>k\<close> of the block is non-zero.\<close>

lemma bit_nz_mask: "bit (nz_mask a base) k \<longleftrightarrow> k < 8 \<and> a ! (base + k) \<noteq> 0"
proof -
  let ?z = "mm256_movemask_ps (mm256_cmpeq_epi32 (mm256_loadu_si256 a base) (replicate 8 0))"
  have "bit ?z k \<longleftrightarrow> a ! (base + k) = 0" if "k < 8"
    using that by (simp add: mm256_movemask_ps_def mm256_cmpeq_epi32_def mm256_loadu_si256_def bit_horner_sum_bit_word_iff bit_not_iff)
  moreover have "bit (0xFF :: u32) k \<longleftrightarrow> k < 8"
    using bit_mask_iff [of 8 k, where 'a = u32] by (auto simp: mask_eq_exp_minus_1)
  ultimately show ?thesis
    by (auto simp: nz_mask_def Let_def bit_and_iff bit_not_iff dest: bit_imp_le_length)
qed

lemma nz_mask_eq_0: "nz_mask a base = 0 \<longleftrightarrow> (\<forall>k < 8. a ! (base + k) = 0)"
  by (metis bit_0_eq bit_nz_mask bot_apply bot_bool_def word_neq_zero_bit)

lemma scanDownNonZeroAvx2_ref:
  "scanDownNonZeroAvx2 a i = index_or_none (scan_down (\<lambda>j. a ! j \<noteq> 0) i)"
proof (induction a i rule: scanDownNonZeroAvx2.induct)
  case (1 a i)
  show ?case
  proof (cases "i \<ge> 7")
    case False
    then show ?thesis by (subst scanDownNonZeroAvx2.simps) (simp add: scanDownNonZeroScalar_ref)
  next
    case True
    let ?b = "i - 7" and ?P = "\<lambda>j. a ! j \<noteq> 0"
    let ?nz = "nz_mask a ?b"
    show ?thesis
    proof (cases "?nz = 0")
      case nz: False
      let ?l = "31 - countl_zero ?nz"
      from countl_zero_bit [OF nz] have "bit ?nz ?l" "\<forall>k > ?l. \<not> bit ?nz k" by simp_all
      then have l: "?l < 8" "a ! (?b + ?l) \<noteq> 0" "\<forall>k. ?l < k \<and> k < 8 \<longrightarrow> a ! (?b + k) = 0"
        unfolding bit_nz_mask by auto
      have "a ! j = 0" if "?b + ?l < j" "j \<le> i" for j
      proof -
        have "?l < j - ?b \<and> j - ?b < 8" "?b + (j - ?b) = j" using that True by linarith+
        then show ?thesis using l(3) by metis
      qed
      then have "scan_down ?P i = Some (?b + ?l)" using l(1,2) True by (auto simp: scan_down_Some)
      then show ?thesis using True nz by (subst scanDownNonZeroAvx2.simps) (simp add: Let_def)
    next
      case z: True
      then have z8: "\<forall>k < 8. a ! (?b + k) = 0" unfolding nz_mask_eq_0 .
      have zj: "a ! j = 0" if "?b \<le> j" "j \<le> i" for j
        using z8 [rule_format, of "j - ?b"] that True by simp
      show ?thesis
      proof (cases "?b = 0")
        case True
        then have "scan_down ?P i = None" using zj by (auto simp: scan_down_None)
        then show ?thesis using True z \<open>i \<ge> 7\<close> by (subst scanDownNonZeroAvx2.simps) (simp add: Let_def)
      next
        case False
        have "scan_down ?P i = scan_down ?P (?b - 1)" using zj False by (intro scan_down_skip) auto
        moreover have "scanDownNonZeroAvx2 a i = scanDownNonZeroAvx2 a (?b - 1)"
          using z \<open>i \<ge> 7\<close> False by (subst scanDownNonZeroAvx2.simps) (simp add: Let_def)
        ultimately show ?thesis using 1 z \<open>i \<ge> 7\<close> False by simp
      qed
    qed
  qed
qed

lemma scanUpNonZeroAvx2_ref:
  "scanUpNonZeroAvx2 a i lst = index_or_none (scan_up (\<lambda>j. a ! j \<noteq> 0) i (Suc lst - i))"
proof (induction a i lst rule: scanUpNonZeroAvx2.induct)
  case (1 a i lst)
  let ?P = "\<lambda>j. a ! j \<noteq> 0" and ?nz = "nz_mask a i"
  consider "\<not> i + 7 \<le> lst" | "i + 7 \<le> lst" "?nz \<noteq> 0" | "i + 7 \<le> lst" "?nz = 0" by blast
  then show ?case
  proof cases
    case 1
    then show ?thesis by (subst scanUpNonZeroAvx2.simps) (simp add: scanUpNonZeroScalar_ref)
  next
    case 2
    let ?l = "countr_zero ?nz"
    have l: "?l < 8" "a ! (i + ?l) \<noteq> 0" "\<forall>k < ?l. a ! (i + k) = 0"
      using countr_zero_bit [OF 2(2)] unfolding bit_nz_mask by auto
    have "a ! j = 0" if "i \<le> j" "j < i + ?l" for j
      using l(3) [rule_format, of "j - i"] that by simp
    then have "scan_up ?P i (Suc lst - i) = Some (i + ?l)" using l(1,2) 2 by (auto simp: scan_up_Some)
    then show ?thesis using 2 by (subst scanUpNonZeroAvx2.simps) (simp add: Let_def)
  next
    case 3
    then have z8: "\<forall>k < 8. a ! (i + k) = 0" by (simp add: nz_mask_eq_0)
    have "a ! j = 0" if "i \<le> j" "j < i + 8" for j
      using z8 [rule_format, of "j - i"] that by simp
    then have "scan_up ?P i (Suc lst - i) = scan_up ?P (i + 8) (Suc lst - i - 8)"
      using 3 by (intro scan_up_skip) auto
    moreover have "scanUpNonZeroAvx2 a i lst = scanUpNonZeroAvx2 a (i + 8) lst"
      using 3 by (subst scanUpNonZeroAvx2.simps) (simp add: Let_def)
    ultimately show ?thesis using "1" 3 by simp
  qed
qed

text \<open>
  The vectorised scans return what the scalar scans return, for every array, start and end
  index: eight lanes per step skip exactly the zero elements.
\<close>

theorem scan_avx2_equals_scalar:
  "scanDownNonZeroAvx2 a start = scanDownNonZeroScalar a start \<and>
   scanUpNonZeroAvx2 a start lst = scanUpNonZeroScalar a start lst"
  by (simp add: scanDownNonZeroAvx2_ref scanDownNonZeroScalar_ref scanUpNonZeroAvx2_ref scanUpNonZeroScalar_ref)

end
