(* ===== verification/LevelBits.thy ===== *)
theory LevelBits
  imports Scan
begin

text \<open>
  The two-level occupancy bitmap of \<^verbatim>\<open>dut/LevelBits.hpp\<close>: one bit per price level in \<open>lb_l0\<close>,
  one summary bit per 64-bit word of it in \<open>lb_l1\<close>. The lemmas relate it to the plain set of
  levels: updates change one member, and the neighbour searches return what a linear scan over
  the levels returns.
\<close>

record LevelBits =
  lb_l0 :: "u64 list"
  lb_l1 :: "u64 list"

definition LevelBits_kNone :: nat where
  "LevelBits_kNone = 2 ^ 64 - 1"

definition LevelBits_reset :: "nat \<Rightarrow> LevelBits \<Rightarrow> LevelBits" where
  "LevelBits_reset ticks s =
     (let w0 = (ticks + 63) div 64; w1 = (w0 + 63) div 64
      in s\<lparr>lb_l0 := replicate (if w0 = 0 then 1 else w0) 0, lb_l1 := replicate (if w1 = 0 then 1 else w1) 0\<rparr>)"

definition LevelBits_clearAll :: "LevelBits \<Rightarrow> LevelBits" where
  "LevelBits_clearAll s = s\<lparr>lb_l0 := map (\<lambda>_. 0) (lb_l0 s), lb_l1 := map (\<lambda>_. 0) (lb_l1 s)\<rparr>"

definition LevelBits_set :: "nat \<Rightarrow> LevelBits \<Rightarrow> LevelBits" where
  "LevelBits_set i s =
     s\<lparr>lb_l0 := (lb_l0 s)[drop_bit 6 i := lb_l0 s ! drop_bit 6 i OR push_bit (i AND 63) 1],
       lb_l1 := (lb_l1 s)[drop_bit 12 i := lb_l1 s ! drop_bit 12 i OR push_bit (drop_bit 6 i AND 63) 1]\<rparr>"

definition LevelBits_clear :: "nat \<Rightarrow> LevelBits \<Rightarrow> LevelBits" where
  "LevelBits_clear i s =
     (let w = drop_bit 6 i;
          x = lb_l0 s ! w AND NOT (push_bit (i AND 63) 1);
          s' = s\<lparr>lb_l0 := (lb_l0 s)[w := x]\<rparr>
      in if x = 0 then
           s'\<lparr>lb_l1 := (lb_l1 s)[drop_bit 6 w := lb_l1 s ! drop_bit 6 w AND NOT (push_bit (w AND 63) 1)]\<rparr>
         else s')"

function LevelBits_prev_loop :: "LevelBits \<Rightarrow> nat \<Rightarrow> u64 \<Rightarrow> nat" where
  "LevelBits_prev_loop s w1 m1 =
     (if m1 \<noteq> 0 then
        let ww = push_bit 6 w1 + 63 - countl_zero m1
        in push_bit 6 ww + 63 - countl_zero (lb_l0 s ! ww)
      else if w1 = 0 then LevelBits_kNone
      else LevelBits_prev_loop s (w1 - 1) (lb_l1 s ! (w1 - 1)))"
  by pat_completeness auto
termination by (relation "measure (\<lambda>(s, w1, m1). w1)") auto

definition LevelBits_prev :: "LevelBits \<Rightarrow> nat \<Rightarrow> nat" where
  "LevelBits_prev s i =
     (let w = drop_bit 6 i; b = i AND 63;
          m = lb_l0 s ! w AND (if b = 63 then NOT 0 else push_bit (b + 1) 1 - 1)
      in if m \<noteq> 0 then push_bit 6 w + 63 - countl_zero m
         else
           let w1 = drop_bit 6 w; m1 = lb_l1 s ! w1 AND (push_bit (w AND 63) 1 - 1)
           in LevelBits_prev_loop s w1 m1)"

function LevelBits_next_loop :: "LevelBits \<Rightarrow> nat \<Rightarrow> u64 \<Rightarrow> nat" where
  "LevelBits_next_loop s w1 m1 =
     (if m1 \<noteq> 0 then
        let ww = push_bit 6 w1 + countr_zero m1
        in push_bit 6 ww + countr_zero (lb_l0 s ! ww)
      else if w1 + 1 \<ge> length (lb_l1 s) then LevelBits_kNone
      else LevelBits_next_loop s (w1 + 1) (lb_l1 s ! (w1 + 1)))"
  by pat_completeness auto
termination by (relation "measure (\<lambda>(s, w1, m1). length (lb_l1 s) - w1)") auto

definition LevelBits_next :: "LevelBits \<Rightarrow> nat \<Rightarrow> nat" where
  "LevelBits_next s i =
     (let w = drop_bit 6 i; b = i AND 63;
          m = lb_l0 s ! w AND push_bit b (NOT 0)
      in if m \<noteq> 0 then push_bit 6 w + countr_zero m
         else
           let w1 = drop_bit 6 w; b1 = w AND 63;
               m1 = (if b1 = 63 then 0 else lb_l1 s ! w1 AND push_bit (b1 + 1) (NOT 0))
           in LevelBits_next_loop s w1 m1)"

declare LevelBits_prev_loop.simps [simp del] LevelBits_next_loop.simps [simp del]

section \<open>The set of levels a bitmap stands for\<close>

definition has_level :: "LevelBits \<Rightarrow> nat \<Rightarrow> bool" where
  "has_level s i \<longleftrightarrow> i div 64 < length (lb_l0 s) \<and> bit (lb_l0 s ! (i div 64)) (i mod 64)"

definition has_word :: "LevelBits \<Rightarrow> nat \<Rightarrow> bool" where
  "has_word s w \<longleftrightarrow> w < length (lb_l0 s) \<and> lb_l0 s ! w \<noteq> 0"

definition lb_inv :: "LevelBits \<Rightarrow> bool" where
  "lb_inv s \<longleftrightarrow> lb_l0 s \<noteq> [] \<and> length (lb_l0 s) \<le> 64 * length (lb_l1 s) \<and>
     (\<forall>w < 64 * length (lb_l1 s). bit (lb_l1 s ! (w div 64)) (w mod 64) \<longleftrightarrow> has_word s w)"

lemma idx_simps [simp]:
  "drop_bit 6 i = i div 64" "drop_bit 12 i = i div 64 div 64" "i AND 63 = i mod 64" "push_bit 6 i = i * 64"
  for i :: nat
  using nat_and_mask_mod [of 63 6 i] by (simp_all add: drop_bit_eq_div push_bit_eq_mult flip: div_mult2_eq)

lemma bit_one_u64:
  "bit (push_bit k 1 :: u64) n \<longleftrightarrow> k = n \<and> n < 64" "bit (2 ^ k :: u64) n \<longleftrightarrow> k = n \<and> n < 64"
  by (auto simp: bit_simps)

lemma has_word_iff: "has_word s w \<longleftrightarrow> (\<exists>b < 64. has_level s (64 * w + b))"
proof
  assume "has_word s w"
  then obtain b where "b < 64" "bit (lb_l0 s ! w) b" "w < length (lb_l0 s)"
    unfolding has_word_def using word_neq_zero_bit [of "lb_l0 s ! w"] by auto
  then show "\<exists>b < 64. has_level s (64 * w + b)" by (intro exI [of _ b]) (simp add: has_level_def)
next
  assume "\<exists>b < 64. has_level s (64 * w + b)"
  then show "has_word s w" by (auto simp: has_level_def has_word_def)
qed

lemma has_level_has_word: "has_level s i \<Longrightarrow> has_word s (i div 64)"
  by (auto simp: has_level_def has_word_def)

lemma has_level_bound: "has_level s i \<Longrightarrow> i < 64 * length (lb_l0 s)"
  by (simp add: has_level_def less_mult_imp_div_less) linarith

section \<open>Updates\<close>

lemma lb_inv_reset: "lb_inv (LevelBits_reset ticks s)"
  by (auto simp: lb_inv_def LevelBits_reset_def Let_def has_word_def less_mult_imp_div_less)

lemma has_level_reset: "\<not> has_level (LevelBits_reset ticks s) i"
  by (simp add: has_level_def LevelBits_reset_def Let_def)

lemma capacity_reset: "i < ticks \<Longrightarrow> i < 64 * length (lb_l0 (LevelBits_reset ticks s))"
  by (simp add: LevelBits_reset_def Let_def) linarith

lemma lb_inv_clearAll: "lb_inv s \<Longrightarrow> lb_inv (LevelBits_clearAll s)"
  by (auto simp: lb_inv_def LevelBits_clearAll_def has_word_def less_mult_imp_div_less)

lemma has_level_clearAll: "\<not> has_level (LevelBits_clearAll s) i"
  by (simp add: has_level_def LevelBits_clearAll_def)

lemma length_set [simp]:
  "length (lb_l0 (LevelBits_set i s)) = length (lb_l0 s)" "length (lb_l1 (LevelBits_set i s)) = length (lb_l1 s)"
  by (simp_all add: LevelBits_set_def)

lemma length_clear [simp]:
  "length (lb_l0 (LevelBits_clear i s)) = length (lb_l0 s)" "length (lb_l1 (LevelBits_clear i s)) = length (lb_l1 s)"
  by (simp_all add: LevelBits_clear_def Let_def)

lemma level_eq_iff: "i = j \<longleftrightarrow> i div 64 = j div 64 \<and> i mod 64 = j mod 64" for i j :: nat
  by (metis div_mult_mod_eq)

lemma has_level_set:
  assumes "i < 64 * length (lb_l0 s)"
  shows "has_level (LevelBits_set i s) j \<longleftrightarrow> j = i \<or> has_level s j"
  using assms unfolding has_level_def level_eq_iff [of j i]
  by (auto simp: LevelBits_set_def nth_list_update bit_or_iff bit_one_u64 less_mult_imp_div_less)

lemma has_level_clear:
  assumes "i < 64 * length (lb_l0 s)"
  shows "has_level (LevelBits_clear i s) j \<longleftrightarrow> j \<noteq> i \<and> has_level s j"
proof -
  have l0: "lb_l0 (LevelBits_clear i s) = (lb_l0 s)[i div 64 := lb_l0 s ! (i div 64) AND NOT (push_bit (i mod 64) 1)]"
    by (simp add: LevelBits_clear_def Let_def)
  show ?thesis
    using assms unfolding has_level_def level_eq_iff [of j i] l0
    by (auto simp: nth_list_update bit_and_iff bit_not_iff bit_one_u64 less_mult_imp_div_less)
qed

lemma lb_inv_set:
  assumes "lb_inv s" and "i < 64 * length (lb_l0 s)"
  shows "lb_inv (LevelBits_set i s)"
proof -
  have l1: "lb_l1 (LevelBits_set i s) = (lb_l1 s)[i div 64 div 64 := lb_l1 s ! (i div 64 div 64) OR push_bit (i div 64 mod 64) 1]"
    by (simp add: LevelBits_set_def)
  have w: "has_word (LevelBits_set i s) v \<longleftrightarrow> v = i div 64 \<or> has_word s v" for v
  proof -
    have "lb_l0 s ! (i div 64) OR push_bit (i mod 64) 1 \<noteq> 0"
      by (metis bit_0_eq bit_one_u64 bit_or_iff bot_apply bot_bool_def mod_less_divisor zero_less_numeral)
    then show ?thesis
      using assms(2) by (auto simp: has_word_def LevelBits_set_def nth_list_update less_mult_imp_div_less)
  qed
  have r: "i div 64 div 64 < length (lb_l1 s)"
    using assms by (auto simp: lb_inv_def less_mult_imp_div_less)
  show ?thesis
    using assms r unfolding lb_inv_def w level_eq_iff [of _ "i div 64"]
    by (auto simp: l1 nth_list_update bit_or_iff bit_one_u64 less_mult_imp_div_less LevelBits_set_def)
qed

lemma lb_inv_clear:
  assumes "lb_inv s" and "i < 64 * length (lb_l0 s)"
  shows "lb_inv (LevelBits_clear i s)"
proof -
  let ?w = "i div 64"
  let ?x = "lb_l0 s ! ?w AND NOT (push_bit (i mod 64) 1)"
  have l1: "lb_l1 (LevelBits_clear i s) =
      (if ?x = 0 then (lb_l1 s)[?w div 64 := lb_l1 s ! (?w div 64) AND NOT (push_bit (?w mod 64) 1)] else lb_l1 s)"
    by (simp add: LevelBits_clear_def Let_def)
  have w: "has_word (LevelBits_clear i s) v \<longleftrightarrow> (if v = ?w then ?x \<noteq> 0 else has_word s v)" for v
    using assms(2) by (auto simp: has_word_def LevelBits_clear_def Let_def nth_list_update less_mult_imp_div_less)
  have r: "?w div 64 < length (lb_l1 s)" using assms by (auto simp: lb_inv_def less_mult_imp_div_less)
  have x: "?x \<noteq> 0 \<Longrightarrow> has_word s ?w"
    using assms(2) by (auto simp: has_word_def less_mult_imp_div_less)
  have ne: "lb_l0 (LevelBits_clear i s) \<noteq> []" "length (lb_l0 s) \<le> 64 * length (lb_l1 s)"
    using assms(1) length_clear(1) [of i s] by (auto simp: lb_inv_def simp del: length_clear)
  have b: "bit (lb_l1 (LevelBits_clear i s) ! (v div 64)) (v mod 64) \<longleftrightarrow> has_word (LevelBits_clear i s) v"
    if v: "v < 64 * length (lb_l1 s)" for v
  proof -
    have "bit (lb_l1 s ! (v div 64)) (v mod 64) \<longleftrightarrow> has_word s v" using assms(1) v by (simp add: lb_inv_def)
    then show ?thesis
      using r x v unfolding w l1
      by (cases "v = ?w") (auto simp: level_eq_iff [of v ?w] nth_list_update bit_and_iff bit_not_iff bit_one_u64
          less_mult_imp_div_less)
  qed
  show ?thesis using ne b by (simp add: lb_inv_def)
qed

section \<open>Neighbour searches\<close>

lemma high_bit: "(m :: u64) \<noteq> 0 \<Longrightarrow> countl_zero m < 64 \<and> bit m (63 - countl_zero m) \<and> (\<forall>k > 63 - countl_zero m. \<not> bit m k)"
  using countl_zero_bit [of m] by simp

lemma low_bit: "(m :: u64) \<noteq> 0 \<Longrightarrow> countr_zero m < 64 \<and> bit m (countr_zero m) \<and> (\<forall>k < countr_zero m. \<not> bit m k)"
  using countr_zero_bit [of m] by simp

lemma summary_bit:
  "lb_inv s \<Longrightarrow> k < length (lb_l1 s) \<Longrightarrow> b < 64 \<Longrightarrow> bit (lb_l1 s ! k) b \<longleftrightarrow> has_word s (64 * k + b)"
proof -
  assume a: "lb_inv s" "k < length (lb_l1 s)" "b < 64"
  then have "64 * k + b < 64 * length (lb_l1 s)" by linarith
  then have "bit (lb_l1 s ! ((64 * k + b) div 64)) ((64 * k + b) mod 64) \<longleftrightarrow> has_word s (64 * k + b)"
    using a(1) unfolding lb_inv_def by blast
  then show ?thesis using a(3) by simp
qed

text \<open>
  The loop over the summary words: \<open>m1\<close> holds the words of block \<open>w1\<close> still to be searched, and
  all words below \<open>n\<close> that hold a level are in block \<open>w1\<close> or below.
\<close>

lemma prev_loop_spec:
  assumes "lb_inv s" and "w1 < length (lb_l1 s)"
    and "\<And>b. b < 64 \<Longrightarrow> bit m1 b \<longleftrightarrow> has_word s (64 * w1 + b) \<and> 64 * w1 + b < n"
    and "64 * w1 \<le> n" and "n \<le> 64 * (w1 + 1)"
  shows "(LevelBits_prev_loop s w1 m1 = LevelBits_kNone \<and> (\<forall>v < n. \<not> has_word s v)) \<or>
    (\<exists>ww < n. has_word s ww \<and> (\<forall>v. ww < v \<and> v < n \<longrightarrow> \<not> has_word s v) \<and>
       LevelBits_prev_loop s w1 m1 = 64 * ww + (63 - countl_zero (lb_l0 s ! ww)))"
  using assms
proof (induction w1 arbitrary: m1 n rule: less_induct)
  case (less w1)
  have zero: "\<not> has_word s v" if "m1 = 0" "64 * w1 \<le> v" "v < n" for v
  proof -
    have "v - 64 * w1 < 64" "64 * w1 + (v - 64 * w1) = v" using that(2,3) less.prems(5) by auto
    then show ?thesis using less.prems(3) [of "v - 64 * w1"] that by simp
  qed
  consider "m1 \<noteq> 0" | "m1 = 0" "w1 = 0" | "m1 = 0" "w1 \<noteq> 0" by blast
  then show ?case
  proof cases
    case 1
    let ?h = "63 - countl_zero m1"
    let ?ww = "64 * w1 + ?h"
    have h: "countl_zero m1 < 64" "bit m1 ?h" "\<forall>k > ?h. \<not> bit m1 k" using high_bit [OF 1] by auto
    have hw: "has_word s ?ww" "?ww < n" using less.prems(3) [of ?h] h by auto
    have none: "\<not> has_word s v" if "?ww < v" "v < n" for v
    proof -
      have "v - 64 * w1 < 64" "64 * w1 + (v - 64 * w1) = v" "v - 64 * w1 > ?h" using that less.prems(5) by auto
      then show ?thesis using less.prems(3) [of "v - 64 * w1"] h(3) that by auto
    qed
    have "lb_l0 s ! ?ww \<noteq> 0" using hw by (simp add: has_word_def)
    then have "countl_zero (lb_l0 s ! ?ww) < 64" using high_bit by blast
    moreover have ww: "push_bit 6 w1 + 63 - countl_zero m1 = ?ww" using h(1) by simp
    ultimately have "LevelBits_prev_loop s w1 m1 = 64 * ?ww + (63 - countl_zero (lb_l0 s ! ?ww))"
      using 1 unfolding LevelBits_prev_loop.simps [of s w1 m1] Let_def ww by simp
    then show ?thesis using hw none by blast
  next
    case 2
    then show ?thesis using zero by (simp add: LevelBits_prev_loop.simps)
  next
    case 3
    let ?m = "lb_l1 s ! (w1 - 1)" and ?n = "64 * w1"
    have b: "bit ?m b \<longleftrightarrow> has_word s (64 * (w1 - 1) + b) \<and> 64 * (w1 - 1) + b < ?n" if "b < 64" for b
    proof -
      have "64 * (w1 - 1) + b < ?n" "w1 - 1 < length (lb_l1 s)" using that 3(2) less.prems(2) by linarith+
      then show ?thesis using summary_bit [OF less.prems(1) _ that] by simp
    qed
    have "LevelBits_prev_loop s w1 m1 = LevelBits_prev_loop s (w1 - 1) ?m"
      using 3 by (subst LevelBits_prev_loop.simps) simp
    moreover have "w1 - 1 < w1" "w1 - 1 < length (lb_l1 s)" "64 * (w1 - 1) \<le> ?n" "?n \<le> 64 * (w1 - 1 + 1)"
      using 3(2) less.prems(2) by simp_all
    note ih = less.IH [OF this(1) less.prems(1) this(2) b this(3,4)]
    have z: "\<not> has_word s v" if "?n \<le> v" "v < n" for v by (rule zero [OF 3(1) that])
    have up: "(\<forall>v < n. \<not> has_word s v) \<longleftrightarrow> (\<forall>v < ?n. \<not> has_word s v)"
      using z less.prems(4) by (meson not_le order_less_le_trans)
    have up2: "(\<forall>v. ww < v \<and> v < n \<longrightarrow> \<not> has_word s v) \<longleftrightarrow> (\<forall>v. ww < v \<and> v < ?n \<longrightarrow> \<not> has_word s v)" for ww
      using z less.prems(4) by (meson not_le order_less_le_trans)
    have "ww < ?n \<Longrightarrow> ww < n" for ww using less.prems(4) by linarith
    then show ?thesis using ih unfolding calculation up up2 by meson
  qed
qed

lemma low_mask_bit:
  "k < 64 \<Longrightarrow> bit ((if b = 63 then NOT 0 else push_bit (b + 1) 1 - 1) :: u64) k \<longleftrightarrow> k \<le> b" if "b < 64"
proof (cases "b = 63")
  case False
  assume k: "k < 64"
  have "(push_bit (b + 1) 1 - 1 :: u64) = mask (b + 1)" by (simp add: mask_eq_exp_minus_1)
  then show ?thesis using False k by (simp only: if_False) (auto simp: bit_mask_iff)
qed (use that in \<open>simp add: bit_not_iff\<close>)

lemma below_mask_bit: "bit (push_bit b 1 - 1 :: u64) k \<longleftrightarrow> k < b \<and> k < 64"
proof -
  have "(push_bit b 1 - 1 :: u64) = mask b" by (simp add: mask_eq_exp_minus_1)
  then show ?thesis by (simp only:) (auto simp: bit_mask_iff)
qed

lemma word_top_level:
  assumes "has_word s w" and "countl_zero (lb_l0 s ! w) = c"
  shows "has_level s (64 * w + (63 - c)) \<and> (\<forall>j. j div 64 = w \<longrightarrow> 64 * w + (63 - c) < j \<longrightarrow> \<not> has_level s j)"
proof -
  have "lb_l0 s ! w \<noteq> 0" "w < length (lb_l0 s)" using assms(1) by (auto simp: has_word_def)
  with high_bit [of "lb_l0 s ! w"] assms(2)
  have h: "bit (lb_l0 s ! w) (63 - c)" "\<forall>k > 63 - c. \<not> bit (lb_l0 s ! w) k" "w < length (lb_l0 s)" by auto
  have "\<not> has_level s j" if "j div 64 = w" "64 * w + (63 - c) < j" for j
  proof -
    have "63 - c < j mod 64" using that by (metis add_less_cancel_left mult_div_mod_eq)
    then show ?thesis using h(2) that(1) by (simp add: has_level_def)
  qed
  then show ?thesis using h by (simp add: has_level_def)
qed

lemma prev_ref:
  assumes "lb_inv s" and "i < 64 * length (lb_l0 s)"
  shows "LevelBits_prev s i = (case scan_down (has_level s) i of None \<Rightarrow> LevelBits_kNone | Some j \<Rightarrow> j)"
proof -
  define w b where "w = i div 64" and "b = i mod 64"
  define m where "m = lb_l0 s ! w AND (if b = 63 then NOT 0 else push_bit (b + 1) 1 - 1)"
  define m1 where "m1 = lb_l1 s ! (w div 64) AND (push_bit (w mod 64) 1 - 1)"
  have pr: "LevelBits_prev s i = (if m \<noteq> 0 then w * 64 + 63 - countl_zero m else LevelBits_prev_loop s (w div 64) m1)"
    unfolding LevelBits_prev_def Let_def idx_simps m_def m1_def w_def b_def ..
  have w: "w < length (lb_l0 s)" using assms(2) by (simp add: w_def less_mult_imp_div_less)
  have i: "i = 64 * w + b" "b < 64" by (simp_all add: w_def b_def)
  have m: "bit m k \<longleftrightarrow> has_level s (64 * w + k) \<and> k \<le> b" if "k < 64" for k
    using that w i(2) low_mask_bit [of b k] by (simp only: m_def bit_and_iff) (simp add: has_level_def)
  show ?thesis
  proof (cases "m = 0")
    case False
    define h where "h = 63 - countl_zero m"
    have h: "countl_zero m < 64" "bit m h" "\<forall>k > h. \<not> bit m k" "h < 64" using high_bit [OF False] by (auto simp: h_def)
    have lv: "has_level s (64 * w + h)" "h \<le> b" using m [of h] h by auto
    have "\<not> has_level s j" if "64 * w + h < j" "j \<le> i" for j
    proof -
      have "64 * w + (j - 64 * w) = j" "j - 64 * w < 64" "j - 64 * w \<le> b" "h < j - 64 * w" using that i by linarith+
      then show ?thesis using m [of "j - 64 * w"] h(3) by auto
    qed
    then have "scan_down (has_level s) i = Some (64 * w + h)" using lv i by (simp add: scan_down_Some)
    then show ?thesis using False h(1) pr by (simp add: h_def)
  next
    case True
    have r: "w div 64 < length (lb_l1 s)" using w assms(1) by (auto simp: lb_inv_def less_mult_imp_div_less)
    have m1: "bit m1 k \<longleftrightarrow> has_word s (64 * (w div 64) + k) \<and> 64 * (w div 64) + k < w" if "k < 64" for k
    proof -
      have "64 * (w div 64) + k < w \<longleftrightarrow> k < w mod 64" by (metis add_less_cancel_left mult_div_mod_eq)
      then show ?thesis
        using summary_bit [OF assms(1) r that] that by (simp only: m1_def bit_and_iff below_mask_bit) blast
    qed
    have here: "\<not> has_level s j" if "64 * w \<le> j" "j \<le> i" for j
    proof -
      have "64 * w + (j - 64 * w) = j" "j - 64 * w < 64" "j - 64 * w \<le> b" using that i by linarith+
      then show ?thesis using m [of "j - 64 * w"] True by auto
    qed
    have "64 * (w div 64) \<le> w" "w \<le> 64 * (w div 64 + 1)" by simp_all
    from prev_loop_spec [OF assms(1) r m1 this]
    consider "LevelBits_prev_loop s (w div 64) m1 = LevelBits_kNone" "\<forall>v < w. \<not> has_word s v"
      | ww where "ww < w" "has_word s ww" "\<forall>v. ww < v \<and> v < w \<longrightarrow> \<not> has_word s v"
          "LevelBits_prev_loop s (w div 64) m1 = 64 * ww + (63 - countl_zero (lb_l0 s ! ww))"
      by blast
    then show ?thesis
    proof cases
      case 1
      have "\<not> has_level s j" if "j \<le> i" for j
      proof (cases "64 * w \<le> j")
        case False
        then have "j div 64 < w" by linarith
        then show ?thesis using 1(2) has_level_has_word by blast
      qed (use here that in blast)
      then have "scan_down (has_level s) i = None" by (simp add: scan_down_None)
      then show ?thesis using 1 True pr by simp
    next
      case 2
      define c where "c = countl_zero (lb_l0 s ! ww)"
      have top: "has_level s (64 * ww + (63 - c))" "\<And>j. j div 64 = ww \<Longrightarrow> 64 * ww + (63 - c) < j \<Longrightarrow> \<not> has_level s j"
        using word_top_level [OF 2(2) c_def [symmetric]] by blast+
      have "\<not> has_level s j" if "64 * ww + (63 - c) < j" "j \<le> i" for j
      proof -
        have "ww \<le> j div 64" "64 * w \<le> j \<or> j div 64 < w" using that(1) by auto
        then consider "64 * w \<le> j" | "j div 64 = ww" | "ww < j div 64" "j div 64 < w" by linarith
        then show ?thesis using here that top(2) 2(3) has_level_has_word by cases blast+
      qed
      moreover have "64 * ww + (63 - c) \<le> i" using 2(1) i by linarith
      ultimately have "scan_down (has_level s) i = Some (64 * ww + (63 - c))" using top(1) by (simp add: scan_down_Some)
      then show ?thesis using 2(4) True pr by (simp add: c_def)
    qed
  qed
qed

text \<open>The upward search, with all words from \<open>n\<close> on that hold a level in block \<open>w1\<close> or above.\<close>

lemma next_loop_spec:
  assumes "lb_inv s" and "w1 < length (lb_l1 s)"
    and "\<And>b. b < 64 \<Longrightarrow> bit m1 b \<longleftrightarrow> has_word s (64 * w1 + b) \<and> n \<le> 64 * w1 + b"
    and "64 * w1 \<le> n" and "n \<le> 64 * (w1 + 1)"
  shows "(LevelBits_next_loop s w1 m1 = LevelBits_kNone \<and> (\<forall>v \<ge> n. \<not> has_word s v)) \<or>
    (\<exists>ww \<ge> n. has_word s ww \<and> (\<forall>v. n \<le> v \<and> v < ww \<longrightarrow> \<not> has_word s v) \<and>
       LevelBits_next_loop s w1 m1 = 64 * ww + countr_zero (lb_l0 s ! ww))"
  using assms
proof (induction "length (lb_l1 s) - w1" arbitrary: w1 m1 n rule: less_induct)
  case less
  have zero: "\<not> has_word s v" if "m1 = 0" "n \<le> v" "v < 64 * (w1 + 1)" for v
  proof -
    have "v - 64 * w1 < 64" "64 * w1 + (v - 64 * w1) = v" using that(2,3) less.prems(4) by auto
    then show ?thesis using less.prems(3) [of "v - 64 * w1"] that by simp
  qed
  consider "m1 \<noteq> 0" | "m1 = 0" "w1 + 1 \<ge> length (lb_l1 s)" | "m1 = 0" "w1 + 1 < length (lb_l1 s)" by linarith
  then show ?case
  proof cases
    case 1
    let ?h = "countr_zero m1"
    let ?ww = "64 * w1 + ?h"
    have h: "?h < 64" "bit m1 ?h" "\<forall>k < ?h. \<not> bit m1 k" using low_bit [OF 1] by auto
    have hw: "has_word s ?ww" "n \<le> ?ww" using less.prems(3) [of ?h] h by auto
    have none: "\<not> has_word s v" if "n \<le> v" "v < ?ww" for v
    proof -
      have "v - 64 * w1 < 64" "64 * w1 + (v - 64 * w1) = v" "v - 64 * w1 < ?h" using that less.prems(4) h(1) by auto
      then show ?thesis using less.prems(3) [of "v - 64 * w1"] h(3) that by auto
    qed
    have "LevelBits_next_loop s w1 m1 = 64 * ?ww + countr_zero (lb_l0 s ! ?ww)"
      using 1 by (subst LevelBits_next_loop.simps) (simp add: Let_def mult.commute)
    then show ?thesis using hw none by blast
  next
    case 2
    have "length (lb_l0 s) \<le> 64 * length (lb_l1 s)" using less.prems(1) by (simp add: lb_inv_def)
    then have "\<not> has_word s v" if "n \<le> v" for v
      using zero [OF 2(1) that] 2(2) by (cases "v < 64 * (w1 + 1)") (auto simp: has_word_def)
    then show ?thesis using 2 by (simp add: LevelBits_next_loop.simps)
  next
    case 3
    let ?m = "lb_l1 s ! (w1 + 1)" and ?n = "64 * (w1 + 1)"
    have b: "bit ?m b \<longleftrightarrow> has_word s (64 * (w1 + 1) + b) \<and> ?n \<le> 64 * (w1 + 1) + b" if "b < 64" for b
      using summary_bit [OF less.prems(1) 3(2) that] by simp
    have "LevelBits_next_loop s w1 m1 = LevelBits_next_loop s (w1 + 1) ?m"
      using 3 by (subst LevelBits_next_loop.simps) simp
    moreover have "length (lb_l1 s) - (w1 + 1) < length (lb_l1 s) - w1" "64 * (w1 + 1) \<le> ?n" "?n \<le> 64 * (w1 + 1 + 1)"
      using 3(2) by simp_all
    note ih = less.hyps [OF this(1) less.prems(1) 3(2) b this(2,3)]
    have z: "\<not> has_word s v" if "n \<le> v" "v < ?n" for v by (rule zero [OF 3(1) that])
    have up: "(\<forall>v \<ge> n. \<not> has_word s v) \<longleftrightarrow> (\<forall>v \<ge> ?n. \<not> has_word s v)"
      using z less.prems(5) by (meson not_le order_trans)
    have up2: "(\<forall>v. n \<le> v \<and> v < ww \<longrightarrow> \<not> has_word s v) \<longleftrightarrow> (\<forall>v. ?n \<le> v \<and> v < ww \<longrightarrow> \<not> has_word s v)" for ww
      using z less.prems(5) by (meson not_le order_trans)
    have "ww \<ge> ?n \<Longrightarrow> ww \<ge> n" for ww using less.prems(5) by (rule order_trans)
    then show ?thesis using ih unfolding calculation up up2 by meson
  qed
qed

lemma above_mask_bit: "bit (push_bit b (NOT 0) :: u64) k \<longleftrightarrow> b \<le> k \<and> k < 64"
  by (auto simp: bit_push_bit_iff bit_not_iff bit_mask_iff possible_bit_word)

lemma word_bottom_level:
  assumes "has_word s w" and "countr_zero (lb_l0 s ! w) = c"
  shows "c < 64 \<and> has_level s (64 * w + c) \<and> (\<forall>j. j div 64 = w \<longrightarrow> j < 64 * w + c \<longrightarrow> \<not> has_level s j)"
proof -
  have "lb_l0 s ! w \<noteq> 0" "w < length (lb_l0 s)" using assms(1) by (auto simp: has_word_def)
  with low_bit [of "lb_l0 s ! w"] assms(2)
  have h: "c < 64" "bit (lb_l0 s ! w) c" "\<forall>k < c. \<not> bit (lb_l0 s ! w) k" "w < length (lb_l0 s)" by auto
  have "\<not> has_level s j" if "j div 64 = w" "j < 64 * w + c" for j
  proof -
    have "j mod 64 < c" using that by (metis add_less_cancel_left mult_div_mod_eq)
    then show ?thesis using h(3) that(1) by (simp add: has_level_def)
  qed
  then show ?thesis using h by (simp add: has_level_def)
qed

lemma next_ref:
  assumes "lb_inv s" and "i < 64 * length (lb_l0 s)"
  shows "LevelBits_next s i =
    (case scan_up (has_level s) i (64 * length (lb_l0 s) - i) of None \<Rightarrow> LevelBits_kNone | Some j \<Rightarrow> j)"
proof -
  define w b where "w = i div 64" and "b = i mod 64"
  define m where "m = lb_l0 s ! w AND push_bit b (NOT 0)"
  define m1 where "m1 = (if w mod 64 = 63 then 0 else lb_l1 s ! (w div 64) AND push_bit (w mod 64 + 1) (NOT 0))"
  have pr: "LevelBits_next s i = (if m \<noteq> 0 then w * 64 + countr_zero m else LevelBits_next_loop s (w div 64) m1)"
    unfolding LevelBits_next_def Let_def idx_simps m_def m1_def w_def b_def ..
  have w: "w < length (lb_l0 s)" using assms(2) by (simp add: w_def less_mult_imp_div_less)
  have i: "i = 64 * w + b" "b < 64" by (simp_all add: w_def b_def)
  have su: "scan_up (has_level s) i (64 * length (lb_l0 s) - i) = Some j"
    if "has_level s j" "i \<le> j" "\<And>k. i \<le> k \<Longrightarrow> k < j \<Longrightarrow> \<not> has_level s k" for j
    using that has_level_bound [OF that(1)] assms(2) by (simp add: scan_up_Some)
  have m: "bit m k \<longleftrightarrow> has_level s (64 * w + k) \<and> b \<le> k" if "k < 64" for k
    using that w above_mask_bit [of b k] by (simp only: m_def bit_and_iff) (simp add: has_level_def)
  show ?thesis
  proof (cases "m = 0")
    case False
    define h where "h = countr_zero m"
    have h: "h < 64" "bit m h" "\<forall>k < h. \<not> bit m k" using low_bit [OF False] by (auto simp: h_def)
    have lv: "has_level s (64 * w + h)" "b \<le> h" using m [of h] h by auto
    have "\<not> has_level s j" if "i \<le> j" "j < 64 * w + h" for j
    proof -
      have "64 * w + (j - 64 * w) = j" "j - 64 * w < 64" "b \<le> j - 64 * w" "j - 64 * w < h" using that i h(1) by linarith+
      then show ?thesis using m [of "j - 64 * w"] h(3) by auto
    qed
    then show ?thesis using su [OF lv(1)] lv(2) False pr i by (simp add: h_def)
  next
    case True
    have r: "w div 64 < length (lb_l1 s)" using w assms(1) by (auto simp: lb_inv_def less_mult_imp_div_less)
    have m1: "bit m1 k \<longleftrightarrow> has_word s (64 * (w div 64) + k) \<and> w + 1 \<le> 64 * (w div 64) + k" if "k < 64" for k
    proof -
      have e: "w + 1 \<le> 64 * (w div 64) + k \<longleftrightarrow> w mod 64 + 1 \<le> k" by (smt (verit) add.assoc add_le_cancel_left mult_div_mod_eq)
      show ?thesis
      proof (cases "w mod 64 = 63")
        case True
        then show ?thesis using e that by (simp add: m1_def)
      next
        case False
        then show ?thesis
          using e summary_bit [OF assms(1) r that] that by (simp only: m1_def if_False bit_and_iff above_mask_bit) blast
      qed
    qed
    have here: "\<not> has_level s j" if "i \<le> j" "j < 64 * (w + 1)" for j
    proof -
      have "64 * w + (j - 64 * w) = j" "j - 64 * w < 64" "b \<le> j - 64 * w" using that i by auto
      then show ?thesis using m [of "j - 64 * w"] True by auto
    qed
    have "64 * (w div 64) \<le> w + 1" "w + 1 \<le> 64 * (w div 64 + 1)"
      using mod_less_divisor [of 64 w] mult_div_mod_eq [of 64 w] unfolding add_mult_distrib2 by linarith+
    from next_loop_spec [OF assms(1) r m1 this]
    consider "LevelBits_next_loop s (w div 64) m1 = LevelBits_kNone" "\<forall>v \<ge> w + 1. \<not> has_word s v"
      | ww where "w + 1 \<le> ww" "has_word s ww" "\<forall>v. w + 1 \<le> v \<and> v < ww \<longrightarrow> \<not> has_word s v"
          "LevelBits_next_loop s (w div 64) m1 = 64 * ww + countr_zero (lb_l0 s ! ww)"
      by blast
    then show ?thesis
    proof cases
      case 1
      have "\<not> has_level s j" if "i \<le> j" for j
      proof (cases "j < 64 * (w + 1)")
        case False
        then have "j div 64 \<ge> w + 1" by auto
        then show ?thesis using 1(2) has_level_has_word by blast
      qed (use here that in blast)
      then have "scan_up (has_level s) i (64 * length (lb_l0 s) - i) = None" by (simp add: scan_up_None)
      then show ?thesis using 1 True pr by simp
    next
      case 2
      define c where "c = countr_zero (lb_l0 s ! ww)"
      have bot: "c < 64" "has_level s (64 * ww + c)" "\<And>j. j div 64 = ww \<Longrightarrow> j < 64 * ww + c \<Longrightarrow> \<not> has_level s j"
        using word_bottom_level [OF 2(2) c_def [symmetric]] by blast+
      have "\<not> has_level s j" if "i \<le> j" "j < 64 * ww + c" for j
      proof -
        have "j div 64 \<le> ww" "j < 64 * (w + 1) \<or> w + 1 \<le> j div 64" using that(2) bot(1) by auto
        then consider "j < 64 * (w + 1)" | "j div 64 = ww" | "w + 1 \<le> j div 64" "j div 64 < ww" by linarith
        then show ?thesis using here that bot(3) 2(3) has_level_has_word by cases blast+
      qed
      then show ?thesis using su [OF bot(2)] 2(1,4) True pr i by (simp add: c_def)
    qed
  qed
qed

section \<open>The interface a book uses\<close>

text \<open>
  A book keeps its occupied levels in an index: it marks and unmarks levels and asks for the
  nearest marked level below or above. \<open>none\<close> is the answer when there is no such level.
\<close>

locale level_index =
  fixes inv :: "'s \<Rightarrow> bool" and cap :: "'s \<Rightarrow> nat" and has :: "'s \<Rightarrow> nat \<Rightarrow> bool"
    and ins :: "nat \<Rightarrow> 's \<Rightarrow> 's" and del :: "nat \<Rightarrow> 's \<Rightarrow> 's"
    and below :: "'s \<Rightarrow> nat \<Rightarrow> nat" and above :: "'s \<Rightarrow> nat \<Rightarrow> nat" and none :: nat
  assumes has_cap: "inv s \<Longrightarrow> has s i \<Longrightarrow> i < cap s"
    and cap_none: "inv s \<Longrightarrow> cap s \<le> none"
    and inv_ins: "inv s \<Longrightarrow> i < cap s \<Longrightarrow> inv (ins i s) \<and> cap (ins i s) = cap s"
    and has_ins: "inv s \<Longrightarrow> i < cap s \<Longrightarrow> has (ins i s) j \<longleftrightarrow> j = i \<or> has s j"
    and inv_del: "inv s \<Longrightarrow> i < cap s \<Longrightarrow> inv (del i s) \<and> cap (del i s) = cap s"
    and has_del: "inv s \<Longrightarrow> i < cap s \<Longrightarrow> has (del i s) j \<longleftrightarrow> j \<noteq> i \<and> has s j"
    and below_scan: "inv s \<Longrightarrow> i < cap s \<Longrightarrow>
      below s i = (case scan_down (has s) i of None \<Rightarrow> none | Some j \<Rightarrow> j)"
    and above_scan: "inv s \<Longrightarrow> i < cap s \<Longrightarrow>
      above s i = (case scan_up (has s) i (cap s - i) of None \<Rightarrow> none | Some j \<Rightarrow> j)"
begin

lemma below_none: "inv s \<Longrightarrow> i < cap s \<Longrightarrow> below s i = none \<longleftrightarrow> (\<forall>j \<le> i. \<not> has s j)"
  using cap_none [of s]
  by (auto simp: below_scan scan_down_None scan_down_Some split: option.splits)

lemma below_some:
  assumes "inv s" and "i < cap s" and "below s i \<noteq> none"
  shows "has s (below s i) \<and> below s i \<le> i \<and> (\<forall>j. below s i < j \<and> j \<le> i \<longrightarrow> \<not> has s j)"
  using assms by (auto simp: below_scan scan_down_None scan_down_Some split: option.splits)

lemma above_none: "inv s \<Longrightarrow> i < cap s \<Longrightarrow> above s i = none \<longleftrightarrow> (\<forall>j \<ge> i. \<not> has s j)"
proof -
  assume a: "inv s" "i < cap s"
  have "(\<forall>j. i \<le> j \<and> j < i + (cap s - i) \<longrightarrow> \<not> has s j) \<longleftrightarrow> (\<forall>j \<ge> i. \<not> has s j)"
    using a has_cap by (metis add_diff_inverse_nat not_less_iff_gr_or_eq)
  moreover have "r < none \<and> i \<le> r \<and> has s r" if "scan_up (has s) i (cap s - i) = Some r" for r
    using that a cap_none [of s] by (auto simp: scan_up_Some)
  ultimately show ?thesis
    using a above_scan [OF a] scan_up_None [of "has s" i "cap s - i"]
    by (cases "scan_up (has s) i (cap s - i)") auto
qed

lemma above_some:
  assumes "inv s" and "i < cap s" and "above s i \<noteq> none"
  shows "has s (above s i) \<and> i \<le> above s i \<and> (\<forall>j. i \<le> j \<and> j < above s i \<longrightarrow> \<not> has s j)"
proof (cases "scan_up (has s) i (cap s - i)")
  case None
  then show ?thesis using assms above_scan by simp
next
  case (Some r)
  then have "above s i = r" using above_scan [OF assms(1,2)] by simp
  then show ?thesis using Some by (simp add: scan_up_Some)
qed

text \<open>After the highest marked level is unmarked, the search from it finds the next highest, and dually.\<close>

lemma below_del_top:
  assumes "inv s" and "has s i" and "\<forall>j > i. \<not> has s j"
  shows "if below (del i s) i = none then \<forall>j. \<not> has (del i s) j
    else has (del i s) (below (del i s) i) \<and> (\<forall>j > below (del i s) i. \<not> has (del i s) j)"
proof -
  have c: "i < cap s" using assms(1,2) by (rule has_cap)
  note d = inv_del [OF assms(1) c] has_del [OF assms(1) c]
  have hi: "\<not> has (del i s) j" if "j > i" for j using assms(3) d(2) that by blast
  have ci: "i < cap (del i s)" using d(1) c by simp
  show ?thesis
    using below_none [OF _ ci] below_some [OF _ ci] d(1) hi by (metis not_le)
qed

lemma above_del_bottom:
  assumes "inv s" and "has s i" and "\<forall>j < i. \<not> has s j"
  shows "if above (del i s) i = none then \<forall>j. \<not> has (del i s) j
    else has (del i s) (above (del i s) i) \<and> (\<forall>j < above (del i s) i. \<not> has (del i s) j)"
proof -
  have c: "i < cap s" using assms(1,2) by (rule has_cap)
  note d = inv_del [OF assms(1) c] has_del [OF assms(1) c]
  have lo: "\<not> has (del i s) j" if "j < i" for j using assms(3) d(2) that by blast
  have ci: "i < cap (del i s)" using d(1) c by simp
  show ?thesis
    using above_none [OF _ ci] above_some [OF _ ci] d(1) lo by (metis not_le)
qed

end

definition lb_ok :: "LevelBits \<Rightarrow> bool" where
  "lb_ok s \<longleftrightarrow> lb_inv s \<and> 64 * length (lb_l0 s) \<le> LevelBits_kNone"

definition lb_cap :: "LevelBits \<Rightarrow> nat" where
  "lb_cap s = 64 * length (lb_l0 s)"

interpretation bits: level_index lb_ok lb_cap has_level LevelBits_set LevelBits_clear
  LevelBits_prev LevelBits_next LevelBits_kNone
proof unfold_locales
  fix s i j
  show "lb_ok s \<Longrightarrow> has_level s i \<Longrightarrow> i < lb_cap s" by (simp add: lb_cap_def has_level_bound)
  show "lb_ok s \<Longrightarrow> lb_cap s \<le> LevelBits_kNone" by (simp add: lb_cap_def lb_ok_def)
  show "lb_ok s \<Longrightarrow> i < lb_cap s \<Longrightarrow> lb_ok (LevelBits_set i s) \<and> lb_cap (LevelBits_set i s) = lb_cap s"
    by (simp add: lb_cap_def lb_ok_def lb_inv_set)
  show "lb_ok s \<Longrightarrow> i < lb_cap s \<Longrightarrow> has_level (LevelBits_set i s) j \<longleftrightarrow> j = i \<or> has_level s j"
    by (simp add: lb_cap_def has_level_set)
  show "lb_ok s \<Longrightarrow> i < lb_cap s \<Longrightarrow> lb_ok (LevelBits_clear i s) \<and> lb_cap (LevelBits_clear i s) = lb_cap s"
    by (simp add: lb_cap_def lb_ok_def lb_inv_clear)
  show "lb_ok s \<Longrightarrow> i < lb_cap s \<Longrightarrow> has_level (LevelBits_clear i s) j \<longleftrightarrow> j \<noteq> i \<and> has_level s j"
    by (simp add: lb_cap_def has_level_clear)
  show "lb_ok s \<Longrightarrow> i < lb_cap s \<Longrightarrow>
      LevelBits_prev s i = (case scan_down (has_level s) i of None \<Rightarrow> LevelBits_kNone | Some j \<Rightarrow> j)"
    by (simp add: lb_cap_def lb_ok_def prev_ref)
  show "lb_ok s \<Longrightarrow> i < lb_cap s \<Longrightarrow>
      LevelBits_next s i = (case scan_up (has_level s) i (lb_cap s - i) of None \<Rightarrow> LevelBits_kNone | Some j \<Rightarrow> j)"
    by (simp add: lb_cap_def lb_ok_def next_ref)
qed

text \<open>
  The two-level searches are exact: on a well-formed bitmap, \<^verbatim>\<open>prev\<close> returns the highest
  marked level at or below the index and \<^verbatim>\<open>next\<close> the lowest at or above it, and each returns
  \<^verbatim>\<open>kNone\<close> exactly when there is no such level.
\<close>

theorem LevelBits_search_exact:
  assumes "lb_ok s" and "i < lb_cap s"
  shows "(if LevelBits_prev s i = LevelBits_kNone then \<forall>j \<le> i. \<not> has_level s j
          else has_level s (LevelBits_prev s i) \<and> LevelBits_prev s i \<le> i \<and>
               (\<forall>j. LevelBits_prev s i < j \<and> j \<le> i \<longrightarrow> \<not> has_level s j)) \<and>
         (if LevelBits_next s i = LevelBits_kNone then \<forall>j \<ge> i. \<not> has_level s j
          else has_level s (LevelBits_next s i) \<and> i \<le> LevelBits_next s i \<and>
               (\<forall>j. i \<le> j \<and> j < LevelBits_next s i \<longrightarrow> \<not> has_level s j))"
proof (rule conjI)
  show "if LevelBits_prev s i = LevelBits_kNone then \<forall>j \<le> i. \<not> has_level s j
          else has_level s (LevelBits_prev s i) \<and> LevelBits_prev s i \<le> i \<and>
               (\<forall>j. LevelBits_prev s i < j \<and> j \<le> i \<longrightarrow> \<not> has_level s j)"
    using bits.below_none [OF assms] bits.below_some [OF assms] by presburger
  show "if LevelBits_next s i = LevelBits_kNone then \<forall>j \<ge> i. \<not> has_level s j
          else has_level s (LevelBits_next s i) \<and> i \<le> LevelBits_next s i \<and>
               (\<forall>j. i \<le> j \<and> j < LevelBits_next s i \<longrightarrow> \<not> has_level s j)"
    using bits.above_none [OF assms] bits.above_some [OF assms] by presburger
qed

theorem LevelBits_search_exact_witness:
  "let s = LevelBits_set 130 (LevelBits_set 3 (LevelBits_reset 200 \<lparr>lb_l0 = [], lb_l1 = []\<rparr>))
   in lb_ok s \<and> 100 < lb_cap s \<and> (LevelBits_prev s 100 = LevelBits_kNone \<or> has_level s (LevelBits_prev s 100))"
proof -
  define s where "s = LevelBits_set 130 (LevelBits_set 3 (LevelBits_reset 200 \<lparr>lb_l0 = [], lb_l1 = []\<rparr>))"
  let ?r = "LevelBits_reset 200 \<lparr>lb_l0 = [], lb_l1 = []\<rparr>"
  have len: "length (lb_l0 ?r) = 4" by (simp add: LevelBits_reset_def Let_def)
  have inv: "lb_inv s" unfolding s_def by (intro lb_inv_set lb_inv_reset) (simp_all add: len)
  have l: "length (lb_l0 s) = 4" by (simp add: s_def len)
  have "lb_ok s" "100 < lb_cap s" using inv l by (simp_all add: lb_ok_def lb_cap_def LevelBits_kNone_def)
  with LevelBits_search_exact [OF this] show ?thesis unfolding s_def [symmetric] Let_def by (auto split: if_splits)
qed

end
