(* ===== verification/FlatHashMap.thy ===== *)
theory FlatHashMap
  imports Prelude
begin

text \<open>
  The open-addressing hash map of \<^verbatim>\<open>util/FlatHashMap.hpp\<close>: one vector of slots, linear probing
  from the mixed hash, backward-shift deletion and doubling past a load factor of 0.7. The key 0
  marks an empty slot (\<^verbatim>\<open>Empty = Key{}\<close>, as every use in the sources has it). A pointer to a stored
  value is the index of its slot.

  The probe loops are unbounded in the source; here they stop with \<open>Spin\<close> once they have visited
  every slot, after which the loop would repeat itself for ever. The lemmas show that \<open>Spin\<close> is
  never reached on a well-formed map.
\<close>

datatype probe = Hit nat | Vacant nat | Spin

record ('k, 'v) FlatHashMap =
  fm_slots :: "('k \<times> 'v) list"
  fm_mask :: nat
  fm_size :: nat
  fm_grows :: "u64 option"
  fm_zero :: 'v

section \<open>Operations\<close>

function fm_nextPow2_loop :: "nat \<Rightarrow> nat \<Rightarrow> nat" where
  "fm_nextPow2_loop n p = (if p < n \<and> 0 < p then fm_nextPow2_loop n (2 * p) else p)"
  by pat_completeness auto
termination by (relation "measure (\<lambda>(n, p). n - p)") auto

declare fm_nextPow2_loop.simps [simp del]

definition fm_nextPow2 :: "nat \<Rightarrow> nat" where
  "fm_nextPow2 n = fm_nextPow2_loop n 1"

definition fm_mix :: "u64 \<Rightarrow> u64" where
  "fm_mix x0 =
     (let x1 = x0 XOR drop_bit 33 x0;
          x2 = x1 * 0xff51afd7ed558ccd;
          x3 = x2 XOR drop_bit 33 x2;
          x4 = x3 * 0xc4ceb9fe1a85ec53
      in x4 XOR drop_bit 33 x4)"

definition fm_slotFor :: "nat \<Rightarrow> 'k::len word \<Rightarrow> nat" where
  "fm_slotFor msk key = unat (fm_mix (ucast key)) AND msk"

definition FlatHashMap_new :: "nat \<Rightarrow> 'v \<Rightarrow> ('k::len word, 'v) FlatHashMap" where
  "FlatHashMap_new capacityHint zero =
     (let cap = fm_nextPow2 (if capacityHint < 16 then 16 else capacityHint)
      in \<lparr>fm_slots = replicate cap (0, zero), fm_mask = cap - 1, fm_size = 0, fm_grows = None, fm_zero = zero\<rparr>)"

definition FlatHashMap_countGrowsIn :: "('k::len word, 'v) FlatHashMap \<Rightarrow> ('k word, 'v) FlatHashMap" where
  "FlatHashMap_countGrowsIn m = m\<lparr>fm_grows := Some 0\<rparr>"

primrec fm_probe :: "(nat \<Rightarrow> probe option) \<Rightarrow> nat \<Rightarrow> nat \<Rightarrow> nat \<Rightarrow> probe" where
  "fm_probe f msk 0 i = Spin"
| "fm_probe f msk (Suc n) i = (case f i of Some r \<Rightarrow> r | None \<Rightarrow> fm_probe f msk n ((i + 1) AND msk))"

definition fm_find_test :: "('k::len word \<times> 'v) list \<Rightarrow> 'k word \<Rightarrow> nat \<Rightarrow> probe option" where
  "fm_find_test slots key i =
     (if fst (slots ! i) = key then Some (Hit i) else if fst (slots ! i) = 0 then Some (Vacant i) else None)"

definition fm_locate_test :: "('k::len word \<times> 'v) list \<Rightarrow> 'k word \<Rightarrow> nat \<Rightarrow> probe option" where
  "fm_locate_test slots key i =
     (if fst (slots ! i) = 0 then Some (Vacant i) else if fst (slots ! i) = key then Some (Hit i) else None)"

definition fm_seek :: "'k::len word \<Rightarrow> ('k word, 'v) FlatHashMap \<Rightarrow> probe" where
  "fm_seek key m =
     fm_probe (fm_locate_test (fm_slots m) key) (fm_mask m) (fm_mask m + 1) (fm_slotFor (fm_mask m) key)"

definition FlatHashMap_find :: "'k::len word \<Rightarrow> ('k word, 'v) FlatHashMap \<Rightarrow> nat option" where
  "FlatHashMap_find key m =
     (case fm_probe (fm_find_test (fm_slots m) key) (fm_mask m) (fm_mask m + 1) (fm_slotFor (fm_mask m) key) of
        Hit i \<Rightarrow> Some i | _ \<Rightarrow> None)"

definition FlatHashMap_locate :: "'k::len word \<Rightarrow> ('k word, 'v) FlatHashMap \<Rightarrow> nat option" where
  "FlatHashMap_locate key m =
     (case fm_seek key m of Hit i \<Rightarrow> Some i | _ \<Rightarrow> None)"

text \<open>The value behind a pointer that \<^verbatim>\<open>find\<close> returned, and the map after a write through it.\<close>

definition FlatHashMap_at :: "nat \<Rightarrow> ('k::len word, 'v) FlatHashMap \<Rightarrow> 'v" where
  "FlatHashMap_at i m = snd (fm_slots m ! i)"

definition FlatHashMap_put :: "nat \<Rightarrow> 'v \<Rightarrow> ('k::len word, 'v) FlatHashMap \<Rightarrow> ('k word, 'v) FlatHashMap" where
  "FlatHashMap_put i v m = m\<lparr>fm_slots := (fm_slots m)[i := (fst (fm_slots m ! i), v)]\<rparr>"

text \<open>The insertion loop proper, after the load check.\<close>

definition fm_place :: "'k::len word \<Rightarrow> 'v \<Rightarrow> ('k word, 'v) FlatHashMap \<Rightarrow> ('k word, 'v) FlatHashMap option" where
  "fm_place key v m =
     (case fm_seek key m of
        Vacant i \<Rightarrow> Some (m\<lparr>fm_slots := (fm_slots m)[i := (key, v)], fm_size := fm_size m + 1\<rparr>)
      | Hit i \<Rightarrow> Some (m\<lparr>fm_slots := (fm_slots m)[i := (key, v)]\<rparr>)
      | Spin \<Rightarrow> None)"

definition fm_doubled :: "('k::len word, 'v) FlatHashMap \<Rightarrow> ('k word, 'v) FlatHashMap" where
  "fm_doubled m =
     (let newCap = (fm_mask m + 1) * 2
      in m\<lparr>fm_slots := replicate newCap (0, fm_zero m), fm_mask := newCap - 1, fm_size := 0,
           fm_grows := map_option (\<lambda>g. g + 1) (fm_grows m)\<rparr>)"

text \<open>
  \<^verbatim>\<open>insertOrAssign\<close> and \<^verbatim>\<open>grow\<close> call each other; the first argument bounds the depth of nested
  growths, and \<open>None\<close> means that it was exhausted or that a probe would not end.
\<close>

fun fm_insert :: "nat \<Rightarrow> 'k::len word \<Rightarrow> 'v \<Rightarrow> ('k word, 'v) FlatHashMap \<Rightarrow> ('k word, 'v) FlatHashMap option"
  and fm_grow :: "nat \<Rightarrow> ('k word, 'v) FlatHashMap \<Rightarrow> ('k word, 'v) FlatHashMap option"
  and fm_reinsert :: "nat \<Rightarrow> ('k word \<times> 'v) list \<Rightarrow> ('k word, 'v) FlatHashMap \<Rightarrow> ('k word, 'v) FlatHashMap option" where
  "fm_insert d key v m =
     (if (fm_size m + 1) * 10 \<ge> (fm_mask m + 1) * 7 then
        (case d of 0 \<Rightarrow> None
         | Suc d' \<Rightarrow> (case fm_grow d' m of None \<Rightarrow> None | Some m' \<Rightarrow> fm_place key v m'))
      else fm_place key v m)"
| "fm_grow d m = fm_reinsert d (fm_slots m) (fm_doubled m)"
| "fm_reinsert d [] m = Some m"
| "fm_reinsert d (s # old) m =
     (if fst s \<noteq> 0 then
        (case fm_insert d (fst s) (snd s) m of None \<Rightarrow> None | Some m' \<Rightarrow> fm_reinsert d old m')
      else fm_reinsert d old m)"

definition FlatHashMap_insertOrAssign ::
  "'k::len word \<Rightarrow> 'v \<Rightarrow> ('k word, 'v) FlatHashMap \<Rightarrow> ('k word, 'v) FlatHashMap" where
  "FlatHashMap_insertOrAssign key v m = (case fm_insert 64 key v m of None \<Rightarrow> m | Some m' \<Rightarrow> m')"

text \<open>
  Backward-shift deletion: the loop returns the slots after the moves and the final hole, \<open>None\<close>
  when it meets no empty slot.
\<close>

definition fm_blocked :: "nat \<Rightarrow> nat \<Rightarrow> nat \<Rightarrow> bool" where
  "fm_blocked hole scan ideal =
     (if hole \<le> scan then hole < ideal \<and> ideal \<le> scan else hole < ideal \<or> ideal \<le> scan)"

primrec fm_shift :: "nat \<Rightarrow> nat \<Rightarrow> ('k::len word \<times> 'v) list \<Rightarrow> nat \<Rightarrow> nat \<Rightarrow> (('k word \<times> 'v) list \<times> nat) option" where
  "fm_shift 0 msk slots hole scan = None"
| "fm_shift (Suc n) msk slots hole scan =
     (let scan' = (scan + 1) AND msk
      in if fst (slots ! scan') = 0 then Some (slots, hole)
         else
           let ideal = fm_slotFor msk (fst (slots ! scan'))
           in if fm_blocked hole scan' ideal then fm_shift n msk slots hole scan'
              else fm_shift n msk (slots[hole := slots ! scan']) scan' scan')"

definition FlatHashMap_eraseAtHole :: "nat \<Rightarrow> ('k::len word, 'v) FlatHashMap \<Rightarrow> ('k word, 'v) FlatHashMap" where
  "FlatHashMap_eraseAtHole hole m =
     (case fm_shift (fm_mask m + 1) (fm_mask m) (fm_slots m) hole hole of
        None \<Rightarrow> m
      | Some (slots, h) \<Rightarrow> m\<lparr>fm_slots := slots[h := (0, fm_zero m)], fm_size := size_dec (fm_size m)\<rparr>)"

definition FlatHashMap_erase :: "'k::len word \<Rightarrow> ('k word, 'v) FlatHashMap \<Rightarrow> bool \<times> ('k word, 'v) FlatHashMap" where
  "FlatHashMap_erase key m =
     (case FlatHashMap_locate key m of None \<Rightarrow> (False, m) | Some hole \<Rightarrow> (True, FlatHashMap_eraseAtHole hole m))"

definition FlatHashMap_eraseAt :: "nat \<Rightarrow> ('k::len word, 'v) FlatHashMap \<Rightarrow> ('k word, 'v) FlatHashMap" where
  "FlatHashMap_eraseAt idx m = FlatHashMap_eraseAtHole idx m"

definition FlatHashMap_take :: "'k::len word \<Rightarrow> ('k word, 'v) FlatHashMap \<Rightarrow> 'v option \<times> ('k word, 'v) FlatHashMap" where
  "FlatHashMap_take key m =
     (case FlatHashMap_locate key m of None \<Rightarrow> (None, m)
      | Some hole \<Rightarrow> (Some (snd (fm_slots m ! hole)), FlatHashMap_eraseAtHole hole m))"

definition FlatHashMap_clear :: "('k::len word, 'v) FlatHashMap \<Rightarrow> ('k word, 'v) FlatHashMap" where
  "FlatHashMap_clear m = m\<lparr>fm_slots := map (\<lambda>_. (0, fm_zero m)) (fm_slots m), fm_size := 0\<rparr>"

definition FlatHashMap_forEach :: "('k::len word \<Rightarrow> 'v \<Rightarrow> 'a \<Rightarrow> 'a) \<Rightarrow> ('k word, 'v) FlatHashMap \<Rightarrow> 'a \<Rightarrow> 'a" where
  "FlatHashMap_forEach fn m a = fold (\<lambda>s a. if fst s \<noteq> 0 then fn (fst s) (snd s) a else a) (fm_slots m) a"

section \<open>Cyclic distance\<close>

definition cdist :: "nat \<Rightarrow> nat \<Rightarrow> nat \<Rightarrow> nat" where
  "cdist c a b = (if a \<le> b then b - a else b + c - a)"

definition cnext :: "nat \<Rightarrow> nat \<Rightarrow> nat" where
  "cnext c i = (if i + 1 = c then 0 else i + 1)"

lemma cdist_self [simp]: "cdist c a a = 0"
  by (simp add: cdist_def)

lemma cdist_less: "a < c \<Longrightarrow> b < c \<Longrightarrow> cdist c a b < c"
  by (auto simp: cdist_def)

lemma cdist_eq_0: "a < c \<Longrightarrow> b < c \<Longrightarrow> cdist c a b = 0 \<longleftrightarrow> a = b"
  by (auto simp: cdist_def)

lemma cdist_inj: "a < c \<Longrightarrow> b < c \<Longrightarrow> b' < c \<Longrightarrow> cdist c a b = cdist c a b' \<longleftrightarrow> b = b'"
  by (auto simp: cdist_def)

lemma cnext_less: "i < c \<Longrightarrow> cnext c i < c"
  by (auto simp: cnext_def)

lemma cdist_cnext: "a < c \<Longrightarrow> i < c \<Longrightarrow> cnext c i \<noteq> a \<Longrightarrow> cdist c a (cnext c i) = cdist c a i + 1"
  by (auto simp: cdist_def cnext_def)

lemma cdist_from_cnext: "i < c \<Longrightarrow> b < c \<Longrightarrow> i \<noteq> b \<Longrightarrow> cdist c i b = cdist c (cnext c i) b + 1"
  by (auto simp: cdist_def cnext_def)

lemma cnext_mask: "m + 1 = 2 ^ n \<Longrightarrow> i < m + 1 \<Longrightarrow> (i + 1) AND m = cnext (m + 1) i"
  by (simp only: nat_and_mask_mod) (auto simp: cnext_def)

text \<open>The test of the deletion loop: an entry may fill the hole exactly when its probe path crosses it.\<close>

lemma blocked_iff:
  assumes "hole < c" and "scan < c" and "ideal < c" and "hole \<noteq> scan"
  shows "fm_blocked hole scan ideal \<longleftrightarrow> \<not> cdist c ideal hole < cdist c ideal scan"
  using assms by (auto simp: cdist_def fm_blocked_def)

section \<open>The invariant\<close>

definition fm_key :: "('k \<times> 'v) list \<Rightarrow> nat \<Rightarrow> 'k" where
  "fm_key slots i = fst (slots ! i)"

definition fm_paths :: "nat \<Rightarrow> ('k::len word \<times> 'v) list \<Rightarrow> bool" where
  "fm_paths msk slots \<longleftrightarrow>
     (\<forall>i < msk + 1. fm_key slots i \<noteq> 0 \<longrightarrow>
       (\<forall>j < msk + 1. cdist (msk + 1) (fm_slotFor msk (fm_key slots i)) j < cdist (msk + 1) (fm_slotFor msk (fm_key slots i)) i
          \<longrightarrow> fm_key slots j \<noteq> 0))"

definition fm_distinct :: "nat \<Rightarrow> ('k::len word \<times> 'v) list \<Rightarrow> bool" where
  "fm_distinct msk slots \<longleftrightarrow>
     (\<forall>i < msk + 1. \<forall>j < msk + 1. fm_key slots i \<noteq> 0 \<and> fm_key slots i = fm_key slots j \<longrightarrow> i = j)"

definition fm_used :: "nat \<Rightarrow> ('k::len word \<times> 'v) list \<Rightarrow> nat set" where
  "fm_used msk slots = {i. i < msk + 1 \<and> fm_key slots i \<noteq> 0}"

definition fm_inv :: "('k::len word, 'v) FlatHashMap \<Rightarrow> bool" where
  "fm_inv m \<longleftrightarrow> (\<exists>n \<ge> 1. fm_mask m + 1 = 2 ^ n) \<and> length (fm_slots m) = fm_mask m + 1 \<and>
     fm_distinct (fm_mask m) (fm_slots m) \<and> fm_paths (fm_mask m) (fm_slots m) \<and>
     fm_size m = card (fm_used (fm_mask m) (fm_slots m)) \<and> fm_size m * 10 < (fm_mask m + 1) * 7"

text \<open>The finite map a table stands for.\<close>

definition fm_map :: "('k::len word, 'v) FlatHashMap \<Rightarrow> 'k word \<rightharpoonup> 'v" where
  "fm_map m k = (if k = 0 then None else map_of (fm_slots m) k)"

lemma fm_slotFor_less: "msk + 1 = 2 ^ n \<Longrightarrow> fm_slotFor msk k < msk + 1"
  unfolding fm_slotFor_def by (simp add: nat_and_mask_mod [of msk n])

lemma map_of_nth_unique:
  "i < length xs \<Longrightarrow> fst (xs ! i) = k \<Longrightarrow> (\<And>j. j < length xs \<Longrightarrow> fst (xs ! j) = k \<Longrightarrow> j = i) \<Longrightarrow>
     map_of xs k = Some (snd (xs ! i))"
proof (induction xs arbitrary: i)
  case (Cons x xs)
  show ?case
  proof (cases i)
    case 0
    then show ?thesis using Cons.prems by (cases x) simp
  next
    case (Suc i')
    have "fst x \<noteq> k" using Cons.prems(3) [of 0] Suc by auto
    moreover have "map_of xs k = Some (snd (xs ! i'))"
      using Cons.prems Suc by (intro Cons.IH) force+
    ultimately show ?thesis using Suc by (cases x) simp
  qed
qed simp

lemma fm_map_Some:
  assumes "fm_inv m" and "i < fm_mask m + 1" and "fm_key (fm_slots m) i = k" and "k \<noteq> 0"
  shows "fm_map m k = Some (snd (fm_slots m ! i))"
proof -
  have "map_of (fm_slots m) k = Some (snd (fm_slots m ! i))"
    using assms unfolding fm_inv_def fm_distinct_def fm_key_def by (intro map_of_nth_unique) force+
  then show ?thesis using assms(4) by (simp add: fm_map_def)
qed

lemma fm_map_None:
  assumes "fm_inv m" and "\<And>i. i < fm_mask m + 1 \<Longrightarrow> fm_key (fm_slots m) i \<noteq> k"
  shows "fm_map m k = None"
proof -
  have "k \<notin> fst ` set (fm_slots m)"
    using assms by (fastforce simp: fm_inv_def fm_key_def in_set_conv_nth)
  then show ?thesis by (simp add: fm_map_def map_of_eq_None_iff)
qed

lemma fm_distinctD:
  "fm_distinct msk slots \<Longrightarrow> i < msk + 1 \<Longrightarrow> j < msk + 1 \<Longrightarrow> fst (slots ! i) = k \<Longrightarrow> fst (slots ! j) = k \<Longrightarrow> k \<noteq> 0 \<Longrightarrow> i = j"
proof -
  assume a: "fm_distinct msk slots" "i < msk + 1" "j < msk + 1" "fst (slots ! i) = k" "fst (slots ! j) = k" "k \<noteq> 0"
  then show ?thesis using a(1) [unfolded fm_distinct_def, rule_format, of i j] by (simp add: fm_key_def)
qed

lemma fm_pathsD:
  "fm_paths msk slots \<Longrightarrow> i < msk + 1 \<Longrightarrow> fm_key slots i = k \<Longrightarrow> k \<noteq> 0 \<Longrightarrow> j < msk + 1 \<Longrightarrow>
     cdist (msk + 1) (fm_slotFor msk k) j < cdist (msk + 1) (fm_slotFor msk k) i \<Longrightarrow> fm_key slots j \<noteq> 0"
  unfolding fm_paths_def by blast

lemma fm_used_finite [simp]: "finite (fm_used msk slots)"
  by (simp add: fm_used_def)

lemma fm_inv_vacant:
  assumes "fm_inv m"
  obtains e where "e < fm_mask m + 1" and "fm_key (fm_slots m) e = 0"
proof -
  have "card (fm_used (fm_mask m) (fm_slots m)) * 10 < (fm_mask m + 1) * 7"
    using assms unfolding fm_inv_def by metis
  then have "card (fm_used (fm_mask m) (fm_slots m)) < fm_mask m + 1"
    unfolding add_mult_distrib by linarith
  then have "fm_used (fm_mask m) (fm_slots m) \<noteq> {..<fm_mask m + 1}" by (metis card_lessThan less_irrefl)
  then show ?thesis using that by (auto simp: fm_used_def)
qed

section \<open>Probing\<close>

text \<open>A probe ends at the first slot, in cyclic order from its start, that the test accepts.\<close>

lemma fm_probe_stops:
  assumes "msk + 1 = 2 ^ w" and "f j = Some r" and "j < msk + 1" and "i < msk + 1" and "cdist (msk + 1) i j < n"
    and "\<And>j'. j' < msk + 1 \<Longrightarrow> cdist (msk + 1) i j' < cdist (msk + 1) i j \<Longrightarrow> f j' = None"
  shows "fm_probe f msk n i = r"
  using assms(4-6)
proof (induction n arbitrary: i)
  case (Suc n)
  show ?case
  proof (cases "i = j")
    case True
    then show ?thesis using assms(2) by simp
  next
    case False
    let ?i = "cnext (msk + 1) i"
    have d: "cdist (msk + 1) i j = cdist (msk + 1) ?i j + 1" using Suc.prems(1) assms(3) False by (rule cdist_from_cnext)
    have "f i = None" using Suc.prems(1,3) d by (intro Suc.prems(3)) auto
    moreover have "f j' = None" if "j' < msk + 1" "cdist (msk + 1) ?i j' < cdist (msk + 1) ?i j" for j'
    proof (cases "j' = i")
      case False
      then show ?thesis using that d cdist_from_cnext [OF Suc.prems(1) that(1)] by (intro Suc.prems(3)) auto
    qed (simp add: \<open>f i = None\<close>)
    ultimately show ?thesis
      using Suc.IH [of ?i] Suc.prems d cnext_less [OF Suc.prems(1)] cnext_mask [OF assms(1) Suc.prems(1)] by simp
  qed
qed simp

definition fm_absent_at :: "nat \<Rightarrow> ('k::len word \<times> 'v) list \<Rightarrow> 'k word \<Rightarrow> nat \<Rightarrow> bool" where
  "fm_absent_at msk slots k j \<longleftrightarrow> j < msk + 1 \<and> fm_key slots j = 0 \<and> (\<forall>i < msk + 1. fm_key slots i \<noteq> k) \<and>
     (\<forall>i < msk + 1. cdist (msk + 1) (fm_slotFor msk k) i < cdist (msk + 1) (fm_slotFor msk k) j \<longrightarrow> fm_key slots i \<noteq> 0)"

lemma fm_locate_cases:
  assumes "fm_inv m" and "k \<noteq> 0"
  shows "\<exists>j < fm_mask m + 1.
    (fm_key (fm_slots m) j = k \<and> fm_seek k m = Hit j) \<or>
    (fm_absent_at (fm_mask m) (fm_slots m) k j \<and> fm_seek k m = Vacant j)"
proof -
  let ?c = "fm_mask m + 1" and ?h = "fm_slotFor (fm_mask m) k" and ?K = "fm_key (fm_slots m)"
  let ?stop = "\<lambda>j. j < ?c \<and> (?K j = 0 \<or> ?K j = k)"
  obtain w where w: "?c = 2 ^ w" using assms(1) by (auto simp: fm_inv_def)
  have h: "?h < ?c" by (rule fm_slotFor_less [OF w])
  obtain e where "?stop e" using fm_inv_vacant [OF assms(1)] by blast
  then obtain j where j: "?stop j" and least: "\<And>i. ?stop i \<Longrightarrow> cdist ?c ?h j \<le> cdist ?c ?h i"
    using ex_has_least_nat [of ?stop e "cdist ?c ?h"] by blast
  let ?r = "if ?K j = 0 then Vacant j else Hit j"
  have test: "fm_locate_test (fm_slots m) k i = (if ?K i = 0 then Some (Vacant i) else if ?K i = k then Some (Hit i) else None)" for i
    by (simp add: fm_locate_test_def fm_key_def)
  have pr: "fm_seek k m = ?r"
    unfolding fm_seek_def using j least h cdist_less [of ?h ?c j] by (intro fm_probe_stops [OF w, of _ j]) (auto simp: test not_less [symmetric])
  show ?thesis
  proof (cases "?K j = 0")
    case False
    then show ?thesis using pr j by (intro exI [of _ j]) auto
  next
    case True
    have path: "?K i \<noteq> 0 \<and> ?K i \<noteq> k" if "i < ?c" "cdist ?c ?h i < cdist ?c ?h j" for i
      using least [of i] that by auto
    have "?K i \<noteq> k" if i: "i < ?c" for i
    proof
      assume k: "?K i = k"
      then have "cdist ?c ?h j \<le> cdist ?c ?h i" using least i by blast
      moreover have "cdist ?c ?h j \<noteq> cdist ?c ?h i" using cdist_inj [OF h i] j True k assms(2) by force
      ultimately have "cdist ?c ?h j < cdist ?c ?h i" by simp
      then have "?K j \<noteq> 0" using assms i j k unfolding fm_inv_def fm_paths_def by metis
      with True show False by simp
    qed
    then have "fm_absent_at (fm_mask m) (fm_slots m) k j" using path True j by (simp add: fm_absent_at_def)
    then show ?thesis using True pr j by (intro exI [of _ j]) auto
  qed
qed

lemma fm_seek_cases:
  assumes "fm_inv m" and "k \<noteq> 0"
  obtains (hit) j where "j < fm_mask m + 1" "fm_key (fm_slots m) j = k" "fm_seek k m = Hit j"
      "fm_map m k = Some (FlatHashMap_at j m)"
    | (vacant) j where "j < fm_mask m + 1" "fm_absent_at (fm_mask m) (fm_slots m) k j" "fm_seek k m = Vacant j"
      "fm_map m k = None"
proof -
  obtain j where j: "j < fm_mask m + 1" and "(fm_key (fm_slots m) j = k \<and> fm_seek k m = Hit j) \<or>
      (fm_absent_at (fm_mask m) (fm_slots m) k j \<and> fm_seek k m = Vacant j)"
    using fm_locate_cases [OF assms] by blast
  moreover have "fm_map m k = None" if "fm_absent_at (fm_mask m) (fm_slots m) k j"
    using that by (intro fm_map_None [OF assms(1)]) (simp add: fm_absent_at_def)
  ultimately show ?thesis
    using hit [OF j] vacant [OF j] fm_map_Some [OF assms(1) j _ assms(2)] by (metis FlatHashMap_at_def)
qed

lemma fm_find_locate:
  assumes "k \<noteq> 0"
  shows "FlatHashMap_find k m = FlatHashMap_locate k m"
proof -
  have "fm_find_test (fm_slots m) k = fm_locate_test (fm_slots m) k"
    using assms by (auto simp: fm_find_test_def fm_locate_test_def)
  then show ?thesis by (simp add: FlatHashMap_find_def FlatHashMap_locate_def fm_seek_def)
qed

lemma fm_locate_Some:
  assumes "fm_inv m" and "k \<noteq> 0" and "FlatHashMap_locate k m = Some i"
  shows "i < fm_mask m + 1 \<and> fm_key (fm_slots m) i = k \<and> fm_map m k = Some (FlatHashMap_at i m)"
  using assms(1,2) by (cases rule: fm_seek_cases) (use assms(3) in \<open>simp_all add: FlatHashMap_locate_def\<close>)

lemma fm_locate_None:
  assumes "fm_inv m" and "k \<noteq> 0"
  shows "FlatHashMap_locate k m = None \<longleftrightarrow> fm_map m k = None"
  using assms by (cases rule: fm_seek_cases) (simp_all add: FlatHashMap_locate_def)

section \<open>Insertion and growth\<close>

lemma fm_key_update: "i < length slots \<Longrightarrow> fm_key (slots[i := s]) j = (if j = i then fst s else fm_key slots j)"
  by (simp add: fm_key_def nth_list_update)

text \<open>Writing a key into the slot where its probe found it, or found it missing, keeps the table well formed.\<close>

lemma fm_write:
  assumes "fm_inv m" and "k \<noteq> 0" and "j < fm_mask m + 1"
    and "fm_key (fm_slots m) j = k \<or> fm_absent_at (fm_mask m) (fm_slots m) k j"
  shows "fm_distinct (fm_mask m) ((fm_slots m)[j := (k, v)]) \<and> fm_paths (fm_mask m) ((fm_slots m)[j := (k, v)]) \<and>
    fm_used (fm_mask m) ((fm_slots m)[j := (k, v)]) = insert j (fm_used (fm_mask m) (fm_slots m))"
proof -
  let ?s = "(fm_slots m)[j := (k, v)]" and ?K = "fm_key (fm_slots m)"
  have len: "j < length (fm_slots m)" using assms(1,3) by (simp add: fm_inv_def)
  have key: "fm_key ?s i = (if i = j then k else ?K i)" for i using fm_key_update [OF len] by simp
  have kd: "?K i = k \<Longrightarrow> i < fm_mask m + 1 \<Longrightarrow> i = j" for i
    using assms unfolding fm_inv_def fm_distinct_def fm_absent_at_def by metis
  have "fm_distinct (fm_mask m) (fm_slots m)" using assms(1) by (simp add: fm_inv_def)
  then have "fm_distinct (fm_mask m) ?s"
    using kd unfolding fm_distinct_def key by (auto split: if_splits)
  moreover have "fm_paths (fm_mask m) ?s"
    unfolding fm_paths_def key
  proof (intro allI impI)
    fix i i'
    assume i: "i < fm_mask m + 1" "(if i = j then k else ?K i) \<noteq> 0" "i' < fm_mask m + 1"
      "cdist (fm_mask m + 1) (fm_slotFor (fm_mask m) (if i = j then k else ?K i)) i'
        < cdist (fm_mask m + 1) (fm_slotFor (fm_mask m) (if i = j then k else ?K i)) i"
    have p: "fm_paths (fm_mask m) (fm_slots m)" using assms(1) by (simp add: fm_inv_def)
    have "?K i' \<noteq> 0" if "i \<noteq> j \<or> ?K j = k"
      by (rule fm_pathsD [OF p i(1) _ i(2) i(3,4)]) (use that in auto)
    moreover have "?K i' \<noteq> 0" if "i = j" "fm_absent_at (fm_mask m) (fm_slots m) k j"
      using i that unfolding fm_absent_at_def by auto
    ultimately show "(if i' = j then k else ?K i') \<noteq> 0" using assms(2,4) by auto
  qed
  moreover have "fm_used (fm_mask m) ?s = insert j (fm_used (fm_mask m) (fm_slots m))"
    using assms(2,3) by (auto simp: fm_used_def key)
  ultimately show ?thesis by simp
qed

lemma fm_map_iff:
  assumes "fm_inv m"
  shows "fm_map m k = Some v \<longleftrightarrow> k \<noteq> 0 \<and> (\<exists>i < fm_mask m + 1. fm_slots m ! i = (k, v))"
proof (cases "k = 0")
  case False
  from assms False show ?thesis
  proof (cases rule: fm_seek_cases)
    case (hit j)
    have ds: "fm_distinct (fm_mask m) (fm_slots m)" using assms by (simp add: fm_inv_def)
    have uniq: "i = j" if "i < fm_mask m + 1" "fm_slots m ! i = (k, v)" for i
      by (rule fm_distinctD [OF ds that(1) hit(1) _ _ False]) (use that(2) hit(2) in \<open>simp_all add: fm_key_def\<close>)
    have j: "fm_slots m ! j = (k, FlatHashMap_at j m)" using hit(2) by (simp add: fm_key_def FlatHashMap_at_def prod_eq_iff)
    have "(\<exists>i < fm_mask m + 1. fm_slots m ! i = (k, v)) \<longleftrightarrow> FlatHashMap_at j m = v"
      using uniq hit(1) j by (metis prod.inject)
    then show ?thesis using hit(4) False by simp
  next
    case (vacant j)
    then show ?thesis unfolding fm_absent_at_def fm_key_def by (metis fst_conv option.distinct(1))
  qed
qed (simp add: fm_map_def)

lemma fm_slot_write:
  assumes "fm_inv m" and "k \<noteq> 0" and "j < fm_mask m + 1"
    and "fm_key (fm_slots m) j = k \<or> fm_absent_at (fm_mask m) (fm_slots m) k j"
    and "fm_inv m'" and "fm_slots m' = (fm_slots m)[j := (k, v)]" and "fm_mask m' = fm_mask m"
  shows "fm_map m' = (fm_map m)(k \<mapsto> v)"
proof
  fix k'
  have len: "length (fm_slots m) = fm_mask m + 1" using assms(1) by (simp add: fm_inv_def)
  have nth: "fm_slots m' ! i = (if i = j then (k, v) else fm_slots m ! i)" if "i < fm_mask m + 1" for i
    using assms(3,6) len that by (simp add: nth_list_update)
  have "fm_map m' k' = Some x \<longleftrightarrow> ((fm_map m)(k \<mapsto> v)) k' = Some x" for x
  proof (cases "k' = k")
    case True
    have "fm_map m' k = Some v" using nth [OF assms(3)] assms(2,3,5,7) by (auto simp: fm_map_iff)
    then show ?thesis using True by simp
  next
    case False
    have "fst (fm_slots m ! j) = k \<or> fst (fm_slots m ! j) = 0"
      using assms(4) by (auto simp: fm_key_def fm_absent_at_def)
    then have "(\<exists>i < fm_mask m + 1. fm_slots m' ! i = (k', x)) \<longleftrightarrow> (\<exists>i < fm_mask m + 1. fm_slots m ! i = (k', x))" if "k' \<noteq> 0"
      using nth False that by (metis fst_conv)
    then show ?thesis using False assms(1,5,7) by (auto simp: fm_map_iff)
  qed
  then show "fm_map m' k' = ((fm_map m)(k \<mapsto> v)) k'" by (metis option.exhaust)
qed

lemma fm_place_correct:
  assumes "fm_inv m" and "k \<noteq> 0" and "(fm_size m + 1) * 10 < (fm_mask m + 1) * 7"
  shows "\<exists>m'. fm_place k v m = Some m' \<and> fm_inv m' \<and> fm_map m' = (fm_map m)(k \<mapsto> v) \<and> fm_mask m' = fm_mask m \<and>
    fm_size m' \<le> fm_size m + 1 \<and> fm_grows m' = fm_grows m \<and> fm_zero m' = fm_zero m"
  using assms(1,2)
proof (cases rule: fm_seek_cases)
  case (hit j)
  let ?m = "m\<lparr>fm_slots := (fm_slots m)[j := (k, v)]\<rparr>"
  have "insert j (fm_used (fm_mask m) (fm_slots m)) = fm_used (fm_mask m) (fm_slots m)"
    using hit(1,2) assms(2) by (auto simp: fm_used_def)
  then have "fm_inv ?m"
    using assms(1) fm_write [OF assms(1,2) hit(1), of v] hit(2) by (simp add: fm_inv_def)
  moreover have "fm_map ?m = (fm_map m)(k \<mapsto> v)" by (rule fm_slot_write [OF assms(1,2) hit(1) _ calculation]) (simp_all add: hit(2))
  ultimately show ?thesis using hit(3) by (intro exI [of _ ?m]) (simp add: fm_place_def)
next
  case (vacant j)
  let ?m = "m\<lparr>fm_slots := (fm_slots m)[j := (k, v)], fm_size := fm_size m + 1\<rparr>"
  have "j \<notin> fm_used (fm_mask m) (fm_slots m)" using vacant(2) by (simp add: fm_used_def fm_absent_at_def)
  then have "fm_inv ?m"
    using assms(1,3) fm_write [OF assms(1,2) vacant(1), of v] vacant(2) by (simp add: fm_inv_def)
  moreover have "fm_map ?m = (fm_map m)(k \<mapsto> v)"
    by (rule fm_slot_write [OF assms(1,2) vacant(1) _ calculation]) (simp_all add: vacant(2))
  ultimately show ?thesis using vacant(3) by (intro exI [of _ ?m]) (simp add: fm_place_def)
qed

text \<open>Rehashing inserts the occupied slots of the old table, in order, into the empty doubled one.\<close>

definition fm_upds :: "('k::len word \<times> 'v) list \<Rightarrow> ('k word \<rightharpoonup> 'v) \<Rightarrow> 'k word \<rightharpoonup> 'v" where
  "fm_upds xs f = fold (\<lambda>s f. if fst s \<noteq> 0 then f(fst s \<mapsto> snd s) else f) xs f"

lemma fm_upds_simps [simp]:
  "fm_upds [] f = f" "fm_upds (s # xs) f = fm_upds xs (if fst s \<noteq> 0 then f(fst s \<mapsto> snd s) else f)"
  by (simp_all add: fm_upds_def)

lemma fm_reinsert_correct:
  assumes "fm_inv m" and "(fm_size m + length (filter (\<lambda>s. fst s \<noteq> 0) old)) * 10 < (fm_mask m + 1) * 7"
  shows "\<exists>m'. fm_reinsert d old m = Some m' \<and> fm_inv m' \<and> fm_map m' = fm_upds old (fm_map m) \<and> fm_mask m' = fm_mask m \<and>
    fm_size m' \<le> fm_size m + length (filter (\<lambda>s. fst s \<noteq> 0) old) \<and> fm_grows m' = fm_grows m \<and> fm_zero m' = fm_zero m"
  using assms
proof (induction old arbitrary: m)
  case (Cons s old)
  show ?case
  proof (cases "fst s = 0")
    case True
    then show ?thesis using Cons.IH [OF Cons.prems(1)] Cons.prems(2) by simp
  next
    case False
    have lt: "(fm_size m + 1) * 10 < (fm_mask m + 1) * 7" using Cons.prems(2) False by simp
    then obtain m' where m': "fm_place (fst s) (snd s) m = Some m'" "fm_inv m'" "fm_map m' = (fm_map m)(fst s \<mapsto> snd s)"
      "fm_mask m' = fm_mask m" "fm_size m' \<le> fm_size m + 1" "fm_grows m' = fm_grows m" "fm_zero m' = fm_zero m"
      using fm_place_correct [OF Cons.prems(1) False lt] by blast
    have "fm_insert d (fst s) (snd s) m = Some m'" using lt m'(1) by simp
    moreover have "(fm_size m' + length (filter (\<lambda>s. fst s \<noteq> 0) old)) * 10 < (fm_mask m' + 1) * 7"
      using Cons.prems(2) m'(4,5) False by simp
    then obtain m'' where r: "fm_reinsert d old m' = Some m''" "fm_inv m''" "fm_map m'' = fm_upds old (fm_map m')"
      "fm_mask m'' = fm_mask m'" "fm_size m'' \<le> fm_size m' + length (filter (\<lambda>s. fst s \<noteq> 0) old)"
      "fm_grows m'' = fm_grows m'" "fm_zero m'' = fm_zero m'"
      using Cons.IH [OF m'(2)] by blast
    have "fm_reinsert d (s # old) m = Some m''" using calculation r(1) False by (simp del: fm_insert.simps)
    moreover have "fm_map m'' = fm_upds (s # old) (fm_map m)" using r(3) m'(3) False by (simp del: fun_upd_apply)
    ultimately show ?thesis using r m' False by auto
  qed
qed simp

lemma fm_inv_empty:
  assumes "fm_mask m + 1 = 2 ^ n" and "1 \<le> n" and "fm_slots m = replicate (fm_mask m + 1) (0, z)" and "fm_size m = 0"
  shows "fm_inv m \<and> fm_map m = Map.empty"
proof -
  have k: "i < fm_mask m + 1 \<Longrightarrow> fm_key (fm_slots m) i = 0" for i using assms(3) by (simp add: fm_key_def del: replicate.simps)
  then have u: "fm_used (fm_mask m) (fm_slots m) = {}" by (auto simp: fm_used_def)
  have "\<exists>n \<ge> 1. fm_mask m + 1 = 2 ^ n" using assms(1,2) by blast
  then have inv: "fm_inv m"
    unfolding fm_inv_def fm_distinct_def fm_paths_def u using k assms(3,4) by simp
  show ?thesis using inv k fm_map_None [OF inv] by (metis (mono_tags, lifting) fm_map_def ext)
qed

lemma fm_upds_absent: "(\<And>j. j < length xs \<Longrightarrow> fst (xs ! j) \<noteq> k) \<Longrightarrow> fm_upds xs f k = f k"
proof (induction xs arbitrary: f)
  case (Cons s xs)
  have "fst s \<noteq> k" using Cons.prems [of 0] by simp
  moreover have "\<And>j. j < length xs \<Longrightarrow> fst (xs ! j) \<noteq> k" using Cons.prems by fastforce
  ultimately show ?case using Cons.IH by simp
qed simp

lemma fm_upds_unique:
  "i < length xs \<Longrightarrow> fst (xs ! i) = k \<Longrightarrow> k \<noteq> 0 \<Longrightarrow> (\<And>j. j < length xs \<Longrightarrow> fst (xs ! j) = k \<Longrightarrow> j = i) \<Longrightarrow>
     fm_upds xs f k = Some (snd (xs ! i))"
proof (induction xs arbitrary: i f)
  case (Cons s xs)
  show ?case
  proof (cases i)
    case 0
    have "fst (xs ! j) \<noteq> k" if "j < length xs" for j using Cons.prems(4) [of "Suc j"] that 0 by auto
    then show ?thesis using fm_upds_absent [of xs k] Cons.prems 0 by simp
  next
    case (Suc i')
    have "fm_upds xs g k = Some (snd (xs ! i'))" for g
      using Cons.prems Suc by (intro Cons.IH) force+
    then show ?thesis using Suc by simp
  qed
qed simp

lemma fm_upds_slots:
  assumes "fm_inv m"
  shows "fm_upds (fm_slots m) Map.empty = fm_map m"
proof
  fix k
  have len: "length (fm_slots m) = fm_mask m + 1" using assms by (simp add: fm_inv_def)
  show "fm_upds (fm_slots m) Map.empty k = fm_map m k"
  proof (cases "\<exists>i < fm_mask m + 1. fm_key (fm_slots m) i = k \<and> k \<noteq> 0")
    case True
    then obtain i where i: "i < fm_mask m + 1" "fm_key (fm_slots m) i = k" "k \<noteq> 0" by blast
    have ds: "fm_distinct (fm_mask m) (fm_slots m)" using assms by (simp add: fm_inv_def)
    have uniq: "j = i" if "j < length (fm_slots m)" "fst (fm_slots m ! j) = k" for j
      by (rule fm_distinctD [OF ds _ i(1) that(2) _ i(3)]) (use that(1) i(2) len in \<open>simp_all add: fm_key_def\<close>)
    have "fm_upds (fm_slots m) Map.empty k = Some (snd (fm_slots m ! i))"
      by (rule fm_upds_unique [OF _ _ i(3) uniq]) (use i len in \<open>simp_all add: fm_key_def\<close>)
    then show ?thesis using fm_map_Some [OF assms i] by simp
  next
    case False
    show ?thesis
    proof (cases "k = 0")
      case True
      have "fm_upds xs f 0 = f 0" for xs :: "('a word \<times> 'b) list" and f by (induction xs arbitrary: f) auto
      then show ?thesis using True by (simp add: fm_map_def)
    next
      case k: False
      then have "\<And>i. i < fm_mask m + 1 \<Longrightarrow> fm_key (fm_slots m) i \<noteq> k" using False by blast
      then show ?thesis using fm_upds_absent [of "fm_slots m" k] fm_map_None [OF assms, of k] len by (simp add: fm_key_def)
    qed
  qed
qed

lemma length_filter_card: "length (filter P xs) = card {i. i < length xs \<and> P (xs ! i)}"
  by (simp add: length_filter_conv_card)

lemma fm_grow_correct:
  assumes "fm_inv m"
  shows "\<exists>m'. fm_grow d m = Some m' \<and> fm_inv m' \<and> fm_map m' = fm_map m \<and> fm_mask m' + 1 = 2 * (fm_mask m + 1) \<and>
    fm_size m' \<le> fm_size m \<and> fm_grows m' = map_option (\<lambda>g. g + 1) (fm_grows m) \<and> fm_zero m' = fm_zero m"
proof -
  obtain n where n: "fm_mask m + 1 = 2 ^ n" "1 \<le> n" using assms by (auto simp: fm_inv_def)
  let ?d = "fm_doubled m"
  have d: "fm_mask ?d + 1 = 2 * (fm_mask m + 1)" "fm_slots ?d = replicate (2 * (fm_mask m + 1)) (0, fm_zero m)" "fm_size ?d = 0"
    "fm_grows ?d = map_option (\<lambda>g. g + 1) (fm_grows m)" "fm_zero ?d = fm_zero m"
    by (simp_all add: fm_doubled_def Let_def mult.commute)
  have e: "fm_inv ?d \<and> fm_map ?d = Map.empty"
    using n d by (intro fm_inv_empty [of _ "Suc n"]) (simp_all del: replicate.simps)
  have c: "length (filter (\<lambda>s. fst s \<noteq> 0) (fm_slots m)) = fm_size m"
    using assms by (simp add: fm_inv_def length_filter_card fm_used_def fm_key_def)
  have sz: "fm_size m * 10 < (fm_mask m + 1) * 7" using assms by (simp add: fm_inv_def)
  have "(fm_size ?d + length (filter (\<lambda>s. fst s \<noteq> 0) (fm_slots m))) * 10 < (fm_mask ?d + 1) * 7"
    unfolding c d using sz by simp
  from fm_reinsert_correct [OF conjunct1 [OF e] this, of d] e d c fm_upds_slots [OF assms] show ?thesis by auto
qed

text \<open>One level of growth is always enough, so the depth of 64 is never exhausted.\<close>

lemma fm_insert_correct:
  assumes "fm_inv m" and "k \<noteq> 0"
  shows "\<exists>m'. fm_insert (Suc d) k v m = Some m' \<and> fm_inv m' \<and> fm_map m' = (fm_map m)(k \<mapsto> v) \<and> fm_zero m' = fm_zero m"
proof (cases "(fm_size m + 1) * 10 \<ge> (fm_mask m + 1) * 7")
  case False
  then have "fm_insert (Suc d) k v m = fm_place k v m" by simp
  then show ?thesis using fm_place_correct [OF assms, of v] False by auto
next
  case True
  obtain m' where m': "fm_grow d m = Some m'" "fm_inv m'" "fm_map m' = fm_map m" "fm_mask m' + 1 = 2 * (fm_mask m + 1)"
    "fm_size m' \<le> fm_size m" "fm_zero m' = fm_zero m" using fm_grow_correct [OF assms(1)] by blast
  obtain n where "1 \<le> n" "fm_mask m + 1 = 2 ^ n" using assms(1) by (auto simp: fm_inv_def)
  then have "(2 :: nat) \<le> fm_mask m + 1" using self_le_power [of "2 :: nat" n] by simp
  moreover have "fm_size m * 10 < (fm_mask m + 1) * 7" using assms(1) by (simp add: fm_inv_def)
  ultimately have "(fm_size m' + 1) * 10 < (fm_mask m' + 1) * 7" using m'(5) unfolding m'(4)
    by (simp add: algebra_simps)
  moreover have "fm_insert (Suc d) k v m = fm_place k v m'" using True m'(1) by (simp del: fm_grow.simps)
  ultimately show ?thesis using fm_place_correct [OF m'(2) assms(2), of v] m'(3,6) by auto
qed

section \<open>Backward-shift deletion\<close>

lemma cdist_mid:
  "a < c \<Longrightarrow> h < c \<Longrightarrow> i < c \<Longrightarrow> x < c \<Longrightarrow> cdist c a h < cdist c a i \<Longrightarrow> cdist c h x < cdist c h i \<Longrightarrow>
     cdist c a x < cdist c a i"
  by (auto simp: cdist_def split: if_splits)

text \<open>
  The state of the loop: slot \<open>h\<close> is the hole (its stale content is ignored), \<open>s\<close> the slot scanned
  last, \<open>e\<close> some empty slot. Every other entry has an unbroken probe path, and an entry whose
  path crosses the hole lies beyond \<open>s\<close>.
\<close>

definition fm_hole_distinct :: "nat \<Rightarrow> ('k::len word \<times> 'v) list \<Rightarrow> nat \<Rightarrow> bool" where
  "fm_hole_distinct msk slots h \<longleftrightarrow>
     (\<forall>i j. i < msk + 1 \<longrightarrow> j < msk + 1 \<longrightarrow> i \<noteq> h \<longrightarrow> j \<noteq> h \<longrightarrow> fm_key slots i \<noteq> 0 \<longrightarrow> fm_key slots i = fm_key slots j \<longrightarrow> i = j)"

definition fm_hole_paths :: "nat \<Rightarrow> ('k::len word \<times> 'v) list \<Rightarrow> nat \<Rightarrow> nat \<Rightarrow> bool" where
  "fm_hole_paths msk slots h s \<longleftrightarrow>
     (\<forall>i k. i < msk + 1 \<longrightarrow> i \<noteq> h \<longrightarrow> fm_key slots i = k \<longrightarrow> k \<noteq> 0 \<longrightarrow>
        (\<forall>j < msk + 1. cdist (msk + 1) (fm_slotFor msk k) j < cdist (msk + 1) (fm_slotFor msk k) i \<longrightarrow> fm_key slots j \<noteq> 0) \<and>
        (cdist (msk + 1) (fm_slotFor msk k) h < cdist (msk + 1) (fm_slotFor msk k) i
           \<longrightarrow> cdist (msk + 1) h s < cdist (msk + 1) h i))"

definition fm_hole :: "nat \<Rightarrow> ('k::len word \<times> 'v) list \<Rightarrow> nat \<Rightarrow> nat \<Rightarrow> nat \<Rightarrow> bool" where
  "fm_hole msk slots h s e \<longleftrightarrow>
     length slots = msk + 1 \<and> h < msk + 1 \<and> s < msk + 1 \<and> e < msk + 1 \<and> fm_key slots e = 0 \<and> fm_key slots h \<noteq> 0 \<and>
     cdist (msk + 1) h s < cdist (msk + 1) h e \<and> fm_hole_distinct msk slots h \<and> fm_hole_paths msk slots h s"

definition fm_entries :: "nat \<Rightarrow> ('k::len word \<times> 'v) list \<Rightarrow> nat \<Rightarrow> ('k word \<times> 'v) set" where
  "fm_entries msk slots h = {slots ! i | i. i < msk + 1 \<and> i \<noteq> h \<and> fm_key slots i \<noteq> 0}"

lemma fm_hole_path:
  assumes "fm_hole msk slots h s e" and "i < msk + 1" and "i \<noteq> h" and "fm_key slots i = k" and "k \<noteq> 0"
  shows "j < msk + 1 \<Longrightarrow> cdist (msk + 1) (fm_slotFor msk k) j < cdist (msk + 1) (fm_slotFor msk k) i \<Longrightarrow> fm_key slots j \<noteq> 0"
    and "cdist (msk + 1) (fm_slotFor msk k) h < cdist (msk + 1) (fm_slotFor msk k) i \<Longrightarrow>
      cdist (msk + 1) h s < cdist (msk + 1) h i"
proof -
  have "fm_hole_paths msk slots h s" using assms(1) by (simp add: fm_hole_def)
  note c = this [unfolded fm_hole_paths_def, rule_format, OF assms(2-5)]
  show "j < msk + 1 \<Longrightarrow> cdist (msk + 1) (fm_slotFor msk k) j < cdist (msk + 1) (fm_slotFor msk k) i \<Longrightarrow> fm_key slots j \<noteq> 0"
    using c by blast
  show "cdist (msk + 1) (fm_slotFor msk k) h < cdist (msk + 1) (fm_slotFor msk k) i \<Longrightarrow>
      cdist (msk + 1) h s < cdist (msk + 1) h i" using c by blast
qed

lemma fm_hole_next:
  assumes "fm_hole msk slots h s e"
  shows "cnext (msk + 1) s < msk + 1 \<and> cnext (msk + 1) s \<noteq> h \<and>
    cdist (msk + 1) h (cnext (msk + 1) s) = cdist (msk + 1) h s + 1 \<and> cdist (msk + 1) s e = cdist (msk + 1) (cnext (msk + 1) s) e + 1"
proof -
  have a: "h < msk + 1" "s < msk + 1" "e < msk + 1" "cdist (msk + 1) h s < cdist (msk + 1) h e"
    using assms by (simp_all add: fm_hole_def)
  have se: "s \<noteq> e" using a(4) by auto
  have "cdist (msk + 1) h e < msk + 1" using a by (intro cdist_less)
  then have "cnext (msk + 1) s \<noteq> h" using a se by (auto simp: cdist_def cnext_def split: if_splits)
  then show ?thesis using cdist_cnext [OF a(1,2)] cdist_from_cnext [OF a(2,3) se] cnext_less [OF a(2)] by simp
qed

text \<open>The loop stops: no remaining probe path crosses the hole.\<close>

lemma fm_hole_stop:
  assumes "fm_hole msk slots h s e" and "msk + 1 = 2 ^ n" and "fm_key slots (cnext (msk + 1) s) = 0"
    and "i < msk + 1" and "i \<noteq> h" and "fm_key slots i = k" and "k \<noteq> 0"
  shows "\<not> cdist (msk + 1) (fm_slotFor msk k) h < cdist (msk + 1) (fm_slotFor msk k) i"
proof
  let ?c = "msk + 1" and ?s = "cnext (msk + 1) s" and ?a = "fm_slotFor msk k"
  assume cross: "cdist ?c ?a h < cdist ?c ?a i"
  note nx = fm_hole_next [OF assms(1)]
  have h: "h < ?c" using assms(1) by (simp add: fm_hole_def)
  have "cdist ?c h s < cdist ?c h i" by (rule fm_hole_path(2) [OF assms(1,4-7) cross])
  moreover have "i \<noteq> ?s" using assms(3,6,7) by auto
  then have "cdist ?c h i \<noteq> cdist ?c h ?s" using cdist_inj [OF h assms(4)] nx by blast
  ultimately have "cdist ?c h ?s < cdist ?c h i" using nx by linarith
  then have "cdist ?c ?a ?s < cdist ?c ?a i"
    using cdist_mid [OF fm_slotFor_less [OF assms(2)] h assms(4) _ cross] nx by blast
  then show False using fm_hole_path(1) [OF assms(1,4-7)] nx assms(3) by blast
qed

text \<open>A blocked entry is passed over, any other is moved into the hole.\<close>

lemma fm_hole_skip:
  assumes "fm_hole msk slots h s e" and "fm_key slots (cnext (msk + 1) s) \<noteq> 0"
    and "\<not> cdist (msk + 1) (fm_slotFor msk (fm_key slots (cnext (msk + 1) s))) h
          < cdist (msk + 1) (fm_slotFor msk (fm_key slots (cnext (msk + 1) s))) (cnext (msk + 1) s)"
  shows "fm_hole msk slots h (cnext (msk + 1) s) e"
proof -
  let ?c = "msk + 1" and ?s = "cnext (msk + 1) s"
  note nx = fm_hole_next [OF assms(1)]
  have b: "h < ?c" "e < ?c" "fm_key slots e = 0" "cdist ?c h s < cdist ?c h e" using assms(1) by (simp_all add: fm_hole_def)
  have "?s \<noteq> e" using assms(2) b(3) by auto
  then have "cdist ?c h ?s \<noteq> cdist ?c h e" using cdist_inj [OF b(1) _ b(2)] nx by blast
  then have lt: "cdist ?c h ?s < cdist ?c h e" using nx b(4) by linarith
  have "fm_hole_paths msk slots h ?s"
    unfolding fm_hole_paths_def
  proof (intro allI impI conjI)
    fix i k j
    assume i: "i < ?c" "i \<noteq> h" "fm_key slots i = k" "k \<noteq> 0"
    show "j < ?c \<Longrightarrow> cdist ?c (fm_slotFor msk k) j < cdist ?c (fm_slotFor msk k) i \<Longrightarrow> fm_key slots j \<noteq> 0"
      by (rule fm_hole_path(1) [OF assms(1) i])
    assume cr: "cdist ?c (fm_slotFor msk k) h < cdist ?c (fm_slotFor msk k) i"
    then have "cdist ?c h s < cdist ?c h i" by (rule fm_hole_path(2) [OF assms(1) i])
    moreover have "i \<noteq> ?s" using cr assms(3) i(3) by auto
    then have "cdist ?c h i \<noteq> cdist ?c h ?s" using cdist_inj [OF b(1) i(1)] nx by blast
    ultimately show "cdist ?c h ?s < cdist ?c h i" using nx by linarith
  qed
  then show ?thesis using assms(1) lt nx by (simp add: fm_hole_def)
qed

lemma fm_hole_move:
  assumes "fm_hole msk slots h s e" and "msk + 1 = 2 ^ n" and "fm_key slots (cnext (msk + 1) s) \<noteq> 0"
    and "cdist (msk + 1) (fm_slotFor msk (fm_key slots (cnext (msk + 1) s))) h
          < cdist (msk + 1) (fm_slotFor msk (fm_key slots (cnext (msk + 1) s))) (cnext (msk + 1) s)"
  shows "fm_hole msk (slots[h := slots ! cnext (msk + 1) s]) (cnext (msk + 1) s) (cnext (msk + 1) s) e \<and>
    fm_entries msk (slots[h := slots ! cnext (msk + 1) s]) (cnext (msk + 1) s) = fm_entries msk slots h \<and>
    fm_used msk (slots[h := slots ! cnext (msk + 1) s]) = fm_used msk slots"
proof -
  let ?c = "msk + 1" and ?s = "cnext (msk + 1) s" and ?K = "fm_key slots"
  let ?t = "slots[h := slots ! ?s]"
  note nx = fm_hole_next [OF assms(1)]
  have b: "h < ?c" "e < ?c" "?K e = 0" "?K h \<noteq> 0" "length slots = ?c" "fm_hole_distinct msk slots h"
    using assms(1) by (simp_all add: fm_hole_def)
  have key: "fm_key ?t i = (if i = h then ?K ?s else ?K i)" for i using b(1,5) by (simp add: fm_key_def nth_list_update)
  have nz: "fm_key ?t i \<noteq> 0 \<longleftrightarrow> ?K i \<noteq> 0" for i unfolding key using b(4) assms(3) by simp
  have se: "?s \<noteq> e" using assms(3) b(3) by auto
  have lt: "cdist ?c ?s ?s < cdist ?c ?s e" using se nx b(2) cdist_eq_0 [of ?s ?c e] by simp
  have ds: "fm_hole_distinct msk ?t ?s"
    using b(6) nx unfolding fm_hole_distinct_def key by (metis assms(3))
  have pt: "fm_hole_paths msk ?t ?s ?s"
    unfolding fm_hole_paths_def nz
  proof (intro allI impI conjI)
    fix i k j
    assume i: "i < ?c" "i \<noteq> ?s" "fm_key ?t i = k" "k \<noteq> 0"
    show "cdist ?c ?s ?s < cdist ?c ?s i" using i nx cdist_eq_0 [of ?s ?c i] by simp
    assume j: "j < ?c" "cdist ?c (fm_slotFor msk k) j < cdist ?c (fm_slotFor msk k) i"
    show "?K j \<noteq> 0"
    proof (cases "i = h")
      case False
      then have "?K i = k" using i(3) unfolding key by simp
      then show ?thesis by (rule fm_hole_path(1) [OF assms(1) i(1) False _ i(4) j])
    next
      case True
      then have k: "?K ?s = k" using i(3) unfolding key by simp
      have "cdist ?c (fm_slotFor msk k) j < cdist ?c (fm_slotFor msk k) ?s"
        using j(2) assms(4) True unfolding k by (metis order_less_trans)
      then show ?thesis using fm_hole_path(1) [OF assms(1) _ _ k i(4) j(1)] nx by blast
    qed
  qed
  have sw: "?t ! h = slots ! ?s" "\<And>i. i \<noteq> h \<Longrightarrow> ?t ! i = slots ! i" using b(1,5) by simp_all
  have "fm_entries msk ?t ?s = fm_entries msk slots h"
  proof (intro set_eqI iffI)
    fix x
    assume "x \<in> fm_entries msk ?t ?s"
    then obtain i where i: "x = ?t ! i" "i < ?c" "i \<noteq> ?s" "?K i \<noteq> 0" unfolding fm_entries_def nz by blast
    then show "x \<in> fm_entries msk slots h"
      using sw nx assms(3) by (cases "i = h") (auto simp: fm_entries_def)
  next
    fix x
    assume "x \<in> fm_entries msk slots h"
    then obtain i where i: "x = slots ! i" "i < ?c" "i \<noteq> h" "?K i \<noteq> 0" unfolding fm_entries_def by blast
    then show "x \<in> fm_entries msk ?t ?s"
      unfolding fm_entries_def nz using sw nx b(1,4) by (cases "i = ?s") force+
  qed
  moreover have "fm_used msk ?t = fm_used msk slots" unfolding fm_used_def nz ..
  moreover have "fm_key ?t e = 0" "fm_key ?t ?s \<noteq> 0" using b(3,4) assms(3) unfolding key by auto
  ultimately show ?thesis using lt ds pt nx b(2,5) by (simp add: fm_hole_def)
qed

lemma fm_shift_correct:
  assumes "fm_hole msk slots h s e" and "msk + 1 = 2 ^ w" and "cdist (msk + 1) s e \<le> n"
  shows "\<exists>slots' h' s'. fm_shift n msk slots h s = Some (slots', h') \<and> fm_hole msk slots' h' s' e \<and>
    fm_key slots' (cnext (msk + 1) s') = 0 \<and> fm_entries msk slots' h' = fm_entries msk slots h \<and>
    fm_used msk slots' = fm_used msk slots"
  using assms(1,3)
proof (induction n arbitrary: slots h s)
  case 0
  then show ?case using fm_hole_next [OF 0(1)] by simp
next
  case (Suc n)
  let ?s = "cnext (msk + 1) s"
  note nx = fm_hole_next [OF Suc.prems(1)]
  have sc: "(s + 1) AND msk = ?s" using Suc.prems(1) by (intro cnext_mask [OF assms(2)]) (simp add: fm_hole_def)
  have h: "h < msk + 1" using Suc.prems(1) by (simp add: fm_hole_def)
  have n: "cdist (msk + 1) ?s e \<le> n" using nx Suc.prems(2) by linarith
  let ?a = "fm_slotFor msk (fm_key slots ?s)"
  consider "fm_key slots ?s = 0" | "fm_key slots ?s \<noteq> 0" "\<not> cdist (msk + 1) ?a h < cdist (msk + 1) ?a ?s"
    | "fm_key slots ?s \<noteq> 0" "cdist (msk + 1) ?a h < cdist (msk + 1) ?a ?s" by blast
  then show ?case
  proof cases
    case 1
    then have "fm_shift (Suc n) msk slots h s = Some (slots, h)" using sc by (simp add: fm_key_def)
    then show ?thesis using Suc.prems(1) 1 by blast
  next
    case 2
    have "fm_blocked h ?s ?a"
      using 2(2) blocked_iff [OF h _ fm_slotFor_less [OF assms(2)]] nx by blast
    then have "fm_shift (Suc n) msk slots h s = fm_shift n msk slots h ?s"
      using sc 2(1) unfolding fm_shift.simps Let_def fm_key_def by (simp only: if_False if_True)
    then show ?thesis using Suc.IH [OF fm_hole_skip [OF Suc.prems(1) 2] n] by simp
  next
    case 3
    have "\<not> fm_blocked h ?s ?a"
      using 3(2) blocked_iff [OF h _ fm_slotFor_less [OF assms(2)]] nx by blast
    then have "fm_shift (Suc n) msk slots h s = fm_shift n msk (slots[h := slots ! ?s]) ?s ?s"
      using sc 3(1) unfolding fm_shift.simps Let_def fm_key_def by (simp only: if_False if_True)
    moreover note mv = fm_hole_move [OF Suc.prems(1) assms(2) 3]
    ultimately show ?thesis using Suc.IH [OF conjunct1 [OF mv] n] by simp
  qed
qed

lemma fm_inv_hole:
  assumes "fm_inv m" and "h < fm_mask m + 1" and "fm_key (fm_slots m) h \<noteq> 0"
    and "e < fm_mask m + 1" and "fm_key (fm_slots m) e = 0"
  shows "fm_hole (fm_mask m) (fm_slots m) h h e"
proof -
  have "h \<noteq> e" using assms(3,5) by auto
  then have lt: "0 < cdist (fm_mask m + 1) h e" using cdist_eq_0 [OF assms(2,4)] by simp
  have len: "length (fm_slots m) = fm_mask m + 1" and ds: "fm_distinct (fm_mask m) (fm_slots m)"
    and ps: "fm_paths (fm_mask m) (fm_slots m)" using assms(1) by (simp_all add: fm_inv_def)
  have "fm_hole_distinct (fm_mask m) (fm_slots m) h"
    unfolding fm_hole_distinct_def fm_key_def by (intro allI impI) (rule fm_distinctD [OF ds], auto)
  moreover have "fm_hole_paths (fm_mask m) (fm_slots m) h h"
    unfolding fm_hole_paths_def
  proof (intro allI impI conjI)
    fix i k j
    assume i: "i < fm_mask m + 1" "i \<noteq> h" "fm_key (fm_slots m) i = k" "k \<noteq> 0"
    show "cdist (fm_mask m + 1) h h < cdist (fm_mask m + 1) h i" using i(2) cdist_eq_0 [OF assms(2) i(1)] by simp
    show "fm_key (fm_slots m) j \<noteq> 0" if "j < fm_mask m + 1"
      "cdist (fm_mask m + 1) (fm_slotFor (fm_mask m) k) j < cdist (fm_mask m + 1) (fm_slotFor (fm_mask m) k) i"
      by (rule fm_pathsD [OF ps i(1,3,4) that])
  qed
  ultimately show ?thesis using assms(2-5) lt len by (simp add: fm_hole_def)
qed

lemma fm_eraseAtHole_correct:
  assumes "fm_inv m" and "h < fm_mask m + 1" and "fm_key (fm_slots m) h = k" and "k \<noteq> 0"
  shows "fm_inv (FlatHashMap_eraseAtHole h m) \<and> fm_map (FlatHashMap_eraseAtHole h m) = (fm_map m)(k := None) \<and>
    fm_zero (FlatHashMap_eraseAtHole h m) = fm_zero m \<and> fm_mask (FlatHashMap_eraseAtHole h m) = fm_mask m \<and>
    fm_grows (FlatHashMap_eraseAtHole h m) = fm_grows m \<and> fm_size m = fm_size (FlatHashMap_eraseAtHole h m) + 1"
proof -
  let ?c = "fm_mask m + 1" and ?m = "fm_mask m"
  obtain w where w: "?c = 2 ^ w" "1 \<le> w" using assms(1) by (auto simp: fm_inv_def)
  obtain e where e: "e < ?c" "fm_key (fm_slots m) e = 0" using fm_inv_vacant [OF assms(1)] by blast
  have nz: "fm_key (fm_slots m) h \<noteq> 0" using assms(3,4) by simp
  have "cdist ?c h e \<le> ?c" using cdist_less [OF assms(2) e(1)] by simp
  from fm_shift_correct [OF fm_inv_hole [OF assms(1,2) nz e] w(1) this]
  obtain sl h' s' where sh: "fm_shift ?c ?m (fm_slots m) h h = Some (sl, h')" and hole: "fm_hole ?m sl h' s' e"
    and stop: "fm_key sl (cnext ?c s') = 0" and ent: "fm_entries ?m sl h' = fm_entries ?m (fm_slots m) h"
    and us: "fm_used ?m sl = fm_used ?m (fm_slots m)" by blast
  let ?t = "sl[h' := (0, fm_zero m)]" and ?r = "FlatHashMap_eraseAtHole h m"
  have r: "?r = m\<lparr>fm_slots := ?t, fm_size := size_dec (fm_size m)\<rparr>" using sh by (simp add: FlatHashMap_eraseAtHole_def)
  have hb: "h' < ?c" "length sl = ?c" "fm_key sl h' \<noteq> 0" "fm_hole_distinct ?m sl h'" using hole by (simp_all add: fm_hole_def)
  have key: "fm_key ?t i = (if i = h' then 0 else fm_key sl i)" for i using hb(1,2) by (simp add: fm_key_def nth_list_update)
  have used: "fm_used ?m ?t = fm_used ?m (fm_slots m) - {h'}" 
    unfolding us [symmetric] unfolding fm_used_def key by auto
  have hu: "h' \<in> fm_used ?m (fm_slots m)" using hb(1,3) unfolding us [symmetric] by (simp add: fm_used_def)
  have sz: "fm_size m = card (fm_used ?m (fm_slots m))" "fm_size m * 10 < ?c * 7" using assms(1) by (simp_all add: fm_inv_def)
  have pos: "0 < fm_size m" using sz hu card_gt_0_iff by fastforce
  have sd: "size_dec (fm_size m) = fm_size m - 1" by (rule size_dec_pos [OF pos])
  have ld: "(fm_size m - 1) * 10 < ?c * 7" by (rule order_le_less_trans [OF _ sz(2)]) simp
  have "card (fm_used ?m ?t) = fm_size m - 1" unfolding used using hu sz(1) by simp
  moreover have "fm_distinct ?m ?t"
    using hb(4) unfolding fm_hole_distinct_def fm_distinct_def key by (metis (full_types))
  moreover have "fm_paths ?m ?t"
    unfolding fm_paths_def key
  proof (intro allI impI)
    fix i j
    assume i: "i < ?c" "(if i = h' then 0 else fm_key sl i) \<noteq> 0" "j < ?c"
      "cdist ?c (fm_slotFor ?m (if i = h' then 0 else fm_key sl i)) j < cdist ?c (fm_slotFor ?m (if i = h' then 0 else fm_key sl i)) i"
    then have ih: "i \<noteq> h'" "fm_key sl i \<noteq> 0" by (auto split: if_splits)
    then have "j \<noteq> h'" using fm_hole_stop [OF hole w(1) stop i(1) ih(1) refl ih(2)] i(4) by auto
    then show "(if j = h' then 0 else fm_key sl j) \<noteq> 0"
      using fm_hole_path(1) [OF hole i(1) ih(1) refl ih(2) i(3)] i(4) ih by simp
  qed
  moreover have "\<exists>n \<ge> 1. fm_mask m + 1 = 2 ^ n" using w by blast
  ultimately have inv: "fm_inv ?r" using sd ld hb(2) unfolding r fm_inv_def by simp
  have slot: "(\<exists>i < ?c. ?t ! i = (k', v)) \<longleftrightarrow> (k', v) \<in> fm_entries ?m sl h'" if "k' \<noteq> 0" for k' v
  proof -
    have "?t ! i = (k', v) \<longleftrightarrow> i \<noteq> h' \<and> sl ! i = (k', v) \<and> fm_key sl i \<noteq> 0" if "i < ?c" for i
      using that hb(1,2) \<open>k' \<noteq> 0\<close> by (auto simp: nth_list_update fm_key_def)
    then show ?thesis unfolding fm_entries_def by (smt (verit) mem_Collect_eq)
  qed
  have "fm_map ?r = (fm_map m)(k := None)"
  proof
    fix k'
    have ds: "fm_distinct ?m (fm_slots m)" using assms(1) by (simp add: fm_inv_def)
    have old: "(k', v) \<in> fm_entries ?m (fm_slots m) h \<longleftrightarrow> k' \<noteq> k \<and> fm_map m k' = Some v" if k': "k' \<noteq> 0" for v
    proof -
      have "(k', v) \<in> fm_entries ?m (fm_slots m) h \<longleftrightarrow> (\<exists>i < ?c. i \<noteq> h \<and> fm_slots m ! i = (k', v))"
        using k' unfolding fm_entries_def fm_key_def mem_Collect_eq by (metis fst_conv)
      moreover have "i \<noteq> h \<longleftrightarrow> k' \<noteq> k" if "i < ?c" "fm_slots m ! i = (k', v)" for i
        using fm_distinctD [OF ds that(1) assms(2) _ _ assms(4)] assms(3) that(2) unfolding fm_key_def by auto
      ultimately show ?thesis unfolding fm_map_iff [OF assms(1)] using k' by blast
    qed
    have "fm_map ?r k' = Some v \<longleftrightarrow> ((fm_map m)(k := None)) k' = Some v" for v
      using slot [of k' v] old [of v] ent fm_map_iff [OF inv, of k' v] fm_map_iff [OF assms(1), of k' v]
      by (cases "k' = 0") (auto simp: r)
    then show "fm_map ?r k' = ((fm_map m)(k := None)) k'" by (metis option.exhaust)
  qed
  then show ?thesis using inv sd pos by (simp add: r)
qed

section \<open>The map interface\<close>

text \<open>
  What the clients of the map rely on. A pointer \<open>p\<close> with \<open>find k m = Some p\<close> may be read, written
  through, or passed to \<^verbatim>\<open>eraseAt\<close>; \<open>look\<close> is the finite map the table stands for.
\<close>

locale pointer_map =
  fixes invar :: "'m \<Rightarrow> bool" and look :: "'m \<Rightarrow> 'k::zero \<rightharpoonup> 'v"
    and find :: "'k \<Rightarrow> 'm \<Rightarrow> 'p option" and at :: "'p \<Rightarrow> 'm \<Rightarrow> 'v" and put :: "'p \<Rightarrow> 'v \<Rightarrow> 'm \<Rightarrow> 'm"
    and ins :: "'k \<Rightarrow> 'v \<Rightarrow> 'm \<Rightarrow> 'm" and eraseAt :: "'p \<Rightarrow> 'm \<Rightarrow> 'm"
  assumes look_zero: "look m 0 = None"
    and find_None: "invar m \<Longrightarrow> k \<noteq> 0 \<Longrightarrow> find k m = None \<longleftrightarrow> look m k = None"
    and find_Some: "invar m \<Longrightarrow> k \<noteq> 0 \<Longrightarrow> find k m = Some p \<Longrightarrow> look m k = Some (at p m)"
    and put_spec: "invar m \<Longrightarrow> k \<noteq> 0 \<Longrightarrow> find k m = Some p \<Longrightarrow>
      invar (put p v m) \<and> look (put p v m) = (look m)(k \<mapsto> v) \<and> find k (put p v m) = Some p"
    and ins_spec: "invar m \<Longrightarrow> k \<noteq> 0 \<Longrightarrow> invar (ins k v m) \<and> look (ins k v m) = (look m)(k \<mapsto> v)"
    and erase_spec: "invar m \<Longrightarrow> k \<noteq> 0 \<Longrightarrow> find k m = Some p \<Longrightarrow>
      invar (eraseAt p m) \<and> look (eraseAt p m) = (look m)(k := None)"
begin

lemma find_cases:
  assumes "invar m" and "k \<noteq> 0"
  obtains (absent) "find k m = None" "look m k = None"
    | (present) p where "find k m = Some p" "look m k = Some (at p m)"
  using assms find_None find_Some by (cases "find k m") auto

lemma find_ins: "invar m \<Longrightarrow> k \<noteq> 0 \<Longrightarrow> \<exists>p. find k (ins k v m) = Some p \<and> at p (ins k v m) = v"
proof -
  assume a: "invar m" "k \<noteq> 0"
  note s = ins_spec [OF a, of v]
  from conjunct1 [OF s] a(2) show ?thesis
    by (cases rule: find_cases) (use s in auto)
qed

lemma ran_ins: "invar m \<Longrightarrow> k \<noteq> 0 \<Longrightarrow> ran (look (ins k v m)) \<subseteq> insert v (ran (look m))"
  using ins_spec [of m k v] by (auto simp: ran_def)

lemma ran_erase: "invar m \<Longrightarrow> k \<noteq> 0 \<Longrightarrow> find k m = Some p \<Longrightarrow> ran (look (eraseAt p m)) \<subseteq> ran (look m)"
  using erase_spec [of m k p] by (auto simp: ran_def)

end

lemma fm_put_correct:
  assumes "fm_inv m" and "k \<noteq> 0" and "FlatHashMap_locate k m = Some p"
  shows "fm_inv (FlatHashMap_put p v m) \<and> fm_map (FlatHashMap_put p v m) = (fm_map m)(k \<mapsto> v) \<and>
    FlatHashMap_locate k (FlatHashMap_put p v m) = Some p"
proof -
  have p: "p < fm_mask m + 1" "fm_key (fm_slots m) p = k" using fm_locate_Some [OF assms] by auto
  have kp: "fst (fm_slots m ! p) = k" using p(2) by (simp add: fm_key_def)
  let ?m = "FlatHashMap_put p v m"
  have m: "?m = m\<lparr>fm_slots := (fm_slots m)[p := (k, v)]\<rparr>" by (simp add: FlatHashMap_put_def kp)
  have len: "p < length (fm_slots m)" using assms(1) p(1) by (simp add: fm_inv_def)
  have "insert p (fm_used (fm_mask m) (fm_slots m)) = fm_used (fm_mask m) (fm_slots m)"
    using p assms(2) by (auto simp: fm_used_def)
  then have inv: "fm_inv ?m" using assms(1) fm_write [OF assms(1,2) p(1), of v] p(2) by (simp add: m fm_inv_def)
  moreover have "fm_map ?m = (fm_map m)(k \<mapsto> v)"
    by (rule fm_slot_write [OF assms(1,2) p(1) _ inv]) (simp_all add: p(2) m)
  moreover have "fm_locate_test (fm_slots ?m) k = fm_locate_test (fm_slots m) k"
    using len kp by (intro ext) (auto simp: fm_locate_test_def m nth_list_update)
  then have "FlatHashMap_locate k ?m = Some p" using assms(3) by (simp add: FlatHashMap_locate_def fm_seek_def m)
  ultimately show ?thesis by blast
qed

lemma fm_insertOrAssign_correct:
  assumes "fm_inv m" and "k \<noteq> 0"
  shows "fm_inv (FlatHashMap_insertOrAssign k v m) \<and> fm_map (FlatHashMap_insertOrAssign k v m) = (fm_map m)(k \<mapsto> v)"
  using fm_insert_correct [OF assms, of 63 v] by (auto simp: FlatHashMap_insertOrAssign_def)

interpretation fmap: pointer_map fm_inv fm_map FlatHashMap_find FlatHashMap_at FlatHashMap_put
  FlatHashMap_insertOrAssign FlatHashMap_eraseAt
proof unfold_locales
  fix m :: "('a word, 'b) FlatHashMap" and k :: "'a word" and p :: nat and v :: 'b
  show "fm_map m 0 = None" by (simp add: fm_map_def)
  assume a: "fm_inv m" "k \<noteq> 0"
  show "FlatHashMap_find k m = None \<longleftrightarrow> fm_map m k = None" using fm_locate_None [OF a] by (simp add: fm_find_locate [OF a(2)])
  show "fm_inv (FlatHashMap_insertOrAssign k v m) \<and> fm_map (FlatHashMap_insertOrAssign k v m) = (fm_map m)(k \<mapsto> v)"
    by (rule fm_insertOrAssign_correct [OF a])
  assume "FlatHashMap_find k m = Some p"
  then have f: "FlatHashMap_locate k m = Some p" by (simp add: fm_find_locate [OF a(2)])
  then show "fm_map m k = Some (FlatHashMap_at p m)" using fm_locate_Some [OF a] by blast
  show "fm_inv (FlatHashMap_put p v m) \<and> fm_map (FlatHashMap_put p v m) = (fm_map m)(k \<mapsto> v) \<and>
      FlatHashMap_find k (FlatHashMap_put p v m) = Some p"
    using fm_put_correct [OF a f] by (simp add: fm_find_locate [OF a(2)])
  show "fm_inv (FlatHashMap_eraseAt p m) \<and> fm_map (FlatHashMap_eraseAt p m) = (fm_map m)(k := None)"
    using fm_eraseAtHole_correct [OF a(1)] fm_locate_Some [OF a f] a(2) unfolding FlatHashMap_eraseAt_def by blast
qed

lemma fm_erase_correct:
  assumes "fm_inv m" and "k \<noteq> 0"
  shows "fst (FlatHashMap_erase k m) = (fm_map m k \<noteq> None) \<and> fm_inv (snd (FlatHashMap_erase k m)) \<and>
    fm_map (snd (FlatHashMap_erase k m)) = (fm_map m)(k := None)"
proof (cases "FlatHashMap_locate k m")
  case None
  then have "fm_map m k = None" using fm_locate_None [OF assms] by simp
  then show ?thesis using None assms(1) by (auto simp: FlatHashMap_erase_def)
next
  case (Some p)
  then show ?thesis
    using fm_locate_Some [OF assms Some] fm_eraseAtHole_correct [OF assms(1), of p k] assms(2) by (auto simp: FlatHashMap_erase_def)
qed

lemma fm_nextPow2_loop_pow: "p = 2 ^ i \<Longrightarrow> \<exists>j \<ge> i. fm_nextPow2_loop n p = 2 ^ j \<and> n \<le> 2 ^ j"
proof (induction n p arbitrary: i rule: fm_nextPow2_loop.induct)
  case (1 n p)
  show ?case
  proof (cases "p < n \<and> 0 < p")
    case True
    then obtain j where "j \<ge> Suc i" "fm_nextPow2_loop n (2 * p) = 2 ^ j \<and> n \<le> 2 ^ j"
      using "1.IH" [of "Suc i"] "1.prems" by auto
    moreover have "fm_nextPow2_loop n p = fm_nextPow2_loop n (2 * p)" using True by (subst fm_nextPow2_loop.simps) simp
    ultimately show ?thesis by (metis Suc_leD)
  next
    case False
    then have "fm_nextPow2_loop n p = p" "n \<le> p" using "1.prems" by (auto simp: fm_nextPow2_loop.simps)
    then show ?thesis using "1.prems" by blast
  qed
qed

lemma FlatHashMap_new_correct:
  "fm_inv (FlatHashMap_new hint z :: ('k::len word, 'v) FlatHashMap) \<and>
   fm_map (FlatHashMap_new hint z :: ('k word, 'v) FlatHashMap) = Map.empty"
proof -
  let ?n = "if hint < 16 then 16 else hint"
  obtain j where j: "fm_nextPow2 ?n = 2 ^ j" "?n \<le> 2 ^ j"
    using fm_nextPow2_loop_pow [of 1 0 ?n] unfolding fm_nextPow2_def by auto
  have "1 \<le> j"
  proof (rule ccontr)
    assume "\<not> 1 \<le> j"
    then have "j = 0" by simp
    then show False using j(2) by (simp split: if_splits)
  qed
  then show ?thesis
    by (intro fm_inv_empty [of _ j z]) (simp_all add: FlatHashMap_new_def Let_def j(1) del: replicate.simps)
qed

lemma FlatHashMap_new_inv [simp]: "fm_inv (FlatHashMap_new hint z)"
  by (rule conjunct1 [OF FlatHashMap_new_correct])

lemma FlatHashMap_new_map [simp]: "fm_map (FlatHashMap_new hint z) = Map.empty"
  by (rule conjunct2 [OF FlatHashMap_new_correct])

lemma FlatHashMap_clear_correct: "fm_inv m \<Longrightarrow> fm_inv (FlatHashMap_clear m) \<and> fm_map (FlatHashMap_clear m) = Map.empty"
proof -
  assume a: "fm_inv m"
  then obtain n where "fm_mask m + 1 = 2 ^ n" "1 \<le> n" "length (fm_slots m) = fm_mask m + 1" by (auto simp: fm_inv_def)
  then show ?thesis
    by (intro fm_inv_empty [of _ n "fm_zero m"]) (simp_all add: FlatHashMap_clear_def map_replicate_const del: replicate.simps)
qed

section \<open>Properties\<close>

lemma countGrowsIn_map: "fm_inv (FlatHashMap_countGrowsIn m) = fm_inv m" "fm_map (FlatHashMap_countGrowsIn m) = fm_map m"
  by (simp_all add: FlatHashMap_countGrowsIn_def fm_inv_def) (simp add: fm_map_def fun_eq_iff)

text \<open>Erasing the reserved key changes nothing; \<^verbatim>\<open>take\<close> is a lookup and an erasure.\<close>

lemma locate_zero: "FlatHashMap_locate 0 m = None"
proof -
  have "fm_probe (fm_locate_test slots 0) msk n i \<noteq> Hit j" for slots :: "('a word \<times> 'b) list" and msk n i j
    by (induction n arbitrary: i) (auto simp: fm_locate_test_def split: option.splits)
  then have "fm_seek 0 m \<noteq> Hit j" for j unfolding fm_seek_def by blast
  then show ?thesis unfolding FlatHashMap_locate_def by (cases "fm_seek 0 m") auto
qed

lemma erase_map:
  assumes "fm_inv m"
  shows "fm_inv (snd (FlatHashMap_erase k m)) \<and> fm_map (snd (FlatHashMap_erase k m)) = (fm_map m)(k := None)"
proof (cases "k = 0")
  case True
  then show ?thesis using assms by (auto simp: FlatHashMap_erase_def locate_zero fmap.look_zero fun_eq_iff)
qed (use fm_erase_correct [OF assms] in auto)

lemma take_correct:
  assumes "fm_inv m" and "k \<noteq> 0"
  shows "\<exists>m'. FlatHashMap_take k m = (fm_map m k, m') \<and> fm_inv m' \<and> fm_map m' = (fm_map m)(k := None)"
proof -
  note e = fm_erase_correct [OF assms]
  have s: "snd (FlatHashMap_take k m) = snd (FlatHashMap_erase k m)" by (simp add: FlatHashMap_take_def FlatHashMap_erase_def split: option.split)
  have "FlatHashMap_find k m = FlatHashMap_locate k m" by (rule fm_find_locate) (use assms in simp_all)
  then have f: "fst (FlatHashMap_take k m) = fm_map m k"
    using fmap.find_None [OF assms] fmap.find_Some [OF assms] by (auto simp: FlatHashMap_take_def FlatHashMap_at_def split: option.split)
  show ?thesis using e s f by (metis prod.collapse)
qed

text \<open>
  C7. The table implements a finite map: on every well-formed table and for every non-empty key,
  \<^verbatim>\<open>insertOrAssign\<close> is the map update and \<^verbatim>\<open>erase\<close> the map removal (with the result telling whether the
  key was present), both keep the table well formed, and \<^verbatim>\<open>find\<close> returns a pointer to the stored value
  exactly for the keys of the map.
\<close>

theorem FlatHashMap_refines_map:
  assumes "fm_inv m" and "k \<noteq> 0"
  shows "map_option (\<lambda>p. FlatHashMap_at p m) (FlatHashMap_find k m) = fm_map m k \<and>
    fm_inv (FlatHashMap_insertOrAssign k v m) \<and> fm_map (FlatHashMap_insertOrAssign k v m) = (fm_map m)(k \<mapsto> v) \<and>
    fst (FlatHashMap_erase k m) = (fm_map m k \<noteq> None) \<and> fm_inv (snd (FlatHashMap_erase k m)) \<and>
    fm_map (snd (FlatHashMap_erase k m)) = (fm_map m)(k := None)"
proof -
  have "map_option (\<lambda>p. FlatHashMap_at p m) (FlatHashMap_find k m) = fm_map m k"
    using assms by (cases rule: fmap.find_cases) simp_all
  then show ?thesis using fm_insertOrAssign_correct [OF assms] fm_erase_correct [OF assms] by blast
qed

theorem FlatHashMap_refines_map_witness:
  "let m = FlatHashMap_insertOrAssign 5 True (FlatHashMap_new 0 False) :: (64 word, bool) FlatHashMap
   in fm_map (snd (FlatHashMap_erase 5 m)) = (fm_map m)(5 := None) \<and> fst (FlatHashMap_erase 5 m)"
proof -
  let ?n = "FlatHashMap_new 0 False :: (64 word, bool) FlatHashMap"
  have "fm_inv ?n" "fm_map ?n = Map.empty" by simp_all
  then have "fm_inv (FlatHashMap_insertOrAssign 5 True ?n)" "fm_map (FlatHashMap_insertOrAssign 5 True ?n) 5 = Some True"
    using fm_insertOrAssign_correct [of ?n 5 True] by auto
  then show ?thesis
    using FlatHashMap_refines_map [of "FlatHashMap_insertOrAssign 5 True ?n" 5 True] by (simp add: Let_def)
qed

text \<open>
  C35. Every loop of the table ends on a well-formed table: the probes of \<^verbatim>\<open>find\<close>, \<^verbatim>\<open>insertOrAssign\<close> and
  \<^verbatim>\<open>erase\<close> reach the key or an empty slot within one pass over the table, a growth re-inserts without
  growing again, and the backward shift meets an empty slot within one pass.
\<close>

theorem FlatHashMap_loops_end:
  assumes "fm_inv m" and "k \<noteq> 0"
  shows "fm_probe (fm_find_test (fm_slots m) k) (fm_mask m) (fm_mask m + 1) (fm_slotFor (fm_mask m) k) \<noteq> Spin \<and>
    (\<exists>m'. fm_insert 1 k v m = Some m') \<and> (\<exists>m'. fm_grow 0 m = Some m') \<and>
    (\<forall>h. FlatHashMap_find k m = Some h \<longrightarrow>
       (\<exists>r. fm_shift (fm_mask m + 1) (fm_mask m) (fm_slots m) h h = Some r))"
proof -
  have "fm_find_test (fm_slots m) k = fm_locate_test (fm_slots m) k"
    using assms(2) by (auto simp: fm_find_test_def fm_locate_test_def)
  moreover have "fm_seek k m \<noteq> Spin" using assms by (cases rule: fm_seek_cases) simp_all
  ultimately have "fm_probe (fm_find_test (fm_slots m) k) (fm_mask m) (fm_mask m + 1) (fm_slotFor (fm_mask m) k) \<noteq> Spin"
    unfolding fm_seek_def by simp
  moreover have "\<exists>m'. fm_insert 1 k v m = Some m'" using fm_insert_correct [OF assms, of 0 v] by (metis One_nat_def)
  moreover have "\<exists>m'. fm_grow 0 m = Some m'" using fm_grow_correct [OF assms(1)] by blast
  moreover have "\<exists>r. fm_shift (fm_mask m + 1) (fm_mask m) (fm_slots m) h h = Some r" if "FlatHashMap_find k m = Some h" for h
  proof -
    have f: "FlatHashMap_locate k m = Some h" using that by (simp add: fm_find_locate [OF assms(2)])
    have h: "h < fm_mask m + 1" "fm_key (fm_slots m) h \<noteq> 0" using fm_locate_Some [OF assms f] assms(2) by auto
    obtain e where e: "e < fm_mask m + 1" "fm_key (fm_slots m) e = 0" using fm_inv_vacant [OF assms(1)] by blast
    obtain w where w: "fm_mask m + 1 = 2 ^ w" using assms(1) by (auto simp: fm_inv_def)
    have "cdist (fm_mask m + 1) h e \<le> fm_mask m + 1" using cdist_less [OF h(1) e(1)] by simp
    from fm_shift_correct [OF fm_inv_hole [OF assms(1) h e] w this] show ?thesis by blast
  qed
  ultimately show ?thesis by blast
qed

theorem FlatHashMap_loops_end_witness:
  "\<exists>m'. fm_insert 1 7 True (FlatHashMap_new 0 False :: (64 word, bool) FlatHashMap) = Some m'"
  using FlatHashMap_loops_end [of "FlatHashMap_new 0 False" "7 :: 64 word" True] by simp

text \<open>
  The reserved key is not handled by \<^verbatim>\<open>find\<close>: the probe compares the key before it tests for an empty
  slot, so looking up key 0 in an empty table returns a pointer to an empty slot instead of no pointer,
  although \<^verbatim>\<open>erase\<close> (which tests for an empty slot first) reports the key as absent.
\<close>

theorem FlatHashMap_find_empty_key:
  "\<exists>i. FlatHashMap_find 0 (FlatHashMap_new hint z :: ('k::len word, 'v) FlatHashMap) = Some i \<and>
     \<not> fst (FlatHashMap_erase 0 (FlatHashMap_new hint z :: ('k word, 'v) FlatHashMap))"
proof -
  let ?m = "FlatHashMap_new hint z :: ('k word, 'v) FlatHashMap"
  let ?i = "fm_slotFor (fm_mask ?m) (0 :: 'k word)"
  have "fm_inv ?m" by simp
  then obtain w where w: "fm_mask ?m + 1 = 2 ^ w" and len: "length (fm_slots ?m) = fm_mask ?m + 1"
    unfolding fm_inv_def by blast
  have i: "?i < fm_mask ?m + 1" by (rule fm_slotFor_less [OF w])
  obtain N where N: "fm_slots ?m = replicate N (0, z)" by (auto simp: FlatHashMap_new_def Let_def)
  then have sl: "fm_slots ?m ! ?i = (0, z)" using i len by (metis length_replicate nth_replicate)
  have "FlatHashMap_find 0 ?m = Some ?i" by (simp add: FlatHashMap_find_def fm_find_test_def sl)
  moreover have "FlatHashMap_locate 0 ?m = None" by (simp add: FlatHashMap_locate_def fm_seek_def fm_locate_test_def sl)
  ultimately show ?thesis by (simp add: FlatHashMap_erase_def)
qed

end
