(* ===== verification/OrderBook.thy ===== *)
theory OrderBook
  imports Prelude
begin

text \<open>
  The limit order book and matching engine of \<^verbatim>\<open>lob/Types.hpp\<close> and \<^verbatim>\<open>lob/OrderBook.hpp\<close>: two arrays of price
  levels, each level a doubly linked list of orders in one pool, freed orders on a free list, and
  the best prices cached. Handles are indices into the pool with \<open>kNilHandle\<close> for none; prices are
  integers (the sources use \<^verbatim>\<open>int32_t\<close> and the ranges below keep them inside it), quantities are 32-bit
  words. A reference \<^verbatim>\<open>Level&\<close> is the side and the price that select the level.

  The loops of \<^verbatim>\<open>matchLevel\<close> and \<^verbatim>\<open>match\<close> take fuel and return \<open>None\<close> when it runs out; the fuel that
  the operations pass is shown to be enough on every well-formed book.
\<close>

section \<open>Data\<close>

type_synonym Price = int
type_synonym Quantity = u32
type_synonym OrderId = u64
type_synonym Handle = nat

definition kNilHandle :: Handle where "kNilHandle = 2 ^ 32 - 1"
definition kNoPrice :: Price where "kNoPrice = - (2 ^ 31)"

datatype Side = Buy | Sell

primrec opposite :: "Side \<Rightarrow> Side" where
  "opposite Buy = Sell"
| "opposite Sell = Buy"

definition wirePrice :: "Price \<Rightarrow> u64" where
  "wirePrice p = of_int p"

record Order =
  o_id :: OrderId
  o_price :: Price
  o_qty :: Quantity
  o_side :: Side
  o_prev :: Handle
  o_next :: Handle

record Trade =
  t_restingId :: OrderId
  t_aggressorId :: OrderId
  t_price :: Price
  t_qty :: Quantity
  t_aggressorSide :: Side
  t_restingFilled :: bool

record Level =
  l_totalQty :: Quantity
  l_head :: Handle
  l_tail :: Handle
  l_count :: u32

record OrderBook =
  ob_minPrice :: Price
  ob_maxPrice :: Price
  ob_bestBid :: Price
  ob_bestAsk :: Price
  ob_bidLevels :: "Level list"
  ob_askLevels :: "Level list"
  ob_pool :: "Order list"
  ob_freeHead :: Handle

definition Level_new :: Level where
  "Level_new = \<lparr>l_totalQty = 0, l_head = kNilHandle, l_tail = kNilHandle, l_count = 0\<rparr>"

definition Order_zero :: Order where
  "Order_zero = \<lparr>o_id = 0, o_price = 0, o_qty = 0, o_side = Buy, o_prev = 0, o_next = 0\<rparr>"

section \<open>Operations\<close>

definition OrderBook_new :: "Price \<Rightarrow> Price \<Rightarrow> OrderBook" where
  "OrderBook_new minPrice maxPrice =
     (let levelCount = nat (maxPrice - minPrice) + 1
      in \<lparr>ob_minPrice = minPrice, ob_maxPrice = maxPrice, ob_bestBid = kNoPrice, ob_bestAsk = kNoPrice,
          ob_bidLevels = replicate levelCount Level_new, ob_askLevels = replicate levelCount Level_new,
          ob_pool = [], ob_freeHead = kNilHandle\<rparr>)"

definition OrderBook_index :: "OrderBook \<Rightarrow> Price \<Rightarrow> nat" where
  "OrderBook_index b p = nat (p - ob_minPrice b)"

primrec side_levels :: "Side \<Rightarrow> OrderBook \<Rightarrow> Level list" where
  "side_levels Buy b = ob_bidLevels b"
| "side_levels Sell b = ob_askLevels b"

definition OrderBook_levelFor :: "Side \<Rightarrow> Price \<Rightarrow> OrderBook \<Rightarrow> Level" where
  "OrderBook_levelFor s p b = side_levels s b ! OrderBook_index b p"

text \<open>Writes through a \<^verbatim>\<open>Level&\<close> and through an \<^verbatim>\<open>Order&\<close>.\<close>

primrec level_upd :: "Side \<Rightarrow> Price \<Rightarrow> (Level \<Rightarrow> Level) \<Rightarrow> OrderBook \<Rightarrow> OrderBook" where
  "level_upd Buy p f b = b\<lparr>ob_bidLevels := (ob_bidLevels b)[OrderBook_index b p := f (OrderBook_levelFor Buy p b)]\<rparr>"
| "level_upd Sell p f b = b\<lparr>ob_askLevels := (ob_askLevels b)[OrderBook_index b p := f (OrderBook_levelFor Sell p b)]\<rparr>"

definition pool_upd :: "Handle \<Rightarrow> (Order \<Rightarrow> Order) \<Rightarrow> OrderBook \<Rightarrow> OrderBook" where
  "pool_upd h f b = b\<lparr>ob_pool := (ob_pool b)[h := f (ob_pool b ! h)]\<rparr>"

definition OrderBook_alloc :: "OrderBook \<Rightarrow> Handle \<times> OrderBook" where
  "OrderBook_alloc b =
     (if ob_freeHead b \<noteq> kNilHandle then
        let h = ob_freeHead b in (h, b\<lparr>ob_freeHead := o_next (ob_pool b ! h)\<rparr>)
      else (length (ob_pool b), b\<lparr>ob_pool := ob_pool b @ [Order_zero]\<rparr>))"

definition OrderBook_free :: "Handle \<Rightarrow> OrderBook \<Rightarrow> OrderBook" where
  "OrderBook_free h b = (pool_upd h (\<lambda>x. x\<lparr>o_next := ob_freeHead b\<rparr>) b)\<lparr>ob_freeHead := h\<rparr>"

definition OrderBook_unlink :: "Side \<Rightarrow> Price \<Rightarrow> Handle \<Rightarrow> OrderBook \<Rightarrow> OrderBook" where
  "OrderBook_unlink s p h b =
     (let o1 = ob_pool b ! h;
          b1 = (if o_prev o1 \<noteq> kNilHandle then pool_upd (o_prev o1) (\<lambda>x. x\<lparr>o_next := o_next o1\<rparr>) b
                else level_upd s p (\<lambda>l. l\<lparr>l_head := o_next o1\<rparr>) b);
          o2 = ob_pool b1 ! h
      in if o_next o2 \<noteq> kNilHandle then pool_upd (o_next o2) (\<lambda>x. x\<lparr>o_prev := o_prev o2\<rparr>) b1
         else level_upd s p (\<lambda>l. l\<lparr>l_tail := o_prev o2\<rparr>) b1)"

text \<open>One iteration of the loop of \<^verbatim>\<open>matchLevel\<close>: the trade, the quantity filled and the book after it.\<close>

definition matchLevel_step :: "Side \<Rightarrow> Price \<Rightarrow> OrderId \<Rightarrow> Side \<Rightarrow> Quantity \<Rightarrow> OrderBook \<Rightarrow> Trade \<times> Quantity \<times> OrderBook" where
  "matchLevel_step s p aggId aggSide qty b =
     (let rh = l_head (OrderBook_levelFor s p b);
          r = ob_pool b ! rh;
          fill = (if qty < o_qty r then qty else o_qty r);
          restingFilled = (fill = o_qty r);
          trade = \<lparr>t_restingId = o_id r, t_aggressorId = aggId, t_price = o_price r, t_qty = fill,
                   t_aggressorSide = aggSide, t_restingFilled = restingFilled\<rparr>;
          b1 = pool_upd rh (\<lambda>x. x\<lparr>o_qty := o_qty x - fill\<rparr>) b;
          b2 = level_upd s p (\<lambda>l. l\<lparr>l_totalQty := l_totalQty l - fill\<rparr>) b1
      in (trade, fill,
          if restingFilled then
            let nx = o_next (ob_pool b2 ! rh);
                b3 = level_upd s p (\<lambda>l. l\<lparr>l_head := nx\<rparr>) b2;
                b4 = (if nx \<noteq> kNilHandle then pool_upd nx (\<lambda>x. x\<lparr>o_prev := kNilHandle\<rparr>) b3
                      else level_upd s p (\<lambda>l. l\<lparr>l_tail := kNilHandle\<rparr>) b3);
                b5 = level_upd s p (\<lambda>l. l\<lparr>l_count := l_count l - 1\<rparr>) b4
            in OrderBook_free rh b5
          else b2))"

primrec OrderBook_matchLevel :: "nat \<Rightarrow> Side \<Rightarrow> Price \<Rightarrow> OrderId \<Rightarrow> Side \<Rightarrow> (Trade \<Rightarrow> 's \<Rightarrow> 's) \<Rightarrow>
    Quantity \<Rightarrow> 's \<Rightarrow> OrderBook \<Rightarrow> (Quantity \<times> 's \<times> OrderBook) option" where
  "OrderBook_matchLevel 0 s p aggId aggSide onTrade qty z b = None"
| "OrderBook_matchLevel (Suc n) s p aggId aggSide onTrade qty z b =
     (if qty > 0 \<and> l_head (OrderBook_levelFor s p b) \<noteq> kNilHandle then
        let (trade, fill, b') = matchLevel_step s p aggId aggSide qty b
        in OrderBook_matchLevel n s p aggId aggSide onTrade (qty - fill) (onTrade trade z) b'
      else Some (qty, z, b))"

function rescan_bid :: "OrderBook \<Rightarrow> Price \<Rightarrow> Price" where
  "rescan_bid b p =
     (if p \<ge> ob_minPrice b then
        if l_totalQty (OrderBook_levelFor Buy p b) > 0 then p else rescan_bid b (p - 1)
      else kNoPrice)"
  by pat_completeness auto
termination by (relation "measure (\<lambda>(b, p). nat (p - ob_minPrice b + 1))") auto

function rescan_ask :: "OrderBook \<Rightarrow> Price \<Rightarrow> Price" where
  "rescan_ask b p =
     (if p \<le> ob_maxPrice b then
        if l_totalQty (OrderBook_levelFor Sell p b) > 0 then p else rescan_ask b (p + 1)
      else kNoPrice)"
  by pat_completeness auto
termination by (relation "measure (\<lambda>(b, p). nat (ob_maxPrice b - p + 1))") auto

declare rescan_bid.simps [simp del] rescan_ask.simps [simp del]

definition OrderBook_rescanBestBid :: "OrderBook \<Rightarrow> OrderBook" where
  "OrderBook_rescanBestBid b = b\<lparr>ob_bestBid := rescan_bid b (ob_bestBid b)\<rparr>"

definition OrderBook_rescanBestAsk :: "OrderBook \<Rightarrow> OrderBook" where
  "OrderBook_rescanBestAsk b = b\<lparr>ob_bestAsk := rescan_ask b (ob_bestAsk b)\<rparr>"

text \<open>The two loops of \<^verbatim>\<open>match\<close>.\<close>

primrec match_buy :: "nat \<Rightarrow> OrderId \<Rightarrow> Price \<Rightarrow> (Trade \<Rightarrow> 's \<Rightarrow> 's) \<Rightarrow> Quantity \<Rightarrow> 's \<Rightarrow> OrderBook \<Rightarrow>
    (Quantity \<times> 's \<times> OrderBook) option" where
  "match_buy 0 aggId price onTrade qty z b = None"
| "match_buy (Suc n) aggId price onTrade qty z b =
     (if qty > 0 \<and> ob_bestAsk b \<noteq> kNoPrice \<and> price \<ge> ob_bestAsk b then
        let p = ob_bestAsk b
        in case OrderBook_matchLevel (Suc (Suc (length (ob_pool b)))) Sell p aggId Buy onTrade qty z b of
             None \<Rightarrow> None
           | Some (qty', z', b') \<Rightarrow>
               match_buy n aggId price onTrade qty' z'
                 (if l_totalQty (OrderBook_levelFor Sell p b') = 0 then OrderBook_rescanBestAsk b' else b')
      else Some (qty, z, b))"

primrec match_sell :: "nat \<Rightarrow> OrderId \<Rightarrow> Price \<Rightarrow> (Trade \<Rightarrow> 's \<Rightarrow> 's) \<Rightarrow> Quantity \<Rightarrow> 's \<Rightarrow> OrderBook \<Rightarrow>
    (Quantity \<times> 's \<times> OrderBook) option" where
  "match_sell 0 aggId price onTrade qty z b = None"
| "match_sell (Suc n) aggId price onTrade qty z b =
     (if qty > 0 \<and> ob_bestBid b \<noteq> kNoPrice \<and> price \<le> ob_bestBid b then
        let p = ob_bestBid b
        in case OrderBook_matchLevel (Suc (Suc (length (ob_pool b)))) Buy p aggId Sell onTrade qty z b of
             None \<Rightarrow> None
           | Some (qty', z', b') \<Rightarrow>
               match_sell n aggId price onTrade qty' z'
                 (if l_totalQty (OrderBook_levelFor Buy p b') = 0 then OrderBook_rescanBestBid b' else b')
      else Some (qty, z, b))"

definition refused :: "Price \<Rightarrow> Quantity \<Rightarrow> OrderBook \<Rightarrow> bool" where
  "refused price qty b \<longleftrightarrow> qty = 0 \<or> price < ob_minPrice b \<or> price > ob_maxPrice b"

definition match_loops :: "OrderId \<Rightarrow> Side \<Rightarrow> Price \<Rightarrow> Quantity \<Rightarrow> (Trade \<Rightarrow> 's \<Rightarrow> 's) \<Rightarrow> 's \<Rightarrow> OrderBook \<Rightarrow>
    (Quantity \<times> 's \<times> OrderBook) option" where
  "match_loops aggId side price qty onTrade z b =
     (let fuel = length (ob_bidLevels b) + 2
      in case side of Buy \<Rightarrow> match_buy fuel aggId price onTrade qty z b
                    | Sell \<Rightarrow> match_sell fuel aggId price onTrade qty z b)"

definition OrderBook_match :: "OrderId \<Rightarrow> Side \<Rightarrow> Price \<Rightarrow> Quantity \<Rightarrow> (Trade \<Rightarrow> 's \<Rightarrow> 's) \<Rightarrow> 's \<Rightarrow> OrderBook \<Rightarrow>
    Quantity \<times> 's \<times> OrderBook" where
  "OrderBook_match aggId side price qty onTrade z b =
     (if refused price qty b then (0, z, b)
      else case match_loops aggId side price qty onTrade z b of None \<Rightarrow> (qty, z, b) | Some r \<Rightarrow> r)"

definition OrderBook_rest :: "OrderId \<Rightarrow> Side \<Rightarrow> Price \<Rightarrow> Quantity \<Rightarrow> OrderBook \<Rightarrow> Handle \<times> OrderBook" where
  "OrderBook_rest oid side price qty b =
     (let (h, b0) = OrderBook_alloc b;
          b1 = pool_upd h (\<lambda>x. x\<lparr>o_id := oid, o_price := price, o_qty := qty, o_side := side,
                                 o_prev := kNilHandle, o_next := kNilHandle\<rparr>) b0;
          tl = l_tail (OrderBook_levelFor side price b1);
          b2 = (if tl = kNilHandle then level_upd side price (\<lambda>l. l\<lparr>l_head := h, l_tail := h\<rparr>) b1
                else level_upd side price (\<lambda>l. l\<lparr>l_tail := h\<rparr>)
                       (pool_upd h (\<lambda>x. x\<lparr>o_prev := tl\<rparr>) (pool_upd tl (\<lambda>x. x\<lparr>o_next := h\<rparr>) b1)));
          b3 = level_upd side price (\<lambda>l. l\<lparr>l_totalQty := l_totalQty l + qty, l_count := l_count l + 1\<rparr>) b2;
          b4 = (case side of
                  Buy \<Rightarrow> if ob_bestBid b3 = kNoPrice \<or> price > ob_bestBid b3 then b3\<lparr>ob_bestBid := price\<rparr> else b3
                | Sell \<Rightarrow> if ob_bestAsk b3 = kNoPrice \<or> price < ob_bestAsk b3 then b3\<lparr>ob_bestAsk := price\<rparr> else b3)
      in (h, b4))"

definition OrderBook_add :: "OrderId \<Rightarrow> Side \<Rightarrow> Price \<Rightarrow> Quantity \<Rightarrow> (Trade \<Rightarrow> 's \<Rightarrow> 's) \<Rightarrow> 's \<Rightarrow> OrderBook \<Rightarrow>
    Handle \<times> 's \<times> OrderBook" where
  "OrderBook_add oid side price qty onTrade z b =
     (if refused price qty b then (kNilHandle, z, b)
      else
        let (rem, z', b') = OrderBook_match oid side price qty onTrade z b
        in if rem > 0 then let (h, b'') = OrderBook_rest oid side price rem b' in (h, z', b'')
           else (kNilHandle, z', b'))"

definition NullSink_onTrade :: "Trade \<Rightarrow> unit \<Rightarrow> unit" where
  "NullSink_onTrade t z = z"

definition OrderBook_add_quiet :: "OrderId \<Rightarrow> Side \<Rightarrow> Price \<Rightarrow> Quantity \<Rightarrow> OrderBook \<Rightarrow> Handle \<times> OrderBook" where
  "OrderBook_add_quiet oid side price qty b =
     (let (h, z, b') = OrderBook_add oid side price qty NullSink_onTrade () b in (h, b'))"

definition OrderBook_place :: "OrderId \<Rightarrow> Side \<Rightarrow> Price \<Rightarrow> Quantity \<Rightarrow> OrderBook \<Rightarrow> Handle \<times> OrderBook" where
  "OrderBook_place oid side price qty b =
     (if refused price qty b then (kNilHandle, b) else OrderBook_rest oid side price qty b)"

definition OrderBook_clear :: "OrderBook \<Rightarrow> OrderBook" where
  "OrderBook_clear b =
     b\<lparr>ob_bidLevels := map (\<lambda>_. Level_new) (ob_bidLevels b), ob_askLevels := map (\<lambda>_. Level_new) (ob_askLevels b),
       ob_pool := [], ob_freeHead := kNilHandle, ob_bestBid := kNoPrice, ob_bestAsk := kNoPrice\<rparr>"

definition OrderBook_cancel :: "Handle \<Rightarrow> OrderBook \<Rightarrow> Quantity \<times> OrderBook" where
  "OrderBook_cancel h b =
     (if h \<ge> length (ob_pool b) then (0, b)
      else
        let ord = ob_pool b ! h
        in if o_qty ord = 0 then (0, b)
           else
             let removed = o_qty ord; p = o_price ord; s = o_side ord;
                 b1 = OrderBook_unlink s p h b;
                 b2 = level_upd s p (\<lambda>l. l\<lparr>l_totalQty := l_totalQty l - removed, l_count := l_count l - 1\<rparr>) b1;
                 b3 = OrderBook_free h (pool_upd h (\<lambda>x. x\<lparr>o_qty := 0\<rparr>) b2);
                 b4 = (if l_totalQty (OrderBook_levelFor s p b3) = 0 then
                         if s = Buy \<and> p = ob_bestBid b3 then OrderBook_rescanBestBid b3
                         else if s = Sell \<and> p = ob_bestAsk b3 then OrderBook_rescanBestAsk b3
                         else b3
                       else b3)
             in (removed, b4))"

definition OrderBook_reduce :: "Handle \<Rightarrow> Quantity \<Rightarrow> OrderBook \<Rightarrow> Quantity \<times> OrderBook" where
  "OrderBook_reduce h newQty b =
     (if h \<ge> length (ob_pool b) then (0, b)
      else
        let ord = ob_pool b ! h
        in if o_qty ord = 0 \<or> newQty \<ge> o_qty ord then (0, b)
           else if newQty = 0 then OrderBook_cancel h b
           else
             let delta = o_qty ord - newQty
             in (delta, level_upd (o_side ord) (o_price ord) (\<lambda>l. l\<lparr>l_totalQty := l_totalQty l - delta\<rparr>)
                          (pool_upd h (\<lambda>x. x\<lparr>o_qty := newQty\<rparr>) b)))"

definition OrderBook_volumeAt :: "Side \<Rightarrow> Price \<Rightarrow> OrderBook \<Rightarrow> Quantity" where
  "OrderBook_volumeAt s p b =
     (if p < ob_minPrice b \<or> p > ob_maxPrice b then 0 else l_totalQty (OrderBook_levelFor s p b))"

definition OrderBook_empty :: "OrderBook \<Rightarrow> bool" where
  "OrderBook_empty b \<longleftrightarrow> ob_bestBid b = kNoPrice \<and> ob_bestAsk b = kNoPrice"

text \<open>
  The orders \<^verbatim>\<open>forEachOrderAtLevel\<close> visits, in order, with a callback that never stops; the list
  of a well-formed level is never longer than the pool.
\<close>

primrec walk_level :: "nat \<Rightarrow> OrderBook \<Rightarrow> Handle \<Rightarrow> Handle list" where
  "walk_level 0 b h = []"
| "walk_level (Suc n) b h = (if h \<noteq> kNilHandle then h # walk_level n b (o_next (ob_pool b ! h)) else [])"

definition level_handles :: "Side \<Rightarrow> Price \<Rightarrow> OrderBook \<Rightarrow> Handle list" where
  "level_handles s p b =
     (if p < ob_minPrice b \<or> p > ob_maxPrice b then []
      else walk_level (length (ob_pool b)) b (l_head (OrderBook_levelFor s p b)))"

definition forEachOrderAtLevel :: "Side \<Rightarrow> Price \<Rightarrow> OrderBook \<Rightarrow> Order list" where
  "forEachOrderAtLevel s p b = map (\<lambda>h. ob_pool b ! h) (level_handles s p b)"

end
