(* ===== verification/PriceTime.thy ===== *)
theory PriceTime
  imports OrderBook
begin

text \<open>
  The specification of the order book on plain lists: at each side and price the resting orders in
  time priority, an aggressor that fills the best prices first and the oldest order of a price
  first, and what follows from it (conservation of quantity, limits respected, no crossed book).
\<close>

section \<open>Abstract books\<close>

lemma opposite_neq [simp]: "opposite s \<noteq> s" "s \<noteq> opposite s"
  by (cases s; simp)+

lemma unat_minus_le: "(y :: 'a::len word) \<le> x \<Longrightarrow> unat (x - y) = unat x - unat y"
  by (rule unat_sub)

text \<open>The abstract book: at each side and price the resting orders in time priority.\<close>

type_synonym book = "Side \<Rightarrow> Price \<Rightarrow> (OrderId \<times> Quantity) list"

definition volume :: "(OrderId \<times> Quantity) list \<Rightarrow> nat" where
  "volume os = sum_list (map (\<lambda>x. unat (snd x)) os)"

lemma volume_simps [simp]: "volume [] = 0" "volume (x # xs) = unat (snd x) + volume xs" "volume (xs @ ys) = volume xs + volume ys"
  by (simp_all add: volume_def)

section \<open>Price-time priority, on plain lists\<close>

definition mk_trade :: "OrderId \<Rightarrow> Side \<Rightarrow> Price \<Rightarrow> OrderId \<Rightarrow> Quantity \<Rightarrow> bool \<Rightarrow> Trade" where
  "mk_trade agg aggSide p i q filled =
     \<lparr>t_restingId = i, t_aggressorId = agg, t_price = p, t_qty = q, t_aggressorSide = aggSide, t_restingFilled = filled\<rparr>"

text \<open>An aggressor of quantity \<open>q\<close> against the orders of one price: the oldest is filled first.\<close>

fun fill_level :: "OrderId \<Rightarrow> Side \<Rightarrow> Price \<Rightarrow> Quantity \<Rightarrow> (OrderId \<times> Quantity) list \<Rightarrow>
    Trade list \<times> Quantity \<times> (OrderId \<times> Quantity) list" where
  "fill_level agg aggSide p q [] = ([], q, [])"
| "fill_level agg aggSide p q ((i, r) # os) =
     (if q = 0 then ([], 0, (i, r) # os)
      else if q < r then ([mk_trade agg aggSide p i q False], 0, (i, r - q) # os)
      else let (ts, q', os') = fill_level agg aggSide p (q - r) os in (mk_trade agg aggSide p i r True # ts, q', os'))"

text \<open>The same against a list of prices, best first.\<close>

primrec sweep :: "OrderId \<Rightarrow> Side \<Rightarrow> Price list \<Rightarrow> Quantity \<Rightarrow> (Price \<Rightarrow> (OrderId \<times> Quantity) list) \<Rightarrow>
    Trade list \<times> Quantity \<times> (Price \<Rightarrow> (OrderId \<times> Quantity) list)" where
  "sweep agg aggSide [] q B = ([], q, B)"
| "sweep agg aggSide (p # ps) q B =
     (let (ts, q', os) = fill_level agg aggSide p q (B p); (us, q'', B') = sweep agg aggSide ps q' (B(p := os))
      in (ts @ us, q'', B'))"

definition spec_match :: "OrderId \<Rightarrow> Side \<Rightarrow> Price \<Rightarrow> Quantity \<Rightarrow> Price \<Rightarrow> Price \<Rightarrow> book \<Rightarrow> Trade list \<times> Quantity \<times> book" where
  "spec_match agg side price q lo hi B =
     (case side of
        Buy \<Rightarrow> let (ts, q', A) = sweep agg Buy [lo..price] q (B Sell) in (ts, q', B(Sell := A))
      | Sell \<Rightarrow> let (ts, q', A) = sweep agg Sell (rev [price..hi]) q (B Buy) in (ts, q', B(Buy := A)))"

lemma fill_level_0 [simp]: "fill_level agg aggSide p 0 os = ([], 0, os)"
  by (cases os) auto

lemma sweep_0: "sweep agg aggSide ps 0 B = ([], 0, B)"
  by (induction ps arbitrary: B) auto

lemma sweep_skip: "(\<And>p. p \<in> set ps \<Longrightarrow> B p = []) \<Longrightarrow> sweep agg aggSide (ps @ qs) q B = sweep agg aggSide qs q B"
proof (induction ps)
  case (Cons p ps)
  then have "B p = []" "B(p := []) = B" by auto
  then show ?case using Cons by (simp split: prod.splits)
qed simp

lemma fill_level_rest: "fill_level agg aggSide p q os = (ts, q', os') \<Longrightarrow> q' \<noteq> 0 \<Longrightarrow> os' = []"
  by (induction agg aggSide p q os arbitrary: ts rule: fill_level.induct) (auto split: if_splits prod.splits)

lemma sweep_step:
  assumes "\<And>x. x \<in> set pre \<Longrightarrow> B x = []" and "fill_level agg aggSide p q (B p) = (ts, q', os)" and "p \<notin> set pre"
    and "sweep agg aggSide (pre @ p # post) q' (B(p := os)) = (us, q'', A)"
  shows "sweep agg aggSide (pre @ p # post) q B = (ts @ us, q'', A)"
proof -
  have "sweep agg aggSide (pre @ p # post) q' (B(p := os)) = sweep agg aggSide post q' (B(p := os))"
  proof (cases "q' = 0")
    case False
    then have "os = []" using fill_level_rest [OF assms(2)] by blast
    then have "\<And>x. x \<in> set (pre @ [p]) \<Longrightarrow> (B(p := os)) x = []" using assms(1) by auto
    from sweep_skip [of "pre @ [p]" "B(p := os)" agg aggSide post q', OF this] show ?thesis by simp
  qed (simp add: sweep_0)
  then have "sweep agg aggSide post q' (B(p := os)) = (us, q'', A)" using assms(4) by simp
  then show ?thesis using assms(2) sweep_skip [of pre B agg aggSide "p # post" q] assms(1) by simp
qed

lemma sweep_none: "(\<And>p. p \<in> set ps \<Longrightarrow> B p = []) \<Longrightarrow> sweep agg aggSide ps q B = ([], q, B)"
  using sweep_skip [of ps B agg aggSide "[]" q] by simp

definition push_order :: "Side \<Rightarrow> Price \<Rightarrow> OrderId \<times> Quantity \<Rightarrow> book \<Rightarrow> book" where
  "push_order s p x B = B(s := (B s)(p := B s p @ [x]))"

definition spec_add :: "OrderId \<Rightarrow> Side \<Rightarrow> Price \<Rightarrow> Quantity \<Rightarrow> Price \<Rightarrow> Price \<Rightarrow> book \<Rightarrow> Trade list \<times> book" where
  "spec_add oid side price q lo hi B =
     (let (ts, q', B') = spec_match oid side price q lo hi B
      in (ts, if q' = 0 then B' else push_order side price (oid, q') B'))"

section \<open>Facts of the specification\<close>

definition filled :: "Trade list \<Rightarrow> nat" where
  "filled ts = sum_list (map (\<lambda>t. unat (t_qty t)) ts)"

definition filled_at :: "Price \<Rightarrow> Trade list \<Rightarrow> nat" where
  "filled_at p ts = filled (filter (\<lambda>t. t_price t = p) ts)"

lemma filled_simps [simp]: "filled [] = 0" "filled (t # ts) = unat (t_qty t) + filled ts" "filled (ts @ us) = filled ts + filled us"
  by (simp_all add: filled_def)

lemma filled_at_simps [simp]:
  "filled_at p [] = 0" "filled_at p (t # ts) = (if t_price t = p then unat (t_qty t) else 0) + filled_at p ts"
  "filled_at p (ts @ us) = filled_at p ts + filled_at p us"
  by (simp_all add: filled_at_def)

lemma mk_trade_simps [simp]:
  "t_qty (mk_trade agg aggSide p i q f) = q" "t_price (mk_trade agg aggSide p i q f) = p" "t_aggressorId (mk_trade agg aggSide p i q f) = agg"
  "t_restingId (mk_trade agg aggSide p i q f) = i" "t_restingFilled (mk_trade agg aggSide p i q f) = f"
  "t_aggressorSide (mk_trade agg aggSide p i q f) = aggSide"
  by (simp_all add: mk_trade_def)

lemma filled_at_price: "(\<And>t. t \<in> set ts \<Longrightarrow> t_price t = p) \<Longrightarrow> filled_at x ts = (if x = p then filled ts else 0)"
  by (induction ts) auto

lemma fill_level_facts:
  "fill_level agg aggSide p q os = (ts, q', os') \<Longrightarrow>
     unat q = filled ts + unat q' \<and> volume os = volume os' + filled ts \<and>
     (\<forall>t \<in> set ts. t_price t = p) \<and> (os = [] \<longrightarrow> os' = [])"
proof (induction agg aggSide p q os arbitrary: ts q' os' rule: fill_level.induct)
  case (2 agg aggSide p q i r os)
  consider "q = 0" | "q \<noteq> 0" "q < r" | "q \<noteq> 0" "\<not> q < r" by blast
  then show ?case
  proof cases
    case 2
    then have "unat (r - q) = unat r - unat q" "unat q \<le> unat r" by (simp_all add: unat_minus_le word_le_nat_alt word_less_nat_alt)
    then show ?thesis using 2 "2.prems" by auto
  next
    case 3
    obtain us x ys where r: "fill_level agg aggSide p (q - r) os = (us, x, ys)" by (metis prod_cases3)
    have "unat (q - r) = unat q - unat r" "unat r \<le> unat q" using 3 by (simp_all add: unat_minus_le word_le_nat_alt not_less)
    then show ?thesis using 3 "2.prems" "2.IH" [OF _ _ r] r by auto
  qed (use "2.prems" in auto)
qed simp

lemma sweep_facts:
  assumes "distinct ps" and "sweep agg aggSide ps q B = (ts, q', B')"
  shows "unat q = filled ts + unat q'" and "volume (B p) = volume (B' p) + filled_at p ts"
    and "t \<in> set ts \<Longrightarrow> t_price t \<in> set ps" and "p \<notin> set ps \<Longrightarrow> B' p = B p" and "B p = [] \<Longrightarrow> B' p = []"
    and "q' \<noteq> 0 \<Longrightarrow> p \<in> set ps \<Longrightarrow> B' p = []"
proof -
  have "unat q = filled ts + unat q' \<and> (\<forall>p. volume (B p) = volume (B' p) + filled_at p ts) \<and> (\<forall>t \<in> set ts. t_price t \<in> set ps) \<and>
    (\<forall>p. p \<notin> set ps \<longrightarrow> B' p = B p) \<and> (\<forall>p. B p = [] \<longrightarrow> B' p = []) \<and> (q' \<noteq> 0 \<longrightarrow> (\<forall>p \<in> set ps. B' p = []))"
    using assms
  proof (induction ps arbitrary: q B ts)
    case (Cons x ps)
    obtain us q1 os vs where f: "fill_level agg aggSide x q (B x) = (us, q1, os)" and s: "sweep agg aggSide ps q1 (B(x := os)) = (vs, q', B')"
      and ts: "ts = us @ vs" using Cons.prems(2) by (auto split: prod.splits)
    note ff = fill_level_facts [OF f]
    have ih: "unat q1 = filled vs + unat q'" "\<forall>p. volume ((B(x := os)) p) = volume (B' p) + filled_at p vs" "\<forall>t \<in> set vs. t_price t \<in> set ps"
      "\<forall>p. p \<notin> set ps \<longrightarrow> B' p = (B(x := os)) p" "\<forall>p. (B(x := os)) p = [] \<longrightarrow> B' p = []" "q' \<noteq> 0 \<longrightarrow> (\<forall>p \<in> set ps. B' p = [])"
      using Cons.IH [OF _ s] Cons.prems(1) by auto
    have fa: "filled_at p us = (if p = x then filled us else 0)" for p using ff by (intro filled_at_price) auto
    have v: "volume (B p) = volume (B' p) + filled_at p ts" for p
      using ih(2) [rule_format, of p] ff fa [of p] by (cases "p = x") (simp_all add: ts)
    have "q' \<noteq> 0 \<longrightarrow> q1 \<noteq> 0" using ih(1) by (metis add_is_0 unat_eq_zero)
    then have e: "q' \<noteq> 0 \<longrightarrow> B' x = []" using fill_level_rest [OF f] ih(5) by auto
    have n: "B' p = []" if "B p = []" for p using that ih(5) ff by (cases "p = x") auto
    show ?case using v e n ih(1,3,4,6) ff by (auto simp: ts)
  qed simp
  then show "unat q = filled ts + unat q'" "volume (B p) = volume (B' p) + filled_at p ts"
    "t \<in> set ts \<Longrightarrow> t_price t \<in> set ps" "p \<notin> set ps \<Longrightarrow> B' p = B p" "B p = [] \<Longrightarrow> B' p = []" "q' \<noteq> 0 \<Longrightarrow> p \<in> set ps \<Longrightarrow> B' p = []" by auto
qed

text \<open>No bid at or above an ask.\<close>

definition uncrossed :: "book \<Rightarrow> bool" where
  "uncrossed B \<longleftrightarrow> (\<forall>p p'. B Buy p \<noteq> [] \<longrightarrow> B Sell p' \<noteq> [] \<longrightarrow> p < p')"

text \<open>Is a trade at price \<open>p\<close> acceptable to an order of limit \<open>price\<close>?\<close>

definition within_limit :: "Side \<Rightarrow> Price \<Rightarrow> Price \<Rightarrow> bool" where
  "within_limit side price p \<longleftrightarrow> (case side of Buy \<Rightarrow> p \<le> price | Sell \<Rightarrow> price \<le> p)"

definition bounded_book :: "Price \<Rightarrow> Price \<Rightarrow> book \<Rightarrow> bool" where
  "bounded_book lo hi B \<longleftrightarrow> (\<forall>s p. B s p \<noteq> [] \<longrightarrow> lo \<le> p \<and> p \<le> hi)"

lemma spec_match_facts:
  assumes "spec_match agg side price q lo hi B = (ts, q', B')"
  shows "unat q = filled ts + unat q'" and "volume (B (opposite side) p) = volume (B' (opposite side) p) + filled_at p ts"
    and "B' side = B side" and "t \<in> set ts \<Longrightarrow> within_limit side price (t_price t)" and "B s p = [] \<Longrightarrow> B' s p = []"
    and "bounded_book lo hi B \<Longrightarrow> q' \<noteq> 0 \<Longrightarrow> B' (opposite side) p \<noteq> [] \<Longrightarrow> \<not> within_limit side price p"
proof -
  define ps where "ps = (case side of Buy \<Rightarrow> [lo..price] | Sell \<Rightarrow> rev [price..hi])"
  have d: "distinct ps" by (cases side) (simp_all add: ps_def)
  obtain A where s: "sweep agg side ps q (B (opposite side)) = (ts, q', A)" and B': "B' = B(opposite side := A)"
    using assms by (cases side) (auto simp: spec_match_def ps_def split: prod.splits)
  note sf = sweep_facts [OF d s]
  have pw: "x \<in> set ps \<Longrightarrow> within_limit side price x" for x by (cases side) (auto simp: ps_def within_limit_def)
  have wp: "within_limit side price x \<Longrightarrow> lo \<le> x \<Longrightarrow> x \<le> hi \<Longrightarrow> x \<in> set ps" for x by (cases side) (auto simp: ps_def within_limit_def)
  show "unat q = filled ts + unat q'" "volume (B (opposite side) p) = volume (B' (opposite side) p) + filled_at p ts" "B' side = B side"
    using sf(1,2) B' by auto
  show "within_limit side price (t_price t)" if "t \<in> set ts" using sf(3) [OF that] pw by blast
  show *: "B' s p = []" if "B s p = []" for s p using sf(5) that B' by (cases "s = opposite side") auto
  show "\<not> within_limit side price p" if b: "bounded_book lo hi B" and q: "q' \<noteq> 0" and p: "B' (opposite side) p \<noteq> []"
  proof
    assume w: "within_limit side price p"
    have "B (opposite side) p \<noteq> []" using * p by blast
    then have "p \<in> set ps" using wp [OF w] b by (auto simp: bounded_book_def)
    then show False using sf(6) [OF q] p B' by auto
  qed
qed

lemma spec_match_uncrossed:
  "spec_match agg side price q lo hi B = (ts, q', B') \<Longrightarrow> uncrossed B \<Longrightarrow> uncrossed B'"
  using spec_match_facts(5) unfolding uncrossed_def by blast

lemma spec_add_uncrossed:
  assumes "uncrossed B" and "bounded_book lo hi B"
  shows "uncrossed (snd (spec_add oid side price q lo hi B))"
proof -
  obtain ts q' B' where m: "spec_match oid side price q lo hi B = (ts, q', B')" by (metis prod_cases3)
  note u = spec_match_uncrossed [OF m assms(1)]
  show ?thesis
  proof (cases "q' = 0")
    case False
    have f: "B' (opposite side) p \<noteq> [] \<Longrightarrow> \<not> within_limit side price p" for p by (rule spec_match_facts(6) [OF m assms(2) False])
    show ?thesis using u f False m by (cases side) (auto simp: spec_add_def uncrossed_def push_order_def within_limit_def not_le)
  qed (use u m in \<open>simp add: spec_add_def\<close>)
qed

lemma spec_add_opposite:
  "spec_match oid s p q lo hi B = (ts, q', B') \<Longrightarrow> spec_add oid s p q lo hi B = (us, B'') \<Longrightarrow> us = ts \<and> B'' (opposite s) = B' (opposite s)"
  by (auto simp: spec_add_def push_order_def split: if_splits)

lemma spec_match_own_side: "spec_match agg side price q lo hi B = (ts, q', B') \<Longrightarrow> B' side = B side \<and> unat q' \<le> unat q"
  using spec_match_facts(1,3) [of agg side price q lo hi B ts q' B'] by simp

end
