(* ===== verification/OrderBookRefine.thy ===== *)
theory OrderBookRefine
  imports PriceTime
begin

text \<open>
  What the order book means: the invariant that ties the linked lists of the pool, the level totals,
  the free list and the cached best prices together, the price-time priority specification on plain
  lists of orders, and the refinement of every operation of the book to it.
\<close>

section \<open>Linked segments in the pool\<close>

text \<open>\<open>dseg pool prv hs nxt\<close>: the handles \<open>hs\<close> are linked in order, from \<open>prv\<close> before to \<open>nxt\<close> behind.\<close>

primrec dseg :: "Order list \<Rightarrow> Handle \<Rightarrow> Handle list \<Rightarrow> Handle \<Rightarrow> bool" where
  "dseg pool prv [] nxt \<longleftrightarrow> True"
| "dseg pool prv (h # hs) nxt \<longleftrightarrow>
     h < length pool \<and> o_prev (pool ! h) = prv \<and> o_next (pool ! h) = hd (hs @ [nxt]) \<and> dseg pool h hs nxt"

lemma hd_append_hd: "hd ((xs @ ys) @ [z]) = hd (xs @ [hd (ys @ [z])])"
  by (cases xs) auto

lemma dseg_append:
  "dseg pool prv (xs @ ys) nxt \<longleftrightarrow> dseg pool prv xs (hd (ys @ [nxt])) \<and> dseg pool (last (prv # xs)) ys nxt"
  by (induction xs arbitrary: prv) (auto simp: hd_append_hd simp del: append_assoc)

lemma dseg_bound: "dseg pool prv hs nxt \<Longrightarrow> h \<in> set hs \<Longrightarrow> h < length pool"
  by (induction hs arbitrary: prv) auto

lemma dseg_cong:
  assumes "\<And>h. h \<in> set hs \<Longrightarrow> h < length pool' \<and> o_prev (pool' ! h) = o_prev (pool ! h) \<and> o_next (pool' ! h) = o_next (pool ! h)"
    and "dseg pool prv hs nxt"
  shows "dseg pool' prv hs nxt"
  using assms by (induction hs arbitrary: prv) auto

text \<open>Relinking the two ends of a segment.\<close>

lemma dseg_relink_next:
  assumes "dseg pool prv xs n1" and "distinct xs"
    and "length pool' = length pool"
    and "\<And>h. h \<in> set xs \<Longrightarrow> o_prev (pool' ! h) = o_prev (pool ! h)"
    and "\<And>h. h \<in> set xs \<Longrightarrow> h \<noteq> last xs \<Longrightarrow> o_next (pool' ! h) = o_next (pool ! h)"
    and "xs \<noteq> [] \<Longrightarrow> o_next (pool' ! last xs) = n2"
  shows "dseg pool' prv xs n2"
  using assms
proof (induction xs arbitrary: prv)
  case (Cons x xs)
  show ?case
  proof (cases xs)
    case Nil
    then show ?thesis using Cons.prems by auto
  next
    case (Cons y ys)
    have "dseg pool' x xs n2"
      using Cons.IH Cons.prems Cons by (auto intro!: Cons.IH)
    moreover have "x \<noteq> last (x # xs)" using Cons.prems(2) Cons by (metis distinct.simps(2) last_ConsR last_in_set list.distinct(1))
    then have "o_next (pool' ! x) = o_next (pool ! x)" using Cons.prems(5) by simp
    ultimately show ?thesis using Cons.prems(1,3,4) Cons by simp
  qed
qed simp

lemma dseg_relink_prev:
  assumes "dseg pool p1 ys nxt" and "distinct ys"
    and "length pool' = length pool"
    and "\<And>h. h \<in> set ys \<Longrightarrow> o_next (pool' ! h) = o_next (pool ! h)"
    and "\<And>h. h \<in> set ys \<Longrightarrow> h \<noteq> hd ys \<Longrightarrow> o_prev (pool' ! h) = o_prev (pool ! h)"
    and "ys \<noteq> [] \<Longrightarrow> o_prev (pool' ! hd ys) = p2"
  shows "dseg pool' p2 ys nxt"
proof (cases ys)
  case (Cons y zs)
  have "dseg pool y zs nxt" using assms(1) Cons by simp
  then have "dseg pool' y zs nxt"
    using assms(2-5) Cons dseg_bound [OF \<open>dseg pool y zs nxt\<close>] by (intro dseg_cong [of zs pool' pool]) auto
  then show ?thesis using assms Cons by simp
qed simp

text \<open>The free list.\<close>

primrec fchain :: "Order list \<Rightarrow> Handle list \<Rightarrow> Handle \<Rightarrow> bool" where
  "fchain pool [] h \<longleftrightarrow> h = kNilHandle"
| "fchain pool (x # xs) h \<longleftrightarrow> h = x \<and> x < length pool \<and> o_qty (pool ! x) = 0 \<and> fchain pool xs (o_next (pool ! x))"

lemma fchain_bound: "fchain pool xs h \<Longrightarrow> x \<in> set xs \<Longrightarrow> x < length pool \<and> o_qty (pool ! x) = 0"
  by (induction xs arbitrary: h) auto

lemma fchain_cong:
  assumes "\<And>x. x \<in> set xs \<Longrightarrow> x < length pool' \<and> o_qty (pool' ! x) = o_qty (pool ! x) \<and> o_next (pool' ! x) = o_next (pool ! x)"
    and "fchain pool xs h"
  shows "fchain pool' xs h"
  using assms by (induction xs arbitrary: h) auto

section \<open>The invariant\<close>

definition in_range :: "OrderBook \<Rightarrow> Price \<Rightarrow> bool" where
  "in_range b p \<longleftrightarrow> ob_minPrice b \<le> p \<and> p \<le> ob_maxPrice b"

definition dims :: "OrderBook \<Rightarrow> bool" where
  "dims b \<longleftrightarrow> ob_minPrice b \<le> ob_maxPrice b \<and> kNoPrice < ob_minPrice b \<and> ob_maxPrice b < 2 ^ 31 \<and>
     length (ob_bidLevels b) = nat (ob_maxPrice b - ob_minPrice b) + 1 \<and>
     length (ob_askLevels b) = nat (ob_maxPrice b - ob_minPrice b) + 1"

definition vol :: "Order list \<Rightarrow> Handle list \<Rightarrow> nat" where
  "vol pool hs = sum_list (map (\<lambda>h. unat (o_qty (pool ! h))) hs)"

definition lvl_ok :: "Level \<Rightarrow> Order list \<Rightarrow> Side \<Rightarrow> Price \<Rightarrow> Handle list \<Rightarrow> bool" where
  "lvl_ok l pool s p hs \<longleftrightarrow>
     l_head l = hd (hs @ [kNilHandle]) \<and> l_tail l = last (kNilHandle # hs) \<and> unat (l_totalQty l) = vol pool hs \<and>
     l_count l = of_nat (length hs) \<and> dseg pool kNilHandle hs kNilHandle \<and> distinct hs \<and>
     (\<forall>h \<in> set hs. o_side (pool ! h) = s \<and> o_price (pool ! h) = p \<and> o_qty (pool ! h) \<noteq> 0)"

type_synonym levels = "Side \<Rightarrow> Price \<Rightarrow> Handle list"

definition core :: "OrderBook \<Rightarrow> levels \<Rightarrow> Handle list \<Rightarrow> bool" where
  "core b L F \<longleftrightarrow> dims b \<and> length (ob_pool b) \<le> kNilHandle \<and>
     (\<forall>s p. in_range b p \<longrightarrow> lvl_ok (OrderBook_levelFor s p b) (ob_pool b) s p (L s p)) \<and>
     (\<forall>s p. \<not> in_range b p \<longrightarrow> L s p = []) \<and>
     fchain (ob_pool b) F (ob_freeHead b) \<and> distinct F \<and>
     (\<forall>h < length (ob_pool b). o_qty (ob_pool b ! h) \<noteq> 0 \<longrightarrow> h \<in> set (L (o_side (ob_pool b ! h)) (o_price (ob_pool b ! h)))) \<and>
     (\<forall>h < length (ob_pool b). o_qty (ob_pool b ! h) = 0 \<longrightarrow> h \<in> set F)"

definition best_bid :: "levels \<Rightarrow> Price \<Rightarrow> bool" where
  "best_bid L x \<longleftrightarrow> (x = kNoPrice \<and> (\<forall>p. L Buy p = [])) \<or> (L Buy x \<noteq> [] \<and> (\<forall>p. L Buy p \<noteq> [] \<longrightarrow> p \<le> x))"

definition best_ask :: "levels \<Rightarrow> Price \<Rightarrow> bool" where
  "best_ask L x \<longleftrightarrow> (x = kNoPrice \<and> (\<forall>p. L Sell p = [])) \<or> (L Sell x \<noteq> [] \<and> (\<forall>p. L Sell p \<noteq> [] \<longrightarrow> x \<le> p))"

definition ob_rep :: "OrderBook \<Rightarrow> levels \<Rightarrow> Handle list \<Rightarrow> bool" where
  "ob_rep b L F \<longleftrightarrow> core b L F \<and> best_bid L (ob_bestBid b) \<and> best_ask L (ob_bestAsk b)"

definition ob_inv :: "OrderBook \<Rightarrow> bool" where
  "ob_inv b \<longleftrightarrow> (\<exists>L F. ob_rep b L F)"

section \<open>Reading and writing levels and orders\<close>

lemma level_upd_fields [simp, frame_simps]:
  "ob_minPrice (level_upd s p f b) = ob_minPrice b" "ob_maxPrice (level_upd s p f b) = ob_maxPrice b"
  "ob_bestBid (level_upd s p f b) = ob_bestBid b" "ob_bestAsk (level_upd s p f b) = ob_bestAsk b"
  "ob_pool (level_upd s p f b) = ob_pool b" "ob_freeHead (level_upd s p f b) = ob_freeHead b"
  by (cases s; simp)+

lemma pool_upd_fields [simp, frame_simps]:
  "ob_minPrice (pool_upd h f b) = ob_minPrice b" "ob_maxPrice (pool_upd h f b) = ob_maxPrice b"
  "ob_bestBid (pool_upd h f b) = ob_bestBid b" "ob_bestAsk (pool_upd h f b) = ob_bestAsk b"
  "ob_bidLevels (pool_upd h f b) = ob_bidLevels b" "ob_askLevels (pool_upd h f b) = ob_askLevels b"
  "ob_freeHead (pool_upd h f b) = ob_freeHead b" "length (ob_pool (pool_upd h f b)) = length (ob_pool b)"
  by (simp_all add: pool_upd_def)

lemma pool_upd_nth: "h < length (ob_pool b) \<Longrightarrow> ob_pool (pool_upd h f b) ! i = (if i = h then f (ob_pool b ! h) else ob_pool b ! i)"
  by (simp add: pool_upd_def nth_list_update)

lemma free_fields [simp, frame_simps]:
  "ob_minPrice (OrderBook_free h b) = ob_minPrice b" "ob_maxPrice (OrderBook_free h b) = ob_maxPrice b"
  "ob_bestBid (OrderBook_free h b) = ob_bestBid b" "ob_bestAsk (OrderBook_free h b) = ob_bestAsk b"
  "ob_bidLevels (OrderBook_free h b) = ob_bidLevels b" "ob_askLevels (OrderBook_free h b) = ob_askLevels b"
  "ob_freeHead (OrderBook_free h b) = h" "length (ob_pool (OrderBook_free h b)) = length (ob_pool b)"
  by (simp_all add: OrderBook_free_def)

lemma free_nth:
  "h < length (ob_pool b) \<Longrightarrow>
     ob_pool (OrderBook_free h b) ! i = (if i = h then (ob_pool b ! h)\<lparr>o_next := ob_freeHead b\<rparr> else ob_pool b ! i)"
  by (simp add: OrderBook_free_def pool_upd_nth)

lemma levelFor_cong:
  "ob_minPrice b' = ob_minPrice b \<Longrightarrow> ob_bidLevels b' = ob_bidLevels b \<Longrightarrow> ob_askLevels b' = ob_askLevels b \<Longrightarrow>
     OrderBook_levelFor s p b' = OrderBook_levelFor s p b"
  by (cases s) (simp_all add: OrderBook_levelFor_def OrderBook_index_def)

lemma levelFor_pool_upd [simp]: "OrderBook_levelFor s p (pool_upd h f b) = OrderBook_levelFor s p b"
  by (rule levelFor_cong) simp_all

lemma levelFor_free [simp]: "OrderBook_levelFor s p (OrderBook_free h b) = OrderBook_levelFor s p b"
  by (rule levelFor_cong) simp_all

lemma levelFor_best [simp]:
  "OrderBook_levelFor s p (b\<lparr>ob_bestBid := x\<rparr>) = OrderBook_levelFor s p b"
  "OrderBook_levelFor s p (b\<lparr>ob_bestAsk := x\<rparr>) = OrderBook_levelFor s p b"
  "OrderBook_levelFor s p (b\<lparr>ob_freeHead := h\<rparr>) = OrderBook_levelFor s p b"
  "OrderBook_levelFor s p (b\<lparr>ob_pool := q\<rparr>) = OrderBook_levelFor s p b"
  by (rule levelFor_cong; simp)+

lemma index_less: "dims b \<Longrightarrow> in_range b p \<Longrightarrow> OrderBook_index b p < length (side_levels s b)"
  by (cases s) (auto simp: dims_def in_range_def OrderBook_index_def)

lemma index_inj: "in_range b p \<Longrightarrow> in_range b q \<Longrightarrow> OrderBook_index b p = OrderBook_index b q \<longleftrightarrow> p = q"
  by (auto simp: in_range_def OrderBook_index_def)

lemma levelFor_upd:
  assumes "dims b" and "in_range b p" and "in_range b q"
  shows "OrderBook_levelFor s q (level_upd t p f b) =
    (if s = t \<and> q = p then f (OrderBook_levelFor t p b) else OrderBook_levelFor s q b)"
proof -
  have i: "OrderBook_index (level_upd t p f b) q = OrderBook_index b q" by (simp add: OrderBook_index_def)
  have l: "side_levels s (level_upd t p f b) =
      (if s = t then (side_levels t b)[OrderBook_index b p := f (OrderBook_levelFor t p b)] else side_levels s b)"
    by (cases s; cases t) simp_all
  show ?thesis
    unfolding OrderBook_levelFor_def [of s q] i l
    using index_less [OF assms(1,2), of t] index_inj [OF assms(2,3)] by (auto simp: OrderBook_levelFor_def nth_list_update)
qed

lemma dims_level_upd [simp]: "dims (level_upd s p f b) = dims b"
  by (cases s) (simp_all add: dims_def)

lemma dims_pool_upd [simp]: "dims (pool_upd h f b) = dims b"
  by (simp add: dims_def)

lemma dims_free [simp]: "dims (OrderBook_free h b) = dims b"
  by (simp add: dims_def)

lemma in_range_simps [simp]:
  "in_range (level_upd s p f b) q = in_range b q" "in_range (pool_upd h f' b) q = in_range b q"
  "in_range (OrderBook_free h b) q = in_range b q" "in_range (b\<lparr>ob_bestBid := x\<rparr>) q = in_range b q"
  "in_range (b\<lparr>ob_bestAsk := x\<rparr>) q = in_range b q"
  by (simp_all add: in_range_def)

section \<open>Consequences of the invariant\<close>

lemma core_level: "core b L F \<Longrightarrow> in_range b p \<Longrightarrow> lvl_ok (OrderBook_levelFor s p b) (ob_pool b) s p (L s p)"
  by (simp add: core_def)

lemma core_outside: "core b L F \<Longrightarrow> \<not> in_range b p \<Longrightarrow> L s p = []"
  by (simp add: core_def)

lemma core_dims: "core b L F \<Longrightarrow> dims b"
  by (simp add: core_def)

lemma core_member:
  assumes "core b L F" and "h \<in> set (L s p)"
  shows "in_range b p \<and> h < length (ob_pool b) \<and> o_side (ob_pool b ! h) = s \<and> o_price (ob_pool b ! h) = p \<and>
    o_qty (ob_pool b ! h) \<noteq> 0"
proof -
  have r: "in_range b p" using assms core_outside by fastforce
  then show ?thesis using core_level [OF assms(1) r, of s] assms(2) dseg_bound by (auto simp: lvl_ok_def)
qed

lemma core_find: "core b L F \<Longrightarrow> h < length (ob_pool b) \<Longrightarrow> o_qty (ob_pool b ! h) \<noteq> 0 \<Longrightarrow>
    h \<in> set (L (o_side (ob_pool b ! h)) (o_price (ob_pool b ! h)))"
  by (simp add: core_def)

lemma core_free_member: "core b L F \<Longrightarrow> h \<in> set F \<Longrightarrow> h < length (ob_pool b) \<and> o_qty (ob_pool b ! h) = 0"
  using fchain_bound by (auto simp: core_def)

lemma core_distinct: "core b L F \<Longrightarrow> distinct (L s p)"
  using core_level [of b L F p s] core_outside [of b L F p s] by (cases "in_range b p") (auto simp: lvl_ok_def)

lemma core_disjoint: "core b L F \<Longrightarrow> h \<in> set (L s p) \<Longrightarrow> h \<in> set (L s' p') \<Longrightarrow> s' = s \<and> p' = p"
  using core_member by metis

lemma core_nil: "core b L F \<Longrightarrow> h \<in> set (L s p) \<Longrightarrow> h \<noteq> kNilHandle"
  using core_member [of b L F h s p] by (auto simp: core_def)

lemma core_empty_iff: "core b L F \<Longrightarrow> in_range b p \<Longrightarrow> l_totalQty (OrderBook_levelFor s p b) = 0 \<longleftrightarrow> L s p = []"
proof -
  assume c: "core b L F" and r: "in_range b p"
  note l = core_level [OF c r, of s]
  have "vol (ob_pool b) (L s p) = 0 \<longleftrightarrow> L s p = []"
    using core_member [OF c, of _ s p] by (cases "L s p") (auto simp: vol_def unat_eq_zero)
  then show ?thesis using l by (metis lvl_ok_def unat_eq_zero)
qed

lemma core_head_iff: "core b L F \<Longrightarrow> in_range b p \<Longrightarrow> l_head (OrderBook_levelFor s p b) = kNilHandle \<longleftrightarrow> L s p = []"
  using core_level [of b L F p s] core_nil [of b L F "hd (L s p)" s p] by (cases "L s p") (auto simp: lvl_ok_def)

text \<open>Changing one level, the pool at handles of that level only, and the free list.\<close>

lemma core_update:
  assumes "core b L F" and "in_range b p"
    and "ob_minPrice b' = ob_minPrice b" "ob_maxPrice b' = ob_maxPrice b" "dims b'" "length (ob_pool b') \<le> kNilHandle"
    and "\<And>s' p'. in_range b p' \<Longrightarrow> s' \<noteq> s \<or> p' \<noteq> p \<Longrightarrow> OrderBook_levelFor s' p' b' = OrderBook_levelFor s' p' b"
    and "length (ob_pool b) \<le> length (ob_pool b')"
    and "\<And>h. h < length (ob_pool b) \<Longrightarrow> h \<notin> set (L s p) \<Longrightarrow> h \<notin> set F \<Longrightarrow> ob_pool b' ! h = ob_pool b ! h"
    and "lvl_ok (OrderBook_levelFor s p b') (ob_pool b') s p hs"
    and "fchain (ob_pool b') F' (ob_freeHead b')" "distinct F'"
    and "\<And>h. h < length (ob_pool b') \<Longrightarrow> o_qty (ob_pool b' ! h) = 0 \<Longrightarrow> h \<in> set F'"
    and "\<And>h. h < length (ob_pool b') \<Longrightarrow> o_qty (ob_pool b' ! h) \<noteq> 0 \<Longrightarrow>
      h \<in> set hs \<or> (h < length (ob_pool b) \<and> h \<notin> set (L s p) \<and> h \<notin> set F)"
  shows "core b' (L(s := (L s)(p := hs))) F'"
proof -
  let ?L = "L(s := (L s)(p := hs))"
  have rng: "in_range b' q = in_range b q" for q using assms(3,4) by (simp add: in_range_def)
  have other: "h < length (ob_pool b) \<and> ob_pool b' ! h = ob_pool b ! h" if "h \<in> set (L s' p')" "s' \<noteq> s \<or> p' \<noteq> p" for h s' p'
  proof -
    have "h \<notin> set (L s p)" using core_disjoint [OF assms(1) that(1)] that(2) by blast
    moreover have "h < length (ob_pool b)" "h \<notin> set F"
      using core_member [OF assms(1) that(1)] core_free_member [OF assms(1)] by auto
    ultimately show ?thesis using assms(9) by blast
  qed
  have lev: "lvl_ok (OrderBook_levelFor s' p' b') (ob_pool b') s' p' (?L s' p')" if "in_range b p'" for s' p'
  proof (cases "s' = s \<and> p' = p")
    case True
    then show ?thesis using assms(10) by simp
  next
    case False
    then have L: "?L s' p' = L s' p'" by auto
    have o: "\<And>h. h \<in> set (L s' p') \<Longrightarrow> h < length (ob_pool b') \<and> ob_pool b' ! h = ob_pool b ! h"
      using other False assms(8) by fastforce
    have "vol (ob_pool b') (L s' p') = vol (ob_pool b) (L s' p')"
      unfolding vol_def by (rule arg_cong [where f = sum_list]) (simp add: o)
    moreover have "dseg (ob_pool b') kNilHandle (L s' p') kNilHandle"
      using core_level [OF assms(1) that, of s'] o by (intro dseg_cong [of _ "ob_pool b'" "ob_pool b"]) (auto simp: lvl_ok_def)
    ultimately show ?thesis
      using core_level [OF assms(1) that, of s'] assms(7) [OF that, of s'] False o unfolding L lvl_ok_def by auto
  qed
  have find: "h \<in> set (?L (o_side (ob_pool b' ! h)) (o_price (ob_pool b' ! h)))"
    if h: "h < length (ob_pool b')" "o_qty (ob_pool b' ! h) \<noteq> 0" for h
  proof (cases "h \<in> set hs")
    case True
    then show ?thesis using assms(10) by (simp add: lvl_ok_def)
  next
    case False
    then have old: "h < length (ob_pool b)" "h \<notin> set (L s p)" "h \<notin> set F" using assms(14) [OF h] by auto
    then have eq: "ob_pool b' ! h = ob_pool b ! h" using assms(9) by blast
    then have m: "h \<in> set (L (o_side (ob_pool b ! h)) (o_price (ob_pool b ! h)))"
      using core_find [OF assms(1) old(1)] h(2) by simp
    then have "o_side (ob_pool b ! h) \<noteq> s \<or> o_price (ob_pool b ! h) \<noteq> p" using old(2) by auto
    then show ?thesis using m eq by auto
  qed
  have out: "?L s' p' = []" if "\<not> in_range b p'" for s' p'
    using that assms(2) core_outside [OF assms(1)] by auto
  show ?thesis
    unfolding core_def rng using assms(5,6,11,12,13) lev out find by blast
qed

section \<open>Changing the quantity of an order\<close>

lemma vol_cong: "(\<And>h. h \<in> set hs \<Longrightarrow> o_qty (pool' ! h) = o_qty (pool ! h)) \<Longrightarrow> vol pool' hs = vol pool hs"
  unfolding vol_def by (rule arg_cong [where f = sum_list]) simp

lemma vol_append [simp]: "vol pool (xs @ ys) = vol pool xs + vol pool ys"
  by (simp add: vol_def)

lemma vol_Cons [simp]: "vol pool (h # hs) = unat (o_qty (pool ! h)) + vol pool hs"
  by (simp add: vol_def)

lemma vol_Nil [simp]: "vol pool [] = 0"
  by (simp add: vol_def)

lemma vol_change:
  assumes "distinct hs" and "h \<in> set hs" and "\<And>i. i \<in> set hs \<Longrightarrow> i \<noteq> h \<Longrightarrow> o_qty (pool' ! i) = o_qty (pool ! i)"
  shows "vol pool' hs + unat (o_qty (pool ! h)) = vol pool hs + unat (o_qty (pool' ! h))"
proof -
  obtain xs ys where hs: "hs = xs @ h # ys" using assms(2) by (meson split_list)
  have "vol pool' xs = vol pool xs" "vol pool' ys = vol pool ys"
    using assms hs by (auto intro!: vol_cong)
  then show ?thesis using hs by simp
qed

definition requantify :: "Side \<Rightarrow> Price \<Rightarrow> Handle \<Rightarrow> Quantity \<Rightarrow> OrderBook \<Rightarrow> OrderBook" where
  "requantify s p h q b =
     level_upd s p (\<lambda>l. l\<lparr>l_totalQty := l_totalQty l - (o_qty (ob_pool b ! h) - q)\<rparr>) (pool_upd h (\<lambda>x. x\<lparr>o_qty := q\<rparr>) b)"

lemma core_requantify:
  assumes "core b L F" and "h \<in> set (L s p)" and "q \<noteq> 0" and "q \<le> o_qty (ob_pool b ! h)"
  shows "core (requantify s p h q b) L F"
proof -
  let ?b = "requantify s p h q b"
  note m = core_member [OF assms(1,2)]
  have r: "in_range b p" and hl: "h < length (ob_pool b)" using m by auto
  note lv = core_level [OF assms(1) r, of s, unfolded lvl_ok_def]
  have pool: "ob_pool ?b ! i = (if i = h then (ob_pool b ! h)\<lparr>o_qty := q\<rparr> else ob_pool b ! i)" for i
    by (simp add: requantify_def pool_upd_nth hl)
  have len: "length (ob_pool ?b) = length (ob_pool b)" by (simp add: requantify_def)
  have d: "dims b" by (rule core_dims [OF assms(1)])
  have lev: "OrderBook_levelFor s' p' ?b = (if s' = s \<and> p' = p then
      (OrderBook_levelFor s p b)\<lparr>l_totalQty := l_totalQty (OrderBook_levelFor s p b) - (o_qty (ob_pool b ! h) - q)\<rparr>
      else OrderBook_levelFor s' p' b)" if "in_range b p'" for s' p'
    unfolding requantify_def using d r that by (simp add: levelFor_upd)
  have hF: "h \<notin> set F" using m core_free_member [OF assms(1)] by blast
  have v: "vol (ob_pool ?b) (L s p) + unat (o_qty (ob_pool b ! h)) = vol (ob_pool b) (L s p) + unat q"
    using vol_change [of "L s p" h "ob_pool ?b" "ob_pool b"] assms(2) lv by (simp add: pool)
  have le: "unat q \<le> unat (o_qty (ob_pool b ! h))" using assms(4) by (simp add: word_le_nat_alt)
  have dq: "unat (o_qty (ob_pool b ! h) - q) = unat (o_qty (ob_pool b ! h)) - unat q" by (rule unat_minus_le [OF assms(4)])
  have "unat (o_qty (ob_pool b ! h)) \<le> vol (ob_pool b) (L s p)"
    using split_list [OF assms(2)] by auto
  then have "o_qty (ob_pool b ! h) - q \<le> l_totalQty (OrderBook_levelFor s p b)"
    using lv dq by (simp add: word_le_nat_alt)
  then have tot: "unat (l_totalQty (OrderBook_levelFor s p b) - (o_qty (ob_pool b ! h) - q)) = vol (ob_pool ?b) (L s p)"
    using v le dq lv by (simp add: unat_minus_le)
  have "dseg (ob_pool ?b) kNilHandle (L s p) kNilHandle"
    by (rule dseg_cong [of _ _ "ob_pool b"]) (use lv core_member [OF assms(1)] len in \<open>auto simp: pool\<close>)
  then have ok: "lvl_ok (OrderBook_levelFor s p ?b) (ob_pool ?b) s p (L s p)"
    using lv tot assms(3) unfolding lvl_ok_def lev [OF r] by (auto simp: pool)
  have fc: "fchain (ob_pool ?b) F (ob_freeHead ?b)"
  proof (rule fchain_cong [of _ _ "ob_pool b"])
    show "fchain (ob_pool b) F (ob_freeHead ?b)" using assms(1) by (simp add: core_def requantify_def)
  qed (use hF core_free_member [OF assms(1)] len in \<open>auto simp: pool\<close>)
  have "core ?b (L(s := (L s)(p := L s p))) F"
  proof (rule core_update [OF assms(1) r])
    show "ob_minPrice ?b = ob_minPrice b" "ob_maxPrice ?b = ob_maxPrice b" "dims ?b"
      using d by (simp_all add: requantify_def)
    show "length (ob_pool ?b) \<le> kNilHandle" using assms(1) len by (simp add: core_def)
    show "distinct F" using assms(1) by (simp add: core_def)
    show "h' \<in> set F" if "h' < length (ob_pool ?b)" "o_qty (ob_pool ?b ! h') = 0" for h'
      using that assms(1,3) len unfolding core_def pool by (auto split: if_splits)
    show "h' \<in> set (L s p) \<or> h' < length (ob_pool b) \<and> h' \<notin> set (L s p) \<and> h' \<notin> set F"
      if "h' < length (ob_pool ?b)" "o_qty (ob_pool ?b ! h') \<noteq> 0" for h'
      using that assms(2) len core_free_member [OF assms(1), of h'] unfolding pool by (auto split: if_splits)
  qed (use lev assms(2) len ok fc in \<open>auto simp: pool\<close>)
  then show ?thesis by simp
qed

section \<open>Removing an order\<close>

lemma core_links:
  assumes "core b L F" and "L s p = xs @ h # ys"
  shows "o_prev (ob_pool b ! h) = last (kNilHandle # xs)" and "o_next (ob_pool b ! h) = hd (ys @ [kNilHandle])"
    and "o_prev (ob_pool b ! h) = kNilHandle \<longleftrightarrow> xs = []" and "o_next (ob_pool b ! h) = kNilHandle \<longleftrightarrow> ys = []"
    and "in_range b p" and "h < length (ob_pool b)" and "distinct (xs @ h # ys)"
    and "\<And>x. x \<in> set (xs @ h # ys) \<Longrightarrow> x < length (ob_pool b) \<and> x \<noteq> kNilHandle"
proof -
  have h: "h \<in> set (L s p)" using assms(2) by simp
  note m = core_member [OF assms(1) h]
  show r: "in_range b p" and "h < length (ob_pool b)" using m by auto
  note lv = core_level [OF assms(1) r, of s, unfolded lvl_ok_def assms(2)]
  show d: "distinct (xs @ h # ys)" using lv by blast
  show el: "\<And>x. x \<in> set (xs @ h # ys) \<Longrightarrow> x < length (ob_pool b) \<and> x \<noteq> kNilHandle"
    using core_member [OF assms(1), of _ s p] core_nil [OF assms(1), of _ s p] assms(2) by auto
  have "dseg (ob_pool b) kNilHandle (xs @ h # ys) kNilHandle" using lv by blast
  then show pv: "o_prev (ob_pool b ! h) = last (kNilHandle # xs)" and nx: "o_next (ob_pool b ! h) = hd (ys @ [kNilHandle])"
    by (auto simp: dseg_append)
  show "o_prev (ob_pool b ! h) = kNilHandle \<longleftrightarrow> xs = []" unfolding pv using el by (cases xs rule: rev_cases) auto
  show "o_next (ob_pool b ! h) = kNilHandle \<longleftrightarrow> ys = []" unfolding nx using el by (cases ys) auto
qed

lemma unlink_effect:
  assumes "core b L F" and "L s p = xs @ h # ys"
  defines "nx \<equiv> hd (ys @ [kNilHandle])" and "pv \<equiv> last (kNilHandle # xs)"
  shows "ob_pool (OrderBook_unlink s p h b) ! i = (ob_pool b ! i)
      \<lparr>o_prev := (if ys \<noteq> [] \<and> i = hd ys then pv else o_prev (ob_pool b ! i)),
       o_next := (if xs \<noteq> [] \<and> i = last xs then nx else o_next (ob_pool b ! i))\<rparr>" (is ?pool)
    and "in_range b q \<Longrightarrow> OrderBook_levelFor s' q (OrderBook_unlink s p h b) =
      (if s' = s \<and> q = p then (OrderBook_levelFor s p b)\<lparr>l_head := (if xs = [] then nx else l_head (OrderBook_levelFor s p b)),
          l_tail := (if ys = [] then pv else l_tail (OrderBook_levelFor s p b))\<rparr> else OrderBook_levelFor s' q b)"
    and "length (ob_pool (OrderBook_unlink s p h b)) = length (ob_pool b)"
    and "ob_freeHead (OrderBook_unlink s p h b) = ob_freeHead b" and "dims (OrderBook_unlink s p h b)"
    and "ob_minPrice (OrderBook_unlink s p h b) = ob_minPrice b" and "ob_maxPrice (OrderBook_unlink s p h b) = ob_maxPrice b"
    and "ob_bestBid (OrderBook_unlink s p h b) = ob_bestBid b" and "ob_bestAsk (OrderBook_unlink s p h b) = ob_bestAsk b"
proof -
  note lk = core_links [OF assms(1,2)]
  define b1 where "b1 = (if xs \<noteq> [] then pool_upd (last xs) (\<lambda>x. x\<lparr>o_next := nx\<rparr>) b else level_upd s p (\<lambda>l. l\<lparr>l_head := nx\<rparr>) b)"
  have lx: "xs \<noteq> [] \<Longrightarrow> last xs < length (ob_pool b) \<and> last xs \<noteq> h" using lk(7,8) by auto
  have hy: "ys \<noteq> [] \<Longrightarrow> hd ys < length (ob_pool b) \<and> hd ys \<noteq> h" using lk(7,8) by auto
  have xy: "xs \<noteq> [] \<Longrightarrow> ys \<noteq> [] \<Longrightarrow> last xs \<noteq> hd ys" using lk(7) by (cases xs rule: rev_cases; cases ys) auto
  have o2: "ob_pool b1 ! h = ob_pool b ! h" using lx by (cases "xs = []") (auto simp: b1_def pool_upd_nth)
  have pvx: "xs \<noteq> [] \<Longrightarrow> pv = last xs" "xs = [] \<Longrightarrow> pv = kNilHandle" by (auto simp: pv_def)
  have nxy: "ys \<noteq> [] \<Longrightarrow> nx = hd ys" by (auto simp: nx_def hd_append)
  have u: "OrderBook_unlink s p h b =
      (if ys \<noteq> [] then pool_upd (hd ys) (\<lambda>x. x\<lparr>o_prev := pv\<rparr>) b1 else level_upd s p (\<lambda>l. l\<lparr>l_tail := pv\<rparr>) b1)"
  proof -
    have "b1 = (if o_prev (ob_pool b ! h) \<noteq> kNilHandle then pool_upd (o_prev (ob_pool b ! h)) (\<lambda>x. x\<lparr>o_next := o_next (ob_pool b ! h)\<rparr>) b
        else level_upd s p (\<lambda>l. l\<lparr>l_head := o_next (ob_pool b ! h)\<rparr>) b)"
      using lk(1,2,3) pvx by (simp add: b1_def nx_def pv_def)
    then show ?thesis
      using lk(1,2,4) nxy o2 by (simp add: OrderBook_unlink_def Let_def nx_def pv_def)
  qed
  have b1: "length (ob_pool b1) = length (ob_pool b)" "ob_minPrice b1 = ob_minPrice b" "ob_maxPrice b1 = ob_maxPrice b" "dims b1"
    "ob_freeHead b1 = ob_freeHead b" "ob_bestBid b1 = ob_bestBid b" "ob_bestAsk b1 = ob_bestAsk b" "\<And>q. in_range b1 q = in_range b q"
    using core_dims [OF assms(1)] by (simp_all add: b1_def)
  have p1: "ob_pool b1 ! i = (ob_pool b ! i)\<lparr>o_next := (if xs \<noteq> [] \<and> i = last xs then nx else o_next (ob_pool b ! i))\<rparr>" for i
    using lx by (auto simp: b1_def pool_upd_nth)
  show ?pool using hy xy by (auto simp: u pool_upd_nth b1(1) p1)
  show "length (ob_pool (OrderBook_unlink s p h b)) = length (ob_pool b)" "ob_freeHead (OrderBook_unlink s p h b) = ob_freeHead b"
    "dims (OrderBook_unlink s p h b)" "ob_minPrice (OrderBook_unlink s p h b) = ob_minPrice b"
    "ob_maxPrice (OrderBook_unlink s p h b) = ob_maxPrice b" "ob_bestBid (OrderBook_unlink s p h b) = ob_bestBid b"
    "ob_bestAsk (OrderBook_unlink s p h b) = ob_bestAsk b"
    using b1 by (simp_all add: u)
  assume q: "in_range b q"
  have l1: "OrderBook_levelFor s' q b1 = (if s' = s \<and> q = p \<and> xs = [] then (OrderBook_levelFor s p b)\<lparr>l_head := nx\<rparr>
      else OrderBook_levelFor s' q b)" if "in_range b q" for s' q
    using core_dims [OF assms(1)] lk(5) that by (auto simp: b1_def levelFor_upd)
  show "OrderBook_levelFor s' q (OrderBook_unlink s p h b) =
      (if s' = s \<and> q = p then (OrderBook_levelFor s p b)\<lparr>l_head := (if xs = [] then nx else l_head (OrderBook_levelFor s p b)),
          l_tail := (if ys = [] then pv else l_tail (OrderBook_levelFor s p b))\<rparr> else OrderBook_levelFor s' q b)"
    using l1 [OF q] l1 [OF lk(5)] b1(4,8) lk(5) q by (auto simp: u levelFor_upd)
qed

definition detach :: "Side \<Rightarrow> Price \<Rightarrow> Handle \<Rightarrow> OrderBook \<Rightarrow> OrderBook" where
  "detach s p h b =
     OrderBook_free h (pool_upd h (\<lambda>x. x\<lparr>o_qty := 0\<rparr>)
       (level_upd s p (\<lambda>l. l\<lparr>l_totalQty := l_totalQty l - o_qty (ob_pool b ! h), l_count := l_count l - 1\<rparr>)
         (OrderBook_unlink s p h b)))"

lemma detach_effect:
  assumes "core b L F" and "L s p = xs @ h # ys"
  defines "nx \<equiv> hd (ys @ [kNilHandle])" and "pv \<equiv> last (kNilHandle # xs)"
  shows "i < length (ob_pool b) \<Longrightarrow> ob_pool (detach s p h b) ! i = (if i = h
      then (ob_pool b ! h)\<lparr>o_qty := 0, o_next := ob_freeHead b\<rparr>
      else (ob_pool b ! i)\<lparr>o_prev := (if ys \<noteq> [] \<and> i = hd ys then pv else o_prev (ob_pool b ! i)),
             o_next := (if xs \<noteq> [] \<and> i = last xs then nx else o_next (ob_pool b ! i))\<rparr>)"
    and "in_range b q \<Longrightarrow> OrderBook_levelFor s' q (detach s p h b) =
      (if s' = s \<and> q = p then
         \<lparr>l_totalQty = l_totalQty (OrderBook_levelFor s p b) - o_qty (ob_pool b ! h),
          l_head = (if xs = [] then nx else l_head (OrderBook_levelFor s p b)),
          l_tail = (if ys = [] then pv else l_tail (OrderBook_levelFor s p b)),
          l_count = l_count (OrderBook_levelFor s p b) - 1\<rparr> else OrderBook_levelFor s' q b)"
    and "length (ob_pool (detach s p h b)) = length (ob_pool b)"
    and "ob_freeHead (detach s p h b) = h" and "dims (detach s p h b)"
    and "ob_minPrice (detach s p h b) = ob_minPrice b" and "ob_maxPrice (detach s p h b) = ob_maxPrice b"
    and "ob_bestBid (detach s p h b) = ob_bestBid b" and "ob_bestAsk (detach s p h b) = ob_bestAsk b"
proof -
  note lk = core_links [OF assms(1,2)] and un = unlink_effect [OF assms(1,2), folded nx_def pv_def]
  have hx: "xs \<noteq> [] \<Longrightarrow> last xs \<noteq> h" "ys \<noteq> [] \<Longrightarrow> hd ys \<noteq> h" using lk(7) by auto
  have uh: "ob_pool (OrderBook_unlink s p h b) ! h = ob_pool b ! h" using hx by (auto simp: un(1))
  show "i < length (ob_pool b) \<Longrightarrow> ob_pool (detach s p h b) ! i = (if i = h
      then (ob_pool b ! h)\<lparr>o_qty := 0, o_next := ob_freeHead b\<rparr>
      else (ob_pool b ! i)\<lparr>o_prev := (if ys \<noteq> [] \<and> i = hd ys then pv else o_prev (ob_pool b ! i)),
             o_next := (if xs \<noteq> [] \<and> i = last xs then nx else o_next (ob_pool b ! i))\<rparr>)"
    using lk(6) uh by (simp add: detach_def free_nth pool_upd_nth un(3,4) un(1) [of i])
  show "length (ob_pool (detach s p h b)) = length (ob_pool b)" "ob_freeHead (detach s p h b) = h" "dims (detach s p h b)"
    "ob_minPrice (detach s p h b) = ob_minPrice b" "ob_maxPrice (detach s p h b) = ob_maxPrice b"
    "ob_bestBid (detach s p h b) = ob_bestBid b" "ob_bestAsk (detach s p h b) = ob_bestAsk b"
    using un by (simp_all add: detach_def)
  have ir: "in_range (OrderBook_unlink s p h b) x = in_range b x" for x using un(6,7) by (simp add: in_range_def)
  show "in_range b q \<Longrightarrow> OrderBook_levelFor s' q (detach s p h b) =
      (if s' = s \<and> q = p then
         \<lparr>l_totalQty = l_totalQty (OrderBook_levelFor s p b) - o_qty (ob_pool b ! h),
          l_head = (if xs = [] then nx else l_head (OrderBook_levelFor s p b)),
          l_tail = (if ys = [] then pv else l_tail (OrderBook_levelFor s p b)),
          l_count = l_count (OrderBook_levelFor s p b) - 1\<rparr> else OrderBook_levelFor s' q b)"
    using lk(5) un(5) by (simp add: detach_def levelFor_upd ir un(2))
qed

lemma core_detach:
  assumes "core b L F" and "L s p = xs @ h # ys"
  shows "core (detach s p h b) (L(s := (L s)(p := xs @ ys))) (h # F)"
proof -
  let ?b = "detach s p h b"
  define nx pv where "nx = hd (ys @ [kNilHandle])" and "pv = last (kNilHandle # xs)"
  note lk = core_links [OF assms] and de = detach_effect [OF assms, folded nx_def pv_def]
  have r: "in_range b p" by (rule lk(5))
  note lv = core_level [OF assms(1) r, of s, unfolded lvl_ok_def assms(2)]
  have ds: "dseg (ob_pool b) kNilHandle xs h" "dseg (ob_pool b) h ys kNilHandle"
    using lv by (auto simp: dseg_append)
  have mem: "x < length (ob_pool b)" "x \<noteq> kNilHandle" if "x \<in> set (xs @ h # ys)" for x using lk(8) that by auto
  have dx: "distinct xs" "distinct ys" "h \<notin> set xs" "h \<notin> set ys" "set xs \<inter> set ys = {}" using lk(7) by auto
  have pool: "ob_pool ?b ! i = (ob_pool b ! i)\<lparr>o_prev := (if ys \<noteq> [] \<and> i = hd ys then pv else o_prev (ob_pool b ! i)),
      o_next := (if xs \<noteq> [] \<and> i = last xs then nx else o_next (ob_pool b ! i))\<rparr>" if "i \<noteq> h" "i < length (ob_pool b)" for i
    using that de(1) by simp
  have hF: "h \<notin> set F" using core_free_member [OF assms(1), of h] core_member [OF assms(1), of h s p] assms(2) by auto
  have qty: "o_qty (ob_pool ?b ! i) = (if i = h then 0 else o_qty (ob_pool b ! i))" if "i < length (ob_pool b)" for i
    using that de(1) [OF that] by simp
  have sx: "dseg (ob_pool ?b) kNilHandle xs nx"
  proof (rule dseg_relink_next [OF ds(1) dx(1) de(3)])
    fix x assume x: "x \<in> set xs"
    then have xi: "x \<noteq> h" "x < length (ob_pool b)" "ys \<noteq> [] \<longrightarrow> x \<noteq> hd ys" using dx mem by auto
    show "o_prev (ob_pool ?b ! x) = o_prev (ob_pool b ! x)" using pool [OF xi(1,2)] xi(3) by auto
    show "x \<noteq> last xs \<Longrightarrow> o_next (ob_pool ?b ! x) = o_next (ob_pool b ! x)" using pool [OF xi(1,2)] by auto
  next
    assume "xs \<noteq> []"
    then have "last xs \<in> set xs" by simp
    then have "last xs \<noteq> h" "last xs < length (ob_pool b)" using dx mem by auto
    then show "o_next (ob_pool ?b ! last xs) = nx" using pool \<open>xs \<noteq> []\<close> by simp
  qed
  have sy: "dseg (ob_pool ?b) pv ys kNilHandle"
  proof (rule dseg_relink_prev [OF ds(2) dx(2) de(3)])
    fix y assume y: "y \<in> set ys"
    then have yi: "y \<noteq> h" "y < length (ob_pool b)" "xs \<noteq> [] \<longrightarrow> y \<noteq> last xs"
      using dx mem by (auto, metis disjoint_iff last_in_set)
    show "o_next (ob_pool ?b ! y) = o_next (ob_pool b ! y)" using pool [OF yi(1,2)] yi(3) by auto
    show "y \<noteq> hd ys \<Longrightarrow> o_prev (ob_pool ?b ! y) = o_prev (ob_pool b ! y)" using pool [OF yi(1,2)] by auto
  next
    assume "ys \<noteq> []"
    then have "hd ys \<in> set ys" by simp
    then have "hd ys \<noteq> h" "hd ys < length (ob_pool b)" using dx mem by auto
    then show "o_prev (ob_pool ?b ! hd ys) = pv" using pool \<open>ys \<noteq> []\<close> by simp
  qed
  have v: "vol (ob_pool ?b) (xs @ ys) = vol (ob_pool b) (xs @ ys)"
    using dx mem by (intro vol_cong) (auto simp: qty)
  have tot: "unat (l_totalQty (OrderBook_levelFor s p b)) = vol (ob_pool b) (xs @ ys) + unat (o_qty (ob_pool b ! h))" using lv by simp
  then have "o_qty (ob_pool b ! h) \<le> l_totalQty (OrderBook_levelFor s p b)" by (simp add: word_le_nat_alt)
  then have t: "unat (l_totalQty (OrderBook_levelFor s p b) - o_qty (ob_pool b ! h)) = vol (ob_pool b) (xs @ ys)"
    using tot by (simp add: unat_minus_le)
  have ok: "lvl_ok (OrderBook_levelFor s p ?b) (ob_pool ?b) s p (xs @ ys)"
    unfolding lvl_ok_def de(2) [OF r]
  proof (simp only: simp_thms if_True Level.select_convs, intro conjI)
    show "(if xs = [] then nx else l_head (OrderBook_levelFor s p b)) = hd ((xs @ ys) @ [kNilHandle])"
      using lv by (cases xs) (auto simp: nx_def)
    show "(if ys = [] then pv else l_tail (OrderBook_levelFor s p b)) = last (kNilHandle # xs @ ys)"
      using lv by (auto simp: pv_def)
    show "unat (l_totalQty (OrderBook_levelFor s p b) - o_qty (ob_pool b ! h)) = vol (ob_pool ?b) (xs @ ys)" using t v by simp
    show "l_count (OrderBook_levelFor s p b) - 1 = of_nat (length (xs @ ys))" using lv by simp
    show "dseg (ob_pool ?b) kNilHandle (xs @ ys) kNilHandle" unfolding dseg_append using sx sy by (simp add: nx_def pv_def)
    show "distinct (xs @ ys)" using lk(7) by simp
    show "\<forall>x \<in> set (xs @ ys). o_side (ob_pool ?b ! x) = s \<and> o_price (ob_pool ?b ! x) = p \<and> o_qty (ob_pool ?b ! x) \<noteq> 0"
    proof
      fix x assume x: "x \<in> set (xs @ ys)"
      then have "x \<noteq> h" "x < length (ob_pool b)" using dx mem by auto
      then show "o_side (ob_pool ?b ! x) = s \<and> o_price (ob_pool ?b ! x) = p \<and> o_qty (ob_pool ?b ! x) \<noteq> 0"
        using pool lv x by auto
    qed
  qed
  have fc: "fchain (ob_pool ?b) (h # F) (ob_freeHead ?b)"
  proof -
    have "fchain (ob_pool b) F (ob_freeHead b)" using assms(1) by (simp add: core_def)
    then have "fchain (ob_pool ?b) F (ob_freeHead b)"
    proof (rule fchain_cong [rotated])
      fix x assume x: "x \<in> set F"
      have xi: "x < length (ob_pool b)" "o_qty (ob_pool b ! x) = 0" using core_free_member [OF assms(1) x] by auto
      then have "x \<notin> set (xs @ ys)" "x \<noteq> h" using core_member [OF assms(1), of x s p] assms(2) hF x by auto
      then have "ys \<noteq> [] \<longrightarrow> x \<noteq> hd ys" "xs \<noteq> [] \<longrightarrow> x \<noteq> last xs" by auto
      then show "x < length (ob_pool ?b) \<and> o_qty (ob_pool ?b ! x) = o_qty (ob_pool b ! x) \<and> o_next (ob_pool ?b ! x) = o_next (ob_pool b ! x)"
        using pool [OF \<open>x \<noteq> h\<close> xi(1)] xi(1) de(3) by auto
    qed
    then show ?thesis using de(1) [OF lk(6)] de(3,4) lk(6) by simp
  qed
  show ?thesis
  proof (rule core_update [OF assms(1) r])
    show "lvl_ok (OrderBook_levelFor s p ?b) (ob_pool ?b) s p (xs @ ys)" by (rule ok)
    show "fchain (ob_pool ?b) (h # F) (ob_freeHead ?b)" by (rule fc)
    show "distinct (h # F)" using hF assms(1) by (simp add: core_def)
    show "length (ob_pool ?b) \<le> kNilHandle" using assms(1) de(3) by (simp add: core_def)
    show "ob_pool ?b ! x = ob_pool b ! x" if "x < length (ob_pool b)" "x \<notin> set (L s p)" "x \<notin> set F" for x
    proof -
      have "x \<noteq> h" "ys \<noteq> [] \<longrightarrow> x \<noteq> hd ys" "xs \<noteq> [] \<longrightarrow> x \<noteq> last xs" using that(2) assms(2) by auto
      then show ?thesis using pool that(1) by auto
    qed
    show "x \<in> set (h # F)" if "x < length (ob_pool ?b)" "o_qty (ob_pool ?b ! x) = 0" for x
      using that assms(1) de(3) qty [of x] by (auto simp: core_def split: if_splits)
    show "x \<in> set (xs @ ys) \<or> x < length (ob_pool b) \<and> x \<notin> set (L s p) \<and> x \<notin> set F"
      if "x < length (ob_pool ?b)" "o_qty (ob_pool ?b ! x) \<noteq> 0" for x
      using that de(3) qty [of x] assms(2) core_free_member [OF assms(1), of x] by (auto split: if_splits)
  qed (use de in auto)
qed

section \<open>Resting an order\<close>

text \<open>The slot \<^verbatim>\<open>alloc\<close> hands out: the head of the free list, or a new one at the end of the pool.\<close>

lemma alloc_effect:
  assumes "core b L F" and "F \<noteq> [] \<or> length (ob_pool b) < kNilHandle"
  obtains h b0 F' where "OrderBook_alloc b = (h, b0)" and "h < length (ob_pool b0)" and "length (ob_pool b0) \<le> kNilHandle"
    and "\<And>i. i < length (ob_pool b) \<Longrightarrow> ob_pool b0 ! i = ob_pool b ! i" and "length (ob_pool b) \<le> length (ob_pool b0)"
    and "fchain (ob_pool b0) F' (ob_freeHead b0)" and "distinct F'" and "h \<notin> set F'" and "\<And>s p. h \<notin> set (L s p)"
    and "\<And>i. i < length (ob_pool b0) \<Longrightarrow> i \<noteq> h \<Longrightarrow> i < length (ob_pool b)"
    and "\<And>i. i < length (ob_pool b) \<Longrightarrow> i \<noteq> h \<Longrightarrow> i \<in> set F \<longleftrightarrow> i \<in> set F'"
    and "ob_minPrice b0 = ob_minPrice b" "ob_maxPrice b0 = ob_maxPrice b" "ob_bidLevels b0 = ob_bidLevels b"
    "ob_askLevels b0 = ob_askLevels b" "ob_bestBid b0 = ob_bestBid b" "ob_bestAsk b0 = ob_bestAsk b"
    and "h < length (ob_pool b) \<longrightarrow> h \<in> set F"
proof (cases F)
  case Nil
  have fh: "ob_freeHead b = kNilHandle" using assms(1) Nil by (simp add: core_def)
  then have al: "OrderBook_alloc b = (length (ob_pool b), b\<lparr>ob_pool := ob_pool b @ [Order_zero]\<rparr>)" by (simp add: OrderBook_alloc_def)
  have nm: "length (ob_pool b) \<notin> set (L s p)" for s p using core_member [OF assms(1), of "length (ob_pool b)" s p] by auto
  show ?thesis
    by (rule that [OF al, of "[]"]) (use assms Nil fh nm in \<open>auto simp: nth_append kNilHandle_def\<close>)
next
  case (Cons h F')
  have fc: "ob_freeHead b = h" "h < length (ob_pool b)" "o_qty (ob_pool b ! h) = 0" "fchain (ob_pool b) F' (o_next (ob_pool b ! h))"
    "distinct (h # F')" "length (ob_pool b) \<le> kNilHandle"
    using assms(1) Cons by (simp_all add: core_def)
  then have al: "OrderBook_alloc b = (h, b\<lparr>ob_freeHead := o_next (ob_pool b ! h)\<rparr>)" by (auto simp: OrderBook_alloc_def Let_def)
  have nm: "h \<notin> set (L s p)" for s p using core_member [OF assms(1), of h s p] fc(3) by auto
  show ?thesis by (rule that [OF al, of F']) (use fc nm Cons in auto)
qed

lemma rest_effect:
  assumes "core b L F" and "in_range b p" and "OrderBook_alloc b = (h, b0)" and "h < length (ob_pool b0)"
    and "\<forall>i < length (ob_pool b). ob_pool b0 ! i = ob_pool b ! i" "length (ob_pool b) \<le> length (ob_pool b0)"
    and "\<forall>s p. h \<notin> set (L s p)"
    and "ob_minPrice b0 = ob_minPrice b" "ob_maxPrice b0 = ob_maxPrice b" "ob_bidLevels b0 = ob_bidLevels b"
    "ob_askLevels b0 = ob_askLevels b" "ob_bestBid b0 = ob_bestBid b" "ob_bestAsk b0 = ob_bestAsk b"
    and "OrderBook_rest oid s p q b = (h', b')"
  shows "h' = h"
    and "ob_pool b' ! i = (if i = h then (ob_pool b0 ! h)\<lparr>o_id := oid, o_price := p, o_qty := q, o_side := s,
        o_prev := last (kNilHandle # L s p), o_next := kNilHandle\<rparr>
      else if L s p \<noteq> [] \<and> i = last (L s p) then (ob_pool b0 ! i)\<lparr>o_next := h\<rparr> else ob_pool b0 ! i)"
    and "in_range b x \<Longrightarrow> OrderBook_levelFor s' x b' = (if s' = s \<and> x = p then
      \<lparr>l_totalQty = l_totalQty (OrderBook_levelFor s p b) + q,
       l_head = (if L s p = [] then h else l_head (OrderBook_levelFor s p b)), l_tail = h,
       l_count = l_count (OrderBook_levelFor s p b) + 1\<rparr> else OrderBook_levelFor s' x b)"
    and "length (ob_pool b') = length (ob_pool b0)" and "ob_freeHead b' = ob_freeHead b0" and "dims b'"
    and "ob_minPrice b' = ob_minPrice b" and "ob_maxPrice b' = ob_maxPrice b"
    and "case s of Buy \<Rightarrow> ob_bestAsk b' = ob_bestAsk b \<and>
         ob_bestBid b' = (if ob_bestBid b = kNoPrice \<or> p > ob_bestBid b then p else ob_bestBid b)
     | Sell \<Rightarrow> ob_bestBid b' = ob_bestBid b \<and>
         ob_bestAsk b' = (if ob_bestAsk b = kNoPrice \<or> p < ob_bestAsk b then p else ob_bestAsk b)"
proof -
  note lv = core_level [OF assms(1,2), of s, unfolded lvl_ok_def]
  have d0: "dims b0" using core_dims [OF assms(1)] assms(8-11) by (simp add: dims_def)
  have ir: "in_range b0 x = in_range b x" for x using assms(8,9) by (simp add: in_range_def)
  have lf: "OrderBook_levelFor s' x b0 = OrderBook_levelFor s' x b" for s' x by (rule levelFor_cong) (use assms(8-11) in auto)
  define b1 where "b1 = pool_upd h (\<lambda>x. x\<lparr>o_id := oid, o_price := p, o_qty := q, o_side := s,
                                 o_prev := kNilHandle, o_next := kNilHandle\<rparr>) b0"
  define b2 where "b2 = (if L s p = [] then level_upd s p (\<lambda>l. l\<lparr>l_head := h, l_tail := h\<rparr>) b1
      else level_upd s p (\<lambda>l. l\<lparr>l_tail := h\<rparr>)
             (pool_upd h (\<lambda>x. x\<lparr>o_prev := last (L s p)\<rparr>) (pool_upd (last (L s p)) (\<lambda>x. x\<lparr>o_next := h\<rparr>) b1)))"
  define b3 where "b3 = level_upd s p (\<lambda>l. l\<lparr>l_totalQty := l_totalQty l + q, l_count := l_count l + 1\<rparr>) b2"
  have tl: "l_tail (OrderBook_levelFor s p b1) = last (kNilHandle # L s p)" using lv by (simp add: b1_def lf)
  have nl: "last (kNilHandle # L s p) = kNilHandle \<longleftrightarrow> L s p = []"
    using core_nil [OF assms(1), of "last (L s p)" s p] by auto
  have "OrderBook_rest oid s p q b = (h, case s of
      Buy \<Rightarrow> if ob_bestBid b3 = kNoPrice \<or> p > ob_bestBid b3 then b3\<lparr>ob_bestBid := p\<rparr> else b3
    | Sell \<Rightarrow> if ob_bestAsk b3 = kNoPrice \<or> p < ob_bestAsk b3 then b3\<lparr>ob_bestAsk := p\<rparr> else b3)"
    unfolding OrderBook_rest_def assms(3) Let_def prod.case b1_def [symmetric] tl nl b3_def b2_def
    by (cases s; cases "L s p = []") simp_all
  then have h': "h' = h" and b': "b' = (case s of
      Buy \<Rightarrow> if ob_bestBid b3 = kNoPrice \<or> p > ob_bestBid b3 then b3\<lparr>ob_bestBid := p\<rparr> else b3
    | Sell \<Rightarrow> if ob_bestAsk b3 = kNoPrice \<or> p < ob_bestAsk b3 then b3\<lparr>ob_bestAsk := p\<rparr> else b3)"
    using assms(14) by simp_all
  show "h' = h" by (rule h')
  have lh: "L s p \<noteq> [] \<Longrightarrow> last (L s p) \<noteq> h \<and> last (L s p) < length (ob_pool b0)"
    using assms(6,7) core_member [OF assms(1), of "last (L s p)" s p]
    by (metis last_in_set order_less_le_trans)
  have l1: "length (ob_pool b1) = length (ob_pool b0)" by (simp add: b1_def)
  have p1: "ob_pool b1 ! i = (if i = h then (ob_pool b0 ! h)\<lparr>o_id := oid, o_price := p, o_qty := q, o_side := s,
      o_prev := kNilHandle, o_next := kNilHandle\<rparr> else ob_pool b0 ! i)" for i
    using assms(4) by (simp add: b1_def pool_upd_nth)
  have p3: "ob_pool b3 ! i = (if i = h then (ob_pool b0 ! h)\<lparr>o_id := oid, o_price := p, o_qty := q, o_side := s,
        o_prev := last (kNilHandle # L s p), o_next := kNilHandle\<rparr>
      else if L s p \<noteq> [] \<and> i = last (L s p) then (ob_pool b0 ! i)\<lparr>o_next := h\<rparr> else ob_pool b0 ! i)"
    using lh assms(4) by (cases "L s p = []") (auto simp: b3_def b2_def pool_upd_nth p1 l1)
  have b'3: "ob_pool b' = ob_pool b3" "ob_freeHead b' = ob_freeHead b3" "ob_minPrice b' = ob_minPrice b3" "ob_maxPrice b' = ob_maxPrice b3"
    "ob_bidLevels b' = ob_bidLevels b3" "ob_askLevels b' = ob_askLevels b3"
    by (auto simp: b' split: Side.splits)
  show "ob_pool b' ! i = (if i = h then (ob_pool b0 ! h)\<lparr>o_id := oid, o_price := p, o_qty := q, o_side := s,
        o_prev := last (kNilHandle # L s p), o_next := kNilHandle\<rparr>
      else if L s p \<noteq> [] \<and> i = last (L s p) then (ob_pool b0 ! i)\<lparr>o_next := h\<rparr> else ob_pool b0 ! i)"
    unfolding b'3(1) by (rule p3)
  have b30: "ob_minPrice b3 = ob_minPrice b" "ob_maxPrice b3 = ob_maxPrice b" "ob_freeHead b3 = ob_freeHead b0"
    "length (ob_pool b3) = length (ob_pool b0)" "dims b3" "ob_bestBid b3 = ob_bestBid b" "ob_bestAsk b3 = ob_bestAsk b"
    using assms(8-13) d0 by (simp_all add: b3_def b2_def b1_def)
  show "length (ob_pool b') = length (ob_pool b0)" "ob_freeHead b' = ob_freeHead b0" "ob_minPrice b' = ob_minPrice b" "ob_maxPrice b' = ob_maxPrice b"
    using b30 b'3 by simp_all
  show "dims b'" using b30(5) b'3 by (simp add: dims_def)
  show "case s of Buy \<Rightarrow> ob_bestAsk b' = ob_bestAsk b \<and>
         ob_bestBid b' = (if ob_bestBid b = kNoPrice \<or> p > ob_bestBid b then p else ob_bestBid b)
     | Sell \<Rightarrow> ob_bestBid b' = ob_bestBid b \<and>
         ob_bestAsk b' = (if ob_bestAsk b = kNoPrice \<or> p < ob_bestAsk b then p else ob_bestAsk b)"
    using b30(6,7) by (cases s) (simp_all add: b')
  have l2: "OrderBook_levelFor s' x b2 = (if s' = s \<and> x = p then
      (OrderBook_levelFor s p b)\<lparr>l_head := (if L s p = [] then h else l_head (OrderBook_levelFor s p b)), l_tail := h\<rparr>
      else OrderBook_levelFor s' x b)" if "in_range b x" for s' x
    using d0 assms(2) that by (auto simp: b2_def b1_def levelFor_upd ir lf)
  have d2: "dims b2" "\<And>x. in_range b2 x = in_range b x" using d0 by (simp_all add: b2_def b1_def ir)
  show "in_range b x \<Longrightarrow> OrderBook_levelFor s' x b' = (if s' = s \<and> x = p then
      \<lparr>l_totalQty = l_totalQty (OrderBook_levelFor s p b) + q,
       l_head = (if L s p = [] then h else l_head (OrderBook_levelFor s p b)), l_tail = h,
       l_count = l_count (OrderBook_levelFor s p b) + 1\<rparr> else OrderBook_levelFor s' x b)"
    unfolding levelFor_cong [OF b'3(3,5,6)] using d2 assms(2) by (simp add: b3_def levelFor_upd l2)
qed

lemma core_rest:
  assumes "core b L F" and "in_range b p" and "q \<noteq> 0" and "vol (ob_pool b) (L s p) + unat q < 2 ^ 32"
    and "F \<noteq> [] \<or> length (ob_pool b) < kNilHandle" and "OrderBook_rest oid s p q b = (h, b')"
  shows "\<exists>F'. core b' (L(s := (L s)(p := L s p @ [h]))) F' \<and> h < length (ob_pool b') \<and>
    o_id (ob_pool b' ! h) = oid \<and> o_qty (ob_pool b' ! h) = q \<and> (\<forall>s p. h \<notin> set (L s p)) \<and>
    (\<forall>i < length (ob_pool b). i \<noteq> h \<longrightarrow> o_id (ob_pool b' ! i) = o_id (ob_pool b ! i) \<and> o_qty (ob_pool b' ! i) = o_qty (ob_pool b ! i))"
proof -
  obtain h0 b0 F' where al: "OrderBook_alloc b = (h0, b0)" and h0: "h0 < length (ob_pool b0)" "length (ob_pool b0) \<le> kNilHandle"
    and p0: "\<And>i. i < length (ob_pool b) \<Longrightarrow> ob_pool b0 ! i = ob_pool b ! i" "length (ob_pool b) \<le> length (ob_pool b0)"
    and f0: "fchain (ob_pool b0) F' (ob_freeHead b0)" "distinct F'" "h0 \<notin> set F'" and nm: "\<And>s p. h0 \<notin> set (L s p)"
    and old: "\<And>i. i < length (ob_pool b0) \<Longrightarrow> i \<noteq> h0 \<Longrightarrow> i < length (ob_pool b)"
    and ff: "\<And>i. i < length (ob_pool b) \<Longrightarrow> i \<noteq> h0 \<Longrightarrow> i \<in> set F \<longleftrightarrow> i \<in> set F'"
    and fl: "ob_minPrice b0 = ob_minPrice b" "ob_maxPrice b0 = ob_maxPrice b" "ob_bidLevels b0 = ob_bidLevels b"
    "ob_askLevels b0 = ob_askLevels b" "ob_bestBid b0 = ob_bestBid b" "ob_bestAsk b0 = ob_bestAsk b"
    and hF: "h0 < length (ob_pool b) \<longrightarrow> h0 \<in> set F"
    by (rule alloc_effect [OF assms(1,5)], rule that, assumption+)
  have p0': "\<forall>i < length (ob_pool b). ob_pool b0 ! i = ob_pool b ! i" and nm': "\<forall>s p. h0 \<notin> set (L s p)"
    using p0(1) nm by auto
  note re = rest_effect [OF assms(1,2) al h0(1) p0' p0(2) nm' fl assms(6)]
  have h: "h = h0" by (rule re(1))
  note lv = core_level [OF assms(1,2), of s, unfolded lvl_ok_def]
  let ?hs = "L s p"
  have mem: "x < length (ob_pool b) \<and> x \<noteq> h0" if "x \<in> set ?hs" for x using core_member [OF assms(1) that] nm that by auto
  have ds: "dseg (ob_pool b') kNilHandle (?hs @ [h]) kNilHandle"
  proof -
    have "dseg (ob_pool b0) kNilHandle ?hs kNilHandle"
      by (rule dseg_cong [of _ _ "ob_pool b"]) (use lv mem p0 in \<open>auto intro: order_less_le_trans\<close>)
    then have "dseg (ob_pool b') kNilHandle ?hs h0"
      by (rule dseg_relink_next) (use lv mem re(4) in \<open>auto simp: re(2)\<close>)
    then show ?thesis using h0(1) by (simp add: dseg_append h re(2,4))
  qed
  have v: "vol (ob_pool b') (?hs @ [h]) = vol (ob_pool b) ?hs + unat q"
    using mem p0(1) by (simp add: h re(2)) (intro vol_cong, auto simp: re(2))
  have tot: "unat (l_totalQty (OrderBook_levelFor s p b) + q) = vol (ob_pool b) ?hs + unat q"
    using lv assms(4) by (simp add: unat_word_ariths)
  have ok: "lvl_ok (OrderBook_levelFor s p b') (ob_pool b') s p (?hs @ [h])"
    unfolding lvl_ok_def re(3) [OF assms(2)]
    using lv ds v tot mem nm p0(1) assms(3) by (auto simp: h re(2) hd_append)
  have fc: "fchain (ob_pool b') F' (ob_freeHead b')"
  proof (rule fchain_cong [of _ _ "ob_pool b0"])
    show "fchain (ob_pool b0) F' (ob_freeHead b')" using f0(1) re(5) by simp
    fix x assume x: "x \<in> set F'"
    have xq: "x < length (ob_pool b0)" "o_qty (ob_pool b0 ! x) = 0" using fchain_bound [OF f0(1) x] by auto
    have "x \<noteq> h0" using x f0(3) by auto
    then have "x < length (ob_pool b)" using old xq by blast
    then have "x \<notin> set ?hs" using core_member [OF assms(1), of x s p] xq p0(1) by auto
    then show "x < length (ob_pool b') \<and> o_qty (ob_pool b' ! x) = o_qty (ob_pool b0 ! x) \<and> o_next (ob_pool b' ! x) = o_next (ob_pool b0 ! x)"
      using xq \<open>x \<noteq> h0\<close> re(4) by (auto simp: re(2))
  qed
  have "core b' (L(s := (L s)(p := ?hs @ [h]))) F'"
  proof (rule core_update [OF assms(1,2)])
    show "lvl_ok (OrderBook_levelFor s p b') (ob_pool b') s p (?hs @ [h])" by (rule ok)
    show "fchain (ob_pool b') F' (ob_freeHead b')" by (rule fc)
    show "ob_pool b' ! x = ob_pool b ! x" if "x < length (ob_pool b)" "x \<notin> set ?hs" "x \<notin> set F" for x
      using that hF p0(1) by (auto simp: re(2))
    show "x \<in> set F'" if "x < length (ob_pool b')" "o_qty (ob_pool b' ! x) = 0" for x
    proof -
      have "x \<noteq> h0" using that(2) assms(3) by (auto simp: re(2))
      moreover from this have "x < length (ob_pool b)" using that(1) old re(4) by simp
      moreover from calculation have "o_qty (ob_pool b ! x) = 0" using that(2) p0(1) by (auto simp: re(2) split: if_splits)
      ultimately show ?thesis using ff assms(1) by (auto simp: core_def)
    qed
    show "x \<in> set (?hs @ [h]) \<or> x < length (ob_pool b) \<and> x \<notin> set ?hs \<and> x \<notin> set F"
      if "x < length (ob_pool b')" "o_qty (ob_pool b' ! x) \<noteq> 0" for x
    proof (cases "x = h0")
      case False
      then have "x < length (ob_pool b)" using that(1) old re(4) by simp
      moreover have "x \<notin> set F" using that(2) False core_free_member [OF assms(1), of x] p0(1) by (auto simp: re(2) split: if_splits)
      ultimately show ?thesis by auto
    qed (simp add: h)
  qed (use re assms(2) h0 p0(2) f0(2) in auto)
  moreover have "\<forall>i < length (ob_pool b). i \<noteq> h \<longrightarrow> o_id (ob_pool b' ! i) = o_id (ob_pool b ! i) \<and> o_qty (ob_pool b' ! i) = o_qty (ob_pool b ! i)"
    using p0(1) by (auto simp: h re(2))
  ultimately show ?thesis using h0(1) nm by (intro exI [of _ F']) (simp add: h re(2,4))
qed

section \<open>Best prices\<close>

lemma rescan_bid_best:
  "core b L F \<Longrightarrow> p \<le> ob_maxPrice b \<Longrightarrow> (\<And>q. q > p \<Longrightarrow> L Buy q = []) \<Longrightarrow> best_bid L (rescan_bid b p)"
proof (induction b p rule: rescan_bid.induct)
  case (1 b p)
  show ?case
  proof (cases "ob_minPrice b \<le> p")
    case False
    have "L Buy q = []" for q
      using "1.prems"(3) core_outside [OF "1.prems"(1), of q Buy] False by (cases "q > p") (auto simp: in_range_def)
    then show ?thesis using False by (subst rescan_bid.simps) (simp add: best_bid_def)
  next
    case True
    then have r: "in_range b p" using "1.prems"(2) by (simp add: in_range_def)
    have e: "l_totalQty (OrderBook_levelFor Buy p b) > 0 \<longleftrightarrow> L Buy p \<noteq> []"
      using core_empty_iff [OF "1.prems"(1) r, of Buy] by (metis word_gt_0)
    show ?thesis
    proof (cases "L Buy p = []")
      case False
      then have "rescan_bid b p = p" using True e by (subst rescan_bid.simps) simp
      then show ?thesis using False "1.prems"(3) by (auto simp: best_bid_def not_less [symmetric])
    next
      case empty: True
      then have "rescan_bid b p = rescan_bid b (p - 1)" using True e by (subst rescan_bid.simps) simp
      moreover have "L Buy q = []" if "q > p - 1" for q using that empty "1.prems"(3) by (cases "q = p") auto
      then have "best_bid L (rescan_bid b (p - 1))" using "1.IH" True e empty "1.prems" by simp
      ultimately show ?thesis by simp
    qed
  qed
qed

lemma rescan_ask_best:
  "core b L F \<Longrightarrow> ob_minPrice b \<le> p \<Longrightarrow> (\<And>q. q < p \<Longrightarrow> L Sell q = []) \<Longrightarrow> best_ask L (rescan_ask b p)"
proof (induction b p rule: rescan_ask.induct)
  case (1 b p)
  show ?case
  proof (cases "p \<le> ob_maxPrice b")
    case False
    have "L Sell q = []" for q
      using "1.prems"(3) core_outside [OF "1.prems"(1), of q Sell] False by (cases "q < p") (auto simp: in_range_def)
    then show ?thesis using False by (subst rescan_ask.simps) (simp add: best_ask_def)
  next
    case True
    then have r: "in_range b p" using "1.prems"(2) by (simp add: in_range_def)
    have e: "l_totalQty (OrderBook_levelFor Sell p b) > 0 \<longleftrightarrow> L Sell p \<noteq> []"
      using core_empty_iff [OF "1.prems"(1) r, of Sell] by (metis word_gt_0)
    show ?thesis
    proof (cases "L Sell p = []")
      case False
      then have "rescan_ask b p = p" using True e by (subst rescan_ask.simps) simp
      then show ?thesis using False "1.prems"(3) by (auto simp: best_ask_def not_less [symmetric])
    next
      case empty: True
      then have "rescan_ask b p = rescan_ask b (p + 1)" using True e by (subst rescan_ask.simps) simp
      moreover have "L Sell q = []" if "q < p + 1" for q using that empty "1.prems"(3) by (cases "q = p") auto
      then have "best_ask L (rescan_ask b (p + 1))" using "1.IH" True e empty "1.prems" by simp
      ultimately show ?thesis by simp
    qed
  qed
qed

lemma core_best [simp]: "core (b\<lparr>ob_bestBid := x\<rparr>) L F = core b L F" "core (b\<lparr>ob_bestAsk := x\<rparr>) L F = core b L F"
  by (simp_all add: core_def dims_def)

lemma core_not_noprice: "core b L F \<Longrightarrow> L s kNoPrice = []"
  using core_outside [of b L F kNoPrice s] core_dims [of b L F] by (auto simp: in_range_def dims_def)

text \<open>With an entry, the best price is a price of the book; without, it is \<open>kNoPrice\<close>.\<close>

lemma best_bid_cases:
  assumes "core b L F" and "best_bid L x"
  shows "x = kNoPrice \<longleftrightarrow> (\<forall>p. L Buy p = [])" and "x \<noteq> kNoPrice \<Longrightarrow> L Buy x \<noteq> [] \<and> in_range b x"
  using assms core_not_noprice [OF assms(1), of Buy] core_outside [OF assms(1), of x Buy] by (auto simp: best_bid_def)

lemma best_ask_cases:
  assumes "core b L F" and "best_ask L x"
  shows "x = kNoPrice \<longleftrightarrow> (\<forall>p. L Sell p = [])" and "x \<noteq> kNoPrice \<Longrightarrow> L Sell x \<noteq> [] \<and> in_range b x"
  using assms core_not_noprice [OF assms(1), of Sell] core_outside [OF assms(1), of x Sell] by (auto simp: best_ask_def)

section \<open>The orders of a level, as the book shows them\<close>

lemma walk_dseg:
  "dseg (ob_pool b) prv hs kNilHandle \<Longrightarrow> (\<And>x. x \<in> set hs \<Longrightarrow> x \<noteq> kNilHandle) \<Longrightarrow> length hs \<le> n \<Longrightarrow>
     walk_level n b (hd (hs @ [kNilHandle])) = hs"
proof (induction hs arbitrary: prv n)
  case Nil
  then show ?case by (cases n) simp_all
next
  case (Cons h hs)
  then obtain m where n: "n = Suc m" by (cases n) auto
  have "walk_level m b (hd (hs @ [kNilHandle])) = hs" using Cons.prems n by (intro Cons.IH [of h]) auto
  then show ?case using Cons.prems n by simp
qed

lemma level_handles_core:
  assumes "core b L F"
  shows "level_handles s p b = L s p"
proof (cases "in_range b p")
  case False
  then show ?thesis using core_outside [OF assms] by (auto simp: level_handles_def in_range_def)
next
  case True
  note lv = core_level [OF assms True, of s, unfolded lvl_ok_def]
  have "set (L s p) \<subseteq> {..<length (ob_pool b)}" using core_member [OF assms] by blast
  then have "card (set (L s p)) \<le> length (ob_pool b)" by (metis card_lessThan card_mono finite_lessThan)
  then have "length (L s p) \<le> length (ob_pool b)" using lv by (simp add: distinct_card)
  then have "walk_level (length (ob_pool b)) b (l_head (OrderBook_levelFor s p b)) = L s p"
    using lv core_nil [OF assms] by (auto intro: walk_dseg)
  then show ?thesis using True by (auto simp: level_handles_def in_range_def)
qed

definition view :: "OrderBook \<Rightarrow> book" where
  "view b s p = map (\<lambda>x. (o_id x, o_qty x)) (forEachOrderAtLevel s p b)"

lemma view_core: "core b L F \<Longrightarrow> view b s p = map (\<lambda>h. (o_id (ob_pool b ! h), o_qty (ob_pool b ! h))) (L s p)"
  by (simp add: view_def forEachOrderAtLevel_def level_handles_core comp_def)

lemma view_empty: "core b L F \<Longrightarrow> view b s p = [] \<longleftrightarrow> L s p = []"
  by (simp add: view_core)

lemma volume_view: "core b L F \<Longrightarrow> volume (view b s p) = vol (ob_pool b) (L s p)"
  by (simp add: view_core volume_def vol_def comp_def)

section \<open>Matching refines the specification\<close>

lemma level_upd_level_upd: "dims b \<Longrightarrow> in_range b p \<Longrightarrow> level_upd s p f (level_upd s p g b) = level_upd s p (\<lambda>l. f (g l)) b"
proof -
  assume a: "dims b" "in_range b p"
  have l: "OrderBook_levelFor s p (level_upd s p g b) = g (OrderBook_levelFor s p b)" using a by (simp add: levelFor_upd)
  have i: "OrderBook_index (level_upd s p g b) p = OrderBook_index b p" by (simp add: OrderBook_index_def)
  show ?thesis
  proof (cases s)
    case Buy
    have "level_upd Buy p f (level_upd Buy p g b) = (level_upd Buy p g b)
        \<lparr>ob_bidLevels := (ob_bidLevels (level_upd Buy p g b))[OrderBook_index (level_upd Buy p g b) p :=
           f (OrderBook_levelFor Buy p (level_upd Buy p g b))]\<rparr>" by (rule level_upd.simps)
    then show ?thesis unfolding Buy l [unfolded Buy] i [unfolded Buy] by simp
  next
    case Sell
    have "level_upd Sell p f (level_upd Sell p g b) = (level_upd Sell p g b)
        \<lparr>ob_askLevels := (ob_askLevels (level_upd Sell p g b))[OrderBook_index (level_upd Sell p g b) p :=
           f (OrderBook_levelFor Sell p (level_upd Sell p g b))]\<rparr>" by (rule level_upd.simps)
    then show ?thesis unfolding Sell l [unfolded Sell] i [unfolded Sell] by simp
  qed
qed

lemma pool_level_commute: "pool_upd h f (level_upd s p g b) = level_upd s p g (pool_upd h f b)"
  by (cases s) (simp_all add: pool_upd_def OrderBook_index_def)

lemma pool_upd_commute: "h \<noteq> h' \<Longrightarrow> pool_upd h f (pool_upd h' g b) = pool_upd h' g (pool_upd h f b)"
  by (simp add: pool_upd_def list_update_swap)

lemma matchLevel_step_full:
  assumes "core b L F" and "L s p = h # hs" and "\<not> q < o_qty (ob_pool b ! h)"
  shows "matchLevel_step s p agg aggSide q b =
    (mk_trade agg aggSide p (o_id (ob_pool b ! h)) (o_qty (ob_pool b ! h)) True, o_qty (ob_pool b ! h), detach s p h b)"
proof -
  have L: "L s p = [] @ h # hs" using assms(2) by simp
  note lk = core_links [OF assms(1) L]
  let ?r = "ob_pool b ! h" and ?d = "dims b"
  let ?nx = "o_next ?r"
  have hd: "l_head (OrderBook_levelFor s p b) = h" using core_level [OF assms(1) lk(5), of s] assms(2) by (simp add: lvl_ok_def)
  have price: "o_price ?r = p" using core_member [OF assms(1), of h s p] assms(2) by simp
  have prev: "o_prev ?r = kNilHandle" using lk(3) by simp
  have nh: "?nx \<noteq> kNilHandle \<Longrightarrow> ?nx \<noteq> h"
    using lk(2,4,7) by (cases hs) auto
  have d: "dims b" by (rule core_dims [OF assms(1)])
  have n2: "o_next (ob_pool (level_upd s p g (pool_upd h (\<lambda>x. x\<lparr>o_qty := o_qty x - o_qty ?r\<rparr>) b)) ! h) = ?nx" for g
    using lk(6) by (simp add: pool_upd_nth)
  have z: "pool_upd h (\<lambda>x. x\<lparr>o_qty := o_qty x - o_qty ?r\<rparr>) b = pool_upd h (\<lambda>x. x\<lparr>o_qty := 0\<rparr>) b"
    by (simp add: pool_upd_def)
  have n0: "o_next (ob_pool (pool_upd h (\<lambda>x. x\<lparr>o_qty := 0\<rparr>) b) ! h) = ?nx" using lk(6) by (simp add: pool_upd_nth)
  have u1: "(\<lambda>l. l\<lparr>l_totalQty := l_totalQty l - o_qty ?r, l_head := ?nx, l_count := l_count l - 1\<rparr>) =
      (\<lambda>l. l\<lparr>l_head := ?nx, l_totalQty := l_totalQty l - o_qty ?r, l_count := l_count l - 1\<rparr>)"
    by (rule ext) simp
  have u2: "(\<lambda>l. l\<lparr>l_totalQty := l_totalQty l - o_qty ?r, l_head := kNilHandle, l_tail := kNilHandle, l_count := l_count l - 1\<rparr>) =
      (\<lambda>l. l\<lparr>l_head := kNilHandle, l_tail := kNilHandle, l_totalQty := l_totalQty l - o_qty ?r, l_count := l_count l - 1\<rparr>)"
    by (rule ext) simp
  note simps = matchLevel_step_def hd Let_def detach_def OrderBook_unlink_def prev mk_trade_def z n0
    level_upd_level_upd pool_level_commute
  show ?thesis
  proof (cases "?nx = kNilHandle")
    case True
    then show ?thesis using assms(3) price lk(5,6) d by (simp add: simps) (simp only: u2)
  next
    case False
    then show ?thesis
      using assms(3) price lk(5,6) d
      by (simp add: simps) (simp only: u1 pool_upd_commute [OF nh [OF False], of "\<lambda>x. x\<lparr>o_prev := kNilHandle\<rparr>" "\<lambda>x. x\<lparr>o_qty := 0\<rparr>" b])
  qed
qed

lemma matchLevel_step_partial:
  assumes "core b L F" and "L s p = h # hs" and "q < o_qty (ob_pool b ! h)"
  shows "matchLevel_step s p agg aggSide q b =
    (mk_trade agg aggSide p (o_id (ob_pool b ! h)) q False, q, requantify s p h (o_qty (ob_pool b ! h) - q) b)"
proof -
  have m: "h \<in> set (L s p)" using assms(2) by simp
  note cm = core_member [OF assms(1) m]
  have hd: "l_head (OrderBook_levelFor s p b) = h" using core_level [OF assms(1), of p s] cm assms(2) by (simp add: lvl_ok_def)
  have "pool_upd h (\<lambda>x. x\<lparr>o_qty := o_qty x - q\<rparr>) b = pool_upd h (\<lambda>x. x\<lparr>o_qty := o_qty (ob_pool b ! h) - q\<rparr>) b"
    by (simp add: pool_upd_def)
  then show ?thesis
    using assms(3) cm by (auto simp: matchLevel_step_def hd Let_def mk_trade_def requantify_def)
qed

text \<open>What matching one level may change: that level, the pool and the free list.\<close>

definition same_frame :: "OrderBook \<Rightarrow> OrderBook \<Rightarrow> bool" where
  "same_frame b b' \<longleftrightarrow> ob_minPrice b' = ob_minPrice b \<and> ob_maxPrice b' = ob_maxPrice b \<and>
     length (ob_pool b') = length (ob_pool b) \<and> length (ob_bidLevels b') = length (ob_bidLevels b)"

lemma same_frame_trans: "same_frame a b \<Longrightarrow> same_frame b c \<Longrightarrow> same_frame a c"
  by (simp add: same_frame_def)

lemma level_count_length: "dims b \<Longrightarrow> length (ob_bidLevels b) = nat (ob_maxPrice b - ob_minPrice b) + 1"
  by (simp add: dims_def)

lemma detach_view:
  assumes "core b L F" and "L s p = xs @ h # ys"
  shows "view (detach s p h b) = (view b)(s := (view b s)(p := map (\<lambda>h. (o_id (ob_pool b ! h), o_qty (ob_pool b ! h))) (xs @ ys)))"
proof (intro ext)
  fix s' p'
  note de = detach_effect [OF assms] and lk = core_links [OF assms]
  let ?f = "\<lambda>pool h. (o_id (pool ! h), o_qty (pool ! h))"
  have eq: "?f (ob_pool (detach s p h b)) i = ?f (ob_pool b) i" if "i \<noteq> h" "i < length (ob_pool b)" for i
    using de(1) [OF that(2)] that(1) by simp
  have mp: "map (?f (ob_pool (detach s p h b))) hs = map (?f (ob_pool b)) hs" if "h \<notin> set hs" "\<And>x. x \<in> set hs \<Longrightarrow> x < length (ob_pool b)" for hs
    by (rule map_cong [OF refl], rule eq) (use that in auto)
  show "view (detach s p h b) s' p' = ((view b)(s := (view b s)(p := map (?f (ob_pool b)) (xs @ ys)))) s' p'"
  proof (cases "s' = s \<and> p' = p")
    case True
    then show ?thesis using mp [of "xs @ ys"] lk(7,8) by (simp add: view_core [OF core_detach [OF assms]])
  next
    case False
    have "h \<notin> set (L s' p')" using core_disjoint [OF assms(1), of h s p s' p'] assms(2) False by auto
    then have "map (?f (ob_pool (detach s p h b))) (L s' p') = map (?f (ob_pool b)) (L s' p')"
      using core_member [OF assms(1)] by (intro mp) auto
    then show ?thesis using False by (auto simp: view_core [OF core_detach [OF assms]] view_core [OF assms(1)])
  qed
qed

lemma requantify_view:
  assumes "core b L F" and "L s p = xs @ h # ys" and "q \<noteq> 0" and "q \<le> o_qty (ob_pool b ! h)"
  shows "view (requantify s p h q b) = (view b)(s := (view b s)(p :=
    map (\<lambda>h. (o_id (ob_pool b ! h), o_qty (ob_pool b ! h))) xs @ (o_id (ob_pool b ! h), q) #
    map (\<lambda>h. (o_id (ob_pool b ! h), o_qty (ob_pool b ! h))) ys))"
proof (intro ext)
  fix s' p'
  have m: "h \<in> set (L s p)" using assms(2) by simp
  note lk = core_links [OF assms(1,2)] and c' = core_requantify [OF assms(1) m assms(3,4)]
  let ?b = "requantify s p h q b" and ?f = "\<lambda>pool h. (o_id (pool ! h), o_qty (pool ! h))"
  have pool: "ob_pool ?b ! i = (if i = h then (ob_pool b ! h)\<lparr>o_qty := q\<rparr> else ob_pool b ! i)" for i
    by (simp add: requantify_def pool_upd_nth lk(6))
  have mp: "map (?f (ob_pool ?b)) hs = map (?f (ob_pool b)) hs" if "h \<notin> set hs" for hs
    using that by (intro map_cong) (auto simp: pool)
  show "view ?b s' p' = ((view b)(s := (view b s)(p := map (?f (ob_pool b)) xs @ (o_id (ob_pool b ! h), q) # map (?f (ob_pool b)) ys))) s' p'"
  proof (cases "s' = s \<and> p' = p")
    case True
    then show ?thesis using mp [of xs] mp [of ys] lk(7) by (simp add: view_core [OF c'] assms(2) pool)
  next
    case False
    have "h \<notin> set (L s' p')" using core_disjoint [OF assms(1) m] False by blast
    then show ?thesis using False mp [of "L s' p'"] by (auto simp: view_core [OF c'] view_core [OF assms(1)])
  qed
qed

lemma requantify_fields:
  "ob_bestBid (requantify s p h q b) = ob_bestBid b" "ob_bestAsk (requantify s p h q b) = ob_bestAsk b" "same_frame b (requantify s p h q b)"
  by (cases s; simp add: requantify_def same_frame_def)+

lemma matchLevel_refines:
  assumes "core b L F" and "in_range b p" and "length (L s p) + 1 < n"
  shows "\<exists>q' b' hs F' ts os. OrderBook_matchLevel n s p agg aggSide onTrade q z b = Some (q', fold onTrade ts z, b') \<and>
    fill_level agg aggSide p q (view b s p) = (ts, q', os) \<and>
    core b' (L(s := (L s)(p := hs))) F' \<and> view b' = (view b)(s := (view b s)(p := os)) \<and>
    ob_bestBid b' = ob_bestBid b \<and> ob_bestAsk b' = ob_bestAsk b \<and> same_frame b b'"
  using assms
proof (induction n arbitrary: b L F q z)
  case 0
  then show ?case by simp
next
  case (Suc n)
  note c = Suc.prems(1) and r = Suc.prems(2)
  have hd: "l_head (OrderBook_levelFor s p b) \<noteq> kNilHandle \<longleftrightarrow> L s p \<noteq> []" using core_head_iff [OF c r] by blast
  have vw: "view b s p = map (\<lambda>h. (o_id (ob_pool b ! h), o_qty (ob_pool b ! h))) (L s p)" by (rule view_core [OF c])
  show ?case
  proof (cases "q = 0 \<or> L s p = []")
    case True
    then have "OrderBook_matchLevel (Suc n) s p agg aggSide onTrade q z b = Some (q, z, b)"
      using hd by (auto simp: word_gt_0)
    moreover have "fill_level agg aggSide p q (view b s p) = ([], q, view b s p)" using True vw by auto
    moreover have "core b (L(s := (L s)(p := L s p))) F" "view b = (view b)(s := (view b s)(p := view b s p))" "same_frame b b"
      using c by (simp_all add: same_frame_def)
    ultimately show ?thesis by (metis fold_simps(1))
  next
    case False
    then obtain h hs where L: "L s p = h # hs" by (cases "L s p") auto
    then have L0: "L s p = [] @ h # hs" by simp
    let ?i = "o_id (ob_pool b ! h)" and ?r = "o_qty (ob_pool b ! h)"
    have go: "q > 0 \<and> l_head (OrderBook_levelFor s p b) \<noteq> kNilHandle" using False hd by (simp add: word_gt_0)
    have rnz: "?r \<noteq> 0" using core_member [OF c, of h s p] L by simp
    let ?os = "map (\<lambda>h. (o_id (ob_pool b ! h), o_qty (ob_pool b ! h))) hs"
    show ?thesis
    proof (cases "q < ?r")
      case True
      have q: "?r - q \<noteq> 0" "?r - q \<le> ?r" using True by (auto simp: word_sub_le)
      let ?b = "requantify s p h (?r - q) b"
      have m: "h \<in> set (L s p)" using L by simp
      have c': "core ?b L F" by (rule core_requantify [OF c m q])
      obtain k where k: "n = Suc k" using Suc.prems(3) by (cases n) auto
      let ?t = "mk_trade agg aggSide p ?i q False"
      show ?thesis
      proof (intro exI conjI)
        show "OrderBook_matchLevel (Suc n) s p agg aggSide onTrade q z b = Some (0, fold onTrade [?t] z, ?b)"
          using go by (simp add: matchLevel_step_partial [OF c L True] k)
        show "fill_level agg aggSide p q (view b s p) = ([?t], 0, (?i, ?r - q) # ?os)" using False True by (simp add: vw L)
        show "core ?b (L(s := (L s)(p := L s p))) F" using c' by simp
        show "view ?b = (view b)(s := (view b s)(p := (?i, ?r - q) # ?os))" using requantify_view [OF c L0 q] by simp
      qed (rule requantify_fields)+
    next
      case full: False
      let ?b = "detach s p h b" and ?L = "L(s := (L s)(p := hs))"
      note de = detach_effect [OF c L0]
      have c': "core ?b ?L (h # F)" using core_detach [OF c L0] by simp
      have r': "in_range ?b p" using r de(6,7) by (simp add: in_range_def)
      have fr: "same_frame b ?b"
        using de(3,5,6,7) level_count_length [OF de(5)] level_count_length [OF core_dims [OF c]] by (simp add: same_frame_def)
      have v': "view ?b = (view b)(s := (view b s)(p := ?os))" using detach_view [OF c L0] by simp
      have "length (?L s p) + 1 < n" using Suc.prems(3) L by simp
      from Suc.IH [OF c' r' this, of "q - ?r" "onTrade (mk_trade agg aggSide p ?i ?r True) z"]
      obtain q' b' hs' F' ts os where ih: "OrderBook_matchLevel n s p agg aggSide onTrade (q - ?r) (onTrade (mk_trade agg aggSide p ?i ?r True) z) ?b
            = Some (q', fold onTrade ts (onTrade (mk_trade agg aggSide p ?i ?r True) z), b')"
        "fill_level agg aggSide p (q - ?r) (view ?b s p) = (ts, q', os)" "core b' (?L(s := (?L s)(p := hs'))) F'"
        "view b' = (view ?b)(s := (view ?b s)(p := os))" "ob_bestBid b' = ob_bestBid ?b" "ob_bestAsk b' = ob_bestAsk ?b" "same_frame ?b b'"
        by blast
      have "OrderBook_matchLevel (Suc n) s p agg aggSide onTrade q z b = Some (q', fold onTrade (mk_trade agg aggSide p ?i ?r True # ts) z, b')"
        using go ih(1) by (simp add: matchLevel_step_full [OF c L full])
      moreover have "fill_level agg aggSide p q (view b s p) = (mk_trade agg aggSide p ?i ?r True # ts, q', os)"
        using False full ih(2) v' by (simp add: vw L)
      moreover have "core b' (L(s := (L s)(p := hs'))) F'" using ih(3) by simp
      moreover have "view b' = (view b)(s := (view b s)(p := os))" using ih(4) v' by simp
      moreover have "ob_bestBid b' = ob_bestBid b" "ob_bestAsk b' = ob_bestAsk b" using ih(5,6) de(8,9) by simp_all
      ultimately show ?thesis using same_frame_trans [OF fr ih(7)] by blast
    qed
  qed
qed

lemma walk_best [simp]:
  "walk_level n (b\<lparr>ob_bestBid := x\<rparr>) h = walk_level n b h" "walk_level n (b\<lparr>ob_bestAsk := x\<rparr>) h = walk_level n b h"
  by (induction n arbitrary: h) auto

lemma view_best [simp]: "view (b\<lparr>ob_bestBid := x\<rparr>) = view b" "view (b\<lparr>ob_bestAsk := x\<rparr>) = view b"
  by (intro ext; simp add: view_def forEachOrderAtLevel_def level_handles_def)+

lemma rescan_fields:
  "ob_bestBid (OrderBook_rescanBestAsk b) = ob_bestBid b" "ob_bestAsk (OrderBook_rescanBestBid b) = ob_bestAsk b"
  "same_frame b (OrderBook_rescanBestAsk b)" "same_frame b (OrderBook_rescanBestBid b)"
  "core (OrderBook_rescanBestAsk b) L F = core b L F" "core (OrderBook_rescanBestBid b) L F = core b L F"
  "view (OrderBook_rescanBestAsk b) = view b" "view (OrderBook_rescanBestBid b) = view b"
  by (simp_all add: OrderBook_rescanBestAsk_def OrderBook_rescanBestBid_def same_frame_def)

text \<open>One pass of the loop of \<^verbatim>\<open>match\<close> for a buyer: the best ask level is matched and the best ask is found again.\<close>

lemma match_buy_pass:
  assumes "ob_rep b L F" and "ob_bestAsk b \<noteq> kNoPrice"
  obtains q' b1 b2 ts os L' F' where
    "OrderBook_matchLevel (Suc (Suc (length (ob_pool b)))) Sell (ob_bestAsk b) agg Buy onTrade q z b = Some (q', fold onTrade ts z, b1)"
    "b2 = (if l_totalQty (OrderBook_levelFor Sell (ob_bestAsk b) b1) = 0 then OrderBook_rescanBestAsk b1 else b1)"
    "fill_level agg Buy (ob_bestAsk b) q (view b Sell (ob_bestAsk b)) = (ts, q', os)"
    "ob_rep b2 L' F'" "view b2 = (view b)(Sell := (view b Sell)(ob_bestAsk b := os))" "same_frame b b2" "ob_bestBid b2 = ob_bestBid b"
    "q' \<noteq> 0 \<Longrightarrow> ob_bestAsk b2 = kNoPrice \<or> ob_bestAsk b < ob_bestAsk b2"
proof -
  let ?a = "ob_bestAsk b"
  have c: "core b L F" and bb: "best_bid L (ob_bestBid b)" and ba: "best_ask L ?a" using assms(1) by (auto simp: ob_rep_def)
  have a: "L Sell ?a \<noteq> []" "in_range b ?a" using best_ask_cases(2) [OF c ba assms(2)] by auto
  have "card (set (L Sell ?a)) \<le> length (ob_pool b)"
    using core_member [OF c] by (metis card_lessThan card_mono finite_lessThan lessThan_iff subsetI)
  then have "length (L Sell ?a) + 1 < Suc (Suc (length (ob_pool b)))" using core_distinct [OF c] by (simp add: distinct_card)
  from matchLevel_refines [OF c a(2) this, where agg = agg and aggSide = Buy and onTrade = onTrade and q = q and z = z]
  obtain q' b1 hs F' ts os where m: "OrderBook_matchLevel (Suc (Suc (length (ob_pool b)))) Sell ?a agg Buy onTrade q z b = Some (q', fold onTrade ts z, b1)"
    "fill_level agg Buy ?a q (view b Sell ?a) = (ts, q', os)" "core b1 (L(Sell := (L Sell)(?a := hs))) F'"
    "view b1 = (view b)(Sell := (view b Sell)(?a := os))" "ob_bestBid b1 = ob_bestBid b" "ob_bestAsk b1 = ?a" "same_frame b b1"
    by (metis (no_types, lifting))
  let ?L = "L(Sell := (L Sell)(?a := hs))"
  define b2 where "b2 = (if l_totalQty (OrderBook_levelFor Sell ?a b1) = 0 then OrderBook_rescanBestAsk b1 else b1)"
  have r1: "in_range b1 ?a" using a(2) m(7) by (simp add: in_range_def same_frame_def)
  have e: "l_totalQty (OrderBook_levelFor Sell ?a b1) = 0 \<longleftrightarrow> hs = []" using core_empty_iff [OF m(3) r1, of Sell] by simp
  have oe: "os = [] \<longleftrightarrow> hs = []" using view_empty [OF m(3), of Sell ?a] m(4) by simp
  have lo: "L Sell x = []" if "x < ?a" for x using ba a(1) that core_not_noprice [OF c] by (auto simp: best_ask_def)
  have bid: "best_bid ?L (ob_bestBid b)" using bb by (simp add: best_bid_def)
  have ask: "best_ask ?L (ob_bestAsk b2) \<and> (hs = [] \<longrightarrow> ob_bestAsk b2 = kNoPrice \<or> ?a < ob_bestAsk b2)"
  proof (cases "hs = []")
    case True
    then have "ob_bestAsk b2 = rescan_ask b1 ?a" using e m(6) by (simp add: b2_def OrderBook_rescanBestAsk_def)
    moreover have b: "best_ask ?L (rescan_ask b1 ?a)"
      using r1 lo by (intro rescan_ask_best [OF m(3)]) (auto simp: in_range_def)
    moreover have "rescan_ask b1 ?a = kNoPrice \<or> ?a < rescan_ask b1 ?a"
    proof (rule ccontr)
      assume n: "\<not> (rescan_ask b1 ?a = kNoPrice \<or> ?a < rescan_ask b1 ?a)"
      then have "?L Sell (rescan_ask b1 ?a) \<noteq> []" using b by (auto simp: best_ask_def)
      then show False using n True lo by (cases "rescan_ask b1 ?a = ?a") auto
    qed
    ultimately show ?thesis by simp
  next
    case False
    then show ?thesis using e m(6) lo by (auto simp: b2_def best_ask_def not_less [symmetric])
  qed
  have "ob_rep b2 ?L F'"
    using m(3,5) bid ask by (simp add: ob_rep_def b2_def rescan_fields)
  moreover have "view b2 = (view b)(Sell := (view b Sell)(?a := os))" "same_frame b b2" "ob_bestBid b2 = ob_bestBid b"
    using m(4,5,7) same_frame_trans [OF m(7) rescan_fields(3)] by (simp_all add: b2_def rescan_fields)
  moreover have "q' \<noteq> 0 \<Longrightarrow> ob_bestAsk b2 = kNoPrice \<or> ?a < ob_bestAsk b2"
    using fill_level_rest [OF m(2)] oe ask by blast
  ultimately show ?thesis using that m(1,2) b2_def by blast
qed

end
