(* ===== verification/OrderBookMatch.thy ===== *)
theory OrderBookMatch
  imports OrderBookRefine
begin

text \<open>
  The operations of the order book against the price-time priority specification: \<^verbatim>\<open>match\<close> and
  \<^verbatim>\<open>add\<close> are \<open>spec_match\<close> on the abstract book, \<^verbatim>\<open>cancel\<close> and \<^verbatim>\<open>reduce\<close> change one order, and the best
  prices and volumes the book answers are those of the abstract book. The loops end.
\<close>

section \<open>The matching loops\<close>

definition asks_left :: "OrderBook \<Rightarrow> nat" where
  "asks_left b = (if ob_bestAsk b = kNoPrice then 0 else nat (ob_maxPrice b - ob_bestAsk b) + 1)"

definition bids_left :: "OrderBook \<Rightarrow> nat" where
  "bids_left b = (if ob_bestBid b = kNoPrice then 0 else nat (ob_bestBid b - ob_minPrice b) + 1)"

lemma match_buy_refines:
  assumes "ob_rep b L F" and "q = 0 \<and> 0 < n \<or> asks_left b < n"
  shows "\<exists>q' b' ts A L' F'. match_buy n agg price onTrade q z b = Some (q', fold onTrade ts z, b') \<and>
    sweep agg Buy [ob_minPrice b..price] q (view b Sell) = (ts, q', A) \<and>
    ob_rep b' L' F' \<and> view b' = (view b)(Sell := A) \<and> same_frame b b' \<and> ob_bestBid b' = ob_bestBid b \<and>
    (q' = 0 \<or> ob_bestAsk b' = kNoPrice \<or> price < ob_bestAsk b')"
  using assms
proof (induction n arbitrary: b L F q z)
  case 0
  then show ?case by simp
next
  case (Suc n)
  let ?a = "ob_bestAsk b" and ?lo = "ob_minPrice b"
  have c: "core b L F" and ba: "best_ask L ?a" using Suc.prems(1) by (auto simp: ob_rep_def)
  show ?case
  proof (cases "q > 0 \<and> ?a \<noteq> kNoPrice \<and> price \<ge> ?a")
    case False
    then have "q = 0 \<or> (\<forall>p \<le> price. view b Sell p = [])"
      using ba core_not_noprice [OF c] by (auto simp: word_gt_0 best_ask_def view_empty [OF c])
    then have "sweep agg Buy [?lo..price] q (view b Sell) = ([], q, view b Sell)"
      using sweep_none [of "[?lo..price]" "view b Sell" agg Buy q] by (auto simp: sweep_0)
    moreover have "match_buy (Suc n) agg price onTrade q z b = Some (q, fold onTrade [] z, b)"
      by (simp del: fold_Nil add: fold_simps(1) False)
    moreover have "view b = (view b)(Sell := view b Sell)" "same_frame b b" by (simp_all add: same_frame_def)
    moreover have "q = 0 \<or> ob_bestAsk b = kNoPrice \<or> price < ob_bestAsk b" using False by (auto simp: word_gt_0)
    ultimately show ?thesis using Suc.prems(1) by blast
  next
    case True
    obtain q' b1 b2 ts os L' F' where ps: "OrderBook_matchLevel (Suc (Suc (length (ob_pool b)))) Sell ?a agg Buy onTrade q z b = Some (q', fold onTrade ts z, b1)"
      "b2 = (if l_totalQty (OrderBook_levelFor Sell ?a b1) = 0 then OrderBook_rescanBestAsk b1 else b1)"
      "fill_level agg Buy ?a q (view b Sell ?a) = (ts, q', os)"
      "ob_rep b2 L' F'" "view b2 = (view b)(Sell := (view b Sell)(?a := os))" "same_frame b b2" "ob_bestBid b2 = ob_bestBid b"
      "q' \<noteq> 0 \<Longrightarrow> ob_bestAsk b2 = kNoPrice \<or> ?a < ob_bestAsk b2"
      by (rule match_buy_pass [OF Suc.prems(1), where agg = agg and onTrade = onTrade and q = q and z = z])
        (use True in blast, rule that, assumption+)
    have r: "in_range b ?a" using best_ask_cases(2) [OF c ba] True by blast
    have r2: "ob_bestAsk b2 \<noteq> kNoPrice \<Longrightarrow> in_range b2 (ob_bestAsk b2)"
      using ps(4) best_ask_cases(2) [of b2 L' F' "ob_bestAsk b2"] by (simp add: ob_rep_def)
    have fu: "q' = 0 \<and> 0 < n \<or> asks_left b2 < n"
      using Suc.prems(2) True ps(6,8) r r2 by (cases "q' = 0") (auto simp: asks_left_def in_range_def same_frame_def)
    from Suc.IH [OF ps(4) fu, of "fold onTrade ts z"]
    obtain q'' b' us A L'' F'' where ih: "match_buy n agg price onTrade q' (fold onTrade ts z) b2 = Some (q'', fold onTrade us (fold onTrade ts z), b')"
      "sweep agg Buy [ob_minPrice b2..price] q' (view b2 Sell) = (us, q'', A)"
      "ob_rep b' L'' F''" "view b' = (view b2)(Sell := A)" "same_frame b2 b'" "ob_bestBid b' = ob_bestBid b2"
      "q'' = 0 \<or> ob_bestAsk b' = kNoPrice \<or> price < ob_bestAsk b'"
      by blast
    have sp: "[?lo..price] = [?lo..?a - 1] @ ?a # [?a + 1..price]"
      using r True by (intro upto_split3) (auto simp: in_range_def)
    have lo: "view b Sell x = []" if "x \<in> set [?lo..?a - 1]" for x
      using ba that True by (auto simp: view_empty [OF c] best_ask_def)
    have "sweep agg Buy [?lo..price] q (view b Sell) = (ts @ us, q'', A)"
      unfolding sp
    proof (rule sweep_step)
      show "fill_level agg Buy ?a q (view b Sell ?a) = (ts, q', os)" by (rule ps(3))
      show "sweep agg Buy ([?lo..?a - 1] @ ?a # [?a + 1..price]) q' ((view b Sell)(?a := os)) = (us, q'', A)"
        using ih(2) ps(5,6) by (simp add: sp [symmetric] same_frame_def)
    qed (use lo in auto)
    moreover have "match_buy (Suc n) agg price onTrade q z b = Some (q'', fold onTrade (ts @ us) z, b')"
      using True ps(1,2) ih(1) by simp
    moreover have "view b' = (view b)(Sell := A)" using ih(4) ps(5) by simp
    moreover have "ob_bestBid b' = ob_bestBid b" using ih(6) ps(7) by simp
    ultimately show ?thesis using ih(3,7) same_frame_trans [OF ps(6) ih(5)] by blast
  qed
qed

lemma match_sell_pass:
  assumes "ob_rep b L F" and "ob_bestBid b \<noteq> kNoPrice"
  obtains q' b1 b2 ts os L' F' where
    "OrderBook_matchLevel (Suc (Suc (length (ob_pool b)))) Buy (ob_bestBid b) agg Sell onTrade q z b = Some (q', fold onTrade ts z, b1)"
    "b2 = (if l_totalQty (OrderBook_levelFor Buy (ob_bestBid b) b1) = 0 then OrderBook_rescanBestBid b1 else b1)"
    "fill_level agg Sell (ob_bestBid b) q (view b Buy (ob_bestBid b)) = (ts, q', os)"
    "ob_rep b2 L' F'" "view b2 = (view b)(Buy := (view b Buy)(ob_bestBid b := os))" "same_frame b b2" "ob_bestAsk b2 = ob_bestAsk b"
    "q' \<noteq> 0 \<Longrightarrow> ob_bestBid b2 = kNoPrice \<or> ob_bestBid b2 < ob_bestBid b"
proof -
  let ?a = "ob_bestBid b"
  have c: "core b L F" and bb: "best_ask L (ob_bestAsk b)" and ba: "best_bid L ?a" using assms(1) by (auto simp: ob_rep_def)
  have a: "L Buy ?a \<noteq> []" "in_range b ?a" using best_bid_cases(2) [OF c ba assms(2)] by auto
  have "card (set (L Buy ?a)) \<le> length (ob_pool b)"
    using core_member [OF c] by (metis card_lessThan card_mono finite_lessThan lessThan_iff subsetI)
  then have "length (L Buy ?a) + 1 < Suc (Suc (length (ob_pool b)))" using core_distinct [OF c] by (simp add: distinct_card)
  from matchLevel_refines [OF c a(2) this, where agg = agg and aggSide = Sell and onTrade = onTrade and q = q and z = z]
  obtain q' b1 hs F' ts os where m: "OrderBook_matchLevel (Suc (Suc (length (ob_pool b)))) Buy ?a agg Sell onTrade q z b = Some (q', fold onTrade ts z, b1)"
    "fill_level agg Sell ?a q (view b Buy ?a) = (ts, q', os)" "core b1 (L(Buy := (L Buy)(?a := hs))) F'"
    "view b1 = (view b)(Buy := (view b Buy)(?a := os))" "ob_bestAsk b1 = ob_bestAsk b" "ob_bestBid b1 = ?a" "same_frame b b1"
    by (metis (no_types, lifting))
  let ?L = "L(Buy := (L Buy)(?a := hs))"
  define b2 where "b2 = (if l_totalQty (OrderBook_levelFor Buy ?a b1) = 0 then OrderBook_rescanBestBid b1 else b1)"
  have r1: "in_range b1 ?a" using a(2) m(7) by (simp add: in_range_def same_frame_def)
  have e: "l_totalQty (OrderBook_levelFor Buy ?a b1) = 0 \<longleftrightarrow> hs = []" using core_empty_iff [OF m(3) r1, of Buy] by simp
  have oe: "os = [] \<longleftrightarrow> hs = []" using view_empty [OF m(3), of Buy ?a] m(4) by simp
  have lo: "L Buy x = []" if "?a < x" for x using ba a(1) that core_not_noprice [OF c] by (auto simp: best_bid_def)
  have bid: "best_ask ?L (ob_bestAsk b)" using bb by (simp add: best_ask_def)
  have ask: "best_bid ?L (ob_bestBid b2) \<and> (hs = [] \<longrightarrow> ob_bestBid b2 = kNoPrice \<or> ob_bestBid b2 < ?a)"
  proof (cases "hs = []")
    case True
    then have "ob_bestBid b2 = rescan_bid b1 ?a" using e m(6) by (simp add: b2_def OrderBook_rescanBestBid_def)
    moreover have b: "best_bid ?L (rescan_bid b1 ?a)"
      using r1 lo by (intro rescan_bid_best [OF m(3)]) (auto simp: in_range_def)
    moreover have "rescan_bid b1 ?a = kNoPrice \<or> rescan_bid b1 ?a < ?a"
    proof (rule ccontr)
      assume n: "\<not> (rescan_bid b1 ?a = kNoPrice \<or> rescan_bid b1 ?a < ?a)"
      then have "?L Buy (rescan_bid b1 ?a) \<noteq> []" using b by (auto simp: best_bid_def)
      then show False using n True lo by (cases "rescan_bid b1 ?a = ?a") auto
    qed
    ultimately show ?thesis by simp
  next
    case False
    then show ?thesis using e m(6) lo by (auto simp: b2_def best_bid_def not_less [symmetric])
  qed
  have "ob_rep b2 ?L F'"
    using m(3,5) bid ask by (simp add: ob_rep_def b2_def rescan_fields)
  moreover have "view b2 = (view b)(Buy := (view b Buy)(?a := os))" "same_frame b b2" "ob_bestAsk b2 = ob_bestAsk b"
    using m(4,5,7) same_frame_trans [OF m(7) rescan_fields(4)] by (simp_all add: b2_def rescan_fields)
  moreover have "q' \<noteq> 0 \<Longrightarrow> ob_bestBid b2 = kNoPrice \<or> ob_bestBid b2 < ?a"
    using fill_level_rest [OF m(2)] oe ask by blast
  ultimately show ?thesis using that m(1,2) b2_def by blast
qed

lemma match_sell_refines:
  assumes "ob_rep b L F" and "q = 0 \<and> 0 < n \<or> bids_left b < n"
  shows "\<exists>q' b' ts A L' F'. match_sell n agg price onTrade q z b = Some (q', fold onTrade ts z, b') \<and>
    sweep agg Sell (rev [price..ob_maxPrice b]) q (view b Buy) = (ts, q', A) \<and>
    ob_rep b' L' F' \<and> view b' = (view b)(Buy := A) \<and> same_frame b b' \<and> ob_bestAsk b' = ob_bestAsk b \<and>
    (q' = 0 \<or> ob_bestBid b' = kNoPrice \<or> ob_bestBid b' < price)"
  using assms
proof (induction n arbitrary: b L F q z)
  case 0
  then show ?case by simp
next
  case (Suc n)
  let ?a = "ob_bestBid b" and ?hi = "ob_maxPrice b"
  have c: "core b L F" and ba: "best_bid L ?a" using Suc.prems(1) by (auto simp: ob_rep_def)
  show ?case
  proof (cases "q > 0 \<and> ?a \<noteq> kNoPrice \<and> price \<le> ?a")
    case False
    then have "q = 0 \<or> (\<forall>p \<ge> price. view b Buy p = [])"
      using ba core_not_noprice [OF c] by (auto simp: word_gt_0 best_bid_def view_empty [OF c])
    then have "sweep agg Sell (rev [price..?hi]) q (view b Buy) = ([], q, view b Buy)"
      using sweep_none [of "rev [price..?hi]" "view b Buy" agg Sell q] by (auto simp: sweep_0)
    moreover have "match_sell (Suc n) agg price onTrade q z b = Some (q, fold onTrade [] z, b)"
      by (simp del: fold_Nil add: fold_simps(1) False)
    moreover have "view b = (view b)(Buy := view b Buy)" "same_frame b b" by (simp_all add: same_frame_def)
    moreover have "q = 0 \<or> ob_bestBid b = kNoPrice \<or> ob_bestBid b < price" using False by (auto simp: word_gt_0)
    ultimately show ?thesis using Suc.prems(1) by blast
  next
    case True
    obtain q' b1 b2 ts os L' F' where ps: "OrderBook_matchLevel (Suc (Suc (length (ob_pool b)))) Buy ?a agg Sell onTrade q z b = Some (q', fold onTrade ts z, b1)"
      "b2 = (if l_totalQty (OrderBook_levelFor Buy ?a b1) = 0 then OrderBook_rescanBestBid b1 else b1)"
      "fill_level agg Sell ?a q (view b Buy ?a) = (ts, q', os)"
      "ob_rep b2 L' F'" "view b2 = (view b)(Buy := (view b Buy)(?a := os))" "same_frame b b2" "ob_bestAsk b2 = ob_bestAsk b"
      "q' \<noteq> 0 \<Longrightarrow> ob_bestBid b2 = kNoPrice \<or> ob_bestBid b2 < ?a"
      by (rule match_sell_pass [OF Suc.prems(1), where agg = agg and onTrade = onTrade and q = q and z = z])
        (use True in blast, rule that, assumption+)
    have r: "in_range b ?a" using best_bid_cases(2) [OF c ba] True by blast
    have r2: "ob_bestBid b2 \<noteq> kNoPrice \<Longrightarrow> in_range b2 (ob_bestBid b2)"
      using ps(4) best_bid_cases(2) [of b2 L' F' "ob_bestBid b2"] by (simp add: ob_rep_def)
    have fu: "q' = 0 \<and> 0 < n \<or> bids_left b2 < n"
      using Suc.prems(2) True ps(6,8) r r2 by (cases "q' = 0") (auto simp: bids_left_def in_range_def same_frame_def)
    from Suc.IH [OF ps(4) fu, of "fold onTrade ts z"]
    obtain q'' b' us A L'' F'' where ih: "match_sell n agg price onTrade q' (fold onTrade ts z) b2 = Some (q'', fold onTrade us (fold onTrade ts z), b')"
      "sweep agg Sell (rev [price..ob_maxPrice b2]) q' (view b2 Buy) = (us, q'', A)"
      "ob_rep b' L'' F''" "view b' = (view b2)(Buy := A)" "same_frame b2 b'" "ob_bestAsk b' = ob_bestAsk b2"
      "q'' = 0 \<or> ob_bestBid b' = kNoPrice \<or> ob_bestBid b' < price"
      by blast
    have "[price..?hi] = [price..?a - 1] @ ?a # [?a + 1..?hi]"
      using r True by (intro upto_split3) (auto simp: in_range_def)
    then have sp: "rev [price..?hi] = rev [?a + 1..?hi] @ ?a # rev [price..?a - 1]" by simp
    have lo: "view b Buy x = []" if "x \<in> set (rev [?a + 1..?hi])" for x
      using ba that True by (auto simp: view_empty [OF c] best_bid_def)
    have "sweep agg Sell (rev [price..?hi]) q (view b Buy) = (ts @ us, q'', A)"
      unfolding sp
    proof (rule sweep_step)
      show "fill_level agg Sell ?a q (view b Buy ?a) = (ts, q', os)" by (rule ps(3))
      show "sweep agg Sell (rev [?a + 1..?hi] @ ?a # rev [price..?a - 1]) q' ((view b Buy)(?a := os)) = (us, q'', A)"
        using ih(2) ps(5,6) by (simp add: sp [symmetric] same_frame_def)
    qed (use lo in auto)
    moreover have "match_sell (Suc n) agg price onTrade q z b = Some (q'', fold onTrade (ts @ us) z, b')"
      using True ps(1,2) ih(1) by simp
    moreover have "view b' = (view b)(Buy := A)" using ih(4) ps(5) by simp
    moreover have "ob_bestAsk b' = ob_bestAsk b" using ih(6) ps(7) by simp
    ultimately show ?thesis using ih(3,7) same_frame_trans [OF ps(6) ih(5)] by blast
  qed
qed

lemma ob_inv_core: "ob_rep b L F \<Longrightarrow> core b L F" "ob_rep b L F \<Longrightarrow> ob_inv b"
  by (auto simp: ob_rep_def ob_inv_def)

lemma left_fuel:
  assumes "ob_rep b L F"
  shows "asks_left b < length (ob_bidLevels b) + 2" and "bids_left b < length (ob_bidLevels b) + 2"
  using assms level_count_length [OF core_dims, of b L F] best_ask_cases(2) [of b L F "ob_bestAsk b"] best_bid_cases(2) [of b L F "ob_bestBid b"]
  by (auto simp: ob_rep_def asks_left_def bids_left_def in_range_def)

lemma match_refines:
  assumes "ob_rep b L F" and "\<not> refused price q b"
  shows "\<exists>q' b' ts L' F'. match_loops agg side price q onTrade z b = Some (q', fold onTrade ts z, b') \<and>
    OrderBook_match agg side price q onTrade z b = (q', fold onTrade ts z, b') \<and>
    spec_match agg side price q (ob_minPrice b) (ob_maxPrice b) (view b) = (ts, q', view b') \<and>
    ob_rep b' L' F' \<and> same_frame b b' \<and>
    (q' \<noteq> 0 \<longrightarrow> (\<forall>p. view b' (opposite side) p \<noteq> [] \<longrightarrow> (if side = Buy then price < p else p < price)))"
proof (cases side)
  case Buy
  from match_buy_refines [OF assms(1), of q "length (ob_bidLevels b) + 2" agg price onTrade z] left_fuel(1) [OF assms(1)]
  obtain q' b' ts A L' F' where m: "match_buy (length (ob_bidLevels b) + 2) agg price onTrade q z b = Some (q', fold onTrade ts z, b')"
    "sweep agg Buy [ob_minPrice b..price] q (view b Sell) = (ts, q', A)" "ob_rep b' L' F'" "view b' = (view b)(Sell := A)"
    "same_frame b b'" "q' = 0 \<or> ob_bestAsk b' = kNoPrice \<or> price < ob_bestAsk b'"
    by blast
  have "q' \<noteq> 0 \<longrightarrow> (\<forall>p. view b' Sell p \<noteq> [] \<longrightarrow> price < p)"
    using m(3,6) core_not_noprice [of b' L' F' Sell] view_empty [of b' L' F' Sell] by (fastforce simp: ob_rep_def best_ask_def)
  then show ?thesis using m Buy assms(2) by (simp add: OrderBook_match_def match_loops_def spec_match_def) blast
next
  case Sell
  from match_sell_refines [OF assms(1), of q "length (ob_bidLevels b) + 2" agg price onTrade z] left_fuel(2) [OF assms(1)]
  obtain q' b' ts A L' F' where m: "match_sell (length (ob_bidLevels b) + 2) agg price onTrade q z b = Some (q', fold onTrade ts z, b')"
    "sweep agg Sell (rev [price..ob_maxPrice b]) q (view b Buy) = (ts, q', A)" "ob_rep b' L' F'" "view b' = (view b)(Buy := A)"
    "same_frame b b'" "q' = 0 \<or> ob_bestBid b' = kNoPrice \<or> ob_bestBid b' < price"
    by blast
  have "q' \<noteq> 0 \<longrightarrow> (\<forall>p. view b' Buy p \<noteq> [] \<longrightarrow> p < price)"
    using m(3,6) core_not_noprice [of b' L' F' Buy] view_empty [of b' L' F' Buy] by (fastforce simp: ob_rep_def best_bid_def)
  then show ?thesis using m Sell assms(2) by (simp add: OrderBook_match_def match_loops_def spec_match_def) blast
qed

section \<open>Resting, adding and placing\<close>

text \<open>Room for a new order: a slot of the pool, and a level total that stays inside 32 bits.\<close>

definition room :: "OrderBook \<Rightarrow> Side \<Rightarrow> Price \<Rightarrow> Quantity \<Rightarrow> bool" where
  "room b s p q \<longleftrightarrow> length (ob_pool b) < kNilHandle \<and> volume (view b s p) + unat q < 2 ^ 32"

definition live :: "OrderBook \<Rightarrow> Handle \<Rightarrow> bool" where
  "live b h \<longleftrightarrow> h < length (ob_pool b) \<and> o_qty (ob_pool b ! h) \<noteq> 0"

lemma rest_best:
  assumes "OrderBook_rest oid s p q b = (h, b')"
  shows "ob_bestBid b' = (if s = Buy \<and> (ob_bestBid b = kNoPrice \<or> p > ob_bestBid b) then p else ob_bestBid b)"
    and "ob_bestAsk b' = (if s = Sell \<and> (ob_bestAsk b = kNoPrice \<or> p < ob_bestAsk b) then p else ob_bestAsk b)"
    and "ob_minPrice b' = ob_minPrice b" "ob_maxPrice b' = ob_maxPrice b"
  using assms by (cases s; auto simp: OrderBook_rest_def OrderBook_alloc_def Let_def split: if_splits)+

lemma rest_refines:
  assumes "ob_rep b L F" and "in_range b p" and "q \<noteq> 0" and "room b s p q" and "OrderBook_rest oid s p q b = (h, b')"
  shows "\<exists>L' F'. ob_rep b' L' F' \<and> view b' = push_order s p (oid, q) (view b) \<and> live b' h \<and>
    o_id (ob_pool b' ! h) = oid \<and> o_qty (ob_pool b' ! h) = q \<and> h \<noteq> kNilHandle \<and> level_handles s p b' = level_handles s p b @ [h]"
proof -
  have c: "core b L F" using assms(1) by (simp add: ob_rep_def)
  have v: "vol (ob_pool b) (L s p) + unat q < 2 ^ 32" "F \<noteq> [] \<or> length (ob_pool b) < kNilHandle"
    using assms(4) by (simp_all add: room_def volume_view [OF c])
  from core_rest [OF c assms(2,3) v assms(5)] obtain F'
    where c': "core b' (L(s := (L s)(p := L s p @ [h]))) F'" (is "core b' ?L F'") and h: "h < length (ob_pool b')" "o_id (ob_pool b' ! h) = oid"
      "o_qty (ob_pool b' ! h) = q" "\<forall>s p. h \<notin> set (L s p)" and old: "\<forall>i < length (ob_pool b). i \<noteq> h \<longrightarrow>
      o_id (ob_pool b' ! i) = o_id (ob_pool b ! i) \<and> o_qty (ob_pool b' ! i) = o_qty (ob_pool b ! i)"
    by blast
  have "view b' = push_order s p (oid, q) (view b)"
  proof (intro ext)
    fix s' p'
    have "map (\<lambda>h. (o_id (ob_pool b' ! h), o_qty (ob_pool b' ! h))) (L s' p') = map (\<lambda>h. (o_id (ob_pool b ! h), o_qty (ob_pool b ! h))) (L s' p')"
    proof (rule map_cong [OF refl])
      fix x assume "x \<in> set (L s' p')"
      then have "x < length (ob_pool b)" "x \<noteq> h" using core_member [OF c] h(4) by auto
      then show "(o_id (ob_pool b' ! x), o_qty (ob_pool b' ! x)) = (o_id (ob_pool b ! x), o_qty (ob_pool b ! x))" using old by simp
    qed
    then show "view b' s' p' = push_order s p (oid, q) (view b) s' p'"
      using h by (auto simp: push_order_def view_core [OF c'] view_core [OF c])
  qed
  moreover have "ob_rep b' ?L F'"
    using c' assms(1) core_not_noprice [OF c] by (cases s) (auto simp: ob_rep_def best_bid_def best_ask_def rest_best [OF assms(5)])
  moreover have "h \<noteq> kNilHandle" using core_nil [OF c', of h s p] by simp
  ultimately show ?thesis using h(1-3) assms(3) by (auto simp: live_def level_handles_core [OF c'] level_handles_core [OF c])
qed

lemma add_refines:
  assumes "ob_rep b L F" and "room b s p q" and "\<not> refused p q b"
  shows "\<exists>h ts b' L' F'. OrderBook_add oid s p q onTrade z b = (h, fold onTrade ts z, b') \<and>
    spec_add oid s p q (ob_minPrice b) (ob_maxPrice b) (view b) = (ts, view b') \<and> ob_rep b' L' F' \<and>
    ob_minPrice b' = ob_minPrice b \<and> ob_maxPrice b' = ob_maxPrice b \<and>
    (h = kNilHandle \<longleftrightarrow> fst (snd (spec_match oid s p q (ob_minPrice b) (ob_maxPrice b) (view b))) = 0) \<and>
    (h \<noteq> kNilHandle \<longrightarrow> live b' h \<and> o_id (ob_pool b' ! h) = oid)"
proof -
  from match_refines [OF assms(1,3), of oid s onTrade z]
  obtain q' b1 ts L' F' where m: "OrderBook_match oid s p q onTrade z b = (q', fold onTrade ts z, b1)"
    "spec_match oid s p q (ob_minPrice b) (ob_maxPrice b) (view b) = (ts, q', view b1)" "ob_rep b1 L' F'" "same_frame b b1" by blast
  show ?thesis
  proof (cases "q' = 0")
    case True
    then have "OrderBook_add oid s p q onTrade z b = (kNilHandle, fold onTrade ts z, b1)" using m(1) assms(3) by (simp add: OrderBook_add_def)
    then show ?thesis using m(2-4) True by (auto simp: spec_add_def same_frame_def)
  next
    case False
    obtain h b' where r: "OrderBook_rest oid s p q' b1 = (h, b')" by (metis surj_pair)
    have rm: "room b1 s p q'" using assms(2) m(4) spec_match_own_side [OF m(2)] by (auto simp: room_def same_frame_def)
    have ir: "in_range b1 p" using assms(3) m(4) by (simp add: refused_def in_range_def same_frame_def)
    from rest_refines [OF m(3) ir False rm r]
    show ?thesis using m(1,2,4) False r assms(3) rest_best(3,4) [OF r]
      by (auto simp: OrderBook_add_def spec_add_def word_gt_0 same_frame_def)
  qed
qed

section \<open>Cancelling and reducing\<close>

lemma cancel_detach:
  assumes "live b h" and "s = o_side (ob_pool b ! h)" and "p = o_price (ob_pool b ! h)"
  shows "OrderBook_cancel h b = (o_qty (ob_pool b ! h),
    (let b3 = detach s p h b in if l_totalQty (OrderBook_levelFor s p b3) = 0 then
       if s = Buy \<and> p = ob_bestBid b3 then OrderBook_rescanBestBid b3
       else if s = Sell \<and> p = ob_bestAsk b3 then OrderBook_rescanBestAsk b3 else b3 else b3))"
proof -
  have "\<not> h \<ge> length (ob_pool b)" "o_qty (ob_pool b ! h) \<noteq> 0" using assms(1) by (simp_all add: live_def)
  then show ?thesis by (simp only: OrderBook_cancel_def detach_def Let_def if_False assms(2,3))
qed

lemma live_place:
  assumes "core b L F" and "live b h"
  obtains xs ys where "L (o_side (ob_pool b ! h)) (o_price (ob_pool b ! h)) = xs @ h # ys"
  using core_find [OF assms(1), of h] assms(2) by (metis live_def split_list)

lemma live_member: "core b L F \<Longrightarrow> h \<in> set (L s p) \<Longrightarrow> live b h \<and> o_side (ob_pool b ! h) = s \<and> o_price (ob_pool b ! h) = p"
  using core_member [of b L F h s p] by (auto simp: live_def)

text \<open>The best prices after one order left its level: found again only when the best level emptied.\<close>

lemma cancel_best:
  assumes "core d (L(s := (L s)(p := xs @ ys))) F'" (is "core d ?L F'") and "best_bid L (ob_bestBid b)" and "best_ask L (ob_bestAsk b)"
    and "L s p = xs @ h # ys" and "in_range d p" and "ob_bestBid d = ob_bestBid b" and "ob_bestAsk d = ob_bestAsk b"
    and "b' = (if xs @ ys = [] then
       if s = Buy \<and> p = ob_bestBid b then OrderBook_rescanBestBid d
       else if s = Sell \<and> p = ob_bestAsk b then OrderBook_rescanBestAsk d else d else d)"
  shows "best_bid ?L (ob_bestBid b') \<and> best_ask ?L (ob_bestAsk b')"
proof (cases s)
  case Buy
  have ask: "best_ask ?L (ob_bestAsk b')" using assms(3,7,8) Buy by (simp add: best_ask_def rescan_fields)
  have ne: "L Buy p \<noteq> []" using assms(4) Buy by simp
  show ?thesis
  proof (cases "xs @ ys = [] \<and> p = ob_bestBid b")
    case True
    have "\<And>x. x > p \<Longrightarrow> ?L Buy x = []" using assms(2) True Buy ne by (auto simp: best_bid_def)
    then have "best_bid ?L (rescan_bid d p)" using rescan_bid_best [OF assms(1)] assms(5) by (simp add: in_range_def)
    then show ?thesis using ask True Buy assms(6,8) by (simp add: OrderBook_rescanBestBid_def)
  next
    case False
    then have "ob_bestBid b' = ob_bestBid b" using assms(6,8) Buy by auto
    moreover have "?L Buy x \<noteq> [] \<Longrightarrow> L Buy x \<noteq> []" for x using Buy ne by (cases "x = p") auto
    moreover have "L Buy x \<noteq> [] \<Longrightarrow> x \<noteq> p \<or> xs @ ys \<noteq> [] \<Longrightarrow> ?L Buy x \<noteq> []" for x using Buy by auto
    ultimately have "best_bid ?L (ob_bestBid b')" using assms(2) False ne unfolding best_bid_def by metis
    then show ?thesis using ask by blast
  qed
next
  case Sell
  have bid: "best_bid ?L (ob_bestBid b')" using assms(2,6,8) Sell by (simp add: best_bid_def rescan_fields)
  have ne: "L Sell p \<noteq> []" using assms(4) Sell by simp
  show ?thesis
  proof (cases "xs @ ys = [] \<and> p = ob_bestAsk b")
    case True
    have "\<And>x. x < p \<Longrightarrow> ?L Sell x = []" using assms(3) True Sell ne by (auto simp: best_ask_def)
    then have "best_ask ?L (rescan_ask d p)" using rescan_ask_best [OF assms(1)] assms(5) by (simp add: in_range_def)
    then show ?thesis using bid True Sell assms(7,8) by (simp add: OrderBook_rescanBestAsk_def)
  next
    case False
    then have "ob_bestAsk b' = ob_bestAsk b" using assms(7,8) Sell by auto
    moreover have "?L Sell x \<noteq> [] \<Longrightarrow> L Sell x \<noteq> []" for x using Sell ne by (cases "x = p") auto
    moreover have "L Sell x \<noteq> [] \<Longrightarrow> x \<noteq> p \<or> xs @ ys \<noteq> [] \<Longrightarrow> ?L Sell x \<noteq> []" for x using Sell by auto
    ultimately have "best_ask ?L (ob_bestAsk b')" using assms(3) False ne unfolding best_ask_def by metis
    then show ?thesis using bid by blast
  qed
qed

lemma cancel_refines:
  assumes "ob_rep b L F" and "live b h"
  shows "\<exists>b' L' F'. OrderBook_cancel h b = (o_qty (ob_pool b ! h), b') \<and> ob_rep b' L' F' \<and>
    same_frame b b' \<and> (\<forall>s p. L' s p = remove1 h (L s p)) \<and> \<not> live b' h \<and>
    (\<forall>i. i \<noteq> h \<longrightarrow> live b i \<longrightarrow> live b' i \<and> o_id (ob_pool b' ! i) = o_id (ob_pool b ! i) \<and> o_qty (ob_pool b' ! i) = o_qty (ob_pool b ! i) \<and>
       o_side (ob_pool b' ! i) = o_side (ob_pool b ! i) \<and> o_price (ob_pool b' ! i) = o_price (ob_pool b ! i))"
proof -
  let ?s = "o_side (ob_pool b ! h)" and ?p = "o_price (ob_pool b ! h)"
  have c: "core b L F" and bb: "best_bid L (ob_bestBid b)" and ba: "best_ask L (ob_bestAsk b)" using assms(1) by (auto simp: ob_rep_def)
  obtain xs ys where L: "L ?s ?p = xs @ h # ys" by (rule live_place [OF c assms(2)])
  let ?L = "L(?s := (L ?s)(?p := xs @ ys))" and ?d = "detach ?s ?p h b"
  note de = detach_effect [OF c L] and c' = core_detach [OF c L]
  have r: "in_range b ?p" using core_member [OF c, of h ?s ?p] L by auto
  then have r': "in_range ?d ?p" using de(6,7) by (simp add: in_range_def)
  have e: "l_totalQty (OrderBook_levelFor ?s ?p ?d) = 0 \<longleftrightarrow> xs @ ys = []" using core_empty_iff [OF c' r', of ?s] by simp
  have fr: "same_frame b ?d" using de(3,5,6,7) level_count_length [OF de(5)] level_count_length [OF core_dims [OF c]] by (simp add: same_frame_def)
  define b' where "b' = snd (OrderBook_cancel h b)"
  have cb: "OrderBook_cancel h b = (o_qty (ob_pool b ! h), b')" by (simp add: b'_def cancel_detach [OF assms(2) refl refl])
  have b': "b' = (if xs @ ys = [] then
       if ?s = Buy \<and> ?p = ob_bestBid b then OrderBook_rescanBestBid ?d
       else if ?s = Sell \<and> ?p = ob_bestAsk b then OrderBook_rescanBestAsk ?d else ?d else ?d)"
    by (simp only: b'_def cancel_detach [OF assms(2) refl refl] Let_def e de(8,9) snd_conv)
  have bs: "b' \<in> {?d, OrderBook_rescanBestBid ?d, OrderBook_rescanBestAsk ?d}"
    unfolding b' by (simp only: insert_iff split: if_split) blast
  have pool: "ob_pool b' = ob_pool ?d" using bs by (auto simp: OrderBook_rescanBestBid_def OrderBook_rescanBestAsk_def)
  have cr: "core b' ?L (h # F)" using c' bs by (auto simp: rescan_fields)
  have "?L s p = remove1 h (L s p)" for s p
  proof (cases "s = ?s \<and> p = ?p")
    case True
    then show ?thesis using L core_links(7) [OF c L] by (auto simp: remove1_append)
  next
    case False
    then have "h \<notin> set (L s p)" using core_disjoint [OF c, of h ?s ?p s p] L by auto
    then show ?thesis using False by (auto simp: remove1_idem)
  qed
  moreover have "ob_rep b' ?L (h # F)" using cr cancel_best [OF c' bb ba L r' de(8,9) b'] by (simp add: ob_rep_def)
  moreover have "same_frame b b'" using fr same_frame_trans [OF fr] rescan_fields(3,4) bs by auto
  moreover have "\<not> live b' h" using de(1) [of h] assms(2) by (simp add: live_def pool de(3))
  ultimately show ?thesis using cb de(1,3) by (intro exI conjI) (auto simp: live_def pool)
qed

lemma reduce_refines:
  assumes "ob_rep b L F" and "live b h" and "q < o_qty (ob_pool b ! h)" and "q \<noteq> 0"
  shows "\<exists>b'. OrderBook_reduce h q b = (o_qty (ob_pool b ! h) - q, b') \<and> ob_rep b' L F \<and> same_frame b b' \<and>
    ob_bestBid b' = ob_bestBid b \<and> ob_bestAsk b' = ob_bestAsk b \<and>
    ob_pool b' = (ob_pool b)[h := (ob_pool b ! h)\<lparr>o_qty := q\<rparr>]"
proof -
  let ?s = "o_side (ob_pool b ! h)" and ?p = "o_price (ob_pool b ! h)"
  have c: "core b L F" using assms(1) by (auto simp: ob_rep_def)
  have m: "h \<in> set (L ?s ?p)" using core_find [OF c] assms(2) by (auto simp: live_def)
  have "OrderBook_reduce h q b = (o_qty (ob_pool b ! h) - q, requantify ?s ?p h q b)"
    using assms(2-4) by (auto simp: OrderBook_reduce_def requantify_def live_def Let_def)
  moreover have "ob_rep (requantify ?s ?p h q b) L F"
    using core_requantify [OF c m assms(4) order_less_imp_le [OF assms(3)]] assms(1) by (simp add: ob_rep_def requantify_fields)
  moreover have "ob_pool (requantify ?s ?p h q b) = (ob_pool b)[h := (ob_pool b ! h)\<lparr>o_qty := q\<rparr>]"
    by (simp add: requantify_def pool_upd_def)
  ultimately show ?thesis using requantify_fields by blast
qed

section \<open>New and cleared books\<close>

lemma empty_rep:
  assumes "dims b" and "ob_pool b = []" and "ob_freeHead b = kNilHandle" and "ob_bestBid b = kNoPrice" and "ob_bestAsk b = kNoPrice"
    and "\<And>s. set (side_levels s b) \<subseteq> {Level_new}"
  shows "ob_rep b (\<lambda>s p. []) []"
proof -
  have "OrderBook_levelFor s p b = Level_new" if "in_range b p" for s p
    using nth_mem [OF index_less [OF assms(1) that, of s]] assms(6) [of s] by (auto simp: OrderBook_levelFor_def)
  then show ?thesis using assms(1-5)
    by (simp add: ob_rep_def core_def best_bid_def best_ask_def lvl_ok_def Level_new_def vol_def)
qed

lemma empty_view: "ob_rep b (\<lambda>s p. []) [] \<Longrightarrow> view b = (\<lambda>s p. [])"
  by (intro ext) (simp add: view_core [of b "\<lambda>s p. []" "[]"] ob_rep_def)

lemma new_rep: "kNoPrice < lo \<Longrightarrow> lo \<le> hi \<Longrightarrow> hi < 2 ^ 31 \<Longrightarrow> ob_rep (OrderBook_new lo hi) (\<lambda>s p. []) []"
proof (rule empty_rep)
  show "set (side_levels s (OrderBook_new lo hi)) \<subseteq> {Level_new}" for s by (cases s) (auto simp: OrderBook_new_def Let_def)
qed (simp_all add: OrderBook_new_def dims_def)

lemma clear_rep: "dims b \<Longrightarrow> ob_rep (OrderBook_clear b) (\<lambda>s p. []) []"
proof (rule empty_rep)
  show "set (side_levels s (OrderBook_clear b)) \<subseteq> {Level_new}" for s by (cases s) (auto simp: OrderBook_clear_def)
qed (simp_all add: OrderBook_clear_def dims_def)

end
