(* ===== verification/OrderBookProps.thy ===== *)
theory OrderBookProps
  imports OrderBookMatch
begin

text \<open>
  The promises of the order book as a contract (the locale \<open>matching_book\<close>), discharged by the model
  of \<^verbatim>\<open>lob/OrderBook.hpp\<close>, and the properties of the book: price-time priority, no crossed book,
  conservation of quantity, exact best prices and volumes, and cancel and reduce by handle.
\<close>

section \<open>The contract of a matching book\<close>

text \<open>The sink that keeps the trades in the order they are reported.\<close>

definition record_trade :: "Trade \<Rightarrow> Trade list \<Rightarrow> Trade list" where
  "record_trade t ts = ts @ [t]"

lemma fold_record_trade [simp]: "fold record_trade ts us = us @ ts"
  by (induction ts arbitrary: us) (simp_all add: record_trade_def)

locale matching_book =
  fixes inv :: "'b \<Rightarrow> bool" and orders :: "'b \<Rightarrow> book" and lo :: "'b \<Rightarrow> Price" and hi :: "'b \<Rightarrow> Price"
    and fits :: "'b \<Rightarrow> Side \<Rightarrow> Price \<Rightarrow> Quantity \<Rightarrow> bool"
    and add :: "OrderId \<Rightarrow> Side \<Rightarrow> Price \<Rightarrow> Quantity \<Rightarrow> 'b \<Rightarrow> Trade list \<times> 'b"
    and cancel :: "Handle \<Rightarrow> 'b \<Rightarrow> 'b"
  assumes add_inv: "inv b \<Longrightarrow> fits b s p q \<Longrightarrow> inv (snd (add oid s p q b))"
    and add_orders: "inv b \<Longrightarrow> fits b s p q \<Longrightarrow> q \<noteq> 0 \<Longrightarrow> lo b \<le> p \<Longrightarrow> p \<le> hi b \<Longrightarrow>
      spec_add oid s p q (lo b) (hi b) (orders b) = (fst (add oid s p q b), orders (snd (add oid s p q b)))"
    and add_refuses: "q = 0 \<or> p < lo b \<or> hi b < p \<Longrightarrow> add oid s p q b = ([], b)"
    and cancel_inv: "inv b \<Longrightarrow> inv (cancel h b)"
    and cancel_orders: "inv b \<Longrightarrow> set (orders (cancel h b) s p) \<subseteq> set (orders b s p)"
    and bounded: "inv b \<Longrightarrow> bounded_book (lo b) (hi b) (orders b)"
begin

lemma add_keeps_uncrossed:
  assumes "inv b" and "fits b s p q" and "uncrossed (orders b)"
  shows "uncrossed (orders (snd (add oid s p q b)))"
proof (cases "q = 0 \<or> p < lo b \<or> hi b < p")
  case True
  then show ?thesis using add_refuses assms(3) by simp
next
  case False
  then show ?thesis
    using add_orders [OF assms(1,2), of oid] spec_add_uncrossed [OF assms(3) bounded [OF assms(1)], of oid s p q] by simp
qed

lemma cancel_keeps_uncrossed: "inv b \<Longrightarrow> uncrossed (orders b) \<Longrightarrow> uncrossed (orders (cancel h b))"
proof -
  assume "inv b" "uncrossed (orders b)"
  moreover have "orders (cancel h b) s p \<noteq> [] \<Longrightarrow> orders b s p \<noteq> []" for s p
    using cancel_orders [OF \<open>inv b\<close>, of h s p] by auto
  ultimately show ?thesis by (auto simp: uncrossed_def)
qed

lemma add_conserves:
  assumes "inv b" and "fits b s p q"
  shows "filled (fst (add oid s p q b)) \<le> unat q"
    and "volume (orders b (opposite s) x) = volume (orders (snd (add oid s p q b)) (opposite s) x) + filled_at x (fst (add oid s p q b))"
    and "t \<in> set (fst (add oid s p q b)) \<Longrightarrow> within_limit s p (t_price t)"
proof -
  obtain ts q' B' where m: "spec_match oid s p q (lo b) (hi b) (orders b) = (ts, q', B')" by (metis prod_cases3)
  note f = spec_match_facts [OF m]
  consider "q = 0 \<or> p < lo b \<or> hi b < p"
    | "fst (add oid s p q b) = ts" "orders (snd (add oid s p q b)) (opposite s) = B' (opposite s)"
    using add_orders [OF assms, of oid] spec_add_opposite [OF m] by (metis not_le)
  then show "filled (fst (add oid s p q b)) \<le> unat q"
    "volume (orders b (opposite s) x) = volume (orders (snd (add oid s p q b)) (opposite s) x) + filled_at x (fst (add oid s p q b))"
    "t \<in> set (fst (add oid s p q b)) \<Longrightarrow> within_limit s p (t_price t)"
    by (cases, use f(1) f(2) [of x] f(4) [of t] add_refuses [of q p b oid s] in auto)+
qed

end

section \<open>The order book meets the contract\<close>

definition book_add :: "OrderId \<Rightarrow> Side \<Rightarrow> Price \<Rightarrow> Quantity \<Rightarrow> OrderBook \<Rightarrow> Trade list \<times> OrderBook" where
  "book_add oid s p q b = (let (h, ts, b') = OrderBook_add oid s p q record_trade [] b in (ts, b'))"

lemma book_add_refused: "refused p q b \<Longrightarrow> book_add oid s p q b = ([], b)"
  by (simp add: book_add_def OrderBook_add_def)

lemma book_add_refines:
  assumes "ob_inv b" and "room b s p q" and "\<not> refused p q b"
  shows "spec_add oid s p q (ob_minPrice b) (ob_maxPrice b) (view b) = (fst (book_add oid s p q b), view (snd (book_add oid s p q b)))"
    and "ob_inv (snd (book_add oid s p q b))"
proof -
  from assms(1) obtain L F where r: "ob_rep b L F" by (auto simp: ob_inv_def)
  from add_refines [OF r assms(2,3), of oid record_trade "[]"]
  obtain h ts b' L' F' where a: "OrderBook_add oid s p q record_trade [] b = (h, ts, b')"
    "spec_add oid s p q (ob_minPrice b) (ob_maxPrice b) (view b) = (ts, view b')" "ob_rep b' L' F'"
    by (metis append_Nil fold_record_trade)
  show "spec_add oid s p q (ob_minPrice b) (ob_maxPrice b) (view b) = (fst (book_add oid s p q b), view (snd (book_add oid s p q b)))"
    "ob_inv (snd (book_add oid s p q b))"
    using a by (auto simp: book_add_def ob_inv_def)
qed

lemma cancel_dead: "\<not> live b h \<Longrightarrow> OrderBook_cancel h b = (0, b)"
  by (auto simp: OrderBook_cancel_def live_def Let_def)

lemma cancel_effect:
  assumes "ob_inv b" and "live b h"
  shows "\<exists>b'. OrderBook_cancel h b = (o_qty (ob_pool b ! h), b') \<and> ob_inv b' \<and>
    (\<forall>s p. level_handles s p b' = remove1 h (level_handles s p b)) \<and> \<not> live b' h \<and>
    (\<forall>i. i \<noteq> h \<longrightarrow> live b i \<longrightarrow> live b' i \<and> o_id (ob_pool b' ! i) = o_id (ob_pool b ! i) \<and> o_qty (ob_pool b' ! i) = o_qty (ob_pool b ! i) \<and>
       o_side (ob_pool b' ! i) = o_side (ob_pool b ! i) \<and> o_price (ob_pool b' ! i) = o_price (ob_pool b ! i))"
proof -
  from assms(1) obtain L F where r: "ob_rep b L F" by (auto simp: ob_inv_def)
  from cancel_refines [OF r assms(2)] obtain b' L' F' where
    b': "OrderBook_cancel h b = (o_qty (ob_pool b ! h), b')" "ob_rep b' L' F'" "\<forall>s p. L' s p = remove1 h (L s p)" "\<not> live b' h"
    "\<forall>i. i \<noteq> h \<longrightarrow> live b i \<longrightarrow> live b' i \<and> o_id (ob_pool b' ! i) = o_id (ob_pool b ! i) \<and> o_qty (ob_pool b' ! i) = o_qty (ob_pool b ! i) \<and>
       o_side (ob_pool b' ! i) = o_side (ob_pool b ! i) \<and> o_price (ob_pool b' ! i) = o_price (ob_pool b ! i)" by blast
  moreover have "level_handles s p b' = remove1 h (level_handles s p b)" for s p
    using b'(3) level_handles_core [OF ob_inv_core(1) [OF b'(2)], of s p] level_handles_core [OF ob_inv_core(1) [OF r], of s p] by simp
  ultimately show ?thesis using ob_inv_core(2) [OF b'(2)] by blast
qed

lemma view_handles: "ob_inv b \<Longrightarrow> h \<in> set (level_handles s p b) \<Longrightarrow> live b h"
  using level_handles_core live_member unfolding ob_inv_def by (metis ob_inv_core(1))

lemma cancel_view_subset:
  assumes "ob_inv b"
  shows "set (view (snd (OrderBook_cancel h b)) s p) \<subseteq> set (view b s p)"
proof (cases "live b h")
  case True
  from cancel_effect [OF assms True] obtain b' where b': "OrderBook_cancel h b = (o_qty (ob_pool b ! h), b')"
    "level_handles s p b' = remove1 h (level_handles s p b)" "\<not> live b' h" "ob_inv b'"
    "\<And>i. i \<noteq> h \<Longrightarrow> live b i \<Longrightarrow> o_id (ob_pool b' ! i) = o_id (ob_pool b ! i) \<and> o_qty (ob_pool b' ! i) = o_qty (ob_pool b ! i)"
    by blast
  have "(o_id (ob_pool b' ! i), o_qty (ob_pool b' ! i)) \<in> set (view b s p)" if i: "i \<in> set (level_handles s p b')" for i
  proof -
    have "i \<in> set (level_handles s p b)" using i b'(2) set_remove1_subset by fastforce
    moreover have "i \<noteq> h" using view_handles [OF b'(4) i] b'(3) by auto
    ultimately show ?thesis using b'(5) [of i] view_handles [OF assms, of i s p] by (auto simp: view_def forEachOrderAtLevel_def)
  qed
  then show ?thesis using b'(1) by (auto simp: view_def [of b'] forEachOrderAtLevel_def)
qed (simp add: cancel_dead)

lemma ob_bounded: "ob_inv b \<Longrightarrow> bounded_book (ob_minPrice b) (ob_maxPrice b) (view b)"
  using view_empty core_outside unfolding ob_inv_def bounded_book_def by (metis in_range_def ob_inv_core(1))

interpretation lob: matching_book ob_inv view ob_minPrice ob_maxPrice room book_add "\<lambda>h b. snd (OrderBook_cancel h b)"
proof
  show "ob_inv (snd (book_add oid s p q b))" if "ob_inv b" "room b s p q" for b oid s p q
    using book_add_refines(2) [OF that] book_add_refused that(1) by (cases "refused p q b") simp_all
  show "spec_add oid s p q (ob_minPrice b) (ob_maxPrice b) (view b) = (fst (book_add oid s p q b), view (snd (book_add oid s p q b)))"
    if "ob_inv b" "room b s p q" "q \<noteq> 0" "ob_minPrice b \<le> p" "p \<le> ob_maxPrice b" for b oid s p q
    using book_add_refines(1) [OF that(1,2)] that(3-5) by (simp add: refused_def)
  show "book_add oid s p q b = ([], b)" if "q = 0 \<or> p < ob_minPrice b \<or> ob_maxPrice b < p" for oid s p q b
    using that by (intro book_add_refused) (auto simp: refused_def)
  show "ob_inv (snd (OrderBook_cancel h b))" if "ob_inv b" for b h
    using cancel_effect [OF that, of h] cancel_dead [of b h] that by (cases "live b h") auto
qed (auto intro: ob_bounded dest: cancel_view_subset [THEN subsetD])

section \<open>Reachable books\<close>

text \<open>Every book the four mutating operations of a venue can produce from a new one.\<close>

inductive book_reach :: "Price \<Rightarrow> Price \<Rightarrow> OrderBook \<Rightarrow> bool" for lo hi where
  new: "book_reach lo hi (OrderBook_new lo hi)"
| add: "book_reach lo hi b \<Longrightarrow> room b s p q \<Longrightarrow> OrderBook_add oid s p q record_trade [] b = (h, ts, b') \<Longrightarrow> book_reach lo hi b'"
| cancel: "book_reach lo hi b \<Longrightarrow> OrderBook_cancel h b = (r, b') \<Longrightarrow> book_reach lo hi b'"
| reduce: "book_reach lo hi b \<Longrightarrow> OrderBook_reduce h q b = (r, b') \<Longrightarrow> book_reach lo hi b'"
| clear: "book_reach lo hi b \<Longrightarrow> book_reach lo hi (OrderBook_clear b)"

lemma ob_inv_rep: "ob_inv b \<Longrightarrow> \<exists>L F. ob_rep b L F \<and> (\<forall>s p. level_handles s p b = L s p)"
  using level_handles_core unfolding ob_inv_def by (metis ob_inv_core(1))

lemma ob_inv_dims: "ob_inv b \<Longrightarrow> dims b"
  using core_dims unfolding ob_inv_def by (metis ob_inv_core(1))

lemma reduce_cases:
  obtains (same) "OrderBook_reduce h q b = (0, b)" | (cancel) "OrderBook_reduce h q b = OrderBook_cancel h b"
  | (less) "live b h" "q < o_qty (ob_pool b ! h)" "q \<noteq> 0"
  by (cases "live b h"; cases "q < o_qty (ob_pool b ! h)"; cases "q = 0")
    (auto simp: OrderBook_reduce_def live_def Let_def not_less)

lemma reduce_effect:
  assumes "ob_inv b" and "live b h" and "q < o_qty (ob_pool b ! h)" and "q \<noteq> 0"
  shows "\<exists>b'. OrderBook_reduce h q b = (o_qty (ob_pool b ! h) - q, b') \<and> ob_inv b' \<and>
    (\<forall>s p. level_handles s p b' = level_handles s p b) \<and> ob_bestBid b' = ob_bestBid b \<and> ob_bestAsk b' = ob_bestAsk b \<and>
    ob_pool b' = (ob_pool b)[h := (ob_pool b ! h)\<lparr>o_qty := q\<rparr>]"
proof -
  from ob_inv_rep [OF assms(1)] obtain L F where r: "ob_rep b L F" and l: "\<And>s p. level_handles s p b = L s p" by blast
  from reduce_refines [OF r assms(2-4)] obtain b' where b': "OrderBook_reduce h q b = (o_qty (ob_pool b ! h) - q, b')" "ob_rep b' L F"
    "ob_bestBid b' = ob_bestBid b" "ob_bestAsk b' = ob_bestAsk b" "ob_pool b' = (ob_pool b)[h := (ob_pool b ! h)\<lparr>o_qty := q\<rparr>]" by blast
  then show ?thesis using l level_handles_core [OF ob_inv_core(1) [OF b'(2)]] ob_inv_core(2) [OF b'(2)] by auto
qed

lemma view_nonempty_handles: "view b s p \<noteq> [] \<longleftrightarrow> level_handles s p b \<noteq> []"
  by (simp add: view_def forEachOrderAtLevel_def)

lemma reach_inv:
  assumes "kNoPrice < lo" "lo \<le> hi" "hi < 2 ^ 31" and "book_reach lo hi b"
  shows "ob_inv b \<and> uncrossed (view b)"
  using assms(4)
proof (induction rule: book_reach.induct)
  case new
  show ?case using new_rep [OF assms(1-3)] empty_view [OF new_rep [OF assms(1-3)]] by (auto simp: ob_inv_def uncrossed_def)
next
  case (add b s p q oid h ts b')
  then have "snd (book_add oid s p q b) = b'" by (simp add: book_add_def)
  then show ?case using add lob.add_inv [of b s p q oid] lob.add_keeps_uncrossed [of b s p q oid] by simp
next
  case (cancel b h r b')
  then show ?case using lob.cancel_inv [of b h] lob.cancel_keeps_uncrossed [of b h] by simp
next
  case (reduce b h q r b')
  show ?case
  proof (cases rule: reduce_cases [of h q b])
    case less
    then show ?thesis using reduce_effect [of b h q] reduce by (auto simp: uncrossed_def view_nonempty_handles)
  next
    case same
    then show ?thesis using reduce by simp
  next
    case cancel
    then have "OrderBook_cancel h b = (r, b')" using reduce.hyps(2) by simp
    then show ?thesis using reduce.IH lob.cancel_inv [of b h] lob.cancel_keeps_uncrossed [of b h] by simp
  qed
next
  case (clear b)
  have "ob_rep (OrderBook_clear b) (\<lambda>s p. []) []" using clear by (intro clear_rep ob_inv_dims) simp
  then show ?case using empty_view [of "OrderBook_clear b"] by (auto simp: ob_inv_def uncrossed_def)
qed

lemma all_sides: "(\<forall>s. P s) \<longleftrightarrow> P Buy \<and> P Sell"
  by (metis Side.exhaust)

lemma best_exact:
  assumes "ob_inv b"
  shows "ob_bestBid b = kNoPrice \<longleftrightarrow> (\<forall>p. view b Buy p = [])" "ob_bestAsk b = kNoPrice \<longleftrightarrow> (\<forall>p. view b Sell p = [])"
    and "ob_bestBid b \<noteq> kNoPrice \<Longrightarrow> view b Buy (ob_bestBid b) \<noteq> [] \<and> (\<forall>p. view b Buy p \<noteq> [] \<longrightarrow> p \<le> ob_bestBid b)"
    and "ob_bestAsk b \<noteq> kNoPrice \<Longrightarrow> view b Sell (ob_bestAsk b) \<noteq> [] \<and> (\<forall>p. view b Sell p \<noteq> [] \<longrightarrow> ob_bestAsk b \<le> p)"
proof -
  from assms obtain L F where r: "ob_rep b L F" by (auto simp: ob_inv_def)
  then have c: "core b L F" and b: "best_bid L (ob_bestBid b)" "best_ask L (ob_bestAsk b)" by (auto simp: ob_rep_def)
  note v = view_empty [OF c]
  show "ob_bestBid b = kNoPrice \<longleftrightarrow> (\<forall>p. view b Buy p = [])" "ob_bestAsk b = kNoPrice \<longleftrightarrow> (\<forall>p. view b Sell p = [])"
    using best_bid_cases(1) [OF c b(1)] best_ask_cases(1) [OF c b(2)] by (simp_all add: v)
  show "ob_bestBid b \<noteq> kNoPrice \<Longrightarrow> view b Buy (ob_bestBid b) \<noteq> [] \<and> (\<forall>p. view b Buy p \<noteq> [] \<longrightarrow> p \<le> ob_bestBid b)"
    "ob_bestAsk b \<noteq> kNoPrice \<Longrightarrow> view b Sell (ob_bestAsk b) \<noteq> [] \<and> (\<forall>p. view b Sell p \<noteq> [] \<longrightarrow> ob_bestAsk b \<le> p)"
    using b by (auto simp: v best_bid_def best_ask_def)
qed

lemma volumeAt_exact:
  assumes "ob_inv b"
  shows "unat (OrderBook_volumeAt s p b) = volume (view b s p)"
proof -
  from assms obtain L F where c: "core b L F" by (auto simp: ob_inv_def ob_rep_def)
  show ?thesis
  proof (cases "in_range b p")
    case True
    then show ?thesis using core_level [OF c True, of s] by (auto simp: OrderBook_volumeAt_def volume_view [OF c] lvl_ok_def in_range_def)
  next
    case False
    then show ?thesis using core_outside [OF c False, of s] by (auto simp: OrderBook_volumeAt_def volume_view [OF c] vol_def in_range_def)
  qed
qed

section \<open>Properties\<close>

text \<open>A small book for the witnesses: an offer of 30 at 101 between the limits 100 and 103.\<close>

definition demo_book :: OrderBook where
  "demo_book = snd (book_add 7 Sell 101 30 (OrderBook_new 100 103))"

lemma new_demo: "ob_inv (OrderBook_new 100 103)" "view (OrderBook_new 100 103) = (\<lambda>s p. [])"
  "room (OrderBook_new 100 103) s p q" "\<not> refused 101 30 (OrderBook_new 100 103)"
proof -
  have r: "ob_rep (OrderBook_new 100 103) (\<lambda>s p. []) []" by (rule new_rep) (simp_all add: kNoPrice_def)
  show v: "view (OrderBook_new 100 103) = (\<lambda>s p. [])" by (rule empty_view [OF r])
  show "ob_inv (OrderBook_new 100 103)" using r by (auto simp: ob_inv_def)
  show "room (OrderBook_new 100 103) s p q" 
    unfolding room_def v using unat_lt2p [of q] by (simp add: OrderBook_new_def Let_def kNilHandle_def)
  show "\<not> refused 101 30 (OrderBook_new 100 103)" by (simp add: refused_def OrderBook_new_def)
qed

lemma rest_pool_length: "OrderBook_rest oid s p q b = (h, b') \<Longrightarrow> length (ob_pool b') \<le> Suc (length (ob_pool b))"
  by (cases s) (auto simp: OrderBook_rest_def OrderBook_alloc_def Let_def split: if_splits)

lemma demo_frame: "length (ob_pool demo_book) \<le> 1" "ob_minPrice demo_book = 100" "ob_maxPrice demo_book = 103"
proof -
  let ?b = "OrderBook_new 100 103"
  obtain L F where "ob_rep ?b L F" using new_demo(1) by (auto simp: ob_inv_def)
  from match_refines [OF this new_demo(4), of 7 Sell record_trade "[]"]
  obtain q' b1 ts where m: "OrderBook_match 7 Sell 101 30 record_trade [] ?b = (q', fold record_trade ts [], b1)" "same_frame ?b b1" by blast
  obtain h b2 where r: "OrderBook_rest 7 Sell 101 q' b1 = (h, b2)" by (metis surj_pair)
  have "demo_book = (if q' = 0 then b1 else b2)" using m(1) r new_demo(4) by (simp add: demo_book_def book_add_def OrderBook_add_def word_gt_0)
  then show "length (ob_pool demo_book) \<le> 1" "ob_minPrice demo_book = 100" "ob_maxPrice demo_book = 103"
    using m(2) rest_pool_length [OF r] rest_best(3,4) [OF r] by (simp_all add: same_frame_def OrderBook_new_def split: if_splits)
qed

lemma demo_book: "ob_inv demo_book" "view demo_book = (\<lambda>s p. if s = Sell \<and> p = 101 then [(7, 30)] else [])"
  "room demo_book s p 50" "\<not> refused 102 50 demo_book"
proof -
  note a = book_add_refines [OF new_demo(1) new_demo(3) new_demo(4), of 7 Sell]
  show "ob_inv demo_book" using a(2) by (simp add: demo_book_def)
  have "spec_add 7 Sell 101 30 100 103 (\<lambda>s p. []) = ([], \<lambda>s p. if s = Sell \<and> p = 101 then [(7, 30)] else [])"
    using sweep_none [of "rev [101..103]" "\<lambda>p. []" 7 Sell 30] by (auto simp: spec_add_def spec_match_def push_order_def fun_eq_iff)
  then show v: "view demo_book = (\<lambda>s p. if s = Sell \<and> p = 101 then [(7, 30)] else [])"
    using a(1) by (simp add: demo_book_def new_demo(2)) (simp add: OrderBook_new_def Let_def)
  show "room demo_book s p 50" using demo_frame(1) by (simp add: room_def v kNilHandle_def)
  show "\<not> refused 102 50 demo_book" by (simp add: refused_def demo_frame)
qed

lemma demo_handle: "\<exists>h. level_handles Sell 101 demo_book = [h] \<and> live demo_book h \<and> o_qty (ob_pool demo_book ! h) = 30"
proof -
  have "view demo_book Sell 101 = [(7, 30)]" by (simp add: demo_book(2))
  then obtain h where h: "level_handles Sell 101 demo_book = [h]" "o_qty (ob_pool demo_book ! h) = 30"
    by (auto simp: view_def forEachOrderAtLevel_def)
  then show ?thesis using view_handles [OF demo_book(1), of h Sell 101] by auto
qed

text \<open>
  C1. Price-time priority. Adding an order to a well-formed book with room for it ends (the matching
  loops return), reports to the sink exactly the trades of the specification in their order, leaves
  exactly the resting orders the specification leaves, keeps the book well-formed, and returns a
  handle exactly when a remainder rests, and that handle names the new order.
\<close>

theorem OrderBook_add_price_time:
  assumes "ob_inv b" and "room b s p q" and "\<not> refused p q b"
  shows "\<exists>h ts b'. OrderBook_add oid s p q onTrade z b = (h, fold onTrade ts z, b') \<and>
    match_loops oid s p q onTrade z b \<noteq> None \<and>
    spec_add oid s p q (ob_minPrice b) (ob_maxPrice b) (view b) = (ts, view b') \<and> ob_inv b' \<and>
    (h = kNilHandle \<longleftrightarrow> unat q = filled ts) \<and> (h \<noteq> kNilHandle \<longrightarrow> live b' h \<and> o_id (ob_pool b' ! h) = oid)"
proof -
  from assms(1) obtain L F where r: "ob_rep b L F" by (auto simp: ob_inv_def)
  from add_refines [OF r assms(2,3), of oid onTrade z]
  obtain h ts b' L' F' where a: "OrderBook_add oid s p q onTrade z b = (h, fold onTrade ts z, b')"
    "spec_add oid s p q (ob_minPrice b) (ob_maxPrice b) (view b) = (ts, view b')" "ob_rep b' L' F'"
    "h = kNilHandle \<longleftrightarrow> fst (snd (spec_match oid s p q (ob_minPrice b) (ob_maxPrice b) (view b))) = 0"
    "h \<noteq> kNilHandle \<longrightarrow> live b' h \<and> o_id (ob_pool b' ! h) = oid" by blast
  obtain ts' q' B where m: "spec_match oid s p q (ob_minPrice b) (ob_maxPrice b) (view b) = (ts', q', B)" by (metis prod_cases3)
  have "ts = ts'" using spec_add_opposite [OF m a(2)] by simp
  then have "h = kNilHandle \<longleftrightarrow> unat q = filled ts" using a(4) spec_match_facts(1) [OF m] m by (simp add: unat_eq_zero)
  moreover have "match_loops oid s p q onTrade z b \<noteq> None" using match_refines [OF r assms(3), of oid s onTrade z] by auto
  ultimately show ?thesis using a(1,2,5) ob_inv_core(2) [OF a(3)] by blast
qed

theorem OrderBook_add_price_time_witness:
  "\<exists>h ts b'. OrderBook_add 9 Buy 102 50 record_trade [] demo_book = (h, fold record_trade ts [], b') \<and>
    match_loops 9 Buy 102 50 record_trade [] demo_book \<noteq> None \<and>
    spec_add 9 Buy 102 50 (ob_minPrice demo_book) (ob_maxPrice demo_book) (view demo_book) = (ts, view b') \<and> ob_inv b' \<and>
    (h = kNilHandle \<longleftrightarrow> unat (50 :: Quantity) = filled ts) \<and> (h \<noteq> kNilHandle \<longrightarrow> live b' h \<and> o_id (ob_pool b' ! h) = 9)"
  by (rule OrderBook_add_price_time [OF demo_book(1) demo_book(3) demo_book(4)])

text \<open>
  C3. No order of a matching operation is created or lost: the quantity traded is at most the
  quantity of the incoming order, at every price the resting quantity of the other side falls by
  exactly what traded there, and no trade is worse than the limit of the incoming order.
\<close>

theorem OrderBook_add_conserves:
  assumes "ob_inv b" and "room b s p q" and "OrderBook_add oid s p q record_trade [] b = (h, ts, b')"
  shows "filled ts \<le> unat q \<and> (\<forall>x. volume (view b (opposite s) x) = volume (view b' (opposite s) x) + filled_at x ts) \<and>
    (\<forall>t \<in> set ts. within_limit s p (t_price t))"
proof -
  have a: "book_add oid s p q b = (ts, b')" using assms(3) by (simp add: book_add_def)
  show ?thesis using lob.add_conserves [OF assms(1,2), where oid = oid] by (simp add: a)
qed

theorem OrderBook_add_conserves_witness:
  "\<exists>h ts b'. OrderBook_add 9 Buy 102 50 record_trade [] demo_book = (h, ts, b') \<and> filled ts \<le> unat (50 :: Quantity) \<and>
    (\<forall>x. volume (view demo_book Sell x) = volume (view b' Sell x) + filled_at x ts)"
proof -
  obtain h ts b' where a: "OrderBook_add 9 Buy 102 50 record_trade [] demo_book = (h, ts, b')" by (metis prod_cases3)
  show ?thesis using OrderBook_add_conserves [OF demo_book(1) demo_book(3) a] a by auto
qed

text \<open>
  C2. A book that was only changed by add, cancel, reduce and clear is well-formed and never crossed:
  when both sides have orders the best bid is below the best ask.
\<close>

theorem OrderBook_never_crossed:
  assumes "kNoPrice < lo" "lo \<le> hi" "hi < 2 ^ 31" and "book_reach lo hi b"
  shows "ob_inv b \<and> uncrossed (view b) \<and> (ob_bestBid b \<noteq> kNoPrice \<longrightarrow> ob_bestAsk b \<noteq> kNoPrice \<longrightarrow> ob_bestBid b < ob_bestAsk b)"
proof -
  have r: "ob_inv b" "uncrossed (view b)" using reach_inv [OF assms] by simp_all
  then show ?thesis using best_exact(3,4) [OF r(1)] unfolding uncrossed_def by blast
qed

theorem OrderBook_never_crossed_witness:
  "\<exists>h ts b. OrderBook_add 7 Sell 101 30 record_trade [] (OrderBook_new 100 103) = (h, ts, b) \<and> ob_inv b \<and> uncrossed (view b)"
proof -
  obtain h ts b' where a: "OrderBook_add 7 Sell 101 30 record_trade [] (OrderBook_new 100 103) = (h, ts, b')" by (metis prod_cases3)
  have "book_reach 100 103 b'" by (rule book_reach.add [OF book_reach.new new_demo(3) a])
  from OrderBook_never_crossed [OF _ _ _ this] a show ?thesis by (simp add: kNoPrice_def)
qed

text \<open>
  C4. Cancel by handle. A live handle is removed from its level, every level keeps the order of the
  others, every other order is unchanged, the handle is dead afterwards and the quantity returned is
  what the order had left; a dead handle or one outside the pool changes nothing and returns 0.
\<close>

theorem OrderBook_cancel_exact:
  assumes "ob_inv b"
  shows "if live b h then
      \<exists>b'. OrderBook_cancel h b = (o_qty (ob_pool b ! h), b') \<and> ob_inv b' \<and>
        (\<forall>s p. level_handles s p b' = remove1 h (level_handles s p b)) \<and> \<not> live b' h \<and>
        (\<forall>i. i \<noteq> h \<longrightarrow> live b i \<longrightarrow> live b' i \<and> o_id (ob_pool b' ! i) = o_id (ob_pool b ! i) \<and> o_qty (ob_pool b' ! i) = o_qty (ob_pool b ! i) \<and>
           o_side (ob_pool b' ! i) = o_side (ob_pool b ! i) \<and> o_price (ob_pool b' ! i) = o_price (ob_pool b ! i))
    else OrderBook_cancel h b = (0, b)"
  using cancel_effect [OF assms, of h] cancel_dead [of b h] by (cases "live b h") simp_all

theorem OrderBook_cancel_exact_witness:
  "\<exists>h b'. live demo_book h \<and> OrderBook_cancel h demo_book = (30, b') \<and> ob_inv b' \<and> \<not> live b' h \<and> level_handles Sell 101 b' = []"
proof -
  obtain h where "level_handles Sell 101 demo_book = [h]" "live demo_book h" "o_qty (ob_pool demo_book ! h) = 30" using demo_handle by blast
  then show ?thesis using OrderBook_cancel_exact [OF demo_book(1), of h] by auto
qed

text \<open>
  C8. Reduce keeps time priority: a reduction to a smaller positive quantity leaves every level with
  the same orders in the same order and the best prices as they were, changes only that quantity and
  returns the difference; reducing to zero is a cancel; anything else changes nothing.
\<close>

theorem OrderBook_reduce_keeps_priority:
  assumes "ob_inv b"
  shows "if \<not> live b h \<or> o_qty (ob_pool b ! h) \<le> q then OrderBook_reduce h q b = (0, b)
    else if q = 0 then OrderBook_reduce h q b = OrderBook_cancel h b
    else \<exists>b'. OrderBook_reduce h q b = (o_qty (ob_pool b ! h) - q, b') \<and> ob_inv b' \<and>
      (\<forall>s p. level_handles s p b' = level_handles s p b) \<and> ob_bestBid b' = ob_bestBid b \<and> ob_bestAsk b' = ob_bestAsk b \<and>
      ob_pool b' = (ob_pool b)[h := (ob_pool b ! h)\<lparr>o_qty := q\<rparr>]"
  using reduce_effect [OF assms, of h q] by (auto simp: OrderBook_reduce_def live_def Let_def)

theorem OrderBook_reduce_keeps_priority_witness:
  "\<exists>h b'. live demo_book h \<and> OrderBook_reduce h 10 demo_book = (20, b') \<and> ob_inv b' \<and> level_handles Sell 101 b' = [h]"
proof -
  obtain h where "level_handles Sell 101 demo_book = [h]" "live demo_book h" "o_qty (ob_pool demo_book ! h) = 30" using demo_handle by blast
  then show ?thesis using OrderBook_reduce_keeps_priority [OF demo_book(1), of h 10] by auto
qed

text \<open>
  The answers of the book are those of its orders: the cached best bid and ask are the highest
  and lowest price with a resting order (\<^verbatim>\<open>kNoPrice\<close> when there is none), \<^verbatim>\<open>volumeAt\<close> is the sum of the resting
  quantities of the level and \<^verbatim>\<open>empty\<close> says that no order rests.
\<close>

theorem OrderBook_queries_exact:
  assumes "ob_inv b"
  shows "(if \<forall>p. view b Buy p = [] then ob_bestBid b = kNoPrice
        else view b Buy (ob_bestBid b) \<noteq> [] \<and> (\<forall>p. view b Buy p \<noteq> [] \<longrightarrow> p \<le> ob_bestBid b)) \<and>
      (if \<forall>p. view b Sell p = [] then ob_bestAsk b = kNoPrice
        else view b Sell (ob_bestAsk b) \<noteq> [] \<and> (\<forall>p. view b Sell p \<noteq> [] \<longrightarrow> ob_bestAsk b \<le> p)) \<and>
      unat (OrderBook_volumeAt s p b) = volume (view b s p) \<and> (OrderBook_empty b \<longleftrightarrow> (\<forall>s p. view b s p = []))"
proof -
  have "OrderBook_empty b \<longleftrightarrow> (\<forall>s p. view b s p = [])" using best_exact(1,2) [OF assms] by (simp add: OrderBook_empty_def all_sides)
  then show ?thesis using best_exact [OF assms] volumeAt_exact [OF assms, of s p] by simp
qed

theorem OrderBook_queries_exact_witness:
  "unat (OrderBook_volumeAt Sell 101 demo_book) = 30 \<and> ob_bestAsk demo_book = 101 \<and> ob_bestBid demo_book = kNoPrice"
  using OrderBook_queries_exact [OF demo_book(1), of Sell 101] by (auto simp: demo_book(2) split: if_splits)

end
