(* ===== verification/OrderManager.thy ===== *)
theory OrderManager
  imports Ouch50 OrderBook
begin

text \<open>
  The order manager of \<^verbatim>\<open>dut/OrderManager.hpp\<close> and \<^verbatim>\<open>dut/OrderManager.cpp\<close>: per symbol and side one quote
  slot with its state machine, the ring of recently allocated references, the encoding of the three
  OUCH requests, and the handlers of the six OUCH replies. A pointer to a quote slot is the symbol
  index and the side; the ring \<^verbatim>\<open>m_refs\<close> is a function on its 4096 indices.
\<close>

section \<open>Data\<close>

record QuoteTargets =
  qt_quoteBid :: bool
  qt_bidPrice :: Price
  qt_bidQty :: Quantity
  qt_quoteAsk :: bool
  qt_askPrice :: Price
  qt_askQty :: Quantity

definition QuoteTargets_none :: QuoteTargets where
  "QuoteTargets_none = \<lparr>qt_quoteBid = False, qt_bidPrice = 0, qt_bidQty = 0, qt_quoteAsk = False, qt_askPrice = 0, qt_askQty = 0\<rparr>"

datatype QuoteState = Idle | PendingNew | Live | PendingReplace | PendingCancel

record QuoteSlot =
  qs_state :: QuoteState
  qs_userRef :: u32
  qs_pendingRef :: u32
  qs_price :: Price
  qs_qty :: Quantity
  qs_leaves :: Quantity

definition QuoteSlot_new :: QuoteSlot where
  "QuoteSlot_new = \<lparr>qs_state = Idle, qs_userRef = 0, qs_pendingRef = 0, qs_price = 0, qs_qty = 0, qs_leaves = 0\<rparr>"

record UnknownAck =
  ua_type :: byte
  ua_userRef :: u32
  ua_qty :: u32
  ua_sym :: int
  ua_side :: Side
  ua_state :: QuoteState
  ua_slotRef :: u32
  ua_pending :: u32
  ua_len :: u16
  ua_bytes :: "byte list"
  ua_recent :: "u64 list"

definition UnknownAck_new :: UnknownAck where
  "UnknownAck_new = \<lparr>ua_type = 0, ua_userRef = 0, ua_qty = 0, ua_sym = -1, ua_side = Buy, ua_state = Idle, ua_slotRef = 0,
     ua_pending = 0, ua_len = 0, ua_bytes = replicate 48 0, ua_recent = replicate 8 0\<rparr>"

record OmsStats =
  sx_enters :: u64
  sx_replaces :: u64
  sx_cancels :: u64
  sx_accepts :: u64
  sx_fills :: u64
  sx_rejects :: u64
  sx_unknown :: u64
  sx_tests :: u64
  sx_rejReplace :: u64
  sx_rejPrice :: u64
  sx_rejQty :: u64
  sx_rejOther :: u64
  sx_pendingSkips :: u64
  sx_unchanged :: u64

definition OmsStats_new :: OmsStats where
  "OmsStats_new = \<lparr>sx_enters = 0, sx_replaces = 0, sx_cancels = 0, sx_accepts = 0, sx_fills = 0, sx_rejects = 0, sx_unknown = 0,
     sx_tests = 0, sx_rejReplace = 0, sx_rejPrice = 0, sx_rejQty = 0, sx_rejOther = 0, sx_pendingSkips = 0, sx_unchanged = 0\<rparr>"

record Outbound =
  ob_buf :: "byte list"
  ob_len :: nat
  ob_userRef :: u32

definition Outbound_kSize :: nat where "Outbound_kSize = 64"

definition Outbound_new :: Outbound where
  "Outbound_new = \<lparr>ob_buf = replicate Outbound_kSize 0, ob_len = 0, ob_userRef = 0\<rparr>"

record RefSide =
  rs_userRef :: u32
  rs_sym :: u16
  rs_side :: Side

definition RefSide_new :: RefSide where
  "RefSide_new = \<lparr>rs_userRef = 0, rs_sym = 0, rs_side = Buy\<rparr>"

record EnterTemplates =
  et_bid :: EnterOrder
  et_ask :: EnterOrder

text \<open>The state. A pair of quote slots is the bid and the ask slot; positions are 64-bit and signed.\<close>

record OrderManager =
  om_symbols :: "byte list list"
  om_stats :: OmsStats
  om_nextUserRef :: u32
  om_slots :: "(QuoteSlot \<times> QuoteSlot) list"
  om_ackSym :: int
  om_acct :: "64 word list"
  om_refs :: "nat \<Rightarrow> RefSide"
  om_enter :: "EnterTemplates list"
  om_replace :: ReplaceOrder
  om_unknownLog :: "UnknownAck list"
  om_unknownCount :: nat
  om_curAck :: "byte list"
  om_recentAcks :: "u64 list"
  om_recentHead :: nat

definition kRefRing :: nat where "kRefRing = 4096"
definition kTestSym :: u16 where "kTestSym = 0xffff"

definition kTestSymbol :: "byte list" where
  "kTestSymbol = [0x5A, 0x56, 0x5A, 0x5A, 0x54]"

section \<open>Construction\<close>

primrec ouchSide :: "Side \<Rightarrow> byte" where
  "ouchSide Buy = OuchSide_code OSide_Buy"
| "ouchSide Sell = OuchSide_code OSide_Sell"

definition enterTemplate :: "byte list \<Rightarrow> Side \<Rightarrow> EnterOrder" where
  "enterTemplate symbol side =
     \<lparr>eo_type = InType_code In_EnterOrder, eo_userRefNum = 0, eo_side = ouchSide side, eo_quantity = 0,
      eo_symbol = alpha_store 8 symbol, eo_price = 0, eo_timeInForce = TimeInForce_code Tif_Day,
      eo_display = Display_code Disp_Visible, eo_capacity = Capacity_code Cap_Principal,
      eo_imSweepEligibility = ImSweep_code Sweep_NotEligible, eo_crossType = OuchCrossType_code OCross_Continuous,
      eo_clOrdId = alpha_store 14 [], eo_appendageLength = 0\<rparr>"

definition replaceTemplate :: ReplaceOrder where
  "replaceTemplate =
     \<lparr>ro_type = InType_code In_ReplaceOrder, ro_origUserRefNum = 0, ro_userRefNum = 0, ro_quantity = 0, ro_price = 0,
      ro_timeInForce = TimeInForce_code Tif_Day, ro_display = Display_code Disp_Visible,
      ro_imSweepEligibility = ImSweep_code Sweep_NotEligible, ro_clOrdId = alpha_store 14 [], ro_appendageLength = 0\<rparr>"

definition OrderManager_new :: "byte list list \<Rightarrow> u32 \<Rightarrow> OrderManager" where
  "OrderManager_new symbols firstUserRef =
     (let n = (if symbols = [] then 1 else length symbols); syms = (if symbols = [] then [[]] else symbols)
      in \<lparr>om_symbols = syms, om_stats = OmsStats_new, om_nextUserRef = (if firstUserRef = 0 then 1 else firstUserRef),
          om_slots = replicate n (QuoteSlot_new, QuoteSlot_new), om_ackSym = -1, om_acct = replicate n 0,
          om_refs = (\<lambda>_. RefSide_new),
          om_enter = map (\<lambda>name. \<lparr>et_bid = enterTemplate name Buy, et_ask = enterTemplate name Sell\<rparr>) syms,
          om_replace = replaceTemplate, om_unknownLog = replicate 16 UnknownAck_new, om_unknownCount = 0,
          om_curAck = [], om_recentAcks = replicate 8 0, om_recentHead = 0\<rparr>)"

section \<open>Slots, references and requests\<close>

definition slot_of :: "OrderManager \<Rightarrow> nat \<times> Side \<Rightarrow> QuoteSlot" where
  "slot_of m k = (case snd k of Buy \<Rightarrow> fst (om_slots m ! fst k) | Sell \<Rightarrow> snd (om_slots m ! fst k))"

definition pair_upd :: "Side \<Rightarrow> (QuoteSlot \<Rightarrow> QuoteSlot) \<Rightarrow> QuoteSlot \<times> QuoteSlot \<Rightarrow> QuoteSlot \<times> QuoteSlot" where
  "pair_upd side f p = (case side of Buy \<Rightarrow> (f (fst p), snd p) | Sell \<Rightarrow> (fst p, f (snd p)))"

definition slot_upd :: "nat \<times> Side \<Rightarrow> (QuoteSlot \<Rightarrow> QuoteSlot) \<Rightarrow> OrderManager \<Rightarrow> OrderManager" where
  "slot_upd k f m = m\<lparr>om_slots := (om_slots m)[fst k := pair_upd (snd k) f (om_slots m ! fst k)]\<rparr>"

definition stat_upd :: "(OmsStats \<Rightarrow> OmsStats) \<Rightarrow> OrderManager \<Rightarrow> OrderManager" where
  "stat_upd f m = m\<lparr>om_stats := f (om_stats m)\<rparr>"

definition ring_index :: "u32 \<Rightarrow> nat" where
  "ring_index r = unat r mod kRefRing"

definition allocRef :: "u16 \<Rightarrow> Side \<Rightarrow> OrderManager \<Rightarrow> u32 \<times> OrderManager" where
  "allocRef sy side m =
     (let ref = om_nextUserRef m; nx = ref + 1
      in (ref, m\<lparr>om_nextUserRef := (if nx = 0 then 1 else nx),
                 om_refs := (om_refs m)(unat (ref AND 0xfff) := \<lparr>rs_userRef = ref, rs_sym = sy, rs_side = side\<rparr>)\<rparr>))"

definition lookupRef :: "u32 \<Rightarrow> OrderManager \<Rightarrow> (nat \<times> Side) option" where
  "lookupRef userRef m =
     (let r = om_refs m (ring_index userRef)
      in if rs_userRef r \<noteq> userRef then None else Some (unat (rs_sym r), rs_side r))"

definition isTestRef :: "u32 \<Rightarrow> OrderManager \<Rightarrow> bool" where
  "isTestRef userRef m \<longleftrightarrow> (let r = om_refs m (ring_index userRef) in rs_userRef r = userRef \<and> rs_sym r = kTestSym)"

definition out_put :: "byte list \<Rightarrow> u32 \<Rightarrow> Outbound \<Rightarrow> Outbound" where
  "out_put bytes userRef out = out\<lparr>ob_buf := poke 0 bytes (ob_buf out), ob_len := length bytes, ob_userRef := userRef\<rparr>"

definition encodeEnter :: "nat \<Rightarrow> u32 \<Rightarrow> Side \<Rightarrow> Price \<Rightarrow> Quantity \<Rightarrow> OrderManager \<Rightarrow> Outbound \<Rightarrow> Outbound" where
  "encodeEnter sy userRef side price qty m =
     out_put (enc_EnterOrder ((case side of Buy \<Rightarrow> et_bid (om_enter m ! sy) | Sell \<Rightarrow> et_ask (om_enter m ! sy))
       \<lparr>eo_userRefNum := userRef, eo_quantity := qty, eo_price := wirePrice price\<rparr>)) userRef"

definition encodeReplace :: "u32 \<Rightarrow> u32 \<Rightarrow> Price \<Rightarrow> Quantity \<Rightarrow> OrderManager \<Rightarrow> Outbound \<Rightarrow> Outbound" where
  "encodeReplace origRef userRef price qty m =
     out_put (enc_ReplaceOrder ((om_replace m)
       \<lparr>ro_origUserRefNum := origRef, ro_userRefNum := userRef, ro_quantity := qty, ro_price := wirePrice price\<rparr>)) userRef"

definition encodeCancel :: "u32 \<Rightarrow> Outbound \<Rightarrow> Outbound" where
  "encodeCancel userRef =
     out_put (enc_CancelOrder \<lparr>co_type = InType_code In_CancelOrder, co_userRefNum = userRef, co_quantity = 0, co_appendageLength = 0\<rparr>) userRef"

definition encodeTestOrder :: "OrderManager \<Rightarrow> Outbound \<Rightarrow> OrderManager \<times> Outbound" where
  "encodeTestOrder m out =
     (let (ref, m') = allocRef kTestSym Buy m
      in (m', out_put (enc_EnterOrder ((enterTemplate kTestSymbol Buy)
                \<lparr>eo_userRefNum := ref, eo_quantity := 1, eo_price := wirePrice 100\<rparr>)) ref out))"

definition warmEncode :: "nat \<Rightarrow> OrderManager \<Rightarrow> Outbound \<Rightarrow> Outbound" where
  "warmEncode sy m out = encodeReplace 0 0 0 0 m (encodeEnter sy 0 Sell 0 0 m (encodeEnter sy 0 Buy 0 0 m out))"

section \<open>Reconciling quotes\<close>

text \<open>\<^verbatim>\<open>reconcileSlot\<close>: the number of requests written, the slot, the manager and the outbound buffer after it.\<close>

definition reconcileSlot :: "QuoteSlot \<Rightarrow> nat \<Rightarrow> Side \<Rightarrow> bool \<Rightarrow> Price \<Rightarrow> Quantity \<Rightarrow> OrderManager \<Rightarrow> Outbound \<Rightarrow>
    nat \<times> QuoteSlot \<times> OrderManager \<times> Outbound" where
  "reconcileSlot s sy side want0 price qty m out =
     (let want = (want0 \<and> qty \<noteq> 0) in
      case qs_state s of
        Idle \<Rightarrow>
          if \<not> want then (0, s, m, out)
          else
            let (ref, m1) = allocRef (of_nat sy) side m
            in (1, s\<lparr>qs_state := PendingNew, qs_userRef := ref, qs_pendingRef := 0, qs_price := price, qs_qty := qty, qs_leaves := qty\<rparr>,
                stat_upd (\<lambda>x. x\<lparr>sx_enters := sx_enters x + 1\<rparr>) m1, encodeEnter sy ref side price qty m1 out)
      | Live \<Rightarrow>
          if \<not> want then
            (1, s\<lparr>qs_state := PendingCancel\<rparr>, stat_upd (\<lambda>x. x\<lparr>sx_cancels := sx_cancels x + 1\<rparr>) m, encodeCancel (qs_userRef s) out)
          else if price = qs_price s \<and> qty = qs_leaves s then
            (0, s, stat_upd (\<lambda>x. x\<lparr>sx_unchanged := sx_unchanged x + 1\<rparr>) m, out)
          else
            let (ref, m1) = allocRef (of_nat sy) side m
            in (1, s\<lparr>qs_state := PendingReplace, qs_pendingRef := ref\<rparr>,
                stat_upd (\<lambda>x. x\<lparr>sx_replaces := sx_replaces x + 1\<rparr>) m1, encodeReplace (qs_userRef s) ref price qty m1 out)
      | _ \<Rightarrow> (0, s, stat_upd (\<lambda>x. x\<lparr>sx_pendingSkips := sx_pendingSkips x + (if want then 1 else 0)\<rparr>) m, out))"

definition reconcileSide :: "nat \<Rightarrow> Side \<Rightarrow> bool \<Rightarrow> Price \<Rightarrow> Quantity \<Rightarrow> OrderManager \<Rightarrow> Outbound \<Rightarrow> nat \<times> OrderManager \<times> Outbound" where
  "reconcileSide sy side want price qty m out =
     (let (n, s, m', out') = reconcileSlot (slot_of m (sy, side)) sy side want price qty m out
      in (n, slot_upd (sy, side) (\<lambda>_. s) m', out'))"

text \<open>The span \<^verbatim>\<open>out\<close> is the list of outbound buffers; the second call writes at the count of the first.\<close>

definition reconcile_two :: "nat \<Rightarrow> (Side \<times> bool \<times> Price \<times> Quantity) \<Rightarrow> (Side \<times> bool \<times> Price \<times> Quantity) \<Rightarrow>
    OrderManager \<Rightarrow> Outbound list \<Rightarrow> nat \<times> OrderManager \<times> Outbound list" where
  "reconcile_two sy a b m outs =
     (let (s1, w1, p1, q1) = a; (s2, w2, p2, q2) = b;
          (n1, m1, o1) = reconcileSide sy s1 w1 p1 q1 m (outs ! 0);
          outs1 = outs[0 := o1];
          (n2, m2, o2) = reconcileSide sy s2 w2 p2 q2 m1 (outs1 ! n1)
      in (n1 + n2, m2, outs1[n1 := o2]))"

definition reconcile :: "nat \<Rightarrow> QuoteTargets \<Rightarrow> OrderManager \<Rightarrow> Outbound list \<Rightarrow> nat \<times> OrderManager \<times> Outbound list" where
  "reconcile sy t m outs =
     (let ask = slot_of m (sy, Sell);
          sellFirst = (qt_quoteBid t \<and> qs_state ask \<noteq> Idle \<and> qt_bidPrice t \<ge> qs_price ask);
          bid = (Buy, qt_quoteBid t, qt_bidPrice t, qt_bidQty t);
          offer = (Sell, qt_quoteAsk t, qt_askPrice t, qt_askQty t)
      in if sellFirst then reconcile_two sy offer bid m outs else reconcile_two sy bid offer m outs)"

definition warmReconcile :: "nat \<Rightarrow> OrderManager \<Rightarrow> Outbound \<Rightarrow> OrderManager \<times> Outbound" where
  "warmReconcile sy m out =
     (let stats = om_stats m; nextRef = om_nextUserRef m;
          ref0 = om_refs m (ring_index nextRef); ref1 = om_refs m (ring_index (nextRef + 1));
          (n1, s1, m1, out1) = reconcileSlot QuoteSlot_new sy Buy True 1 1 m out;
          s2 = s1\<lparr>qs_state := Live, qs_price := 1, qs_leaves := 1\<rparr>;
          (n2, s3, m2, out2) = reconcileSlot s2 sy Buy True 2 1 m1 out1
      in (m2\<lparr>om_stats := stats, om_nextUserRef := nextRef,
             om_refs := (om_refs m2)(ring_index nextRef := ref0, ring_index (nextRef + 1) := ref1)\<rparr>, out2))"

section \<open>Replies\<close>

definition settle :: "QuoteSlot \<Rightarrow> QuoteSlot" where
  "settle s = s\<lparr>qs_state := Idle, qs_userRef := 0, qs_pendingRef := 0, qs_price := 0, qs_qty := 0, qs_leaves := 0\<rparr>"

definition slot_keys :: "OrderManager \<Rightarrow> (nat \<times> Side) list" where
  "slot_keys m = concat (map (\<lambda>i. [(i, Buy), (i, Sell)]) [0..<length (om_slots m)])"

definition active_with :: "u32 \<Rightarrow> QuoteSlot \<Rightarrow> bool" where
  "active_with userRef s \<longleftrightarrow> qs_state s \<noteq> Idle \<and> qs_userRef s = userRef"

definition slotByRef :: "u32 \<Rightarrow> OrderManager \<Rightarrow> (nat \<times> Side) option \<times> OrderManager" where
  "slotByRef userRef m =
     (let hint = (case lookupRef userRef m of
                    Some (h, side) \<Rightarrow> if h < length (om_slots m) \<and> active_with userRef (slot_of m (h, side)) then Some (h, side) else None
                  | None \<Rightarrow> None);
          found = (case hint of Some k \<Rightarrow> Some k | None \<Rightarrow> find (\<lambda>k. active_with userRef (slot_of m k)) (slot_keys m))
      in (found, case found of Some k \<Rightarrow> m\<lparr>om_ackSym := int (fst k)\<rparr> | None \<Rightarrow> m))"

definition slotByPending :: "u32 \<Rightarrow> OrderManager \<Rightarrow> (nat \<times> Side) option" where
  "slotByPending userRef m =
     find (\<lambda>k. qs_state (slot_of m k) = PendingReplace \<and> qs_pendingRef (slot_of m k) = userRef) (slot_keys m)"

definition unknownAck :: "byte \<Rightarrow> u32 \<Rightarrow> u32 \<Rightarrow> OrderManager \<Rightarrow> OrderManager" where
  "unknownAck type userRef qty m =
     (let m1 = stat_upd (\<lambda>x. x\<lparr>sx_unknown := sx_unknown x + 1\<rparr>) m;
          m2 = (if om_unknownCount m1 < length (om_unknownLog m1) then
                  let u = om_unknownLog m1 ! om_unknownCount m1;
                      n = min (length (om_curAck m1)) (length (ua_bytes u));
                      u1 = u\<lparr>ua_type := type, ua_userRef := userRef, ua_qty := qty, ua_len := of_nat (length (om_curAck m1)),
                             ua_bytes := take n (om_curAck m1) @ drop n (ua_bytes u),
                             ua_recent := map (\<lambda>i. om_recentAcks m1 ! ((om_recentHead m1 + i) mod length (om_recentAcks m1)))
                                            [0..<length (ua_recent u)]\<rparr>;
                      r = om_refs m1 (ring_index userRef);
                      u2 = (if rs_userRef r = userRef \<and> rs_sym r \<noteq> kTestSym \<and> unat (rs_sym r) < length (om_slots m1) then
                              let s = slot_of m1 (unat (rs_sym r), rs_side r)
                              in u1\<lparr>ua_sym := sint (rs_sym r), ua_side := rs_side r, ua_state := qs_state s,
                                    ua_slotRef := qs_userRef s, ua_pending := qs_pendingRef s\<rparr>
                            else u1)
                  in m1\<lparr>om_unknownLog := (om_unknownLog m1)[om_unknownCount m1 := u2]\<rparr>
                else m1)
      in m2\<lparr>om_unknownCount := om_unknownCount m2 + 1\<rparr>)"

definition onAccepted :: "Accepted \<Rightarrow> OrderManager \<Rightarrow> OrderManager" where
  "onAccepted a m =
     (if isTestRef (ac_userRefNum a) m then stat_upd (\<lambda>x. x\<lparr>sx_tests := sx_tests x + 1\<rparr>) m
      else
        let (k, m1) = slotByRef (ac_userRefNum a) m in
        case k of
          None \<Rightarrow> unknownAck 0x41 (ac_userRefNum a) (ac_quantity a) m1
        | Some k \<Rightarrow>
            if qs_state (slot_of m1 k) \<noteq> PendingNew then unknownAck 0x41 (ac_userRefNum a) (ac_quantity a) m1
            else
              let m2 = stat_upd (\<lambda>x. x\<lparr>sx_accepts := sx_accepts x + 1\<rparr>) m1;
                  m3 = slot_upd k (\<lambda>s. s\<lparr>qs_qty := ac_quantity a, qs_leaves := ac_quantity a\<rparr>) m2
              in if ac_orderState a = OrderState_code State_Dead then slot_upd k (\<lambda>s. settle (s\<lparr>qs_leaves := 0\<rparr>)) m3
                 else slot_upd k (\<lambda>s. s\<lparr>qs_state := Live\<rparr>) m3)"

definition wire_to_price :: "u64 \<Rightarrow> Price" where
  "wire_to_price p = sint (ucast p :: u32)"

definition onReplaced :: "Replaced \<Rightarrow> OrderManager \<Rightarrow> OrderManager" where
  "onReplaced a m =
     (case slotByPending (rp_userRefNum a) m of
        None \<Rightarrow> unknownAck 0x55 (rp_userRefNum a) (rp_quantity a) m
      | Some k \<Rightarrow>
          let m1 = stat_upd (\<lambda>x. x\<lparr>sx_accepts := sx_accepts x + 1\<rparr>) m;
              m2 = slot_upd k (\<lambda>s. s\<lparr>qs_userRef := rp_userRefNum a, qs_pendingRef := 0, qs_price := wire_to_price (rp_price a),
                                     qs_qty := rp_quantity a, qs_leaves := rp_quantity a, qs_state := Live\<rparr>) m1
          in if rp_orderState a = OrderState_code State_Dead then slot_upd k (\<lambda>s. settle (s\<lparr>qs_leaves := 0\<rparr>)) m2 else m2)"

definition sub_leaves :: "Quantity \<Rightarrow> Quantity \<Rightarrow> Quantity" where
  "sub_leaves qty leaves = (if qty \<ge> leaves then 0 else leaves - qty)"

definition onExecuted :: "Executed \<Rightarrow> OrderManager \<Rightarrow> OrderManager" where
  "onExecuted e m =
     (let (k, m1) = slotByRef (ex_userRefNum e) m in
      case k of
        None \<Rightarrow> unknownAck 0x45 (ex_userRefNum e) (ex_quantity e) m1
      | Some (sy, side) \<Rightarrow>
          let m2 = stat_upd (\<lambda>x. x\<lparr>sx_fills := sx_fills x + 1\<rparr>) m1;
              delta = (ucast (ex_quantity e) :: 64 word);
              m3 = m2\<lparr>om_acct := (om_acct m2)[sy := (case side of Buy \<Rightarrow> om_acct m2 ! sy + delta | Sell \<Rightarrow> om_acct m2 ! sy - delta)]\<rparr>
          in slot_upd (sy, side)
               (\<lambda>s. let s1 = s\<lparr>qs_leaves := sub_leaves (ex_quantity e) (qs_leaves s)\<rparr>
                    in if qs_leaves s1 = 0 \<and> qs_state s1 = Live then settle s1 else s1) m3)"

definition onCanceled :: "Canceled \<Rightarrow> OrderManager \<Rightarrow> OrderManager" where
  "onCanceled c m =
     (let (k, m1) = slotByRef (ca_userRefNum c) m in
      case k of
        None \<Rightarrow> unknownAck 0x43 (ca_userRefNum c) (ca_quantity c) m1
      | Some k \<Rightarrow>
          slot_upd k
            (\<lambda>s. let s1 = s\<lparr>qs_leaves := sub_leaves (ca_quantity c) (qs_leaves s)\<rparr>
                 in if qs_leaves s1 = 0 \<or> qs_state s1 = PendingCancel then settle (s1\<lparr>qs_leaves := 0\<rparr>)
                    else if qs_state s1 = PendingNew then s1\<lparr>qs_state := Live\<rparr> else s1) m1)"

text \<open>Back to resting with what is left, or free when nothing is left.\<close>

definition resume :: "QuoteSlot \<Rightarrow> QuoteSlot" where
  "resume s = (if qs_leaves s > 0 then s\<lparr>qs_state := Live\<rparr> else settle s)"

definition count_reject :: "u16 \<Rightarrow> OmsStats \<Rightarrow> OmsStats" where
  "count_reject reason x =
     (if reason = RejectReason_code Rej_ReplaceNotAllowed then x\<lparr>sx_rejReplace := sx_rejReplace x + 1\<rparr>
      else if reason = RejectReason_code Rej_InvalidPrice then x\<lparr>sx_rejPrice := sx_rejPrice x + 1\<rparr>
      else if reason = RejectReason_code Rej_InvalidQuantity then x\<lparr>sx_rejQty := sx_rejQty x + 1\<rparr>
      else x\<lparr>sx_rejOther := sx_rejOther x + 1\<rparr>)"

definition onRejected :: "Rejected \<Rightarrow> OrderManager \<Rightarrow> OrderManager" where
  "onRejected r m =
     (if isTestRef (rj_userRefNum r) m then stat_upd (\<lambda>x. x\<lparr>sx_tests := sx_tests x + 1\<rparr>) m
      else
        let m1 = stat_upd (\<lambda>x. count_reject (rj_reason r) (x\<lparr>sx_rejects := sx_rejects x + 1\<rparr>)) m in
        case slotByPending (rj_userRefNum r) m1 of
          Some k \<Rightarrow> slot_upd k (\<lambda>s. resume (s\<lparr>qs_pendingRef := 0\<rparr>)) m1
        | None \<Rightarrow>
            let (k, m2) = slotByRef (rj_userRefNum r) m1 in
            case k of
              None \<Rightarrow> unknownAck 0x4A (rj_userRefNum r) 0 m2
            | Some k \<Rightarrow> slot_upd k (\<lambda>s. settle (s\<lparr>qs_leaves := 0\<rparr>)) m2)"

definition onCancelReject :: "CancelReject \<Rightarrow> OrderManager \<Rightarrow> OrderManager" where
  "onCancelReject c m =
     (let (k, m1) = slotByRef (cj_userRefNum c) m in
      case k of
        None \<Rightarrow> unknownAck 0x49 (cj_userRefNum c) 0 m1
      | Some k \<Rightarrow>
          if qs_state (slot_of m1 k) \<noteq> PendingCancel then unknownAck 0x49 (cj_userRefNum c) 0 m1
          else slot_upd k resume m1)"

text \<open>The dispatch on the first byte; a reply shorter than its struct is skipped.\<close>

definition handle_read :: "'a option \<Rightarrow> ('a \<Rightarrow> OrderManager \<Rightarrow> OrderManager) \<Rightarrow> OrderManager \<Rightarrow> OrderManager" where
  "handle_read r h m = (case r of None \<Rightarrow> m | Some x \<Rightarrow> h x m)"

definition dispatch :: "byte list \<Rightarrow> OrderManager \<Rightarrow> OrderManager" where
  "dispatch bs =
     (let t = bs ! 0
      in if t = OutType_code Out_Accepted then handle_read (wire_read sizeof_Accepted dec_Accepted bs) onAccepted
         else if t = OutType_code Out_Replaced then handle_read (wire_read sizeof_Replaced dec_Replaced bs) onReplaced
         else if t = OutType_code Out_Executed then handle_read (wire_read sizeof_Executed dec_Executed bs) onExecuted
         else if t = OutType_code Out_Canceled then handle_read (wire_read sizeof_Canceled dec_Canceled bs) onCanceled
         else if t = OutType_code Out_Rejected then handle_read (wire_read sizeof_Rejected dec_Rejected bs) onRejected
         else if t = OutType_code Out_CancelReject then handle_read (wire_read sizeof_CancelReject dec_CancelReject bs) onCancelReject
         else (\<lambda>m. m))"

definition note_recent :: "byte list \<Rightarrow> OrderManager \<Rightarrow> OrderManager" where
  "note_recent bs m =
     (if length bs \<ge> 13 then
        let ref = (be_value (drop 9 bs) :: u32); v = push_bit 32 (ucast (bs ! 0) :: u64) OR ucast ref
        in m\<lparr>om_recentAcks := (om_recentAcks m)[om_recentHead m := v], om_recentHead := (om_recentHead m + 1) mod length (om_recentAcks m)\<rparr>
      else m)"

definition onAck :: "byte list \<Rightarrow> OrderManager \<Rightarrow> int \<times> OrderManager" where
  "onAck bs m =
     (let m0 = m\<lparr>om_ackSym := -1\<rparr> in
      if bs = [] then (om_ackSym m0, m0)
      else
        let m1 = m0\<lparr>om_curAck := bs\<rparr>; m2 = dispatch bs m1; m3 = note_recent bs m2
        in (om_ackSym m3, m3))"

definition netPosition :: "OrderManager \<Rightarrow> 64 word" where
  "netPosition m = foldl (\<lambda>p a. p + a) 0 (om_acct m)"

definition unknownAcks :: "OrderManager \<Rightarrow> UnknownAck list" where
  "unknownAcks m = take (min (om_unknownCount m) (length (om_unknownLog m))) (om_unknownLog m)"

end
