(* ===== verification/OrderManagerProps.thy ===== *)
theory OrderManagerProps
  imports OrderManager
begin

text \<open>
  What the order manager promises: the invariant that ties the quote slots, the references they wait
  for and the reference ring together, kept by every operation and by every reply whatever its bytes;
  one request in flight per side; exact position keeping; and requests that decode to what was wanted.
\<close>

section \<open>Slots\<close>

definition slot_set :: "OrderManager \<Rightarrow> (nat \<times> Side) set" where
  "slot_set m = {k. fst k < length (om_slots m)}"

lemma set_slot_keys [simp]: "set (slot_keys m) = slot_set m"
proof -
  have "(i, s) \<in> set (slot_keys m) \<longleftrightarrow> i < length (om_slots m)" for i s
    by (cases s) (auto simp: slot_keys_def)
  then show ?thesis by (auto simp: slot_set_def)
qed

lemma slot_upd_fields [simp, frame_simps]:
  "om_stats (slot_upd k f m) = om_stats m" "om_nextUserRef (slot_upd k f m) = om_nextUserRef m" "om_ackSym (slot_upd k f m) = om_ackSym m"
  "om_acct (slot_upd k f m) = om_acct m" "om_refs (slot_upd k f m) = om_refs m" "om_enter (slot_upd k f m) = om_enter m"
  "om_replace (slot_upd k f m) = om_replace m" "om_unknownLog (slot_upd k f m) = om_unknownLog m" "om_recentAcks (slot_upd k f m) = om_recentAcks m"
  "om_recentHead (slot_upd k f m) = om_recentHead m" "length (om_slots (slot_upd k f m)) = length (om_slots m)" "om_symbols (slot_upd k f m) = om_symbols m"
  by (simp_all add: slot_upd_def)

lemma stat_upd_fields [simp, frame_simps]:
  "om_slots (stat_upd f m) = om_slots m" "om_nextUserRef (stat_upd f m) = om_nextUserRef m" "om_ackSym (stat_upd f m) = om_ackSym m"
  "om_acct (stat_upd f m) = om_acct m" "om_refs (stat_upd f m) = om_refs m" "om_enter (stat_upd f m) = om_enter m"
  "om_replace (stat_upd f m) = om_replace m" "om_unknownLog (stat_upd f m) = om_unknownLog m" "om_recentAcks (stat_upd f m) = om_recentAcks m"
  "om_recentHead (stat_upd f m) = om_recentHead m" "om_symbols (stat_upd f m) = om_symbols m"
  by (simp_all add: stat_upd_def)

lemma slot_set_cong: "length (om_slots m') = length (om_slots m) \<Longrightarrow> slot_set m' = slot_set m"
  by (simp add: slot_set_def)

lemma slot_of_cong: "om_slots m' = om_slots m \<Longrightarrow> slot_of m' k = slot_of m k"
  by (cases "snd k") (simp_all add: slot_of_def)

lemma slot_of_upd: "k \<in> slot_set m \<Longrightarrow> slot_of (slot_upd k f m) k' = (if k' = k then f (slot_of m k) else slot_of m k')"
  by (cases k; cases k') (auto simp: slot_of_def slot_upd_def pair_upd_def slot_set_def nth_list_update split: Side.splits)

lemma slot_upd_twice: "k \<in> slot_set m \<Longrightarrow> slot_upd k f (slot_upd k g m) = slot_upd k (\<lambda>s. f (g s)) m"
  by (cases k) (simp add: slot_upd_def pair_upd_def slot_set_def split: Side.splits)

section \<open>The invariant\<close>

definition refs_of :: "QuoteSlot \<Rightarrow> u32 set" where
  "refs_of s = {qs_userRef s, qs_pendingRef s} - {0}"

definition slot_ok :: "QuoteSlot \<Rightarrow> bool" where
  "slot_ok s \<longleftrightarrow> (qs_state s = Idle \<longrightarrow> s = QuoteSlot_new) \<and> (qs_state s \<noteq> Idle \<longrightarrow> qs_userRef s \<noteq> 0) \<and>
     (qs_pendingRef s \<noteq> 0 \<longleftrightarrow> qs_state s = PendingReplace) \<and> (qs_userRef s = qs_pendingRef s \<longrightarrow> qs_userRef s = 0)"

text \<open>The ring entry of a reference, when it is still that of the reference, names the slot that holds it.\<close>

definition ring_agrees :: "OrderManager \<Rightarrow> u32 \<Rightarrow> nat \<times> Side \<Rightarrow> bool" where
  "ring_agrees m r k \<longleftrightarrow>
     (let e = om_refs m (ring_index r) in rs_userRef e = r \<longrightarrow> unat (rs_sym e) = fst k \<and> rs_side e = snd k)"

definition om_frame :: "OrderManager \<Rightarrow> bool" where
  "om_frame m \<longleftrightarrow> 0 < length (om_slots m) \<and> length (om_slots m) < 65535 \<and> length (om_acct m) = length (om_slots m) \<and>
     length (om_symbols m) = length (om_slots m) \<and> om_replace m = replaceTemplate \<and>
     om_enter m = map (\<lambda>name. \<lparr>et_bid = enterTemplate name Buy, et_ask = enterTemplate name Sell\<rparr>) (om_symbols m) \<and>
     length (om_unknownLog m) = 16 \<and> length (om_recentAcks m) = 8 \<and> om_recentHead m < 8"

definition om_inv :: "OrderManager \<Rightarrow> bool" where
  "om_inv m \<longleftrightarrow> om_frame m \<and> om_nextUserRef m \<noteq> 0 \<and> (\<forall>k \<in> slot_set m. slot_ok (slot_of m k)) \<and>
     (\<forall>k \<in> slot_set m. \<forall>r \<in> refs_of (slot_of m k). r < om_nextUserRef m \<and> ring_agrees m r k) \<and>
     (\<forall>k \<in> slot_set m. \<forall>k' \<in> slot_set m. k \<noteq> k' \<longrightarrow> refs_of (slot_of m k) \<inter> refs_of (slot_of m k') = {})"

lemma om_invD:
  assumes "om_inv m"
  shows "om_frame m" "om_nextUserRef m \<noteq> 0" "k \<in> slot_set m \<Longrightarrow> slot_ok (slot_of m k)"
    "k \<in> slot_set m \<Longrightarrow> r \<in> refs_of (slot_of m k) \<Longrightarrow> r < om_nextUserRef m \<and> ring_agrees m r k"
    "k \<in> slot_set m \<Longrightarrow> k' \<in> slot_set m \<Longrightarrow> r \<in> refs_of (slot_of m k) \<Longrightarrow> r \<in> refs_of (slot_of m k') \<Longrightarrow> k = k'"
proof -
  note i = assms [unfolded om_inv_def]
  show "om_frame m" "om_nextUserRef m \<noteq> 0" "k \<in> slot_set m \<Longrightarrow> slot_ok (slot_of m k)"
    "k \<in> slot_set m \<Longrightarrow> r \<in> refs_of (slot_of m k) \<Longrightarrow> r < om_nextUserRef m \<and> ring_agrees m r k"
    using i by simp_all
  show "k \<in> slot_set m \<Longrightarrow> k' \<in> slot_set m \<Longrightarrow> r \<in> refs_of (slot_of m k) \<Longrightarrow> r \<in> refs_of (slot_of m k') \<Longrightarrow> k = k'"
    using i by blast
qed

text \<open>What the slots and the ring do not see.\<close>

lemma om_inv_cong:
  assumes "om_inv m" and "om_slots m' = om_slots m" and "om_refs m' = om_refs m" and "om_nextUserRef m' = om_nextUserRef m"
    and "length (om_acct m') = length (om_acct m)" and "om_enter m' = om_enter m" and "om_symbols m' = om_symbols m" and "om_replace m' = om_replace m" and "length (om_unknownLog m') = length (om_unknownLog m)"
    and "length (om_recentAcks m') = length (om_recentAcks m)" and "om_recentHead m' < 8"
  shows "om_inv m'"
proof -
  have s: "slot_set m' = slot_set m" "slot_of m' = slot_of m" "ring_agrees m' = ring_agrees m"
    using assms(2,3) by (simp_all add: slot_set_def fun_eq_iff slot_of_cong [OF assms(2)] ring_agrees_def)
  show ?thesis using assms unfolding om_inv_def s by (simp add: om_frame_def)
qed

text \<open>A change of one slot that brings in no new reference.\<close>

lemma om_inv_slot_new:
  assumes "om_inv m" and "k \<in> slot_set m" and "slot_ok (f (slot_of m k))"
    and new: "\<And>r. r \<in> refs_of (f (slot_of m k)) \<Longrightarrow> r \<in> refs_of (slot_of m k) \<or>
      r < om_nextUserRef m \<and> ring_agrees m r k \<and> (\<forall>k' \<in> slot_set m. r \<notin> refs_of (slot_of m k'))"
  shows "om_inv (slot_upd k f m)"
proof -
  note d = om_invD [OF assms(1)]
  have s: "slot_set (slot_upd k f m) = slot_set m" "ring_agrees (slot_upd k f m) = ring_agrees m"
    by (simp_all add: slot_set_def ring_agrees_def fun_eq_iff)
  have sl: "slot_of (slot_upd k f m) a = (if a = k then f (slot_of m k) else slot_of m a)" for a by (rule slot_of_upd [OF assms(2)])
  have sep: "a = b" if "a \<in> slot_set m" "b \<in> slot_set m" "r \<in> refs_of (slot_of (slot_upd k f m) a)" "r \<in> refs_of (slot_of (slot_upd k f m) b)" for a b r
    using that new [of r] d(5) [of a b r] d(5) [of k b r] d(5) [of a k r] assms(2) by (auto simp: sl split: if_splits)
  show ?thesis unfolding om_inv_def s
  proof (intro conjI ballI impI)
    show "om_frame (slot_upd k f m)" using d(1) by (simp add: om_frame_def)
    show "slot_ok (slot_of (slot_upd k f m) a)" if "a \<in> slot_set m" for a using d(3) that assms(3) by (simp add: sl)
    show "refs_of (slot_of (slot_upd k f m) a) \<inter> refs_of (slot_of (slot_upd k f m) b) = {}" if "a \<in> slot_set m" "b \<in> slot_set m" "a \<noteq> b" for a b
      using sep [OF that(1,2)] that(3) by blast
  next
    fix a r assume a: "a \<in> slot_set m" and r: "r \<in> refs_of (slot_of (slot_upd k f m) a)"
    have "r < om_nextUserRef m \<and> ring_agrees m r a" using r new [of r] d(4) [OF a, of r] a by (auto simp: sl split: if_splits)
    then show "r < om_nextUserRef (slot_upd k f m)" "ring_agrees m r a" by simp_all
  qed (simp add: d(2))
qed

lemma om_inv_slot_upd:
  "om_inv m \<Longrightarrow> k \<in> slot_set m \<Longrightarrow> slot_ok (f (slot_of m k)) \<Longrightarrow> refs_of (f (slot_of m k)) \<subseteq> refs_of (slot_of m k) \<Longrightarrow> om_inv (slot_upd k f m)"
  by (rule om_inv_slot_new) auto

lemma settle_new: "settle s = QuoteSlot_new"
  by (cases s) (simp add: settle_def QuoteSlot_new_def)

lemma slot_ok_new [simp]: "slot_ok QuoteSlot_new" "refs_of QuoteSlot_new = {}"
  by (simp_all add: slot_ok_def QuoteSlot_new_def refs_of_def)

section \<open>Finding the slot of a reply\<close>

lemma find_unique:
  assumes "\<And>x y. x \<in> set xs \<Longrightarrow> y \<in> set xs \<Longrightarrow> P x \<Longrightarrow> P y \<Longrightarrow> x = y" and "k \<in> set xs" and "P k"
  shows "find P xs = Some k"
proof (cases "find P xs")
  case None
  then show ?thesis using assms(2,3) by (auto simp: find_None_iff)
next
  case (Some x)
  then have "x \<in> set xs" "P x" by (auto simp: find_Some_iff)
  then show ?thesis using assms Some by blast
qed

lemma active_ref: "slot_ok s \<Longrightarrow> active_with r s \<Longrightarrow> r \<in> refs_of s"
  by (auto simp: slot_ok_def active_with_def refs_of_def)

lemma active_unique: "om_inv m \<Longrightarrow> k \<in> slot_set m \<Longrightarrow> k' \<in> slot_set m \<Longrightarrow> active_with r (slot_of m k) \<Longrightarrow> active_with r (slot_of m k') \<Longrightarrow> k = k'"
  by (rule om_invD(5) [of m k k' r]) (auto intro: active_ref om_invD(3))

text \<open>The reference ring is only an accelerator: the hinted lookup is the linear search.\<close>

lemma slotByRef_scan:
  assumes "om_inv m"
  shows "fst (slotByRef r m) = find (\<lambda>k. active_with r (slot_of m k)) (slot_keys m)"
proof (cases "lookupRef r m")
  case None
  then show ?thesis by (simp add: slotByRef_def Let_def)
next
  case (Some k)
  obtain h s where k: "k = (h, s)" by (cases k)
  show ?thesis
  proof (cases "h < length (om_slots m) \<and> active_with r (slot_of m (h, s))")
    case True
    have "find (\<lambda>k. active_with r (slot_of m k)) (slot_keys m) = Some (h, s)"
      using True active_unique [OF assms] by (intro find_unique) (auto simp: slot_set_def)
    then show ?thesis using Some k True by (simp add: slotByRef_def)
  next
    case False
    then show ?thesis using Some k by (auto simp: slotByRef_def Let_def)
  qed
qed

lemma slotByRef_cases:
  obtains (none) "slotByRef r m = (None, m)"
  | (some) k where "slotByRef r m = (Some k, m\<lparr>om_ackSym := int (fst k)\<rparr>)" "k \<in> slot_set m" "active_with r (slot_of m k)"
proof (cases "fst (slotByRef r m)")
  case None
  then have "slotByRef r m = (None, m)" by (auto simp: slotByRef_def Let_def split: option.splits)
  then show thesis by (rule none)
next
  case (Some k)
  then have "slotByRef r m = (Some k, m\<lparr>om_ackSym := int (fst k)\<rparr>)" by (auto simp: slotByRef_def Let_def split: option.splits)
  moreover have "k \<in> slot_set m \<and> active_with r (slot_of m k)"
    using Some set_slot_keys [of m] nth_mem [of _ "slot_keys m"]
    by (fastforce simp: slotByRef_def Let_def find_Some_iff slot_set_def split: option.splits if_splits)
  ultimately show thesis using some by blast
qed

lemma slotByPending_some:
  "slotByPending r m = Some k \<Longrightarrow> k \<in> slot_set m \<and> qs_state (slot_of m k) = PendingReplace \<and> qs_pendingRef (slot_of m k) = r"
  using nth_mem [of _ "slot_keys m"] by (auto simp: slotByPending_def find_Some_iff)

lemma unknownAck_fields [simp, frame_simps]:
  "om_slots (unknownAck t r q m) = om_slots m" "om_nextUserRef (unknownAck t r q m) = om_nextUserRef m" "om_acct (unknownAck t r q m) = om_acct m"
  "om_refs (unknownAck t r q m) = om_refs m" "om_enter (unknownAck t r q m) = om_enter m" "om_ackSym (unknownAck t r q m) = om_ackSym m"
  "length (om_unknownLog (unknownAck t r q m)) = length (om_unknownLog m)" "om_recentAcks (unknownAck t r q m) = om_recentAcks m"
  "om_recentHead (unknownAck t r q m) = om_recentHead m" "om_symbols (unknownAck t r q m) = om_symbols m" "om_replace (unknownAck t r q m) = om_replace m"
  by (simp_all add: unknownAck_def Let_def)

lemma om_inv_unknownAck [simp]: "om_inv m \<Longrightarrow> om_inv (unknownAck t r q m)"
  by (rule om_inv_cong) (auto dest: om_invD(1) simp: om_frame_def)

lemma om_inv_stat_upd [simp]: "om_inv m \<Longrightarrow> om_inv (stat_upd f m)"
  by (rule om_inv_cong) (auto dest: om_invD(1) simp: om_frame_def)

lemma om_inv_ackSym [simp]: "om_inv m \<Longrightarrow> om_inv (m\<lparr>om_ackSym := x\<rparr>)"
  by (rule om_inv_cong) (auto dest: om_invD(1) simp: om_frame_def)

lemma om_inv_acct: "om_inv m \<Longrightarrow> length a = length (om_acct m) \<Longrightarrow> om_inv (m\<lparr>om_acct := a\<rparr>)"
  by (rule om_inv_cong) (auto dest: om_invD(1) simp: om_frame_def)

lemma om_inv_curAck [simp]: "om_inv m \<Longrightarrow> om_inv (m\<lparr>om_curAck := x\<rparr>)"
  by (rule om_inv_cong) (auto dest: om_invD(1) simp: om_frame_def)

lemma om_inv_note_recent [simp]: "om_inv m \<Longrightarrow> om_inv (note_recent bs m)"
  by (rule om_inv_cong [of m]) (auto dest: om_invD(1) simp: om_frame_def note_recent_def Let_def)

section \<open>Every reply keeps the invariant\<close>

text \<open>A change of a slot that keeps it well formed and brings in no reference.\<close>

definition slot_safe :: "(QuoteSlot \<Rightarrow> QuoteSlot) \<Rightarrow> QuoteSlot \<Rightarrow> bool" where
  "slot_safe f s \<longleftrightarrow> slot_ok (f s) \<and> refs_of (f s) \<subseteq> refs_of s"

lemma om_inv_slot_safe: "om_inv m \<Longrightarrow> k \<in> slot_set m \<Longrightarrow> slot_safe f (slot_of m k) \<Longrightarrow> om_inv (slot_upd k f m)"
  by (rule om_inv_slot_upd) (simp_all add: slot_safe_def)

lemma slot_safe_settle [simp]: "slot_safe (\<lambda>s. settle (g s)) s"
  by (simp add: slot_safe_def settle_new)

lemma slot_safe_leaves: "slot_ok s \<Longrightarrow> qs_state s \<noteq> Idle \<Longrightarrow> slot_ok (s\<lparr>qs_leaves := x\<rparr>) \<and> slot_ok (s\<lparr>qs_qty := y, qs_leaves := x\<rparr>)"
  by (simp add: slot_ok_def)

lemma resume_ok: "slot_ok (s\<lparr>qs_state := Live\<rparr>) \<Longrightarrow> slot_ok (resume s) \<and> refs_of (resume s) \<subseteq> refs_of s"
  by (simp add: resume_def settle_new) (simp add: refs_of_def)

lemma active_state: "active_with r s \<Longrightarrow> qs_state s \<noteq> Idle"
  by (simp add: active_with_def)

lemma onAccepted_inv: "om_inv m \<Longrightarrow> om_inv (onAccepted a m)"
proof -
  assume i: "om_inv m"
  show ?thesis
  proof (cases rule: slotByRef_cases [of "ac_userRefNum a" m])
    case none
    then show ?thesis using i by (simp add: onAccepted_def)
  next
    case (some k)
    let ?m = "m\<lparr>om_ackSym := int (fst k)\<rparr>"
    have s: "slot_set ?m = slot_set m" "slot_of ?m k = slot_of m k" by (simp_all add: slot_set_def slot_of_cong [of ?m m])
    have ok: "slot_ok (slot_of m k)" using om_invD(3) [OF i some(2)] .
    let ?n = "stat_upd (\<lambda>x. x\<lparr>sx_accepts := sx_accepts x + 1\<rparr>) ?m"
    have sn: "k \<in> slot_set ?n" "slot_of ?n k = slot_of m k" using some(2) by (simp_all add: slot_set_def slot_of_cong [of ?n m])
    have "om_inv (slot_upd k f ?n)" if "slot_safe f (slot_of m k)" for f
      using i that sn by (intro om_inv_slot_safe) simp_all
    moreover have "slot_safe (\<lambda>s. s\<lparr>qs_qty := ac_quantity a, qs_leaves := ac_quantity a, qs_state := Live\<rparr>) (slot_of m k)"
      if "qs_state (slot_of m k) = PendingNew" using ok that by (simp add: slot_safe_def slot_ok_def refs_of_def)
    ultimately show ?thesis using i some(1) sn s by (simp add: onAccepted_def Let_def slot_upd_twice)
  qed
qed

lemma onReplaced_inv: "om_inv m \<Longrightarrow> om_inv (onReplaced a m)"
proof (cases "slotByPending (rp_userRefNum a) m")
  case None
  moreover assume "om_inv m"
  ultimately show ?thesis by (simp add: onReplaced_def)
next
  case (Some k)
  assume i: "om_inv m"
  note p = slotByPending_some [OF Some]
  let ?n = "stat_upd (\<lambda>x. x\<lparr>sx_accepts := sx_accepts x + 1\<rparr>) m"
  have sn: "k \<in> slot_set ?n" "slot_of ?n k = slot_of m k" using p by (simp_all add: slot_set_def slot_of_cong [of ?n m])
  have ok: "slot_ok (slot_of m k)" using om_invD(3) [OF i] p by blast
  have "om_inv (slot_upd k f ?n)" if "slot_safe f (slot_of m k)" for f
    using i that sn by (intro om_inv_slot_safe) simp_all
  moreover have "slot_safe (\<lambda>s. s\<lparr>qs_userRef := rp_userRefNum a, qs_pendingRef := 0, qs_price := wire_to_price (rp_price a),
      qs_qty := rp_quantity a, qs_leaves := rp_quantity a, qs_state := Live\<rparr>) (slot_of m k)"
    using ok p by (auto simp: slot_safe_def slot_ok_def refs_of_def)
  ultimately show ?thesis using Some sn by (simp add: onReplaced_def Let_def slot_upd_twice)
qed

lemma onExecuted_inv: "om_inv m \<Longrightarrow> om_inv (onExecuted e m)"
proof -
  assume i: "om_inv m"
  show ?thesis
  proof (cases rule: slotByRef_cases [of "ex_userRefNum e" m])
    case none
    then show ?thesis using i by (simp add: onExecuted_def)
  next
    case (some k)
    have ok: "slot_ok (slot_of m k)" "qs_state (slot_of m k) \<noteq> Idle" using om_invD(3) [OF i some(2)] active_state [OF some(3)] by auto
    have "om_inv (slot_upd k f n)" if "slot_safe f (slot_of m k)" "om_slots n = om_slots m" "om_inv n" for f n
      using that some(2) by (intro om_inv_slot_safe) (simp_all add: slot_set_def slot_of_cong [of n m])
    moreover have "slot_safe (\<lambda>s. let s1 = s\<lparr>qs_leaves := sub_leaves (ex_quantity e) (qs_leaves s)\<rparr>
        in if qs_leaves s1 = 0 \<and> qs_state s1 = Live then settle s1 else s1) (slot_of m k)"
      using ok slot_safe_leaves [OF ok] by (auto simp: slot_safe_def Let_def settle_new refs_of_def QuoteSlot_new_def slot_ok_def)
    ultimately show ?thesis using i some(1) om_inv_acct by (cases k) (simp add: onExecuted_def Let_def)
  qed
qed

lemma onCanceled_inv: "om_inv m \<Longrightarrow> om_inv (onCanceled c m)"
proof -
  assume i: "om_inv m"
  show ?thesis
  proof (cases rule: slotByRef_cases [of "ca_userRefNum c" m])
    case none
    then show ?thesis using i by (simp add: onCanceled_def)
  next
    case (some k)
    let ?m = "m\<lparr>om_ackSym := int (fst k)\<rparr>"
    have ok: "slot_ok (slot_of m k)" "qs_state (slot_of m k) \<noteq> Idle" using om_invD(3) [OF i some(2)] active_state [OF some(3)] by auto
    have "om_inv (slot_upd k f ?m)" if "slot_safe f (slot_of m k)" for f
      using i that some(2) by (intro om_inv_slot_safe) (simp_all add: slot_set_def slot_of_cong [of ?m m])
    moreover have "slot_safe (\<lambda>s. let s1 = s\<lparr>qs_leaves := sub_leaves (ca_quantity c) (qs_leaves s)\<rparr>
        in if qs_leaves s1 = 0 \<or> qs_state s1 = PendingCancel then settle (s1\<lparr>qs_leaves := 0\<rparr>)
           else if qs_state s1 = PendingNew then s1\<lparr>qs_state := Live\<rparr> else s1) (slot_of m k)"
      using ok by (auto simp: slot_safe_def Let_def settle_new refs_of_def slot_ok_def QuoteSlot_new_def)
    ultimately show ?thesis using i some(1) by (simp add: onCanceled_def Let_def)
  qed
qed

lemma onRejected_inv: "om_inv m \<Longrightarrow> om_inv (onRejected r m)"
proof -
  assume i: "om_inv m"
  let ?n = "stat_upd (\<lambda>x. count_reject (rj_reason r) (x\<lparr>sx_rejects := sx_rejects x + 1\<rparr>)) m"
  have n: "om_inv ?n" using i by simp
  show ?thesis
  proof (cases "slotByPending (rj_userRefNum r) ?n")
    case (Some k)
    note p = slotByPending_some [OF Some]
    have "slot_ok (slot_of ?n k)" using om_invD(3) [OF n] p by blast
    then have "slot_safe (\<lambda>s. resume (s\<lparr>qs_pendingRef := 0\<rparr>)) (slot_of ?n k)"
      using resume_ok [of "(slot_of ?n k)\<lparr>qs_pendingRef := 0\<rparr>"] p by (auto simp: slot_safe_def slot_ok_def refs_of_def)
    then have "om_inv (slot_upd k (\<lambda>s. resume (s\<lparr>qs_pendingRef := 0\<rparr>)) ?n)" using n p by (intro om_inv_slot_safe) simp_all
    then show ?thesis using i Some by (simp add: onRejected_def Let_def)
  next
    case None
    show ?thesis
    proof (cases rule: slotByRef_cases [of "rj_userRefNum r" ?n])
      case none
      then show ?thesis using i None by (simp add: onRejected_def Let_def)
    next
      case (some k)
      have "om_inv (slot_upd k (\<lambda>s. settle (s\<lparr>qs_leaves := 0\<rparr>)) (?n\<lparr>om_ackSym := int (fst k)\<rparr>))"
        using n some(2) by (intro om_inv_slot_safe) (simp_all add: slot_set_def)
      then show ?thesis using i None some(1) by (simp add: onRejected_def Let_def)
    qed
  qed
qed

lemma onCancelReject_inv: "om_inv m \<Longrightarrow> om_inv (onCancelReject c m)"
proof -
  assume i: "om_inv m"
  show ?thesis
  proof (cases rule: slotByRef_cases [of "cj_userRefNum c" m])
    case none
    then show ?thesis using i by (simp add: onCancelReject_def)
  next
    case (some k)
    let ?m = "m\<lparr>om_ackSym := int (fst k)\<rparr>"
    have ok: "slot_ok (slot_of m k)" using om_invD(3) [OF i some(2)] .
    have s: "slot_of ?m k = slot_of m k" by (simp add: slot_of_cong [of ?m m])
    have "om_inv (slot_upd k resume ?m)" if "qs_state (slot_of m k) = PendingCancel"
    proof (rule om_inv_slot_safe)
      show "slot_safe resume (slot_of ?m k)"
        using resume_ok [of "slot_of m k"] ok that by (auto simp: slot_safe_def slot_ok_def s)
    qed (use i some(2) in \<open>simp_all add: slot_set_def\<close>)
    then show ?thesis using i some(1) by (simp add: onCancelReject_def Let_def s)
  qed
qed

lemmas handlers_inv = onAccepted_inv onReplaced_inv onExecuted_inv onCanceled_inv onRejected_inv onCancelReject_inv

lemma dispatch_inv: "om_inv m \<Longrightarrow> om_inv (dispatch bs m)"
  by (auto simp: dispatch_def Let_def handle_read_def handlers_inv split: option.splits)

lemma onAck_inv: "om_inv m \<Longrightarrow> om_inv (snd (onAck bs m))"
  by (simp add: onAck_def Let_def dispatch_inv)

section \<open>Allocating references and reconciling\<close>

lemma ring_index_and: "unat (r AND 0xfff) = ring_index r" for r :: u32
proof -
  have "r AND 0xfff = take_bit 12 r" by (simp add: take_bit_eq_mask mask_eq_exp_minus_1)
  then show ?thesis by (simp add: ring_index_def kRefRing_def take_bit_eq_mod unat_mod_distrib)
qed

lemma allocRef_inv:
  assumes "om_inv m" and "om_nextUserRef m \<noteq> - 1" and "allocRef v side m = (r, m1)"
  shows "om_inv m1" and "r \<noteq> 0" and "r = om_nextUserRef m" and "om_nextUserRef m1 = r + 1" and "r < om_nextUserRef m1"
    and "k \<in> slot_set m \<Longrightarrow> r \<notin> refs_of (slot_of m k)" and "om_slots m1 = om_slots m"
    and "om_refs m1 (ring_index r) = \<lparr>rs_userRef = r, rs_sym = v, rs_side = side\<rparr>"
proof -
  note d = om_invD [OF assms(1)]
  have r: "r = om_nextUserRef m" and m1: "m1 = m\<lparr>om_nextUserRef := r + 1, om_refs := (om_refs m)(ring_index r := \<lparr>rs_userRef = r, rs_sym = v, rs_side = side\<rparr>)\<rparr>"
    using assms(2,3) by (auto simp: allocRef_def Let_def ring_index_and eq_neg_iff_add_eq_0)
  have "1 + r \<noteq> 0" using assms(2) r by (metis eq_neg_iff_add_eq_0 add.commute)
  then have lt: "r < r + 1" using unatSuc [of r] by (simp add: word_less_nat_alt add.commute)
  show "r \<noteq> 0" "r = om_nextUserRef m" using d(2) r by simp_all
  show "om_nextUserRef m1 = r + 1" "om_slots m1 = om_slots m" "r < om_nextUserRef m1"
    "om_refs m1 (ring_index r) = \<lparr>rs_userRef = r, rs_sym = v, rs_side = side\<rparr>" using m1 lt by simp_all
  show fresh: "r \<notin> refs_of (slot_of m k)" if "k \<in> slot_set m" for k using d(4) [OF that, of r] r by auto
  have s: "slot_set m1 = slot_set m" "slot_of m1 = slot_of m" using slot_of_cong [of m1 m] by (auto simp: slot_set_def m1)
  have "ring_agrees m1 x k" if "k \<in> slot_set m" "x \<in> refs_of (slot_of m k)" for x k
  proof -
    have "x \<noteq> r" using fresh [OF that(1)] that(2) by auto
    then show ?thesis using d(4) [OF that] by (auto simp: ring_agrees_def m1 Let_def)
  qed
  moreover have "x < r + 1" if "k \<in> slot_set m" "x \<in> refs_of (slot_of m k)" for x k
    using d(4) [OF that] r lt by (metis order_less_trans)
  moreover have "r + 1 \<noteq> 0" using lt by auto
  ultimately show "om_inv m1" unfolding om_inv_def s using d by (auto simp: om_frame_def m1 dest: d(5))
qed

lemma reconcileSlot_cases [consumes 1, case_names quiet enter cancel replace]:
  assumes "reconcileSlot s sy side want price qty m out = (n, s', m', out')"
  obtains (quiet) g where "n = 0" "s' = s" "m' = stat_upd g m" "out' = out"
  | (enter) r m1 g where "qs_state s = Idle" "want" "qty \<noteq> 0" "allocRef (of_nat sy) side m = (r, m1)" "n = 1" "m' = stat_upd g m1"
      "s' = s\<lparr>qs_state := PendingNew, qs_userRef := r, qs_pendingRef := 0, qs_price := price, qs_qty := qty, qs_leaves := qty\<rparr>"
      "out' = encodeEnter sy r side price qty m1 out"
  | (cancel) g where "qs_state s = Live" "\<not> want \<or> qty = 0" "n = 1" "m' = stat_upd g m" "s' = s\<lparr>qs_state := PendingCancel\<rparr>" "out' = encodeCancel (qs_userRef s) out"
  | (replace) r m1 g where "qs_state s = Live" "want" "qty \<noteq> 0" "price \<noteq> qs_price s \<or> qty \<noteq> qs_leaves s" "allocRef (of_nat sy) side m = (r, m1)" "n = 1"
      "m' = stat_upd g m1" "s' = s\<lparr>qs_state := PendingReplace, qs_pendingRef := r\<rparr>" "out' = encodeReplace (qs_userRef s) r price qty m1 out"
proof -
  have id: "m = stat_upd (\<lambda>x. x) m" by (simp add: stat_upd_def)
  obtain r m1 where al: "allocRef (of_nat sy) side m = (r, m1)" by (metis surj_pair)
  note eq = assms [unfolded reconcileSlot_def Let_def al prod.case]
  show thesis
  proof (cases "qs_state s")
    case Idle
    then show ?thesis using eq id al by (cases "want \<and> qty \<noteq> 0") (auto intro: quiet enter)
  next
    case Live
    consider "\<not> (want \<and> qty \<noteq> 0)" | "want \<and> qty \<noteq> 0" "price = qs_price s \<and> qty = qs_leaves s"
      | "want \<and> qty \<noteq> 0" "\<not> (price = qs_price s \<and> qty = qs_leaves s)" by blast
    then show ?thesis using eq Live al by cases (auto intro: quiet cancel replace)
  qed (use eq in \<open>auto intro: quiet\<close>)
qed

lemma reconcileSlot_inv:
  assumes "om_inv m" and "om_nextUserRef m \<noteq> - 1" and "(sy, side) \<in> slot_set m"
    and "reconcileSlot (slot_of m (sy, side)) sy side want price qty m out = (n, s', m', out')"
  shows "om_inv (slot_upd (sy, side) (\<lambda>_. s') m')"
proof -
  let ?k = "(sy, side)" and ?s = "slot_of m (sy, side)"
  have ok: "slot_ok ?s" using om_invD(3) [OF assms(1,3)] .
  have sy: "unat (of_nat sy :: u16) = sy" using assms(3) om_invD(1) [OF assms(1)] by (simp add: slot_set_def om_frame_def unat_of_nat)
  have keep: "om_inv (slot_upd ?k (\<lambda>_. x) (stat_upd g m))" if "slot_ok x" "refs_of x \<subseteq> refs_of ?s" for x g
    using that assms(1,3) by (intro om_inv_slot_upd) (simp_all add: slot_set_def slot_of_cong [of "stat_upd g m" m])
  have new: "om_inv (slot_upd ?k (\<lambda>_. x) (stat_upd g m1))"
    if al: "allocRef (of_nat sy) side m = (r, m1)" and x: "slot_ok x" "refs_of x \<subseteq> insert r (refs_of ?s)" for x g r m1
  proof (rule om_inv_slot_new)
    note a = allocRef_inv [OF assms(1,2) al]
    have sl: "slot_of (stat_upd g m1) = slot_of m" "slot_set (stat_upd g m1) = slot_set m"
      by (simp_all add: fun_eq_iff slot_set_def a(7) slot_of_cong [of "stat_upd g m1" m])
    show "om_inv (stat_upd g m1)" "?k \<in> slot_set (stat_upd g m1)" "slot_ok x" using a(1) assms(3) x(1) sl by simp_all
    fix y assume "y \<in> refs_of x"
    then show "y \<in> refs_of (slot_of (stat_upd g m1) ?k) \<or> y < om_nextUserRef (stat_upd g m1) \<and> ring_agrees (stat_upd g m1) y ?k \<and>
      (\<forall>k' \<in> slot_set (stat_upd g m1). y \<notin> refs_of (slot_of (stat_upd g m1) k'))"
      using x(2) a(5,6,8) sl sy by (auto simp: ring_agrees_def)
  qed
  show ?thesis using assms(4)
  proof (cases rule: reconcileSlot_cases)
    case (quiet g)
    then show ?thesis using keep [of ?s g] ok by simp
  next
    case (cancel g)
    then show ?thesis using keep [of s' g] ok by (simp add: slot_ok_def refs_of_def)
  next
    case (enter r m1 g)
    then show ?thesis using new [OF enter(4), of s' g] allocRef_inv(2) [OF assms(1,2) enter(4)] by (auto simp: slot_ok_def refs_of_def)
  next
    case (replace r m1 g)
    note a = allocRef_inv [OF assms(1,2) replace(5)]
    have "r \<noteq> qs_userRef ?s" using a(6) [OF assms(3)] a(2) by (auto simp: refs_of_def)
    then show ?thesis using new [OF replace(5), of s' g] replace ok a(2) by (auto simp: slot_ok_def refs_of_def)
  qed
qed

lemma reconcileSide_inv:
  assumes "om_inv m" and "om_nextUserRef m \<noteq> - 1" and "(sy, side) \<in> slot_set m" and "reconcileSide sy side want price qty m out = (n, m', out')"
  shows "om_inv m'" and "length (om_slots m') = length (om_slots m)" and "om_nextUserRef m' \<in> {om_nextUserRef m, om_nextUserRef m + 1}"
proof -
  obtain s' m1 where r: "reconcileSlot (slot_of m (sy, side)) sy side want price qty m out = (n, s', m1, out')" and m': "m' = slot_upd (sy, side) (\<lambda>_. s') m1"
    using assms(4) by (auto simp: reconcileSide_def split: prod.splits)
  show "om_inv m'" using reconcileSlot_inv [OF assms(1-3) r] m' by simp
  from r have "length (om_slots m1) = length (om_slots m) \<and> om_nextUserRef m1 \<in> {om_nextUserRef m, om_nextUserRef m + 1}"
  proof (cases rule: reconcileSlot_cases)
    case (enter x m2 g)
    then show ?thesis using allocRef_inv(3,4,7) [OF assms(1,2) enter(4)] by simp
  next
    case (replace x m2 g)
    then show ?thesis using allocRef_inv(3,4,7) [OF assms(1,2) replace(5)] by simp
  qed auto
  then show "length (om_slots m') = length (om_slots m)" "om_nextUserRef m' \<in> {om_nextUserRef m, om_nextUserRef m + 1}" using m' by auto
qed

text \<open>Two more references can be handed out before the counter wraps.\<close>

definition refs_left :: "OrderManager \<Rightarrow> bool" where
  "refs_left m \<longleftrightarrow> om_nextUserRef m \<noteq> - 1 \<and> om_nextUserRef m + 1 \<noteq> - 1"

lemma reconcile_two_inv:
  assumes "om_inv m" and "refs_left m" and "sy < length (om_slots m)" and "reconcile_two sy (a, wa, pa, qa) (b, wb, pb, qb) m outs = (n, m', outs')"
  shows "om_inv m' \<and> length (om_slots m') = length (om_slots m)"
proof -
  obtain n1 m1 o1 where r1: "reconcileSide sy a wa pa qa m (outs ! 0) = (n1, m1, o1)" by (metis prod_cases3)
  obtain n2 m2 o2 where r2: "reconcileSide sy b wb pb qb m1 (outs[0 := o1] ! n1) = (n2, m2, o2)" by (metis prod_cases3)
  have m': "m' = m2" using assms(4) r1 r2 by (simp add: reconcile_two_def)
  have k: "(sy, a) \<in> slot_set m" "(sy, b) \<in> slot_set m" using assms(3) by (simp_all add: slot_set_def)
  have n: "om_nextUserRef m \<noteq> - 1" using assms(2) by (simp add: refs_left_def)
  note i1 = reconcileSide_inv [OF assms(1) n k(1) r1]
  have "om_nextUserRef m1 \<noteq> - 1" using i1(3) assms(2) by (auto simp: refs_left_def)
  then have "om_inv m2" "length (om_slots m2) = length (om_slots m1)"
    using reconcileSide_inv [OF i1(1) _ _ r2] k(2) i1(2) by (auto simp: slot_set_def)
  then show ?thesis using i1(2) m' by simp
qed

lemma reconcile_inv:
  assumes "om_inv m" and "refs_left m" and "sy < length (om_slots m)" and "reconcile sy t m outs = (n, m', outs')"
  shows "om_inv m'"
  using assms reconcile_two_inv [OF assms(1-3)] by (auto simp: reconcile_def Let_def split: if_splits)

lemma encodeTestOrder_inv: "om_inv m \<Longrightarrow> om_nextUserRef m \<noteq> - 1 \<Longrightarrow> om_inv (fst (encodeTestOrder m out))"
  using allocRef_inv(1) [of m kTestSym Buy] by (auto simp: encodeTestOrder_def split: prod.splits)

lemma new_inv:
  assumes "length symbols < 65535"
  shows "om_inv (OrderManager_new symbols f)"
proof -
  let ?m = "OrderManager_new symbols f"
  have "slot_of ?m k = QuoteSlot_new" if "k \<in> slot_set ?m" for k
    using that by (cases "snd k") (auto simp: slot_set_def slot_of_def OrderManager_new_def Let_def)
  moreover have "om_frame ?m" using assms by (auto simp: om_frame_def OrderManager_new_def Let_def)
  ultimately show ?thesis by (auto simp: om_inv_def OrderManager_new_def Let_def)
qed

section \<open>Properties\<close>

text \<open>Every state of the manager: quotes reconciled, test orders sent, and replies of any bytes.\<close>

inductive om_reach :: "byte list list \<Rightarrow> u32 \<Rightarrow> OrderManager \<Rightarrow> bool" for symbols f where
  new: "om_reach symbols f (OrderManager_new symbols f)"
| reconcile: "om_reach symbols f m \<Longrightarrow> refs_left m \<Longrightarrow> sy < length (om_slots m) \<Longrightarrow> reconcile sy t m outs = (n, m', outs') \<Longrightarrow> om_reach symbols f m'"
| ack: "om_reach symbols f m \<Longrightarrow> onAck bs m = (i, m') \<Longrightarrow> om_reach symbols f m'"
| test: "om_reach symbols f m \<Longrightarrow> om_nextUserRef m \<noteq> - 1 \<Longrightarrow> encodeTestOrder m out = (m', out') \<Longrightarrow> om_reach symbols f m'"

lemma om_reach_inv: "om_reach symbols f m \<Longrightarrow> length symbols < 65535 \<Longrightarrow> om_inv m"
proof (induction rule: om_reach.induct)
  case new
  then show ?case by (rule new_inv)
next
  case (reconcile m sy t outs n m' outs')
  then show ?case using reconcile_inv by blast
next
  case (ack m bs i m')
  then show ?case using onAck_inv [of m bs] by simp
next
  case (test m out m' out')
  then show ?case using encodeTestOrder_inv [of m out] by simp
qed



text \<open>
  The reference ring never changes an answer: in every reachable state the lookup that first tries the
  ring returns the slot the search through all slots finds, for every reference, also after ring entries
  were overwritten.
\<close>

theorem OrderManager_ring_is_transparent:
  assumes "om_reach symbols f m" and "length symbols < 65535"
  shows "fst (slotByRef r m) = find (\<lambda>k. active_with r (slot_of m k)) (slot_keys m)"
  by (rule slotByRef_scan [OF om_reach_inv [OF assms]])

theorem OrderManager_ring_is_transparent_witness:
  "fst (slotByRef 7 (OrderManager_new [[0x41]] 5)) = find (\<lambda>k. active_with 7 (slot_of (OrderManager_new [[0x41]] 5) k)) (slot_keys (OrderManager_new [[0x41]] 5))"
  by (rule OrderManager_ring_is_transparent [OF om_reach.new]) simp

definition pending :: "QuoteState \<Rightarrow> bool" where
  "pending q \<longleftrightarrow> q = PendingNew \<or> q = PendingReplace \<or> q = PendingCancel"

text \<open>The number of requests a step of a slot stands for.\<close>

definition moved :: "QuoteSlot \<Rightarrow> QuoteSlot \<Rightarrow> nat" where
  "moved s s' = (if s' = s then 0 else 1)"

lemma reconcileSlot_moved:
  assumes "reconcileSlot s sy side want price qty m out = (n, s', m', out')"
  shows "n = moved s s'" and "s' \<noteq> s \<Longrightarrow> \<not> pending (qs_state s) \<and> pending (qs_state s')" and "s' = s \<Longrightarrow> out' = out" and "om_slots m' = om_slots m"
proof -
  from assms have "n = moved s s' \<and> (s' \<noteq> s \<longrightarrow> \<not> pending (qs_state s) \<and> pending (qs_state s')) \<and> (s' = s \<longrightarrow> out' = out) \<and> om_slots m' = om_slots m"
  proof (cases rule: reconcileSlot_cases)
    case (enter r m1 g)
    have "qs_state s' \<noteq> qs_state s" using enter(1,7) by simp
    then have "s' \<noteq> s" by auto
    then show ?thesis using enter by (auto simp: moved_def pending_def allocRef_def Let_def)
  next
    case (cancel g)
    have "qs_state s' \<noteq> qs_state s" using cancel(1,5) by simp
    then have "s' \<noteq> s" by auto
    then show ?thesis using cancel by (auto simp: moved_def pending_def)
  next
    case (replace r m1 g)
    have "qs_state s' \<noteq> qs_state s" using replace(1,8) by simp
    then have "s' \<noteq> s" by auto
    then show ?thesis using replace by (auto simp: moved_def pending_def allocRef_def Let_def)
  qed (auto simp: moved_def)
  then show "n = moved s s'" "s' \<noteq> s \<Longrightarrow> \<not> pending (qs_state s) \<and> pending (qs_state s')" "s' = s \<Longrightarrow> out' = out" "om_slots m' = om_slots m" by auto
qed

lemma reconcileSide_moved:
  assumes "(sy, side) \<in> slot_set m" and "reconcileSide sy side want price qty m out = (n, m', out')"
  shows "n = moved (slot_of m (sy, side)) (slot_of m' (sy, side))" and "k \<noteq> (sy, side) \<Longrightarrow> slot_of m' k = slot_of m k"
    and "slot_of m' (sy, side) \<noteq> slot_of m (sy, side) \<Longrightarrow> \<not> pending (qs_state (slot_of m (sy, side))) \<and> pending (qs_state (slot_of m' (sy, side)))"
    and "slot_set m' = slot_set m"
proof -
  obtain s' m1 where r: "reconcileSlot (slot_of m (sy, side)) sy side want price qty m out = (n, s', m1, out')" and m': "m' = slot_upd (sy, side) (\<lambda>_. s') m1"
    using assms(2) by (auto simp: reconcileSide_def split: prod.splits)
  note v = reconcileSlot_moved [OF r]
  have k: "(sy, side) \<in> slot_set m1" using assms(1) v(4) by (simp add: slot_set_def)
  have s: "slot_of m' k' = (if k' = (sy, side) then s' else slot_of m k')" for k'
    using slot_of_upd [OF k, of "\<lambda>_. s'"] slot_of_cong [OF v(4)] m' by simp
  show "n = moved (slot_of m (sy, side)) (slot_of m' (sy, side))" "k \<noteq> (sy, side) \<Longrightarrow> slot_of m' k = slot_of m k"
    "slot_of m' (sy, side) \<noteq> slot_of m (sy, side) \<Longrightarrow> \<not> pending (qs_state (slot_of m (sy, side))) \<and> pending (qs_state (slot_of m' (sy, side)))"
    using v(1,2) by (auto simp: s)
  show "slot_set m' = slot_set m" using m' v(4) by (simp add: slot_set_def)
qed

text \<open>
  C23. At most one request per side is in flight: a reconcile writes exactly one request for each of the two
  slots of the symbol that it changes and no other, a slot it changes was free or resting before and
  waits for a reply afterwards, and no slot of another symbol changes; so a slot that waits for a
  reply is left alone and nothing is sent for it.
\<close>

theorem OrderManager_one_request_in_flight:
  assumes "sy < length (om_slots m)" and "reconcile sy t m outs = (n, m', outs')"
  shows "n = moved (slot_of m (sy, Buy)) (slot_of m' (sy, Buy)) + moved (slot_of m (sy, Sell)) (slot_of m' (sy, Sell)) \<and>
    (slot_of m' k \<noteq> slot_of m k \<longrightarrow> fst k = sy \<and> \<not> pending (qs_state (slot_of m k)) \<and> pending (qs_state (slot_of m' k)))"
proof -
  have two: "n = moved (slot_of m (sy, a)) (slot_of m' (sy, a)) + moved (slot_of m (sy, b)) (slot_of m' (sy, b)) \<and>
    (slot_of m' k \<noteq> slot_of m k \<longrightarrow> fst k = sy \<and> \<not> pending (qs_state (slot_of m k)) \<and> pending (qs_state (slot_of m' k)))"
    if ab: "a \<noteq> b" and r: "reconcile_two sy (a, wa, pa, qa) (b, wb, pb, qb) m outs = (n, m', outs')" for a b wa wb pa pb qa qb
  proof -
    obtain n1 m1 o1 where r1: "reconcileSide sy a wa pa qa m (outs ! 0) = (n1, m1, o1)" by (metis prod_cases3)
    obtain n2 m2 o2 where r2: "reconcileSide sy b wb pb qb m1 (outs[0 := o1] ! n1) = (n2, m2, o2)" by (metis prod_cases3)
    have e: "m' = m2" "n = n1 + n2" using r r1 r2 by (simp_all add: reconcile_two_def)
    have ka: "(sy, a) \<in> slot_set m" using assms(1) by (simp add: slot_set_def)
    note v1 = reconcileSide_moved [OF ka r1]
    have kb: "(sy, b) \<in> slot_set m1" using assms(1) v1(4) by (simp add: slot_set_def)
    note v2 = reconcileSide_moved [OF kb r2]
    have sa: "slot_of m' (sy, a) = slot_of m1 (sy, a)" and sb: "slot_of m1 (sy, b) = slot_of m (sy, b)" using v1(2) v2(2) ab e by auto
    show ?thesis
    proof (cases "k = (sy, a) \<or> k = (sy, b)")
      case True
      then show ?thesis using v1(1,3) v2(1,3) e sa sb by auto
    next
      case False
      then show ?thesis using v1(1) v2(1) v1(2) [of k] v2(2) [of k] e sa sb by simp
    qed
  qed
  show ?thesis
    using assms(2) two [of Buy Sell "qt_quoteBid t" "qt_bidPrice t" "qt_bidQty t" "qt_quoteAsk t" "qt_askPrice t" "qt_askQty t"]
      two [of Sell Buy "qt_quoteAsk t" "qt_askPrice t" "qt_askQty t" "qt_quoteBid t" "qt_bidPrice t" "qt_bidQty t"]
    by (auto simp: reconcile_def Let_def split: if_splits)
qed

theorem OrderManager_one_request_in_flight_witness:
  "\<exists>n m outs. reconcile 0 \<lparr>qt_quoteBid = True, qt_bidPrice = 99, qt_bidQty = 10, qt_quoteAsk = False, qt_askPrice = 0, qt_askQty = 0\<rparr>
      (OrderManager_new [[0x41]] 5) [Outbound_new, Outbound_new] = (n, m, outs) \<and>
    n = moved QuoteSlot_new (slot_of m (0, Buy)) + moved QuoteSlot_new (slot_of m (0, Sell))"
proof -
  let ?t = "\<lparr>qt_quoteBid = True, qt_bidPrice = 99, qt_bidQty = 10, qt_quoteAsk = False, qt_askPrice = 0, qt_askQty = 0\<rparr>"
  obtain n m outs where r: "reconcile 0 ?t (OrderManager_new [[0x41]] 5) [Outbound_new, Outbound_new] = (n, m, outs)" by (metis prod_cases3)
  have l: "0 < length (om_slots (OrderManager_new [[0x41]] 5))" by (simp add: OrderManager_new_def)
  have s: "slot_of (OrderManager_new [[0x41]] 5) (0, side) = QuoteSlot_new" for side by (cases side) (simp_all add: slot_of_def OrderManager_new_def)
  show ?thesis using OrderManager_one_request_in_flight [OF l r, of "(0, Buy)"] r by (auto simp: s)
qed

section \<open>Positions\<close>

text \<open>What a reply reports as filled, by a search that knows nothing of the ring: the symbol and the signed quantity.\<close>

definition fill_of :: "byte list \<Rightarrow> OrderManager \<Rightarrow> (nat \<times> 64 word) option" where
  "fill_of bs m =
     (if bs \<noteq> [] \<and> bs ! 0 = OutType_code Out_Executed \<and> sizeof_Executed \<le> length bs then
        let e = dec_Executed bs; d = ucast (ex_quantity e)
        in map_option (\<lambda>(sy, side). (sy, case side of Buy \<Rightarrow> d | Sell \<Rightarrow> - d))
             (find (\<lambda>k. active_with (ex_userRefNum e) (slot_of m k)) (slot_keys m))
      else None)"

lemma slotByRef_acct: "om_acct (snd (slotByRef r m)) = om_acct m"
  by (cases rule: slotByRef_cases [of r m]) simp_all

lemma handlers_acct [simp]:
  "om_acct (onAccepted a m) = om_acct m" "om_acct (onReplaced b m) = om_acct m" "om_acct (onCanceled c m) = om_acct m"
  "om_acct (onRejected d m) = om_acct m" "om_acct (onCancelReject e m) = om_acct m"
proof -
  show "om_acct (onAccepted a m) = om_acct m"
    by (cases rule: slotByRef_cases [of "ac_userRefNum a" m]) (auto simp: onAccepted_def Let_def)
  show "om_acct (onReplaced b m) = om_acct m" by (auto simp: onReplaced_def Let_def split: option.splits)
  show "om_acct (onCanceled c m) = om_acct m"
    by (cases rule: slotByRef_cases [of "ca_userRefNum c" m]) (auto simp: onCanceled_def Let_def)
  show "om_acct (onCancelReject e m) = om_acct m"
    by (cases rule: slotByRef_cases [of "cj_userRefNum e" m]) (auto simp: onCancelReject_def Let_def)
  let ?n = "stat_upd (\<lambda>x. count_reject (rj_reason d) (x\<lparr>sx_rejects := sx_rejects x + 1\<rparr>)) m"
  show "om_acct (onRejected d m) = om_acct m"
    by (cases rule: slotByRef_cases [of "rj_userRefNum d" ?n]) (auto simp: onRejected_def Let_def split: option.splits)
qed

lemma onExecuted_acct:
  assumes "om_inv m" and "k = find (\<lambda>k. active_with (ex_userRefNum e) (slot_of m k)) (slot_keys m)"
  shows "om_acct (onExecuted e m) = (case k of None \<Rightarrow> om_acct m
    | Some (sy, side) \<Rightarrow> (om_acct m)[sy := om_acct m ! sy + (case side of Buy \<Rightarrow> ucast (ex_quantity e) | Sell \<Rightarrow> - ucast (ex_quantity e))])"
proof (cases rule: slotByRef_cases [of "ex_userRefNum e" m])
  case none
  then show ?thesis using slotByRef_scan [OF assms(1), of "ex_userRefNum e"] assms(2) by (simp add: onExecuted_def)
next
  case (some x)
  obtain sy side where x: "x = (sy, side)" by (cases x)
  have k: "k = Some (sy, side)" using slotByRef_scan [OF assms(1), of "ex_userRefNum e"] some(1) assms(2) x by simp
  show ?thesis using some(1) by (cases side) (simp_all add: onExecuted_def Let_def k x)
qed

lemma onAck_acct:
  assumes "om_inv m"
  shows "om_acct (snd (onAck bs m)) = (case fill_of bs m of None \<Rightarrow> om_acct m | Some (sy, d) \<Rightarrow> (om_acct m)[sy := om_acct m ! sy + d])"
proof (cases "bs = []")
  case True
  then show ?thesis by (simp add: onAck_def fill_of_def)
next
  case False
  let ?m = "m\<lparr>om_ackSym := -1, om_curAck := bs\<rparr>"
  have i: "om_inv ?m" using assms by simp
  have c: "om_acct (snd (onAck bs m)) = om_acct (dispatch bs ?m)" using False by (simp add: onAck_def note_recent_def Let_def)
  have s: "slot_of ?m = slot_of m" "slot_keys ?m = slot_keys m" by (auto simp: slot_of_cong [of ?m m] slot_keys_def)
  have codes: "OutType_code a = OutType_code b \<longleftrightarrow> a = b" for a b using OutType_code_inj by blast
  show ?thesis
  proof (cases "bs ! 0 = OutType_code Out_Executed")
    case True
    have d: "dispatch bs = handle_read (wire_read sizeof_Executed dec_Executed bs) onExecuted" by (simp add: dispatch_def True)
    show ?thesis using False True onExecuted_acct [OF i refl, of "dec_Executed bs"] unfolding c d
      by (auto simp: fill_of_def handle_read_def wire_read_def s Let_def split: option.splits)
  next
    case False
    then have "om_acct (dispatch bs ?m) = om_acct m" by (auto simp: dispatch_def Let_def handle_read_def split: option.splits)
    then show ?thesis using False c by (simp add: fill_of_def)
  qed
qed

lemma netPosition_sum: "netPosition m = sum_list (om_acct m)"
proof -
  have "foldl (\<lambda>p a. p + a) z xs = z + sum_list xs" for z and xs :: "64 word list" by (induction xs arbitrary: z) (simp_all add: add.assoc)
  then show ?thesis by (simp add: netPosition_def)
qed

lemma sum_list_add_at: "i < length xs \<Longrightarrow> sum_list (xs[i := xs ! i + d]) = sum_list xs + d" for xs :: "'a::comm_monoid_add list"
  by (induction xs arbitrary: i) (auto simp: ac_simps split: nat.splits)

lemma fill_of_bound: "fill_of bs m = Some (sy, d) \<Longrightarrow> sy < length (om_slots m)"
  by (auto simp: fill_of_def Let_def slot_set_def dest!: find_SomeD split: if_splits)

text \<open>
  C24. Positions are exact: in every reachable state a reply moves the account of one symbol by exactly the
  signed quantity it reports as filled for an order of ours, a reply that is not such a report, is truncated
  or names no order of ours moves none, and the net position moves by the same amount.
\<close>

theorem OrderManager_position_exact:
  assumes "om_reach symbols f m" and "length symbols < 65535"
  shows "om_acct (snd (onAck bs m)) = (case fill_of bs m of None \<Rightarrow> om_acct m | Some (sy, d) \<Rightarrow> (om_acct m)[sy := om_acct m ! sy + d]) \<and>
    netPosition (snd (onAck bs m)) = netPosition m + (case fill_of bs m of None \<Rightarrow> 0 | Some (sy, d) \<Rightarrow> d)"
proof -
  have i: "om_inv m" by (rule om_reach_inv [OF assms])
  have l: "length (om_acct m) = length (om_slots m)" using om_invD(1) [OF i] by (simp add: om_frame_def)
  show ?thesis using onAck_acct [OF i, of bs] fill_of_bound [of bs m] l
    by (auto simp: netPosition_sum sum_list_add_at split: option.splits)
qed

definition demo_quotes :: QuoteTargets where
  "demo_quotes = \<lparr>qt_quoteBid = True, qt_bidPrice = 99, qt_bidQty = 10, qt_quoteAsk = False, qt_askPrice = 0, qt_askQty = 0\<rparr>"

definition demo_manager :: OrderManager where
  "demo_manager = fst (snd (reconcile 0 demo_quotes (OrderManager_new [[0x41]] 5) [Outbound_new, Outbound_new]))"

lemma demo_manager:
  "om_slots demo_manager = [(\<lparr>qs_state = PendingNew, qs_userRef = 5, qs_pendingRef = 0, qs_price = 99, qs_qty = 10, qs_leaves = 10\<rparr>, QuoteSlot_new)]"
  "om_acct demo_manager = [0]" "om_nextUserRef demo_manager = 6"
  by (simp_all add: demo_manager_def demo_quotes_def reconcile_def reconcile_two_def reconcileSide_def reconcileSlot_def slot_of_def
      OrderManager_new_def Let_def QuoteSlot_new_def allocRef_def slot_upd_def pair_upd_def stat_upd_def)

lemma demo_manager_reach: "om_reach [[0x41]] 5 demo_manager"
proof -
  obtain n m outs where r: "reconcile 0 demo_quotes (OrderManager_new [[0x41]] 5) [Outbound_new, Outbound_new] = (n, m, outs)" by (metis prod_cases3)
  have "om_reach [[0x41]] 5 m" by (rule om_reach.reconcile [OF om_reach.new _ _ r]) (simp_all add: OrderManager_new_def Let_def refs_left_def)
  then show ?thesis by (simp add: demo_manager_def r)
qed

definition demo_fill :: Executed where
  "demo_fill = \<lparr>ex_type = OutType_code Out_Executed, ex_timestamp = 0, ex_userRefNum = 5, ex_quantity = 3, ex_price = 99,
     ex_liquidityFlag = 0, ex_matchNumber = 1, ex_appendageLength = 0\<rparr>"

lemma demo_fill: "dec_Executed (enc_Executed demo_fill) = demo_fill" "length (enc_Executed demo_fill) = sizeof_Executed"
  "enc_Executed demo_fill ! 0 = OutType_code Out_Executed" "enc_Executed demo_fill \<noteq> []"
  using executed_wire.dec_enc [of demo_fill "[]"] executed_wire.length_enc [of demo_fill]
  by (simp_all add: valid_Executed_def) (simp_all add: enc_Executed_def demo_fill_def)

theorem OrderManager_position_exact_witness:
  "om_acct (snd (onAck (enc_Executed demo_fill) demo_manager)) = [3]"
proof -
  have "fill_of (enc_Executed demo_fill) demo_manager = Some (0, 3)"
    by (simp add: fill_of_def demo_fill slot_keys_def demo_manager(1) slot_of_def active_with_def) (simp add: demo_fill_def)
  then show ?thesis using OrderManager_position_exact [OF demo_manager_reach, of "enc_Executed demo_fill"] by (simp add: demo_manager)
qed

section \<open>Requests on the wire\<close>

definition request_of :: "Outbound \<Rightarrow> byte list" where
  "request_of out = take (ob_len out) (ob_buf out)"

lemma request_out_put: "request_of (out_put bytes r out) = bytes"
  by (simp add: request_of_def out_put_def poke_def)

lemma om_enter_side:
  assumes "om_frame m" and "sy < length (om_slots m)"
  shows "(case side of Buy \<Rightarrow> et_bid (om_enter m ! sy) | Sell \<Rightarrow> et_ask (om_enter m ! sy)) = enterTemplate (om_symbols m ! sy) side"
  using assms by (cases side) (simp_all add: om_frame_def)

text \<open>
  What goes out is what was wanted: when a reconcile of one side writes a request, the bytes decode to
  the request of the slot's new state, with the symbol, side, price and quantity asked for and the
  reference the slot then waits for: a new order from a free slot, a replacement of the resting order, or its
  cancel when no quote is wanted.
\<close>

theorem OrderManager_requests_decode:
  assumes "om_reach symbols f m" and "length symbols < 65535" and "om_nextUserRef m \<noteq> - 1" and "sy < length (om_slots m)"
    and "length (om_symbols m ! sy) \<le> 8" and "unpadded (om_symbols m ! sy)"
    and "reconcileSide sy side want price qty m out = (1, m', out')"
  defines "s \<equiv> slot_of m (sy, side)" and "s' \<equiv> slot_of m' (sy, side)"
  shows "(qs_state s = Idle \<and> qs_state s' = PendingNew \<and>
      (\<exists>e. wire_read sizeof_EnterOrder dec_EnterOrder (request_of out') = Some e \<and> eo_userRefNum e = qs_userRef s' \<and> eo_side e = ouchSide side \<and>
         eo_quantity e = qty \<and> eo_price e = wirePrice price \<and> alpha_view (eo_symbol e) = om_symbols m ! sy)) \<or>
    (qs_state s = Live \<and> qs_state s' = PendingReplace \<and>
      (\<exists>e. wire_read sizeof_ReplaceOrder dec_ReplaceOrder (request_of out') = Some e \<and> ro_origUserRefNum e = qs_userRef s \<and>
         ro_userRefNum e = qs_pendingRef s' \<and> ro_quantity e = qty \<and> ro_price e = wirePrice price)) \<or>
    (qs_state s = Live \<and> (\<not> want \<or> qty = 0) \<and> qs_state s' = PendingCancel \<and>
      (\<exists>e. wire_read sizeof_CancelOrder dec_CancelOrder (request_of out') = Some e \<and> co_userRefNum e = qs_userRef s \<and> co_quantity e = 0))"
proof -
  have i: "om_inv m" by (rule om_reach_inv [OF assms(1,2)])
  obtain t m1 where r: "reconcileSlot (slot_of m (sy, side)) sy side want price qty m out = (1, t, m1, out')" and m': "m' = slot_upd (sy, side) (\<lambda>_. t) m1"
    using assms(7) by (auto simp: reconcileSide_def split: prod.splits)
  have s': "s' = t" using reconcileSlot_moved(4) [OF r] assms(4) m' by (simp add: s'_def slot_of_upd slot_set_def)
  from r show ?thesis
  proof (cases rule: reconcileSlot_cases)
    case (enter x m2 g)
    have fr: "om_frame m2" "om_slots m2 = om_slots m" "om_symbols m2 = om_symbols m"
      using om_invD(1) [OF i] enter(4) by (auto simp: om_frame_def allocRef_def Let_def)
    let ?e = "(enterTemplate (om_symbols m ! sy) side)\<lparr>eo_userRefNum := x, eo_quantity := qty, eo_price := wirePrice price\<rparr>"
    have "request_of out' = enc_EnterOrder ?e" using enter(8) om_enter_side [OF fr(1), of sy side] assms(4) fr by (simp add: encodeEnter_def request_out_put)
    moreover have "valid_EnterOrder ?e" by (simp add: valid_EnterOrder_def enterTemplate_def)
    ultimately have "wire_read sizeof_EnterOrder dec_EnterOrder (request_of out') = Some ?e" using enterOrder_wire.read_exact by simp
    moreover have "alpha_view (eo_symbol ?e) = om_symbols m ! sy" using alpha_view_store [OF assms(5,6)] by (simp add: enterTemplate_def)
    ultimately have "qs_state s = Idle \<and> qs_state s' = PendingNew \<and> (\<exists>e. wire_read sizeof_EnterOrder dec_EnterOrder (request_of out') = Some e \<and>
      eo_userRefNum e = qs_userRef s' \<and> eo_side e = ouchSide side \<and> eo_quantity e = qty \<and> eo_price e = wirePrice price \<and> alpha_view (eo_symbol e) = om_symbols m ! sy)"
      using enter(1,7) s' by (auto simp: s_def enterTemplate_def)
    then show ?thesis by blast
  next
    case (cancel g)
    let ?e = "\<lparr>co_type = InType_code In_CancelOrder, co_userRefNum = qs_userRef s, co_quantity = 0, co_appendageLength = 0\<rparr>"
    have "request_of out' = enc_CancelOrder ?e" using cancel(6) by (simp add: encodeCancel_def request_out_put s_def)
    then have "wire_read sizeof_CancelOrder dec_CancelOrder (request_of out') = Some ?e" using cancelOrder_wire.read_exact [of ?e] by (simp add: valid_CancelOrder_def)
    then show ?thesis using cancel(1,2,5) s' by (auto simp: s_def)
  next
    case (replace x m2 g)
    have fr: "om_replace m2 = replaceTemplate" using om_invD(1) [OF i] replace(5) by (auto simp: om_frame_def allocRef_def Let_def)
    let ?e = "replaceTemplate\<lparr>ro_origUserRefNum := qs_userRef s, ro_userRefNum := x, ro_quantity := qty, ro_price := wirePrice price\<rparr>"
    have "request_of out' = enc_ReplaceOrder ?e" using replace(9) fr by (simp add: encodeReplace_def request_out_put s_def)
    moreover have "valid_ReplaceOrder ?e" by (simp add: valid_ReplaceOrder_def replaceTemplate_def)
    ultimately have "wire_read sizeof_ReplaceOrder dec_ReplaceOrder (request_of out') = Some ?e" using replaceOrder_wire.read_exact by simp
    then show ?thesis using replace(1,8) s' by (auto simp: s_def)
  qed simp
qed

theorem OrderManager_requests_decode_witness:
  "\<exists>m out e. reconcileSide 0 Buy True 99 10 (OrderManager_new [[0x41]] 5) Outbound_new = (1, m, out) \<and>
    wire_read sizeof_EnterOrder dec_EnterOrder (request_of out) = Some e \<and> eo_userRefNum e = 5 \<and> eo_quantity e = 10 \<and>
    alpha_view (eo_symbol e) = [0x41]"
proof -
  let ?m = "OrderManager_new [[0x41]] 5"
  obtain n m out where r: "reconcileSide 0 Buy True 99 10 ?m Outbound_new = (n, m, out)" by (metis prod_cases3)
  have n: "n = 1" "qs_userRef (slot_of m (0, Buy)) = 5" "qs_state (slot_of m (0, Buy)) = PendingNew"
    using r by (auto simp: reconcileSide_def reconcileSlot_def slot_of_def OrderManager_new_def Let_def QuoteSlot_new_def allocRef_def
      slot_upd_def pair_upd_def stat_upd_def)
  have s: "om_symbols ?m = [[0x41]]" "length (om_slots ?m) = 1" "om_nextUserRef ?m \<noteq> - 1" by (simp_all add: OrderManager_new_def)
  have r1: "reconcileSide 0 Buy True 99 10 ?m Outbound_new = (1, m, out)" using r n(1) by simp
  from OrderManager_requests_decode [OF om_reach.new _ s(3) _ _ _ r1] n(2,3) r1 show ?thesis
    by (auto simp: s unpadded_def space_def)
qed

section \<open>Warming up\<close>

lemma ring_index_next: "r \<noteq> - 1 \<Longrightarrow> ring_index (r + 1) \<noteq> ring_index r"
proof -
  assume "r \<noteq> - 1"
  then have "1 + r \<noteq> 0" by (metis eq_neg_iff_add_eq_0 add.commute)
  then have "unat (r + 1) = Suc (unat r)" using unatSuc [of r] by (simp add: add.commute)
  then show ?thesis by (simp add: ring_index_def kRefRing_def mod_Suc)
qed

text \<open>
  Warming up leaves no trace: the dry-run reconcile that touches the hot path writes only the scratch
  buffer and restores statistics, counter and ring exactly, as long as the reference counter does not
  wrap during it.
\<close>

theorem OrderManager_warmReconcile_restores:
  assumes "om_nextUserRef m \<noteq> - 1" and "om_nextUserRef m + 1 \<noteq> - 1"
  shows "fst (warmReconcile sy m out) = m"
proof -
  let ?r = "om_nextUserRef m"
  have "?r + 1 \<noteq> 0" "?r + 1 + 1 \<noteq> 0" using assms by (metis eq_neg_iff_add_eq_0)+
  then show ?thesis using ring_index_next [OF assms(1)]
    by (simp add: warmReconcile_def reconcileSlot_def QuoteSlot_new_def allocRef_def Let_def stat_upd_def ring_index_and fun_upd_twist)
qed

theorem OrderManager_warmReconcile_restores_witness: "fst (warmReconcile 0 demo_manager Outbound_new) = demo_manager"
  by (rule OrderManager_warmReconcile_restores) (simp_all add: demo_manager)

text \<open>
  At the wrap the dry run is not clean: the second reference it draws is 1, but the ring entry it saves
  and restores is that of reference 0, so the entry of reference 1 stays behind.
\<close>

lemma warmReconcile_wrap:
  assumes "om_nextUserRef m = - 1"
  shows "om_refs (fst (warmReconcile sy m out)) 1 = \<lparr>rs_userRef = 1, rs_sym = of_nat sy, rs_side = Buy\<rparr>"
proof -
  have "unat (- 1 :: u32) = 2 ^ 32 - 1" by (simp add: unsigned_minus_1_eq_mask mask_eq_exp_minus_1)
  then have i: "ring_index (- 1) = 4095" "ring_index 0 = 0" "ring_index 1 = 1" by (simp_all add: ring_index_def kRefRing_def)
  have a: "unat ((- 1 :: u32) AND 0xfff) = 4095" "unat ((1 :: u32) AND 0xfff) = 1" by (simp_all add: ring_index_and i)
  show ?thesis using assms by (simp add: warmReconcile_def reconcileSlot_def QuoteSlot_new_def allocRef_def Let_def stat_upd_def i a)
qed

end
