(* ===== verification/Venue.thy ===== *)
theory Venue
  imports Ouch50 Itch50 FlatHashMap OrderBook
begin

text \<open>
  The simulated venue of \<^verbatim>\<open>sim/Venue.hpp\<close>: one symbol's matching engine, the index of its resting orders by
  reference, the index of client orders by user reference, the OUCH handlers, the mirror of a
  recorded feed, and the messages it publishes. The sink is the list of messages handed to it, in order;
  \<open>sink_call\<close> gives the channel and the bytes of each. Both hash tables count their growths in one counter of
  the sources, here the sum of the counters of the two tables.

  A sink call of the engine (\<^verbatim>\<open>TradeEmitter\<close>) changes the venue but never the engine: the venue is the sink state
  of the engine's operations and its engine field is set when they return.
\<close>

section \<open>Data\<close>

record MirrorStats =
  ms_adds :: u64
  ms_executes :: u64
  ms_cancels :: u64
  ms_deletes :: u64
  ms_replaces :: u64
  ms_unknownRef :: u64
  ms_overReduce :: u64
  ms_outOfBand :: u64
  ms_shadowFills :: u64
  ms_shadowShares :: u64
  ms_crossFills :: u64
  ms_impactFills :: u64
  ms_selfTrades :: u64

definition MirrorStats_new :: MirrorStats where
  "MirrorStats_new = \<lparr>ms_adds = 0, ms_executes = 0, ms_cancels = 0, ms_deletes = 0, ms_replaces = 0, ms_unknownRef = 0, ms_overReduce = 0,
     ms_outOfBand = 0, ms_shadowFills = 0, ms_shadowShares = 0, ms_crossFills = 0, ms_impactFills = 0, ms_selfTrades = 0\<rparr>"

record LiveOrder =
  lo_handle :: Handle
  lo_side :: Side
  lo_tick :: Price
  lo_client :: bool
  lo_userRef :: u32

definition LiveOrder_new :: LiveOrder where
  "LiveOrder_new = \<lparr>lo_handle = kNilHandle, lo_side = Buy, lo_tick = 0, lo_client = False, lo_userRef = 0\<rparr>"

datatype VenueMsg =
  MdSystemEvent SystemEvent | MdStockDirectory StockDirectory | MdAdd AddOrder | MdExecuted OrderExecuted | MdCancel OrderCancel |
  MdDelete OrderDelete | MdReplace OrderReplace |
  OeAccepted Accepted | OeExecuted Executed | OeCanceled Canceled | OeReplaced Replaced | OeRejected Rejected | OeCancelReject CancelReject

datatype SinkCall = MarketData "byte list" | OrderEntry "byte list"

primrec sink_call :: "VenueMsg \<Rightarrow> SinkCall" where
  "sink_call (MdSystemEvent m) = MarketData (enc_SystemEvent m)"
| "sink_call (MdStockDirectory m) = MarketData (enc_StockDirectory m)"
| "sink_call (MdAdd m) = MarketData (enc_AddOrder m)"
| "sink_call (MdExecuted m) = MarketData (enc_OrderExecuted m)"
| "sink_call (MdCancel m) = MarketData (enc_OrderCancel m)"
| "sink_call (MdDelete m) = MarketData (enc_OrderDelete m)"
| "sink_call (MdReplace m) = MarketData (enc_OrderReplace m)"
| "sink_call (OeAccepted m) = OrderEntry (enc_Accepted m)"
| "sink_call (OeExecuted m) = OrderEntry (enc_Executed m)"
| "sink_call (OeCanceled m) = OrderEntry (enc_Canceled m)"
| "sink_call (OeReplaced m) = OrderEntry (enc_Replaced m)"
| "sink_call (OeRejected m) = OrderEntry (enc_Rejected m)"
| "sink_call (OeCancelReject m) = OrderEntry (enc_CancelReject m)"

record Venue =
  v_out :: "VenueMsg list"
  v_symbol :: "byte list"
  v_stockLocate :: u16
  v_wirePerTick :: u32
  v_minTick :: Price
  v_maxTick :: Price
  v_engine :: OrderBook
  v_nextOrderRef :: OrderId
  v_nextMatch :: u64
  v_mirror :: MirrorStats
  v_live :: "(64 word, LiveOrder) FlatHashMap"
  v_byUserRef :: "(32 word, OrderId) FlatHashMap"
  v_clientRefs :: "OrderId list"

definition Venue_new :: "byte list \<Rightarrow> u16 \<Rightarrow> Price \<Rightarrow> Price \<Rightarrow> u32 \<Rightarrow> OrderId \<Rightarrow> nat \<Rightarrow> Venue" where
  "Venue_new symbol stockLocate minTick maxTick wirePerTick firstOrderRef liveReserve =
     \<lparr>v_out = [], v_symbol = symbol, v_stockLocate = stockLocate, v_wirePerTick = wirePerTick, v_minTick = minTick, v_maxTick = maxTick,
      v_engine = OrderBook_new minTick maxTick, v_nextOrderRef = (if firstOrderRef = 0 then 1 else firstOrderRef), v_nextMatch = 1,
      v_mirror = MirrorStats_new, v_live = FlatHashMap_countGrowsIn (FlatHashMap_new liveReserve LiveOrder_new),
      v_byUserRef = FlatHashMap_countGrowsIn (FlatHashMap_new 4096 0), v_clientRefs = []\<rparr>"

definition Venue_bindLocate :: "u16 \<Rightarrow> Venue \<Rightarrow> Venue" where
  "Venue_bindLocate locate v = v\<lparr>v_stockLocate := locate\<rparr>"

definition mirror_upd :: "(MirrorStats \<Rightarrow> MirrorStats) \<Rightarrow> Venue \<Rightarrow> Venue" where
  "mirror_upd f v = v\<lparr>v_mirror := f (v_mirror v)\<rparr>"

section \<open>Messages\<close>

definition Venue_send :: "VenueMsg \<Rightarrow> Venue \<Rightarrow> Venue" where
  "Venue_send m v = v\<lparr>v_out := v_out v @ [m]\<rparr>"

definition Venue_tickToWire :: "Price \<Rightarrow> Venue \<Rightarrow> u32" where
  "Venue_tickToWire tick v = of_int tick * v_wirePerTick v"

primrec Venue_itchSide :: "Side \<Rightarrow> byte" where
  "Venue_itchSide Buy = ItchSide_code ISide_Buy"
| "Venue_itchSide Sell = ItchSide_code ISide_Sell"

primrec Venue_ouchSide :: "Side \<Rightarrow> byte" where
  "Venue_ouchSide Buy = OuchSide_code OSide_Buy"
| "Venue_ouchSide Sell = OuchSide_code OSide_Sell"

text \<open>A 48-bit timestamp keeps the low bits.\<close>

definition ts48 :: "u64 \<Rightarrow> u64" where
  "ts48 ts = take_bit 48 ts"

definition Venue_emitStockDirectory :: "u64 \<Rightarrow> Venue \<Rightarrow> Venue" where
  "Venue_emitStockDirectory ts v = Venue_send (MdStockDirectory
     \<lparr>sd_messageType = MessageType_code Msg_StockDirectory, sd_stockLocate = v_stockLocate v, sd_trackingNumber = 0, sd_timestamp = ts48 ts,
      sd_stock = alpha_store 8 (v_symbol v), sd_marketCategory = 0x51, sd_financialStatusIndicator = 0, sd_roundLotSize = 100,
      sd_roundLotsOnly = 0, sd_issueClassification = 0, sd_issueSubType = [0, 0], sd_authenticity = 0, sd_shortSaleThresholdIndicator = 0,
      sd_ipoFlag = 0, sd_luldReferencePriceTier = 0, sd_etpFlag = 0, sd_etpLeverageFactor = 0, sd_inverseIndicator = 0\<rparr>) v"

definition Venue_sessionEvent :: "byte \<Rightarrow> u64 \<Rightarrow> Venue \<Rightarrow> Venue" where
  "Venue_sessionEvent code ts = Venue_send (MdSystemEvent
     \<lparr>se_messageType = MessageType_code Msg_SystemEvent, se_stockLocate = 0, se_trackingNumber = 0, se_timestamp = ts48 ts, se_eventCode = code\<rparr>)"

definition Venue_emitItchAdd :: "OrderId \<Rightarrow> Side \<Rightarrow> Price \<Rightarrow> Quantity \<Rightarrow> u64 \<Rightarrow> Venue \<Rightarrow> Venue" where
  "Venue_emitItchAdd ref side tick shares ts v = Venue_send (MdAdd
     \<lparr>ao_messageType = MessageType_code Msg_AddOrder, ao_stockLocate = v_stockLocate v, ao_trackingNumber = 0, ao_timestamp = ts48 ts,
      ao_orderRef = ref, ao_side = Venue_itchSide side, ao_shares = shares, ao_stock = alpha_store 8 (v_symbol v),
      ao_price = Venue_tickToWire tick v\<rparr>) v"

definition Venue_emitItchExecuted :: "OrderId \<Rightarrow> Quantity \<Rightarrow> u64 \<Rightarrow> u64 \<Rightarrow> Venue \<Rightarrow> Venue" where
  "Venue_emitItchExecuted ref shares match ts v = Venue_send (MdExecuted
     \<lparr>oe_messageType = MessageType_code Msg_OrderExecuted, oe_stockLocate = v_stockLocate v, oe_trackingNumber = 0, oe_timestamp = ts48 ts,
      oe_orderRef = ref, oe_executedShares = shares, oe_matchNumber = match\<rparr>) v"

definition Venue_emitItchCancel :: "OrderId \<Rightarrow> Quantity \<Rightarrow> u64 \<Rightarrow> Venue \<Rightarrow> Venue" where
  "Venue_emitItchCancel ref shares ts v = Venue_send (MdCancel
     \<lparr>oc_messageType = MessageType_code Msg_OrderCancel, oc_stockLocate = v_stockLocate v, oc_trackingNumber = 0, oc_timestamp = ts48 ts,
      oc_orderRef = ref, oc_cancelledShares = shares\<rparr>) v"

definition Venue_emitItchDelete :: "OrderId \<Rightarrow> u64 \<Rightarrow> Venue \<Rightarrow> Venue" where
  "Venue_emitItchDelete ref ts v = Venue_send (MdDelete
     \<lparr>od_messageType = MessageType_code Msg_OrderDelete, od_stockLocate = v_stockLocate v, od_trackingNumber = 0, od_timestamp = ts48 ts,
      od_orderRef = ref\<rparr>) v"

definition Venue_emitItchReplace :: "OrderId \<Rightarrow> OrderId \<Rightarrow> Quantity \<Rightarrow> Price \<Rightarrow> u64 \<Rightarrow> Venue \<Rightarrow> Venue" where
  "Venue_emitItchReplace origRef newRef shares tick ts v = Venue_send (MdReplace
     \<lparr>orp_messageType = MessageType_code Msg_OrderReplace, orp_stockLocate = v_stockLocate v, orp_trackingNumber = 0, orp_timestamp = ts48 ts,
      orp_origOrderRef = origRef, orp_newOrderRef = newRef, orp_shares = shares, orp_price = Venue_tickToWire tick v\<rparr>) v"

definition Venue_emitAccepted :: "EnterOrder \<Rightarrow> OrderId \<Rightarrow> OrderState \<Rightarrow> u64 \<Rightarrow> Venue \<Rightarrow> Venue" where
  "Venue_emitAccepted o' ref orderState ts v = Venue_send (OeAccepted
     \<lparr>ac_type = OutType_code Out_Accepted, ac_timestamp = ts, ac_userRefNum = eo_userRefNum o', ac_side = eo_side o',
      ac_quantity = eo_quantity o', ac_symbol = alpha_store 8 (v_symbol v), ac_price = eo_price o', ac_timeInForce = eo_timeInForce o',
      ac_display = eo_display o', ac_orderReferenceNumber = ref, ac_capacity = eo_capacity o',
      ac_imSweepEligibility = eo_imSweepEligibility o', ac_crossType = eo_crossType o', ac_orderState = OrderState_code orderState,
      ac_clOrdId = alpha_store 14 (alpha_view (eo_clOrdId o')), ac_appendageLength = 0\<rparr>) v"

definition Venue_emitExecuted :: "u32 \<Rightarrow> Quantity \<Rightarrow> Price \<Rightarrow> byte \<Rightarrow> u64 \<Rightarrow> u64 \<Rightarrow> Venue \<Rightarrow> Venue" where
  "Venue_emitExecuted user shares tick liq match ts v = Venue_send (OeExecuted
     \<lparr>ex_type = OutType_code Out_Executed, ex_timestamp = ts, ex_userRefNum = user, ex_quantity = shares,
      ex_price = ucast (Venue_tickToWire tick v), ex_liquidityFlag = liq, ex_matchNumber = match, ex_appendageLength = 0\<rparr>) v"

definition Venue_emitCanceled :: "u32 \<Rightarrow> Quantity \<Rightarrow> CancelReason \<Rightarrow> u64 \<Rightarrow> Venue \<Rightarrow> Venue" where
  "Venue_emitCanceled user decremented r ts = Venue_send (OeCanceled
     \<lparr>ca_type = OutType_code Out_Canceled, ca_timestamp = ts, ca_userRefNum = user, ca_quantity = decremented,
      ca_reason = CancelReason_code r, ca_appendageLength = 0\<rparr>)"

definition Venue_emitReplaced :: "ReplaceOrder \<Rightarrow> OrderId \<Rightarrow> Side \<Rightarrow> u64 \<Rightarrow> Venue \<Rightarrow> Venue" where
  "Venue_emitReplaced u newRef side ts v = Venue_send (OeReplaced
     \<lparr>rp_type = OutType_code Out_Replaced, rp_timestamp = ts, rp_origUserRefNum = ro_origUserRefNum u, rp_userRefNum = ro_userRefNum u,
      rp_side = Venue_ouchSide side, rp_quantity = ro_quantity u, rp_symbol = alpha_store 8 (v_symbol v), rp_price = ro_price u,
      rp_timeInForce = ro_timeInForce u, rp_display = ro_display u, rp_orderReferenceNumber = newRef,
      rp_capacity = Capacity_code Cap_Agency, rp_imSweepEligibility = ro_imSweepEligibility u,
      rp_crossType = OuchCrossType_code OCross_Continuous, rp_orderState = OrderState_code State_Live,
      rp_clOrdId = alpha_store 14 (alpha_view (ro_clOrdId u)), rp_appendageLength = 0\<rparr>) v"

definition Venue_emitRejected :: "u32 \<Rightarrow> RejectReason \<Rightarrow> byte list \<Rightarrow> u64 \<Rightarrow> Venue \<Rightarrow> Venue" where
  "Venue_emitRejected user reason clOrdId ts = Venue_send (OeRejected
     \<lparr>rj_type = OutType_code Out_Rejected, rj_timestamp = ts, rj_userRefNum = user, rj_reason = RejectReason_code reason,
      rj_clOrdId = alpha_store 14 clOrdId, rj_appendageLength = 0\<rparr>)"

definition Venue_emitCancelReject :: "u32 \<Rightarrow> u64 \<Rightarrow> Venue \<Rightarrow> Venue" where
  "Venue_emitCancelReject user ts = Venue_send (OeCancelReject
     \<lparr>cj_type = OutType_code Out_CancelReject, cj_timestamp = ts, cj_userRefNum = user, cj_appendageLength = 0\<rparr>)"

section \<open>Checks and indexes\<close>

definition Venue_validPrice :: "u64 \<Rightarrow> Venue \<Rightarrow> Price option" where
  "Venue_validPrice wire v =
     (if wire mod ucast (v_wirePerTick v) \<noteq> 0 then None
      else
        let t = wire div ucast (v_wirePerTick v)
        in if t < of_int (v_minTick v) \<or> t > of_int (v_maxTick v) then None else Some (sint (ucast t :: u32)))"

definition Venue_parseSide :: "byte \<Rightarrow> Side option" where
  "Venue_parseSide c =
     (if c = OuchSide_code OSide_Buy then Some Buy
      else if c = OuchSide_code OSide_Sell \<or> c = OuchSide_code OSide_SellShort \<or> c = OuchSide_code OSide_SellShortExempt then Some Sell
      else None)"

definition Venue_find :: "OrderId \<Rightarrow> Venue \<Rightarrow> LiveOrder option" where
  "Venue_find ref v = map_option (\<lambda>i. FlatHashMap_at i (v_live v)) (FlatHashMap_find ref (v_live v))"

definition Venue_findUser :: "u32 \<Rightarrow> Venue \<Rightarrow> OrderId option" where
  "Venue_findUser user v = map_option (\<lambda>i. FlatHashMap_at i (v_byUserRef v)) (FlatHashMap_find user (v_byUserRef v))"

definition Venue_order :: "Handle \<Rightarrow> Venue \<Rightarrow> Order" where
  "Venue_order h v = ob_pool (v_engine v) ! h"

definition Venue_engine_cancel :: "Handle \<Rightarrow> Venue \<Rightarrow> Quantity \<times> Venue" where
  "Venue_engine_cancel h v = (let (r, b) = OrderBook_cancel h (v_engine v) in (r, v\<lparr>v_engine := b\<rparr>))"

definition Venue_engine_reduce :: "Handle \<Rightarrow> Quantity \<Rightarrow> Venue \<Rightarrow> Quantity \<times> Venue" where
  "Venue_engine_reduce h q v = (let (r, b) = OrderBook_reduce h q (v_engine v) in (r, v\<lparr>v_engine := b\<rparr>))"

definition Venue_isMarketable :: "Side \<Rightarrow> Price \<Rightarrow> Venue \<Rightarrow> bool" where
  "Venue_isMarketable side tick v =
     (case side of
        Buy \<Rightarrow> ob_bestAsk (v_engine v) \<noteq> kNoPrice \<and> tick \<ge> ob_bestAsk (v_engine v)
      | Sell \<Rightarrow> ob_bestBid (v_engine v) \<noteq> kNoPrice \<and> tick \<le> ob_bestBid (v_engine v))"

definition Venue_live_put :: "OrderId \<Rightarrow> LiveOrder \<Rightarrow> Venue \<Rightarrow> Venue" where
  "Venue_live_put ref l v = v\<lparr>v_live := FlatHashMap_insertOrAssign ref l (v_live v)\<rparr>"

definition Venue_live_erase :: "OrderId \<Rightarrow> Venue \<Rightarrow> Venue" where
  "Venue_live_erase ref v = v\<lparr>v_live := snd (FlatHashMap_erase ref (v_live v))\<rparr>"

definition Venue_trackClient :: "OrderId \<Rightarrow> Handle \<Rightarrow> Side \<Rightarrow> Price \<Rightarrow> u32 \<Rightarrow> Venue \<Rightarrow> Venue" where
  "Venue_trackClient ref h side tick user v =
     (let v1 = Venue_live_put ref \<lparr>lo_handle = h, lo_side = side, lo_tick = tick, lo_client = True, lo_userRef = user\<rparr> v
      in v1\<lparr>v_byUserRef := FlatHashMap_insertOrAssign user ref (v_byUserRef v1), v_clientRefs := v_clientRefs v1 @ [ref]\<rparr>)"

text \<open>The loop of \<^verbatim>\<open>dropClient\<close>: the first entry equal to the reference is overwritten by the last, which is removed.\<close>

fun swap_pop :: "OrderId \<Rightarrow> OrderId list \<Rightarrow> OrderId list" where
  "swap_pop ref [] = []"
| "swap_pop ref (x # xs) =
     (if x = ref then (case xs of [] \<Rightarrow> [] | _ \<Rightarrow> last xs # butlast xs) else x # swap_pop ref xs)"

definition Venue_dropClient :: "OrderId \<Rightarrow> LiveOrder \<Rightarrow> Venue \<Rightarrow> Venue" where
  "Venue_dropClient ref l v =
     (let v1 = v\<lparr>v_byUserRef := snd (FlatHashMap_erase (lo_userRef l) (v_byUserRef v))\<rparr>;
          v2 = Venue_live_erase ref v1
      in v2\<lparr>v_clientRefs := swap_pop ref (v_clientRefs v2)\<rparr>)"

definition Venue_removeReal :: "OrderId \<Rightarrow> LiveOrder \<Rightarrow> Venue \<Rightarrow> Venue" where
  "Venue_removeReal ref l v = Venue_live_erase ref (snd (Venue_engine_cancel (lo_handle l) v))"

section \<open>Matching\<close>

definition Venue_handleTrade :: "u64 \<Rightarrow> bool \<Rightarrow> u32 \<Rightarrow> Trade \<Rightarrow> Venue \<Rightarrow> Venue" where
  "Venue_handleTrade ts aggClient aggUser t v =
     (let match = v_nextMatch v;
          v1 = Venue_emitItchExecuted (t_restingId t) (t_qty t) match ts (v\<lparr>v_nextMatch := match + 1\<rparr>);
          v2 = (if aggClient then Venue_emitExecuted aggUser (t_qty t) (t_price t) 0x52 match ts v1 else v1)
      in case Venue_find (t_restingId t) v2 of
           None \<Rightarrow> v2
         | Some l \<Rightarrow>
             let v3 = (if lo_client l then
                         let w = Venue_emitExecuted (lo_userRef l) (t_qty t) (t_price t) 0x41 match ts v2
                         in if aggClient then mirror_upd (\<lambda>s. s\<lparr>ms_selfTrades := ms_selfTrades s + 1\<rparr>) w else w
                       else if aggClient then mirror_upd (\<lambda>s. s\<lparr>ms_impactFills := ms_impactFills s + 1\<rparr>) v2
                       else v2)
             in if t_restingFilled t then
                  if lo_client l then Venue_dropClient (t_restingId t) l v3 else Venue_live_erase (t_restingId t) v3
                else v3)"

definition Venue_processOrder :: "OrderId \<Rightarrow> Side \<Rightarrow> Price \<Rightarrow> Quantity \<Rightarrow> u64 \<Rightarrow> bool \<Rightarrow> u32 \<Rightarrow> Venue \<Rightarrow> Venue" where
  "Venue_processOrder ref side tick qty ts client user v =
     (let (h, v1, b) = OrderBook_add ref side tick qty (Venue_handleTrade ts client user) v (v_engine v);
          v2 = v1\<lparr>v_engine := b\<rparr>
      in if h \<noteq> kNilHandle then
           let v3 = Venue_emitItchAdd ref side tick (o_qty (Venue_order h v2)) ts v2
           in if client then Venue_trackClient ref h side tick user v3
              else Venue_live_put ref \<lparr>lo_handle = h, lo_side = side, lo_tick = tick, lo_client = False, lo_userRef = 0\<rparr> v3
         else v2)"

definition Venue_processImmediate :: "OrderId \<Rightarrow> Side \<Rightarrow> Price \<Rightarrow> Quantity \<Rightarrow> u64 \<Rightarrow> u32 \<Rightarrow> Venue \<Rightarrow> Venue" where
  "Venue_processImmediate ref side tick qty ts user v =
     (let (rem, v1, b) = OrderBook_match ref side tick qty (Venue_handleTrade ts True user) v (v_engine v);
          v2 = v1\<lparr>v_engine := b\<rparr>
      in if rem > 0 then Venue_emitCanceled user rem Cxl_Ioc ts v2 else v2)"

section \<open>Client requests\<close>

definition Venue_takeRef :: "Venue \<Rightarrow> OrderId \<times> Venue" where
  "Venue_takeRef v = (v_nextOrderRef v, v\<lparr>v_nextOrderRef := v_nextOrderRef v + 1\<rparr>)"

definition Venue_onEnterOrder :: "EnterOrder \<Rightarrow> u64 \<Rightarrow> Venue \<Rightarrow> Venue" where
  "Venue_onEnterOrder m ts v =
     (let user = eo_userRefNum m; reject = (\<lambda>r. Venue_emitRejected user r (alpha_view (eo_clOrdId m)) ts v)
      in case Venue_parseSide (eo_side m) of
           None \<Rightarrow> reject Rej_InvalidSide
         | Some side \<Rightarrow>
             if eo_quantity m = 0 then reject Rej_InvalidQuantity
             else if alpha_view (eo_symbol m) \<noteq> v_symbol v then reject Rej_InvalidSymbol
             else (case Venue_validPrice (eo_price m) v of
                     None \<Rightarrow> reject Rej_InvalidPrice
                   | Some tick \<Rightarrow>
                       let (ref, v1) = Venue_takeRef v;
                           immediate = (eo_timeInForce m = TimeInForce_code Tif_IOC);
                           v2 = Venue_emitAccepted m ref (if immediate then State_Dead else State_Live) ts v1
                       in if immediate then Venue_processImmediate ref side tick (eo_quantity m) ts user v2
                          else Venue_processOrder ref side tick (eo_quantity m) ts True user v2))"

definition Venue_onCancelOrder :: "CancelOrder \<Rightarrow> u64 \<Rightarrow> Venue \<Rightarrow> Venue" where
  "Venue_onCancelOrder x ts v =
     (let user = co_userRefNum x in
      case Venue_findUser user v of
        None \<Rightarrow> Venue_emitCancelReject user ts v
      | Some ref \<Rightarrow>
          (case Venue_find ref v of
             None \<Rightarrow> Venue_emitCancelReject user ts v
           | Some l \<Rightarrow>
               let h = lo_handle l; cur = o_qty (Venue_order h v); intended = co_quantity x
               in if intended \<ge> cur then Venue_emitCancelReject user ts v
                  else if intended = 0 then
                    let (removed, v1) = Venue_engine_cancel h v
                    in Venue_dropClient ref l (Venue_emitCanceled user removed Cxl_UserRequested ts (Venue_emitItchDelete ref ts v1))
                  else
                    let (removed, v1) = Venue_engine_reduce h intended v
                    in Venue_emitCanceled user removed Cxl_UserRequested ts (Venue_emitItchCancel ref removed ts v1)))"

definition Venue_onReplaceOrder :: "ReplaceOrder \<Rightarrow> u64 \<Rightarrow> Venue \<Rightarrow> Venue" where
  "Venue_onReplaceOrder u ts v =
     (let newUser = ro_userRefNum u; reject = (\<lambda>r. Venue_emitRejected newUser r (alpha_view (ro_clOrdId u)) ts v) in
      case Venue_findUser (ro_origUserRefNum u) v of
        None \<Rightarrow> reject Rej_ReplaceNotAllowed
      | Some origRef \<Rightarrow>
          (case Venue_find origRef v of
             None \<Rightarrow> reject Rej_ReplaceNotAllowed
           | Some orig \<Rightarrow>
               let qty = ro_quantity u in
               if qty = 0 then reject Rej_InvalidQuantity
               else (case Venue_validPrice (ro_price u) v of
                       None \<Rightarrow> reject Rej_InvalidPrice
                     | Some tick \<Rightarrow>
                         let side = lo_side orig;
                             v1 = Venue_dropClient origRef orig (snd (Venue_engine_cancel (lo_handle orig) v));
                             (newRef, v2) = Venue_takeRef v1;
                             v3 = Venue_emitReplaced u newRef side ts v2
                         in if Venue_isMarketable side tick v3 then
                              Venue_processOrder newRef side tick qty ts True newUser (Venue_emitItchDelete origRef ts v3)
                            else
                              let (h, b) = OrderBook_add_quiet newRef side tick qty (v_engine v3);
                                  v4 = Venue_emitItchReplace origRef newRef qty tick ts (v3\<lparr>v_engine := b\<rparr>)
                              in if h \<noteq> kNilHandle then Venue_trackClient newRef h side tick newUser v4 else v4)))"

definition Venue_injectSynthetic :: "Side \<Rightarrow> Price \<Rightarrow> Quantity \<Rightarrow> u64 \<Rightarrow> Venue \<Rightarrow> OrderId \<times> Venue" where
  "Venue_injectSynthetic side tick qty ts v =
     (let (ref, v1) = Venue_takeRef v in (ref, Venue_processOrder ref side tick qty ts False 0 v1))"

definition Venue_cancelSynthetic :: "OrderId \<Rightarrow> u64 \<Rightarrow> Venue \<Rightarrow> Venue" where
  "Venue_cancelSynthetic ref ts v =
     (case FlatHashMap_take ref (v_live v) of
        (None, m) \<Rightarrow> v
      | (Some l, m) \<Rightarrow> Venue_emitItchDelete ref ts (snd (Venue_engine_cancel (lo_handle l) (v\<lparr>v_live := m\<rparr>))))"

section \<open>The mirror of a recorded feed\<close>

definition Venue_fillClient :: "OrderId \<Rightarrow> Quantity \<Rightarrow> u64 \<Rightarrow> Venue \<Rightarrow> Venue" where
  "Venue_fillClient ref qty ts v =
     (case Venue_find ref v of
        None \<Rightarrow> v
      | Some l \<Rightarrow>
          if qty = 0 then v
          else
            let match = v_nextMatch v;
                v1 = Venue_emitItchExecuted ref qty match ts (v\<lparr>v_nextMatch := match + 1\<rparr>);
                v2 = Venue_emitExecuted (lo_userRef l) qty (lo_tick l) 0x41 match ts v1;
                cur = o_qty (Venue_order (lo_handle l) v2)
            in if qty \<ge> cur then Venue_dropClient ref l (snd (Venue_engine_cancel (lo_handle l) v2))
               else snd (Venue_engine_reduce (lo_handle l) (cur - qty) v2))"

definition better_tick :: "Side \<Rightarrow> Price \<Rightarrow> Price \<Rightarrow> bool" where
  "better_tick side a b = (case side of Buy \<Rightarrow> a < b | Sell \<Rightarrow> a > b)"

definition crosses :: "Side \<Rightarrow> Price \<Rightarrow> Price \<Rightarrow> bool" where
  "crosses side tick t = (case side of Buy \<Rightarrow> t \<le> tick | Sell \<Rightarrow> t \<ge> tick)"

text \<open>One step of the search of \<^verbatim>\<open>crossClients\<close>: the best reference so far (0 for none), its handle and its tick.\<close>

definition cross_scan :: "Side \<Rightarrow> Price \<Rightarrow> Venue \<Rightarrow> OrderId \<Rightarrow> OrderId \<times> Handle \<times> Price \<Rightarrow> OrderId \<times> Handle \<times> Price" where
  "cross_scan side tick v ref acc =
     (case Venue_find ref v of
        None \<Rightarrow> acc
      | Some l \<Rightarrow>
          if lo_side l = side \<or> \<not> crosses side tick (lo_tick l) then acc
          else
            let (best, bestHandle, bestTick) = acc
            in if best = 0 \<or> better_tick side (lo_tick l) bestTick then (ref, lo_handle l, lo_tick l) else acc)"

primrec Venue_crossClients :: "nat \<Rightarrow> Side \<Rightarrow> Price \<Rightarrow> Quantity \<Rightarrow> u64 \<Rightarrow> Venue \<Rightarrow> (Quantity \<times> Venue) option" where
  "Venue_crossClients 0 side tick qty ts v = None"
| "Venue_crossClients (Suc n) side tick qty ts v =
     (if qty > 0 then
        let (best, bestHandle, bestTick) = fold (cross_scan side tick v) (v_clientRefs v) (0, kNilHandle, 0)
        in if best = 0 then Some (qty, v)
           else
             let cur = o_qty (Venue_order bestHandle v);
                 fill = (if qty < cur then qty else cur);
                 v1 = Venue_fillClient best fill ts (mirror_upd (\<lambda>s. s\<lparr>ms_crossFills := ms_crossFills s + 1\<rparr>) v)
             in Venue_crossClients n side tick (qty - fill) ts v1
      else Some (qty, v))"

text \<open>\<^verbatim>\<open>aheadInLevel\<close>: does the walk along the level meet the client order before the real one?\<close>

primrec ahead_walk :: "OrderId \<Rightarrow> OrderId \<Rightarrow> Order list \<Rightarrow> bool" where
  "ahead_walk clientRef realRef [] = False"
| "ahead_walk clientRef realRef (x # xs) =
     (if o_id x = clientRef then True else if o_id x = realRef then False else ahead_walk clientRef realRef xs)"

definition Venue_aheadInLevel :: "Side \<Rightarrow> Price \<Rightarrow> OrderId \<Rightarrow> OrderId \<Rightarrow> Venue \<Rightarrow> bool" where
  "Venue_aheadInLevel side tick clientRef realRef v = ahead_walk clientRef realRef (forEachOrderAtLevel side tick (v_engine v))"

primrec Venue_shadowFill :: "nat \<Rightarrow> Side \<Rightarrow> Price \<Rightarrow> OrderId \<Rightarrow> nat \<Rightarrow> Quantity \<Rightarrow> u64 \<Rightarrow> Venue \<Rightarrow> Venue option" where
  "Venue_shadowFill 0 side tick realRef i qty ts v = None"
| "Venue_shadowFill (Suc n) side tick realRef i qty ts v =
     (if i < length (v_clientRefs v) \<and> qty > 0 then
        let ref = v_clientRefs v ! i in
        case Venue_find ref v of
          None \<Rightarrow> Venue_shadowFill n side tick realRef (i + 1) qty ts v
        | Some l \<Rightarrow>
            if lo_side l \<noteq> side then Venue_shadowFill n side tick realRef (i + 1) qty ts v
            else
              let better = (case side of Sell \<Rightarrow> lo_tick l < tick | Buy \<Rightarrow> lo_tick l > tick);
                  ahead = (better \<or> (lo_tick l = tick \<and> Venue_aheadInLevel side tick ref realRef v))
              in if \<not> ahead then Venue_shadowFill n side tick realRef (i + 1) qty ts v
                 else
                   let cur = o_qty (Venue_order (lo_handle l) v);
                       fill = (if qty < cur then qty else cur);
                       v1 = mirror_upd (\<lambda>s. s\<lparr>ms_shadowFills := ms_shadowFills s + 1, ms_shadowShares := ms_shadowShares s + ucast fill\<rparr>) v;
                       v2 = Venue_fillClient ref fill ts v1
                   in Venue_shadowFill n side tick realRef (if fill < cur then i + 1 else i) (qty - fill) ts v2
      else Some v)"

text \<open>The calls of the loops, with the fuel that is shown to be enough; \<open>None\<close> marks a loop that would not end.\<close>

definition Venue_mirrorAdd :: "OrderId \<Rightarrow> Side \<Rightarrow> u32 \<Rightarrow> Quantity \<Rightarrow> u64 \<Rightarrow> Venue \<Rightarrow> Venue option" where
  "Venue_mirrorAdd ref side wire qty ts v =
     (let v1 = mirror_upd (\<lambda>s. s\<lparr>ms_adds := ms_adds s + 1\<rparr>) v in
      case Venue_validPrice (ucast wire) v1 of
        None \<Rightarrow> Some (mirror_upd (\<lambda>s. s\<lparr>ms_outOfBand := ms_outOfBand s + 1\<rparr>) v1)
      | Some tick \<Rightarrow>
          (case (if v_clientRefs v1 \<noteq> [] then Venue_crossClients (length (v_clientRefs v1) + 2) side tick qty ts v1 else Some (qty, v1)) of
             None \<Rightarrow> None
           | Some (rem, v2) \<Rightarrow>
               if rem = 0 then Some v2
               else
                 let (h, b) = OrderBook_place ref side tick rem (v_engine v2); v3 = v2\<lparr>v_engine := b\<rparr>
                 in Some (if h \<noteq> kNilHandle then
                            Venue_live_put ref \<lparr>lo_handle = h, lo_side = side, lo_tick = tick, lo_client = False, lo_userRef = 0\<rparr> v3
                          else v3)))"

text \<open>What \<^verbatim>\<open>mirrorExecute\<close> and \<^verbatim>\<open>mirrorCancel\<close> do with the order once clients are served.\<close>

definition Venue_shrinkReal :: "OrderId \<Rightarrow> LiveOrder \<Rightarrow> Quantity \<Rightarrow> Venue \<Rightarrow> Venue" where
  "Venue_shrinkReal ref l shares v =
     (let cur = o_qty (Venue_order (lo_handle l) v);
          v1 = (if shares > cur then mirror_upd (\<lambda>s. s\<lparr>ms_overReduce := ms_overReduce s + 1\<rparr>) v else v)
      in if shares \<ge> cur then Venue_removeReal ref l v1 else snd (Venue_engine_reduce (lo_handle l) (cur - shares) v1))"

definition Venue_mirrorExecute :: "OrderId \<Rightarrow> Quantity \<Rightarrow> u64 \<Rightarrow> Venue \<Rightarrow> Venue option" where
  "Venue_mirrorExecute ref shares ts v =
     (let v1 = mirror_upd (\<lambda>s. s\<lparr>ms_executes := ms_executes s + 1\<rparr>) v in
      case Venue_find ref v1 of
        None \<Rightarrow> Some (mirror_upd (\<lambda>s. s\<lparr>ms_unknownRef := ms_unknownRef s + 1\<rparr>) v1)
      | Some l \<Rightarrow>
          (case (if v_clientRefs v1 \<noteq> [] then Venue_shadowFill (length (v_clientRefs v1) + 2) (lo_side l) (lo_tick l) ref 0 shares ts v1
                 else Some v1) of
             None \<Rightarrow> None
           | Some v2 \<Rightarrow> Some (Venue_shrinkReal ref l shares v2)))"

definition Venue_mirrorCancel :: "OrderId \<Rightarrow> Quantity \<Rightarrow> Venue \<Rightarrow> Venue" where
  "Venue_mirrorCancel ref shares v =
     (let v1 = mirror_upd (\<lambda>s. s\<lparr>ms_cancels := ms_cancels s + 1\<rparr>) v in
      case Venue_find ref v1 of
        None \<Rightarrow> mirror_upd (\<lambda>s. s\<lparr>ms_unknownRef := ms_unknownRef s + 1\<rparr>) v1
      | Some l \<Rightarrow> Venue_shrinkReal ref l shares v1)"

definition Venue_mirrorDelete :: "OrderId \<Rightarrow> Venue \<Rightarrow> Venue" where
  "Venue_mirrorDelete ref v =
     (let v1 = mirror_upd (\<lambda>s. s\<lparr>ms_deletes := ms_deletes s + 1\<rparr>) v in
      case Venue_find ref v1 of
        None \<Rightarrow> mirror_upd (\<lambda>s. s\<lparr>ms_unknownRef := ms_unknownRef s + 1\<rparr>) v1
      | Some l \<Rightarrow> Venue_removeReal ref l v1)"

definition Venue_mirrorReplace :: "OrderId \<Rightarrow> OrderId \<Rightarrow> Quantity \<Rightarrow> u32 \<Rightarrow> u64 \<Rightarrow> Venue \<Rightarrow> Venue option" where
  "Venue_mirrorReplace origRef newRef shares wire ts v =
     (let v1 = mirror_upd (\<lambda>s. s\<lparr>ms_replaces := ms_replaces s + 1\<rparr>) v in
      case Venue_find origRef v1 of
        None \<Rightarrow> Some (mirror_upd (\<lambda>s. s\<lparr>ms_unknownRef := ms_unknownRef s + 1\<rparr>) v1)
      | Some l \<Rightarrow>
          Venue_mirrorAdd newRef (lo_side l) wire shares ts
            (mirror_upd (\<lambda>s. s\<lparr>ms_adds := ms_adds s - 1\<rparr>) (Venue_removeReal origRef l v1)))"

lemma length_swap_pop: "length (swap_pop ref xs) = (if ref \<in> set xs then length xs - 1 else length xs)"
proof (induction xs)
  case (Cons x xs)
  have "0 < length xs" if "ref \<in> set xs" using that by (cases xs) auto
  then show ?case using Cons by (cases xs) auto
qed simp

text \<open>One round of the loop of \<^verbatim>\<open>resetDay\<close>: the last client reference goes away with its order.\<close>

definition Venue_resetStep :: "u64 \<Rightarrow> Venue \<Rightarrow> Venue" where
  "Venue_resetStep ts v =
     (let ref = last (v_clientRefs v) in
      case Venue_find ref v of
        None \<Rightarrow> v\<lparr>v_clientRefs := butlast (v_clientRefs v)\<rparr>
      | Some l \<Rightarrow>
          let (removed, v1) = Venue_engine_cancel (lo_handle l) v
          in Venue_dropClient ref l (Venue_emitCanceled (lo_userRef l) removed Cxl_Closed ts (Venue_emitItchDelete ref ts v1)))"

lemma resetStep_shrinks: "v_clientRefs v \<noteq> [] \<Longrightarrow> length (v_clientRefs (Venue_resetStep ts v)) < length (v_clientRefs v)"
  by (auto simp: Venue_resetStep_def Let_def Venue_dropClient_def Venue_live_erase_def Venue_emitCanceled_def Venue_emitItchDelete_def
      Venue_send_def Venue_engine_cancel_def length_swap_pop split: option.splits prod.splits)

function Venue_resetClients :: "u64 \<Rightarrow> Venue \<Rightarrow> Venue" where
  "Venue_resetClients ts v = (if v_clientRefs v = [] then v else Venue_resetClients ts (Venue_resetStep ts v))"
  by pat_completeness auto
termination by (relation "measure (\<lambda>(ts, v). length (v_clientRefs v))") (auto simp: resetStep_shrinks)

declare Venue_resetClients.simps [simp del]

definition Venue_resetDay :: "u64 \<Rightarrow> Venue \<Rightarrow> Venue" where
  "Venue_resetDay ts v =
     (let v1 = Venue_resetClients ts v
      in v1\<lparr>v_engine := OrderBook_clear (v_engine v1), v_live := FlatHashMap_clear (v_live v1), v_byUserRef := FlatHashMap_clear (v_byUserRef v1)\<rparr>)"

section \<open>Queries\<close>

definition Venue_hasUserRef :: "u32 \<Rightarrow> Venue \<Rightarrow> bool" where
  "Venue_hasUserRef user v \<longleftrightarrow> FlatHashMap_find user (v_byUserRef v) \<noteq> None"

definition Venue_trades :: "Venue \<Rightarrow> u64" where
  "Venue_trades v = v_nextMatch v - 1"

definition Venue_rehashes :: "Venue \<Rightarrow> u64" where
  "Venue_rehashes v = (case fm_grows (v_live v) of None \<Rightarrow> 0 | Some a \<Rightarrow> a) + (case fm_grows (v_byUserRef v) of None \<Rightarrow> 0 | Some b \<Rightarrow> b)"

end
