(* ===== verification/VenueProps.thy ===== *)
theory VenueProps
  imports Venue OrderBookProps
begin

text \<open>
  Properties of the venue: its index of resting orders agrees with the engine under every operation, its loops over client orders end, and a
  client is told of every share of an accepted order.
\<close>

lemma nth_upd: "j < length xs \<Longrightarrow> xs[i := x] ! j = (if i = j then x else xs ! j)"
  by (cases "i = j") simp_all

section \<open>What the engine's operations leave alone\<close>

text \<open>The order behind a handle is the same order in both books, apart from its quantity and its links.\<close>

definition stays :: "OrderBook \<Rightarrow> OrderBook \<Rightarrow> Handle \<Rightarrow> bool" where
  "stays b b' h \<longleftrightarrow> live b' h \<and> o_id (ob_pool b' ! h) = o_id (ob_pool b ! h) \<and> o_side (ob_pool b' ! h) = o_side (ob_pool b ! h) \<and>
     o_price (ob_pool b' ! h) = o_price (ob_pool b ! h)"

text \<open>The band of prices of an engine.\<close>

definition span :: "OrderBook \<Rightarrow> Price \<times> Price" where
  "span b = (ob_minPrice b, ob_maxPrice b)"

lemma span_frame: "same_frame b b' \<Longrightarrow> span b' = span b"
  by (simp add: span_def same_frame_def)

text \<open>Room for a quantity at every level, so that no level total wraps.\<close>

definition roomy :: "OrderBook \<Rightarrow> Quantity \<Rightarrow> bool" where
  "roomy b q \<longleftrightarrow> (\<forall>s p. room b s p q)"

lemma roomy_mono: "roomy b q \<Longrightarrow> q' \<le> q \<Longrightarrow> roomy b q'"
  by (auto simp: roomy_def room_def word_le_nat_alt) (meson add_le_mono1 add_left_mono le_less_trans)

lemma roomy_volume:
  assumes "roomy b q" and "length (ob_pool b') = length (ob_pool b)" and "\<And>s p. volume (view b' s p) \<le> volume (view b s p)"
  shows "roomy b' q"
proof -
  have "volume (view b' s p) + unat q < 2 ^ 32" for s p
    using assms(1) assms(3) [of s p] unfolding roomy_def room_def by (meson add_le_mono1 le_less_trans)
  then show ?thesis using assms(1,2) by (auto simp: roomy_def room_def)
qed

lemma vol_le: "(\<And>h. h \<in> set hs \<Longrightarrow> o_qty (pool' ! h) \<le> o_qty (pool ! h)) \<Longrightarrow> vol pool' hs \<le> vol pool hs"
  unfolding vol_def by (rule sum_list_mono) (simp add: word_le_nat_alt)

lemma vol_remove1: "vol pool (remove1 h hs) \<le> vol pool hs"
  by (induction hs) (auto simp: vol_def)

lemma cancel_engine:
  assumes "ob_inv b" and "live b h" and "OrderBook_cancel h b = (r, b')"
  shows "ob_inv b'" and "r = o_qty (ob_pool b ! h)" and "\<And>i. live b i \<Longrightarrow> i \<noteq> h \<Longrightarrow> stays b b' i" and "roomy b q \<Longrightarrow> roomy b' q" and "span b' = span b"
proof -
  from ob_inv_rep [OF assms(1)] obtain L F where rep: "ob_rep b L F" by blast
  from cancel_refines [OF rep assms(2)] assms(3) obtain L' F' where c: "r = o_qty (ob_pool b ! h)" "ob_rep b' L' F'" "same_frame b b'"
    "\<forall>s p. L' s p = remove1 h (L s p)" "\<forall>i. i \<noteq> h \<longrightarrow> live b i \<longrightarrow> live b' i \<and> o_id (ob_pool b' ! i) = o_id (ob_pool b ! i) \<and>
       o_qty (ob_pool b' ! i) = o_qty (ob_pool b ! i) \<and> o_side (ob_pool b' ! i) = o_side (ob_pool b ! i) \<and> o_price (ob_pool b' ! i) = o_price (ob_pool b ! i)"
    by auto
  show "span b' = span b" by (rule span_frame [OF c(3)])
  show "ob_inv b'" "r = o_qty (ob_pool b ! h)" using c ob_inv_core(2) by auto
  show "stays b b' i" if "live b i" "i \<noteq> h" for i using c(5) that by (simp add: stays_def)
  have "volume (view b' s p) \<le> volume (view b s p)" for s p
  proof -
    have k: "core b L F" "core b' L' F'" using rep c(2) ob_inv_core(1) by auto
    have "o_qty (ob_pool b' ! i) = o_qty (ob_pool b ! i)" if "i \<in> set (remove1 h (L s p))" for i
    proof -
      have "i \<in> set (L s p)" "i \<noteq> h" using that core_distinct [OF k(1), of s p] by (auto dest: notin_set_remove1 simp: set_remove1_eq)
      then show ?thesis using c(5) live_member [OF k(1)] by blast
    qed
    then have "vol (ob_pool b') (remove1 h (L s p)) = vol (ob_pool b) (remove1 h (L s p))" by (rule vol_cong)
    then show ?thesis using volume_view [OF k(1)] volume_view [OF k(2)] c(4) vol_remove1 by simp
  qed
  then show "roomy b' q" if "roomy b q" using roomy_volume [OF that] c(3) by (simp add: same_frame_def)
qed

lemma reduce_engine:
  assumes "ob_inv b" and "live b h" and "n < o_qty (ob_pool b ! h)" and "n \<noteq> 0" and "OrderBook_reduce h n b = (r, b')"
  shows "ob_inv b'" and "r = o_qty (ob_pool b ! h) - n" and "\<And>i. live b i \<Longrightarrow> stays b b' i" and "roomy b q \<Longrightarrow> roomy b' q" and "span b' = span b"
proof -
  from ob_inv_rep [OF assms(1)] obtain L F where rep: "ob_rep b L F" by blast
  from reduce_refines [OF rep assms(2-4)] assms(5) have c: "r = o_qty (ob_pool b ! h) - n" "ob_rep b' L F" "same_frame b b'"
    "ob_pool b' = (ob_pool b)[h := (ob_pool b ! h)\<lparr>o_qty := n\<rparr>]" by auto
  show "span b' = span b" by (rule span_frame [OF c(3)])
  show "ob_inv b'" "r = o_qty (ob_pool b ! h) - n" using c ob_inv_core(2) by auto
  show "stays b b' i" if "live b i" for i using that c(4) assms(4) by (auto simp: stays_def live_def nth_upd)
  have "volume (view b' s p) \<le> volume (view b s p)" for s p
    using volume_view [OF ob_inv_core(1) [OF rep]] volume_view [OF ob_inv_core(1) [OF c(2)]] c(4) assms(2,3)
      core_member [OF ob_inv_core(1) [OF rep]] by (auto simp: live_def nth_upd intro!: vol_le)
  then show "roomy b' q" if "roomy b q" using roomy_volume [OF that] c(3) by (simp add: same_frame_def)
qed

lemma rest_engine:
  assumes "ob_inv b" and "in_range b p" and "q \<noteq> 0" and "roomy b q" and "OrderBook_rest oid s p q b = (h, b')"
  shows "ob_inv b'" and "h \<noteq> kNilHandle" and "live b' h" and "o_id (ob_pool b' ! h) = oid" and "o_side (ob_pool b' ! h) = s" and "o_price (ob_pool b' ! h) = p"
    and "o_qty (ob_pool b' ! h) = q" and "\<And>i. live b i \<Longrightarrow> stays b b' i" and "span b' = span b"
proof -
  from ob_inv_rep [OF assms(1)] obtain L F where rep: "ob_rep b L F" by blast
  show "span b' = span b" using rest_best(3,4) [OF assms(5)] by (simp add: span_def)
  have rm: "room b s p q" using assms(4) by (simp add: roomy_def)
  from rest_refines [OF rep assms(2,3) rm assms(5)] show a: "ob_inv b'" "h \<noteq> kNilHandle" "live b' h" "o_id (ob_pool b' ! h) = oid" "o_qty (ob_pool b' ! h) = q"
    by (auto simp: ob_inv_def)
  have c: "core b L F" by (rule ob_inv_core(1) [OF rep])
  have v: "vol (ob_pool b) (L s p) + unat q < 2 ^ 32" "F \<noteq> [] \<or> length (ob_pool b) < kNilHandle"
    using rm by (simp_all add: room_def volume_view [OF c])
  from core_rest [OF c assms(2,3) v assms(5)] obtain F' where c': "core b' (L(s := (L s)(p := L s p @ [h]))) F'" (is "core b' ?L F'")
    and n: "\<forall>s p. h \<notin> set (L s p)" and old: "\<forall>i < length (ob_pool b). i \<noteq> h \<longrightarrow> o_id (ob_pool b' ! i) = o_id (ob_pool b ! i)" by blast
  show "o_side (ob_pool b' ! h) = s" "o_price (ob_pool b' ! h) = p" using live_member [OF c', of h s p] by auto
  show "stays b b' i" if "live b i" for i
  proof -
    let ?s = "o_side (ob_pool b ! i)" and ?p = "o_price (ob_pool b ! i)"
    have m: "i \<in> set (L ?s ?p)" using core_find [OF c] that by (simp add: live_def)
    then have "i \<in> set (?L ?s ?p)" by auto
    moreover have "i \<noteq> h" using m n by auto
    ultimately show ?thesis using live_member [OF c', of i ?s ?p] old that by (auto simp: stays_def live_def)
  qed
qed

section \<open>Matching, order by order\<close>

text \<open>The pool after a round of \<^verbatim>\<open>matchLevel\<close>: the order at the head loses quantity, the others keep everything but their links.\<close>

lemma matchLevel_step_orders:
  assumes "matchLevel_step s p agg aggSide qty b = (t, fill, b')" and "live b i"
  shows "stays b b' i \<or> (t_restingFilled t \<and> t_restingId t = o_id (ob_pool b ! i))"
proof -
  define rh where "rh = l_head (OrderBook_levelFor s p b)"
  have pool: "length (ob_pool b') = length (ob_pool b) \<and> o_id (ob_pool b' ! i) = o_id (ob_pool b ! i) \<and> o_side (ob_pool b' ! i) = o_side (ob_pool b ! i) \<and>
      o_price (ob_pool b' ! i) = o_price (ob_pool b ! i) \<and> o_qty (ob_pool b' ! i) = (if i = rh then o_qty (ob_pool b ! i) - fill else o_qty (ob_pool b ! i))"
    using assms by (auto simp: matchLevel_step_def Let_def rh_def [symmetric] live_def OrderBook_free_def pool_upd_def nth_upd)
  have t: "t_restingId t = o_id (ob_pool b ! rh)" "fill = (if qty < o_qty (ob_pool b ! rh) then qty else o_qty (ob_pool b ! rh))"
    "t_restingFilled t = (fill = o_qty (ob_pool b ! rh))"
    using assms(1) by (auto simp: matchLevel_step_def Let_def rh_def [symmetric])
  show ?thesis using pool t assms(2) by (auto simp: stays_def live_def)
qed

text \<open>An invariant of the sink and the book that every trade keeps holds after matching.\<close>

lemma matchLevel_rule:
  assumes step: "\<And>q z b t f b'. P z b \<Longrightarrow> matchLevel_step s p agg aggSide q b = (t, f, b') \<Longrightarrow> P (onTrade t z) b'"
    and "P z b" and "OrderBook_matchLevel n s p agg aggSide onTrade q z b = Some (q', z', b')"
  shows "P z' b'"
  using assms(2,3)
proof (induction n arbitrary: q z b)
  case (Suc n)
  obtain t f b1 where m: "matchLevel_step s p agg aggSide q b = (t, f, b1)" by (metis prod_cases3)
  show ?case using Suc.IH [of "onTrade t z" b1] step [OF Suc.prems(1) m] Suc.prems m by (auto split: if_splits)
qed simp

lemma match_rule:
  assumes step: "\<And>s p as q z b t f b'. P z b \<Longrightarrow> matchLevel_step s p agg as q b = (t, f, b') \<Longrightarrow> P (onTrade t z) b'"
    and best: "\<And>z b x. P z b \<Longrightarrow> P z (b\<lparr>ob_bestBid := x\<rparr>)" "\<And>z b x. P z b \<Longrightarrow> P z (b\<lparr>ob_bestAsk := x\<rparr>)"
    and "P z b" and "OrderBook_match agg side price q onTrade z b = (q', z', b')"
  shows "P z' b'"
proof -
  have level: "P z' b'" if "OrderBook_matchLevel n s p agg as onTrade q z b = Some (q', z', b')" "P z b" for n s p as q z b q' z' b'
    by (rule matchLevel_rule [where P = P, OF step that(2,1)])
  have buy: "P z' b'" if "match_buy n agg price onTrade q z b = Some (q', z', b')" "P z b" for n q z b q' z' b'
    using that
  proof (induction n arbitrary: q z b)
    case (Suc n)
    show ?case
    proof (cases "match_buy (Suc n) agg price onTrade q z b = Some (q, z, b)")
      case False
      then obtain k s p as q1 z1 b1 where m: "OrderBook_matchLevel k s p agg as onTrade q z b = Some (q1, z1, b1)"
        and r: "match_buy n agg price onTrade q1 z1 (if l_totalQty (OrderBook_levelFor s p b1) = 0 then OrderBook_rescanBestAsk b1 else b1) = Some (q', z', b')"
        using Suc.prems(1) by (auto simp: Let_def simp del: OrderBook_matchLevel.simps split: if_splits option.splits)
      have "P z1 b1" by (rule level [OF m Suc.prems(2)])
      then have "P z1 (if l_totalQty (OrderBook_levelFor s p b1) = 0 then OrderBook_rescanBestAsk b1 else b1)"
        using best(2) by (simp add: OrderBook_rescanBestAsk_def)
      then show ?thesis by (rule Suc.IH [OF r])
    qed (use Suc.prems in simp)
  qed simp
  have sell: "P z' b'" if "match_sell n agg price onTrade q z b = Some (q', z', b')" "P z b" for n q z b q' z' b'
    using that
  proof (induction n arbitrary: q z b)
    case (Suc n)
    show ?case
    proof (cases "match_sell (Suc n) agg price onTrade q z b = Some (q, z, b)")
      case False
      then obtain k s p as q1 z1 b1 where m: "OrderBook_matchLevel k s p agg as onTrade q z b = Some (q1, z1, b1)"
        and r: "match_sell n agg price onTrade q1 z1 (if l_totalQty (OrderBook_levelFor s p b1) = 0 then OrderBook_rescanBestBid b1 else b1) = Some (q', z', b')"
        using Suc.prems(1) by (auto simp: Let_def simp del: OrderBook_matchLevel.simps split: if_splits option.splits)
      have "P z1 b1" by (rule level [OF m Suc.prems(2)])
      then have "P z1 (if l_totalQty (OrderBook_levelFor s p b1) = 0 then OrderBook_rescanBestBid b1 else b1)"
        using best(1) by (simp add: OrderBook_rescanBestBid_def)
      then show ?thesis by (rule Suc.IH [OF r])
    qed (use Suc.prems in simp)
  qed simp
  have "P z' b'" if m: "match_loops agg side price q onTrade z b = Some (q', z', b')"
  proof (cases side)
    case Buy
    then have "match_buy (length (ob_bidLevels b) + 2) agg price onTrade q z b = Some (q', z', b')" using m by (simp only: match_loops_def Let_def Side.case)
    then show ?thesis by (rule buy [OF _ assms(4)])
  next
    case Sell
    then have "match_sell (length (ob_bidLevels b) + 2) agg price onTrade q z b = Some (q', z', b')" using m by (simp only: match_loops_def Let_def Side.case)
    then show ?thesis by (rule sell [OF _ assms(4)])
  qed
  then show ?thesis using assms(4,5) by (auto simp: OrderBook_match_def split: if_splits option.splits)
qed

section \<open>The indexes\<close>

definition live_of :: "Venue \<Rightarrow> OrderId \<rightharpoonup> LiveOrder" where
  "live_of v = fm_map (v_live v)"

definition users_of :: "Venue \<Rightarrow> u32 \<rightharpoonup> OrderId" where
  "users_of v = fm_map (v_byUserRef v)"

text \<open>Every entry of the index is the order with its reference, side and price in the engine.\<close>

definition index_ok :: "(OrderId \<rightharpoonup> LiveOrder) \<Rightarrow> OrderBook \<Rightarrow> bool" where
  "index_ok M b \<longleftrightarrow> (\<forall>ref l. M ref = Some l \<longrightarrow> live b (lo_handle l) \<and> o_id (ob_pool b ! lo_handle l) = ref \<and>
     o_side (ob_pool b ! lo_handle l) = lo_side l \<and> o_price (ob_pool b ! lo_handle l) = lo_tick l)"

definition tables_ok :: "Venue \<Rightarrow> bool" where
  "tables_ok v \<longleftrightarrow> fm_inv (v_live v) \<and> fm_inv (v_byUserRef v) \<and> 0 \<notin> ran (users_of v) \<and> 0 \<notin> set (v_clientRefs v)"

definition ticks :: "Venue \<Rightarrow> Price \<times> Price" where
  "ticks v = (v_minTick v, v_maxTick v)"

definition venue_ok :: "Venue \<Rightarrow> bool" where
  "venue_ok v \<longleftrightarrow> ob_inv (v_engine v) \<and> tables_ok v \<and> index_ok (live_of v) (v_engine v) \<and> span (v_engine v) = ticks v"

lemma index_stays: "index_ok M b \<Longrightarrow> (\<And>ref l. M' ref = Some l \<Longrightarrow> M ref = Some l \<and> stays b b' (lo_handle l)) \<Longrightarrow> index_ok M' b'"
  unfolding index_ok_def stays_def by (metis (no_types, lifting))

lemma index_put:
  assumes "index_ok (M(ref := None)) b" and "live b (lo_handle l)" and "o_id (ob_pool b ! lo_handle l) = ref"
    and "o_side (ob_pool b ! lo_handle l) = lo_side l" and "o_price (ob_pool b ! lo_handle l) = lo_tick l"
  shows "index_ok (M(ref \<mapsto> l)) b"
  unfolding index_ok_def
proof (intro allI impI)
  fix k x assume "(M(ref \<mapsto> l)) k = Some x"
  then show "live b (lo_handle x) \<and> o_id (ob_pool b ! lo_handle x) = k \<and> o_side (ob_pool b ! lo_handle x) = lo_side x \<and> o_price (ob_pool b ! lo_handle x) = lo_tick x"
    using assms(1) [unfolded index_ok_def, rule_format, of k x] assms(2-5) by (cases "k = ref") simp_all
qed

lemma live_zero [simp]: "live_of v 0 = None"
  by (simp add: live_of_def fmap.look_zero)

lemma find_live: "tables_ok v \<Longrightarrow> ref \<noteq> 0 \<Longrightarrow> Venue_find ref v = live_of v ref"
  unfolding tables_ok_def live_of_def Venue_find_def
  by (cases "FlatHashMap_find ref (v_live v)") (auto simp: fmap.find_None fmap.find_Some)

lemma find_user: "tables_ok v \<Longrightarrow> u \<noteq> 0 \<Longrightarrow> Venue_findUser u v = users_of v u"
  unfolding tables_ok_def users_of_def Venue_findUser_def
  by (cases "FlatHashMap_find u (v_byUserRef v)") (auto simp: fmap.find_None fmap.find_Some)

lemma set_swap_pop: "set (swap_pop ref xs) \<subseteq> set xs"
proof (induction xs)
  case (Cons x xs)
  then show ?case by (cases xs rule: rev_cases) auto
qed simp

lemma ran_without: "x \<notin> ran M \<Longrightarrow> x \<notin> ran (M(k := None))"
  by (auto simp: ran_def)

lemma live_erase_tables:
  assumes "tables_ok v"
  shows "tables_ok (Venue_live_erase ref v) \<and> live_of (Venue_live_erase ref v) = (live_of v)(ref := None)"
  using assms erase_map [of "v_live v" ref] by (auto simp: tables_ok_def live_of_def users_of_def Venue_live_erase_def)

lemma dropClient_tables:
  assumes "tables_ok v"
  shows "tables_ok (Venue_dropClient ref l v) \<and> live_of (Venue_dropClient ref l v) = (live_of v)(ref := None)"
  using assms erase_map [of "v_live v" ref] erase_map [of "v_byUserRef v" "lo_userRef l"] set_swap_pop [of ref "v_clientRefs v"] ran_without [of 0 "fm_map (v_byUserRef v)" "lo_userRef l"]
  by (auto simp: tables_ok_def live_of_def users_of_def Venue_dropClient_def Venue_live_erase_def Let_def)

lemma live_put_tables:
  assumes "tables_ok v" and "ref \<noteq> 0"
  shows "tables_ok (Venue_live_put ref l v) \<and> live_of (Venue_live_put ref l v) = (live_of v)(ref \<mapsto> l)"
  using assms fm_insertOrAssign_correct [of "v_live v" ref l] by (auto simp: tables_ok_def live_of_def users_of_def Venue_live_put_def)

lemma trackClient_tables:
  assumes "tables_ok v" and "ref \<noteq> 0" and "user \<noteq> 0"
  shows "tables_ok (Venue_trackClient ref h side tick user v) \<and>
    live_of (Venue_trackClient ref h side tick user v) = (live_of v)(ref \<mapsto> \<lparr>lo_handle = h, lo_side = side, lo_tick = tick, lo_client = True, lo_userRef = user\<rparr>)"
  using assms fm_insertOrAssign_correct [of "v_live v" ref] fm_insertOrAssign_correct [of "v_byUserRef v" user ref]
  by (auto simp: tables_ok_def live_of_def users_of_def Venue_trackClient_def Venue_live_put_def Let_def ran_def split: if_splits)

text \<open>Messages and counters do not touch the indexes.\<close>

lemma tables_upd [simp]:
  "tables_ok (v\<lparr>v_out := u1\<rparr>) = tables_ok v" "tables_ok (v\<lparr>v_nextMatch := u2\<rparr>) = tables_ok v" "tables_ok (v\<lparr>v_mirror := u3\<rparr>) = tables_ok v"
  "tables_ok (v\<lparr>v_nextOrderRef := u4\<rparr>) = tables_ok v" "tables_ok (v\<lparr>v_engine := u5\<rparr>) = tables_ok v"
  by (simp_all add: tables_ok_def users_of_def)

lemma live_upd [simp]:
  "live_of (v\<lparr>v_out := u1\<rparr>) = live_of v" "live_of (v\<lparr>v_nextMatch := u2\<rparr>) = live_of v" "live_of (v\<lparr>v_mirror := u3\<rparr>) = live_of v"
  "live_of (v\<lparr>v_nextOrderRef := u4\<rparr>) = live_of v" "live_of (v\<lparr>v_engine := u5\<rparr>) = live_of v"
  by (simp_all add: live_of_def)

lemma ticks_upd [simp]:
  "ticks (v\<lparr>v_out := u1\<rparr>) = ticks v" "ticks (v\<lparr>v_nextMatch := u2\<rparr>) = ticks v" "ticks (v\<lparr>v_mirror := u3\<rparr>) = ticks v"
  "ticks (v\<lparr>v_nextOrderRef := u4\<rparr>) = ticks v" "ticks (v\<lparr>v_engine := u5\<rparr>) = ticks v" "ticks (v\<lparr>v_live := u6\<rparr>) = ticks v"
  "ticks (v\<lparr>v_clientRefs := u7\<rparr>) = ticks v" "ticks (v\<lparr>v_byUserRef := u8\<rparr>) = ticks v"
  by (simp_all add: ticks_def)

lemma ticks_tables [simp]:
  "ticks (Venue_live_put r l v) = ticks v" "ticks (Venue_live_erase r v) = ticks v" "ticks (Venue_trackClient r h s p u v) = ticks v"
  "ticks (Venue_dropClient r l v) = ticks v" "ticks (Venue_send m v) = ticks v"
  by (simp_all add: Venue_live_put_def Venue_live_erase_def Venue_trackClient_def Venue_dropClient_def Venue_send_def Let_def)

lemma find_upd [simp]:
  "Venue_find r (v\<lparr>v_out := u1\<rparr>) = Venue_find r v" "Venue_find r (v\<lparr>v_nextMatch := u2\<rparr>) = Venue_find r v" "Venue_find r (v\<lparr>v_mirror := u3\<rparr>) = Venue_find r v"
  "Venue_find r (v\<lparr>v_engine := u5\<rparr>) = Venue_find r v"
  by (simp_all add: Venue_find_def)

lemma venue_upd [simp]:
  "venue_ok (v\<lparr>v_out := u1\<rparr>) = venue_ok v" "venue_ok (v\<lparr>v_nextMatch := u2\<rparr>) = venue_ok v" "venue_ok (v\<lparr>v_mirror := u3\<rparr>) = venue_ok v"
  "venue_ok (v\<lparr>v_nextOrderRef := u4\<rparr>) = venue_ok v"
  by (simp_all add: venue_ok_def)

lemmas emit_defs = Venue_send_def Venue_emitItchAdd_def Venue_emitItchExecuted_def Venue_emitItchCancel_def Venue_emitItchDelete_def
  Venue_emitItchReplace_def Venue_emitAccepted_def Venue_emitExecuted_def Venue_emitCanceled_def Venue_emitReplaced_def Venue_emitRejected_def
  Venue_emitCancelReject_def Venue_emitStockDirectory_def Venue_sessionEvent_def mirror_upd_def

text \<open>A trade takes the filled order out of the index.\<close>

lemma handleTrade_tables:
  assumes "tables_ok v"
  shows "tables_ok (Venue_handleTrade ts c u t v)" and "ticks (Venue_handleTrade ts c u t v) = ticks v" and
    "live_of (Venue_handleTrade ts c u t v) = (if t_restingFilled t then (live_of v)(t_restingId t := None) else live_of v)"
proof -
  have n: "live_of v (t_restingId t) = None" if "Venue_find (t_restingId t) v = None"
    using that find_live [OF assms, of "t_restingId t"] by (cases "t_restingId t = 0") auto
  have e: "(live_of v)(k := None) = live_of v" if "live_of v k = None" for k using that by auto
  show "tables_ok (Venue_handleTrade ts c u t v)"
    using assms live_erase_tables dropClient_tables by (auto simp: Venue_handleTrade_def emit_defs Let_def split: option.split)
  show "ticks (Venue_handleTrade ts c u t v) = ticks v" by (auto simp: Venue_handleTrade_def emit_defs Let_def split: option.split)
  have "tables_ok (v\<lparr>v_nextMatch := a, v_out := o'\<rparr>)" "tables_ok (v\<lparr>v_nextMatch := a, v_out := o', v_mirror := m\<rparr>)" for a o' m using assms by simp_all
  then show "live_of (Venue_handleTrade ts c u t v) = (if t_restingFilled t then (live_of v)(t_restingId t := None) else live_of v)"
    using n e live_erase_tables dropClient_tables by (auto simp: Venue_handleTrade_def emit_defs Let_def split: option.split)
qed

lemma trade_index:
  assumes "tables_ok v \<and> index_ok (live_of v) b \<and> ticks v = x" and "matchLevel_step s p agg as q b = (t, f, b')"
  shows "tables_ok (Venue_handleTrade ts c u t v) \<and> index_ok (live_of (Venue_handleTrade ts c u t v)) b' \<and> ticks (Venue_handleTrade ts c u t v) = x"
proof -
  note h = handleTrade_tables [of v ts c u t]
  have "index_ok (if t_restingFilled t then (live_of v)(t_restingId t := None) else live_of v) b'"
  proof (rule index_stays)
    show "index_ok (live_of v) b" using assms(1) by simp
    fix ref l assume a: "(if t_restingFilled t then (live_of v)(t_restingId t := None) else live_of v) ref = Some l"
    then have m: "live_of v ref = Some l" "t_restingFilled t \<longrightarrow> ref \<noteq> t_restingId t" by (auto split: if_splits)
    then have i: "live b (lo_handle l)" "o_id (ob_pool b ! lo_handle l) = ref" using assms(1) by (auto simp: index_ok_def)
    from matchLevel_step_orders [OF assms(2) i(1)] i(2) m show "live_of v ref = Some l \<and> stays b b' (lo_handle l)" by (elim disjE) simp_all
  qed
  then show ?thesis using h assms(1) by simp
qed

lemma index_best: "index_ok M (b\<lparr>ob_bestBid := x\<rparr>) = index_ok M b" "index_ok M (b\<lparr>ob_bestAsk := x\<rparr>) = index_ok M b"
  by (simp_all add: index_ok_def live_def)

lemma match_venue:
  assumes "venue_ok v" and "roomy (v_engine v) q" and "\<not> refused tick q (v_engine v)"
    and "OrderBook_match ref side tick q (Venue_handleTrade ts c u) v (v_engine v) = (rem, v1, b)"
  shows "venue_ok (v1\<lparr>v_engine := b\<rparr>)" and "roomy b rem" and "in_range b tick"
proof -
  obtain L F where rep: "ob_rep (v_engine v) L F" using assms(1) by (auto simp: venue_ok_def ob_inv_def)
  from match_refines [OF rep assms(3), of ref side "Venue_handleTrade ts c u" v] assms(4) obtain trades L' F' where
    m: "spec_match ref side tick q (ob_minPrice (v_engine v)) (ob_maxPrice (v_engine v)) (view (v_engine v)) = (trades, rem, view b)" "ob_rep b L' F'" "same_frame (v_engine v) b"
    by auto
  have "tables_ok v1 \<and> index_ok (live_of v1) b \<and> ticks v1 = ticks v"
    by (rule match_rule [where P = "\<lambda>w b. tables_ok w \<and> index_ok (live_of w) b \<and> ticks w = ticks v", OF trade_index _ _ _ assms(4)])
      (use assms(1) in \<open>auto simp: index_best venue_ok_def\<close>)
  then show "venue_ok (v1\<lparr>v_engine := b\<rparr>)" using ob_inv_core(2) [OF m(2)] span_frame [OF m(3)] assms(1) by (simp add: venue_ok_def)
  have "volume (view b s p) \<le> volume (view (v_engine v) s p)" for s p
  proof (cases "s = side")
    case True
    then show ?thesis using spec_match_facts(3) [OF m(1)] by simp
  next
    case False
    then have "s = opposite side" by (cases s; cases side) simp_all
    then show ?thesis using spec_match_facts(2) [OF m(1), of p] by simp
  qed
  then have "roomy b q" using roomy_volume [OF assms(2)] m(3) by (simp add: same_frame_def)
  then show "roomy b rem" using roomy_mono spec_match_own_side [OF m(1)] by (simp add: word_le_nat_alt)
  show "in_range b tick" using assms(3) m(3) by (simp add: refused_def in_range_def same_frame_def)
qed

section \<open>Orders that come in\<close>

lemma put_venue:
  assumes "venue_ok v" and "in_range (v_engine v) p" and "q \<noteq> 0" and "roomy (v_engine v) q" and "OrderBook_rest ref s p q (v_engine v) = (h, b)"
    and "tables_ok w" and "live_of w = (live_of v)(ref \<mapsto> l)" and "v_engine w = b" and "lo_handle l = h" and "lo_side l = s" and "lo_tick l = p"
    and "ticks w = ticks v"
  shows "venue_ok w"
proof -
  have inv: "ob_inv (v_engine v)" using assms(1) by (simp add: venue_ok_def)
  note r = rest_engine [OF inv assms(2-5)]
  have "index_ok ((live_of v)(ref := None)) b"
  proof (rule index_stays [of "live_of v" "v_engine v"])
    show "index_ok (live_of v) (v_engine v)" using assms(1) by (simp add: venue_ok_def)
    then show "live_of v k = Some x \<and> stays (v_engine v) b (lo_handle x)" if "((live_of v)(ref := None)) k = Some x" for k x
      using that r(8) [of "lo_handle x"] unfolding index_ok_def by (cases "k = ref") simp_all
  qed
  then have "index_ok (live_of w) b" unfolding assms(7) by (rule index_put) (use assms(9-11) r(3-6) in simp_all)
  then show ?thesis using r(1,9) assms(1,6,8,12) by (simp add: venue_ok_def)
qed

lemma engine_upd [simp]:
  "v_engine (Venue_live_put r l v) = v_engine v" "v_engine (Venue_live_erase r v) = v_engine v" "v_engine (Venue_trackClient r h s p u v) = v_engine v"
  "v_engine (Venue_dropClient r l v) = v_engine v"
  by (simp_all add: Venue_live_put_def Venue_live_erase_def Venue_trackClient_def Venue_dropClient_def Let_def)

lemma rest_tracked:
  assumes "venue_ok v" and "in_range (v_engine v) p" and "q \<noteq> 0" and "roomy (v_engine v) q" and "OrderBook_rest ref s p q (v_engine v) = (h, b)"
    and "tables_ok w" and "live_of w = live_of v" and "v_engine w = b" and "ref \<noteq> 0" and "ticks w = ticks v"
  shows "user \<noteq> 0 \<Longrightarrow> venue_ok (Venue_trackClient ref h s p user w)"
    and "venue_ok (Venue_live_put ref \<lparr>lo_handle = h, lo_side = s, lo_tick = p, lo_client = c, lo_userRef = u\<rparr> w)"
proof -
  show "venue_ok (Venue_trackClient ref h s p user w)" if "user \<noteq> 0"
    by (rule put_venue [OF assms(1-5), where l = "\<lparr>lo_handle = h, lo_side = s, lo_tick = p, lo_client = True, lo_userRef = user\<rparr>"])
      (use trackClient_tables [OF assms(6,9) that, of h s p] assms(7,8,10) in simp_all)
  show "venue_ok (Venue_live_put ref \<lparr>lo_handle = h, lo_side = s, lo_tick = p, lo_client = c, lo_userRef = u\<rparr> w)"
    by (rule put_venue [OF assms(1-5), where l = "\<lparr>lo_handle = h, lo_side = s, lo_tick = p, lo_client = c, lo_userRef = u\<rparr>"])
      (use live_put_tables [OF assms(6,9)] assms(7,8,10) in simp_all)
qed

lemma processOrder_ok:
  assumes "venue_ok v" and "roomy (v_engine v) qty" and "ref \<noteq> 0" and "client \<Longrightarrow> user \<noteq> 0"
  shows "venue_ok (Venue_processOrder ref side tick qty ts client user v)"
proof (cases "refused tick qty (v_engine v)")
  case True
  then show ?thesis using assms(1) by (simp add: Venue_processOrder_def OrderBook_add_def)
next
  case False
  obtain rem v1 b where m: "OrderBook_match ref side tick qty (Venue_handleTrade ts client user) v (v_engine v) = (rem, v1, b)" by (metis prod_cases3)
  note ok = match_venue [OF assms(1,2) False m]
  show ?thesis
  proof (cases "rem = 0")
    case True
    then show ?thesis using ok(1) False m by (simp add: Venue_processOrder_def OrderBook_add_def)
  next
    case nz: False
    obtain h b' where r: "OrderBook_rest ref side tick rem b = (h, b')" by fastforce
    let ?w = "Venue_emitItchAdd ref side tick (o_qty (Venue_order h (v1\<lparr>v_engine := b'\<rparr>))) ts (v1\<lparr>v_engine := b'\<rparr>)"
    have w: "tables_ok ?w" "live_of ?w = live_of v1" "v_engine ?w = b'" "ticks ?w = ticks (v1\<lparr>v_engine := b\<rparr>)" using ok(1) by (simp_all add: venue_ok_def emit_defs)
    have inv: "ob_inv b" using ok(1) by (simp add: venue_ok_def)
    have h: "h \<noteq> kNilHandle" by (rule rest_engine(2) [OF inv ok(3) nz ok(2) r])
    have e: "Venue_processOrder ref side tick qty ts client user v = (if client then Venue_trackClient ref h side tick user ?w
        else Venue_live_put ref \<lparr>lo_handle = h, lo_side = side, lo_tick = tick, lo_client = False, lo_userRef = 0\<rparr> ?w)"
      using False m nz r h by (simp add: Venue_processOrder_def OrderBook_add_def word_gt_0 Let_def)
    have i: "in_range (v_engine (v1\<lparr>v_engine := b\<rparr>)) tick" "roomy (v_engine (v1\<lparr>v_engine := b\<rparr>)) rem"
      "OrderBook_rest ref side tick rem (v_engine (v1\<lparr>v_engine := b\<rparr>)) = (h, b')" "live_of ?w = live_of (v1\<lparr>v_engine := b\<rparr>)"
      using ok(2,3) r w(2) by simp_all
    note t = rest_tracked [OF ok(1) i(1) nz i(2,3) w(1) i(4) w(3) assms(3) w(4)]
    show ?thesis unfolding e using t(1) [OF assms(4)] t(2) [of False 0] by (cases client) simp_all
  qed
qed

lemma processImmediate_ok:
  assumes "venue_ok v" and "roomy (v_engine v) qty"
  shows "venue_ok (Venue_processImmediate ref side tick qty ts user v)"
proof (cases "refused tick qty (v_engine v)")
  case True
  then show ?thesis using assms(1) by (simp add: Venue_processImmediate_def OrderBook_match_def)
next
  case False
  obtain rem v1 b where m: "OrderBook_match ref side tick qty (Venue_handleTrade ts True user) v (v_engine v) = (rem, v1, b)" by (metis prod_cases3)
  show ?thesis using match_venue(1) [OF assms False m] m by (simp add: Venue_processImmediate_def emit_defs Let_def)
qed

lemma enter_ok:
  assumes "venue_ok v" and "roomy (v_engine v) (eo_quantity m)" and "eo_userRefNum m \<noteq> 0" and "v_nextOrderRef v \<noteq> 0"
  shows "venue_ok (Venue_onEnterOrder m ts v)"
  using assms by (auto simp: Venue_onEnterOrder_def Let_def emit_defs Venue_takeRef_def intro!: processOrder_ok processImmediate_ok split: option.split)

section \<open>Orders that leave\<close>

lemma gone_venue:
  assumes "venue_ok v" and "live_of v ref = Some l" and "OrderBook_cancel (lo_handle l) (v_engine v) = (r, b)"
    and "tables_ok w" and "live_of w = (live_of v)(ref := None)" and "v_engine w = b" and "ticks w = ticks v"
  shows "venue_ok w"
proof -
  have v: "ob_inv (v_engine v)" "index_ok (live_of v) (v_engine v)" using assms(1) by (simp_all add: venue_ok_def)
  have l: "live (v_engine v) (lo_handle l)" "o_id (ob_pool (v_engine v) ! lo_handle l) = ref" using v(2) assms(2) by (simp_all add: index_ok_def)
  note c = cancel_engine [OF v(1) l(1) assms(3)]
  have "index_ok ((live_of v)(ref := None)) b"
  proof (rule index_stays [OF v(2)])
    fix k x assume a: "((live_of v)(ref := None)) k = Some x"
    then have k: "live_of v k = Some x" "k \<noteq> ref" by (auto split: if_splits)
    then have "live (v_engine v) (lo_handle x)" "o_id (ob_pool (v_engine v) ! lo_handle x) = k" using v(2) by (simp_all add: index_ok_def)
    moreover from this(2) have "lo_handle x \<noteq> lo_handle l" using k(2) l(2) by metis
    ultimately show "live_of v k = Some x \<and> stays (v_engine v) b (lo_handle x)" using k(1) c(3) by simp
  qed
  then show ?thesis using c(1,5) assms(1,4-7) by (simp add: venue_ok_def)
qed

lemma smaller_venue:
  assumes "venue_ok v" and "live_of v ref = Some l" and "n < o_qty (Venue_order (lo_handle l) v)" and "n \<noteq> 0"
  shows "venue_ok (snd (Venue_engine_reduce (lo_handle l) n v))" and "roomy (v_engine v) q \<Longrightarrow> roomy (v_engine (snd (Venue_engine_reduce (lo_handle l) n v))) q"
    and "Venue_engine_reduce (lo_handle l) n v = (r, v') \<Longrightarrow> venue_ok v'"
proof -
  have v: "ob_inv (v_engine v)" "index_ok (live_of v) (v_engine v)" using assms(1) by (simp_all add: venue_ok_def)
  have l: "live (v_engine v) (lo_handle l)" using v(2) assms(2) by (simp add: index_ok_def)
  obtain r b where e: "OrderBook_reduce (lo_handle l) n (v_engine v) = (r, b)" by fastforce
  note c = reduce_engine [OF v(1) l assms(3) [unfolded Venue_order_def] assms(4) e]
  have "index_ok (live_of v) b"
  proof (rule index_stays [OF v(2)])
    fix k x assume k: "live_of v k = Some x"
    then show "live_of v k = Some x \<and> stays (v_engine v) b (lo_handle x)" using v(2) c(3) [of "lo_handle x"] by (simp add: index_ok_def)
  qed
  then show a: "venue_ok (snd (Venue_engine_reduce (lo_handle l) n v))" using c(1,5) assms(1) e by (simp add: Venue_engine_reduce_def venue_ok_def)
  show "roomy (v_engine (snd (Venue_engine_reduce (lo_handle l) n v))) q" if "roomy (v_engine v) q" using c(4) [OF that] e by (simp add: Venue_engine_reduce_def)
  show "venue_ok v'" if "Venue_engine_reduce (lo_handle l) n v = (r, v')" for r v' using a that by simp
qed

text \<open>What the operations that take an order out have in common.\<close>

definition engine_gone :: "LiveOrder \<Rightarrow> Venue \<Rightarrow> Venue \<Rightarrow> bool" where
  "engine_gone l v w \<longleftrightarrow> tables_ok w \<and> live_of w = live_of v \<and> ticks w = ticks v \<and> v_engine w = snd (OrderBook_cancel (lo_handle l) (v_engine v))"

lemma gone_ok:
  assumes "venue_ok v" and "live_of v ref = Some l" and "engine_gone l v w"
  shows "venue_ok (Venue_dropClient ref l w)" and "venue_ok (Venue_live_erase ref w)" and "roomy (v_engine v) q \<Longrightarrow> roomy (v_engine w) q"
proof -
  obtain r b where e: "OrderBook_cancel (lo_handle l) (v_engine v) = (r, b)" by fastforce
  have w: "tables_ok w" "live_of w = live_of v" "v_engine w = b" "ticks w = ticks v" using assms(3) e by (simp_all add: engine_gone_def)
  show "venue_ok (Venue_dropClient ref l w)" "venue_ok (Venue_live_erase ref w)"
    using dropClient_tables [OF w(1), of ref l] live_erase_tables [OF w(1), of ref] w(2-4) by (auto intro!: gone_venue [OF assms(1,2) e])
  have "ob_inv (v_engine v)" "live (v_engine v) (lo_handle l)" using assms(1,2) by (simp_all add: venue_ok_def index_ok_def)
  then show "roomy (v_engine w) q" if "roomy (v_engine v) q" using cancel_engine(4) [OF _ _ e that] w(3) by simp
qed

lemma engine_gone_emits:
  assumes "venue_ok v"
  shows "engine_gone l v (snd (Venue_engine_cancel (lo_handle l) v))" and "engine_gone l v w \<Longrightarrow> engine_gone l v (Venue_send m w)"
    and "engine_gone l v w \<Longrightarrow> engine_gone l v (mirror_upd f w)" and "Venue_engine_cancel (lo_handle l) v = (r, w) \<Longrightarrow> engine_gone l v w"
  using assms by (auto simp: engine_gone_def Venue_engine_cancel_def Venue_send_def mirror_upd_def venue_ok_def split: prod.splits)

lemma removeReal_ok:
  assumes "venue_ok v" and "live_of v ref = Some l"
  shows "venue_ok (Venue_removeReal ref l v)" and "roomy (v_engine v) q \<Longrightarrow> roomy (v_engine (Venue_removeReal ref l v)) q"
  using gone_ok(2,3) [OF assms engine_gone_emits(1) [OF assms(1)]] by (simp_all add: Venue_removeReal_def)

lemma user_live:
  assumes "tables_ok v" and "user \<noteq> 0" and "Venue_findUser user v = Some ref" and "Venue_find ref v = Some l"
  shows "ref \<noteq> 0" and "live_of v ref = Some l"
proof -
  show "ref \<noteq> 0" using assms find_user [OF assms(1,2)] by (auto simp: tables_ok_def ran_def)
  then show "live_of v ref = Some l" using assms(4) find_live [OF assms(1)] by simp
qed

lemma cancel_ok:
  assumes "venue_ok v" and "co_userRefNum x \<noteq> 0"
  shows "venue_ok (Venue_onCancelOrder x ts v)"
proof -
  have t: "tables_ok v" using assms(1) by (simp add: venue_ok_def)
  have "venue_ok (Venue_dropClient ref l (Venue_emitCanceled u n Cxl_UserRequested ts (Venue_emitItchDelete ref ts w)))"
    if "live_of v ref = Some l" "Venue_engine_cancel (lo_handle l) v = (n, w)" for ref l u n w
    unfolding Venue_emitCanceled_def Venue_emitItchDelete_def
    by (intro gone_ok(1) [OF assms(1) that(1)] engine_gone_emits(2) [OF assms(1)] engine_gone_emits(4) [OF assms(1) that(2)])
  moreover have "venue_ok (Venue_emitCanceled u n Cxl_UserRequested ts (Venue_emitItchCancel ref n ts w))"
    if "live_of v ref = Some l" "Venue_engine_reduce (lo_handle l) (co_quantity x) v = (n, w)" "co_quantity x \<noteq> 0" "\<not> o_qty (Venue_order (lo_handle l) v) \<le> co_quantity x"
    for ref l u n w
    using smaller_venue(3) [OF assms(1) that(1) _ that(3,2)] that(4) by (simp add: emit_defs)
  moreover have "venue_ok (Venue_emitCancelReject u ts v)" for u using assms(1) by (simp add: emit_defs)
  ultimately show ?thesis using user_live(2) [OF t assms(2)]
    by (auto simp: Venue_onCancelOrder_def Let_def split: option.split prod.split)
qed

text \<open>An order that cannot trade rests with its whole quantity.\<close>

lemma match_unmarketable:
  assumes "\<not> Venue_isMarketable side tick v" and "\<not> refused tick qty (v_engine v)"
  shows "OrderBook_match ref side tick qty onTrade z (v_engine v) = (qty, z, v_engine v)"
  using assms by (cases side) (auto simp: OrderBook_match_def match_loops_def Venue_isMarketable_def Let_def)

lemma quiet_ok:
  assumes "venue_ok v" and "roomy (v_engine v) qty" and "qty \<noteq> 0" and "ref \<noteq> 0" and "user \<noteq> 0" and "\<not> Venue_isMarketable side tick v"
    and "OrderBook_add_quiet ref side tick qty (v_engine v) = (h, b)"
  shows "venue_ok (let w = Venue_send m (v\<lparr>v_engine := b\<rparr>) in if h \<noteq> kNilHandle then Venue_trackClient ref h side tick user w else w)"
proof (cases "refused tick qty (v_engine v)")
  case True
  then have "h = kNilHandle" "b = v_engine v" using assms(7) by (simp_all add: OrderBook_add_quiet_def OrderBook_add_def)
  then show ?thesis using assms(1) by (simp add: Venue_send_def Let_def)
next
  case False
  then have i: "in_range (v_engine v) tick" by (simp add: refused_def in_range_def)
  have r: "OrderBook_rest ref side tick qty (v_engine v) = (h, b)"
    using assms(3,7) False by (simp add: OrderBook_add_quiet_def OrderBook_add_def word_gt_0 match_unmarketable [OF assms(6) False] case_prod_beta Let_def)
  have t: "tables_ok (Venue_send m (v\<lparr>v_engine := b\<rparr>))" "live_of (Venue_send m (v\<lparr>v_engine := b\<rparr>)) = live_of v"
    "v_engine (Venue_send m (v\<lparr>v_engine := b\<rparr>)) = b" "ob_inv (v_engine v)" "ticks (Venue_send m (v\<lparr>v_engine := b\<rparr>)) = ticks v"
    using assms(1) by (simp_all add: Venue_send_def venue_ok_def)
  show ?thesis using rest_tracked(1) [OF assms(1) i assms(3,2) r t(1-3) assms(4) t(5) assms(5)] rest_engine(2) [OF t(4) i assms(3,2) r] by (simp add: Let_def)
qed

lemma replace_ok:
  assumes "venue_ok v" and "roomy (v_engine v) (ro_quantity u)" and "ro_origUserRefNum u \<noteq> 0" and "ro_userRefNum u \<noteq> 0" and "v_nextOrderRef v \<noteq> 0"
  shows "venue_ok (Venue_onReplaceOrder u ts v)"
proof -
  have t: "tables_ok v" using assms(1) by (simp add: venue_ok_def)
  have rej: "venue_ok (Venue_emitRejected a r c ts v)" for a r c using assms(1) by (simp add: emit_defs)
  show ?thesis
  proof (cases "Venue_findUser (ro_origUserRefNum u) v")
    case None
    then show ?thesis using rej by (simp add: Venue_onReplaceOrder_def Let_def)
  next
    case user: (Some origRef)
    show ?thesis
    proof (cases "Venue_find origRef v")
      case None
      then show ?thesis using user rej by (simp add: Venue_onReplaceOrder_def Let_def)
    next
      case (Some orig)
      note l = user_live(2) [OF t assms(3) user Some]
      let ?v1 = "Venue_dropClient origRef orig (snd (Venue_engine_cancel (lo_handle orig) v))"
      let ?v2 = "?v1\<lparr>v_nextOrderRef := v_nextOrderRef ?v1 + 1\<rparr>"
      let ?v3 = "Venue_emitReplaced u (v_nextOrderRef ?v1) (lo_side orig) ts ?v2"
      have n: "v_nextOrderRef ?v1 \<noteq> 0" using assms(5) by (simp add: Venue_dropClient_def Venue_live_erase_def Venue_engine_cancel_def Let_def split: prod.split)
      note g = gone_ok [OF assms(1) l engine_gone_emits(1) [OF assms(1)]]
      have v3: "venue_ok ?v3" "roomy (v_engine ?v3) (ro_quantity u)" using g(1) g(3) [OF assms(2)] by (simp_all add: emit_defs)
      have mk: "venue_ok (Venue_processOrder (v_nextOrderRef ?v1) (lo_side orig) tick (ro_quantity u) ts True (ro_userRefNum u) (Venue_emitItchDelete origRef ts ?v3))" for tick
        using v3 assms(4) n by (intro processOrder_ok) (simp_all add: emit_defs)
      have qt: "venue_ok (let (h, b) = OrderBook_add_quiet (v_nextOrderRef ?v1) (lo_side orig) tick (ro_quantity u) (v_engine ?v3);
             v4 = Venue_emitItchReplace origRef (v_nextOrderRef ?v1) (ro_quantity u) tick ts (?v3\<lparr>v_engine := b\<rparr>)
           in if h \<noteq> kNilHandle then Venue_trackClient (v_nextOrderRef ?v1) h (lo_side orig) tick (ro_userRefNum u) v4 else v4)"
        if "\<not> Venue_isMarketable (lo_side orig) tick ?v3" "ro_quantity u \<noteq> 0" for tick
        using quiet_ok [OF v3 that(2) n assms(4) that(1)] unfolding Venue_emitItchReplace_def by (simp only: Let_def split: prod.split) blast
      show ?thesis
        using user Some rej mk qt by (simp add: Venue_onReplaceOrder_def Venue_takeRef_def Let_def split: option.split)
    qed
  qed
qed

section \<open>Synthetic orders and the mirror\<close>

lemma cancelSynthetic_ok:
  assumes "venue_ok v" and "ref \<noteq> 0"
  shows "venue_ok (Venue_cancelSynthetic ref ts v)"
proof -
  have t: "tables_ok v" using assms(1) by (simp add: venue_ok_def)
  then obtain m where m: "FlatHashMap_take ref (v_live v) = (live_of v ref, m)" "fm_inv m" "fm_map m = (live_of v)(ref := None)"
    using take_correct [of "v_live v" ref] assms(2) by (auto simp: tables_ok_def live_of_def)
  have "venue_ok (Venue_emitItchDelete ref ts (snd (Venue_engine_cancel (lo_handle l) (v\<lparr>v_live := m\<rparr>))))" if l: "live_of v ref = Some l" for l
  proof -
    obtain r b where e: "OrderBook_cancel (lo_handle l) (v_engine v) = (r, b)" by fastforce
    show ?thesis by (rule gone_venue [OF assms(1) l e])
      (use t m(2,3) e in \<open>simp_all add: Venue_engine_cancel_def emit_defs tables_ok_def users_of_def live_of_def\<close>)
  qed
  then show ?thesis using m(1) assms(1) by (auto simp: Venue_cancelSynthetic_def split: option.split)
qed

lemma less_after: "q \<noteq> 0 \<Longrightarrow> \<not> c \<le> q \<Longrightarrow> c - q < c \<and> c - q \<noteq> (0 :: Quantity)"
  using unat_gt_0 [of q] by (auto simp: word_less_nat_alt word_le_nat_alt unat_sub)

lemma fillClient_ok:
  assumes "venue_ok v" and "ref \<noteq> 0"
  shows "venue_ok (Venue_fillClient ref qty ts v)" and "roomy (v_engine v) q \<Longrightarrow> roomy (v_engine (Venue_fillClient ref qty ts v)) q"
proof -
  have t: "tables_ok v" using assms(1) by (simp add: venue_ok_def)
  let ?w = "\<lambda>l. Venue_emitExecuted (lo_userRef l) qty (lo_tick l) 0x41 (v_nextMatch v) ts (Venue_emitItchExecuted ref qty (v_nextMatch v) ts (v\<lparr>v_nextMatch := v_nextMatch v + 1\<rparr>))"
  have w: "venue_ok (?w l)" "live_of (?w l) = live_of v" "v_engine (?w l) = v_engine v" "Venue_order h (?w l) = Venue_order h v" for l :: LiveOrder and h
    using assms(1) by (simp_all add: emit_defs Venue_order_def)
  have "venue_ok (Venue_fillClient ref qty ts v) \<and> (roomy (v_engine v) q \<longrightarrow> roomy (v_engine (Venue_fillClient ref qty ts v)) q)"
  proof (cases "Venue_find ref v")
    case None
    then show ?thesis using assms(1) by (simp add: Venue_fillClient_def)
  next
    case (Some l)
    then have l: "live_of v ref = Some l" using find_live [OF t assms(2)] by simp
    then have l': "live_of (?w l) ref = Some l" using w(2) by simp
    note g = gone_ok [OF w(1) l' engine_gone_emits(1) [OF w(1)]]
    have "venue_ok (snd (Venue_engine_reduce (lo_handle l) (o_qty (Venue_order (lo_handle l) v) - qty) (?w l))) \<and>
      (roomy (v_engine v) q \<longrightarrow> roomy (v_engine (snd (Venue_engine_reduce (lo_handle l) (o_qty (Venue_order (lo_handle l) v) - qty) (?w l)))) q)"
      if "qty \<noteq> 0" "\<not> o_qty (Venue_order (lo_handle l) v) \<le> qty"
    proof -
      let ?c = "o_qty (Venue_order (lo_handle l) v)"
      have "?c - qty < o_qty (Venue_order (lo_handle l) (?w l))" "?c - qty \<noteq> 0" using less_after [OF that] w(4) by simp_all
      from smaller_venue(1,2) [OF w(1) l' this] show ?thesis using w(3) by simp
    qed
    then show ?thesis using Some g assms(1) w(3,4) by (simp add: Venue_fillClient_def Let_def)
  qed
  then show "venue_ok (Venue_fillClient ref qty ts v)" "roomy (v_engine v) q \<Longrightarrow> roomy (v_engine (Venue_fillClient ref qty ts v)) q" by simp_all
qed

lemma fillClient_refs:
  assumes "Venue_find ref v = Some l" and "qty \<noteq> 0"
  shows "length (v_clientRefs (Venue_fillClient ref qty ts v)) =
    (if o_qty (Venue_order (lo_handle l) v) \<le> qty \<and> ref \<in> set (v_clientRefs v) then length (v_clientRefs v) - 1 else length (v_clientRefs v))"
  using assms by (simp add: Venue_fillClient_def emit_defs Venue_order_def Venue_dropClient_def Venue_live_erase_def Venue_engine_cancel_def
      Venue_engine_reduce_def length_swap_pop Let_def split: prod.split)

lemma stats_same [simp]:
  "venue_ok (mirror_upd f v) = venue_ok v" "tables_ok (mirror_upd f v) = tables_ok v" "live_of (mirror_upd f v) = live_of v" "v_engine (mirror_upd f v) = v_engine v"
  "v_clientRefs (mirror_upd f v) = v_clientRefs v" "Venue_find r (mirror_upd f v) = Venue_find r v" "Venue_order h (mirror_upd f v) = Venue_order h v"
  "v_nextOrderRef (mirror_upd f v) = v_nextOrderRef v"
  by (simp_all add: mirror_upd_def Venue_order_def)

text \<open>The search finds a client order that is in the book, or none.\<close>

lemma cross_scan_found:
  assumes "fold (cross_scan side tick v) (v_clientRefs v) (0, kNilHandle, 0) = (best, h, t)"
  shows "best = 0 \<or> best \<in> set (v_clientRefs v) \<and> (\<exists>l. Venue_find best v = Some l \<and> lo_handle l = h)"
proof -
  let ?P = "\<lambda>(best, h, t). best = 0 \<or> best \<in> set (v_clientRefs v) \<and> (\<exists>l. Venue_find best v = Some l \<and> lo_handle l = h)"
  have "?P (fold (cross_scan side tick v) (v_clientRefs v) (0, kNilHandle, 0))"
    by (rule fold_invariant [where Q = "\<lambda>x. x \<in> set (v_clientRefs v)"]) (auto simp: cross_scan_def split: option.splits if_splits)
  then show ?thesis using assms by simp
qed

lemma index_qty: "venue_ok v \<Longrightarrow> live_of v ref = Some l \<Longrightarrow> o_qty (Venue_order (lo_handle l) v) \<noteq> 0"
  by (simp add: venue_ok_def index_ok_def live_def Venue_order_def)

text \<open>What filling client orders keeps: the invariant, the room, and the orders that are not a client's.\<close>

definition kept :: "Quantity \<Rightarrow> Venue \<Rightarrow> Venue \<Rightarrow> bool" where
  "kept q v w \<longleftrightarrow> venue_ok w \<and> (roomy (v_engine v) q \<longrightarrow> roomy (v_engine w) q) \<and> set (v_clientRefs w) \<subseteq> set (v_clientRefs v) \<and>
     (\<forall>r. r \<notin> set (v_clientRefs v) \<longrightarrow> live_of w r = live_of v r)"

lemma kept_trans: "kept q u v \<Longrightarrow> kept q v w \<Longrightarrow> kept q u w"
  by (auto simp: kept_def)

lemma kept_stats [simp]: "kept q (mirror_upd f v) w = kept q v w"
  by (simp add: kept_def)

lemma fillClient_kept:
  assumes "venue_ok v" and "ref \<noteq> 0" and "ref \<in> set (v_clientRefs v)"
  shows "kept q v (Venue_fillClient ref qty ts v)"
proof -
  have t: "tables_ok v" using assms(1) by (simp add: venue_ok_def)
  have u: "tables_ok (v\<lparr>v_engine := b, v_nextMatch := m, v_out := out\<rparr>)" for b m out using t by simp
  have "set (v_clientRefs (Venue_fillClient ref qty ts v)) \<subseteq> set (v_clientRefs v)"
    using set_swap_pop by (auto simp: Venue_fillClient_def emit_defs Venue_dropClient_def Venue_live_erase_def Venue_engine_cancel_def
        Venue_engine_reduce_def Let_def split: prod.split option.split)
  moreover have "live_of (Venue_fillClient ref qty ts v) r = live_of v r" if "r \<notin> set (v_clientRefs v)" for r
    using that assms(3) dropClient_tables t by (auto simp: Venue_fillClient_def emit_defs Venue_engine_cancel_def
        Venue_engine_reduce_def Let_def split: prod.split option.split)
  ultimately show ?thesis using fillClient_ok [OF assms(1,2)] assms(3) by (auto simp: kept_def)
qed

lemma crossClients_ends:
  assumes "venue_ok v" and "qty = 0 \<and> 1 \<le> n \<or> length (v_clientRefs v) + 2 \<le> n"
  shows "\<exists>rem w. Venue_crossClients n side tick qty ts v = Some (rem, w) \<and> kept q v w \<and> rem \<le> qty"
  using assms
proof (induction n arbitrary: qty v)
  case (Suc n)
  obtain best h t where f: "fold (cross_scan side tick v) (v_clientRefs v) (0, kNilHandle, 0) = (best, h, t)" by (metis prod_cases3)
  show ?case
  proof (cases "qty = 0 \<or> best = 0")
    case True
    then show ?thesis using Suc.prems(1) f by (auto simp: kept_def)
  next
    case False
    then obtain l where l: "best \<in> set (v_clientRefs v)" "Venue_find best v = Some l" "lo_handle l = h" "qty > 0" "best \<noteq> 0"
      using cross_scan_found [OF f] by (auto simp: word_gt_0)
    define cur where "cur = o_qty (Venue_order h v)"
    define fill where "fill = (if qty < cur then qty else cur)"
    define v0 where "v0 = mirror_upd (\<lambda>s. s\<lparr>ms_crossFills := ms_crossFills s + 1\<rparr>) v"
    define w where "w = Venue_fillClient best fill ts v0"
    have t: "tables_ok v" using Suc.prems(1) by (simp add: venue_ok_def)
    have "cur \<noteq> 0" using index_qty [OF Suc.prems(1), of best l] l find_live [OF t l(5)] by (simp add: cur_def)
    then have fill: "fill \<noteq> 0" "fill \<le> qty" using l(4) by (auto simp: fill_def)
    have v0: "venue_ok v0" "Venue_find best v0 = Some l" "v_clientRefs v0 = v_clientRefs v" using Suc.prems(1) l(2) by (simp_all add: v0_def)
    have w: "venue_ok w" "kept q v w" using fillClient_ok(1) [OF v0(1) l(5)] fillClient_kept [OF v0(1) l(5), of q] v0(3) l(1) by (simp_all add: w_def v0_def)
    have len: "length (v_clientRefs w) = (if cur \<le> fill then length (v_clientRefs v) - 1 else length (v_clientRefs v))"
      using fillClient_refs [OF v0(2) fill(1), of ts] l(1,3) v0(3) by (simp add: w_def cur_def v0_def)
    have "0 < length (v_clientRefs v)" using l(1) by (cases "v_clientRefs v") auto
    then have "qty - fill = 0 \<and> 1 \<le> n \<or> length (v_clientRefs w) + 2 \<le> n" using Suc.prems(2) False len by (auto simp: fill_def)
    from Suc.IH [OF w(1) this] obtain rem u where u: "Venue_crossClients n side tick (qty - fill) ts w = Some (rem, u)" "kept q w u" "rem \<le> qty - fill" by blast
    have "Venue_crossClients (Suc n) side tick qty ts v = Venue_crossClients n side tick (qty - fill) ts w"
      using f l(4,5) by (simp add: Let_def cur_def fill_def v0_def w_def)
    then have "Venue_crossClients (Suc n) side tick qty ts v = Some (rem, u)" using u(1) by simp
    moreover have "kept q v u" by (rule kept_trans [OF w(2) u(2)])
    moreover have "rem \<le> qty" using u(3) fill(2) by (simp add: word_le_nat_alt unat_sub)
    ultimately show ?thesis by blast
  qed
qed simp

lemma client_refs_nonzero: "venue_ok v \<Longrightarrow> r \<in> set (v_clientRefs v) \<Longrightarrow> r \<noteq> 0"
  by (auto simp: venue_ok_def tables_ok_def)

lemma shadowFill_ends:
  assumes "venue_ok v" and "qty = 0 \<and> 1 \<le> n \<or> length (v_clientRefs v) - i + 1 \<le> n"
  shows "\<exists>w. Venue_shadowFill n side tick real i qty ts v = Some w \<and> kept q v w"
  using assms
proof (induction n arbitrary: i qty v)
  case (Suc n)
  show ?case
  proof (cases "i < length (v_clientRefs v) \<and> qty > 0")
    case False
    then have "Venue_shadowFill (Suc n) side tick real i qty ts v = Some v" by (simp only: Venue_shadowFill.simps if_False)
    then show ?thesis using Suc.prems(1) by (simp add: kept_def)
  next
    case True
    define ref where "ref = v_clientRefs v ! i"
    have r: "ref \<in> set (v_clientRefs v)" "ref \<noteq> 0" using True client_refs_nonzero [OF Suc.prems(1)] by (simp_all add: ref_def)
    have "length (v_clientRefs v) - (i + 1) + 1 \<le> n" using Suc.prems(2) True by auto
    then obtain w where skip: "Venue_shadowFill n side tick real (i + 1) qty ts v = Some w" "kept q v w" using Suc.IH [OF Suc.prems(1)] by blast
    show ?thesis
    proof (cases "Venue_shadowFill (Suc n) side tick real i qty ts v = Venue_shadowFill n side tick real (i + 1) qty ts v")
      case True
      then show ?thesis using skip by simp
    next
      case ahead: False
      then obtain l where l: "Venue_find ref v = Some l" using True by (auto simp: ref_def [symmetric] split: option.splits)
      define cur where "cur = o_qty (Venue_order (lo_handle l) v)"
      define fill where "fill = (if qty < cur then qty else cur)"
      define v1 where "v1 = mirror_upd (\<lambda>s. s\<lparr>ms_shadowFills := ms_shadowFills s + 1, ms_shadowShares := ms_shadowShares s + ucast fill\<rparr>) v"
      define w where "w = Venue_fillClient ref fill ts v1"
      have e: "Venue_shadowFill (Suc n) side tick real i qty ts v = Venue_shadowFill n side tick real (if fill < cur then i + 1 else i) (qty - fill) ts w"
        using ahead True l by (simp add: Let_def ref_def [symmetric] cur_def [symmetric] fill_def [symmetric] v1_def [symmetric] w_def [symmetric] split: if_splits)
      have "cur \<noteq> 0" using index_qty [OF Suc.prems(1), of ref l] l find_live [of v ref] r(2) Suc.prems(1) by (simp add: cur_def venue_ok_def)
      then have fill: "fill \<noteq> 0" using True by (auto simp: fill_def)
      have v1: "venue_ok v1" "Venue_find ref v1 = Some l" "v_clientRefs v1 = v_clientRefs v" using Suc.prems(1) l by (simp_all add: v1_def)
      have w: "venue_ok w" "kept q v w" using fillClient_ok(1) [OF v1(1) r(2)] fillClient_kept [OF v1(1) r(2), of q] v1(3) r(1) by (simp_all add: w_def v1_def)
      have "length (v_clientRefs w) = (if cur \<le> fill then length (v_clientRefs v) - 1 else length (v_clientRefs v))"
        using fillClient_refs [OF v1(2) fill(1), of ts] r(1) v1(3) by (simp add: w_def cur_def v1_def)
      then have "qty - fill = 0 \<and> 1 \<le> n \<or> length (v_clientRefs w) - (if fill < cur then i + 1 else i) + 1 \<le> n"
        using Suc.prems(2) True by (auto simp: fill_def)
      then obtain u where "Venue_shadowFill n side tick real (if fill < cur then i + 1 else i) (qty - fill) ts w = Some u" "kept q w u" using Suc.IH [OF w(1)] by blast
      then show ?thesis using e kept_trans [OF w(2)] by metis
    qed
  qed
qed simp

declare Venue_crossClients.simps [simp del] Venue_shadowFill.simps [simp del]

lemma kept_refl: "venue_ok v \<Longrightarrow> kept q v v"
  by (simp add: kept_def)

lemma shrinkReal_ok:
  assumes "venue_ok v" and "live_of v ref = Some l"
  shows "venue_ok (Venue_shrinkReal ref l shares v)"
proof -
  let ?c = "o_qty (Venue_order (lo_handle l) v)"
  have "venue_ok (snd (Venue_engine_reduce (lo_handle l) (?c - shares) v))" if "\<not> ?c \<le> shares"
  proof (cases "shares = 0")
    case True
    then show ?thesis using assms(1) by (simp add: Venue_engine_reduce_def OrderBook_reduce_def Venue_order_def Let_def)
  next
    case False
    then show ?thesis using smaller_venue(1) [OF assms] less_after [OF False that] by blast
  qed
  moreover have "venue_ok (Venue_removeReal ref l (mirror_upd f v))" for f using removeReal_ok(1) [of "mirror_upd f v" ref l] assms by simp
  ultimately show ?thesis using removeReal_ok(1) [OF assms] assms(1) by (auto simp: Venue_shrinkReal_def Let_def)
qed

lemma venue_find:
  assumes "venue_ok v" and "ref \<noteq> 0"
  shows "Venue_find ref v = live_of v ref"
  using assms find_live by (simp add: venue_ok_def)

lemma mirrorAdd_ok:
  assumes "venue_ok v" and "roomy (v_engine v) qty" and "ref \<noteq> 0"
  shows "\<exists>w. Venue_mirrorAdd ref side wire qty ts v = Some w \<and> venue_ok w"
proof -
  define v1 where "v1 = mirror_upd (\<lambda>s. s\<lparr>ms_adds := ms_adds s + 1\<rparr>) v"
  have v1: "venue_ok v1" "roomy (v_engine v1) qty" using assms(1,2) by (simp_all add: v1_def)
  show ?thesis
  proof (cases "Venue_validPrice (ucast wire) v1")
    case None
    then show ?thesis using v1(1) by (simp add: Venue_mirrorAdd_def Let_def v1_def [symmetric])
  next
    case (Some tick)
    obtain rem v2 where c: "(if v_clientRefs v1 \<noteq> [] then Venue_crossClients (length (v_clientRefs v1) + 2) side tick qty ts v1 else Some (qty, v1)) = Some (rem, v2)"
      "kept qty v1 v2" "rem \<le> qty"
      using crossClients_ends [OF v1(1), of qty "length (v_clientRefs v1) + 2" side tick ts qty] kept_refl [OF v1(1)] by (cases "v_clientRefs v1 = []") auto
    have v2: "venue_ok v2" "roomy (v_engine v2) rem" using c(2,3) v1(2) roomy_mono by (auto simp: kept_def)
    obtain h b where p: "OrderBook_place ref side tick rem (v_engine v2) = (h, b)" by fastforce
    let ?w = "if h \<noteq> kNilHandle then Venue_live_put ref \<lparr>lo_handle = h, lo_side = side, lo_tick = tick, lo_client = False, lo_userRef = 0\<rparr> (v2\<lparr>v_engine := b\<rparr>)
      else v2\<lparr>v_engine := b\<rparr>"
    have "venue_ok ?w" if "rem \<noteq> 0"
    proof (cases "refused tick rem (v_engine v2)")
      case True
      then have "h = kNilHandle" "b = v_engine v2" using p by (simp_all add: OrderBook_place_def)
      then show ?thesis using v2(1) by simp
    next
      case False
      then have i: "in_range (v_engine v2) tick" and r: "OrderBook_rest ref side tick rem (v_engine v2) = (h, b)"
        using p by (simp_all add: OrderBook_place_def refused_def in_range_def)
      have t: "tables_ok (v2\<lparr>v_engine := b\<rparr>)" "live_of (v2\<lparr>v_engine := b\<rparr>) = live_of v2" "v_engine (v2\<lparr>v_engine := b\<rparr>) = b" "ob_inv (v_engine v2)"
          "ticks (v2\<lparr>v_engine := b\<rparr>) = ticks v2"
        using v2(1) by (simp_all add: venue_ok_def)
      show ?thesis using rest_tracked(2) [OF v2(1) i that v2(2) r t(1-3) assms(3) t(5)] rest_engine(2) [OF t(4) i that v2(2) r] by simp
    qed
    moreover have "Venue_mirrorAdd ref side wire qty ts v = Some (if rem = 0 then v2 else ?w)"
      unfolding Venue_mirrorAdd_def v1_def [symmetric] Let_def Some option.case c(1) prod.case p by simp
    ultimately show ?thesis using v2(1) by simp
  qed
qed

lemma mirrorExecute_ok:
  assumes "venue_ok v" and "ref \<noteq> 0" and "ref \<notin> set (v_clientRefs v)"
  shows "\<exists>w. Venue_mirrorExecute ref shares ts v = Some w \<and> venue_ok w"
proof -
  define v1 where "v1 = mirror_upd (\<lambda>s. s\<lparr>ms_executes := ms_executes s + 1\<rparr>) v"
  have v1: "venue_ok v1" "ref \<notin> set (v_clientRefs v1)" using assms(1,3) by (simp_all add: v1_def)
  show ?thesis
  proof (cases "Venue_find ref v1")
    case None
    then show ?thesis using v1(1) by (simp add: Venue_mirrorExecute_def Let_def v1_def [symmetric])
  next
    case (Some l)
    obtain v2 where c: "(if v_clientRefs v1 \<noteq> [] then Venue_shadowFill (length (v_clientRefs v1) + 2) (lo_side l) (lo_tick l) ref 0 shares ts v1 else Some v1) = Some v2"
      "kept 0 v1 v2"
      using shadowFill_ends [OF v1(1), of shares "length (v_clientRefs v1) + 2" 0 "lo_side l" "lo_tick l" ref ts 0] kept_refl [OF v1(1)] by (cases "v_clientRefs v1 = []") auto
    have "venue_ok (Venue_shrinkReal ref l shares v2)"
      using shrinkReal_ok [of v2 ref l shares] c(2) v1(2) venue_find [OF v1(1) assms(2)] Some by (simp add: kept_def)
    then show ?thesis unfolding Venue_mirrorExecute_def v1_def [symmetric] Let_def Some option.case c(1) by simp
  qed
qed

lemma mirrorCancel_ok: "venue_ok v \<Longrightarrow> ref \<noteq> 0 \<Longrightarrow> venue_ok (Venue_mirrorCancel ref shares v)"
  by (auto simp: Venue_mirrorCancel_def Let_def venue_find intro!: shrinkReal_ok split: option.split)

lemma mirrorDelete_ok: "venue_ok v \<Longrightarrow> ref \<noteq> 0 \<Longrightarrow> venue_ok (Venue_mirrorDelete ref v)"
  by (auto simp: Venue_mirrorDelete_def Let_def venue_find intro!: removeReal_ok split: option.split)

lemma mirrorReplace_ok:
  assumes "venue_ok v" and "roomy (v_engine v) shares" and "origRef \<noteq> 0" and "newRef \<noteq> 0"
  shows "\<exists>w. Venue_mirrorReplace origRef newRef shares wire ts v = Some w \<and> venue_ok w"
proof (cases "Venue_find origRef v")
  case None
  then show ?thesis using assms(1) by (simp add: Venue_mirrorReplace_def Let_def)
next
  case (Some l)
  let ?v1 = "mirror_upd (\<lambda>s. s\<lparr>ms_replaces := ms_replaces s + 1\<rparr>) v"
  have v1: "venue_ok ?v1" "live_of ?v1 origRef = Some l" "roomy (v_engine ?v1) shares" using assms(1,2) Some venue_find [OF assms(1,3)] by simp_all
  note r = removeReal_ok(1) [OF v1(1,2)] removeReal_ok(2) [OF v1]
  show ?thesis using Some mirrorAdd_ok [of "mirror_upd (\<lambda>s. s\<lparr>ms_adds := ms_adds s - 1\<rparr>) (Venue_removeReal origRef l ?v1)" shares newRef "lo_side l" wire ts] r assms(4)
    by (simp add: Venue_mirrorReplace_def Let_def)
qed

lemma resetClients_ok: "venue_ok v \<Longrightarrow> venue_ok (Venue_resetClients ts v)"
proof (induction ts v rule: Venue_resetClients.induct)
  case (1 ts v)
  show ?case
  proof (cases "v_clientRefs v = []")
    case True
    then show ?thesis using 1(2) by (simp add: Venue_resetClients.simps)
  next
    case False
    define ref where "ref = last (v_clientRefs v)"
    have r: "ref \<noteq> 0" using client_refs_nonzero [OF 1(2), of ref] False by (simp add: ref_def)
    have "venue_ok (Venue_resetStep ts v)"
    proof (cases "Venue_find ref v")
      case None
      then show ?thesis using 1(2) False
        by (auto simp: Venue_resetStep_def Let_def ref_def [symmetric] venue_ok_def tables_ok_def users_of_def live_of_def ticks_def dest: in_set_butlastD)
    next
      case (Some l)
      obtain n w where e: "Venue_engine_cancel (lo_handle l) v = (n, w)" by fastforce
      have "live_of v ref = Some l" using Some venue_find [OF 1(2) r] by simp
      then have "venue_ok (Venue_dropClient ref l (Venue_emitCanceled (lo_userRef l) n Cxl_Closed ts (Venue_emitItchDelete ref ts w)))"
        unfolding Venue_emitCanceled_def Venue_emitItchDelete_def
        by (intro gone_ok(1) [OF 1(2)] engine_gone_emits(2) [OF 1(2)] engine_gone_emits(4) [OF 1(2) e])
      then show ?thesis using Some e by (simp add: Venue_resetStep_def Let_def ref_def [symmetric])
    qed
    then have "venue_ok (Venue_resetClients ts (Venue_resetStep ts v))" by (rule 1(1) [OF False])
    then show ?thesis using False by (subst Venue_resetClients.simps) simp
  qed
qed

lemma resetClients_none: "v_clientRefs (Venue_resetClients ts v) = []"
  by (induction ts v rule: Venue_resetClients.induct) (subst Venue_resetClients.simps, simp)

lemma resetDay_ok:
  assumes "venue_ok v"
  shows "venue_ok (Venue_resetDay ts v)"
proof -
  let ?v = "Venue_resetClients ts v"
  have v: "venue_ok ?v" by (rule resetClients_ok [OF assms])
  then have m: "fm_inv (v_live ?v)" "fm_inv (v_byUserRef ?v)" by (simp_all add: venue_ok_def tables_ok_def)
  have "dims (v_engine ?v)" by (rule ob_inv_dims) (use v in \<open>simp add: venue_ok_def\<close>)
  then have "ob_inv (OrderBook_clear (v_engine ?v))" unfolding ob_inv_def by (intro exI) (rule clear_rep)
  then show ?thesis using FlatHashMap_clear_correct [OF m(1)] FlatHashMap_clear_correct [OF m(2)] resetClients_none [of ts v]
    by (simp add: Venue_resetDay_def Let_def venue_ok_def tables_ok_def users_of_def live_of_def index_ok_def)
      (use v in \<open>simp add: venue_ok_def span_def OrderBook_clear_def\<close>)
qed

lemma new_ok:
  assumes "kNoPrice < lo" and "lo \<le> hi" and "hi < 2 ^ 31"
  shows "venue_ok (Venue_new symbol locate lo hi wpt first reserve)"
  using new_rep [OF assms]
  by (auto simp: Venue_new_def venue_ok_def tables_ok_def users_of_def live_of_def index_ok_def ob_inv_def span_def ticks_def countGrowsIn_map OrderBook_new_def Let_def)

section \<open>Runs of a venue\<close>

text \<open>
  The states a venue reaches. The guards are what its callers provide: user references and mirrored references are never the reserved key 0, a
  level has room for the shares of a request, the counter of references has not wrapped to 0, and the recorded feed does not use a reference
  that the venue gave to a client.
\<close>

inductive venue_reach :: "Venue \<Rightarrow> bool" where
  new: "kNoPrice < lo \<Longrightarrow> lo \<le> hi \<Longrightarrow> hi < 2 ^ 31 \<Longrightarrow> venue_reach (Venue_new symbol locate lo hi wirePerTick first reserve)"
| enter: "venue_reach v \<Longrightarrow> roomy (v_engine v) (eo_quantity m) \<Longrightarrow> eo_userRefNum m \<noteq> 0 \<Longrightarrow> v_nextOrderRef v \<noteq> 0 \<Longrightarrow> venue_reach (Venue_onEnterOrder m ts v)"
| cancel: "venue_reach v \<Longrightarrow> co_userRefNum x \<noteq> 0 \<Longrightarrow> venue_reach (Venue_onCancelOrder x ts v)"
| replace: "venue_reach v \<Longrightarrow> roomy (v_engine v) (ro_quantity u) \<Longrightarrow> ro_origUserRefNum u \<noteq> 0 \<Longrightarrow> ro_userRefNum u \<noteq> 0 \<Longrightarrow> v_nextOrderRef v \<noteq> 0 \<Longrightarrow>
    venue_reach (Venue_onReplaceOrder u ts v)"
| inject: "venue_reach v \<Longrightarrow> roomy (v_engine v) qty \<Longrightarrow> v_nextOrderRef v \<noteq> 0 \<Longrightarrow> venue_reach (snd (Venue_injectSynthetic side tick qty ts v))"
| cancelSynthetic: "venue_reach v \<Longrightarrow> ref \<noteq> 0 \<Longrightarrow> venue_reach (Venue_cancelSynthetic ref ts v)"
| mirrorAdd: "venue_reach v \<Longrightarrow> roomy (v_engine v) qty \<Longrightarrow> ref \<noteq> 0 \<Longrightarrow> Venue_mirrorAdd ref side wire qty ts v = Some w \<Longrightarrow> venue_reach w"
| mirrorExecute: "venue_reach v \<Longrightarrow> ref \<noteq> 0 \<Longrightarrow> ref \<notin> set (v_clientRefs v) \<Longrightarrow> Venue_mirrorExecute ref shares ts v = Some w \<Longrightarrow> venue_reach w"
| mirrorCancel: "venue_reach v \<Longrightarrow> ref \<noteq> 0 \<Longrightarrow> venue_reach (Venue_mirrorCancel ref shares v)"
| mirrorDelete: "venue_reach v \<Longrightarrow> ref \<noteq> 0 \<Longrightarrow> venue_reach (Venue_mirrorDelete ref v)"
| mirrorReplace: "venue_reach v \<Longrightarrow> roomy (v_engine v) shares \<Longrightarrow> origRef \<noteq> 0 \<Longrightarrow> newRef \<noteq> 0 \<Longrightarrow> Venue_mirrorReplace origRef newRef shares wire ts v = Some w \<Longrightarrow>
    venue_reach w"
| resetDay: "venue_reach v \<Longrightarrow> venue_reach (Venue_resetDay ts v)"
| sessionEvent: "venue_reach v \<Longrightarrow> venue_reach (Venue_sessionEvent code ts v)"
| stockDirectory: "venue_reach v \<Longrightarrow> venue_reach (Venue_emitStockDirectory ts v)"
| bindLocate: "venue_reach v \<Longrightarrow> venue_reach (Venue_bindLocate locate v)"

lemma inject_ok:
  "venue_ok v \<Longrightarrow> roomy (v_engine v) qty \<Longrightarrow> v_nextOrderRef v \<noteq> 0 \<Longrightarrow> venue_ok (snd (Venue_injectSynthetic side tick qty ts v))"
  by (simp add: Venue_injectSynthetic_def Venue_takeRef_def processOrder_ok)

lemma bindLocate_ok: "venue_ok v \<Longrightarrow> venue_ok (Venue_bindLocate locate v)"
  by (simp add: Venue_bindLocate_def venue_ok_def tables_ok_def users_of_def live_of_def ticks_def)

lemma venue_reach_ok: "venue_reach v \<Longrightarrow> venue_ok v"
proof (induction rule: venue_reach.induct)
  case (mirrorAdd v qty ref side wire ts w)
  then show ?case using mirrorAdd_ok [of v qty ref side wire ts] by simp
next
  case (mirrorExecute v ref shares ts w)
  then show ?case using mirrorExecute_ok [of v ref shares ts] by simp
next
  case (mirrorReplace v shares origRef newRef wire ts w)
  then show ?case using mirrorReplace_ok [of v shares origRef newRef wire ts] by simp
next
  case (sessionEvent v code ts)
  then show ?case by (simp add: emit_defs)
next
  case (stockDirectory v ts)
  then show ?case by (simp add: emit_defs)
qed (rule new_ok enter_ok cancel_ok replace_ok inject_ok cancelSynthetic_ok mirrorCancel_ok mirrorDelete_ok resetDay_ok bindLocate_ok; assumption)+

section \<open>Every share is accounted for\<close>

text \<open>The shares of an order that a message tells its client about: executed as the aggressor, resting in the book, or cancelled.\<close>

definition accounts_for :: "OrderId \<Rightarrow> u32 \<Rightarrow> VenueMsg \<Rightarrow> nat" where
  "accounts_for ref user m =
     (case m of
        OeExecuted x \<Rightarrow> if ex_userRefNum x = user \<and> ex_liquidityFlag x = 0x52 then unat (ex_quantity x) else 0
      | MdAdd a \<Rightarrow> if ao_orderRef a = ref then unat (ao_shares a) else 0
      | OeCanceled c \<Rightarrow> if ca_userRefNum c = user then unat (ca_quantity c) else 0
      | _ \<Rightarrow> 0)"

definition told :: "OrderId \<Rightarrow> u32 \<Rightarrow> VenueMsg list \<Rightarrow> nat" where
  "told ref user ms = sum_list (map (accounts_for ref user) ms)"

lemma told_simps [simp]: "told ref user [] = 0" "told ref user (m # ms) = accounts_for ref user m + told ref user ms"
  "told ref user (ms @ ms') = told ref user ms + told ref user ms'"
  by (simp_all add: told_def)

lemma out_tables [simp]: "v_out (Venue_live_put r l v) = v_out v" "v_out (Venue_live_erase r v) = v_out v" "v_out (Venue_trackClient r h s p u v) = v_out v"
  "v_out (Venue_dropClient r l v) = v_out v"
  by (simp_all add: Venue_live_put_def Venue_live_erase_def Venue_trackClient_def Venue_dropClient_def Let_def)

lemma handleTrade_told: "\<exists>ms. v_out (Venue_handleTrade ts True user t v) = v_out v @ ms \<and> told ref user ms = unat (t_qty t)"
  by (auto simp: Venue_handleTrade_def emit_defs accounts_for_def Let_def split: option.split)

lemma trades_told: "\<exists>ms. v_out (fold (Venue_handleTrade ts True user) trades v) = v_out v @ ms \<and> told ref user ms = filled trades"
proof (induction trades arbitrary: v)
  case (Cons t trades)
  obtain a where a: "v_out (Venue_handleTrade ts True user t v) = v_out v @ a" "told ref user a = unat (t_qty t)" using handleTrade_told by blast
  obtain b where "v_out (fold (Venue_handleTrade ts True user) trades (Venue_handleTrade ts True user t v)) = v_out (Venue_handleTrade ts True user t v) @ b"
    "told ref user b = filled trades" using Cons by blast
  then show ?case using a by (intro exI [of _ "a @ b"]) (simp add: filled_def)
qed (simp add: filled_def)

lemma match_told:
  assumes "ob_inv (v_engine v)" and "\<not> refused tick qty (v_engine v)"
    and "OrderBook_match ref side tick qty (Venue_handleTrade ts True user) v (v_engine v) = (rem, v1, b)"
  shows "\<exists>ms. v_out v1 = v_out v @ ms \<and> told ref user ms + unat rem = unat qty"
proof -
  obtain L F where rep: "ob_rep (v_engine v) L F" using assms(1) by (auto simp: ob_inv_def)
  from match_refines [OF rep assms(2), of ref side "Venue_handleTrade ts True user" v] assms(3) obtain trades where
    m: "spec_match ref side tick qty (ob_minPrice (v_engine v)) (ob_maxPrice (v_engine v)) (view (v_engine v)) = (trades, rem, view b)"
      "v1 = fold (Venue_handleTrade ts True user) trades v" by auto
  show ?thesis using trades_told [of ts user trades v ref] spec_match_facts(1) [OF m(1)] m(2) by auto
qed

lemma processImmediate_told:
  assumes "venue_ok v" and "\<not> refused tick qty (v_engine v)"
  shows "\<exists>ms. v_out (Venue_processImmediate ref side tick qty ts user v) = v_out v @ ms \<and> told ref user ms = unat qty"
proof -
  obtain rem v1 b where m: "OrderBook_match ref side tick qty (Venue_handleTrade ts True user) v (v_engine v) = (rem, v1, b)" by (metis prod_cases3)
  obtain ms where ms: "v_out v1 = v_out v @ ms" "told ref user ms + unat rem = unat qty"
    using match_told [OF _ assms(2) m] assms(1) by (auto simp: venue_ok_def)
  show ?thesis
  proof (cases "rem = 0")
    case True
    then show ?thesis using m ms by (simp add: Venue_processImmediate_def Let_def)
  next
    case False
    then show ?thesis using m ms by (simp add: Venue_processImmediate_def Let_def word_gt_0 Venue_emitCanceled_def Venue_send_def accounts_for_def)
  qed
qed

lemma processOrder_told:
  assumes "venue_ok v" and "\<not> refused tick qty (v_engine v)" and "roomy (v_engine v) qty"
  shows "\<exists>ms. v_out (Venue_processOrder ref side tick qty ts True user v) = v_out v @ ms \<and> told ref user ms = unat qty"
proof -
  obtain rem v1 b where m: "OrderBook_match ref side tick qty (Venue_handleTrade ts True user) v (v_engine v) = (rem, v1, b)" by (metis prod_cases3)
  obtain ms where ms: "v_out v1 = v_out v @ ms" "told ref user ms + unat rem = unat qty"
    using match_told [OF _ assms(2) m] assms(1) by (auto simp: venue_ok_def)
  note ok = match_venue [OF assms(1,3,2) m]
  have inv: "ob_inv b" using ok(1) by (simp add: venue_ok_def)
  show ?thesis
  proof (cases "rem = 0")
    case True
    then show ?thesis using m ms assms(2) by (simp add: Venue_processOrder_def OrderBook_add_def)
  next
    case False
    obtain h b' where r: "OrderBook_rest ref side tick rem b = (h, b')" by fastforce
    note re = rest_engine(2,7) [OF inv ok(3) False ok(2) r]
    show ?thesis using m ms assms(2) False r re
      by (simp add: Venue_processOrder_def OrderBook_add_def word_gt_0 Let_def Venue_order_def Venue_emitItchAdd_def Venue_send_def accounts_for_def)
  qed
qed

text \<open>A price that the venue accepts is in the engine's band.\<close>

lemma validPrice_in_band:
  assumes "Venue_validPrice w v = Some tick" and "venue_ok v" and "0 \<le> v_minTick v"
  shows "ob_minPrice (v_engine v) \<le> tick \<and> tick \<le> ob_maxPrice (v_engine v)"
proof -
  define t where "t = w div ucast (v_wirePerTick v)"
  have d: "dims (v_engine v)" "span (v_engine v) = ticks v" using assms(2) ob_inv_dims by (simp_all add: venue_ok_def)
  then have b: "ob_minPrice (v_engine v) = v_minTick v" "ob_maxPrice (v_engine v) = v_maxTick v" "v_minTick v \<le> v_maxTick v" "v_maxTick v < 2 ^ 31"
    by (auto simp: dims_def span_def ticks_def)
  have t: "\<not> t < of_int (v_minTick v)" "\<not> t > of_int (v_maxTick v)" "tick = sint (ucast t :: u32)"
    using assms(1) by (auto simp: Venue_validPrice_def t_def [symmetric] Let_def split: if_splits)
  have i: "uint (of_int x :: u64) = x" if "0 \<le> x" "x < 2 ^ 31" for x using that by (simp add: uint_word_of_int)
  have u: "v_minTick v \<le> uint t" "uint t \<le> v_maxTick v" using t(1,2) b(3,4) assms(3) i [of "v_minTick v"] i [of "v_maxTick v"] by (simp_all add: word_less_def)
  then have "uint (ucast t :: u32) = uint t" using b(4) by (simp add: unsigned_ucast_eq take_bit_int_eq_self)
  moreover have "signed_take_bit 31 (uint t) = uint t"
    by (rule signed_take_bit_int_eq_self) (use u b(4) uint_ge_0 [of t] in \<open>linarith, simp\<close>)
  ultimately have "sint (ucast t :: u32) = uint t" by (simp add: sint_uint)
  then show ?thesis using t(3) u b by simp
qed

text \<open>An order that cannot trade is in the index when the venue has taken it.\<close>

lemma processOrder_rests:
  assumes "venue_ok v" and "\<not> refused tick qty (v_engine v)" and "roomy (v_engine v) qty" and "\<not> Venue_isMarketable side tick v" and "ref \<noteq> 0" and "user \<noteq> 0"
  shows "\<exists>h. live_of (Venue_processOrder ref side tick qty ts True user v) =
    (live_of v)(ref \<mapsto> \<lparr>lo_handle = h, lo_side = side, lo_tick = tick, lo_client = True, lo_userRef = user\<rparr>)"
proof -
  have i: "in_range (v_engine v) tick" "qty \<noteq> 0" "ob_inv (v_engine v)" "tables_ok v" using assms(1,2) by (simp_all add: refused_def in_range_def venue_ok_def)
  obtain h b where r: "OrderBook_rest ref side tick qty (v_engine v) = (h, b)" by fastforce
  let ?w = "Venue_emitItchAdd ref side tick (o_qty (Venue_order h (v\<lparr>v_engine := b\<rparr>))) ts (v\<lparr>v_engine := b\<rparr>)"
  have "Venue_processOrder ref side tick qty ts True user v = Venue_trackClient ref h side tick user ?w"
    using i(2) r rest_engine(2) [OF i(3,1,2) assms(3) r] assms(2) match_unmarketable [OF assms(4,2), of ref "Venue_handleTrade ts True user" v]
    by (simp add: Venue_processOrder_def OrderBook_add_def word_gt_0 Let_def)
  moreover have "tables_ok ?w" "live_of ?w = live_of v" using i(4) by (simp_all add: emit_defs)
  ultimately show ?thesis using trackClient_tables [of ?w ref user h side tick] assms(5,6) by auto
qed

section \<open>Properties\<close>

text \<open>
  C5. In every state a venue reaches, the engine's invariant holds and the index tells the truth: the entry of a reference gives the handle of an
  order that is in the book, with that reference, with the side and the price of the entry and shares left. The cancels, replacements
  and fills that go through the index therefore act on the order they name.
\<close>

theorem Venue_index_agrees:
  assumes "venue_reach v" and "ref \<noteq> 0" and "Venue_find ref v = Some l"
  shows "ob_inv (v_engine v) \<and> lo_handle l < length (ob_pool (v_engine v)) \<and> o_id (Venue_order (lo_handle l) v) = ref \<and>
    o_side (Venue_order (lo_handle l) v) = lo_side l \<and> o_price (Venue_order (lo_handle l) v) = lo_tick l \<and> o_qty (Venue_order (lo_handle l) v) \<noteq> 0"
  using venue_reach_ok [OF assms(1)] venue_find [OF venue_reach_ok [OF assms(1)] assms(2)] assms(3)
  by (simp add: venue_ok_def index_ok_def live_def Venue_order_def)

definition demo_venue :: Venue where
  "demo_venue = Venue_new [0x41] 1 100 200 100 1 16"

definition demo_enter :: EnterOrder where
  "demo_enter = \<lparr>eo_type = 0x4f, eo_userRefNum = 7, eo_side = 0x42, eo_quantity = 10, eo_symbol = [0x41, 0x20], eo_price = 15000, eo_timeInForce = 0x30,
     eo_display = 0x59, eo_capacity = 0x41, eo_imSweepEligibility = 0x4e, eo_crossType = 0x4e, eo_clOrdId = [], eo_appendageLength = 0\<rparr>"

lemma demo_reach: "venue_reach demo_venue"
  unfolding demo_venue_def by (rule new) (simp_all add: kNoPrice_def)

lemma demo_engine: "v_engine demo_venue = OrderBook_new 100 200" "v_nextOrderRef demo_venue = 1" "v_clientRefs demo_venue = []" "v_out demo_venue = []"
    "v_symbol demo_venue = [0x41]" "v_minTick demo_venue = 100" "v_maxTick demo_venue = 200" "v_wirePerTick demo_venue = 100"
  by (simp_all add: demo_venue_def Venue_new_def)

lemma demo_roomy: "roomy (v_engine demo_venue) q"
proof -
  have "ob_rep (OrderBook_new 100 200) (\<lambda>s p. []) []" by (rule new_rep) (simp_all add: kNoPrice_def)
  then have "view (OrderBook_new 100 200) = (\<lambda>s p. [])" by (rule empty_view)
  then show ?thesis unfolding roomy_def room_def demo_engine(1) using unat_lt2p [of q] by (simp add: OrderBook_new_def Let_def kNilHandle_def)
qed

lemma demo_checks: "Venue_parseSide (eo_side demo_enter) = Some Buy" "eo_quantity demo_enter \<noteq> 0" "alpha_view (eo_symbol demo_enter) = v_symbol demo_venue"
    "Venue_validPrice (eo_price demo_enter) demo_venue = Some 150"
proof -
  show "Venue_parseSide (eo_side demo_enter) = Some Buy" "eo_quantity demo_enter \<noteq> 0" by (simp_all add: demo_enter_def Venue_parseSide_def)
  show "alpha_view (eo_symbol demo_enter) = v_symbol demo_venue" unfolding demo_engine(5) demo_enter_def by code_simp
  show "Venue_validPrice (eo_price demo_enter) demo_venue = Some 150" unfolding Venue_validPrice_def demo_engine demo_enter_def by code_simp
qed

lemma demo_find: "\<exists>h. Venue_find 1 (Venue_onEnterOrder demo_enter 5 demo_venue) = Some \<lparr>lo_handle = h, lo_side = Buy, lo_tick = 150, lo_client = True, lo_userRef = 7\<rparr>"
proof -
  let ?v = "Venue_emitAccepted demo_enter 1 State_Live 5 (demo_venue\<lparr>v_nextOrderRef := 2\<rparr>)"
  have e: "Venue_onEnterOrder demo_enter 5 demo_venue = Venue_processOrder 1 Buy 150 10 5 True 7 ?v"
    using demo_checks demo_engine(2) by (simp add: Venue_onEnterOrder_def Venue_takeRef_def demo_enter_def)
  have v: "venue_ok ?v" "v_engine ?v = OrderBook_new 100 200" using venue_reach_ok [OF demo_reach] demo_engine(1) by (simp_all add: emit_defs)
  then have p: "\<not> refused 150 10 (v_engine ?v)" "roomy (v_engine ?v) 10" "\<not> Venue_isMarketable Buy 150 ?v"
    using demo_roomy [of 10] demo_engine(1) by (simp_all add: refused_def Venue_isMarketable_def OrderBook_new_def)
  have "venue_ok (Venue_onEnterOrder demo_enter 5 demo_venue)"
    by (rule enter_ok) (use venue_reach_ok [OF demo_reach] demo_roomy demo_engine(2) in \<open>simp_all add: demo_enter_def\<close>)
  then show ?thesis using processOrder_rests [OF v(1) p, of 1 7 5] venue_find [of "Venue_onEnterOrder demo_enter 5 demo_venue" 1] e by auto
qed

theorem Venue_index_agrees_witness:
  "\<exists>l. Venue_find 1 (Venue_onEnterOrder demo_enter 5 demo_venue) = Some l \<and> o_id (Venue_order (lo_handle l) (Venue_onEnterOrder demo_enter 5 demo_venue)) = 1 \<and>
     o_price (Venue_order (lo_handle l) (Venue_onEnterOrder demo_enter 5 demo_venue)) = 150"
proof -
  have r: "venue_reach (Venue_onEnterOrder demo_enter 5 demo_venue)"
    by (rule enter [OF demo_reach demo_roomy]) (simp_all add: demo_enter_def demo_engine(2))
  obtain h where h: "Venue_find 1 (Venue_onEnterOrder demo_enter 5 demo_venue) = Some \<lparr>lo_handle = h, lo_side = Buy, lo_tick = 150, lo_client = True, lo_userRef = 7\<rparr>"
    using demo_find by blast
  show ?thesis using Venue_index_agrees [OF r _ h] h by simp
qed

text \<open>
  C36. The loops of the mirror end: in every state a venue reaches, an addition, an execution and a replacement of the recorded feed return, however
  many client orders they fill, with as many rounds as there are client orders and two more.
\<close>

theorem Venue_mirror_ends:
  assumes "venue_reach v" and "roomy (v_engine v) qty" and "ref \<noteq> 0" and "newRef \<noteq> 0" and "ref \<notin> set (v_clientRefs v)"
  shows "(\<exists>w. Venue_mirrorAdd ref side wire qty ts v = Some w) \<and> (\<exists>w. Venue_mirrorExecute ref qty ts v = Some w) \<and>
    (\<exists>w. Venue_mirrorReplace ref newRef qty wire ts v = Some w)"
  using mirrorAdd_ok [OF _ assms(2,3)] mirrorExecute_ok [OF _ assms(3,5)] mirrorReplace_ok [OF _ assms(2-4)] venue_reach_ok [OF assms(1)] by blast

theorem Venue_mirror_ends_witness: "\<exists>w. Venue_mirrorAdd 9 Sell 15000 10 5 demo_venue = Some w"
  using Venue_mirror_ends [OF demo_reach demo_roomy, of 9 10 Sell 15000 10 5] demo_engine(3) by simp

text \<open>
  C6. The client is told of every share: when the checks of \<^verbatim>\<open>onEnterOrder\<close> pass, the venue first confirms the order, and the messages that follow account
  for exactly the quantity of the order, as executions against resting orders, as the quantity of the order it adds to the
  book, or as the quantity it cancels when the order was to be executed at once or not at all.
\<close>

theorem Venue_enter_accounts:
  assumes "venue_reach v" and "0 \<le> v_minTick v" and "roomy (v_engine v) (eo_quantity m)" and "Venue_parseSide (eo_side m) = Some side" and "eo_quantity m \<noteq> 0"
    and "alpha_view (eo_symbol m) = v_symbol v" and "Venue_validPrice (eo_price m) v = Some tick"
  shows "\<exists>a ms. v_out (Venue_onEnterOrder m ts v) = v_out v @ OeAccepted a # ms \<and> ac_userRefNum a = eo_userRefNum m \<and>
    ac_orderReferenceNumber a = v_nextOrderRef v \<and> ac_quantity a = eo_quantity m \<and> told (v_nextOrderRef v) (eo_userRefNum m) ms = unat (eo_quantity m)"
proof -
  let ?imm = "eo_timeInForce m = TimeInForce_code Tif_IOC"
  let ?v = "Venue_emitAccepted m (v_nextOrderRef v) (if ?imm then State_Dead else State_Live) ts (v\<lparr>v_nextOrderRef := v_nextOrderRef v + 1\<rparr>)"
  have ok: "venue_ok v" by (rule venue_reach_ok [OF assms(1)])
  have v: "venue_ok ?v" "v_engine ?v = v_engine v" using ok by (simp_all add: emit_defs)
  then have nr: "\<not> refused tick (eo_quantity m) (v_engine ?v)" "roomy (v_engine ?v) (eo_quantity m)"
    using validPrice_in_band [OF assms(7) ok assms(2)] assms(3,5) by (auto simp: refused_def)
  obtain a where a: "v_out ?v = v_out v @ [OeAccepted a]" "ac_userRefNum a = eo_userRefNum m" "ac_orderReferenceNumber a = v_nextOrderRef v" "ac_quantity a = eo_quantity m"
    by (simp add: Venue_emitAccepted_def Venue_send_def)
  have "\<exists>ms. v_out (Venue_onEnterOrder m ts v) = v_out ?v @ ms \<and> told (v_nextOrderRef v) (eo_userRefNum m) ms = unat (eo_quantity m)"
    using processImmediate_told [OF v(1) nr(1), of "v_nextOrderRef v" side ts "eo_userRefNum m"]
      processOrder_told [OF v(1) nr, of "v_nextOrderRef v" side ts "eo_userRefNum m"] assms(4-7)
    by (simp add: Venue_onEnterOrder_def Venue_takeRef_def Let_def split: if_splits)
  then show ?thesis using a by auto
qed

theorem Venue_enter_accounts_witness: "\<exists>a ms. v_out (Venue_onEnterOrder demo_enter 5 demo_venue) = OeAccepted a # ms \<and> told 1 7 ms = 10"
  using Venue_enter_accounts [OF demo_reach _ demo_roomy demo_checks, of 5] demo_engine(2,4,6) by (auto simp: demo_enter_def)

end
