(* ===== verification/BookBuilder.thy ===== *)
theory BookBuilder
  imports OrderBook Itch50 LevelBits DivBy FlatHashMap "HOL-Library.Signed_Division"
begin

text \<open>
  The feed-driven book of \<^verbatim>\<open>dut/BookBuilder.hpp\<close> and \<^verbatim>\<open>dut/BookBuilder.cpp\<close>: a band of price levels per side, the level
  bitmaps, the resting orders by reference, and the shares that lie outside the band (\<^emph>\<open>parked\<close>). Prices are
  integers; the sources use \<^verbatim>\<open>int32_t\<close>, and the ranges in the properties keep every sum inside it. Vectors
  are lists, \<^verbatim>\<open>size_t\<close> is a natural number, a counter that the owner may leave out is an option.

  The only floating-point expression, \<^verbatim>\<open>floor(price * bandFraction / tick)\<close>, is a parameter: \<open>bc_byPrice\<close> is
  \<open>None\<close> for a fraction that is not positive and otherwise the function the doubles compute.
\<close>

section \<open>Data\<close>

record BookConfig =
  bc_tickWire :: Price
  bc_subDollarTickWire :: Price
  bc_bandTicks :: nat
  bc_maxBandTicks :: nat
  bc_byPrice :: "(Price \<Rightarrow> Price \<Rightarrow> nat) option"
  bc_maxOrders :: nat
  bc_ownRefMin :: OrderId
  bc_rehashes :: bool
  bc_reanchors :: "u64 option"
  bc_rescans :: "u64 option"
  bc_anchorPrice :: Price

record Resting =
  r_price :: Price
  r_bits :: u32

definition kSharesMask :: u32 where "kSharesMask = push_bit 30 1 - 1"
definition kSell :: u32 where "kSell = push_bit 30 1"
definition kOwn :: u32 where "kOwn = push_bit 31 1"

definition Resting_zero :: Resting where
  "Resting_zero = \<lparr>r_price = 0, r_bits = 0\<rparr>"

definition Resting_make :: "Price \<Rightarrow> Quantity \<Rightarrow> Side \<Rightarrow> bool \<Rightarrow> Resting" where
  "Resting_make price shares side own =
     (let sh = (if shares > kSharesMask then kSharesMask else shares)
      in \<lparr>r_price = price, r_bits = sh OR (if side = Sell then kSell else 0) OR (if own then kOwn else 0)\<rparr>)"

definition Resting_shares :: "Resting \<Rightarrow> Quantity" where
  "Resting_shares r = r_bits r AND kSharesMask"

definition Resting_side :: "Resting \<Rightarrow> Side" where
  "Resting_side r = (if r_bits r AND kSell \<noteq> 0 then Sell else Buy)"

definition Resting_own :: "Resting \<Rightarrow> bool" where
  "Resting_own r \<longleftrightarrow> r_bits r AND kOwn \<noteq> 0"

definition Resting_setShares :: "Quantity \<Rightarrow> Resting \<Rightarrow> Resting" where
  "Resting_setShares shares r = r\<lparr>r_bits := (r_bits r AND NOT kSharesMask) OR (shares AND kSharesMask)\<rparr>"

record BookBuilder =
  bb_minPrice :: Price
  bb_maxPrice :: Price
  bb_tickWire :: Price
  bb_ownRefMin :: OrderId
  bb_own :: nat
  bb_tickDiv :: DivBy
  bb_bestBid :: Price
  bb_bestAsk :: Price
  bb_topVersion :: u32
  bb_bandTicks :: nat
  bb_maxBandTicks :: nat
  bb_byPrice :: "(Price \<Rightarrow> Price \<Rightarrow> nat) option"
  bb_baseTick :: Price
  bb_subDollarTick :: Price
  bb_anchored :: bool
  bb_oob :: u64
  bb_reanchors :: u32
  bb_reanchorsOut :: "u64 option"
  bb_rescansOut :: "u64 option"
  bb_parkedShares :: u64
  bb_epoch :: u32
  bb_parkedLo :: Price
  bb_parkedHi :: Price
  bb_bidSize :: "Quantity list"
  bb_askSize :: "Quantity list"
  bb_bidBits :: LevelBits
  bb_askBits :: LevelBits
  bb_orders :: "(64 word, Resting) FlatHashMap"

definition LevelBits_zero :: LevelBits where
  "LevelBits_zero = \<lparr>lb_l0 = [], lb_l1 = []\<rparr>"

section \<open>The band\<close>

definition BookBuilder_inRange :: "Price \<Rightarrow> BookBuilder \<Rightarrow> bool" where
  "BookBuilder_inRange price b \<longleftrightarrow> price \<ge> bb_minPrice b \<and> price \<le> bb_maxPrice b"

definition BookBuilder_inBand :: "Price \<Rightarrow> BookBuilder \<Rightarrow> bool" where
  "BookBuilder_inBand price b \<longleftrightarrow>
     BookBuilder_inRange price b \<and>
     (let off = of_int (price - bb_minPrice b) :: u32
      in off = DivBy_apply (bb_tickDiv b) off * of_int (bb_tickWire b))"

definition BookBuilder_tickFor :: "Price \<Rightarrow> BookBuilder \<Rightarrow> Price" where
  "BookBuilder_tickFor price b =
     (if bb_subDollarTick b > 0 \<and> price < 10000 then bb_subDollarTick b else bb_baseTick b)"

definition BookBuilder_needsAnchor :: "Price \<Rightarrow> BookBuilder \<Rightarrow> bool" where
  "BookBuilder_needsAnchor price b \<longleftrightarrow> \<not> BookBuilder_inRange price b \<or> BookBuilder_tickFor price b < bb_tickWire b"

definition BookBuilder_index :: "Price \<Rightarrow> BookBuilder \<Rightarrow> nat" where
  "BookBuilder_index price b = unat (DivBy_apply (bb_tickDiv b) (of_int (price - bb_minPrice b)))"

definition level_price :: "BookBuilder \<Rightarrow> nat \<Rightarrow> Price" where
  "level_price b j = bb_minPrice b + int j * bb_tickWire b"

definition price_or_none :: "BookBuilder \<Rightarrow> nat \<Rightarrow> Price" where
  "price_or_none b j = (if j = LevelBits_kNone then kNoPrice else level_price b j)"

definition BookBuilder_sizeAt :: "Side \<Rightarrow> Price \<Rightarrow> BookBuilder \<Rightarrow> Quantity" where
  "BookBuilder_sizeAt side price b =
     (if \<not> BookBuilder_inBand price b then 0
      else if side = Buy then bb_bidSize b ! BookBuilder_index price b
      else bb_askSize b ! BookBuilder_index price b)"

section \<open>Levels and parked shares\<close>

definition BookBuilder_park :: "Price \<Rightarrow> Quantity \<Rightarrow> BookBuilder \<Rightarrow> BookBuilder" where
  "BookBuilder_park price shares b =
     b\<lparr>bb_parkedShares := bb_parkedShares b + ucast shares,
       bb_parkedLo := (if bb_parkedLo b = kNoPrice \<or> price < bb_parkedLo b then price else bb_parkedLo b),
       bb_parkedHi := (if bb_parkedHi b = kNoPrice \<or> price > bb_parkedHi b then price else bb_parkedHi b)\<rparr>"

definition BookBuilder_unpark :: "Quantity \<Rightarrow> BookBuilder \<Rightarrow> BookBuilder" where
  "BookBuilder_unpark shares b =
     (let left = bb_parkedShares b - min (ucast shares) (bb_parkedShares b)
      in if left = 0 then b\<lparr>bb_parkedShares := left, bb_parkedLo := kNoPrice, bb_parkedHi := kNoPrice\<rparr>
         else b\<lparr>bb_parkedShares := left\<rparr>)"

definition BookBuilder_addLevel :: "Side \<Rightarrow> Price \<Rightarrow> Quantity \<Rightarrow> BookBuilder \<Rightarrow> BookBuilder" where
  "BookBuilder_addLevel side price shares b =
     (let i = BookBuilder_index price b in
      if side = Buy then
        let top = (bb_bestBid b = kNoPrice \<or> price \<ge> bb_bestBid b)
        in b\<lparr>bb_bidBits := (if bb_bidSize b ! i = 0 then LevelBits_set i (bb_bidBits b) else bb_bidBits b),
             bb_bidSize := (bb_bidSize b)[i := bb_bidSize b ! i + shares],
             bb_topVersion := bb_topVersion b + (if top then 1 else 0),
             bb_bestBid := (if top then price else bb_bestBid b)\<rparr>
      else
        let top = (bb_bestAsk b = kNoPrice \<or> price \<le> bb_bestAsk b)
        in b\<lparr>bb_askBits := (if bb_askSize b ! i = 0 then LevelBits_set i (bb_askBits b) else bb_askBits b),
             bb_askSize := (bb_askSize b)[i := bb_askSize b ! i + shares],
             bb_topVersion := bb_topVersion b + (if top then 1 else 0),
             bb_bestAsk := (if top then price else bb_bestAsk b)\<rparr>)"

definition BookBuilder_addShares :: "Side \<Rightarrow> Price \<Rightarrow> Quantity \<Rightarrow> BookBuilder \<Rightarrow> BookBuilder" where
  "BookBuilder_addShares side price shares b =
     (if \<not> BookBuilder_inBand price b then BookBuilder_park price shares (b\<lparr>bb_oob := bb_oob b + 1\<rparr>)
      else BookBuilder_addLevel side price shares b)"

definition count_rescan :: "BookBuilder \<Rightarrow> BookBuilder" where
  "count_rescan b = b\<lparr>bb_rescansOut := map_option (\<lambda>n. n + 1) (bb_rescansOut b)\<rparr>"

definition BookBuilder_rescanBestBid :: "BookBuilder \<Rightarrow> BookBuilder" where
  "BookBuilder_rescanBestBid b =
     (let b1 = count_rescan b; j = LevelBits_prev (bb_bidBits b1) (BookBuilder_index (bb_bestBid b1) b1)
      in b1\<lparr>bb_bestBid := price_or_none b1 j\<rparr>)"

definition BookBuilder_rescanBestAsk :: "BookBuilder \<Rightarrow> BookBuilder" where
  "BookBuilder_rescanBestAsk b =
     (let b1 = count_rescan b; j = LevelBits_next (bb_askBits b1) (BookBuilder_index (bb_bestAsk b1) b1)
      in b1\<lparr>bb_bestAsk := price_or_none b1 j\<rparr>)"

definition level_less :: "Quantity \<Rightarrow> Quantity \<Rightarrow> Quantity" where
  "level_less have shares = (if shares \<ge> have then 0 else have - shares)"

definition BookBuilder_removeShares :: "Side \<Rightarrow> Price \<Rightarrow> Quantity \<Rightarrow> BookBuilder \<Rightarrow> BookBuilder" where
  "BookBuilder_removeShares side price shares b =
     (if \<not> BookBuilder_inBand price b then BookBuilder_unpark shares b
      else
        let i = BookBuilder_index price b;
            b1 = b\<lparr>bb_topVersion := bb_topVersion b + (if price = (if side = Buy then bb_bestBid b else bb_bestAsk b) then 1 else 0)\<rparr>
        in if side = Buy then
             let left = level_less (bb_bidSize b1 ! i) shares; b2 = b1\<lparr>bb_bidSize := (bb_bidSize b1)[i := left]\<rparr>
             in if left = 0 then
                  let b3 = b2\<lparr>bb_bidBits := LevelBits_clear i (bb_bidBits b2)\<rparr>
                  in if price = bb_bestBid b3 then BookBuilder_rescanBestBid b3 else b3
                else b2
           else
             let left = level_less (bb_askSize b1 ! i) shares; b2 = b1\<lparr>bb_askSize := (bb_askSize b1)[i := left]\<rparr>
             in if left = 0 then
                  let b3 = b2\<lparr>bb_askBits := LevelBits_clear i (bb_askBits b2)\<rparr>
                  in if price = bb_bestAsk b3 then BookBuilder_rescanBestAsk b3 else b3
                else b2)"

section \<open>Anchoring\<close>

text \<open>
  \<^verbatim>\<open>shiftLevels\<close> works on one of the two vectors: levels that leave the band are parked, the common part is
  moved by \<^verbatim>\<open>memmove\<close> and the rest is cleared.
\<close>

definition BookBuilder_shiftLevels :: "Quantity list \<Rightarrow> Price \<Rightarrow> Price \<Rightarrow> BookBuilder \<Rightarrow> Quantity list \<times> BookBuilder" where
  "BookBuilder_shiftLevels levels newMin newMax b =
     (let oldN = length levels;
          newN = nat ((newMax - newMin) div bb_tickWire b) + 1;
          lo = max (bb_minPrice b) newMin;
          hi = min (bb_maxPrice b) newMax;
          (oi0, nj0, len) =
            (if lo \<le> hi then (BookBuilder_index lo b, nat ((lo - newMin) div bb_tickWire b), nat ((hi - lo) div bb_tickWire b) + 1)
             else (0, 0, 0));
          b1 = fold (\<lambda>i b. if (i < oi0 \<or> i \<ge> oi0 + len) \<and> levels ! i \<noteq> 0 then BookBuilder_park (level_price b i) (levels ! i) b else b)
                 [0..<oldN] b;
          l1 = (if newN > oldN then levels @ replicate (newN - oldN) 0 else levels);
          l2 = (if len > 0 \<and> nj0 \<noteq> oi0 then poke nj0 (peek oi0 len l1) l1 else l1);
          l3 = replicate nj0 0 @ drop nj0 l2;
          l4 = take (nj0 + len) l3 @ replicate (length l3 - (nj0 + len)) 0
      in (if newN < length l4 then take newN l4 else l4, b1))"

definition BookBuilder_rebuildBits :: "BookBuilder \<Rightarrow> BookBuilder" where
  "BookBuilder_rebuildBits b =
     fold (\<lambda>i b. b\<lparr>bb_bidBits := (if bb_bidSize b ! i \<noteq> 0 then LevelBits_set i (bb_bidBits b) else bb_bidBits b),
                  bb_askBits := (if bb_askSize b ! i \<noteq> 0 then LevelBits_set i (bb_askBits b) else bb_askBits b)\<rparr>)
       [0..<length (bb_bidSize b)]
       (b\<lparr>bb_bidBits := LevelBits_reset (length (bb_bidSize b)) (bb_bidBits b),
          bb_askBits := LevelBits_reset (length (bb_askSize b)) (bb_askBits b)\<rparr>)"

definition BookBuilder_recomputeBest :: "BookBuilder \<Rightarrow> BookBuilder" where
  "BookBuilder_recomputeBest b =
     (let b1 = (if bb_bestBid b = kNoPrice \<or> \<not> BookBuilder_inBand (bb_bestBid b) b \<or> bb_bidSize b ! BookBuilder_index (bb_bestBid b) b = 0 then
                  b\<lparr>bb_bestBid := price_or_none b (LevelBits_prev (bb_bidBits b) (length (bb_bidSize b) - 1))\<rparr>
                else b)
      in if bb_bestAsk b1 = kNoPrice \<or> \<not> BookBuilder_inBand (bb_bestAsk b1) b1 \<or> bb_askSize b1 ! BookBuilder_index (bb_bestAsk b1) b1 = 0 then
           b1\<lparr>bb_bestAsk := price_or_none b1 (LevelBits_next (bb_askBits b1) 0)\<rparr>
         else b1)"

definition rebuild_order :: "OrderId \<Rightarrow> Resting \<Rightarrow> BookBuilder \<Rightarrow> BookBuilder" where
  "rebuild_order ref r b =
     (if Resting_own r then b
      else if BookBuilder_inBand (r_price r) b then BookBuilder_addLevel (Resting_side r) (r_price r) (Resting_shares r) b
      else BookBuilder_park (r_price r) (Resting_shares r) b)"

definition BookBuilder_rebuildLevels :: "BookBuilder \<Rightarrow> BookBuilder" where
  "BookBuilder_rebuildLevels b =
     FlatHashMap_forEach rebuild_order (bb_orders b)
       (b\<lparr>bb_parkedShares := 0, bb_parkedLo := kNoPrice, bb_parkedHi := kNoPrice\<rparr>)"

definition anchor_band :: "Price \<Rightarrow> bool \<Rightarrow> Price \<Rightarrow> BookBuilder \<Rightarrow> nat" where
  "anchor_band price trusted tick b =
     (let band = (case bb_byPrice b of
                    Some f \<Rightarrow> if trusted \<and> f price tick > bb_bandTicks b then f price tick else bb_bandTicks b
                  | None \<Rightarrow> bb_bandTicks b)
      in if bb_maxBandTicks b \<noteq> 0 \<and> band > bb_maxBandTicks b then bb_maxBandTicks b else band)"

definition BookBuilder_anchor :: "Price \<Rightarrow> bool \<Rightarrow> BookBuilder \<Rightarrow> BookBuilder" where
  "BookBuilder_anchor price trusted b0 =
     (let b = b0\<lparr>bb_topVersion := bb_topVersion b0 + 1\<rparr>;
          tick = (if bb_anchored b then min (BookBuilder_tickFor price b) (bb_tickWire b) else BookBuilder_tickFor price b);
          band = anchor_band price trusted tick b;
          spn = int band * tick;
          aligned = price - price smod tick;
          newMin = max (aligned - spn) 0;
          newMax = newMin + 2 * spn;
          shiftable = (bb_anchored b \<and> tick = bb_tickWire b \<and>
                       (bb_parkedShares b = 0 \<or> newMax < bb_parkedLo b \<or> newMin > bb_parkedHi b));
          b1 = (if bb_anchored b then
                  b\<lparr>bb_reanchors := bb_reanchors b + 1, bb_reanchorsOut := map_option (\<lambda>n. n + 1) (bb_reanchorsOut b)\<rparr>
                else b)
      in if shiftable then
           let (bids, b2) = BookBuilder_shiftLevels (bb_bidSize b1) newMin newMax b1;
               b3 = b2\<lparr>bb_bidSize := bids\<rparr>;
               (asks, b4) = BookBuilder_shiftLevels (bb_askSize b3) newMin newMax b3;
               b5 = b4\<lparr>bb_askSize := asks, bb_minPrice := newMin, bb_maxPrice := newMax\<rparr>
           in BookBuilder_recomputeBest (BookBuilder_rebuildBits b5)
         else
           BookBuilder_rebuildLevels
             (b1\<lparr>bb_tickWire := tick, bb_tickDiv := DivBy_new (of_int tick), bb_minPrice := newMin, bb_maxPrice := newMax,
                bb_bidSize := replicate (2 * band + 1) 0, bb_askSize := replicate (2 * band + 1) 0,
                bb_bidBits := LevelBits_reset (2 * band + 1) (bb_bidBits b1), bb_askBits := LevelBits_reset (2 * band + 1) (bb_askBits b1),
                bb_bestBid := kNoPrice, bb_bestAsk := kNoPrice, bb_anchored := True\<rparr>))"

section \<open>Construction\<close>

definition BookBuilder_range :: "Price \<Rightarrow> Price \<Rightarrow> Price \<Rightarrow> nat \<Rightarrow> OrderId \<Rightarrow> BookBuilder" where
  "BookBuilder_range minPrice maxPrice tickWire maxOrders ownRefMin =
     (let n = nat ((maxPrice - minPrice) div tickWire) + 1
      in \<lparr>bb_minPrice = minPrice, bb_maxPrice = maxPrice, bb_tickWire = tickWire, bb_ownRefMin = ownRefMin, bb_own = 0,
          bb_tickDiv = DivBy_new (of_int tickWire), bb_bestBid = kNoPrice, bb_bestAsk = kNoPrice, bb_topVersion = 0,
          bb_bandTicks = 0, bb_maxBandTicks = 0, bb_byPrice = None, bb_baseTick = 1, bb_subDollarTick = 0, bb_anchored = True,
          bb_oob = 0, bb_reanchors = 0, bb_reanchorsOut = None, bb_rescansOut = None, bb_parkedShares = 0, bb_epoch = 0,
          bb_parkedLo = kNoPrice, bb_parkedHi = kNoPrice, bb_bidSize = replicate n 0, bb_askSize = replicate n 0,
          bb_bidBits = LevelBits_reset n LevelBits_zero, bb_askBits = LevelBits_reset n LevelBits_zero,
          bb_orders = FlatHashMap_new maxOrders Resting_zero\<rparr>)"

definition BookBuilder_new :: "BookConfig \<Rightarrow> BookBuilder" where
  "BookBuilder_new cfg =
     (let m = FlatHashMap_new (bc_maxOrders cfg) Resting_zero;
          b = \<lparr>bb_minPrice = 0, bb_maxPrice = - 1, bb_tickWire = bc_tickWire cfg, bb_ownRefMin = bc_ownRefMin cfg, bb_own = 0,
               bb_tickDiv = DivBy_new (of_int (bc_tickWire cfg)), bb_bestBid = kNoPrice, bb_bestAsk = kNoPrice, bb_topVersion = 0,
               bb_bandTicks = bc_bandTicks cfg, bb_maxBandTicks = bc_maxBandTicks cfg, bb_byPrice = bc_byPrice cfg,
               bb_baseTick = bc_tickWire cfg, bb_subDollarTick = bc_subDollarTickWire cfg, bb_anchored = False,
               bb_oob = 0, bb_reanchors = 0, bb_reanchorsOut = bc_reanchors cfg, bb_rescansOut = bc_rescans cfg, bb_parkedShares = 0,
               bb_epoch = 0, bb_parkedLo = kNoPrice, bb_parkedHi = kNoPrice, bb_bidSize = [], bb_askSize = [],
               bb_bidBits = LevelBits_reset 1 LevelBits_zero, bb_askBits = LevelBits_reset 1 LevelBits_zero,
               bb_orders = (if bc_rehashes cfg then FlatHashMap_countGrowsIn m else m)\<rparr>
      in if bc_anchorPrice cfg \<noteq> kNoPrice then BookBuilder_anchor (bc_anchorPrice cfg) True b else b)"

section \<open>Messages\<close>

definition wire_price :: "u32 \<Rightarrow> Price" where
  "wire_price w = sint w"

definition BookBuilder_onTradePrice :: "Price \<Rightarrow> BookBuilder \<Rightarrow> BookBuilder" where
  "BookBuilder_onTradePrice price b = (if BookBuilder_needsAnchor price b then BookBuilder_anchor price True b else b)"

definition BookBuilder_put :: "OrderId \<Rightarrow> Resting \<Rightarrow> BookBuilder \<Rightarrow> BookBuilder" where
  "BookBuilder_put ref r b = b\<lparr>bb_orders := FlatHashMap_insertOrAssign ref r (bb_orders b)\<rparr>"

definition BookBuilder_onAddOrder :: "AddOrder \<Rightarrow> BookBuilder \<Rightarrow> BookBuilder" where
  "BookBuilder_onAddOrder msg b =
     (let shares = ao_shares msg in
      if shares = 0 then b
      else
        let ref = ao_orderRef msg;
            side = (if ao_side msg = ItchSide_code ISide_Buy then Buy else Sell);
            price = wire_price (ao_price msg);
            own = (bb_ownRefMin b \<noteq> 0 \<and> ref \<ge> bb_ownRefMin b);
            b1 = (if \<not> bb_anchored b then BookBuilder_anchor price False b else b);
            b2 = BookBuilder_put ref (Resting_make price shares side own) b1
        in if own then b2\<lparr>bb_own := bb_own b2 + 1\<rparr> else BookBuilder_addShares side price shares b2)"

definition BookBuilder_onOrderReplace :: "OrderReplace \<Rightarrow> BookBuilder \<Rightarrow> BookBuilder" where
  "BookBuilder_onOrderReplace msg b =
     (case FlatHashMap_take (orp_origOrderRef msg) (bb_orders b) of
        (None, m) \<Rightarrow> b
      | (Some orig, m) \<Rightarrow>
          let b1 = b\<lparr>bb_orders := m\<rparr>;
              b2 = (if \<not> Resting_own orig then BookBuilder_removeShares (Resting_side orig) (r_price orig) (Resting_shares orig) b1
                    else b1\<lparr>bb_own := size_dec (bb_own b1)\<rparr>);
              shares = orp_shares msg
          in if shares = 0 then b2
             else
               let price = wire_price (orp_price msg);
                   b3 = BookBuilder_put (orp_newOrderRef msg) (Resting_make price shares (Resting_side orig) (Resting_own orig)) b2
               in if Resting_own orig then b3\<lparr>bb_own := bb_own b3 + 1\<rparr>
                  else BookBuilder_addShares (Resting_side orig) price shares b3)"

definition BookBuilder_reduceOrder :: "OrderId \<Rightarrow> Quantity \<Rightarrow> bool \<Rightarrow> BookBuilder \<Rightarrow> BookBuilder" where
  "BookBuilder_reduceOrder ref by trade b =
     (case FlatHashMap_find ref (bb_orders b) of
        None \<Rightarrow> b
      | Some i \<Rightarrow>
          let r = FlatHashMap_at i (bb_orders b);
              b1 = (if trade \<and> BookBuilder_needsAnchor (r_price r) b then BookBuilder_anchor (r_price r) True b else b);
              have = Resting_shares r;
              gone = (if by < have then by else have);
              b2 = (if \<not> Resting_own r then BookBuilder_removeShares (Resting_side r) (r_price r) gone b1 else b1);
              b3 = b2\<lparr>bb_orders := FlatHashMap_put i (Resting_setShares (have - gone) r) (bb_orders b2)\<rparr>
          in if have = gone then
               let b4 = (if Resting_own r then b3\<lparr>bb_own := size_dec (bb_own b3)\<rparr> else b3)
               in b4\<lparr>bb_orders := FlatHashMap_eraseAt i (bb_orders b4)\<rparr>
             else b3)"

definition BookBuilder_removeOrder :: "OrderId \<Rightarrow> BookBuilder \<Rightarrow> BookBuilder" where
  "BookBuilder_removeOrder ref b =
     (case FlatHashMap_take ref (bb_orders b) of
        (None, m) \<Rightarrow> b
      | (Some r, m) \<Rightarrow>
          let b1 = b\<lparr>bb_orders := m\<rparr>
          in if Resting_own r then b1\<lparr>bb_own := size_dec (bb_own b1)\<rparr>
             else BookBuilder_removeShares (Resting_side r) (r_price r) (Resting_shares r) b1)"

definition BookBuilder_apply :: "byte list \<Rightarrow> BookBuilder \<Rightarrow> BookBuilder" where
  "BookBuilder_apply msg b =
     (if msg = [] then b
      else
        let ty = msg ! 0; n = length msg in
        if ty = 0x41 \<or> ty = 0x46 then
          if n \<ge> sizeof_AddOrder then BookBuilder_onAddOrder (dec_AddOrder msg) b else b
        else if ty = 0x45 then
          if n \<ge> sizeof_OrderExecuted then
            let e = dec_OrderExecuted msg in BookBuilder_reduceOrder (oe_orderRef e) (oe_executedShares e) True b
          else b
        else if ty = 0x43 then
          if n \<ge> sizeof_OrderExecutedWithPrice then
            let c = dec_OrderExecutedWithPrice msg in BookBuilder_reduceOrder (op_orderRef c) (op_executedShares c) True b
          else b
        else if ty = 0x58 then
          if n \<ge> sizeof_OrderCancel then
            let x = dec_OrderCancel msg in BookBuilder_reduceOrder (oc_orderRef x) (oc_cancelledShares x) False b
          else b
        else if ty = 0x50 then
          if n \<ge> sizeof_TradeNonCross then BookBuilder_onTradePrice (wire_price (tn_price (dec_TradeNonCross msg))) b else b
        else if ty = 0x51 then
          if n \<ge> sizeof_CrossTrade then
            let q = dec_CrossTrade msg in
            if ct_shares q > 0 \<and> ct_crossPrice q > 0 then BookBuilder_onTradePrice (wire_price (ct_crossPrice q)) b else b
          else b
        else if ty = 0x44 then
          if n \<ge> sizeof_OrderDelete then BookBuilder_removeOrder (od_orderRef (dec_OrderDelete msg)) b else b
        else if ty = 0x55 then
          if n \<ge> sizeof_OrderReplace then BookBuilder_onOrderReplace (dec_OrderReplace msg) b else b
        else b)"

definition BookBuilder_clear :: "BookBuilder \<Rightarrow> BookBuilder" where
  "BookBuilder_clear b0 =
     (let b = b0\<lparr>bb_topVersion := bb_topVersion b0 + 1\<rparr> in
      if fm_size (bb_orders b) = 0 \<and> bb_own b = 0 \<and> bb_parkedShares b = 0 then b\<lparr>bb_bestBid := kNoPrice, bb_bestAsk := kNoPrice\<rparr>
      else b\<lparr>bb_bidSize := map (\<lambda>_. 0) (bb_bidSize b), bb_askSize := map (\<lambda>_. 0) (bb_askSize b),
             bb_bidBits := LevelBits_clearAll (bb_bidBits b), bb_askBits := LevelBits_clearAll (bb_askBits b),
             bb_orders := FlatHashMap_clear (bb_orders b), bb_own := 0, bb_bestBid := kNoPrice, bb_bestAsk := kNoPrice,
             bb_parkedShares := 0, bb_parkedLo := kNoPrice, bb_parkedHi := kNoPrice\<rparr>)"

section \<open>Queries\<close>

definition BookBuilder_restingShares :: "OrderId \<Rightarrow> BookBuilder \<Rightarrow> Quantity" where
  "BookBuilder_restingShares ref b =
     (case FlatHashMap_find ref (bb_orders b) of None \<Rightarrow> 0 | Some i \<Rightarrow> Resting_shares (FlatHashMap_at i (bb_orders b)))"

definition BookBuilder_restingPrice :: "OrderId \<Rightarrow> BookBuilder \<Rightarrow> Price" where
  "BookBuilder_restingPrice ref b =
     (case FlatHashMap_find ref (bb_orders b) of None \<Rightarrow> kNoPrice | Some i \<Rightarrow> r_price (FlatHashMap_at i (bb_orders b)))"

definition BookBuilder_setEpoch :: "u32 \<Rightarrow> BookBuilder \<Rightarrow> BookBuilder" where
  "BookBuilder_setEpoch e b = b\<lparr>bb_epoch := e\<rparr>"

end
