(* ===== verification/BookFeed.thy ===== *)
theory BookFeed
  imports BookBuilder
begin

text \<open>
  What the book builder should show, stated without levels, bands and bitmaps: the resting orders by
  reference and the shares they add up to. The feed events act on that map alone. The second part holds the
  facts on one side of a band of levels: index and price determine each other, and adding, removing, moving and
  rebuilding levels keep the sizes, the bitmap and the best price in step with given volumes.
\<close>

section \<open>The specification: orders by reference\<close>

record FeedOrder =
  fo_side :: Side
  fo_price :: Price
  fo_shares :: nat
  fo_own :: bool

type_synonym orders = "OrderId \<rightharpoonup> FeedOrder"

datatype feed =
    FAdd OrderId Side Price nat
  | FReduce OrderId nat
  | FRemove OrderId
  | FReplace OrderId OrderId Price nat
  | FTrade Price
  | FNothing

definition owned :: "OrderId \<Rightarrow> OrderId \<Rightarrow> bool" where
  "owned ownMin ref \<longleftrightarrow> ownMin \<noteq> 0 \<and> ref \<ge> ownMin"

definition feed_less :: "OrderId \<Rightarrow> nat \<Rightarrow> orders \<Rightarrow> orders" where
  "feed_less ref q A =
     (case A ref of
        None \<Rightarrow> A
      | Some r \<Rightarrow> if fo_shares r \<le> q then A(ref := None) else A(ref \<mapsto> r\<lparr>fo_shares := fo_shares r - q\<rparr>))"

primrec feed_spec :: "OrderId \<Rightarrow> feed \<Rightarrow> orders \<Rightarrow> orders" where
  "feed_spec ownMin (FAdd ref s p q) A =
     (if q = 0 then A else A(ref \<mapsto> \<lparr>fo_side = s, fo_price = p, fo_shares = q, fo_own = owned ownMin ref\<rparr>))"
| "feed_spec ownMin (FReduce ref q) A = feed_less ref q A"
| "feed_spec ownMin (FRemove ref) A = A(ref := None)"
| "feed_spec ownMin (FReplace old new p q) A =
     (case A old of
        None \<Rightarrow> A
      | Some r \<Rightarrow> if q = 0 then A(old := None) else (A(old := None))(new \<mapsto> r\<lparr>fo_price := p, fo_shares := q\<rparr>))"
| "feed_spec ownMin (FTrade p) A = A"
| "feed_spec ownMin FNothing A = A"

definition shares_where :: "(FeedOrder \<Rightarrow> bool) \<Rightarrow> orders \<Rightarrow> nat" where
  "shares_where P A = (\<Sum>k\<in>dom A. if P (the (A k)) then fo_shares (the (A k)) else 0)"

definition rests_at :: "Side \<Rightarrow> Price \<Rightarrow> FeedOrder \<Rightarrow> bool" where
  "rests_at s p r \<longleftrightarrow> \<not> fo_own r \<and> fo_side r = s \<and> fo_price r = p"

text \<open>The shares the market shows on one side at one price: own orders do not count.\<close>

definition feed_volume :: "orders \<Rightarrow> Side \<Rightarrow> Price \<Rightarrow> nat" where
  "feed_volume A s p = shares_where (rests_at s p) A"

lemma shares_where_insert:
  assumes "finite (dom A)" and "A k = None"
  shows "shares_where P (A(k \<mapsto> r)) = shares_where P A + (if P r then fo_shares r else 0)"
proof -
  have "k \<notin> dom A" using assms by auto
  then have "(\<Sum>x\<in>dom A. if P (the ((A(k \<mapsto> r)) x)) then fo_shares (the ((A(k \<mapsto> r)) x)) else 0) = shares_where P A"
    unfolding shares_where_def by (intro sum.cong) auto
  then show ?thesis using assms \<open>k \<notin> dom A\<close> by (simp add: shares_where_def)
qed

lemma shares_where_remove:
  assumes "finite (dom A)" and "A k = Some r"
  shows "shares_where P A = shares_where P (A(k := None)) + (if P r then fo_shares r else 0)"
proof -
  have "A = (A(k := None))(k \<mapsto> r)" using assms(2) by auto
  moreover have "finite (dom (A(k := None)))" using assms(1) by simp
  ultimately show ?thesis using shares_where_insert [of "A(k := None)" k P r] by simp
qed

lemma shares_where_update:
  assumes "finite (dom A)" and "A k = Some r"
  shows "shares_where P (A(k \<mapsto> r')) + (if P r then fo_shares r else 0) = shares_where P A + (if P r' then fo_shares r' else 0)"
proof -
  have "A(k \<mapsto> r') = (A(k := None))(k \<mapsto> r')" by simp
  then show ?thesis
    using shares_where_remove [OF assms, of P] shares_where_insert [of "A(k := None)" k P r'] assms(1) by simp
qed

lemma shares_where_less:
  assumes "finite (dom A)" and "A k = Some r" and "q \<le> fo_shares r" and "\<And>x. P (r\<lparr>fo_shares := x\<rparr>) = P r"
  shows "shares_where P (feed_less k q A) = shares_where P A - (if P r then q else 0)"
  using shares_where_remove [OF assms(1,2), of P] shares_where_update [OF assms(1,2), of P "r\<lparr>fo_shares := fo_shares r - q\<rparr>"] assms
  by (auto simp: feed_less_def)

lemma feed_less_member:
  "feed_less k q A x = Some r' \<Longrightarrow> (\<And>k r. A k = Some r \<Longrightarrow> fo_shares r \<noteq> 0) \<Longrightarrow>
     fo_shares r' \<noteq> 0 \<and> (\<exists>r. A x = Some r \<and> r' = r\<lparr>fo_shares := fo_shares r'\<rparr>)"
  by (auto simp: feed_less_def split: option.splits if_splits)

lemma finite_feed_less: "finite (dom A) \<Longrightarrow> finite (dom (feed_less k q A))"
  by (simp add: feed_less_def split: option.split)

lemma shares_where_empty [simp]: "shares_where P Map.empty = 0"
  by (simp add: shares_where_def)

lemma feed_volume_empty [simp]: "feed_volume Map.empty s = (\<lambda>_. 0)"
  by (simp add: fun_eq_iff feed_volume_def)

lemma shares_where_mono: "finite (dom A) \<Longrightarrow> (\<And>r. P r \<Longrightarrow> Q r) \<Longrightarrow> shares_where P A \<le> shares_where Q A"
  unfolding shares_where_def by (intro sum_mono) auto

lemma shares_where_member: "finite (dom A) \<Longrightarrow> A k = Some r \<Longrightarrow> P r \<Longrightarrow> fo_shares r \<le> shares_where P A"
  using shares_where_remove [of A k r P] by simp

lemma shares_where_cong: "(\<And>k r. A k = Some r \<Longrightarrow> P r = Q r) \<Longrightarrow> shares_where P A = shares_where Q A"
  unfolding shares_where_def by (intro sum.cong) (auto simp: domD)

lemma shares_where_zero:
  assumes "finite (dom A)" and "\<forall>k r. A k = Some r \<longrightarrow> fo_shares r \<noteq> 0"
  shows "shares_where P A = 0 \<longleftrightarrow> (\<forall>k r. A k = Some r \<longrightarrow> \<not> P r)"
proof
  assume "shares_where P A = 0"
  then show "\<forall>k r. A k = Some r \<longrightarrow> \<not> P r" using shares_where_member [OF assms(1)] assms(2) by fastforce
next
  assume "\<forall>k r. A k = Some r \<longrightarrow> \<not> P r"
  then have "shares_where P A = shares_where (\<lambda>_. False) A" by (intro shares_where_cong) auto
  then show "shares_where P A = 0" by (simp add: shares_where_def)
qed

lemma shares_where_disj:
  assumes "finite (dom A)" and "\<And>k r. A k = Some r \<Longrightarrow> \<not> (P r \<and> Q r)"
  shows "shares_where (\<lambda>r. P r \<or> Q r) A = shares_where P A + shares_where Q A"
  unfolding shares_where_def sum.distrib [symmetric]
  using assms(2) by (intro sum.cong) (auto dest!: domD)

lemma shares_where_UN:
  assumes "finite (dom A)" and "finite I" and "\<And>r i j. P i r \<Longrightarrow> P j r \<Longrightarrow> i = j"
  shows "shares_where (\<lambda>r. \<exists>i\<in>I. P i r) A = (\<Sum>i\<in>I. shares_where (P i) A)"
  using assms(2)
proof (induction I rule: finite_induct)
  case empty
  then show ?case by (simp add: shares_where_def)
next
  case (insert i I)
  have "shares_where (\<lambda>r. \<exists>j\<in>insert i I. P j r) A = shares_where (\<lambda>r. P i r \<or> (\<exists>j\<in>I. P j r)) A"
    by (intro shares_where_cong) auto
  also have "\<dots> = shares_where (P i) A + shares_where (\<lambda>r. \<exists>j\<in>I. P j r) A"
    using insert.hyps assms(3) by (intro shares_where_disj [OF assms(1)]) blast
  finally show ?case using insert by simp
qed

lemma shares_where_submap: "finite (dom B) \<Longrightarrow> A \<subseteq>\<^sub>m B \<Longrightarrow> shares_where P A \<le> shares_where P B"
proof -
  assume f: "finite (dom B)" and le: "A \<subseteq>\<^sub>m B"
  have "shares_where P A = (\<Sum>k\<in>dom A. if P (the (B k)) then fo_shares (the (B k)) else 0)"
    unfolding shares_where_def using le by (intro sum.cong) (auto simp: map_le_def)
  also have "\<dots> \<le> shares_where P B" unfolding shares_where_def using f map_le_implies_dom_le [OF le] by (intro sum_mono2) auto
  finally show ?thesis .
qed

section \<open>The entries of the order table\<close>

definition fm_list :: "('k::len word, 'v) FlatHashMap \<Rightarrow> ('k word \<times> 'v) list" where
  "fm_list m = filter (\<lambda>s. fst s \<noteq> 0) (fm_slots m)"

lemma forEach_fold: "FlatHashMap_forEach fn m a = fold (\<lambda>s. fn (fst s) (snd s)) (fm_list m) a"
proof -
  have "fold (\<lambda>s a. if fst s \<noteq> 0 then fn (fst s) (snd s) a else a) xs a = fold (\<lambda>s. fn (fst s) (snd s)) (filter (\<lambda>s. fst s \<noteq> 0) xs) a" for xs
    by (induction xs arbitrary: a) auto
  then show ?thesis by (simp add: FlatHashMap_forEach_def fm_list_def)
qed

lemma fm_list_map: "map_of (fm_list m) = fm_map m"
proof
  fix k
  have "map_of (filter (\<lambda>s. fst s \<noteq> 0) xs) k = (if k = 0 then None else map_of xs k)" for xs :: "('a word \<times> 'b) list"
    by (induction xs) auto
  then show "map_of (fm_list m) k = fm_map m k" by (simp add: fm_list_def fm_map_def)
qed

lemma distinct_keys_filter:
  assumes "\<And>i j. i < length xs \<Longrightarrow> j < length xs \<Longrightarrow> P (fst (xs ! i)) \<Longrightarrow> fst (xs ! i) = fst (xs ! j) \<Longrightarrow> i = j"
  shows "distinct (map fst (filter (\<lambda>s. P (fst s)) xs))"
  using assms
proof (induction xs)
  case (Cons x xs)
  have "distinct (map fst (filter (\<lambda>s. P (fst s)) xs))"
  proof (rule Cons.IH)
    fix i j
    assume "i < length xs" "j < length xs" "P (fst (xs ! i))" "fst (xs ! i) = fst (xs ! j)"
    then show "i = j" using Cons.prems [of "Suc i" "Suc j"] by simp
  qed
  moreover have "fst x \<notin> fst ` set xs" if "P (fst x)"
  proof
    assume "fst x \<in> fst ` set xs"
    then obtain j where "j < length xs" "fst (xs ! j) = fst x" by (metis image_iff in_set_conv_nth)
    then show False using Cons.prems [of 0 "Suc j"] that by simp
  qed
  ultimately show ?case by auto
qed simp

lemma fm_list_distinct: "fm_inv m \<Longrightarrow> distinct (map fst (fm_list m))"
  unfolding fm_list_def by (rule distinct_keys_filter) (simp add: fm_inv_def fm_distinct_def fm_key_def)

lemma finite_dom_fm_map: "finite (dom (fm_map m))"
  by (simp add: finite_dom_map_of flip: fm_list_map)

section \<open>The grid of a band\<close>

text \<open>\<open>band_grid b n\<close>: the fields of the book describe a band of \<open>n\<close> levels on the tick grid.\<close>

definition band_grid :: "BookBuilder \<Rightarrow> nat \<Rightarrow> bool" where
  "band_grid b n \<longleftrightarrow> 0 < n \<and> 0 < bb_tickWire b \<and> bb_tickWire b < 2 ^ 31 \<and> 0 \<le> bb_minPrice b \<and> bb_tickWire b dvd bb_minPrice b \<and>
     bb_maxPrice b = level_price b (n - 1) \<and> bb_maxPrice b < 2 ^ 31 \<and> bb_tickDiv b = DivBy_new (of_int (bb_tickWire b))"

lemma unat_of_int_u32: "0 \<le> x \<Longrightarrow> x < 2 ^ 32 \<Longrightarrow> unat (of_int x :: u32) = nat x"
  by (simp add: unsigned_of_int take_bit_int_eq_self flip: nat_take_bit_eq)

lemma band_grid_bounds:
  assumes "band_grid b n" and "i < n"
  shows "bb_minPrice b \<le> level_price b i" and "level_price b i \<le> bb_maxPrice b" and "0 \<le> level_price b i" and "level_price b i < 2 ^ 31"
proof -
  have "int i * bb_tickWire b \<le> int (n - 1) * bb_tickWire b" using assms by (intro mult_right_mono) (auto simp: band_grid_def)
  then show "level_price b i \<le> bb_maxPrice b" using assms by (simp add: band_grid_def level_price_def)
  then show "level_price b i < 2 ^ 31" using assms by (simp add: band_grid_def)
  show "bb_minPrice b \<le> level_price b i" "0 \<le> level_price b i" using assms by (simp_all add: band_grid_def level_price_def)
qed

lemma band_grid_width: "band_grid b n \<Longrightarrow> n \<le> 2 ^ 31"
proof -
  assume g: "band_grid b n"
  then have "int (n - 1) * 1 \<le> int (n - 1) * bb_tickWire b" by (intro mult_left_mono) (auto simp: band_grid_def)
  also have "\<dots> < 2 ^ 31" using g by (auto simp: band_grid_def level_price_def)
  finally show ?thesis using g by (auto simp: band_grid_def)
qed

lemma level_price_inj: "0 < bb_tickWire b \<Longrightarrow> level_price b i = level_price b j \<longleftrightarrow> i = j"
  by (simp add: level_price_def)

lemma level_price_le: "0 < bb_tickWire b \<Longrightarrow> level_price b i \<le> level_price b j \<longleftrightarrow> i \<le> j"
  by (simp add: level_price_def)

lemma tick_word:
  assumes "band_grid b n" and "BookBuilder_inRange p b"
  shows "unat (DivBy_apply (bb_tickDiv b) (of_int (p - bb_minPrice b))) = nat (p - bb_minPrice b) div nat (bb_tickWire b)"
    and "(of_int (p - bb_minPrice b) :: u32) = DivBy_apply (bb_tickDiv b) (of_int (p - bb_minPrice b)) * of_int (bb_tickWire b) \<longleftrightarrow>
      bb_tickWire b dvd p - bb_minPrice b"
proof -
  define t x where "t = bb_tickWire b" and "x = p - bb_minPrice b"
  define d w :: u32 where "d = of_int t" and "w = of_int x"
  have r: "0 \<le> x" "x < 2 ^ 31" "0 < t" "t < 2 ^ 31"
    using assms by (auto simp: band_grid_def BookBuilder_inRange_def t_def x_def)
  have u: "unat d = nat t" "unat w = nat x" using r by (simp_all add: d_def w_def unat_of_int_u32)
  have d0: "d \<noteq> 0" using u r by (auto simp: word_unat_eq_iff)
  have q: "DivBy_apply (bb_tickDiv b) w = w div d"
    using assms(1) DivBy_apply_new [OF d0] by (simp add: band_grid_def d_def t_def)
  then show "unat (DivBy_apply (bb_tickDiv b) (of_int (p - bb_minPrice b))) = nat (p - bb_minPrice b) div nat (bb_tickWire b)"
    using u by (simp add: unat_div_distrib w_def x_def t_def)
  have "w = w div d * d \<longleftrightarrow> w mod d = 0"
    by (metis add.right_neutral add_left_cancel div_mult_mod_eq)
  also have "\<dots> \<longleftrightarrow> nat x mod nat t = 0" using u by (simp add: word_unat_eq_iff unat_mod_distrib)
  also have "\<dots> \<longleftrightarrow> x mod t = 0"
    using r pos_mod_sign [OF r(3), of x] by (simp only: nat_mod_distrib [symmetric] less_imp_le) linarith
  also have "\<dots> \<longleftrightarrow> t dvd x" by (rule mod_eq_0_iff_dvd)
  finally show "(of_int (p - bb_minPrice b) :: u32) = DivBy_apply (bb_tickDiv b) (of_int (p - bb_minPrice b)) * of_int (bb_tickWire b) \<longleftrightarrow>
      bb_tickWire b dvd p - bb_minPrice b"
    using q by (simp add: w_def d_def x_def t_def)
qed

lemma inBand_iff:
  assumes "band_grid b n"
  shows "BookBuilder_inBand p b \<longleftrightarrow> (\<exists>i < n. p = level_price b i)"
proof
  assume a: "BookBuilder_inBand p b"
  then have r: "BookBuilder_inRange p b" by (simp add: BookBuilder_inBand_def)
  with a obtain k where k: "p - bb_minPrice b = bb_tickWire b * k"
    using tick_word(2) [OF assms r] by (auto simp: BookBuilder_inBand_def Let_def dvd_def)
  have t: "0 < bb_tickWire b" using assms by (simp add: band_grid_def)
  have "0 \<le> bb_tickWire b * k" using k r by (simp add: BookBuilder_inRange_def)
  then have k0: "0 \<le> k" using t by (simp add: zero_le_mult_iff)
  have "bb_tickWire b * k \<le> int (n - 1) * bb_tickWire b" using k r assms unfolding BookBuilder_inRange_def band_grid_def level_price_def by linarith
  then have "k \<le> int (n - 1)" using t by (simp add: mult.commute)
  then have "nat k < n" using k0 assms by (auto simp: band_grid_def)
  moreover have "p = level_price b (nat k)" using k k0 by (simp add: level_price_def mult.commute)
  ultimately show "\<exists>i < n. p = level_price b i" by blast
next
  assume "\<exists>i < n. p = level_price b i"
  then obtain i where i: "i < n" "p = level_price b i" by blast
  then have r: "BookBuilder_inRange p b" using band_grid_bounds [OF assms i(1)] by (simp add: BookBuilder_inRange_def)
  then show "BookBuilder_inBand p b" using tick_word(2) [OF assms r] i by (simp add: BookBuilder_inBand_def level_price_def)
qed

lemma index_level: "band_grid b n \<Longrightarrow> i < n \<Longrightarrow> BookBuilder_index (level_price b i) b = i"
proof -
  assume g: "band_grid b n" and i: "i < n"
  then have r: "BookBuilder_inRange (level_price b i) b" using band_grid_bounds [OF g i] by (simp add: BookBuilder_inRange_def)
  have t: "0 < bb_tickWire b" using g by (simp add: band_grid_def)
  have "nat (int i * bb_tickWire b) = i * nat (bb_tickWire b)" using t by (simp add: nat_mult_distrib)
  then show ?thesis using tick_word(1) [OF g r] t by (simp add: BookBuilder_index_def level_price_def)
qed

section \<open>One side of the band\<close>

definition ahead :: "Side \<Rightarrow> nat \<Rightarrow> nat \<Rightarrow> bool" where
  "ahead s i j \<longleftrightarrow> (case s of Buy \<Rightarrow> j \<le> i | Sell \<Rightarrow> i \<le> j)"

text \<open>The best price is that of the outermost level in use, or none when every level is empty.\<close>

definition top_of :: "Side \<Rightarrow> (nat \<Rightarrow> Price) \<Rightarrow> Quantity list \<Rightarrow> Price \<Rightarrow> bool" where
  "top_of s lp sz best \<longleftrightarrow>
     (best = kNoPrice \<and> (\<forall>j < length sz. sz ! j = 0)) \<or>
     (\<exists>i < length sz. best = lp i \<and> sz ! i \<noteq> 0 \<and> (\<forall>j < length sz. sz ! j \<noteq> 0 \<longrightarrow> ahead s i j))"

lemma top_ofI:
  "i < length sz \<Longrightarrow> best = lp i \<Longrightarrow> sz ! i \<noteq> 0 \<Longrightarrow> (\<And>j. j < length sz \<Longrightarrow> sz ! j \<noteq> 0 \<Longrightarrow> ahead s i j) \<Longrightarrow> top_of s lp sz best"
  unfolding top_of_def by blast

lemma top_of_cases:
  assumes "top_of s lp sz best"
  obtains (none) "best = kNoPrice" "\<And>j. j < length sz \<Longrightarrow> sz ! j = 0"
    | (some) i where "i < length sz" "best = lp i" "sz ! i \<noteq> 0" "\<And>j. j < length sz \<Longrightarrow> sz ! j \<noteq> 0 \<Longrightarrow> ahead s i j"
  using assms unfolding top_of_def by blast

definition side_ok :: "Side \<Rightarrow> (nat \<Rightarrow> Price) \<Rightarrow> nat \<Rightarrow> Quantity list \<Rightarrow> LevelBits \<Rightarrow> Price \<Rightarrow> (Price \<Rightarrow> nat) \<Rightarrow> bool" where
  "side_ok s lp n sz bs best V \<longleftrightarrow> length sz = n \<and> lb_ok bs \<and> n \<le> lb_cap bs \<and> (\<forall>i. has_level bs i \<longleftrightarrow> i < n \<and> sz ! i \<noteq> 0) \<and>
     (\<forall>i < n. unat (sz ! i) = V (lp i)) \<and> top_of s lp sz best"

text \<open>The price axis of a band: strictly increasing and without the value that stands for no price.\<close>

definition axis :: "(nat \<Rightarrow> Price) \<Rightarrow> nat \<Rightarrow> bool" where
  "axis lp n \<longleftrightarrow> (\<forall>i j. lp i \<le> lp j \<longleftrightarrow> i \<le> j) \<and> (\<forall>i < n. lp i \<noteq> kNoPrice)"

lemma axis_inj: "axis lp n \<Longrightarrow> lp i = lp j \<longleftrightarrow> i = j"
  by (metis axis_def order_antisym order_refl)

lemma band_axis: "band_grid b n \<Longrightarrow> axis (level_price b) n"
  using band_grid_bounds(3) [of b n] by (fastforce simp: axis_def band_grid_def level_price_le kNoPrice_def)

lemma side_ok_cong: "side_ok s lp n sz bs best V \<Longrightarrow> (\<And>i. i < n \<Longrightarrow> V (lp i) = V' (lp i)) \<Longrightarrow> side_ok s lp n sz bs best V'"
  by (simp add: side_ok_def)

definition improves :: "Side \<Rightarrow> Price \<Rightarrow> Price \<Rightarrow> bool" where
  "improves s price best \<longleftrightarrow> best = kNoPrice \<or> (case s of Buy \<Rightarrow> price \<ge> best | Sell \<Rightarrow> price \<le> best)"

lemma side_ok_add:
  assumes ok: "side_ok s lp n sz bs best V" and ax: "axis lp n" and i: "i < n" and q: "q \<noteq> 0" and fit: "V (lp i) + unat q < 2 ^ 32"
  shows "side_ok s lp n (sz[i := sz ! i + q]) (if sz ! i = 0 then LevelBits_set i bs else bs)
    (if improves s (lp i) best then lp i else best) (V(lp i := V (lp i) + unat q))"
proof -
  note d = ok [unfolded side_ok_def]
  have icap: "i < lb_cap bs" using d i by simp
  have u: "unat (sz ! i + q) = V (lp i) + unat q" using d i fit by (simp add: unat_word_ariths)
  then have nz: "sz ! i + q \<noteq> 0" using q by (metis add_is_0 unat_eq_zero unat_0)
  have bits: "lb_ok (if sz ! i = 0 then LevelBits_set i bs else bs)" "lb_cap (if sz ! i = 0 then LevelBits_set i bs else bs) = lb_cap bs"
    "has_level (if sz ! i = 0 then LevelBits_set i bs else bs) j \<longleftrightarrow> j = i \<or> has_level bs j" for j
    using bits.inv_ins [of bs i] bits.has_ins [of bs i j] d icap i by auto
  have top: "top_of s lp (sz[i := sz ! i + q]) (if improves s (lp i) best then lp i else best)"
  proof (cases "improves s (lp i) best")
    case True
    have "ahead s i j" if j: "j < n" "sz[i := sz ! i + q] ! j \<noteq> 0" for j
    proof (cases "j = i")
      case False
      then have "sz ! j \<noteq> 0" using j d by simp
      then obtain k where "best = lp k" "k < n" "ahead s k j" using d j(1) by (auto simp: top_of_def)
      then show ?thesis using True ax by (cases s) (auto simp: improves_def axis_def ahead_def)
    qed (simp add: ahead_def split: Side.split)
    then show ?thesis using True d i nz by (auto simp: top_of_def)
  next
    case False
    then obtain k where k: "best = lp k" "k < n" "sz ! k \<noteq> 0" "\<forall>j < n. sz ! j \<noteq> 0 \<longrightarrow> ahead s k j"
      using d by (auto simp: top_of_def improves_def)
    moreover have "ahead s k i" "k \<noteq> i" using False k(1) ax by (cases s; auto simp: improves_def axis_def ahead_def; metis linear)+
    ultimately have "top_of s lp (sz[i := sz ! i + q]) best"
      using d i by (intro top_ofI [of k]) (auto simp: nth_list_update split: if_splits)
    then show ?thesis using False by simp
  qed
  show ?thesis using d bits top i nz u axis_inj [OF ax] by (auto simp: side_ok_def nth_list_update)
qed

lemma top_of_scan:
  assumes "length sz = n" and "lb_ok bs" and "n \<le> lb_cap bs" and "\<forall>i. has_level bs i \<longleftrightarrow> i < n \<and> sz ! i \<noteq> 0"
  shows "i < lb_cap bs \<Longrightarrow> \<forall>j < n. sz ! j \<noteq> 0 \<longrightarrow> j \<le> i \<Longrightarrow>
      top_of Buy lp sz (if LevelBits_prev bs i = LevelBits_kNone then kNoPrice else lp (LevelBits_prev bs i))"
    and "i < lb_cap bs \<Longrightarrow> \<forall>j < n. sz ! j \<noteq> 0 \<longrightarrow> i \<le> j \<Longrightarrow>
      top_of Sell lp sz (if LevelBits_next bs i = LevelBits_kNone then kNoPrice else lp (LevelBits_next bs i))"
proof -
  assume a: "i < lb_cap bs" "\<forall>j < n. sz ! j \<noteq> 0 \<longrightarrow> j \<le> i"
  show "top_of Buy lp sz (if LevelBits_prev bs i = LevelBits_kNone then kNoPrice else lp (LevelBits_prev bs i))"
  proof (cases "LevelBits_prev bs i = LevelBits_kNone")
    case True
    then show ?thesis using bits.below_none [OF assms(2) a(1)] assms a(2) by (auto simp: top_of_def)
  next
    case False
    let ?k = "LevelBits_prev bs i"
    have k: "has_level bs ?k" "\<forall>j. ?k < j \<and> j \<le> i \<longrightarrow> \<not> has_level bs j" using bits.below_some [OF assms(2) a(1) False] by blast+
    have "?k < length sz \<and> sz ! ?k \<noteq> 0 \<and> (\<forall>j < length sz. sz ! j \<noteq> 0 \<longrightarrow> ahead Buy ?k j)"
      using k a(2) assms(1,4) by (simp add: ahead_def) (meson linorder_not_less)
    then show ?thesis using False unfolding top_of_def by auto
  qed
next
  assume a: "i < lb_cap bs" "\<forall>j < n. sz ! j \<noteq> 0 \<longrightarrow> i \<le> j"
  show "top_of Sell lp sz (if LevelBits_next bs i = LevelBits_kNone then kNoPrice else lp (LevelBits_next bs i))"
  proof (cases "LevelBits_next bs i = LevelBits_kNone")
    case True
    then show ?thesis using bits.above_none [OF assms(2) a(1)] assms a(2) by (auto simp: top_of_def)
  next
    case False
    let ?k = "LevelBits_next bs i"
    have k: "has_level bs ?k" "\<forall>j. i \<le> j \<and> j < ?k \<longrightarrow> \<not> has_level bs j" using bits.above_some [OF assms(2) a(1) False] by blast+
    have "?k < length sz \<and> sz ! ?k \<noteq> 0 \<and> (\<forall>j < length sz. sz ! j \<noteq> 0 \<longrightarrow> ahead Sell ?k j)"
      using k a(2) assms(1,4) by (simp add: ahead_def) (meson linorder_not_less)
    then show ?thesis using False unfolding top_of_def by auto
  qed
qed

lemma side_ok_remove:
  assumes ok: "side_ok s lp n sz bs best V" and ax: "axis lp n" and i: "i < n" and fit: "unat q \<le> V (lp i)"
  defines "left \<equiv> level_less (sz ! i) q"
  defines "bs' \<equiv> if left = 0 then LevelBits_clear i bs else bs"
  defines "j \<equiv> (case s of Buy \<Rightarrow> LevelBits_prev bs' i | Sell \<Rightarrow> LevelBits_next bs' i)"
  shows "side_ok s lp n (sz[i := left]) bs'
    (if left = 0 \<and> lp i = best then if j = LevelBits_kNone then kNoPrice else lp j else best) (V(lp i := V (lp i) - unat q))"
proof -
  note d = ok [unfolded side_ok_def]
  have icap: "i < lb_cap bs" using d i by simp
  have u: "unat left = V (lp i) - unat q"
    using d i fit by (auto simp: left_def level_less_def word_le_nat_alt unat_sub)
  have bits: "lb_ok bs'" "lb_cap bs' = lb_cap bs" "has_level bs' k \<longleftrightarrow> (k < n \<and> sz[i := left] ! k \<noteq> 0)" for k
    using bits.inv_del [of bs i] bits.has_del [of bs i k] d icap i u fit
    by (auto simp: bs'_def nth_list_update left_def level_less_def split: if_splits)
  have top: "top_of s lp (sz[i := left]) (if left = 0 \<and> lp i = best then if j = LevelBits_kNone then kNoPrice else lp j else best)"
  proof (cases "left = 0 \<and> lp i = best")
    case True
    then obtain k where k: "k < n" "best = lp k" "\<And>x. x < n \<Longrightarrow> sz ! x \<noteq> 0 \<Longrightarrow> ahead s k x"
      using d i ax by (auto simp: axis_def elim!: top_of_cases)
    then have "ahead s i x" if "x < n" "sz[i := left] ! x \<noteq> 0" for x
      using that True d axis_inj [OF ax, of i k] by (cases "x = i") auto
    then have "top_of s lp (sz[i := left]) (if j = LevelBits_kNone then kNoPrice else lp j)"
      using top_of_scan [of "sz[i := left]" n bs' i lp] bits d icap 
      by (cases s) (simp_all add: j_def ahead_def cong: if_cong split del: if_split)
    then show ?thesis using True by simp
  next
    case False
    from d have "top_of s lp sz best" by simp
    then have "top_of s lp (sz[i := left]) best"
    proof (cases rule: top_of_cases)
      case none
      then have "sz ! i = 0" using i d by simp
      then have "left = 0" by (simp add: left_def level_less_def)
      then have "sz[i := left] ! x = 0" if "x < length sz" for x using none(2) that by (cases "x = i") simp_all
      then show ?thesis using none(1) by (simp add: top_of_def)
    next
      case (some k)
      moreover have "sz[i := left] ! k \<noteq> 0" using some False i d by (auto simp: nth_list_update)
      moreover have "sz ! x \<noteq> 0" if "x < length sz" "sz[i := left] ! x \<noteq> 0" for x
        using that by (cases "x = i") (auto simp: left_def level_less_def)
      ultimately show ?thesis by (intro top_ofI [of k]) auto
    qed
    then show ?thesis by (simp only: if_not_P [OF False])
  qed
  show ?thesis using d bits top i u axis_inj [OF ax] by (auto simp: side_ok_def nth_list_update)
qed

lemma lb_ok_reset: "n \<le> 2 ^ 40 \<Longrightarrow> lb_ok (LevelBits_reset n bs)"
  using lb_inv_reset [of n bs] by (simp add: lb_ok_def LevelBits_reset_def Let_def LevelBits_kNone_def) linarith

lemma lb_cap_reset: "n \<le> lb_cap (LevelBits_reset n bs)"
  by (simp add: lb_cap_def LevelBits_reset_def Let_def) linarith

lemma side_ok_empty:
  "n \<le> 2 ^ 40 \<Longrightarrow> side_ok s lp n (replicate n 0) (LevelBits_reset n bs) kNoPrice (\<lambda>_. 0)"
  by (simp add: side_ok_def lb_ok_reset lb_cap_reset has_level_reset top_of_def)

section \<open>Moving the levels\<close>

lemma nth_poke: "off + length bs \<le> length buf \<Longrightarrow> j < length buf \<Longrightarrow>
    poke off bs buf ! j = (if off \<le> j \<and> j < off + length bs then bs ! (j - off) else buf ! j)"
  by (auto simp: poke_def nth_append)

text \<open>The effect of growing, \<^verbatim>\<open>memmove\<close>, clearing both ends and shrinking.\<close>

lemma move_levels:
  fixes levels :: "Quantity list"
  assumes "oi0 + len \<le> length levels" and "nj0 + len \<le> newN"
  defines "l1 \<equiv> if newN > length levels then levels @ replicate (newN - length levels) 0 else levels"
  defines "l2 \<equiv> if len > 0 \<and> nj0 \<noteq> oi0 then poke nj0 (peek oi0 len l1) l1 else l1"
  defines "l3 \<equiv> replicate nj0 0 @ drop nj0 l2"
  defines "l4 \<equiv> take (nj0 + len) l3 @ replicate (length l3 - (nj0 + len)) 0"
  defines "res \<equiv> if newN < length l4 then take newN l4 else l4"
  shows "length res = newN \<and> (\<forall>j < newN. res ! j = (if nj0 \<le> j \<and> j < nj0 + len then levels ! (oi0 + (j - nj0)) else 0))"
proof -
  have n1: "length l1 = max (length levels) newN" by (auto simp: l1_def)
  have p: "length (peek oi0 len l1) = len" using assms(1) n1 by simp
  have n2: "length l2 = max (length levels) newN" using p n1 assms(2) by (auto simp: l2_def)
  have n3: "length l3 = max (length levels) newN" using n2 assms(2) by (auto simp: l3_def)
  have n4: "length l4 = max (length levels) newN" using n3 assms(2) by (auto simp: l4_def)
  have pk: "peek oi0 len l1 ! k = levels ! (oi0 + k)" if "k < len" for k
    using that assms(1) by (auto simp: peek_def l1_def nth_append)
  have e2: "l2 ! j = levels ! (oi0 + (j - nj0))" if "nj0 \<le> j" "j < nj0 + len" for j
  proof (cases "nj0 = oi0")
    case True
    then show ?thesis using that assms(1) by (auto simp: l2_def l1_def nth_append)
  next
    case False
    then show ?thesis using that assms(2) n1 p pk [of "j - nj0"] nth_poke [of nj0 "peek oi0 len l1" l1 j] by (auto simp: l2_def)
  qed
  have "l4 ! j = (if nj0 \<le> j \<and> j < nj0 + len then levels ! (oi0 + (j - nj0)) else 0)" if "j < newN" for j
  proof (cases "nj0 \<le> j \<and> j < nj0 + len")
    case True
    then have "l4 ! j = l2 ! j" using n2 n3 that by (auto simp: l4_def l3_def nth_append)
    then show ?thesis using True e2 by simp
  next
    case False
    then have "l4 ! j = 0" using n2 n3 n4 that assms(2) by (auto simp: l4_def l3_def nth_append)
    then show ?thesis by (simp only: if_not_P [OF False])
  qed
  then show ?thesis using n4 by (auto simp: res_def)
qed

end
