(* ===== verification/BookLevels.thy ===== *)
theory BookLevels
  imports BookFeed
begin

text \<open>
  The invariant that ties the levels of a book builder to a map of resting orders, and the operations that keep
  it: adding and removing shares inside and outside the band, rebuilding all levels from the order table, and moving
  the band in place.
\<close>

section \<open>Levels that agree with the orders\<close>

definition outside :: "BookBuilder \<Rightarrow> FeedOrder \<Rightarrow> bool" where
  "outside b r \<longleftrightarrow> \<not> fo_own r \<and> \<not> BookBuilder_inBand (fo_price r) b"

definition outside_prices :: "BookBuilder \<Rightarrow> orders \<Rightarrow> Price set" where
  "outside_prices b A = {fo_price r | k r. A k = Some r \<and> outside b r}"

definition covers :: "Price \<Rightarrow> Price \<Rightarrow> Price set \<Rightarrow> bool" where
  "covers lo hi S \<longleftrightarrow> (\<forall>p \<in> S. lo \<noteq> kNoPrice \<and> hi \<noteq> kNoPrice \<and> lo \<le> p \<and> p \<le> hi)"

definition levels_ok :: "nat \<Rightarrow> BookBuilder \<Rightarrow> orders \<Rightarrow> bool" where
  "levels_ok n b A \<longleftrightarrow> band_grid b n \<and>
     side_ok Buy (level_price b) n (bb_bidSize b) (bb_bidBits b) (bb_bestBid b) (feed_volume A Buy) \<and>
     side_ok Sell (level_price b) n (bb_askSize b) (bb_askBits b) (bb_bestAsk b) (feed_volume A Sell) \<and>
     bb_parkedShares b = of_nat (shares_where (outside b) A) \<and> covers (bb_parkedLo b) (bb_parkedHi b) (outside_prices b A)"

text \<open>The sizes the sources can count: fewer than \<open>2 ^ 32\<close> shares at a price and \<open>2 ^ 64\<close> in all, prices not negative.\<close>

definition tame :: "orders \<Rightarrow> bool" where
  "tame A \<longleftrightarrow> finite (dom A) \<and> (\<forall>k r. A k = Some r \<longrightarrow> 0 < fo_shares r \<and> 0 \<le> fo_price r) \<and>
     (\<forall>s p. feed_volume A s p < 2 ^ 32) \<and> shares_where (\<lambda>r. \<not> fo_own r) A < 2 ^ 64"

text \<open>What the operations on levels leave alone.\<close>

definition geometry :: "BookBuilder \<Rightarrow> Price \<times> Price \<times> Price \<times> DivBy" where
  "geometry b = (bb_minPrice b, bb_maxPrice b, bb_tickWire b, bb_tickDiv b)"

definition settings :: "BookBuilder \<Rightarrow> OrderId \<times> nat \<times> nat \<times> (Price \<Rightarrow> Price \<Rightarrow> nat) option \<times> Price \<times> Price" where
  "settings b = (bb_ownRefMin b, bb_bandTicks b, bb_maxBandTicks b, bb_byPrice b, bb_baseTick b, bb_subDollarTick b)"

definition registry :: "BookBuilder \<Rightarrow> (64 word, Resting) FlatHashMap \<times> nat" where
  "registry b = (bb_orders b, bb_own b)"

lemmas frame_defs = geometry_def settings_def registry_def

lemma geometry_cong:
  assumes "geometry b' = geometry b"
  shows "level_price b' = level_price b" "BookBuilder_inBand p b' = BookBuilder_inBand p b" "BookBuilder_index p b' = BookBuilder_index p b"
    "band_grid b' n = band_grid b n" "outside b' = outside b" "outside_prices b' = outside_prices b"
proof -
  have g: "bb_minPrice b' = bb_minPrice b" "bb_maxPrice b' = bb_maxPrice b" "bb_tickWire b' = bb_tickWire b" "bb_tickDiv b' = bb_tickDiv b"
    using assms by (simp_all add: geometry_def)
  show lp: "level_price b' = level_price b" using g by (simp add: fun_eq_iff level_price_def)
  show ib: "BookBuilder_inBand p b' = BookBuilder_inBand p b" for p using g by (simp add: BookBuilder_inBand_def BookBuilder_inRange_def)
  show "BookBuilder_index p b' = BookBuilder_index p b" using g by (simp add: BookBuilder_index_def)
  show "band_grid b' n = band_grid b n" using g lp by (simp add: band_grid_def)
  show o: "outside b' = outside b" using ib by (simp add: fun_eq_iff outside_def)
  show "outside_prices b' = outside_prices b" using o by (simp add: fun_eq_iff outside_prices_def)
qed

lemma geometry_upd [simp]:
  "geometry (b\<lparr>bb_topVersion := x0\<rparr>) = geometry b"
  "geometry (b\<lparr>bb_bidSize := x1\<rparr>) = geometry b"
  "geometry (b\<lparr>bb_askSize := x2\<rparr>) = geometry b"
  "geometry (b\<lparr>bb_bidBits := x3\<rparr>) = geometry b"
  "geometry (b\<lparr>bb_askBits := x4\<rparr>) = geometry b"
  "geometry (b\<lparr>bb_rescansOut := x5\<rparr>) = geometry b"
  "geometry (b\<lparr>bb_bestBid := x6\<rparr>) = geometry b"
  "geometry (b\<lparr>bb_bestAsk := x7\<rparr>) = geometry b"
  "geometry (b\<lparr>bb_oob := x8\<rparr>) = geometry b"
  "geometry (b\<lparr>bb_reanchors := x9\<rparr>) = geometry b"
  "geometry (b\<lparr>bb_reanchorsOut := x10\<rparr>) = geometry b"
  "geometry (b\<lparr>bb_orders := x11\<rparr>) = geometry b"
  "geometry (b\<lparr>bb_own := x12\<rparr>) = geometry b"
  "geometry (b\<lparr>bb_parkedShares := x13\<rparr>) = geometry b"
  "geometry (b\<lparr>bb_parkedLo := x14\<rparr>) = geometry b"
  "geometry (b\<lparr>bb_parkedHi := x15\<rparr>) = geometry b"
  by (simp_all add: geometry_def)

lemmas band_upd [simp] =
  geometry_cong(1-3) [OF geometry_upd(1)]
  geometry_cong(1-3) [OF geometry_upd(2)]
  geometry_cong(1-3) [OF geometry_upd(3)]
  geometry_cong(1-3) [OF geometry_upd(4)]
  geometry_cong(1-3) [OF geometry_upd(5)]
  geometry_cong(1-3) [OF geometry_upd(6)]
  geometry_cong(1-3) [OF geometry_upd(7)]
  geometry_cong(1-3) [OF geometry_upd(8)]
  geometry_cong(1-3) [OF geometry_upd(9)]
  geometry_cong(1-3) [OF geometry_upd(10)]
  geometry_cong(1-3) [OF geometry_upd(11)]
  geometry_cong(1-3) [OF geometry_upd(12)]
  geometry_cong(1-3) [OF geometry_upd(13)]
  geometry_cong(1-3) [OF geometry_upd(14)]
  geometry_cong(1-3) [OF geometry_upd(15)]
  geometry_cong(1-3) [OF geometry_upd(16)]

lemma park_frame [frame_simps]:
  "geometry (BookBuilder_park p q b) = geometry b" "settings (BookBuilder_park p q b) = settings b"
  "registry (BookBuilder_park p q b) = registry b" "bb_anchored (BookBuilder_park p q b) = bb_anchored b"
  "bb_bidSize (BookBuilder_park p q b) = bb_bidSize b" "bb_askSize (BookBuilder_park p q b) = bb_askSize b"
  "bb_bidBits (BookBuilder_park p q b) = bb_bidBits b" "bb_askBits (BookBuilder_park p q b) = bb_askBits b"
  "bb_bestBid (BookBuilder_park p q b) = bb_bestBid b" "bb_bestAsk (BookBuilder_park p q b) = bb_bestAsk b"
  by (simp_all add: BookBuilder_park_def frame_defs)

lemma addLevel_frame [frame_simps]:
  "geometry (BookBuilder_addLevel s p q b) = geometry b" "settings (BookBuilder_addLevel s p q b) = settings b"
  "registry (BookBuilder_addLevel s p q b) = registry b" "bb_anchored (BookBuilder_addLevel s p q b) = bb_anchored b"
  "bb_parkedShares (BookBuilder_addLevel s p q b) = bb_parkedShares b" "bb_parkedLo (BookBuilder_addLevel s p q b) = bb_parkedLo b"
  "bb_parkedHi (BookBuilder_addLevel s p q b) = bb_parkedHi b"
  by (simp_all add: BookBuilder_addLevel_def frame_defs Let_def)

lemma addShares_frame [frame_simps]:
  "geometry (BookBuilder_addShares s p q b) = geometry b" "settings (BookBuilder_addShares s p q b) = settings b"
  "registry (BookBuilder_addShares s p q b) = registry b" "bb_anchored (BookBuilder_addShares s p q b) = bb_anchored b"
  by (simp_all add: BookBuilder_addShares_def BookBuilder_addLevel_def BookBuilder_park_def frame_defs Let_def)

lemma removeShares_frame [frame_simps]:
  "geometry (BookBuilder_removeShares s p q b) = geometry b" "settings (BookBuilder_removeShares s p q b) = settings b"
  "registry (BookBuilder_removeShares s p q b) = registry b" "bb_anchored (BookBuilder_removeShares s p q b) = bb_anchored b"
  by (simp_all add: BookBuilder_removeShares_def BookBuilder_unpark_def BookBuilder_rescanBestBid_def BookBuilder_rescanBestAsk_def
      count_rescan_def frame_defs Let_def)

section \<open>Adding shares\<close>

lemma covers_park:
  assumes "covers lo hi S" and "p \<noteq> kNoPrice"
  shows "covers (if lo = kNoPrice \<or> p < lo then p else lo) (if hi = kNoPrice \<or> p > hi then p else hi) (insert p S)"
  using assms by (auto simp: covers_def)

lemma volume_insert:
  "finite (dom A) \<Longrightarrow> A k = None \<Longrightarrow>
   feed_volume (A(k \<mapsto> r)) s = (if fo_own r \<or> fo_side r \<noteq> s then feed_volume A s
     else (feed_volume A s)(fo_price r := feed_volume A s (fo_price r) + fo_shares r))"
  by (auto simp: fun_eq_iff feed_volume_def shares_where_insert rests_at_def)

lemma outside_insert:
  "A k = None \<Longrightarrow> outside_prices b (A(k \<mapsto> r)) = (if outside b r then insert (fo_price r) (outside_prices b A) else outside_prices b A)"
  unfolding outside_prices_def by (auto split: if_splits) (metis option.distinct(1))+

lemma levels_own:
  assumes "levels_ok n b A" and "finite (dom A)" and "A k = None" and "fo_own r"
  shows "levels_ok n b (A(k \<mapsto> r))"
  using assms by (simp add: levels_ok_def volume_insert outside_insert shares_where_insert outside_def)

lemma levels_park:
  assumes ok: "levels_ok n b A" and f: "finite (dom A)" and k: "A k = None" and r: "outside b r" "fo_shares r = unat q" "0 \<le> fo_price r"
  shows "levels_ok n (BookBuilder_park (fo_price r) q b) (A(k \<mapsto> r))"
proof -
  let ?b = "BookBuilder_park (fo_price r) q b"
  note g = geometry_cong [OF park_frame(1) [of "fo_price r" q b]]
  have nb: "level_price b i \<noteq> fo_price r" if "i < n" for i
    using r(1) ok that inBand_iff [of b n "fo_price r"] by (metis outside_def levels_ok_def)
  have "fo_price r \<noteq> kNoPrice" using r(3) by (simp add: kNoPrice_def)
  then have c: "covers (bb_parkedLo ?b) (bb_parkedHi ?b) (insert (fo_price r) (outside_prices b A))"
    using covers_park [of "bb_parkedLo b" "bb_parkedHi b" "outside_prices b A" "fo_price r"] ok
    by (simp add: levels_ok_def BookBuilder_park_def)
  have p: "bb_parkedShares ?b = of_nat (shares_where (outside b) A + unat q)"
    using ok by (simp add: levels_ok_def BookBuilder_park_def)
  have v: "side_ok s lp n sz bs best (feed_volume (A(k \<mapsto> r)) s)"
    if "side_ok s lp n sz bs best (feed_volume A s)" "lp = level_price b" for s lp sz bs best
    using that nb by (intro side_ok_cong [OF that(1)]) (auto simp: volume_insert [OF f k])
  show ?thesis using ok c p r v by (simp add: levels_ok_def g frame_simps outside_insert shares_where_insert f k)
qed

lemma levels_add:
  assumes ok: "levels_ok n b A" and f: "finite (dom A)" and k: "A k = None"
    and r: "\<not> fo_own r" "BookBuilder_inBand (fo_price r) b" "fo_shares r = unat q" "q \<noteq> 0"
    and fit: "feed_volume (A(k \<mapsto> r)) (fo_side r) (fo_price r) < 2 ^ 32"
  shows "levels_ok n (BookBuilder_addLevel (fo_side r) (fo_price r) q b) (A(k \<mapsto> r))"
proof -
  let ?b = "BookBuilder_addLevel (fo_side r) (fo_price r) q b"
  note g = geometry_cong [OF addLevel_frame(1) [of "fo_side r" "fo_price r" q b]]
  have grid: "band_grid b n" using ok by (simp add: levels_ok_def)
  obtain i where i: "i < n" "fo_price r = level_price b i" using r(2) inBand_iff [OF grid] by blast
  note ax = band_axis [OF grid] and ix = index_level [OF grid i(1)]
  have fit': "feed_volume A (fo_side r) (level_price b i) + unat q < 2 ^ 32" using fit r i by (simp add: volume_insert [OF f k])
  have out: "\<not> outside b r" using r by (simp add: outside_def)
  have "side_ok Buy (level_price b) n (bb_bidSize ?b) (bb_bidBits ?b) (bb_bestBid ?b) (feed_volume (A(k \<mapsto> r)) Buy) \<and>
        side_ok Sell (level_price b) n (bb_askSize ?b) (bb_askBits ?b) (bb_bestAsk ?b) (feed_volume (A(k \<mapsto> r)) Sell)"
  proof (cases "fo_side r")
    case Buy
    then show ?thesis using ok r i fit' side_ok_add [OF _ ax i(1) r(4), of Buy "bb_bidSize b" "bb_bidBits b" "bb_bestBid b" "feed_volume A Buy"]
      by (simp add: levels_ok_def BookBuilder_addLevel_def ix volume_insert [OF f k] improves_def Let_def)
  next
    case Sell
    then show ?thesis using ok r i fit' side_ok_add [OF _ ax i(1) r(4), of Sell "bb_askSize b" "bb_askBits b" "bb_bestAsk b" "feed_volume A Sell"]
      by (simp add: levels_ok_def BookBuilder_addLevel_def ix volume_insert [OF f k] improves_def Let_def)
  qed
  then show ?thesis using ok out by (simp add: levels_ok_def g frame_simps outside_insert shares_where_insert f k)
qed

section \<open>Removing shares\<close>

lemma volume_less:
  assumes "finite (dom A)" and "A k = Some r" and "q \<le> fo_shares r"
  shows "feed_volume (feed_less k q A) s = (if fo_own r \<or> fo_side r \<noteq> s then feed_volume A s
    else (feed_volume A s)(fo_price r := feed_volume A s (fo_price r) - q))"
  using shares_where_less [OF assms] by (auto simp: fun_eq_iff feed_volume_def rests_at_def)

lemma outside_less: "(\<forall>k r. A k = Some r \<longrightarrow> fo_shares r \<noteq> 0) \<Longrightarrow> outside_prices b (feed_less k q A) \<subseteq> outside_prices b A"
proof
  fix p
  assume a: "\<forall>k r. A k = Some r \<longrightarrow> fo_shares r \<noteq> 0" and "p \<in> outside_prices b (feed_less k q A)"
  then obtain x r' where r': "feed_less k q A x = Some r'" "outside b r'" "p = fo_price r'" by (auto simp: outside_prices_def)
  then obtain r where r: "A x = Some r" "r' = r\<lparr>fo_shares := fo_shares r'\<rparr>" using feed_less_member a by blast
  have "fo_price r' = fo_price r \<and> fo_own r' = fo_own r" by (subst r(2), subst r(2)) simp
  then show "p \<in> outside_prices b A" using r(1) r' by (auto simp: outside_prices_def outside_def)
qed

lemma covers_subset: "covers lo hi S \<Longrightarrow> T \<subseteq> S \<Longrightarrow> covers lo hi T"
  by (auto simp: covers_def)

lemma levels_less_own:
  assumes "levels_ok n b A" and "finite (dom A)" and "\<forall>k r. A k = Some r \<longrightarrow> fo_shares r \<noteq> 0"
    and "A k = Some r" and "fo_own r" and "q \<le> fo_shares r"
  shows "levels_ok n b (feed_less k q A)"
  using assms covers_subset [OF _ outside_less [OF assms(3), of b k q]] shares_where_less [OF assms(2,4,6), of "outside b"]
  by (auto simp: levels_ok_def volume_less [OF assms(2,4,6)] outside_def)

lemma unpark_left:
  assumes "bb_parkedShares b = of_nat S" and "S < 2 ^ 64" and "unat q \<le> S"
  shows "bb_parkedShares (BookBuilder_unpark q b) = of_nat (S - unat q)"
    and "bb_parkedLo (BookBuilder_unpark q b) = (if S = unat q then kNoPrice else bb_parkedLo b)"
    and "bb_parkedHi (BookBuilder_unpark q b) = (if S = unat q then kNoPrice else bb_parkedHi b)"
proof -
  have s: "unat (of_nat S :: u64) = S" using assms(2) by (simp add: unsigned_of_nat take_bit_eq_mod)
  have "unat q < 2 ^ 64" using unat_lt2p [of q] by simp
  then have c: "unat (ucast q :: u64) = unat q" by (simp add: unat_ucast_mod)
  have le: "(ucast q :: u64) \<le> of_nat S" using s c assms(3) by (simp add: word_le_nat_alt)
  then have l: "(of_nat S :: u64) - min (ucast q) (of_nat S) = of_nat (S - unat q)"
    using s c assms(3) by (simp add: word_unat_eq_iff unat_sub min_def unsigned_of_nat take_bit_eq_mod)
  moreover have "unat (of_nat (S - unat q) :: u64) = S - unat q" using assms(2) by (simp add: unsigned_of_nat take_bit_eq_mod)
  then have "(of_nat (S - unat q) :: u64) = 0 \<longleftrightarrow> S = unat q"
    using assms(3) unat_eq_zero [of "of_nat (S - unat q) :: u64"] by linarith
  ultimately show "bb_parkedShares (BookBuilder_unpark q b) = of_nat (S - unat q)"
    "bb_parkedLo (BookBuilder_unpark q b) = (if S = unat q then kNoPrice else bb_parkedLo b)"
    "bb_parkedHi (BookBuilder_unpark q b) = (if S = unat q then kNoPrice else bb_parkedHi b)"
    using assms(1) by (simp_all add: BookBuilder_unpark_def Let_def)
qed

lemma unpark_frame [frame_simps]:
  "geometry (BookBuilder_unpark q b) = geometry b"
  "bb_bidSize (BookBuilder_unpark q b) = bb_bidSize b" "bb_askSize (BookBuilder_unpark q b) = bb_askSize b"
  "bb_bidBits (BookBuilder_unpark q b) = bb_bidBits b" "bb_askBits (BookBuilder_unpark q b) = bb_askBits b"
  "bb_bestBid (BookBuilder_unpark q b) = bb_bestBid b" "bb_bestAsk (BookBuilder_unpark q b) = bb_bestAsk b"
  by (simp_all add: BookBuilder_unpark_def frame_defs Let_def)

lemma levels_unpark:
  assumes ok: "levels_ok n b A" and t: "tame A" and k: "A k = Some r" and o: "outside b r" and q: "unat q \<le> fo_shares r"
  shows "levels_ok n (BookBuilder_unpark q b) (feed_less k (unat q) A)"
proof -
  let ?A = "feed_less k (unat q) A" and ?b = "BookBuilder_unpark q b"
  define S where "S = shares_where (outside b) A"
  have f: "finite (dom A)" and pos: "\<forall>k r. A k = Some r \<longrightarrow> fo_shares r \<noteq> 0" using t by (auto simp: tame_def)
  note g = geometry_cong [OF unpark_frame(1) [of q b]]
  have "S \<le> shares_where (\<lambda>r. \<not> fo_own r) A" unfolding S_def by (rule shares_where_mono [OF f]) (simp add: outside_def)
  then have S64: "S < 2 ^ 64" using t by (simp add: tame_def)
  have Sq: "unat q \<le> S" using shares_where_member [OF f k, of "outside b"] o q by (simp add: S_def)
  note u = unpark_left [OF _ S64 Sq, of b]
  have S': "shares_where (outside b) ?A = S - unat q"
    using shares_where_less [OF f k q, of "outside b"] o by (simp add: S_def outside_def)
  have nb: "level_price b i \<noteq> fo_price r" if "i < n" for i using o ok that inBand_iff [of b n "fo_price r"] by (metis outside_def levels_ok_def)
  have v: "side_ok s lp n sz bs best (feed_volume ?A s)"
    if "side_ok s lp n sz bs best (feed_volume A s)" "lp = level_price b" for s lp sz bs best
    using that nb by (intro side_ok_cong [OF that(1)]) (auto simp: volume_less [OF f k q])
  have pos': "\<forall>x r'. ?A x = Some r' \<longrightarrow> fo_shares r' \<noteq> 0" using feed_less_member [of k "unat q" A] pos by blast
  have e: "outside_prices b ?A = {}" if "S = unat q"
    using shares_where_zero [OF finite_feed_less [OF f] pos', of "outside b"] S' that by (simp add: outside_prices_def)
  have "covers (bb_parkedLo ?b) (bb_parkedHi ?b) (outside_prices b ?A)"
  proof (cases "S = unat q")
    case False
    then show ?thesis using u ok covers_subset [OF _ outside_less [OF pos, of b k "unat q"]] by (simp add: levels_ok_def S_def)
  qed (simp add: e covers_def)
  then show ?thesis using ok u v S' by (simp add: levels_ok_def g frame_simps flip: S_def)
qed

lemma levels_remove:
  assumes ok: "levels_ok n b A" and t: "tame A" and k: "A k = Some r" and r: "\<not> fo_own r" "BookBuilder_inBand (fo_price r) b"
    and q: "unat q \<le> fo_shares r"
  shows "levels_ok n (BookBuilder_removeShares (fo_side r) (fo_price r) q b) (feed_less k (unat q) A)"
proof -
  let ?A = "feed_less k (unat q) A" and ?b = "BookBuilder_removeShares (fo_side r) (fo_price r) q b"
  have f: "finite (dom A)" and pos: "\<forall>k r. A k = Some r \<longrightarrow> fo_shares r \<noteq> 0" using t by (auto simp: tame_def)
  note g = geometry_cong [OF removeShares_frame(1) [of "fo_side r" "fo_price r" q b]]
  have grid: "band_grid b n" using ok by (simp add: levels_ok_def)
  obtain i where i: "i < n" "fo_price r = level_price b i" using r(2) inBand_iff [OF grid] by blast
  note ax = band_axis [OF grid] and ix = index_level [OF grid i(1)]
  have ib: "BookBuilder_inBand (level_price b i) b" using r(2) i by simp
  have "fo_shares r \<le> feed_volume A (fo_side r) (level_price b i)"
    using shares_where_member [OF f k, of "rests_at (fo_side r) (level_price b i)"] r i by (simp add: feed_volume_def rests_at_def)
  then have fit: "unat q \<le> feed_volume A (fo_side r) (level_price b i)" using q by simp
  have out: "shares_where (outside b) ?A = shares_where (outside b) A"
    using shares_where_less [OF f k q, of "outside b"] r by (simp add: outside_def)
  have cov: "covers (bb_parkedLo b) (bb_parkedHi b) (outside_prices b ?A)"
    using ok covers_subset [OF _ outside_less [OF pos, of b k "unat q"]] by (simp add: levels_ok_def)
  have parked: "bb_parkedShares ?b = bb_parkedShares b" "bb_parkedLo ?b = bb_parkedLo b" "bb_parkedHi ?b = bb_parkedHi b"
    using i ib by (simp_all add: BookBuilder_removeShares_def BookBuilder_rescanBestBid_def BookBuilder_rescanBestAsk_def count_rescan_def Let_def)
  have "side_ok Buy (level_price b) n (bb_bidSize ?b) (bb_bidBits ?b) (bb_bestBid ?b) (feed_volume ?A Buy) \<and>
        side_ok Sell (level_price b) n (bb_askSize ?b) (bb_askBits ?b) (bb_bestAsk ?b) (feed_volume ?A Sell)"
  proof (cases "fo_side r")
    case Buy
    let ?left = "level_less (bb_bidSize b ! i) q" and ?bits = "\<lambda>c. if c then LevelBits_clear i (bb_bidBits b) else bb_bidBits b"
    have s: "bb_bidSize ?b = (bb_bidSize b)[i := ?left]" "bb_bidBits ?b = ?bits (?left = 0)"
      "bb_bestBid ?b = (if ?left = 0 \<and> level_price b i = bb_bestBid b then
         if LevelBits_prev (?bits (?left = 0)) i = LevelBits_kNone then kNoPrice else level_price b (LevelBits_prev (?bits (?left = 0)) i)
         else bb_bestBid b)"
      "bb_askSize ?b = bb_askSize b" "bb_askBits ?b = bb_askBits b" "bb_bestAsk ?b = bb_bestAsk b"
      using Buy i ib ix by (auto simp: BookBuilder_removeShares_def BookBuilder_rescanBestBid_def count_rescan_def Let_def price_or_none_def)
    have "side_ok Buy (level_price b) n (bb_bidSize b) (bb_bidBits b) (bb_bestBid b) (feed_volume A Buy)" using ok by (simp add: levels_ok_def)
    moreover have "unat q \<le> feed_volume A Buy (level_price b i)" using fit Buy by simp
    ultimately show ?thesis using side_ok_remove [OF _ ax i(1)] ok Buy r i
      unfolding s volume_less [OF f k q] by (simp add: levels_ok_def split del: if_split) fastforce
  next
    case Sell
    let ?left = "level_less (bb_askSize b ! i) q" and ?bits = "\<lambda>c. if c then LevelBits_clear i (bb_askBits b) else bb_askBits b"
    have s: "bb_askSize ?b = (bb_askSize b)[i := ?left]" "bb_askBits ?b = ?bits (?left = 0)"
      "bb_bestAsk ?b = (if ?left = 0 \<and> level_price b i = bb_bestAsk b then
         if LevelBits_next (?bits (?left = 0)) i = LevelBits_kNone then kNoPrice else level_price b (LevelBits_next (?bits (?left = 0)) i)
         else bb_bestAsk b)"
      "bb_bidSize ?b = bb_bidSize b" "bb_bidBits ?b = bb_bidBits b" "bb_bestBid ?b = bb_bestBid b"
      using Sell i ib ix by (auto simp: BookBuilder_removeShares_def BookBuilder_rescanBestAsk_def count_rescan_def Let_def price_or_none_def)
    have "side_ok Sell (level_price b) n (bb_askSize b) (bb_askBits b) (bb_bestAsk b) (feed_volume A Sell)" using ok by (simp add: levels_ok_def)
    moreover have "unat q \<le> feed_volume A Sell (level_price b i)" using fit Sell by simp
    ultimately show ?thesis using side_ok_remove [OF _ ax i(1)] ok Sell r i
      unfolding s volume_less [OF f k q] by (simp add: levels_ok_def split del: if_split) fastforce
  qed
  then show ?thesis using ok out cov by (simp add: levels_ok_def g parked)
qed

lemma levels_removeShares:
  assumes "levels_ok n b A" and "tame A" and "A k = Some r" and "\<not> fo_own r" and "unat q \<le> fo_shares r"
  shows "levels_ok n (BookBuilder_removeShares (fo_side r) (fo_price r) q b) (feed_less k (unat q) A)"
proof (cases "BookBuilder_inBand (fo_price r) b")
  case True
  then show ?thesis using levels_remove assms by blast
next
  case False
  then show ?thesis using levels_unpark [OF assms(1,2,3) _ assms(5)] assms(4) by (simp add: outside_def BookBuilder_removeShares_def)
qed

lemma levels_addShares:
  assumes "levels_ok n b A" and "finite (dom A)" and "A k = None" and "tame (A(k \<mapsto> r))" and "\<not> fo_own r" and "fo_shares r = unat q"
  shows "levels_ok n (BookBuilder_addShares (fo_side r) (fo_price r) q b) (A(k \<mapsto> r))"
proof -
  have r: "q \<noteq> 0" "0 \<le> fo_price r" "feed_volume (A(k \<mapsto> r)) (fo_side r) (fo_price r) < 2 ^ 32"
    using assms(4,6) unfolding tame_def by (metis fun_upd_same unat_0 less_irrefl)+
  have o: "levels_ok n (b\<lparr>bb_oob := x\<rparr>) A \<longleftrightarrow> levels_ok n b A" "outside (b\<lparr>bb_oob := x\<rparr>) = outside b" for x
    using geometry_cong [of "b\<lparr>bb_oob := x\<rparr>" b] by (simp_all add: levels_ok_def geometry_def)
  show ?thesis
  proof (cases "BookBuilder_inBand (fo_price r) b")
    case True
    then show ?thesis using levels_add [OF assms(1,2,3,5) _ assms(6)] r by (simp add: BookBuilder_addShares_def)
  next
    case False
    then show ?thesis using levels_park [of n "b\<lparr>bb_oob := bb_oob b + 1\<rparr>" A k r q] assms r o by (simp add: BookBuilder_addShares_def outside_def)
  qed
qed

section \<open>Rebuilding the levels\<close>

definition order_view :: "Resting \<Rightarrow> FeedOrder" where
  "order_view r = \<lparr>fo_side = Resting_side r, fo_price = r_price r, fo_shares = unat (Resting_shares r), fo_own = Resting_own r\<rparr>"

definition book_orders :: "BookBuilder \<Rightarrow> orders" where
  "book_orders b k = map_option order_view (fm_map (bb_orders b) k)"

lemma order_view_simps [simp]:
  "fo_side (order_view r) = Resting_side r" "fo_price (order_view r) = r_price r"
  "fo_shares (order_view r) = unat (Resting_shares r)" "fo_own (order_view r) = Resting_own r"
  by (simp_all add: order_view_def)

lemma levels_rebuild_order:
  assumes "levels_ok n b A" and "A k = None" and "A(k \<mapsto> order_view r) \<subseteq>\<^sub>m B" and "tame B"
  shows "levels_ok n (rebuild_order k r b) (A(k \<mapsto> order_view r))"
proof -
  have fB: "finite (dom B)" and Bk: "B k = Some (order_view r)"
    using assms(3,4) by (auto simp: tame_def map_le_def split: if_splits)
  then have f: "finite (dom (A(k \<mapsto> order_view r)))" "finite (dom A)"
    using map_le_implies_dom_le [OF assms(3)] finite_subset by (auto simp: dom_fun_upd)
  have r: "Resting_shares r \<noteq> 0" "0 \<le> r_price r" using Bk assms(4) by (auto simp: tame_def) fastforce+
  have "feed_volume (A(k \<mapsto> order_view r)) s p \<le> feed_volume B s p" for s p
    unfolding feed_volume_def by (rule shares_where_submap [OF fB assms(3)])
  then have v: "feed_volume (A(k \<mapsto> order_view r)) s p < 2 ^ 32" for s p using assms(4) by (metis order_le_less_trans tame_def)
  show ?thesis
    using levels_own [OF assms(1) f(2) assms(2), of "order_view r"] levels_add [OF assms(1) f(2) assms(2), of "order_view r"]
      levels_park [OF assms(1) f(2) assms(2), of "order_view r"] r v
    by (simp add: rebuild_order_def outside_def)
qed

lemma rebuild_order_frame [frame_simps]:
  "geometry (rebuild_order k r b) = geometry b" "settings (rebuild_order k r b) = settings b"
  "registry (rebuild_order k r b) = registry b" "bb_anchored (rebuild_order k r b) = bb_anchored b"
  by (simp_all add: rebuild_order_def frame_simps)

lemma levels_rebuild_list:
  assumes "levels_ok n b A" and "distinct (map fst xs)" and "\<And>k. k \<in> fst ` set xs \<Longrightarrow> A k = None"
    and "tame B" and "B = (\<lambda>k. case map_of xs k of Some r \<Rightarrow> Some (order_view r) | None \<Rightarrow> A k)"
  shows "levels_ok n (fold (\<lambda>s. rebuild_order (fst s) (snd s)) xs b) B"
  using assms
proof (induction xs arbitrary: b A)
  case (Cons x xs)
  obtain k r where x: "x = (k, r)" by (cases x)
  have nk: "map_of xs k = None" using Cons.prems(2) x by (simp add: map_of_eq_None_iff)
  let ?A = "A(k \<mapsto> order_view r)"
  have B: "B = (\<lambda>k. case map_of xs k of Some r \<Rightarrow> Some (order_view r) | None \<Rightarrow> ?A k)"
    using Cons.prems(5) x nk by (auto simp: fun_eq_iff split: option.split)
  have le: "?A \<subseteq>\<^sub>m B"
  proof (rule map_le_def [THEN iffD2], rule ballI)
    fix a assume "a \<in> dom ?A"
    then have "a \<notin> fst ` set xs" using Cons.prems(2) Cons.prems(3) [of a] x by (metis (no_types, lifting) distinct.simps(2) domIff fst_conv fun_upd_apply image_insert insertCI list.map(2) list.set_map list.simps(15))
    then have "map_of xs a = None" by (simp add: map_of_eq_None_iff)
    then show "?A a = B a" using B by simp
  qed
  have A: "?A a = None" if "a \<in> fst ` set xs" for a using Cons.prems(2,3) x that by auto
  have "levels_ok n (rebuild_order k r b) ?A" using levels_rebuild_order [OF Cons.prems(1) _ le Cons.prems(4)] Cons.prems(3) x by simp
  from Cons.IH [OF this _ A Cons.prems(4) B] show ?case using Cons.prems(2) x by simp
qed simp

lemma fold_frame:
  assumes "\<And>x b. geometry (f x b) = geometry b" "\<And>x b. settings (f x b) = settings b"
    "\<And>x b. registry (f x b) = registry b" "\<And>x b. bb_anchored (f x b) = bb_anchored b"
  shows "geometry (fold f xs b) = geometry b \<and> settings (fold f xs b) = settings b \<and>
    registry (fold f xs b) = registry b \<and> bb_anchored (fold f xs b) = bb_anchored b"
  using assms by (induction xs arbitrary: b) simp_all

lemma rebuildLevels_ok:
  assumes "band_grid b n" and "n \<le> 2 ^ 40" and "fm_inv (bb_orders b)" and "tame (book_orders b)"
    and "bb_bidSize b = replicate n 0" "bb_askSize b = replicate n 0" "bb_bidBits b = LevelBits_reset n x" "bb_askBits b = LevelBits_reset n y"
    and "bb_bestBid b = kNoPrice" "bb_bestAsk b = kNoPrice"
  shows "levels_ok n (BookBuilder_rebuildLevels b) (book_orders b) \<and> settings (BookBuilder_rebuildLevels b) = settings b \<and>
    registry (BookBuilder_rebuildLevels b) = registry b \<and> bb_anchored (BookBuilder_rebuildLevels b) = bb_anchored b"
proof -
  let ?b = "b\<lparr>bb_parkedShares := 0, bb_parkedLo := kNoPrice, bb_parkedHi := kNoPrice\<rparr>"
  have g: "band_grid ?b n" using assms(1) geometry_cong(4) [of ?b b] by simp
  have "levels_ok n ?b Map.empty"
    using g assms side_ok_empty [OF assms(2)]
    by (simp add: levels_ok_def outside_prices_def covers_def)
  moreover have "book_orders b = (\<lambda>k. case map_of (fm_list (bb_orders b)) k of Some r \<Rightarrow> Some (order_view r) | None \<Rightarrow> Map.empty k)"
    by (simp add: fun_eq_iff book_orders_def fm_list_map split: option.split)
  ultimately have "levels_ok n (BookBuilder_rebuildLevels b) (book_orders b)"
    using levels_rebuild_list [OF _ fm_list_distinct [OF assms(3)] _ assms(4)] by (simp add: BookBuilder_rebuildLevels_def forEach_fold)
  then show ?thesis
    using fold_frame [of "\<lambda>s. rebuild_order (fst s) (snd s)" "fm_list (bb_orders b)" ?b]
    by (simp add: BookBuilder_rebuildLevels_def forEach_fold frame_simps) (simp add: frame_defs)
qed

section \<open>Moving the band\<close>

definition sizes_of :: "BookBuilder \<Rightarrow> Quantity list \<times> Quantity list \<times> LevelBits \<times> LevelBits \<times> Price \<times> Price" where
  "sizes_of b = (bb_bidSize b, bb_askSize b, bb_bidBits b, bb_askBits b, bb_bestBid b, bb_bestAsk b)"

definition park_level :: "(nat \<Rightarrow> bool) \<Rightarrow> Quantity list \<Rightarrow> nat \<Rightarrow> BookBuilder \<Rightarrow> BookBuilder" where
  "park_level leave levels i b = (if leave i \<and> levels ! i \<noteq> 0 then BookBuilder_park (level_price b i) (levels ! i) b else b)"

lemma park_level_frame:
  "geometry (park_level leave levels i b) = geometry b" "settings (park_level leave levels i b) = settings b"
  "registry (park_level leave levels i b) = registry b" "bb_anchored (park_level leave levels i b) = bb_anchored b"
  "sizes_of (park_level leave levels i b) = sizes_of b" "bb_reanchors (park_level leave levels i b) = bb_reanchors b"
  by (simp_all add: park_level_def frame_simps sizes_of_def) (simp_all add: BookBuilder_park_def)

lemma park_fold_frame:
  "geometry (fold (park_level leave levels) xs b) = geometry b" "settings (fold (park_level leave levels) xs b) = settings b"
  "registry (fold (park_level leave levels) xs b) = registry b" "bb_anchored (fold (park_level leave levels) xs b) = bb_anchored b"
  "sizes_of (fold (park_level leave levels) xs b) = sizes_of b" "bb_reanchors (fold (park_level leave levels) xs b) = bb_reanchors b"
  by (induction xs arbitrary: b) (simp_all add: park_level_frame)

lemma park_fold_shares:
  "bb_parkedShares (fold (park_level leave levels) xs b) =
     bb_parkedShares b + of_nat (\<Sum>i\<leftarrow>xs. if leave i then unat (levels ! i) else 0)"
  by (induction xs arbitrary: b) (auto simp: park_level_def BookBuilder_park_def algebra_simps)

lemma park_fold_covers:
  assumes "covers (bb_parkedLo b) (bb_parkedHi b) S" and "\<forall>i \<in> set xs. level_price b i \<noteq> kNoPrice"
  shows "covers (bb_parkedLo (fold (park_level leave levels) xs b)) (bb_parkedHi (fold (park_level leave levels) xs b))
    (S \<union> {level_price b i | i. i \<in> set xs \<and> leave i \<and> levels ! i \<noteq> 0})"
  using assms
proof (induction xs arbitrary: b S)
  case (Cons x xs)
  let ?b = "park_level leave levels x b" and ?S = "if leave x \<and> levels ! x \<noteq> 0 then insert (level_price b x) S else S"
  have lp: "level_price ?b = level_price b" by (rule geometry_cong(1) [OF park_level_frame(1)])
  have "covers (bb_parkedLo ?b) (bb_parkedHi ?b) ?S"
    using covers_park [OF Cons.prems(1), of "level_price b x"] Cons.prems by (auto simp: park_level_def BookBuilder_park_def)
  from Cons.IH [OF this] have "covers (bb_parkedLo (fold (park_level leave levels) (x # xs) b)) (bb_parkedHi (fold (park_level leave levels) (x # xs) b))
    (?S \<union> {level_price b i | i. i \<in> set xs \<and> leave i \<and> levels ! i \<noteq> 0})" using Cons.prems(2) lp by simp
  then show ?case by (rule covers_subset) (auto split: if_splits)
qed simp

text \<open>Two bands on the same grid, in units of the tick: the old one starts at level \<open>a\<close>, the new one at level \<open>c\<close>.\<close>

definition common :: "nat \<Rightarrow> nat \<Rightarrow> nat \<Rightarrow> nat \<Rightarrow> nat \<times> nat \<times> nat" where
  "common a n c n' = (if max a c < min (a + n) (c + n') then (max a c - a, max a c - c, min (a + n) (c + n') - max a c) else (0, 0, 0))"

lemma shift_split:
  assumes g: "band_grid b n" and l: "length levels = n" and a: "bb_minPrice b = int a * bb_tickWire b"
    and new: "newMin = int c * bb_tickWire b" "newMax = int (c + n' - 1) * bb_tickWire b" "0 < n'"
  defines "leave \<equiv> \<lambda>i. a + i < c \<or> c + n' \<le> a + i"
  shows "snd (BookBuilder_shiftLevels levels newMin newMax b) = fold (park_level leave levels) [0..<n] b"
    and "length (fst (BookBuilder_shiftLevels levels newMin newMax b)) = n'"
    and "j < n' \<Longrightarrow> fst (BookBuilder_shiftLevels levels newMin newMax b) ! j = (if a \<le> c + j \<and> c + j < a + n then levels ! (c + j - a) else 0)"
proof -
  define t where "t = bb_tickWire b"
  have t: "0 < t" and n: "0 < n" using g by (simp_all add: band_grid_def t_def)
  have mx: "bb_maxPrice b = int (a + n - 1) * t" using g a n by (auto simp: band_grid_def level_price_def t_def algebra_simps)
  have lo: "max (bb_minPrice b) newMin = int (max a c) * t"
    using t a new(1) by (simp add: t_def max_def)
  have hi: "min (bb_maxPrice b) newMax = int (min (a + n - 1) (c + n' - 1)) * t"
    using t mx new(2) by (simp add: t_def min_def)
  have le: "int x * t \<le> int y * t \<longleftrightarrow> x \<le> y" for x y using t by simp
  have dv: "nat ((int x * t - int y * t) div t) = x - y" if "y \<le> x" for x y
    using that t by (simp add: nat_diff_distrib flip: left_diff_distrib)
  have newN: "nat ((newMax - newMin) div bb_tickWire b) + 1 = n'"
    using dv [of c "c + n' - 1"] new by (simp add: t_def)
  have idx: "BookBuilder_index (int (max a c) * t) b = max a c - a" if "max a c < a + n"
  proof -
    have "level_price b (max a c - a) = int (max a c) * t" using a by (auto simp: level_price_def t_def algebra_simps of_nat_diff)
    then show ?thesis using index_level [OF g, of "max a c - a"] that by auto
  qed
  have cm: "(if max (bb_minPrice b) newMin \<le> min (bb_maxPrice b) newMax then
       (BookBuilder_index (max (bb_minPrice b) newMin) b, nat ((max (bb_minPrice b) newMin - newMin) div bb_tickWire b),
        nat ((min (bb_maxPrice b) newMax - max (bb_minPrice b) newMin) div bb_tickWire b) + 1) else (0, 0, 0)) = common a n c n'"
  proof (cases "max a c < min (a + n) (c + n')")
    case True
    then have mm: "max a c \<le> min (a + n - 1) (c + n' - 1)" and "max a c < a + n" by auto
    moreover have "min (a + n - 1) (c + n' - 1) - max a c + 1 = min (a + n) (c + n') - max a c" using True by auto
    ultimately have e: "nat ((int (min (a + n - 1) (c + n' - 1)) * t - int (max a c) * t) div t) + 1 = min (a + n) (c + n') - max a c"
      "BookBuilder_index (int (max a c) * t) b = max a c - a" "nat ((int (max a c) * t - int c * t) div t) = max a c - c"
      using idx dv [of c "max a c"] dv [OF mm] by (simp_all only: max.cobounded2)
    show ?thesis unfolding lo hi le common_def if_P [OF True] if_P [OF mm] unfolding new(1) t_def [symmetric] e ..
  next
    case False
    then have mm: "\<not> max a c \<le> min (a + n - 1) (c + n' - 1)" using n new(3) by auto
    show ?thesis unfolding lo hi le common_def if_not_P [OF False] if_not_P [OF mm] ..
  qed
  obtain oi0 nj0 len where c3: "common a n c n' = (oi0, nj0, len)" by (metis prod_cases3)
  have bd: "oi0 + len \<le> length levels" "nj0 + len \<le> n'" using c3 l by (auto simp: common_def split: if_splits)
  have lv: "(\<lambda>i b. if (i < oi0 \<or> i \<ge> oi0 + len) \<and> levels ! i \<noteq> 0 then BookBuilder_park (level_price b i) (levels ! i) b else b) =
      park_level (\<lambda>i. i < oi0 \<or> i \<ge> oi0 + len) levels" by (simp add: fun_eq_iff park_level_def)
  note res = move_levels [OF bd]
  have sh: "BookBuilder_shiftLevels levels newMin newMax b =
     (fst (BookBuilder_shiftLevels levels newMin newMax b), fold (park_level (\<lambda>i. i < oi0 \<or> i \<ge> oi0 + len) levels) [0..<n] b)"
    unfolding BookBuilder_shiftLevels_def Let_def cm newN c3 prod.case lv l by simp
  have "fold (park_level (\<lambda>i. i < oi0 \<or> i \<ge> oi0 + len) levels) [0..<n] b = fold (park_level leave levels) [0..<n] b"
    using c3 by (intro fold_cong) (auto simp: park_level_def leave_def common_def fun_eq_iff split: if_splits)
  then show "snd (BookBuilder_shiftLevels levels newMin newMax b) = fold (park_level leave levels) [0..<n] b" using sh by (metis snd_conv)
  have r: "length (fst (BookBuilder_shiftLevels levels newMin newMax b)) = n' \<and>
     (\<forall>j < n'. fst (BookBuilder_shiftLevels levels newMin newMax b) ! j = (if nj0 \<le> j \<and> j < nj0 + len then levels ! (oi0 + (j - nj0)) else 0))"
    unfolding BookBuilder_shiftLevels_def Let_def cm newN c3 prod.case fst_conv by (rule res)
  then show "length (fst (BookBuilder_shiftLevels levels newMin newMax b)) = n'" by simp
  show "fst (BookBuilder_shiftLevels levels newMin newMax b) ! j = (if a \<le> c + j \<and> c + j < a + n then levels ! (c + j - a) else 0)" if "j < n'"
  proof -
    have "nj0 \<le> j \<and> j < nj0 + len \<longleftrightarrow> a \<le> c + j \<and> c + j < a + n"
      using c3 that by (auto simp: common_def max_def min_def split: if_splits)
    moreover have "oi0 + (j - nj0) = c + j - a" if "nj0 \<le> j" "j < nj0 + len"
      using c3 that by (auto simp: common_def max_def min_def split: if_splits)
    ultimately show ?thesis using r that by auto
  qed
qed

definition mark_levels :: "Quantity list \<Rightarrow> nat list \<Rightarrow> LevelBits \<Rightarrow> LevelBits" where
  "mark_levels sz xs bs = fold (\<lambda>i bs. if sz ! i \<noteq> 0 then LevelBits_set i bs else bs) xs bs"

lemma mark_levels_ok:
  assumes "\<forall>i \<in> set xs. i < lb_cap bs" and "lb_ok bs"
  shows "lb_ok (mark_levels sz xs bs)" and "lb_cap (mark_levels sz xs bs) = lb_cap bs"
    and "has_level (mark_levels sz xs bs) i \<longleftrightarrow> has_level bs i \<or> (i \<in> set xs \<and> sz ! i \<noteq> 0)"
proof -
  have "lb_ok (mark_levels sz xs bs) \<and> lb_cap (mark_levels sz xs bs) = lb_cap bs \<and>
      (\<forall>i. has_level (mark_levels sz xs bs) i \<longleftrightarrow> has_level bs i \<or> (i \<in> set xs \<and> sz ! i \<noteq> 0))"
    using assms
  proof (induction xs arbitrary: bs)
    case (Cons x xs)
    let ?s = "if sz ! x \<noteq> 0 then LevelBits_set x bs else bs"
    have s: "lb_ok ?s" "lb_cap ?s = lb_cap bs" "has_level ?s i \<longleftrightarrow> has_level bs i \<or> (i = x \<and> sz ! x \<noteq> 0)" for i
      using Cons.prems bits.inv_ins [of bs x] bits.has_ins [of bs x i] by auto
    have "mark_levels sz (x # xs) bs = mark_levels sz xs ?s" by (simp add: mark_levels_def)
    then show ?case using Cons.IH [of ?s] Cons.prems s by auto
  qed (simp add: mark_levels_def)
  then show "lb_ok (mark_levels sz xs bs)" "lb_cap (mark_levels sz xs bs) = lb_cap bs"
    "has_level (mark_levels sz xs bs) i \<longleftrightarrow> has_level bs i \<or> (i \<in> set xs \<and> sz ! i \<noteq> 0)" by blast+
qed

definition rebuilt_bits :: "Quantity list \<Rightarrow> LevelBits \<Rightarrow> LevelBits" where
  "rebuilt_bits sz bs = mark_levels sz [0..<length sz] (LevelBits_reset (length sz) bs)"

lemma rebuilt_bits_ok:
  assumes "length sz \<le> 2 ^ 40"
  shows "lb_ok (rebuilt_bits sz bs)" and "length sz \<le> lb_cap (rebuilt_bits sz bs)"
    and "has_level (rebuilt_bits sz bs) i \<longleftrightarrow> i < length sz \<and> sz ! i \<noteq> 0"
proof -
  note c = lb_cap_reset [of "length sz" bs]
  have r: "\<forall>i \<in> set [0..<length sz]. i < lb_cap (LevelBits_reset (length sz) bs)" using c by auto
  note m = mark_levels_ok [OF r lb_ok_reset [OF assms], of sz]
  show "lb_ok (rebuilt_bits sz bs)" "length sz \<le> lb_cap (rebuilt_bits sz bs)"
    "has_level (rebuilt_bits sz bs) i \<longleftrightarrow> i < length sz \<and> sz ! i \<noteq> 0"
    using m c by (auto simp: rebuilt_bits_def has_level_reset)
qed

lemma rebuildBits_eq:
  assumes "length (bb_askSize b) = length (bb_bidSize b)"
  shows "BookBuilder_rebuildBits b =
    b\<lparr>bb_bidBits := rebuilt_bits (bb_bidSize b) (bb_bidBits b), bb_askBits := rebuilt_bits (bb_askSize b) (bb_askBits b)\<rparr>"
proof -
  let ?f = "\<lambda>i b. b\<lparr>bb_bidBits := (if bb_bidSize b ! i \<noteq> 0 then LevelBits_set i (bb_bidBits b) else bb_bidBits b),
                  bb_askBits := (if bb_askSize b ! i \<noteq> 0 then LevelBits_set i (bb_askBits b) else bb_askBits b)\<rparr>"
  have e: "fold ?f xs b = b\<lparr>bb_bidBits := mark_levels (bb_bidSize b) xs (bb_bidBits b), bb_askBits := mark_levels (bb_askSize b) xs (bb_askBits b)\<rparr>" for xs b
    by (induction xs arbitrary: b) (simp_all add: mark_levels_def)
  show ?thesis unfolding BookBuilder_rebuildBits_def e rebuilt_bits_def by (simp add: assms)
qed

definition kept_or_found :: "BookBuilder \<Rightarrow> Price \<Rightarrow> Quantity list \<Rightarrow> nat \<Rightarrow> Price" where
  "kept_or_found b best sz j =
     (if best = kNoPrice \<or> \<not> BookBuilder_inBand best b \<or> sz ! BookBuilder_index best b = 0 then price_or_none b j else best)"

lemma kept_or_found_cong: "geometry b' = geometry b \<Longrightarrow> kept_or_found b' = kept_or_found b"
  using geometry_cong [of b' b] by (simp add: fun_eq_iff kept_or_found_def price_or_none_def)

lemma recomputeBest_eq:
  "BookBuilder_recomputeBest b =
     b\<lparr>bb_bestBid := kept_or_found b (bb_bestBid b) (bb_bidSize b) (LevelBits_prev (bb_bidBits b) (length (bb_bidSize b) - 1)),
       bb_bestAsk := kept_or_found b (bb_bestAsk b) (bb_askSize b) (LevelBits_next (bb_askBits b) 0)\<rparr>"
  by (simp add: BookBuilder_recomputeBest_def kept_or_found_def Let_def price_or_none_def)

text \<open>
  A side after the move: the sizes that stay keep the best price, otherwise the bitmap finds it. \<open>lp\<close> and \<open>lp'\<close> are the
  price axes of the old and the new band.
\<close>

lemma top_of_moved:
  assumes ok: "top_of s lp sz best" and ax: "axis lp n" "axis lp' n'" and l: "length sz = n" "length sz' = n'" "0 < n'"
    and bs: "lb_ok bs" "n' \<le> lb_cap bs" "\<And>i. has_level bs i \<longleftrightarrow> i < n' \<and> sz' ! i \<noteq> 0"
    and moved: "\<And>j. j < n' \<Longrightarrow> sz' ! j \<noteq> 0 \<Longrightarrow> \<exists>i < n. lp i = lp' j \<and> sz ! i = sz' ! j"
    and stay: "\<And>j. keep \<Longrightarrow> \<exists>j < n'. best = lp' j \<and> sz' ! j \<noteq> 0"
    and found: "x = (case s of Buy \<Rightarrow> LevelBits_prev bs (n' - 1) | Sell \<Rightarrow> LevelBits_next bs 0)"
  shows "top_of s lp' sz' (if keep then best else if x = LevelBits_kNone then kNoPrice else lp' x)"
proof (cases keep)
  case True
  then obtain j where j: "j < n'" "best = lp' j" "sz' ! j \<noteq> 0" using stay by blast
  from ok have "top_of s lp' sz' best"
  proof (cases rule: top_of_cases)
    case none
    then show ?thesis using j ax by (auto simp: axis_def)
  next
    case (some i)
    have "ahead s j k" if k: "k < length sz'" "sz' ! k \<noteq> 0" for k
    proof -
      obtain h where h: "h < n" "lp h = lp' k" "sz ! h \<noteq> 0" using moved k l by metis
      then have "ahead s i h" using some l by simp
      then show ?thesis using ax h(2) some(2) j(2) unfolding axis_def ahead_def by (cases s) (metis Side.simps(3) Side.simps(4))+
    qed
    then show ?thesis using j l by (intro top_ofI [of j]) auto
  qed
  then show ?thesis using True by simp
next
  case False
  have b: "\<forall>i. has_level bs i \<longleftrightarrow> i < n' \<and> sz' ! i \<noteq> 0" using bs(3) by blast
  have "n' - 1 < lb_cap bs" "0 < lb_cap bs" "\<forall>j < n'. sz' ! j \<noteq> 0 \<longrightarrow> j \<le> n' - 1" using bs(2) l(3) by auto
  then have "top_of s lp' sz' (if x = LevelBits_kNone then kNoPrice else lp' x)"
    using top_of_scan(1) [OF l(2) bs(1,2) b, of "n' - 1" lp'] top_of_scan(2) [OF l(2) bs(1,2) b, of 0 lp'] found
    by (cases s) (simp_all cong: if_cong split del: if_split)
  then show ?thesis using False by simp
qed

lemma moved_levels:
  assumes g: "band_grid b n" and a: "bb_minPrice b = int a * bb_tickWire b" and l: "length sz = n" "length sz' = n'"
    and g': "band_grid b' n'" and a': "bb_minPrice b' = int c * bb_tickWire b'" and t: "bb_tickWire b' = bb_tickWire b"
    and sz': "\<And>j. j < n' \<Longrightarrow> sz' ! j = (if a \<le> c + j \<and> c + j < a + n then sz ! (c + j - a) else 0)"
    and V: "\<And>i. i < n \<Longrightarrow> unat (sz ! i) = V (level_price b i)"
    and new: "\<And>j. j < n' \<Longrightarrow> \<not> (\<exists>i < n. level_price b i = level_price b' j) \<Longrightarrow> V (level_price b' j) = 0"
  shows "j < n' \<Longrightarrow> unat (sz' ! j) = V (level_price b' j)"
    and "j < n' \<Longrightarrow> sz' ! j \<noteq> 0 \<Longrightarrow> \<exists>i < n. level_price b i = level_price b' j \<and> sz ! i = sz' ! j"
proof -
  have t0: "0 < bb_tickWire b" using g by (simp add: band_grid_def)
  have lp: "level_price b i = level_price b' j \<longleftrightarrow> a + i = c + j" for i j
  proof -
    have "level_price b i = int (a + i) * bb_tickWire b" "level_price b' j = int (c + j) * bb_tickWire b"
      using a a' t by (simp_all add: level_price_def algebra_simps)
    then show ?thesis using t0 by (metis mult_right_cancel less_irrefl of_nat_eq_iff)
  qed
  show "\<exists>i < n. level_price b i = level_price b' j \<and> sz ! i = sz' ! j" if "j < n'" "sz' ! j \<noteq> 0"
    using that sz' [OF that(1)] lp by (intro exI [of _ "c + j - a"]) (auto split: if_splits)
  show "unat (sz' ! j) = V (level_price b' j)" if j: "j < n'"
  proof (cases "a \<le> c + j \<and> c + j < a + n")
    case True
    then have "c + j - a < n" "level_price b (c + j - a) = level_price b' j" using lp by auto
    then show ?thesis using sz' [OF j] V True by simp
  next
    case False
    then have "\<not> (\<exists>i < n. level_price b i = level_price b' j)" using lp by auto
    then show ?thesis using new [OF j] sz' [OF j] False by simp
  qed
qed

text \<open>Shares that leave the band join the parked shares, and nothing parked comes back.\<close>

lemma outside_moved:
  assumes f: "finite (dom A)" and g: "band_grid b n" and sub: "\<And>k r. A k = Some r \<Longrightarrow> outside b r \<Longrightarrow> outside b' r"
    and leave: "\<And>i. i < n \<Longrightarrow> leave i \<longleftrightarrow> \<not> BookBuilder_inBand (level_price b i) b'"
  shows "shares_where (outside b') A =
    shares_where (outside b) A + (\<Sum>i\<leftarrow>[0..<n]. if leave i then feed_volume A Buy (level_price b i) else 0) +
    (\<Sum>i\<leftarrow>[0..<n]. if leave i then feed_volume A Sell (level_price b i) else 0)"
proof -
  let ?I = "{i. i < n \<and> leave i}"
  have inj: "level_price b i = level_price b j \<Longrightarrow> i = j" for i j using g by (simp add: level_price_inj band_grid_def)
  have split: "outside b' r \<longleftrightarrow> outside b r \<or> (\<exists>i\<in>?I. rests_at Buy (level_price b i) r) \<or> (\<exists>i\<in>?I. rests_at Sell (level_price b i) r)"
    if "A k = Some r" for k r
  proof (cases "outside b r")
    case True
    then show ?thesis using sub that by blast
  next
    case False
    then have "fo_own r \<or> (\<exists>i < n. fo_price r = level_price b i)" using inBand_iff [OF g] by (auto simp: outside_def)
    then show ?thesis using leave False by (cases "fo_side r") (auto simp: outside_def rests_at_def dest: inj)
  qed
  have nb: "\<not> (outside b r \<and> rests_at s (level_price b i) r)" if "i < n" for r s i
    using that inBand_iff [OF g, of "level_price b i"] by (auto simp: outside_def rests_at_def)
  have U: "shares_where (\<lambda>r. \<exists>i\<in>?I. rests_at s (level_price b i) r) A = (\<Sum>i\<leftarrow>[0..<n]. if leave i then feed_volume A s (level_price b i) else 0)" for s
  proof -
    have "shares_where (\<lambda>r. \<exists>i\<in>?I. rests_at s (level_price b i) r) A = (\<Sum>i\<in>?I. feed_volume A s (level_price b i))"
      unfolding feed_volume_def by (rule shares_where_UN [OF f]) (auto simp: rests_at_def dest: inj)
    also have "\<dots> = (\<Sum>i\<in>{0..<n}. if leave i then feed_volume A s (level_price b i) else 0)"
      by (rule sum.mono_neutral_cong_left) auto
    finally show ?thesis by (simp add: sum_list_distinct_conv_sum_set)
  qed
  have "shares_where (outside b') A = shares_where (\<lambda>r. outside b r \<or> (\<exists>i\<in>?I. rests_at Buy (level_price b i) r) \<or> (\<exists>i\<in>?I. rests_at Sell (level_price b i) r)) A"
    by (rule shares_where_cong) (use split in blast)
  also have "\<dots> = shares_where (outside b) A + shares_where (\<lambda>r. (\<exists>i\<in>?I. rests_at Buy (level_price b i) r) \<or> (\<exists>i\<in>?I. rests_at Sell (level_price b i) r)) A"
    by (rule shares_where_disj [OF f]) (use nb in auto)
  also have "shares_where (\<lambda>r. (\<exists>i\<in>?I. rests_at Buy (level_price b i) r) \<or> (\<exists>i\<in>?I. rests_at Sell (level_price b i) r)) A =
      shares_where (\<lambda>r. \<exists>i\<in>?I. rests_at Buy (level_price b i) r) A + shares_where (\<lambda>r. \<exists>i\<in>?I. rests_at Sell (level_price b i) r) A"
    by (rule shares_where_disj [OF f]) (auto simp: rests_at_def)
  finally show ?thesis unfolding U by (simp only: add.assoc)
qed

definition shift_band :: "Price \<Rightarrow> Price \<Rightarrow> BookBuilder \<Rightarrow> BookBuilder" where
  "shift_band newMin newMax b1 =
     (let (bids, b2) = BookBuilder_shiftLevels (bb_bidSize b1) newMin newMax b1;
          b3 = b2\<lparr>bb_bidSize := bids\<rparr>;
          (asks, b4) = BookBuilder_shiftLevels (bb_askSize b3) newMin newMax b3
      in b4\<lparr>bb_askSize := asks, bb_minPrice := newMin, bb_maxPrice := newMax\<rparr>)"

lemma shift_band_ok:
  assumes g: "band_grid b n" and l: "length (bb_bidSize b) = n" "length (bb_askSize b) = n" and a: "bb_minPrice b = int a * bb_tickWire b"
    and new: "newMin = int c * bb_tickWire b" "newMax = int (c + n' - 1) * bb_tickWire b" "0 < n'" "newMax < 2 ^ 31"
    and cov: "covers (bb_parkedLo b) (bb_parkedHi b) S"
  defines "leave \<equiv> \<lambda>i. a + i < c \<or> c + n' \<le> a + i" and "b' \<equiv> shift_band newMin newMax b"
  shows "band_grid b' n' \<and> bb_minPrice b' = newMin \<and> bb_tickWire b' = bb_tickWire b"
    and "length (bb_bidSize b') = n' \<and> length (bb_askSize b') = n' \<and> bb_bestBid b' = bb_bestBid b \<and> bb_bestAsk b' = bb_bestAsk b"
    and "j < n' \<Longrightarrow> bb_bidSize b' ! j = (if a \<le> c + j \<and> c + j < a + n then bb_bidSize b ! (c + j - a) else 0)"
    and "j < n' \<Longrightarrow> bb_askSize b' ! j = (if a \<le> c + j \<and> c + j < a + n then bb_askSize b ! (c + j - a) else 0)"
    and "bb_parkedShares b' = bb_parkedShares b + of_nat (\<Sum>i\<leftarrow>[0..<n]. if leave i then unat (bb_bidSize b ! i) else 0) +
      of_nat (\<Sum>i\<leftarrow>[0..<n]. if leave i then unat (bb_askSize b ! i) else 0)"
    and "covers (bb_parkedLo b') (bb_parkedHi b') (S \<union> {level_price b i | i. i < n \<and> leave i \<and> (bb_bidSize b ! i \<noteq> 0 \<or> bb_askSize b ! i \<noteq> 0)})"
    and "settings b' = settings b \<and> registry b' = registry b \<and> bb_anchored b' = bb_anchored b"
proof -
  define bids where "bids = fst (BookBuilder_shiftLevels (bb_bidSize b) newMin newMax b)"
  define b2 where "b2 = fold (park_level leave (bb_bidSize b)) [0..<n] b"
  define b3 where "b3 = b2\<lparr>bb_bidSize := bids\<rparr>"
  define asks where "asks = fst (BookBuilder_shiftLevels (bb_askSize b) newMin newMax b3)"
  define b4 where "b4 = fold (park_level leave (bb_askSize b)) [0..<n] b3"
  note f2 = park_fold_frame [where leave = leave and levels = "bb_bidSize b" and xs = "[0..<n]" and b = b, folded b2_def]
  note f4 = park_fold_frame [where leave = leave and levels = "bb_askSize b" and xs = "[0..<n]" and b = b3, folded b4_def]
  note s2 = shift_split [OF g l(1) a new(1-3), folded leave_def bids_def b2_def]
  have g3: "geometry b3 = geometry b" using f2 by (simp add: b3_def geometry_def)
  have e3: "band_grid b3 n" "bb_minPrice b3 = int a * bb_tickWire b3" "bb_tickWire b3 = bb_tickWire b" "bb_askSize b3 = bb_askSize b"
    using geometry_cong(4) [OF g3] g g3 a f2 by (simp_all add: geometry_def b3_def sizes_of_def)
  have e2: "bb_askSize b2 = bb_askSize b" using f2 by (simp add: sizes_of_def)
  note s4 = shift_split [OF e3(1) l(2) e3(2) new(1-3) [folded e3(3)], folded leave_def, folded asks_def b4_def]
  have b': "b' = b4\<lparr>bb_askSize := asks, bb_minPrice := newMin, bb_maxPrice := newMax\<rparr>"
    unfolding b'_def shift_band_def using s2(1) s4(1) by (simp add: case_prod_beta Let_def b3_def [symmetric] bids_def [symmetric] asks_def e2)
  have k: "bb_tickWire b' = bb_tickWire b" "bb_tickDiv b' = bb_tickDiv b" "bb_minPrice b' = newMin" "bb_maxPrice b' = newMax"
    using g3 f4(1) by (simp_all add: b' geometry_def)
  have lp: "level_price b' (n' - 1) = newMax" using k new by (auto simp: level_price_def algebra_simps)
  show "band_grid b' n' \<and> bb_minPrice b' = newMin \<and> bb_tickWire b' = bb_tickWire b" using k lp new g by (simp add: band_grid_def)
  have z: "bb_bidSize b' = bids" "bb_askSize b' = asks" "bb_bestBid b' = bb_bestBid b" "bb_bestAsk b' = bb_bestAsk b"
    using f2 f4 by (simp_all add: b' sizes_of_def b3_def)
  then show "length (bb_bidSize b') = n' \<and> length (bb_askSize b') = n' \<and> bb_bestBid b' = bb_bestBid b \<and> bb_bestAsk b' = bb_bestAsk b"
    "j < n' \<Longrightarrow> bb_bidSize b' ! j = (if a \<le> c + j \<and> c + j < a + n then bb_bidSize b ! (c + j - a) else 0)"
    "j < n' \<Longrightarrow> bb_askSize b' ! j = (if a \<le> c + j \<and> c + j < a + n then bb_askSize b ! (c + j - a) else 0)"
    using s2(2,3) s4(2,3) by simp_all
  have "bb_parkedShares b2 = bb_parkedShares b3" "bb_parkedShares b' = bb_parkedShares b4" by (simp_all add: b3_def b')
  then show "bb_parkedShares b' = bb_parkedShares b + of_nat (\<Sum>i\<leftarrow>[0..<n]. if leave i then unat (bb_bidSize b ! i) else 0) +
      of_nat (\<Sum>i\<leftarrow>[0..<n]. if leave i then unat (bb_askSize b ! i) else 0)"
    using park_fold_shares [of leave "bb_bidSize b" "[0..<n]" b] park_fold_shares [of leave "bb_askSize b" "[0..<n]" b3]
    by (simp add: b2_def [symmetric] b4_def [symmetric])
  have ne: "\<forall>i \<in> set [0..<n]. level_price b i \<noteq> kNoPrice" "\<forall>i \<in> set [0..<n]. level_price b3 i \<noteq> kNoPrice"
    using band_axis [OF g] geometry_cong(1) [OF g3] by (simp_all add: axis_def)
  have "covers (bb_parkedLo b3) (bb_parkedHi b3) (S \<union> {level_price b i | i. i \<in> set [0..<n] \<and> leave i \<and> bb_bidSize b ! i \<noteq> 0})"
    using park_fold_covers [OF cov ne(1), of leave "bb_bidSize b"] by (simp add: b3_def b2_def)
  from park_fold_covers [OF this ne(2), of leave "bb_askSize b"]
  show "covers (bb_parkedLo b') (bb_parkedHi b') (S \<union> {level_price b i | i. i < n \<and> leave i \<and> (bb_bidSize b ! i \<noteq> 0 \<or> bb_askSize b ! i \<noteq> 0)})"
    unfolding b4_def [symmetric] geometry_cong(1) [OF g3] b' by (auto intro: covers_subset)
  show "settings b' = settings b \<and> registry b' = registry b \<and> bb_anchored b' = bb_anchored b"
    using f2 f4 by (simp add: b' b3_def frame_defs)
qed

lemma outside_stays:
  assumes ok: "levels_ok n b A" and t: "tame A" and p: "bb_parkedShares b = 0 \<or> newMax < bb_parkedLo b \<or> newMin > bb_parkedHi b"
    and A: "A k = Some r" and out: "outside b r"
  shows "fo_price r < newMin \<or> newMax < fo_price r"
proof -
  have f: "finite (dom A)" and pos: "0 < fo_shares r" using t A by (auto simp: tame_def)
  have "shares_where (outside b) A \<le> shares_where (\<lambda>r. \<not> fo_own r) A" by (rule shares_where_mono [OF f]) (simp add: outside_def)
  then have "shares_where (outside b) A < 2 ^ 64" using t by (simp add: tame_def)
  moreover have "0 < shares_where (outside b) A" using shares_where_member [OF f A, of "outside b"] out pos by simp
  ultimately have "bb_parkedShares b \<noteq> 0" using ok by (simp add: levels_ok_def word_unat_eq_iff unsigned_of_nat take_bit_eq_mod)
  moreover have "bb_parkedLo b \<le> fo_price r \<and> fo_price r \<le> bb_parkedHi b"
    using ok A out by (auto simp: levels_ok_def covers_def outside_prices_def)
  ultimately show ?thesis using p by auto
qed

lemma shift_ok:
  assumes ok: "levels_ok n b A" and t: "tame A"
    and new: "newMin = int c * bb_tickWire b" "newMax = int (c + n' - 1) * bb_tickWire b" "0 < n'" "newMax < 2 ^ 31"
    and p: "bb_parkedShares b = 0 \<or> newMax < bb_parkedLo b \<or> newMin > bb_parkedHi b"
  defines "b' \<equiv> BookBuilder_recomputeBest (BookBuilder_rebuildBits (shift_band newMin newMax b))"
  shows "levels_ok n' b' A \<and> settings b' = settings b \<and> registry b' = registry b \<and> bb_anchored b' = bb_anchored b"
proof -
  have f: "finite (dom A)" using t by (simp add: tame_def)
  note d = ok [unfolded levels_ok_def]
  have g: "band_grid b n" using d by simp
  have l: "length (bb_bidSize b) = n" "length (bb_askSize b) = n" using d by (simp_all add: side_ok_def)
  obtain a where a: "bb_minPrice b = int a * bb_tickWire b"
  proof -
    obtain m where m: "bb_minPrice b = bb_tickWire b * m" using g by (auto simp: band_grid_def dvd_def)
    then have "0 \<le> m" using g by (auto simp: band_grid_def zero_le_mult_iff)
    then show ?thesis using m that [of "nat m"] by (simp add: mult.commute)
  qed
  define leave where "leave = (\<lambda>i. a + i < c \<or> c + n' \<le> a + i)"
  define b5 where "b5 = shift_band newMin newMax b"
  have cov: "covers (bb_parkedLo b) (bb_parkedHi b) (outside_prices b A)" using d by simp
  note s = shift_band_ok [OF g l a new cov, folded leave_def b5_def]
  have g5: "band_grid b5 n'" "bb_minPrice b5 = int c * bb_tickWire b5" "bb_tickWire b5 = bb_tickWire b" using s(1) new by auto
  have n': "n' \<le> 2 ^ 40" using band_grid_width [OF g5(1)] by simp
  have lp5: "level_price b5 j = int (c + j) * bb_tickWire b" and lp: "level_price b j = int (a + j) * bb_tickWire b" for j
    using g5 a by (simp_all add: level_price_def algebra_simps)
  have t0: "0 < bb_tickWire b" using g by (simp add: band_grid_def)
  have lpeq: "level_price b i = level_price b5 j \<longleftrightarrow> a + i = c + j" for i j
    unfolding lp lp5 using t0 by (metis less_irrefl mult_right_cancel of_nat_eq_iff)
  have rng: "newMin \<le> level_price b5 j \<and> level_price b5 j \<le> newMax" if "j < n'" for j
    unfolding lp5 new(1,2) using t0 that by (intro conjI mult_right_mono) auto
  have sub: "outside b5 r" if r: "A k = Some r" "outside b r" for k r
  proof -
    have "\<not> BookBuilder_inBand (fo_price r) b5"
      using outside_stays [OF ok t p r] rng unfolding inBand_iff [OF g5(1)] by fastforce
    then show ?thesis using r(2) by (simp add: outside_def)
  qed
  have new0: "feed_volume A si (level_price b5 j) = 0" if j: "j < n'" "\<not> (\<exists>i < n. level_price b i = level_price b5 j)" for si j
  proof -
    have "\<not> rests_at si (level_price b5 j) r" if "A k = Some r" for k r
      using sub [OF that] j inBand_iff [OF g, of "level_price b5 j"] inBand_iff [OF g5(1), of "level_price b5 j"]
      by (auto simp: rests_at_def outside_def)
    then show ?thesis using shares_where_zero [OF f, of "rests_at si (level_price b5 j)"] t by (simp add: feed_volume_def tame_def)
  qed
  have vB: "i < n \<Longrightarrow> unat (bb_bidSize b ! i) = feed_volume A Buy (level_price b i)"
    and vS: "i < n \<Longrightarrow> unat (bb_askSize b ! i) = feed_volume A Sell (level_price b i)" for i using d by (simp_all add: side_ok_def)
  have l5: "length (bb_bidSize b5) = n'" "length (bb_askSize b5) = n'" using s(2) by simp_all
  note mB = moved_levels [where V = "feed_volume A Buy", OF g a l(1) l5(1) g5 s(3) vB new0]
  note mS = moved_levels [where V = "feed_volume A Sell", OF g a l(2) l5(2) g5 s(4) vS new0]
  have lv: "leave i \<longleftrightarrow> \<not> BookBuilder_inBand (level_price b i) b5" if "i < n" for i
  proof -
    have "(\<exists>j < n'. level_price b i = level_price b5 j) \<longleftrightarrow> \<not> leave i"
      unfolding lpeq leave_def by (auto intro: exI [of _ "a + i - c"])
    then show ?thesis using inBand_iff [OF g5(1)] by blast
  qed
  have om: "shares_where (outside b5) A =
      shares_where (outside b) A + (\<Sum>i\<leftarrow>[0..<n]. if leave i then feed_volume A Buy (level_price b i) else 0) +
      (\<Sum>i\<leftarrow>[0..<n]. if leave i then feed_volume A Sell (level_price b i) else 0)"
    by (rule outside_moved [OF f g]) (use sub lv in blast)+
  have sums: "(\<Sum>i\<leftarrow>[0..<n]. if leave i then unat (bb_bidSize b ! i) else 0) = (\<Sum>i\<leftarrow>[0..<n]. if leave i then feed_volume A Buy (level_price b i) else 0)"
    "(\<Sum>i\<leftarrow>[0..<n]. if leave i then unat (bb_askSize b ! i) else 0) = (\<Sum>i\<leftarrow>[0..<n]. if leave i then feed_volume A Sell (level_price b i) else 0)"
    using vB vS by (auto intro!: arg_cong [of _ _ sum_list])
  have "bb_parkedShares b5 = bb_parkedShares b + of_nat (\<Sum>i\<leftarrow>[0..<n]. if leave i then unat (bb_bidSize b ! i) else 0) +
      of_nat (\<Sum>i\<leftarrow>[0..<n]. if leave i then unat (bb_askSize b ! i) else 0)" using s(5) by (simp add: leave_def)
  then have ps: "bb_parkedShares b5 = of_nat (shares_where (outside b5) A)" unfolding om sums using d by simp
  have op: "outside_prices b5 A \<subseteq> outside_prices b A \<union> {level_price b i | i. i < n \<and> leave i \<and> (bb_bidSize b ! i \<noteq> 0 \<or> bb_askSize b ! i \<noteq> 0)}"
  proof
    fix x assume "x \<in> outside_prices b5 A"
    then obtain k r where r: "A k = Some r" "outside b5 r" "x = fo_price r" by (auto simp: outside_prices_def)
    show "x \<in> outside_prices b A \<union> {level_price b i | i. i < n \<and> leave i \<and> (bb_bidSize b ! i \<noteq> 0 \<or> bb_askSize b ! i \<noteq> 0)}"
    proof (cases "outside b r")
      case True
      then show ?thesis using r by (auto simp: outside_prices_def)
    next
      case False
      then obtain i where i: "i < n" "x = level_price b i" using r inBand_iff [OF g, of x] by (auto simp: outside_def)
      have "0 < fo_shares r" using r t by (auto simp: tame_def)
      moreover have "fo_shares r \<le> feed_volume A (fo_side r) x"
        unfolding feed_volume_def using shares_where_member [OF f r(1), of "rests_at (fo_side r) x"] r by (simp add: rests_at_def outside_def)
      ultimately have "bb_bidSize b ! i \<noteq> 0 \<or> bb_askSize b ! i \<noteq> 0" using vB [OF i(1)] vS [OF i(1)] i(2) by (cases "fo_side r") auto
      moreover have "leave i" using lv [OF i(1)] r i by (simp add: outside_def)
      ultimately show ?thesis using i by blast
    qed
  qed
  let ?B = "rebuilt_bits (bb_bidSize b5) (bb_bidBits b5)" and ?S = "rebuilt_bits (bb_askSize b5) (bb_askBits b5)"
  define b6 where "b6 = b5\<lparr>bb_bidBits := ?B, bb_askBits := ?S\<rparr>"
  have b6: "BookBuilder_rebuildBits b5 = b6" using rebuildBits_eq [of b5] l5 by (simp add: b6_def)
  have g6: "geometry b6 = geometry b5" by (simp add: b6_def)
  note bB = rebuilt_bits_ok [of "bb_bidSize b5" "bb_bidBits b5", unfolded l5, OF n']
  note bS = rebuilt_bits_ok [of "bb_askSize b5" "bb_askBits b5", unfolded l5, OF n']
  let ?x = "LevelBits_prev ?B (n' - 1)" and ?y = "LevelBits_next ?S 0"
  define x where "x = kept_or_found b5 (bb_bestBid b5) (bb_bidSize b5) ?x"
  define y where "y = kept_or_found b5 (bb_bestAsk b5) (bb_askSize b5) ?y"
  have b': "b' = b6\<lparr>bb_bestBid := x, bb_bestAsk := y\<rparr>"
    unfolding b'_def b5_def [symmetric] b6 recomputeBest_eq kept_or_found_cong [OF g6] by (simp add: b6_def x_def y_def l5)
  have keep: "\<exists>j < n'. z = level_price b5 j \<and> sz ! j \<noteq> 0"
    if "\<not> (z = kNoPrice \<or> \<not> BookBuilder_inBand z b5 \<or> sz ! BookBuilder_index z b5 = (0 :: Quantity))" for z sz
    using that inBand_iff [OF g5(1), of z] index_level [OF g5(1)] by auto
  define kB where "kB = (\<not> (bb_bestBid b5 = kNoPrice \<or> \<not> BookBuilder_inBand (bb_bestBid b5) b5 \<or> bb_bidSize b5 ! BookBuilder_index (bb_bestBid b5) b5 = 0))"
  define kS where "kS = (\<not> (bb_bestAsk b5 = kNoPrice \<or> \<not> BookBuilder_inBand (bb_bestAsk b5) b5 \<or> bb_askSize b5 ! BookBuilder_index (bb_bestAsk b5) b5 = 0))"
  have x': "x = (if kB then bb_bestBid b else if ?x = LevelBits_kNone then kNoPrice else level_price b5 ?x)"
    and y': "y = (if kS then bb_bestAsk b else if ?y = LevelBits_kNone then kNoPrice else level_price b5 ?y)"
    using s(2) by (simp_all add: x_def y_def kB_def kS_def kept_or_found_def price_or_none_def)
  have top: "top_of Buy (level_price b) (bb_bidSize b) (bb_bestBid b)" "top_of Sell (level_price b) (bb_askSize b) (bb_bestAsk b)"
    using d by (simp_all add: side_ok_def)
  have tB: "top_of Buy (level_price b5) (bb_bidSize b5) x"
    unfolding x'
  proof (rule top_of_moved [OF top(1) band_axis [OF g] band_axis [OF g5(1)] l(1) l5(1) new(3) bB])
    show "\<exists>j < n'. bb_bestBid b = level_price b5 j \<and> bb_bidSize b5 ! j \<noteq> 0" if kB
      using keep [of "bb_bestBid b5" "bb_bidSize b5"] that s(2) unfolding kB_def by simp
  qed (use mB(2) in auto)
  have tS: "top_of Sell (level_price b5) (bb_askSize b5) y"
    unfolding y'
  proof (rule top_of_moved [OF top(2) band_axis [OF g] band_axis [OF g5(1)] l(2) l5(2) new(3) bS])
    show "\<exists>j < n'. bb_bestAsk b = level_price b5 j \<and> bb_askSize b5 ! j \<noteq> 0" if kS
      using keep [of "bb_bestAsk b5" "bb_askSize b5"] that s(2) unfolding kS_def by simp
  qed (use mS(2) in auto)
  have g': "geometry b' = geometry b5" using g6 by (simp add: b')
  have sB: "side_ok Buy (level_price b5) n' (bb_bidSize b5) ?B x (feed_volume A Buy)" using l5 bB mB(1) tB by (simp add: side_ok_def)
  have sS: "side_ok Sell (level_price b5) n' (bb_askSize b5) ?S y (feed_volume A Sell)" using l5 bS mS(1) tS by (simp add: side_ok_def)
  have cv: "covers (bb_parkedLo b5) (bb_parkedHi b5) (outside_prices b5 A)" by (rule covers_subset [OF s(6)]) (use op in \<open>simp add: leave_def\<close>)
  have "levels_ok n' b' A" unfolding levels_ok_def geometry_cong [OF g'] using g5(1) sB sS ps cv by (simp add: b' b6_def)
  moreover have "settings b' = settings b \<and> registry b' = registry b \<and> bb_anchored b' = bb_anchored b"
    using s(7) by (simp add: b' b6_def frame_defs)
  ultimately show ?thesis by blast
qed

end
