(* ===== verification/BookInvariant.thy ===== *)
theory BookInvariant
  imports BookLevels
begin

text \<open>
  The invariant of the book builder and its preservation by anchoring, by every message, by clearing and by construction:
  the table of orders stands for the orders of the specification, and the levels agree with them. \<open>book_feed\<close> collects
  the books a well-formed feed can produce.
\<close>

section \<open>Anchoring\<close>

definition settings_ok :: "BookBuilder \<Rightarrow> bool" where
  "settings_ok b \<longleftrightarrow> 0 < bb_baseTick b \<and> 0 \<le> bb_subDollarTick b \<and> bb_maxBandTicks b \<noteq> 0"

text \<open>Anchoring at this price keeps every price of the band inside \<^verbatim>\<open>int32_t\<close>.\<close>

definition price_fits :: "BookBuilder \<Rightarrow> Price \<Rightarrow> bool" where
  "price_fits b p \<longleftrightarrow> 0 \<le> p \<and> p + 2 * (int (bb_maxBandTicks b) * max (bb_baseTick b) (bb_subDollarTick b)) < 2 ^ 31"

lemma settings_cong:
  "settings b' = settings b \<Longrightarrow> settings_ok b' = settings_ok b" "settings b' = settings b \<Longrightarrow> price_fits b' = price_fits b"
  by (simp_all add: settings_def settings_ok_def price_fits_def fun_eq_iff)

lemma registry_cong: "registry b' = registry b \<Longrightarrow> bb_orders b' = bb_orders b \<and> bb_own b' = bb_own b \<and> book_orders b' = book_orders b"
  by (simp add: registry_def fun_eq_iff book_orders_def)

lemma levels_ok_upd [simp]:
  "levels_ok n (b\<lparr>bb_topVersion := x\<rparr>) A = levels_ok n b A" "levels_ok n (b\<lparr>bb_reanchors := x1\<rparr>) A = levels_ok n b A"
  "levels_ok n (b\<lparr>bb_reanchorsOut := x2\<rparr>) A = levels_ok n b A" "levels_ok n (b\<lparr>bb_orders := m\<rparr>) A = levels_ok n b A"
  "levels_ok n (b\<lparr>bb_own := k\<rparr>) A = levels_ok n b A" "levels_ok n (b\<lparr>bb_epoch := e\<rparr>) A = levels_ok n b A"
  using geometry_cong [of "b\<lparr>bb_topVersion := x\<rparr>" b] geometry_cong [of "b\<lparr>bb_reanchors := x1\<rparr>" b]
    geometry_cong [of "b\<lparr>bb_reanchorsOut := x2\<rparr>" b] geometry_cong [of "b\<lparr>bb_orders := m\<rparr>" b] geometry_cong [of "b\<lparr>bb_own := k\<rparr>" b]
    geometry_cong [of "b\<lparr>bb_epoch := e\<rparr>" b]
  by (simp_all add: levels_ok_def geometry_def)

lemma anchor_band_le: "settings_ok b \<Longrightarrow> anchor_band p tr t b \<le> bb_maxBandTicks b"
  by (auto simp: anchor_band_def settings_ok_def Let_def split: option.split)

lemma tickFor_bounds: "settings_ok b \<Longrightarrow> 0 < BookBuilder_tickFor p b \<and> BookBuilder_tickFor p b \<le> max (bb_baseTick b) (bb_subDollarTick b)"
  by (auto simp: BookBuilder_tickFor_def settings_ok_def)

text \<open>The new band: aligned, not negative, and of the width the anchor chose.\<close>

lemma anchor_range:
  assumes "0 \<le> p" and "0 < t" and "p + 2 * (int band * t) < 2 ^ 31"
  defines "newMin \<equiv> max (p - p smod t - int band * t) 0" and "newMax \<equiv> max (p - p smod t - int band * t) 0 + 2 * (int band * t)"
  shows "\<exists>c. newMin = int c * t \<and> newMax = int (c + (2 * band + 1) - 1) * t \<and> newMax < 2 ^ 31 \<and> t dvd newMin \<and> 0 \<le> newMin"
proof -
  have m: "p smod t = p mod t" using assms(1,2)
    by (cases "p = 0") (simp_all add: signed_modulo_int_def signed_divide_int_def minus_div_mult_eq_mod [symmetric])
  have q: "p - p mod t = (p div t) * t" by (simp add: minus_mod_eq_div_mult)
  define k where "k = max (p div t - int band) 0"
  have "newMin = max ((p div t - int band) * t) 0" by (simp add: newMin_def m q algebra_simps)
  also have "\<dots> = k * t" using assms(2) by (auto simp: k_def max_def mult_le_0_iff)
  finally have min: "newMin = k * t" .
  have k0: "0 \<le> k" by (simp add: k_def)
  have "newMin \<le> p" using pos_mod_sign [OF assms(2), of p] assms(1,2) mult_nonneg_nonneg [of "int band" t] unfolding newMin_def m by linarith
  then have "newMax < 2 ^ 31" using assms(3) unfolding newMax_def newMin_def by linarith
  moreover have "newMax = newMin + 2 * (int band * t)" by (simp add: newMax_def newMin_def)
  ultimately show ?thesis using min k0 assms(2) by (intro exI [of _ "nat k"]) (auto simp: algebra_simps)
qed

lemma anchor_ok:
  fixes tr :: bool
  assumes st: "settings_ok b" and p: "price_fits b p" and inv: "fm_inv (bb_orders b)" and tm: "tame (book_orders b)"
    and lv: "bb_anchored b \<Longrightarrow> \<exists>n. levels_ok n b (book_orders b)"
  defines "b' \<equiv> BookBuilder_anchor p tr b"
  shows "(\<exists>n. levels_ok n b' (book_orders b)) \<and> settings b' = settings b \<and> registry b' = registry b \<and> bb_anchored b'"
proof -
  define b1 where "b1 = (if bb_anchored b then b\<lparr>bb_topVersion := bb_topVersion b + 1, bb_reanchors := bb_reanchors b + 1,
      bb_reanchorsOut := map_option (\<lambda>n. n + 1) (bb_reanchorsOut b)\<rparr> else b\<lparr>bb_topVersion := bb_topVersion b + 1\<rparr>)"
  define t where "t = (if bb_anchored b then min (BookBuilder_tickFor p b) (bb_tickWire b) else BookBuilder_tickFor p b)"
  define band where "band = anchor_band p tr t b"
  define newMin where "newMin = max (p - p smod t - int band * t) 0"
  define newMax where "newMax = newMin + 2 * (int band * t)"
  define sh where "sh = (bb_anchored b \<and> t = bb_tickWire b \<and> (bb_parkedShares b = 0 \<or> newMax < bb_parkedLo b \<or> newMin > bb_parkedHi b))"
  define b2 where "b2 = b1\<lparr>bb_tickWire := t, bb_tickDiv := DivBy_new (of_int t), bb_minPrice := newMin, bb_maxPrice := newMax,
                bb_bidSize := replicate (2 * band + 1) 0, bb_askSize := replicate (2 * band + 1) 0,
                bb_bidBits := LevelBits_reset (2 * band + 1) (bb_bidBits b1), bb_askBits := LevelBits_reset (2 * band + 1) (bb_askBits b1),
                bb_bestBid := kNoPrice, bb_bestAsk := kNoPrice, bb_anchored := True\<rparr>"
  have tf: "BookBuilder_tickFor p (b\<lparr>bb_topVersion := x\<rparr>) = BookBuilder_tickFor p b" "anchor_band p tr t (b\<lparr>bb_topVersion := x\<rparr>) = anchor_band p tr t b" for x t
    by (simp_all add: BookBuilder_tickFor_def anchor_band_def cong: if_cong option.case_cong)
  have sel: "bb_anchored (b\<lparr>bb_topVersion := x\<rparr>) = bb_anchored b" "bb_tickWire (b\<lparr>bb_topVersion := x\<rparr>) = bb_tickWire b"
    "bb_parkedShares (b\<lparr>bb_topVersion := x\<rparr>) = bb_parkedShares b" "bb_parkedLo (b\<lparr>bb_topVersion := x\<rparr>) = bb_parkedLo b"
    "bb_parkedHi (b\<lparr>bb_topVersion := x\<rparr>) = bb_parkedHi b" "bb_reanchors (b\<lparr>bb_topVersion := x\<rparr>) = bb_reanchors b"
    "bb_reanchorsOut (b\<lparr>bb_topVersion := x\<rparr>) = bb_reanchorsOut b" for x by simp_all
  have b': "b' = (if sh then BookBuilder_recomputeBest (BookBuilder_rebuildBits (shift_band newMin newMax b1)) else BookBuilder_rebuildLevels b2)"
    unfolding b'_def BookBuilder_anchor_def Let_def tf sel t_def [symmetric] band_def [symmetric] newMin_def [symmetric]
      newMax_def [symmetric] sh_def [symmetric] b1_def [symmetric] b2_def [symmetric] shift_band_def
    by (simp only: case_prod_beta)
  have pos: "0 < t" using tickFor_bounds [OF st, of p] lv by (auto simp: t_def levels_ok_def band_grid_def)
  have "t \<le> max (bb_baseTick b) (bb_subDollarTick b)" using tickFor_bounds [OF st, of p] by (auto simp: t_def)
  then have tle: "t \<le> max (bb_baseTick b) (bb_subDollarTick b)" .
  then have "int band * t \<le> int (bb_maxBandTicks b) * max (bb_baseTick b) (bb_subDollarTick b)"
    using anchor_band_le [OF st, of p tr t] pos by (intro mult_mono) (auto simp: band_def)
  then have fit: "0 \<le> p" "p + 2 * (int band * t) < 2 ^ 31" using p by (auto simp: price_fits_def)
  obtain c where c: "newMin = int c * t" "newMax = int (c + (2 * band + 1) - 1) * t" "newMax < 2 ^ 31" "t dvd newMin" "0 \<le> newMin"
    using anchor_range [OF fit(1) pos fit(2)] unfolding newMax_def newMin_def by blast
  have r1: "settings b1 = settings b" "registry b1 = registry b" "levels_ok n b1 A = levels_ok n b A" "bb_anchored b1 = bb_anchored b"
    "bb_tickWire b1 = bb_tickWire b" "bb_parkedShares b1 = bb_parkedShares b" "bb_parkedLo b1 = bb_parkedLo b" "bb_parkedHi b1 = bb_parkedHi b" for n A
    by (simp_all add: b1_def frame_defs)
  show ?thesis
  proof (cases sh)
    case True
    then obtain n where "levels_ok n b1 (book_orders b)" using lv r1(3) by (auto simp: sh_def)
    from shift_ok [OF this tm, of newMin c newMax "2 * band + 1"] c True r1 show ?thesis by (auto simp: b' sh_def)
  next
    case False
    have "1 * max (bb_baseTick b) (bb_subDollarTick b) \<le> int (bb_maxBandTicks b) * max (bb_baseTick b) (bb_subDollarTick b)"
      using st by (intro mult_right_mono) (auto simp: settings_ok_def)
    then have t31: "t < 2 ^ 31" using tle p st unfolding price_fits_def settings_ok_def by linarith
    have "level_price b2 (2 * band + 1 - 1) = newMax" using c by (simp add: b2_def level_price_def algebra_simps)
    then have g: "band_grid b2 (2 * band + 1)" using c pos t31 by (simp add: band_grid_def b2_def)
    have r2: "settings b2 = settings b" "registry b2 = registry b" "bb_anchored b2" using r1 by (simp_all add: b2_def frame_defs)
    have "2 * band + 1 \<le> 2 ^ 40" using band_grid_width [OF g] by simp
    moreover note registry_cong [OF r2(2)]
    ultimately show ?thesis
      using rebuildLevels_ok [OF g, of "bb_bidBits b1" "bb_askBits b1"] inv tm r2 False by (auto simp: b' b2_def)
  qed
qed

section \<open>Resting orders in one word\<close>

lemma rest_masks: "kSharesMask = mask 30" "kSell = 2 ^ 30" "kOwn = 2 ^ 31"
  by (simp_all add: kSharesMask_def kSell_def kOwn_def mask_eq_exp_minus_1)

lemma small_shares:
  fixes q :: u32
  assumes "unat q < 2 ^ 30"
  shows "\<not> kSharesMask < q" and "bit q n \<Longrightarrow> n < 30"
proof -
  have t: "take_bit 30 q = q" using assms by (simp add: word_unat_eq_iff unsigned_take_bit_eq take_bit_nat_eq_self)
  show "\<not> kSharesMask < q" using assms by (simp add: kSharesMask_def word_less_nat_alt)
  show "bit q n \<Longrightarrow> n < 30" using bit_take_bit_iff [of 30 q n] t by metis
qed

lemma shares_small: "unat (Resting_shares r) < 2 ^ 30"
proof -
  have "Resting_shares r = take_bit 30 (r_bits r)" by (simp add: Resting_shares_def rest_masks take_bit_eq_mask)
  then show ?thesis by (simp only: unsigned_take_bit_eq take_bit_nat_less_exp)
qed

lemma rest_bits: "bit kSell n \<longleftrightarrow> n = 30" "bit kOwn n \<longleftrightarrow> n = 31"
  unfolding rest_masks bit_exp_iff by (auto simp: possible_bit_word)

lemma make_view:
  assumes "unat q < 2 ^ 30"
  shows "order_view (Resting_make p q s own) = \<lparr>fo_side = s, fo_price = p, fo_shares = unat q, fo_own = own\<rparr>"
proof -
  define w where "w = q OR (if s = Sell then kSell else 0) OR (if own then kOwn else 0)"
  have m: "Resting_make p q s own = \<lparr>r_price = p, r_bits = w\<rparr>" using small_shares(1) [OF assms] by (simp add: Resting_make_def w_def Let_def)
  have b: "bit w n \<longleftrightarrow> bit q n \<or> (n = 30 \<and> s = Sell) \<or> (n = 31 \<and> own)" for n
    by (auto simp: w_def rest_bits bit_or_iff)
  have "w AND kSharesMask = q"
    by (rule bit_word_eqI) (use small_shares(2) [OF assms] in \<open>auto simp: rest_masks bit_and_iff bit_mask_iff b\<close>)
  moreover have "w AND kSell \<noteq> 0 \<longleftrightarrow> s = Sell" "w AND kOwn \<noteq> 0 \<longleftrightarrow> own"
    using small_shares(2) [OF assms, of 30] small_shares(2) [OF assms, of 31] b [of 30] b [of 31] unfolding rest_masks and_exp_eq_0_iff_not_bit by auto
  ultimately show ?thesis unfolding m by (cases s) (simp_all add: order_view_def Resting_shares_def Resting_side_def Resting_own_def)
qed

lemma setShares_view:
  assumes "unat q < 2 ^ 30"
  shows "order_view (Resting_setShares q r) = (order_view r)\<lparr>fo_shares := unat q\<rparr>"
proof -
  define w where "w = (r_bits r AND NOT kSharesMask) OR (q AND kSharesMask)"
  have b: "bit w n \<longleftrightarrow> (if n < 30 then bit q n else bit (r_bits r) n)" if "n < 32" for n
    using that by (auto simp: w_def rest_masks bit_or_iff bit_and_iff bit_not_iff bit_mask_iff possible_bit_word)
  have "w AND kSharesMask = q"
    by (rule bit_word_eqI) (use small_shares(2) [OF assms] in \<open>auto simp: rest_masks bit_and_iff bit_mask_iff b\<close>)
  moreover have "w AND kSell = 0 \<longleftrightarrow> r_bits r AND kSell = 0" "w AND kOwn = 0 \<longleftrightarrow> r_bits r AND kOwn = 0"
    unfolding rest_masks and_exp_eq_0_iff_not_bit using b [of 30] b [of 31] by auto
  ultimately show ?thesis
    by (simp add: Resting_setShares_def w_def [symmetric] order_view_def Resting_shares_def Resting_side_def Resting_own_def)
qed

section \<open>The table of orders\<close>

lemma fm_size_list: "fm_inv m \<Longrightarrow> fm_size m = length (fm_list m)"
  by (simp add: fm_inv_def fm_used_def fm_key_def fm_list_def length_filter_conv_card)

lemma fm_size_card: "fm_inv m \<Longrightarrow> fm_size m = card (dom (fm_map m))"
  using distinct_card [OF fm_list_distinct, of m] by (simp add: fm_size_list dom_map_of_conv_image_fst flip: fm_list_map)

lemma book_orders_put:
  assumes "fm_inv (bb_orders b)" and "ref \<noteq> 0"
  shows "fm_inv (bb_orders (BookBuilder_put ref r b)) \<and> book_orders (BookBuilder_put ref r b) = (book_orders b)(ref \<mapsto> order_view r)"
  using fm_insertOrAssign_correct [OF assms, of r] by (auto simp: BookBuilder_put_def book_orders_def fun_eq_iff)

section \<open>The invariant\<close>

definition untouched :: "BookBuilder \<Rightarrow> bool" where
  "untouched b \<longleftrightarrow> bb_maxPrice b < bb_minPrice b \<and> bb_bestBid b = kNoPrice \<and> bb_bestAsk b = kNoPrice \<and> bb_parkedShares b = 0"

definition own_count :: "orders \<Rightarrow> nat" where
  "own_count A = card {k. \<exists>r. A k = Some r \<and> fo_own r}"

definition book_inv :: "BookBuilder \<Rightarrow> orders \<Rightarrow> bool" where
  "book_inv b A \<longleftrightarrow> settings_ok b \<and> fm_inv (bb_orders b) \<and> book_orders b = A \<and> tame A \<and>
     (\<forall>k r. A k = Some r \<longrightarrow> price_fits b (fo_price r)) \<and> bb_own b = own_count A \<and>
     (if bb_anchored b then \<exists>n. levels_ok n b A else A = Map.empty \<and> untouched b)"

lemma own_finite: "finite (dom A) \<Longrightarrow> finite {k. \<exists>r. A k = Some r \<and> fo_own r}"
  by (rule finite_subset [of _ "dom A"]) auto

lemma own_count_insert:
  assumes "finite (dom A)" and "A k = None"
  shows "own_count (A(k \<mapsto> r)) = own_count A + (if fo_own r then 1 else 0)"
proof -
  have "{x. \<exists>y. (A(k \<mapsto> r)) x = Some y \<and> fo_own y} = (if fo_own r then insert k {x. \<exists>y. A x = Some y \<and> fo_own y} else {x. \<exists>y. A x = Some y \<and> fo_own y})"
    using assms(2) by (auto split: if_splits)
  then show ?thesis using own_finite [OF assms(1)] assms(2) by (simp add: own_count_def)
qed

lemma own_count_remove:
  assumes "finite (dom A)" and "A k = Some r"
  shows "own_count A = own_count (A(k := None)) + (if fo_own r then 1 else 0)"
  using own_count_insert [of "A(k := None)" k r] assms by (simp add: fun_upd_idem)

lemma own_count_same: "A k = Some r \<Longrightarrow> fo_own r' = fo_own r \<Longrightarrow> own_count (A(k \<mapsto> r')) = own_count A"
  unfolding own_count_def by (rule arg_cong [of _ _ card]) auto

lemma book_invD:
  assumes "book_inv b A"
  shows "settings_ok b" "fm_inv (bb_orders b)" "book_orders b = A" "tame A" "finite (dom A)" "bb_own b = own_count A"
    "\<forall>k r. A k = Some r \<longrightarrow> fo_shares r \<noteq> 0" "A 0 = None"
    "A k = Some r \<Longrightarrow> price_fits b (fo_price r)" "bb_anchored b \<Longrightarrow> \<exists>n. levels_ok n b A" "\<not> bb_anchored b \<Longrightarrow> A = Map.empty"
proof -
  show "A 0 = None" using assms by (auto simp: book_inv_def book_orders_def fmap.look_zero)
qed (use assms in \<open>auto simp: book_inv_def tame_def\<close>)

text \<open>Anchoring where needed leaves the orders alone and makes the levels agree with them.\<close>

lemma book_anchor:
  assumes "book_inv b A" and "price_fits b p"
  shows "book_inv (BookBuilder_anchor p tr b) A \<and> bb_anchored (BookBuilder_anchor p tr b)"
    and "settings (BookBuilder_anchor p tr b) = settings b" and "registry (BookBuilder_anchor p tr b) = registry b"
proof -
  note d = book_invD [OF assms(1)]
  have a: "(\<exists>n. levels_ok n (BookBuilder_anchor p tr b) (book_orders b)) \<and> settings (BookBuilder_anchor p tr b) = settings b \<and>
      registry (BookBuilder_anchor p tr b) = registry b \<and> bb_anchored (BookBuilder_anchor p tr b)"
    by (rule anchor_ok [OF d(1) assms(2) d(2)]) (use d(3,4,10) in simp_all)
  then show "settings (BookBuilder_anchor p tr b) = settings b" "registry (BookBuilder_anchor p tr b) = registry b" by blast+
  then show "book_inv (BookBuilder_anchor p tr b) A \<and> bb_anchored (BookBuilder_anchor p tr b)"
    using a d registry_cong [of "BookBuilder_anchor p tr b" b] settings_cong [of "BookBuilder_anchor p tr b" b] assms(1)
    by (auto simp: book_inv_def)
qed

lemma book_onTradePrice: "book_inv b A \<Longrightarrow> price_fits b p \<Longrightarrow> book_inv (BookBuilder_onTradePrice p b) A \<and> settings (BookBuilder_onTradePrice p b) = settings b"
  using book_anchor by (simp add: BookBuilder_onTradePrice_def)

text \<open>Putting an order into the table and adding its shares.\<close>

lemma book_insert:
  assumes inv: "book_inv b A" and an: "bb_anchored b" and ref: "ref \<noteq> 0" "A ref = None" and q: "unat q < 2 ^ 30" "q \<noteq> 0"
    and p: "price_fits b p" and t: "tame (A(ref \<mapsto> \<lparr>fo_side = s, fo_price = p, fo_shares = unat q, fo_own = own\<rparr>))"
  defines "b2 \<equiv> BookBuilder_put ref (Resting_make p q s own) b"
  defines "b3 \<equiv> if own then b2\<lparr>bb_own := bb_own b2 + 1\<rparr> else BookBuilder_addShares s p q b2"
  shows "book_inv b3 (A(ref \<mapsto> \<lparr>fo_side = s, fo_price = p, fo_shares = unat q, fo_own = own\<rparr>)) \<and> settings b3 = settings b"
proof -
  let ?r = "\<lparr>fo_side = s, fo_price = p, fo_shares = unat q, fo_own = own\<rparr>"
  note d = book_invD [OF inv]
  obtain n where n: "levels_ok n b A" using d(10) an by blast
  have b2: "fm_inv (bb_orders b2)" "book_orders b2 = A(ref \<mapsto> ?r)" "levels_ok n b2 A" "settings b2 = settings b" "bb_anchored b2" "bb_own b2 = bb_own b"
    using book_orders_put [OF d(2) ref(1), of "Resting_make p q s own"] make_view [OF q(1)] d(3) n an
    by (simp_all add: b2_def) (simp_all add: BookBuilder_put_def settings_def)
  have l3: "levels_ok n b3 (A(ref \<mapsto> ?r))"
    using levels_own [OF b2(3) d(5) ref(2), of ?r] levels_addShares [OF b2(3) d(5) ref(2) t, of q] by (simp add: b3_def)
  have s3: "settings b3 = settings b" "bb_anchored b3" using b2 by (simp_all add: b3_def frame_simps) (simp add: settings_def)
  have r3: "bb_orders b3 = bb_orders b2" "bb_own b3 = own_count (A(ref \<mapsto> ?r))"
    using addShares_frame(3) [of s p q b2] own_count_insert [OF d(5) ref(2), of ?r] d(6) b2(6) by (auto simp: b3_def registry_def)
  have "book_orders b3 = A(ref \<mapsto> ?r)" using r3(1) b2(2) by (simp add: book_orders_def fun_eq_iff)
  then show ?thesis using l3 s3 r3 b2 t d p settings_cong [OF s3(1)] inv by (auto simp: book_inv_def)
qed

section \<open>Removing orders\<close>

lemma tame_less:
  assumes "tame A" and "A k = Some r" and "q \<le> fo_shares r"
  shows "tame (feed_less k q A)"
proof -
  have f: "finite (dom A)" and pos: "\<And>x r. A x = Some r \<Longrightarrow> fo_shares r \<noteq> 0" using assms(1) by (auto simp: tame_def)
  have "feed_volume (feed_less k q A) s p \<le> feed_volume A s p" for s p by (simp add: volume_less [OF f assms(2,3)])
  then have "feed_volume (feed_less k q A) s p < 2 ^ 32" for s p using assms(1) unfolding tame_def by (meson order_le_less_trans)
  moreover have "shares_where (\<lambda>r. \<not> fo_own r) (feed_less k q A) < 2 ^ 64"
    using shares_where_less [OF f assms(2,3), of "\<lambda>r. \<not> fo_own r"] assms(1) by (auto simp: tame_def)
  moreover have "0 < fo_shares r' \<and> 0 \<le> fo_price r'" if r': "feed_less k q A x = Some r'" for x r'
  proof -
    obtain r0 where r0: "fo_shares r' \<noteq> 0" "A x = Some r0" "r' = r0\<lparr>fo_shares := fo_shares r'\<rparr>" using feed_less_member [OF r'] pos by blast
    have "fo_price r' = fo_price r0" by (subst r0(3)) simp
    then show ?thesis using r0 assms(1) by (auto simp: tame_def)
  qed
  ultimately show ?thesis using finite_feed_less [OF f] by (simp add: tame_def)
qed

lemma less_all: "A k = Some r \<Longrightarrow> feed_less k (fo_shares r) A = A(k := None)"
  by (simp add: feed_less_def)

lemma own_count_pos: "finite (dom A) \<Longrightarrow> A k = Some r \<Longrightarrow> fo_own r \<Longrightarrow> 0 < own_count A"
  using own_count_remove [of A k r] by simp

lemma book_anchored: "book_inv b A \<Longrightarrow> A k = Some r \<Longrightarrow> bb_anchored b"
  by (auto simp: book_inv_def split: if_splits)

lemma feed_less_price: "feed_less k q A x = Some r' \<Longrightarrow> \<exists>r. A x = Some r \<and> fo_price r' = fo_price r"
  by (auto simp: feed_less_def split: option.splits if_splits)

lemma book_remove:
  assumes inv: "book_inv b A" and r: "A ref = Some (order_view r)" and m: "fm_inv m" "fm_map m = (fm_map (bb_orders b))(ref := None)"
  defines "b2 \<equiv> if \<not> Resting_own r then BookBuilder_removeShares (Resting_side r) (r_price r) (Resting_shares r) (b\<lparr>bb_orders := m\<rparr>)
     else b\<lparr>bb_orders := m, bb_own := size_dec (bb_own b)\<rparr>"
  shows "book_inv b2 (A(ref := None)) \<and> settings b2 = settings b"
proof -
  note d = book_invD [OF inv]
  have an: "bb_anchored b" by (rule book_anchored [OF inv r])
  then obtain n where n: "levels_ok n b A" using d(10) by blast
  have e: "feed_less ref (unat (Resting_shares r)) A = A(ref := None)" using less_all [of A ref "order_view r"] r by simp
  have l2: "levels_ok n b2 (A(ref := None))"
    using levels_removeShares [of n "b\<lparr>bb_orders := m\<rparr>" A ref "order_view r" "Resting_shares r"] n d(4) r
      levels_less_own [OF n d(5,7) r, of "unat (Resting_shares r)"] by (simp add: b2_def e)
  have s2: "settings b2 = settings b" "bb_anchored b2" using an by (simp_all add: b2_def frame_simps) (simp_all add: settings_def)
  have r2: "bb_orders b2 = m" using removeShares_frame(3) [of "Resting_side r" "r_price r" "Resting_shares r" "b\<lparr>bb_orders := m\<rparr>"]
    by (simp add: b2_def registry_def)
  have o2: "bb_own b2 = own_count (A(ref := None))"
    using removeShares_frame(3) [of "Resting_side r" "r_price r" "Resting_shares r" "b\<lparr>bb_orders := m\<rparr>"] d(6) own_count_remove [OF d(5) r]
      own_count_pos [OF d(5) r] by (auto simp: b2_def registry_def size_dec_pos)
  have "book_orders b2 = A(ref := None)" using m(2) d(3) by (auto simp: book_orders_def fun_eq_iff r2)
  moreover have "tame (A(ref := None))" using tame_less [OF d(4) r, of "unat (Resting_shares r)"] e by simp
  ultimately show ?thesis using l2 s2 r2 o2 m d(1,9) settings_cong [OF s2(1)] by (auto simp: book_inv_def split: if_splits)
qed

lemma book_orders_None: "book_orders b k = None \<longleftrightarrow> fm_map (bb_orders b) k = None"
  by (simp add: book_orders_def)

lemma book_removeOrder:
  assumes "book_inv b A" and "ref \<noteq> 0"
  shows "book_inv (BookBuilder_removeOrder ref b) (A(ref := None)) \<and> settings (BookBuilder_removeOrder ref b) = settings b"
proof -
  note d = book_invD [OF assms(1)]
  obtain m where m: "FlatHashMap_take ref (bb_orders b) = (fm_map (bb_orders b) ref, m)" "fm_inv m" "fm_map m = (fm_map (bb_orders b))(ref := None)"
    using take_correct [OF d(2) assms(2)] by blast
  show ?thesis
  proof (cases "fm_map (bb_orders b) ref")
    case None
    then have "A(ref := None) = A" using d(3) by (auto simp: book_orders_def)
    then show ?thesis using None m assms(1) by (simp add: BookBuilder_removeOrder_def)
  next
    case (Some r)
    then have "A ref = Some (order_view r)" using d(3) by (auto simp: book_orders_def)
    from book_remove [OF assms(1) this m(2,3)] show ?thesis
      using m(1) Some by (cases "Resting_own r") (simp_all add: BookBuilder_removeOrder_def Let_def)
  qed
qed

lemma book_reduceOrder:
  assumes inv: "book_inv b A" and ref: "ref \<noteq> 0"
  shows "book_inv (BookBuilder_reduceOrder ref q trade b) (feed_less ref (unat q) A) \<and>
    settings (BookBuilder_reduceOrder ref q trade b) = settings b"
proof (cases "FlatHashMap_find ref (bb_orders b)")
  case None
  then have "A ref = None" using book_invD(3) [OF inv] fmap.find_None [OF book_invD(2) [OF inv] ref] book_orders_None [of b ref] by auto
  then show ?thesis using None inv by (simp add: BookBuilder_reduceOrder_def feed_less_def)
next
  case (Some i)
  define r where "r = FlatHashMap_at i (bb_orders b)"
  define b1 where "b1 = (if trade \<and> BookBuilder_needsAnchor (r_price r) b then BookBuilder_anchor (r_price r) True b else b)"
  define gone where "gone = (if q < Resting_shares r then q else Resting_shares r)"
  define b2 where "b2 = (if \<not> Resting_own r then BookBuilder_removeShares (Resting_side r) (r_price r) gone b1 else b1)"
  let ?A = "feed_less ref (unat q) A" and ?m = "FlatHashMap_put i (Resting_setShares (Resting_shares r - gone) r) (bb_orders b)"
  note d = book_invD [OF inv]
  have fr: "fm_map (bb_orders b) ref = Some r" using fmap.find_Some [OF d(2) ref Some] by (simp add: r_def)
  then have r: "A ref = Some (order_view r)" using d(3) by (auto simp: book_orders_def)
  have i1: "book_inv b1 A" "settings b1 = settings b" "registry b1 = registry b"
    using book_anchor [OF inv, of "r_price r"] d(9) [OF r] inv by (simp_all add: b1_def)
  have an: "bb_anchored b1" by (rule book_anchored [OF i1(1) r])
  then obtain n where n: "levels_ok n b1 A" using book_invD(10) [OF i1(1)] by blast
  have gle: "unat gone \<le> unat (Resting_shares r)" by (simp add: gone_def word_less_nat_alt)
  have e: "feed_less ref (unat gone) A = ?A" using r by (auto simp: feed_less_def gone_def word_less_nat_alt)
  have l2: "levels_ok n b2 ?A"
    using levels_removeShares [OF n d(4) r, of gone] levels_less_own [OF n d(5,7) r, of "unat gone"] gle by (simp add: b2_def e)
  have s2: "settings b2 = settings b" "registry b2 = registry b" "bb_anchored b2" using i1 an by (simp_all add: b2_def frame_simps)
  note o2 = registry_cong [OF s2(2)]
  have sz: "unat (Resting_shares r - gone) = unat (Resting_shares r) - unat gone" using gle by (simp add: unat_sub word_le_nat_alt)
  then have v: "order_view (Resting_setShares (Resting_shares r - gone) r) = (order_view r)\<lparr>fo_shares := unat (Resting_shares r) - unat gone\<rparr>"
    using setShares_view [of "Resting_shares r - gone" r] shares_small [of r] by simp
  note pt = fmap.put_spec [OF d(2) ref Some, of "Resting_setShares (Resting_shares r - gone) r"]
  note er = fmap.erase_spec [OF _ ref, of ?m i]
  have eq: "Resting_shares r = gone \<longleftrightarrow> unat (Resting_shares r) \<le> unat gone" using gle by (auto simp: word_unat_eq_iff)
  have A': "?A = (if Resting_shares r = gone then A(ref := None) else A(ref \<mapsto> (order_view r)\<lparr>fo_shares := unat (Resting_shares r) - unat gone\<rparr>))"
    unfolding e [symmetric] eq using r by (simp add: feed_less_def)
  define b3 where "b3 = (if Resting_shares r = gone then
       b2\<lparr>bb_orders := FlatHashMap_eraseAt i ?m, bb_own := (if Resting_own r then size_dec (bb_own b2) else bb_own b2)\<rparr>
     else b2\<lparr>bb_orders := ?m\<rparr>)"
  have b3: "BookBuilder_reduceOrder ref q trade b = b3"
    unfolding BookBuilder_reduceOrder_def Some option.case Let_def r_def [symmetric] b1_def [symmetric] gone_def [symmetric] b2_def [symmetric]
    using o2 by (simp add: b3_def)
  have inv3: "fm_inv (bb_orders b3)" "book_orders b3 = ?A"
    using pt er d(3) v unfolding A' by (auto simp: b3_def book_orders_def fun_eq_iff)
  have own3: "bb_own b3 = own_count ?A"
    using o2 d(6) r own_count_remove [OF d(5) r] own_count_pos [OF d(5) r] own_count_same [where A = A and k = ref]
    unfolding A' by (auto simp: b3_def size_dec_pos)
  have s3: "settings b3 = settings b" "bb_anchored b3" "levels_ok n b3 ?A"
    using s2 l2 by (simp_all add: b3_def) (simp_all add: settings_def)
  have t: "tame ?A" using tame_less [OF d(4) r, of "unat gone"] gle e by simp
  have "price_fits b3 (fo_price r')" if "?A x = Some r'" for x r'
    using feed_less_price [OF that] d(9) settings_cong(2) [OF s3(1)] by auto
  then show ?thesis using b3 inv3 own3 s3 t d(1) settings_cong(1) [OF s3(1)] by (auto simp: book_inv_def)
qed

section \<open>Messages\<close>

text \<open>What a message asks for, and when the feed may send it: references are not zero, a new order has a new reference, prices and sizes fit.\<close>

definition feed_of :: "byte list \<Rightarrow> feed" where
  "feed_of msg =
     (if msg = [] then FNothing
      else
        let ty = msg ! 0; n = length msg in
        if ty = 0x41 \<or> ty = 0x46 then
          if n \<ge> sizeof_AddOrder then
            let a = dec_AddOrder msg
            in FAdd (ao_orderRef a) (if ao_side a = ItchSide_code ISide_Buy then Buy else Sell) (wire_price (ao_price a)) (unat (ao_shares a))
          else FNothing
        else if ty = 0x45 then
          if n \<ge> sizeof_OrderExecuted then
            let e = dec_OrderExecuted msg in FReduce (oe_orderRef e) (unat (oe_executedShares e)) else FNothing
        else if ty = 0x43 then
          if n \<ge> sizeof_OrderExecutedWithPrice then
            let c = dec_OrderExecutedWithPrice msg in FReduce (op_orderRef c) (unat (op_executedShares c)) else FNothing
        else if ty = 0x58 then
          if n \<ge> sizeof_OrderCancel then let x = dec_OrderCancel msg in FReduce (oc_orderRef x) (unat (oc_cancelledShares x)) else FNothing
        else if ty = 0x50 then
          if n \<ge> sizeof_TradeNonCross then FTrade (wire_price (tn_price (dec_TradeNonCross msg))) else FNothing
        else if ty = 0x51 then
          if n \<ge> sizeof_CrossTrade then
            let q = dec_CrossTrade msg in if ct_shares q > 0 \<and> ct_crossPrice q > 0 then FTrade (wire_price (ct_crossPrice q)) else FNothing
          else FNothing
        else if ty = 0x44 then
          if n \<ge> sizeof_OrderDelete then FRemove (od_orderRef (dec_OrderDelete msg)) else FNothing
        else if ty = 0x55 then
          if n \<ge> sizeof_OrderReplace then
            let u = dec_OrderReplace msg in FReplace (orp_origOrderRef u) (orp_newOrderRef u) (wire_price (orp_price u)) (unat (orp_shares u))
          else FNothing
        else FNothing)"

primrec feed_legal :: "(Price \<Rightarrow> bool) \<Rightarrow> feed \<Rightarrow> orders \<Rightarrow> bool" where
  "feed_legal fits (FAdd ref s p q) A \<longleftrightarrow> ref \<noteq> 0 \<and> A ref = None \<and> q < 2 ^ 30 \<and> fits p"
| "feed_legal fits (FReduce ref q) A \<longleftrightarrow> ref \<noteq> 0"
| "feed_legal fits (FRemove ref) A \<longleftrightarrow> ref \<noteq> 0"
| "feed_legal fits (FReplace old new p q) A \<longleftrightarrow> old \<noteq> 0 \<and> new \<noteq> 0 \<and> (new = old \<or> A new = None) \<and> q < 2 ^ 30 \<and> fits p"
| "feed_legal fits (FTrade p) A \<longleftrightarrow> fits p"
| "feed_legal fits FNothing A \<longleftrightarrow> True"

lemma book_onAddOrder:
  assumes inv: "book_inv b A" and leg: "feed_legal (price_fits b) (FAdd (ao_orderRef m) s (wire_price (ao_price m)) (unat (ao_shares m))) A"
    and t: "tame (feed_spec (bb_ownRefMin b) (FAdd (ao_orderRef m) s (wire_price (ao_price m)) (unat (ao_shares m))) A)"
    and s: "s = (if ao_side m = ItchSide_code ISide_Buy then Buy else Sell)"
  shows "book_inv (BookBuilder_onAddOrder m b) (feed_spec (bb_ownRefMin b) (FAdd (ao_orderRef m) s (wire_price (ao_price m)) (unat (ao_shares m))) A) \<and>
    settings (BookBuilder_onAddOrder m b) = settings b"
proof (cases "ao_shares m = 0")
  case True
  then show ?thesis using inv by (simp add: BookBuilder_onAddOrder_def)
next
  case False
  define p where "p = wire_price (ao_price m)"
  define b1 where "b1 = (if \<not> bb_anchored b then BookBuilder_anchor p False b else b)"
  have i1: "book_inv b1 A" "settings b1 = settings b" "bb_anchored b1"
    using book_anchor [OF inv, of p False] inv leg by (auto simp: b1_def p_def)
  have p1: "price_fits b1 p" using leg settings_cong(2) [OF i1(2)] by (simp add: p_def)
  have "unat (ao_shares m) \<noteq> 0" using False by (simp add: unat_eq_zero)
  with leg t False book_insert [OF i1(1,3) _ _ _ _ p1, of "ao_orderRef m" "ao_shares m" s "owned (bb_ownRefMin b) (ao_orderRef m)"] i1(2)
  show ?thesis
    unfolding BookBuilder_onAddOrder_def Let_def p_def [symmetric] b1_def [symmetric] s [symmetric] owned_def [symmetric]
    by (simp add: p_def [symmetric] owned_def)
qed

lemma book_onOrderReplace:
  assumes inv: "book_inv b A"
    and leg: "feed_legal (price_fits b) (FReplace (orp_origOrderRef m) (orp_newOrderRef m) (wire_price (orp_price m)) (unat (orp_shares m))) A"
    and t: "tame (feed_spec own (FReplace (orp_origOrderRef m) (orp_newOrderRef m) (wire_price (orp_price m)) (unat (orp_shares m))) A)"
  shows "book_inv (BookBuilder_onOrderReplace m b)
      (feed_spec own (FReplace (orp_origOrderRef m) (orp_newOrderRef m) (wire_price (orp_price m)) (unat (orp_shares m))) A) \<and>
    settings (BookBuilder_onOrderReplace m b) = settings b"
proof -
  define old new p q where "old = orp_origOrderRef m" and "new = orp_newOrderRef m" and "p = wire_price (orp_price m)" and "q = orp_shares m"
  note d = book_invD [OF inv] and defs = old_def new_def p_def q_def
  have l: "old \<noteq> 0" "new \<noteq> 0" "new = old \<or> A new = None" "unat q < 2 ^ 30" "price_fits b p" using leg by (simp_all add: defs)
  obtain mm where mm: "FlatHashMap_take old (bb_orders b) = (fm_map (bb_orders b) old, mm)" "fm_inv mm" "fm_map mm = (fm_map (bb_orders b))(old := None)"
    using take_correct [OF d(2) l(1)] by blast
  show ?thesis
  proof (cases "fm_map (bb_orders b) old")
    case None
    then have "A old = None" using d(3) by (auto simp: book_orders_def)
    then show ?thesis using None mm inv by (simp add: BookBuilder_onOrderReplace_def defs)
  next
    case (Some r)
    then have r: "A old = Some (order_view r)" using d(3) by (auto simp: book_orders_def)
    define b2 where "b2 = (if \<not> Resting_own r then BookBuilder_removeShares (Resting_side r) (r_price r) (Resting_shares r) (b\<lparr>bb_orders := mm\<rparr>)
       else b\<lparr>bb_orders := mm, bb_own := size_dec (bb_own b)\<rparr>)"
    have i2: "book_inv b2 (A(old := None))" "settings b2 = settings b" using book_remove [OF inv r mm(2,3)] by (simp_all add: b2_def)
    have an: "bb_anchored b2" using book_anchored [OF inv r] by (simp add: b2_def frame_simps)
    have u: "BookBuilder_onOrderReplace m b = (if q = 0 then b2 else
        let b3 = BookBuilder_put new (Resting_make p q (Resting_side r) (Resting_own r)) b2
        in if Resting_own r then b3\<lparr>bb_own := bb_own b3 + 1\<rparr> else BookBuilder_addShares (Resting_side r) p q b3)"
      using mm(1) Some by (simp add: BookBuilder_onOrderReplace_def Let_def defs b2_def)
    show ?thesis
    proof (cases "q = 0")
      case True
      then show ?thesis using u i2 r by (simp add: defs)
    next
      case False
      let ?r = "\<lparr>fo_side = Resting_side r, fo_price = p, fo_shares = unat q, fo_own = Resting_own r\<rparr>"
      have nq: "unat q \<noteq> 0" using False by (simp add: unat_eq_zero)
      have sp: "feed_spec own (FReplace old new p (unat q)) A = (A(old := None))(new \<mapsto> ?r)" using r nq by (simp add: order_view_def)
      have p2: "price_fits b2 p" using l(5) settings_cong(2) [OF i2(2)] by simp
      have nn: "(A(old := None)) new = None" using l(3) by auto
      have t2: "tame ((A(old := None))(new \<mapsto> ?r))" using t sp by (simp add: defs)
      from book_insert [OF i2(1) an l(2) nn l(4) False p2 t2] show ?thesis
        unfolding defs [symmetric] sp u if_not_P [OF False] Let_def i2(2) .
    qed
  qed
qed

lemma book_apply:
  assumes inv: "book_inv b A" and leg: "feed_legal (price_fits b) (feed_of msg) A" and t: "tame (feed_spec (bb_ownRefMin b) (feed_of msg) A)"
  shows "book_inv (BookBuilder_apply msg b) (feed_spec (bb_ownRefMin b) (feed_of msg) A) \<and> settings (BookBuilder_apply msg b) = settings b"
proof -
  consider (add) "msg \<noteq> [] \<and> (msg ! 0 = 0x41 \<or> msg ! 0 = 0x46)"
    | (exec) "msg \<noteq> [] \<and> (msg ! 0 = 0x45)"
    | (execPrice) "msg \<noteq> [] \<and> (msg ! 0 = 0x43)"
    | (cancel) "msg \<noteq> [] \<and> (msg ! 0 = 0x58)"
    | (trade) "msg \<noteq> [] \<and> (msg ! 0 = 0x50)"
    | (cross) "msg \<noteq> [] \<and> (msg ! 0 = 0x51)"
    | (delete) "msg \<noteq> [] \<and> (msg ! 0 = 0x44)"
    | (replace) "msg \<noteq> [] \<and> (msg ! 0 = 0x55)"
    | (other) "msg = [] \<or> (msg ! 0 \<noteq> 0x41 \<and> msg ! 0 \<noteq> 0x46 \<and> msg ! 0 \<noteq> 0x45 \<and> msg ! 0 \<noteq> 0x43 \<and> msg ! 0 \<noteq> 0x58 \<and> msg ! 0 \<noteq> 0x50 \<and> msg ! 0 \<noteq> 0x51 \<and> msg ! 0 \<noteq> 0x44 \<and> msg ! 0 \<noteq> 0x55)"
    by blast
  then show ?thesis
  proof cases
    case add
    then show ?thesis using inv leg t book_onAddOrder [OF inv, of "dec_AddOrder msg"]
      by (auto simp: BookBuilder_apply_def feed_of_def Let_def split: if_splits)
  next
    case exec
    then show ?thesis using inv leg t book_reduceOrder [OF inv]
      by (auto simp: BookBuilder_apply_def feed_of_def Let_def split: if_splits)
  next
    case execPrice
    then show ?thesis using inv leg t book_reduceOrder [OF inv]
      by (auto simp: BookBuilder_apply_def feed_of_def Let_def split: if_splits)
  next
    case cancel
    then show ?thesis using inv leg t book_reduceOrder [OF inv]
      by (auto simp: BookBuilder_apply_def feed_of_def Let_def split: if_splits)
  next
    case trade
    then show ?thesis using inv leg t book_onTradePrice [OF inv]
      by (auto simp: BookBuilder_apply_def feed_of_def Let_def split: if_splits)
  next
    case cross
    then show ?thesis using inv leg t book_onTradePrice [OF inv]
      by (auto simp: BookBuilder_apply_def feed_of_def Let_def split: if_splits)
  next
    case delete
    then show ?thesis using inv leg t book_removeOrder [OF inv]
      by (auto simp: BookBuilder_apply_def feed_of_def Let_def split: if_splits)
  next
    case replace
    then show ?thesis using inv leg t book_onOrderReplace [OF inv, of "dec_OrderReplace msg" "bb_ownRefMin b"]
      by (auto simp: BookBuilder_apply_def feed_of_def Let_def split: if_splits)
  next
    case other
    then show ?thesis using inv by (auto simp: BookBuilder_apply_def feed_of_def Let_def)
  qed
qed

section \<open>Clearing and construction\<close>

lemma levels_clear:
  fixes m :: "(64 word, Resting) FlatHashMap"
  assumes "levels_ok n b A"
  defines "b' \<equiv> b\<lparr>bb_bidSize := map (\<lambda>_. 0) (bb_bidSize b), bb_askSize := map (\<lambda>_. 0) (bb_askSize b),
             bb_bidBits := LevelBits_clearAll (bb_bidBits b), bb_askBits := LevelBits_clearAll (bb_askBits b),
             bb_orders := m, bb_own := 0, bb_bestBid := kNoPrice, bb_bestAsk := kNoPrice,
             bb_parkedShares := 0, bb_parkedLo := kNoPrice, bb_parkedHi := kNoPrice\<rparr>"
  shows "levels_ok n b' Map.empty"
proof -
  have g: "geometry b' = geometry b" by (simp add: b'_def geometry_def)
  have z: "side_ok s lp n (map (\<lambda>_. 0) sz) (LevelBits_clearAll bs) kNoPrice (\<lambda>_. 0)" if "side_ok s lp n sz bs best V" for s lp sz bs best V
    using that lb_inv_clearAll [of bs] has_level_clearAll [of bs]
    by (auto simp: side_ok_def top_of_def lb_ok_def lb_cap_def LevelBits_clearAll_def)
  show ?thesis using assms(1) z unfolding levels_ok_def geometry_cong [OF g] by (auto simp: b'_def outside_prices_def covers_def)
qed

lemma levels_empty_best:
  assumes "levels_ok n b Map.empty"
  shows "bb_bestBid b = kNoPrice" and "bb_bestAsk b = kNoPrice"
proof -
  have "best = kNoPrice" if "side_ok s lp n sz bs best (\<lambda>_. 0)" for s lp sz bs best
    using that by (auto simp: side_ok_def unat_eq_zero elim!: top_of_cases)
  then show "bb_bestBid b = kNoPrice" "bb_bestAsk b = kNoPrice" using assms by (auto simp: levels_ok_def)
qed

lemma tame_empty [simp]: "tame Map.empty"
  by (simp add: tame_def)

lemma own_count_empty [simp]: "own_count Map.empty = 0"
  by (simp add: own_count_def)

lemma book_clear:
  assumes "book_inv b A"
  shows "book_inv (BookBuilder_clear b) Map.empty \<and> settings (BookBuilder_clear b) = settings b"
proof -
  note d = book_invD [OF assms]
  have dm: "dom A = dom (fm_map (bb_orders b))" using d(3) by (auto simp: book_orders_def)
  show ?thesis
  proof (cases "fm_size (bb_orders b) = 0 \<and> bb_own b = 0 \<and> bb_parkedShares b = 0")
    case True
    then have "fm_map (bb_orders b) = Map.empty" using fm_size_card [OF d(2)] finite_dom_fm_map [of "bb_orders b"] by simp
    then have A: "A = Map.empty" using d(3) by (auto simp: book_orders_def)
    have "bb_bestBid b = kNoPrice" "bb_bestAsk b = kNoPrice"
      using assms A levels_empty_best by (auto simp: book_inv_def untouched_def split: if_splits)
    then have "BookBuilder_clear b = b\<lparr>bb_topVersion := bb_topVersion b + 1\<rparr>" using True by (simp add: BookBuilder_clear_def Let_def)
    then show ?thesis using assms A
      by (auto simp: book_inv_def settings_ok_def price_fits_def untouched_def settings_def book_orders_def fun_eq_iff)
  next
    case False
    then have an: "bb_anchored b" using assms fm_size_card [OF d(2)] unfolding dm [symmetric]
      by (auto simp: book_inv_def untouched_def split: if_splits)
    then obtain n where n: "levels_ok n (b\<lparr>bb_topVersion := bb_topVersion b + 1\<rparr>) A" using d(10) by auto
    note c = FlatHashMap_clear_correct [OF d(2)]
    show ?thesis using levels_clear [OF n, of "FlatHashMap_clear (bb_orders b)"] False an c d(1)
      by (auto simp: BookBuilder_clear_def Let_def book_inv_def settings_ok_def settings_def book_orders_def fun_eq_iff)
  qed
qed

definition config_fits :: "BookConfig \<Rightarrow> Price \<Rightarrow> bool" where
  "config_fits cfg p \<longleftrightarrow> 0 \<le> p \<and> p + 2 * (int (bc_maxBandTicks cfg) * max (bc_tickWire cfg) (bc_subDollarTickWire cfg)) < 2 ^ 31"

definition config_ok :: "BookConfig \<Rightarrow> bool" where
  "config_ok cfg \<longleftrightarrow> 0 < bc_tickWire cfg \<and> 0 \<le> bc_subDollarTickWire cfg \<and> bc_maxBandTicks cfg \<noteq> 0 \<and>
     (bc_anchorPrice cfg = kNoPrice \<or> config_fits cfg (bc_anchorPrice cfg))"

definition config_settings :: "BookConfig \<Rightarrow> OrderId \<times> nat \<times> nat \<times> (Price \<Rightarrow> Price \<Rightarrow> nat) option \<times> Price \<times> Price" where
  "config_settings cfg = (bc_ownRefMin cfg, bc_bandTicks cfg, bc_maxBandTicks cfg, bc_byPrice cfg, bc_tickWire cfg, bc_subDollarTickWire cfg)"

lemma fits_config: "settings b = config_settings cfg \<Longrightarrow> price_fits b = config_fits cfg \<and> bb_ownRefMin b = bc_ownRefMin cfg"
  by (auto simp: settings_def config_settings_def price_fits_def config_fits_def fun_eq_iff)

lemma book_new:
  assumes "config_ok cfg"
  shows "book_inv (BookBuilder_new cfg) Map.empty \<and> settings (BookBuilder_new cfg) = config_settings cfg"
proof -
  define m where "m = (FlatHashMap_new (bc_maxOrders cfg) Resting_zero :: (64 word, Resting) FlatHashMap)"
  define b where "b = \<lparr>bb_minPrice = 0, bb_maxPrice = - 1, bb_tickWire = bc_tickWire cfg, bb_ownRefMin = bc_ownRefMin cfg, bb_own = 0,
               bb_tickDiv = DivBy_new (of_int (bc_tickWire cfg)), bb_bestBid = kNoPrice, bb_bestAsk = kNoPrice, bb_topVersion = 0,
               bb_bandTicks = bc_bandTicks cfg, bb_maxBandTicks = bc_maxBandTicks cfg, bb_byPrice = bc_byPrice cfg,
               bb_baseTick = bc_tickWire cfg, bb_subDollarTick = bc_subDollarTickWire cfg, bb_anchored = False,
               bb_oob = 0, bb_reanchors = 0, bb_reanchorsOut = bc_reanchors cfg, bb_rescansOut = bc_rescans cfg, bb_parkedShares = 0,
               bb_epoch = 0, bb_parkedLo = kNoPrice, bb_parkedHi = kNoPrice, bb_bidSize = [], bb_askSize = [],
               bb_bidBits = LevelBits_reset 1 LevelBits_zero, bb_askBits = LevelBits_reset 1 LevelBits_zero,
               bb_orders = (if bc_rehashes cfg then FlatHashMap_countGrowsIn m else m)\<rparr>"
  have n: "BookBuilder_new cfg = (if bc_anchorPrice cfg \<noteq> kNoPrice then BookBuilder_anchor (bc_anchorPrice cfg) True b else b)"
    unfolding BookBuilder_new_def Let_def m_def [symmetric] b_def [symmetric] ..
  have g: "fm_inv (FlatHashMap_countGrowsIn m)" "fm_map (FlatHashMap_countGrowsIn m) = fm_map m"
    using FlatHashMap_new_inv [of "bc_maxOrders cfg" Resting_zero] by (simp_all add: countGrowsIn_map m_def)
  have s: "settings b = config_settings cfg" by (simp add: b_def settings_def config_settings_def)
  have "book_inv b Map.empty" using assms g
    by (auto simp: book_inv_def b_def settings_ok_def config_ok_def untouched_def book_orders_def fun_eq_iff m_def)
  then show ?thesis using n s book_anchor [of b Map.empty "bc_anchorPrice cfg" True] assms fits_config [OF s] by (auto simp: config_ok_def)
qed

text \<open>A book fed from its construction on, with the orders the specification keeps.\<close>

inductive book_feed :: "BookConfig \<Rightarrow> BookBuilder \<Rightarrow> orders \<Rightarrow> bool" for cfg where
  start: "book_feed cfg (BookBuilder_new cfg) Map.empty"
| message: "book_feed cfg b A \<Longrightarrow> feed_legal (config_fits cfg) (feed_of msg) A \<Longrightarrow> tame (feed_spec (bc_ownRefMin cfg) (feed_of msg) A) \<Longrightarrow>
    book_feed cfg (BookBuilder_apply msg b) (feed_spec (bc_ownRefMin cfg) (feed_of msg) A)"
| clear: "book_feed cfg b A \<Longrightarrow> book_feed cfg (BookBuilder_clear b) Map.empty"
| epoch: "book_feed cfg b A \<Longrightarrow> book_feed cfg (BookBuilder_setEpoch e b) A"

lemma book_feed_inv:
  assumes "book_feed cfg b A" and "config_ok cfg"
  shows "book_inv b A \<and> settings b = config_settings cfg"
  using assms(1)
proof induction
  case start
  then show ?case using book_new [OF assms(2)] by simp
next
  case (message b A msg)
  then show ?case using book_apply [of b A msg] fits_config [of b cfg] by auto
next
  case (clear b A)
  then show ?case using book_clear [of b A] by auto
next
  case (epoch b A e)
  then show ?case
    by (auto simp: BookBuilder_setEpoch_def book_inv_def settings_def settings_ok_def price_fits_def untouched_def book_orders_def fun_eq_iff split: if_splits)
qed

end
