(* ===== verification/BookBuilderProps.thy ===== *)
theory BookBuilderProps
  imports BookInvariant
begin

text \<open>
  Correctness of the book builder: after every message of a well-formed feed its levels, its best prices and its
  parked shares are those of the resting orders, whatever moves of the band the messages caused.
\<close>

section \<open>Properties\<close>

lemma untouched_band: "untouched b \<Longrightarrow> \<not> BookBuilder_inBand p b"
  by (auto simp: untouched_def BookBuilder_inBand_def BookBuilder_inRange_def)

lemma size_exact:
  assumes "book_inv b A"
  shows "unat (BookBuilder_sizeAt s p b) = (if BookBuilder_inBand p b then feed_volume A s p else 0)"
proof (cases "BookBuilder_inBand p b")
  case True
  then obtain n where n: "levels_ok n b A" using assms untouched_band by (auto simp: book_inv_def split: if_splits)
  then have g: "band_grid b n" by (simp add: levels_ok_def)
  obtain i where i: "i < n" "p = level_price b i" using True inBand_iff [OF g] by blast
  then show ?thesis using True n index_level [OF g i(1)] by (cases s) (auto simp: BookBuilder_sizeAt_def levels_ok_def side_ok_def)
qed (simp add: BookBuilder_sizeAt_def)

definition best_of :: "BookBuilder \<Rightarrow> Side \<Rightarrow> Price" where
  "best_of b s = (case s of Buy \<Rightarrow> bb_bestBid b | Sell \<Rightarrow> bb_bestAsk b)"

definition outer :: "Side \<Rightarrow> Price \<Rightarrow> Price \<Rightarrow> bool" where
  "outer s p q \<longleftrightarrow> (case s of Buy \<Rightarrow> q \<le> p | Sell \<Rightarrow> p \<le> q)"

text \<open>\<open>shows_best V in_band best\<close>: the price is the outermost one in the band that has shares, or there is none.\<close>

definition shows_best :: "Side \<Rightarrow> (Price \<Rightarrow> bool) \<Rightarrow> (Price \<Rightarrow> nat) \<Rightarrow> Price \<Rightarrow> bool" where
  "shows_best s band V best \<longleftrightarrow>
     (if \<exists>p. band p \<and> 0 < V p then band best \<and> 0 < V best \<and> (\<forall>p. band p \<and> 0 < V p \<longrightarrow> outer s best p)
      else best = kNoPrice)"

lemma side_best:
  assumes g: "band_grid b n" and ok: "side_ok s (level_price b) n sz bs best V"
  shows "shows_best s (\<lambda>p. BookBuilder_inBand p b) V best"
proof -
  have V: "0 < V (level_price b i) \<longleftrightarrow> sz ! i \<noteq> 0" if "i < n" for i
    using ok that unat_eq_zero [of "sz ! i"] by (auto simp: side_ok_def)
  have l: "length sz = n" and "top_of s (level_price b) sz best" using ok by (simp_all add: side_ok_def)
  from this(2) show ?thesis
  proof (cases rule: top_of_cases)
    case none
    then show ?thesis using V l inBand_iff [OF g] by (auto simp: shows_best_def)
  next
    case (some i)
    have "outer s best p" if p: "BookBuilder_inBand p b" "0 < V p" for p
    proof -
      obtain j where j: "j < n" "p = level_price b j" using p inBand_iff [OF g] by blast
      then have "ahead s i j" using some(4) [of j] V l p by simp
      then show ?thesis using j some(2) level_price_le [of b] g by (cases s) (simp_all add: outer_def ahead_def band_grid_def)
    qed
    moreover have "BookBuilder_inBand best b" "0 < V best" using some l V inBand_iff [OF g] by auto
    ultimately show ?thesis by (auto simp: shows_best_def)
  qed
qed

lemma top_exact:
  assumes "book_inv b A"
  shows "shows_best s (\<lambda>p. BookBuilder_inBand p b) (feed_volume A s) (best_of b s)"
proof (cases "bb_anchored b")
  case True
  then obtain n where "levels_ok n b A" using assms by (auto simp: book_inv_def)
  then show ?thesis using side_best [of b n] by (cases s) (auto simp: levels_ok_def best_of_def)
next
  case False
  then have "untouched b" using assms by (simp add: book_inv_def)
  then show ?thesis using untouched_band [of b] by (cases s) (simp_all add: shows_best_def best_of_def untouched_def)
qed

lemma parked_exact:
  assumes "book_inv b A"
  shows "unat (bb_parkedShares b) = shares_where (outside b) A"
proof (cases "bb_anchored b")
  case True
  then have p: "bb_parkedShares b = of_nat (shares_where (outside b) A)" using assms by (auto simp: book_inv_def levels_ok_def)
  have t: "tame A" using assms by (simp add: book_inv_def)
  then have "shares_where (outside b) A \<le> shares_where (\<lambda>r. \<not> fo_own r) A" by (intro shares_where_mono) (auto simp: tame_def outside_def)
  then have "shares_where (outside b) A < 2 ^ 64" using t by (simp add: tame_def)
  then show ?thesis using p by (simp add: unsigned_of_nat take_bit_eq_mod)
next
  case False
  then show ?thesis using assms by (auto simp: book_inv_def untouched_def)
qed

lemma resting_exact:
  assumes "book_inv b A" and "ref \<noteq> 0"
  shows "unat (BookBuilder_restingShares ref b) = (case A ref of None \<Rightarrow> 0 | Some r \<Rightarrow> fo_shares r) \<and>
    BookBuilder_restingPrice ref b = (case A ref of None \<Rightarrow> kNoPrice | Some r \<Rightarrow> fo_price r)"
proof -
  note d = book_invD [OF assms(1)]
  have A: "A ref = map_option order_view (fm_map (bb_orders b) ref)" using d(3) by (auto simp: book_orders_def)
  show ?thesis
    by (rule fmap.find_cases [OF d(2) assms(2)]) (simp_all add: A BookBuilder_restingShares_def BookBuilder_restingPrice_def)
qed

section \<open>The version of the top of the book\<close>

text \<open>\<open>tops b b' k\<close>: the version moved by \<open>k\<close>, and if it did not move, neither did the band and the best prices.\<close>

definition tops :: "BookBuilder \<Rightarrow> BookBuilder \<Rightarrow> nat \<Rightarrow> bool" where
  "tops b b' k \<longleftrightarrow> bb_topVersion b' = bb_topVersion b + of_nat k \<and> (k = 0 \<longrightarrow> geometry b' = geometry b \<and> bb_bestBid b' = bb_bestBid b \<and> bb_bestAsk b' = bb_bestAsk b)"

lemma tops_refl: "tops b b 0"
  by (simp add: tops_def)

lemma tops_trans: "tops b b1 k \<Longrightarrow> tops b1 b2 l \<Longrightarrow> tops b b2 (k + l)"
  by (simp add: tops_def)

lemma tops_upd [simp]:
  "tops b (b'\<lparr>bb_orders := m\<rparr>) k = tops b b' k" "tops b (b'\<lparr>bb_own := i\<rparr>) k = tops b b' k"
  "tops (b\<lparr>bb_orders := m\<rparr>) b' k = tops b b' k"
  by (simp_all add: tops_def geometry_def)

lemma tops_addShares:
  "\<exists>k \<le> 1. tops b (BookBuilder_addShares s p q b) k \<and> (k = 0 \<longrightarrow> BookBuilder_inBand p b \<longrightarrow> p \<noteq> best_of b s)"
proof (cases "BookBuilder_inBand p b \<and> (best_of b s = kNoPrice \<or> (case s of Buy \<Rightarrow> p \<ge> best_of b s | Sell \<Rightarrow> p \<le> best_of b s))")
  case True
  then show ?thesis
    by (intro exI [of _ 1]) (auto simp: tops_def BookBuilder_addShares_def BookBuilder_addLevel_def best_of_def Let_def split: Side.splits)
next
  case False
  then show ?thesis
    using addShares_frame(1) [of s p q b]
    by (intro exI [of _ 0]) (auto simp: tops_def BookBuilder_addShares_def BookBuilder_addLevel_def BookBuilder_park_def best_of_def Let_def split: Side.splits)
qed

lemma tops_removeShares:
  "\<exists>k \<le> 1. tops b (BookBuilder_removeShares s p q b) k \<and> (k = 0 \<longrightarrow> BookBuilder_inBand p b \<longrightarrow> p \<noteq> best_of b s)"
proof (cases "BookBuilder_inBand p b \<and> p = best_of b s")
  case True
  then show ?thesis
    by (intro exI [of _ 1]) (auto simp: tops_def BookBuilder_removeShares_def BookBuilder_rescanBestBid_def BookBuilder_rescanBestAsk_def
        count_rescan_def best_of_def Let_def split: Side.splits)
next
  case False
  then show ?thesis
    using removeShares_frame(1) [of s p q b]
    by (intro exI [of _ 0]) (auto simp: tops_def BookBuilder_removeShares_def BookBuilder_unpark_def BookBuilder_rescanBestBid_def
        BookBuilder_rescanBestAsk_def count_rescan_def best_of_def Let_def split: Side.splits)
qed

lemma version_rebuild_fold:
  "\<exists>k \<le> length xs. bb_topVersion (fold (\<lambda>s. rebuild_order (fst s) (snd s)) xs b) = bb_topVersion b + of_nat k"
proof (induction xs arbitrary: b)
  case (Cons x xs)
  have "\<exists>j \<le> 1. bb_topVersion (rebuild_order (fst x) (snd x) b) = bb_topVersion b + of_nat j"
    by (auto simp: rebuild_order_def BookBuilder_addLevel_def BookBuilder_park_def Let_def intro: exI [of _ 0] exI [of _ 1])
  then obtain j where j: "j \<le> 1" "bb_topVersion (rebuild_order (fst x) (snd x) b) = bb_topVersion b + of_nat j" by blast
  obtain k where "k \<le> length xs" "bb_topVersion (fold (\<lambda>s. rebuild_order (fst s) (snd s)) (x # xs) b) = bb_topVersion b + of_nat (j + k)"
    using Cons.IH [of "rebuild_order (fst x) (snd x) b"] j(2) by (auto simp: add.assoc)
  then show ?case using j(1) by (intro exI [of _ "j + k"]) auto
qed simp

lemma version_fold: "(\<And>i b. bb_topVersion (f i b) = bb_topVersion b) \<Longrightarrow> bb_topVersion (fold f xs b) = bb_topVersion b"
  by (induction xs arbitrary: b) simp_all

lemma version_shift:
  "bb_topVersion (BookBuilder_recomputeBest (BookBuilder_rebuildBits b)) = bb_topVersion b"
  "bb_topVersion (snd (BookBuilder_shiftLevels sz lo hi b)) = bb_topVersion b"
proof -
  show "bb_topVersion (snd (BookBuilder_shiftLevels sz lo hi b)) = bb_topVersion b"
    unfolding BookBuilder_shiftLevels_def Let_def case_prod_beta snd_conv by (rule version_fold) (simp add: BookBuilder_park_def)
  have "bb_topVersion (BookBuilder_rebuildBits b) = bb_topVersion b"
    unfolding BookBuilder_rebuildBits_def by (rule trans [OF version_fold]) simp_all
  then show "bb_topVersion (BookBuilder_recomputeBest (BookBuilder_rebuildBits b)) = bb_topVersion b"
    by (simp add: recomputeBest_eq)
qed

lemma tops_anchor: "\<exists>k \<ge> 1. k \<le> Suc (length (fm_list (bb_orders b))) \<and> tops b (BookBuilder_anchor p tr b) k"
proof -
  have v: "\<exists>k \<le> length (fm_list (bb_orders b')). bb_topVersion (BookBuilder_rebuildLevels b') = bb_topVersion b' + of_nat k" for b'
    using version_rebuild_fold [of "fm_list (bb_orders b')" "b'\<lparr>bb_parkedShares := 0, bb_parkedLo := kNoPrice, bb_parkedHi := kNoPrice\<rparr>"]
    by (simp add: BookBuilder_rebuildLevels_def forEach_fold)
  have "\<exists>c lo hi b1 b2. BookBuilder_anchor p tr b =
      (if c then BookBuilder_recomputeBest (BookBuilder_rebuildBits (shift_band lo hi b1)) else BookBuilder_rebuildLevels b2) \<and>
      bb_topVersion b1 = bb_topVersion b + 1 \<and> bb_topVersion b2 = bb_topVersion b + 1 \<and> bb_orders b2 = bb_orders b"
    unfolding BookBuilder_anchor_def shift_band_def Let_def case_prod_beta
    apply (intro exI conjI)
       apply (rule refl)
      apply simp_all
    done
  then obtain c lo hi b1 b2 where a: "BookBuilder_anchor p tr b =
      (if c then BookBuilder_recomputeBest (BookBuilder_rebuildBits (shift_band lo hi b1)) else BookBuilder_rebuildLevels b2)"
    "bb_topVersion b1 = bb_topVersion b + 1" "bb_topVersion b2 = bb_topVersion b + 1" "bb_orders b2 = bb_orders b" by metis
  show ?thesis
  proof (cases c)
    case True
    then have "bb_topVersion (BookBuilder_anchor p tr b) = bb_topVersion b + 1"
      using a by (simp add: version_shift shift_band_def Let_def case_prod_beta)
    then show ?thesis by (intro exI [of _ 1]) (simp add: tops_def)
  next
    case False
    obtain k where "k \<le> length (fm_list (bb_orders b))" "bb_topVersion (BookBuilder_rebuildLevels b2) = bb_topVersion b2 + of_nat k"
      using v [of b2] a(4) by auto
    then show ?thesis using False a by (intro exI [of _ "Suc k"]) (simp add: tops_def add.assoc)
  qed
qed

text \<open>\<open>quiet b A b' A' n\<close>: the version moved by at most \<open>n\<close>, and if it did not move, the shares at the best prices are the same.\<close>

definition quiet :: "BookBuilder \<Rightarrow> orders \<Rightarrow> BookBuilder \<Rightarrow> orders \<Rightarrow> nat \<Rightarrow> bool" where
  "quiet b A b' A' n \<longleftrightarrow> (\<exists>k \<le> n. tops b b' k \<and> (k = 0 \<longrightarrow> (\<forall>s. feed_volume A' s (best_of b s) = feed_volume A s (best_of b s))))"

lemma quiet_refl: "quiet b A b A n"
  by (auto simp: quiet_def intro!: exI [of _ 0] tops_refl)

lemma quiet_mono: "quiet b A b' A' m \<Longrightarrow> m \<le> n \<Longrightarrow> quiet b A b' A' n"
  by (auto simp: quiet_def intro: order_trans)

lemma quiet_trans:
  assumes "quiet b A b1 A1 m" and "quiet b1 A1 b2 A2 n"
  shows "quiet b A b2 A2 (m + n)"
proof -
  obtain k l where k: "k \<le> m" "tops b b1 k" "k = 0 \<longrightarrow> (\<forall>s. feed_volume A1 s (best_of b s) = feed_volume A s (best_of b s))"
    and l: "l \<le> n" "tops b1 b2 l" "l = 0 \<longrightarrow> (\<forall>s. feed_volume A2 s (best_of b1 s) = feed_volume A1 s (best_of b1 s))"
    using assms unfolding quiet_def by blast
  have "best_of b1 = best_of b" if "k = 0" using k(2) that by (simp add: tops_def fun_eq_iff best_of_def split: Side.split)
  then show ?thesis unfolding quiet_def using k l tops_trans [OF k(2) l(2)] by (intro exI [of _ "k + l"]) auto
qed

lemma quiet_upd [simp]:
  "quiet b A (b'\<lparr>bb_orders := m\<rparr>) A' n = quiet b A b' A' n" "quiet b A (b'\<lparr>bb_own := i\<rparr>) A' n = quiet b A b' A' n"
  by (simp_all add: quiet_def)

lemma quiet_upd_left [simp]: "quiet (b\<lparr>bb_orders := m\<rparr>) A b' A' n = quiet b A b' A' n"
proof -
  have "best_of (b\<lparr>bb_orders := m\<rparr>) = best_of b" by (simp add: fun_eq_iff best_of_def split: Side.split)
  then show ?thesis by (simp add: quiet_def)
qed

lemma quiet_anchor: "quiet b A (BookBuilder_anchor p tr b) A (Suc (length (fm_list (bb_orders b))))"
  using tops_anchor [of b p tr] by (auto simp: quiet_def)

lemma price_not_best:
  assumes "book_inv b A" and "0 \<le> p" and "BookBuilder_inBand p b \<longrightarrow> p \<noteq> best_of b s"
  shows "p \<noteq> best_of b s"
  using top_exact [OF assms(1), of s] assms(2,3) by (auto simp: shows_best_def kNoPrice_def split: if_splits)

lemma quiet_less:
  assumes inv: "book_inv b A" and r: "A ref = Some (order_view r)" and q: "unat q \<le> unat (Resting_shares r)"
  shows "quiet b A (if \<not> Resting_own r then BookBuilder_removeShares (Resting_side r) (r_price r) q b else b) (feed_less ref (unat q) A) 1"
proof -
  have f: "finite (dom A)" and p: "0 \<le> r_price r" using book_invD(4) [OF inv] r by (auto simp: tame_def) force
  note v = volume_less [OF f r, of "unat q"]
  obtain k where k: "k \<le> 1" "tops b (BookBuilder_removeShares (Resting_side r) (r_price r) q b) k"
    "k = 0 \<longrightarrow> BookBuilder_inBand (r_price r) b \<longrightarrow> r_price r \<noteq> best_of b (Resting_side r)"
    using tops_removeShares [of b "Resting_side r" "r_price r" q] by blast
  then have "k = 0 \<Longrightarrow> r_price r \<noteq> best_of b (Resting_side r)" using price_not_best [OF inv p] by blast
  then have "quiet b A (BookBuilder_removeShares (Resting_side r) (r_price r) q b) (feed_less ref (unat q) A) 1" if "\<not> Resting_own r"
    unfolding quiet_def using k v q that by (intro exI [of _ k]) auto
  moreover have "quiet b A b (feed_less ref (unat q) A) 1" if "Resting_own r"
    unfolding quiet_def using v q that tops_refl by (intro exI [of _ 0]) auto
  ultimately show ?thesis by simp
qed

lemma quiet_insert:
  fixes q :: Quantity and s :: Side and own :: bool
  assumes inv: "book_inv b A" and k: "A ref = None" and p: "0 \<le> p"
  defines "b2 \<equiv> BookBuilder_put ref (Resting_make p q s own) b"
  shows "quiet b A (if own then b2\<lparr>bb_own := bb_own b2 + 1\<rparr> else BookBuilder_addShares s p q b2)
    (A(ref \<mapsto> \<lparr>fo_side = s, fo_price = p, fo_shares = unat q, fo_own = own\<rparr>)) 1"
proof -
  let ?A = "A(ref \<mapsto> \<lparr>fo_side = s, fo_price = p, fo_shares = unat q, fo_own = own\<rparr>)"
  have f: "finite (dom A)" using book_invD(5) [OF inv] .
  note v = volume_insert [OF f, of ref] 
  have b2: "tops b b2 0" "best_of b2 = best_of b" "BookBuilder_inBand p b2 = BookBuilder_inBand p b"
    using tops_refl [of b] geometry_cong(2) [of b2 b] by (simp_all add: b2_def BookBuilder_put_def fun_eq_iff best_of_def split: Side.split)
  obtain j where j: "j \<le> 1" "tops b2 (BookBuilder_addShares s p q b2) j" "j = 0 \<longrightarrow> BookBuilder_inBand p b2 \<longrightarrow> p \<noteq> best_of b2 s"
    using tops_addShares [of b2 s p q] by blast
  have "j = 0 \<Longrightarrow> p \<noteq> best_of b s" using j(3) b2 price_not_best [OF inv p] by auto
  then have "quiet b A (BookBuilder_addShares s p q b2) ?A 1" if "\<not> own"
    unfolding quiet_def using j tops_trans [OF b2(1) j(2)] v k that by (intro exI [of _ j]) auto
  moreover have "quiet b A b2 ?A 1" if own
    unfolding quiet_def using b2(1) v k that by (intro exI [of _ 0]) auto
  ultimately show ?thesis by simp
qed

lemma quiet_reduceOrder:
  assumes inv: "book_inv b A" and ref: "ref \<noteq> 0"
  shows "quiet b A (BookBuilder_reduceOrder ref q trade b) (feed_less ref (unat q) A) (length (fm_list (bb_orders b)) + 2)"
proof (cases "FlatHashMap_find ref (bb_orders b)")
  case None
  then have "A ref = None" using book_invD(3) [OF inv] fmap.find_None [OF book_invD(2) [OF inv] ref] book_orders_None [of b ref] by auto
  then show ?thesis using None quiet_refl by (simp add: BookBuilder_reduceOrder_def feed_less_def)
next
  case (Some i)
  define r where "r = FlatHashMap_at i (bb_orders b)"
  define b1 where "b1 = (if trade \<and> BookBuilder_needsAnchor (r_price r) b then BookBuilder_anchor (r_price r) True b else b)"
  define gone where "gone = (if q < Resting_shares r then q else Resting_shares r)"
  define b2 where "b2 = (if \<not> Resting_own r then BookBuilder_removeShares (Resting_side r) (r_price r) gone b1 else b1)"
  note d = book_invD [OF inv]
  have r: "A ref = Some (order_view r)" using fmap.find_Some [OF d(2) ref Some] d(3) by (auto simp: book_orders_def r_def)
  have i1: "book_inv b1 A" using book_anchor(1) [OF inv, of "r_price r" True] d(9) [OF r] inv by (simp add: b1_def)
  have "quiet b A b1 A (Suc (length (fm_list (bb_orders b))))" using quiet_anchor quiet_refl by (simp add: b1_def)
  moreover have "unat gone \<le> unat (Resting_shares r)" by (simp add: gone_def word_less_nat_alt)
  then have "quiet b1 A b2 (feed_less ref (unat gone) A) 1" using quiet_less [OF i1 r] by (simp add: b2_def)
  moreover have "feed_less ref (unat gone) A = feed_less ref (unat q) A" using r by (auto simp: feed_less_def gone_def word_less_nat_alt)
  ultimately have "quiet b A b2 (feed_less ref (unat q) A) (length (fm_list (bb_orders b)) + 2)" using quiet_trans by fastforce
  then show ?thesis
    unfolding BookBuilder_reduceOrder_def Some option.case Let_def r_def [symmetric] b1_def [symmetric] gone_def [symmetric] b2_def [symmetric] by simp
qed

lemma quiet_remove:
  assumes inv: "book_inv b A" and r: "A ref = Some (order_view r)"
  shows "quiet b A (if \<not> Resting_own r then BookBuilder_removeShares (Resting_side r) (r_price r) (Resting_shares r) (b\<lparr>bb_orders := m\<rparr>)
     else b\<lparr>bb_orders := m, bb_own := size_dec (bb_own b)\<rparr>) (A(ref := None)) 1"
proof -
  have e: "feed_less ref (unat (Resting_shares r)) A = A(ref := None)" using less_all [of A ref "order_view r"] r by simp
  obtain k where k: "k \<le> 1" "tops (b\<lparr>bb_orders := m\<rparr>) (BookBuilder_removeShares (Resting_side r) (r_price r) (Resting_shares r) (b\<lparr>bb_orders := m\<rparr>)) k"
    "k = 0 \<longrightarrow> BookBuilder_inBand (r_price r) (b\<lparr>bb_orders := m\<rparr>) \<longrightarrow> r_price r \<noteq> best_of (b\<lparr>bb_orders := m\<rparr>) (Resting_side r)"
    using tops_removeShares by blast
  have "0 \<le> r_price r" using book_invD(4) [OF inv] r by (auto simp: tame_def) force
  moreover have "best_of (b\<lparr>bb_orders := m\<rparr>) = best_of b" by (simp add: fun_eq_iff best_of_def split: Side.split)
  ultimately have "k = 0 \<longrightarrow> r_price r \<noteq> best_of b (Resting_side r)" using price_not_best [OF inv] k(3) by auto
  moreover have v: "\<forall>s. feed_volume (A(ref := None)) s = (if Resting_own r \<or> Resting_side r \<noteq> s then feed_volume A s
      else (feed_volume A s)(r_price r := feed_volume A s (r_price r) - unat (Resting_shares r)))"
    using volume_less [OF book_invD(5) [OF inv] r, of "unat (Resting_shares r)"] e by simp
  ultimately have "quiet b A (BookBuilder_removeShares (Resting_side r) (r_price r) (Resting_shares r) (b\<lparr>bb_orders := m\<rparr>)) (A(ref := None)) 1"
    if "\<not> Resting_own r"
    unfolding quiet_def using k(1,2) that by (intro exI [of _ k]) auto
  moreover have "quiet b A b (A(ref := None)) 1" if "Resting_own r"
    unfolding quiet_def using v tops_refl that by (intro exI [of _ 0]) auto
  ultimately show ?thesis by simp
qed

lemma quiet_removeOrder:
  assumes "book_inv b A" and "ref \<noteq> 0"
  shows "quiet b A (BookBuilder_removeOrder ref b) (A(ref := None)) 1"
proof -
  note d = book_invD [OF assms(1)]
  obtain m where m: "FlatHashMap_take ref (bb_orders b) = (fm_map (bb_orders b) ref, m)" using take_correct [OF d(2) assms(2)] by blast
  show ?thesis
  proof (cases "fm_map (bb_orders b) ref")
    case None
    then have "A(ref := None) = A" using d(3) by (auto simp: book_orders_def)
    then show ?thesis using None m quiet_refl by (simp add: BookBuilder_removeOrder_def)
  next
    case (Some r)
    then have "A ref = Some (order_view r)" using d(3) by (auto simp: book_orders_def)
    from quiet_remove [OF assms(1) this, of m] show ?thesis using m Some by (cases "Resting_own r") (simp_all add: BookBuilder_removeOrder_def Let_def)
  qed
qed

lemma quiet_onAddOrder:
  assumes inv: "book_inv b A" and leg: "feed_legal (price_fits b) (FAdd (ao_orderRef m) s (wire_price (ao_price m)) (unat (ao_shares m))) A"
    and s: "s = (if ao_side m = ItchSide_code ISide_Buy then Buy else Sell)"
  shows "quiet b A (BookBuilder_onAddOrder m b) (feed_spec (bb_ownRefMin b) (FAdd (ao_orderRef m) s (wire_price (ao_price m)) (unat (ao_shares m))) A)
    (length (fm_list (bb_orders b)) + 2)"
proof (cases "ao_shares m = 0")
  case True
  then show ?thesis using quiet_refl by (simp add: BookBuilder_onAddOrder_def)
next
  case False
  define p where "p = wire_price (ao_price m)"
  define b1 where "b1 = (if \<not> bb_anchored b then BookBuilder_anchor p False b else b)"
  have l: "A (ao_orderRef m) = None" "price_fits b p" "0 \<le> p" using leg by (auto simp: p_def price_fits_def)
  have i1: "book_inv b1 A" using book_anchor(1) [OF inv l(2)] inv by (simp add: b1_def)
  have "quiet b A b1 A (Suc (length (fm_list (bb_orders b))))" using quiet_anchor quiet_refl by (simp add: b1_def)
  note q = quiet_trans [OF this quiet_insert [OF i1 l(1,3), of "owned (bb_ownRefMin b) (ao_orderRef m)" "ao_shares m" s]]
  have "unat (ao_shares m) \<noteq> 0" using False by (simp add: unat_eq_zero)
  with q False show ?thesis
    unfolding BookBuilder_onAddOrder_def Let_def p_def [symmetric] b1_def [symmetric] s [symmetric] owned_def [symmetric]
    by (simp add: p_def [symmetric] owned_def)
qed

lemma quiet_onOrderReplace:
  assumes inv: "book_inv b A"
    and leg: "feed_legal (price_fits b) (FReplace (orp_origOrderRef m) (orp_newOrderRef m) (wire_price (orp_price m)) (unat (orp_shares m))) A"
  shows "quiet b A (BookBuilder_onOrderReplace m b)
      (feed_spec own (FReplace (orp_origOrderRef m) (orp_newOrderRef m) (wire_price (orp_price m)) (unat (orp_shares m))) A) 2"
proof -
  define old new p q where "old = orp_origOrderRef m" and "new = orp_newOrderRef m" and "p = wire_price (orp_price m)" and "q = orp_shares m"
  note d = book_invD [OF inv] and defs = old_def new_def p_def q_def
  have l: "old \<noteq> 0" "new = old \<or> A new = None" "0 \<le> p" using leg by (simp_all add: defs price_fits_def)
  obtain mm where mm: "FlatHashMap_take old (bb_orders b) = (fm_map (bb_orders b) old, mm)" "fm_inv mm" "fm_map mm = (fm_map (bb_orders b))(old := None)"
    using take_correct [OF d(2) l(1)] by blast
  show ?thesis
  proof (cases "fm_map (bb_orders b) old")
    case None
    then have "A old = None" using d(3) by (auto simp: book_orders_def)
    then show ?thesis using None mm quiet_refl by (simp add: BookBuilder_onOrderReplace_def defs)
  next
    case (Some r)
    then have r: "A old = Some (order_view r)" using d(3) by (auto simp: book_orders_def)
    define b2 where "b2 = (if \<not> Resting_own r then BookBuilder_removeShares (Resting_side r) (r_price r) (Resting_shares r) (b\<lparr>bb_orders := mm\<rparr>)
       else b\<lparr>bb_orders := mm, bb_own := size_dec (bb_own b)\<rparr>)"
    have i2: "book_inv b2 (A(old := None))" using book_remove [OF inv r mm(2,3)] by (simp add: b2_def)
    have q2: "quiet b A b2 (A(old := None)) 1" using quiet_remove [OF inv r, of mm] unfolding b2_def .
    have u: "BookBuilder_onOrderReplace m b = (if q = 0 then b2 else
        let b3 = BookBuilder_put new (Resting_make p q (Resting_side r) (Resting_own r)) b2
        in if Resting_own r then b3\<lparr>bb_own := bb_own b3 + 1\<rparr> else BookBuilder_addShares (Resting_side r) p q b3)"
      using mm(1) Some by (simp add: BookBuilder_onOrderReplace_def Let_def defs b2_def)
    have sp: "feed_spec own (FReplace old new p (unat q)) A = (if q = 0 then A(old := None) else
        (A(old := None))(new \<mapsto> \<lparr>fo_side = Resting_side r, fo_price = p, fo_shares = unat q, fo_own = Resting_own r\<rparr>))"
      using r by (simp add: order_view_def unat_eq_zero)
    have nn: "(A(old := None)) new = None" using l(2) by auto
    have "quiet b A (if Resting_own r then (BookBuilder_put new (Resting_make p q (Resting_side r) (Resting_own r)) b2)\<lparr>bb_own :=
           bb_own (BookBuilder_put new (Resting_make p q (Resting_side r) (Resting_own r)) b2) + 1\<rparr>
         else BookBuilder_addShares (Resting_side r) p q (BookBuilder_put new (Resting_make p q (Resting_side r) (Resting_own r)) b2))
       ((A(old := None))(new \<mapsto> \<lparr>fo_side = Resting_side r, fo_price = p, fo_shares = unat q, fo_own = Resting_own r\<rparr>)) (1 + 1)"
      by (rule quiet_trans [OF q2 quiet_insert [OF i2 nn l(3)]])
    then show ?thesis unfolding defs [symmetric] u sp Let_def one_add_one using quiet_mono [OF q2, of 2] by (cases "q = 0") simp_all
  qed
qed

lemma quiet_onTradePrice: "quiet b A (BookBuilder_onTradePrice p b) A (length (fm_list (bb_orders b)) + 2)"
  using quiet_mono [OF quiet_anchor] quiet_refl by (simp add: BookBuilder_onTradePrice_def)

lemma quiet_apply:
  assumes inv: "book_inv b A" and leg: "feed_legal (price_fits b) (feed_of msg) A"
  shows "quiet b A (BookBuilder_apply msg b) (feed_spec (bb_ownRefMin b) (feed_of msg) A) (length (fm_list (bb_orders b)) + 2)"
proof -
  note q = quiet_mono [OF quiet_onOrderReplace [OF inv], of _ "length (fm_list (bb_orders b)) + 2"]
    quiet_mono [OF quiet_removeOrder [OF inv], of _ "length (fm_list (bb_orders b)) + 2"]
  consider (add) "msg \<noteq> [] \<and> (msg ! 0 = 0x41 \<or> msg ! 0 = 0x46)"
    | (reduce) "msg \<noteq> [] \<and> (msg ! 0 = 0x45 \<or> msg ! 0 = 0x43 \<or> msg ! 0 = 0x58)"
    | (trade) "msg \<noteq> [] \<and> (msg ! 0 = 0x50 \<or> msg ! 0 = 0x51)"
    | (delete) "msg \<noteq> [] \<and> (msg ! 0 = 0x44)"
    | (replace) "msg \<noteq> [] \<and> (msg ! 0 = 0x55)"
    | (other) "msg = [] \<or> (msg ! 0 \<noteq> 0x41 \<and> msg ! 0 \<noteq> 0x46 \<and> msg ! 0 \<noteq> 0x45 \<and> msg ! 0 \<noteq> 0x43 \<and> msg ! 0 \<noteq> 0x58 \<and> msg ! 0 \<noteq> 0x50 \<and> msg ! 0 \<noteq> 0x51 \<and> msg ! 0 \<noteq> 0x44 \<and> msg ! 0 \<noteq> 0x55)"
    by blast
  then show ?thesis
  proof cases
    case add
    then show ?thesis using leg quiet_onAddOrder [OF inv, of "dec_AddOrder msg"] quiet_refl
      by (auto simp: BookBuilder_apply_def feed_of_def Let_def split: if_splits)
  next
    case reduce
    then show ?thesis using leg quiet_reduceOrder [OF inv] quiet_refl
      by (elim conjE disjE) (auto simp: BookBuilder_apply_def feed_of_def Let_def split: if_splits)
  next
    case trade
    then show ?thesis using quiet_onTradePrice quiet_refl
      by (elim conjE disjE) (auto simp: BookBuilder_apply_def feed_of_def Let_def)
  next
    case delete
    then show ?thesis using leg q(2) quiet_refl
      by (auto simp: BookBuilder_apply_def feed_of_def Let_def split: if_splits)
  next
    case replace
    then show ?thesis using leg q(1) [of "dec_OrderReplace msg" "bb_ownRefMin b"] quiet_refl
      by (auto simp: BookBuilder_apply_def feed_of_def Let_def split: if_splits)
  next
    case other
    then show ?thesis using quiet_refl by (auto simp: BookBuilder_apply_def feed_of_def Let_def)
  qed
qed

section \<open>Properties\<close>

text \<open>
  C9. After any feed of well-formed messages the book is the one of the orders the feed left resting: the size of every
  price of the band is the sum of the shares resting there, prices outside show nothing and their shares are all
  counted as parked, every order is found with its price and open shares, and the counters of orders and of own orders are right.
  The moves of the band (re-anchoring, shifting, rebuilding) never lose a share.
\<close>

theorem BookBuilder_refines_feed:
  assumes "config_ok cfg" and "book_feed cfg b A"
  shows "(\<forall>s p. unat (BookBuilder_sizeAt s p b) = (if BookBuilder_inBand p b then feed_volume A s p else 0)) \<and>
    unat (bb_parkedShares b) = shares_where (outside b) A \<and>
    (\<forall>ref. ref \<noteq> 0 \<longrightarrow> (unat (BookBuilder_restingShares ref b) = (case A ref of None \<Rightarrow> 0 | Some r \<Rightarrow> fo_shares r) \<and>
      BookBuilder_restingPrice ref b = (case A ref of None \<Rightarrow> kNoPrice | Some r \<Rightarrow> fo_price r))) \<and>
    fm_size (bb_orders b) = card (dom A) \<and> bb_own b = own_count A"
proof -
  have inv: "book_inv b A" using book_feed_inv [OF assms(2,1)] by blast
  note d = book_invD [OF inv]
  have "dom (fm_map (bb_orders b)) = dom A" using d(3) by (auto simp: book_orders_def)
  then show ?thesis using size_exact [OF inv] parked_exact [OF inv] resting_exact [OF inv] fm_size_card [OF d(2)] d(6) by auto
qed

definition demo_config :: BookConfig where
  "demo_config = \<lparr>bc_tickWire = 100, bc_subDollarTickWire = 0, bc_bandTicks = 2, bc_maxBandTicks = 4, bc_byPrice = None, bc_maxOrders = 16,
     bc_ownRefMin = 0, bc_rehashes = False, bc_reanchors = None, bc_rescans = None, bc_anchorPrice = kNoPrice\<rparr>"

definition demo_add :: AddOrder where
  "demo_add = \<lparr>ao_messageType = 0x41, ao_stockLocate = 1, ao_trackingNumber = 0, ao_timestamp = 0, ao_orderRef = 7, ao_side = 0x42,
     ao_shares = 50, ao_stock = replicate 8 0x20, ao_price = 10000\<rparr>"

definition demo_order :: FeedOrder where
  "demo_order = \<lparr>fo_side = Buy, fo_price = 10000, fo_shares = 50, fo_own = False\<rparr>"

definition demo_book :: BookBuilder where
  "demo_book = BookBuilder_apply (enc_AddOrder demo_add) (BookBuilder_new demo_config)"

lemma demo_config_ok: "config_ok demo_config"
  by (simp add: config_ok_def demo_config_def)

lemma demo_feed: "feed_of (enc_AddOrder demo_add) = FAdd 7 Buy 10000 50"
proof -
  have v: "valid_AddOrder demo_add" by (simp add: valid_AddOrder_def demo_add_def)
  have "dec_AddOrder (enc_AddOrder demo_add) = demo_add" "length (enc_AddOrder demo_add) = sizeof_AddOrder"
    using addOrder_wire.dec_enc [OF v, of "[]"] addOrder_wire.length_enc [OF v] by simp_all
  moreover have "enc_AddOrder demo_add \<noteq> []" "enc_AddOrder demo_add ! 0 = 0x41" by (simp_all add: enc_AddOrder_def demo_add_def)
  ultimately show ?thesis by (simp add: feed_of_def) (simp add: demo_add_def wire_price_def ItchSide_code_def)
qed

lemma demo_tame: "tame [7 \<mapsto> demo_order]"
proof -
  have "shares_where P [7 \<mapsto> demo_order] \<le> 50" for P by (simp add: shares_where_insert demo_order_def shares_where_def [of _ Map.empty])
  then have "feed_volume [7 \<mapsto> demo_order] s p < 2 ^ 32" "shares_where P [7 \<mapsto> demo_order] < 2 ^ 64" for s p P
    unfolding feed_volume_def by (rule order_le_less_trans; simp)+
  then show ?thesis by (auto simp: tame_def demo_order_def)
qed

lemma demo_book_feed: "book_feed demo_config demo_book [7 \<mapsto> demo_order]"
proof -
  have o: "feed_spec (bc_ownRefMin demo_config) (FAdd 7 Buy 10000 50) Map.empty = [7 \<mapsto> demo_order]"
    by (simp add: demo_config_def demo_order_def owned_def)
  show ?thesis using book_feed.message [OF book_feed.start, of demo_config "enc_AddOrder demo_add"] demo_tame
    unfolding demo_feed o demo_book_def [symmetric] by (simp add: config_fits_def demo_config_def)
qed

theorem BookBuilder_refines_feed_witness:
  "unat (BookBuilder_restingShares 7 demo_book) = 50 \<and> BookBuilder_restingPrice 7 demo_book = 10000 \<and> fm_size (bb_orders demo_book) = 1 \<and>
   unat (BookBuilder_sizeAt Buy 10000 demo_book) = (if BookBuilder_inBand 10000 demo_book then 50 else 0)"
proof -
  have v: "feed_volume [7 \<mapsto> demo_order] Buy 10000 = 50" by (simp add: feed_volume_def shares_where_def demo_order_def rests_at_def)
  have o: "fo_shares demo_order = 50" "fo_price demo_order = 10000" by (simp_all add: demo_order_def)
  note r = BookBuilder_refines_feed [OF demo_config_ok demo_book_feed]
  have "\<forall>ref. ref \<noteq> 0 \<longrightarrow> (unat (BookBuilder_restingShares ref demo_book) = (case [7 \<mapsto> demo_order] ref of None \<Rightarrow> 0 | Some r \<Rightarrow> fo_shares r) \<and>
      BookBuilder_restingPrice ref demo_book = (case [7 \<mapsto> demo_order] ref of None \<Rightarrow> kNoPrice | Some r \<Rightarrow> fo_price r))" using r by blast
  from this [rule_format, of 7] r v o show ?thesis by simp
qed

text \<open>
  The best bid and the best ask the book shows are the highest bid and the lowest ask with shares among the prices of its
  band, and \<^verbatim>\<open>kNoPrice\<close> exactly when that side of the band is empty.
\<close>

theorem BookBuilder_best_prices:
  assumes "config_ok cfg" and "book_feed cfg b A"
  shows "shows_best Buy (\<lambda>p. BookBuilder_inBand p b) (feed_volume A Buy) (bb_bestBid b) \<and>
    shows_best Sell (\<lambda>p. BookBuilder_inBand p b) (feed_volume A Sell) (bb_bestAsk b)"
  using top_exact [of b A Buy] top_exact [of b A Sell] book_feed_inv [OF assms(2,1)] by (simp add: best_of_def)

theorem BookBuilder_best_prices_witness:
  "shows_best Buy (\<lambda>p. BookBuilder_inBand p demo_book) (feed_volume [7 \<mapsto> demo_order] Buy) (bb_bestBid demo_book)"
  using BookBuilder_best_prices [OF demo_config_ok demo_book_feed] by blast



end
