(* ===== verification/BookTable.thy ===== *)
theory BookTable
  imports BookBuilder
begin

text \<open>
  The table of books of \<^verbatim>\<open>dut/BookTable.hpp\<close> and \<^verbatim>\<open>dut/BookTable.cpp\<close>: one book per symbol, found by the locate code of
  a message, created on demand or from a profile, with the symbols the system trades (hot) and the others (cold).
  A pointer to a book is an index into \<open>bt_storage\<close>, the deque that owns the books: it never moves or removes one, and
  two locate codes may share a book. The vector of entries, indexed by a 16-bit code, is a function.
  The counters that the books share by pointer are the sums of the counters of the books.
\<close>

section \<open>Data\<close>

datatype BookScope = Scope_All | Scope_HotOnly | Scope_ColdOnly

record SymbolProfile =
  sp_name :: "byte list"
  sp_refPrice :: Price
  sp_peakOrders :: u32

text \<open>\<open>btc_byPrice\<close> is the width by price that \<^verbatim>\<open>bandFraction\<close> gives, as in the configuration of a book.\<close>

record BookTableConfig =
  btc_tickWire :: Price
  btc_subDollarTick :: Price
  btc_coldBandTicks :: nat
  btc_hotBandTicks :: nat
  btc_maxBandTicks :: nat
  btc_byPrice :: "(Price \<Rightarrow> Price \<Rightarrow> nat) option"
  btc_coldMapSlots :: nat
  btc_hotMapSlots :: nat
  btc_ownRefMin :: OrderId
  btc_hotSymbols :: "byte list list"
  btc_hotLocates :: "u16 list"
  btc_profiles :: "SymbolProfile list"
  btc_scope :: BookScope

record HotSymbol =
  hs_name :: "byte list"
  hs_book :: "nat option"
  hs_locate :: u16
  hs_resolved :: bool
  hs_trading :: bool

definition HotSymbol_new :: "byte list \<Rightarrow> HotSymbol" where
  "HotSymbol_new name = \<lparr>hs_name = name, hs_book = None, hs_locate = 0, hs_resolved = False, hs_trading = True\<rparr>"

definition kCold :: int where
  "kCold = - 1"

record BookEntry =
  be_book :: "nat option"
  be_hot :: int

record BookTable =
  bt_cfg :: BookTableConfig
  bt_storage :: "BookBuilder list"
  bt_books :: "u16 \<Rightarrow> BookEntry"
  bt_hotBits :: "u64 list"
  bt_empty :: BookBuilder
  bt_hot :: "HotSymbol list"
  bt_byName :: "(byte list \<times> nat) list"
  bt_undirected :: u64
  bt_created :: u64
  bt_epoch :: u32
  bt_live :: u64

text \<open>\<^verbatim>\<open>static_cast<std::int16_t>(i)\<close>.\<close>

definition to_int16 :: "nat \<Rightarrow> int" where
  "to_int16 i = sint (of_nat i :: u16)"

definition entry_upd :: "u16 \<Rightarrow> (BookEntry \<Rightarrow> BookEntry) \<Rightarrow> BookTable \<Rightarrow> BookTable" where
  "entry_upd l f t = t\<lparr>bt_books := (bt_books t)(l := f (bt_books t l))\<rparr>"

definition hot_upd :: "nat \<Rightarrow> (HotSymbol \<Rightarrow> HotSymbol) \<Rightarrow> BookTable \<Rightarrow> BookTable" where
  "hot_upd i f t = t\<lparr>bt_hot := (bt_hot t)[i := f (bt_hot t ! i)]\<rparr>"

definition mark_hot :: "u16 \<Rightarrow> BookTable \<Rightarrow> BookTable" where
  "mark_hot l t =
     (let w = unat (drop_bit 6 l)
      in t\<lparr>bt_hotBits := (bt_hotBits t)[w := bt_hotBits t ! w OR push_bit (unat (l AND 63)) 1]\<rparr>)"

definition BookTable_isHot :: "u16 \<Rightarrow> BookTable \<Rightarrow> bool" where
  "BookTable_isHot l t \<longleftrightarrow> drop_bit (unat (l AND 63)) (bt_hotBits t ! unat (drop_bit 6 l)) AND 1 \<noteq> 0"

definition BookTable_locateOf :: "byte list \<Rightarrow> u16" where
  "BookTable_locateOf msg = push_bit 8 (ucast (msg ! 1)) OR ucast (msg ! 2)"

section \<open>Creating books\<close>

definition BookTable_configFor :: "bool \<Rightarrow> BookTableConfig \<Rightarrow> BookConfig" where
  "BookTable_configFor hot cfg =
     \<lparr>bc_tickWire = btc_tickWire cfg, bc_subDollarTickWire = btc_subDollarTick cfg,
      bc_bandTicks = (if hot then btc_hotBandTicks cfg else btc_coldBandTicks cfg), bc_maxBandTicks = btc_maxBandTicks cfg,
      bc_byPrice = btc_byPrice cfg, bc_maxOrders = (if hot then btc_hotMapSlots cfg else btc_coldMapSlots cfg),
      bc_ownRefMin = btc_ownRefMin cfg, bc_rehashes = True, bc_reanchors = Some 0, bc_rescans = Some 0, bc_anchorPrice = kNoPrice\<rparr>"

definition BookTable_create :: "u16 \<Rightarrow> bool \<Rightarrow> BookTable \<Rightarrow> BookTable" where
  "BookTable_create locate hot t =
     entry_upd locate (\<lambda>e. e\<lparr>be_book := Some (length (bt_storage t))\<rparr>)
       (t\<lparr>bt_storage := bt_storage t @ [BookBuilder_new (BookTable_configFor hot (bt_cfg t))], bt_created := bt_created t + 1\<rparr>)"

text \<open>\<^verbatim>\<open>std::bit_ceil\<close>: the smallest power of two that is not below its argument.\<close>

definition bit_ceil :: "nat \<Rightarrow> nat" where
  "bit_ceil n = 2 ^ length (takeWhile (\<lambda>i. 2 ^ i < n) [0..<64])"

definition profiled_config :: "SymbolProfile \<Rightarrow> bool \<Rightarrow> BookTableConfig \<Rightarrow> BookConfig" where
  "profiled_config p hot cfg =
     (let bc = BookTable_configFor hot cfg;
          want = unat (sp_peakOrders p) * 2;
          bc1 = (if want > bc_maxOrders bc then bc\<lparr>bc_maxOrders := bit_ceil want\<rparr> else bc)
      in if sp_refPrice p > 0 then bc1\<lparr>bc_anchorPrice := sp_refPrice p\<rparr> else bc1)"

definition BookTable_createProfiled :: "SymbolProfile \<Rightarrow> bool \<Rightarrow> BookTable \<Rightarrow> nat \<times> BookTable" where
  "BookTable_createProfiled p hot t =
     (length (bt_storage t),
      t\<lparr>bt_storage := bt_storage t @ [BookBuilder_new (profiled_config p hot (bt_cfg t))], bt_created := bt_created t + 1\<rparr>)"

text \<open>The first symbol with the name.\<close>

definition BookTable_hotIndexByName :: "byte list \<Rightarrow> BookTable \<Rightarrow> int" where
  "BookTable_hotIndexByName name t =
     (case find (\<lambda>i. hs_name (bt_hot t ! i) = name) [0..<length (bt_hot t)] of Some i \<Rightarrow> int i | None \<Rightarrow> kCold)"

definition bind_hot_locate :: "nat \<Rightarrow> BookTable \<Rightarrow> BookTable" where
  "bind_hot_locate i t =
     (let locate = btc_hotLocates (bt_cfg t) ! i;
          t1 = hot_upd i (\<lambda>h. h\<lparr>hs_resolved := True, hs_locate := locate\<rparr>) t;
          t2 = mark_hot locate (entry_upd locate (\<lambda>e. e\<lparr>be_hot := to_int16 i\<rparr>) t1);
          t3 = (if be_book (bt_books t2 locate) = None then BookTable_create locate True t2 else t2)
      in hot_upd i (\<lambda>h. h\<lparr>hs_book := be_book (bt_books t3 locate)\<rparr>) t3)"

definition add_profile :: "SymbolProfile \<Rightarrow> BookTable \<Rightarrow> BookTable" where
  "add_profile p t =
     (if sp_name p = [] \<or> map_of (bt_byName t) (sp_name p) \<noteq> None then t
      else
        let h = BookTable_hotIndexByName (sp_name p) t in
        if (btc_scope (bt_cfg t) = Scope_HotOnly \<and> h = kCold) \<or> (btc_scope (bt_cfg t) = Scope_ColdOnly \<and> h \<noteq> kCold) then t
        else
          let (b, t1) = BookTable_createProfiled p (h \<noteq> kCold) t;
              t2 = t1\<lparr>bt_byName := (sp_name p, b) # bt_byName t1\<rparr>
          in if h \<noteq> kCold \<and> hs_book (bt_hot t2 ! nat h) = None then hot_upd (nat h) (\<lambda>s. s\<lparr>hs_book := Some b\<rparr>) t2 else t2)"

definition empty_config :: "Price \<Rightarrow> BookConfig" where
  "empty_config tick =
     \<lparr>bc_tickWire = tick, bc_subDollarTickWire = 0, bc_bandTicks = 1, bc_maxBandTicks = 2 ^ 16, bc_byPrice = None, bc_maxOrders = 16,
      bc_ownRefMin = 0, bc_rehashes = False, bc_reanchors = None, bc_rescans = None, bc_anchorPrice = kNoPrice\<rparr>"

definition BookTable_new :: "BookTableConfig \<Rightarrow> BookTable" where
  "BookTable_new cfg =
     (let t = \<lparr>bt_cfg = cfg, bt_storage = [], bt_books = (\<lambda>_. \<lparr>be_book = None, be_hot = kCold\<rparr>), bt_hotBits = replicate 1024 0,
               bt_empty = BookBuilder_new (empty_config (btc_tickWire cfg)), bt_hot = map HotSymbol_new (btc_hotSymbols cfg),
               bt_byName = [], bt_undirected = 0, bt_created = 0, bt_epoch = 0, bt_live = 0\<rparr>;
          t1 = fold bind_hot_locate [0..<min (length (bt_hot t)) (length (btc_hotLocates cfg))] t
      in fold add_profile (btc_profiles cfg) t1)"

section \<open>Messages\<close>

definition resolve_hot :: "u16 \<Rightarrow> nat \<Rightarrow> BookTable \<Rightarrow> BookTable" where
  "resolve_hot locate i t =
     (let t1 = hot_upd i (\<lambda>h. h\<lparr>hs_resolved := True, hs_locate := locate\<rparr>) t;
          t2 = mark_hot locate (entry_upd locate (\<lambda>e. e\<lparr>be_hot := to_int16 i\<rparr>) t1)
      in if btc_scope (bt_cfg t2) = Scope_ColdOnly then t2
         else
           let t3 = (if be_book (bt_books t2 locate) = None then BookTable_create locate True t2 else t2)
           in hot_upd i (\<lambda>h. h\<lparr>hs_book := be_book (bt_books t3 locate)\<rparr>) t3)"

definition BookTable_onDirectory :: "byte list \<Rightarrow> u16 \<Rightarrow> BookTable \<Rightarrow> BookTable" where
  "BookTable_onDirectory msg locate t =
     (if length msg < sizeof_StockDirectory then t
      else
        let name = alpha_view (sd_stock (dec_StockDirectory msg));
            t1 = (if be_book (bt_books t locate) = None then
                    case map_of (bt_byName t) name of Some b \<Rightarrow> entry_upd locate (\<lambda>e. e\<lparr>be_book := Some b\<rparr>) t | None \<Rightarrow> t
                  else t);
            cold = (if be_book (bt_books t1 locate) = None \<and> btc_scope (bt_cfg t1) \<noteq> Scope_HotOnly then BookTable_create locate False t1 else t1)
        in if be_hot (bt_books t1 locate) = kCold then
             case find (\<lambda>i. \<not> hs_resolved (bt_hot t1 ! i) \<and> hs_name (bt_hot t1 ! i) = name) [0..<length (bt_hot t1)] of
               Some i \<Rightarrow> resolve_hot locate i t1
             | None \<Rightarrow> cold
           else cold)"

text \<open>A book that missed a reset is cleared before its next message.\<close>

definition fresh_book :: "u32 \<Rightarrow> BookBuilder \<Rightarrow> BookBuilder" where
  "fresh_book epoch b = (if bb_epoch b \<noteq> epoch then BookBuilder_setEpoch epoch (BookBuilder_clear b) else b)"

definition BookBuilder_liveOrders :: "BookBuilder \<Rightarrow> nat" where
  "BookBuilder_liveOrders b = fm_size (bb_orders b)"

definition apply_to_book :: "byte list \<Rightarrow> nat \<Rightarrow> BookTable \<Rightarrow> BookTable" where
  "apply_to_book msg k t =
     (let b = fresh_book (bt_epoch t) (bt_storage t ! k);
          b' = BookBuilder_apply msg b
      in t\<lparr>bt_storage := (bt_storage t)[k := b'],
           bt_live := bt_live t + (of_nat (BookBuilder_liveOrders b') - of_nat (BookBuilder_liveOrders b))\<rparr>)"

definition BookTable_apply :: "byte list \<Rightarrow> BookTable \<Rightarrow> int \<times> BookTable" where
  "BookTable_apply msg t =
     (let locate = BookTable_locateOf msg; ty = msg ! 0 in
      if ty = 0x52 then
        let t1 = BookTable_onDirectory msg locate t in (be_hot (bt_books t1 locate), t1)
      else
        let e = bt_books t locate in
        if be_book e = None \<and> btc_scope (bt_cfg t) = Scope_HotOnly \<and> be_hot e = kCold then (kCold, t)
        else if be_book e = None \<and> btc_scope (bt_cfg t) = Scope_ColdOnly \<and> be_hot e \<noteq> kCold then (be_hot e, t)
        else
          let t1 = (if be_book e = None then BookTable_create locate (be_hot e \<noteq> kCold) (t\<lparr>bt_undirected := bt_undirected t + 1\<rparr>) else t);
              h = be_hot e
          in if ty = 0x48 then
               (h, if h \<noteq> kCold \<and> length msg \<ge> sizeof_StockTradingAction then
                     hot_upd (nat h)
                       (\<lambda>s. s\<lparr>hs_trading := sta_tradingState (dec_StockTradingAction msg) = TradingState_code Ts_Trading\<rparr>) t1
                   else t1)
             else
               case be_book (bt_books t1 locate) of
                 None \<Rightarrow> (h, t1)
               | Some k \<Rightarrow> (h, apply_to_book msg k t1))"

definition clear_hot :: "nat \<Rightarrow> BookTable \<Rightarrow> BookTable" where
  "clear_hot i t =
     (let t1 = hot_upd i (\<lambda>h. h\<lparr>hs_trading := True\<rparr>) t
      in case hs_book (bt_hot t1 ! i) of
           None \<Rightarrow> t1
         | Some k \<Rightarrow> t1\<lparr>bt_storage := (bt_storage t1)[k := BookBuilder_setEpoch (bt_epoch t1) (BookBuilder_clear (bt_storage t1 ! k))]\<rparr>)"

definition BookTable_clearAll :: "BookTable \<Rightarrow> BookTable" where
  "BookTable_clearAll t = fold clear_hot [0..<length (bt_hot t)] (t\<lparr>bt_epoch := bt_epoch t + 1, bt_live := 0\<rparr>)"

section \<open>Queries\<close>

definition BookTable_hotBook :: "nat \<Rightarrow> BookTable \<Rightarrow> BookBuilder" where
  "BookTable_hotBook i t = (case hs_book (bt_hot t ! i) of None \<Rightarrow> bt_empty t | Some k \<Rightarrow> bt_storage t ! k)"

definition BookTable_book :: "u16 \<Rightarrow> BookTable \<Rightarrow> BookBuilder option" where
  "BookTable_book locate t = map_option ((!) (bt_storage t)) (be_book (bt_books t locate))"

definition BookTable_bookByName :: "byte list \<Rightarrow> BookTable \<Rightarrow> BookBuilder option" where
  "BookTable_bookByName name t = map_option ((!) (bt_storage t)) (map_of (bt_byName t) name)"

definition BookTable_hotCount :: "BookTable \<Rightarrow> nat" where
  "BookTable_hotCount t = length (bt_hot t)"

definition BookTable_hotIndexOf :: "u16 \<Rightarrow> BookTable \<Rightarrow> int" where
  "BookTable_hotIndexOf locate t = be_hot (bt_books t locate)"

definition BookTable_symbols :: "BookTable \<Rightarrow> nat" where
  "BookTable_symbols t = length (bt_storage t)"

definition BookTable_profiled :: "BookTable \<Rightarrow> nat" where
  "BookTable_profiled t = length (bt_byName t)"

definition counter :: "u64 option \<Rightarrow> u64" where
  "counter c = (case c of None \<Rightarrow> 0 | Some n \<Rightarrow> n)"

definition BookTable_rehashes :: "BookTable \<Rightarrow> u64" where
  "BookTable_rehashes t = sum_list (map (\<lambda>b. counter (fm_grows (bb_orders b))) (bt_storage t))"

definition BookTable_reanchors :: "BookTable \<Rightarrow> u64" where
  "BookTable_reanchors t = sum_list (map (\<lambda>b. counter (bb_reanchorsOut b)) (bt_storage t))"

definition BookTable_rescans :: "BookTable \<Rightarrow> u64" where
  "BookTable_rescans t = sum_list (map (\<lambda>b. counter (bb_rescansOut b)) (bt_storage t))"

text \<open>What \<^verbatim>\<open>prefetchHotOrders\<close> returns; its prefetches have no effect on the state.\<close>

definition BookTable_prefetchHotOrders :: "byte list \<Rightarrow> BookTable \<Rightarrow> int" where
  "BookTable_prefetchHotOrders msg t =
     (if length msg < sizeof_OrderDelete then kCold
      else
        let locate = BookTable_locateOf msg
        in if \<not> BookTable_isHot locate t then kCold else be_hot (bt_books t locate))"

end
