(* ===== verification/BookTableProps.thy ===== *)
theory BookTableProps
  imports BookBuilderProps BookTable
begin

text \<open>
  Correctness of the table of books: every book holds the orders its messages left since the last reset, although a reset touches
  the hot books only and the others are cleared when their next message arrives; the count of live orders and the
  marks of hot symbols are right.
\<close>

section \<open>Epochs\<close>

lemma epoch_levels [frame_simps]:
  "bb_epoch (BookBuilder_park p q b) = bb_epoch b" "bb_epoch (BookBuilder_unpark q b) = bb_epoch b"
  "bb_epoch (BookBuilder_addLevel s p q b) = bb_epoch b" "bb_epoch (BookBuilder_addShares s p q b) = bb_epoch b"
  "bb_epoch (BookBuilder_removeShares s p q b) = bb_epoch b" "bb_epoch (rebuild_order ref r b) = bb_epoch b"
  "bb_epoch (BookBuilder_put ref r b) = bb_epoch b" "bb_epoch (BookBuilder_recomputeBest b) = bb_epoch b"
  by (simp_all add: BookBuilder_park_def BookBuilder_unpark_def BookBuilder_addLevel_def BookBuilder_addShares_def BookBuilder_removeShares_def
      BookBuilder_rescanBestBid_def BookBuilder_rescanBestAsk_def count_rescan_def rebuild_order_def BookBuilder_put_def
      BookBuilder_recomputeBest_def Let_def)

lemma fold_epoch: "(\<And>x b. bb_epoch (f x b) = bb_epoch b) \<Longrightarrow> bb_epoch (fold f xs b) = bb_epoch b"
  by (induction xs arbitrary: b) simp_all

lemma epoch_anchor [frame_simps]: "bb_epoch (BookBuilder_anchor p tr b) = bb_epoch b"
proof -
  have s: "bb_epoch (snd (BookBuilder_shiftLevels l lo hi b)) = bb_epoch b" for l lo hi b
    unfolding BookBuilder_shiftLevels_def Let_def case_prod_beta snd_conv by (rule fold_epoch) (simp add: epoch_levels)
  have r: "bb_epoch (BookBuilder_rebuildBits b) = bb_epoch b" for b
    unfolding BookBuilder_rebuildBits_def by (subst fold_epoch) simp_all
  have l: "bb_epoch (BookBuilder_rebuildLevels b) = bb_epoch b" for b
    unfolding BookBuilder_rebuildLevels_def forEach_fold by (subst fold_epoch) (simp_all add: epoch_levels)
  show ?thesis
    unfolding BookBuilder_anchor_def Let_def case_prod_beta by (simp add: epoch_levels s r l)
qed

lemma epoch_apply [frame_simps]: "bb_epoch (BookBuilder_apply msg b) = bb_epoch b"
proof -
  have a: "bb_epoch (BookBuilder_onAddOrder m b) = bb_epoch b" for m by (simp add: BookBuilder_onAddOrder_def Let_def frame_simps)
  have u: "bb_epoch (BookBuilder_onOrderReplace m b) = bb_epoch b" for m
    by (simp add: BookBuilder_onOrderReplace_def Let_def frame_simps split: prod.split option.split)
  have r: "bb_epoch (BookBuilder_reduceOrder ref q tr b) = bb_epoch b" for ref q tr
    by (simp add: BookBuilder_reduceOrder_def Let_def frame_simps split: option.split)
  have d: "bb_epoch (BookBuilder_removeOrder ref b) = bb_epoch b" for ref
    by (simp add: BookBuilder_removeOrder_def Let_def frame_simps split: prod.split option.split)
  have t: "bb_epoch (BookBuilder_onTradePrice p b) = bb_epoch b" for p by (simp add: BookBuilder_onTradePrice_def frame_simps)
  show ?thesis by (simp add: BookBuilder_apply_def Let_def a u r d t)
qed

lemma epoch_new [simp]: "bb_epoch (BookBuilder_new cfg) = 0"
  by (simp add: BookBuilder_new_def Let_def epoch_anchor)

section \<open>What a book of the table holds\<close>

definition table_fits :: "BookTableConfig \<Rightarrow> Price \<Rightarrow> bool" where
  "table_fits cfg p \<longleftrightarrow> 0 \<le> p \<and> p + 2 * (int (btc_maxBandTicks cfg) * max (btc_tickWire cfg) (btc_subDollarTick cfg)) < 2 ^ 31"

definition table_config_ok :: "BookTableConfig \<Rightarrow> bool" where
  "table_config_ok cfg \<longleftrightarrow> 0 < btc_tickWire cfg \<and> 0 \<le> btc_subDollarTick cfg \<and> btc_maxBandTicks cfg \<noteq> 0 \<and>
     list_all (\<lambda>p. sp_refPrice p > 0 \<longrightarrow> table_fits cfg (sp_refPrice p)) (btc_profiles cfg)"

definition book_fits :: "BookTableConfig \<Rightarrow> BookBuilder \<Rightarrow> bool" where
  "book_fits cfg b \<longleftrightarrow> price_fits b = table_fits cfg \<and> bb_ownRefMin b = btc_ownRefMin cfg"

text \<open>The book holds \<open>A\<close> for the table: its own orders when it has seen the last reset, no orders otherwise.\<close>

definition book_holds :: "BookTableConfig \<Rightarrow> nat \<Rightarrow> BookBuilder \<Rightarrow> orders \<Rightarrow> bool" where
  "book_holds cfg n b A \<longleftrightarrow> book_fits cfg b \<and> unat (bb_epoch b) \<le> n \<and> (\<exists>B. book_inv b B \<and> A = (if unat (bb_epoch b) = n then B else Map.empty))"

lemma fits_settings: "settings b' = settings b \<Longrightarrow> book_fits cfg b' = book_fits cfg b"
  using settings_cong(2) [of b' b] by (simp add: book_fits_def settings_def)

lemma setEpoch_inv [simp]: "book_inv (BookBuilder_setEpoch e b) A = book_inv b A" "bb_epoch (BookBuilder_setEpoch e b) = e"
  "settings (BookBuilder_setEpoch e b) = settings b"
  by (auto simp: BookBuilder_setEpoch_def book_inv_def settings_def settings_ok_def price_fits_def untouched_def book_orders_def fun_eq_iff)

lemma fresh_holds:
  assumes "book_holds cfg n b A" and "n < 2 ^ 32"
  shows "book_inv (fresh_book (of_nat n) b) A \<and> book_fits cfg (fresh_book (of_nat n) b) \<and> unat (bb_epoch (fresh_book (of_nat n) b)) = n"
proof -
  have n: "unat (of_nat n :: u32) = n" using assms(2) by (simp add: unsigned_of_nat take_bit_eq_mod)
  obtain B where B: "book_inv b B" "A = (if unat (bb_epoch b) = n then B else Map.empty)" using assms(1) by (auto simp: book_holds_def)
  have "bb_epoch b = of_nat n \<longleftrightarrow> unat (bb_epoch b) = n" using n by (metis word_unat_eq_iff)
  moreover have f: "book_fits cfg b" using assms(1) by (simp add: book_holds_def)
  have "book_fits cfg (BookBuilder_setEpoch (of_nat n) (BookBuilder_clear b))"
    using f book_clear [OF B(1)] fits_settings [of "BookBuilder_setEpoch (of_nat n) (BookBuilder_clear b)" b] by simp
  ultimately show ?thesis using B book_clear [OF B(1)] n f by (auto simp: fresh_book_def)
qed

lemma book_holds_new:
  assumes "table_config_ok cfg" and "bc_tickWire c = btc_tickWire cfg" "bc_subDollarTickWire c = btc_subDollarTick cfg"
    "bc_maxBandTicks c = btc_maxBandTicks cfg" "bc_ownRefMin c = btc_ownRefMin cfg" "bc_anchorPrice c = kNoPrice \<or> table_fits cfg (bc_anchorPrice c)"
  shows "book_holds cfg n (BookBuilder_new c) Map.empty \<and> book_inv (BookBuilder_new c) Map.empty"
proof -
  have "config_ok c" using assms by (simp add: config_ok_def table_config_ok_def config_fits_def table_fits_def)
  note b = book_new [OF this]
  have "book_fits cfg (BookBuilder_new c)" using fits_config [of "BookBuilder_new c" c] b assms
    by (simp add: book_fits_def fun_eq_iff config_fits_def table_fits_def)
  then show ?thesis using b by (auto simp: book_holds_def)
qed

lemma configFor_new: "table_config_ok cfg \<Longrightarrow> book_holds cfg n (BookBuilder_new (BookTable_configFor hot cfg)) Map.empty \<and>
    book_inv (BookBuilder_new (BookTable_configFor hot cfg)) Map.empty"
  by (rule book_holds_new) (simp_all add: BookTable_configFor_def)

lemma profiled_new:
  assumes "table_config_ok cfg" and "p \<in> set (btc_profiles cfg)"
  shows "book_holds cfg n (BookBuilder_new (profiled_config p hot cfg)) Map.empty \<and> book_inv (BookBuilder_new (profiled_config p hot cfg)) Map.empty"
  by (rule book_holds_new [OF assms(1)])
    (use assms in \<open>auto simp: profiled_config_def BookTable_configFor_def Let_def table_config_ok_def list_all_iff\<close>)

section \<open>The invariant of the table\<close>

type_synonym shelf = "nat \<Rightarrow> orders"

definition table_inv :: "nat \<Rightarrow> BookTable \<Rightarrow> shelf \<Rightarrow> bool" where
  "table_inv n t V \<longleftrightarrow> bt_epoch t = of_nat n \<and>
     (\<forall>k < length (bt_storage t). book_holds (bt_cfg t) n (bt_storage t ! k) (V k)) \<and>
     (\<forall>k \<ge> length (bt_storage t). V k = Map.empty) \<and>
     (\<forall>l k. be_book (bt_books t l) = Some k \<longrightarrow> k < length (bt_storage t)) \<and>
     (\<forall>x \<in> set (bt_byName t). snd x < length (bt_storage t)) \<and>
     (\<forall>h \<in> set (bt_hot t). \<forall>k. hs_book h = Some k \<longrightarrow> k < length (bt_storage t) \<and> book_inv (bt_storage t ! k) (V k)) \<and>
     bt_live t = of_nat (\<Sum>k<length (bt_storage t). card (dom (V k)))"

lemma table_inv_undirected [simp]: "table_inv n (t\<lparr>bt_undirected := x\<rparr>) V = table_inv n t V" "table_inv n (mark_hot l t) V = table_inv n t V"
  by (simp_all add: table_inv_def mark_hot_def Let_def)

lemma table_inv_entry:
  assumes "table_inv n t V" and "\<And>k. be_book (f (bt_books t l)) = Some k \<Longrightarrow> k < length (bt_storage t)"
  shows "table_inv n (entry_upd l f t) V"
  using assms by (simp add: table_inv_def entry_upd_def)

lemma table_inv_hot:
  assumes "table_inv n t V"
    and "\<And>k. i < length (bt_hot t) \<Longrightarrow> hs_book (f (bt_hot t ! i)) = Some k \<Longrightarrow> k < length (bt_storage t) \<and> book_inv (bt_storage t ! k) (V k)"
  shows "table_inv n (hot_upd i f t) V"
proof -
  have "k < length (bt_storage t) \<and> book_inv (bt_storage t ! k) (V k)" if "h \<in> set ((bt_hot t)[i := f (bt_hot t ! i)])" "hs_book h = Some k" for h k
  proof (cases "i < length (bt_hot t)")
    case True
    then have "h \<in> set (bt_hot t) \<or> h = f (bt_hot t ! i)" using that(1) set_update_subset_insert [of "bt_hot t" i "f (bt_hot t ! i)"] by auto
    then show ?thesis using assms that(2) True by (auto simp: table_inv_def)
  qed (use assms(1) that in \<open>auto simp: table_inv_def list_update_beyond\<close>)
  then show ?thesis using assms(1) by (simp add: table_inv_def hot_upd_def)
qed

lemma table_inv_hot_same:
  assumes "table_inv n t V" and "\<And>h. hs_book (f h) = hs_book h"
  shows "table_inv n (hot_upd i f t) V"
  by (rule table_inv_hot [OF assms(1)]) (use assms in \<open>auto simp: table_inv_def\<close>)

text \<open>A new book at the end of the storage.\<close>

lemma table_inv_push:
  assumes "table_inv n t V" and "book_holds (bt_cfg t) n b Map.empty"
  shows "table_inv n (t\<lparr>bt_storage := bt_storage t @ [b], bt_created := c\<rparr>) V"
proof -
  have v: "V (length (bt_storage t)) = Map.empty" using assms(1) by (simp add: table_inv_def)
  have "book_holds (bt_cfg t) n ((bt_storage t @ [b]) ! k) (V k)" if "k < Suc (length (bt_storage t))" for k
    using assms v that by (cases "k = length (bt_storage t)") (auto simp: table_inv_def nth_append)
  then show ?thesis using assms v by (auto simp: table_inv_def nth_append less_Suc_eq)
qed

lemma table_inv_create:
  assumes "table_inv n t V" and "table_config_ok (bt_cfg t)"
  shows "table_inv n (BookTable_create l hot t) V"
  unfolding BookTable_create_def
  by (rule table_inv_entry [OF table_inv_push]) (use assms configFor_new in auto)

lemma create_fields [simp]:
  "bt_cfg (BookTable_create l hot t) = bt_cfg t" "bt_hot (BookTable_create l hot t) = bt_hot t" "bt_epoch (BookTable_create l hot t) = bt_epoch t"
  "be_book (bt_books (BookTable_create l hot t) l) = Some (length (bt_storage t))" "bt_hotBits (BookTable_create l hot t) = bt_hotBits t"
  "be_hot (bt_books (BookTable_create l hot t) x) = be_hot (bt_books t x)"
  "bt_storage (BookTable_create l hot t) ! length (bt_storage t) = BookBuilder_new (BookTable_configFor hot (bt_cfg t))"
  "length (bt_storage (BookTable_create l hot t)) = Suc (length (bt_storage t))"
  by (simp_all add: BookTable_create_def entry_upd_def)

lemma upd_fields [simp]:
  "bt_cfg (entry_upd l f t) = bt_cfg t" "bt_hot (entry_upd l f t) = bt_hot t" "bt_epoch (entry_upd l f t) = bt_epoch t"
  "bt_storage (entry_upd l f t) = bt_storage t" "bt_books (entry_upd l f t) = (bt_books t)(l := f (bt_books t l))"
  "bt_cfg (hot_upd i g t) = bt_cfg t" "bt_hot (hot_upd i g t) = (bt_hot t)[i := g (bt_hot t ! i)]" "bt_epoch (hot_upd i g t) = bt_epoch t"
  "bt_storage (hot_upd i g t) = bt_storage t" "bt_books (hot_upd i g t) = bt_books t"
  "bt_cfg (mark_hot l t) = bt_cfg t" "bt_hot (mark_hot l t) = bt_hot t" "bt_epoch (mark_hot l t) = bt_epoch t"
  "bt_storage (mark_hot l t) = bt_storage t" "bt_books (mark_hot l t) = bt_books t" "bt_byName (mark_hot l t) = bt_byName t"
  "bt_byName (entry_upd l f t) = bt_byName t" "bt_byName (hot_upd i g t) = bt_byName t"
  "bt_hotBits (entry_upd l f t) = bt_hotBits t" "bt_hotBits (hot_upd i g t) = bt_hotBits t"
  by (simp_all add: entry_upd_def hot_upd_def mark_hot_def Let_def)

section \<open>Construction\<close>

lemma bind_hot_locate_inv:
  assumes "table_inv n t V" and "table_config_ok (bt_cfg t)" and "\<forall>l k. be_book (bt_books t l) = Some k \<longrightarrow> book_inv (bt_storage t ! k) (V k)"
  shows "table_inv n (bind_hot_locate i t) V \<and> bt_cfg (bind_hot_locate i t) = bt_cfg t \<and>
    (\<forall>l k. be_book (bt_books (bind_hot_locate i t) l) = Some k \<longrightarrow> book_inv (bt_storage (bind_hot_locate i t) ! k) (V k))"
proof -
  define l where "l = btc_hotLocates (bt_cfg t) ! i"
  define t2 where "t2 = mark_hot l (entry_upd l (\<lambda>e. e\<lparr>be_hot := to_int16 i\<rparr>) (hot_upd i (\<lambda>h. h\<lparr>hs_resolved := True, hs_locate := l\<rparr>) t))"
  define t3 where "t3 = (if be_book (bt_books t2 l) = None then BookTable_create l True t2 else t2)"
  have e: "be_book (bt_books t2 x) = be_book (bt_books t x)" for x by (simp add: t2_def)
  have f2: "bt_cfg t2 = bt_cfg t" "bt_storage t2 = bt_storage t" by (simp_all add: t2_def)
  have i2: "table_inv n t2 V" unfolding t2_def table_inv_undirected
    by (rule table_inv_entry [OF table_inv_hot_same [OF assms(1)]]) (use assms(1) in \<open>auto simp: table_inv_def\<close>)
  have i3: "table_inv n t3 V" "bt_cfg t3 = bt_cfg t" using i2 assms(2) f2 table_inv_create by (auto simp: t3_def)
  have V: "V (length (bt_storage t)) = Map.empty" using assms(1) by (simp add: table_inv_def)
  have e3: "book_inv (bt_storage t3 ! k) (V k)" if "be_book (bt_books t3 x) = Some k" for x k
  proof (cases "be_book (bt_books t2 l) = None")
    case True
    have "k < length (bt_storage t)" if "be_book (bt_books t x) = Some k" for x k using assms(1) that by (simp add: table_inv_def)
    then show ?thesis using that True f2 V configFor_new [OF assms(2)] assms(3) e
      by (auto simp: t3_def BookTable_create_def entry_upd_def nth_append split: if_splits)
  next
    case False
    then show ?thesis using that assms(3) e f2 by (auto simp: t3_def)
  qed
  have "table_inv n (hot_upd i (\<lambda>h. h\<lparr>hs_book := be_book (bt_books t3 l)\<rparr>) t3) V"
    by (rule table_inv_hot [OF i3(1)]) (use i3(1) e3 in \<open>auto simp: table_inv_def\<close>)
  then show ?thesis using i3(2) e3 unfolding bind_hot_locate_def Let_def l_def [symmetric] t2_def [symmetric] t3_def [symmetric] by simp
qed

lemma add_profile_inv:
  assumes "table_inv n t V" and "table_config_ok (bt_cfg t)" and "p \<in> set (btc_profiles (bt_cfg t))"
  shows "table_inv n (add_profile p t) V \<and> bt_cfg (add_profile p t) = bt_cfg t"
proof -
  define h where "h = BookTable_hotIndexByName (sp_name p) t"
  define t1 where "t1 = t\<lparr>bt_storage := bt_storage t @ [BookBuilder_new (profiled_config p (h \<noteq> kCold) (bt_cfg t))], bt_created := bt_created t + 1\<rparr>"
  define t2 where "t2 = t1\<lparr>bt_byName := (sp_name p, length (bt_storage t)) # bt_byName t1\<rparr>"
  have V: "V (length (bt_storage t)) = Map.empty" using assms(1) by (simp add: table_inv_def)
  have i1: "table_inv n t1 V" unfolding t1_def by (rule table_inv_push [OF assms(1)]) (use profiled_new [OF assms(2,3)] in blast)
  then have i2: "table_inv n t2 V" by (simp add: t2_def table_inv_def) (simp add: t1_def)
  have "table_inv n (hot_upd (nat h) (\<lambda>s. s\<lparr>hs_book := Some (length (bt_storage t))\<rparr>) t2) V"
    by (rule table_inv_hot [OF i2]) (use profiled_new [OF assms(2,3)] V in \<open>auto simp: t2_def t1_def\<close>)
  moreover have "bt_cfg t2 = bt_cfg t" by (simp add: t2_def t1_def)
  ultimately show ?thesis using assms(1) i2
    unfolding add_profile_def BookTable_createProfiled_def Let_def h_def [symmetric] t1_def [symmetric] prod.case t2_def [symmetric] by simp
qed

lemma fold_invariant_list:
  assumes "P s" and "\<And>x s. x \<in> set xs \<Longrightarrow> P s \<Longrightarrow> P (f x s)"
  shows "P (fold f xs s)"
  using assms by (induction xs arbitrary: s) auto

lemma table_new_inv:
  assumes "table_config_ok cfg"
  shows "table_inv 0 (BookTable_new cfg) (\<lambda>_. Map.empty) \<and> bt_cfg (BookTable_new cfg) = cfg"
proof -
  let ?V = "\<lambda>_. Map.empty"
  define t where "t = \<lparr>bt_cfg = cfg, bt_storage = [], bt_books = (\<lambda>_. \<lparr>be_book = None, be_hot = kCold\<rparr>), bt_hotBits = replicate 1024 0,
               bt_empty = BookBuilder_new (empty_config (btc_tickWire cfg)), bt_hot = map HotSymbol_new (btc_hotSymbols cfg),
               bt_byName = [], bt_undirected = 0, bt_created = 0, bt_epoch = 0, bt_live = 0\<rparr>"
  define t1 where "t1 = fold bind_hot_locate [0..<min (length (bt_hot t)) (length (btc_hotLocates cfg))] t"
  define P where "P t \<longleftrightarrow> table_inv 0 t ?V \<and> bt_cfg t = cfg \<and> (\<forall>l k. be_book (bt_books t l) = Some k \<longrightarrow> book_inv (bt_storage t ! k) (?V k))" for t
  have "P t" by (auto simp: P_def t_def table_inv_def HotSymbol_new_def)
  moreover have "P (bind_hot_locate i t)" if "P t" for i t using bind_hot_locate_inv [of 0 t ?V i] that assms unfolding P_def by blast
  ultimately have "P t1" unfolding t1_def by (intro fold_invariant_list [of P])
  define Q where "Q t \<longleftrightarrow> table_inv 0 t ?V \<and> bt_cfg t = cfg" for t
  have "Q (add_profile p t)" if "p \<in> set (btc_profiles cfg)" "Q t" for p t using add_profile_inv [of 0 t ?V p] that assms unfolding Q_def by simp
  moreover have "Q t1" using \<open>P t1\<close> by (simp add: P_def Q_def)
  ultimately have "Q (fold add_profile (btc_profiles cfg) t1)" by (intro fold_invariant_list [of Q])
  then show ?thesis unfolding BookTable_new_def Let_def t_def [symmetric] t1_def [symmetric] Q_def .
qed

section \<open>Messages\<close>

lemma live_card: "book_inv b A \<Longrightarrow> BookBuilder_liveOrders b = card (dom A)"
proof -
  assume "book_inv b A"
  note d = book_invD [OF this]
  have "dom (fm_map (bb_orders b)) = dom A" using d(3) by (auto simp: book_orders_def)
  then show ?thesis using fm_size_card [OF d(2)] by (simp add: BookBuilder_liveOrders_def)
qed

lemma sum_swap:
  fixes f :: "nat \<Rightarrow> nat"
  assumes "k < n"
  shows "(\<Sum>i<n. (f(k := x)) i) + f k = (\<Sum>i<n. f i) + x"
  using assms sum.remove [of "{..<n}" k f] sum.remove [of "{..<n}" k "f(k := x)"] by simp

lemma apply_to_book_inv:
  assumes inv: "table_inv n t V" and n: "n < 2 ^ 32" and k: "k < length (bt_storage t)"
    and leg: "feed_legal (table_fits (bt_cfg t)) (feed_of msg) (V k)" and tm: "tame (feed_spec (btc_ownRefMin (bt_cfg t)) (feed_of msg) (V k))"
  shows "table_inv n (apply_to_book msg k t) (V(k := feed_spec (btc_ownRefMin (bt_cfg t)) (feed_of msg) (V k)))"
proof -
  let ?A = "feed_spec (btc_ownRefMin (bt_cfg t)) (feed_of msg) (V k)"
  define b where "b = fresh_book (of_nat n) (bt_storage t ! k)"
  define b' where "b' = BookBuilder_apply msg b"
  have b: "book_inv b (V k)" "book_fits (bt_cfg t) b" "unat (bb_epoch b) = n"
    using fresh_holds [OF _ n, of "bt_cfg t" "bt_storage t ! k" "V k"] inv k by (auto simp: b_def table_inv_def)
  have b': "book_inv b' ?A" "settings b' = settings b" using book_apply [OF b(1), of msg] leg tm b(2) by (auto simp: b'_def book_fits_def)
  have h: "book_holds (bt_cfg t) n b' ?A" using b b' fits_settings [OF b'(2)] by (auto simp: book_holds_def b'_def epoch_apply)
  have "(\<Sum>i<length (bt_storage t). ((\<lambda>i. card (dom (V i)))(k := card (dom ?A))) i) + card (dom (V k)) = (\<Sum>i<length (bt_storage t). card (dom (V i))) + card (dom ?A)"
    by (rule sum_swap [OF k])
  moreover have "((\<lambda>i. card (dom (V i)))(k := card (dom ?A))) i = card (dom ((V(k := ?A)) i))" for i by simp
  ultimately have "(\<Sum>i<length (bt_storage t). card (dom ((V(k := ?A)) i))) + card (dom (V k)) = (\<Sum>i<length (bt_storage t). card (dom (V i))) + card (dom ?A)"
    by simp
  then have "(of_nat (\<Sum>i<length (bt_storage t). card (dom ((V(k := ?A)) i))) :: u64) + of_nat (card (dom (V k))) =
      of_nat (\<Sum>i<length (bt_storage t). card (dom (V i))) + of_nat (card (dom ?A))"
    unfolding of_nat_add [symmetric] by (rule arg_cong)
  then have live: "bt_live t + (of_nat (card (dom ?A)) - of_nat (card (dom (V k)))) = of_nat (\<Sum>i<length (bt_storage t). card (dom ((V(k := ?A)) i)))"
    using inv by (simp add: table_inv_def algebra_simps)
  have e: "apply_to_book msg k t = t\<lparr>bt_storage := (bt_storage t)[k := b'], bt_live := bt_live t + (of_nat (card (dom ?A)) - of_nat (card (dom (V k))))\<rparr>"
    using inv live_card [OF b(1)] live_card [OF b'(1)] by (simp add: apply_to_book_def Let_def b_def b'_def table_inv_def)
  have "book_holds (bt_cfg t) n ((bt_storage t)[k := b'] ! j) ((V(k := ?A)) j)" if "j < length (bt_storage t)" for j
    using h inv k that by (auto simp: table_inv_def nth_list_update)
  moreover have "j < length (bt_storage t) \<and> book_inv ((bt_storage t)[k := b'] ! j) ((V(k := ?A)) j)" if "x \<in> set (bt_hot t)" "hs_book x = Some j" for x j
    using b'(1) inv k that by (auto simp: table_inv_def nth_list_update)
  ultimately show ?thesis using inv k live unfolding e by (simp add: table_inv_def)
qed

text \<open>A directory message binds a book to a symbol in time: the book has seen the last reset, or it holds no order.\<close>

definition timely_directory :: "byte list \<Rightarrow> BookTable \<Rightarrow> bool" where
  "timely_directory msg t \<longleftrightarrow>
     (case be_book (bt_books (BookTable_onDirectory msg (BookTable_locateOf msg) t) (BookTable_locateOf msg)) of
        None \<Rightarrow> True
      | Some k \<Rightarrow>
          let b = bt_storage (BookTable_onDirectory msg (BookTable_locateOf msg) t) ! k
          in bb_epoch b = bt_epoch t \<or> BookBuilder_liveOrders b = 0)"

lemma holds_timely:
  assumes "table_inv n t V" and "n < 2 ^ 32" and "k < length (bt_storage t)"
    and "bb_epoch (bt_storage t ! k) = bt_epoch t \<or> BookBuilder_liveOrders (bt_storage t ! k) = 0"
  shows "book_inv (bt_storage t ! k) (V k)"
proof -
  obtain B where B: "book_inv (bt_storage t ! k) B" "V k = (if unat (bb_epoch (bt_storage t ! k)) = n then B else Map.empty)"
    using assms(1,3) by (auto simp: table_inv_def book_holds_def)
  have "unat (bt_epoch t) = n" using assms(1,2) by (simp add: table_inv_def unsigned_of_nat take_bit_eq_mod)
  moreover have "B = Map.empty" if "BookBuilder_liveOrders (bt_storage t ! k) = 0"
    using that live_card [OF B(1)] book_invD(5) [OF B(1)] by simp
  ultimately show ?thesis using B assms(4) by auto
qed

lemma resolve_hot_inv:
  assumes inv: "table_inv n t V" and cfg: "table_config_ok (bt_cfg t)" and n: "n < 2 ^ 32"
    and time: "\<And>k. be_book (bt_books (resolve_hot l i t) l) = Some k \<Longrightarrow>
      bb_epoch (bt_storage (resolve_hot l i t) ! k) = bt_epoch t \<or> BookBuilder_liveOrders (bt_storage (resolve_hot l i t) ! k) = 0"
  shows "table_inv n (resolve_hot l i t) V"
proof -
  define t2 where "t2 = mark_hot l (entry_upd l (\<lambda>e. e\<lparr>be_hot := to_int16 i\<rparr>) (hot_upd i (\<lambda>h. h\<lparr>hs_resolved := True, hs_locate := l\<rparr>) t))"
  define t3 where "t3 = (if be_book (bt_books t2 l) = None then BookTable_create l True t2 else t2)"
  have u: "resolve_hot l i t = (if btc_scope (bt_cfg t2) = Scope_ColdOnly then t2 else hot_upd i (\<lambda>h. h\<lparr>hs_book := be_book (bt_books t3 l)\<rparr>) t3)"
    unfolding resolve_hot_def Let_def t2_def [symmetric] t3_def [symmetric] ..
  have i2: "table_inv n t2 V" unfolding t2_def table_inv_undirected
    by (rule table_inv_entry [OF table_inv_hot_same [OF inv]]) (use inv in \<open>auto simp: table_inv_def\<close>)
  have i3: "table_inv n t3 V" using i2 cfg table_inv_create [of n t2 V l True] by (simp add: t3_def t2_def)
  have ep: "bt_epoch t3 = bt_epoch t" by (simp add: t3_def t2_def)
  show ?thesis
  proof (cases "btc_scope (bt_cfg t2) = Scope_ColdOnly")
    case False
    have "table_inv n (hot_upd i (\<lambda>h. h\<lparr>hs_book := be_book (bt_books t3 l)\<rparr>) t3) V"
    proof (rule table_inv_hot [OF i3])
      fix k assume "hs_book ((bt_hot t3 ! i)\<lparr>hs_book := be_book (bt_books t3 l)\<rparr>) = Some k"
      then have k: "be_book (bt_books t3 l) = Some k" by simp
      then have "k < length (bt_storage t3)" using i3 by (simp add: table_inv_def)
      then show "k < length (bt_storage t3) \<and> book_inv (bt_storage t3 ! k) (V k)"
        using holds_timely [OF i3 n, of k] time [of k] k ep False by (simp add: u)
    qed
    then show ?thesis using False by (simp add: u)
  qed (simp add: u i2)
qed

lemma onDirectory_inv:
  assumes inv: "table_inv n t V" and cfg: "table_config_ok (bt_cfg t)" and n: "n < 2 ^ 32" and time: "timely_directory msg t"
  shows "table_inv n (BookTable_onDirectory msg (BookTable_locateOf msg) t) V"
proof (cases "length msg < sizeof_StockDirectory")
  case False
  define l where "l = BookTable_locateOf msg"
  define name where "name = alpha_view (sd_stock (dec_StockDirectory msg))"
  define t1 where "t1 = (if be_book (bt_books t l) = None then
      case map_of (bt_byName t) name of Some b \<Rightarrow> entry_upd l (\<lambda>e. e\<lparr>be_book := Some b\<rparr>) t | None \<Rightarrow> t else t)"
  define cold where "cold = (if be_book (bt_books t1 l) = None \<and> btc_scope (bt_cfg t1) \<noteq> Scope_HotOnly then BookTable_create l False t1 else t1)"
  define r where "r = find (\<lambda>i. \<not> hs_resolved (bt_hot t1 ! i) \<and> hs_name (bt_hot t1 ! i) = name) [0..<length (bt_hot t1)]"
  have u: "BookTable_onDirectory msg l t = (if be_hot (bt_books t1 l) = kCold then case r of Some i \<Rightarrow> resolve_hot l i t1 | None \<Rightarrow> cold else cold)"
    unfolding BookTable_onDirectory_def if_not_P [OF False] Let_def name_def [symmetric] t1_def [symmetric] cold_def [symmetric] r_def [symmetric] ..
  have "table_inv n (entry_upd l (\<lambda>e. e\<lparr>be_book := Some b\<rparr>) t) V" if "map_of (bt_byName t) name = Some b" for b
    by (rule table_inv_entry [OF inv]) (use inv map_of_SomeD [OF that] in \<open>fastforce simp: table_inv_def\<close>)
  then have i1: "table_inv n t1 V" "bt_cfg t1 = bt_cfg t" "bt_epoch t1 = bt_epoch t" using inv by (auto simp: t1_def split: option.split)
  have ic: "table_inv n cold V" using i1 cfg table_inv_create [of n t1 V l False] by (simp add: cold_def)
  show ?thesis
  proof (cases "be_hot (bt_books t1 l) = kCold \<and> r \<noteq> None")
    case True
    then obtain i where "r = Some i" by auto
    then have v: "BookTable_onDirectory msg l t = resolve_hot l i t1" using True u by simp
    show ?thesis unfolding l_def [symmetric] v
      by (rule resolve_hot_inv [OF i1(1) _ n]) (use cfg i1 time v in \<open>auto simp: timely_directory_def Let_def l_def [symmetric]\<close>)
  qed (use u ic in \<open>auto simp: l_def [symmetric] split: option.split\<close>)
qed (use inv in \<open>simp add: BookTable_onDirectory_def\<close>)

text \<open>The orders a message leaves on the shelf: it reaches the book of its locate code, if there is one afterwards.\<close>

definition shelf_after :: "byte list \<Rightarrow> BookTable \<Rightarrow> shelf \<Rightarrow> shelf" where
  "shelf_after msg t V =
     (case be_book (bt_books (snd (BookTable_apply msg t)) (BookTable_locateOf msg)) of
        None \<Rightarrow> V
      | Some k \<Rightarrow> V(k := feed_spec (btc_ownRefMin (bt_cfg t)) (feed_of msg) (V k)))"

definition table_legal :: "byte list \<Rightarrow> BookTable \<Rightarrow> shelf \<Rightarrow> bool" where
  "table_legal msg t V \<longleftrightarrow>
     (if msg ! 0 = 0x52 then timely_directory msg t
      else case be_book (bt_books (snd (BookTable_apply msg t)) (BookTable_locateOf msg)) of
             None \<Rightarrow> True
           | Some k \<Rightarrow> feed_legal (table_fits (bt_cfg t)) (feed_of msg) (V k) \<and>
               tame (feed_spec (btc_ownRefMin (bt_cfg t)) (feed_of msg) (V k)))"

lemma feed_of_other: "msg ! 0 = 0x52 \<or> msg ! 0 = 0x48 \<Longrightarrow> feed_of msg = FNothing"
  by (elim disjE) (simp_all add: feed_of_def Let_def)

lemma table_apply_inv:
  assumes inv: "table_inv n t V" and cfg: "table_config_ok (bt_cfg t)" and n: "n < 2 ^ 32" and leg: "table_legal msg t V"
  shows "table_inv n (snd (BookTable_apply msg t)) (shelf_after msg t V)"
proof (cases "msg ! 0 = 0x52")
  case True
  have "shelf_after msg t V = V" using feed_of_other [of msg] True by (simp add: shelf_after_def split: option.split)
  then show ?thesis using onDirectory_inv [OF inv cfg n] leg True by (simp add: BookTable_apply_def Let_def table_legal_def)
next
  case False
  define l where "l = BookTable_locateOf msg"
  define e where "e = bt_books t l"
  define t1 where "t1 = (if be_book e = None then BookTable_create l (be_hot e \<noteq> kCold) (t\<lparr>bt_undirected := bt_undirected t + 1\<rparr>) else t)"
  define skip where "skip \<longleftrightarrow> be_book e = None \<and> (btc_scope (bt_cfg t) = Scope_HotOnly \<and> be_hot e = kCold \<or> btc_scope (bt_cfg t) = Scope_ColdOnly \<and> be_hot e \<noteq> kCold)"
  define f :: "HotSymbol \<Rightarrow> HotSymbol" where "f = (\<lambda>s. s\<lparr>hs_trading := sta_tradingState (dec_StockTradingAction msg) = TradingState_code Ts_Trading\<rparr>)"
  define t2 where "t2 = (if be_hot e \<noteq> kCold \<and> length msg \<ge> sizeof_StockTradingAction then hot_upd (nat (be_hot e)) f t1 else t1)"
  have u: "snd (BookTable_apply msg t) = (if skip then t else if msg ! 0 = 0x48 then t2
      else case be_book (bt_books t1 l) of None \<Rightarrow> t1 | Some k \<Rightarrow> apply_to_book msg k t1)"
    unfolding BookTable_apply_def l_def [symmetric] if_not_P [OF False] e_def [symmetric] t1_def [symmetric] f_def [symmetric] t2_def [symmetric] Let_def
    by (auto simp: skip_def split: option.split)
  have i1: "table_inv n t1 V" "bt_cfg t1 = bt_cfg t" using inv cfg table_inv_create [of n "t\<lparr>bt_undirected := bt_undirected t + 1\<rparr>" V l] by (auto simp: t1_def)
  have i2: "table_inv n t2 V" using i1 table_inv_hot_same [OF i1(1), of f] by (simp add: t2_def f_def)
  obtain k where k: "be_book (bt_books t1 l) = Some k" by (cases "be_book e") (auto simp: t1_def e_def)
  have kb: "k < length (bt_storage t1)" using i1 k by (simp add: table_inv_def)
  show ?thesis
  proof (cases "skip \<or> msg ! 0 = 0x48")
    case True
    have "shelf_after msg t V = V" using True feed_of_other [of msg] u
      by (auto simp: shelf_after_def skip_def e_def l_def [symmetric] split: option.split)
    then show ?thesis using True u inv i2 by auto
  next
    case False
    then have u': "snd (BookTable_apply msg t) = apply_to_book msg k t1" using u k by simp
    then have b: "be_book (bt_books (snd (BookTable_apply msg t)) l) = Some k" using k by (simp add: apply_to_book_def Let_def)
    show ?thesis using apply_to_book_inv [OF i1(1) n kb, of msg] leg b \<open>msg ! 0 \<noteq> 0x52\<close> i1(2)
      by (simp add: u' shelf_after_def table_legal_def l_def [symmetric])
  qed
qed

lemma apply_cfg: "bt_cfg (snd (BookTable_apply msg t)) = bt_cfg t"
proof -
  have r: "bt_cfg (resolve_hot l i t) = bt_cfg t" for l i t by (simp add: resolve_hot_def Let_def)
  have d: "bt_cfg (BookTable_onDirectory msg l t) = bt_cfg t" for l
    unfolding BookTable_onDirectory_def Let_def by (simp add: if_distrib [of bt_cfg] option.case_eq_if r cong: if_cong)
  show ?thesis by (simp add: BookTable_apply_def apply_to_book_def Let_def d option.case_eq_if)
qed

section \<open>Resets\<close>

lemma clear_hot_fields:
  "bt_cfg (clear_hot i t) = bt_cfg t" "bt_books (clear_hot i t) = bt_books t" "bt_byName (clear_hot i t) = bt_byName t"
  "bt_epoch (clear_hot i t) = bt_epoch t" "bt_live (clear_hot i t) = bt_live t" "length (bt_storage (clear_hot i t)) = length (bt_storage t)"
  "length (bt_hot (clear_hot i t)) = length (bt_hot t)" "map hs_book (bt_hot (clear_hot i t)) = map hs_book (bt_hot t)"
  "bt_hotBits (clear_hot i t) = bt_hotBits t"
  by (simp_all add: clear_hot_def Let_def hot_upd_def map_update split: option.split) (cases "i < length (bt_hot t)"; simp add: list_update_same_conv list_update_beyond flip: nth_map)

text \<open>While the hot books are cleared in turn, the books of the first \<open>j\<close> hot symbols hold nothing.\<close>

definition clearing :: "BookTable \<Rightarrow> nat \<Rightarrow> nat \<Rightarrow> BookTable \<Rightarrow> bool" where
  "clearing t0 n j t \<longleftrightarrow> bt_cfg t = bt_cfg t0 \<and> bt_books t = bt_books t0 \<and> bt_byName t = bt_byName t0 \<and> bt_epoch t = of_nat n \<and> bt_live t = 0 \<and>
     length (bt_storage t) = length (bt_storage t0) \<and> map hs_book (bt_hot t) = map hs_book (bt_hot t0) \<and>
     (\<forall>k < length (bt_storage t). book_holds (bt_cfg t) n (bt_storage t ! k) Map.empty) \<and>
     (\<forall>i < j. \<forall>k. hs_book (bt_hot t ! i) = Some k \<longrightarrow> book_inv (bt_storage t ! k) Map.empty)"

lemma clearing_step:
  assumes c: "clearing t0 n j t" and n: "n < 2 ^ 32" and j: "j < length (bt_hot t)"
    and hot: "\<forall>h \<in> set (bt_hot t0). \<forall>k. hs_book h = Some k \<longrightarrow> k < length (bt_storage t0)"
  shows "clearing t0 n (Suc j) (clear_hot j t)"
proof -
  have hb: "hs_book (bt_hot (clear_hot j t) ! i) = hs_book (bt_hot t ! i)" if "i < length (bt_hot t)" for i
    using that nth_map [of i "bt_hot (clear_hot j t)" hs_book] nth_map [of i "bt_hot t" hs_book] by (simp add: clear_hot_fields)
  have un: "unat (of_nat n :: u32) = n" using n by (simp add: unsigned_of_nat take_bit_eq_mod)
  have len: "length (bt_hot t) = length (bt_hot t0)" using c map_eq_imp_length_eq unfolding clearing_def by blast
  define cl where "cl b = BookBuilder_setEpoch (bt_epoch t) (BookBuilder_clear b)" for b
  have st: "bt_storage (clear_hot j t) = (case hs_book (bt_hot t ! j) of None \<Rightarrow> bt_storage t | Some k \<Rightarrow> (bt_storage t)[k := cl (bt_storage t ! k)])"
    using j by (simp add: clear_hot_def Let_def hot_upd_def cl_def split: option.split)
  have cl: "book_holds (bt_cfg t) n (cl b) Map.empty \<and> book_inv (cl b) Map.empty" if hb: "book_holds (bt_cfg t) n b Map.empty" for b
  proof -
    obtain B where B: "book_inv b B" "book_fits (bt_cfg t) b" using hb by (auto simp: book_holds_def)
    have "book_fits (bt_cfg t) (cl b)" using B book_clear [OF B(1)] fits_settings [of "cl b" b] by (simp add: cl_def)
    moreover have "unat (bb_epoch (cl b)) = n" using c un by (simp add: cl_def clearing_def)
    ultimately show ?thesis using book_clear [OF B(1)] by (auto simp: book_holds_def cl_def)
  qed
  have upd: "(bt_storage t)[x := y] ! k = (if x = k then y else bt_storage t ! k)" if "k < length (bt_storage t)" for x y k
    using that by simp
  have h: "book_holds (bt_cfg t) n (bt_storage (clear_hot j t) ! k) Map.empty" if "k < length (bt_storage t)" for k
    using c cl that by (auto simp: st clearing_def upd split: option.split)
  have b: "book_inv (bt_storage (clear_hot j t) ! k) Map.empty" if "i < Suc j" "hs_book (bt_hot t ! i) = Some k" for i k
  proof -
    have "hs_book (bt_hot t ! i) = hs_book (bt_hot t0 ! i)" using c that j len by (auto simp: clearing_def dest!: arg_cong [of _ _ "\<lambda>xs. xs ! i"])
    then have "hs_book (bt_hot t0 ! i) = Some k" "bt_hot t0 ! i \<in> set (bt_hot t0)" using that j len by simp_all
    then have k: "k < length (bt_storage t)" using hot c by (simp add: clearing_def)
    show ?thesis using that c cl k by (auto simp: st clearing_def upd less_Suc_eq split: option.split)
  qed
  show ?thesis using c h b hb j by (simp add: clearing_def clear_hot_fields)
qed

lemma clearAll_inv:
  assumes inv: "table_inv n t V" and n: "Suc n < 2 ^ 32"
  shows "table_inv (Suc n) (BookTable_clearAll t) (\<lambda>_. Map.empty) \<and> bt_cfg (BookTable_clearAll t) = bt_cfg t"
proof -
  define t0 where "t0 = t\<lparr>bt_epoch := bt_epoch t + 1, bt_live := 0\<rparr>"
  have "clearing t0 (Suc n) 0 t0" using inv by (fastforce simp: clearing_def t0_def table_inv_def book_holds_def)
  moreover have hot: "\<forall>h \<in> set (bt_hot t0). \<forall>k. hs_book h = Some k \<longrightarrow> k < length (bt_storage t0)" using inv by (simp add: t0_def table_inv_def)
  ultimately have "j \<le> length (bt_hot t0) \<Longrightarrow> clearing t0 (Suc n) j (fold clear_hot [0..<j] t0)" for j
  proof (induction j)
    case (Suc j)
    then have c: "clearing t0 (Suc n) j (fold clear_hot [0..<j] t0)" by simp
    have "length (bt_hot (fold clear_hot [0..<j] t0)) = length (bt_hot t0)" using c map_eq_imp_length_eq unfolding clearing_def by blast
    then show ?case using clearing_step [OF c n _ hot] Suc.prems by simp
  qed simp
  from this [OF order_refl] have c: "clearing t0 (Suc n) (length (bt_hot t0)) (BookTable_clearAll t)"
    by (simp add: BookTable_clearAll_def t0_def)
  have len: "length (bt_hot (BookTable_clearAll t)) = length (bt_hot t0)" using c map_eq_imp_length_eq unfolding clearing_def by blast
  have "k < length (bt_storage (BookTable_clearAll t)) \<and> book_inv (bt_storage (BookTable_clearAll t) ! k) Map.empty"
    if "h \<in> set (bt_hot (BookTable_clearAll t))" "hs_book h = Some k" for h k
  proof -
    have "Some k \<in> set (map hs_book (bt_hot t0))" using that c by (metis clearing_def image_eqI list.set_map)
    then show ?thesis using that c hot len by (auto simp: clearing_def in_set_conv_nth)
  qed
  moreover have hold: "\<forall>k < length (bt_storage t). book_holds (bt_cfg t) (Suc n) (bt_storage (BookTable_clearAll t) ! k) Map.empty"
    using c by (auto simp: clearing_def t0_def)
  have "table_inv (Suc n) (BookTable_clearAll t) (\<lambda>_. Map.empty) \<longleftrightarrow> (\<forall>h \<in> set (bt_hot (BookTable_clearAll t)). \<forall>k.
      hs_book h = Some k \<longrightarrow> k < length (bt_storage (BookTable_clearAll t)) \<and> book_inv (bt_storage (BookTable_clearAll t) ! k) Map.empty)"
    using c inv hold unfolding clearing_def table_inv_def t0_def by simp
  moreover have "bt_cfg (BookTable_clearAll t) = bt_cfg t" using c by (simp add: clearing_def t0_def)
  ultimately show ?thesis by blast
qed

section \<open>Hot symbols\<close>

lemma hot_word: "unat (drop_bit 6 (l :: u16)) = unat l div 64" "unat (l AND 63) = unat l mod 64" "unat (drop_bit 6 (l :: u16)) < 1024"
proof -
  show d: "unat (drop_bit 6 l) = unat l div 64" by (simp add: unat_drop_bit_div)
  have "l AND 63 = take_bit 6 l" by (simp add: take_bit_eq_mask mask_eq_exp_minus_1)
  moreover have "unat (take_bit 6 l) = take_bit 6 (unat l)" by (rule unsigned_take_bit_eq)
  moreover have "take_bit 6 (unat l) = unat l mod 64" by (simp add: take_bit_eq_mod)
  ultimately show "unat (l AND 63) = unat l mod 64" by metis
  show "unat (drop_bit 6 l) < 1024" using unat_lt2p [of l] by (simp add: d)
qed

lemma isHot_bit: "BookTable_isHot l t \<longleftrightarrow> bit (bt_hotBits t ! (unat l div 64)) (unat l mod 64)"
  by (simp add: BookTable_isHot_def hot_word and_one_eq bit_iff_odd_drop_bit odd_iff_mod_2_eq_one)

lemma isHot_mark:
  assumes "length (bt_hotBits t) = 1024"
  shows "BookTable_isHot x (mark_hot l t) \<longleftrightarrow> x = l \<or> BookTable_isHot x t"
proof -
  have "x = l \<longleftrightarrow> unat x div 64 = unat l div 64 \<and> unat x mod 64 = unat l mod 64"
    by (metis div_mult_mod_eq word_unat_eq_iff)
  then show ?thesis using assms hot_word(3) [of l]
    by (auto simp: isHot_bit mark_hot_def Let_def hot_word nth_list_update bit_or_iff bit_exp_iff possible_bit_word)
qed

definition hot_ok :: "BookTable \<Rightarrow> bool" where
  "hot_ok t \<longleftrightarrow> length (bt_hotBits t) = 1024 \<and> length (bt_hot t) \<le> 2 ^ 15 \<and>
     (\<forall>l. BookTable_isHot l t \<longleftrightarrow> be_hot (bt_books t l) \<noteq> kCold) \<and>
     (\<forall>l. be_hot (bt_books t l) \<noteq> kCold \<longrightarrow> 0 \<le> be_hot (bt_books t l) \<and> nat (be_hot (bt_books t l)) < length (bt_hot t))"

lemma to_int16_small: "i < 2 ^ 15 \<Longrightarrow> to_int16 i = int i"
  by (simp add: to_int16_def signed_of_nat signed_take_bit_int_eq_self)

lemma hot_ok_cong:
  "bt_hotBits t' = bt_hotBits t \<Longrightarrow> length (bt_hot t') = length (bt_hot t) \<Longrightarrow> (\<And>l. be_hot (bt_books t' l) = be_hot (bt_books t l)) \<Longrightarrow> hot_ok t' = hot_ok t"
  by (simp add: hot_ok_def BookTable_isHot_def)

lemma hot_ok_bind:
  assumes "hot_ok t" and "i < length (bt_hot t)"
  shows "hot_ok (mark_hot l (entry_upd l (\<lambda>e. e\<lparr>be_hot := to_int16 i\<rparr>) t))"
proof -
  have "BookTable_isHot x (entry_upd l f t) = BookTable_isHot x t" for x f by (simp add: BookTable_isHot_def)
  then show ?thesis using assms to_int16_small [of i] by (auto simp: hot_ok_def isHot_mark kCold_def) (auto simp: mark_hot_def Let_def)
qed

lemma hot_ok_resolve:
  assumes "hot_ok t" and "i < length (bt_hot t)"
  shows "hot_ok (resolve_hot l i t)"
proof -
  define t1 where "t1 = hot_upd i (\<lambda>h. h\<lparr>hs_resolved := True, hs_locate := l\<rparr>) t"
  have "hot_ok t1" using assms(1) hot_ok_cong [of t1 t] by (simp add: t1_def)
  then have m: "hot_ok (mark_hot l (entry_upd l (\<lambda>e. e\<lparr>be_hot := to_int16 i\<rparr>) t1))" using assms(2) hot_ok_bind [of t1 i l] by (simp add: t1_def)
  show ?thesis unfolding resolve_hot_def Let_def t1_def [symmetric] by (simp add: m hot_ok_cong [OF _ _ _, of _ "mark_hot l (entry_upd l (\<lambda>e. e\<lparr>be_hot := to_int16 i\<rparr>) t1)"])
qed

lemma hot_ok_directory:
  assumes "hot_ok t"
  shows "hot_ok (BookTable_onDirectory msg l t)"
proof -
  define name where "name = alpha_view (sd_stock (dec_StockDirectory msg))"
  define t1 where "t1 = (if be_book (bt_books t l) = None then
      case map_of (bt_byName t) name of Some b \<Rightarrow> entry_upd l (\<lambda>e. e\<lparr>be_book := Some b\<rparr>) t | None \<Rightarrow> t else t)"
  have o1: "hot_ok t1" using assms hot_ok_cong [of t1 t] by (simp add: t1_def option.case_eq_if)
  then have "hot_ok (BookTable_create l False t1)" using hot_ok_cong [of "BookTable_create l False t1" t1] by simp
  moreover have "hot_ok (resolve_hot l i t1)" if "find P [0..<length (bt_hot t1)] = Some i" for i P
    using hot_ok_resolve [OF o1] that by (auto simp: find_Some_iff)
  ultimately show ?thesis using assms o1 unfolding BookTable_onDirectory_def Let_def name_def [symmetric] t1_def [symmetric] by (simp split: option.split)
qed

lemma hot_ok_apply:
  assumes "hot_ok t"
  shows "hot_ok (snd (BookTable_apply msg t))"
proof -
  have c: "hot_ok (BookTable_create l h (t\<lparr>bt_undirected := u\<rparr>))" for l h u
    using assms hot_ok_cong [of "BookTable_create l h (t\<lparr>bt_undirected := u\<rparr>)" t] by simp
  have h: "hot_ok (hot_upd i f x) = hot_ok x" for i f x by (rule hot_ok_cong) simp_all
  have a: "hot_ok (apply_to_book msg k x) = hot_ok x" for k x by (rule hot_ok_cong) (simp_all add: apply_to_book_def Let_def)
  show ?thesis using assms c hot_ok_directory [OF assms] by (simp add: BookTable_apply_def Let_def h a split: option.split)
qed

lemma hot_ok_clearAll: "hot_ok t \<Longrightarrow> hot_ok (BookTable_clearAll t)"
proof -
  assume o: "hot_ok t"
  have "hot_ok (fold clear_hot xs x) = hot_ok x" for xs x
    by (induction xs arbitrary: x) (simp_all add: hot_ok_cong [OF clear_hot_fields(9,7)] clear_hot_fields)
  moreover have "hot_ok (t\<lparr>bt_epoch := bt_epoch t + 1, bt_live := 0\<rparr>)" using o hot_ok_cong [of "t\<lparr>bt_epoch := bt_epoch t + 1, bt_live := 0\<rparr>" t] by simp
  ultimately show ?thesis by (simp add: BookTable_clearAll_def)
qed

lemma hot_ok_new:
  assumes "length (btc_hotSymbols cfg) \<le> 2 ^ 15"
  shows "hot_ok (BookTable_new cfg)"
proof -
  define t where "t = \<lparr>bt_cfg = cfg, bt_storage = [], bt_books = (\<lambda>_. \<lparr>be_book = None, be_hot = kCold\<rparr>), bt_hotBits = replicate 1024 0,
               bt_empty = BookBuilder_new (empty_config (btc_tickWire cfg)), bt_hot = map HotSymbol_new (btc_hotSymbols cfg),
               bt_byName = [], bt_undirected = 0, bt_created = 0, bt_epoch = 0, bt_live = 0\<rparr>"
  define P where "P x \<longleftrightarrow> hot_ok x \<and> length (bt_hot x) = length (bt_hot t)" for x
  have "unat l div 64 < 1024" for l :: u16 using unat_lt2p [of l] by simp
  then have "P t" using assms by (auto simp: P_def hot_ok_def t_def isHot_bit)
  have b: "P (bind_hot_locate i x)" if "P x" "i < length (bt_hot t)" for i x
  proof -
    define l where "l = btc_hotLocates (bt_cfg x) ! i"
    define x1 where "x1 = hot_upd i (\<lambda>h. h\<lparr>hs_resolved := True, hs_locate := l\<rparr>) x"
    have "hot_ok x1" using that hot_ok_cong [of x1 x] by (simp add: x1_def P_def)
    then have m: "hot_ok (mark_hot l (entry_upd l (\<lambda>e. e\<lparr>be_hot := to_int16 i\<rparr>) x1))" using that hot_ok_bind [of x1 i l] by (simp add: x1_def P_def)
    show ?thesis unfolding P_def bind_hot_locate_def Let_def l_def [symmetric] x1_def [symmetric]
      using that by (simp add: m hot_ok_cong [OF _ _ _, of _ "mark_hot l (entry_upd l (\<lambda>e. e\<lparr>be_hot := to_int16 i\<rparr>) x1)"]) (simp add: P_def x1_def)
  qed
  have a: "P (add_profile p x)" if "P x" for p x
    using that hot_ok_cong [of "add_profile p x" x] by (simp add: P_def add_profile_def BookTable_createProfiled_def Let_def)
  have "P (fold bind_hot_locate [0..<min (length (bt_hot t)) (length (btc_hotLocates cfg))] t)"
    by (rule fold_invariant_list [of P]) (use \<open>P t\<close> b in auto)
  then have "P (fold add_profile (btc_profiles cfg) (fold bind_hot_locate [0..<min (length (bt_hot t)) (length (btc_hotLocates cfg))] t))"
    by (rule fold_invariant_list [of P]) (rule a)
  then show ?thesis unfolding P_def BookTable_new_def Let_def t_def [symmetric] by blast
qed

section \<open>Properties\<close>

text \<open>A table fed from its construction on, the orders of each of its books, and the number of resets.\<close>

inductive table_feed :: "BookTableConfig \<Rightarrow> BookTable \<Rightarrow> shelf \<Rightarrow> nat \<Rightarrow> bool" for cfg where
  start: "table_feed cfg (BookTable_new cfg) (\<lambda>_. Map.empty) 0"
| message: "table_feed cfg t V n \<Longrightarrow> table_legal msg t V \<Longrightarrow> table_feed cfg (snd (BookTable_apply msg t)) (shelf_after msg t V) n"
| reset: "table_feed cfg t V n \<Longrightarrow> Suc n < 2 ^ 32 \<Longrightarrow> table_feed cfg (BookTable_clearAll t) (\<lambda>_. Map.empty) (Suc n)"

lemma table_feed_inv:
  assumes "table_feed cfg t V n" and "table_config_ok cfg"
  shows "table_inv n t V \<and> bt_cfg t = cfg \<and> n < 2 ^ 32"
  using assms(1)
proof induction
  case start
  then show ?case using table_new_inv [OF assms(2)] by simp
next
  case (message t V n msg)
  then show ?case using table_apply_inv [of n t V msg] apply_cfg [of msg t] assms(2) by simp
next
  case (reset t V n)
  then show ?case using clearAll_inv [of n t V] by simp
qed

definition book_shows :: "BookBuilder \<Rightarrow> orders \<Rightarrow> bool" where
  "book_shows b A \<longleftrightarrow> (\<forall>s p. unat (BookBuilder_sizeAt s p b) = (if BookBuilder_inBand p b then feed_volume A s p else 0)) \<and>
     shows_best Buy (\<lambda>p. BookBuilder_inBand p b) (feed_volume A Buy) (bb_bestBid b) \<and>
     shows_best Sell (\<lambda>p. BookBuilder_inBand p b) (feed_volume A Sell) (bb_bestAsk b)"

lemma inv_shows: "book_inv b A \<Longrightarrow> book_shows b A"
  using size_exact [of b A] top_exact [of b A Buy] top_exact [of b A Sell] by (simp add: book_shows_def best_of_def)


definition demo_table_config :: BookTableConfig where
  "demo_table_config = \<lparr>btc_tickWire = 100, btc_subDollarTick = 1, btc_coldBandTicks = 2, btc_hotBandTicks = 2, btc_maxBandTicks = 4,
     btc_byPrice = None, btc_coldMapSlots = 16, btc_hotMapSlots = 16, btc_ownRefMin = 0, btc_hotSymbols = [[0x41]], btc_hotLocates = [],
     btc_profiles = [], btc_scope = Scope_All\<rparr>"

definition demo_table :: BookTable where
  "demo_table = snd (BookTable_apply (enc_AddOrder demo_add) (BookTable_new demo_table_config))"

definition demo_shelf :: shelf where
  "demo_shelf = (\<lambda>_. Map.empty)(0 := [7 \<mapsto> demo_order])"

lemma demo_table_config_ok: "table_config_ok demo_table_config"
  by (simp add: table_config_ok_def demo_table_config_def)

lemma demo_locate: "BookTable_locateOf (enc_AddOrder demo_add) = 1" "enc_AddOrder demo_add ! 0 = 0x41"
  by code_simp+

lemma demo_new: "bt_books (BookTable_new demo_table_config) l = \<lparr>be_book = None, be_hot = kCold\<rparr>" "bt_storage (BookTable_new demo_table_config) = []"
  "bt_cfg (BookTable_new demo_table_config) = demo_table_config" "bt_hot (BookTable_new demo_table_config) = [HotSymbol_new [0x41]]"
  by (simp_all add: BookTable_new_def Let_def demo_table_config_def)

lemma demo_table_book: "be_book (bt_books demo_table 1) = Some 0" "be_hot (bt_books demo_table 1) = kCold" "bt_hot demo_table = [HotSymbol_new [0x41]]"
  by (simp_all add: demo_table_def BookTable_apply_def Let_def demo_locate demo_new apply_to_book_def BookTable_create_def entry_upd_def
      demo_table_config_def [THEN arg_cong, of btc_scope])

lemma demo_table_feed: "table_feed demo_table_config demo_table demo_shelf 0"
proof -
  have o: "feed_spec 0 (FAdd 7 Buy 10000 50) Map.empty = [7 \<mapsto> demo_order]" by (simp add: demo_order_def owned_def)
  have c: "btc_ownRefMin demo_table_config = 0" by (simp add: demo_table_config_def)
  have "shelf_after (enc_AddOrder demo_add) (BookTable_new demo_table_config) (\<lambda>_. Map.empty) = demo_shelf"
    using demo_table_book(1) o by (simp add: shelf_after_def demo_table_def demo_locate demo_feed demo_new c demo_shelf_def)
  moreover have "table_legal (enc_AddOrder demo_add) (BookTable_new demo_table_config) (\<lambda>_. Map.empty)"
    using demo_table_book(1) o demo_tame by (simp add: table_legal_def demo_table_def demo_locate demo_feed demo_new c) (simp add: table_fits_def demo_table_config_def)
  ultimately show ?thesis using table_feed.message [OF table_feed.start] by (metis demo_table_def)
qed




section \<open>A late directory message\<close>

lemma clear_other:
  assumes "\<forall>h \<in> set (bt_hot t). hs_book h \<noteq> Some k" and "\<forall>i \<in> set xs. i < length (bt_hot t)"
  shows "bt_storage (fold clear_hot xs t) ! k = bt_storage t ! k \<and> bt_books (fold clear_hot xs t) = bt_books t \<and> bt_cfg (fold clear_hot xs t) = bt_cfg t \<and>
    map hs_name (bt_hot (fold clear_hot xs t)) = map hs_name (bt_hot t) \<and> map hs_resolved (bt_hot (fold clear_hot xs t)) = map hs_resolved (bt_hot t)"
  using assms
proof (induction xs arbitrary: t)
  case (Cons i xs)
  have h: "hs_book (bt_hot t ! i) \<noteq> Some k" using Cons.prems nth_mem [of i "bt_hot t"] by auto
  have u: "bt_hot (clear_hot i t) = (bt_hot t)[i := (bt_hot t ! i)\<lparr>hs_trading := True\<rparr>]"
    by (simp add: clear_hot_def Let_def hot_upd_def split: option.split)
  have c: "bt_storage (clear_hot i t) ! k = bt_storage t ! k" using h Cons.prems(2)
    by (cases "hs_book (bt_hot t ! i)") (simp_all add: clear_hot_def Let_def hot_upd_def)
  have m: "map f (bt_hot (clear_hot i t)) = map f (bt_hot t)" if "\<And>h b. f (h\<lparr>hs_trading := b\<rparr>) = f h" for f :: "HotSymbol \<Rightarrow> 'a"
    unfolding u map_update that using Cons.prems by (simp add: list_update_same_conv)
  have "\<forall>h \<in> set (bt_hot (clear_hot i t)). hs_book h \<noteq> Some k"
    using Cons.prems clear_hot_fields(8) [of i t] by (metis image_iff list.set_map)
  then show ?case using Cons.IH [of "clear_hot i t"] Cons.prems c m [of hs_name] m [of hs_resolved] by (simp add: clear_hot_fields)
qed simp

lemma hot_find_cong:
  assumes "map hs_name hs' = map hs_name hs" and "map hs_resolved hs' = map hs_resolved hs"
  shows "find (\<lambda>i. \<not> hs_resolved (hs' ! i) \<and> hs_name (hs' ! i) = x) [0..<length hs'] = find (\<lambda>i. \<not> hs_resolved (hs ! i) \<and> hs_name (hs ! i) = x) [0..<length hs]"
proof -
  have l: "length hs' = length hs" using assms(1) map_eq_imp_length_eq by blast
  have "hs_name (hs' ! i) = hs_name (hs ! i)" "hs_resolved (hs' ! i) = hs_resolved (hs ! i)" if "i < length hs" for i
    using nth_map [of i hs' hs_name] nth_map [of i hs hs_name] nth_map [of i hs' hs_resolved] nth_map [of i hs hs_resolved] assms that l by simp_all
  then show ?thesis unfolding l by (intro find_cong) auto
qed

text \<open>
  C40. A directory message that arrives after a reset can bind a hot symbol to a book that missed the reset: if messages of a locate code created a
  cold book before its directory message was seen, a reset leaves the book as it is, and the directory message then makes it the
  book of the hot symbol. The table returns the index of the symbol, so its caller quotes it at once, and the book shows the orders of before the reset.
\<close>

theorem BookTable_late_directory_binds_stale_book:
  assumes "table_config_ok cfg" and "table_feed cfg t V n" and "btc_scope cfg \<noteq> Scope_ColdOnly"
    and "be_book (bt_books t (BookTable_locateOf msg)) = Some k" and "be_hot (bt_books t (BookTable_locateOf msg)) = kCold"
    and "bb_epoch (bt_storage t ! k) = bt_epoch t" and "\<forall>h \<in> set (bt_hot t). hs_book h \<noteq> Some k"
    and "msg ! 0 = 0x52" and "sizeof_StockDirectory \<le> length msg"
    and "find (\<lambda>i. \<not> hs_resolved (bt_hot t ! i) \<and> hs_name (bt_hot t ! i) = alpha_view (sd_stock (dec_StockDirectory msg))) [0..<BookTable_hotCount t] = Some i"
  shows "fst (BookTable_apply msg (BookTable_clearAll t)) = to_int16 i \<and>
    book_shows (BookTable_hotBook i (snd (BookTable_apply msg (BookTable_clearAll t)))) (V k)"
proof -
  define l where "l = BookTable_locateOf msg"
  define name where "name = alpha_view (sd_stock (dec_StockDirectory msg))"
  define c where "c = BookTable_clearAll t"
  note feed = table_feed_inv [OF assms(2,1)]
  have kb: "k < length (bt_storage t)" using feed assms(4) by (auto simp: table_inv_def)
  then have b: "book_shows (bt_storage t ! k) (V k)" using holds_timely [of n t V k] feed assms(6) inv_shows by auto
  have cc: "bt_storage c ! k = bt_storage t ! k" "bt_books c = bt_books t" "map hs_name (bt_hot c) = map hs_name (bt_hot t)"
    "map hs_resolved (bt_hot c) = map hs_resolved (bt_hot t)" "bt_cfg c = cfg"
    using clear_other [of "t\<lparr>bt_epoch := bt_epoch t + 1, bt_live := 0\<rparr>" k "[0..<length (bt_hot t)]"] assms(7) feed
    by (simp_all add: c_def BookTable_clearAll_def)
  have f: "find (\<lambda>i. \<not> hs_resolved (bt_hot c ! i) \<and> hs_name (bt_hot c ! i) = name) [0..<length (bt_hot c)] = Some i"
    using hot_find_cong [OF cc(3,4), of name] assms(10) by (simp add: name_def BookTable_hotCount_def)
  then have ib: "i < length (bt_hot c)" by (auto simp: find_Some_iff)
  have "BookTable_onDirectory msg l c = resolve_hot l i c"
    unfolding BookTable_onDirectory_def Let_def name_def [symmetric] using assms(4,5,9) cc(2) f by (simp add: l_def)
  then have a: "BookTable_apply msg c = (be_hot (bt_books (resolve_hot l i c) l), resolve_hot l i c)"
    using assms(8) by (simp add: BookTable_apply_def Let_def l_def)
  have r: "be_hot (bt_books (resolve_hot l i c) l) = to_int16 i \<and> BookTable_hotBook i (resolve_hot l i c) = bt_storage c ! k"
    using assms(3,4) cc(2,5) ib by (simp add: resolve_hot_def Let_def l_def BookTable_hotBook_def)
  show ?thesis unfolding c_def [symmetric] using a r b cc(1) by simp
qed

definition demo_directory :: "byte list" where
  "demo_directory = [0x52, 0, 1] @ replicate 8 0 @ [0x41] @ replicate 27 0x20"

theorem BookTable_late_directory_binds_stale_book_witness:
  "fst (BookTable_apply demo_directory (BookTable_clearAll demo_table)) = 0 \<and>
   book_shows (BookTable_hotBook 0 (snd (BookTable_apply demo_directory (BookTable_clearAll demo_table)))) [7 \<mapsto> demo_order]"
proof -
  have d: "BookTable_locateOf demo_directory = 1" "demo_directory ! 0 = 0x52" "sizeof_StockDirectory \<le> length demo_directory"
    "alpha_view (sd_stock (dec_StockDirectory demo_directory)) = [0x41]"
    by code_simp+
  have e: "bb_epoch (bt_storage demo_table ! 0) = bt_epoch demo_table"
    by (simp add: demo_table_def BookTable_apply_def Let_def demo_locate demo_new apply_to_book_def BookTable_create_def entry_upd_def
        demo_table_config_def [THEN arg_cong, of btc_scope] epoch_apply fresh_book_def)
  have "to_int16 0 = 0" by (simp add: to_int16_small)
  then show ?thesis
    using BookTable_late_directory_binds_stale_book [OF demo_table_config_ok demo_table_feed, of demo_directory 0 0] demo_table_book d e
    by (simp add: BookTable_hotCount_def HotSymbol_new_def demo_shelf_def demo_table_config_def [THEN arg_cong, of btc_scope])
qed

end
