(* ===== verification/QuoterStrategy.thy ===== *)
theory QuoterStrategy
  imports OrderManager BookBuilder Complex_Main "HOL-Library.Log_Nat"
begin

text \<open>
  The quoting strategy of \<^verbatim>\<open>dut/QuoterStrategy.hpp\<close> and \<^verbatim>\<open>dut/QuoterStrategy.cpp\<close>. A finite double is the rational number it
  stands for, and every operation on doubles is the exact operation followed by a rounding: \<open>double_round\<close> is the rounding
  to nearest even of 53 bits (the exponent is not bounded: the magnitudes here are far from both ends), and the
  identity gives the same computation in exact arithmetic. Conversions of prices to doubles are exact.
\<close>

section \<open>Rounding\<close>

type_synonym rounding = "rat \<Rightarrow> rat"

definition round_half_even :: "rat \<Rightarrow> int" where
  "round_half_even x =
     (let f = \<lfloor>x\<rfloor>; d = x - of_int f
      in if d < 1 / 2 then f else if d > 1 / 2 then f + 1 else if even f then f else f + 1)"

text \<open>The exponent of the binade: \<open>2 powi e \<le> \<bar>x\<bar> < 2 powi (e + 1)\<close>.\<close>

definition double_exponent :: "rat \<Rightarrow> int" where
  "double_exponent x =
     (let (n, d) = quotient_of \<bar>x\<bar>; e = bitlen n - bitlen d
      in if 2 powi e \<le> \<bar>x\<bar> then e else e - 1)"

definition double_round :: rounding where
  "double_round x = (if x = 0 then 0 else let u = 2 powi (double_exponent x - 52) in of_int (round_half_even (x / u)) * u)"

lemma round_half_even_nonneg: "0 \<le> x \<Longrightarrow> 0 \<le> round_half_even x"
  by (auto simp: round_half_even_def Let_def)

lemma double_round_nonneg: "0 \<le> x \<Longrightarrow> 0 \<le> double_round x"
  by (auto simp: double_round_def Let_def intro!: mult_nonneg_nonneg round_half_even_nonneg)

section \<open>Data\<close>

record QuoterConfig =
  qc_tickWire :: Price
  qc_halfSpreadTicks :: Price
  qc_quoteQty :: Quantity
  qc_skewTicksPerUnit :: rat

record QuoterStrategy =
  qu_cfg :: QuoterConfig
  qu_fairLo :: rat
  qu_fairHi :: rat

definition QuoterStrategy_new :: "QuoterConfig \<Rightarrow> QuoterStrategy" where
  "QuoterStrategy_new cfg = \<lparr>qu_cfg = cfg, qu_fairLo = 0, qu_fairHi = - 1\<rparr>"

definition QuoterStrategy_forget :: "QuoterStrategy \<Rightarrow> QuoterStrategy" where
  "QuoterStrategy_forget q = q\<lparr>qu_fairLo := 0, qu_fairHi := - 1\<rparr>"

section \<open>Operations\<close>

definition roundDownToTick :: "rounding \<Rightarrow> QuoterConfig \<Rightarrow> rat \<Rightarrow> Price \<Rightarrow> Price" where
  "roundDownToTick rnd cfg price origin =
     (if price \<le> of_int origin then origin
      else
        let offset = rnd (price - of_int origin); ticks = \<lfloor>rnd (offset / of_int (qc_tickWire cfg))\<rfloor>
        in origin + ticks * qc_tickWire cfg)"

definition roundUpToTick :: "rounding \<Rightarrow> QuoterConfig \<Rightarrow> rat \<Rightarrow> Price \<Rightarrow> Price" where
  "roundUpToTick rnd cfg price origin =
     (if price \<le> of_int origin then origin
      else
        let offset = rnd (price - of_int origin); ticks = \<lceil>rnd (offset / of_int (qc_tickWire cfg))\<rceil>
        in origin + ticks * qc_tickWire cfg)"

definition clampToBand :: "Price \<Rightarrow> BookBuilder \<Rightarrow> Price" where
  "clampToBand price book =
     (if price < bb_minPrice book then bb_minPrice book else if price > bb_maxPrice book then bb_maxPrice book else price)"

text \<open>The size-weighted price as a fraction: the numerator is computed in 64-bit integers.\<close>

definition micro_price :: "rounding \<Rightarrow> BookBuilder \<Rightarrow> rat \<times> rat" where
  "micro_price rnd book =
     (let bb = bb_bestBid book; ba = bb_bestAsk book;
          bidSz = ucast (BookBuilder_sizeAt Buy bb book) :: u64;
          askSz = ucast (BookBuilder_sizeAt Sell ba book) :: u64;
          total = bidSz + askSz
      in if total = 0 then (rnd (of_int bb + of_int ba), 2)
         else (rnd (of_int (uint (of_int bb * askSz + of_int ba * bidSz))), rnd (of_int (uint total))))"

definition inventory_skew :: "rounding \<Rightarrow> QuoterConfig \<Rightarrow> 64 word \<Rightarrow> rat" where
  "inventory_skew rnd cfg position = rnd (rnd (- rnd (of_int (sint position)) * qc_skewTicksPerUnit cfg) * of_int (qc_tickWire cfg))"

definition half_spread :: "rounding \<Rightarrow> QuoterConfig \<Rightarrow> rat" where
  "half_spread rnd cfg = rnd (of_int (qc_halfSpreadTicks cfg) * of_int (qc_tickWire cfg))"

definition raw_bid :: "rounding \<Rightarrow> QuoterConfig \<Rightarrow> 64 word \<Rightarrow> rat \<Rightarrow> Price \<Rightarrow> Price" where
  "raw_bid rnd cfg position fair origin =
     roundDownToTick rnd cfg (rnd (rnd (fair - half_spread rnd cfg) + inventory_skew rnd cfg position)) origin"

definition raw_ask :: "rounding \<Rightarrow> QuoterConfig \<Rightarrow> 64 word \<Rightarrow> rat \<Rightarrow> Price \<Rightarrow> Price" where
  "raw_ask rnd cfg position fair origin =
     roundUpToTick rnd cfg (rnd (rnd (fair + half_spread rnd cfg) + inventory_skew rnd cfg position)) origin"

text \<open>The range of fair values for which the quotes stay as they are.\<close>

definition remember_range :: "rounding \<Rightarrow> 64 word \<Rightarrow> Price \<Rightarrow> Price \<Rightarrow> QuoterStrategy \<Rightarrow> QuoterStrategy" where
  "remember_range rnd position bid ask q =
     (let cfg = qu_cfg q; half = half_spread rnd cfg; skew = inventory_skew rnd cfg position; tick = qc_tickWire cfg
      in q\<lparr>qu_fairLo := max (rnd (rnd (of_int bid + half) - skew)) (rnd (rnd (of_int (ask - tick) - half) - skew)),
           qu_fairHi := min (rnd (rnd (of_int (bid + tick) + half) - skew)) (rnd (rnd (of_int ask - half) - skew))\<rparr>)"

definition plain_quote :: "Price \<Rightarrow> Price \<Rightarrow> BookBuilder \<Rightarrow> bool" where
  "plain_quote bid ask book \<longleftrightarrow>
     bid > bb_minPrice book \<and> ask > bb_minPrice book \<and> bid < ask \<and> bid \<ge> bb_minPrice book \<and> ask \<le> bb_maxPrice book"

definition quote_pair :: "QuoterConfig \<Rightarrow> Price \<Rightarrow> Price \<Rightarrow> BookBuilder \<Rightarrow> QuoteTargets" where
  "quote_pair cfg bid ask book =
     (let bid1 = (if bid \<ge> ask then ask - qc_tickWire cfg else bid)
      in \<lparr>qt_quoteBid = True, qt_bidPrice = clampToBand bid1 book, qt_bidQty = qc_quoteQty cfg,
          qt_quoteAsk = True, qt_askPrice = clampToBand ask book, qt_askQty = qc_quoteQty cfg\<rparr>)"

definition QuoterStrategy_onBook ::
  "rounding \<Rightarrow> BookBuilder \<Rightarrow> 64 word \<Rightarrow> QuoteTargets \<Rightarrow> QuoterStrategy \<Rightarrow> bool \<times> QuoteTargets \<times> QuoterStrategy" where
  "QuoterStrategy_onBook rnd book position out q =
     (if bb_bestBid book = kNoPrice \<or> bb_bestAsk book = kNoPrice then (True, QuoteTargets_none, QuoterStrategy_forget q)
      else
        let (num, den) = micro_price rnd book in
        if num > rnd (qu_fairLo q * den) \<and> num < rnd (qu_fairHi q * den) then (False, out, q)
        else
          let fair = rnd (num / den);
              bid = raw_bid rnd (qu_cfg q) position fair (bb_minPrice book);
              ask = raw_ask rnd (qu_cfg q) position fair (bb_minPrice book)
          in (True, quote_pair (qu_cfg q) bid ask book,
              if plain_quote bid ask book then remember_range rnd position bid ask q else QuoterStrategy_forget q))"

section \<open>Quotes\<close>

definition quote_pair_ok :: "QuoteTargets \<Rightarrow> QuoterConfig \<Rightarrow> BookBuilder \<Rightarrow> bool" where
  "quote_pair_ok out cfg book \<longleftrightarrow>
     qt_quoteBid out \<and> qt_quoteAsk out \<and> qt_bidQty out = qc_quoteQty cfg \<and> qt_askQty out = qc_quoteQty cfg \<and>
     bb_minPrice book \<le> qt_bidPrice out \<and> qt_bidPrice out \<le> qt_askPrice out \<and> qt_askPrice out \<le> bb_maxPrice book \<and>
     (qt_bidPrice out = qt_askPrice out \<longrightarrow> qt_askPrice out = bb_minPrice book \<or> qt_bidPrice out = bb_maxPrice book)"

lemma quote_pair_ok:
  assumes "0 < qc_tickWire cfg" and "bb_minPrice book \<le> bb_maxPrice book"
  shows "quote_pair_ok (quote_pair cfg bid ask book) cfg book"
proof -
  define b1 where "b1 = (if bid \<ge> ask then ask - qc_tickWire cfg else bid)"
  have "b1 < ask" using assms(1) by (auto simp: b1_def)
  then show ?thesis unfolding quote_pair_ok_def quote_pair_def b1_def [symmetric] Let_def using assms(2) by (auto simp: clampToBand_def)
qed


section \<open>The remembered range\<close>

lemma grid_down:
  assumes "0 < tick" and "of_int (origin + k * tick) \<le> p" and "p < of_int (origin + k * tick + tick)"
  shows "\<lfloor>(p - of_int origin) / of_int tick :: rat\<rfloor> = k"
  using assms by (simp add: floor_eq_iff divide_simps algebra_simps)

lemma grid_up:
  assumes "0 < tick" and "of_int (origin + k * tick - tick) < p" and "p \<le> of_int (origin + k * tick)"
  shows "\<lceil>(p - of_int origin) / of_int tick :: rat\<rceil> = k"
  using assms by (simp add: ceiling_eq_iff divide_simps algebra_simps)

lemma down_same:
  assumes "0 < qc_tickWire cfg" and "\<exists>k. bid = origin + k * qc_tickWire cfg" and "origin \<le> bid" and "of_int bid < p" and "p < of_int (bid + qc_tickWire cfg)"
  shows "roundDownToTick id cfg p origin = bid"
proof -
  obtain k where k: "bid = origin + k * qc_tickWire cfg" using assms(2) by blast
  have "of_int origin < p" using assms(3,4) by (meson of_int_le_iff order_le_less_trans)
  moreover have "\<lfloor>(p - of_int origin) / of_int (qc_tickWire cfg)\<rfloor> = k" using grid_down [OF assms(1), of origin k p] assms(4,5) k by simp
  ultimately show ?thesis using k by (simp add: roundDownToTick_def Let_def)
qed

lemma up_same:
  assumes "0 < qc_tickWire cfg" and "\<exists>k. ask = origin + k * qc_tickWire cfg" and "origin < ask" and "of_int (ask - qc_tickWire cfg) < p" and "p < of_int ask"
  shows "roundUpToTick id cfg p origin = ask"
proof -
  obtain k where k: "ask = origin + k * qc_tickWire cfg" using assms(2) by blast
  have "0 < k" using assms(1,3) k by (simp add: zero_less_mult_iff)
  then have "1 * qc_tickWire cfg \<le> k * qc_tickWire cfg" using assms(1) by (intro mult_right_mono) auto
  then have "origin \<le> ask - qc_tickWire cfg" using k by simp
  then have "of_int origin < p" using assms(4) by (meson of_int_le_iff order_le_less_trans)
  moreover have "\<lceil>(p - of_int origin) / of_int (qc_tickWire cfg)\<rceil> = k" using grid_up [OF assms(1), of origin k p] assms(4,5) k by simp
  ultimately show ?thesis using k by (simp add: roundUpToTick_def Let_def)
qed

lemma round_grid: "\<exists>k. roundDownToTick rnd cfg p origin = origin + k * qc_tickWire cfg" "\<exists>k. roundUpToTick rnd cfg p origin = origin + k * qc_tickWire cfg"
  by (auto simp: roundDownToTick_def roundUpToTick_def Let_def intro: exI [of _ 0])

lemma micro_den_pos: "0 < snd (micro_price id book)"
proof -
  have "0 < (of_int (uint w) :: rat)" if "w \<noteq> 0" for w :: u64
  proof -
    have "0 < uint w" using that by (simp add: word_neq_0_conv word_less_def)
    then show ?thesis by (rule iffD2 [OF of_int_0_less_iff])
  qed
  then show ?thesis by (auto simp: micro_price_def Let_def simp del: of_int_uint)
qed

lemma remembered_same:
  assumes "0 < qc_tickWire (qu_cfg q)" and "plain_quote bid ask book"
    and "\<exists>k. bid = bb_minPrice book + k * qc_tickWire (qu_cfg q)" and "\<exists>k. ask = bb_minPrice book + k * qc_tickWire (qu_cfg q)"
    and "qu_fairLo (remember_range id position bid ask q) < fair" and "fair < qu_fairHi (remember_range id position bid ask q)"
  shows "raw_bid id (qu_cfg q) position fair (bb_minPrice book) = bid \<and> raw_ask id (qu_cfg q) position fair (bb_minPrice book) = ask"
proof -
  have "of_int bid < fair - half_spread id (qu_cfg q) + inventory_skew id (qu_cfg q) position"
    "fair - half_spread id (qu_cfg q) + inventory_skew id (qu_cfg q) position < of_int (bid + qc_tickWire (qu_cfg q))"
    "of_int (ask - qc_tickWire (qu_cfg q)) < fair + half_spread id (qu_cfg q) + inventory_skew id (qu_cfg q) position"
    "fair + half_spread id (qu_cfg q) + inventory_skew id (qu_cfg q) position < of_int ask"
    using assms(5,6) by (simp_all add: remember_range_def Let_def algebra_simps)
  then show ?thesis using down_same [OF assms(1,3)] up_same [OF assms(1,4)] assms(2)
    by (simp add: raw_bid_def raw_ask_def plain_quote_def)
qed

lemma forgotten_range: "\<not> (qu_fairLo (QuoterStrategy_forget q) * den < num \<and> num < qu_fairHi (QuoterStrategy_forget q) * den)" if "0 < (den::rat)"
  using that by (simp add: QuoterStrategy_forget_def)

text \<open>
  C25. The remembered range is sound: in exact arithmetic, when an update is suppressed because its fair value
  lies in the range an earlier quote left, the full computation would have produced exactly the same quotes, as long as the position and
  the band are the same.
\<close>

theorem QuoterStrategy_range_sound:
  assumes tick: "0 < qc_tickWire (qu_cfg q)"
    and first: "QuoterStrategy_onBook id book1 position out q = (True, out1, q1)"
    and band: "bb_minPrice book2 = bb_minPrice book1" "bb_maxPrice book2 = bb_maxPrice book1"
    and second: "QuoterStrategy_onBook id book2 position out1 q1 = (False, out2, q2)"
  shows "\<exists>q3. QuoterStrategy_onBook id book2 position out1 (QuoterStrategy_forget q1) = (True, out1, q3)"
proof -
  obtain num den where m: "micro_price id book2 = (num, den)" by fastforce
  have den: "0 < den" using micro_den_pos [of book2] m by simp
  have p2: "bb_bestBid book2 \<noteq> kNoPrice" "bb_bestAsk book2 \<noteq> kNoPrice" "qu_fairLo q1 * den < num" "num < qu_fairHi q1 * den"
    using second m by (auto simp: QuoterStrategy_onBook_def Let_def split: if_splits)
  then have fair: "qu_fairLo q1 < num / den" "num / den < qu_fairHi q1" using den by (simp_all add: divide_simps)
  have "q1 \<noteq> QuoterStrategy_forget q" using forgotten_range [OF den, of q num] p2(3,4) by auto
  then obtain bid ask where q1: "plain_quote bid ask book1" "q1 = remember_range id position bid ask q" "out1 = quote_pair (qu_cfg q) bid ask book1"
      "\<exists>k. bid = bb_minPrice book1 + k * qc_tickWire (qu_cfg q)" "\<exists>k. ask = bb_minPrice book1 + k * qc_tickWire (qu_cfg q)"
    using first by (auto simp: QuoterStrategy_onBook_def Let_def raw_bid_def raw_ask_def round_grid split: prod.splits if_splits)
  have c: "qu_cfg q1 = qu_cfg q" using q1(2) by (simp add: remember_range_def Let_def)
  have "raw_bid id (qu_cfg q) position (num / den) (bb_minPrice book1) = bid \<and> raw_ask id (qu_cfg q) position (num / den) (bb_minPrice book1) = ask"
    using remembered_same [OF tick q1(1,4,5)] fair q1(2) by simp
  moreover have "clampToBand p book2 = clampToBand p book1" for p using band by (simp add: clampToBand_def)
  then have "quote_pair (qu_cfg q) bid ask book2 = out1" using q1(3) by (simp add: quote_pair_def)
  ultimately show ?thesis
    using p2(1,2) m band c forgotten_range [OF den, of q1 num] by (auto simp: QuoterStrategy_onBook_def Let_def QuoterStrategy_forget_def)
qed

definition demo_quoter :: QuoterStrategy where
  "demo_quoter = QuoterStrategy_new \<lparr>qc_tickWire = 100, qc_halfSpreadTicks = 1, qc_quoteQty = 5, qc_skewTicksPerUnit = 0\<rparr>"

definition demo_top :: "Price \<Rightarrow> Price \<Rightarrow> BookBuilder" where
  "demo_top bid ask = (BookBuilder_range 0 1000 20 16 0)\<lparr>bb_bestBid := bid, bb_bestAsk := ask\<rparr>"

lemma demo_sizes: "BookBuilder_sizeAt Buy 400 (demo_top 400 x) = 0" "BookBuilder_sizeAt Sell 620 (demo_top y 620) = 0" "BookBuilder_sizeAt Sell 640 (demo_top y 640) = 0"
  by code_simp+


definition demo_first :: "bool \<times> QuoteTargets \<times> QuoterStrategy" where
  "demo_first = QuoterStrategy_onBook id (demo_top 400 620) 0 QuoteTargets_none demo_quoter"

lemma demo_runs:
  "fst demo_first" "\<not> fst (QuoterStrategy_onBook id (demo_top 400 640) 0 (fst (snd demo_first)) (snd (snd demo_first)))"
  by code_simp+

theorem QuoterStrategy_range_sound_witness:
  "\<exists>q3. QuoterStrategy_onBook id (demo_top 400 640) 0 (fst (snd demo_first)) (QuoterStrategy_forget (snd (snd demo_first))) =
     (True, fst (snd demo_first), q3)"
proof -
  obtain out1 q1 where one: "QuoterStrategy_onBook id (demo_top 400 620) 0 QuoteTargets_none demo_quoter = (True, out1, q1)"
    using demo_runs(1) by (cases demo_first) (simp add: demo_first_def)
  obtain out2 q2 where two: "QuoterStrategy_onBook id (demo_top 400 640) 0 out1 q1 = (False, out2, q2)"
    using demo_runs(2) one by (cases "QuoterStrategy_onBook id (demo_top 400 640) 0 out1 q1") (simp add: demo_first_def)
  from QuoterStrategy_range_sound [OF _ one _ _ two] show ?thesis
    using one by (simp add: demo_first_def demo_quoter_def QuoterStrategy_new_def) (simp add: demo_top_def)
qed

end
