(* ===== verification/ColdShard.thy ===== *)
theory ColdShard
  imports BookTable MoldUdp64
begin

text \<open>
  The shard of cold books of \<^verbatim>\<open>dut/ColdShard.hpp\<close> and \<^verbatim>\<open>dut/ColdShard.cpp\<close>: the receiving thread pushes references to
  packets into a single-producer single-consumer queue, a thread of the shard takes them out and applies them to its own table of
  books. The queue is third-party code: its operations are the argument \<open>sq\<close>, and \<open>spsc_laws\<close> states what its
  documentation promises. A reference to a packet is the bytes it refers to, and none for the null reference that asks for a reset.
  The two threads share the queue only; \<open>cold_step\<close> interleaves their steps.
\<close>

section \<open>The queue\<close>

type_synonym FrameRef = "byte list option"

record ('q, 'a) SpscOps =
  sq_push :: "'a \<Rightarrow> 'q \<Rightarrow> 'q option"
  sq_front :: "'q \<Rightarrow> 'a option"
  sq_pop :: "'q \<Rightarrow> 'q"
  sq_size :: "'q \<Rightarrow> nat"

text \<open>\<open>sq_push\<close> is \<^verbatim>\<open>try_emplace\<close> or \<^verbatim>\<open>try_push\<close>: none when the queue is full.\<close>

definition spsc_laws :: "('q, 'a) SpscOps \<Rightarrow> ('q \<Rightarrow> 'a list) \<Rightarrow> bool" where
  "spsc_laws sq contents \<longleftrightarrow>
     (\<forall>x q q'. sq_push sq x q = Some q' \<longrightarrow> contents q' = contents q @ [x]) \<and>
     (\<forall>q. sq_front sq q = (case contents q of [] \<Rightarrow> None | x # _ \<Rightarrow> Some x)) \<and>
     (\<forall>q. contents (sq_pop sq q) = tl (contents q)) \<and>
     (\<forall>q. sq_size sq q = length (contents q))"

text \<open>A bounded list is such a queue.\<close>

definition list_queue :: "nat \<Rightarrow> ('a list, 'a) SpscOps" where
  "list_queue cap =
     \<lparr>sq_push = (\<lambda>x q. if length q < cap then Some (q @ [x]) else None), sq_front = (\<lambda>q. case q of [] \<Rightarrow> None | x # _ \<Rightarrow> Some x),
      sq_pop = tl, sq_size = length\<rparr>"

lemma list_queue_laws: "spsc_laws (list_queue cap) (\<lambda>q. q)"
  by (auto simp: spsc_laws_def list_queue_def split: if_splits)

section \<open>The shard\<close>

record 'q ColdShard =
  cs_books :: BookTable
  cs_queue :: 'q
  cs_safeDepth :: nat
  cs_dropped :: u64
  cs_applied :: u64
  cs_packets :: u64
  cs_stale :: u64
  cs_maxDepth :: nat
  cs_reanchorSeqs :: "u64 list"
  cs_reanchorCount :: nat
  cs_sinceDepth :: u32

definition kLifetimeMargin :: nat where "kLifetimeMargin = 1024"
definition kDepthSampleEvery :: u32 where "kDepthSampleEvery = 256"

definition ColdShard_new :: "BookTableConfig \<Rightarrow> nat \<Rightarrow> 'q \<Rightarrow> 'q ColdShard" where
  "ColdShard_new cfg queueCapacity queue =
     \<lparr>cs_books = BookTable_new cfg, cs_queue = queue,
      cs_safeDepth = (if queueCapacity > kLifetimeMargin then queueCapacity - kLifetimeMargin else queueCapacity),
      cs_dropped = 0, cs_applied = 0, cs_packets = 0, cs_stale = 0, cs_maxDepth = 0,
      cs_reanchorSeqs = replicate 16 0, cs_reanchorCount = 0, cs_sinceDepth = 0\<rparr>"

definition ColdShard_push :: "('q, FrameRef) SpscOps \<Rightarrow> byte list \<Rightarrow> 'q ColdShard \<Rightarrow> bool \<times> 'q ColdShard" where
  "ColdShard_push sq moldPacket s =
     (case sq_push sq (Some moldPacket) (cs_queue s) of
        None \<Rightarrow> (False, s\<lparr>cs_dropped := cs_dropped s + 1\<rparr>)
      | Some q \<Rightarrow> (True, s\<lparr>cs_queue := q\<rparr>))"

text \<open>One round of the loop of \<^verbatim>\<open>reset\<close>; none when the queue is full and the loop goes round again.\<close>

definition ColdShard_reset :: "('q, FrameRef) SpscOps \<Rightarrow> 'q ColdShard \<Rightarrow> 'q ColdShard option" where
  "ColdShard_reset sq s = map_option (\<lambda>q. s\<lparr>cs_queue := q\<rparr>) (sq_push sq None (cs_queue s))"

definition ColdShard_applyOne :: "byte list \<Rightarrow> 'q ColdShard \<Rightarrow> 'q ColdShard" where
  "ColdShard_applyOne msg s =
     (if length msg < 11 then s
      else if msg ! 0 = 0x53 then
        if length msg \<ge> sizeof_SystemEvent \<and> se_eventCode (dec_SystemEvent msg) = SystemEventCode_code Ev_StartOfMessages then
          s\<lparr>cs_books := BookTable_clearAll (cs_books s)\<rparr>
        else s
      else s\<lparr>cs_books := snd (BookTable_apply msg (cs_books s)), cs_applied := cs_applied s + 1\<rparr>)"

definition ColdShard_applyFrame :: "byte list \<Rightarrow> 'q ColdShard \<Rightarrow> 'q ColdShard" where
  "ColdShard_applyFrame moldPacket s =
     (let s1 = s\<lparr>cs_packets := cs_packets s + 1\<rparr>;
          before = BookTable_reanchors (cs_books s1);
          s2 = fold ColdShard_applyOne (map snd (forEachMessage moldPacket)) s1
      in if BookTable_reanchors (cs_books s2) \<noteq> before then
           s2\<lparr>cs_reanchorSeqs := (cs_reanchorSeqs s2)[cs_reanchorCount s2 mod length (cs_reanchorSeqs s2) := sequenceOf moldPacket],
              cs_reanchorCount := cs_reanchorCount s2 + 1\<rparr>
         else s2)"

definition ColdShard_consume :: "('q, FrameRef) SpscOps \<Rightarrow> FrameRef \<Rightarrow> 'q ColdShard \<Rightarrow> 'q ColdShard" where
  "ColdShard_consume sq f s =
     (case f of
        None \<Rightarrow> s\<lparr>cs_books := BookTable_clearAll (cs_books s)\<rparr>
      | Some p \<Rightarrow>
          if sq_size sq (cs_queue s) > cs_safeDepth s then s\<lparr>cs_stale := cs_stale s + 1\<rparr>
          else ColdShard_applyFrame p s)"

text \<open>One round of \<^verbatim>\<open>loop\<close>: none when the queue is empty.\<close>

definition ColdShard_round :: "('q, FrameRef) SpscOps \<Rightarrow> 'q ColdShard \<Rightarrow> 'q ColdShard option" where
  "ColdShard_round sq s =
     (case sq_front sq (cs_queue s) of
        None \<Rightarrow> None
      | Some f \<Rightarrow>
          let s1 = ColdShard_consume sq f s;
              s2 = s1\<lparr>cs_queue := sq_pop sq (cs_queue s1), cs_sinceDepth := cs_sinceDepth s1 + 1\<rparr>
          in Some (if cs_sinceDepth s2 = kDepthSampleEvery then
                     s2\<lparr>cs_sinceDepth := 0, cs_maxDepth := max (sq_size sq (cs_queue s2)) (cs_maxDepth s2)\<rparr>
                   else s2))"

definition ColdShard_reanchorSeqs :: "'q ColdShard \<Rightarrow> u64 list" where
  "ColdShard_reanchorSeqs s = take (min (cs_reanchorCount s) (length (cs_reanchorSeqs s))) (cs_reanchorSeqs s)"

section \<open>Interleavings\<close>

text \<open>
  \<open>cold_run sq s0 sent refused s\<close>: from the shard \<open>s0\<close> the two threads can reach \<open>s\<close>, after the producer put the frames
  \<open>sent\<close> into the queue, in this order, and was refused \<open>refused\<close> times.
\<close>

inductive cold_run :: "('q, FrameRef) SpscOps \<Rightarrow> 'q ColdShard \<Rightarrow> FrameRef list \<Rightarrow> nat \<Rightarrow> 'q ColdShard \<Rightarrow> bool" for sq s0 where
  start: "cold_run sq s0 [] 0 s0"
| push: "cold_run sq s0 sent r s \<Longrightarrow> ColdShard_push sq p s = (True, s') \<Longrightarrow> cold_run sq s0 (sent @ [Some p]) r s'"
| refuse: "cold_run sq s0 sent r s \<Longrightarrow> ColdShard_push sq p s = (False, s') \<Longrightarrow> cold_run sq s0 sent (Suc r) s'"
| reset: "cold_run sq s0 sent r s \<Longrightarrow> ColdShard_reset sq s = Some s' \<Longrightarrow> cold_run sq s0 (sent @ [None]) r s'"
| round: "cold_run sq s0 sent r s \<Longrightarrow> ColdShard_round sq s = Some s' \<Longrightarrow> cold_run sq s0 sent r s'"

text \<open>What a frame does to the books.\<close>

definition message_books :: "byte list \<Rightarrow> BookTable \<Rightarrow> BookTable" where
  "message_books msg t =
     (if length msg < 11 then t
      else if msg ! 0 = 0x53 then
        if length msg \<ge> sizeof_SystemEvent \<and> se_eventCode (dec_SystemEvent msg) = SystemEventCode_code Ev_StartOfMessages then BookTable_clearAll t
        else t
      else snd (BookTable_apply msg t))"

definition frame_books :: "FrameRef \<Rightarrow> BookTable \<Rightarrow> BookTable" where
  "frame_books f t = (case f of None \<Rightarrow> BookTable_clearAll t | Some p \<Rightarrow> fold message_books (map snd (forEachMessage p)) t)"

lemma applyOne_fields:
  "cs_books (ColdShard_applyOne msg s) = message_books msg (cs_books s)" "cs_queue (ColdShard_applyOne msg s) = cs_queue s"
  "cs_stale (ColdShard_applyOne msg s) = cs_stale s" "cs_dropped (ColdShard_applyOne msg s) = cs_dropped s"
  by (simp_all add: ColdShard_applyOne_def message_books_def)

lemma applyFrame_fields:
  "cs_books (ColdShard_applyFrame p s) = frame_books (Some p) (cs_books s)" "cs_queue (ColdShard_applyFrame p s) = cs_queue s"
  "cs_stale (ColdShard_applyFrame p s) = cs_stale s" "cs_dropped (ColdShard_applyFrame p s) = cs_dropped s"
proof -
  have "cs_books (fold ColdShard_applyOne ms s) = fold message_books ms (cs_books s) \<and> cs_queue (fold ColdShard_applyOne ms s) = cs_queue s \<and>
      cs_stale (fold ColdShard_applyOne ms s) = cs_stale s \<and> cs_dropped (fold ColdShard_applyOne ms s) = cs_dropped s" for ms and s :: "'a ColdShard"
    by (induction ms arbitrary: s) (simp_all add: applyOne_fields)
  then show "cs_books (ColdShard_applyFrame p s) = frame_books (Some p) (cs_books s)" "cs_queue (ColdShard_applyFrame p s) = cs_queue s"
    "cs_stale (ColdShard_applyFrame p s) = cs_stale s" "cs_dropped (ColdShard_applyFrame p s) = cs_dropped s"
    by (simp_all add: ColdShard_applyFrame_def Let_def frame_books_def)
qed

text \<open>
  The frames that were taken are a prefix of those sent, the rest waits in the queue; the books are those of the frames taken,
  without the ones counted as stale, in the order they were sent.
\<close>

definition cold_inv :: "('q \<Rightarrow> FrameRef list) \<Rightarrow> BookTable \<Rightarrow> FrameRef list \<Rightarrow> nat \<Rightarrow> 'q ColdShard \<Rightarrow> bool" where
  "cold_inv contents t sent r s \<longleftrightarrow>
     (\<exists>taken. sent = map fst taken @ contents (cs_queue s) \<and>
        cs_books s = fold frame_books (map fst (filter snd taken)) t \<and>
        cs_stale s = of_nat (length (filter (Not \<circ> snd) taken)) \<and> (\<forall>x \<in> set taken. fst x = None \<longrightarrow> snd x)) \<and>
     cs_dropped s = of_nat r"

lemma round_inv:
  assumes laws: "spsc_laws sq contents" and inv: "cold_inv contents t sent r s" and step: "ColdShard_round sq s = Some s'"
  shows "cold_inv contents t sent r s'"
proof -
  obtain f rest where f: "contents (cs_queue s) = f # rest" "sq_front sq (cs_queue s) = Some f"
    using step laws by (cases "contents (cs_queue s)") (auto simp: ColdShard_round_def spsc_laws_def)
  define c where "c = ColdShard_consume sq f s"
  define ok where "ok \<longleftrightarrow> f = None \<or> \<not> sq_size sq (cs_queue s) > cs_safeDepth s"
  have c: "cs_queue c = cs_queue s" "cs_dropped c = cs_dropped s" "cs_books c = (if ok then frame_books f (cs_books s) else cs_books s)"
    "cs_stale c = cs_stale s + (if ok then 0 else 1)"
    by (auto simp: c_def ColdShard_consume_def ok_def applyFrame_fields frame_books_def split: option.split)
  have s': "cs_queue s' = sq_pop sq (cs_queue s)" "cs_dropped s' = cs_dropped s" "cs_books s' = cs_books c" "cs_stale s' = cs_stale c"
    using step f(2) c by (auto simp: ColdShard_round_def c_def [symmetric] Let_def)
  have q: "contents (cs_queue s') = rest" using s'(1) f(1) laws by (simp add: spsc_laws_def)
  obtain taken where taken: "sent = map fst taken @ contents (cs_queue s)" "cs_books s = fold frame_books (map fst (filter snd taken)) t"
    "cs_stale s = of_nat (length (filter (Not \<circ> snd) taken))" "\<forall>x \<in> set taken. fst x = None \<longrightarrow> snd x" and r: "cs_dropped s = of_nat r"
    using inv unfolding cold_inv_def by blast
  show ?thesis unfolding cold_inv_def
    using taken r q f(1) s' c by (intro conjI exI [of _ "taken @ [(f, ok)]"]) (auto simp: ok_def)
qed


definition demo_shard :: "FrameRef list ColdShard" where
  "demo_shard = ColdShard_new \<lparr>btc_tickWire = 100, btc_subDollarTick = 1, btc_coldBandTicks = 2, btc_hotBandTicks = 2, btc_maxBandTicks = 4,
     btc_byPrice = None, btc_coldMapSlots = 16, btc_hotMapSlots = 16, btc_ownRefMin = 0, btc_hotSymbols = [], btc_hotLocates = [],
     btc_profiles = [], btc_scope = Scope_ColdOnly\<rparr> 2 []"


end
