(* ===== verification/DutSession.thy ===== *)
theory DutSession
  imports OrderManager SequenceTracker SoupBinTcp Net ColdShard
begin

text \<open>
  The trading session of \<^verbatim>\<open>dut/DutSession.hpp\<close>: it receives market data packets, tracks their sequence numbers, applies their
  messages to the books, asks the strategy for quotes when the top of a book moved, and sends the requests of the order manager.
  The class is a template; modelled are the instances without software timing (\<^verbatim>\<open>build::kSwTiming\<close> is false, so the recorders and time
  stamps of the pipeline are compiled out) and without hardware stamps, in the three modes: in memory, on a socket that the session drives
  itself, and on a packet ring. The strategy is the argument \<open>ops\<close>, the queue of the cold shard \<open>sq\<close>, and \<open>room\<close> says whether the transmit
  ring has a buffer for the next frame, by the number of frames committed. What goes out is the list \<open>ds_out_wire\<close>: the OUCH requests
  in memory, the bytes given to \<^verbatim>\<open>send\<close>, or the frames committed. Prefetching has no effect on the state.
\<close>

section \<open>Data\<close>

datatype IoMode = Io_Loopback | Io_Socket | Io_Transport

record 's StrategyOps =
  st_onBook :: "BookBuilder \<Rightarrow> 64 word \<Rightarrow> QuoteTargets \<Rightarrow> 's \<Rightarrow> bool \<times> QuoteTargets \<times> 's"
  st_forget :: "'s \<Rightarrow> 's"

record DutConfig =
  dc_symbols :: "byte list list"
  dc_locates :: "u16 list"
  dc_profiles :: "SymbolProfile list"
  dc_tickWire :: Price
  dc_coldBandTicks :: nat
  dc_hotBandTicks :: nat
  dc_byPrice :: "(Price \<Rightarrow> Price \<Rightarrow> nat) option"
  dc_coldMapSlots :: nat
  dc_hotMapSlots :: nat
  dc_ownRefMin :: OrderId
  dc_coldShard :: bool
  dc_coldQueue :: nat
  dc_marketHoursOnly :: bool
  dc_firstUserRef :: u32

record InFlight =
  if_userRef :: u32
  if_rxStamp :: u64
  if_ctx :: u64
  if_sendTsc :: u64
  if_live :: bool

definition InFlight_new :: InFlight where
  "InFlight_new = \<lparr>if_userRef = 0, if_rxStamp = 0, if_ctx = 0, if_sendTsc = 0, if_live = False\<rparr>"

record ('s, 'q) DutSession =
  ds_mode :: IoMode
  ds_cfg :: DutConfig
  ds_books :: BookTable
  ds_cold :: "'q ColdShard option"
  ds_strats :: "'s list"
  ds_oms :: OrderManager
  ds_seq :: SequenceTracker
  ds_t2t :: "(u64 \<times> u64) list"
  ds_lastRxTsc :: u64
  ds_idleSince :: bool
  ds_ordersSent :: u32
  ds_commits :: u32
  ds_reapHit :: bool
  ds_packets :: u64
  ds_resets :: u32
  ds_feedFaults :: u32
  ds_lastFault :: u64
  ds_marketOpen :: bool
  ds_feedValid :: bool
  ds_reconcileAll :: bool
  ds_idlePolls :: u32
  ds_warmNext :: nat
  ds_out :: "Outbound list"
  ds_warm :: QuoteTargets
  ds_warmOut :: Outbound
  ds_topSeen :: "u32 list"
  ds_inflight :: "InFlight list"
  ds_rx :: "byte list"
  ds_loggedIn :: bool
  ds_framer :: "byte list"
  ds_oeHeaders :: "byte list list"
  ds_ackPort :: u16
  ds_out_wire :: "byte list list"

definition kInFlight :: nat where "kInFlight = 1024"
definition kDirtyTop :: u32 where "kDirtyTop = 0xFFFFFFFF"
definition kIdleWarmEvery :: u32 where "kIdleWarmEvery = 512"
definition kMaxOutbound :: nat where "kMaxOutbound = 2"
definition kTxSignalEvery :: u32 where "kTxSignalEvery = 64"

definition tableConfigOf :: "DutConfig \<Rightarrow> BookScope \<Rightarrow> BookTableConfig" where
  "tableConfigOf cfg scope =
     \<lparr>btc_tickWire = dc_tickWire cfg, btc_subDollarTick = 1, btc_coldBandTicks = dc_coldBandTicks cfg, btc_hotBandTicks = dc_hotBandTicks cfg,
      btc_maxBandTicks = 2 ^ 16, btc_byPrice = dc_byPrice cfg, btc_coldMapSlots = dc_coldMapSlots cfg, btc_hotMapSlots = dc_hotMapSlots cfg,
      btc_ownRefMin = dc_ownRefMin cfg, btc_hotSymbols = dc_symbols cfg, btc_hotLocates = dc_locates cfg, btc_profiles = dc_profiles cfg,
      btc_scope = scope\<rparr>"

definition DutSession_new :: "IoMode \<Rightarrow> 'q \<Rightarrow> DutConfig \<Rightarrow> 's \<Rightarrow> ('s, 'q) DutSession" where
  "DutSession_new mode queue cfg strat =
     (let books = BookTable_new (tableConfigOf cfg (if dc_coldShard cfg then Scope_HotOnly else Scope_All));
          hot = BookTable_hotCount books
      in \<lparr>ds_mode = mode, ds_cfg = cfg, ds_books = books,
          ds_cold = (if dc_coldShard cfg then Some (ColdShard_new (tableConfigOf cfg Scope_ColdOnly) (dc_coldQueue cfg) queue) else None),
          ds_strats = replicate hot strat, ds_oms = OrderManager_new (dc_symbols cfg) (dc_firstUserRef cfg),
          ds_seq = SequenceTracker_new, ds_t2t = [], ds_lastRxTsc = 0, ds_idleSince = True, ds_ordersSent = 0, ds_commits = 0,
          ds_reapHit = False, ds_packets = 0, ds_resets = 0, ds_feedFaults = 0, ds_lastFault = 0, ds_marketOpen = False,
          ds_feedValid = True, ds_reconcileAll = False, ds_idlePolls = 0, ds_warmNext = 0, ds_out = replicate kMaxOutbound Outbound_new, ds_warm = QuoteTargets_none,
          ds_warmOut = Outbound_new, ds_topSeen = replicate hot 0, ds_inflight = replicate kInFlight InFlight_new, ds_rx = [],
          ds_loggedIn = False, ds_framer = [], ds_oeHeaders = [], ds_ackPort = 0, ds_out_wire = []\<rparr>)"

section \<open>Sending\<close>

definition kHeaderPayload :: "nat list" where
  "kHeaderPayload = [sizeof_EnterOrder, sizeof_ReplaceOrder, sizeof_CancelOrder]"

definition headerKind :: "nat \<Rightarrow> nat" where
  "headerKind payloadLen = (case find (\<lambda>k. kHeaderPayload ! k = payloadLen) [0..<3] of Some k \<Rightarrow> k | None \<Rightarrow> 3)"

definition DutSession_prepareTransport :: "Endpoints \<Rightarrow> nat \<Rightarrow> ('s, 'q) DutSession \<Rightarrow> bool \<times> ('s, 'q) DutSession" where
  "DutSession_prepareTransport oeEp maxTxFrame s =
     (if maxTxFrame \<noteq> 0 \<and> maxTxFrame < kL2L3L4Overhead + Outbound_kSize then (False, s)
      else
        let header = UdpFramer_header (UdpFramer_new oeEp)
        in (True, s\<lparr>ds_framer := header, ds_oeHeaders := map (UdpFramer_patch header) kHeaderPayload, ds_ackPort := ep_srcPort oeEp\<rparr>))"

text \<open>The frame of a request: the prepared header of its size where there is one, the framer otherwise.\<close>

definition order_frame :: "byte list \<Rightarrow> byte list list \<Rightarrow> byte list \<Rightarrow> byte list" where
  "order_frame framer headers ouch =
     (let kind = headerKind (length ouch)
      in if kind < 3 then headers ! kind @ ouch else UdpFramer_patch (framer @ ouch) (length ouch))"

definition DutSession_sendOrder :: "(u32 \<Rightarrow> bool) \<Rightarrow> byte list \<Rightarrow> ('s, 'q) DutSession \<Rightarrow> bool \<times> ('s, 'q) DutSession" where
  "DutSession_sendOrder room ouch s =
     (case ds_mode s of
        Io_Loopback \<Rightarrow> (True, s\<lparr>ds_out_wire := ds_out_wire s @ [ouch], ds_ordersSent := ds_ordersSent s + 1\<rparr>)
      | Io_Socket \<Rightarrow>
          (True, s\<lparr>ds_out_wire := ds_out_wire s @ [packUnsequencedData (replicate 256 0) ouch], ds_ordersSent := ds_ordersSent s + 1\<rparr>)
      | Io_Transport \<Rightarrow>
          if \<not> room (ds_commits s) then (False, s)
          else
            let commits = ds_commits s + 1
            in (True, s\<lparr>ds_out_wire := ds_out_wire s @ [order_frame (ds_framer s) (ds_oeHeaders s) ouch], ds_commits := commits,
                        ds_reapHit := (if commits AND (kTxSignalEvery - 1) = 0 then True else ds_reapHit s),
                        ds_ordersSent := ds_ordersSent s + 1\<rparr>))"

definition DutSession_sendLogin :: "(u32 \<Rightarrow> bool) \<Rightarrow> byte list \<Rightarrow> byte list \<Rightarrow> ('s, 'q) DutSession \<Rightarrow> ('s, 'q) DutSession" where
  "DutSession_sendLogin room session user s =
     (let pkt = packLoginRequest (replicate 64 0) user session
      in if \<not> room (ds_commits s) then s
         else s\<lparr>ds_out_wire := ds_out_wire s @ [UdpFramer_patch (ds_framer s @ pkt) (length pkt)], ds_commits := ds_commits s + 1\<rparr>)"

text \<open>The login on a socket: unlike on a ring, the password and the sequence number stay zero bytes.\<close>

definition DutSession_login :: "byte list \<Rightarrow> byte list \<Rightarrow> ('s, 'q) DutSession \<Rightarrow> ('s, 'q) DutSession" where
  "DutSession_login session user s =
     (let lr = \<lparr>lr_username = alpha_store 6 user, lr_password = replicate 10 0, lr_requestedSession = alpha_store 10 session,
                lr_requestedSequenceNumber = replicate 20 0\<rparr>
      in s\<lparr>ds_out_wire := ds_out_wire s @ [soup_pack (replicate 256 0) (SoupType_code Soup_LoginRequest) (enc_LoginRequest lr)]\<rparr>)"

definition DutSession_sendTestOrder :: "(u32 \<Rightarrow> bool) \<Rightarrow> ('s, 'q) DutSession \<Rightarrow> ('s, 'q) DutSession" where
  "DutSession_sendTestOrder room s =
     (if ds_mode s = Io_Transport then
        let (oms, out) = encodeTestOrder (ds_oms s) Outbound_new
        in snd (DutSession_sendOrder room (take (ob_len out) (ob_buf out)) (s\<lparr>ds_oms := oms\<rparr>))
      else s)"

definition DutSession_recordSend :: "u32 \<Rightarrow> u64 \<Rightarrow> u64 \<Rightarrow> u64 \<Rightarrow> ('s, 'q) DutSession \<Rightarrow> ('s, 'q) DutSession" where
  "DutSession_recordSend userRef rxStamp ctx sendTsc s =
     s\<lparr>ds_inflight := (ds_inflight s)[unat (userRef AND of_nat (kInFlight - 1)) :=
         \<lparr>if_userRef = userRef, if_rxStamp = rxStamp, if_ctx = ctx, if_sendTsc = sendTsc, if_live = True\<rparr>]\<rparr>"

definition packHwStamps :: "u32 \<Rightarrow> u32 \<Rightarrow> u64" where
  "packHwStamps rxRaw txMinor = push_bit 32 (ucast rxRaw) OR ucast txMinor"

definition DutSession_completeTx :: "u32 \<Rightarrow> u32 \<Rightarrow> ('s, 'q) DutSession \<Rightarrow> ('s, 'q) DutSession" where
  "DutSession_completeTx userRef txMinor s =
     (let i = unat (userRef AND of_nat (kInFlight - 1)); slot = ds_inflight s ! i
      in if \<not> if_live slot \<or> if_userRef slot \<noteq> userRef then s
         else s\<lparr>ds_inflight := (ds_inflight s)[i := slot\<lparr>if_live := False\<rparr>],
                ds_t2t := ds_t2t s @ [(packHwStamps (ucast (if_rxStamp slot)) txMinor, if_ctx slot)]\<rparr>)"

section \<open>Sample contexts\<close>

definition kSent :: byte where "kSent = 1"
definition kRehash :: byte where "kRehash = 2"
definition kGap :: byte where "kGap = 4"
definition kReanchor :: byte where "kReanchor = 8"
definition kNewBook :: byte where "kNewBook = 16"
definition kRescan :: byte where "kRescan = 32"
definition kMulti :: byte where "kMulti = 64"
definition kTxReap :: byte where "kTxReap = 128"

definition SampleContext_pack :: "u64 \<Rightarrow> u16 \<Rightarrow> byte \<Rightarrow> u64" where
  "SampleContext_pack seq msgs flags =
     (let m = (if msgs > 255 then 255 else ucast msgs) :: u64 in push_bit 16 seq OR push_bit 8 m OR ucast flags)"

definition SampleContext_seq :: "u64 \<Rightarrow> u64" where "SampleContext_seq ctx = drop_bit 16 ctx"
definition SampleContext_msgs :: "u64 \<Rightarrow> byte" where "SampleContext_msgs ctx = ucast (drop_bit 8 ctx AND 0xff)"
definition SampleContext_flags :: "u64 \<Rightarrow> byte" where "SampleContext_flags ctx = ucast (ctx AND 0xff)"

text \<open>What \<^verbatim>\<open>applyPacket\<close> knows of its packet when it starts on the messages.\<close>

record PacketCtx =
  pc_seq :: u64
  pc_msgs :: u16
  pc_rxStamp :: u64
  pc_gap :: bool
  pc_rehash :: u64
  pc_reanchor :: u64
  pc_created :: u64
  pc_rescan :: u64

definition flagsNow :: "PacketCtx \<Rightarrow> ('s, 'q) DutSession \<Rightarrow> byte" where
  "flagsNow pc s =
     (if BookTable_rehashes (ds_books s) \<noteq> pc_rehash pc then kRehash else 0) OR
     (if BookTable_reanchors (ds_books s) \<noteq> pc_reanchor pc then kReanchor else 0) OR
     (if bt_created (ds_books s) \<noteq> pc_created pc then kNewBook else 0) OR
     (if pc_gap pc then kGap else 0) OR
     (if BookTable_rescans (ds_books s) \<noteq> pc_rescan pc then kRescan else 0)"

section \<open>Quoting\<close>

definition DutSession_tradingAllowed :: "nat \<Rightarrow> ('s, 'q) DutSession \<Rightarrow> bool" where
  "DutSession_tradingAllowed hot s \<longleftrightarrow>
     ds_feedValid s \<and> (\<not> dc_marketHoursOnly (ds_cfg s) \<or> (ds_marketOpen s \<and> hs_trading (bt_hot (ds_books s) ! hot)))"

text \<open>The locals \<^verbatim>\<open>sent\<close> and \<^verbatim>\<open>extra\<close> of \<^verbatim>\<open>applyPacket\<close> go along with the session.\<close>

type_synonym ('s, 'q) quoting = "('s, 'q) DutSession \<times> bool \<times> byte"

definition send_request :: "(u32 \<Rightarrow> bool) \<Rightarrow> PacketCtx \<Rightarrow> nat \<Rightarrow> ('s, 'q) quoting \<Rightarrow> ('s, 'q) quoting" where
  "send_request room pc i x =
     (let (s, sent, extra) = x;
          first = (\<not> sent);
          extra1 = (if first then extra OR kSent OR (if ds_reapHit s then kTxReap else 0) else extra);
          ctx = (if first then SampleContext_pack (pc_seq pc) (pc_msgs pc) (flagsNow pc s OR extra1) else 0);
          ob = ds_out s ! i;
          (ok, s1) = DutSession_sendOrder room (take (ob_len ob) (ob_buf ob)) s
      in if ok \<and> first then (DutSession_recordSend (ob_userRef ob) (pc_rxStamp pc) ctx 0 s1, True, extra1) else (s1, sent, extra1))"

definition DutSession_quote ::
  "'s StrategyOps \<Rightarrow> (u32 \<Rightarrow> bool) \<Rightarrow> PacketCtx \<Rightarrow> nat \<Rightarrow> ('s, 'q) quoting \<Rightarrow> ('s, 'q) quoting" where
  "DutSession_quote ops room pc h x =
     (let (s, sent, extra) = x;
          book = BookTable_hotBook h (ds_books s);
          (changed, targets, strat) =
            (if DutSession_tradingAllowed h s then st_onBook ops book (om_acct (ds_oms s) ! h) QuoteTargets_none (ds_strats s ! h)
             else (True, QuoteTargets_none, st_forget ops (ds_strats s ! h)));
          s1 = s\<lparr>ds_strats := (ds_strats s)[h := strat], ds_topSeen := (ds_topSeen s)[h := bb_topVersion book]\<rparr>
      in if \<not> changed then (s1, sent, extra)
         else
           let (n, oms, outs) = reconcile h targets (ds_oms s1) (ds_out s1);
               extra1 = (if n \<ge> 2 then extra OR kMulti else extra)
           in fold (send_request room pc) [0..<n] (s1\<lparr>ds_oms := oms, ds_out := outs\<rparr>, sent, extra1))"

section \<open>Market data\<close>

definition DutSession_onSystemEvent :: "byte list \<Rightarrow> ('s, 'q) DutSession \<Rightarrow> ('s, 'q) DutSession" where
  "DutSession_onSystemEvent msg s =
     (if length msg < sizeof_SystemEvent then s
      else
        let code = se_eventCode (dec_SystemEvent msg) in
        if code = SystemEventCode_code Ev_StartOfMessages then
          s\<lparr>ds_books := BookTable_clearAll (ds_books s), ds_marketOpen := False, ds_feedValid := True, ds_reconcileAll := True,
            ds_resets := ds_resets s + 1\<rparr>
        else if code = SystemEventCode_code Ev_StartOfMarketHours then s\<lparr>ds_marketOpen := True, ds_reconcileAll := True\<rparr>
        else if code = SystemEventCode_code Ev_EndOfMarketHours then s\<lparr>ds_marketOpen := False, ds_reconcileAll := True\<rparr>
        else s)"

definition DutSession_applyMessage :: "byte list \<Rightarrow> ('s, 'q) DutSession \<Rightarrow> int \<times> ('s, 'q) DutSession" where
  "DutSession_applyMessage msg s =
     (if length msg < 11 then (kCold, s)
      else
        let ty = msg ! 0 in
        if ty = 0x53 then (kCold, DutSession_onSystemEvent msg s)
        else if \<not> ds_feedValid s then (kCold, s)
        else if ds_cold s \<noteq> None \<and> ty \<noteq> 0x52 \<and> \<not> BookTable_isHot (BookTable_locateOf msg) (ds_books s) then (kCold, s)
        else
          let (h, books) = BookTable_apply msg (ds_books s) in (h, s\<lparr>ds_books := books\<rparr>))"

text \<open>
  The reset of the cold shard spins while the queue is full: the shard's own thread makes room by taking a frame. Its other
  rounds are free to happen at any time and are left to the interleavings of the shard.
\<close>

definition cold_reset :: "('q, FrameRef) SpscOps \<Rightarrow> 'q ColdShard \<Rightarrow> 'q ColdShard" where
  "cold_reset sq c =
     (case ColdShard_reset sq c of
        Some c' \<Rightarrow> c'
      | None \<Rightarrow>
          case ColdShard_round sq c of
            None \<Rightarrow> c
          | Some c1 \<Rightarrow> (case ColdShard_reset sq c1 of Some c2 \<Rightarrow> c2 | None \<Rightarrow> c1))"

definition DutSession_invalidateFeed :: "('q, FrameRef) SpscOps \<Rightarrow> u64 \<Rightarrow> ('s, 'q) DutSession \<Rightarrow> ('s, 'q) DutSession" where
  "DutSession_invalidateFeed sq seq s =
     s\<lparr>ds_feedValid := False, ds_lastFault := seq, ds_reconcileAll := True, ds_feedFaults := ds_feedFaults s + 1,
       ds_books := BookTable_clearAll (ds_books s), ds_cold := map_option (cold_reset sq) (ds_cold s)\<rparr>"

definition packet_message ::
  "'s StrategyOps \<Rightarrow> (u32 \<Rightarrow> bool) \<Rightarrow> PacketCtx \<Rightarrow> byte list \<Rightarrow> ('s, 'q) quoting \<Rightarrow> ('s, 'q) quoting" where
  "packet_message ops room pc msg x =
     (let (s, sent, extra) = x; (hot, s1) = DutSession_applyMessage msg s in
      if hot = kCold then (s1, sent, extra)
      else
        let h = nat hot; top = bb_topVersion (BookTable_hotBook h (ds_books s1)) in
        if top \<noteq> ds_topSeen s1 ! h then
          DutSession_quote ops room pc h
            (if ds_topSeen s1 ! h = kDirtyTop then s1\<lparr>ds_strats := (ds_strats s1)[h := st_forget ops (ds_strats s1 ! h)]\<rparr> else s1, sent, extra)
        else (s1, sent, extra))"

definition DutSession_applyPacket ::
  "'s StrategyOps \<Rightarrow> ('q, FrameRef) SpscOps \<Rightarrow> (u32 \<Rightarrow> bool) \<Rightarrow> byte list \<Rightarrow> u64 \<Rightarrow> u64 \<Rightarrow> ('s, 'q) DutSession \<Rightarrow> ('s, 'q) DutSession" where
  "DutSession_applyPacket ops sq room moldPacket rxStamp rxTsc s0 =
     (if length moldPacket < kHeaderSize then s0
      else
        let msgs = countOf moldPacket; seq = sequenceOf moldPacket;
            (r, tracker) = SequenceTracker_onPacket seq msgs (ds_seq s0);
            s1 = s0\<lparr>ds_packets := ds_packets s0 + 1, ds_seq := tracker\<rparr>
        in if r = Stale then s1
           else
             let s2 = (if r = Gap then DutSession_invalidateFeed sq seq s1 else s1);
                 pc = \<lparr>pc_seq = seq, pc_msgs = msgs, pc_rxStamp = rxStamp, pc_gap = (r = Gap), pc_rehash = BookTable_rehashes (ds_books s2),
                       pc_reanchor = BookTable_reanchors (ds_books s2), pc_created = bt_created (ds_books s2),
                       pc_rescan = BookTable_rescans (ds_books s2)\<rparr>;
                 (s3, sent, extra) =
                   fold (packet_message ops room pc) (map snd (forEachMessage moldPacket)) (s2\<lparr>ds_reapHit := False\<rparr>, False, 0);
                 (s4, sent4, extra4) =
                   (if ds_reconcileAll s3 then
                      fold (DutSession_quote ops room pc) [0..<BookTable_hotCount (ds_books s3)] (s3\<lparr>ds_reconcileAll := False\<rparr>, sent, extra)
                    else (s3, sent, extra));
                 s5 = s4\<lparr>ds_cold := map_option (\<lambda>c. snd (ColdShard_push sq moldPacket c)) (ds_cold s4)\<rparr>
             in s5\<lparr>ds_lastRxTsc := rxTsc, ds_idleSince := False\<rparr>)"

definition DutSession_onMarketData ::
  "'s StrategyOps \<Rightarrow> ('q, FrameRef) SpscOps \<Rightarrow> (u32 \<Rightarrow> bool) \<Rightarrow> byte list \<Rightarrow> u64 \<Rightarrow> u64 \<Rightarrow> ('s, 'q) DutSession \<Rightarrow> ('s, 'q) DutSession" where
  "DutSession_onMarketData ops sq room moldPacket rxStamp rxTsc s =
     DutSession_applyPacket ops sq room moldPacket rxStamp (if rxTsc = 0 then 0 else rxTsc) s"

section \<open>Replies\<close>

definition DutSession_applyAck :: "byte list \<Rightarrow> ('s, 'q) DutSession \<Rightarrow> ('s, 'q) DutSession" where
  "DutSession_applyAck ouch s =
     (let (sy, oms) = onAck ouch (ds_oms s); s1 = s\<lparr>ds_oms := oms\<rparr>
      in if sy \<ge> 0 \<and> nat sy < length (ds_topSeen s1) then s1\<lparr>ds_topSeen := (ds_topSeen s1)[nat sy := kDirtyTop]\<rparr> else s1)"

definition order_entry_packet :: "SoupPacket \<Rightarrow> ('s, 'q) DutSession \<Rightarrow> ('s, 'q) DutSession" where
  "order_entry_packet p s =
     (if sp_type p = SoupType_code Soup_LoginAccepted then s\<lparr>ds_loggedIn := True\<rparr>
      else if sp_type p = SoupType_code Soup_SequencedData then DutSession_applyAck (sp_payload p) s
      else s)"

definition DutSession_onOrderEntry :: "byte list \<Rightarrow> ('s, 'q) DutSession \<Rightarrow> ('s, 'q) DutSession" where
  "DutSession_onOrderEntry data s =
     (let (ps, rest) = soup_drain (ds_rx s @ data) in fold order_entry_packet ps (s\<lparr>ds_rx := rest\<rparr>))"

definition udpDstPort :: "byte list \<Rightarrow> u16" where
  "udpDstPort frame =
     (let off = kEthHeaderSize + kIpv4HeaderSize + 2 in push_bit 8 (ucast (frame ! off)) OR ucast (frame ! (off + 1)))"

definition DutSession_onFrame ::
  "'s StrategyOps \<Rightarrow> ('q, FrameRef) SpscOps \<Rightarrow> (u32 \<Rightarrow> bool) \<Rightarrow> byte list \<Rightarrow> ('s, 'q) DutSession \<Rightarrow> ('s, 'q) DutSession" where
  "DutSession_onFrame ops sq room raw s =
     (let len = udpPayloadLen raw (length raw) in
      if len > 0 then
        let payload = peek kL2L3L4Overhead len raw in
        if udpDstPort raw = ds_ackPort s then
          if payload ! 0 = 0 then
            case soup_parse payload of
              Some (n, p) \<Rightarrow> if sp_type p = SoupType_code Soup_LoginAccepted then s\<lparr>ds_loggedIn := True\<rparr> else s
            | None \<Rightarrow> s
          else DutSession_applyAck payload s
        else DutSession_applyPacket ops sq room payload 0 0 s
      else s)"

text \<open>Warming while idle: of its effects only the round robin over the symbols is state, the rest is prefetching.\<close>

definition DutSession_idleWarm :: "('s, 'q) DutSession \<Rightarrow> ('s, 'q) DutSession" where
  "DutSession_idleWarm s =
     (let n = BookTable_hotCount (ds_books s) in
      if n = 0 then s else s\<lparr>ds_warmNext := (if ds_warmNext s \<ge> n then 0 else ds_warmNext s) + 1\<rparr>)"

text \<open>One call of \<^verbatim>\<open>poll\<close>: the frames the ring returns before it is empty.\<close>

definition DutSession_poll ::
  "'s StrategyOps \<Rightarrow> ('q, FrameRef) SpscOps \<Rightarrow> (u32 \<Rightarrow> bool) \<Rightarrow> byte list list \<Rightarrow> ('s, 'q) DutSession \<Rightarrow> ('s, 'q) DutSession" where
  "DutSession_poll ops sq room frames s =
     (let s1 = (fold (DutSession_onFrame ops sq room) frames s)\<lparr>ds_idleSince := True\<rparr>;
          polls = ds_idlePolls s1 + 1
      in if polls = kIdleWarmEvery then DutSession_idleWarm (s1\<lparr>ds_idlePolls := 0\<rparr>) else s1\<lparr>ds_idlePolls := polls\<rparr>)"

section \<open>Warming\<close>

definition warm_symbol :: "'s StrategyOps \<Rightarrow> nat \<Rightarrow> ('s, 'q) DutSession \<Rightarrow> ('s, 'q) DutSession" where
  "warm_symbol ops h s =
     (let (changed, warm, strat) = st_onBook ops (BookTable_hotBook h (ds_books s)) (om_acct (ds_oms s) ! h) (ds_warm s) (ds_strats s ! h);
          s1 = s\<lparr>ds_warm := warm, ds_strats := (ds_strats s)[h := st_forget ops strat], ds_warmOut := warmEncode h (ds_oms s) (ds_warmOut s)\<rparr>;
          (oms, out) = warmReconcile h (ds_oms s1) (ds_warmOut s1)
      in s1\<lparr>ds_oms := oms, ds_warmOut := out\<rparr>)"

definition DutSession_warmQuotePath :: "'s StrategyOps \<Rightarrow> ('s, 'q) DutSession \<Rightarrow> ('s, 'q) DutSession" where
  "DutSession_warmQuotePath ops s =
     (fold (warm_symbol ops) [0..<BookTable_hotCount (ds_books s)] s)\<lparr>ds_reconcileAll := \<not> ds_marketOpen s\<rparr>"

section \<open>Status\<close>

record DutStatus =
  dst_elapsedNs :: u64
  dst_packets :: u64
  dst_seq :: u64
  dst_gaps :: u64
  dst_live :: u64
  dst_enters :: u64
  dst_replaces :: u64
  dst_cancels :: u64
  dst_accepts :: u64
  dst_fills :: u64
  dst_rejects :: u64
  dst_position :: "64 word"
  dst_sent :: u32
  dst_bid :: Price
  dst_ask :: Price
  dst_feedValid :: bool

definition DutSession_status :: "u64 \<Rightarrow> ('s, 'q) DutSession \<Rightarrow> DutStatus" where
  "DutSession_status elapsedNs s =
     (let st = om_stats (ds_oms s); b = BookTable_hotBook 0 (ds_books s)
      in \<lparr>dst_elapsedNs = elapsedNs, dst_packets = ds_packets s, dst_seq = st_expected (ds_seq s), dst_gaps = st_gaps (ds_seq s),
          dst_live = bt_live (ds_books s), dst_enters = sx_enters st, dst_replaces = sx_replaces st, dst_cancels = sx_cancels st,
          dst_accepts = sx_accepts st, dst_fills = sx_fills st, dst_rejects = sx_rejects st, dst_position = netPosition (ds_oms s),
          dst_sent = ds_ordersSent s, dst_bid = bb_bestBid b, dst_ask = bb_bestAsk b, dst_feedValid = ds_feedValid s\<rparr>)"

end
