(* ===== verification/DutSessionProps.thy ===== *)
theory DutSessionProps
  imports DutSession OrderManagerProps
begin

text \<open>
  Properties of the trading session: what it sends while it must not trade, and the frames it sends on a packet ring.
\<close>

section \<open>Requests on the wire\<close>

text \<open>What \<^verbatim>\<open>sendOrder\<close> puts on the wire for a request.\<close>

definition wire_of :: "('s, 'q) DutSession \<Rightarrow> byte list \<Rightarrow> byte list" where
  "wire_of s ouch =
     (case ds_mode s of
        Io_Loopback \<Rightarrow> ouch
      | Io_Socket \<Rightarrow> packUnsequencedData (replicate 256 0) ouch
      | Io_Transport \<Rightarrow> order_frame (ds_framer s) (ds_oeHeaders s) ouch)"

definition cancel_request :: "u32 \<Rightarrow> byte list" where
  "cancel_request ref = enc_CancelOrder \<lparr>co_type = InType_code In_CancelOrder, co_userRefNum = ref, co_quantity = 0, co_appendageLength = 0\<rparr>"

text \<open>What quoting leaves alone.\<close>

definition steady :: "('s, 'q) DutSession \<Rightarrow> ('s, 'q) DutSession \<Rightarrow> bool" where
  "steady s s' \<longleftrightarrow> ds_mode s' = ds_mode s \<and> ds_framer s' = ds_framer s \<and> ds_oeHeaders s' = ds_oeHeaders s \<and> ds_cfg s' = ds_cfg s \<and>
     ds_feedValid s' = ds_feedValid s \<and> ds_marketOpen s' = ds_marketOpen s \<and> length (ds_out s') = length (ds_out s)"

text \<open>\<open>sends P s s'\<close>: only requests with the property went out.\<close>

definition sends :: "(byte list \<Rightarrow> bool) \<Rightarrow> ('s, 'q) DutSession \<Rightarrow> ('s, 'q) DutSession \<Rightarrow> bool" where
  "sends P s s' \<longleftrightarrow> steady s s' \<and> (\<exists>reqs. ds_out_wire s' = ds_out_wire s @ map (wire_of s) reqs \<and> list_all P reqs)"

lemma sends_refl: "sends P s s"
  by (auto simp: sends_def steady_def intro!: exI [of _ "[]"])

lemma sends_trans:
  assumes "sends P s s1" and "sends P s1 s2"
  shows "sends P s s2"
proof -
  obtain r1 r2 where r: "ds_out_wire s1 = ds_out_wire s @ map (wire_of s) r1" "list_all P r1" "ds_out_wire s2 = ds_out_wire s1 @ map (wire_of s1) r2" "list_all P r2"
    using assms unfolding sends_def by blast
  have st: "steady s s1" "steady s s2" using assms by (auto simp: sends_def steady_def)
  have "wire_of s1 = wire_of s" using st(1) by (simp add: steady_def wire_of_def fun_eq_iff cong: IoMode.case_cong)
  then show ?thesis unfolding sends_def using r st by (intro conjI exI [of _ "r1 @ r2"]) simp_all
qed

lemma sends_fold:
  assumes "\<And>x y. x \<in> set xs \<Longrightarrow> Q (fst y) \<Longrightarrow> sends P (fst y) (fst (f x y)) \<and> Q (fst (f x y))" and "Q (fst y)"
  shows "sends P (fst y) (fst (fold f xs y)) \<and> Q (fst (fold f xs y))"
  using assms
proof (induction xs arbitrary: y)
  case (Cons x xs)
  have "sends P (fst y) (fst (f x y)) \<and> Q (fst (f x y))" using Cons.prems by simp
  then show ?case using Cons.IH [of "f x y"] Cons.prems(1) sends_trans by fastforce
qed (simp add: sends_refl)

lemma sendOrder_sends:
  assumes "P ouch"
  shows "sends P s (snd (DutSession_sendOrder room ouch s)) \<and> ds_out (snd (DutSession_sendOrder room ouch s)) = ds_out s"
proof -
  have "\<exists>reqs. ds_out_wire (snd (DutSession_sendOrder room ouch s)) = ds_out_wire s @ map (wire_of s) reqs \<and> list_all P reqs"
    using assms by (intro exI [of _ "if fst (DutSession_sendOrder room ouch s) then [ouch] else []"], cases "ds_mode s")
      (simp_all add: DutSession_sendOrder_def Let_def wire_of_def)
  then show ?thesis by (cases "ds_mode s") (simp_all add: sends_def steady_def DutSession_sendOrder_def Let_def)
qed

lemma send_request_sends:
  assumes "P (request_of (ds_out (fst x) ! i))"
  shows "sends P (fst x) (fst (send_request room pc i x)) \<and> ds_out (fst (send_request room pc i x)) = ds_out (fst x)"
proof -
  obtain s sent extra where x: "x = (s, sent, extra)" by (cases x) auto
  obtain ok s1 where o: "DutSession_sendOrder room (request_of (ds_out s ! i)) s = (ok, s1)" by fastforce
  then have s1: "sends P s s1" "ds_out s1 = ds_out s" using sendOrder_sends [of P "request_of (ds_out s ! i)" s room] assms x by auto
  have "sends P s (DutSession_recordSend r t c n s1) = sends P s s1" for r t c n by (simp add: sends_def steady_def DutSession_recordSend_def)
  then show ?thesis using x o s1 unfolding send_request_def request_of_def Let_def by (simp add: DutSession_recordSend_def)
qed

section \<open>Pulling quotes\<close>

lemma reconcileSide_pull:
  assumes "reconcileSide sy side False p q m out = (n, m', out')"
  shows "n = 0 \<and> out' = out \<or> n = 1 \<and> (\<exists>ref. request_of out' = cancel_request ref)"
  using assms
  by (auto simp: reconcileSide_def reconcileSlot_def encodeCancel_def request_out_put cancel_request_def Let_def split: prod.splits QuoteState.splits if_splits)

lemma reconcile_pull:
  assumes "length outs = 2" and "reconcile sy QuoteTargets_none m outs = (n, m', outs')"
  shows "length outs' = 2 \<and> (\<forall>i<n. \<exists>ref. request_of (outs' ! i) = cancel_request ref)"
proof -
  obtain n1 m1 o1 where a: "reconcileSide sy Buy False 0 0 m (outs ! 0) = (n1, m1, o1)" by (metis prod_cases3)
  obtain n2 m2 o2 where b: "reconcileSide sy Sell False 0 0 m1 (outs[0 := o1] ! n1) = (n2, m2, o2)" by (metis prod_cases3)
  have r: "n = n1 + n2" "outs' = outs[0 := o1, n1 := o2]"
    using assms(2) a b by (simp_all add: reconcile_def reconcile_two_def QuoteTargets_none_def Let_def)
  show ?thesis using reconcileSide_pull [OF a] reconcileSide_pull [OF b] r assms(1)
    by (auto simp: nth_list_update less_Suc_eq numeral_2_eq_2)
qed

text \<open>The session must not trade: the feed is invalid, or the market is closed and only market hours count.\<close>

definition blocked :: "('s, 'q) DutSession \<Rightarrow> bool" where
  "blocked s \<longleftrightarrow> \<not> ds_feedValid s \<or> dc_marketHoursOnly (ds_cfg s) \<and> \<not> ds_marketOpen s"

definition is_cancel :: "byte list \<Rightarrow> bool" where
  "is_cancel r \<longleftrightarrow> (\<exists>ref. r = cancel_request ref)"

definition idle_session :: "('s, 'q) DutSession \<Rightarrow> bool" where
  "idle_session s \<longleftrightarrow> blocked s \<and> length (ds_out s) = 2"

lemma idle_steady: "steady s s' \<Longrightarrow> idle_session s' = idle_session s"
  by (simp add: steady_def idle_session_def blocked_def)

lemma quote_blocked:
  assumes "idle_session (fst x)"
  shows "sends is_cancel (fst x) (fst (DutSession_quote ops room pc h x)) \<and> idle_session (fst (DutSession_quote ops room pc h x))"
proof -
  obtain s sent extra where x: "x = (s, sent, extra)" by (cases x) auto
  define s1 where "s1 = s\<lparr>ds_strats := (ds_strats s)[h := st_forget ops (ds_strats s ! h)],
    ds_topSeen := (ds_topSeen s)[h := bb_topVersion (BookTable_hotBook h (ds_books s))]\<rparr>"
  obtain n oms outs where r: "reconcile h QuoteTargets_none (ds_oms s1) (ds_out s1) = (n, oms, outs)" by (metis prod_cases3)
  define y where "y = (s1\<lparr>ds_oms := oms, ds_out := outs\<rparr>, sent, if n \<ge> 2 then extra OR kMulti else extra)"
  have "\<not> DutSession_tradingAllowed h s" using assms x by (auto simp: idle_session_def blocked_def DutSession_tradingAllowed_def)
  then have q: "DutSession_quote ops room pc h x = fold (send_request room pc) [0..<n] y"
    using r by (simp add: DutSession_quote_def x s1_def Let_def y_def)
  have p: "length outs = 2" "\<forall>i<n. is_cancel (request_of (outs ! i))"
    using reconcile_pull [OF _ r] assms x by (auto simp: s1_def idle_session_def is_cancel_def)
  have step: "sends is_cancel (fst z) (fst (send_request room pc i z)) \<and> ds_out (fst (send_request room pc i z)) = outs"
    if "i \<in> set [0..<n]" "ds_out (fst z) = outs" for i z
    using send_request_sends [of is_cancel z i room pc] p that by simp
  have "sends is_cancel (fst y) (fst (fold (send_request room pc) [0..<n] y)) \<and> ds_out (fst (fold (send_request room pc) [0..<n] y)) = outs"
    by (rule sends_fold [where Q = "\<lambda>s. ds_out s = outs", OF step]) (simp_all add: y_def)
  moreover have "sends is_cancel s (fst y)" using p assms x
    by (auto simp: sends_def steady_def y_def s1_def idle_session_def intro!: exI [of _ "[]"])
  ultimately have "sends is_cancel s (fst (DutSession_quote ops room pc h x))" unfolding q using sends_trans by blast
  then show ?thesis using assms x idle_steady [of s] by (auto simp: sends_def)
qed

section \<open>Packets\<close>

definition no_event :: "byte list \<Rightarrow> bool" where
  "no_event msg \<longleftrightarrow> length msg < 11 \<or> msg ! 0 \<noteq> 0x53"

lemma applyMessage_steady: "no_event msg \<Longrightarrow> sends P s (snd (DutSession_applyMessage msg s))"
  by (auto simp: no_event_def DutSession_applyMessage_def Let_def sends_def steady_def split: prod.splits intro!: exI [of _ "[]"])

lemma packet_message_blocked:
  assumes "no_event msg" and "idle_session (fst x)"
  shows "sends is_cancel (fst x) (fst (packet_message ops room pc msg x)) \<and> idle_session (fst (packet_message ops room pc msg x))"
proof -
  obtain s sent extra where x: "x = (s, sent, extra)" by (cases x) auto
  obtain hot s1 where a: "DutSession_applyMessage msg s = (hot, s1)" by fastforce
  have s1: "sends is_cancel s s1" using applyMessage_steady [OF assms(1), of is_cancel s] a by simp
  define s2 where "s2 = (if ds_topSeen s1 ! nat hot = kDirtyTop then s1\<lparr>ds_strats := (ds_strats s1)[nat hot := st_forget ops (ds_strats s1 ! nat hot)]\<rparr> else s1)"
  have "sends is_cancel s1 s2" by (auto simp: s2_def sends_def steady_def intro!: exI [of _ "[]"])
  then have s2: "sends is_cancel s s2" using s1 sends_trans by blast
  have i: "idle_session s1" "idle_session s2" using assms(2) x s1 s2 idle_steady [of s] by (auto simp: sends_def)
  have "sends is_cancel s2 (fst (DutSession_quote ops room pc (nat hot) (s2, sent, extra))) \<and> idle_session (fst (DutSession_quote ops room pc (nat hot) (s2, sent, extra)))"
    using quote_blocked [of "(s2, sent, extra)"] i(2) by simp
  then show ?thesis using x a s1 s2 i sends_trans by (auto simp: packet_message_def Let_def s2_def [symmetric])
qed


definition demo_session :: "(nat, FrameRef list) DutSession" where
  "demo_session = (DutSession_new Io_Loopback []
     \<lparr>dc_symbols = [], dc_locates = [], dc_profiles = [], dc_tickWire = 100, dc_coldBandTicks = 2, dc_hotBandTicks = 2, dc_byPrice = None,
      dc_coldMapSlots = 16, dc_hotMapSlots = 16, dc_ownRefMin = 0, dc_coldShard = False, dc_coldQueue = 2, dc_marketHoursOnly = True,
      dc_firstUserRef = 1\<rparr> 0)
     \<lparr>ds_seq := \<lparr>st_expected = 5, st_gaps = 0, st_missed = 0, st_stale = 0, st_started = True\<rparr>\<rparr>"

definition demo_ops :: "nat StrategyOps" where
  "demo_ops = \<lparr>st_onBook = (\<lambda>b acct t s. (True, t, s)), st_forget = (\<lambda>s. 0)\<rparr>"


section \<open>Frames of requests\<close>

lemma UdpFramer_patch_append:
  assumes "length h = 42"
  shows "UdpFramer_patch (h @ x) n = UdpFramer_patch h n @ x"
proof -
  have "42 \<le> length h" using assms by simp
  from frame_split [OF this] obtain e v tot m ck ips ports ul rest where
    f: "h = e @ v @ tot @ m @ ck @ ips @ ports @ ul @ rest"
    and l: "length e = 14" "length v = 2" "length tot = 2" "length m = 6" "length ck = 2" "length ips = 8" "length ports = 4" "length ul = 2"
    and "v = peek 14 2 h" .
  show ?thesis using patch_layout [OF l, of "rest @ x" n] patch_layout [OF l, of rest n] by (simp add: f Let_def)
qed

lemma length_UdpFramer_patch:
  assumes "42 \<le> length h"
  shows "length (UdpFramer_patch h n) = length h"
proof -
  from frame_split [OF assms] obtain e v tot m ck ips ports ul rest where
    f: "h = e @ v @ tot @ m @ ck @ ips @ ports @ ul @ rest"
    and l: "length e = 14" "length v = 2" "length tot = 2" "length m = 6" "length ck = 2" "length ips = 8" "length ports = 4" "length ul = 2"
    and "v = peek 14 2 h" .
  show ?thesis using patch_layout [OF l, of rest n] l by (simp add: f Let_def)
qed

lemma headerKind_less:
  assumes "headerKind n < 3"
  shows "kHeaderPayload ! headerKind n = n"
  using assms by (auto simp: headerKind_def split: option.splits dest: find_SomeD)

text \<open>
  On a packet ring a request travels in the same frame whether its header was prepared in advance or patched on the way out: a frame that
  \<^verbatim>\<open>sendOrder\<close> commits is the framer's header, patched for the length of the request, and the request, and the receiver
  recovers exactly the request from it.
\<close>

theorem DutSession_order_frames:
  assumes "valid_Endpoints ep" and "DutSession_prepareTransport ep m s = (True, s')" and "length ouch \<le> 65507" and "ds_mode s = Io_Transport"
    and "room (ds_commits s)"
  shows "\<exists>frame. ds_out_wire (snd (DutSession_sendOrder room ouch s')) = ds_out_wire s @ [frame] \<and>
    frame = UdpFramer_patch (UdpFramer_header (UdpFramer_new ep) @ ouch) (length ouch) \<and>
    udpPayloadLen frame (length frame) = length ouch \<and> peek kL2L3L4Overhead (length ouch) frame = ouch"
proof -
  let ?h = "UdpFramer_header (UdpFramer_new ep)"
  define frame where "frame = UdpFramer_patch (?h @ ouch) (length ouch)"
  have s': "s' = s\<lparr>ds_framer := ?h, ds_oeHeaders := map (UdpFramer_patch ?h) kHeaderPayload, ds_ackPort := ep_srcPort ep\<rparr>"
    using assms(2) by (auto simp: DutSession_prepareTransport_def Let_def split: if_splits)
  have h: "length ?h = 42" using assms(1) by simp
  have a: "frame = UdpFramer_patch ?h (length ouch) @ ouch" unfolding frame_def by (rule UdpFramer_patch_append [OF h])
  have "length kHeaderPayload = 3" by (simp add: kHeaderPayload_def)
  then have "order_frame ?h (map (UdpFramer_patch ?h) kHeaderPayload) ouch = frame"
    using headerKind_less [of "length ouch"] UdpFramer_patch_append [OF h, of ouch]
    by (auto simp: order_frame_def frame_def Let_def)
  then have "ds_out_wire (snd (DutSession_sendOrder room ouch s')) = ds_out_wire s @ [frame]"
    using assms(4,5) by (simp add: s' DutSession_sendOrder_def Let_def)
  moreover have l: "length frame = 42 + length ouch" using h by (simp add: a length_UdpFramer_patch)
  moreover have "udpPayloadLen frame (length frame) = length ouch"
    using patch_payload_len_aux [of "?h @ ouch" "length ouch"] assms(3) h l by (simp add: frame_def)
  moreover have "peek kL2L3L4Overhead (length ouch) frame = ouch" using h by (simp add: a peek_def length_UdpFramer_patch net_consts)
  ultimately show ?thesis using frame_def by blast
qed

definition demo_endpoints :: Endpoints where
  "demo_endpoints = \<lparr>ep_srcMac = replicate 6 1, ep_dstMac = replicate 6 2, ep_srcIp = 3, ep_dstIp = 4, ep_srcPort = 5, ep_dstPort = 6\<rparr>"

theorem DutSession_order_frames_witness:
  "\<exists>frame. ds_out_wire (snd (DutSession_sendOrder (\<lambda>_. True) (cancel_request 7)
      (snd (DutSession_prepareTransport demo_endpoints 1514 (demo_session\<lparr>ds_mode := Io_Transport\<rparr>))))) = ds_out_wire demo_session @ [frame] \<and>
    udpPayloadLen frame (length frame) = length (cancel_request 7)"
proof -
  let ?s = "demo_session\<lparr>ds_mode := Io_Transport\<rparr>"
  have v: "valid_Endpoints demo_endpoints" by (simp add: valid_Endpoints_def demo_endpoints_def)
  have p: "DutSession_prepareTransport demo_endpoints 1514 ?s = (True, snd (DutSession_prepareTransport demo_endpoints 1514 ?s))"
    by (simp add: DutSession_prepareTransport_def net_consts Outbound_kSize_def Let_def)
  have l: "length (cancel_request 7) \<le> 65507" by (simp add: cancel_request_def enc_CancelOrder_def)
  have m: "ds_mode ?s = Io_Transport" and w: "ds_out_wire ?s = ds_out_wire demo_session" by simp_all
  show ?thesis using DutSession_order_frames [OF v p l m TrueI] unfolding w by blast
qed

section \<open>Feed bookkeeping\<close>

text \<open>What quoting and the messages of a packet leave to the sequence numbers: nothing but a start of messages touches the validity of the feed.\<close>

definition feed_kept :: "('s, 'q) DutSession \<Rightarrow> ('s, 'q) DutSession \<Rightarrow> bool" where
  "feed_kept s s' \<longleftrightarrow> ds_seq s' = ds_seq s \<and> ds_feedFaults s' = ds_feedFaults s \<and> ds_packets s' = ds_packets s \<and> (ds_feedValid s \<longrightarrow> ds_feedValid s')"

lemma feed_kept_refl: "feed_kept s s"
  by (simp add: feed_kept_def)

lemma feed_kept_trans: "feed_kept s s1 \<Longrightarrow> feed_kept s1 s2 \<Longrightarrow> feed_kept s s2"
  by (simp add: feed_kept_def)

lemma feed_kept_fold: "(\<And>x y. feed_kept (fst y) (fst (f x y))) \<Longrightarrow> feed_kept (fst y) (fst (fold f xs y))"
proof (induction xs arbitrary: y)
  case (Cons x xs)
  then show ?case using feed_kept_trans [of "fst y" "fst (f x y)"] by simp
qed (simp add: feed_kept_refl)

lemma sendOrder_feed: "feed_kept s (snd (DutSession_sendOrder room ouch s))"
  by (cases "ds_mode s") (simp_all add: feed_kept_def DutSession_sendOrder_def Let_def)

lemma send_request_feed: "feed_kept (fst x) (fst (send_request room pc i x))"
proof -
  obtain s sent extra where x: "x = (s, sent, extra)" by (cases x) auto
  obtain ok s1 where o: "DutSession_sendOrder room (request_of (ds_out s ! i)) s = (ok, s1)" by fastforce
  then have "feed_kept s s1" using sendOrder_feed [of s room "request_of (ds_out s ! i)"] by simp
  then show ?thesis using x o unfolding send_request_def request_of_def Let_def by (auto simp: DutSession_recordSend_def feed_kept_def)
qed

lemma send_fold_feed: "feed_kept (fst y) (fst (fold (send_request room pc) xs y))"
  by (rule feed_kept_fold) (rule send_request_feed)

lemma quote_feed: "feed_kept (fst x) (fst (DutSession_quote ops room pc h x))"
proof -
  obtain s sent extra where x: "x = (s, sent, extra)" by (cases x) auto
  obtain changed targets strat where a: "(if DutSession_tradingAllowed h s then st_onBook ops (BookTable_hotBook h (ds_books s)) (om_acct (ds_oms s) ! h) QuoteTargets_none (ds_strats s ! h)
      else (True, QuoteTargets_none, st_forget ops (ds_strats s ! h))) = (changed, targets, strat)" by (metis prod_cases3)
  define s1 where "s1 = s\<lparr>ds_strats := (ds_strats s)[h := strat], ds_topSeen := (ds_topSeen s)[h := bb_topVersion (BookTable_hotBook h (ds_books s))]\<rparr>"
  obtain n oms outs where r: "reconcile h targets (ds_oms s1) (ds_out s1) = (n, oms, outs)" by (metis prod_cases3)
  define y where "y = (s1\<lparr>ds_oms := oms, ds_out := outs\<rparr>, sent, if n \<ge> 2 then extra OR kMulti else extra)"
  have q: "DutSession_quote ops room pc h x = (if changed then fold (send_request room pc) [0..<n] y else (s1, sent, extra))"
    unfolding DutSession_quote_def x Let_def prod.case a s1_def [symmetric] r y_def by simp
  have "feed_kept s s1" "feed_kept s (fst y)" by (simp_all add: s1_def y_def feed_kept_def)
  then show ?thesis unfolding q using x feed_kept_trans [OF _ send_fold_feed, of s y room pc "[0..<n]"] by simp
qed

lemma quote_fold_feed: "feed_kept (fst y) (fst (fold (DutSession_quote ops room pc) xs y))"
  by (rule feed_kept_fold) (rule quote_feed)

lemma packet_message_feed: "feed_kept (fst x) (fst (packet_message ops room pc msg x))"
proof -
  obtain s sent extra where x: "x = (s, sent, extra)" by (cases x) auto
  obtain hot s1 where a: "DutSession_applyMessage msg s = (hot, s1)" by fastforce
  then have s1: "feed_kept s s1"
    by (auto simp: DutSession_applyMessage_def DutSession_onSystemEvent_def feed_kept_def Let_def split: if_splits prod.splits)
  define s2 where "s2 = (if ds_topSeen s1 ! nat hot = kDirtyTop then s1\<lparr>ds_strats := (ds_strats s1)[nat hot := st_forget ops (ds_strats s1 ! nat hot)]\<rparr> else s1)"
  have "feed_kept s1 s2" by (simp add: s2_def feed_kept_def)
  then have s2: "feed_kept s (fst (DutSession_quote ops room pc (nat hot) (s2, sent, extra)))"
    using feed_kept_trans [OF feed_kept_trans [OF s1] quote_feed [of "(s2, sent, extra)" ops room pc "nat hot"]] by simp
  show ?thesis using x a s1 s2 by (simp add: packet_message_def Let_def s2_def)
qed

lemma applyPacket_in_order:
  assumes "kHeaderSize \<le> length p" and "SequenceTracker_onPacket (sequenceOf p) (countOf p) (ds_seq s) = (InOrder, tr)"
  shows "feed_kept (s\<lparr>ds_seq := tr, ds_packets := ds_packets s + 1\<rparr>) (DutSession_applyPacket ops sq room p rxStamp rxTsc s)"
proof -
  define s1 where "s1 = s\<lparr>ds_packets := ds_packets s + 1, ds_seq := tr\<rparr>"
  define pc where "pc = \<lparr>pc_seq = sequenceOf p, pc_msgs = countOf p, pc_rxStamp = rxStamp, pc_gap = False, pc_rehash = BookTable_rehashes (ds_books s1),
     pc_reanchor = BookTable_reanchors (ds_books s1), pc_created = bt_created (ds_books s1), pc_rescan = BookTable_rescans (ds_books s1)\<rparr>"
  define x where "x = (s1\<lparr>ds_reapHit := False\<rparr>, False, 0 :: byte)"
  define x3 where "x3 = fold (packet_message ops room pc) (map snd (forEachMessage p)) x"
  define x4 where "x4 = (if ds_reconcileAll (fst x3) then
      fold (DutSession_quote ops room pc) [0..<BookTable_hotCount (ds_books (fst x3))] ((fst x3)\<lparr>ds_reconcileAll := False\<rparr>, snd x3) else x3)"
  have u: "DutSession_applyPacket ops sq room p rxStamp rxTsc s =
      (fst x4)\<lparr>ds_cold := map_option (\<lambda>c. snd (ColdShard_push sq p c)) (ds_cold (fst x4)), ds_lastRxTsc := rxTsc, ds_idleSince := False\<rparr>"
    using assms unfolding DutSession_applyPacket_def Let_def assms(2) prod.case s1_def [symmetric]
    by (simp add: pc_def [symmetric] x_def [symmetric] x3_def [symmetric] x4_def case_prod_beta)
  have a: "feed_kept s1 (fst x)" by (simp add: x_def feed_kept_def)
  have b: "feed_kept (fst x) (fst x3)" unfolding x3_def by (rule feed_kept_fold [OF packet_message_feed])
  have d: "feed_kept (fst x3) ((fst x3)\<lparr>ds_reconcileAll := False\<rparr>)" by (simp add: feed_kept_def)
  have e: "feed_kept (fst x3) (fst x4)"
    using feed_kept_trans [OF d] quote_fold_feed [of "((fst x3)\<lparr>ds_reconcileAll := False\<rparr>, snd x3)" ops room pc] by (simp add: x4_def feed_kept_refl)
  have "feed_kept s1 (fst x4)" using feed_kept_trans [OF feed_kept_trans [OF a b] e] .
  then show ?thesis by (simp add: u feed_kept_def s1_def)
qed

end
