(* ===== verification/ExchangeSession.thy ===== *)
theory ExchangeSession
  imports MoldUdp64 SoupBinTcp Net Venue
begin

text \<open>
  The session server of \<^verbatim>\<open>sim/ExchangeSession.hpp\<close>: it reads SoupBinTCP order entry, hands the OUCH requests to the venue of their symbol,
  mirrors a recorded feed, and packs what the venues publish into MoldUDP64 packets. In memory and on sockets the packets of
  both directions are the lists \<open>ex_md\<close> and \<open>ex_oe\<close>; on a packet ring the frames the ring took are \<open>ex_frames\<close>, and \<open>room n\<close> is what the ring
  answers to the \<open>n\<close>-th frame. A venue reaches the session only through its sink, which does not touch the venues: the messages a venue
  operation leaves in \<open>v_out\<close> are delivered when it returns. The field \<open>ex_handed\<close> is not part of the program: it lists the
  messages given to \<^verbatim>\<open>appendMarketData\<close>. A mirrored message returns none when a loop of the venue ran out of fuel.
\<close>

section \<open>Data\<close>

datatype SimIoMode = Sim_Loopback | Sim_Socket | Sim_Transport

record ExchangeConfig =
  xc_symbols :: "byte list list"
  xc_locates :: "u16 list"
  xc_session :: "byte list"
  xc_minTick :: Price
  xc_maxTick :: Price
  xc_wirePerTick :: u32
  xc_mdMaxPayload :: nat
  xc_firstOrderRef :: OrderId
  xc_liveReserve :: nat

record SessionStats =
  ss_mdPackets :: u64
  ss_oePackets :: u64
  ss_enters :: u64
  ss_cancels :: u64
  ss_replaces :: u64
  ss_unknown :: u64
  ss_txDropped :: u64
  ss_forwarded :: u64
  ss_mirrored :: u64
  ss_logins :: u64
  ss_refScans :: u64
  ss_refMisses :: u64

definition SessionStats_new :: SessionStats where
  "SessionStats_new = \<lparr>ss_mdPackets = 0, ss_oePackets = 0, ss_enters = 0, ss_cancels = 0, ss_replaces = 0, ss_unknown = 0, ss_txDropped = 0,
     ss_forwarded = 0, ss_mirrored = 0, ss_logins = 0, ss_refScans = 0, ss_refMisses = 0\<rparr>"

record RefVenue =
  rv_userRef :: u32
  rv_venue :: u16

record ExchangeSession =
  ex_mode :: SimIoMode
  ex_cfg :: ExchangeConfig
  ex_packer :: Packer
  ex_venues :: "Venue list"
  ex_venueOfLocate :: "u16 \<Rightarrow> int"
  ex_refVenue :: "RefVenue list"
  ex_stats :: SessionStats
  ex_rxBuf :: "byte list"
  ex_mdBuf :: "byte list"
  ex_mdOpen :: bool
  ex_outSeq :: u64
  ex_md :: "byte list list"
  ex_oe :: "byte list list"
  ex_mdFramer :: "byte list"
  ex_oeFramer :: "byte list"
  ex_maxTxFrame :: nat
  ex_frames :: "byte list list"
  ex_sends :: nat
  ex_handed :: "byte list list"

definition ex_kRefRing :: nat where "ex_kRefRing = 4096"
definition kMdBuf :: nat where "kMdBuf = 2048"
definition kOeBuf :: nat where "kOeBuf = 512"
definition kTxFrame :: nat where "kTxFrame = 2048"

definition stats_upd :: "(SessionStats \<Rightarrow> SessionStats) \<Rightarrow> ExchangeSession \<Rightarrow> ExchangeSession" where
  "stats_upd f s = s\<lparr>ex_stats := f (ex_stats s)\<rparr>"

text \<open>\<^verbatim>\<open>static_cast<std::int16_t>(i)\<close>.\<close>

definition venue_index :: "nat \<Rightarrow> int" where
  "venue_index i = sint (of_nat i :: u16)"

definition venue_locate :: "ExchangeConfig \<Rightarrow> nat \<Rightarrow> u16" where
  "venue_locate cfg i = (if i < length (xc_locates cfg) \<and> xc_locates cfg ! i \<noteq> 0 then xc_locates cfg ! i else of_nat (i + 1))"

definition ExchangeSession_new :: "SimIoMode \<Rightarrow> ExchangeConfig \<Rightarrow> ExchangeSession" where
  "ExchangeSession_new mode cfg0 =
     (let cfg = (if xc_symbols cfg0 = [] then cfg0\<lparr>xc_symbols := [[0x41, 0x41, 0x50, 0x4C]]\<rparr> else cfg0);
          n = length (xc_symbols cfg);
          first = (if xc_firstOrderRef cfg = 0 then 1 else xc_firstOrderRef cfg);
          venue = (\<lambda>i. Venue_new (xc_symbols cfg ! i) (venue_locate cfg i) (xc_minTick cfg) (xc_maxTick cfg) (xc_wirePerTick cfg)
                     (first + of_nat i * push_bit 40 1) (xc_liveReserve cfg))
      in \<lparr>ex_mode = mode, ex_cfg = cfg, ex_packer = Packer_new (xc_session cfg) 1, ex_venues = map venue [0..<n],
          ex_venueOfLocate = fold (\<lambda>i m. m(venue_locate cfg i := venue_index i)) [0..<n] (\<lambda>_. - 1),
          ex_refVenue = replicate ex_kRefRing \<lparr>rv_userRef = 0, rv_venue = 0\<rparr>, ex_stats = SessionStats_new, ex_rxBuf = [],
          ex_mdBuf = replicate kMdBuf 0, ex_mdOpen = False, ex_outSeq = 1, ex_md = [], ex_oe = [], ex_mdFramer = [], ex_oeFramer = [],
          ex_maxTxFrame = 0, ex_frames = [], ex_sends = 0, ex_handed = []\<rparr>)"

definition ExchangeSession_prepareTransport :: "Endpoints \<Rightarrow> Endpoints \<Rightarrow> nat \<Rightarrow> ExchangeSession \<Rightarrow> ExchangeSession" where
  "ExchangeSession_prepareTransport mdEp oeEp maxTxFrame s =
     s\<lparr>ex_mdFramer := UdpFramer_header (UdpFramer_new mdEp), ex_oeFramer := UdpFramer_header (UdpFramer_new oeEp), ex_maxTxFrame := maxTxFrame\<rparr>"

section \<open>Output\<close>

definition ExchangeSession_sendFrame :: "(nat \<Rightarrow> bool) \<Rightarrow> byte list \<Rightarrow> byte list \<Rightarrow> ExchangeSession \<Rightarrow> ExchangeSession" where
  "ExchangeSession_sendFrame room header payload s =
     (let frameLen = kL2L3L4Overhead + length payload in
      if frameLen > kTxFrame \<or> (ex_maxTxFrame s \<noteq> 0 \<and> frameLen > ex_maxTxFrame s) then
        stats_upd (\<lambda>t. t\<lparr>ss_txDropped := ss_txDropped t + 1\<rparr>) s
      else
        let s1 = s\<lparr>ex_sends := ex_sends s + 1\<rparr>
        in if room (ex_sends s) then s1\<lparr>ex_frames := ex_frames s1 @ [UdpFramer_patch (header @ payload) (length payload)]\<rparr>
           else stats_upd (\<lambda>t. t\<lparr>ss_txDropped := ss_txDropped t + 1\<rparr>) s1)"

definition ExchangeSession_marketDataOut :: "(nat \<Rightarrow> bool) \<Rightarrow> byte list \<Rightarrow> ExchangeSession \<Rightarrow> ExchangeSession" where
  "ExchangeSession_marketDataOut room b s =
     (let s1 = stats_upd (\<lambda>t. t\<lparr>ss_mdPackets := ss_mdPackets t + 1\<rparr>) s
      in if ex_mode s1 = Sim_Transport then ExchangeSession_sendFrame room (ex_mdFramer s1) b s1 else s1\<lparr>ex_md := ex_md s1 @ [b]\<rparr>)"

definition ExchangeSession_orderEntryOut :: "byte list \<Rightarrow> ExchangeSession \<Rightarrow> ExchangeSession" where
  "ExchangeSession_orderEntryOut b s = (if ex_mode s = Sim_Transport then s else s\<lparr>ex_oe := ex_oe s @ [b]\<rparr>)"

definition ExchangeSession_sendOrderEntry :: "(nat \<Rightarrow> bool) \<Rightarrow> byte list \<Rightarrow> ExchangeSession \<Rightarrow> ExchangeSession" where
  "ExchangeSession_sendOrderEntry room ouch s =
     (if ex_mode s = Sim_Transport then ExchangeSession_sendFrame room (ex_oeFramer s) ouch s
      else
        let s1 = ExchangeSession_orderEntryOut (packSequencedData (replicate kOeBuf 0) ouch) s
        in s1\<lparr>ex_outSeq := ex_outSeq s1 + 1\<rparr>)"

definition ExchangeSession_mdCapacity :: "ExchangeSession \<Rightarrow> nat" where
  "ExchangeSession_mdCapacity s =
     (let cap0 = xc_mdMaxPayload (ex_cfg s);
          wire = ex_maxTxFrame s - kL2L3L4Overhead;
          cap = (if ex_mode s = Sim_Transport \<and> ex_maxTxFrame s > kL2L3L4Overhead \<and> (cap0 = 0 \<or> wire < cap0) then wire else cap0)
      in if cap < kHeaderSize + 64 \<or> cap > kMdBuf then kMdBuf else cap)"

definition ExchangeSession_flushMarketData :: "(nat \<Rightarrow> bool) \<Rightarrow> ExchangeSession \<Rightarrow> ExchangeSession" where
  "ExchangeSession_flushMarketData room s =
     (let s1 = (if ex_mdOpen s \<and> pk_count (ex_packer s) > 0 then
                  let (pkt, p) = Packer_finalize (ex_packer s)
                  in ExchangeSession_marketDataOut room pkt (s\<lparr>ex_packer := p, ex_mdBuf := pk_buf p\<rparr>)
                else s)
      in s1\<lparr>ex_mdOpen := False\<rparr>)"

definition open_packet :: "ExchangeSession \<Rightarrow> ExchangeSession" where
  "open_packet s = s\<lparr>ex_packer := Packer_reset (ex_mdBuf s) (ExchangeSession_mdCapacity s) (ex_packer s), ex_mdOpen := True\<rparr>"

definition ExchangeSession_appendMarketData :: "(nat \<Rightarrow> bool) \<Rightarrow> byte list \<Rightarrow> ExchangeSession \<Rightarrow> ExchangeSession" where
  "ExchangeSession_appendMarketData room itch s0 =
     (let s = s0\<lparr>ex_handed := ex_handed s0 @ [itch]\<rparr>;
          s1 = (if \<not> ex_mdOpen s then open_packet s else s);
          (ok, p) = Packer_append itch (ex_packer s1)
      in if ok then s1\<lparr>ex_packer := p\<rparr>
         else
           let s2 = open_packet (ExchangeSession_flushMarketData room s1)
           in s2\<lparr>ex_packer := snd (Packer_append itch (ex_packer s2))\<rparr>)"

section \<open>Venues\<close>

primrec sink_deliver :: "(nat \<Rightarrow> bool) \<Rightarrow> SinkCall \<Rightarrow> ExchangeSession \<Rightarrow> ExchangeSession" where
  "sink_deliver room (MarketData itch) s = ExchangeSession_appendMarketData room itch s"
| "sink_deliver room (OrderEntry ouch) s = ExchangeSession_sendOrderEntry room ouch s"

definition put_venue :: "(nat \<Rightarrow> bool) \<Rightarrow> nat \<Rightarrow> Venue \<Rightarrow> ExchangeSession \<Rightarrow> ExchangeSession" where
  "put_venue room i v s = fold (sink_deliver room) (map sink_call (v_out v)) (s\<lparr>ex_venues := (ex_venues s)[i := v\<lparr>v_out := []\<rparr>]\<rparr>)"

definition on_venue :: "(nat \<Rightarrow> bool) \<Rightarrow> nat \<Rightarrow> (Venue \<Rightarrow> Venue) \<Rightarrow> ExchangeSession \<Rightarrow> ExchangeSession" where
  "on_venue room i f s = put_venue room i (f (ex_venues s ! i)) s"

definition ExchangeSession_withMarketData :: "(nat \<Rightarrow> bool) \<Rightarrow> (ExchangeSession \<Rightarrow> ExchangeSession) \<Rightarrow> ExchangeSession \<Rightarrow> ExchangeSession" where
  "ExchangeSession_withMarketData room fn s = ExchangeSession_flushMarketData room (fn s)"

definition ExchangeSession_publishDirectory :: "(nat \<Rightarrow> bool) \<Rightarrow> u64 \<Rightarrow> ExchangeSession \<Rightarrow> ExchangeSession" where
  "ExchangeSession_publishDirectory room ts s =
     ExchangeSession_withMarketData room (fold (\<lambda>i. on_venue room i (Venue_emitStockDirectory ts)) [0..<length (ex_venues s)]) s"

definition ExchangeSession_resetDay :: "(nat \<Rightarrow> bool) \<Rightarrow> u64 \<Rightarrow> ExchangeSession \<Rightarrow> ExchangeSession" where
  "ExchangeSession_resetDay room ts s =
     ExchangeSession_withMarketData room (fold (\<lambda>i. on_venue room i (Venue_resetDay ts)) [0..<length (ex_venues s)]) s"

definition ExchangeSession_injectSynthetic ::
  "(nat \<Rightarrow> bool) \<Rightarrow> Side \<Rightarrow> Price \<Rightarrow> Quantity \<Rightarrow> u64 \<Rightarrow> ExchangeSession \<Rightarrow> OrderId \<times> ExchangeSession" where
  "ExchangeSession_injectSynthetic room side tick qty ts s =
     (let (ref, v) = Venue_injectSynthetic side tick qty ts (ex_venues s ! 0)
      in (ref, ExchangeSession_withMarketData room (put_venue room 0 v) s))"

definition ExchangeSession_cancelSynthetic :: "(nat \<Rightarrow> bool) \<Rightarrow> OrderId \<Rightarrow> u64 \<Rightarrow> ExchangeSession \<Rightarrow> ExchangeSession" where
  "ExchangeSession_cancelSynthetic room ref ts s =
     ExchangeSession_withMarketData room (on_venue room 0 (Venue_cancelSynthetic ref ts)) s"

definition ExchangeSession_sessionEvent :: "(nat \<Rightarrow> bool) \<Rightarrow> byte \<Rightarrow> u64 \<Rightarrow> ExchangeSession \<Rightarrow> ExchangeSession" where
  "ExchangeSession_sessionEvent room code ts s = ExchangeSession_withMarketData room (on_venue room 0 (Venue_sessionEvent code ts)) s"

section \<open>Routing\<close>

definition ExchangeSession_venueForSymbol :: "byte list \<Rightarrow> ExchangeSession \<Rightarrow> nat" where
  "ExchangeSession_venueForSymbol symbol s =
     (case find (\<lambda>i. v_symbol (ex_venues s ! i) = symbol) [0..<length (ex_venues s)] of Some i \<Rightarrow> i | None \<Rightarrow> 0)"

definition ref_slot :: "u32 \<Rightarrow> nat" where
  "ref_slot userRef = unat (userRef mod of_nat ex_kRefRing)"

definition ExchangeSession_venueForUserRef :: "u32 \<Rightarrow> ExchangeSession \<Rightarrow> nat \<times> ExchangeSession" where
  "ExchangeSession_venueForUserRef userRef s =
     (let r = ex_refVenue s ! ref_slot userRef in
      if rv_userRef r = userRef then (unat (rv_venue r), s)
      else
        let s1 = stats_upd (\<lambda>t. t\<lparr>ss_refScans := ss_refScans t + 1\<rparr>) s
        in case find (\<lambda>i. Venue_hasUserRef userRef (ex_venues s1 ! i)) [0..<length (ex_venues s1)] of
             Some i \<Rightarrow> (i, s1)
           | None \<Rightarrow> (0, stats_upd (\<lambda>t. t\<lparr>ss_refMisses := ss_refMisses t + 1\<rparr>) s1))"

definition ExchangeSession_rememberUserRef :: "u32 \<Rightarrow> nat \<Rightarrow> ExchangeSession \<Rightarrow> ExchangeSession" where
  "ExchangeSession_rememberUserRef userRef venue s =
     s\<lparr>ex_refVenue := (ex_refVenue s)[ref_slot userRef := \<lparr>rv_userRef = userRef, rv_venue = of_nat venue\<rparr>]\<rparr>"

definition ExchangeSession_bindDirectory :: "byte list \<Rightarrow> u16 \<Rightarrow> ExchangeSession \<Rightarrow> ExchangeSession" where
  "ExchangeSession_bindDirectory msg locate s =
     (if length msg < sizeof_StockDirectory then s
      else
        let name = alpha_view (sd_stock (dec_StockDirectory msg)) in
        case find (\<lambda>i. v_symbol (ex_venues s ! i) = name) [0..<length (ex_venues s)] of
          None \<Rightarrow> s
        | Some i \<Rightarrow>
            let old = v_stockLocate (ex_venues s ! i) in
            if old = locate then s
            else
              let m1 = (if ex_venueOfLocate s old = venue_index i then (ex_venueOfLocate s)(old := - 1) else ex_venueOfLocate s)
              in s\<lparr>ex_venues := (ex_venues s)[i := Venue_bindLocate locate (ex_venues s ! i)],
                   ex_venueOfLocate := m1(locate := venue_index i)\<rparr>)"

section \<open>Requests\<close>

definition ExchangeSession_dispatchOuch :: "(nat \<Rightarrow> bool) \<Rightarrow> byte list \<Rightarrow> u64 \<Rightarrow> ExchangeSession \<Rightarrow> ExchangeSession" where
  "ExchangeSession_dispatchOuch room payload ts s =
     (if payload = [] then s
      else
        let t = payload ! 0 in
        if t = InType_code In_EnterOrder \<and> length payload \<ge> sizeof_EnterOrder then
          let m = dec_EnterOrder payload;
              s1 = stats_upd (\<lambda>t. t\<lparr>ss_enters := ss_enters t + 1\<rparr>) s;
              vi = ExchangeSession_venueForSymbol (alpha_view (eo_symbol m)) s1;
              s2 = ExchangeSession_rememberUserRef (eo_userRefNum m) vi s1
          in ExchangeSession_withMarketData room (on_venue room vi (Venue_onEnterOrder m ts)) s2
        else if t = InType_code In_CancelOrder \<and> length payload \<ge> sizeof_CancelOrder then
          let x = dec_CancelOrder payload;
              s1 = stats_upd (\<lambda>t. t\<lparr>ss_cancels := ss_cancels t + 1\<rparr>) s;
              (vi, s2) = ExchangeSession_venueForUserRef (co_userRefNum x) s1
          in ExchangeSession_withMarketData room (on_venue room vi (Venue_onCancelOrder x ts)) s2
        else if t = InType_code In_ReplaceOrder \<and> length payload \<ge> sizeof_ReplaceOrder then
          let u = dec_ReplaceOrder payload;
              s1 = stats_upd (\<lambda>t. t\<lparr>ss_replaces := ss_replaces t + 1\<rparr>) s;
              (vi, s2) = ExchangeSession_venueForUserRef (ro_origUserRefNum u) s1;
              s3 = ExchangeSession_rememberUserRef (ro_userRefNum u) vi s2
          in ExchangeSession_withMarketData room (on_venue room vi (Venue_onReplaceOrder u ts)) s3
        else stats_upd (\<lambda>t. t\<lparr>ss_unknown := ss_unknown t + 1\<rparr>) s)"

definition login_reply :: "ExchangeSession \<Rightarrow> byte list" where
  "login_reply s = packLoginAccepted (replicate kOeBuf 0) (xc_session (ex_cfg s)) (ex_outSeq s)"

definition ExchangeSession_handleSoup :: "(nat \<Rightarrow> bool) \<Rightarrow> u64 \<Rightarrow> SoupPacket \<Rightarrow> ExchangeSession \<Rightarrow> ExchangeSession" where
  "ExchangeSession_handleSoup room ts p s =
     (if sp_type p = SoupType_code Soup_LoginRequest then
        let s1 = stats_upd (\<lambda>t. t\<lparr>ss_logins := ss_logins t + 1\<rparr>) s in ExchangeSession_orderEntryOut (login_reply s1) s1
      else if sp_type p = SoupType_code Soup_UnsequencedData then ExchangeSession_dispatchOuch room (sp_payload p) ts s
      else if sp_type p = SoupType_code Soup_LogoutRequest then
        ExchangeSession_orderEntryOut (packEndOfSession (replicate kOeBuf 0)) s
      else s)"

definition ExchangeSession_onOrderEntryBytes :: "(nat \<Rightarrow> bool) \<Rightarrow> u64 \<Rightarrow> byte list \<Rightarrow> ExchangeSession \<Rightarrow> ExchangeSession" where
  "ExchangeSession_onOrderEntryBytes room ts data s =
     (let s1 = stats_upd (\<lambda>t. t\<lparr>ss_oePackets := ss_oePackets t + 1\<rparr>) s;
          (ps, rest) = soup_drain (ex_rxBuf s1 @ data)
      in (fold (ExchangeSession_handleSoup room ts) ps s1)\<lparr>ex_rxBuf := rest\<rparr>)"

text \<open>A frame that \<^verbatim>\<open>pollOrderEntry\<close> takes from a packet ring, and the frames of one call.\<close>

definition order_frame_in :: "(nat \<Rightarrow> bool) \<Rightarrow> u64 \<Rightarrow> byte list \<Rightarrow> ExchangeSession \<Rightarrow> ExchangeSession" where
  "order_frame_in room ts raw s =
     (let s1 = stats_upd (\<lambda>t. t\<lparr>ss_oePackets := ss_oePackets t + 1\<rparr>) s;
          len = udpPayloadLen raw (length raw)
      in if len > 0 then
           let payload = peek kL2L3L4Overhead len raw in
           if payload ! 0 = 0 then
             case soup_parse payload of
               Some (n, p) \<Rightarrow>
                 if sp_type p = SoupType_code Soup_LoginRequest then
                   let s2 = stats_upd (\<lambda>t. t\<lparr>ss_logins := ss_logins t + 1\<rparr>) s1
                   in ExchangeSession_sendFrame room (ex_oeFramer s2) (login_reply s2) s2
                 else s1
             | None \<Rightarrow> s1
           else ExchangeSession_dispatchOuch room payload ts s1
         else s1)"

definition ExchangeSession_pollOrderEntry :: "(nat \<Rightarrow> bool) \<Rightarrow> u64 \<Rightarrow> byte list list \<Rightarrow> ExchangeSession \<Rightarrow> ExchangeSession" where
  "ExchangeSession_pollOrderEntry room ts frames s = fold (order_frame_in room ts) frames s"

section \<open>The recorded feed\<close>

text \<open>The venue after a mirrored message, none for a message that is not mirrored; the inner option is the fuel of the venue.\<close>

definition mirror_call :: "byte list \<Rightarrow> u64 \<Rightarrow> Venue \<Rightarrow> Venue option option" where
  "mirror_call msg ts v =
     (let t = msg ! 0; n = length msg in
      if t = 0x41 \<or> t = 0x46 then
        if n < sizeof_AddOrder then None
        else
          let a = dec_AddOrder msg; side = (if ao_side a = ItchSide_code ISide_Buy then Buy else Sell)
          in Some (Venue_mirrorAdd (ao_orderRef a) side (ao_price a) (ao_shares a) ts v)
      else if t = 0x45 then
        if n < sizeof_OrderExecuted then None
        else let e = dec_OrderExecuted msg in Some (Venue_mirrorExecute (oe_orderRef e) (oe_executedShares e) ts v)
      else if t = 0x43 then
        if n < sizeof_OrderExecutedWithPrice then None
        else let c = dec_OrderExecutedWithPrice msg in Some (Venue_mirrorExecute (op_orderRef c) (op_executedShares c) ts v)
      else if t = 0x58 then
        if n < sizeof_OrderCancel then None
        else let x = dec_OrderCancel msg in Some (Some (Venue_mirrorCancel (oc_orderRef x) (oc_cancelledShares x) v))
      else if t = 0x44 then
        if n < sizeof_OrderDelete then None
        else let x = dec_OrderDelete msg in Some (Some (Venue_mirrorDelete (od_orderRef x) v))
      else if t = 0x55 then
        if n < sizeof_OrderReplace then None
        else
          let u = dec_OrderReplace msg
          in Some (Venue_mirrorReplace (orp_origOrderRef u) (orp_newOrderRef u) (orp_shares u) (orp_price u) ts v)
      else None)"

definition ExchangeSession_mirror :: "(nat \<Rightarrow> bool) \<Rightarrow> nat \<Rightarrow> byte list \<Rightarrow> u64 \<Rightarrow> ExchangeSession \<Rightarrow> ExchangeSession option" where
  "ExchangeSession_mirror room i msg ts s =
     (case mirror_call msg ts (ex_venues s ! i) of
        None \<Rightarrow> Some s
      | Some None \<Rightarrow> None
      | Some (Some v) \<Rightarrow> Some (stats_upd (\<lambda>t. t\<lparr>ss_mirrored := ss_mirrored t + 1\<rparr>) (put_venue room i v s)))"

definition ExchangeSession_replayMessage :: "(nat \<Rightarrow> bool) \<Rightarrow> byte list \<Rightarrow> u64 \<Rightarrow> ExchangeSession \<Rightarrow> ExchangeSession option" where
  "ExchangeSession_replayMessage room msg ts s =
     (if length msg < 11 then Some s
      else
        let s1 = ExchangeSession_appendMarketData room msg (stats_upd (\<lambda>t. t\<lparr>ss_forwarded := ss_forwarded t + 1\<rparr>) s);
            locate = push_bit 8 (ucast (msg ! 1)) OR ucast (msg ! 2) :: u16
        in if msg ! 0 = 0x52 then Some (ExchangeSession_bindDirectory msg locate s1)
           else
             let vi = ex_venueOfLocate s1 locate
             in if vi \<ge> 0 then ExchangeSession_mirror room (nat vi) msg ts s1 else Some s1)"

section \<open>Queries\<close>

definition mirror_add :: "MirrorStats \<Rightarrow> MirrorStats \<Rightarrow> MirrorStats" where
  "mirror_add m t =
     \<lparr>ms_adds = ms_adds t + ms_adds m, ms_executes = ms_executes t + ms_executes m, ms_cancels = ms_cancels t + ms_cancels m,
      ms_deletes = ms_deletes t + ms_deletes m, ms_replaces = ms_replaces t + ms_replaces m,
      ms_unknownRef = ms_unknownRef t + ms_unknownRef m, ms_overReduce = ms_overReduce t + ms_overReduce m,
      ms_outOfBand = ms_outOfBand t + ms_outOfBand m, ms_shadowFills = ms_shadowFills t + ms_shadowFills m,
      ms_shadowShares = ms_shadowShares t + ms_shadowShares m, ms_crossFills = ms_crossFills t + ms_crossFills m,
      ms_impactFills = ms_impactFills t + ms_impactFills m, ms_selfTrades = ms_selfTrades t + ms_selfTrades m\<rparr>"

text \<open>The sum of the counters, and the sum of the rehashes, which the venues keep apart.\<close>

definition ExchangeSession_mirrorStats :: "ExchangeSession \<Rightarrow> MirrorStats \<times> u64" where
  "ExchangeSession_mirrorStats s =
     (fold mirror_add (map v_mirror (ex_venues s)) MirrorStats_new, sum_list (map Venue_rehashes (ex_venues s)))"

definition ExchangeSession_clientOrders :: "ExchangeSession \<Rightarrow> nat" where
  "ExchangeSession_clientOrders s = sum_list (map (\<lambda>v. length (v_clientRefs v)) (ex_venues s))"

definition ExchangeSession_clientSeen :: "ExchangeSession \<Rightarrow> bool" where
  "ExchangeSession_clientSeen s \<longleftrightarrow> ss_logins (ex_stats s) > 0"

definition ExchangeSession_trades :: "ExchangeSession \<Rightarrow> u64" where
  "ExchangeSession_trades s = sum_list (map Venue_trades (ex_venues s))"

definition ExchangeSession_liveOrders :: "ExchangeSession \<Rightarrow> nat" where
  "ExchangeSession_liveOrders s = sum_list (map (\<lambda>v. fm_size (v_live v)) (ex_venues s))"

end
