(* ===== verification/ExchangeSessionProps.thy ===== *)
theory ExchangeSessionProps
  imports ExchangeSession
begin

text \<open>
  Properties of the session server: the market data packets carry exactly the messages the venues and the replay produced, numbered without
  gaps, whatever the order of the operations, and order entry does not depend on how the stream was cut.
\<close>

section \<open>Numbered messages\<close>

definition numbered :: "u64 \<Rightarrow> byte list list \<Rightarrow> (u64 \<times> byte list) list" where
  "numbered n msgs = zip (map (\<lambda>i. n + of_nat i) [0..<length msgs]) msgs"

lemma map_snd_numbered [simp]: "map snd (numbered n msgs) = msgs"
  by (simp add: numbered_def)

lemma length_numbered [simp]: "length (numbered n msgs) = length msgs"
  by (simp add: numbered_def)

lemma numbered_append: "numbered n (xs @ ys) = numbered n xs @ numbered (n + of_nat (length xs)) ys"
proof -
  have "map (\<lambda>i. n + of_nat i) [0..<length xs + length ys] = map (\<lambda>i. n + of_nat i) [0..<length xs] @ map (\<lambda>i. n + of_nat (length xs) + of_nat i) [0..<length ys]"
    by (rule nth_equalityI) (auto simp: nth_append ac_simps simp flip: of_nat_add)
  then show ?thesis by (simp add: numbered_def)
qed

text \<open>A stream of packets in which every packet starts where the one before it ended.\<close>

primrec stream_ok :: "u64 \<Rightarrow> byte list list \<Rightarrow> bool" where
  "stream_ok n [] = True"
| "stream_ok n (p # ps) =
     (sequenceOf p = n \<and> forEachMessage p \<noteq> [] \<and> unat (countOf p) = length (forEachMessage p) \<and>
      forEachMessage p = numbered n (map snd (forEachMessage p)) \<and> stream_ok (n + of_nat (length (forEachMessage p))) ps)"

definition stream_messages :: "byte list list \<Rightarrow> byte list list" where
  "stream_messages ps = concat (map (\<lambda>p. map snd (forEachMessage p)) ps)"

lemma stream_messages_simps [simp]:
  "stream_messages [] = []" "stream_messages (ps @ qs) = stream_messages ps @ stream_messages qs"
  "stream_messages (p # ps) = map snd (forEachMessage p) @ stream_messages ps"
  by (simp_all add: stream_messages_def)

lemma stream_ok_append: "stream_ok n (ps @ qs) \<longleftrightarrow> stream_ok n ps \<and> stream_ok (n + of_nat (length (stream_messages ps))) qs"
  by (induction ps arbitrary: n) (auto simp: ac_simps)

lemma stream_ok_numbered: "stream_ok n ps \<Longrightarrow> concat (map forEachMessage ps) = numbered n (stream_messages ps)"
  by (induction ps arbitrary: n) (auto simp: numbered_append numbered_def [of _ "[]"])

section \<open>The packet under construction\<close>

definition md_fits :: "ExchangeSession \<Rightarrow> byte list \<Rightarrow> bool" where
  "md_fits s m \<longleftrightarrow> kHeaderSize + 2 + length m \<le> ExchangeSession_mdCapacity s"

definition md_core :: "ExchangeSession \<Rightarrow> byte list list \<Rightarrow> bool" where
  "md_core s pend \<longleftrightarrow> ex_mode s \<noteq> Sim_Transport \<and> length (ex_mdBuf s) = kMdBuf \<and> length (pk_session (ex_packer s)) = kSessionLen \<and>
     pk_seq (ex_packer s) = 1 + of_nat (length (stream_messages (ex_md s) @ pend)) \<and> stream_ok 1 (ex_md s) \<and> list_all (md_fits s) pend \<and>
     (if ex_mdOpen s then packed (ex_packer s) pend \<and> length (pk_buf (ex_packer s)) = kMdBuf \<and> pk_cap (ex_packer s) = ExchangeSession_mdCapacity s
      else pend = [])"

lemma mdCapacity_bound: "84 \<le> ExchangeSession_mdCapacity s \<and> ExchangeSession_mdCapacity s \<le> kMdBuf"
  by (auto simp: ExchangeSession_mdCapacity_def Let_def kMdBuf_def mold_consts)

lemma mdCapacity_upd [simp]:
  "ExchangeSession_mdCapacity (s\<lparr>ex_handed := u0\<rparr>) = ExchangeSession_mdCapacity s"
  "ExchangeSession_mdCapacity (s\<lparr>ex_packer := u1\<rparr>) = ExchangeSession_mdCapacity s"
  "ExchangeSession_mdCapacity (s\<lparr>ex_mdOpen := u2\<rparr>) = ExchangeSession_mdCapacity s"
  "ExchangeSession_mdCapacity (s\<lparr>ex_mdBuf := u3\<rparr>) = ExchangeSession_mdCapacity s"
  "ExchangeSession_mdCapacity (s\<lparr>ex_md := u4\<rparr>) = ExchangeSession_mdCapacity s"
  "ExchangeSession_mdCapacity (s\<lparr>ex_stats := u5\<rparr>) = ExchangeSession_mdCapacity s"
  "ExchangeSession_mdCapacity (s\<lparr>ex_venues := u6\<rparr>) = ExchangeSession_mdCapacity s"
  "ExchangeSession_mdCapacity (s\<lparr>ex_refVenue := u7\<rparr>) = ExchangeSession_mdCapacity s"
  "ExchangeSession_mdCapacity (s\<lparr>ex_rxBuf := u8\<rparr>) = ExchangeSession_mdCapacity s"
  "ExchangeSession_mdCapacity (s\<lparr>ex_oe := u9\<rparr>) = ExchangeSession_mdCapacity s"
  "ExchangeSession_mdCapacity (s\<lparr>ex_outSeq := u10\<rparr>) = ExchangeSession_mdCapacity s"
  "ExchangeSession_mdCapacity (s\<lparr>ex_venueOfLocate := u11\<rparr>) = ExchangeSession_mdCapacity s"
  by (simp_all add: ExchangeSession_mdCapacity_def)

lemma md_fits_upd [simp]:
  "md_fits (s\<lparr>ex_handed := u0\<rparr>) = md_fits s"
  "md_fits (s\<lparr>ex_packer := u1\<rparr>) = md_fits s"
  "md_fits (s\<lparr>ex_mdOpen := u2\<rparr>) = md_fits s"
  "md_fits (s\<lparr>ex_mdBuf := u3\<rparr>) = md_fits s"
  "md_fits (s\<lparr>ex_md := u4\<rparr>) = md_fits s"
  "md_fits (s\<lparr>ex_stats := u5\<rparr>) = md_fits s"
  "md_fits (s\<lparr>ex_venues := u6\<rparr>) = md_fits s"
  "md_fits (s\<lparr>ex_refVenue := u7\<rparr>) = md_fits s"
  "md_fits (s\<lparr>ex_rxBuf := u8\<rparr>) = md_fits s"
  "md_fits (s\<lparr>ex_oe := u9\<rparr>) = md_fits s"
  "md_fits (s\<lparr>ex_outSeq := u10\<rparr>) = md_fits s"
  "md_fits (s\<lparr>ex_venueOfLocate := u11\<rparr>) = md_fits s"
  by (simp_all add: md_fits_def fun_eq_iff)

lemma md_fits_cong: "ExchangeSession_mdCapacity s' = ExchangeSession_mdCapacity s \<Longrightarrow> md_fits s' = md_fits s"
  by (simp add: md_fits_def fun_eq_iff)

lemma core_open:
  assumes "md_core s []" and "\<not> ex_mdOpen s"
  shows "md_core (open_packet s) []"
proof -
  have "packed (Packer_reset (ex_mdBuf s) (ExchangeSession_mdCapacity s) (ex_packer s)) []"
    using assms mdCapacity_bound [of s] by (intro packed_reset) (simp_all add: md_core_def kMdBuf_def mold_consts)
  then show ?thesis using assms by (simp add: md_core_def open_packet_def Packer_reset_def)
qed

lemma core_append:
  assumes "md_core s pend" and "ex_mdOpen s" and "Packer_append m (ex_packer s) = (ok, p)"
  shows "md_core (s\<lparr>ex_packer := p\<rparr>) (if ok then pend @ [m] else pend)" and "ok \<Longrightarrow> md_fits s m"
proof -
  have k: "packed (ex_packer s) pend" "pk_cap (ex_packer s) = ExchangeSession_mdCapacity s" "length (pk_buf (ex_packer s)) = kMdBuf"
    using assms by (simp_all add: md_core_def)
  show f: "md_fits s m" if "ok"
    using that assms(3) k by (auto simp: Packer_append_def md_fits_def packed_def Let_def split: if_splits)
  show "md_core (s\<lparr>ex_packer := p\<rparr>) (if ok then pend @ [m] else pend)"
  proof (cases ok)
    case True
    have "packed p (pend @ [m])" using packed_append [OF k(1)] assms(3) True by simp
    moreover have "length (pk_buf p) = kMdBuf" "pk_cap p = pk_cap (ex_packer s)" "pk_seq p = pk_seq (ex_packer s) + 1" "pk_session p = pk_session (ex_packer s)"
      using assms(3) True k mdCapacity_bound [of s] by (auto simp: Packer_append_def Let_def putU16_def split: if_splits)
    ultimately show ?thesis using assms True k f by (simp add: md_core_def ac_simps)
  next
    case False
    then have "p = ex_packer s" using Packer_append_False [of m "ex_packer s" p] assms(3) by simp
    then show ?thesis using assms False by simp
  qed
qed

lemma append_fresh: "md_core s [] \<Longrightarrow> fst (Packer_append m (ex_packer (open_packet s))) = md_fits s m"
  by (auto simp: open_packet_def Packer_reset_def Packer_append_def md_fits_def Let_def mold_consts)

lemma flush_closed: "\<not> ex_mdOpen (ExchangeSession_flushMarketData room s)"
  by (simp add: ExchangeSession_flushMarketData_def)

lemma length_writeHeader:
  assumes "length (pk_session p) = kSessionLen" and "kHeaderSize \<le> length (pk_buf p)"
  shows "length (pk_buf (Packer_writeHeader q c p)) = length (pk_buf p)"
  using assms by (simp add: header_fields mold_consts)

lemma core_flush:
  assumes "md_core s pend"
  shows "md_core (ExchangeSession_flushMarketData room s) [] \<and> stream_messages (ex_md (ExchangeSession_flushMarketData room s)) = stream_messages (ex_md s) @ pend \<and>
    ExchangeSession_mdCapacity (ExchangeSession_flushMarketData room s) = ExchangeSession_mdCapacity s \<and>
    ex_handed (ExchangeSession_flushMarketData room s) = ex_handed s"
proof (cases "ex_mdOpen s \<and> pk_count (ex_packer s) > 0")
  case False
  have "pend = []" if "ex_mdOpen s"
  proof -
    have k: "packed (ex_packer s) pend" using that assms by (simp add: md_core_def)
    have "unat (pk_count (ex_packer s)) = 0" using that False by (simp add: word_neq_0_conv [symmetric])
    moreover have "unat (pk_count (ex_packer s)) = length pend" using k by (simp add: packed_def unat_of_nat)
    ultimately show ?thesis by simp
  qed
  then have "pend = []" using assms by (cases "ex_mdOpen s") (simp_all add: md_core_def)
  moreover have "ExchangeSession_flushMarketData room s = s\<lparr>ex_mdOpen := False\<rparr>" using False by (auto simp: ExchangeSession_flushMarketData_def Let_def)
  ultimately show ?thesis using assms by (simp add: md_core_def)
next
  case True
  then have k: "packed (ex_packer s) pend" "length (pk_buf (ex_packer s)) = kMdBuf" using assms by (simp_all add: md_core_def)
  have ne: "pend \<noteq> []" using True k(1) by (auto simp: packed_def)
  define pkt where "pkt = fst (Packer_finalize (ex_packer s))"
  define q where "q = Packer_writeHeader (pk_firstSeq (ex_packer s)) (pk_count (ex_packer s)) (ex_packer s)"
  define s' where "s' = ExchangeSession_flushMarketData room s"
  have m: "ex_mode s \<noteq> Sim_Transport" using assms by (simp add: md_core_def)
  have fin: "Packer_finalize (ex_packer s) = (pkt, q)" by (simp add: pkt_def q_def Packer_finalize_def Let_def)
  have s': "s' = s\<lparr>ex_packer := q, ex_mdBuf := pk_buf q, ex_md := ex_md s @ [pkt], ex_mdOpen := False,
      ex_stats := (ex_stats s)\<lparr>ss_mdPackets := ss_mdPackets (ex_stats s) + 1\<rparr>\<rparr>"
    using True m fin by (simp add: s'_def ExchangeSession_flushMarketData_def ExchangeSession_marketDataOut_def stats_upd_def Let_def)
  have small: "\<forall>x \<in> set pend. length x < 2 ^ 16"
    using assms mdCapacity_bound [of s] by (auto simp: md_core_def list_all_iff md_fits_def kMdBuf_def)
  have msgs: "forEachMessage pkt = numbered (pk_firstSeq (ex_packer s)) pend"
    unfolding pkt_def numbered_def by (rule forEachMessage_finalize [OF k(1) ne small])
  have bytes: "pkt = pk_session (ex_packer s) @ be_store (pk_firstSeq (ex_packer s)) @ be_store (pk_count (ex_packer s)) @ concat (map frame_msg pend)"
    unfolding pkt_def by (rule finalize_packed [OF k(1)])
  have hd: "sequenceOf pkt = pk_firstSeq (ex_packer s)" "countOf pkt = pk_count (ex_packer s)"
    using k(1) unfolding bytes by (simp_all add: sequenceOf_def countOf_def getU64_def getU16_def packed_def mold_consts be_value_append)
  have first: "pk_firstSeq (ex_packer s) = 1 + of_nat (length (stream_messages (ex_md s)))"
    using assms k(1) by (simp add: md_core_def packed_def)
  have cnt: "unat (pk_count (ex_packer s)) = length pend" using k(1) by (simp add: packed_def unat_of_nat)
  have "stream_ok 1 (ex_md s @ [pkt])"
    using assms ne by (simp add: stream_ok_append md_core_def msgs hd first cnt)
      (metis length_numbered list.size(3) length_0_conv)
  moreover have "stream_messages (ex_md s @ [pkt]) = stream_messages (ex_md s) @ pend" by (simp add: msgs)
  moreover have "length (pk_buf q) = kMdBuf" "pk_session q = pk_session (ex_packer s)" "pk_seq q = pk_seq (ex_packer s)"
    using length_writeHeader [of "ex_packer s"] k by (simp_all add: q_def packed_def) (simp_all add: Packer_writeHeader_def)
  ultimately show ?thesis using assms m unfolding s'_def [symmetric] by (simp add: md_core_def s')
qed

text \<open>What the session has published and what it is about to publish.\<close>

definition md_state :: "ExchangeSession \<Rightarrow> bool" where
  "md_state s \<longleftrightarrow> (\<exists>pend. md_core s pend \<and> filter (md_fits s) (ex_handed s) = stream_messages (ex_md s) @ pend)"

lemma md_core_handed: "md_core (s\<lparr>ex_handed := h\<rparr>) pend = md_core s pend"
  by (simp add: md_core_def)

lemma state_append:
  assumes "md_state s"
  shows "md_state (ExchangeSession_appendMarketData room m s)"
proof -
  obtain pend where p: "md_core s pend" "filter (md_fits s) (ex_handed s) = stream_messages (ex_md s) @ pend" using assms by (auto simp: md_state_def)
  define s0 where "s0 = s\<lparr>ex_handed := ex_handed s @ [m]\<rparr>"
  have s0: "md_core s0 pend" "md_fits s0 = md_fits s" "ex_md s0 = ex_md s" "ex_mdOpen s0 = ex_mdOpen s"
    using p by (simp_all add: s0_def md_core_handed)
  have pe: "pend = []" if "\<not> ex_mdOpen s" using that p(1) by (simp add: md_core_def)
  define s1 where "s1 = (if \<not> ex_mdOpen s0 then open_packet s0 else s0)"
  have s1: "md_core s1 pend" "ex_mdOpen s1" "ex_md s1 = ex_md s" "ex_handed s1 = ex_handed s @ [m]" "md_fits s1 = md_fits s"
    using s0 core_open [of s0] pe by (auto simp: s1_def open_packet_def) (simp_all add: s0_def)
  obtain ok q where a: "Packer_append m (ex_packer s1) = (ok, q)" by fastforce
  note ap = core_append [OF s1(1,2) a]
  show ?thesis
  proof (cases ok)
    case True
    have "ExchangeSession_appendMarketData room m s = s1\<lparr>ex_packer := q\<rparr>"
      using True a by (simp add: ExchangeSession_appendMarketData_def s0_def [symmetric] s1_def [symmetric] Let_def)
    then show ?thesis using True ap s1 p(2) by (auto simp: md_state_def intro!: exI [of _ "pend @ [m]"])
  next
    case False
    define s2 where "s2 = ExchangeSession_flushMarketData room s1"
    have s2: "md_core s2 []" "stream_messages (ex_md s2) = stream_messages (ex_md s) @ pend" "\<not> ex_mdOpen s2" "ex_handed s2 = ex_handed s @ [m]"
      and c2: "ExchangeSession_mdCapacity s2 = ExchangeSession_mdCapacity s1"
      using core_flush [OF s1(1), of room] s1(3,4) flush_closed by (simp_all add: s2_def)
    define s3 where "s3 = open_packet s2"
    have s3: "md_core s3 []" "ex_mdOpen s3" "ex_md s3 = ex_md s2" "ex_handed s3 = ex_handed s @ [m]" "md_fits s3 = md_fits s"
      using core_open [OF s2(1,3)] s2(4) md_fits_cong [OF c2] s1(5) by (simp_all add: s3_def open_packet_def)
    obtain ok' q' where a': "Packer_append m (ex_packer s3) = (ok', q')" by fastforce
    have ok': "ok' = md_fits s m" using append_fresh [OF s2(1), of m] a' s3_def md_fits_cong [OF c2] s1(5) by simp
    have "ExchangeSession_appendMarketData room m s = s3\<lparr>ex_packer := q'\<rparr>"
      using False a a' by (simp add: ExchangeSession_appendMarketData_def s0_def [symmetric] s1_def [symmetric] s2_def [symmetric] s3_def [symmetric] Let_def)
    moreover note core_append(1) [OF s3(1,2) a']
    ultimately show ?thesis using ok' s3 s2(2) p(2) by (auto simp: md_state_def intro!: exI [of _ "if ok' then [m] else []"])
  qed
qed

section \<open>Operations\<close>

lemma state_flush:
  assumes "md_state s"
  shows "md_state (ExchangeSession_flushMarketData room s)"
proof -
  obtain pend where p: "md_core s pend" "filter (md_fits s) (ex_handed s) = stream_messages (ex_md s) @ pend" using assms by (auto simp: md_state_def)
  have f: "md_core (ExchangeSession_flushMarketData room s) []"
    "stream_messages (ex_md (ExchangeSession_flushMarketData room s)) = stream_messages (ex_md s) @ pend"
    "ExchangeSession_mdCapacity (ExchangeSession_flushMarketData room s) = ExchangeSession_mdCapacity s"
    "ex_handed (ExchangeSession_flushMarketData room s) = ex_handed s"
    using core_flush [OF p(1), of room] by simp_all
  show ?thesis unfolding md_state_def using f p(2) md_fits_cong [OF f(3)] by (intro exI [of _ "[]"]) simp
qed

lemma md_core_upd [simp]:
  "md_core (s\<lparr>ex_stats := u1\<rparr>) = md_core s" "md_core (s\<lparr>ex_venues := u2\<rparr>) = md_core s" "md_core (s\<lparr>ex_refVenue := u3\<rparr>) = md_core s"
  "md_core (s\<lparr>ex_rxBuf := u4\<rparr>) = md_core s" "md_core (s\<lparr>ex_oe := u5\<rparr>) = md_core s" "md_core (s\<lparr>ex_outSeq := u6\<rparr>) = md_core s"
  "md_core (s\<lparr>ex_venueOfLocate := u7\<rparr>) = md_core s"
  by (simp_all add: md_core_def fun_eq_iff)

lemma md_state_upd [simp]:
  "md_state (s\<lparr>ex_stats := u1\<rparr>) = md_state s" "md_state (s\<lparr>ex_venues := u2\<rparr>) = md_state s" "md_state (s\<lparr>ex_refVenue := u3\<rparr>) = md_state s"
  "md_state (s\<lparr>ex_rxBuf := u4\<rparr>) = md_state s" "md_state (s\<lparr>ex_oe := u5\<rparr>) = md_state s" "md_state (s\<lparr>ex_outSeq := u6\<rparr>) = md_state s"
  "md_state (s\<lparr>ex_venueOfLocate := u7\<rparr>) = md_state s"
  by (simp_all add: md_state_def)

lemma md_state_stats_upd [simp]: "md_state (stats_upd f s) = md_state s"
  by (simp add: stats_upd_def)

lemma md_state_mode: "md_state s \<Longrightarrow> ex_mode s \<noteq> Sim_Transport"
  by (auto simp: md_state_def md_core_def)

lemma state_orderEntryOut [simp]: "md_state s \<Longrightarrow> md_state (ExchangeSession_orderEntryOut b s)"
  by (simp add: ExchangeSession_orderEntryOut_def)

lemma state_deliver: "md_state s \<Longrightarrow> md_state (sink_deliver room c s)"
  using md_state_mode [of s]
  by (cases c) (simp_all add: state_append ExchangeSession_sendOrderEntry_def Let_def)

lemma state_fold: "(\<And>x s. md_state s \<Longrightarrow> md_state (f x s)) \<Longrightarrow> md_state s \<Longrightarrow> md_state (fold f xs s)"
  by (induction xs arbitrary: s) simp_all

lemma state_put_venue: "md_state s \<Longrightarrow> md_state (put_venue room i v s)"
  unfolding put_venue_def by (rule state_fold [OF state_deliver]) simp_all

lemma state_on_venue: "md_state s \<Longrightarrow> md_state (on_venue room i f s)"
  unfolding on_venue_def by (rule state_put_venue)

lemma state_withMarketData: "(\<And>s. md_state s \<Longrightarrow> md_state (fn s)) \<Longrightarrow> md_state s \<Longrightarrow> md_state (ExchangeSession_withMarketData room fn s)"
  unfolding ExchangeSession_withMarketData_def by (intro state_flush)

lemma state_venueForUserRef: "md_state s \<Longrightarrow> md_state (snd (ExchangeSession_venueForUserRef r s))"
  by (auto simp: ExchangeSession_venueForUserRef_def Let_def split: option.splits)

lemma state_dispatchOuch: "md_state s \<Longrightarrow> md_state (ExchangeSession_dispatchOuch room payload ts s)"
  using state_venueForUserRef [of "stats_upd (\<lambda>t. t\<lparr>ss_cancels := ss_cancels t + 1\<rparr>) s"] state_venueForUserRef [of "stats_upd (\<lambda>t. t\<lparr>ss_replaces := ss_replaces t + 1\<rparr>) s"]
  by (auto simp: ExchangeSession_dispatchOuch_def ExchangeSession_rememberUserRef_def Let_def case_prod_beta intro!: state_withMarketData state_on_venue)

lemma state_handleSoup: "md_state s \<Longrightarrow> md_state (ExchangeSession_handleSoup room ts p s)"
  by (simp add: ExchangeSession_handleSoup_def Let_def state_dispatchOuch)

lemma state_onOrderEntryBytes:
  assumes "md_state s"
  shows "md_state (ExchangeSession_onOrderEntryBytes room ts data s)"
proof -
  have "md_state (fold (ExchangeSession_handleSoup room ts) ps (stats_upd (\<lambda>t. t\<lparr>ss_oePackets := ss_oePackets t + 1\<rparr>) s))" for ps
    by (rule state_fold [OF state_handleSoup]) (use assms in simp_all)
  then show ?thesis by (simp add: ExchangeSession_onOrderEntryBytes_def Let_def case_prod_beta)
qed

lemma state_replayMessage:
  assumes "md_state s" and "ExchangeSession_replayMessage room msg ts s = Some s'"
  shows "md_state s'"
proof -
  define s1 where "s1 = ExchangeSession_appendMarketData room msg (stats_upd (\<lambda>t. t\<lparr>ss_forwarded := ss_forwarded t + 1\<rparr>) s)"
  have s1: "md_state s1" using assms(1) by (simp add: s1_def state_append)
  have "md_state (ExchangeSession_bindDirectory msg l s1)" for l
    using s1 by (auto simp: ExchangeSession_bindDirectory_def Let_def split: option.splits)
  moreover have "md_state s2" if "ExchangeSession_mirror room i msg ts s1 = Some s2" for i s2
    using that s1 by (auto simp: ExchangeSession_mirror_def state_put_venue split: option.splits)
  ultimately show ?thesis using assms s1
    by (auto simp: ExchangeSession_replayMessage_def s1_def [symmetric] Let_def split: if_splits)
qed

section \<open>Runs\<close>

datatype ExOp =
  Ex_bytes u64 "byte list" | Ex_replay "byte list" u64 | Ex_inject Side Price Quantity u64 | Ex_cancelSynthetic OrderId u64 |
  Ex_event byte u64 | Ex_reset u64 | Ex_directory u64 | Ex_flush

fun ex_step :: "(nat \<Rightarrow> bool) \<Rightarrow> ExOp \<Rightarrow> ExchangeSession \<Rightarrow> ExchangeSession option" where
  "ex_step room (Ex_bytes ts data) s = Some (ExchangeSession_onOrderEntryBytes room ts data s)"
| "ex_step room (Ex_replay msg ts) s = ExchangeSession_replayMessage room msg ts s"
| "ex_step room (Ex_inject side tick qty ts) s = Some (snd (ExchangeSession_injectSynthetic room side tick qty ts s))"
| "ex_step room (Ex_cancelSynthetic ref ts) s = Some (ExchangeSession_cancelSynthetic room ref ts s)"
| "ex_step room (Ex_event code ts) s = Some (ExchangeSession_sessionEvent room code ts s)"
| "ex_step room (Ex_reset ts) s = Some (ExchangeSession_resetDay room ts s)"
| "ex_step room (Ex_directory ts) s = Some (ExchangeSession_publishDirectory room ts s)"
| "ex_step room Ex_flush s = Some (ExchangeSession_flushMarketData room s)"

primrec ex_run :: "(nat \<Rightarrow> bool) \<Rightarrow> ExOp list \<Rightarrow> ExchangeSession \<Rightarrow> ExchangeSession option" where
  "ex_run room [] s = Some s"
| "ex_run room (op # ops) s = Option.bind (ex_step room op s) (ex_run room ops)"

lemma state_step:
  assumes "md_state s" and "ex_step room op s = Some s'"
  shows "md_state s'"
proof -
  have f: "md_state (fold (\<lambda>i. on_venue room i (g ts)) xs s)" if "md_state s" for g :: "u64 \<Rightarrow> Venue \<Rightarrow> Venue" and ts xs s
    by (rule state_fold) (use that in \<open>auto intro: state_on_venue\<close>)
  show ?thesis using assms
    by (cases op) (auto simp: state_onOrderEntryBytes state_replayMessage state_flush ExchangeSession_injectSynthetic_def ExchangeSession_cancelSynthetic_def
        ExchangeSession_sessionEvent_def ExchangeSession_resetDay_def ExchangeSession_publishDirectory_def case_prod_beta
        intro!: state_withMarketData state_put_venue state_on_venue f)
qed

lemma state_run: "md_state s \<Longrightarrow> ex_run room ops s = Some s' \<Longrightarrow> md_state s'"
proof (induction ops arbitrary: s)
  case (Cons op ops)
  then obtain s1 where "ex_step room op s = Some s1" "ex_run room ops s1 = Some s'" by (auto simp: bind_eq_Some_conv)
  then show ?case using Cons state_step by blast
qed simp

lemma state_new: "mode \<noteq> Sim_Transport \<Longrightarrow> md_state (ExchangeSession_new mode cfg)"
  by (simp add: md_state_def md_core_def ExchangeSession_new_def Packer_new_def Let_def mold_consts)


definition demo_exchange :: ExchangeConfig where
  "demo_exchange = \<lparr>xc_symbols = [], xc_locates = [], xc_session = [], xc_minTick = 1, xc_maxTick = 4, xc_wirePerTick = 100, xc_mdMaxPayload = 0,
     xc_firstOrderRef = 1, xc_liveReserve = 16\<rparr>"

lemma handed_flush [simp]: "ex_handed (ExchangeSession_flushMarketData room s) = ex_handed s"
  by (auto simp: ExchangeSession_flushMarketData_def ExchangeSession_marketDataOut_def ExchangeSession_sendFrame_def stats_upd_def Let_def split: prod.splits)

lemma handed_append [simp]: "ex_handed (ExchangeSession_appendMarketData room m s) = ex_handed s @ [m]"
  by (simp add: ExchangeSession_appendMarketData_def open_packet_def Let_def case_prod_beta)


end
