(* ===== verification/Decimal.thy ===== *)
theory Decimal
  imports Prelude
begin

text \<open>
  Decimal numbers in text, for the components that read and print it: what \<^verbatim>\<open>printf\<close> and \<^verbatim>\<open>fmt\<close> print for an integer, what \<^verbatim>\<open>std::from_chars\<close>
  accepts as a whole field and what the conversion \<^verbatim>\<open>%u\<close> of \<^verbatim>\<open>sscanf\<close> takes. Text is a list of bytes.
\<close>

section \<open>Digits\<close>

definition is_digit :: "byte \<Rightarrow> bool" where
  "is_digit c \<longleftrightarrow> 0x30 \<le> c \<and> c \<le> 0x39"

definition digit_of :: "nat \<Rightarrow> byte" where
  "digit_of n = 0x30 + of_nat n"

definition digit_value :: "byte \<Rightarrow> nat" where
  "digit_value c = unat (c - 0x30)"

definition dec_value :: "byte list \<Rightarrow> nat" where
  "dec_value cs = foldl (\<lambda>v c. 10 * v + digit_value c) 0 cs"

fun show_dec :: "nat \<Rightarrow> byte list" where
  "show_dec n = (if n < 10 then [digit_of n] else show_dec (n div 10) @ [digit_of (n mod 10)])"

declare show_dec.simps [simp del]

definition show_int :: "int \<Rightarrow> byte list" where
  "show_int i = (if i < 0 then 0x2d # show_dec (nat (- i)) else show_dec (nat i))"

text \<open>Padding with zeros on the left, \<^verbatim>\<open>%02llu\<close>.\<close>

definition show_padded :: "nat \<Rightarrow> nat \<Rightarrow> byte list" where
  "show_padded width n = replicate (width - length (show_dec n)) 0x30 @ show_dec n"

lemma unat_digit_of: "n < 10 \<Longrightarrow> unat (digit_of n) = 0x30 + n"
  by (simp add: digit_of_def unat_word_ariths unat_of_nat)

lemma digit_of_digit: "n < 10 \<Longrightarrow> is_digit (digit_of n)"
  by (simp add: is_digit_def word_le_nat_alt unat_digit_of)

lemma digit_value_of: "n < 10 \<Longrightarrow> digit_value (digit_of n) = n"
  by (simp add: digit_value_def digit_of_def unat_of_nat)

lemma dec_value_snoc [simp]: "dec_value (cs @ [c]) = 10 * dec_value cs + digit_value c" "dec_value [] = 0"
  by (simp_all add: dec_value_def)

lemma show_dec_digits: "c \<in> set (show_dec n) \<Longrightarrow> is_digit c"
  by (induction n rule: show_dec.induct) (subst (asm) (2) show_dec.simps, auto simp: digit_of_digit split: if_splits)

lemma dec_value_show [simp]: "dec_value (show_dec n) = n"
proof (induction n rule: show_dec.induct)
  case (1 n)
  show ?case
  proof (cases "n < 10")
    case True
    then show ?thesis using dec_value_snoc(1) [of "[]"] by (subst show_dec.simps) (simp add: digit_value_of)
  next
    case False
    then show ?thesis using 1 by (subst show_dec.simps) (simp add: digit_value_of)
  qed
qed

lemma show_dec_nonempty [simp]: "show_dec n \<noteq> []"
  by (subst show_dec.simps) simp

lemma dec_value_zeros: "foldl (\<lambda>v c. 10 * v + digit_value c) 0 (replicate k 0x30 @ cs) = foldl (\<lambda>v c. 10 * v + digit_value c) 0 cs"
  by (induction k) (simp_all add: digit_value_def)

lemma dec_value_padded [simp]: "dec_value (show_padded w n) = n"
  using dec_value_show [of n] by (simp only: show_padded_def dec_value_def dec_value_zeros)

lemma show_padded_digits: "c \<in> set (show_padded w n) \<Longrightarrow> is_digit c"
  using show_dec_digits by (auto simp: show_padded_def is_digit_def)

lemma show_padded_nonempty [simp]: "show_padded w n \<noteq> []"
  by (simp add: show_padded_def)

section \<open>\<^verbatim>\<open>sscanf\<close> with \<^verbatim>\<open>%u\<close>\<close>

definition is_space :: "byte \<Rightarrow> bool" where
  "is_space c \<longleftrightarrow> c = 0x20 \<or> 0x09 \<le> c \<and> c \<le> 0x0d"

text \<open>
  White space, a sign, digits. The value of a number that does not fit 32 bits is undefined in C: it is the argument \<open>wide\<close>.
\<close>

definition scan_u :: "(int \<Rightarrow> u32) \<Rightarrow> byte list \<Rightarrow> (u32 \<times> byte list) option" where
  "scan_u wide cs =
     (let s = dropWhile is_space cs;
          neg = (s \<noteq> [] \<and> hd s = 0x2d);
          t = (if s \<noteq> [] \<and> (hd s = 0x2d \<or> hd s = 0x2b) then tl s else s);
          ds = takeWhile is_digit t
      in if ds = [] then None
         else Some (if dec_value ds < 2 ^ 32 then (if neg then - of_nat (dec_value ds) else of_nat (dec_value ds))
                    else wide (if neg then - int (dec_value ds) else int (dec_value ds)), dropWhile is_digit t))"

lemma not_digit: "is_digit c \<Longrightarrow> \<not> is_space c \<and> c \<noteq> 0x2d \<and> c \<noteq> 0x2b"
  by (auto simp: is_digit_def is_space_def word_le_nat_alt)

lemma scan_u_digits:
  assumes "ds \<noteq> []" and "\<And>c. c \<in> set ds \<Longrightarrow> is_digit c" and "rest = [] \<or> \<not> is_digit (hd rest)" and "dec_value ds < 2 ^ 32"
  shows "scan_u wide (ds @ rest) = Some (of_nat (dec_value ds), rest)"
proof -
  obtain d es where d: "ds = d # es" "is_digit d" using assms(1,2) by (cases ds) auto
  have s: "dropWhile is_space (ds @ rest) = ds @ rest" using not_digit [OF d(2)] d(1) by simp
  have w: "takeWhile is_digit (ds @ rest) = ds" "dropWhile is_digit (ds @ rest) = rest"
    using assms(2,3) by (cases rest; simp)+
  show ?thesis unfolding scan_u_def Let_def s using w not_digit [OF d(2)] d(1) assms(4) by simp
qed

section \<open>\<^verbatim>\<open>std::from_chars\<close> on a whole field\<close>

definition parse_u32 :: "byte list \<Rightarrow> u32 option" where
  "parse_u32 cs = (if cs \<noteq> [] \<and> list_all is_digit cs \<and> dec_value cs < 2 ^ 32 then Some (of_nat (dec_value cs)) else None)"

definition parse_i32 :: "byte list \<Rightarrow> int option" where
  "parse_i32 cs =
     (let neg = (cs \<noteq> [] \<and> hd cs = 0x2d); ds = (if neg then tl cs else cs); v = (if neg then - int (dec_value ds) else int (dec_value ds))
      in if ds \<noteq> [] \<and> list_all is_digit ds \<and> - (2 ^ 31) \<le> v \<and> v < 2 ^ 31 then Some v else None)"

lemma parse_u32_show: "parse_u32 (show_dec (unat w)) = Some w"
  using unat_lt2p [of w] show_dec_digits by (auto simp: parse_u32_def list_all_iff)

lemma parse_i32_show:
  assumes "- (2 ^ 31) \<le> i" and "i < 2 ^ 31"
  shows "parse_i32 (show_int i) = Some i"
proof (cases "i < 0")
  case True
  then show ?thesis using assms show_dec_digits by (auto simp: parse_i32_def show_int_def list_all_iff Let_def)
next
  case False
  obtain d es where d: "show_dec (nat i) = d # es" using show_dec_nonempty by (cases "show_dec (nat i)") auto
  then have "d \<noteq> 0x2d" using show_dec_digits [of d "nat i"] not_digit by auto
  moreover have "list_all is_digit (show_dec (nat i))" using show_dec_digits by (simp add: list_all_iff)
  ultimately show ?thesis using False assms d dec_value_show [of "nat i"] by (simp add: parse_i32_def show_int_def Let_def)
qed

lemma show_int_chars: "c \<in> set (show_int i) \<Longrightarrow> is_digit c \<or> c = 0x2d"
  using show_dec_digits by (auto simp: show_int_def split: if_splits)

lemma show_int_nonempty [simp]: "show_int i \<noteq> []"
  by (simp add: show_int_def)

end
