(* ===== verification/ProfileFile.thy ===== *)
theory ProfileFile
  imports Decimal BookTable
begin

text \<open>
  The file of symbol profiles, \<^verbatim>\<open>dut/SymbolProfile.cpp\<close>: one line per symbol with its name, its reference price and the number of
  orders to make room for. A file is a list of bytes, \<open>None\<close> when it cannot be opened.
\<close>

section \<open>Reading\<close>

definition is_blank :: "byte \<Rightarrow> bool" where
  "is_blank c \<longleftrightarrow> c = 0x20 \<or> c = 0x09"

text \<open>\<^verbatim>\<open>nextField\<close>: the field and the rest of the line.\<close>

definition nextField :: "byte list \<Rightarrow> byte list \<times> byte list" where
  "nextField line = (let l = dropWhile is_blank line in (takeWhile (\<lambda>c. \<not> is_blank c) l, dropWhile (\<lambda>c. \<not> is_blank c) l))"

text \<open>The lines that \<^verbatim>\<open>std::getline\<close> gives.\<close>

function getlines :: "byte list \<Rightarrow> byte list list" where
  "getlines cs = (if cs = [] then [] else takeWhile (\<lambda>x. x \<noteq> 0x0a) cs # getlines (drop 1 (dropWhile (\<lambda>x. x \<noteq> 0x0a) cs)))"
  by pat_completeness auto
termination
proof (relation "measure length")
  fix cs :: "byte list"
  assume "cs \<noteq> []"
  then have "0 < length cs" "length (dropWhile (\<lambda>x. x \<noteq> 0x0a) cs) \<le> length cs" by (simp_all add: length_dropWhile_le)
  then show "(drop 1 (dropWhile (\<lambda>x. x \<noteq> 0x0a) cs), cs) \<in> measure length" by (simp del: length_greater_0_conv)
qed simp

declare getlines.simps [simp del]

definition profile_line :: "byte list \<Rightarrow> SymbolProfile option" where
  "profile_line line =
     (if line = [] \<or> hd line = 0x23 then None
      else
        let (name, r1) = nextField line; (price, r2) = nextField r1; (peak, r3) = nextField r2
        in if name = [] then None
           else case (parse_i32 price, parse_u32 peak) of
                  (Some p, Some n) \<Rightarrow> Some \<lparr>sp_name = name, sp_refPrice = p, sp_peakOrders = n\<rparr>
                | _ \<Rightarrow> None)"

definition readSymbolProfile :: "byte list option \<Rightarrow> SymbolProfile list" where
  "readSymbolProfile file = (case file of None \<Rightarrow> [] | Some bs \<Rightarrow> List.map_filter profile_line (getlines bs))"

section \<open>Writing\<close>

text \<open>\<^verbatim>\<open># abt-t2t symbol profile: name reference_price_wire peak_live_orders\<close>\<close>

definition profile_header :: "byte list" where
  "profile_header = [0x23, 0x20] @ map (\<lambda>c. of_nat (of_char c)) ''abt-t2t symbol profile: name reference_price_wire peak_live_orders'' @ [0x0a]"

definition profile_row :: "SymbolProfile \<Rightarrow> byte list" where
  "profile_row p = sp_name p @ [0x20] @ show_int (sp_refPrice p) @ [0x20] @ show_dec (unat (sp_peakOrders p)) @ [0x0a]"

text \<open>\<open>opened\<close> and \<open>closed\<close> are the results of \<^verbatim>\<open>fopen\<close> and \<^verbatim>\<open>fclose\<close>; the second component is the file left behind.\<close>

definition writeSymbolProfile :: "bool \<Rightarrow> bool \<Rightarrow> SymbolProfile list \<Rightarrow> bool \<times> byte list option" where
  "writeSymbolProfile opened closed rows =
     (if \<not> opened then (False, None) else (closed, Some (profile_header @ concat (map profile_row rows))))"

section \<open>What is written reads back\<close>

text \<open>A name that is one field of a line and does not start a comment, and a price of 32 bits.\<close>

definition plain_profile :: "SymbolProfile \<Rightarrow> bool" where
  "plain_profile p \<longleftrightarrow> sp_name p \<noteq> [] \<and> hd (sp_name p) \<noteq> 0x23 \<and> (\<forall>c \<in> set (sp_name p). \<not> is_blank c \<and> c \<noteq> 0x0a) \<and>
     - (2 ^ 31) \<le> sp_refPrice p \<and> sp_refPrice p < 2 ^ 31"

lemma getlines_line:
  assumes "\<forall>c \<in> set l. c \<noteq> 0x0a"
  shows "getlines (l @ 0x0a # cs) = l # getlines cs"
proof -
  have "takeWhile (\<lambda>x. x \<noteq> 0x0a) (l @ 0x0a # cs) = l" "dropWhile (\<lambda>x. x \<noteq> 0x0a) (l @ 0x0a # cs) = 0x0a # cs" using assms by simp_all
  then show ?thesis by (subst getlines.simps) (simp del: takeWhile.simps dropWhile.simps)
qed

lemma nextField_field:
  assumes "f \<noteq> []" and "\<forall>c \<in> set f. \<not> is_blank c" and "rest = [] \<or> is_blank (hd rest)"
  shows "nextField (f @ rest) = (f, rest)" and "nextField (0x20 # f @ rest) = (f, rest)"
proof -
  obtain x xs where x: "f = x # xs" using assms(1) by (cases f) auto
  have t: "takeWhile (\<lambda>c. \<not> is_blank c) (f @ rest) = f" "dropWhile (\<lambda>c. \<not> is_blank c) (f @ rest) = rest" using assms(2,3) by (cases rest; simp)+
  have d: "dropWhile is_blank (f @ rest) = f @ rest" using assms(2) x by simp
  then show "nextField (f @ rest) = (f, rest)" unfolding nextField_def Let_def d t by simp
  have "dropWhile is_blank (0x20 # f @ rest) = f @ rest" using d by (simp add: is_blank_def)
  then show "nextField (0x20 # f @ rest) = (f, rest)" unfolding nextField_def Let_def t by (simp only: t)
qed

lemma number_chars: "is_digit c \<or> c = 0x2d \<Longrightarrow> \<not> is_blank c \<and> c \<noteq> 0x0a"
  by (auto simp: is_digit_def is_blank_def word_le_nat_alt)

lemma profile_line_row:
  assumes "plain_profile p"
  shows "profile_line (butlast (profile_row p)) = Some p" and "\<forall>c \<in> set (butlast (profile_row p)). c \<noteq> 0x0a"
proof -
  have c: "\<forall>c \<in> set (show_int i). \<not> is_blank c \<and> c \<noteq> 0x0a" "\<forall>c \<in> set (show_dec n). \<not> is_blank c \<and> c \<noteq> 0x0a" for i n
    using show_int_chars show_dec_digits number_chars by blast+
  have b: "butlast (profile_row p) = sp_name p @ 0x20 # show_int (sp_refPrice p) @ 0x20 # show_dec (unat (sp_peakOrders p))"
    by (simp add: profile_row_def butlast_append)
  show "\<forall>c \<in> set (butlast (profile_row p)). c \<noteq> 0x0a" unfolding b using c assms by (auto simp: plain_profile_def)
  have f: "nextField (sp_name p @ 0x20 # show_int (sp_refPrice p) @ 0x20 # show_dec (unat (sp_peakOrders p))) =
      (sp_name p, 0x20 # show_int (sp_refPrice p) @ 0x20 # show_dec (unat (sp_peakOrders p)))"
    by (rule nextField_field) (use assms in \<open>auto simp: plain_profile_def is_blank_def\<close>)
  have f2: "nextField (0x20 # show_int (sp_refPrice p) @ 0x20 # show_dec (unat (sp_peakOrders p))) = (show_int (sp_refPrice p), 0x20 # show_dec (unat (sp_peakOrders p)))"
    by (rule nextField_field) (use c(1) in \<open>auto simp: is_blank_def\<close>)
  have f3: "nextField (0x20 # show_dec (unat (sp_peakOrders p))) = (show_dec (unat (sp_peakOrders p)), [])"
    using nextField_field(2) [of "show_dec (unat (sp_peakOrders p))" "[]"] c(2) by simp
  have h: "sp_name p \<noteq> []" "hd (sp_name p @ xs) \<noteq> 0x23" for xs using assms by (simp_all add: plain_profile_def)
  show "profile_line (butlast (profile_row p)) = Some p"
    unfolding b profile_line_def f f2 f3 Let_def prod.case using h assms parse_i32_show [of "sp_refPrice p"]
    by (simp add: parse_u32_show plain_profile_def)
qed

lemma read_rows: "list_all plain_profile rows \<Longrightarrow> List.map_filter profile_line (getlines (concat (map profile_row rows))) = rows"
proof (induction rows)
  case (Cons p rows)
  have p: "plain_profile p" using Cons.prems by simp
  have r: "profile_row p = butlast (profile_row p) @ [0x0a]" by (simp add: profile_row_def butlast_append)
  have "getlines (butlast (profile_row p) @ 0x0a # concat (map profile_row rows)) = butlast (profile_row p) # getlines (concat (map profile_row rows))"
    by (rule getlines_line [OF profile_line_row(2) [OF p]])
  moreover have "concat (map profile_row (p # rows)) = butlast (profile_row p) @ 0x0a # concat (map profile_row rows)"
    by (simp add: profile_row_def butlast_append)
  ultimately have "getlines (concat (map profile_row (p # rows))) = butlast (profile_row p) # getlines (concat (map profile_row rows))" by (simp only:)
  then show ?case using Cons profile_line_row(1) by (simp add: List.map_filter_def)
qed (simp add: List.map_filter_def getlines.simps)

text \<open>
  A profile file reads back as it was written: for names that are one field and prices of 32 bits, the rows that \<^verbatim>\<open>readSymbolProfile\<close> returns are the rows
  given to \<^verbatim>\<open>writeSymbolProfile\<close>, in order.
\<close>

theorem SymbolProfile_write_read:
  assumes "list_all plain_profile rows"
  shows "readSymbolProfile (snd (writeSymbolProfile True closed rows)) = rows"
proof -
  let ?h = "[0x23, 0x20] @ map (\<lambda>c. of_nat (of_char c)) ''abt-t2t symbol profile: name reference_price_wire peak_live_orders'' :: byte list"
  have h: "profile_header = ?h @ [0x0a]" by (simp add: profile_header_def)
  have n: "\<forall>c \<in> set ?h. c \<noteq> 0x0a" by code_simp
  have p: "profile_line ?h = None" by (simp add: profile_line_def)
  have "getlines (profile_header @ concat (map profile_row rows)) = ?h # getlines (concat (map profile_row rows))"
    unfolding h using getlines_line [OF n, of "concat (map profile_row rows)"] by (simp only: append.assoc append_Cons append_Nil)
  then show ?thesis using p read_rows [OF assms] by (simp add: readSymbolProfile_def writeSymbolProfile_def List.map_filter_def del: append.simps list.map)
qed

definition demo_profiles :: "SymbolProfile list" where
  "demo_profiles = [\<lparr>sp_name = [0x41, 0x42], sp_refPrice = - 120, sp_peakOrders = 4000\<rparr>, \<lparr>sp_name = [0x43], sp_refPrice = 35, sp_peakOrders = 0\<rparr>]"

theorem SymbolProfile_write_read_witness: "readSymbolProfile (snd (writeSymbolProfile True False demo_profiles)) = demo_profiles"
  by (rule SymbolProfile_write_read) (simp add: demo_profiles_def plain_profile_def is_blank_def)

end
