(* ===== verification/AddressText.thy ===== *)
theory AddressText
  imports Decimal Net
begin

text \<open>
  The addresses in a configuration, \<^verbatim>\<open>config/Config.cpp\<close>: MAC addresses in hexadecimal and IPv4 addresses in decimal. The loops over the
  characters are folds, the captured variables of the lambdas are their state.
\<close>

section \<open>MAC addresses\<close>

definition hexVal :: "byte \<Rightarrow> int" where
  "hexVal c =
     (if 0x30 \<le> c \<and> c \<le> 0x39 then int (unat (c - 0x30))
      else if 0x61 \<le> c \<and> c \<le> 0x66 then int (unat (c - 0x61)) + 10
      else if 0x41 \<le> c \<and> c \<le> 0x46 then int (unat (c - 0x41)) + 10
      else - 1)"

record MacParse =
  mp_mac :: "byte list"
  mp_idx :: nat
  mp_acc :: u32
  mp_digits :: nat

definition mac_flush :: "MacParse \<Rightarrow> MacParse" where
  "mac_flush s =
     (let s1 = (if 0 < mp_digits s \<and> mp_idx s < length (mp_mac s)
                then s\<lparr>mp_mac := (mp_mac s)[mp_idx s := ucast (mp_acc s)], mp_idx := mp_idx s + 1\<rparr> else s)
      in s1\<lparr>mp_acc := 0, mp_digits := 0\<rparr>)"

definition mac_char :: "byte \<Rightarrow> MacParse \<Rightarrow> MacParse" where
  "mac_char c s =
     (if c = 0x3a \<or> c = 0x2d then mac_flush s
      else if hexVal c < 0 then s
      else s\<lparr>mp_acc := mp_acc s * 16 + of_int (hexVal c), mp_digits := mp_digits s + 1\<rparr>)"

definition parseMac :: "byte list \<Rightarrow> byte list" where
  "parseMac text = mp_mac (mac_flush (fold mac_char text \<lparr>mp_mac = replicate 6 0, mp_idx = 0, mp_acc = 0, mp_digits = 0\<rparr>))"

section \<open>IPv4 addresses\<close>

record IpParse =
  ip_oct :: "byte list"
  ip_idx :: nat
  ip_acc :: u32

definition ip_flush :: "IpParse \<Rightarrow> IpParse" where
  "ip_flush s =
     (let s1 = (if ip_idx s < length (ip_oct s) then s\<lparr>ip_oct := (ip_oct s)[ip_idx s := ucast (ip_acc s)], ip_idx := ip_idx s + 1\<rparr> else s)
      in s1\<lparr>ip_acc := 0\<rparr>)"

definition ip_char :: "byte \<Rightarrow> IpParse \<Rightarrow> IpParse" where
  "ip_char c s =
     (if c = 0x2e then ip_flush s
      else if is_digit c then s\<lparr>ip_acc := ip_acc s * 10 + of_nat (digit_value c)\<rparr>
      else s)"

definition parseIp :: "byte list \<Rightarrow> u32" where
  "parseIp text =
     (let s = ip_flush (fold ip_char text \<lparr>ip_oct = replicate 4 0, ip_idx = 0, ip_acc = 0\<rparr>)
      in ipv4 (ip_oct s ! 0) (ip_oct s ! 1) (ip_oct s ! 2) (ip_oct s ! 3))"

section \<open>Addresses read back\<close>

definition hex_digit :: "nat \<Rightarrow> byte" where
  "hex_digit n = (if n < 10 then 0x30 + of_nat n else 0x61 + of_nat (n - 10))"

definition show_hex :: "byte \<Rightarrow> byte list" where
  "show_hex b = [hex_digit (unat b div 16), hex_digit (unat b mod 16)]"

text \<open>An IPv4 address in dotted decimal, a MAC address as pairs of digits with colons.\<close>

definition show_ip :: "byte \<Rightarrow> byte \<Rightarrow> byte \<Rightarrow> byte \<Rightarrow> byte list" where
  "show_ip a b c d = show_dec (unat a) @ [0x2e] @ show_dec (unat b) @ [0x2e] @ show_dec (unat c) @ [0x2e] @ show_dec (unat d)"

definition show_mac :: "byte list \<Rightarrow> byte list" where
  "show_mac mac = tl (concat (map (\<lambda>b. 0x3a # show_hex b) mac))"

lemma fold_ip_digits:
  assumes "\<forall>c \<in> set cs. is_digit c"
  shows "fold ip_char cs s = s\<lparr>ip_acc := foldl (\<lambda>v c. v * 10 + of_nat (digit_value c)) (ip_acc s) cs\<rparr>"
  using assms
proof (induction cs arbitrary: s)
  case (Cons c cs)
  then have "c \<noteq> 0x2e" by (auto simp: is_digit_def)
  then show ?case using Cons by (simp add: ip_char_def)
qed simp

lemma foldl_dec: "foldl (\<lambda>v c. v * 10 + of_nat (digit_value c)) (of_nat n) cs = (of_nat (foldl (\<lambda>v c. 10 * v + digit_value c) n cs) :: u32)"
proof (induction cs arbitrary: n)
  case (Cons c cs)
  show ?case using Cons.IH [of "10 * n + digit_value c"] by (simp add: mult.commute)
qed simp

lemma fold_ip_show: "ip_acc s = 0 \<Longrightarrow> fold ip_char (show_dec (unat b)) s = s\<lparr>ip_acc := of_nat (unat b)\<rparr>" for b :: byte
  using fold_ip_digits [of "show_dec (unat b)" s] show_dec_digits foldl_dec [of 0 "show_dec (unat b)"] dec_value_show [of "unat b"] by (auto simp: dec_value_def)

lemma ucast_unat: "ucast (of_nat (unat b) :: u32) = b" for b :: byte
  using unat_lt2p [of b] by (simp add: word_unat_eq_iff unat_ucast_mod unat_of_nat)

lemma ucast_ucast_byte: "ucast (ucast b :: u32) = b" for b :: byte
  using ucast_unat [of b] by simp

lemma hexVal_digit: "n < 16 \<Longrightarrow> hexVal (hex_digit n) = int n \<and> hex_digit n \<noteq> 0x3a \<and> hex_digit n \<noteq> 0x2d"
proof -
  have "\<forall>n < 16. hexVal (hex_digit n) = int n \<and> hex_digit n \<noteq> 0x3a \<and> hex_digit n \<noteq> 0x2d" by code_simp
  then show "n < 16 \<Longrightarrow> ?thesis" by simp
qed

lemma mac_pair:
  assumes "mp_acc s = 0" and "mp_digits s = 0" and "mp_idx s < length (mp_mac s)"
  shows "mac_flush (fold mac_char (show_hex b) s) = s\<lparr>mp_mac := (mp_mac s)[mp_idx s := b], mp_idx := mp_idx s + 1\<rparr>"
proof -
  have h: "unat b div 16 < 16" "unat b mod 16 < 16" using unat_lt2p [of b] by (simp_all add: less_mult_imp_div_less)
  have "ucast (of_int (int (unat b div 16)) * 16 + of_int (int (unat b mod 16)) :: u32) = b"
  proof -
    have "of_int (int (unat b div 16)) * 16 + of_int (int (unat b mod 16)) = (of_nat (unat b div 16 * 16 + unat b mod 16) :: u32)"
      by (simp only: of_nat_add of_nat_mult of_int_of_nat_eq of_nat_numeral)
    then show ?thesis using ucast_unat [of b] by (simp only: div_mult_mod_eq)
  qed
  then show ?thesis using hexVal_digit [OF h(1)] hexVal_digit [OF h(2)] assms by (simp add: show_hex_def mac_char_def mac_flush_def Let_def)
qed

text \<open>
  C0. The addresses of a configuration read back: parsing an IPv4 address in dotted decimal gives the address, and parsing a MAC address of
  six pairs of hexadecimal digits gives its bytes.
\<close>

theorem addresses_roundtrip:
  "parseIp (show_ip a b c d) = ipv4 a b c d \<and> parseMac (show_mac [m0, m1, m2, m3, m4, m5]) = [m0, m1, m2, m3, m4, m5]"
proof
  have dot: "ip_char 0x2e s = ip_flush s" for s by (simp add: ip_char_def)
  show "parseIp (show_ip a b c d) = ipv4 a b c d"
    by (simp add: parseIp_def show_ip_def dot fold_ip_show ip_flush_def ucast_ucast_byte Let_def eval_nat_numeral)
  let ?s = "\<lambda>mac i. \<lparr>mp_mac = mac, mp_idx = i, mp_acc = 0, mp_digits = 0\<rparr>"
  have colon: "mac_char 0x3a s = mac_flush s" for s by (simp add: mac_char_def)
  have "parseMac (show_mac [m0, m1, m2, m3, m4, m5]) =
      mp_mac (mac_flush (fold mac_char (show_hex m5) (mac_flush (fold mac_char (show_hex m4) (mac_flush (fold mac_char (show_hex m3)
        (mac_flush (fold mac_char (show_hex m2) (mac_flush (fold mac_char (show_hex m1) (mac_flush (fold mac_char (show_hex m0) (?s (replicate 6 0) 0)))))))))))))"
    by (simp add: parseMac_def show_mac_def show_hex_def colon)
  also have "\<dots> = [m0, m1, m2, m3, m4, m5]"
    by (simp add: mac_pair eval_nat_numeral)
  finally show "parseMac (show_mac [m0, m1, m2, m3, m4, m5]) = [m0, m1, m2, m3, m4, m5]" .
qed

end
