(* ===== verification/ItchFile.thy ===== *)
theory ItchFile
  imports Prelude
begin

text \<open>
  Recorded feeds, \<^verbatim>\<open>replay/ItchFile.hpp\<close> and \<^verbatim>\<open>replay/ItchFile.cpp\<close>: messages behind 16-bit lengths, written with
  \<^verbatim>\<open>ItchFileWriter\<close> and read by \<^verbatim>\<open>ItchFileReader\<close> either from a mapped file or through zlib and a buffer. What the
  file system says of a path (its bytes, whether it can be mapped) is an argument of the constructor. zlib is a record of operations with
  the laws of a stream of bytes (the locale \<open>gz_stream\<close>). Not returning is \<open>None\<close>.
\<close>

section \<open>Data\<close>

text \<open>
  \<open>gz_read n\<close> is \<^verbatim>\<open>gzread\<close> of at most \<open>n\<close> bytes (\<open>None\<close> for a negative result), \<open>gz_failed\<close> says that \<^verbatim>\<open>gzerror\<close> reports
  neither \<^verbatim>\<open>Z_OK\<close> nor \<^verbatim>\<open>Z_STREAM_END\<close>.
\<close>

record 'g GzOps =
  gz_read :: "nat \<Rightarrow> 'g \<Rightarrow> byte list option \<times> 'g"
  gz_failed :: "'g \<Rightarrow> bool"
  gz_rewind :: "'g \<Rightarrow> 'g"

record 'g ItchFileReader =
  ir_file :: "'g option"
  ir_map :: "byte list option"
  ir_buf :: "byte list"
  ir_pos :: nat
  ir_len :: nat
  ir_messages :: u64
  ir_bytes :: u64
  ir_eof :: bool
  ir_truncated :: bool

definition ItchFileReader_isGzip :: "byte list option \<Rightarrow> bool" where
  "ItchFileReader_isGzip raw = (case raw of None \<Rightarrow> False | Some bs \<Rightarrow> 2 \<le> length bs \<and> bs ! 0 = 0x1f \<and> bs ! 1 = 0x8b)"

text \<open>The arguments are the bytes of the file, its mapping and the result of \<^verbatim>\<open>gzopen\<close>, each \<open>None\<close> when the system refuses.\<close>

definition ItchFileReader_new :: "byte list option \<Rightarrow> byte list option \<Rightarrow> 'g option \<Rightarrow> nat \<Rightarrow> 'g ItchFileReader" where
  "ItchFileReader_new raw mapping file bufferBytes =
     (let r = \<lparr>ir_file = None, ir_map = None, ir_buf = [], ir_pos = 0, ir_len = 0, ir_messages = 0, ir_bytes = 0, ir_eof = False, ir_truncated = False\<rparr>
      in if \<not> ItchFileReader_isGzip raw \<and> mapping \<noteq> None then r\<lparr>ir_map := mapping\<rparr>
         else r\<lparr>ir_buf := replicate (if bufferBytes < 65536 then 65536 else bufferBytes) 0, ir_file := file\<rparr>)"

definition ItchFileReader_ok :: "'g ItchFileReader \<Rightarrow> bool" where
  "ItchFileReader_ok r \<longleftrightarrow> ir_map r \<noteq> None \<or> ir_file r \<noteq> None"

definition ItchFileReader_mapped :: "'g ItchFileReader \<Rightarrow> bool" where
  "ItchFileReader_mapped r \<longleftrightarrow> ir_map r \<noteq> None"

definition ItchFileReader_reset :: "'g GzOps \<Rightarrow> 'g ItchFileReader \<Rightarrow> 'g ItchFileReader" where
  "ItchFileReader_reset gz r =
     r\<lparr>ir_pos := 0, ir_len := 0, ir_messages := 0, ir_bytes := 0, ir_eof := False, ir_truncated := False, ir_file := map_option (gz_rewind gz) (ir_file r)\<rparr>"

text \<open>The length in front of a message.\<close>

definition record_len :: "byte \<Rightarrow> byte \<Rightarrow> nat" where
  "record_len a b = push_bit 8 (unat a) OR unat b"

lemma record_len_eq: "record_len a b = 256 * unat a + unat b"
proof -
  have "push_bit 8 (unat a) OR unat b = push_bit 8 (unat a) + unat b"
  proof (rule disjunctive_add [symmetric])
    show "\<not> bit (push_bit 8 (unat a)) n \<or> \<not> bit (unat b) n" for n
      using bit_imp_le_length [of b n] by (auto simp: bit_push_bit_iff bit_unsigned_iff)
  qed
  then show ?thesis by (simp add: record_len_def push_bit_eq_mult)
qed

lemma record_len_bound: "record_len a b \<le> 65535"
  using unat_lt2p [of a] unat_lt2p [of b] by (simp add: record_len_eq)

section \<open>Reading a mapped file\<close>

function ItchFileReader_nextMapped :: "byte list \<Rightarrow> 'g ItchFileReader \<Rightarrow> byte list option \<times> 'g ItchFileReader" where
  "ItchFileReader_nextMapped view r =
     (if ir_pos r + 2 > length view then (None, r\<lparr>ir_truncated := (ir_pos r \<noteq> length view)\<rparr>)
      else
        let len = record_len (view ! ir_pos r) (view ! (ir_pos r + 1))
        in if len = 0 then ItchFileReader_nextMapped view (r\<lparr>ir_pos := ir_pos r + 2, ir_bytes := ir_bytes r + 2\<rparr>)
           else if ir_pos r + 2 + len > length view then (None, r\<lparr>ir_truncated := True\<rparr>)
           else (Some (peek (ir_pos r + 2) len view),
                 r\<lparr>ir_pos := ir_pos r + 2 + len, ir_bytes := ir_bytes r + 2 + of_nat len, ir_messages := ir_messages r + 1\<rparr>))"
  by pat_completeness auto
termination by (relation "measure (\<lambda>(view, r). length view - ir_pos r)") auto

declare ItchFileReader_nextMapped.simps [simp del]

section \<open>Reading through zlib\<close>

text \<open>The loop of \<^verbatim>\<open>fill\<close>: it ends because every read that is not the last adds bytes.\<close>

function fill_loop :: "'g GzOps \<Rightarrow> nat \<Rightarrow> 'g \<Rightarrow> 'g ItchFileReader \<Rightarrow> 'g \<times> 'g ItchFileReader" where
  "fill_loop gz need g r =
     (if ir_len r < need then
        let (res, g') = gz_read gz (length (ir_buf r) - ir_len r) g
        in case res of
             None \<Rightarrow> (g', r\<lparr>ir_truncated := gz_failed gz g', ir_eof := True\<rparr>)
           | Some [] \<Rightarrow> (g', r\<lparr>ir_truncated := (gz_failed gz g' \<or> ir_len r > 0), ir_eof := True\<rparr>)
           | Some (x # xs) \<Rightarrow> fill_loop gz need g' (r\<lparr>ir_buf := poke (ir_len r) (x # xs) (ir_buf r), ir_len := ir_len r + length (x # xs)\<rparr>)
      else (g, r))"
  by pat_completeness auto
termination by (relation "measure (\<lambda>(gz, need, g, r). need - ir_len r)") auto

declare fill_loop.simps [simp del]

definition ItchFileReader_fill :: "'g GzOps \<Rightarrow> nat \<Rightarrow> 'g ItchFileReader \<Rightarrow> bool \<times> 'g ItchFileReader" where
  "ItchFileReader_fill gz need r =
     (if ir_len r - ir_pos r \<ge> need then (True, r)
      else if ir_eof r then (False, r)
      else
        let r1 = (if ir_pos r > 0 then
                    r\<lparr>ir_buf := poke 0 (peek (ir_pos r) (ir_len r - ir_pos r) (ir_buf r)) (ir_buf r), ir_len := ir_len r - ir_pos r, ir_pos := 0\<rparr>
                  else r)
        in case ir_file r1 of
             None \<Rightarrow> (False, r1)
           | Some g \<Rightarrow>
               let (g', r2) = fill_loop gz need g r1
               in (ir_len r2 - ir_pos r2 \<ge> need, r2\<lparr>ir_file := Some g'\<rparr>))"

partial_function (option) next_zlib :: "'g GzOps \<Rightarrow> 'g ItchFileReader \<Rightarrow> (byte list option \<times> 'g ItchFileReader) option" where
  "next_zlib gz r =
     (if ir_file r = None then Some (None, r)
      else if \<not> fst (ItchFileReader_fill gz 2 r) then Some (None, snd (ItchFileReader_fill gz 2 r))
      else
        let r1 = snd (ItchFileReader_fill gz 2 r);
            len = record_len (ir_buf r1 ! ir_pos r1) (ir_buf r1 ! (ir_pos r1 + 1))
        in if len = 0 then next_zlib gz (r1\<lparr>ir_pos := ir_pos r1 + 2, ir_bytes := ir_bytes r1 + 2\<rparr>)
           else
             let r2 = snd (ItchFileReader_fill gz (2 + len) r1)
             in if \<not> fst (ItchFileReader_fill gz (2 + len) r1) then Some (None, r2\<lparr>ir_truncated := True\<rparr>)
                else Some (Some (peek (ir_pos r2 + 2) len (ir_buf r2)),
                       r2\<lparr>ir_pos := ir_pos r2 + 2 + len, ir_bytes := ir_bytes r2 + 2 + of_nat len, ir_messages := ir_messages r2 + 1\<rparr>))"

definition ItchFileReader_next :: "'g GzOps \<Rightarrow> 'g ItchFileReader \<Rightarrow> (byte list option \<times> 'g ItchFileReader) option" where
  "ItchFileReader_next gz r = (case ir_map r of Some view \<Rightarrow> Some (ItchFileReader_nextMapped view r) | None \<Rightarrow> next_zlib gz r)"

section \<open>Writing\<close>

text \<open>The bytes written so far, \<open>None\<close> when the file could not be opened.\<close>

record ItchFileWriter =
  iw_file :: "byte list option"
  iw_messages :: u64

definition ItchFileWriter_new :: "bool \<Rightarrow> ItchFileWriter" where
  "ItchFileWriter_new opened = \<lparr>iw_file = (if opened then Some [] else None), iw_messages = 0\<rparr>"

definition ItchFileWriter_ok :: "ItchFileWriter \<Rightarrow> bool" where
  "ItchFileWriter_ok w \<longleftrightarrow> iw_file w \<noteq> None"

definition ItchFileWriter_write :: "byte list \<Rightarrow> ItchFileWriter \<Rightarrow> ItchFileWriter" where
  "ItchFileWriter_write msg w =
     (case iw_file w of
        None \<Rightarrow> w
      | Some bs \<Rightarrow>
          if msg = [] \<or> length msg > 0xFFFF then w
          else w\<lparr>iw_file := Some (bs @ [of_nat (length msg div 256), of_nat (length msg mod 256)] @ msg), iw_messages := iw_messages w + 1\<rparr>)"

section \<open>Several messages\<close>

text \<open>The answers of \<open>n\<close> calls of \<^verbatim>\<open>next\<close>.\<close>

primrec ItchFile_reads :: "nat \<Rightarrow> 'g GzOps \<Rightarrow> 'g ItchFileReader \<Rightarrow> (byte list option list \<times> 'g ItchFileReader) option" where
  "ItchFile_reads 0 gz r = Some ([], r)"
| "ItchFile_reads (Suc n) gz r =
     (case ItchFileReader_next gz r of
        None \<Rightarrow> None
      | Some (m, r1) \<Rightarrow> (case ItchFile_reads n gz r1 of None \<Rightarrow> None | Some (ms, r2) \<Rightarrow> Some (m # ms, r2)))"

section \<open>A stream behind zlib\<close>

text \<open>
  What the reader relies on: a read of \<open>n > 0\<close> bytes returns some of the next bytes, at least one while there are any, never fails, and
  rewinding starts again.
\<close>

locale gz_stream =
  fixes gz :: "'g GzOps" and rest :: "'g \<Rightarrow> byte list" and content :: "byte list"
  assumes read_law: "0 < n \<Longrightarrow> \<exists>k. gz_read gz n g = (Some (take k (rest g)), snd (gz_read gz n g)) \<and> k \<le> n \<and> (rest g \<noteq> [] \<longrightarrow> 0 < k) \<and>
      rest (snd (gz_read gz n g)) = drop k (rest g)"
    and no_error: "\<not> gz_failed gz g"
    and rewind_law: "rest (gz_rewind gz g) = content"
begin

definition buffered :: "'g ItchFileReader \<Rightarrow> byte list" where
  "buffered r = peek (ir_pos r) (ir_len r - ir_pos r) (ir_buf r)"

definition left :: "'g ItchFileReader \<Rightarrow> byte list" where
  "left r = buffered r @ (case ir_file r of None \<Rightarrow> [] | Some g \<Rightarrow> rest g)"

lemma fill_loop_reads:
  assumes "fill_loop gz need g r = (g', r')" and "ir_len r \<le> length (ir_buf r)" and "need \<le> length (ir_buf r)"
  shows "take (ir_len r') (ir_buf r') @ rest g' = take (ir_len r) (ir_buf r) @ rest g \<and> length (ir_buf r') = length (ir_buf r) \<and> ir_len r' \<le> length (ir_buf r') \<and>
    ir_pos r' = ir_pos r \<and> ir_messages r' = ir_messages r \<and> ir_bytes r' = ir_bytes r \<and> ir_map r' = ir_map r \<and> ir_file r' = ir_file r \<and>
    (if need \<le> ir_len r + length (rest g) then need \<le> ir_len r' \<and> ir_eof r' = ir_eof r \<and> ir_truncated r' = ir_truncated r
     else ir_len r' < need \<and> rest g' = [] \<and> ir_eof r' \<and> ir_truncated r' = (ir_len r' > 0))"
  using assms
proof (induction "need - ir_len r" arbitrary: g r rule: less_induct)
  case less
  show ?case
  proof (cases "ir_len r < need")
    case False
    then show ?thesis using less.prems by (subst (asm) fill_loop.simps) auto
  next
    case True
    define room where "room = length (ir_buf r) - ir_len r"
    have "0 < room" using True less.prems(3) by (simp add: room_def)
    then obtain k g1 where k: "gz_read gz room g = (Some (take k (rest g)), g1)" "k \<le> room" "rest g \<noteq> [] \<longrightarrow> 0 < k" "rest g1 = drop k (rest g)"
      using read_law [of room g] by (metis snd_conv)
    show ?thesis
    proof (cases "rest g")
      case Nil
      then have "g' = g1 \<and> r' = r\<lparr>ir_truncated := (ir_len r > 0), ir_eof := True\<rparr>"
        using less.prems(1) True k(1) no_error by (subst (asm) fill_loop.simps) (simp add: room_def [symmetric])
      then show ?thesis using True Nil k(4) less.prems(2) by simp
    next
      case (Cons x xs)
      then obtain y ys where y: "take k (rest g) = y # ys" using k(3) by (cases k) auto
      define r1 where "r1 = r\<lparr>ir_buf := poke (ir_len r) (y # ys) (ir_buf r), ir_len := ir_len r + length (y # ys)\<rparr>"
      have l: "length (y # ys) \<le> k" "length (y # ys) \<le> room" using y k(2) by (metis length_take min.cobounded2, metis length_take min.coboundedI2)
      have f: "fill_loop gz need g r = fill_loop gz need g1 r1"
        by (subst fill_loop.simps) (use True k(1) y in \<open>simp add: room_def [symmetric] r1_def\<close>)
      have b: "length (ir_buf r1) = length (ir_buf r)" "ir_len r1 \<le> length (ir_buf r1)" "need \<le> length (ir_buf r1)" "need - ir_len r1 < need - ir_len r"
        using l(2) less.prems(2,3) True by (simp_all add: r1_def room_def)
      have t: "take (ir_len r1) (ir_buf r1) = take (ir_len r) (ir_buf r) @ (y # ys)"
        using less.prems(2) take_poke_snoc [of "ir_len r" "ir_buf r" "y # ys"] by (simp add: r1_def)
      have c: "(y # ys) @ rest g1 = rest g" "length (y # ys) + length (rest g1) = length (rest g)"
        using k(4) y append_take_drop_id [of k "rest g"] by (metis, metis length_append)
      have o': "ir_pos r1 = ir_pos r" "ir_messages r1 = ir_messages r" "ir_bytes r1 = ir_bytes r" "ir_map r1 = ir_map r" "ir_file r1 = ir_file r"
        "ir_eof r1 = ir_eof r" "ir_truncated r1 = ir_truncated r" "ir_len r1 = ir_len r + length (y # ys)" by (simp_all add: r1_def)
      have s: "need \<le> ir_len r1 + length (rest g1) \<longleftrightarrow> need \<le> ir_len r + length (rest g)" using c(2) o'(8) by linarith
      have "take (ir_len r1) (ir_buf r1) @ rest g1 = take (ir_len r) (ir_buf r) @ rest g" using t c(1) by simp
      then show ?thesis using less.hyps [OF b(4) less.prems(1) [unfolded f] b(2,3)] o'(1-7) b(1) s by simp
    qed
  qed
qed

definition zlib_ok :: "'g ItchFileReader \<Rightarrow> bool" where
  "zlib_ok r \<longleftrightarrow> ir_map r = None \<and> ir_file r \<noteq> None \<and> ir_pos r \<le> ir_len r \<and> ir_len r \<le> length (ir_buf r) \<and> 65537 \<le> length (ir_buf r) \<and>
     (ir_eof r \<longrightarrow> rest (the (ir_file r)) = [])"

lemma length_buffered: "zlib_ok r \<Longrightarrow> length (buffered r) = ir_len r - ir_pos r"
  by (simp add: zlib_ok_def buffered_def)

lemma fill_reads:
  assumes "zlib_ok r" and "need \<le> 65537" and "ItchFileReader_fill gz need r = (ok, r')"
  shows "zlib_ok r' \<and> left r' = left r \<and> ir_messages r' = ir_messages r \<and> ir_bytes r' = ir_bytes r \<and> ok = (need \<le> length (left r)) \<and>
    (ok \<longrightarrow> need \<le> ir_len r' - ir_pos r' \<and> ir_eof r' = ir_eof r \<and> ir_truncated r' = ir_truncated r) \<and>
    (\<not> ok \<longrightarrow> ir_eof r' \<and> ir_truncated r' = (if ir_eof r then ir_truncated r else left r \<noteq> []))"
proof -
  obtain g where g: "ir_file r = Some g" using assms(1) by (auto simp: zlib_ok_def)
  have lb: "length (left r) = ir_len r - ir_pos r + length (rest g)" using length_buffered [OF assms(1)] g by (simp add: left_def)
  consider (there) "need \<le> ir_len r - ir_pos r" | (ended) "\<not> need \<le> ir_len r - ir_pos r" "ir_eof r" | (read) "\<not> need \<le> ir_len r - ir_pos r" "\<not> ir_eof r" by blast
  then show ?thesis
  proof cases
    case there
    then show ?thesis using assms(1,3) lb by (simp add: ItchFileReader_fill_def)
  next
    case ended
    then show ?thesis using assms(1,3) lb g by (auto simp: ItchFileReader_fill_def zlib_ok_def)
  next
    case read
    define r1 where "r1 = (if ir_pos r > 0 then
        r\<lparr>ir_buf := poke 0 (peek (ir_pos r) (ir_len r - ir_pos r) (ir_buf r)) (ir_buf r), ir_len := ir_len r - ir_pos r, ir_pos := 0\<rparr> else r)"
    have b: "length (buffered r) \<le> length (ir_buf r)" "length (buffered r) = ir_len r - ir_pos r" using assms(1) length_buffered [OF assms(1)] by (auto simp: zlib_ok_def)
    have r1: "take (ir_len r1) (ir_buf r1) = buffered r" "ir_len r1 = ir_len r - ir_pos r" "length (ir_buf r1) = length (ir_buf r)" "ir_pos r1 = 0"
      "ir_messages r1 = ir_messages r" "ir_bytes r1 = ir_bytes r" "ir_map r1 = ir_map r" "ir_file r1 = Some g" "ir_eof r1 = ir_eof r" "ir_truncated r1 = ir_truncated r"
      using g b take_poke_snoc [of 0 "ir_buf r" "buffered r"] by (auto simp: r1_def buffered_def [symmetric] peek_def [of 0]) (simp add: buffered_def peek_def)
    obtain g' r2 where f: "fill_loop gz need g r1 = (g', r2)" by fastforce
    have l: "ir_len r1 \<le> length (ir_buf r1)" "need \<le> length (ir_buf r1)" using assms(1,2) r1(2,3) by (auto simp: zlib_ok_def)
    note fl = fill_loop_reads [OF f l]
    have e: "ItchFileReader_fill gz need r = (need \<le> ir_len r2 - ir_pos r2, r2\<lparr>ir_file := Some g'\<rparr>)"
      using read f r1(8) by (simp add: ItchFileReader_fill_def r1_def [symmetric] Let_def)
    have p: "ir_pos r2 = 0" "ir_len r2 \<le> length (ir_buf r2)" "65537 \<le> length (ir_buf r2)" "ir_map r2 = None" "ir_messages r2 = ir_messages r" "ir_bytes r2 = ir_bytes r"
      using fl r1 assms(1) by (auto simp: zlib_ok_def)
    have t: "take (ir_len r2) (ir_buf r2) @ rest g' = left r" using fl r1(1) g by (simp add: left_def)
    have lf: "left (r2\<lparr>ir_file := Some g'\<rparr>) = left r" using t p(1) by (simp add: left_def buffered_def peek_def)
    have lr: "ir_len r1 + length (rest g) = length (left r)" using lb r1(2) by simp
    show ?thesis
    proof (cases "need \<le> length (left r)")
      case True
      then show ?thesis using assms(3) e fl lr lf p r1(9,10) read by (auto simp: zlib_ok_def)
    next
      case False
      then have n: "ir_len r2 < need" "rest g' = []" "ir_eof r2" "ir_truncated r2 = (ir_len r2 > 0)" using fl lr by auto
      have "length (left r) = ir_len r2" using t n(2) p(2) by (metis append_Nil2 length_take min.absorb2)
      then have "ir_truncated r2 = (left r \<noteq> [])" using n(4) by (metis length_greater_0_conv)
      then show ?thesis using assms(3) e n(1-3) False lf p read by (auto simp: zlib_ok_def)
    qed
  qed
qed

lemma left_peek: "zlib_ok r \<Longrightarrow> off + n \<le> ir_len r - ir_pos r \<Longrightarrow> peek off n (left r) = peek (ir_pos r + off) n (ir_buf r)"
proof -
  assume z: "zlib_ok r" and n: "off + n \<le> ir_len r - ir_pos r"
  have "peek off n (left r) = peek off n (buffered r)" unfolding left_def by (rule peek_append_left) (use n length_buffered [OF z] in simp)
  also have "\<dots> = peek (ir_pos r + off) n (ir_buf r)"
    unfolding buffered_def peek_def using n by (simp add: drop_take take_take min_def add.commute)
  finally show ?thesis .
qed

lemma left_nth: "zlib_ok r \<Longrightarrow> i < ir_len r - ir_pos r \<Longrightarrow> left r ! i = ir_buf r ! (ir_pos r + i)"
  using length_buffered [of r] by (simp add: left_def nth_append buffered_def peek_def zlib_ok_def)

lemma left_upd [simp]: "left (r\<lparr>ir_bytes := x\<rparr>) = left r" "left (r\<lparr>ir_messages := y\<rparr>) = left r" "left (r\<lparr>ir_truncated := t\<rparr>) = left r"
  by (simp_all add: left_def buffered_def)

lemma left_advance:
  assumes "zlib_ok r" and "n \<le> ir_len r - ir_pos r"
  shows "left (r\<lparr>ir_pos := ir_pos r + n\<rparr>) = drop n (left r)"
proof -
  have "drop n (buffered r) = peek (ir_pos r + n) (ir_len r - (ir_pos r + n)) (ir_buf r)" using assms by (simp add: buffered_def peek_def drop_take add.commute)
  then show ?thesis using assms length_buffered [OF assms(1)] by (simp add: left_def buffered_def)
qed

text \<open>Once zlib has nothing more, what is left is not a message, and the flag says whether it is something.\<close>

definition drained :: "'g ItchFileReader \<Rightarrow> bool" where
  "drained r \<longleftrightarrow> (ir_eof r \<longrightarrow> (if length (left r) < 2 then ir_truncated r = (left r \<noteq> [])
     else record_len (left r ! 0) (left r ! 1) \<noteq> 0 \<and> length (left r) < 2 + record_len (left r ! 0) (left r ! 1)))"

text \<open>The two readers are at the same place of the same bytes and have counted the same.\<close>

definition same_place :: "byte list \<Rightarrow> 'g ItchFileReader \<Rightarrow> 'g ItchFileReader \<Rightarrow> bool" where
  "same_place view r m \<longleftrightarrow> zlib_ok r \<and> drained r \<and> ir_map m = Some view \<and> ir_pos m \<le> length view \<and> left r = drop (ir_pos m) view \<and>
     ir_messages r = ir_messages m \<and> ir_bytes r = ir_bytes m \<and> ir_truncated r = ir_truncated m"

lemma next_same:
  assumes "same_place view r m"
  shows "\<exists>res r' m'. next_zlib gz r = Some (res, r') \<and> ItchFileReader_nextMapped view m = (res, m') \<and> same_place view r' m'"
  using assms
proof (induction "length (left r)" arbitrary: r m rule: less_induct)
  case less
  have zr: "zlib_ok r" "ir_file r \<noteq> None" and V: "left r = drop (ir_pos m) view" "ir_pos m \<le> length view" "ir_map m = Some view"
    and eq: "ir_messages r = ir_messages m" "ir_bytes r = ir_bytes m" "ir_truncated r = ir_truncated m" and dr: "drained r"
    using less.prems by (auto simp: same_place_def zlib_ok_def)
  have lv: "length (left r) = length view - ir_pos m" using V(1) by simp
  obtain ok r1 where f: "ItchFileReader_fill gz 2 r = (ok, r1)" by fastforce
  note f1 = fill_reads [OF zr(1) _ f]
  show ?case
  proof (cases ok)
    case False
    have l: "length (left r) < 2" using f1 False by simp
    then have "next_zlib gz r = Some (None, r1)" using zr(2) f False by (subst next_zlib.simps) auto
    moreover have "ItchFileReader_nextMapped view m = (None, m\<lparr>ir_truncated := (ir_pos m \<noteq> length view)\<rparr>)"
    proof -
      have "length view < ir_pos m + 2" using l lv by linarith
      then show ?thesis by (subst ItchFileReader_nextMapped.simps) simp
    qed
    moreover have "ir_truncated r1 = (left r \<noteq> [])" using f1 False dr l by (simp add: drained_def)
    moreover have "(left r \<noteq> []) = (ir_pos m \<noteq> length view)" using V(1,2) by auto
    ultimately show ?thesis using f1 False V eq by (auto simp: same_place_def drained_def)
  next
    case True
    have z1: "zlib_ok r1" "left r1 = left r" "2 \<le> ir_len r1 - ir_pos r1" "2 \<le> length (left r)" "ir_eof r1 = ir_eof r" "ir_truncated r1 = ir_truncated r"
      "ir_messages r1 = ir_messages r" "ir_bytes r1 = ir_bytes r"
      using f1 True by simp_all
    define len where "len = record_len (left r ! 0) (left r ! 1)"
    have h: "record_len (ir_buf r1 ! ir_pos r1) (ir_buf r1 ! (ir_pos r1 + 1)) = len"
      using left_nth [OF z1(1), of 0] left_nth [OF z1(1), of 1] z1(2,3) by (simp add: len_def)
    have hv: "record_len (view ! ir_pos m) (view ! (ir_pos m + 1)) = len" using V z1(4) by (simp add: len_def)
    have d1: "drained r1" using dr unfolding drained_def z1(2,5,6) .
    have nv: "\<not> length view < ir_pos m + 2" using z1(4) lv by linarith
    show ?thesis
    proof (cases "len = 0")
      case zero: True
      let ?r = "r1\<lparr>ir_pos := ir_pos r1 + 2, ir_bytes := ir_bytes r1 + 2\<rparr>" and ?m = "m\<lparr>ir_pos := ir_pos m + 2, ir_bytes := ir_bytes m + 2\<rparr>"
      have ne: "\<not> ir_eof r" using dr zero z1(4) by (auto simp: drained_def len_def)
      have "left ?r = drop 2 (left r)" using left_advance [OF z1(1,3)] z1(2) by simp
      moreover have "zlib_ok ?r" using z1(1,3) by (auto simp: zlib_ok_def)
      ultimately have "same_place view ?r ?m" using V nv eq z1 ne by (simp add: same_place_def drained_def add.commute)
      moreover have "length (left ?r) < length (left r)" using \<open>left ?r = drop 2 (left r)\<close> z1(4) by simp
      ultimately have "\<exists>res r' m'. next_zlib gz ?r = Some (res, r') \<and> ItchFileReader_nextMapped view ?m = (res, m') \<and> same_place view r' m'" by (rule less.hyps [rotated])
      moreover have "next_zlib gz r = next_zlib gz ?r" using zr(2) f True h zero by (subst next_zlib.simps) (auto simp: Let_def)
      moreover have "ItchFileReader_nextMapped view m = ItchFileReader_nextMapped view ?m" using nv hv zero by (subst ItchFileReader_nextMapped.simps) (simp add: Let_def)
      ultimately show ?thesis by simp
    next
      case pos: False
      obtain ok2 r2 where f': "ItchFileReader_fill gz (2 + len) r1 = (ok2, r2)" by fastforce
      have "2 + len \<le> 65537" using record_len_bound by (simp add: len_def)
      note f2 = fill_reads [OF z1(1) this f']
      show ?thesis
      proof (cases ok2)
        case False
        then have l: "length (left r) < 2 + len" using f2 z1(2) by simp
        have "next_zlib gz r = Some (None, r2\<lparr>ir_truncated := True\<rparr>)" using zr(2) f True h pos f' False by (subst next_zlib.simps) (auto simp: Let_def)
        moreover have "ItchFileReader_nextMapped view m = (None, m\<lparr>ir_truncated := True\<rparr>)"
          using nv hv pos l lv by (subst ItchFileReader_nextMapped.simps) (simp add: Let_def)
        moreover have "left (r2\<lparr>ir_truncated := True\<rparr>) = left r" using f2 z1(2) by (simp add: left_def buffered_def)
        moreover have "zlib_ok (r2\<lparr>ir_truncated := True\<rparr>)" using f2 by (simp add: zlib_ok_def)
        ultimately show ?thesis using f2 V eq z1 l pos by (auto simp: same_place_def drained_def len_def)
      next
        case ok2: True
        have z2: "zlib_ok r2" "left r2 = left r" "2 + len \<le> ir_len r2 - ir_pos r2" "2 + len \<le> length (left r)" "ir_eof r2 = ir_eof r" "ir_truncated r2 = ir_truncated r"
          "ir_messages r2 = ir_messages r" "ir_bytes r2 = ir_bytes r" using f2 ok2 z1 by simp_all
        let ?r = "r2\<lparr>ir_pos := ir_pos r2 + 2 + len, ir_bytes := ir_bytes r2 + 2 + of_nat len, ir_messages := ir_messages r2 + 1\<rparr>"
          and ?m = "m\<lparr>ir_pos := ir_pos m + 2 + len, ir_bytes := ir_bytes m + 2 + of_nat len, ir_messages := ir_messages m + 1\<rparr>"
        have ne: "\<not> ir_eof r" using dr z2(4) by (auto simp: drained_def len_def split: if_splits)
        have lf: "left ?r = drop (2 + len) (left r)"
          using left_advance [OF z2(1,3)] z2(2) by (simp add: add.assoc)
        have "zlib_ok ?r" using z2(1,3) by (auto simp: zlib_ok_def)
        then have sp: "same_place view ?r ?m" using lf V z2 eq ne lv by (simp add: same_place_def drained_def add.commute add.left_commute)
        have pk: "peek (ir_pos r2 + 2) len (ir_buf r2) = peek (ir_pos m + 2) len view"
          using left_peek [OF z2(1), of 2 len] z2(2,3) V(1) by (simp add: peek_def add.commute)
        have "next_zlib gz r = Some (Some (peek (ir_pos m + 2) len view), ?r)"
          using zr(2) f True h pos f' ok2 pk by (subst next_zlib.simps) (auto simp: Let_def)
        moreover have "ItchFileReader_nextMapped view m = (Some (peek (ir_pos m + 2) len view), ?m)"
          using nv hv pos z2(4) lv by (subst ItchFileReader_nextMapped.simps) (simp add: Let_def)
        ultimately show ?thesis using sp by blast
      qed
    qed
  qed
qed

lemma same_start:
  assumes "rest g = content" and "65537 \<le> bufferBytes" and "\<not> ItchFileReader_isGzip (Some content)"
  shows "same_place content (ItchFileReader_new raw None (Some g) bufferBytes) (ItchFileReader_new (Some content) (Some content) None n)"
  using assms by (auto simp: same_place_def zlib_ok_def drained_def left_def buffered_def peek_def ItchFileReader_new_def)

lemma nextMapped_map: "ItchFileReader_nextMapped view m = (res, m') \<Longrightarrow> ir_map m' = ir_map m"
  by (induction view m rule: ItchFileReader_nextMapped.induct) (subst (asm) (2) ItchFileReader_nextMapped.simps, auto simp: Let_def split: if_splits)

lemma reads_same:
  assumes "same_place view r m"
  shows "\<exists>res r' m'. ItchFile_reads n gz r = Some (res, r') \<and> ItchFile_reads n gz m = Some (res, m') \<and> same_place view r' m'"
  using assms
proof (induction n arbitrary: r m)
  case (Suc n)
  obtain res r1 m1 where s: "next_zlib gz r = Some (res, r1)" "ItchFileReader_nextMapped view m = (res, m1)" "same_place view r1 m1"
    using next_same [OF Suc.prems] by blast
  have "ItchFileReader_next gz r = Some (res, r1)" "ItchFileReader_next gz m = Some (res, m1)"
    using s Suc.prems by (simp_all add: ItchFileReader_next_def same_place_def zlib_ok_def)
  then show ?case using Suc.IH [OF s(3)] by auto
qed simp

lemma reads_agree:
  assumes "rest g = content" and "65537 \<le> bufferBytes" and "\<not> ItchFileReader_isGzip (Some content)"
  shows "\<exists>res r m. ItchFile_reads n gz (ItchFileReader_new raw None (Some g) bufferBytes) = Some (res, r) \<and>
    ItchFile_reads n gz (ItchFileReader_new (Some content) (Some content) None b) = Some (res, m) \<and>
    ir_messages r = ir_messages m \<and> ir_bytes r = ir_bytes m \<and> ir_truncated r = ir_truncated m"
  using reads_same [OF same_start [OF assms], of n raw b] unfolding same_place_def by blast

end

section \<open>A list as a stream\<close>

text \<open>A stream that gives at most \<open>k + 1\<close> bytes at a time.\<close>

definition list_gz :: "byte list \<Rightarrow> nat \<Rightarrow> byte list GzOps" where
  "list_gz content k = \<lparr>gz_read = (\<lambda>n bs. (Some (take (min n (Suc k)) bs), drop (min n (Suc k)) bs)), gz_failed = (\<lambda>_. False), gz_rewind = (\<lambda>_. content)\<rparr>"

interpretation list_stream: gz_stream "list_gz content k" "\<lambda>bs. bs" content for content k
proof unfold_locales
  fix n :: nat and g :: "byte list"
  assume "0 < n"
  then show "\<exists>i. gz_read (list_gz content k) n g = (Some (take i g), snd (gz_read (list_gz content k) n g)) \<and> i \<le> n \<and> (g \<noteq> [] \<longrightarrow> 0 < i) \<and>
      snd (gz_read (list_gz content k) n g) = drop i g"
    by (intro exI [of _ "min n (Suc k)"]) (simp add: list_gz_def)
qed (simp_all add: list_gz_def)

section \<open>What was written\<close>

definition storable :: "byte list \<Rightarrow> bool" where
  "storable m \<longleftrightarrow> m \<noteq> [] \<and> length m \<le> 0xFFFF"

definition record_bytes :: "byte list \<Rightarrow> byte list" where
  "record_bytes m = [of_nat (length m div 256), of_nat (length m mod 256)] @ m"

lemma record_len_bytes: "length m \<le> 0xFFFF \<Longrightarrow> record_len (of_nat (length m div 256)) (of_nat (length m mod 256)) = length m"
  by (simp add: record_len_eq unat_of_nat)

lemma write_file:
  assumes "iw_file w = Some bs"
  shows "iw_file (fold ItchFileWriter_write ms w) = Some (bs @ concat (map record_bytes (filter storable ms))) \<and>
    iw_messages (fold ItchFileWriter_write ms w) = iw_messages w + of_nat (length (filter storable ms))"
  using assms
proof (induction ms arbitrary: w bs)
  case (Cons m ms)
  show ?case
  proof (cases "storable m")
    case True
    then show ?thesis using Cons.prems Cons.IH [of "ItchFileWriter_write m w" "bs @ record_bytes m"]
      by (auto simp: ItchFileWriter_write_def storable_def record_bytes_def)
  next
    case False
    then show ?thesis using Cons.prems Cons.IH [of w bs] by (auto simp: ItchFileWriter_write_def storable_def)
  qed
qed simp

lemma nextMapped_record:
  assumes "drop (ir_pos r) view = record_bytes m @ bs" and "storable m"
  shows "\<exists>r'. ItchFileReader_nextMapped view r = (Some m, r') \<and> drop (ir_pos r') view = bs \<and> ir_messages r' = ir_messages r + 1 \<and> ir_map r' = ir_map r \<and>
    ir_truncated r' = ir_truncated r \<and> ir_pos r' \<le> length view"
proof -
  have lt: "ir_pos r < length view" using arg_cong [OF assms(1), of length] by (simp add: record_bytes_def)
  have p: "view ! (ir_pos r + i) = (record_bytes m @ bs) ! i" for i using nth_drop [of "ir_pos r" view i] lt assms(1) by simp
  have l: "length view = ir_pos r + 2 + length m + length bs"
    using arg_cong [OF assms(1), of length] lt by (simp add: record_bytes_def)
  have h: "record_len (view ! ir_pos r) (view ! (ir_pos r + 1)) = length m"
    using p [of 0] p [of 1] assms(2) by (simp add: record_bytes_def record_len_bytes storable_def)
  have k: "peek (ir_pos r + 2) (length m) view = m"
    using arg_cong [OF assms(1), of "\<lambda>x. take (length m) (drop 2 x)"] by (simp add: peek_def record_bytes_def add.commute)
  have d: "drop (ir_pos r + 2 + length m) view = bs"
    using arg_cong [OF assms(1), of "drop (2 + length m)"] by (simp add: record_bytes_def add.commute add.left_commute)
  show ?thesis
    by (subst ItchFileReader_nextMapped.simps) (use l h k d assms(2) in \<open>simp add: Let_def storable_def\<close>)
qed

lemma reads_written:
  assumes "ir_map r = Some view" and "drop (ir_pos r) view = concat (map record_bytes ms)" and "\<forall>m \<in> set ms. storable m" and "ir_pos r \<le> length view"
    and "\<not> ir_truncated r"
  shows "\<exists>r'. ItchFile_reads (length ms + 1) gz r = Some (map Some ms @ [None], r') \<and> ir_messages r' = ir_messages r + of_nat (length ms) \<and> \<not> ir_truncated r'"
  using assms
proof (induction ms arbitrary: r)
  case Nil
  then have "ItchFileReader_nextMapped view r = (None, r\<lparr>ir_truncated := False\<rparr>)" by (subst ItchFileReader_nextMapped.simps) simp
  then show ?case using Nil by (simp add: ItchFileReader_next_def)
next
  case (Cons m ms)
  obtain r1 where r1: "ItchFileReader_nextMapped view r = (Some m, r1)" "drop (ir_pos r1) view = concat (map record_bytes ms)" "ir_messages r1 = ir_messages r + 1"
    "ir_map r1 = ir_map r" "ir_truncated r1 = ir_truncated r" "ir_pos r1 \<le> length view"
    using nextMapped_record [of r view m "concat (map record_bytes ms)"] Cons.prems by auto
  obtain r2 where "ItchFile_reads (length ms + 1) gz r1 = Some (map Some ms @ [None], r2)" "ir_messages r2 = ir_messages r1 + of_nat (length ms)" "\<not> ir_truncated r2"
    using Cons.IH [of r1] r1 Cons.prems by auto
  then show ?case using r1(1,3) Cons.prems(1) by (intro exI [of _ r2]) (simp add: ItchFileReader_next_def)
qed

declare ItchFile_reads.simps [simp del]

section \<open>Properties\<close>

text \<open>
  C27. Reading through zlib and a buffer gives what reading the mapped file gives: for every stream that keeps the laws of \<^verbatim>\<open>gzread\<close>, however its reads cut
  the content, and a buffer with room for the longest message, any number of calls of \<^verbatim>\<open>next\<close> return, give the same messages and ends, and leave the same
  counts of messages and bytes and the same report of a truncated file.
\<close>

theorem ItchFile_modes_agree:
  assumes "gz_stream gz rest content" and "rest g = content" and "65537 \<le> bufferBytes" and "\<not> ItchFileReader_isGzip (Some content)"
  shows "\<exists>res r m. ItchFile_reads n gz (ItchFileReader_new raw None (Some g) bufferBytes) = Some (res, r) \<and>
    ItchFile_reads n gz (ItchFileReader_new (Some content) (Some content) None b) = Some (res, m) \<and>
    ir_messages r = ir_messages m \<and> ir_bytes r = ir_bytes m \<and> ir_truncated r = ir_truncated m"
  by (rule gz_stream.reads_agree [OF assms])

theorem ItchFile_modes_agree_witness:
  "\<exists>res r. ItchFile_reads 3 (list_gz [0, 0, 0, 2, 7, 8, 0] 0) (ItchFileReader_new None None (Some [0, 0, 0, 2, 7, 8, 0]) 70000) = Some (res, r) \<and>
     res = [Some [7, 8], None, None] \<and> ir_truncated r"
proof -
  let ?c = "[0, 0, 0, 2, 7, 8, 0] :: byte list"
  have g: "\<not> ItchFileReader_isGzip (Some ?c)" by (simp add: ItchFileReader_isGzip_def)
  have "ItchFile_reads 3 (list_gz ?c 0) (ItchFileReader_new (Some ?c) (Some ?c) None 0 :: byte list ItchFileReader) =
      Some ([Some [7, 8], None, None], \<lparr>ir_file = None, ir_map = Some ?c, ir_buf = [], ir_pos = 6, ir_len = 0, ir_messages = 1, ir_bytes = 6, ir_eof = False, ir_truncated = True\<rparr>)"
    by code_simp
  then show ?thesis using ItchFile_modes_agree [OF list_stream.gz_stream_axioms [of ?c 0] refl _ g, of 70000 3 None 0] by (simp del: ItchFile_reads.simps) metis
qed

text \<open>
  C0. A file that was written reads back: the messages that fit a length of 16 bits and are not empty come back in order, then the end, the
  file is not reported as truncated, and reader and writer have counted the same.
\<close>

theorem ItchFile_write_read:
  assumes "iw_file (fold ItchFileWriter_write ms (ItchFileWriter_new True)) = Some content" and "\<not> ItchFileReader_isGzip (Some content)"
  shows "\<exists>r. ItchFile_reads (length (filter storable ms) + 1) gz (ItchFileReader_new (Some content) (Some content) None b) =
      Some (map Some (filter storable ms) @ [None], r) \<and>
    ir_messages r = iw_messages (fold ItchFileWriter_write ms (ItchFileWriter_new True)) \<and> \<not> ir_truncated r"
proof -
  have w: "content = concat (map record_bytes (filter storable ms))" "iw_messages (fold ItchFileWriter_write ms (ItchFileWriter_new True)) = of_nat (length (filter storable ms))"
    using write_file [of "ItchFileWriter_new True" "[]" ms] assms(1) by (simp_all add: ItchFileWriter_new_def)
  let ?r = "ItchFileReader_new (Some content) (Some content) None b"
  have r: "ir_map ?r = Some content" "ir_pos ?r \<le> length content" "\<not> ir_truncated ?r" "ir_messages ?r = 0" "drop (ir_pos ?r) content = concat (map record_bytes (filter storable ms))"
    using assms(2) w(1) by (simp_all add: ItchFileReader_new_def)
  have st: "\<forall>m \<in> set (filter storable ms). storable m" by simp
  show ?thesis using reads_written [OF r(1,5) st r(2,3), of gz] unfolding r(4) w(2) by simp
qed

theorem ItchFile_write_read_witness:
  "\<exists>r. ItchFile_reads 3 (list_gz [] 0) (ItchFileReader_new (Some [0, 1, 9, 0, 2, 7, 8]) (Some [0, 1, 9, 0, 2, 7, 8]) None 0) = Some ([Some [9], Some [7, 8], None], r) \<and>
     ir_messages r = 2"
proof -
  let ?ms = "[[9], [], [7, 8]] :: byte list list" and ?c = "[0, 1, 9, 0, 2, 7, 8] :: byte list"
  have f: "iw_file (fold ItchFileWriter_write ?ms (ItchFileWriter_new True)) = Some ?c" "iw_messages (fold ItchFileWriter_write ?ms (ItchFileWriter_new True)) = 2"
    by (simp_all add: ItchFileWriter_write_def ItchFileWriter_new_def)
  have g: "\<not> ItchFileReader_isGzip (Some ?c)" by (simp add: ItchFileReader_isGzip_def)
  have s: "filter storable ?ms = [[9], [7, 8]]" by (simp add: storable_def)
  have n: "length [[9], [7, 8 :: byte]] + 1 = 3" by simp
  show ?thesis using ItchFile_write_read [OF f(1) g, of "list_gz [] 0" 0] unfolding s n f(2) by auto
qed

end
