(* ===== verification/SymbolFilter.thy ===== *)
theory SymbolFilter
  imports Decimal Itch50 BookTable
begin

text \<open>
  The filter of recorded messages by symbol and the times of day of the replay, \<^verbatim>\<open>replay/SymbolFilter.hpp\<close> and \<^verbatim>\<open>replay/SymbolFilter.cpp\<close>.
  The vector of marks, indexed by a 16-bit code, is a function.
\<close>

section \<open>The filter\<close>

record SymbolFilter =
  sf_symbols :: "byte list list"
  sf_locates :: "u16 list"
  sf_mine :: "u16 \<Rightarrow> bool"
  sf_resolved :: nat

definition SymbolFilter_new :: "byte list list \<Rightarrow> SymbolFilter" where
  "SymbolFilter_new symbols = \<lparr>sf_symbols = symbols, sf_locates = replicate (length symbols) 0, sf_mine = (\<lambda>_. False), sf_resolved = 0\<rparr>"

definition SymbolFilter_locateOf :: "byte list \<Rightarrow> u16" where
  "SymbolFilter_locateOf msg = ucast (push_bit 8 (ucast (msg ! 1) :: u32) OR ucast (msg ! 2))"

definition SymbolFilter_timestampOf :: "byte list \<Rightarrow> u64" where
  "SymbolFilter_timestampOf msg = fold (\<lambda>i v. push_bit 8 v OR ucast (msg ! i)) [5..<11] 0"

text \<open>The loop over the symbols: the first symbol with the name takes the code.\<close>

definition filter_bind :: "u16 \<Rightarrow> byte list \<Rightarrow> SymbolFilter \<Rightarrow> bool \<times> SymbolFilter" where
  "filter_bind locate name f =
     (case find (\<lambda>i. sf_symbols f ! i = name) [0..<length (sf_symbols f)] of
        None \<Rightarrow> (False, f)
      | Some i \<Rightarrow>
          (True, f\<lparr>sf_resolved := (if \<not> sf_mine f locate then sf_resolved f + 1 else sf_resolved f),
                   sf_locates := (sf_locates f)[i := locate], sf_mine := (sf_mine f)(locate := True)\<rparr>))"

definition SymbolFilter_accept :: "byte list \<Rightarrow> SymbolFilter \<Rightarrow> bool \<times> SymbolFilter" where
  "SymbolFilter_accept msg f =
     (if length msg < 11 then (False, f)
      else if msg ! 0 = 0x53 then (True, f)
      else if msg ! 0 = 0x52 then
        if length msg < sizeof_StockDirectory then (False, f)
        else filter_bind (SymbolFilter_locateOf msg) (alpha_view (sd_stock (dec_StockDirectory msg))) f
      else (sf_mine f (SymbolFilter_locateOf msg), f))"

definition SymbolFilter_resolved :: "SymbolFilter \<Rightarrow> bool" where
  "SymbolFilter_resolved f \<longleftrightarrow> sf_resolved f = length (sf_symbols f)"

definition SymbolFilter_stockLocate :: "SymbolFilter \<Rightarrow> u16" where
  "SymbolFilter_stockLocate f = (if sf_locates f = [] then 0 else sf_locates f ! 0)"

definition SymbolFilter_symbol :: "SymbolFilter \<Rightarrow> byte list" where
  "SymbolFilter_symbol f = sf_symbols f ! 0"

section \<open>Times of day\<close>

text \<open>\<^verbatim>\<open>"%02llu:%02llu:%02llu.%03llu"\<close>.\<close>

definition formatTimeOfDay :: "u64 \<Rightarrow> byte list" where
  "formatTimeOfDay ns =
     (let s = ns div 1000000000; ms = (ns div 1000000) mod 1000
      in show_padded 2 (unat (s div 3600)) @ [0x3a] @ show_padded 2 (unat ((s div 60) mod 60)) @ [0x3a] @ show_padded 2 (unat (s mod 60)) @ [0x2e] @
         show_padded 3 (unat ms))"

text \<open>One directive of the format of \<^verbatim>\<open>sscanf\<close>: a literal character, which must be next, and a number.\<close>

definition scan_after :: "(int \<Rightarrow> u32) \<Rightarrow> byte \<Rightarrow> byte list \<Rightarrow> (u32 \<times> byte list) option" where
  "scan_after wide c cs = (if cs \<noteq> [] \<and> hd cs = c then scan_u wide (tl cs) else None)"

text \<open>\<^verbatim>\<open>sscanf(v, "%u:%u:%u.%u", ...)\<close>: the numbers that were converted, in order.\<close>

definition scan_time :: "(int \<Rightarrow> u32) \<Rightarrow> byte list \<Rightarrow> u32 list" where
  "scan_time wide v =
     (case scan_u wide v of
        None \<Rightarrow> []
      | Some (h, r1) \<Rightarrow>
          (case scan_after wide 0x3a r1 of
             None \<Rightarrow> [h]
           | Some (m, r2) \<Rightarrow>
               (case scan_after wide 0x3a r2 of
                  None \<Rightarrow> [h, m]
                | Some (s, r3) \<Rightarrow> (case scan_after wide 0x2e r3 of None \<Rightarrow> [h, m, s] | Some (ms, r4) \<Rightarrow> [h, m, s, ms]))))"

text \<open>The text ends at the first zero byte; numbers that were not converted stay 0.\<close>

definition parseTimeOfDay :: "(int \<Rightarrow> u32) \<Rightarrow> byte list \<Rightarrow> u64" where
  "parseTimeOfDay wide v =
     (if v = [] then 0
      else
        let ns = scan_time wide (takeWhile (\<lambda>c. c \<noteq> 0) v); at = (\<lambda>i. if i < length ns then ns ! i else 0)
        in if length ns < 2 then 0
           else (ucast (at 0) * 3600 + ucast (at 1) * 60 + ucast (at 2)) * 1000000000 + ucast (at 3) * 1000000)"

section \<open>Properties\<close>

text \<open>The directory message of a symbol of the filter.\<close>

definition binds :: "byte list list \<Rightarrow> byte list \<Rightarrow> bool" where
  "binds symbols msg \<longleftrightarrow> sizeof_StockDirectory \<le> length msg \<and> msg ! 0 = 0x52 \<and> alpha_view (sd_stock (dec_StockDirectory msg)) \<in> set symbols"

definition filter_after :: "byte list list \<Rightarrow> byte list list \<Rightarrow> SymbolFilter" where
  "filter_after symbols history = fold (\<lambda>m f. snd (SymbolFilter_accept m f)) history (SymbolFilter_new symbols)"

lemma bind_some:
  assumes "name \<in> set (sf_symbols f)"
  shows "\<exists>i < length (sf_symbols f). find (\<lambda>i. sf_symbols f ! i = name) [0..<length (sf_symbols f)] = Some i"
proof -
  obtain j where "j < length (sf_symbols f)" "sf_symbols f ! j = name" using assms by (auto simp: in_set_conv_nth)
  then have "find (\<lambda>i. sf_symbols f ! i = name) [0..<length (sf_symbols f)] \<noteq> None" by (auto simp: find_None_iff)
  then show ?thesis using find_SomeD by fastforce
qed

lemma bind_none: "name \<notin> set (sf_symbols f) \<Longrightarrow> find (\<lambda>i. sf_symbols f ! i = name) [0..<length (sf_symbols f)] = None"
  by (auto simp: find_None_iff)

lemma accept_step:
  "sf_symbols (snd (SymbolFilter_accept m f)) = sf_symbols f"
  "sf_mine (snd (SymbolFilter_accept m f)) l = (sf_mine f l \<or> binds (sf_symbols f) m \<and> SymbolFilter_locateOf m = l)"
  "fst (SymbolFilter_accept m f) = (11 \<le> length m \<and> (m ! 0 = 0x53 \<or> binds (sf_symbols f) m \<or> m ! 0 \<noteq> 0x52 \<and> sf_mine f (SymbolFilter_locateOf m)))"
proof -
  let ?n = "alpha_view (sd_stock (dec_StockDirectory m))"
  note sz = sizeof_StockDirectory_def
  show "sf_symbols (snd (SymbolFilter_accept m f)) = sf_symbols f"
    by (auto simp: SymbolFilter_accept_def filter_bind_def split: option.split)
  show "sf_mine (snd (SymbolFilter_accept m f)) l = (sf_mine f l \<or> binds (sf_symbols f) m \<and> SymbolFilter_locateOf m = l)"
    using bind_some [of ?n f] bind_none [of ?n f]
    by (cases "?n \<in> set (sf_symbols f)") (auto simp: SymbolFilter_accept_def filter_bind_def binds_def sz)
  show "fst (SymbolFilter_accept m f) = (11 \<le> length m \<and> (m ! 0 = 0x53 \<or> binds (sf_symbols f) m \<or> m ! 0 \<noteq> 0x52 \<and> sf_mine f (SymbolFilter_locateOf m)))"
    using bind_some [of ?n f] bind_none [of ?n f]
    by (cases "?n \<in> set (sf_symbols f)") (auto simp: SymbolFilter_accept_def filter_bind_def binds_def sz)
qed

lemma filter_after_fields:
  "sf_symbols (filter_after symbols history) = symbols \<and>
   sf_mine (filter_after symbols history) l = (\<exists>m \<in> set history. binds symbols m \<and> SymbolFilter_locateOf m = l)"
proof -
  have "sf_symbols (fold (\<lambda>m f. snd (SymbolFilter_accept m f)) history f) = sf_symbols f \<and>
      sf_mine (fold (\<lambda>m f. snd (SymbolFilter_accept m f)) history f) l = (sf_mine f l \<or> (\<exists>m \<in> set history. binds (sf_symbols f) m \<and> SymbolFilter_locateOf m = l))" for f
    by (induction history arbitrary: f) (auto simp: accept_step)
  then show ?thesis by (simp add: filter_after_def SymbolFilter_new_def)
qed

text \<open>
  The filter lets through exactly what concerns its symbols: after any messages it accepts a message when it has a header and is a system event,
  the directory message of one of the symbols, or a message of another type whose locate code such a directory message gave to a symbol before.
\<close>

theorem SymbolFilter_accepts_own:
  "fst (SymbolFilter_accept msg (filter_after symbols history)) =
    (11 \<le> length msg \<and> (msg ! 0 = 0x53 \<or> binds symbols msg \<or>
      msg ! 0 \<noteq> 0x52 \<and> (\<exists>m \<in> set history. binds symbols m \<and> SymbolFilter_locateOf m = SymbolFilter_locateOf msg)))"
  using accept_step(3) [of msg "filter_after symbols history"] filter_after_fields [of symbols history] by simp

lemma cut_zero: "\<forall>c \<in> set v. c \<noteq> 0 \<Longrightarrow> takeWhile (\<lambda>c. c \<noteq> 0) v = v"
  by simp

lemma time_parts:
  "(n div 1000000000 div 3600 * 3600 + n div 1000000000 div 60 mod 60 * 60 + n div 1000000000 mod 60) * 1000000000 + n div 1000000 mod 1000 * 1000000 =
    n - n mod 1000000" for n :: nat
proof -
  define q where "q = n div 1000000"
  define t where "t = n div 1000000000"
  have t: "t = q div 1000" by (simp add: t_def q_def div_mult2_eq [symmetric])
  have "t div 3600 = t div 60 div 60" by (simp add: div_mult2_eq [symmetric])
  then have "t div 3600 * 3600 + t div 60 mod 60 * 60 + t mod 60 = t"
    using div_mult_mod_eq [of "t div 60" 60] div_mult_mod_eq [of t 60] by linarith
  moreover have "t * 1000000000 + q mod 1000 * 1000000 = q * 1000000" using div_mult_mod_eq [of q 1000] t by linarith
  moreover have "q * 1000000 = n - n mod 1000000" by (simp add: q_def minus_mod_eq_div_mult)
  ultimately show ?thesis by (simp add: t_def q_def)
qed

text \<open>
  C0. A time of day reads back: for every number of nanoseconds, what \<^verbatim>\<open>parseTimeOfDay\<close> makes of the text that \<^verbatim>\<open>formatTimeOfDay\<close> prints is the time rounded down to
  a millisecond.
\<close>

theorem timeOfDay_roundtrip: "parseTimeOfDay wide (formatTimeOfDay ns) = ns - ns mod 1000000"
proof -
  define s where "s = ns div 1000000000"
  define h where "h = s div 3600"
  define m where "m = (s div 60) mod 60"
  define sec where "sec = s mod 60"
  define ms where "ms = (ns div 1000000) mod 1000"
  have u: "unat s = unat ns div 1000000000" "unat h = unat ns div 1000000000 div 3600" "unat m = unat ns div 1000000000 div 60 mod 60"
    "unat sec = unat ns div 1000000000 mod 60" "unat ms = unat ns div 1000000 mod 1000"
    by (simp_all add: s_def h_def m_def sec_def ms_def unat_div unat_mod)
  have n: "unat ns < 2 ^ 64" using unat_lt2p [of ns] by simp
  then have b: "unat h < 2 ^ 32" "unat m < 60" "unat sec < 60" "unat ms < 1000" using u by (simp_all add: div_less_iff_less_mult less_mult_imp_div_less)
  have f: "formatTimeOfDay ns = show_padded 2 (unat h) @ 0x3a # show_padded 2 (unat m) @ 0x3a # show_padded 2 (unat sec) @ 0x2e # show_padded 3 (unat ms)"
    by (simp add: formatTimeOfDay_def s_def h_def m_def sec_def ms_def Let_def)
  have nd: "\<not> is_digit 0x3a" "\<not> is_digit 0x2e" by (simp_all add: is_digit_def)
  have sc: "scan_u wide (show_padded w (unat x) @ rest) = Some (of_nat (unat x), rest)" if "unat x < 2 ^ 32" "rest = [] \<or> \<not> is_digit (hd rest)" for w rest and x :: u64
    using scan_u_digits [of "show_padded w (unat x)" rest wide] show_padded_digits that by auto
  have "c \<noteq> 0" if "is_digit c" for c :: byte using that by (auto simp: is_digit_def)
  then have z: "\<forall>c \<in> set (formatTimeOfDay ns). c \<noteq> 0" unfolding f using show_padded_digits by fastforce
  have t: "scan_time wide (formatTimeOfDay ns) = [of_nat (unat h), of_nat (unat m), of_nat (unat sec), of_nat (unat ms)]"
    unfolding f using sc [of h _ 2] sc [of m _ 2] sc [of sec _ 2] sc [of ms "[]" 3] b nd by (simp add: scan_time_def scan_after_def)
  have e: "formatTimeOfDay ns \<noteq> []" by (simp add: f)
  have c: "ucast (of_nat (unat x) :: u32) = (of_nat (unat x) :: u64)" if "unat x < 2 ^ 32" for x :: u64
    using that by (simp add: word_unat_eq_iff unat_ucast_mod unat_of_nat)
  have "parseTimeOfDay wide (formatTimeOfDay ns) =
      (of_nat (unat h) * 3600 + of_nat (unat m) * 60 + of_nat (unat sec)) * 1000000000 + of_nat (unat ms) * 1000000"
    unfolding parseTimeOfDay_def cut_zero [OF z] t Let_def using e c [of h] c [of m] c [of sec] c [of ms] b by simp
  also have "\<dots> = of_nat ((unat h * 3600 + unat m * 60 + unat sec) * 1000000000 + unat ms * 1000000)" by simp
  also have "(unat h * 3600 + unat m * 60 + unat sec) * 1000000000 + unat ms * 1000000 = unat ns - unat ns mod 1000000"
    unfolding u by (rule time_parts)
  also have "of_nat (unat ns - unat ns mod 1000000) = ns - ns mod 1000000"
  proof -
    have "unat ns - unat ns mod 1000000 = unat (ns - ns mod 1000000)" by (subst unat_sub) (simp_all add: word_le_nat_alt unat_mod)
    then show ?thesis by simp
  qed
  finally show ?thesis .
qed

end
