(* ===== verification/MarketReplay.thy ===== *)
theory MarketReplay
  imports ItchFile SymbolFilter
begin

text \<open>
  The replay of a recorded feed into an exchange session, \<^verbatim>\<open>sim/MarketReplay.hpp\<close>. The session is a record of the operations that the template
  uses. The clock \<^verbatim>\<open>monotonicNs\<close> is the sequence of its readings, and the delay of a virtual time difference at the speed of the
  replay (a product of doubles) is a function of the configuration. What the file system says of the file is the environment. A loop that
  would not end, here or in the reader, is \<open>None\<close>.
\<close>

section \<open>Data\<close>

text \<open>\<open>rc_paced\<close> says that the speed is positive, \<open>rc_delay\<close> is \<^verbatim>\<open>static_cast<std::uint64_t>(static_cast<double>(d) * m_nsPerNs)\<close>.\<close>

record ReplayConfig =
  rc_paced :: bool
  rc_delay :: "u64 \<Rightarrow> u64"
  rc_loops :: u32
  rc_skipToNs :: u64
  rc_stopAtNs :: u64
  rc_preloadMaxMb :: nat
  rc_maxBatch :: nat
  rc_afapMaxPerSec :: u64

record ReplayProgress =
  pr_loop :: u32
  pr_sent :: u64
  pr_virtualTs :: u64
  pr_maxLateNs :: u64
  pr_lateOver1ms :: u64
  pr_preloaded :: bool
  pr_mapped :: bool
  pr_finished :: bool

record 's SessionOps =
  so_replayMessage :: "byte list \<Rightarrow> u64 \<Rightarrow> 's \<Rightarrow> 's"
  so_flushMarketData :: "'s \<Rightarrow> 's"
  so_resetDay :: "u64 \<Rightarrow> 's \<Rightarrow> 's"

text \<open>
  The file: zlib, the reader that the constructor gives for it, its size, and the pair of numbers in the file \<^verbatim>\<open>.msgcount\<close> beside it when there
  is one.
\<close>

record 'g ReplayFile =
  rf_gz :: "'g GzOps"
  rf_reader :: "'g ItchFileReader"
  rf_size :: u64
  rf_count :: "(u64 \<times> u64) option"

record ('g, 's) MarketReplay =
  mr_session :: 's
  mr_cfg :: ReplayConfig
  mr_progress :: ReplayProgress
  mr_store :: "byte list"
  mr_cursor :: nat
  mr_reader :: "'g ItchFileReader option"
  mr_fileMessages :: u64
  mr_cur :: "byte list"
  mr_have :: bool
  mr_anchored :: bool
  mr_anchorMono :: u64
  mr_anchorTs :: u64
  mr_afapStart :: u64
  mr_afapSent :: u64

definition ReplayProgress_new :: ReplayProgress where
  "ReplayProgress_new = \<lparr>pr_loop = 0, pr_sent = 0, pr_virtualTs = 0, pr_maxLateNs = 0, pr_lateOver1ms = 0, pr_preloaded = False, pr_mapped = False,
     pr_finished = False\<rparr>"

definition MarketReplay_new :: "'s \<Rightarrow> ReplayConfig \<Rightarrow> ('g, 's) MarketReplay" where
  "MarketReplay_new session cfg =
     \<lparr>mr_session = session, mr_cfg = cfg, mr_progress = ReplayProgress_new, mr_store = [], mr_cursor = 0, mr_reader = None, mr_fileMessages = 0, mr_cur = [],
      mr_have = False, mr_anchored = False, mr_anchorMono = 0, mr_anchorTs = 0, mr_afapStart = 0, mr_afapSent = 0\<rparr>"

definition progress_upd :: "(ReplayProgress \<Rightarrow> ReplayProgress) \<Rightarrow> ('g, 's) MarketReplay \<Rightarrow> ('g, 's) MarketReplay" where
  "progress_upd f m = m\<lparr>mr_progress := f (mr_progress m)\<rparr>"

definition session_upd :: "('s \<Rightarrow> 's) \<Rightarrow> ('g, 's) MarketReplay \<Rightarrow> ('g, 's) MarketReplay" where
  "session_upd f m = m\<lparr>mr_session := f (mr_session m)\<rparr>"

section \<open>Opening and reading\<close>

definition MarketReplay_restart :: "'g ReplayFile \<Rightarrow> ('g, 's) MarketReplay \<Rightarrow> bool \<times> ('g, 's) MarketReplay" where
  "MarketReplay_restart file m =
     (let m1 = m\<lparr>mr_cursor := 0, mr_have := False, mr_anchored := False, mr_afapStart := 0, mr_afapSent := 0\<rparr>
      in if pr_preloaded (mr_progress m1) then (True, m1)
         else case mr_reader m1 of
                Some r \<Rightarrow> (True, m1\<lparr>mr_reader := Some (ItchFileReader_reset (rf_gz file) r)\<rparr>)
              | None \<Rightarrow> (ItchFileReader_ok (rf_reader file), m1\<lparr>mr_reader := Some (rf_reader file)\<rparr>))"

text \<open>\<^verbatim>\<open>while (probe.next(msg)) { ++m_fileMessages; }\<close>\<close>

partial_function (option) count_messages :: "'g GzOps \<Rightarrow> 'g ItchFileReader \<Rightarrow> u64 \<Rightarrow> u64 option" where
  "count_messages gz r n =
     (case ItchFileReader_next gz r of
        None \<Rightarrow> None
      | Some (res, r1) \<Rightarrow> if res = None then Some n else count_messages gz r1 (n + 1))"

text \<open>The loop that copies the file into the store: the store and the count, or nothing when the store would outgrow its bound.\<close>

partial_function (option) preload_messages :: "'g GzOps \<Rightarrow> nat \<Rightarrow> 'g ItchFileReader \<Rightarrow> byte list \<Rightarrow> u64 \<Rightarrow> (byte list \<times> u64) option option" where
  "preload_messages gz cap r store n =
     (case ItchFileReader_next gz r of
        None \<Rightarrow> None
      | Some (res, r1) \<Rightarrow>
          if res = None then Some (Some (store, n))
          else
            let msg = the res
            in if length store + length msg + 2 > cap then Some None
               else preload_messages gz cap r1 (store @ [of_nat (length msg div 256), of_nat (length msg mod 256)] @ msg) (n + 1))"

text \<open>The last component is what is written to the file \<^verbatim>\<open>.msgcount\<close>.\<close>

definition MarketReplay_open :: "'g ReplayFile \<Rightarrow> ('g, 's) MarketReplay \<Rightarrow> (bool \<times> ('g, 's) MarketReplay \<times> (u64 \<times> u64) option) option" where
  "MarketReplay_open file m =
     (let probe = rf_reader file in
      if \<not> ItchFileReader_ok probe then Some (False, m, None)
      else if ItchFileReader_mapped probe then
        let opened = (\<lambda>n. progress_upd (\<lambda>p. p\<lparr>pr_mapped := True\<rparr>) (m\<lparr>mr_fileMessages := n, mr_reader := Some probe\<rparr>))
        in (case rf_count file of
              Some (cachedSize, cachedCount) \<Rightarrow>
                if cachedSize = rf_size file then Some (cachedCount > 0, opened cachedCount, None)
                else (case count_messages (rf_gz file) probe 0 of None \<Rightarrow> None | Some n \<Rightarrow> Some (n > 0, opened n, Some (rf_size file, n)))
            | None \<Rightarrow> (case count_messages (rf_gz file) probe 0 of None \<Rightarrow> None | Some n \<Rightarrow> Some (n > 0, opened n, Some (rf_size file, n))))
      else
        (case preload_messages (rf_gz file) (rc_preloadMaxMb (mr_cfg m) * 2 ^ 20) probe (mr_store m) (mr_fileMessages m) of
           None \<Rightarrow> None
         | Some None \<Rightarrow> (let (ok, m1) = MarketReplay_restart file (m\<lparr>mr_store := [], mr_fileMessages := 0\<rparr>) in Some (ok, m1, None))
         | Some (Some (store, n)) \<Rightarrow> Some (n > 0, progress_upd (\<lambda>p. p\<lparr>pr_preloaded := True\<rparr>) (m\<lparr>mr_store := store, mr_fileMessages := n\<rparr>), None)))"

definition MarketReplay_fetch :: "'g ReplayFile \<Rightarrow> ('g, 's) MarketReplay \<Rightarrow> (bool \<times> ('g, 's) MarketReplay) option" where
  "MarketReplay_fetch file m =
     (if pr_preloaded (mr_progress m) then
        if mr_cursor m + 2 > length (mr_store m) then Some (False, m)
        else
          let len = record_len (mr_store m ! mr_cursor m) (mr_store m ! (mr_cursor m + 1))
          in Some (True, m\<lparr>mr_cur := peek (mr_cursor m + 2) len (mr_store m), mr_cursor := mr_cursor m + 2 + len\<rparr>)
      else
        let (ok, m1) = (if mr_reader m = None then MarketReplay_restart file m else (True, m))
        in if \<not> ok then Some (False, m1)
           else case mr_reader m1 of
                  None \<Rightarrow> Some (False, m1)
                | Some r \<Rightarrow>
                    (case ItchFileReader_next (rf_gz file) r of
                       None \<Rightarrow> None
                     | Some (None, r1) \<Rightarrow> Some (False, m1\<lparr>mr_reader := Some r1\<rparr>)
                     | Some (Some msg, r1) \<Rightarrow>
                         let m2 = m1\<lparr>mr_reader := Some r1, mr_cur := msg\<rparr>
                         in Some (True, if pr_mapped (mr_progress m2) then m2 else m2\<lparr>mr_fileMessages := mr_fileMessages m2 + 1\<rparr>)))"

section \<open>Replaying\<close>

definition MarketReplay_endOfLoop :: "'g ReplayFile \<Rightarrow> 's SessionOps \<Rightarrow> ('g, 's) MarketReplay \<Rightarrow> ('g, 's) MarketReplay" where
  "MarketReplay_endOfLoop file so m =
     (let m1 = session_upd (so_flushMarketData so \<circ> so_resetDay so (pr_virtualTs (mr_progress m))) m;
          m2 = progress_upd (\<lambda>p. p\<lparr>pr_loop := pr_loop p + 1\<rparr>) m1
      in if rc_loops (mr_cfg m2) \<noteq> 0 \<and> pr_loop (mr_progress m2) \<ge> rc_loops (mr_cfg m2) then progress_upd (\<lambda>p. p\<lparr>pr_finished := True\<rparr>) m2
         else
           let (ok, m3) = MarketReplay_restart file m2
           in if \<not> ok then progress_upd (\<lambda>p. p\<lparr>pr_finished := True\<rparr>) m3 else m3)"

definition replay_anchor :: "u64 \<Rightarrow> u64 \<Rightarrow> ('g, 's) MarketReplay \<Rightarrow> ('g, 's) MarketReplay" where
  "replay_anchor now ts m =
     (if \<not> mr_anchored m \<and> rc_paced (mr_cfg m) \<and> (rc_skipToNs (mr_cfg m) = 0 \<or> ts \<ge> rc_skipToNs (mr_cfg m))
      then m\<lparr>mr_anchored := True, mr_anchorMono := now, mr_anchorTs := ts\<rparr> else m)"

text \<open>
  The two waits of \<^verbatim>\<open>pump\<close>: whether to return, the time as it is known now, the readings of the clock so far and the state. The time is read again
  only when it is too early.
\<close>

definition replay_throttle :: "(nat \<Rightarrow> u64) \<Rightarrow> nat \<Rightarrow> u64 \<Rightarrow> nat \<Rightarrow> ('g, 's) MarketReplay \<Rightarrow> bool \<times> u64 \<times> nat \<times> ('g, 's) MarketReplay" where
  "replay_throttle clk k now batch m =
     (if \<not> mr_anchored m \<and> rc_afapMaxPerSec (mr_cfg m) > 0 then
        let m1 = (if mr_afapStart m = 0 then m\<lparr>mr_afapStart := now, mr_afapSent := 0\<rparr> else m);
            due = mr_afapStart m1 + (mr_afapSent m1 * 1000000000) div rc_afapMaxPerSec (mr_cfg m1);
            early = (batch = 0 \<and> mr_afapSent m1 > 0 \<and> due > now);
            now' = (if early then clk k else now)
        in if early \<and> due > now' then (True, now', k + 1, m1)
           else (False, now', (if early then k + 1 else k), m1\<lparr>mr_afapSent := mr_afapSent m1 + 1\<rparr>)
      else (False, now, k, m))"

definition replay_pace :: "(nat \<Rightarrow> u64) \<Rightarrow> nat \<Rightarrow> u64 \<Rightarrow> u64 \<Rightarrow> ('g, 's) MarketReplay \<Rightarrow> bool \<times> u64 \<times> nat \<times> ('g, 's) MarketReplay" where
  "replay_pace clk k now ts m =
     (if mr_anchored m then
        let due = (if ts > mr_anchorTs m then mr_anchorMono m + rc_delay (mr_cfg m) (ts - mr_anchorTs m) else mr_anchorMono m);
            early = (due > now);
            now' = (if early then clk k else now);
            k' = (if early then k + 1 else k);
            late = now' - due
        in if early \<and> due > now' then (True, now', k', m)
           else (False, now', k', progress_upd (\<lambda>p. p\<lparr>pr_maxLateNs := max late (pr_maxLateNs p),
                                   pr_lateOver1ms := (if late > 1000000 then pr_lateOver1ms p + 1 else pr_lateOver1ms p)\<rparr>) m)
      else (False, now, k, m))"

definition replay_send :: "'s SessionOps \<Rightarrow> u64 \<Rightarrow> ('g, 's) MarketReplay \<Rightarrow> ('g, 's) MarketReplay" where
  "replay_send so ts m =
     (progress_upd (\<lambda>p. p\<lparr>pr_virtualTs := ts, pr_sent := pr_sent p + 1\<rparr>) (session_upd (so_replayMessage so (mr_cur m) ts) m))\<lparr>mr_have := False\<rparr>"

text \<open>
  A round of the loop of \<^verbatim>\<open>pump\<close>: \<open>Inl\<close> when it returns, \<open>Inr\<close> with the readings of the clock, the time, the batch and the state when the loop goes
  on. A round that fetched a message goes on with it in the next.
\<close>

definition pump_round ::
  "'g ReplayFile \<Rightarrow> 's SessionOps \<Rightarrow> (nat \<Rightarrow> u64) \<Rightarrow> nat \<Rightarrow> u64 \<Rightarrow> nat \<Rightarrow> ('g, 's) MarketReplay \<Rightarrow>
    ((bool \<times> ('g, 's) MarketReplay) + (nat \<times> u64 \<times> nat \<times> ('g, 's) MarketReplay)) option" where
  "pump_round file so clk k now batch m =
     (if \<not> mr_have m then
        (case MarketReplay_fetch file m of
           None \<Rightarrow> None
         | Some (got, m1) \<Rightarrow>
             Some (if got then Inr (k, now, batch, m1\<lparr>mr_have := True\<rparr>)
                   else
                     let m2 = MarketReplay_endOfLoop file so m1
                     in if pr_finished (mr_progress m2) then Inl (False, m2) else Inr (k, now, batch, m2)))
      else if length (mr_cur m) < 11 then Some (Inr (k, now, batch, m\<lparr>mr_have := False\<rparr>))
      else
        let ts = SymbolFilter_timestampOf (mr_cur m)
        in Some
            (if rc_stopAtNs (mr_cfg m) \<noteq> 0 \<and> ts > rc_stopAtNs (mr_cfg m) then
               let m2 = MarketReplay_endOfLoop file so (m\<lparr>mr_have := False\<rparr>)
               in if pr_finished (mr_progress m2) then Inl (False, m2) else Inr (k, now, batch, m2)
             else
               let (wait1, now1, k1, m1) = replay_throttle clk k now batch (replay_anchor now ts m)
               in if wait1 then Inl (True, session_upd (so_flushMarketData so) m1)
                  else
                    let (wait2, now2, k2, m2) = replay_pace clk k1 now1 ts m1
                    in if wait2 then Inl (True, session_upd (so_flushMarketData so) m2)
                       else
                         let m3 = replay_send so ts m2
                         in if batch + 1 \<ge> rc_maxBatch (mr_cfg m3) then Inl (True, session_upd (so_flushMarketData so) m3)
                            else Inr (k2, now2, batch + 1, m3)))"

partial_function (option) pump_loop ::
  "'g ReplayFile \<Rightarrow> 's SessionOps \<Rightarrow> (nat \<Rightarrow> u64) \<Rightarrow> nat \<Rightarrow> u64 \<Rightarrow> nat \<Rightarrow> ('g, 's) MarketReplay \<Rightarrow> (bool \<times> ('g, 's) MarketReplay) option" where
  "pump_loop file so clk k now batch m =
     (case pump_round file so clk k now batch m of
        None \<Rightarrow> None
      | Some (Inl r) \<Rightarrow> Some r
      | Some (Inr (k1, now1, batch1, m1)) \<Rightarrow> pump_loop file so clk k1 now1 batch1 m1)"

definition MarketReplay_pump :: "'g ReplayFile \<Rightarrow> 's SessionOps \<Rightarrow> (nat \<Rightarrow> u64) \<Rightarrow> u64 \<Rightarrow> ('g, 's) MarketReplay \<Rightarrow> (bool \<times> ('g, 's) MarketReplay) option" where
  "MarketReplay_pump file so clk now m = (if pr_finished (mr_progress m) then Some (False, m) else pump_loop file so clk 0 now 0 m)"

end
