(* ===== verification/RecordedFeed.thy ===== *)
theory RecordedFeed
  imports ItchFile
begin

text \<open>
  The messages of a recorded file, stated on its bytes, and that every reader of the file gives them, mapped or through zlib.
\<close>

section \<open>The messages of a file\<close>

text \<open>The messages that the bytes hold, up to the first that is not complete; a length of 0 is skipped.\<close>

function records :: "byte list \<Rightarrow> byte list list" where
  "records bs =
     (if length bs < 2 then []
      else
        let len = record_len (bs ! 0) (bs ! 1)
        in if len = 0 then records (drop 2 bs) else if length bs < 2 + len then [] else peek 2 len bs # records (drop (2 + len) bs))"
  by pat_completeness auto
termination by (relation "measure length") auto

declare records.simps [simp del]

lemma records_lengths: "m \<in> set (records bs) \<Longrightarrow> storable m"
proof (induction bs rule: records.induct)
  case (1 bs)
  show ?case using 1(3) 1(1,2) record_len_bound [of "bs ! 0" "bs ! 1"]
    by (subst (asm) records.simps) (auto simp: Let_def storable_def peek_def split: if_splits)
qed

lemma nextMapped_records:
  assumes "ir_pos r \<le> length view" and "ItchFileReader_nextMapped view r = (res, r')"
  shows "ir_map r' = ir_map r \<and> ir_pos r' \<le> length view \<and> res = (case records (drop (ir_pos r) view) of [] \<Rightarrow> None | m # ms \<Rightarrow> Some m) \<and>
    records (drop (ir_pos r') view) = tl (records (drop (ir_pos r) view))"
  using assms
proof (induction view r rule: ItchFileReader_nextMapped.induct)
  case (1 view r)
  let ?bs = "drop (ir_pos r) view"
  define len where "len = record_len (view ! ir_pos r) (view ! (ir_pos r + 1))"
  have s: "ItchFileReader_nextMapped view r = (if ir_pos r + 2 > length view then (None, r\<lparr>ir_truncated := (ir_pos r \<noteq> length view)\<rparr>)
      else if len = 0 then ItchFileReader_nextMapped view (r\<lparr>ir_pos := ir_pos r + 2, ir_bytes := ir_bytes r + 2\<rparr>)
      else if ir_pos r + 2 + len > length view then (None, r\<lparr>ir_truncated := True\<rparr>)
      else (Some (peek (ir_pos r + 2) len view), r\<lparr>ir_pos := ir_pos r + 2 + len, ir_bytes := ir_bytes r + 2 + of_nat len, ir_messages := ir_messages r + 1\<rparr>))"
    by (subst ItchFileReader_nextMapped.simps) (simp add: Let_def len_def)
  have c: "records ?bs = (if length view < ir_pos r + 2 then [] else if len = 0 then records (drop (ir_pos r + 2) view)
      else if length view < ir_pos r + 2 + len then [] else peek (ir_pos r + 2) len view # records (drop (ir_pos r + 2 + len) view))"
  proof (cases "length view < ir_pos r + 2")
    case True
    then have "length ?bs < 2" by simp
    then show ?thesis using True by (subst records.simps) simp
  next
    case False
    then have l: "\<not> length ?bs < 2" "record_len (?bs ! 0) (?bs ! 1) = len" "(length ?bs < 2 + len) = (length view < ir_pos r + 2 + len)"
      by (auto simp: len_def)
    show ?thesis
      by (subst records.simps, unfold l(2)) (use l(1,3) False in \<open>simp add: Let_def peek_def add.commute add.left_commute\<close>)
  qed
  show ?case
  proof (cases "length view < ir_pos r + 2 \<or> len \<noteq> 0")
    case True
    then show ?thesis using 1(2,3) s c by (auto split: if_splits)
  next
    case False
    then have n: "\<not> ir_pos r + 2 > length view" "len = 0" by auto
    have "ItchFileReader_nextMapped view (r\<lparr>ir_pos := ir_pos r + 2, ir_bytes := ir_bytes r + 2\<rparr>) = (res, r')" using 1(3) s n by simp
    from 1(1) [OF n(1) refl n(2) [unfolded len_def] _ this] show ?thesis using c n by simp
  qed
qed

context gz_stream
begin

text \<open>The messages a reader of the file, mapped or not, will still give.\<close>

definition still_gives :: "'g ItchFileReader \<Rightarrow> byte list list \<Rightarrow> bool" where
  "still_gives r ms \<longleftrightarrow> ir_map r = Some content \<and> ir_pos r \<le> length content \<and> records (drop (ir_pos r) content) = ms \<or>
     (\<exists>m. same_place content r m \<and> records (drop (ir_pos m) content) = ms)"

lemma gives_next:
  assumes "still_gives r ms"
  shows "\<exists>r'. ItchFileReader_next gz r = Some (case ms of [] \<Rightarrow> None | m # _ \<Rightarrow> Some m, r') \<and> still_gives r' (tl ms)"
proof (cases "ir_map r = Some content \<and> ir_pos r \<le> length content \<and> records (drop (ir_pos r) content) = ms")
  case True
  obtain res r' where n: "ItchFileReader_nextMapped content r = (res, r')" by fastforce
  show ?thesis using nextMapped_records [OF _ n] True n by (auto simp: ItchFileReader_next_def still_gives_def)
next
  case False
  then obtain m where m: "same_place content r m" "records (drop (ir_pos m) content) = ms" using assms by (auto simp: still_gives_def)
  obtain res r' m' where n: "next_zlib gz r = Some (res, r')" "ItchFileReader_nextMapped content m = (res, m')" "same_place content r' m'" using next_same [OF m(1)] by blast
  have "ir_map r = None" "ir_pos m \<le> length content" using m(1) by (simp_all add: same_place_def zlib_ok_def)
  then show ?thesis using nextMapped_records [OF _ n(2)] n(1,3) m(2) by (auto simp: ItchFileReader_next_def still_gives_def)
qed

lemma gives_reset: "still_gives r ms \<Longrightarrow> still_gives (ItchFileReader_reset gz r) (records content)"
proof -
  assume s: "still_gives r ms"
  show ?thesis
  proof (cases "ir_map r = Some content")
    case True
    then show ?thesis by (simp add: still_gives_def ItchFileReader_reset_def)
  next
    case False
    then obtain m where m: "same_place content r m" using s by (auto simp: still_gives_def)
    then obtain g where "ir_file r = Some g" by (auto simp: same_place_def zlib_ok_def)
    then have "same_place content (ItchFileReader_reset gz r) (ItchFileReader_reset gz m)"
      using m rewind_law by (simp add: same_place_def zlib_ok_def drained_def left_def buffered_def peek_def ItchFileReader_reset_def)
    then show ?thesis by (auto simp: still_gives_def ItchFileReader_reset_def)
  qed
qed

lemma gives_ok: "still_gives r ms \<Longrightarrow> ItchFileReader_ok r"
  by (auto simp: still_gives_def ItchFileReader_ok_def same_place_def zlib_ok_def)

lemma gives_mapped: "\<not> ItchFileReader_isGzip (Some content) \<Longrightarrow> still_gives (ItchFileReader_new (Some content) (Some content) None n) (records content)"
  by (simp add: still_gives_def ItchFileReader_new_def)

lemma gives_zlib:
  "rest g = content \<Longrightarrow> 65537 \<le> bufferBytes \<Longrightarrow> still_gives (ItchFileReader_new raw None (Some g) bufferBytes) (records content)"
proof -
  assume a: "rest g = content" "65537 \<le> bufferBytes"
  let ?m = "\<lparr>ir_file = None, ir_map = Some content, ir_buf = [], ir_pos = 0, ir_len = 0, ir_messages = 0, ir_bytes = 0, ir_eof = False, ir_truncated = False\<rparr> :: 'g ItchFileReader"
  have "same_place content (ItchFileReader_new raw None (Some g) bufferBytes) ?m"
    using a by (auto simp: same_place_def zlib_ok_def drained_def left_def buffered_def peek_def ItchFileReader_new_def)
  moreover have "records (drop (ir_pos ?m) content) = records content" by simp
  ultimately show ?thesis unfolding still_gives_def by blast
qed

end

text \<open>A reader that has just opened the file \<open>content\<close>: mapped when it is not compressed, else through zlib.\<close>

definition recorded :: "('g \<Rightarrow> byte list) \<Rightarrow> byte list \<Rightarrow> 'g ItchFileReader \<Rightarrow> bool" where
  "recorded rest content r \<longleftrightarrow>
     (\<exists>n. \<not> ItchFileReader_isGzip (Some content) \<and> r = ItchFileReader_new (Some content) (Some content) None n) \<or>
     (\<exists>n raw g. rest g = content \<and> 65537 \<le> n \<and> r = ItchFileReader_new raw None (Some g) n)"

lemma recorded_gives:
  assumes "gz_stream gz rest content" and "recorded rest content r"
  shows "gz_stream.still_gives rest content r (records content)"
  using assms(2) gz_stream.gives_mapped [OF assms(1)] gz_stream.gives_zlib [OF assms(1)] unfolding recorded_def by metis

text \<open>The bytes of written messages hold those messages.\<close>

lemma records_record: "storable m \<Longrightarrow> records (record_bytes m @ bs) = m # records bs"
proof -
  assume s: "storable m"
  let ?bs = "record_bytes m @ bs"
  have b: "?bs ! 0 = of_nat (length m div 256)" "?bs ! 1 = of_nat (length m mod 256)" "length ?bs = 2 + length m + length bs" by (simp_all add: record_bytes_def)
  have l: "record_len (?bs ! 0) (?bs ! 1) = length m" unfolding b using s by (simp add: record_len_bytes storable_def)
  have p: "peek 2 (length m) ?bs = m" "drop (2 + length m) ?bs = bs" by (simp_all add: peek_def record_bytes_def)
  have m: "length m \<noteq> 0" using s by (simp add: storable_def)
  show ?thesis by (subst records.simps) (unfold Let_def l, use b(3) p m in simp)
qed

lemma records_written: "\<forall>m \<in> set ms. storable m \<Longrightarrow> records (concat (map record_bytes ms)) = ms"
proof (induction ms)
  case Nil
  then show ?case by (simp add: records.simps)
next
  case (Cons m ms)
  then show ?case by (simp add: records_record)
qed

end
