(* ===== verification/MarketReplayProps.thy ===== *)
theory MarketReplayProps
  imports MarketReplay RecordedFeed "HOL-Library.Sublist"
begin

text \<open>
  What a replay sends: the messages of the file in order, day after day, and that it returns, except when nothing of the file is to be sent and
  it repeats for ever.
\<close>

section \<open>What a replay should send\<close>

datatype ReplayCall = Call_replay "byte list" u64 | Call_flush | Call_reset u64

text \<open>The session that notes its calls.\<close>

definition note_calls :: "ReplayCall list SessionOps" where
  "note_calls = \<lparr>so_replayMessage = (\<lambda>msg ts calls. calls @ [Call_replay msg ts]), so_flushMarketData = (\<lambda>calls. calls @ [Call_flush]),
     so_resetDay = (\<lambda>ts calls. calls @ [Call_reset ts])\<rparr>"

definition beyond_stop :: "ReplayConfig \<Rightarrow> byte list \<Rightarrow> bool" where
  "beyond_stop cfg m \<longleftrightarrow> 11 \<le> length m \<and> rc_stopAtNs cfg \<noteq> 0 \<and> SymbolFilter_timestampOf m > rc_stopAtNs cfg"

text \<open>The messages of a day: those with a header, up to the first that is later than the time to stop at.\<close>

definition day_messages :: "ReplayConfig \<Rightarrow> byte list list \<Rightarrow> byte list list" where
  "day_messages cfg ms = filter (\<lambda>m. 11 \<le> length m) (takeWhile (\<lambda>m. \<not> beyond_stop cfg m) ms)"

definition call_of :: "byte list \<Rightarrow> ReplayCall" where
  "call_of m = Call_replay m (SymbolFilter_timestampOf m)"

definition last_time :: "byte list list \<Rightarrow> u64" where
  "last_time ms = (if ms = [] then 0 else SymbolFilter_timestampOf (last ms))"

text \<open>A whole day: its messages, then the reset at the time of the last.\<close>

definition day_calls :: "ReplayConfig \<Rightarrow> byte list list \<Rightarrow> ReplayCall list" where
  "day_calls cfg ms = map call_of (day_messages cfg ms) @ [Call_reset (last_time (day_messages cfg ms))]"

text \<open>\<open>n\<close> days and the first messages of the next.\<close>

definition plays :: "ReplayConfig \<Rightarrow> byte list list \<Rightarrow> nat \<Rightarrow> byte list list \<Rightarrow> ReplayCall list \<Rightarrow> bool" where
  "plays cfg ms n part calls \<longleftrightarrow> filter (\<lambda>c. c \<noteq> Call_flush) calls = concat (replicate n (day_calls cfg ms)) @ map call_of part"

lemma plays_simps [simp]:
  "plays cfg ms n part (calls @ [Call_flush]) = plays cfg ms n part calls"
  "plays cfg ms 0 [] []"
  by (simp_all add: plays_def)

lemma plays_send: "plays cfg ms n part calls \<Longrightarrow> plays cfg ms n (part @ [m]) (calls @ [Call_replay m (SymbolFilter_timestampOf m)])"
  by (simp add: plays_def call_of_def)

lemma plays_day: "plays cfg ms n (day_messages cfg ms) calls \<Longrightarrow> plays cfg ms (Suc n) [] (calls @ [Call_reset (last_time (day_messages cfg ms))])"
  by (simp add: plays_def day_calls_def replicate_append_same [symmetric])

section \<open>Every step of a replay\<close>

lemma day_split:
  assumes "\<forall>m \<in> set pre. \<not> beyond_stop cfg m"
  shows "day_messages cfg (pre @ ms) = filter (\<lambda>m. 11 \<le> length m) pre @ day_messages cfg ms"
  using assms by (simp add: day_messages_def)

context gz_stream
begin

definition file_ok :: "'g ReplayFile \<Rightarrow> bool" where
  "file_ok file \<longleftrightarrow> rf_gz file = gz \<and> still_gives (rf_reader file) (records content)"

text \<open>The messages that \<^verbatim>\<open>fetch\<close> will still give in this loop.\<close>

definition source :: "('g, 's) MarketReplay \<Rightarrow> byte list list \<Rightarrow> bool" where
  "source m ms \<longleftrightarrow>
     (if pr_preloaded (mr_progress m) then
        mr_store m = concat (map record_bytes (records content)) \<and> mr_cursor m \<le> length (mr_store m) \<and>
        drop (mr_cursor m) (mr_store m) = concat (map record_bytes ms) \<and> set ms \<subseteq> set (records content)
      else case mr_reader m of None \<Rightarrow> ms = records content | Some r \<Rightarrow> still_gives r ms)"

definition same_run :: "('g, 's) MarketReplay \<Rightarrow> ('g, 's) MarketReplay \<Rightarrow> bool" where
  "same_run m m' \<longleftrightarrow> mr_session m' = mr_session m \<and> mr_cfg m' = mr_cfg m \<and> mr_progress m' = mr_progress m"

lemma restart_source:
  assumes "file_ok file" and "source m ms"
  shows "\<exists>m'. MarketReplay_restart file m = (True, m') \<and> source m' (records content) \<and> same_run m m' \<and> \<not> mr_have m'"
proof -
  let ?m = "m\<lparr>mr_cursor := 0, mr_have := False, mr_anchored := False, mr_afapStart := 0, mr_afapSent := 0\<rparr>"
  have f: "rf_gz file = gz" "still_gives (rf_reader file) (records content)" "ItchFileReader_ok (rf_reader file)"
    using assms(1) gives_ok by (auto simp: file_ok_def)
  consider (stored) "pr_preloaded (mr_progress m)" | (fresh) "\<not> pr_preloaded (mr_progress m)" "mr_reader m = None"
    | (again) r where "\<not> pr_preloaded (mr_progress m)" "mr_reader m = Some r" by (cases "mr_reader m") auto
  then show ?thesis
  proof cases
    case stored
    then show ?thesis using assms(2) by (intro exI [of _ ?m]) (simp add: MarketReplay_restart_def source_def same_run_def)
  next
    case fresh
    then show ?thesis using f by (intro exI [of _ "?m\<lparr>mr_reader := Some (rf_reader file)\<rparr>"]) (simp add: MarketReplay_restart_def source_def same_run_def)
  next
    case again
    then have "still_gives (ItchFileReader_reset gz r) (records content)" using assms(2) gives_reset by (simp add: source_def)
    then show ?thesis using again f
      by (intro exI [of _ "?m\<lparr>mr_reader := Some (ItchFileReader_reset gz r)\<rparr>"]) (simp add: MarketReplay_restart_def source_def same_run_def)
  qed
qed

lemma fetch_source:
  assumes "file_ok file" and "source m ms" and "\<not> mr_have m"
  shows "\<exists>m'. MarketReplay_fetch file m = Some (ms \<noteq> [], m') \<and> source m' (tl ms) \<and> (ms \<noteq> [] \<longrightarrow> mr_cur m' = hd ms) \<and> same_run m m' \<and> \<not> mr_have m'"
proof (cases "pr_preloaded (mr_progress m)")
  case True
  have st: "mr_store m = concat (map record_bytes (records content))" "mr_cursor m \<le> length (mr_store m)"
    "drop (mr_cursor m) (mr_store m) = concat (map record_bytes ms)" "set ms \<subseteq> set (records content)"
    using assms(2) unfolding source_def if_P [OF True] by blast+
  show ?thesis
  proof (cases ms)
    case Nil
    then have "length (mr_store m) \<le> mr_cursor m" using st(3) by (simp only: list.map concat.simps drop_eq_Nil)
    then have "MarketReplay_fetch file m = Some (False, m)" using True by (simp add: MarketReplay_fetch_def)
    then show ?thesis using assms(2,3) Nil by (intro exI [of _ m]) (simp add: same_run_def)
  next
    case (Cons x xs)
    have x: "storable x" using st(4) Cons records_lengths by auto
    have d: "drop (mr_cursor m) (mr_store m) = record_bytes x @ concat (map record_bytes xs)" using st(3) Cons by (simp only: list.map concat.simps)
    have l: "length (mr_store m) = mr_cursor m + 2 + length x + length (concat (map record_bytes xs))"
      using arg_cong [OF d, of length] st(2) unfolding length_drop length_append record_bytes_def by simp
    have n: "mr_store m ! (mr_cursor m + i) = (record_bytes x @ concat (map record_bytes xs)) ! i" for i
      using nth_drop [OF st(2), of i] unfolding d by (rule sym)
    have h: "record_len (mr_store m ! mr_cursor m) (mr_store m ! (mr_cursor m + 1)) = length x"
      using n [of 0] n [of 1] x by (simp add: record_bytes_def record_len_bytes storable_def)
    have p: "peek (mr_cursor m + 2) (length x) (mr_store m) = x"
      using arg_cong [OF d, of "\<lambda>y. take (length x) (drop 2 y)"] by (simp add: peek_def record_bytes_def add.commute)
    have r: "drop (mr_cursor m + 2 + length x) (mr_store m) = concat (map record_bytes xs)"
      using arg_cong [OF d, of "drop (2 + length x)"] by (simp add: record_bytes_def add.commute add.left_commute)
    define m' where "m' = m\<lparr>mr_cur := x, mr_cursor := mr_cursor m + 2 + length x\<rparr>"
    have "MarketReplay_fetch file m = Some (True, m')" using True l h p by (simp add: MarketReplay_fetch_def m'_def Let_def)
    moreover have "source m' xs"
    proof -
      have f: "pr_preloaded (mr_progress m')" "mr_store m' = mr_store m" "mr_cursor m' = mr_cursor m + 2 + length x" using True by (simp_all add: m'_def)
      have s: "set xs \<subseteq> set (records content)" "mr_cursor m + 2 + length x \<le> length (mr_store m)" using st(4) Cons unfolding l by auto
      show ?thesis unfolding source_def if_P [OF f(1)] f(2,3) by (intro conjI st(1) s r)
    qed
    ultimately show ?thesis using Cons assms(3) by (intro exI [of _ m']) (simp add: m'_def same_run_def)
  qed
next
  case False
  obtain m1 where m1: "(if mr_reader m = None then MarketReplay_restart file m else (True, m)) = (True, m1)" "source m1 ms" "same_run m m1" "\<not> mr_have m1" "mr_reader m1 \<noteq> None"
  proof (cases "mr_reader m")
    case None
    then have ms: "ms = records content" using assms(2) False by (simp add: source_def)
    obtain m' where m': "MarketReplay_restart file m = (True, m')" "source m' (records content)" "same_run m m'" "\<not> mr_have m'" using restart_source [OF assms(1,2)] by blast
    have "mr_reader m' \<noteq> None" using m'(1) None False by (auto simp: MarketReplay_restart_def Let_def)
    then show ?thesis using that [of m'] m' ms None by simp
  next
    case (Some r)
    then show ?thesis using that [of m] assms(2,3) by (simp add: same_run_def)
  qed
  then obtain r where r: "mr_reader m1 = Some r" by blast
  have np: "\<not> pr_preloaded (mr_progress m1)" using m1(3) False by (simp add: same_run_def)
  then have "still_gives r ms" using m1(2) r by (simp add: source_def)
  then obtain r' where n: "ItchFileReader_next gz r = Some (case ms of [] \<Rightarrow> None | x # _ \<Rightarrow> Some x, r')" "still_gives r' (tl ms)" using gives_next by blast
  have g: "rf_gz file = gz" using assms(1) by (simp add: file_ok_def)
  show ?thesis unfolding MarketReplay_fetch_def m1(1) using False r n g np m1(3,4)
    by (cases ms) (auto simp: source_def same_run_def Let_def)
qed

text \<open>
  In the middle of day \<open>n\<close>: \<open>pre\<close> has been handled, then comes the message in hand, then \<open>ms\<close>. And after the last day.
\<close>

definition in_hand :: "('g, 's) MarketReplay \<Rightarrow> byte list list" where
  "in_hand m = (if mr_have m then [mr_cur m] else [])"

definition virtual_time :: "ReplayConfig \<Rightarrow> nat \<Rightarrow> byte list list \<Rightarrow> u64" where
  "virtual_time cfg n sent = (if sent \<noteq> [] then last_time sent else if n = 0 then 0 else last_time (day_messages cfg (records content)))"

definition playing :: "nat \<Rightarrow> byte list list \<Rightarrow> byte list list \<Rightarrow> ('g, ReplayCall list) MarketReplay \<Rightarrow> bool" where
  "playing n pre ms m \<longleftrightarrow> records content = pre @ in_hand m @ ms \<and> (\<forall>x \<in> set pre. \<not> beyond_stop (mr_cfg m) x) \<and> source m ms \<and>
     plays (mr_cfg m) (records content) n (filter (\<lambda>x. 11 \<le> length x) pre) (mr_session m) \<and>
     pr_virtualTs (mr_progress m) = virtual_time (mr_cfg m) n (filter (\<lambda>x. 11 \<le> length x) pre) \<and>
     pr_loop (mr_progress m) = of_nat n \<and> \<not> pr_finished (mr_progress m) \<and> (rc_loops (mr_cfg m) \<noteq> 0 \<longrightarrow> n < unat (rc_loops (mr_cfg m)))"

definition played :: "nat \<Rightarrow> ('g, ReplayCall list) MarketReplay \<Rightarrow> bool" where
  "played n m \<longleftrightarrow> pr_finished (mr_progress m) \<and> rc_loops (mr_cfg m) \<noteq> 0 \<and> n = unat (rc_loops (mr_cfg m)) \<and> plays (mr_cfg m) (records content) n [] (mr_session m)"

definition same_core :: "('g, 's) MarketReplay \<Rightarrow> ('g, 's) MarketReplay \<Rightarrow> bool" where
  "same_core m m' \<longleftrightarrow> mr_session m' = mr_session m \<and> mr_cfg m' = mr_cfg m \<and> mr_cur m' = mr_cur m \<and> mr_have m' = mr_have m \<and> mr_store m' = mr_store m \<and>
     mr_cursor m' = mr_cursor m \<and> mr_reader m' = mr_reader m \<and> pr_loop (mr_progress m') = pr_loop (mr_progress m) \<and>
     pr_virtualTs (mr_progress m') = pr_virtualTs (mr_progress m) \<and> pr_finished (mr_progress m') = pr_finished (mr_progress m) \<and>
     pr_preloaded (mr_progress m') = pr_preloaded (mr_progress m)"

lemma core_anchor: "same_core m (replay_anchor now ts m)"
  by (simp add: same_core_def replay_anchor_def)

lemma core_throttle: "replay_throttle clk k now batch m = (w, now', k', m') \<Longrightarrow> same_core m m'"
  by (auto simp: same_core_def replay_throttle_def Let_def split: if_splits)

lemma core_pace: "replay_pace clk k now ts m = (w, now', k', m') \<Longrightarrow> same_core m m'"
  by (auto simp: same_core_def replay_pace_def progress_upd_def Let_def split: if_splits)

lemma core_trans: "same_core a b \<Longrightarrow> same_core b c \<Longrightarrow> same_core a c"
  by (simp add: same_core_def)

lemma source_core: "same_core m m' \<Longrightarrow> source m' ms = source m ms"
  by (simp add: same_core_def source_def)

lemma playing_core: "playing n pre ms m \<Longrightarrow> same_core m m' \<Longrightarrow> playing n pre ms m'"
proof -
  assume p: "playing n pre ms m" and c: "same_core m m'"
  have e: "mr_session m' = mr_session m" "mr_cfg m' = mr_cfg m" "mr_cur m' = mr_cur m" "mr_have m' = mr_have m" "pr_loop (mr_progress m') = pr_loop (mr_progress m)"
    "pr_virtualTs (mr_progress m') = pr_virtualTs (mr_progress m)" "pr_finished (mr_progress m') = pr_finished (mr_progress m)" using c by (simp_all add: same_core_def)
  show "playing n pre ms m'" using p unfolding playing_def in_hand_def e source_core [OF c] .
qed

lemma playing_flush: "playing n pre ms m \<Longrightarrow> playing n pre ms (session_upd (so_flushMarketData note_calls) m)"
proof -
  assume p: "playing n pre ms m"
  let ?m = "session_upd (so_flushMarketData note_calls) m"
  have e: "mr_session ?m = mr_session m @ [Call_flush]" "mr_cfg ?m = mr_cfg m" "mr_cur ?m = mr_cur m" "mr_have ?m = mr_have m" "mr_progress ?m = mr_progress m"
    "source ?m ms = source m ms" by (simp_all add: session_upd_def note_calls_def source_def)
  show "playing n pre ms ?m" using p unfolding playing_def in_hand_def e plays_simps(1) .
qed

lemma source_cong:
  "mr_store m' = mr_store m \<Longrightarrow> mr_cursor m' = mr_cursor m \<Longrightarrow> mr_reader m' = mr_reader m \<Longrightarrow> pr_preloaded (mr_progress m') = pr_preloaded (mr_progress m) \<Longrightarrow>
    source m' ms = source m ms"
  by (simp only: source_def)

text \<open>The end of a day, whether the file ended or the next message is too late.\<close>

lemma day_end:
  assumes "file_ok file" and "source m ms" and "\<not> mr_have m" and "plays (mr_cfg m) (records content) n (filter (\<lambda>x. 11 \<le> length x) pre) (mr_session m)"
    and "filter (\<lambda>x. 11 \<le> length x) pre = day_messages (mr_cfg m) (records content)"
    and "pr_virtualTs (mr_progress m) = virtual_time (mr_cfg m) n (filter (\<lambda>x. 11 \<le> length x) pre)"
    and "pr_loop (mr_progress m) = of_nat n" and "\<not> pr_finished (mr_progress m)" and "rc_loops (mr_cfg m) \<noteq> 0 \<longrightarrow> n < unat (rc_loops (mr_cfg m))"
    and "MarketReplay_endOfLoop file note_calls m = m'"
  shows "mr_cfg m' = mr_cfg m \<and> (if pr_finished (mr_progress m') then played (Suc n) m' else playing (Suc n) [] (records content) m' \<and> \<not> mr_have m')"
proof -
  let ?d = "day_messages (mr_cfg m) (records content)"
  define m1 where "m1 = progress_upd (\<lambda>p. p\<lparr>pr_loop := pr_loop p + 1\<rparr>) (session_upd (so_flushMarketData note_calls \<circ> so_resetDay note_calls (pr_virtualTs (mr_progress m))) m)"
  have vt: "pr_virtualTs (mr_progress m) = last_time ?d" unfolding assms(6) assms(5) by (auto simp: virtual_time_def last_time_def)
  have f1: "mr_cfg m1 = mr_cfg m" "pr_loop (mr_progress m1) = of_nat (Suc n)" "pr_virtualTs (mr_progress m1) = last_time ?d" "\<not> pr_finished (mr_progress m1)"
    "mr_session m1 = mr_session m @ [Call_reset (last_time ?d)] @ [Call_flush]"
    using assms(7,8) vt by (simp_all add: m1_def progress_upd_def session_upd_def note_calls_def add.commute)
  have "source m1 ms = source m ms" by (rule source_cong) (simp_all add: m1_def progress_upd_def session_upd_def)
  then have s1: "source m1 ms" using assms(2) by simp
  have p1: "plays (mr_cfg m) (records content) (Suc n) [] (mr_session m1)"
    unfolding f1(5) append_assoc [symmetric] plays_simps(1) by (rule plays_day) (use assms(4,5) in simp)
  have lt: "Suc n < 2 ^ 32" if "rc_loops (mr_cfg m) \<noteq> 0" using assms(9) that unat_lt2p [of "rc_loops (mr_cfg m)"] by simp
  have loop: "unat (pr_loop (mr_progress m1)) = Suc n" if "rc_loops (mr_cfg m) \<noteq> 0"
    unfolding f1(2) unat_of_nat by (rule mod_less) (use lt [OF that] in simp)
  show ?thesis
  proof (cases "rc_loops (mr_cfg m) \<noteq> 0 \<and> pr_loop (mr_progress m1) \<ge> rc_loops (mr_cfg m)")
    case True
    then have e: "m' = progress_upd (\<lambda>p. p\<lparr>pr_finished := True\<rparr>) m1" using assms(10) f1(1) by (simp add: MarketReplay_endOfLoop_def m1_def [symmetric] Let_def)
    have "unat (rc_loops (mr_cfg m)) = Suc n" using True assms(9) loop by (simp add: word_le_nat_alt)
    then show ?thesis using e True p1 f1(1) by (simp add: played_def progress_upd_def)
  next
    case False
    obtain m2 where r: "MarketReplay_restart file m1 = (True, m2)" "source m2 (records content)" "same_run m1 m2" "\<not> mr_have m2" using restart_source [OF assms(1) s1] by blast
    have e: "m' = m2" using assms(10) f1(1) False r(1) by (simp add: MarketReplay_endOfLoop_def m1_def [symmetric] Let_def)
    have "Suc n < unat (rc_loops (mr_cfg m))" if "rc_loops (mr_cfg m) \<noteq> 0" using False that assms(9) loop by (simp add: word_le_nat_alt)
    moreover have f2: "mr_session m2 = mr_session m1" "mr_cfg m2 = mr_cfg m" "mr_progress m2 = mr_progress m1" using r(3) f1(1) by (simp_all add: same_run_def)
    ultimately show ?thesis unfolding e playing_def in_hand_def f2 using r(2,4) f1 p1 by (simp add: virtual_time_def)
  qed
qed

lemma playingD:
  assumes "playing n pre ms m"
  shows "records content = pre @ in_hand m @ ms" "\<forall>x \<in> set pre. \<not> beyond_stop (mr_cfg m) x" "source m ms"
    "plays (mr_cfg m) (records content) n (filter (\<lambda>x. 11 \<le> length x) pre) (mr_session m)"
    "pr_virtualTs (mr_progress m) = virtual_time (mr_cfg m) n (filter (\<lambda>x. 11 \<le> length x) pre)"
    "pr_loop (mr_progress m) = of_nat n" "\<not> pr_finished (mr_progress m)" "rc_loops (mr_cfg m) \<noteq> 0 \<longrightarrow> n < unat (rc_loops (mr_cfg m))"
    "day_messages (mr_cfg m) (records content) = filter (\<lambda>x. 11 \<le> length x) pre @ day_messages (mr_cfg m) (in_hand m @ ms)"
proof -
  show pl: "records content = pre @ in_hand m @ ms" "\<forall>x \<in> set pre. \<not> beyond_stop (mr_cfg m) x" "source m ms"
      "plays (mr_cfg m) (records content) n (filter (\<lambda>x. 11 \<le> length x) pre) (mr_session m)"
      "pr_virtualTs (mr_progress m) = virtual_time (mr_cfg m) n (filter (\<lambda>x. 11 \<le> length x) pre)"
      "pr_loop (mr_progress m) = of_nat n" "\<not> pr_finished (mr_progress m)" "rc_loops (mr_cfg m) \<noteq> 0 \<longrightarrow> n < unat (rc_loops (mr_cfg m))"
    using assms unfolding playing_def by blast+
  show "day_messages (mr_cfg m) (records content) = filter (\<lambda>x. 11 \<le> length x) pre @ day_messages (mr_cfg m) (in_hand m @ ms)"
    unfolding pl(1) by (rule day_split [OF pl(2)])
qed

lemma playing_end:
  assumes "file_ok file" and "playing n pre ms m" and "day_messages (mr_cfg m) (in_hand m @ ms) = []"
    and "source m1 ms1" and "\<not> mr_have m1" and "same_run m m1" and "MarketReplay_endOfLoop file note_calls m1 = m2"
  shows "mr_cfg m2 = mr_cfg m \<and> (if pr_finished (mr_progress m2) then played (Suc n) m2 else playing (Suc n) [] (records content) m2 \<and> \<not> mr_have m2)"
proof -
  note pl = playingD [OF assms(2)]
  have e: "mr_session m1 = mr_session m" "mr_cfg m1 = mr_cfg m" "mr_progress m1 = mr_progress m" using assms(6) by (simp_all add: same_run_def)
  have "filter (\<lambda>x. 11 \<le> length x) pre = day_messages (mr_cfg m) (records content)" unfolding pl(9) assms(3) by simp
  from day_end [OF assms(1,4,5), unfolded e, OF pl(4) this pl(5-8) assms(7)] show ?thesis .
qed

lemma playing_fetch:
  assumes "file_ok file" and "playing n pre ms m" and "\<not> mr_have m"
  shows "\<exists>m1. MarketReplay_fetch file m = Some (ms \<noteq> [], m1) \<and> same_run m m1 \<and> source m1 (tl ms) \<and> \<not> mr_have m1 \<and>
    (ms \<noteq> [] \<longrightarrow> mr_cur m1 = hd ms \<and> playing n pre (tl ms) (m1\<lparr>mr_have := True\<rparr>))"
proof -
  note pl = playingD [OF assms(2)]
  obtain m1 where f: "MarketReplay_fetch file m = Some (ms \<noteq> [], m1)" "source m1 (tl ms)" "ms \<noteq> [] \<longrightarrow> mr_cur m1 = hd ms" "same_run m m1" "\<not> mr_have m1"
    using fetch_source [OF assms(1) pl(3) assms(3)] by blast
  have "playing n pre (tl ms) (m1\<lparr>mr_have := True\<rparr>)" if ms: "ms \<noteq> []"
  proof -
    let ?m = "m1\<lparr>mr_have := True\<rparr>"
    have e: "mr_session ?m = mr_session m" "mr_cfg ?m = mr_cfg m" "mr_progress ?m = mr_progress m" "in_hand ?m @ tl ms = ms"
      using f(3,4) ms by (simp_all add: in_hand_def same_run_def)
    have "source ?m (tl ms) = source m1 (tl ms)" by (rule source_cong) simp_all
    moreover have "in_hand m = []" using assms(3) by (simp add: in_hand_def)
    ultimately show ?thesis unfolding playing_def e using pl f(2) by simp
  qed
  then show ?thesis using f by blast
qed

lemma playing_drop:
  assumes "playing n pre ms m" and "mr_have m" and "length (mr_cur m) < 11"
  shows "playing n (pre @ [mr_cur m]) ms (m\<lparr>mr_have := False\<rparr>)"
proof -
  let ?m = "m\<lparr>mr_have := False\<rparr>"
  have e: "mr_session ?m = mr_session m" "mr_cfg ?m = mr_cfg m" "mr_progress ?m = mr_progress m" "in_hand ?m = []" "in_hand m = [mr_cur m]"
    using assms(2) by (simp_all add: in_hand_def)
  have "source ?m ms = source m ms" by (rule source_cong) simp_all
  then show ?thesis unfolding playing_def e(1-4) using playingD [OF assms(1)] e(5) assms(3) by (simp add: beyond_stop_def)
qed

lemma playing_send:
  assumes "playing n pre ms m" and "mr_have m" and "11 \<le> length (mr_cur m)" and "\<not> beyond_stop (mr_cfg m) (mr_cur m)"
  shows "playing n (pre @ [mr_cur m]) ms (replay_send note_calls (SymbolFilter_timestampOf (mr_cur m)) m)"
proof -
  let ?x = "mr_cur m" and ?ts = "SymbolFilter_timestampOf (mr_cur m)"
  let ?m = "replay_send note_calls ?ts m"
  note pl = playingD [OF assms(1)]
  have ih: "in_hand m = [?x]" using assms(2) by (simp add: in_hand_def)
  have e: "mr_session ?m = mr_session m @ [Call_replay ?x ?ts]" "mr_cfg ?m = mr_cfg m" "pr_virtualTs (mr_progress ?m) = ?ts"
    "pr_loop (mr_progress ?m) = of_nat n" "in_hand ?m = []" "\<not> pr_finished (mr_progress ?m)"
    using pl(6,7) by (simp_all add: replay_send_def session_upd_def progress_upd_def note_calls_def in_hand_def)
  have "source ?m ms = source m ms" by (rule source_cong) (simp_all add: replay_send_def session_upd_def progress_upd_def)
  moreover have v: "virtual_time (mr_cfg m) n (filter (\<lambda>x. 11 \<le> length x) (pre @ [?x])) = ?ts" using assms(3) by (simp add: virtual_time_def last_time_def)
  moreover have "plays (mr_cfg m) (records content) n (filter (\<lambda>x. 11 \<le> length x) (pre @ [?x])) (mr_session m @ [Call_replay ?x ?ts])"
    using plays_send [OF pl(4)] assms(3) by simp
  ultimately show ?thesis unfolding playing_def e v using e(6) pl ih assms(3,4) by simp
qed

text \<open>
  How much is left to do before a call of the loop returns: when there is something to send every day, the rest of the batch, else the rest of the days.
\<close>

definition work_left :: "nat \<Rightarrow> nat \<Rightarrow> byte list list \<Rightarrow> ('g, 's) MarketReplay \<Rightarrow> nat" where
  "work_left n batch ms m =
     (let day = 4 * length (records content) + 6
      in (if day_messages (mr_cfg m) (records content) = [] then (unat (rc_loops (mr_cfg m)) - n) * day
          else (rc_maxBatch (mr_cfg m) - batch) * day + (if day_messages (mr_cfg m) (in_hand m @ ms) = [] then day div 2 else 0)) +
         2 * length ms + length (in_hand m))"

lemma work_left_end:
  assumes "playing n pre ms m" and "rc_loops (mr_cfg m) \<noteq> 0 \<or> day_messages (mr_cfg m) (records content) \<noteq> []"
    and "day_messages (mr_cfg m) (in_hand m @ ms) = []" and "mr_cfg m2 = mr_cfg m" and "\<not> mr_have m2"
  shows "work_left (Suc n) batch (records content) m2 < work_left n batch ms m"
proof (cases "day_messages (mr_cfg m) (records content) = []")
  case True
  then have "unat (rc_loops (mr_cfg m)) - n = Suc (unat (rc_loops (mr_cfg m)) - Suc n)" using assms(2) playingD(8) [OF assms(1)] by simp
  then show ?thesis using True assms(4,5) by (simp add: work_left_def in_hand_def Let_def)
next
  case False
  then show ?thesis using assms(3-5) by (simp add: work_left_def in_hand_def Let_def)
qed

lemma work_left_send:
  assumes "mr_have m" and "11 \<le> length (mr_cur m)" and "\<not> beyond_stop (mr_cfg m) (mr_cur m)" and "playing n pre ms m"
    and "mr_cfg m2 = mr_cfg m" and "\<not> mr_have m2" and "batch + 1 < rc_maxBatch (mr_cfg m)"
  shows "work_left n (batch + 1) ms m2 < work_left n batch ms m"
proof -
  have "day_messages (mr_cfg m) (in_hand m @ ms) \<noteq> []" using assms(1-3) by (simp add: day_messages_def in_hand_def)
  then have "day_messages (mr_cfg m) (records content) \<noteq> []" unfolding playingD(9) [OF assms(4)] by simp
  moreover have "rc_maxBatch (mr_cfg m) - batch = Suc (rc_maxBatch (mr_cfg m) - (batch + 1))" using assms(7) by simp
  ultimately show ?thesis using assms(5,6) \<open>day_messages (mr_cfg m) (in_hand m @ ms) \<noteq> []\<close> by (simp add: work_left_def in_hand_def Let_def)
qed

text \<open>What one round of the loop does: it has fetched or dropped a message, or ended the day, or waited, or sent the message.\<close>

lemma pump_turn:
  assumes "file_ok file" and "playing n pre ms m"
  obtains (more) pre' ms' m1 where "pump_round file note_calls clk k now batch m = Some (Inr (k, now, batch, m1))" "playing n pre' ms' m1"
      "mr_cfg m1 = mr_cfg m" "work_left n batch ms' m1 < work_left n batch ms m"
  | (ends) m2 where "pump_round file note_calls clk k now batch m = Some (if pr_finished (mr_progress m2) then Inl (False, m2) else Inr (k, now, batch, m2))"
      "mr_cfg m2 = mr_cfg m" "if pr_finished (mr_progress m2) then played (Suc n) m2 else playing (Suc n) [] (records content) m2 \<and> \<not> mr_have m2"
      "day_messages (mr_cfg m) (in_hand m @ ms) = []"
  | (stops) pre' m' where "pump_round file note_calls clk k now batch m = Some (Inl (True, m'))" "playing n pre' ms m'" "mr_cfg m' = mr_cfg m"
      "day_messages (mr_cfg m) (records content) \<noteq> []"
  | (sends) k2 now2 pre' m3 where "pump_round file note_calls clk k now batch m = Some (Inr (k2, now2, batch + 1, m3))" "playing n pre' ms m3"
      "mr_cfg m3 = mr_cfg m" "work_left n (batch + 1) ms m3 < work_left n batch ms m" "day_messages (mr_cfg m) (records content) \<noteq> []"
proof (cases "mr_have m")
  case False
  obtain m1 where f: "MarketReplay_fetch file m = Some (ms \<noteq> [], m1)" "same_run m m1" "source m1 (tl ms)" "\<not> mr_have m1"
    "ms \<noteq> [] \<longrightarrow> mr_cur m1 = hd ms \<and> playing n pre (tl ms) (m1\<lparr>mr_have := True\<rparr>)" using playing_fetch [OF assms False] by blast
  show thesis
  proof (cases "ms = []")
    case True
    define m2 where "m2 = MarketReplay_endOfLoop file note_calls m1"
    have d: "day_messages (mr_cfg m) (in_hand m @ ms) = []" using True False by (simp add: in_hand_def day_messages_def)
    have "pump_round file note_calls clk k now batch m = Some (if pr_finished (mr_progress m2) then Inl (False, m2) else Inr (k, now, batch, m2))"
      using False f(1) True by (simp add: pump_round_def m2_def)
    then show thesis using ends playing_end [OF assms d f(3,4,2) m2_def [symmetric]] d by blast
  next
    case ms: False
    let ?m1 = "m1\<lparr>mr_have := True\<rparr>"
    have "pump_round file note_calls clk k now batch m = Some (Inr (k, now, batch, ?m1))" using False f(1) ms by (simp add: pump_round_def)
    moreover have c: "mr_cfg ?m1 = mr_cfg m" using f(2) by (simp add: same_run_def)
    moreover have h: "in_hand ?m1 @ tl ms = in_hand m @ ms" "in_hand ?m1 = [hd ms]" "in_hand m = []" using f(5) ms False by (simp_all add: in_hand_def)
    have "work_left n batch (tl ms) ?m1 < work_left n batch ms m" using ms unfolding work_left_def c h by (cases ms) (simp_all add: Let_def)
    ultimately show thesis using more f(5) ms by blast
  qed
next
  case True
  let ?x = "mr_cur m" and ?ts = "SymbolFilter_timestampOf (mr_cur m)"
  let ?m0 = "m\<lparr>mr_have := False\<rparr>"
  have m0: "source ?m0 ms" "same_run m ?m0" "\<not> mr_have ?m0" "mr_cfg ?m0 = mr_cfg m" "in_hand ?m0 = []" "in_hand m = [?x]"
    using source_cong [of ?m0 m ms] playingD(3) [OF assms(2)] True by (simp_all add: same_run_def in_hand_def)
  consider (short) "length ?x < 11" | (late) "beyond_stop (mr_cfg m) ?x" | (send) "11 \<le> length ?x" "\<not> beyond_stop (mr_cfg m) ?x" by fastforce
  then show thesis
  proof cases
    case short
    have "pump_round file note_calls clk k now batch m = Some (Inr (k, now, batch, ?m0))" using True short by (simp add: pump_round_def)
    moreover have "day_messages (mr_cfg m) (?x # ms) = day_messages (mr_cfg m) ms" using short by (simp add: day_messages_def beyond_stop_def)
    then have "work_left n batch ms ?m0 < work_left n batch ms m" using m0(4-6) by (simp add: work_left_def Let_def)
    ultimately show thesis using more playing_drop [OF assms(2) True short] m0(4) by blast
  next
    case late
    define m2 where "m2 = MarketReplay_endOfLoop file note_calls ?m0"
    have d: "day_messages (mr_cfg m) (in_hand m @ ms) = []" using late m0(6) by (simp add: day_messages_def)
    have "pump_round file note_calls clk k now batch m = Some (if pr_finished (mr_progress m2) then Inl (False, m2) else Inr (k, now, batch, m2))"
      using True late by (simp add: pump_round_def m2_def beyond_stop_def)
    then show thesis using ends playing_end [OF assms d m0(1,3,2) m2_def [symmetric]] d by blast
  next
    case send
    obtain w1 now1 k1 m1 where t: "replay_throttle clk k now batch (replay_anchor now ?ts m) = (w1, now1, k1, m1)" by (metis prod_cases4)
    obtain w2 now2 k2 m2 where p: "replay_pace clk k1 now1 ?ts m1 = (w2, now2, k2, m2)" by (metis prod_cases4)
    let ?m3 = "replay_send note_calls ?ts m2"
    have c1: "same_core m m1" by (rule core_trans [OF core_anchor core_throttle [OF t]])
    have c2: "same_core m m2" by (rule core_trans [OF c1 core_pace [OF p]])
    have c: "mr_cfg m1 = mr_cfg m" "mr_cfg m2 = mr_cfg m" "mr_cur m2 = ?x" "mr_have m2" "mr_cfg ?m3 = mr_cfg m" "\<not> mr_have ?m3"
      using c1 c2 True by (simp_all add: same_core_def replay_send_def session_upd_def progress_upd_def)
    have p3: "playing n (pre @ [?x]) ms ?m3" using playing_send [OF playing_core [OF assms(2) c2]] c send by simp
    have nonempty: "day_messages (mr_cfg m) (records content) \<noteq> []" using playingD(9) [OF assms(2)] m0(6) send by (simp add: day_messages_def)
    have h: "\<not> length ?x < 11" "(rc_stopAtNs (mr_cfg m) \<noteq> 0 \<and> rc_stopAtNs (mr_cfg m) < ?ts) = False" using send by (auto simp: beyond_stop_def)
    have "pump_round file note_calls clk k now batch m = Some (if w1 then Inl (True, session_upd (so_flushMarketData note_calls) m1)
        else if w2 then Inl (True, session_upd (so_flushMarketData note_calls) m2)
        else if batch + 1 \<ge> rc_maxBatch (mr_cfg ?m3) then Inl (True, session_upd (so_flushMarketData note_calls) ?m3)
        else Inr (k2, now2, batch + 1, ?m3))"
      by (simp only: pump_round_def True h t p prod.case Let_def if_False if_True not_True_eq_False)
    moreover have f: "mr_cfg (session_upd (so_flushMarketData note_calls) a) = mr_cfg a" for a :: "('g, ReplayCall list) MarketReplay" by (simp add: session_upd_def)
    ultimately show thesis
      using stops [OF _ playing_flush [OF playing_core [OF assms(2) c1]] _ nonempty] stops [OF _ playing_flush [OF playing_core [OF assms(2) c2]] _ nonempty]
        stops [OF _ playing_flush [OF p3] _ nonempty] sends [OF _ p3 c(5) work_left_send [OF True send assms(2) c(5,6)] nonempty] c(1,2,5)
      by (simp add: f not_le split: if_splits)
  qed
qed

lemma pump_loop_returns:
  assumes "file_ok file" and "playing n pre ms m" and "rc_loops (mr_cfg m) \<noteq> 0 \<or> day_messages (mr_cfg m) (records content) \<noteq> []"
  shows "\<exists>b m' n' pre' ms'. pump_loop file note_calls clk k now batch m = Some (b, m') \<and> mr_cfg m' = mr_cfg m \<and> (played n' m' \<or> playing n' pre' ms' m')"
  using assms(2,3)
proof (induction "work_left n batch ms m" arbitrary: n pre ms m k now batch rule: less_induct)
  case less
  from assms(1) less.prems(1) show ?case
  proof (cases rule: pump_turn [where clk = clk and k = k and now = now and batch = batch])
    case (more pre' ms' m1)
    then show ?thesis using less.hyps [OF more(4,2)] less.prems(2) by (subst pump_loop.simps) simp
  next
    case (ends m2)
    show ?thesis
    proof (cases "pr_finished (mr_progress m2)")
      case True
      then show ?thesis using ends(1-3) by (subst pump_loop.simps) auto
    next
      case False
      then have p: "playing (Suc n) [] (records content) m2" "\<not> mr_have m2" using ends(3) by simp_all
      show ?thesis using less.hyps [OF work_left_end [OF less.prems ends(4,2) p(2)] p(1)] False ends(1,2) less.prems(2) by (subst pump_loop.simps) simp
    qed
  next
    case (stops pre' m')
    then show ?thesis by (subst pump_loop.simps) auto
  next
    case (sends k2 now2 pre' m3)
    then show ?thesis using less.hyps [OF sends(4,2)] less.prems(2) by (subst pump_loop.simps) simp
  qed
qed

text \<open>With nothing to send and no last day, no round returns.\<close>

lemma pump_loop_stuck:
  assumes "pump_loop file note_calls clk k now batch m = Some y" and "file_ok file" and "playing n pre ms m" and "rc_loops (mr_cfg m) = 0"
    and "day_messages (mr_cfg m) (records content) = []"
  shows False
proof -
  have "s = note_calls \<longrightarrow> file_ok f \<longrightarrow> (\<forall>n pre ms. playing n pre ms m \<longrightarrow> rc_loops (mr_cfg m) = 0 \<longrightarrow> day_messages (mr_cfg m) (records content) = [] \<longrightarrow> False)"
    if "pump_loop f s clk k now batch m = Some y" for f s k now batch and m :: "('g, ReplayCall list) MarketReplay"
  proof (rule pump_loop.raw_induct [of "\<lambda>f s clk k now batch m y. s = note_calls \<longrightarrow> file_ok f \<longrightarrow> (\<forall>n pre ms. playing n pre ms m \<longrightarrow> rc_loops (mr_cfg m) = 0 \<longrightarrow>
      day_messages (mr_cfg m) (records content) = [] \<longrightarrow> False)", OF _ that], intro impI allI, goal_cases)
    case (1 loop f s clk k now batch m y n pre ms)
    from 1(4,5) show ?case
    proof (cases rule: pump_turn [where clk = clk and k = k and now = now and batch = batch])
      case (more pre' ms' m1)
      then show ?thesis using 1(1) [of f s clk k now batch m1 y] 1(2-) by simp
    next
      case (ends m2)
      then have "\<not> pr_finished (mr_progress m2)" using 1(6) by (auto simp: played_def split: if_splits)
      then show ?thesis using ends 1(1) [of f s clk k now batch m2 y] 1(2-) by auto
    next
      case (stops pre' m')
      then show ?thesis using 1(7) by simp
    next
      case (sends k2 now2 pre' m3)
      then show ?thesis using 1(7) by simp
    qed
  qed
  then show False using assms by blast
qed

lemma count_gives: "still_gives r ms \<Longrightarrow> count_messages gz r k = Some (k + of_nat (length ms))"
proof (induction ms arbitrary: r k)
  case Nil
  then show ?case using gives_next by (subst count_messages.simps) fastforce
next
  case (Cons x xs)
  then obtain r' where "ItchFileReader_next gz r = Some (Some x, r')" "still_gives r' xs" using gives_next by fastforce
  then show ?case using Cons.IH [of r' "k + 1"] by (subst count_messages.simps) (simp add: add.assoc)
qed

lemma preload_gives:
  "still_gives r ms \<Longrightarrow> preload_messages gz cap r store k = Some None \<or>
     preload_messages gz cap r store k = Some (Some (store @ concat (map record_bytes ms), k + of_nat (length ms)))"
proof (induction ms arbitrary: r k store)
  case Nil
  then show ?case using gives_next by (subst (2) preload_messages.simps) fastforce
next
  case (Cons x xs)
  then obtain r' where n: "ItchFileReader_next gz r = Some (Some x, r')" "still_gives r' xs" using gives_next by fastforce
  have "preload_messages gz cap r store k = (if length store + length x + 2 > cap then Some None
      else preload_messages gz cap r' (store @ record_bytes x) (k + 1))"
    using n(1) by (subst preload_messages.simps) (simp add: record_bytes_def)
  then show ?case using Cons.IH [OF n(2), of "store @ record_bytes x" "k + 1"] by (simp add: add.assoc)
qed

lemma open_source:
  assumes "file_ok file" and "rc_loops cfg \<noteq> 0 \<longrightarrow> 0 < unat (rc_loops cfg)"
  shows "\<exists>ok m w. MarketReplay_open file (MarketReplay_new [] cfg) = Some (ok, m, w) \<and> mr_cfg m = cfg \<and> playing 0 [] (records content) m"
proof -
  let ?m = "MarketReplay_new [] cfg :: ('g, ReplayCall list) MarketReplay"
  have f: "rf_gz file = gz" "still_gives (rf_reader file) (records content)" using assms(1) by (simp_all add: file_ok_def)
  have start: "playing 0 [] (records content) m" if "source m (records content)" "mr_cfg m = cfg" "mr_session m = []" "\<not> mr_have m"
      "pr_virtualTs (mr_progress m) = 0" "pr_loop (mr_progress m) = 0" "\<not> pr_finished (mr_progress m)" for m :: "('g, ReplayCall list) MarketReplay"
    using that assms(2) by (simp add: playing_def in_hand_def virtual_time_def)
  have n: "mr_cfg ?m = cfg" "mr_session ?m = []" "\<not> mr_have ?m" "pr_virtualTs (mr_progress ?m) = 0" "pr_loop (mr_progress ?m) = 0" "\<not> pr_finished (mr_progress ?m)"
      "\<not> pr_preloaded (mr_progress ?m)" "mr_store ?m = []" "mr_fileMessages ?m = 0" "mr_reader ?m = None" "mr_cursor ?m = 0"
    by (simp_all add: MarketReplay_new_def ReplayProgress_new_def)
  have ok: "ItchFileReader_ok (rf_reader file)" using f(2) by (rule gives_ok)
  show ?thesis
  proof (cases "ItchFileReader_mapped (rf_reader file)")
    case True
    define opened where "opened = (\<lambda>k. progress_upd (\<lambda>p. p\<lparr>pr_mapped := True\<rparr>) (?m\<lparr>mr_fileMessages := k, mr_reader := Some (rf_reader file)\<rparr>))"
    have "\<exists>ok k w. MarketReplay_open file ?m = Some (ok, opened k, w)"
      using ok True f(1) count_gives [OF f(2), of 0] by (auto simp: MarketReplay_open_def Let_def opened_def split: option.split)
    moreover have "playing 0 [] (records content) (opened k)" for k
      by (rule start) (use n f(2) in \<open>simp_all add: opened_def progress_upd_def source_def\<close>)
    moreover have "mr_cfg (opened k) = cfg" for k using n by (simp add: opened_def progress_upd_def)
    ultimately show ?thesis by blast
  next
    case False
    let ?pre = "preload_messages gz (rc_preloadMaxMb cfg * 2 ^ 20) (rf_reader file) [] 0"
    consider (full) "?pre = Some None" | (all) "?pre = Some (Some (concat (map record_bytes (records content)), of_nat (length (records content))))"
      using preload_gives [OF f(2), of "rc_preloadMaxMb cfg * 2 ^ 20" "[]" 0] by auto
    then show ?thesis
    proof cases
      case full
      let ?m1 = "?m\<lparr>mr_store := [], mr_fileMessages := 0\<rparr>"
      have "source ?m1 (records content)" using n by (simp add: source_def)
      then obtain m' where r: "MarketReplay_restart file ?m1 = (True, m')" "source m' (records content)" "same_run ?m1 m'" "\<not> mr_have m'" using restart_source [OF assms(1)] by blast
      have "MarketReplay_open file ?m = Some (True, m', None)"
        unfolding MarketReplay_open_def Let_def using ok False f(1) full n r(1) by simp
      moreover have "playing 0 [] (records content) m'" by (rule start) (use r n in \<open>simp_all add: same_run_def\<close>)
      moreover have "mr_cfg m' = cfg" using r(3) n by (simp add: same_run_def)
      ultimately show ?thesis by blast
    next
      case all
      define m' where "m' = progress_upd (\<lambda>p. p\<lparr>pr_preloaded := True\<rparr>)
        (?m\<lparr>mr_store := concat (map record_bytes (records content)), mr_fileMessages := of_nat (length (records content))\<rparr>)"
      have "\<exists>ok. MarketReplay_open file ?m = Some (ok, m', None)"
        unfolding MarketReplay_open_def Let_def using ok False f(1) all n by (simp add: m'_def)
      moreover have "playing 0 [] (records content) m'" by (rule start) (use n in \<open>simp_all add: m'_def progress_upd_def source_def\<close>)
      moreover have "mr_cfg m' = cfg" using n by (simp add: m'_def progress_upd_def)
      ultimately show ?thesis by blast
    qed
  qed
qed

lemma pump_returns:
  assumes "file_ok file" and "played n m \<or> playing n pre ms m" and "rc_loops (mr_cfg m) \<noteq> 0 \<or> day_messages (mr_cfg m) (records content) \<noteq> []"
  shows "\<exists>b m' n' pre' ms'. MarketReplay_pump file note_calls clk now m = Some (b, m') \<and> mr_cfg m' = mr_cfg m \<and> (played n' m' \<or> playing n' pre' ms' m')"
proof (cases "pr_finished (mr_progress m)")
  case True
  then have "played n m" using assms(2) by (simp add: playing_def)
  then show ?thesis using True by (auto simp: MarketReplay_pump_def)
next
  case False
  then have "playing n pre ms m" using assms(2) by (simp add: played_def)
  from pump_loop_returns [OF assms(1) this assms(3)] show ?thesis using False by (simp add: MarketReplay_pump_def)
qed

end

section \<open>Properties\<close>

text \<open>The calls of \<^verbatim>\<open>pump\<close> that the thread makes, each with the time it is given and the readings of the clock inside it.\<close>

primrec pumps :: "'g ReplayFile \<Rightarrow> 's SessionOps \<Rightarrow> ((nat \<Rightarrow> u64) \<times> u64) list \<Rightarrow> ('g, 's) MarketReplay \<Rightarrow> ('g, 's) MarketReplay option" where
  "pumps file so [] m = Some m"
| "pumps file so (c # cs) m =
     (case MarketReplay_pump file so (fst c) (snd c) m of None \<Rightarrow> None | Some (_, m') \<Rightarrow> pumps file so cs m')"

lemma recorded_file_ok:
  assumes "gz_stream (rf_gz file) rest content" and "recorded rest content (rf_reader file)"
  shows "gz_stream.file_ok (rf_gz file) rest content file"
  using recorded_gives [OF assms] by (simp add: gz_stream.file_ok_def [OF assms(1)])

lemma pumps_play:
  assumes "gz_stream (rf_gz file) rest content" and "gz_stream.file_ok (rf_gz file) rest content file"
    and "\<exists>n pre ms. gz_stream.played content n m \<or> gz_stream.playing rest content n pre ms m"
    and "rc_loops (mr_cfg m) \<noteq> 0 \<or> day_messages (mr_cfg m) (records content) \<noteq> []"
  shows "\<exists>m' n pre ms. pumps file note_calls cs m = Some m' \<and> mr_cfg m' = mr_cfg m \<and> (gz_stream.played content n m' \<or> gz_stream.playing rest content n pre ms m')"
  using assms(3,4)
proof (induction cs arbitrary: m)
  case Nil
  then show ?case by auto
next
  case (Cons c cs)
  then obtain n pre ms where "gz_stream.played content n m \<or> gz_stream.playing rest content n pre ms m" by blast
  from gz_stream.pump_returns [OF assms(1,2) this Cons.prems(2), of "fst c" "snd c"] obtain b m' n' pre' ms' where
    m': "MarketReplay_pump file note_calls (fst c) (snd c) m = Some (b, m')" "mr_cfg m' = mr_cfg m" "gz_stream.played content n' m' \<or> gz_stream.playing rest content n' pre' ms' m'"
    by blast
  show ?case using Cons.IH [of m'] Cons.prems(2) m' by auto
qed

lemma playing_prefix:
  assumes "gz_stream gz rest content" and "gz_stream.playing rest content n pre ms m"
  shows "\<exists>part. plays (mr_cfg m) (records content) n part (mr_session m) \<and> prefix part (day_messages (mr_cfg m) (records content)) \<and> \<not> pr_finished (mr_progress m) \<and>
    (rc_loops (mr_cfg m) \<noteq> 0 \<longrightarrow> n < unat (rc_loops (mr_cfg m)))"
  using gz_stream.playingD(4,7-9) [OF assms] by (metis prefixI)

text \<open>A file of one message of 11 bytes, played twice without pace.\<close>

definition replay_example_cfg :: "u32 \<Rightarrow> ReplayConfig" where
  "replay_example_cfg loops = \<lparr>rc_paced = False, rc_delay = (\<lambda>d. d), rc_loops = loops, rc_skipToNs = 0, rc_stopAtNs = 0, rc_preloadMaxMb = 1, rc_maxBatch = 4,
     rc_afapMaxPerSec = 0\<rparr>"

definition replay_example_file :: "byte list \<Rightarrow> byte list ReplayFile" where
  "replay_example_file content = \<lparr>rf_gz = list_gz content 0, rf_reader = ItchFileReader_new (Some content) (Some content) None 0, rf_size = 0, rf_count = None\<rparr>"

lemma replay_example_stream: "gz_stream (rf_gz (replay_example_file content)) (\<lambda>bs. bs) content"
  using list_stream.gz_stream_axioms by (simp add: replay_example_file_def)

lemma replay_example_recorded: "\<not> ItchFileReader_isGzip (Some content) \<Longrightarrow> recorded rest content (rf_reader (replay_example_file content))"
  by (auto simp: recorded_def replay_example_file_def)



text \<open>
  C37. The same replay never comes back when it repeats for ever (0 loops) over a file of which no message has a header and is in time: the first call of \<^verbatim>\<open>pump\<close>
  runs for ever, whatever the clock says.
\<close>

theorem MarketReplay_empty_day_hangs:
  assumes "gz_stream (rf_gz file) rest content" and "recorded rest content (rf_reader file)"
    and "rc_loops cfg = 0" and "day_messages cfg (records content) = []"
  shows "\<exists>ok m w. MarketReplay_open file (MarketReplay_new [] cfg) = Some (ok, m, w) \<and> MarketReplay_pump file note_calls clk now m = None"
proof -
  note ok = recorded_file_ok [OF assms(1,2)]
  obtain ok m w where o: "MarketReplay_open file (MarketReplay_new [] cfg) = Some (ok, m, w)" "mr_cfg m = cfg" "gz_stream.playing rest content 0 [] (records content) m"
    using gz_stream.open_source [OF assms(1) ok] assms(3) by blast
  have "pump_loop file note_calls clk 0 now 0 m = None"
    using gz_stream.pump_loop_stuck [OF assms(1) _ recorded_file_ok [OF assms(1,2)] o(3)] assms(3,4) o(2) by (cases "pump_loop file note_calls clk 0 now 0 m") auto
  then show ?thesis using o(1) gz_stream.playingD(7) [OF assms(1) o(3)] by (simp add: MarketReplay_pump_def)
qed

theorem MarketReplay_empty_day_hangs_witness:
  "\<exists>ok m w. MarketReplay_open (replay_example_file [0, 2, 65, 0]) (MarketReplay_new [] (replay_example_cfg 0)) = Some (ok, m, w) \<and>
     MarketReplay_pump (replay_example_file [0, 2, 65, 0]) note_calls (\<lambda>_. 0) 0 m = None"
proof -
  let ?c = "[0, 2, 65, 0] :: byte list"
  have g: "\<not> ItchFileReader_isGzip (Some ?c)" by (simp add: ItchFileReader_isGzip_def)
  have r: "records ?c = [[65, 0]]" by code_simp
  have "rc_loops (replay_example_cfg 0) = 0" "day_messages (replay_example_cfg 0) (records ?c) = []"
    unfolding r by (simp_all add: replay_example_cfg_def day_messages_def)
  then show ?thesis using MarketReplay_empty_day_hangs [OF replay_example_stream replay_example_recorded [OF g]] by blast
qed

end
