(* ===== verification/FeedValidator.thy ===== *)
theory FeedValidator
  imports SymbolFilter BookTable
begin

text \<open>
  The check of a recorded feed against the books it builds, \<^verbatim>\<open>replay/FeedValidator.hpp\<close> and \<^verbatim>\<open>replay/FeedValidator.cpp\<close>. The vectors indexed by a
  16-bit locate code are functions. The trace of anchors is printed, so only the counts that trigger it are kept.
\<close>

section \<open>Data\<close>

record SymbolStats =
  ss_name :: "byte list"
  ss_messages :: u64
  ss_unknownRef :: u64
  ss_overReduce :: u64
  ss_crossed :: u64
  ss_locked :: u64
  ss_resumeXing :: u64
  ss_maxLive :: u64
  ss_lastTrade :: Price

definition SymbolStats_new :: SymbolStats where
  "SymbolStats_new = \<lparr>ss_name = [], ss_messages = 0, ss_unknownRef = 0, ss_overReduce = 0, ss_crossed = 0, ss_locked = 0, ss_resumeXing = 0, ss_maxLive = 0,
     ss_lastTrade = 0\<rparr>"

record FeedTotals =
  ft_messages :: u64
  ft_unknownRef :: u64
  ft_overReduce :: u64
  ft_crossed :: u64
  ft_locked :: u64
  ft_resumeXing :: u64
  ft_outOfBand :: u64
  ft_reanchors :: u64
  ft_maxLive :: u64
  ft_symbols :: nat
  ft_subDollar :: nat

record FeedValidator =
  fv_books :: BookTable
  fv_sym :: "u16 \<Rightarrow> SymbolStats"
  fv_trading :: "u16 \<Rightarrow> bool"
  fv_resumedAt :: "u16 \<Rightarrow> u64"
  fv_marketHours :: bool
  fv_afterClose :: bool
  fv_traceLocate :: u16
  fv_traceName :: "byte list"
  fv_traceCount :: "u16 \<Rightarrow> u32"
  fv_traceAll :: bool
  fv_messages :: u64
  fv_maxLive :: u64

definition kResumeGraceNs :: u64 where
  "kResumeGraceNs = 10000000"

definition FeedValidator_new :: "BookTableConfig \<Rightarrow> FeedValidator" where
  "FeedValidator_new cfg =
     \<lparr>fv_books = BookTable_new cfg, fv_sym = (\<lambda>_. SymbolStats_new), fv_trading = (\<lambda>_. True), fv_resumedAt = (\<lambda>_. 0), fv_marketHours = False,
      fv_afterClose = False, fv_traceLocate = 0xffff, fv_traceName = [], fv_traceCount = (\<lambda>_. 0), fv_traceAll = False, fv_messages = 0, fv_maxLive = 0\<rparr>"

definition sym_upd :: "u16 \<Rightarrow> (SymbolStats \<Rightarrow> SymbolStats) \<Rightarrow> FeedValidator \<Rightarrow> FeedValidator" where
  "sym_upd l f v = v\<lparr>fv_sym := (fv_sym v)(l := f (fv_sym v l))\<rparr>"

definition FeedValidator_traceReanchors :: "byte list \<Rightarrow> FeedValidator \<Rightarrow> FeedValidator" where
  "FeedValidator_traceReanchors symbol v = v\<lparr>fv_traceAll := (symbol = [0x2a]), fv_traceName := symbol\<rparr>"

section \<open>Messages\<close>

definition checkReference :: "u16 \<Rightarrow> OrderId \<Rightarrow> Quantity \<Rightarrow> FeedValidator \<Rightarrow> FeedValidator" where
  "checkReference locate ref reduceBy v =
     (let resting = (case BookTable_book locate (fv_books v) of None \<Rightarrow> 0 | Some b \<Rightarrow> BookBuilder_restingShares ref b)
      in if resting = 0 then sym_upd locate (\<lambda>s. s\<lparr>ss_unknownRef := ss_unknownRef s + 1\<rparr>) v
         else if reduceBy > resting then sym_upd locate (\<lambda>s. s\<lparr>ss_overReduce := ss_overReduce s + 1\<rparr>) v
         else v)"

definition validate_event :: "byte list \<Rightarrow> FeedValidator \<Rightarrow> FeedValidator" where
  "validate_event msg v =
     (if length msg < sizeof_SystemEvent then v
      else
        let code = se_eventCode (dec_SystemEvent msg)
        in if code = SystemEventCode_code Ev_StartOfMessages then v\<lparr>fv_books := BookTable_clearAll (fv_books v), fv_afterClose := False\<rparr>
           else if code = SystemEventCode_code Ev_StartOfMarketHours then v\<lparr>fv_marketHours := True\<rparr>
           else if code = SystemEventCode_code Ev_EndOfMarketHours then v\<lparr>fv_marketHours := False, fv_afterClose := True\<rparr>
           else v)"

definition note_trade :: "u16 \<Rightarrow> Price \<Rightarrow> FeedValidator \<Rightarrow> FeedValidator" where
  "note_trade locate px v = sym_upd locate (\<lambda>s. s\<lparr>ss_lastTrade := px\<rparr>) v"

text \<open>The switch over the message types.\<close>

definition validate_switch :: "byte list \<Rightarrow> u16 \<Rightarrow> FeedValidator \<Rightarrow> FeedValidator" where
  "validate_switch msg locate v =
     (let ty = msg ! 0; n = length msg in
      if ty = 0x52 then
        if n \<ge> sizeof_StockDirectory then
          let name = alpha_view (sd_stock (dec_StockDirectory msg));
              v1 = sym_upd locate (\<lambda>s. s\<lparr>ss_name := name\<rparr>) v
          in if fv_traceName v1 \<noteq> [] \<and> name = fv_traceName v1 then v1\<lparr>fv_traceLocate := locate\<rparr> else v1
        else v
      else if ty = 0x48 then
        if n \<ge> sizeof_StockTradingAction then
          let trading = (sta_tradingState (dec_StockTradingAction msg) = TradingState_code Ts_Trading);
              v1 = (if trading \<and> \<not> fv_trading v locate then v\<lparr>fv_resumedAt := (fv_resumedAt v)(locate := SymbolFilter_timestampOf msg)\<rparr> else v)
          in v1\<lparr>fv_trading := (fv_trading v1)(locate := trading)\<rparr>
        else v
      else if ty = 0x45 then
        if n \<ge> sizeof_OrderExecuted then
          let e = dec_OrderExecuted msg;
              v1 = checkReference locate (oe_orderRef e) (oe_executedShares e) v
          in case BookTable_book locate (fv_books v1) of
               None \<Rightarrow> v1
             | Some b \<Rightarrow>
                 let px = BookBuilder_restingPrice (oe_orderRef e) b
                 in if px \<noteq> kNoPrice \<and> \<not> fv_afterClose v1 then note_trade locate px v1 else v1
        else v
      else if ty = 0x43 then
        if n \<ge> sizeof_OrderExecutedWithPrice then
          let c = dec_OrderExecutedWithPrice msg;
              v1 = checkReference locate (op_orderRef c) (op_executedShares c) v
          in if op_executionPrice c > 0 \<and> \<not> fv_afterClose v1 then note_trade locate (wire_price (op_executionPrice c)) v1 else v1
        else v
      else if ty = 0x50 then
        if n \<ge> sizeof_TradeNonCross \<and> tn_price (dec_TradeNonCross msg) > 0 \<and> \<not> fv_afterClose v then
          note_trade locate (wire_price (tn_price (dec_TradeNonCross msg))) v
        else v
      else if ty = 0x51 then
        if n \<ge> sizeof_CrossTrade \<and> ct_shares (dec_CrossTrade msg) > 0 \<and> ct_crossPrice (dec_CrossTrade msg) > 0 \<and> \<not> fv_afterClose v then
          note_trade locate (wire_price (ct_crossPrice (dec_CrossTrade msg))) v
        else v
      else if ty = 0x58 then
        if n \<ge> sizeof_OrderCancel then checkReference locate (oc_orderRef (dec_OrderCancel msg)) (oc_cancelledShares (dec_OrderCancel msg)) v else v
      else if ty = 0x44 then
        if n \<ge> sizeof_OrderDelete then checkReference locate (od_orderRef (dec_OrderDelete msg)) 0 v else v
      else if ty = 0x55 then
        if n \<ge> sizeof_OrderReplace then checkReference locate (orp_origOrderRef (dec_OrderReplace msg)) 0 v else v
      else v)"

definition validate_trace :: "u16 \<Rightarrow> FeedValidator \<Rightarrow> FeedValidator" where
  "validate_trace locate v =
     (if fv_traceAll v \<or> locate = fv_traceLocate v then
        case BookTable_book locate (fv_books v) of
          None \<Rightarrow> v
        | Some b \<Rightarrow> if bb_reanchors b \<noteq> fv_traceCount v locate then v\<lparr>fv_traceCount := (fv_traceCount v)(locate := bb_reanchors b)\<rparr> else v
      else v)"

text \<open>The look at the top of the book after a message that can change it.\<close>

definition validate_top :: "byte list \<Rightarrow> u16 \<Rightarrow> FeedValidator \<Rightarrow> FeedValidator" where
  "validate_top msg locate v =
     (let ty = msg ! 0 in
      if ty \<in> {0x41, 0x46, 0x55, 0x44, 0x45, 0x43, 0x58} then
        case BookTable_book locate (fv_books v) of
          None \<Rightarrow> v
        | Some b \<Rightarrow>
            let bb = bb_bestBid b; ba = bb_bestAsk b;
                v1 = (if ty \<in> {0x41, 0x46, 0x55} \<and> fv_marketHours v \<and> fv_trading v locate \<and> bb \<noteq> kNoPrice \<and> ba \<noteq> kNoPrice \<and> bb \<ge> ba then
                        sym_upd locate
                          (\<lambda>s. if fv_resumedAt v locate \<noteq> 0 \<and> SymbolFilter_timestampOf msg < fv_resumedAt v locate + kResumeGraceNs
                               then s\<lparr>ss_resumeXing := ss_resumeXing s + 1\<rparr>
                               else if bb > ba then s\<lparr>ss_crossed := ss_crossed s + 1\<rparr> else s\<lparr>ss_locked := ss_locked s + 1\<rparr>) v
                      else v)
            in sym_upd locate (\<lambda>s. s\<lparr>ss_maxLive := max (of_nat (BookBuilder_liveOrders b)) (ss_maxLive s)\<rparr>) v1
      else v)"

definition validate_live :: "FeedValidator \<Rightarrow> FeedValidator" where
  "validate_live v = (if fv_messages v AND 0xffff = 0 then v\<lparr>fv_maxLive := max (bt_live (fv_books v)) (fv_maxLive v)\<rparr> else v)"

definition FeedValidator_onMessage :: "byte list \<Rightarrow> FeedValidator \<Rightarrow> FeedValidator" where
  "FeedValidator_onMessage msg v =
     (if length msg < 11 then v
      else if msg ! 0 = 0x53 then validate_event msg v
      else
        let locate = BookTable_locateOf msg;
            v1 = sym_upd locate (\<lambda>s. s\<lparr>ss_messages := ss_messages s + 1\<rparr>) (v\<lparr>fv_messages := fv_messages v + 1\<rparr>);
            v2 = validate_switch msg locate v1;
            v3 = v2\<lparr>fv_books := snd (BookTable_apply msg (fv_books v2))\<rparr>
        in validate_live (validate_top msg locate (validate_trace locate v3)))"

section \<open>Results\<close>

definition kLocates :: nat where
  "kLocates = 2 ^ 16"

definition add_symbol :: "SymbolStats \<Rightarrow> FeedTotals \<Rightarrow> FeedTotals" where
  "add_symbol s t =
     (if ss_messages s = 0 then t
      else t\<lparr>ft_symbols := ft_symbols t + 1, ft_unknownRef := ft_unknownRef t + ss_unknownRef s, ft_overReduce := ft_overReduce t + ss_overReduce s,
             ft_crossed := ft_crossed t + ss_crossed s, ft_locked := ft_locked t + ss_locked s, ft_resumeXing := ft_resumeXing t + ss_resumeXing s\<rparr>)"

definition add_book :: "BookBuilder \<Rightarrow> FeedTotals \<Rightarrow> FeedTotals" where
  "add_book b t =
     t\<lparr>ft_outOfBand := ft_outOfBand t + bb_oob b, ft_reanchors := ft_reanchors t + ucast (bb_reanchors b),
       ft_subDollar := (if bb_anchored b \<and> bb_tickWire b = 1 then ft_subDollar t + 1 else ft_subDollar t)\<rparr>"

definition FeedValidator_totals :: "FeedValidator \<Rightarrow> FeedTotals" where
  "FeedValidator_totals v =
     (let t = \<lparr>ft_messages = fv_messages v, ft_unknownRef = 0, ft_overReduce = 0, ft_crossed = 0, ft_locked = 0, ft_resumeXing = 0, ft_outOfBand = 0,
               ft_reanchors = 0, ft_maxLive = fv_maxLive v, ft_symbols = 0, ft_subDollar = 0\<rparr>;
          t1 = fold (\<lambda>l. add_symbol (fv_sym v (of_nat l))) [0..<kLocates] t
      in fold (\<lambda>l t. case BookTable_book (of_nat l) (fv_books v) of None \<Rightarrow> t | Some b \<Rightarrow> add_book b t) [0..<kLocates] t1)"

definition FeedValidator_profiles :: "FeedValidator \<Rightarrow> SymbolProfile list" where
  "FeedValidator_profiles v =
     List.map_filter
       (\<lambda>l. let s = fv_sym v (of_nat l)
            in if ss_name s = [] then None
               else Some \<lparr>sp_name = ss_name s, sp_refPrice = (if ss_lastTrade s > 0 then ss_lastTrade s else 0), sp_peakOrders = ucast (ss_maxLive s)\<rparr>)
       [0..<kLocates]"

end
