(* ===== verification/FeedValidatorProps.thy ===== *)
theory FeedValidatorProps
  imports FeedValidator BookTableProps
begin

text \<open>
  What the validator reports: nothing for a clean feed, every message that refers to an order that does not rest as long as the book has seen the
  last reset, and the gap in that check after a reset.
\<close>

section \<open>Alarms\<close>

definition alarms :: "SymbolStats \<Rightarrow> u64 \<times> u64 \<times> u64 \<times> u64 \<times> u64" where
  "alarms s = (ss_unknownRef s, ss_overReduce s, ss_crossed s, ss_locked s, ss_resumeXing s)"

definition quiet_step :: "FeedValidator \<Rightarrow> FeedValidator \<Rightarrow> bool" where
  "quiet_step v v' \<longleftrightarrow> (\<forall>l. alarms (fv_sym v' l) = alarms (fv_sym v l)) \<and> fv_books v' = fv_books v"

lemma quiet_step_refl [simp]: "quiet_step v v"
  by (simp add: quiet_step_def)

lemma quiet_step_trans: "quiet_step a b \<Longrightarrow> quiet_step b c \<Longrightarrow> quiet_step a c"
  by (simp add: quiet_step_def)

lemma quiet_sym_upd: "(\<And>s. alarms (f s) = alarms s) \<Longrightarrow> quiet_step v (sym_upd l f v)"
  by (simp add: quiet_step_def sym_upd_def)

lemma quiet_note_trade: "quiet_step v (note_trade l px v)"
  unfolding note_trade_def by (rule quiet_sym_upd) (simp add: alarms_def)

lemma quiet_trace: "quiet_step v (validate_trace l v)"
  by (simp add: quiet_step_def validate_trace_def split: option.split)

lemma quiet_live: "quiet_step v (validate_live v)"
  by (simp add: quiet_step_def validate_live_def)

lemma sym_upd_frame [simp]:
  "fv_books (sym_upd l f v) = fv_books v" "fv_afterClose (sym_upd l f v) = fv_afterClose v" "fv_traceName (sym_upd l f v) = fv_traceName v"
  "fv_sym (sym_upd l f v) l' = (if l' = l then f (fv_sym v l) else fv_sym v l')"
  by (simp_all add: sym_upd_def)

section \<open>A clean feed\<close>

text \<open>The orders of the book that the messages of a locate code go to.\<close>

definition orders_at :: "u16 \<Rightarrow> BookTable \<Rightarrow> shelf \<Rightarrow> orders" where
  "orders_at l t V = (case be_book (bt_books t l) of None \<Rightarrow> Map.empty | Some k \<Rightarrow> V k)"

text \<open>The message refers to an order that rests, and takes no more shares than it has.\<close>

definition refers :: "byte list \<Rightarrow> orders \<Rightarrow> bool" where
  "refers msg A \<longleftrightarrow>
     (case feed_of msg of
        FReduce ref q \<Rightarrow> \<exists>r. A ref = Some r \<and> q \<le> fo_shares r
      | FRemove ref \<Rightarrow> A ref \<noteq> None
      | FReplace old new p q \<Rightarrow> A old \<noteq> None
      | _ \<Rightarrow> True)"

definition uncrossed :: "orders \<Rightarrow> bool" where
  "uncrossed A \<longleftrightarrow> (\<forall>p q. 0 < feed_volume A Buy p \<longrightarrow> 0 < feed_volume A Sell q \<longrightarrow> p < q)"

lemma holds_nonempty:
  assumes "table_inv n t V" and "be_book (bt_books t l) = Some k" and "V k ref = Some r"
  shows "book_inv (bt_storage t ! k) (V k)"
proof -
  have "k < length (bt_storage t)" using assms(1,2) by (auto simp: table_inv_def)
  then obtain B where "book_inv (bt_storage t ! k) B" "V k = (if unat (bb_epoch (bt_storage t ! k)) = n then B else Map.empty)"
    using assms(1) by (auto simp: table_inv_def book_holds_def)
  then show ?thesis using assms(3) by (auto split: if_splits)
qed

lemma checkReference_known:
  assumes "table_inv n (fv_books v) V" and "orders_at l (fv_books v) V ref = Some r" and "unat q \<le> fo_shares r"
  shows "checkReference l ref q v = v"
proof -
  obtain k where k: "be_book (bt_books (fv_books v) l) = Some k" "V k ref = Some r" using assms(2) by (auto simp: orders_at_def split: option.splits)
  define b where "b = bt_storage (fv_books v) ! k"
  have inv: "book_inv b (V k)" unfolding b_def by (rule holds_nonempty [OF assms(1) k])
  have r: "ref \<noteq> 0" "fo_shares r \<noteq> 0" using book_invD(7,8) [OF inv] k(2) by auto
  have u: "unat (BookBuilder_restingShares ref b) = fo_shares r" using resting_exact [OF inv r(1)] k(2) by simp
  then have "BookBuilder_restingShares ref b \<noteq> 0" "\<not> q > BookBuilder_restingShares ref b" using r(2) assms(3) by (auto simp: word_less_nat_alt unat_eq_zero)
  then show ?thesis using k(1) by (simp add: checkReference_def BookTable_book_def b_def)
qed

lemma switch_quiet:
  assumes inv: "table_inv n (fv_books v) V" and ref: "refers msg (orders_at l (fv_books v) V)" and m: "msg \<noteq> []"
  shows "quiet_step v (validate_switch msg l v)"
proof -
  note known = checkReference_known [OF inv]
  have oe: "checkReference l (oe_orderRef e) (oe_executedShares e) v = v" if "msg ! 0 = 0x45" "length msg \<ge> sizeof_OrderExecuted" "e = dec_OrderExecuted msg" for e
    using ref that m known by (auto simp: refers_def feed_of_def Let_def)
  have op: "checkReference l (op_orderRef e) (op_executedShares e) v = v" if "msg ! 0 = 0x43" "length msg \<ge> sizeof_OrderExecutedWithPrice" "e = dec_OrderExecutedWithPrice msg" for e
    using ref that m known by (auto simp: refers_def feed_of_def Let_def)
  have oc: "checkReference l (oc_orderRef e) (oc_cancelledShares e) v = v" if "msg ! 0 = 0x58" "length msg \<ge> sizeof_OrderCancel" "e = dec_OrderCancel msg" for e
    using ref that m known by (auto simp: refers_def feed_of_def Let_def)
  have od: "checkReference l (od_orderRef e) 0 v = v" if "msg ! 0 = 0x44" "length msg \<ge> sizeof_OrderDelete" "e = dec_OrderDelete msg" for e
    using ref that m known [of l _ _ 0] by (auto simp: refers_def feed_of_def Let_def)
  have orp: "checkReference l (orp_origOrderRef e) 0 v = v" if "msg ! 0 = 0x55" "length msg \<ge> sizeof_OrderReplace" "e = dec_OrderReplace msg" for e
    using ref that m known [of l _ _ 0] by (auto simp: refers_def feed_of_def Let_def)
  have name: "quiet_step v (sym_upd l (\<lambda>s. s\<lparr>ss_name := x\<rparr>) v)" for x by (rule quiet_sym_upd) (simp add: alarms_def)
  have trace: "quiet_step v (v'\<lparr>fv_traceLocate := l\<rparr>) = quiet_step v v'" for v' by (simp add: quiet_step_def)
  have trad: "quiet_step v (v'\<lparr>fv_trading := f\<rparr>) = quiet_step v v'" "quiet_step v (v'\<lparr>fv_resumedAt := g\<rparr>) = quiet_step v v'" for v' f g by (simp_all add: quiet_step_def)
  show ?thesis
    unfolding validate_switch_def Let_def
    by (simp add: oe op oc od orp name trace trad quiet_note_trade split: option.split)
qed

lemma uncrossed_top:
  assumes "book_inv b A" and "uncrossed A"
  shows "bb_bestBid b = kNoPrice \<or> bb_bestAsk b = kNoPrice \<or> bb_bestBid b < bb_bestAsk b"
proof -
  have s: "shows_best Buy (\<lambda>p. BookBuilder_inBand p b) (feed_volume A Buy) (bb_bestBid b)" "shows_best Sell (\<lambda>p. BookBuilder_inBand p b) (feed_volume A Sell) (bb_bestAsk b)"
    using inv_shows [OF assms(1)] by (simp_all add: book_shows_def)
  have "bb_bestBid b = kNoPrice \<or> 0 < feed_volume A Buy (bb_bestBid b)" "bb_bestAsk b = kNoPrice \<or> 0 < feed_volume A Sell (bb_bestAsk b)"
    using s unfolding shows_best_def by (auto split: if_splits)
  then show ?thesis using assms(2) unfolding uncrossed_def by blast
qed

text \<open>A message that reaches a book leaves it with the epoch of the table.\<close>

lemma applied_current:
  assumes "table_inv n t V" and "msg ! 0 \<noteq> 0x52" and "msg ! 0 \<noteq> 0x48" and cfg: "table_config_ok (bt_cfg t)"
    and "be_book (bt_books (snd (BookTable_apply msg t)) (BookTable_locateOf msg)) = Some k"
  shows "bb_epoch (bt_storage (snd (BookTable_apply msg t)) ! k) = bt_epoch t" and "bt_epoch (snd (BookTable_apply msg t)) = bt_epoch t"
proof -
  define l where "l = BookTable_locateOf msg"
  define e where "e = bt_books t l"
  define t1 where "t1 = (if be_book e = None then BookTable_create l (be_hot e \<noteq> kCold) (t\<lparr>bt_undirected := bt_undirected t + 1\<rparr>) else t)"
  define skip where "skip \<longleftrightarrow> be_book e = None \<and> (btc_scope (bt_cfg t) = Scope_HotOnly \<and> be_hot e = kCold \<or> btc_scope (bt_cfg t) = Scope_ColdOnly \<and> be_hot e \<noteq> kCold)"
  have u: "snd (BookTable_apply msg t) = (if skip then t else case be_book (bt_books t1 l) of None \<Rightarrow> t1 | Some k \<Rightarrow> apply_to_book msg k t1)"
    using assms(2,3) unfolding BookTable_apply_def l_def [symmetric] e_def [symmetric] t1_def [symmetric] Let_def
    by (auto simp: skip_def split: option.split)
  have b: "be_book (bt_books (snd (BookTable_apply msg t)) l) = Some k" using assms(5) by (simp add: l_def)
  have ns: "\<not> skip"
  proof
    assume sk: skip
    then have "be_book (bt_books t l) = Some k" using b u by simp
    then show False using sk by (simp add: skip_def e_def)
  qed
  have i1: "table_inv n t1 V" "bt_epoch t1 = bt_epoch t" using assms(1) cfg table_inv_create [of n "t\<lparr>bt_undirected := bt_undirected t + 1\<rparr>" V l]
    by (auto simp: t1_def BookTable_create_def entry_upd_def)
  obtain j where j: "be_book (bt_books t1 l) = Some j" by (cases "be_book e") (auto simp: t1_def e_def)
  then have a: "snd (BookTable_apply msg t) = apply_to_book msg j t1" using u ns by simp
  have "j < length (bt_storage t1)" using i1(1) j by (auto simp: table_inv_def)
  moreover have "k = j" using b j unfolding a by (simp add: apply_to_book_def Let_def)
  moreover have "bb_epoch (fresh_book ep x) = ep" for ep x by (simp add: fresh_book_def)
  ultimately show "bb_epoch (bt_storage (snd (BookTable_apply msg t)) ! k) = bt_epoch t" "bt_epoch (snd (BookTable_apply msg t)) = bt_epoch t"
    unfolding a using i1(2) by (simp_all add: apply_to_book_def Let_def epoch_apply)
qed

lemma top_quiet:
  assumes inv: "table_inv n (fv_books v) V" and n: "n < 2 ^ 32" and un: "uncrossed (orders_at l (fv_books v) V)"
    and cur: "\<And>k. msg ! 0 \<in> {0x41, 0x46, 0x55} \<Longrightarrow> be_book (bt_books (fv_books v) l) = Some k \<Longrightarrow> bb_epoch (bt_storage (fv_books v) ! k) = bt_epoch (fv_books v)"
  shows "quiet_step v (validate_top msg l v)"
proof (cases "be_book (bt_books (fv_books v) l)")
  case None
  then show ?thesis by (simp add: validate_top_def BookTable_book_def Let_def)
next
  case (Some k)
  define b where "b = bt_storage (fv_books v) ! k"
  have k: "k < length (bt_storage (fv_books v))" using inv Some by (auto simp: table_inv_def)
  have live: "quiet_step v (sym_upd l (\<lambda>s. s\<lparr>ss_maxLive := f s\<rparr>) v)" for f by (rule quiet_sym_upd) (simp add: alarms_def)
  have top: "\<not> (bb_bestBid b \<noteq> kNoPrice \<and> bb_bestAsk b \<noteq> kNoPrice \<and> bb_bestAsk b \<le> bb_bestBid b)" if "msg ! 0 \<in> {0x41, 0x46, 0x55}"
  proof -
    have "book_inv b (V k)" unfolding b_def by (rule holds_timely [OF inv n k]) (use cur [OF that Some] in simp)
    then show ?thesis using uncrossed_top [of b "V k"] un Some by (auto simp: orders_at_def)
  qed
  have bk: "BookTable_book l (fv_books v) = Some b" using Some by (simp add: BookTable_book_def b_def)
  have c: "(msg ! 0 \<in> {0x41, 0x46, 0x55} \<and> fv_marketHours v \<and> fv_trading v l \<and> bb_bestBid b \<noteq> kNoPrice \<and> bb_bestAsk b \<noteq> kNoPrice \<and>
      bb_bestAsk b \<le> bb_bestBid b) = False" using top by blast
  show ?thesis unfolding validate_top_def Let_def bk option.case c if_False using live by simp
qed

section \<open>What the validator reports\<close>

definition restarts :: "byte list \<Rightarrow> bool" where
  "restarts msg \<longleftrightarrow> sizeof_SystemEvent \<le> length msg \<and> se_eventCode (dec_SystemEvent msg) = SystemEventCode_code Ev_StartOfMessages"

text \<open>
  A validator that has seen a clean feed: every message is legal for its book, refers to an order that rests, and leaves the book uncrossed. \<open>V\<close> are the
  orders of the books and \<open>n\<close> counts the resets.
\<close>

inductive clean_feed :: "BookTableConfig \<Rightarrow> FeedValidator \<Rightarrow> shelf \<Rightarrow> nat \<Rightarrow> bool" for cfg where
  start: "clean_feed cfg (FeedValidator_new cfg) (\<lambda>_. Map.empty) 0"
| short: "clean_feed cfg v V n \<Longrightarrow> length msg < 11 \<Longrightarrow> clean_feed cfg (FeedValidator_onMessage msg v) V n"
| event: "clean_feed cfg v V n \<Longrightarrow> 11 \<le> length msg \<Longrightarrow> msg ! 0 = 0x53 \<Longrightarrow> \<not> restarts msg \<Longrightarrow> clean_feed cfg (FeedValidator_onMessage msg v) V n"
| restart: "clean_feed cfg v V n \<Longrightarrow> 11 \<le> length msg \<Longrightarrow> msg ! 0 = 0x53 \<Longrightarrow> restarts msg \<Longrightarrow> Suc n < 2 ^ 32 \<Longrightarrow>
    clean_feed cfg (FeedValidator_onMessage msg v) (\<lambda>_. Map.empty) (Suc n)"
| message: "clean_feed cfg v V n \<Longrightarrow> 11 \<le> length msg \<Longrightarrow> msg ! 0 \<noteq> 0x53 \<Longrightarrow> table_legal msg (fv_books v) V \<Longrightarrow>
    refers msg (orders_at (BookTable_locateOf msg) (fv_books v) V) \<Longrightarrow>
    uncrossed (orders_at (BookTable_locateOf msg) (snd (BookTable_apply msg (fv_books v))) (shelf_after msg (fv_books v) V)) \<Longrightarrow>
    clean_feed cfg (FeedValidator_onMessage msg v) (shelf_after msg (fv_books v) V) n"

text \<open>The validator has no alarm, and its books are those of the feed.\<close>

definition no_alarm :: "FeedValidator \<Rightarrow> bool" where
  "no_alarm v \<longleftrightarrow> (\<forall>l. alarms (fv_sym v l) = (0, 0, 0, 0, 0))"

lemma no_alarm_quiet: "quiet_step v v' \<Longrightarrow> no_alarm v' = no_alarm v"
  by (simp add: quiet_step_def no_alarm_def)

text \<open>The states inside the handling of a message: counted, checked, applied.\<close>

lemma message_quiet:
  assumes inv: "table_inv n (fv_books v) V" "bt_cfg (fv_books v) = cfg" "table_config_ok cfg" "n < 2 ^ 32" and m: "11 \<le> length msg" "msg ! 0 \<noteq> 0x53"
    and leg: "table_legal msg (fv_books v) V" and ref: "refers msg (orders_at (BookTable_locateOf msg) (fv_books v) V)"
    and un: "uncrossed (orders_at (BookTable_locateOf msg) (snd (BookTable_apply msg (fv_books v))) (shelf_after msg (fv_books v) V))"
  shows "fv_books (FeedValidator_onMessage msg v) = snd (BookTable_apply msg (fv_books v)) \<and> (no_alarm v \<longrightarrow> no_alarm (FeedValidator_onMessage msg v))"
proof -
  define l where "l = BookTable_locateOf msg"
  define v1 where "v1 = sym_upd l (\<lambda>s. s\<lparr>ss_messages := ss_messages s + 1\<rparr>) (v\<lparr>fv_messages := fv_messages v + 1\<rparr>)"
  define v2 where "v2 = validate_switch msg l v1"
  define v3 where "v3 = v2\<lparr>fv_books := snd (BookTable_apply msg (fv_books v2))\<rparr>"
  define v4 where "v4 = validate_trace l v3"
  have u: "FeedValidator_onMessage msg v = validate_live (validate_top msg l v4)"
    using m by (simp add: FeedValidator_onMessage_def Let_def l_def [symmetric] v1_def [symmetric] v2_def [symmetric] v3_def [symmetric] v4_def [symmetric])
  have q1: "quiet_step v v1" by (simp add: quiet_step_def v1_def sym_upd_def alarms_def)
  have b1: "fv_books v1 = fv_books v" using q1 by (simp add: quiet_step_def)
  have ne: "msg \<noteq> []" using m(1) by auto
  have q2: "quiet_step v1 v2" unfolding v2_def by (rule switch_quiet [of n _ V]) (use inv ref ne in \<open>simp_all add: b1 l_def\<close>)
  have b2: "fv_books v2 = fv_books v" using q2 b1 by (simp add: quiet_step_def)
  have b4: "fv_books v4 = snd (BookTable_apply msg (fv_books v))" using quiet_trace [of v3 l] b2 by (simp add: quiet_step_def v4_def v3_def)
  have i4: "table_inv n (fv_books v4) (shelf_after msg (fv_books v) V)" unfolding b4 by (rule table_apply_inv [OF inv(1) _ inv(4) leg]) (use inv(2,3) in simp)
  have cur: "bb_epoch (bt_storage (fv_books v4) ! k) = bt_epoch (fv_books v4)"
    if ty: "msg ! 0 \<in> {0x41, 0x46, 0x55}" and k: "be_book (bt_books (fv_books v4) l) = Some k" for k
  proof -
    have ty': "msg ! 0 \<noteq> 0x52" "msg ! 0 \<noteq> 0x48" using ty by auto
    show ?thesis using applied_current [OF inv(1) ty' _ , of k] k inv(2,3) unfolding b4 l_def by simp
  qed
  have q5: "quiet_step v4 (validate_top msg l v4)" by (rule top_quiet [OF i4 inv(4) _ cur]) (use un in \<open>simp_all add: b4 l_def\<close>)
  have q6: "quiet_step v4 (FeedValidator_onMessage msg v)" unfolding u by (rule quiet_step_trans [OF q5 quiet_live])
  have "no_alarm v4 = no_alarm v3" by (rule no_alarm_quiet) (simp add: v4_def quiet_trace)
  moreover have "no_alarm v3 = no_alarm v2" by (simp add: v3_def no_alarm_def)
  ultimately show ?thesis using no_alarm_quiet [OF q6] no_alarm_quiet [OF q2] no_alarm_quiet [OF q1] q6 b4 by (simp add: quiet_step_def)
qed

lemma clean_feed_inv:
  assumes "clean_feed cfg v V n" and "table_config_ok cfg"
  shows "table_feed cfg (fv_books v) V n \<and> no_alarm v"
  using assms(1)
proof induction
  case start
  then show ?case by (simp add: FeedValidator_new_def table_feed.start no_alarm_def alarms_def SymbolStats_new_def)
next
  case (short v V n msg)
  then show ?case by (simp add: FeedValidator_onMessage_def)
next
  case (event v V n msg)
  have "fv_books (validate_event msg v) = fv_books v" "fv_sym (validate_event msg v) = fv_sym v" using event(4) by (auto simp: validate_event_def restarts_def Let_def)
  then show ?case using event by (simp add: FeedValidator_onMessage_def no_alarm_def)
next
  case (restart v V n msg)
  have "fv_books (validate_event msg v) = BookTable_clearAll (fv_books v)" "fv_sym (validate_event msg v) = fv_sym v"
    using restart(4) by (auto simp: validate_event_def restarts_def Let_def)
  moreover have "table_feed cfg (BookTable_clearAll (fv_books v)) (\<lambda>_. Map.empty) (Suc n)" by (rule table_feed.reset) (use restart in auto)
  ultimately show ?case using restart by (simp add: FeedValidator_onMessage_def no_alarm_def)
next
  case (message v V n msg)
  have f: "table_feed cfg (fv_books v) V n" "no_alarm v" using message.IH by blast+
  have i: "table_inv n (fv_books v) V" "bt_cfg (fv_books v) = cfg" "n < 2 ^ 32" using table_feed_inv [OF f(1) assms(2)] by blast+
  have q: "fv_books (FeedValidator_onMessage msg v) = snd (BookTable_apply msg (fv_books v))" "no_alarm (FeedValidator_onMessage msg v)"
    using message_quiet [OF i(1,2) assms(2) i(3) message.hyps(2-6)] f(2) by simp_all
  show ?case unfolding q(1) using table_feed.message [OF f(1) message.hyps(4)] q(2) by blast
qed

lemma totals_add:
  assumes "\<And>l. alarms (f l) = (0, 0, 0, 0, 0)"
  shows "ft_unknownRef (fold (\<lambda>l. add_symbol (f l)) ls t) = ft_unknownRef t \<and> ft_overReduce (fold (\<lambda>l. add_symbol (f l)) ls t) = ft_overReduce t \<and>
    ft_crossed (fold (\<lambda>l. add_symbol (f l)) ls t) = ft_crossed t \<and> ft_locked (fold (\<lambda>l. add_symbol (f l)) ls t) = ft_locked t \<and>
    ft_resumeXing (fold (\<lambda>l. add_symbol (f l)) ls t) = ft_resumeXing t"
  using assms by (induction ls arbitrary: t) (simp_all add: add_symbol_def alarms_def)

lemma totals_books:
  "ft_unknownRef (fold (\<lambda>l t. case g l of None \<Rightarrow> t | Some b \<Rightarrow> add_book b t) ls t) = ft_unknownRef t \<and>
   ft_overReduce (fold (\<lambda>l t. case g l of None \<Rightarrow> t | Some b \<Rightarrow> add_book b t) ls t) = ft_overReduce t \<and>
   ft_crossed (fold (\<lambda>l t. case g l of None \<Rightarrow> t | Some b \<Rightarrow> add_book b t) ls t) = ft_crossed t \<and>
   ft_locked (fold (\<lambda>l t. case g l of None \<Rightarrow> t | Some b \<Rightarrow> add_book b t) ls t) = ft_locked t \<and>
   ft_resumeXing (fold (\<lambda>l t. case g l of None \<Rightarrow> t | Some b \<Rightarrow> add_book b t) ls t) = ft_resumeXing t"
  by (induction ls arbitrary: t) (simp_all add: add_book_def split: option.split)

lemma clean_totals:
  assumes "table_config_ok cfg" and "clean_feed cfg v V n"
  shows "ft_unknownRef (FeedValidator_totals v) = 0 \<and> ft_overReduce (FeedValidator_totals v) = 0 \<and> ft_crossed (FeedValidator_totals v) = 0 \<and>
    ft_locked (FeedValidator_totals v) = 0 \<and> ft_resumeXing (FeedValidator_totals v) = 0 \<and> no_alarm v"
proof -
  have "no_alarm v" using clean_feed_inv [OF assms(2,1)] by blast
  then have a: "alarms (fv_sym v (of_nat l)) = (0, 0, 0, 0, 0)" for l :: nat by (simp add: no_alarm_def)
  then show ?thesis using \<open>no_alarm v\<close> unfolding FeedValidator_totals_def Let_def by (simp add: totals_books totals_add [OF a])
qed

section \<open>The check of references\<close>

text \<open>The order a message refers to and the shares it takes from it.\<close>

definition reference_of :: "byte list \<Rightarrow> (OrderId \<times> nat) option" where
  "reference_of msg =
     (case feed_of msg of
        FReduce ref q \<Rightarrow> Some (ref, q)
      | FRemove ref \<Rightarrow> Some (ref, 0)
      | FReplace old new p q \<Rightarrow> Some (old, 0)
      | _ \<Rightarrow> None)"

definition ref_counts :: "SymbolStats \<Rightarrow> u64 \<times> u64" where
  "ref_counts s = (ss_unknownRef s, ss_overReduce s)"

lemma ref_counts_frame [simp]:
  "ref_counts (fv_sym (note_trade l px v) l') = ref_counts (fv_sym v l')"
  "ref_counts (fv_sym (validate_trace l v) l') = ref_counts (fv_sym v l')"
  "ref_counts (fv_sym (validate_live v) l') = ref_counts (fv_sym v l')"
  "ref_counts (fv_sym (validate_top msg l v) l') = ref_counts (fv_sym v l')"
  by (simp_all add: ref_counts_def note_trade_def validate_trace_def validate_live_def validate_top_def Let_def split: option.split)

lemma checkReference_books [simp]: "fv_books (checkReference l ref q v) = fv_books v"
  by (simp add: checkReference_def Let_def)

lemma switch_refs:
  assumes "reference_of msg = Some (ref, q)" and "msg \<noteq> []"
  shows "\<exists>w. unat w = q \<and> (\<forall>v. ref_counts (fv_sym (validate_switch msg l v) l') = ref_counts (fv_sym (checkReference l ref w v) l'))"
proof -
  let ?P = "\<lambda>ref w. \<forall>v. ref_counts (fv_sym (validate_switch msg l v) l') = ref_counts (fv_sym (checkReference l ref w v) l')"
  consider "msg ! 0 = 0x45" "length msg \<ge> sizeof_OrderExecuted" "ref = oe_orderRef (dec_OrderExecuted msg)" "q = unat (oe_executedShares (dec_OrderExecuted msg))"
    | "msg ! 0 = 0x43" "length msg \<ge> sizeof_OrderExecutedWithPrice" "ref = op_orderRef (dec_OrderExecutedWithPrice msg)" "q = unat (op_executedShares (dec_OrderExecutedWithPrice msg))"
    | "msg ! 0 = 0x58" "length msg \<ge> sizeof_OrderCancel" "ref = oc_orderRef (dec_OrderCancel msg)" "q = unat (oc_cancelledShares (dec_OrderCancel msg))"
    | "msg ! 0 = 0x44" "length msg \<ge> sizeof_OrderDelete" "ref = od_orderRef (dec_OrderDelete msg)" "q = 0"
    | "msg ! 0 = 0x55" "length msg \<ge> sizeof_OrderReplace" "ref = orp_origOrderRef (dec_OrderReplace msg)" "q = 0"
    using assms by (auto simp: reference_of_def feed_of_def Let_def split: if_splits)
  then show ?thesis
  proof cases
    case 1
    then have "?P ref (oe_executedShares (dec_OrderExecuted msg))" by (simp add: validate_switch_def Let_def split: option.split)
    then show ?thesis using 1(4) by metis
  next
    case 2
    then have "?P ref (op_executedShares (dec_OrderExecutedWithPrice msg))" by (simp add: validate_switch_def Let_def)
    then show ?thesis using 2(4) by metis
  next
    case 3
    then have "?P ref (oc_cancelledShares (dec_OrderCancel msg))" by (simp add: validate_switch_def Let_def)
    then show ?thesis using 3(4) by metis
  next
    case 4
    then have "?P ref 0" by (simp add: validate_switch_def Let_def)
    then show ?thesis using 4(4) unsigned_0 by metis
  next
    case 5
    then have "?P ref 0" by (simp add: validate_switch_def Let_def)
    then show ?thesis using 5(4) unsigned_0 by metis
  qed
qed

lemma message_refs:
  assumes "reference_of msg = Some (ref, q)" and "11 \<le> length msg"
  shows "\<exists>w v1. unat w = q \<and> fv_books v1 = fv_books v \<and> (\<forall>l'. ref_counts (fv_sym v1 l') = ref_counts (fv_sym v l')) \<and>
    ref_counts (fv_sym (FeedValidator_onMessage msg v) l') = ref_counts (fv_sym (checkReference (BookTable_locateOf msg) ref w v1) l')"
proof -
  define v1 where "v1 = sym_upd (BookTable_locateOf msg) (\<lambda>s. s\<lparr>ss_messages := ss_messages s + 1\<rparr>) (v\<lparr>fv_messages := fv_messages v + 1\<rparr>)"
  have ne: "msg \<noteq> []" using assms(2) by auto
  have "msg ! 0 \<noteq> 0x53" using assms(1) ne by (auto simp: reference_of_def feed_of_def Let_def split: if_splits)
  then have "ref_counts (fv_sym (FeedValidator_onMessage msg v) l') = ref_counts (fv_sym (validate_switch msg (BookTable_locateOf msg) v1) l')"
    using assms(2) by (simp add: FeedValidator_onMessage_def Let_def v1_def)
  moreover obtain w where "unat w = q" "\<forall>v. ref_counts (fv_sym (validate_switch msg (BookTable_locateOf msg) v) l') =
      ref_counts (fv_sym (checkReference (BookTable_locateOf msg) ref w v) l')" using switch_refs [OF assms(1) ne] by blast
  ultimately show ?thesis by (intro exI [of _ w] exI [of _ v1]) (simp add: v1_def sym_upd_def ref_counts_def)
qed

section \<open>Properties\<close>


lemma demo_add_bytes: "11 \<le> length (enc_AddOrder demo_add)" "enc_AddOrder demo_add ! 0 \<noteq> 0x53"
  by code_simp+

lemma demo_uncrossed: "uncrossed [7 \<mapsto> demo_order]"
  by (simp add: uncrossed_def feed_volume_def shares_where_def rests_at_def demo_order_def)

definition demo_validator :: FeedValidator where
  "demo_validator = FeedValidator_onMessage (enc_AddOrder demo_add) (FeedValidator_new demo_table_config)"

lemma demo_clean: "clean_feed demo_table_config demo_validator demo_shelf 0"
proof -
  have b: "fv_books (FeedValidator_new demo_table_config) = BookTable_new demo_table_config" by (simp add: FeedValidator_new_def)
  have o: "feed_spec 0 (FAdd 7 Buy 10000 50) Map.empty = [7 \<mapsto> demo_order]" by (simp add: demo_order_def owned_def)
  have c: "btc_ownRefMin demo_table_config = 0" by (simp add: demo_table_config_def)
  have sh: "shelf_after (enc_AddOrder demo_add) (BookTable_new demo_table_config) (\<lambda>_. Map.empty) = demo_shelf"
    using demo_table_book(1) o by (simp add: shelf_after_def demo_table_def demo_locate demo_feed demo_new c demo_shelf_def)
  have leg: "table_legal (enc_AddOrder demo_add) (BookTable_new demo_table_config) (\<lambda>_. Map.empty)"
    using demo_table_book(1) o demo_tame by (simp add: table_legal_def demo_table_def demo_locate demo_feed demo_new c) (simp add: table_fits_def demo_table_config_def)
  have un: "uncrossed (orders_at (BookTable_locateOf (enc_AddOrder demo_add)) (snd (BookTable_apply (enc_AddOrder demo_add) (BookTable_new demo_table_config))) demo_shelf)"
    using demo_table_book(1) demo_uncrossed by (simp add: orders_at_def demo_locate demo_table_def [symmetric] demo_shelf_def)
  show ?thesis unfolding demo_validator_def
    using clean_feed.message [OF clean_feed.start demo_add_bytes, of demo_table_config] leg un by (simp add: b sh refers_def demo_feed)
qed



definition demo_delete :: "OrderId \<Rightarrow> byte list" where
  "demo_delete ref = enc_OrderDelete \<lparr>od_messageType = 0x44, od_stockLocate = 1, od_trackingNumber = 0, od_timestamp = 0, od_orderRef = ref\<rparr>"

lemma demo_delete_facts: "11 \<le> length (demo_delete 9)" "reference_of (demo_delete 9) = Some (9, 0)" "BookTable_locateOf (demo_delete 9) = 1"
  "11 \<le> length (demo_delete 7)" "reference_of (demo_delete 7) = Some (7, 0)" "BookTable_locateOf (demo_delete 7) = 1"
  by code_simp+

lemma demo_epoch: "bb_epoch (bt_storage demo_table ! 0) = bt_epoch demo_table" "bt_epoch demo_table = 0"
proof -
  have i: "table_inv 0 (BookTable_new demo_table_config) (\<lambda>_. Map.empty)" using table_new_inv [OF demo_table_config_ok] by blast
  have t: "enc_AddOrder demo_add ! 0 \<noteq> 0x52" "enc_AddOrder demo_add ! 0 \<noteq> 0x48" by (simp_all add: demo_locate)
  have e: "bt_epoch (BookTable_new demo_table_config) = 0" using i by (simp add: table_inv_def)
  show "bb_epoch (bt_storage demo_table ! 0) = bt_epoch demo_table" "bt_epoch demo_table = 0"
    using applied_current [OF i t, of 0] demo_table_book(1) demo_table_config_ok e by (simp_all add: demo_locate demo_new demo_table_def)
qed


text \<open>
  C34. After a reset the check looks at old orders: a book that has not seen the reset holds no order of the feed any more, but a message that refers to an order it
  held before raises no alarm, because the validator looks before the table clears the book.
\<close>

theorem FeedValidator_misses_stale_reference:
  assumes "table_config_ok cfg" and "table_feed cfg (fv_books v) V n" and "11 \<le> length msg" and "reference_of msg = Some (ref, q)"
    and "be_book (bt_books (fv_books v) (BookTable_locateOf msg)) = Some k" and "bb_epoch (bt_storage (fv_books v) ! k) \<noteq> bt_epoch (fv_books v)"
    and "0 < BookBuilder_restingShares ref (bt_storage (fv_books v) ! k)"
  shows "V k = Map.empty \<and> ss_unknownRef (fv_sym (FeedValidator_onMessage msg v) l') = ss_unknownRef (fv_sym v l')"
proof -
  let ?l = "BookTable_locateOf msg"
  have i: "table_inv n (fv_books v) V" "n < 2 ^ 32" using table_feed_inv [OF assms(2,1)] by blast+
  have k: "k < length (bt_storage (fv_books v))" using i(1) assms(5) by (auto simp: table_inv_def)
  have "bt_epoch (fv_books v) = of_nat n" using i(1) by (simp add: table_inv_def)
  then have "unat (bb_epoch (bt_storage (fv_books v) ! k)) \<noteq> n" using assms(6) by auto
  then have "V k = Map.empty" using i(1) k by (auto simp: table_inv_def book_holds_def)
  obtain w v1 where w: "unat w = q" "fv_books v1 = fv_books v" "\<forall>l'. ref_counts (fv_sym v1 l') = ref_counts (fv_sym v l')"
    "ref_counts (fv_sym (FeedValidator_onMessage msg v) l') = ref_counts (fv_sym (checkReference ?l ref w v1) l')" using message_refs [OF assms(4,3)] by blast
  have "BookTable_book ?l (fv_books v1) = Some (bt_storage (fv_books v) ! k)" using assms(5) w(2) by (simp add: BookTable_book_def)
  moreover have "BookBuilder_restingShares ref (bt_storage (fv_books v) ! k) \<noteq> 0" using assms(7) by auto
  ultimately have "ss_unknownRef (fv_sym (checkReference ?l ref w v1) l') = ss_unknownRef (fv_sym v1 l')"
    by (auto simp: checkReference_def Let_def sym_upd_def)
  then show ?thesis using w(3,4) \<open>V k = Map.empty\<close> by (simp add: ref_counts_def)
qed

theorem FeedValidator_misses_stale_reference_witness:
  "ss_unknownRef (fv_sym (FeedValidator_onMessage (demo_delete 7) ((FeedValidator_new demo_table_config)\<lparr>fv_books := BookTable_clearAll demo_table\<rparr>)) 1) = 0"
proof -
  let ?t = "BookTable_clearAll demo_table"
  have t: "?t = demo_table\<lparr>bt_epoch := 1, bt_live := 0, bt_hot := [HotSymbol_new [0x41]]\<rparr>"
    by (simp add: BookTable_clearAll_def clear_hot_def hot_upd_def demo_table_book(3) demo_epoch HotSymbol_new_def)
  have f: "table_feed demo_table_config ?t (\<lambda>_. Map.empty) 1" using table_feed.reset [OF demo_table_feed] by simp
  have i: "table_inv 0 demo_table demo_shelf" using table_feed_inv [OF demo_table_feed demo_table_config_ok] by blast
  have s: "demo_shelf 0 7 = Some demo_order" by (simp add: demo_shelf_def)
  have "book_inv (bt_storage demo_table ! 0) (demo_shelf 0)" by (rule holds_nonempty [OF i demo_table_book(1) s])
  then have "unat (BookBuilder_restingShares 7 (bt_storage demo_table ! 0)) = 50" using resting_exact [of _ _ 7] s by (simp add: demo_order_def)
  then have "0 < BookBuilder_restingShares 7 (bt_storage demo_table ! 0)" by (simp add: word_less_nat_alt)
  then show ?thesis
    using FeedValidator_misses_stale_reference [of demo_table_config "(FeedValidator_new demo_table_config)\<lparr>fv_books := ?t\<rparr>" "\<lambda>_. Map.empty" 1 "demo_delete 7" 7 0 0 1]
      demo_table_config_ok f demo_delete_facts demo_table_book(1) demo_epoch t
    by (simp add: FeedValidator_new_def SymbolStats_new_def)
qed

end
