(* ===== verification/FeedTool.thy ===== *)
theory FeedTool
  imports FeedValidatorProps ProfileFile RecordedFeed
begin

text \<open>
  The program that validates and cuts recorded feeds, \<^verbatim>\<open>apps/itch_replay.cpp\<close>: its arguments, the loop that reads a file, filters it, writes the messages it keeps and
  validates them, and its exit code. Printing is left out, and so are the arguments that only printing or nothing reads (\<^verbatim>\<open>progressEvery\<close>, \<^verbatim>\<open>minPrice\<close>). The contents of files, and whether a file can be created, are arguments; so is the width of a band by price
  that the fraction 0.10 gives.
\<close>

section \<open>Arguments\<close>

record Args =
  ar_file :: "byte list"
  ar_symbols :: "byte list list"
  ar_all :: bool
  ar_extractTo :: "byte list option"
  ar_writeProfile :: "byte list option"
  ar_profile :: "byte list option"
  ar_traceReanchor :: "byte list option"
  ar_maxPrice :: Price
  ar_tickWire :: Price
  ar_bandTicks :: nat
  ar_arenaMb :: nat

definition Args_new :: Args where
  "Args_new = \<lparr>ar_file = [], ar_symbols = [], ar_all = False, ar_extractTo = None, ar_writeProfile = None, ar_profile = None, ar_traceReanchor = None,
     ar_maxPrice = 20000000, ar_tickWire = 100, ar_bandTicks = 2048, ar_arenaMb = 0\<rparr>"

definition ascii :: "string \<Rightarrow> byte list" where
  "ascii s = map (\<lambda>c. of_nat (of_char c)) s"

function splitSymbols :: "byte list \<Rightarrow> byte list list" where
  "splitSymbols list =
     (if list = [] then []
      else
        let part = takeWhile (\<lambda>c. c \<noteq> 0x2c) list; rest = dropWhile (\<lambda>c. c \<noteq> 0x2c) list
        in (if part \<noteq> [] then [part] else []) @ (if rest = [] then [] else splitSymbols (tl rest)))"
  by pat_completeness auto
termination
proof (relation "measure length", goal_cases)
  case (2 list x xa)
  then have "length (tl xa) < length xa" by simp
  moreover have "length xa \<le> length list" using 2 by (simp add: length_dropWhile_le)
  ultimately show ?case by simp
qed simp

declare splitSymbols.simps [simp del]

text \<open>\<^verbatim>\<open>std::atol\<close>, for numbers in the range of \<^verbatim>\<open>long\<close>.\<close>

definition atol_text :: "byte list \<Rightarrow> int" where
  "atol_text cs =
     (let ds = dropWhile is_space cs;
          neg = (ds \<noteq> [] \<and> hd ds = 0x2d);
          us = (if ds \<noteq> [] \<and> (hd ds = 0x2d \<or> hd ds = 0x2b) then tl ds else ds);
          v = int (dec_value (takeWhile is_digit us))
      in if neg then - v else v)"

definition to_price :: "int \<Rightarrow> Price" where
  "to_price i = sint (of_int i :: u32)"

definition to_size :: "int \<Rightarrow> nat" where
  "to_size i = unat (of_int i :: u64)"

text \<open>The loop over the options: an option without a value, or an unknown one, is refused.\<close>

fun parse_options :: "byte list list \<Rightarrow> Args \<Rightarrow> Args option" where
  "parse_options [] a = Some a"
| "parse_options [opt] a = None"
| "parse_options (opt # value # rest) a =
     (if opt = ascii ''--extract'' then parse_options rest (a\<lparr>ar_extractTo := Some value\<rparr>)
      else if opt = ascii ''--max-price'' then parse_options rest (a\<lparr>ar_maxPrice := to_price (atol_text value)\<rparr>)
      else if opt = ascii ''--tick'' then parse_options rest (a\<lparr>ar_tickWire := to_price (atol_text value)\<rparr>)
      else if opt = ascii ''--band'' then parse_options rest (a\<lparr>ar_bandTicks := to_size (atol_text value)\<rparr>)
      else if opt = ascii ''--arena-mb'' then parse_options rest (a\<lparr>ar_arenaMb := to_size (atol_text value)\<rparr>)
      else if opt = ascii ''--profile'' then parse_options rest (a\<lparr>ar_profile := Some value\<rparr>)
      else if opt = ascii ''--write-profile'' then parse_options rest (a\<lparr>ar_writeProfile := Some value\<rparr>)
      else if opt = ascii ''--trace-reanchor'' then parse_options rest (a\<lparr>ar_traceReanchor := Some value\<rparr>)
      else None)"

text \<open>The arguments after the name of the program.\<close>

definition parseArgs :: "byte list list \<Rightarrow> Args option" where
  "parseArgs argv =
     (case argv of
        file # scope # options \<Rightarrow>
          let a = Args_new\<lparr>ar_file := file\<rparr>
          in if scope = ascii ''--all'' then parse_options options (a\<lparr>ar_all := True\<rparr>)
             else if splitSymbols scope = [] then None
             else parse_options options (a\<lparr>ar_symbols := splitSymbols scope\<rparr>)
      | _ \<Rightarrow> None)"

section \<open>The run\<close>

record 'g FeedRun =
  fr_reader :: "'g ItchFileReader"
  fr_filter :: "SymbolFilter option"
  fr_writer :: "ItchFileWriter option"
  fr_validator :: FeedValidator
  fr_kept :: u64

definition tool_config :: "(Price \<Rightarrow> Price \<Rightarrow> nat) \<Rightarrow> Args \<Rightarrow> SymbolProfile list \<Rightarrow> BookTableConfig" where
  "tool_config fraction a profiles =
     \<lparr>btc_tickWire = ar_tickWire a, btc_subDollarTick = 1, btc_coldBandTicks = ar_bandTicks a, btc_hotBandTicks = ar_bandTicks a, btc_maxBandTicks = 2 ^ 16,
      btc_byPrice = Some fraction, btc_coldMapSlots = 1024, btc_hotMapSlots = 2 ^ 16, btc_ownRefMin = 0, btc_hotSymbols = [], btc_hotLocates = [],
      btc_profiles = profiles, btc_scope = Scope_All\<rparr>"

definition keep_message :: "byte list \<Rightarrow> 'g FeedRun \<Rightarrow> 'g FeedRun" where
  "keep_message msg s =
     s\<lparr>fr_kept := fr_kept s + 1, fr_writer := map_option (ItchFileWriter_write msg) (fr_writer s), fr_validator := FeedValidator_onMessage msg (fr_validator s)\<rparr>"

definition tool_message :: "byte list \<Rightarrow> 'g FeedRun \<Rightarrow> 'g FeedRun" where
  "tool_message msg s =
     (case fr_filter s of
        None \<Rightarrow> keep_message msg s
      | Some f \<Rightarrow>
          let (ok, f') = SymbolFilter_accept msg f; s1 = s\<lparr>fr_filter := Some f'\<rparr>
          in if \<not> ok then s1 else keep_message msg s1)"

partial_function (option) tool_loop :: "'g GzOps \<Rightarrow> 'g FeedRun \<Rightarrow> 'g FeedRun option" where
  "tool_loop gz s =
     (case ItchFileReader_next gz (fr_reader s) of
        None \<Rightarrow> None
      | Some (res, r1) \<Rightarrow>
          if res = None then Some (s\<lparr>fr_reader := r1\<rparr>) else tool_loop gz (tool_message (the res) (s\<lparr>fr_reader := r1\<rparr>)))"

definition start_validator :: "(Price \<Rightarrow> Price \<Rightarrow> nat) \<Rightarrow> Args \<Rightarrow> SymbolProfile list \<Rightarrow> FeedValidator" where
  "start_validator fraction a profiles =
     (let v = FeedValidator_new (tool_config fraction a profiles)
      in case ar_traceReanchor a of None \<Rightarrow> v | Some symbol \<Rightarrow> FeedValidator_traceReanchors symbol v)"

definition start_filter :: "Args \<Rightarrow> SymbolFilter option" where
  "start_filter a = (if ar_all a then None else Some (SymbolFilter_new (ar_symbols a)))"

definition tool_profiles :: "(byte list \<Rightarrow> byte list option) \<Rightarrow> Args \<Rightarrow> SymbolProfile list" where
  "tool_profiles contents a = (case ar_profile a of None \<Rightarrow> [] | Some path \<Rightarrow> readSymbolProfile (contents path))"

definition exit_code :: "FeedValidator \<Rightarrow> nat" where
  "exit_code v = (let t = FeedValidator_totals v in if ft_unknownRef t + ft_overReduce t + ft_crossed t = 0 then 0 else 3)"

definition written_profile :: "(byte list \<Rightarrow> bool) \<Rightarrow> (byte list \<Rightarrow> bool) \<Rightarrow> Args \<Rightarrow> FeedValidator \<Rightarrow> byte list option" where
  "written_profile creatable closable a v =
     (case ar_writeProfile a of None \<Rightarrow> None | Some path \<Rightarrow> snd (writeSymbolProfile (creatable path) (closable path) (FeedValidator_profiles v)))"

text \<open>The exit code, the state at the end and the file of profiles that was written; \<open>contents\<close> are the files there are.\<close>

definition runValidator ::
  "'g GzOps \<Rightarrow> (Price \<Rightarrow> Price \<Rightarrow> nat) \<Rightarrow> (byte list \<Rightarrow> byte list option) \<Rightarrow> (byte list \<Rightarrow> bool) \<Rightarrow> (byte list \<Rightarrow> bool) \<Rightarrow> Args \<Rightarrow> 'g ItchFileReader \<Rightarrow>
    ItchFileWriter option \<Rightarrow> (nat \<times> 'g FeedRun option \<times> byte list option) option" where
  "runValidator gz fraction contents creatable closable a reader writer =
     (let profiles = tool_profiles contents a
      in if ar_profile a \<noteq> None \<and> profiles = [] then Some (1, None, None)
         else
           case tool_loop gz \<lparr>fr_reader = reader, fr_filter = start_filter a, fr_writer = writer, fr_validator = start_validator fraction a profiles, fr_kept = 0\<rparr> of
             None \<Rightarrow> None
           | Some s \<Rightarrow> Some (exit_code (fr_validator s), Some s, written_profile creatable closable a (fr_validator s)))"

text \<open>\<^verbatim>\<open>main\<close>; \<open>reader_for\<close> is the reader that the constructor gives for a path.\<close>

definition tool_main ::
  "'g GzOps \<Rightarrow> (Price \<Rightarrow> Price \<Rightarrow> nat) \<Rightarrow> (byte list \<Rightarrow> 'g ItchFileReader) \<Rightarrow> (byte list \<Rightarrow> byte list option) \<Rightarrow> (byte list \<Rightarrow> bool) \<Rightarrow> (byte list \<Rightarrow> bool) \<Rightarrow>
    byte list list \<Rightarrow> (nat \<times> 'g FeedRun option \<times> byte list option) option" where
  "tool_main gz fraction reader_for contents creatable closable argv =
     (case parseArgs argv of
        None \<Rightarrow> Some (2, None, None)
      | Some a \<Rightarrow>
          let reader = reader_for (ar_file a)
          in if \<not> ItchFileReader_ok reader then Some (1, None, None)
             else
               let writer = map_option (\<lambda>path. ItchFileWriter_new (creatable path)) (ar_extractTo a)
               in if \<exists>w. writer = Some w \<and> \<not> ItchFileWriter_ok w then Some (1, None, None)
                  else runValidator gz fraction contents creatable closable a reader writer)"

end
