(* ===== verification/FeedToolProps.thy ===== *)
theory FeedToolProps
  imports FeedTool
begin

text \<open>
  What a run over a recorded file does, and that a file it cut out holds exactly what it validated.
\<close>

section \<open>The messages that are kept\<close>

primrec accepted :: "SymbolFilter option \<Rightarrow> byte list list \<Rightarrow> byte list list" where
  "accepted f [] = []"
| "accepted f (m # ms) =
     (case f of
        None \<Rightarrow> m # accepted None ms
      | Some g \<Rightarrow> (let (ok, g') = SymbolFilter_accept m g in (if ok then [m] else []) @ accepted (Some g') ms))"

lemma accepted_all: "accepted None ms = ms"
  by (induction ms) simp_all

lemma accepted_subset: "set (accepted f ms) \<subseteq> set ms"
proof (induction ms arbitrary: f)
  case (Cons m ms)
  have IH: "x \<in> set (accepted g ms) \<Longrightarrow> x \<in> set ms" for g x using Cons.IH by blast
  show ?case by (cases f) (auto simp: Let_def dest: IH split: prod.splits if_splits)
qed simp

definition write_all :: "byte list list \<Rightarrow> ItchFileWriter option \<Rightarrow> ItchFileWriter option" where
  "write_all ms w = map_option (fold ItchFileWriter_write ms) w"

lemma write_all_simps [simp]:
  "write_all [] w = w" "write_all (ms @ ns) w = write_all ns (write_all ms w)" "write_all [m] w = map_option (ItchFileWriter_write m) w"
  by (cases w; simp add: write_all_def)+

lemma tool_message_fields:
  "fr_reader (tool_message m s) = fr_reader s"
  "fr_validator (tool_message m s) = fold FeedValidator_onMessage (accepted (fr_filter s) [m]) (fr_validator s)"
  "fr_writer (tool_message m s) = write_all (accepted (fr_filter s) [m]) (fr_writer s)"
  "fr_kept (tool_message m s) = fr_kept s + of_nat (length (accepted (fr_filter s) [m]))"
  "accepted (fr_filter s) (m # ms) = accepted (fr_filter s) [m] @ accepted (fr_filter (tool_message m s)) ms"
  by (simp_all add: tool_message_def keep_message_def Let_def split: option.split prod.split)

text \<open>A reader in any mode gives its messages one by one; the loop hands each to the filter, the writer and the validator.\<close>

lemma tool_loop_gives:
  assumes step: "\<And>r ms. gives r ms \<Longrightarrow> \<exists>r'. ItchFileReader_next gz r = Some (case ms of [] \<Rightarrow> None | m # _ \<Rightarrow> Some m, r') \<and> gives r' (tl ms)"
    and start: "gives (fr_reader s) ms"
  shows "\<exists>s'. tool_loop gz s = Some s' \<and> fr_validator s' = fold FeedValidator_onMessage (accepted (fr_filter s) ms) (fr_validator s) \<and>
    fr_writer s' = write_all (accepted (fr_filter s) ms) (fr_writer s) \<and>
    fr_kept s' = fr_kept s + of_nat (length (accepted (fr_filter s) ms))"
  using start
proof (induction ms arbitrary: s)
  case Nil
  then obtain r' where "ItchFileReader_next gz (fr_reader s) = Some (None, r')" using step by fastforce
  then have "tool_loop gz s = Some (s\<lparr>fr_reader := r'\<rparr>)" by (subst tool_loop.simps) simp
  then show ?case by simp
next
  case (Cons m ms)
  then obtain r' where r: "ItchFileReader_next gz (fr_reader s) = Some (Some m, r')" "gives r' ms" using step by fastforce
  define s1 where "s1 = s\<lparr>fr_reader := r'\<rparr>"
  have u: "tool_loop gz s = tool_loop gz (tool_message m s1)" using r(1) by (subst tool_loop.simps) (simp add: s1_def)
  have f: "fr_filter s1 = fr_filter s" "fr_validator s1 = fr_validator s" "fr_writer s1 = fr_writer s" "fr_kept s1 = fr_kept s" "fr_reader s1 = r'" by (simp_all add: s1_def)
  have "gives (fr_reader (tool_message m s1)) ms" using r(2) by (simp add: tool_message_fields f)
  from Cons.IH [OF this] obtain s' where s': "tool_loop gz (tool_message m s1) = Some s'"
    "fr_validator s' = fold FeedValidator_onMessage (accepted (fr_filter (tool_message m s1)) ms) (fr_validator (tool_message m s1))"
    "fr_writer s' = write_all (accepted (fr_filter (tool_message m s1)) ms) (fr_writer (tool_message m s1))"
    "fr_kept s' = fr_kept (tool_message m s1) + of_nat (length (accepted (fr_filter (tool_message m s1)) ms))" by blast
  have a: "accepted (fr_filter s) (m # ms) = accepted (fr_filter s) [m] @ accepted (fr_filter (tool_message m s1)) ms"
    using tool_message_fields(5) [of s1 m ms] unfolding f .
  show ?case unfolding a using u s' by (simp only: tool_message_fields(1-4) f fold_append write_all_simps length_append of_nat_add comp_apply add.assoc) blast
qed

text \<open>A mapped file gives its messages whatever zlib does.\<close>

definition mapped_gives :: "byte list \<Rightarrow> 'g ItchFileReader \<Rightarrow> byte list list \<Rightarrow> bool" where
  "mapped_gives view r ms \<longleftrightarrow> ir_map r = Some view \<and> ir_pos r \<le> length view \<and> records (drop (ir_pos r) view) = ms"

lemma mapped_next:
  assumes "mapped_gives view r ms"
  shows "\<exists>r'. ItchFileReader_next gz r = Some (case ms of [] \<Rightarrow> None | m # _ \<Rightarrow> Some m, r') \<and> mapped_gives view r' (tl ms)"
proof -
  obtain res r' where n: "ItchFileReader_nextMapped view r = (res, r')" by fastforce
  show ?thesis using nextMapped_records [OF _ n] assms n by (auto simp: ItchFileReader_next_def mapped_gives_def)
qed

lemma accepted_storable: "\<forall>m \<in> set (accepted f (records content)). storable m"
  using accepted_subset [of f "records content"] records_lengths by blast

lemma runValidator_gives:
  assumes step: "\<And>r ms. gives r ms \<Longrightarrow> \<exists>r'. ItchFileReader_next gz r = Some (case ms of [] \<Rightarrow> None | m # _ \<Rightarrow> Some m, r') \<and> gives r' (tl ms)"
    and start: "gives reader ms" and prof: "ar_profile a \<noteq> None \<longrightarrow> tool_profiles contents a \<noteq> []"
    and v: "v = fold FeedValidator_onMessage (accepted (start_filter a) ms) (start_validator fraction a (tool_profiles contents a))"
  shows "\<exists>s. runValidator gz fraction contents creatable closable a reader writer = Some (exit_code v, Some s, written_profile creatable closable a v) \<and>
    fr_validator s = v \<and> fr_writer s = write_all (accepted (start_filter a) ms) writer \<and> fr_kept s = of_nat (length (accepted (start_filter a) ms))"
proof -
  let ?s = "\<lparr>fr_reader = reader, fr_filter = start_filter a, fr_writer = writer, fr_validator = start_validator fraction a (tool_profiles contents a), fr_kept = 0\<rparr>"
  obtain s where s: "tool_loop gz ?s = Some s" "fr_validator s = v" "fr_writer s = write_all (accepted (start_filter a) ms) writer"
    "fr_kept s = of_nat (length (accepted (start_filter a) ms))" using tool_loop_gives [of gives gz ?s ms, OF step] start v by auto
  then show ?thesis using prof by (auto simp: runValidator_def Let_def)
qed

lemma extracted_file:
  assumes "write_all ms (Some (ItchFileWriter_new True)) = Some w" and "\<forall>m \<in> set ms. storable m"
  shows "\<exists>out. iw_file w = Some out \<and> records out = ms"
proof -
  have w: "w = fold ItchFileWriter_write ms (ItchFileWriter_new True)" using assms(1) by (simp add: write_all_def)
  have "filter storable ms = ms" using assms(2) by simp
  then have "iw_file w = Some (concat (map record_bytes ms))" unfolding w using write_file [of "ItchFileWriter_new True" "[]" ms] by (simp add: ItchFileWriter_new_def)
  then show ?thesis using records_written [OF assms(2)] by blast
qed

section \<open>Properties\<close>

definition example_args :: Args where
  "example_args = Args_new\<lparr>ar_all := True\<rparr>"

definition example_content :: "byte list" where
  "example_content = record_bytes (enc_AddOrder demo_add)"

lemma example_facts: "\<not> ItchFileReader_isGzip (Some example_content)" "storable (enc_AddOrder demo_add)"
proof -
  have v: "valid_AddOrder demo_add" by (simp add: valid_AddOrder_def demo_add_def)
  have l: "length (enc_AddOrder demo_add) = 36" using addOrder_wire.length_enc [OF v] by (simp add: sizeof_AddOrder_def)
  then show "storable (enc_AddOrder demo_add)" by (auto simp: storable_def)
  show "\<not> ItchFileReader_isGzip (Some example_content)" by (simp add: ItchFileReader_isGzip_def example_content_def record_bytes_def l)
qed

lemma example_records: "records example_content = [enc_AddOrder demo_add]"
  using records_written [of "[enc_AddOrder demo_add]"] example_facts(2) by (simp add: example_content_def)

lemma example_start: "start_filter example_args = None" "tool_profiles contents example_args = []" "ar_profile example_args = None" "ar_traceReanchor example_args = None"
  by (simp_all add: start_filter_def tool_profiles_def example_args_def Args_new_def)

lemma example_recorded: "recorded rest example_content (ItchFileReader_new (Some example_content) (Some example_content) None 0)"
  using example_facts(1) by (auto simp: recorded_def)




lemma example_config:
  "table_config_ok (tool_config f example_args [])" "btc_ownRefMin (tool_config f example_args []) = 0" "btc_scope (tool_config f example_args []) = Scope_All"
  "table_fits (tool_config f example_args []) 10000"
  by (simp_all add: table_config_ok_def table_fits_def tool_config_def example_args_def Args_new_def)

lemma example_new:
  "bt_books (BookTable_new (tool_config f example_args [])) l = \<lparr>be_book = None, be_hot = kCold\<rparr>" "bt_storage (BookTable_new (tool_config f example_args [])) = []"
  "bt_cfg (BookTable_new (tool_config f example_args [])) = tool_config f example_args []"
  by (simp_all add: BookTable_new_def Let_def tool_config_def)

lemma example_clean: "clean_feed (tool_config f example_args []) (FeedValidator_onMessage (enc_AddOrder demo_add) (FeedValidator_new (tool_config f example_args []))) demo_shelf 0"
proof -
  let ?cfg = "tool_config f example_args []"
  have b: "fv_books (FeedValidator_new ?cfg) = BookTable_new ?cfg" by (simp add: FeedValidator_new_def)
  have bk: "be_book (bt_books (snd (BookTable_apply (enc_AddOrder demo_add) (BookTable_new ?cfg))) 1) = Some 0"
    by (simp add: BookTable_apply_def Let_def demo_locate example_new example_config(3) apply_to_book_def BookTable_create_def entry_upd_def)
  have o: "feed_spec 0 (FAdd 7 Buy 10000 50) Map.empty = [7 \<mapsto> demo_order]" by (simp add: demo_order_def owned_def)
  have sh: "shelf_after (enc_AddOrder demo_add) (BookTable_new ?cfg) (\<lambda>_. Map.empty) = demo_shelf"
    using bk o by (simp add: shelf_after_def demo_locate demo_feed example_new example_config(2) demo_shelf_def)
  have leg: "table_legal (enc_AddOrder demo_add) (BookTable_new ?cfg) (\<lambda>_. Map.empty)"
    using bk o demo_tame example_config(4) by (simp add: table_legal_def demo_locate demo_feed example_new example_config(2))
  have un: "uncrossed (orders_at (BookTable_locateOf (enc_AddOrder demo_add)) (snd (BookTable_apply (enc_AddOrder demo_add) (BookTable_new ?cfg))) demo_shelf)"
    using bk demo_uncrossed by (simp add: orders_at_def demo_locate demo_shelf_def)
  show ?thesis using clean_feed.message [OF clean_feed.start demo_add_bytes, of ?cfg] leg un by (simp add: b sh refers_def demo_feed)
qed


end
