(* ===== verification/OrderThread.thy ===== *)
theory OrderThread
  imports DutSession
begin

text \<open>
  The order thread of a trading session on sockets, \<^verbatim>\<open>orderLoop\<close>, \<^verbatim>\<open>orderSend\<close>, \<^verbatim>\<open>orderReadAcks\<close>, \<^verbatim>\<open>orderDrainTxStamps\<close> and \<^verbatim>\<open>orderCompleteTx\<close> of
  \<^verbatim>\<open>dut/DutSession.hpp\<close>, and the thread that receives market data (\<^verbatim>\<open>run\<close>) as far as it shares state with it: two queues, the stop request and the status. The queues are
  third-party code, arguments with the laws of \<open>ColdShard\<close>. What the system calls answer is the environment of a step. The session is built without software timing.
  A step of the order thread is one round of its loop; the handling of a packet received is a step of its own, since it can wait for the other thread.
\<close>

section \<open>Data\<close>

definition kTxRefs :: u32 where "kTxRefs = 256"
definition kNoRef :: u32 where "kNoRef = 0xFFFFFFFF"
definition kAckPayload :: nat where "kAckPayload = 128"
definition kRxBuf :: nat where "kRxBuf = 8192"

record SocketTxRef =
  tr_key :: u32
  tr_userRef :: u32

definition SocketTxRef_new :: SocketTxRef where
  "SocketTxRef_new = \<lparr>tr_key = 0, tr_userRef = kNoRef\<rparr>"

text \<open>The bytes of a request or an acknowledgement are the first \<^verbatim>\<open>len\<close> of its array.\<close>

record SendRequest =
  sr_ouch :: "byte list"
  sr_userRef :: u32
  sr_rxStamp :: u64
  sr_ctx :: u64
  sr_sendTsc :: u64

record SocketStampStats =
  sk_rxStamped :: u64
  sk_rxUnstamped :: u64
  sk_txMatched :: u64
  sk_txSkipped :: u64
  sk_txUnmatched :: u64
  sk_txEnabled :: bool
  sk_rxEnabled :: bool

text \<open>\<open>ot_pending\<close> are the packets that \<^verbatim>\<open>orderReadAcks\<close> has found in the stream and not handled yet, \<open>ot_sent\<close> what \<^verbatim>\<open>send\<close> took.\<close>

record OrderThreadState =
  ot_txRefs :: "SocketTxRef list"
  ot_inflight :: "InFlight list"
  ot_stream :: "byte list"
  ot_txBytes :: u64
  ot_txSeq :: u32
  ot_txRead :: u32
  ot_pending :: "SoupPacket list"
  ot_sent :: "byte list list"

definition OrderThreadState_new :: OrderThreadState where
  "OrderThreadState_new = \<lparr>ot_txRefs = replicate (unat kTxRefs) SocketTxRef_new, ot_inflight = replicate kInFlight InFlight_new, ot_stream = [], ot_txBytes = 0,
     ot_txSeq = 0, ot_txRead = 0, ot_pending = [], ot_sent = []\<rparr>"

text \<open>What the two threads share, with the counter of orders and the recorder of the session.\<close>

record ('q, 'a) SocketState =
  sh_sendQ :: 'q
  sh_ackQ :: 'a
  sh_orderStatus :: int
  sh_loggedIn :: bool
  sh_stamps :: SocketStampStats
  sh_ordersSent :: u32
  sh_t2t :: "(u64 \<times> u64) list"

section \<open>The receiving thread\<close>

definition socketQueueOrder ::
  "('q, SendRequest) SpscOps \<Rightarrow> Outbound \<Rightarrow> bool \<Rightarrow> u64 \<Rightarrow> u64 \<Rightarrow> u64 \<Rightarrow> ('q, 'a) SocketState \<Rightarrow> bool \<times> ('q, 'a) SocketState" where
  "socketQueueOrder sq out record_it rxStamp ctx swNow s =
     (let r = \<lparr>sr_ouch = take (ob_len out) (ob_buf out), sr_userRef = (if record_it then ob_userRef out else kNoRef), sr_rxStamp = rxStamp, sr_ctx = ctx,
               sr_sendTsc = swNow\<rparr>
      in case sq_push sq r (sh_sendQ s) of
           None \<Rightarrow> (False, s)
         | Some q \<Rightarrow> (True, s\<lparr>sh_sendQ := q, sh_ordersSent := sh_ordersSent s + 1\<rparr>))"

text \<open>One round of the loop over acknowledgements: the one that is applied.\<close>

definition takeAck :: "('a, byte list) SpscOps \<Rightarrow> ('q, 'a) SocketState \<Rightarrow> (byte list \<times> ('q, 'a) SocketState) option" where
  "takeAck aq s = map_option (\<lambda>a. (a, s\<lparr>sh_ackQ := sq_pop aq (sh_ackQ s)\<rparr>)) (sq_front aq (sh_ackQ s))"

section \<open>Time stamps of the network card\<close>

text \<open>The control messages of a received message: a stamp (seconds and nanoseconds of its third entry), an extended error with its origin and data, others.\<close>

datatype Cmsg = Cmsg_Timestamping u64 u64 | Cmsg_Recverr bool u32 | Cmsg_Other

primrec cmsgHwNs :: "Cmsg list \<Rightarrow> bool \<Rightarrow> u64 \<times> u32 \<Rightarrow> u64 \<times> u32" where
  "cmsgHwNs [] want acc = acc"
| "cmsgHwNs (c # cs) want acc =
     cmsgHwNs cs want
       (case c of
          Cmsg_Timestamping sec nsec \<Rightarrow> (sec * 1000000000 + nsec, snd acc)
        | Cmsg_Recverr timestamping data \<Rightarrow> if want \<and> timestamping then (fst acc, data) else acc
        | Cmsg_Other \<Rightarrow> acc)"

definition tx_entry :: "u32 \<Rightarrow> OrderThreadState \<Rightarrow> SocketTxRef" where
  "tx_entry i o' = ot_txRefs o' ! unat (i AND (kTxRefs - 1))"

text \<open>The loop over entries with an earlier key; the second result counts them.\<close>

function tx_skip :: "u32 \<Rightarrow> OrderThreadState \<Rightarrow> u64 \<Rightarrow> OrderThreadState \<times> u64" where
  "tx_skip key o' skipped =
     (if ot_txRead o' \<noteq> ot_txSeq o' \<and> sint (tr_key (tx_entry (ot_txRead o') o') - key) < 0
      then tx_skip key (o'\<lparr>ot_txRead := ot_txRead o' + 1\<rparr>) (skipped + 1)
      else (o', skipped))"
  by pat_completeness auto
termination
proof (relation "measure (\<lambda>(key, o', skipped). unat (ot_txSeq o' - ot_txRead o'))", goal_cases)
  case (2 key o' skipped)
  then have "ot_txSeq o' - ot_txRead o' \<noteq> 0" by auto
  then have "unat (ot_txSeq o' - ot_txRead o' - 1) < unat (ot_txSeq o' - ot_txRead o')" by (metis diff_less gr0I unat_eq_zero unat_minus_one zero_less_one)
  then show ?case by (simp add: diff_diff_eq)
qed simp

declare tx_skip.simps [simp del]

definition orderCompleteTx :: "u32 \<Rightarrow> u64 \<Rightarrow> OrderThreadState \<times> ('q, 'a) SocketState \<Rightarrow> OrderThreadState \<times> ('q, 'a) SocketState" where
  "orderCompleteTx key txNs os =
     (let (o1, skipped) = tx_skip key (fst os) (sk_txSkipped (sh_stamps (snd os)));
          s1 = (snd os)\<lparr>sh_stamps := (sh_stamps (snd os))\<lparr>sk_txSkipped := skipped\<rparr>\<rparr>
      in if ot_txRead o1 = ot_txSeq o1 \<or> tr_key (tx_entry (ot_txRead o1) o1) \<noteq> key then
           (o1, s1\<lparr>sh_stamps := (sh_stamps s1)\<lparr>sk_txUnmatched := sk_txUnmatched (sh_stamps s1) + 1\<rparr>\<rparr>)
         else
           let userRef = tr_userRef (tx_entry (ot_txRead o1) o1);
               o2 = o1\<lparr>ot_txRead := ot_txRead o1 + 1\<rparr>
           in if userRef = kNoRef \<or> txNs = 0 then (o2, s1)
              else
                let slot = ot_inflight o2 ! unat (userRef AND of_nat (kInFlight - 1))
                in if \<not> if_live slot \<or> if_userRef slot \<noteq> userRef then (o2, s1)
                   else if if_rxStamp slot \<noteq> 0 \<and> txNs > if_rxStamp slot then
                     (o2, s1\<lparr>sh_stamps := (sh_stamps s1)\<lparr>sk_txMatched := sk_txMatched (sh_stamps s1) + 1\<rparr>, sh_t2t := sh_t2t s1 @ [(txNs - if_rxStamp slot, if_ctx slot)]\<rparr>)
                   else (o2, s1))"

text \<open>The messages of the error queue, up to the first failure of \<^verbatim>\<open>recvmsg\<close>.\<close>

definition orderDrainTxStamps :: "Cmsg list list \<Rightarrow> OrderThreadState \<times> ('q, 'a) SocketState \<Rightarrow> OrderThreadState \<times> ('q, 'a) SocketState" where
  "orderDrainTxStamps errs os =
     fold (\<lambda>cs os. let (ns, key) = cmsgHwNs cs True (0, 0xFFFFFFFF) in if key \<noteq> 0xFFFFFFFF then orderCompleteTx key ns os else os) errs os"

section \<open>Sending and receiving\<close>

text \<open>\<open>ok\<close> says that \<^verbatim>\<open>send\<close> returned more than 0; the code then takes the whole packet for sent, a short write included.\<close>

definition orderSend :: "bool \<Rightarrow> byte list \<Rightarrow> u32 \<Rightarrow> u64 \<Rightarrow> u64 \<Rightarrow> u64 \<Rightarrow> OrderThreadState \<Rightarrow> OrderThreadState" where
  "orderSend ok pkt userRef rxStamp ctx sendTsc o' =
     (if \<not> ok then o'
      else
        let o1 = o'\<lparr>ot_sent := ot_sent o' @ [pkt], ot_txBytes := ot_txBytes o' + of_nat (length pkt)\<rparr>;
            o2 = (if ot_txSeq o1 - ot_txRead o1 = kTxRefs then o1\<lparr>ot_txRead := ot_txRead o1 + 1\<rparr> else o1);
            o3 = o2\<lparr>ot_txRefs := (ot_txRefs o2)[unat (ot_txSeq o2 AND (kTxRefs - 1)) := \<lparr>tr_key = ucast (ot_txBytes o2 - 1), tr_userRef = userRef\<rparr>],
                    ot_txSeq := ot_txSeq o2 + 1\<rparr>
        in if userRef \<noteq> kNoRef then
             o3\<lparr>ot_inflight := (ot_inflight o3)[unat (userRef AND of_nat (kInFlight - 1)) :=
                  \<lparr>if_userRef = userRef, if_rxStamp = rxStamp, if_ctx = ctx, if_sendTsc = sendTsc, if_live = True\<rparr>]\<rparr>
           else o3)"

definition order_login :: "byte list \<Rightarrow> byte list \<Rightarrow> byte list" where
  "order_login session user =
     soup_pack (replicate 256 0) (SoupType_code Soup_LoginRequest)
       (enc_LoginRequest \<lparr>lr_username = alpha_store 6 user, lr_password = replicate 10 0, lr_requestedSession = alpha_store 10 session,
          lr_requestedSequenceNumber = replicate 20 0\<rparr>)"

text \<open>What \<^verbatim>\<open>orderReadAcks\<close> does with the result of \<^verbatim>\<open>recv\<close> (none for an error): false when the connection is closed. The packets it finds are handled one by one.\<close>

definition orderReadAcks :: "byte list option \<Rightarrow> OrderThreadState \<Rightarrow> bool \<times> OrderThreadState" where
  "orderReadAcks got o' =
     (case got of
        None \<Rightarrow> (True, o')
      | Some bytes \<Rightarrow>
          if bytes = [] then (False, o')
          else let (ps, rest) = soup_drain (ot_stream o' @ bytes) in (True, o'\<lparr>ot_stream := rest, ot_pending := ps\<rparr>))"

text \<open>The handling of a packet: none while the queue of acknowledgements is full and the loop \<^verbatim>\<open>while (!try_push(a))\<close> goes round.\<close>

definition order_packet :: "('a, byte list) SpscOps \<Rightarrow> SoupPacket \<Rightarrow> ('q, 'a) SocketState \<Rightarrow> ('q, 'a) SocketState option" where
  "order_packet aq p s =
     (if sp_type p = SoupType_code Soup_LoginAccepted then Some (s\<lparr>sh_loggedIn := True\<rparr>)
      else if sp_type p = SoupType_code Soup_SequencedData \<and> length (sp_payload p) \<le> kAckPayload then
        map_option (\<lambda>q. s\<lparr>sh_ackQ := q\<rparr>) (sq_push aq (sp_payload p) (sh_ackQ s))
      else Some s)"

section \<open>The threads\<close>

text \<open>Where the order thread is: before the signal to start, in its loop with the count of idle rounds, or at its end.\<close>

datatype OrderPhase = Ph_Wait | Ph_Loop u32 | Ph_Done

text \<open>What the system answers in a round: whether \<^verbatim>\<open>send\<close> takes a packet, what \<^verbatim>\<open>recv\<close> gives and the messages of the error queue.\<close>

record OrderEnv =
  oe_send :: bool
  oe_recv :: "byte list option"
  oe_errs :: "Cmsg list list"

record ('q, 'a) SocketThreads =
  st_phase :: OrderPhase
  st_stop :: bool
  st_go :: bool
  st_order :: OrderThreadState
  st_shared :: "('q, 'a) SocketState"
  st_joining :: bool
  st_applied :: "byte list list"

text \<open>A round of the order thread, none when it makes no progress. The second result says that it read what \<^verbatim>\<open>recv\<close> gave.\<close>

definition order_round ::
  "('q, SendRequest) SpscOps \<Rightarrow> ('a, byte list) SpscOps \<Rightarrow> byte list \<Rightarrow> OrderEnv \<Rightarrow> ('q, 'a) SocketThreads \<Rightarrow> (('q, 'a) SocketThreads \<times> byte list \<times> SendRequest option) option" where
  "order_round sq aq login env t =
     (case st_phase t of
        Ph_Done \<Rightarrow> None
      | Ph_Wait \<Rightarrow>
          if st_go t then Some (t\<lparr>st_phase := Ph_Loop 0, st_order := orderSend (oe_send env) login kNoRef 0 0 0 (st_order t)\<rparr>, [], None)
          else if st_stop t then Some (t\<lparr>st_phase := Ph_Done\<rparr>, [], None)
          else None
      | Ph_Loop idle \<Rightarrow>
          (case ot_pending (st_order t) of
             p # ps \<Rightarrow>
               map_option (\<lambda>s. (t\<lparr>st_order := (st_order t)\<lparr>ot_pending := ps\<rparr>, st_shared := s\<rparr>, [], None)) (order_packet aq p (st_shared t))
           | [] \<Rightarrow>
               if st_stop t then Some (t\<lparr>st_phase := Ph_Done\<rparr>, [], None)
               else
                 case sq_front sq (sh_sendQ (st_shared t)) of
                   Some r \<Rightarrow>
                     Some (t\<lparr>st_order := orderSend (oe_send env) (packUnsequencedData (replicate 256 0) (sr_ouch r)) (sr_userRef r) (sr_rxStamp r) (sr_ctx r) (sr_sendTsc r) (st_order t),
                             st_shared := (st_shared t)\<lparr>sh_sendQ := sq_pop sq (sh_sendQ (st_shared t))\<rparr>\<rparr>, [], Some r)
                 | None \<Rightarrow>
                     let idle' = idle + 1; t1 = t\<lparr>st_phase := Ph_Loop idle'\<rparr>; o1 = st_order t1
                     in if idle' AND 7 = 0 \<and> sk_txEnabled (sh_stamps (st_shared t1)) \<and> ot_txRead o1 \<noteq> ot_txSeq o1 then
                          let (o2, s2) = orderDrainTxStamps (oe_errs env) (o1, st_shared t1) in Some (t1\<lparr>st_order := o2, st_shared := s2\<rparr>, [], None)
                        else if idle' AND 7 = 4 then
                          let (ok, o2) = orderReadAcks (oe_recv env) o1
                          in if ok then Some (t1\<lparr>st_order := o2\<rparr>, case oe_recv env of None \<Rightarrow> [] | Some bytes \<Rightarrow> bytes, None)
                             else Some (t1\<lparr>st_order := o2, st_phase := Ph_Done, st_shared := (st_shared t1)\<lparr>sh_orderStatus := - 2\<rparr>\<rparr>, [], None)
                        else Some (t1, [], None)))"

text \<open>
  \<open>sock_run sq aq login t0 queued taken received t\<close>: from \<open>t0\<close> the two threads can reach \<open>t\<close>, after the receiving thread has queued the requests \<open>queued\<close> and the order thread
  has taken \<open>taken\<close> out of the queue, each with the answer of \<^verbatim>\<open>send\<close>, and received the bytes \<open>received\<close>, at most a buffer at a time. The receiving thread signals the start, queues orders, applies acknowledgements and, when it leaves its loop, requests the stop
  and waits for the end of the order thread.
\<close>

inductive sock_run ::
  "('q, SendRequest) SpscOps \<Rightarrow> ('a, byte list) SpscOps \<Rightarrow> byte list \<Rightarrow> ('q, 'a) SocketThreads \<Rightarrow> SendRequest list \<Rightarrow> (SendRequest \<times> bool) list \<Rightarrow> byte list \<Rightarrow>
    ('q, 'a) SocketThreads \<Rightarrow> bool" for sq aq login t0 where
  start: "sock_run sq aq login t0 [] [] [] t0"
| signal: "sock_run sq aq login t0 queued taken received t \<Longrightarrow> \<not> st_joining t \<Longrightarrow> sock_run sq aq login t0 queued taken received (t\<lparr>st_go := True\<rparr>)"
| queue: "sock_run sq aq login t0 queued taken received t \<Longrightarrow> \<not> st_joining t \<Longrightarrow> socketQueueOrder sq out rec rx ctx now (st_shared t) = (True, s) \<Longrightarrow>
    sock_run sq aq login t0 (queued @ [\<lparr>sr_ouch = take (ob_len out) (ob_buf out), sr_userRef = (if rec then ob_userRef out else kNoRef), sr_rxStamp = rx, sr_ctx = ctx,
      sr_sendTsc = now\<rparr>]) taken received (t\<lparr>st_shared := s\<rparr>)"
| apply_ack: "sock_run sq aq login t0 queued taken received t \<Longrightarrow> \<not> st_joining t \<Longrightarrow> takeAck aq (st_shared t) = Some (a, s) \<Longrightarrow>
    sock_run sq aq login t0 queued taken received (t\<lparr>st_shared := s, st_applied := st_applied t @ [a]\<rparr>)"
| leave: "sock_run sq aq login t0 queued taken received t \<Longrightarrow> sock_run sq aq login t0 queued taken received (t\<lparr>st_stop := True, st_joining := True\<rparr>)"
| order: "sock_run sq aq login t0 queued taken received t \<Longrightarrow> \<forall>bytes. oe_recv env = Some bytes \<longrightarrow> length bytes \<le> kRxBuf \<Longrightarrow> order_round sq aq login env t = Some (t', bytes, took) \<Longrightarrow>
    sock_run sq aq login t0 queued (case took of None \<Rightarrow> taken | Some r \<Rightarrow> taken @ [(r, oe_send env)]) (received @ bytes) t'"

definition SocketThreads_new :: "('q, 'a) SocketState \<Rightarrow> ('q, 'a) SocketThreads" where
  "SocketThreads_new s =
     \<lparr>st_phase = Ph_Wait, st_stop = False, st_go = False, st_order = OrderThreadState_new, st_shared = s, st_joining = False, st_applied = []\<rparr>"

end
