(* ===== verification/OrderThreadProps.thy ===== *)
theory OrderThreadProps
  imports OrderThread
begin

text \<open>
  What the two threads of a session on sockets do together: orders leave and acknowledgements arrive in order, a time stamp finds its packet, and the stop can block.
\<close>

section \<open>What passes the queues\<close>

definition acks_of :: "SoupPacket list \<Rightarrow> byte list list" where
  "acks_of ps = map sp_payload (filter (\<lambda>p. sp_type p = SoupType_code Soup_SequencedData \<and> length (sp_payload p) \<le> kAckPayload) ps)"

lemma acks_of_simps [simp]: "acks_of [] = []" "acks_of (ps @ qs) = acks_of ps @ acks_of qs"
  by (simp_all add: acks_of_def)

definition request_packet :: "SendRequest \<Rightarrow> byte list" where
  "request_packet r = packUnsequencedData (replicate 256 0) (sr_ouch r)"

text \<open>What the network card's stamps do not touch.\<close>

definition same_traffic :: "OrderThreadState \<times> ('q, 'a) SocketState \<Rightarrow> OrderThreadState \<times> ('q, 'a) SocketState \<Rightarrow> bool" where
  "same_traffic a b \<longleftrightarrow> ot_sent (fst b) = ot_sent (fst a) \<and> ot_stream (fst b) = ot_stream (fst a) \<and> ot_pending (fst b) = ot_pending (fst a) \<and>
     sh_sendQ (snd b) = sh_sendQ (snd a) \<and> sh_ackQ (snd b) = sh_ackQ (snd a)"

lemma tx_skip_core: "\<exists>r. fst (tx_skip key o' k) = o'\<lparr>ot_txRead := r\<rparr>"
proof (induction key o' k rule: tx_skip.induct)
  case (1 key o' k)
  show ?case
  proof (cases "ot_txRead o' \<noteq> ot_txSeq o' \<and> sint (tr_key (tx_entry (ot_txRead o') o') - key) < 0")
    case True
    then show ?thesis using 1 by (subst tx_skip.simps) auto
  next
    case False
    then show ?thesis by (subst tx_skip.simps) (auto intro: exI [of _ "ot_txRead o'"])
  qed
qed

lemma complete_core:
  "\<exists>r. fst (orderCompleteTx key ns os) = (fst os)\<lparr>ot_txRead := r\<rparr>" "sh_sendQ (snd (orderCompleteTx key ns os)) = sh_sendQ (snd os)"
  "sh_ackQ (snd (orderCompleteTx key ns os)) = sh_ackQ (snd os)"
proof -
  obtain o1 k where t: "tx_skip key (fst os) (sk_txSkipped (sh_stamps (snd os))) = (o1, k)" by fastforce
  then obtain r where r: "o1 = (fst os)\<lparr>ot_txRead := r\<rparr>" using tx_skip_core [of key "fst os"] by (metis fst_conv)
  have "fst (orderCompleteTx key ns os) = o1 \<or> fst (orderCompleteTx key ns os) = o1\<lparr>ot_txRead := ot_txRead o1 + 1\<rparr>"
    by (simp add: orderCompleteTx_def t Let_def)
  then show "\<exists>r. fst (orderCompleteTx key ns os) = (fst os)\<lparr>ot_txRead := r\<rparr>" unfolding r by auto
  show "sh_sendQ (snd (orderCompleteTx key ns os)) = sh_sendQ (snd os)" "sh_ackQ (snd (orderCompleteTx key ns os)) = sh_ackQ (snd os)"
    by (simp_all add: orderCompleteTx_def t Let_def)
qed

lemma drain_traffic: "same_traffic os (orderDrainTxStamps errs os)"
proof -
  have c: "same_traffic a (orderCompleteTx key ns a)" for key ns and a :: "OrderThreadState \<times> ('a, 'b) SocketState"
    using complete_core [of key ns a] by (auto simp: same_traffic_def)
  have s: "same_traffic a (let (ns, key) = cmsgHwNs cs True (0, 0xFFFFFFFF) in if key \<noteq> 0xFFFFFFFF then orderCompleteTx key ns a else a)" for cs
    and a :: "OrderThreadState \<times> ('a, 'b) SocketState"
    using c by (simp add: same_traffic_def split: prod.split)
  show ?thesis unfolding orderDrainTxStamps_def
  proof (induction errs arbitrary: os)
    case (Cons e es)
    then show ?case using s [of os e] by (simp add: same_traffic_def)
  qed (simp add: same_traffic_def)
qed

lemma send_fields [simp]:
  "ot_sent (orderSend ok pkt ref rx ctx tsc o') = (if ok then ot_sent o' @ [pkt] else ot_sent o')"
  "ot_stream (orderSend ok pkt ref rx ctx tsc o') = ot_stream o'" "ot_pending (orderSend ok pkt ref rx ctx tsc o') = ot_pending o'"
  by (simp_all add: orderSend_def Let_def)

definition traffic_inv ::
  "('q \<Rightarrow> SendRequest list) \<Rightarrow> ('a \<Rightarrow> byte list list) \<Rightarrow> byte list \<Rightarrow> SendRequest list \<Rightarrow> (SendRequest \<times> bool) list \<Rightarrow> byte list \<Rightarrow> ('q, 'a) SocketThreads \<Rightarrow> bool" where
  "traffic_inv qs as login queued taken received t \<longleftrightarrow>
     queued = map fst taken @ qs (sh_sendQ (st_shared t)) \<and>
     (\<exists>first. (first = [] \<or> first = [login]) \<and> (st_phase t = Ph_Wait \<longrightarrow> first = [] \<and> taken = []) \<and>
        ot_sent (st_order t) = first @ map (request_packet \<circ> fst) (filter snd taken)) \<and>
     (\<exists>ps. soup_drain received = (ps, ot_stream (st_order t)) \<and>
        acks_of ps = st_applied t @ as (sh_ackQ (st_shared t)) @ acks_of (ot_pending (st_order t)))"

lemma round_traffic:
  assumes laws: "spsc_laws sq qs" "spsc_laws aq as" and inv: "traffic_inv qs as login queued taken received t"
    and step: "order_round sq aq login env t = Some (t', bytes, took)"
  shows "traffic_inv qs as login queued (case took of None \<Rightarrow> taken | Some r \<Rightarrow> taken @ [(r, oe_send env)]) (received @ bytes) t'"
proof -
  obtain first ps where i: "queued = map fst taken @ qs (sh_sendQ (st_shared t))" "first = [] \<or> first = [login]" "st_phase t = Ph_Wait \<longrightarrow> first = [] \<and> taken = []"
    "ot_sent (st_order t) = first @ map (request_packet \<circ> fst) (filter snd taken)" "soup_drain received = (ps, ot_stream (st_order t))"
    "acks_of ps = st_applied t @ as (sh_ackQ (st_shared t)) @ acks_of (ot_pending (st_order t))"
    using inv unfolding traffic_inv_def by blast
  show ?thesis
  proof (cases "st_phase t")
    case Ph_Done
    then show ?thesis using step by (simp add: order_round_def)
  next
    case Ph_Wait
    then have t': "bytes = [] \<and> took = None \<and>
        (t' = t\<lparr>st_phase := Ph_Loop 0, st_order := orderSend (oe_send env) login kNoRef 0 0 0 (st_order t)\<rparr> \<or> t' = t\<lparr>st_phase := Ph_Done\<rparr>)"
      using step by (auto simp: order_round_def split: if_splits)
    then show ?thesis using i Ph_Wait unfolding traffic_inv_def by auto
  next
    case loop: (Ph_Loop idle)
    show ?thesis
    proof (cases "ot_pending (st_order t)")
      case (Cons p rest)
      then obtain s where s: "order_packet aq p (st_shared t) = Some s" "t' = t\<lparr>st_order := (st_order t)\<lparr>ot_pending := rest\<rparr>, st_shared := s\<rparr>" "bytes = []" "took = None"
        using step loop by (auto simp: order_round_def)
      have "sh_sendQ s = sh_sendQ (st_shared t)" "as (sh_ackQ s) @ acks_of rest = as (sh_ackQ (st_shared t)) @ acks_of (p # rest)"
        using s(1) laws(2) by (auto simp: order_packet_def acks_of_def spsc_laws_def split: if_splits)
      then show ?thesis unfolding traffic_inv_def using i s(2-4) loop Cons by auto
    next
      case Nil
      show ?thesis
      proof (cases "st_stop t")
        case True
        then have "t' = t\<lparr>st_phase := Ph_Done\<rparr>" "bytes = []" "took = None" using step loop Nil by (simp_all add: order_round_def)
        then show ?thesis unfolding traffic_inv_def using i loop by auto
      next
        case run: False
        show ?thesis
        proof (cases "sq_front sq (sh_sendQ (st_shared t))")
          case (Some r)
          then obtain more where m: "qs (sh_sendQ (st_shared t)) = r # more" "qs (sq_pop sq (sh_sendQ (st_shared t))) = more"
            using laws(1) by (cases "qs (sh_sendQ (st_shared t))") (auto simp: spsc_laws_def)
          have "bytes = []" "took = Some r" "t' = t\<lparr>st_order := orderSend (oe_send env) (request_packet r) (sr_userRef r) (sr_rxStamp r) (sr_ctx r) (sr_sendTsc r) (st_order t),
               st_shared := (st_shared t)\<lparr>sh_sendQ := sq_pop sq (sh_sendQ (st_shared t))\<rparr>\<rparr>"
            using step loop Nil run Some by (simp_all add: order_round_def request_packet_def)
          then show ?thesis unfolding traffic_inv_def using i loop m by auto
        next
          case None
          define t1 where "t1 = t\<lparr>st_phase := Ph_Loop (idle + 1)\<rparr>"
          have f1: "st_order t1 = st_order t" "st_shared t1 = st_shared t" "st_applied t1 = st_applied t" by (simp_all add: t1_def)
          consider (drain) o2 s2 where "orderDrainTxStamps (oe_errs env) (st_order t1, st_shared t1) = (o2, s2)" "t' = t1\<lparr>st_order := o2, st_shared := s2\<rparr>" "bytes = []" "took = None"
            | (read) o2 where "orderReadAcks (oe_recv env) (st_order t1) = (True, o2)" "t' = t1\<lparr>st_order := o2\<rparr>"
                "bytes = (case oe_recv env of None \<Rightarrow> [] | Some b \<Rightarrow> b)" "took = None"
            | (closed) o2 where "orderReadAcks (oe_recv env) (st_order t1) = (False, o2)" "bytes = []" "took = None"
                "t' = t1\<lparr>st_order := o2, st_phase := Ph_Done, st_shared := (st_shared t1)\<lparr>sh_orderStatus := - 2\<rparr>\<rparr>"
            | (idle) "t' = t1" "bytes = []" "took = None"
            using step loop Nil run None unfolding order_round_def by (auto simp: t1_def Let_def split: if_splits prod.splits)
          then show ?thesis
          proof cases
            case drain
            then have "same_traffic (st_order t, st_shared t) (o2, s2)" using drain_traffic [of "(st_order t1, st_shared t1)" "oe_errs env"] by (simp add: f1)
            then show ?thesis unfolding traffic_inv_def using i drain loop Nil by (auto simp: same_traffic_def t1_def)
          next
            case read
            show ?thesis
            proof (cases "oe_recv env")
              case n: None
              then show ?thesis unfolding traffic_inv_def using i read loop Nil by (auto simp: orderReadAcks_def t1_def)
            next
              case (Some b)
              then obtain qs' rest where d: "soup_drain (ot_stream (st_order t) @ b) = (qs', rest)" "o2 = (st_order t)\<lparr>ot_stream := rest, ot_pending := qs'\<rparr>"
                using read(1) by (auto simp: orderReadAcks_def f1 split: if_splits prod.splits)
              have "soup_drain (received @ b) = (ps @ qs', rest)" using soup_drain_append [of received b] i(5) d(1) by simp
              then show ?thesis unfolding traffic_inv_def using i read(2-4) d(2) loop Nil Some by (auto simp: t1_def)
            qed
          next
            case closed
            then have "o2 = st_order t" by (auto simp: orderReadAcks_def f1 split: option.splits if_splits prod.splits)
            then show ?thesis unfolding traffic_inv_def using i closed loop Nil by (auto simp: t1_def)
          next
            case idle
            then show ?thesis unfolding traffic_inv_def using i loop Nil by (auto simp: t1_def)
          qed
        qed
      qed
    qed
  qed
qed

lemma run_traffic:
  assumes "sock_run sq aq login t0 queued taken received t" and laws: "spsc_laws sq qs" "spsc_laws aq as"
    and start: "t0 = SocketThreads_new s0" "qs (sh_sendQ s0) = []" "as (sh_ackQ s0) = []"
  shows "traffic_inv qs as login queued taken received t"
  using assms(1)
proof induction
  case start
  have "soup_drain [] = ([], [])" using soup_drain_rest [of "[]"] by (simp add: soup_drain.simps soup_parse_def soup_kHeaderSize_def)
  then show ?case using assms(4-6) by (simp add: traffic_inv_def SocketThreads_new_def OrderThreadState_new_def)
next
  case (signal queued taken received t)
  then show ?case by (simp add: traffic_inv_def)
next
  case (queue queued taken received t out rec rx ctx now s)
  then have "qs (sh_sendQ s) = qs (sh_sendQ (st_shared t)) @ [\<lparr>sr_ouch = take (ob_len out) (ob_buf out), sr_userRef = (if rec then ob_userRef out else kNoRef), sr_rxStamp = rx,
      sr_ctx = ctx, sr_sendTsc = now\<rparr>]" "sh_ackQ s = sh_ackQ (st_shared t)"
    using laws(1) by (auto simp: socketQueueOrder_def spsc_laws_def Let_def split: option.splits)
  then show ?case using queue.IH by (simp add: traffic_inv_def)
next
  case (apply_ack queued taken received t a s)
  then have "as (sh_ackQ (st_shared t)) = a # as (sh_ackQ s)" "sh_sendQ s = sh_sendQ (st_shared t)"
    using laws(2) by (cases "as (sh_ackQ (st_shared t))"; auto simp: takeAck_def spsc_laws_def)+
  then show ?case using apply_ack.IH by (simp add: traffic_inv_def)
next
  case (leave queued taken received t)
  then show ?case by (simp add: traffic_inv_def)
next
  case (order queued taken received t env t' bytes took)
  then show ?case using round_traffic [OF laws] by blast
qed

section \<open>The ring of sent packets\<close>

text \<open>The offset in the stream of the last byte of the packet \<open>k\<close>.\<close>

definition end_offset :: "byte list list \<Rightarrow> nat \<Rightarrow> nat" where
  "end_offset sent k = length (concat (take (Suc k) sent)) - 1"

definition in_ring :: "OrderThreadState \<Rightarrow> nat" where
  "in_ring o' = unat (ot_txSeq o' - ot_txRead o')"

text \<open>The ring holds the last \<open>in_ring\<close> packets: the key of each is the offset of its last byte in 32 bits, and its reference is that of \<open>refs\<close>.\<close>

definition tx_ok :: "u32 list \<Rightarrow> OrderThreadState \<Rightarrow> bool" where
  "tx_ok refs o' \<longleftrightarrow> length (ot_txRefs o') = 256 \<and> in_ring o' \<le> 256 \<and> in_ring o' \<le> length (ot_sent o') \<and> length refs = length (ot_sent o') \<and>
     ot_txBytes o' = of_nat (length (concat (ot_sent o'))) \<and> (\<forall>pkt \<in> set (ot_sent o'). pkt \<noteq> []) \<and>
     (\<forall>i < in_ring o'. tx_entry (ot_txRead o' + of_nat i) o' =
        \<lparr>tr_key = of_nat (end_offset (ot_sent o') (length (ot_sent o') - in_ring o' + i)), tr_userRef = refs ! (length (ot_sent o') - in_ring o' + i)\<rparr>)"

lemma unat_low_bits:
  assumes "n \<le> 32"
  shows "unat ((w + of_nat i :: u32) AND mask n) = (unat w + i) mod 2 ^ n"
proof -
  have "unat ((w + of_nat i) AND mask n) = take_bit n (unat (w + of_nat i))" by (simp only: take_bit_eq_mask [symmetric] unsigned_take_bit_eq)
  also have "\<dots> = (unat w + i mod 2 ^ 32) mod 2 ^ 32 mod 2 ^ n" by (simp add: take_bit_eq_mod unat_word_ariths unsigned_of_nat)
  also have "\<dots> = (unat w + i) mod 2 ^ n" using assms by (simp only: mod_mod_cancel [OF le_imp_power_dvd] mod_add_right_eq)
  finally show ?thesis .
qed

lemma ring_slot: "unat ((w + of_nat i) AND (kTxRefs - 1)) = (unat w + i) mod 256"
  using unat_low_bits [of 8 w i] by (simp add: kTxRefs_def mask_eq_decr_exp)

lemma ring_seq: "ot_txSeq o' = ot_txRead o' + of_nat (in_ring o')"
  by (simp add: in_ring_def)

lemma ring_advance: "j \<le> in_ring o' \<Longrightarrow> in_ring (o'\<lparr>ot_txRead := ot_txRead o' + of_nat j\<rparr>) = in_ring o' - j"
proof -
  assume j: "j \<le> in_ring o'"
  have "ot_txSeq o' - (ot_txRead o' + of_nat j) = of_nat (in_ring o' - j)" using j by (simp add: ring_seq of_nat_diff)
  moreover have "in_ring o' - j < 2 ^ 32" using unat_lt2p [of "ot_txSeq o' - ot_txRead o'"] by (simp add: in_ring_def)
  ultimately show ?thesis by (simp add: in_ring_def unsigned_of_nat take_bit_eq_mod)
qed

lemma tx_ok_advance:
  assumes "tx_ok refs o'" and "j \<le> in_ring o'"
  shows "tx_ok refs (o'\<lparr>ot_txRead := ot_txRead o' + of_nat j\<rparr>)"
proof -
  let ?o = "o'\<lparr>ot_txRead := ot_txRead o' + of_nat j\<rparr>"
  have n: "in_ring ?o = in_ring o' - j" by (rule ring_advance [OF assms(2)])
  have "tx_entry (ot_txRead ?o + of_nat i) ?o =
      \<lparr>tr_key = of_nat (end_offset (ot_sent ?o) (length (ot_sent ?o) - in_ring ?o + i)), tr_userRef = refs ! (length (ot_sent ?o) - in_ring ?o + i)\<rparr>"
    if "i < in_ring ?o" for i
  proof -
    have "tx_entry (ot_txRead ?o + of_nat i) ?o = tx_entry (ot_txRead o' + of_nat (j + i)) o'" by (simp add: tx_entry_def add.assoc)
    moreover have "length (ot_sent ?o) - in_ring ?o + i = length (ot_sent o') - in_ring o' + (j + i)" using assms n by (simp add: tx_ok_def)
    moreover have "j + i < in_ring o'" using that n by simp
    moreover have "ot_sent ?o = ot_sent o'" by simp
    moreover have "\<forall>i < in_ring o'. tx_entry (ot_txRead o' + of_nat i) o' = \<lparr>tr_key = of_nat (end_offset (ot_sent o') (length (ot_sent o') - in_ring o' + i)),
        tr_userRef = refs ! (length (ot_sent o') - in_ring o' + i)\<rparr>" using assms(1) unfolding tx_ok_def by blast
    ultimately show ?thesis by (simp only:)
  qed
  moreover have "in_ring ?o \<le> 256 \<and> in_ring ?o \<le> length (ot_sent o')" using assms n by (simp add: tx_ok_def le_diff_conv trans_le_add1)
  ultimately show ?thesis using assms(1) unfolding tx_ok_def by simp
qed

lemma end_offset_next:
  assumes "Suc k < length sent" and "\<forall>pkt \<in> set sent. pkt \<noteq> []"
  shows "end_offset sent (Suc k) = end_offset sent k + length (sent ! Suc k)" and "0 < length (sent ! Suc k)"
proof -
  have "take (Suc (Suc k)) sent = take (Suc k) sent @ [sent ! Suc k]" using assms(1) by (simp add: take_Suc_conv_app_nth)
  moreover have "sent ! 0 \<noteq> []" "sent = sent ! 0 # tl sent" using assms by (cases sent; auto)+
  then have "0 < length (concat (take (Suc k) sent))" by (metis concat.simps(2) take_Suc_Cons append_is_Nil_conv length_greater_0_conv)
  moreover define c where "c = length (concat (take (Suc k) sent))"
  ultimately have "length (concat (take (Suc (Suc k)) sent)) = c + length (sent ! Suc k)" "0 < c" by simp_all
  then show "end_offset sent (Suc k) = end_offset sent k + length (sent ! Suc k)" unfolding end_offset_def c_def [symmetric] by linarith
  show "0 < length (sent ! Suc k)" using assms by auto
qed

lemma end_offset_mono:
  assumes "\<forall>pkt \<in> set sent. pkt \<noteq> []" and "j < k" and "k < length sent"
  shows "end_offset sent j < end_offset sent k"
  using assms(2,3)
proof (induction k)
  case (Suc k)
  have "end_offset sent k < end_offset sent (Suc k)" using end_offset_next [OF Suc.prems(2) assms(1)] by simp
  then show ?case using Suc by (cases "j = k") auto
qed simp

lemma tx_ok_push:
  assumes "tx_ok refs o'" and "in_ring o' < 256" and "pkt \<noteq> []"
    and "o2 = o'\<lparr>ot_sent := ot_sent o' @ [pkt], ot_txBytes := ot_txBytes o' + of_nat (length pkt),
      ot_txRefs := (ot_txRefs o')[unat (ot_txSeq o' AND (kTxRefs - 1)) := \<lparr>tr_key = ucast (ot_txBytes o' + of_nat (length pkt) - 1), tr_userRef = ref\<rparr>],
      ot_txSeq := ot_txSeq o' + 1\<rparr>"
  shows "tx_ok (refs @ [ref]) o2"
proof -
  let ?n = "in_ring o'" and ?N = "length (ot_sent o')"
  have ok: "length (ot_txRefs o') = 256" "?n \<le> ?N" "length refs = ?N" "ot_txBytes o' = of_nat (length (concat (ot_sent o')))" "\<forall>p \<in> set (ot_sent o'). p \<noteq> []"
    "\<forall>i < ?n. tx_entry (ot_txRead o' + of_nat i) o' = \<lparr>tr_key = of_nat (end_offset (ot_sent o') (?N - ?n + i)), tr_userRef = refs ! (?N - ?n + i)\<rparr>"
    using assms(1) by (simp_all add: tx_ok_def)
  have f: "ot_sent o2 = ot_sent o' @ [pkt]" "ot_txRead o2 = ot_txRead o'" "ot_txSeq o2 = ot_txSeq o' + 1" "ot_txBytes o2 = ot_txBytes o' + of_nat (length pkt)"
    "ot_txRefs o2 = (ot_txRefs o')[(unat (ot_txRead o') + ?n) mod 256 := \<lparr>tr_key = ucast (ot_txBytes o' + of_nat (length pkt) - 1), tr_userRef = ref\<rparr>]"
    unfolding assms(4) using ring_slot [of "ot_txRead o'" ?n] by (simp_all add: ring_seq [symmetric])
  have n2: "in_ring o2 = Suc ?n"
  proof -
    have "ot_txSeq o2 - ot_txRead o2 = of_nat (Suc ?n)" by (simp add: f ring_seq [of o'])
    then show ?thesis using assms(2) by (simp add: in_ring_def unsigned_of_nat take_bit_eq_mod del: of_nat_Suc)
  qed
  have entry: "tx_entry (ot_txRead o2 + of_nat i) o2 = ot_txRefs o2 ! ((unat (ot_txRead o') + i) mod 256)" for i by (simp add: tx_entry_def ring_slot f(2))
  have "tx_entry (ot_txRead o2 + of_nat i) o2 = \<lparr>tr_key = of_nat (end_offset (ot_sent o2) (?N - ?n + i)), tr_userRef = (refs @ [ref]) ! (?N - ?n + i)\<rparr>" if "i < Suc ?n" for i
  proof (cases "i = ?n")
    case True
    have k: "length (concat (ot_sent o' @ [pkt])) - 1 = length (concat (ot_sent o')) + (length pkt - 1)" "1 \<le> length pkt" using assms(3) by (cases pkt; simp)+
    have "ucast (of_nat (length (concat (ot_sent o'))) + of_nat (length pkt) - 1 :: u64) = (of_nat (length (concat (ot_sent o')) + (length pkt - 1)) :: u32)"
    proof -
      have "of_nat (length (concat (ot_sent o'))) + of_nat (length pkt) - 1 = (of_nat (length (concat (ot_sent o')) + (length pkt - 1)) :: u64)" using k(2) by (simp add: of_nat_diff)
      then show ?thesis by (simp add: unsigned_of_nat word_of_nat_eq_iff take_bit_take_bit del: of_nat_add)
    qed
    moreover have "(unat (ot_txRead o') + ?n) mod 256 < length (ot_txRefs o')" using ok(1) by simp
    ultimately show ?thesis unfolding entry using True ok(2,3,4) k by (simp add: f end_offset_def nth_append)
  next
    case False
    then have i: "i < ?n" using that by simp
    have "(unat (ot_txRead o') + i) mod 256 \<noteq> (unat (ot_txRead o') + ?n) mod 256"
      using i assms(2) mod_eq_dvd_iff_nat [of "unat (ot_txRead o') + i" "unat (ot_txRead o') + ?n" 256] nat_dvd_not_less [of "?n - i" 256] by auto
    then have "ot_txRefs o2 ! ((unat (ot_txRead o') + i) mod 256) = tx_entry (ot_txRead o' + of_nat i) o'" by (simp add: f tx_entry_def ring_slot)
    moreover have "end_offset (ot_sent o2) (?N - ?n + i) = end_offset (ot_sent o') (?N - ?n + i)" using i ok(2) by (simp add: f end_offset_def)
    moreover have "?N - ?n + i < ?N" using i ok(2) by linarith
    ultimately show ?thesis unfolding entry using ok(3,6) i by (simp add: nth_append del: Nat.add_diff_assoc2)
  qed
  moreover have "length (ot_sent o2) - in_ring o2 = ?N - ?n" using n2 ok(2) by (simp add: f)
  ultimately show ?thesis using ok assms(2,3) n2 by (simp add: tx_ok_def f)
qed


lemma tx_ok_send:
  assumes "tx_ok refs o'" and "pkt \<noteq> []"
  shows "tx_ok (if ok then refs @ [ref] else refs) (orderSend ok pkt ref rx ctx tsc o')"
proof (cases ok)
  case True
  define o1 where "o1 = (if in_ring o' = 256 then o'\<lparr>ot_txRead := ot_txRead o' + of_nat 1\<rparr> else o')"
  have full: "ot_txSeq o' - ot_txRead o' = kTxRefs \<longleftrightarrow> in_ring o' = 256"
  proof -
    have "unat kTxRefs = 256" by (simp add: kTxRefs_def)
    then show ?thesis unfolding in_ring_def by (metis unsigned_word_eqI)
  qed
  have ok1: "tx_ok refs o1" "in_ring o1 < 256"
    using assms(1) tx_ok_advance [OF assms(1), of 1] ring_advance [of 1 o'] by (auto simp: o1_def tx_ok_def)
  define o2 where "o2 = o1\<lparr>ot_sent := ot_sent o1 @ [pkt], ot_txBytes := ot_txBytes o1 + of_nat (length pkt),
      ot_txRefs := (ot_txRefs o1)[unat (ot_txSeq o1 AND (kTxRefs - 1)) := \<lparr>tr_key = ucast (ot_txBytes o1 + of_nat (length pkt) - 1), tr_userRef = ref\<rparr>],
      ot_txSeq := ot_txSeq o1 + 1\<rparr>"
  have "tx_ok (refs @ [ref]) o2" by (rule tx_ok_push [OF ok1 assms(2) o2_def])
  moreover define o3 where "o3 = orderSend ok pkt ref rx ctx tsc o'"
  moreover have "ot_sent o3 = ot_sent o2 \<and> ot_txBytes o3 = ot_txBytes o2 \<and> ot_txRefs o3 = ot_txRefs o2 \<and> ot_txRead o3 = ot_txRead o2 \<and> ot_txSeq o3 = ot_txSeq o2"
    using True full unfolding o3_def orderSend_def o2_def o1_def by (simp add: Let_def)
  ultimately show ?thesis using True by (simp add: tx_ok_def in_ring_def tx_entry_def)
qed (simp add: orderSend_def assms(1))

lemma tx_ok_drain:
  assumes "tx_ok refs (fst os)"
  shows "tx_ok refs (fst (orderDrainTxStamps errs os))"
proof -
  have skip: "tx_ok refs (fst (tx_skip key o' k))" if "tx_ok refs o'" for key o' k
    using that
  proof (induction key o' k rule: tx_skip.induct)
    case (1 key o' k)
    then have "ot_txRead o' \<noteq> ot_txSeq o' \<Longrightarrow> 1 \<le> in_ring o'" by (simp add: in_ring_def Suc_le_eq unat_gt_0)
    then show ?case using 1 tx_ok_advance [of refs o' 1] by (subst tx_skip.simps) auto
  qed
  have c: "tx_ok refs (fst (orderCompleteTx key ns a))" if a: "tx_ok refs (fst a)" for key ns and a :: "OrderThreadState \<times> ('a, 'b) SocketState"
  proof -
    obtain o1 k where t: "tx_skip key (fst a) (sk_txSkipped (sh_stamps (snd a))) = (o1, k)" by fastforce
    then have ok: "tx_ok refs o1" using skip [OF a] by (metis fst_conv)
    have "fst (orderCompleteTx key ns a) = o1 \<or> ot_txRead o1 \<noteq> ot_txSeq o1 \<and> fst (orderCompleteTx key ns a) = o1\<lparr>ot_txRead := ot_txRead o1 + of_nat 1\<rparr>"
      by (simp add: orderCompleteTx_def t Let_def)
    moreover have "ot_txRead o1 \<noteq> ot_txSeq o1 \<Longrightarrow> 1 \<le> in_ring o1" by (simp add: in_ring_def Suc_le_eq unat_gt_0)
    ultimately show ?thesis using ok tx_ok_advance [OF ok, of 1] by auto
  qed
  show ?thesis using assms unfolding orderDrainTxStamps_def
  proof (induction errs arbitrary: os)
    case (Cons e es)
    then show ?case using c by (simp split: prod.split)
  qed simp
qed

text \<open>A stamp of a packet in the ring passes over exactly the packets before it, while less than 2 GiB lie between.\<close>

lemma tx_skip_exact:
  assumes "tx_ok refs o'" and "j < in_ring o'" and "b = length (ot_sent o') - in_ring o'"
    and "end_offset (ot_sent o') (b + j) < end_offset (ot_sent o') b + 2 ^ 31"
  shows "tx_skip (of_nat (end_offset (ot_sent o') (b + j))) o' k = (o'\<lparr>ot_txRead := ot_txRead o' + of_nat j\<rparr>, k + of_nat j)"
  using assms
proof (induction j arbitrary: o' k b)
  case 0
  then have "tx_entry (ot_txRead o' + of_nat 0) o' = \<lparr>tr_key = of_nat (end_offset (ot_sent o') (b + 0)), tr_userRef = refs ! (b + 0)\<rparr>" unfolding tx_ok_def by blast
  then show ?case by (subst tx_skip.simps) simp
next
  case (Suc j)
  let ?E = "end_offset (ot_sent o')"
  have ok: "in_ring o' \<le> length (ot_sent o')" "\<forall>p \<in> set (ot_sent o'). p \<noteq> []" using Suc.prems(1) by (simp_all add: tx_ok_def)
  have e: "tr_key (tx_entry (ot_txRead o') o') = of_nat (?E b)" using Suc.prems(1-3) unfolding tx_ok_def by (auto dest!: spec [of _ 0])
  have lt: "?E b < ?E (b + Suc j)" by (rule end_offset_mono [OF ok(2)]) (use Suc.prems(2,3) ok(1) in linarith)+
  have "(of_nat (?E b) - of_nat (?E (b + Suc j)) :: u32) = of_int (- int (?E (b + Suc j) - ?E b))" using lt by (simp add: of_nat_diff)
  then have neg: "sint (of_nat (?E b) - of_nat (?E (b + Suc j)) :: u32) < 0" using lt Suc.prems(4) by (simp only: signed_of_int) (subst signed_take_bit_int_eq_self; simp)
  have ne: "ot_txRead o' \<noteq> ot_txSeq o'" using Suc.prems(2) by (auto simp: in_ring_def)
  define o1 where "o1 = o'\<lparr>ot_txRead := ot_txRead o' + of_nat 1\<rparr>"
  have r1: "in_ring o1 = in_ring o' - 1" unfolding o1_def by (rule ring_advance) (use Suc.prems(2) in simp)
  have s1: "ot_sent o1 = ot_sent o'" by (simp add: o1_def)
  have "?E b < ?E (Suc b)" by (rule end_offset_mono [OF ok(2)]) (use Suc.prems(2,3) ok(1) in linarith)+
  then have span: "end_offset (ot_sent o1) (Suc b + j) < end_offset (ot_sent o1) (Suc b) + 2 ^ 31" using Suc.prems(4) unfolding s1 by simp
  have ok1: "tx_ok refs o1" unfolding o1_def by (rule tx_ok_advance [OF Suc.prems(1)]) (use Suc.prems(2) in simp)
  have j1: "j < in_ring o1" and b1: "Suc b = length (ot_sent o1) - in_ring o1" unfolding r1 s1 using Suc.prems(2,3) ok(1) by linarith+
  have "tx_skip (of_nat (end_offset (ot_sent o1) (Suc b + j))) o1 (k + 1) = (o1\<lparr>ot_txRead := ot_txRead o1 + of_nat j\<rparr>, k + 1 + of_nat j)"
    by (rule Suc.IH [OF ok1 j1 b1 span])
  then show ?case using ne neg e by (subst tx_skip.simps) (simp add: s1 o1_def algebra_simps)
qed

section \<open>The times of the requests\<close>

definition login_request :: SendRequest where
  "login_request = \<lparr>sr_ouch = [], sr_userRef = kNoRef, sr_rxStamp = 0, sr_ctx = 0, sr_sendTsc = 0\<rparr>"

lemma login_request_fields [simp]:
  "sr_userRef login_request = kNoRef" "sr_rxStamp login_request = 0" "sr_ctx login_request = 0" "sr_sendTsc login_request = 0"
  by (simp_all add: login_request_def)

definition inflight_slot :: "u32 \<Rightarrow> nat" where
  "inflight_slot ref = unat (ref AND of_nat (kInFlight - 1))"

definition newest_in_slot :: "SendRequest \<Rightarrow> SendRequest list \<Rightarrow> bool" where
  "newest_in_slot r after \<longleftrightarrow> sr_userRef r \<noteq> kNoRef \<and> (\<forall>r' \<in> set after. sr_userRef r' \<noteq> kNoRef \<longrightarrow> inflight_slot (sr_userRef r') \<noteq> inflight_slot (sr_userRef r))"

definition inflight_of :: "SendRequest \<Rightarrow> InFlight" where
  "inflight_of r = \<lparr>if_userRef = sr_userRef r, if_rxStamp = sr_rxStamp r, if_ctx = sr_ctx r, if_sendTsc = sr_sendTsc r, if_live = True\<rparr>"

definition slots_ok :: "SendRequest list \<Rightarrow> InFlight list \<Rightarrow> bool" where
  "slots_ok reqs fl \<longleftrightarrow> length fl = 1024 \<and> (\<forall>before r after. reqs = before @ r # after \<and> newest_in_slot r after \<longrightarrow> fl ! inflight_slot (sr_userRef r) = inflight_of r)"

lemma inflight_slot_less: "inflight_slot ref < 1024"
proof -
  have "ref AND of_nat (kInFlight - 1) = take_bit 10 ref" by (simp add: kInFlight_def take_bit_eq_mask mask_eq_decr_exp)
  then show ?thesis using take_bit_nat_less_exp [of 10 "unat ref"] by (simp add: inflight_slot_def unsigned_take_bit_eq)
qed

lemma slots_ok_send:
  assumes "slots_ok reqs fl"
  shows "slots_ok (reqs @ [r]) (if sr_userRef r \<noteq> kNoRef then fl[inflight_slot (sr_userRef r) := inflight_of r] else fl)"
proof -
  let ?fl = "if sr_userRef r \<noteq> kNoRef then fl[inflight_slot (sr_userRef r) := inflight_of r] else fl"
  have "?fl ! inflight_slot (sr_userRef r') = inflight_of r'" if "reqs @ [r] = before @ r' # after" "newest_in_slot r' after" for before r' after
  proof (cases after rule: rev_cases)
    case Nil
    then show ?thesis using that assms inflight_slot_less [of "sr_userRef r"] by (simp add: newest_in_slot_def slots_ok_def)
  next
    case (snoc ys y)
    then have "reqs = before @ r' # ys" "newest_in_slot r' ys" using that by (auto simp: newest_in_slot_def)
    then have "fl ! inflight_slot (sr_userRef r') = inflight_of r'" using assms unfolding slots_ok_def by blast
    moreover have "sr_userRef r \<noteq> kNoRef \<Longrightarrow> inflight_slot (sr_userRef r) \<noteq> inflight_slot (sr_userRef r')" using that snoc by (simp add: newest_in_slot_def)
    ultimately show ?thesis by simp
  qed
  then show ?thesis using assms by (simp add: slots_ok_def)
qed

lemma drain_core: "\<exists>r. fst (orderDrainTxStamps errs os) = (fst os)\<lparr>ot_txRead := r\<rparr>"
proof -
  have s: "\<exists>r. fst (let (ns, key) = cmsgHwNs cs True (0, 0xFFFFFFFF) in if key \<noteq> 0xFFFFFFFF then orderCompleteTx key ns a else a) = (fst a)\<lparr>ot_txRead := r\<rparr>" for cs
    and a :: "OrderThreadState \<times> ('a, 'b) SocketState"
    using complete_core(1) [of "snd (cmsgHwNs cs True (0, 0xFFFFFFFF))" "fst (cmsgHwNs cs True (0, 0xFFFFFFFF))" a]
    by (cases "cmsgHwNs cs True (0, 0xFFFFFFFF)") (auto intro: exI [of _ "ot_txRead (fst a)"])
  show ?thesis
  proof (induction errs arbitrary: os)
    case Nil
    then show ?case by (auto simp: orderDrainTxStamps_def intro: exI [of _ "ot_txRead (fst os)"])
  next
    case (Cons e es)
    define a where "a = (let (ns, key) = cmsgHwNs e True (0, 0xFFFFFFFF) in if key \<noteq> 0xFFFFFFFF then orderCompleteTx key ns os else os)"
    obtain r where "fst a = (fst os)\<lparr>ot_txRead := r\<rparr>" using s [of e os] unfolding a_def by blast
    moreover obtain r' where "fst (orderDrainTxStamps es a) = (fst a)\<lparr>ot_txRead := r'\<rparr>" using Cons.IH [of a] by blast
    moreover have "orderDrainTxStamps (e # es) os = orderDrainTxStamps es a" by (simp add: orderDrainTxStamps_def a_def)
    ultimately show ?case by auto
  qed
qed

definition stamp_inv :: "SendRequest list \<Rightarrow> OrderThreadState \<Rightarrow> bool" where
  "stamp_inv reqs o' \<longleftrightarrow> tx_ok (map sr_userRef reqs) o' \<and> slots_ok reqs (ot_inflight o')"

lemma stamp_inv_send:
  assumes "stamp_inv reqs o'" and "pkt \<noteq> []"
  shows "stamp_inv (if ok then reqs @ [r] else reqs) (orderSend ok pkt (sr_userRef r) (sr_rxStamp r) (sr_ctx r) (sr_sendTsc r) o')"
proof (cases ok)
  case True
  have "ot_inflight (orderSend True pkt (sr_userRef r) (sr_rxStamp r) (sr_ctx r) (sr_sendTsc r) o') =
      (if sr_userRef r \<noteq> kNoRef then (ot_inflight o')[inflight_slot (sr_userRef r) := inflight_of r] else ot_inflight o')"
    by (simp add: orderSend_def Let_def inflight_slot_def inflight_of_def)
  then show ?thesis using assms True tx_ok_send [of "map sr_userRef reqs" o' pkt True "sr_userRef r"] slots_ok_send [of reqs "ot_inflight o'" r]
    unfolding stamp_inv_def by simp
next
  case False
  then show ?thesis using assms by (simp add: orderSend_def)
qed

lemma stamp_inv_drain: "stamp_inv reqs (fst os) \<Longrightarrow> stamp_inv reqs (fst (orderDrainTxStamps errs os))"
  using tx_ok_drain [of "map sr_userRef reqs" os errs] drain_core [of errs os] by (auto simp: stamp_inv_def)

lemma stamp_inv_same:
  "ot_txRefs a = ot_txRefs b \<Longrightarrow> ot_inflight a = ot_inflight b \<Longrightarrow> ot_txBytes a = ot_txBytes b \<Longrightarrow> ot_txSeq a = ot_txSeq b \<Longrightarrow> ot_txRead a = ot_txRead b \<Longrightarrow> ot_sent a = ot_sent b \<Longrightarrow>
     stamp_inv reqs a \<Longrightarrow> stamp_inv reqs b"
  by (simp add: stamp_inv_def tx_ok_def in_ring_def tx_entry_def)

lemma request_packet_nonempty: "request_packet r \<noteq> []"
proof -
  have "2 \<le> length (soup_pack (replicate 256 0) t p)" for t p
    by (simp add: soup_pack_def Let_def poke_def soup_kHeaderSize_def)
  then show ?thesis unfolding request_packet_def packUnsequencedData_def by (metis list.size(3) not_numeral_le_zero)
qed

definition sent_so_far :: "SendRequest list \<Rightarrow> (SendRequest \<times> bool) list \<Rightarrow> SendRequest list" where
  "sent_so_far first taken = first @ map fst (filter snd taken)"

lemma round_stamps:
  assumes step: "order_round sq aq login env t = Some (t', bytes, took)" and login: "login \<noteq> []"
    and inv: "stamp_inv (sent_so_far first taken) (st_order t)" "st_phase t = Ph_Wait \<Longrightarrow> first = [] \<and> taken = []"
  shows "\<exists>first'. (first' = first \<or> first' = [login_request]) \<and> st_phase t' \<noteq> Ph_Wait \<and>
    stamp_inv (sent_so_far first' (case took of None \<Rightarrow> taken | Some r \<Rightarrow> taken @ [(r, oe_send env)])) (st_order t')"
proof (cases "st_phase t")
  case Ph_Done
  then show ?thesis using step by (simp add: order_round_def)
next
  case Ph_Wait
  then consider "t' = t\<lparr>st_phase := Ph_Loop 0, st_order := orderSend (oe_send env) login kNoRef 0 0 0 (st_order t)\<rparr>" "took = None" | "t' = t\<lparr>st_phase := Ph_Done\<rparr>" "took = None"
    using step by (auto simp: order_round_def split: if_splits)
  then show ?thesis
  proof cases
    case 1
    have "stamp_inv (if oe_send env then [login_request] else []) (st_order t')"
      using stamp_inv_send [OF _ login, of "[]" "st_order t" "oe_send env" login_request] inv Ph_Wait 1 by (cases "oe_send env") (simp_all add: sent_so_far_def)
    then show ?thesis using inv(2) Ph_Wait 1 by (cases "oe_send env") (auto simp: sent_so_far_def)
  qed (use inv in auto)
next
  case loop: (Ph_Loop idle)
  have "stamp_inv (sent_so_far first (case took of None \<Rightarrow> taken | Some r \<Rightarrow> taken @ [(r, oe_send env)])) (st_order t') \<and> st_phase t' \<noteq> Ph_Wait"
  proof (cases "ot_pending (st_order t) = [] \<and> \<not> st_stop t")
    case False
    then have "took = None" "\<exists>ps. st_order t' = (st_order t)\<lparr>ot_pending := ps\<rparr>" "st_phase t' \<noteq> Ph_Wait"
      using step loop by (auto simp: order_round_def intro: exI [of _ "[]"] split: list.splits if_splits)
    then show ?thesis using inv(1) stamp_inv_same [of "st_order t" "st_order t'"] by auto
  next
    case run: True
    show ?thesis
    proof (cases "sq_front sq (sh_sendQ (st_shared t))")
      case (Some r)
      then have "took = Some r" "st_phase t' \<noteq> Ph_Wait"
        "st_order t' = orderSend (oe_send env) (request_packet r) (sr_userRef r) (sr_rxStamp r) (sr_ctx r) (sr_sendTsc r) (st_order t)"
        using step loop run by (auto simp: order_round_def request_packet_def)
      then show ?thesis using stamp_inv_send [OF inv(1) request_packet_nonempty, of "oe_send env" r r] by (cases "oe_send env") (simp_all add: sent_so_far_def)
    next
      case None
      then have "took = None" "st_phase t' \<noteq> Ph_Wait"
        "st_order t' = fst (orderDrainTxStamps (oe_errs env) (st_order t, st_shared t)) \<or> st_order t' = snd (orderReadAcks (oe_recv env) (st_order t)) \<or> st_order t' = st_order t"
        using step loop run by (auto simp: order_round_def Let_def split: if_splits prod.splits)
      moreover have "stamp_inv reqs (st_order t) \<Longrightarrow> stamp_inv reqs (snd (orderReadAcks (oe_recv env) (st_order t)))" for reqs
        by (auto simp: orderReadAcks_def stamp_inv_same split: option.splits prod.splits)
      ultimately show ?thesis using inv(1) stamp_inv_drain [of "sent_so_far first taken" "(st_order t, st_shared t)" "oe_errs env"] by auto
    qed
  qed
  then show ?thesis by blast
qed

lemma run_stamps:
  assumes "sock_run sq aq login (SocketThreads_new s0) queued taken received t" and "login \<noteq> []"
  shows "\<exists>first. (first = [] \<or> first = [login_request]) \<and> (st_phase t = Ph_Wait \<longrightarrow> first = [] \<and> taken = []) \<and> stamp_inv (sent_so_far first taken) (st_order t)"
  using assms(1)
proof induction
  case start
  have "tx_ok [] OrderThreadState_new" by (simp add: tx_ok_def in_ring_def OrderThreadState_new_def kTxRefs_def)
  moreover have "slots_ok [] (ot_inflight OrderThreadState_new)" by (simp add: slots_ok_def OrderThreadState_new_def kInFlight_def)
  ultimately show ?case by (simp add: stamp_inv_def sent_so_far_def SocketThreads_new_def)
next
  case (order queued taken received t env t' bytes took)
  then obtain first where "first = [] \<or> first = [login_request]" "st_phase t = Ph_Wait \<longrightarrow> first = [] \<and> taken = []" "stamp_inv (sent_so_far first taken) (st_order t)" by blast
  then show ?case using round_stamps [OF order.hyps(3) assms(2), of first taken] by auto
qed auto

section \<open>Rounds without work\<close>

definition quiet :: "byte list option \<Rightarrow> OrderEnv" where
  "quiet bytes = \<lparr>oe_send = True, oe_recv = bytes, oe_errs = []\<rparr>"

lemma idle_round:
  assumes "st_phase t = Ph_Loop idle" and "ot_pending (st_order t) = []" and "\<not> st_stop t" and "sq_front sq (sh_sendQ (st_shared t)) = None"
  shows "order_round sq aq login (quiet None) t = Some (t\<lparr>st_phase := Ph_Loop (idle + 1)\<rparr>, [], None)"
  using assms by (simp add: order_round_def quiet_def Let_def orderDrainTxStamps_def orderReadAcks_def)

lemma idle_run:
  assumes "sock_run sq aq login t0 queued taken received t" and "st_phase t = Ph_Loop idle" and "ot_pending (st_order t) = []" and "\<not> st_stop t"
    and "sq_front sq (sh_sendQ (st_shared t)) = None"
  shows "sock_run sq aq login t0 queued taken received (t\<lparr>st_phase := Ph_Loop (idle + of_nat j)\<rparr>)"
proof (induction j)
  case 0
  have "t\<lparr>st_phase := Ph_Loop idle\<rparr> = t" using assms(2) by (cases t) simp
  then show ?case using assms(1) by simp
next
  case (Suc j)
  let ?t = "t\<lparr>st_phase := Ph_Loop (idle + of_nat j)\<rparr>"
  have "order_round sq aq login (quiet None) ?t = Some (?t\<lparr>st_phase := Ph_Loop (idle + of_nat j + 1)\<rparr>, [], None)"
    by (rule idle_round) (use assms in simp_all)
  then show ?case using sock_run.order [OF Suc.IH, of "quiet None"] by (simp add: quiet_def algebra_simps)
qed

definition ack_packet :: "byte list" where "ack_packet = [0, 2, 0x53, 1]"

lemma ack_packet_drain: "soup_drain ack_packet = ([\<lparr>sp_type = 0x53, sp_payload = [1]\<rparr>], [])"
proof -
  have "be_store (of_nat (1 + length [1 :: byte]) :: u16) = [0, 2]" by (simp add: be_store_def bswap_def le_bytes_def upt_rec)
  then have "soup_parse ack_packet = Some (4, \<lparr>sp_type = 0x53, sp_payload = [1]\<rparr>)"
    using soup_parse_packet [of "[1]" "0x53" "[]"] by (simp add: ack_packet_def)
  moreover have "soup_drain [] = ([], [])" by (simp add: soup_drain.simps soup_parse_def soup_kHeaderSize_def)
  ultimately show ?thesis by (subst soup_drain.simps) (simp add: ack_packet_def)
qed

text \<open>The order thread in its loop after the login, with \<open>k\<close> acknowledgements in the queue and nothing applied.\<close>

definition unapplied :: "byte list \<Rightarrow> ('q, byte list list) SocketState \<Rightarrow> nat \<Rightarrow> u32 \<Rightarrow> ('q, byte list list) SocketThreads" where
  "unapplied login s0 k idle =
     \<lparr>st_phase = Ph_Loop idle, st_stop = False, st_go = True, st_order = orderSend True login kNoRef 0 0 0 OrderThreadState_new, st_shared = s0\<lparr>sh_ackQ := replicate k [1]\<rparr>,
      st_joining = False, st_applied = []\<rparr>"

lemma idle_advance:
  assumes "idle AND 7 = 3"
  shows "(idle + 1 :: u32) AND 7 = 4" and "(idle + 8 :: u32) AND 7 = 3"
proof -
  have 7: "mask 3 = (7 :: u32)" by (simp add: mask_eq_decr_exp)
  have "unat idle mod 8 = 3" using unat_low_bits [of 3 idle 0] assms by (simp add: 7)
  then have "(unat idle + 1) mod 8 = 4" "(unat idle + 8) mod 8 = 3" by presburger+
  then have "unat ((idle + 1) AND 7) = unat (4 :: u32)" "unat ((idle + 8) AND 7) = unat (3 :: u32)"
    using unat_low_bits [of 3 idle 1] unat_low_bits [of 3 idle 8] by (simp_all add: 7)
  then show "(idle + 1) AND 7 = 4" "(idle + 8) AND 7 = 3" by (simp_all only: unsigned_word_eqI)
qed

lemma read_ack:
  assumes "idle AND 7 = 3" and "sq_front sq (sh_sendQ s0) = None"
  shows "order_round sq aq login (quiet (Some ack_packet)) (unapplied login s0 k idle) =
    Some ((unapplied login s0 k (idle + 1))\<lparr>st_order := (orderSend True login kNoRef 0 0 0 OrderThreadState_new)\<lparr>ot_pending := [\<lparr>sp_type = 0x53, sp_payload = [1]\<rparr>]\<rparr>\<rparr>, ack_packet, None)"
proof -
  have "(idle + 1) AND 7 = 4" by (rule idle_advance(1) [OF assms(1)])
  moreover have "soup_drain ([] @ ack_packet) = ([\<lparr>sp_type = 0x53, sp_payload = [1]\<rparr>], [])" "ack_packet \<noteq> []" using ack_packet_drain by (simp_all add: ack_packet_def)
  moreover have "ot_stream OrderThreadState_new = []" "ot_pending OrderThreadState_new = []" by (simp_all add: OrderThreadState_new_def)
  ultimately show ?thesis using assms(2) by (simp add: order_round_def unapplied_def quiet_def Let_def orderReadAcks_def)
qed

lemma unapplied_run:
  assumes "k \<le> cap" and "sq_front sq (sh_sendQ s0) = None" and "sh_ackQ s0 = []"
  shows "\<exists>idle received. idle AND 7 = 3 \<and> sock_run sq (list_queue cap) login (SocketThreads_new s0) [] [] received (unapplied login s0 k idle)"
  using assms(1)
proof (induction k)
  case 0
  have go: "sock_run sq (list_queue cap) login (SocketThreads_new s0) [] [] [] ((SocketThreads_new s0)\<lparr>st_go := True\<rparr>)"
    by (rule sock_run.signal [OF sock_run.start]) (simp add: SocketThreads_new_def)
  have "order_round sq (list_queue cap) login (quiet None) ((SocketThreads_new s0)\<lparr>st_go := True\<rparr>) = Some (unapplied login s0 0 0, [], None)"
    using assms(3) by (simp add: order_round_def SocketThreads_new_def unapplied_def quiet_def)
  then have "sock_run sq (list_queue cap) login (SocketThreads_new s0) [] [] [] (unapplied login s0 0 0)" using sock_run.order [OF go, of "quiet None"] by (simp add: quiet_def)
  then have "sock_run sq (list_queue cap) login (SocketThreads_new s0) [] [] [] ((unapplied login s0 0 0)\<lparr>st_phase := Ph_Loop (0 + of_nat 3)\<rparr>)"
    by (rule idle_run) (use assms(2) in \<open>simp_all add: unapplied_def OrderThreadState_new_def\<close>)
  then show ?case by (intro exI [of _ 3]) (auto simp: unapplied_def)
next
  case (Suc k)
  then obtain idle received where i: "idle AND 7 = 3" "sock_run sq (list_queue cap) login (SocketThreads_new s0) [] [] received (unapplied login s0 k idle)" by auto
  define p where "p = \<lparr>sp_type = 0x53, sp_payload = [1]\<rparr>"
  define t1 where "t1 = (unapplied login s0 k (idle + 1))\<lparr>st_order := (orderSend True login kNoRef 0 0 0 OrderThreadState_new)\<lparr>ot_pending := [p]\<rparr>\<rparr>"
  have "order_round sq (list_queue cap) login (quiet (Some ack_packet)) (unapplied login s0 k idle) = Some (t1, ack_packet, None)"
    unfolding t1_def p_def by (rule read_ack [OF i(1) assms(2)])
  then have r1: "sock_run sq (list_queue cap) login (SocketThreads_new s0) [] [] (received @ ack_packet) t1"
    using sock_run.order [OF i(2), of "quiet (Some ack_packet)"] by (simp add: quiet_def ack_packet_def kRxBuf_def)
  have "order_packet (list_queue cap) p (s0\<lparr>sh_ackQ := replicate k [1]\<rparr>) = Some (s0\<lparr>sh_ackQ := replicate (Suc k) [1]\<rparr>)"
    using Suc.prems by (simp add: order_packet_def p_def list_queue_def kAckPayload_def replicate_append_same)
  moreover have "(orderSend True login kNoRef 0 0 0 OrderThreadState_new)\<lparr>ot_pending := []\<rparr> = orderSend True login kNoRef 0 0 0 OrderThreadState_new"
    by (simp add: orderSend_def OrderThreadState_new_def Let_def)
  ultimately have "order_round sq (list_queue cap) login (quiet None) t1 = Some (unapplied login s0 (Suc k) (idle + 1), [], None)"
    by (simp add: order_round_def t1_def unapplied_def)
  then have "sock_run sq (list_queue cap) login (SocketThreads_new s0) [] [] (received @ ack_packet) (unapplied login s0 (Suc k) (idle + 1))"
    using sock_run.order [OF r1, of "quiet None"] by (simp add: quiet_def)
  then have "sock_run sq (list_queue cap) login (SocketThreads_new s0) [] [] (received @ ack_packet) ((unapplied login s0 (Suc k) (idle + 1))\<lparr>st_phase := Ph_Loop (idle + 1 + of_nat 7)\<rparr>)"
    by (rule idle_run) (use assms(2) in \<open>simp_all add: unapplied_def OrderThreadState_new_def\<close>)
  moreover have "(unapplied login s0 (Suc k) (idle + 1))\<lparr>st_phase := Ph_Loop (idle + 1 + of_nat 7)\<rparr> = unapplied login s0 (Suc k) (idle + 8)" by (simp add: unapplied_def)
  moreover have "(idle + 8) AND 7 = 3" by (rule idle_advance(2) [OF i(1)])
  ultimately show ?case by metis
qed

lemma stuck_run:
  assumes "sock_run sq (list_queue cap) login t queued taken received t'" and "st_phase t = Ph_Loop idle" and "ot_pending (st_order t) = p # ps" and "st_joining t" and "st_stop t"
    and "sp_type p = SoupType_code Soup_SequencedData" and "length (sp_payload p) \<le> kAckPayload" and "cap \<le> length (sh_ackQ (st_shared t))"
  shows "t' = t"
  using assms(1)
proof induction
  case (leave queued taken received t')
  have "t\<lparr>st_stop := True, st_joining := True\<rparr> = t" using assms(4,5) by (cases t) simp
  then show ?case using leave.IH by simp
next
  case (order queued taken received t1 env t' bytes took)
  have "order_round sq (list_queue cap) login env t = None"
    using assms(2,3,6-8) by (simp add: order_round_def order_packet_def list_queue_def)
  then show ?case using order.hyps(3) unfolding order.IH by simp
qed (use assms(4) in simp_all)

section \<open>A run\<close>

definition demo_shared :: "(SendRequest list, byte list list) SocketState" where
  "demo_shared = \<lparr>sh_sendQ = [], sh_ackQ = [], sh_orderStatus = 1, sh_loggedIn = False,
     sh_stamps = \<lparr>sk_rxStamped = 0, sk_rxUnstamped = 0, sk_txMatched = 0, sk_txSkipped = 0, sk_txUnmatched = 0, sk_txEnabled = True, sk_rxEnabled = True\<rparr>,
     sh_ordersSent = 0, sh_t2t = []\<rparr>"

definition demo_request :: SendRequest where
  "demo_request = \<lparr>sr_ouch = [], sr_userRef = 5, sr_rxStamp = 100, sr_ctx = 7, sr_sendTsc = 0\<rparr>"

text \<open>The state after the login and one order, whose packets the network card has not stamped.\<close>

definition demo_sent :: "(SendRequest list, byte list list) SocketThreads" where
  "demo_sent = (SocketThreads_new demo_shared)\<lparr>st_phase := Ph_Loop 0, st_go := True,
     st_order := orderSend True (request_packet demo_request) 5 100 7 0 (orderSend True [1] kNoRef 0 0 0 OrderThreadState_new), st_shared := demo_shared\<lparr>sh_ordersSent := 1\<rparr>\<rparr>"

lemma demo_run: "sock_run (list_queue 2) (list_queue 2) [1] (SocketThreads_new demo_shared) [demo_request] [(demo_request, True)] [] demo_sent"
proof -
  let ?run = "sock_run (list_queue 2) (list_queue 2) [1] (SocketThreads_new demo_shared)" and ?t1 = "(SocketThreads_new demo_shared)\<lparr>st_go := True\<rparr>"
  define t2 where "t2 = ?t1\<lparr>st_phase := Ph_Loop 0, st_order := orderSend True [1] kNoRef 0 0 0 OrderThreadState_new\<rparr>"
  define s3 where "s3 = demo_shared\<lparr>sh_sendQ := [demo_request], sh_ordersSent := 1\<rparr>"
  have "?run [] [] [] ?t1" by (rule sock_run.signal [OF sock_run.start]) (simp add: SocketThreads_new_def)
  moreover have "order_round (list_queue 2) (list_queue 2) [1] (quiet None) ?t1 = Some (t2, [], None)"
    by (simp add: order_round_def t2_def SocketThreads_new_def quiet_def)
  ultimately have r2: "?run [] [] [] t2" using sock_run.order [of _ _ _ _ _ _ _ _ "quiet None"] by (fastforce simp: quiet_def)
  have "socketQueueOrder (list_queue 2) (Outbound_new\<lparr>ob_userRef := 5\<rparr>) True 100 7 0 (st_shared t2) = (True, s3)"
    by (simp add: socketQueueOrder_def list_queue_def t2_def s3_def SocketThreads_new_def demo_shared_def demo_request_def Outbound_new_def)
  then have r3: "?run [demo_request] [] [] (t2\<lparr>st_shared := s3\<rparr>)"
    using sock_run.queue [OF r2] by (fastforce simp: t2_def SocketThreads_new_def demo_request_def Outbound_new_def)
  have "order_round (list_queue 2) (list_queue 2) [1] (quiet None) (t2\<lparr>st_shared := s3\<rparr>) = Some (demo_sent, [], Some demo_request)"
    by (simp add: order_round_def t2_def s3_def demo_sent_def SocketThreads_new_def quiet_def list_queue_def demo_request_def request_packet_def OrderThreadState_new_def demo_shared_def)
  then show ?thesis using sock_run.order [OF r3, of "quiet None"] by (simp add: quiet_def)
qed

section \<open>Properties\<close>



text \<open>
  C14. Acknowledgements arrive in order: at every moment of every run, the acknowledgements in the stream that the order thread has received, however \<^verbatim>\<open>recv\<close> cuts it, are those that
  the receiving thread has applied, followed by those in the queue and those that the order thread has found and not queued yet; what remains of the stream is the start of a packet.
\<close>

theorem OrderThread_acks_in_order:
  assumes "sock_run sq aq login (SocketThreads_new s0) queued taken received t" and "spsc_laws sq qs" and "spsc_laws aq as"
    and "qs (sh_sendQ s0) = []" and "as (sh_ackQ s0) = []"
  shows "\<exists>ps. soup_drain received = (ps, ot_stream (st_order t)) \<and>
    acks_of ps = st_applied t @ as (sh_ackQ (st_shared t)) @ acks_of (ot_pending (st_order t))"
  using run_traffic [OF assms(1,2,3) refl assms(4,5)] unfolding traffic_inv_def by blast

theorem OrderThread_acks_in_order_witness:
  "\<exists>received t ps. sock_run (list_queue 2) (list_queue 1) [1] (SocketThreads_new demo_shared) [] [] received t \<and> soup_drain received = (ps, ot_stream (st_order t)) \<and> acks_of ps = [[1]]"
proof -
  obtain idle received where run: "sock_run (list_queue 2) (list_queue 1) [1] (SocketThreads_new demo_shared) [] [] received (unapplied [1] demo_shared 1 idle)"
    using unapplied_run [of 1 1 "list_queue 2" demo_shared "[1]"] by (auto simp: list_queue_def demo_shared_def)
  then show ?thesis using OrderThread_acks_in_order [OF run list_queue_laws list_queue_laws] by (fastforce simp: demo_shared_def unapplied_def OrderThreadState_new_def)
qed

text \<open>
  C30. A hardware stamp finds its order: when the network card reports the time at which the packet of an order left, by the offset of the packet's last byte, then the order thread
  records exactly the time since the market data that caused the order, with its context, and counts the packets before it without a stamp as skipped. It needs that the login was sent or not, that the packet is
  among those not passed over, at most the last 256, that the offsets since the oldest of them span less than 2 GiB, and that no later order shares the slot of its reference.
\<close>

theorem OrderThread_stamp_exact:
  assumes run: "sock_run sq aq login (SocketThreads_new s0) queued taken received t" and login: "login \<noteq> []"
    and r: "filter snd taken = before @ (r, True) # after" "newest_in_slot r (map fst after)" "sr_rxStamp r \<noteq> 0" "sr_rxStamp r < ns"
    and k: "k + Suc (length after) = length (ot_sent (st_order t))" and j: "length (ot_sent (st_order t)) = k - j + in_ring (st_order t)" "j \<le> k"
    and span: "end_offset (ot_sent (st_order t)) k < end_offset (ot_sent (st_order t)) (k - j) + 2 ^ 31"
  shows "\<exists>o' s. orderCompleteTx (of_nat (end_offset (ot_sent (st_order t)) k)) ns (st_order t, st_shared t) = (o', s) \<and> in_ring o' = length after \<and>
    sh_t2t s = sh_t2t (st_shared t) @ [(ns - sr_rxStamp r, sr_ctx r)] \<and> sk_txMatched (sh_stamps s) = sk_txMatched (sh_stamps (st_shared t)) + 1 \<and>
    sk_txSkipped (sh_stamps s) = sk_txSkipped (sh_stamps (st_shared t)) + of_nat j \<and> sk_txUnmatched (sh_stamps s) = sk_txUnmatched (sh_stamps (st_shared t))"
proof -
  let ?o = "st_order t" and ?s = "st_shared t" and ?E = "end_offset (ot_sent (st_order t))"
  obtain first where inv: "stamp_inv (sent_so_far first taken) ?o" using run_stamps [OF run login] by blast
  then have ok: "tx_ok (map sr_userRef (sent_so_far first taken)) ?o" and sl: "slots_ok (sent_so_far first taken) (ot_inflight ?o)" by (simp_all add: stamp_inv_def)
  have reqs: "sent_so_far first taken = (first @ map fst before) @ r # map fst after" by (simp add: sent_so_far_def r(1))
  have len: "length (sent_so_far first taken) = length (ot_sent ?o)" using ok by (simp add: tx_ok_def)
  then have "k = length (first @ map fst before)" using k unfolding reqs by simp
  then have ref: "map sr_userRef (sent_so_far first taken) ! k = sr_userRef r" unfolding reqs by (simp add: nth_append)
  have fl: "ot_inflight ?o ! inflight_slot (sr_userRef r) = inflight_of r" using sl reqs r(2) unfolding slots_ok_def by blast
  have j': "j < in_ring ?o" "k - j = length (ot_sent ?o) - in_ring ?o" "k - j + j = k" using k j by linarith+
  define o1 where "o1 = ?o\<lparr>ot_txRead := ot_txRead ?o + of_nat j\<rparr>"
  have skip: "tx_skip (of_nat (?E k)) ?o n = (o1, n + of_nat j)" for n
    using tx_skip_exact [OF ok j'(1,2), of n] span unfolding j'(3) o1_def by blast
  have ok1: "tx_ok (map sr_userRef (sent_so_far first taken)) o1" unfolding o1_def by (rule tx_ok_advance [OF ok less_imp_le [OF j'(1)]])
  have r1: "in_ring o1 = Suc (length after)" unfolding o1_def using ring_advance [OF less_imp_le [OF j'(1)]] k j by simp
  have k1: "length (ot_sent o1) - in_ring o1 = k" using k r1 by (simp add: o1_def)
  have entry: "tx_entry (ot_txRead o1) o1 = \<lparr>tr_key = of_nat (?E k), tr_userRef = sr_userRef r\<rparr>"
    using ok1 r1 k1 ref unfolding tx_ok_def by (auto dest!: spec [of _ 0] simp: o1_def)
  have live: "ot_txRead o1 \<noteq> ot_txSeq o1" using r1 by (auto simp: in_ring_def)
  have out: "in_ring (o1\<lparr>ot_txRead := ot_txRead o1 + 1\<rparr>) = length after" using ring_advance [of 1 o1] r1 by simp
  have ns: "ns \<noteq> 0" using r(4) by (metis word_not_simps(1))
  have slot: "ot_inflight o1 ! unat (sr_userRef r AND of_nat (kInFlight - 1)) = inflight_of r" using fl by (simp add: o1_def inflight_slot_def)
  show ?thesis unfolding orderCompleteTx_def fst_conv snd_conv skip
    using entry live out ns r(2-4) slot by (simp add: Let_def newest_in_slot_def inflight_of_def)
qed

theorem OrderThread_stamp_exact_witness:
  "\<exists>o' s. orderCompleteTx (of_nat (end_offset (ot_sent (st_order demo_sent)) 1)) 150 (st_order demo_sent, st_shared demo_sent) = (o', s) \<and> in_ring o' = 0 \<and> sh_t2t s = [(50, 7)] \<and>
     sk_txSkipped (sh_stamps s) = 1"
proof -
  have sent: "ot_sent (st_order demo_sent) = [[1], request_packet demo_request]" by (simp add: demo_sent_def OrderThreadState_new_def)
  have n: "in_ring (st_order demo_sent) = 2" by (simp add: demo_sent_def OrderThreadState_new_def orderSend_def in_ring_def kTxRefs_def Let_def)
  have "length (request_packet demo_request) \<le> 2 + 2 ^ 16" 
    by (simp add: request_packet_def packUnsequencedData_def soup_pack_def Let_def demo_request_def)
  then have span: "end_offset (ot_sent (st_order demo_sent)) 1 < end_offset (ot_sent (st_order demo_sent)) 0 + 2 ^ 31"
    by (simp add: end_offset_def sent)
  have new: "newest_in_slot demo_request []" by (simp add: newest_in_slot_def demo_request_def kNoRef_def)
  show ?thesis
    using OrderThread_stamp_exact [OF demo_run, of "[]" demo_request "[]" 150 1 1] sent n span new by (fastforce simp: demo_request_def demo_sent_def demo_shared_def)
qed

text \<open>
  C31. The stop can block for ever: when the queue of acknowledgements is full as the receiving thread leaves its loop and waits for the order thread, and the order thread has one more to
  hand over, then the order thread never ends, whatever the system answers, for nobody empties the queue any more and the loop that offers the acknowledgement does not look at the stop
  request. From the start of a session such a state is reached for every capacity, when the exchange sends one acknowledgement more than the queue holds and the receiving thread applies none.
\<close>

theorem OrderThread_stop_blocks:
  assumes "sq_front sq (sh_sendQ s0) = None" and "sh_ackQ s0 = []"
  shows "\<exists>received t. sock_run sq (list_queue cap) login (SocketThreads_new s0) [] [] received t \<and> st_stop t \<and> st_joining t \<and>
    (\<forall>queued taken received' t'. sock_run sq (list_queue cap) login t queued taken received' t' \<longrightarrow> st_phase t' \<noteq> Ph_Done)"
proof -
  obtain idle received where i: "idle AND 7 = 3" "sock_run sq (list_queue cap) login (SocketThreads_new s0) [] [] received (unapplied login s0 cap idle)"
    using unapplied_run [OF order_refl assms] by blast
  define t1 where "t1 = (unapplied login s0 cap (idle + 1))\<lparr>st_order := (orderSend True login kNoRef 0 0 0 OrderThreadState_new)\<lparr>ot_pending := [\<lparr>sp_type = 0x53, sp_payload = [1]\<rparr>]\<rparr>\<rparr>"
  have "order_round sq (list_queue cap) login (quiet (Some ack_packet)) (unapplied login s0 cap idle) = Some (t1, ack_packet, None)"
    unfolding t1_def by (rule read_ack [OF i(1) assms(1)])
  then have "sock_run sq (list_queue cap) login (SocketThreads_new s0) [] [] (received @ ack_packet) t1"
    using sock_run.order [OF i(2), of "quiet (Some ack_packet)"] by (simp add: quiet_def ack_packet_def kRxBuf_def)
  then have run: "sock_run sq (list_queue cap) login (SocketThreads_new s0) [] [] (received @ ack_packet) (t1\<lparr>st_stop := True, st_joining := True\<rparr>)" by (rule sock_run.leave)
  have "st_phase t' \<noteq> Ph_Done" if "sock_run sq (list_queue cap) login (t1\<lparr>st_stop := True, st_joining := True\<rparr>) queued taken received' t'" for queued taken received' t'
  proof -
    have "t' = t1\<lparr>st_stop := True, st_joining := True\<rparr>"
      by (rule stuck_run [OF that, where p = "\<lparr>sp_type = 0x53, sp_payload = [1]\<rparr>" and ps = "[]" and idle = "idle + 1"]) (simp_all add: t1_def unapplied_def kAckPayload_def)
    then show ?thesis by (simp add: t1_def unapplied_def)
  qed
  then show ?thesis using run by (intro exI [of _ "received @ ack_packet"] exI [of _ "t1\<lparr>st_stop := True, st_joining := True\<rparr>"]) auto
qed


theorem OrderThread_stop_blocks_witness:
  "\<exists>received t. sock_run (list_queue 4096) (list_queue 4096) [1] (SocketThreads_new demo_shared) [] [] received t \<and> st_joining t \<and>
    (\<forall>queued taken received' t'. sock_run (list_queue 4096) (list_queue 4096) [1] t queued taken received' t' \<longrightarrow> st_phase t' \<noteq> Ph_Done)"
  using OrderThread_stop_blocks [of "list_queue 4096" demo_shared 4096 "[1]"] by (fastforce simp: list_queue_def demo_shared_def)

end
