(* ===== verification/Spec2Isabelle.thy ===== *)
theory Spec2Isabelle
  imports Ouch50 Itch50 SoupBinTcp Net SequenceTracker DivBy Scan LevelBits FlatHashMap OrderBookProps OrderManagerProps VenueProps BookBuilderProps BookTableProps QuoterStrategy ColdShard DutSessionProps ExchangeSessionProps ProfileFile AddressText MarketReplayProps FeedToolProps OrderThreadProps
begin

text \<open>
  A verification of the tick-to-trade system under \<^verbatim>\<open>src/src/t2t\<close>: a trading session (\<^verbatim>\<open>dut/\<close>) that builds order books from a
  market data feed and quotes on them, and a simulated exchange (\<^verbatim>\<open>sim/\<close>) that matches orders and publishes the feed.

  \<^bold>\<open>How the parts interact.\<close> The exchange session (\<^verbatim>\<open>sim/ExchangeSession.hpp\<close>) reads OUCH requests from SoupBinTCP or from UDP
  frames, hands each to the venue of its symbol (\<^verbatim>\<open>sim/Venue.hpp\<close>), whose matching engine is the order book of
  \<^verbatim>\<open>lob/OrderBook.hpp\<close>, and packs the ITCH messages the venues publish, and those of a recorded feed that the venues mirror, into MoldUDP64
  packets. The trading session (\<^verbatim>\<open>dut/DutSession.hpp\<close>) checks their sequence numbers (\<^verbatim>\<open>dut/SequenceTracker\<close>), applies the
  messages to a table of books (\<^verbatim>\<open>dut/BookTable\<close>, \<^verbatim>\<open>dut/BookBuilder\<close>), gives whole packets to a second thread for the books it does not trade
  (\<^verbatim>\<open>dut/ColdShard\<close>), asks the strategy for quotes when the top of a traded book moved (\<^verbatim>\<open>dut/QuoterStrategy\<close>) and sends what the order
  manager (\<^verbatim>\<open>dut/OrderManager\<close>) makes of them.

  \<^bold>\<open>Theories, from the bottom up.\<close>
  \<^item> \<open>Prelude\<close>: types, named collections and generic lemmas. \<open>Endian\<close> (\<^verbatim>\<open>protocol/Endian.hpp\<close>): fields of the wire structs, with the locale of a wire message
    that every message struct interprets. \<open>Ouch50\<close>, \<open>Itch50\<close>: one record, layout and round trip per message. \<open>MoldUdp64\<close>, \<open>SoupBinTcp\<close>, \<open>Net\<close>: packets,
    stream framing and Ethernet/IPv4/UDP frames, with round trips, safety on arbitrary input and the checksum.
  \<^item> \<open>FlatHashMap\<close>, \<open>DivBy\<close>, \<open>Scan\<close>, \<open>LevelBits\<close>, \<open>SequenceTracker\<close> (\<^verbatim>\<open>util/\<close> and \<^verbatim>\<open>dut/\<close>): the hash table refines a finite map and its loops end,
    the multiply-and-shift division is exact, the vector scans equal the scalar ones, the bitmap search is exact, the tracker loses nothing silently.
  \<^item> \<open>OrderBook\<close> models the matching engine; \<open>PriceTime\<close> specifies price-time priority on plain lists; \<open>OrderBookRefine\<close> and \<open>OrderBookMatch\<close> relate the two and
    \<open>OrderBookProps\<close> holds the properties: refinement, no crossed book, conservation of quantity, exact cancels and reductions.
  \<^item> \<open>Venue\<close> models the venue around the engine; \<open>VenueProps\<close> shows that its index of orders agrees with the engine in every reachable state, that its loops end and
    that a client is told of every share.
  \<^item> \<open>BookBuilder\<close> models a book of the trading side; \<open>BookFeed\<close> says which orders a feed leaves resting, \<open>BookLevels\<close> and \<open>BookInvariant\<close> relate the levels, the
    bitmap and the parked shares to them, \<open>BookBuilderProps\<close> holds the properties. \<open>BookTable\<close> and \<open>BookTableProps\<close> do the same for the table of
    books with its lazy resets. \<open>ColdShard\<close> models both ends of the queue and all interleavings as a step relation.
  \<^item> \<open>OrderManager\<close> and \<open>OrderManagerProps\<close>: quote slots, references, requests and replies. \<open>QuoterStrategy\<close>: the quotes, in double or exact arithmetic.
  \<^item> \<open>DutSession\<close> and \<open>DutSessionProps\<close>: the trading session; \<open>ExchangeSession\<close> and \<open>ExchangeSessionProps\<close>: the exchange session.
    \<open>OrderThread\<close> and \<open>OrderThreadProps\<close>: the two threads of a trading session on sockets as a step relation, the order of what passes between them, the matching of hardware
    stamps with sent packets, and the state in which the stop blocks.
  \<^item> \<open>ItchFile\<close> (\<^verbatim>\<open>replay/ItchFile.cpp\<close>): recorded feeds, read from a mapped file or through zlib, and their writer; \<open>RecordedFeed\<close>: what a reader gives of a file. \<open>SymbolFilter\<close> (\<^verbatim>\<open>replay/SymbolFilter.cpp\<close>):
    the messages of some symbols and the times of day. \<open>MarketReplay\<close> and \<open>MarketReplayProps\<close> (\<^verbatim>\<open>sim/MarketReplay.hpp\<close>): the replay of a file into a session, day after day.
  \<^item> \<open>FeedValidator\<close> and \<open>FeedValidatorProps\<close> (\<^verbatim>\<open>replay/FeedValidator.cpp\<close>): the validator of recorded feeds, against the orders that the feed leaves resting. \<open>FeedTool\<close>
    and \<open>FeedToolProps\<close> (\<^verbatim>\<open>apps/itch_replay.cpp\<close>): the program around it, its arguments, the file it extracts and its exit code.
  \<^item> \<open>Decimal\<close>: the numbers in text that the standard library reads and writes. \<open>ProfileFile\<close> (\<^verbatim>\<open>dut/SymbolProfile.cpp\<close>): the file of symbol profiles. \<open>AddressText\<close>
    (\<^verbatim>\<open>config/Config.cpp\<close>): hardware and network addresses in text.
  \<^item> This theory holds the property that spans both sessions.

  \<^bold>\<open>State and operations.\<close> A class is a record with the fields of the source, in their order, and an operation is a function from the
  state to the new state and the results; integers keep their width as words where the source computes with them, prices are integers. Pointers into
  vectors and deques are indexes. Memory a callee writes into is a list that is returned updated. Callbacks and sinks are arguments or lists of calls.
  What goes out on a wire is a list of the byte strings sent.

  \<^bold>\<open>Parameters.\<close> The single-producer queues of the cold shard and of the order thread (third party) are a record of operations with the laws of a bounded FIFO queue; what the system calls of the order thread answer is the environment of its steps; the transmit
  rings answer through a predicate; the strategy of the trading session is a record of the operations of the concept \<^verbatim>\<open>Strategy\<close>; zlib is a record of operations with the laws
  of a stream of bytes; a replay gets the session, the readings of the clock and the delay at its speed as arguments, the program for recorded feeds the contents of files; the width of a band
  that \<^verbatim>\<open>bandFraction\<close> gives and the rounding of doubles are arguments.

  \<^bold>\<open>Loops and fuel.\<close> Loops are structural recursions or functions with a termination proof. Fuel occurs in the probes and the growth of the hash table and in the
  matching loops of the order book, where the properties show that it suffices, and in two loops of the venue that serve client orders from the mirrored feed:
  there the result is an option, \<open>Venue_mirror_ends\<close> shows that as many rounds as client orders and two more suffice, and the properties of the exchange session are
  about the runs that return. The loops of a replay, of the compressed reader and of the program for recorded feeds are partial functions; \<open>MarketReplay_plays_file\<close> and \<open>FeedTool_clean_exit\<close> show that they return, and \<open>MarketReplay_empty_day_hangs\<close> the case where
  the replay does not.

  \<^bold>\<open>Not modelled.\<close> Opening sockets, the recorders of the latency statistics (a thread that feeds a third-party histogram and writes files) and the histogram,
  the loaders of configurations (calls of a TOML library), the runners and the programs around the two sessions, prefetching, memory placement and printing: system calls, input
  and output, or code whose effect is outside the state of the system. The sessions are modelled as built without software timing.
\<close>

section \<open>From the exchange to the trading session\<close>

lemma stream_packet_in_order:
  assumes "stream_ok n (p # ps)" and "st_started t \<longrightarrow> st_expected t = n"
  shows "kHeaderSize \<le> length p" and
    "SequenceTracker_onPacket (sequenceOf p) (countOf p) t = (InOrder, t\<lparr>st_started := True, st_expected := n + of_nat (length (forEachMessage p))\<rparr>)"
proof -
  have p: "forEachMessage p \<noteq> []" "sequenceOf p = n" "unat (countOf p) = length (forEachMessage p)" using assms(1) by auto
  show "kHeaderSize \<le> length p" using p(1) by (auto simp: forEachMessage_def split: if_splits)
  have c: "countOf p \<noteq> kHeartbeat" "countOf p \<noteq> kEndOfSession" using p(1) by (auto simp: forEachMessage_def Let_def split: if_splits)
  have u: "ucast (countOf p) = (of_nat (length (forEachMessage p)) :: u64)" by (simp flip: p(3))
  show "SequenceTracker_onPacket (sequenceOf p) (countOf p) t = (InOrder, t\<lparr>st_started := True, st_expected := n + of_nat (length (forEachMessage p))\<rparr>)"
    using assms(2) p(2) c u by (cases "st_started t") (simp_all add: SequenceTracker_onPacket_def Let_def)
qed

lemma stream_keeps_feed:
  assumes "stream_ok n ps" and "st_started (ds_seq d) \<longrightarrow> st_expected (ds_seq d) = n" and "ds_feedValid d"
  shows "ds_feedValid (fold (\<lambda>p. DutSession_onMarketData ops sq tx_room p 0 0) ps d) \<and>
    ds_feedFaults (fold (\<lambda>p. DutSession_onMarketData ops sq tx_room p 0 0) ps d) = ds_feedFaults d \<and>
    st_missed (ds_seq (fold (\<lambda>p. DutSession_onMarketData ops sq tx_room p 0 0) ps d)) = st_missed (ds_seq d) \<and>
    st_stale (ds_seq (fold (\<lambda>p. DutSession_onMarketData ops sq tx_room p 0 0) ps d)) = st_stale (ds_seq d) \<and>
    ds_packets (fold (\<lambda>p. DutSession_onMarketData ops sq tx_room p 0 0) ps d) = ds_packets d + of_nat (length ps)"
  using assms
proof (induction ps arbitrary: n d)
  case (Cons p ps)
  note io = stream_packet_in_order [OF Cons.prems(1,2)]
  define d' where "d' = DutSession_onMarketData ops sq tx_room p 0 0 d"
  have k: "feed_kept (d\<lparr>ds_seq := (ds_seq d)\<lparr>st_started := True, st_expected := n + of_nat (length (forEachMessage p))\<rparr>, ds_packets := ds_packets d + 1\<rparr>) d'"
    unfolding d'_def DutSession_onMarketData_def by (rule applyPacket_in_order [OF io])
  then show ?case using Cons.IH [of "n + of_nat (length (forEachMessage p))" d'] Cons.prems
    by (simp add: feed_kept_def d'_def [symmetric])
qed simp



end
